(* ===== verification/Prelude.thy ===== *)
theory Prelude
  imports Main "HOL-Library.Word"
begin

text \<open>
  Shared vocabulary of the development: the integer widths of the program, the result type of
  operations that throw or return an error, and the generic list and word lemmas that several
  components use.

  Conventions. A \<open>std::size_t\<close> or \<open>std::uint64_t\<close> that is only counted with is a \<^typ>\<open>nat\<close>
  bounded by \<open>size_max\<close>; a \<open>std::uint32_t\<close> is a \<^typ>\<open>nat\<close> bounded by \<open>u32_max\<close>, and an unchecked
  narrowing conversion is written as the remainder that the language prescribes. Values that are
  hashed or bit-manipulated are words. A byte is an \<open>8 word\<close>, and a \<open>std::string\<close> is a list of bytes.
\<close>

unbundle bit_operations_syntax

section \<open>Widths\<close>

type_synonym byte = "8 word"
type_synonym u16 = "16 word"
type_synonym u32 = "32 word"
type_synonym u64 = "64 word"

abbreviation size_max :: nat where "size_max \<equiv> 18446744073709551615"
abbreviation u32_max :: nat where "u32_max \<equiv> 4294967295"

abbreviation wrap32 :: "nat \<Rightarrow> nat" where "wrap32 n \<equiv> n mod 4294967296"
abbreviation wrap64 :: "nat \<Rightarrow> nat" where "wrap64 n \<equiv> n mod 18446744073709551616"

section \<open>Results\<close>

text \<open>The exceptions of the standard library that the modelled code throws, with their message.\<close>

datatype cxx_error =
    Overflow_Error string
  | Runtime_Error string
  | Invalid_Argument string
  | Logic_Error string
  | Length_Error string
  | Out_Of_Range string
  | Mask_Run_Capacity_Error nat

text \<open>
  An operation on an object that may throw part-way: the exception, if one left it, and the object
  as the operation left it. \<open>and_then\<close> runs the next statement only when none was thrown.
\<close>

type_synonym 's effect = "cxx_error option \<times> 's"

fun and_then :: "'e option \<times> 's \<Rightarrow> ('s \<Rightarrow> 'e option \<times> 's) \<Rightarrow> 'e option \<times> 's" where
  "and_then (Some e, s) f = (Some e, s)"
| "and_then (None, s) f = f s"

lemma and_then_None_iff: "and_then m f = (None, t) \<longleftrightarrow> (\<exists>s. m = (None, s) \<and> f s = (None, t))"
  by (cases "(m, f)" rule: and_then.cases) auto

text \<open>
  An operation that may throw or return an unexpected value yields \<open>Inl\<close> of the error or \<open>Inr\<close> of
  the result. \<open>bindr\<close> is the early return on an error that the code writes out after each call.
\<close>

fun bindr :: "'e + 'a \<Rightarrow> ('a \<Rightarrow> 'e + 'b) \<Rightarrow> 'e + 'b" where
  "bindr (Inl e) f = Inl e"
| "bindr (Inr a) f = f a"

lemma bindr_Inr_iff: "bindr m f = Inr b \<longleftrightarrow> (\<exists>a. m = Inr a \<and> f a = Inr b)"
  by (cases m) auto

lemma bindr_Inl_iff: "bindr m f = Inl e \<longleftrightarrow> m = Inl e \<or> (\<exists>a. m = Inr a \<and> f a = Inl e)"
  by (cases m) auto

lemma bindr_cong [fundef_cong]:
  "m = m' \<Longrightarrow> (\<And>a. m' = Inr a \<Longrightarrow> f a = f' a) \<Longrightarrow> bindr m f = bindr m' f'"
  by (cases m') auto

definition is_ok :: "'e + 'a \<Rightarrow> bool" where
  "is_ok r = (case r of Inl _ \<Rightarrow> False | Inr _ \<Rightarrow> True)"

lemma is_ok_simps [simp]: "is_ok (Inr a)" "\<not> is_ok (Inl e)"
  by (simp_all add: is_ok_def)

lemma is_ok_iff: "is_ok r \<longleftrightarrow> (\<exists>a. r = Inr a)"
  by (cases r) auto

section \<open>Lists\<close>

lemma take_append_drop_mid: "i \<le> j \<Longrightarrow> take i xs @ take (j - i) (drop i xs) = take j xs"
  by (metis le_add_diff_inverse take_add)

lemma list_all_ex_split:
  "\<not> list_all P xs \<Longrightarrow> \<exists>ys z zs. xs = ys @ z # zs \<and> list_all P ys \<and> \<not> P z"
proof (induction xs)
  case Nil
  then show ?case by simp
next
  case (Cons x xs)
  show ?case
  proof (cases "P x")
    case True
    with Cons obtain ys z zs where "xs = ys @ z # zs" "list_all P ys" "\<not> P z" by auto
    with True have "x # xs = (x # ys) @ z # zs \<and> list_all P (x # ys) \<and> \<not> P z" by simp
    then show ?thesis by blast
  next
    case False
    then have "x # xs = [] @ x # xs \<and> list_all P [] \<and> \<not> P x" by simp
    then show ?thesis by blast
  qed
qed

lemma take_length_takeWhile_take:
  "take (length (takeWhile P (take n xs))) xs = takeWhile P (take n xs)"
proof -
  let ?k = "length (takeWhile P (take n xs))"
  have "?k \<le> length (take n xs)" by (rule length_takeWhile_le)
  then have "?k \<le> n" by simp
  then have "take ?k xs = take ?k (take n xs)" by (simp add: min_absorb1)
  also have "\<dots> = takeWhile P (take n xs)" by (rule takeWhile_eq_take [symmetric])
  finally show ?thesis .
qed

lemma nth_via_take: "i < n \<Longrightarrow> take n xs = take n ys \<Longrightarrow> n \<le> length xs \<Longrightarrow> n \<le> length ys \<Longrightarrow> xs ! i = ys ! i"
  by (metis nth_take)

section \<open>Words\<close>

lemma unat_byte_less [simp]: "unat (b :: byte) < 256"
  using unsigned_less [of b] by simp

lemma word_eq_byteI: "unat (a :: byte) = unat b \<Longrightarrow> a = b"
  by (simp add: word_unat_eq_iff)

lemma of_nat_byte_inj: "m < 256 \<Longrightarrow> n < 256 \<Longrightarrow> (of_nat m :: byte) = of_nat n \<longleftrightarrow> m = n"
  by (auto simp: word_unat_eq_iff unat_of_nat take_bit_eq_mod)

lemma unat_of_nat_byte: "n < 256 \<Longrightarrow> unat (of_nat n :: byte) = n"
  by (simp add: unat_of_nat take_bit_eq_mod)

lemma unat_ucast_byte: "unat (ucast (b :: byte) :: u64) = unat b"
proof -
  have "unat b < 2 ^ 64" by (rule less_trans [OF unat_byte_less]) simp
  then show ?thesis by (simp add: unsigned_ucast_eq take_bit_eq_mod)
qed

text \<open>A shift-xor step of a bit mixer loses nothing: the high bits are kept, and each lower bit is
  recovered from the result and the bits above it.\<close>

lemma xor_drop_bit_inject:
  fixes x y :: "'a::len word"
  assumes k: "0 < k" and eq: "x XOR drop_bit k x = y XOR drop_bit k y"
  shows "x = y"
proof (rule bit_word_eqI)
  fix n assume "n < LENGTH('a)"
  have "bit x i = bit y i" for i
  proof (induction "LENGTH('a) - i" arbitrary: i rule: less_induct)
    case less
    show ?case
    proof (cases "i < LENGTH('a)")
      case False
      then show ?thesis by (auto dest: bit_imp_le_length)
    next
      case True
      with k have "bit x (k + i) = bit y (k + i)" by (intro less) auto
      moreover from eq have "bit (x XOR drop_bit k x) i = bit (y XOR drop_bit k y) i" by simp
      ultimately show ?thesis by (auto simp: bit_xor_iff bit_drop_bit_eq)
    qed
  qed
  then show "bit x n = bit y n" .
qed

lemma mult_unit_inject:
  fixes x y c d :: "'a::len word"
  assumes "c * d = 1" and "x * c = y * c"
  shows "x = y"
proof -
  from assms(2) have "x * (c * d) = y * (c * d)" by (metis mult.assoc)
  with assms(1) show ?thesis by simp
qed

end
