(* ===== verification/Common_Math.thy ===== *)
theory Common_Math
  imports Prelude
begin

text \<open>
  The arithmetic helpers of \<open>src/common/math\<close> and the identity helpers of \<open>src/common/types\<close>:
  checked integer conversion, addition and multiplication, the 64-bit mixer that seeds every
  deterministic sample, the monotonic identities and generations, and the FNV-1a identity of a
  text. The lemmas show when the checked operations succeed and that the mixer and the
  single-byte step of the hash lose no information.
\<close>

section \<open>Checked arithmetic\<close>

text \<open>An integer type of the language, as \<open>std::is_signed_v\<close> and \<open>std::numeric_limits\<close> see it.\<close>

record cxx_int =
  is_signed :: bool
  int_width :: nat

definition cxx_min :: "cxx_int \<Rightarrow> int" where
  "cxx_min T = (if is_signed T then - (2 ^ (int_width T - 1)) else 0)"

definition cxx_max :: "cxx_int \<Rightarrow> int" where
  "cxx_max T = (if is_signed T then 2 ^ (int_width T - 1) - 1 else 2 ^ int_width T - 1)"

definition representable :: "cxx_int \<Rightarrow> int \<Rightarrow> bool" where
  "representable T v \<longleftrightarrow> cxx_min T \<le> v \<and> v \<le> cxx_max T"

text \<open>\<open>U\<close> is the type of the source value, \<open>T\<close> the target; the branches are the code's.\<close>

definition checked_cast :: "cxx_int \<Rightarrow> cxx_int \<Rightarrow> int \<Rightarrow> string \<Rightarrow> cxx_error + int" where
  "checked_cast T U v ctx =
     (if is_signed U then
        (if is_signed T then
           (if v < cxx_min T \<or> v > cxx_max T then Inl (Overflow_Error ctx) else Inr v)
         else if v < 0 \<or> v > cxx_max T then Inl (Overflow_Error ctx) else Inr v)
      else if v > cxx_max T then Inl (Overflow_Error ctx) else Inr v)"

definition checked_add :: "'a::len word \<Rightarrow> 'a word \<Rightarrow> string \<Rightarrow> cxx_error + 'a word" where
  "checked_add left right ctx =
     (if right > - 1 - left then Inl (Overflow_Error ctx) else Inr (left + right))"

definition checked_multiply :: "'a::len word \<Rightarrow> 'a word \<Rightarrow> string \<Rightarrow> cxx_error + 'a word" where
  "checked_multiply left right ctx =
     (if left \<noteq> 0 \<and> right > (- 1) div left then Inl (Overflow_Error ctx) else Inr (left * right))"

text \<open>The same checks where a component counts with natural numbers below \<open>2 ^ 64\<close> or \<open>2 ^ 32\<close>.\<close>

definition checked_cast_u32 :: "nat \<Rightarrow> string \<Rightarrow> cxx_error + nat" where
  "checked_cast_u32 v ctx = (if v > u32_max then Inl (Overflow_Error ctx) else Inr v)"

definition checked_add_size :: "nat \<Rightarrow> nat \<Rightarrow> string \<Rightarrow> cxx_error + nat" where
  "checked_add_size left right ctx =
     (if right > size_max - left then Inl (Overflow_Error ctx) else Inr (wrap64 (left + right)))"

definition checked_multiply_size :: "nat \<Rightarrow> nat \<Rightarrow> string \<Rightarrow> cxx_error + nat" where
  "checked_multiply_size left right ctx =
     (if left \<noteq> 0 \<and> right > size_max div left then Inl (Overflow_Error ctx)
      else Inr (wrap64 (left * right)))"

text \<open>Subtraction of 64-bit unsigned integers.\<close>

definition sub64 :: "nat \<Rightarrow> nat \<Rightarrow> nat" where
  "sub64 a b = wrap64 (a + 18446744073709551616 - b)"

lemma sub64_eq: "b \<le> a \<Longrightarrow> a \<le> size_max \<Longrightarrow> sub64 a b = a - b"
proof -
  assume "b \<le> a" "a \<le> size_max"
  then have "a + 18446744073709551616 - b = (a - b) + 18446744073709551616" "a - b < 18446744073709551616" by simp_all
  then show ?thesis by (simp only: sub64_def mod_add_self2 mod_less)
qed

lemma checked_cast_u32_simp [simp]:
  "v \<le> u32_max \<Longrightarrow> checked_cast_u32 v ctx = Inr v"
  "v > u32_max \<Longrightarrow> checked_cast_u32 v ctx = Inl (Overflow_Error ctx)"
  by (simp_all add: checked_cast_u32_def)

lemma checked_cast_u32_Inr: "checked_cast_u32 v ctx = Inr w \<longleftrightarrow> v = w \<and> v \<le> u32_max"
  by (auto simp: checked_cast_u32_def)

lemma checked_add_size_eq:
  "left \<le> size_max \<Longrightarrow> right \<le> size_max \<Longrightarrow> checked_add_size left right ctx =
     (if left + right \<le> size_max then Inr (left + right) else Inl (Overflow_Error ctx))"
  by (auto simp: checked_add_size_def)

lemma checked_multiply_size_eq:
  "checked_multiply_size left right ctx =
     (if left * right \<le> size_max then Inr (left * right) else Inl (Overflow_Error ctx))"
proof (cases "left = 0")
  case False
  then have "right > size_max div left \<longleftrightarrow> size_max < right * left"
    by (simp add: div_less_iff_less_mult)
  with False show ?thesis by (auto simp: checked_multiply_size_def mult.commute)
qed (simp add: checked_multiply_size_def)

lemma unat_minus_one_word: "unat (- 1 - w :: 'a::len word) = 2 ^ LENGTH('a) - 1 - unat w"
proof -
  have "w \<le> - 1" by simp
  then have "unat (- 1 - w) = unat (- 1 :: 'a word) - unat w"
    by (simp add: unat_sub)
  then show ?thesis by (simp add: unsigned_minus_1_eq_mask mask_eq_exp_minus_1)
qed

section \<open>Deterministic sampling\<close>

definition deterministic_mix64 :: "u64 \<Rightarrow> u64" where
  "deterministic_mix64 value =
     (let v0 = value + 0x9e3779b97f4a7c15;
          v1 = (v0 XOR drop_bit 30 v0) * 0xbf58476d1ce4e5b9;
          v2 = (v1 XOR drop_bit 27 v1) * 0x94d049bb133111eb
      in v2 XOR drop_bit 31 v2)"

lemma mix64_multiplier_units:
  "(0xbf58476d1ce4e5b9 :: u64) * 10871156337175269513 = 1"
  "(0x94d049bb133111eb :: u64) * 3573116690164977347 = 1"
  by simp_all

lemma deterministic_mix64_injective: "deterministic_mix64 x = deterministic_mix64 y \<Longrightarrow> x = y"
  unfolding deterministic_mix64_def Let_def
  by (drule xor_drop_bit_inject [rotated], simp,
      drule mult_unit_inject [OF mix64_multiplier_units(2)],
      drule xor_drop_bit_inject [rotated], simp,
      drule mult_unit_inject [OF mix64_multiplier_units(1)],
      drule xor_drop_bit_inject [rotated], simp, simp)

section \<open>Monotonic identities and generations\<close>

definition advance_monotonic_identity :: "u64 \<Rightarrow> u64 \<Rightarrow> cxx_error + u64" where
  "advance_monotonic_identity current step =
     (if step = 0 \<or> current > - 1 - step
      then Inl (Overflow_Error ''monotonic identity exhausted'') else Inr (current + step))"

text \<open>The result and the updated counter that the code takes by reference.\<close>

definition take_monotonic_identity :: "u64 \<Rightarrow> u64 \<Rightarrow> cxx_error + (u64 \<times> u64)" where
  "take_monotonic_identity next_id step =
     (if next_id = 0 \<or> next_id > - 1 - step
      then Inl (Overflow_Error ''monotonic identity exhausted'') else Inr (next_id, next_id + step))"

definition advance_generation :: "u64 \<Rightarrow> bool \<times> u64" where
  "advance_generation generation =
     (if generation = - 1 then (False, generation) else (True, generation + 1))"

text \<open>The identities that \<open>n\<close> successive calls hand out from one counter.\<close>

fun take_identities :: "nat \<Rightarrow> u64 \<Rightarrow> u64 \<Rightarrow> cxx_error + u64 list" where
  "take_identities 0 next_id step = Inr []"
| "take_identities (Suc n) next_id step =
     bindr (take_monotonic_identity next_id step) (\<lambda>(result, next').
       bindr (take_identities n next' step) (\<lambda>rest. Inr (result # rest)))"

lemma unat_add_guarded:
  fixes current step :: "'a::len word"
  shows "\<not> current > - 1 - step \<Longrightarrow> unat (current + step) = unat current + unat step"
proof -
  assume "\<not> current > - 1 - step"
  then have "unat current \<le> 2 ^ LENGTH('a) - 1 - unat step"
    by (simp only: not_less word_le_nat_alt unat_minus_one_word)
  moreover have "unat step < 2 ^ LENGTH('a)" by (rule unsigned_less)
  ultimately have "unat current + unat step < 2 ^ LENGTH('a)" by linarith
  then show ?thesis by (rule unat_add_lem [THEN iffD1])
qed

lemma take_identities_bounds:
  assumes "take_identities n next_id step = Inr ids" and "0 < step"
  shows "sorted_wrt (<) ids \<and> (\<forall>i\<in>set ids. next_id \<le> i \<and> i \<noteq> 0)"
  using assms(1)
proof (induction n arbitrary: next_id ids)
  case 0
  then show ?case by simp
next
  case (Suc n)
  then obtain rest where ids: "ids = next_id # rest"
    and rest: "take_identities n (next_id + step) step = Inr rest"
    and guard: "next_id \<noteq> 0" "\<not> next_id > - 1 - step"
    by (auto simp: bindr_Inr_iff take_monotonic_identity_def split: if_splits)
  have less: "next_id < next_id + step"
    using unat_add_guarded [OF guard(2)] \<open>0 < step\<close>
    by (simp add: word_less_nat_alt)
  from Suc.IH [OF rest] ids guard less show ?case
    by (auto intro: less_le_trans dest: order.strict_implies_order order_trans)
qed

section \<open>Stable identities\<close>

definition kOffset :: u64 where "kOffset = 14695981039346656037"
definition kPrime :: u64 where "kPrime = 1099511628211"

definition append_byte :: "u64 \<Rightarrow> byte \<Rightarrow> u64" where
  "append_byte value b = (value XOR ucast b) * kPrime"

definition append_text :: "u64 \<Rightarrow> byte list \<Rightarrow> u64" where
  "append_text value bytes = foldl append_byte value bytes"

text \<open>\<open>sizeof(Integer)\<close> is the number of whole bytes of the word type.\<close>

definition append_little_endian :: "u64 \<Rightarrow> 'a::len word \<Rightarrow> u64" where
  "append_little_endian value integer =
     foldl (\<lambda>v index. append_byte v (ucast (drop_bit (index * 8) integer))) value
       [0 ..< LENGTH('a) div 8]"

definition from_text :: "byte list \<Rightarrow> u64" where
  "from_text text = append_text kOffset text"

definition nonzero :: "u64 \<Rightarrow> u64" where
  "nonzero value = (if value = 0 then 1 else value)"

lemma kPrime_unit: "kPrime * 14886173955864302971 = 1"
  by (simp add: kPrime_def)

lemma xor_right_cancel: "a XOR c = b XOR c \<Longrightarrow> a = (b :: 'a::len word)"
  by (metis xor.assoc xor.right_neutral xor_self_eq)

lemma append_byte_state_inject: "append_byte v b = append_byte w b \<Longrightarrow> v = w"
  unfolding append_byte_def
  by (drule mult_unit_inject [OF kPrime_unit]) (rule xor_right_cancel)

lemma append_byte_byte_inject: "append_byte v b = append_byte v c \<Longrightarrow> b = c"
proof -
  assume "append_byte v b = append_byte v c"
  then have "v XOR ucast b = v XOR (ucast c :: u64)"
    unfolding append_byte_def by (rule mult_unit_inject [OF kPrime_unit])
  then have "(ucast b :: u64) = ucast c"
    by (metis xor.commute xor_right_cancel)
  then have "unat (ucast b :: u64) = unat (ucast c :: u64)" by simp
  then show "b = c" by (simp add: unat_ucast_byte word_unat_eq_iff)
qed

lemma append_text_state_inject: "append_text v bs = append_text w bs \<Longrightarrow> v = w"
  unfolding append_text_def
  by (induction bs arbitrary: v w) (auto dest: append_byte_state_inject)

lemma append_text_append: "append_text v (xs @ ys) = append_text (append_text v xs) ys"
  by (simp add: append_text_def)

lemma append_text_Cons: "append_text v (b # bs) = append_text (append_byte v b) bs"
  by (simp add: append_text_def)

section \<open>Properties\<close>

text \<open>
  Whatever the two integer types are, a checked conversion of a value of the source type
  returns it unchanged exactly when the target type can represent it, and throws otherwise.
\<close>

theorem checked_cast_exact:
  assumes "representable U v"
  shows "checked_cast T U v ctx = (if representable T v then Inr v else Inl (Overflow_Error ctx))"
proof -
  have "cxx_min T \<le> 0" by (simp add: cxx_min_def)
  moreover have "\<not> is_signed U \<Longrightarrow> 0 \<le> v" using assms by (simp add: representable_def cxx_min_def)
  moreover have "\<not> is_signed T \<Longrightarrow> cxx_min T = 0" by (simp add: cxx_min_def)
  ultimately show ?thesis by (auto simp: checked_cast_def representable_def)
qed

theorem checked_cast_exact_witness:
  "checked_cast \<lparr>is_signed = False, int_width = 8\<rparr> \<lparr>is_signed = True, int_width = 32\<rparr> (- 1) ''negative''
    = Inl (Overflow_Error ''negative'')"
  using checked_cast_exact [of "\<lparr>is_signed = True, int_width = 32\<rparr>" "- 1"
      "\<lparr>is_signed = False, int_width = 8\<rparr>" "''negative''"]
  by (simp add: representable_def cxx_min_def cxx_max_def)

text \<open>
  The identities that successive calls take from one counter are pairwise distinct, strictly
  increasing and never zero, however often the counter is used: it throws rather than wrap around.
\<close>

theorem take_identities_distinct:
  assumes "take_identities n next_id step = Inr ids" and "0 < step"
  shows "distinct ids \<and> sorted_wrt (<) ids \<and> 0 \<notin> set ids"
  using take_identities_bounds [OF assms] by (auto simp: strict_sorted_iff)

theorem take_identities_distinct_witness: "distinct [1 :: u64, 4, 7]"
  using take_identities_distinct [of 3 1 3 "[1, 4, 7]"]
  by (simp add: numeral_3_eq_3 take_monotonic_identity_def)

text \<open>
  The stable identity of a text changes whenever one byte of it is replaced by another.
\<close>

theorem from_text_substitution:
  "from_text (xs @ b # ys) = from_text (xs @ c # ys) \<longleftrightarrow> b = c"
  by (auto simp: from_text_def append_text_append append_text_Cons
      dest: append_text_state_inject append_byte_byte_inject)

end
