(* ===== verification/Common_Text.thy ===== *)
theory Common_Text
  imports Common_Math
begin

text \<open>
  The text and container helpers of \<open>src/common/types\<close>: hexadecimal encoding, trimming and
  lower-casing of HTTP fields, the constant-time comparison of session tokens, UTF-8 recognition
  with its vectorised fast path, and in-place sorting without duplicates.

  The lemmas relate each routine to a reference: the UTF-8 recogniser to the encodings of the
  Unicode scalar values, its vectorised loop to the scalar loop, the comparison to equality.
\<close>

section \<open>Hexadecimal text\<close>

definition kDigits :: "byte list" where
  "kDigits = [48, 49, 50, 51, 52, 53, 54, 55, 56, 57, 97, 98, 99, 100, 101, 102]"

definition hex_encode :: "byte list \<Rightarrow> byte list" where
  "hex_encode bytes =
     concat (map (\<lambda>b. [kDigits ! unat (drop_bit 4 b), kDigits ! unat (b AND 0x0F)]) bytes)"

text \<open>The reader of the text: the inverse that every consumer of the digest assumes.\<close>

definition hex_value :: "byte \<Rightarrow> nat option" where
  "hex_value c = (if 48 \<le> c \<and> c \<le> 57 then Some (unat c - 48)
                  else if 97 \<le> c \<and> c \<le> 102 then Some (unat c - 87) else None)"

fun hex_decode :: "byte list \<Rightarrow> byte list option" where
  "hex_decode [] = Some []"
| "hex_decode [_] = None"
| "hex_decode (h # l # rest) =
     (case (hex_value h, hex_value l, hex_decode rest) of
        (Some a, Some b, Some bs) \<Rightarrow> Some (of_nat (a * 16 + b) # bs)
      | _ \<Rightarrow> None)"

lemma hex_value_kDigits: "n < 16 \<Longrightarrow> hex_value (kDigits ! n) = Some n"
proof -
  have "\<forall>n\<in>set [0..<16]. hex_value (kDigits ! n) = Some n" by code_simp
  then show "n < 16 \<Longrightarrow> hex_value (kDigits ! n) = Some n" by auto
qed

lemma nibbles_of_byte:
  fixes b :: byte
  shows "unat (drop_bit 4 b) = unat b div 16" and "unat (b AND 0x0F) = unat b mod 16"
proof -
  show "unat (drop_bit 4 b) = unat b div 16"
    by (subst unat_drop_bit_eq) (simp add: drop_bit_eq_div)
  have "b AND 0x0F = take_bit 4 b" by (simp add: take_bit_eq_mask mask_numeral)
  then show "unat (b AND 0x0F) = unat b mod 16"
    by (simp only: unsigned_take_bit_eq) (simp add: take_bit_eq_mod)
qed

section \<open>HTTP field text\<close>

definition trim_http_field_value :: "byte list \<Rightarrow> byte list" where
  "trim_http_field_value value =
     (let front = dropWhile (\<lambda>c. c = 32 \<or> c = 9) value
      in rev (dropWhile (\<lambda>c. c = 32 \<or> c = 9 \<or> c = 13 \<or> c = 10) (rev front)))"

text \<open>\<open>std::tolower\<close> in the program's \<open>"C"\<close> locale.\<close>

definition cxx_tolower :: "byte \<Rightarrow> byte" where
  "cxx_tolower c = (if 65 \<le> c \<and> c \<le> 90 then c + 32 else c)"

definition to_lower :: "byte list \<Rightarrow> byte list" where
  "to_lower value = map cxx_tolower value"

definition byte_at :: "byte list \<Rightarrow> nat \<Rightarrow> byte" where
  "byte_at text index = (if index < length text then text ! index else 0)"

definition constant_time_equal :: "byte list \<Rightarrow> byte list \<Rightarrow> bool" where
  "constant_time_equal left right =
     (let difference = (of_nat (length left) :: u64) XOR of_nat (length right);
          width = max (length left) (length right)
      in foldl (\<lambda>d index. d OR ucast (byte_at left index XOR byte_at right index))
           difference [0 ..< width] = 0)"

lemma foldl_or_zero_iff:
  "foldl (\<lambda>d i. d OR f i) (d0 :: 'a::len word) xs = 0 \<longleftrightarrow> d0 = 0 \<and> (\<forall>i\<in>set xs. f i = 0)"
  by (induction xs arbitrary: d0) (auto simp: or_eq_0_iff)

lemma xor_eq_0_iff: "a XOR b = 0 \<longleftrightarrow> a = (b :: 'a::len word)"
  by (metis xor_right_cancel xor_self_eq)

lemma ucast_byte_eq_0_iff: "(ucast (b :: byte) :: u64) = 0 \<longleftrightarrow> b = 0"
  by (metis unat_ucast_byte unsigned_0 unsigned_eq_0_iff)

section \<open>UTF-8\<close>

text \<open>The number of bytes a lead byte announces; 0 for a byte that starts no scalar.\<close>

definition utf8_lead_length :: "byte \<Rightarrow> nat" where
  "utf8_lead_length first =
     (if 0xc2 \<le> first \<and> first \<le> 0xdf then 2
      else if 0xe0 \<le> first \<and> first \<le> 0xef then 3
      else if 0xf0 \<le> first \<and> first \<le> 0xf4 then 4 else 0)"

definition utf8_rejects :: "byte \<Rightarrow> nat \<Rightarrow> byte \<Rightarrow> bool" where
  "utf8_rejects first index nxt \<longleftrightarrow>
     nxt < 0x80 \<or> nxt > 0xbf \<or>
     index = 1 \<and> (first = 0xe0 \<and> nxt < 0xa0 \<or> first = 0xed \<and> nxt > 0x9f \<or>
                  first = 0xf0 \<and> nxt < 0x90 \<or> first = 0xf4 \<and> nxt > 0x8f)"

definition utf8_prefix_length :: "byte list \<Rightarrow> nat" where
  "utf8_prefix_length text =
     (case text of
        [] \<Rightarrow> 0
      | first # _ \<Rightarrow>
          if first < 0x80 then 1
          else let len = utf8_lead_length first in
            if len = 0 \<or> length text < len then 0
            else if list_ex (\<lambda>index. utf8_rejects first index (text ! index)) [1 ..< len] then 0
            else len)"

lemma utf8_prefix_length_le: "utf8_prefix_length text \<le> length text"
  by (auto simp: utf8_prefix_length_def Let_def split: list.splits)

text \<open>The scalar loop.\<close>

function valid_utf8_scalar :: "byte list \<Rightarrow> bool" where
  "valid_utf8_scalar text =
     (if text = [] then True
      else let len = utf8_prefix_length text in
        if len = 0 then False else valid_utf8_scalar (drop len text))"
  by pat_completeness auto
termination by (relation "measure length") auto

declare valid_utf8_scalar.simps [simp del]

text \<open>
  The loop with the 32-byte ASCII fast path. \<open>high_bits\<close> holds the sign bit of each of the first
  32 bytes, lane by lane, as the move-mask instruction collects them; the index of its first set
  lane is the count of trailing zeros.
\<close>

definition utf8_high_bits :: "byte list \<Rightarrow> bool list" where
  "utf8_high_bits text = map (\<lambda>b. bit b 7) (take 32 text)"

definition mask_countr_zero :: "bool list \<Rightarrow> nat" where
  "mask_countr_zero lanes = length (takeWhile Not lanes)"

function valid_utf8 :: "byte list \<Rightarrow> bool" where
  "valid_utf8 text =
     (if text = [] then True
      else if 32 \<le> length text \<and> hd text < 0x80 then
        (let high_bits = utf8_high_bits text in
         if \<not> list_ex id high_bits then valid_utf8 (drop 32 text)
         else let text' = drop (mask_countr_zero high_bits) text;
                  len = utf8_prefix_length text'
              in if len = 0 then False else valid_utf8 (drop len text'))
      else let len = utf8_prefix_length text in
        if len = 0 then False else valid_utf8 (drop len text))"
  by pat_completeness auto
termination
  by (relation "measure length") (auto simp: Let_def)

declare valid_utf8.simps [simp del]

lemma high_bit_byte: "bit (b :: byte) 7 \<longleftrightarrow> \<not> b < 0x80"
proof -
  have "bit b 7 \<longleftrightarrow> bit (unat b) 7"
    by (simp add: bit_unsigned_iff)
  also have "\<dots> \<longleftrightarrow> odd (unat b div 128)"
    by (simp add: bit_iff_odd)
  also have "\<dots> \<longleftrightarrow> unat b \<ge> 128"
  proof (cases "unat b < 128")
    case False
    moreover have "unat b < 256" by simp
    ultimately have "unat b div 128 = 1" by linarith
    with False show ?thesis by simp
  qed simp
  finally show ?thesis by (auto simp: word_less_nat_alt)
qed

lemma valid_utf8_scalar_ascii:
  "\<forall>b\<in>set pre. b < 0x80 \<Longrightarrow> valid_utf8_scalar (pre @ text) = valid_utf8_scalar text"
proof (induction pre)
  case (Cons b pre)
  have "valid_utf8_scalar ((b # pre) @ text) = valid_utf8_scalar (pre @ text)"
    using Cons.prems
    by (subst valid_utf8_scalar.simps) (simp add: utf8_prefix_length_def)
  with Cons show ?case by simp
qed simp

lemma takeWhile_Not_high_bits:
  "\<forall>b\<in>set (take (mask_countr_zero (utf8_high_bits text)) text). b < 0x80"
proof -
  have "take (mask_countr_zero (utf8_high_bits text)) text
      = takeWhile (\<lambda>b. b < 0x80) (take 32 text)"
    by (simp add: mask_countr_zero_def utf8_high_bits_def takeWhile_map comp_def high_bit_byte
        take_length_takeWhile_take)
  then show ?thesis by (auto dest: set_takeWhileD)
qed

lemma valid_utf8_eq_scalar: "valid_utf8 text = valid_utf8_scalar text"
proof (induction "text" rule: valid_utf8.induct)
  case (1 bs)
  let ?bits = "utf8_high_bits bs"
  let ?skip = "mask_countr_zero ?bits"
  show ?case
  proof (cases "bs \<noteq> [] \<and> 32 \<le> length bs \<and> hd bs < 0x80")
    case fast: True
    show ?thesis
    proof (cases "list_ex id ?bits")
      case False
      then have "\<forall>b\<in>set (take 32 bs). b < 0x80"
        by (auto simp: utf8_high_bits_def list_ex_iff high_bit_byte)
      then have "valid_utf8_scalar (take 32 bs @ drop 32 bs) = valid_utf8_scalar (drop 32 bs)"
        by (rule valid_utf8_scalar_ascii)
      with 1(1) fast False show ?thesis
        by (subst valid_utf8.simps) (simp add: Let_def)
    next
      case True
      have "valid_utf8_scalar (take ?skip bs @ drop ?skip bs) = valid_utf8_scalar (drop ?skip bs)"
        by (rule valid_utf8_scalar_ascii) (rule takeWhile_Not_high_bits)
      then have skip: "valid_utf8_scalar bs = valid_utf8_scalar (drop ?skip bs)" by simp
      have "?skip < length ?bits"
      proof -
        from True obtain b where "b \<in> set ?bits" "b" by (auto simp: list_ex_iff)
        then have "takeWhile Not ?bits \<noteq> ?bits" by (metis set_takeWhileD)
        then show ?thesis
          unfolding mask_countr_zero_def
          by (metis length_takeWhile_le order_le_less take_all takeWhile_eq_take)
      qed
      then have "drop ?skip bs \<noteq> []" by (auto simp: utf8_high_bits_def)
      with 1(2) fast True skip show ?thesis
        by (subst valid_utf8.simps, subst (asm) valid_utf8_scalar.simps [of "drop ?skip bs"])
          (simp add: Let_def)
    qed
  next
    case False
    with 1(3) show ?thesis
      by (subst valid_utf8.simps, subst valid_utf8_scalar.simps) (auto simp: Let_def)
  qed
qed

subsection \<open>The encodings of the Unicode scalar values\<close>

definition unicode_scalar :: "nat \<Rightarrow> bool" where
  "unicode_scalar c \<longleftrightarrow> c < 0xD800 \<or> 0xE000 \<le> c \<and> c \<le> 0x10FFFF"

definition utf8_encode :: "nat \<Rightarrow> nat list" where
  "utf8_encode c =
     (if c < 0x80 then [c]
      else if c < 0x800 then [192 + c div 64, 128 + c mod 64]
      else if c < 0x10000 then [224 + c div 4096, 128 + c div 64 mod 64, 128 + c mod 64]
      else [240 + c div 262144, 128 + c div 4096 mod 64, 128 + c div 64 mod 64, 128 + c mod 64])"

lemma utf8_encode_not_Nil [simp]: "utf8_encode c \<noteq> []"
  by (simp add: utf8_encode_def)

lemma byte_eq_unat: "(b :: byte) = numeral n \<longleftrightarrow> unat b = unat (numeral n :: byte)"
  by (rule word_unat_eq_iff)

lemmas byte_order_unat = word_less_nat_alt word_le_nat_alt byte_eq_unat

lemma upt_1_numeral:
  "[Suc 0 ..< 2] = [1]" "[Suc 0 ..< 3] = [1, 2]" "[Suc 0 ..< 4] = [1, 2, 3]"
  by (simp_all add: upt_rec)

lemmas utf8_prefix_defs =
  utf8_prefix_length_def utf8_lead_length_def utf8_rejects_def byte_order_unat upt_1_numeral Let_def

lemma utf8_prefix_1: "utf8_prefix_length (b0 # bs) = Suc 0 \<longleftrightarrow> unat b0 < 128"
  by (auto simp: utf8_prefix_defs split: if_splits)

lemma utf8_prefix_2:
  "utf8_prefix_length text = 2 \<longleftrightarrow>
   (\<exists>b0 b1 tl. text = b0 # b1 # tl \<and> 194 \<le> unat b0 \<and> unat b0 \<le> 223 \<and>
      128 \<le> unat b1 \<and> unat b1 \<le> 191)" (is "?l \<longleftrightarrow> ?r")
proof
  assume ?l
  then obtain b0 tl0 where "text = b0 # tl0" by (cases "text") (auto simp: utf8_prefix_length_def)
  moreover from \<open>?l\<close> this have "2 \<le> length text" using utf8_prefix_length_le [of "text"] by simp
  ultimately obtain b1 tl where "text = b0 # b1 # tl" by (cases tl0) auto
  with \<open>?l\<close> show ?r by (auto simp: utf8_prefix_defs split: if_splits)
next
  assume ?r
  then show ?l by (auto simp: utf8_prefix_defs)
qed

lemma utf8_prefix_3:
  "utf8_prefix_length text = 3 \<longleftrightarrow>
   (\<exists>b0 b1 b2 tl. text = b0 # b1 # b2 # tl \<and> 224 \<le> unat b0 \<and> unat b0 \<le> 239 \<and>
      128 \<le> unat b1 \<and> unat b1 \<le> 191 \<and> 128 \<le> unat b2 \<and> unat b2 \<le> 191 \<and>
      (unat b0 = 224 \<longrightarrow> 160 \<le> unat b1) \<and> (unat b0 = 237 \<longrightarrow> unat b1 \<le> 159))" (is "?l \<longleftrightarrow> ?r")
proof
  assume ?l
  then obtain b0 tl0 where 0: "text = b0 # tl0" by (cases "text") (auto simp: utf8_prefix_length_def)
  from \<open>?l\<close> have "3 \<le> length text" using utf8_prefix_length_le [of "text"] by simp
  with 0 obtain b1 b2 tl where "text = b0 # b1 # b2 # tl"
    by (auto simp: numeral_3_eq_3 Suc_le_length_iff)
  with \<open>?l\<close> show ?r by (auto simp: utf8_prefix_defs split: if_splits)
next
  assume ?r
  then obtain b0 b1 b2 tl where "text = b0 # b1 # b2 # tl" "224 \<le> unat b0" "unat b0 \<le> 239"
      "128 \<le> unat b1" "unat b1 \<le> 191" "128 \<le> unat b2" "unat b2 \<le> 191"
      "unat b0 = 224 \<longrightarrow> 160 \<le> unat b1" "unat b0 = 237 \<longrightarrow> unat b1 \<le> 159" by blast
  then show ?l by (auto simp: utf8_prefix_defs)
qed

lemma utf8_prefix_4:
  "utf8_prefix_length text = 4 \<longleftrightarrow>
   (\<exists>b0 b1 b2 b3 tl. text = b0 # b1 # b2 # b3 # tl \<and> 240 \<le> unat b0 \<and> unat b0 \<le> 244 \<and>
      128 \<le> unat b1 \<and> unat b1 \<le> 191 \<and> 128 \<le> unat b2 \<and> unat b2 \<le> 191 \<and>
      128 \<le> unat b3 \<and> unat b3 \<le> 191 \<and>
      (unat b0 = 240 \<longrightarrow> 144 \<le> unat b1) \<and> (unat b0 = 244 \<longrightarrow> unat b1 \<le> 143))" (is "?l \<longleftrightarrow> ?r")
proof
  assume ?l
  then obtain b0 tl0 where 0: "text = b0 # tl0" by (cases "text") (auto simp: utf8_prefix_length_def)
  from \<open>?l\<close> have "4 \<le> length text" using utf8_prefix_length_le [of "text"] by simp
  with 0 obtain b1 b2 b3 tl where "text = b0 # b1 # b2 # b3 # tl"
    by (auto simp: eval_nat_numeral Suc_le_length_iff)
  with \<open>?l\<close> show ?r by (auto simp: utf8_prefix_defs split: if_splits)
next
  assume ?r
  then obtain b0 b1 b2 b3 tl where "text = b0 # b1 # b2 # b3 # tl" "240 \<le> unat b0" "unat b0 \<le> 244"
      "128 \<le> unat b1" "unat b1 \<le> 191" "128 \<le> unat b2" "unat b2 \<le> 191"
      "128 \<le> unat b3" "unat b3 \<le> 191"
      "unat b0 = 240 \<longrightarrow> 144 \<le> unat b1" "unat b0 = 244 \<longrightarrow> unat b1 \<le> 143" by blast
  then show ?l by (auto simp: utf8_prefix_defs)
qed

lemma utf8_prefix_range: "utf8_prefix_length text \<in> {0, 1, 2, 3, 4}"
  by (auto simp: utf8_prefix_length_def utf8_lead_length_def Let_def split: list.splits)

text \<open>The base-64 digits of a scalar value.\<close>

lemma split_base64:
  fixes c :: nat
  shows "c = c div 64 * 64 + c mod 64"
    and "c = c div 4096 * 4096 + c div 64 mod 64 * 64 + c mod 64"
    and "c = c div 262144 * 262144 + c div 4096 mod 64 * 4096 + c div 64 mod 64 * 64 + c mod 64"
proof -
  have q: "c div 4096 = c div 64 div 64" "c div 262144 = c div 64 div 64 div 64"
    by (simp_all flip: div_mult2_eq)
  note s = div_mult_mod_eq [of c 64] div_mult_mod_eq [of "c div 64" 64]
    div_mult_mod_eq [of "c div 64 div 64" 64]
  show "c = c div 64 * 64 + c mod 64" using s by linarith
  show "c = c div 4096 * 4096 + c div 64 mod 64 * 64 + c mod 64"
    unfolding q using s by linarith
  show "c = c div 262144 * 262144 + c div 4096 mod 64 * 4096 + c div 64 mod 64 * 64 + c mod 64"
    unfolding q using s by linarith
qed

lemma join_base64:
  fixes h k m l :: nat
  assumes "k < 64" "m < 64" "l < 64" and c: "c = h * 262144 + k * 4096 + m * 64 + l"
  shows "c div 262144 = h" "c div 4096 = h * 64 + k" "c div 4096 mod 64 = k"
    "c div 64 mod 64 = m" "c mod 64 = l"
proof -
  have d: "(q * 64 + r) div 64 = q" "(q * 64 + r) mod 64 = r" if "r < 64" for q r :: nat
    using that by simp_all
  have "c = ((h * 64 + k) * 64 + m) * 64 + l" using c by simp
  then have 1: "c div 64 = (h * 64 + k) * 64 + m" "c mod 64 = l"
    by (simp_all only: d [OF \<open>l < 64\<close>])
  then have 2: "c div 64 div 64 = h * 64 + k" "c div 64 mod 64 = m"
    by (simp_all only: d [OF \<open>m < 64\<close>])
  then have 3: "c div 64 div 64 div 64 = h" "c div 64 div 64 mod 64 = k"
    by (simp_all only: d [OF \<open>k < 64\<close>])
  have q: "c div 4096 = c div 64 div 64" "c div 262144 = c div 64 div 64 div 64"
    by (simp_all flip: div_mult2_eq)
  show "c div 262144 = h" "c div 4096 = h * 64 + k" "c div 4096 mod 64 = k"
    "c div 64 mod 64 = m" "c mod 64 = l"
    unfolding q using 1 2 3 by simp_all
qed

lemma scalar_of_base64:
  fixes h m l :: nat
  assumes "h < 16" "m < 64" "l < 64" "h = 0 \<longrightarrow> 32 \<le> m" "h = 13 \<longrightarrow> m < 32"
  shows "unicode_scalar (h * 4096 + m * 64 + l)" "0x800 \<le> h * 4096 + m * 64 + l"
    "h * 4096 + m * 64 + l < 0x10000"
proof -
  consider "h = 0" "32 \<le> m" | "1 \<le> h" "h \<le> 12" | "h = 13" "m < 32" | "14 \<le> h"
    using assms by fastforce
  then show "unicode_scalar (h * 4096 + m * 64 + l)" "0x800 \<le> h * 4096 + m * 64 + l"
    by (cases; use assms in \<open>simp add: unicode_scalar_def\<close>)+
  show "h * 4096 + m * 64 + l < 0x10000" using assms by simp
qed

lemma supplementary_of_base64:
  fixes h k m l :: nat
  assumes "h \<le> 4" "k < 64" "m < 64" "l < 64" "h = 0 \<longrightarrow> 16 \<le> k" "h = 4 \<longrightarrow> k < 16"
  shows "unicode_scalar (h * 262144 + k * 4096 + m * 64 + l)"
    "0x10000 \<le> h * 262144 + k * 4096 + m * 64 + l"
proof -
  consider "h = 0" "16 \<le> k" | "1 \<le> h" "h \<le> 3" | "h = 4" "k < 16"
    using assms by fastforce
  then show "unicode_scalar (h * 262144 + k * 4096 + m * 64 + l)"
    "0x10000 \<le> h * 262144 + k * 4096 + m * 64 + l"
    by (cases; use assms in \<open>simp add: unicode_scalar_def\<close>)+
qed

lemma utf8_prefix_of_encode:
  assumes c: "unicode_scalar c" and t: "map unat text = utf8_encode c @ rest"
  shows "utf8_prefix_length text = length (utf8_encode c)"
proof -
  consider "c < 0x80" | "0x80 \<le> c" "c < 0x800" | "0x800 \<le> c" "c < 0x10000" | "0x10000 \<le> c"
    by linarith
  then show ?thesis
  proof cases
    case 1
    with t show ?thesis by (auto simp: utf8_encode_def map_eq_Cons_conv utf8_prefix_1)
  next
    case 2
    then have "2 \<le> c div 64" "c div 64 < 32" "c mod 64 < 64" by auto
    moreover from 2 t obtain b0 b1 tl where
      "text = b0 # b1 # tl" "unat b0 = 192 + c div 64" "unat b1 = 128 + c mod 64"
      by (auto simp: utf8_encode_def map_eq_Cons_conv)
    ultimately have "utf8_prefix_length text = 2" by (simp add: utf8_prefix_2)
    with 2 show ?thesis by (simp add: utf8_encode_def)
  next
    case 3
    define h m l where "h = c div 4096" and "m = c div 64 mod 64" and "l = c mod 64"
    have "c = h * 4096 + m * 64 + l" unfolding h_def m_def l_def by (rule split_base64)
    moreover have "m < 64" "l < 64" by (simp_all add: m_def l_def)
    ultimately have "h < 16" "h = 0 \<longrightarrow> 32 \<le> m" "h = 13 \<longrightarrow> m < 32"
      using 3 c unfolding unicode_scalar_def by linarith+
    moreover from 3 t obtain b0 b1 b2 tl where
      "text = b0 # b1 # b2 # tl" "unat b0 = 224 + h" "unat b1 = 128 + m" "unat b2 = 128 + l"
      by (auto simp: utf8_encode_def map_eq_Cons_conv h_def m_def l_def)
    ultimately have "utf8_prefix_length text = 3"
      using \<open>m < 64\<close> \<open>l < 64\<close> by (simp add: utf8_prefix_3) linarith
    with 3 show ?thesis by (simp add: utf8_encode_def)
  next
    case 4
    define h k m l
      where "h = c div 262144" and "k = c div 4096 mod 64" and "m = c div 64 mod 64" and "l = c mod 64"
    have "c = h * 262144 + k * 4096 + m * 64 + l" unfolding h_def k_def m_def l_def
      by (rule split_base64)
    moreover have "k < 64" "m < 64" "l < 64" by (simp_all add: k_def m_def l_def)
    ultimately have "h \<le> 4" "h = 0 \<longrightarrow> 16 \<le> k" "h = 4 \<longrightarrow> k < 16"
      using 4 c unfolding unicode_scalar_def by linarith+
    moreover from 4 t obtain b0 b1 b2 b3 tl where
      "text = b0 # b1 # b2 # b3 # tl" "unat b0 = 240 + h" "unat b1 = 128 + k"
      "unat b2 = 128 + m" "unat b3 = 128 + l"
      by (auto simp: utf8_encode_def map_eq_Cons_conv h_def k_def m_def l_def)
    ultimately have "utf8_prefix_length text = 4"
      using \<open>k < 64\<close> \<open>m < 64\<close> \<open>l < 64\<close> by (simp add: utf8_prefix_4) linarith
    with 4 show ?thesis by (simp add: utf8_encode_def)
  qed
qed

lemma utf8_encode_of_prefix:
  assumes "utf8_prefix_length text = n" and "n \<noteq> 0"
  shows "\<exists>c. unicode_scalar c \<and> map unat (take n text) = utf8_encode c"
proof -
  consider "n = 1" | "n = 2" | "n = 3" | "n = 4"
    using assms utf8_prefix_range [of "text"] by auto
  then show ?thesis
  proof cases
    case 1
    with assms obtain b0 tl where "text = b0 # tl" by (cases "text") (auto simp: utf8_prefix_length_def)
    moreover from this 1 assms have "unat b0 < 128" by (simp add: utf8_prefix_1)
    ultimately show ?thesis using 1
      by (intro exI [of _ "unat b0"]) (simp add: unicode_scalar_def utf8_encode_def)
  next
    case 2
    with assms obtain b0 b1 tl where b: "text = b0 # b1 # tl" "194 \<le> unat b0" "unat b0 \<le> 223"
        "128 \<le> unat b1" "unat b1 \<le> 191" by (auto simp: utf8_prefix_2)
    then obtain h l where "unat b0 = 192 + h" "unat b1 = 128 + l" "2 \<le> h" "h < 32" "l < 64"
      using le_Suc_ex [of 192 "unat b0"] le_Suc_ex [of 128 "unat b1"] by auto
    with b 2 show ?thesis
      by (intro exI [of _ "h * 64 + l"]) (simp add: unicode_scalar_def utf8_encode_def)
  next
    case 3
    with assms have "utf8_prefix_length text = 3" by simp
    then obtain b0 b1 b2 tl where b: "text = b0 # b1 # b2 # tl" "224 \<le> unat b0" "unat b0 \<le> 239"
        "128 \<le> unat b1" "unat b1 \<le> 191" "128 \<le> unat b2" "unat b2 \<le> 191"
        "unat b0 = 224 \<longrightarrow> 160 \<le> unat b1" "unat b0 = 237 \<longrightarrow> unat b1 \<le> 159"
      unfolding utf8_prefix_3 by blast
    then obtain h m l where u: "unat b0 = 224 + h" "unat b1 = 128 + m" "unat b2 = 128 + l"
      using le_Suc_ex [of 224 "unat b0"] le_Suc_ex [of 128 "unat b1"] le_Suc_ex [of 128 "unat b2"]
      by auto
    with b have r: "h < 16" "m < 64" "l < 64" "h = 0 \<longrightarrow> 32 \<le> m" "h = 13 \<longrightarrow> m < 32" by auto
    define c where "c = h * 4096 + m * 64 + l"
    have "c div 4096 = h" "c div 64 mod 64 = m" "c mod 64 = l"
      using join_base64 [of h m l c 0] r by (simp_all add: c_def)
    moreover have "unicode_scalar c" "0x800 \<le> c" "c < 0x10000"
      unfolding c_def by (rule scalar_of_base64 [OF r])+
    ultimately show ?thesis using b(1) u 3
      by (intro exI [of _ c]) (simp add: utf8_encode_def take_Cons')
  next
    case 4
    with assms have "utf8_prefix_length text = 4" by simp
    then obtain b0 b1 b2 b3 tl where b: "text = b0 # b1 # b2 # b3 # tl" "240 \<le> unat b0"
        "unat b0 \<le> 244" "128 \<le> unat b1" "unat b1 \<le> 191" "128 \<le> unat b2" "unat b2 \<le> 191"
        "128 \<le> unat b3" "unat b3 \<le> 191"
        "unat b0 = 240 \<longrightarrow> 144 \<le> unat b1" "unat b0 = 244 \<longrightarrow> unat b1 \<le> 143"
      unfolding utf8_prefix_4 by blast
    then obtain h k m l where u: "unat b0 = 240 + h" "unat b1 = 128 + k" "unat b2 = 128 + m"
        "unat b3 = 128 + l"
      using le_Suc_ex [of 240 "unat b0"] le_Suc_ex [of 128 "unat b1"] le_Suc_ex [of 128 "unat b2"]
        le_Suc_ex [of 128 "unat b3"] by auto
    with b have r: "h \<le> 4" "k < 64" "m < 64" "l < 64" "h = 0 \<longrightarrow> 16 \<le> k" "h = 4 \<longrightarrow> k < 16" by auto
    define c where "c = h * 262144 + k * 4096 + m * 64 + l"
    have "c div 262144 = h" "c div 4096 mod 64 = k" "c div 64 mod 64 = m" "c mod 64 = l"
      using join_base64 [OF r(2,3,4) c_def] by simp_all
    moreover have "unicode_scalar c" "0x10000 \<le> c"
      unfolding c_def by (rule supplementary_of_base64 [OF r])+
    ultimately show ?thesis using b(1) u 4
      by (intro exI [of _ c]) (simp add: utf8_encode_def take_Cons')
  qed
qed

section \<open>In-place sorting without duplicates\<close>

text \<open>\<open>std::ranges::sort\<close> followed by the removal of adjacent repetitions.\<close>

definition sort_unique :: "'a::linorder list \<Rightarrow> 'a list" where
  "sort_unique values = remdups_adj (sort values)"

lemma strict_sorted_remdups_adj: "sorted xs \<Longrightarrow> sorted_wrt (<) (remdups_adj xs)"
  by (induction xs rule: remdups_adj.induct) auto

section \<open>Properties\<close>

lemma valid_utf8_complete:
  "list_all unicode_scalar cs \<Longrightarrow> map unat text = concat (map utf8_encode cs) \<Longrightarrow> valid_utf8_scalar text"
proof (induction cs arbitrary: "text")
  case Nil
  then show ?case by (simp add: valid_utf8_scalar.simps)
next
  case (Cons c cs)
  let ?n = "length (utf8_encode c)"
  from Cons.prems have n: "utf8_prefix_length text = ?n"
    by (intro utf8_prefix_of_encode [of c "text" "concat (map utf8_encode cs)"]) auto
  from Cons.prems have "map unat (drop ?n text) = concat (map utf8_encode cs)"
    by (simp add: drop_map [symmetric])
  with Cons have "valid_utf8_scalar (drop ?n text)" by simp
  with n Cons.prems show ?case
    by (subst valid_utf8_scalar.simps) (auto simp: Let_def)
qed

lemma valid_utf8_sound:
  "valid_utf8_scalar text \<Longrightarrow>
   \<exists>cs. list_all unicode_scalar cs \<and> map unat text = concat (map utf8_encode cs)"
proof (induction "text" rule: valid_utf8_scalar.induct)
  case (1 bs)
  show ?case
  proof (cases "bs = []")
    case True
    then show ?thesis by (intro exI [of _ "[]"]) simp
  next
    case False
    define n where "n = utf8_prefix_length bs"
    from False "1.prems" have ok: "n \<noteq> 0" "valid_utf8_scalar (drop n bs)"
      by (subst (asm) valid_utf8_scalar.simps, simp add: Let_def n_def split: if_splits)+
    with False "1.IH" obtain cs where cs:
      "list_all unicode_scalar cs" "map unat (drop n bs) = concat (map utf8_encode cs)"
      by (auto simp: n_def)
    from ok(1) obtain c where c: "unicode_scalar c" "map unat (take n bs) = utf8_encode c"
      using utf8_encode_of_prefix [of bs n] by (auto simp: n_def)
    have "map unat bs = map unat (take n bs) @ map unat (drop n bs)"
      by (simp flip: map_append)
    with c cs show ?thesis by (intro exI [of _ "c # cs"]) simp
  qed
qed

text \<open>
  C11: the UTF-8 recogniser, with its vectorised ASCII path, accepts exactly the byte sequences that
  are the concatenated encodings of Unicode scalar values: no overlong form, no surrogate and no
  value above U+10FFFF passes, and every well-formed text does.
\<close>

theorem valid_utf8_iff_encoding:
  "valid_utf8 text =
   (\<exists>cs. list_all unicode_scalar cs \<and> map unat text = concat (map utf8_encode cs))"
  unfolding valid_utf8_eq_scalar using valid_utf8_complete valid_utf8_sound by blast

text \<open>
  The constant-time comparison of two texts returns true exactly when they are equal, for every
  pair of lengths a \<open>std::size_t\<close> can hold.
\<close>

theorem constant_time_equal_iff:
  assumes "length left \<le> size_max" and "length right \<le> size_max"
  shows "constant_time_equal left right = (left = right)"
proof -
  have len: "(of_nat (length left) :: u64) XOR of_nat (length right) = 0
      \<longleftrightarrow> length left = length right"
    unfolding xor_eq_0_iff using assms by (simp add: word_unat_eq_iff unat_of_nat)
  have "constant_time_equal left right \<longleftrightarrow>
      length left = length right \<and> (\<forall>i < length left. byte_at left i = byte_at right i)"
    unfolding constant_time_equal_def Let_def foldl_or_zero_iff len
    by (auto simp: ucast_byte_eq_0_iff xor_eq_0_iff)
  also have "\<dots> \<longleftrightarrow> left = right"
    by (auto simp: byte_at_def list_eq_iff_nth_eq)
  finally show ?thesis .
qed

theorem constant_time_equal_iff_witness:
  "constant_time_equal [1, 2, 3] [1, 2, 3] = ([1, 2, 3] = ([1, 2, 3] :: byte list))"
  by (rule constant_time_equal_iff) simp_all

text \<open>
  Hexadecimal text is read back to the bytes it was written from, and has two digits per byte.
\<close>

theorem hex_decode_encode:
  "hex_decode (hex_encode bytes) = Some bytes \<and> length (hex_encode bytes) = 2 * length bytes"
proof (induction bytes)
  case Nil
  then show ?case by (simp add: hex_encode_def)
next
  case (Cons b bytes)
  have "unat b div 16 < 16" "unat b mod 16 < 16"
    using unat_byte_less [of b] by (simp_all add: less_mult_imp_div_less)
  with Cons show ?case
    by (simp add: hex_encode_def nibbles_of_byte hex_value_kDigits)
qed

text \<open>
  Sorting without duplicates yields the strictly increasing enumeration of the values given.
\<close>

theorem sort_unique_sorted_set: "sort_unique values = sorted_list_of_set (set values)"
proof -
  have "sorted_wrt (<) (remdups_adj (sort values))"
    by (rule strict_sorted_remdups_adj) simp
  then show ?thesis
    unfolding sort_unique_def
    by (metis remdups_adj_set set_sort sorted_list_of_set.idem_if_sorted_distinct strict_sorted_iff)
qed

end
