(* ===== verification/Common_Workspace.thy ===== *)
theory Common_Workspace
  imports Prelude
begin

text \<open>
  \<open>WorkspaceBuffer\<close> and the \<open>WorkspaceOutput\<close> adapter of \<open>src/common/types/workspace_buffer.h\<close>: a
  growable array that either owns its storage or is bound to a supplied span that never falls back
  to the heap. The locale \<open>growable\<close> is the interface that the mask emitter and every other client
  of the adapter relies on; the buffer is an interpretation of it in both of its modes.
\<close>

record 'a workspace_buffer =
  owned :: "'a list"
  owned_capacity :: nat
  supplied :: "'a list"
  wb_size :: nat
  wb_bound :: bool

definition empty_buffer :: "'a workspace_buffer" where
  "empty_buffer = \<lparr>owned = [], owned_capacity = 0, supplied = [], wb_size = 0, wb_bound = False\<rparr>"

definition buffer_bind :: "'a workspace_buffer \<Rightarrow> 'a list \<Rightarrow> cxx_error + 'a workspace_buffer" where
  "buffer_bind b memory =
     (if owned_capacity b \<noteq> 0
      then Inl (Logic_Error ''workspace binding requires unallocated storage'')
      else Inr (b\<lparr>supplied := memory, wb_size := 0, wb_bound := True\<rparr>))"

definition buffer_size :: "'a workspace_buffer \<Rightarrow> nat" where
  "buffer_size b = (if wb_bound b then wb_size b else length (owned b))"

definition buffer_capacity :: "'a workspace_buffer \<Rightarrow> nat" where
  "buffer_capacity b = (if wb_bound b then length (supplied b) else owned_capacity b)"

definition buffer_empty :: "'a workspace_buffer \<Rightarrow> bool" where
  "buffer_empty b = (buffer_size b = 0)"

text \<open>The elements from \<open>begin()\<close> to \<open>end()\<close>.\<close>

definition buffer_items :: "'a workspace_buffer \<Rightarrow> 'a list" where
  "buffer_items b = (if wb_bound b then take (wb_size b) (supplied b) else owned b)"

definition buffer_set :: "'a workspace_buffer \<Rightarrow> nat \<Rightarrow> 'a \<Rightarrow> 'a workspace_buffer" where
  "buffer_set b i x =
     (if wb_bound b then b\<lparr>supplied := (supplied b)[i := x]\<rparr> else b\<lparr>owned := (owned b)[i := x]\<rparr>)"

definition buffer_set_back :: "'a workspace_buffer \<Rightarrow> 'a \<Rightarrow> 'a workspace_buffer" where
  "buffer_set_back b x = buffer_set b (buffer_size b - 1) x"

definition buffer_reserve :: "'a workspace_buffer \<Rightarrow> nat \<Rightarrow> 'a workspace_buffer effect" where
  "buffer_reserve b count =
     (if wb_bound b then
        (if count > buffer_capacity b
         then (Some (Length_Error ''supplied workspace capacity exceeded''), b) else (None, b))
      else (None, b\<lparr>owned_capacity := max (owned_capacity b) count\<rparr>))"

text \<open>\<open>v\<close> is the value-initialised element that a growing resize constructs.\<close>

definition buffer_resize :: "'a \<Rightarrow> 'a workspace_buffer \<Rightarrow> nat \<Rightarrow> 'a workspace_buffer effect" where
  "buffer_resize v b count =
     and_then (buffer_reserve b count) (\<lambda>b'.
       if wb_bound b' then
         (None, b'\<lparr>supplied := take (wb_size b') (supplied b')
                     @ replicate (count - wb_size b') v
                     @ drop (max count (wb_size b')) (supplied b'),
                   wb_size := count\<rparr>)
       else (None, b'\<lparr>owned := take count (owned b') @ replicate (count - length (owned b')) v\<rparr>))"

definition buffer_clear :: "'a workspace_buffer \<Rightarrow> 'a workspace_buffer" where
  "buffer_clear b = (if wb_bound b then b\<lparr>wb_size := 0\<rparr> else b\<lparr>owned := []\<rparr>)"

text \<open>An owning vector that is full doubles its capacity.\<close>

definition buffer_push_back :: "'a workspace_buffer \<Rightarrow> 'a \<Rightarrow> 'a workspace_buffer effect" where
  "buffer_push_back b x =
     (if wb_bound b then
        and_then (buffer_reserve b (wb_size b + 1)) (\<lambda>b'.
          (None, b'\<lparr>supplied := (supplied b')[wb_size b' := x], wb_size := wb_size b' + 1\<rparr>))
      else (None, b\<lparr>owned := owned b @ [x],
                    owned_capacity := (if length (owned b) = owned_capacity b
                                       then max 1 (2 * owned_capacity b) else owned_capacity b)\<rparr>))"

section \<open>Invariant and interface\<close>

definition buffer_ok :: "'a workspace_buffer \<Rightarrow> bool" where
  "buffer_ok b \<longleftrightarrow> (if wb_bound b then wb_size b \<le> length (supplied b)
                   else length (owned b) \<le> owned_capacity b)"

text \<open>
  What a client of \<open>WorkspaceOutput\<close> is promised: an operation that throws leaves the elements as
  they were, an append adds one element at the end, a shrinking resize keeps a prefix.
\<close>

locale growable =
  fixes ok :: "'b \<Rightarrow> bool"
    and items :: "'b \<Rightarrow> 'a list"
    and push_back :: "'b \<Rightarrow> 'a \<Rightarrow> 'b effect"
    and set_back :: "'b \<Rightarrow> 'a \<Rightarrow> 'b"
    and reserve :: "'b \<Rightarrow> nat \<Rightarrow> 'b effect"
    and shrink :: "'b \<Rightarrow> nat \<Rightarrow> 'b effect"
  assumes push_ok: "ok b \<Longrightarrow> ok (snd (push_back b x))"
    and push_items: "ok b \<Longrightarrow>
      items (snd (push_back b x)) = (if fst (push_back b x) = None then items b @ [x] else items b)"
    and set_back_ok: "ok b \<Longrightarrow> ok (set_back b x)"
    and set_back_items: "ok b \<Longrightarrow> items b \<noteq> [] \<Longrightarrow> items (set_back b x) = butlast (items b) @ [x]"
    and reserve_ok: "ok b \<Longrightarrow> ok (snd (reserve b n))"
    and reserve_items: "ok b \<Longrightarrow> items (snd (reserve b n)) = items b"
    and shrink_ok: "ok b \<Longrightarrow> n \<le> length (items b) \<Longrightarrow> ok (snd (shrink b n))"
    and shrink_items: "ok b \<Longrightarrow> n \<le> length (items b) \<Longrightarrow>
      fst (shrink b n) = None \<and> items (snd (shrink b n)) = take n (items b)"
begin

lemmas grow_simps = push_ok set_back_ok reserve_ok push_items reserve_items

lemma push_prefix: "ok b \<Longrightarrow> n \<le> length (items b) \<Longrightarrow> take n (items (snd (push_back b x))) = take n (items b)"
  by (simp add: push_items)

lemma push_length: "ok b \<Longrightarrow> length (items b) \<le> length (items (snd (push_back b x)))"
  by (simp add: push_items)

lemma set_back_prefix:
  "ok b \<Longrightarrow> n < length (items b) \<Longrightarrow> take n (items (set_back b x)) = take n (items b)"
  by (subst set_back_items) (auto simp: take_butlast)

lemma set_back_length: "ok b \<Longrightarrow> items b \<noteq> [] \<Longrightarrow> length (items (set_back b x)) = length (items b)"
  by (simp add: set_back_items)

text \<open>Rolling back to the size an output had undoes every append made since.\<close>

lemma rollback_restores:
  assumes "ok b" and "take n (items b) = xs" and "length xs = n"
  shows "fst (shrink b n) = None \<and> items (snd (shrink b n)) = xs"
proof -
  from assms(2,3) have "n \<le> length (items b)" by (metis length_take min.cobounded1)
  with assms shrink_items show ?thesis by blast
qed

end

lemma buffer_size_items: "buffer_ok b \<Longrightarrow> buffer_size b = length (buffer_items b)"
  by (simp add: buffer_ok_def buffer_size_def buffer_items_def)

lemma take_list_update_Suc: "n < length xs \<Longrightarrow> take (Suc n) (xs[n := x]) = take n xs @ [x]"
  by (simp add: take_Suc_conv_app_nth)

lemma list_update_last_butlast: "xs \<noteq> [] \<Longrightarrow> xs[length xs - Suc 0 := x] = butlast xs @ [x]"
  by (induction xs rule: rev_induct) (auto simp: list_update_append)

interpretation workspace: growable buffer_ok buffer_items buffer_push_back buffer_set_back
    buffer_reserve "buffer_resize v" for v
proof unfold_locales
  fix b :: "'a workspace_buffer" and x :: 'a and n :: nat
  assume ok: "buffer_ok b"
  show "buffer_ok (snd (buffer_push_back b x))"
    using ok by (auto simp: buffer_ok_def buffer_push_back_def buffer_reserve_def buffer_capacity_def)
  show "buffer_items (snd (buffer_push_back b x)) =
    (if fst (buffer_push_back b x) = None then buffer_items b @ [x] else buffer_items b)"
    using ok by (auto simp: buffer_ok_def buffer_items_def buffer_push_back_def buffer_reserve_def
        buffer_capacity_def take_list_update_Suc Suc_le_eq)
  show "buffer_ok (buffer_set_back b x)"
    using ok by (auto simp: buffer_ok_def buffer_set_back_def buffer_set_def)
  show "buffer_ok (snd (buffer_reserve b n))" "buffer_items (snd (buffer_reserve b n)) = buffer_items b"
    using ok by (auto simp: buffer_ok_def buffer_reserve_def buffer_items_def)
  assume n: "n \<le> length (buffer_items b)"
  show "buffer_ok (snd (buffer_resize v b n))"
    "fst (buffer_resize v b n) = None \<and> buffer_items (snd (buffer_resize v b n)) = take n (buffer_items b)"
    using ok n by (auto simp: buffer_ok_def buffer_resize_def buffer_reserve_def buffer_items_def
        buffer_capacity_def split: if_splits)
next
  fix b :: "'a workspace_buffer" and x :: 'a
  assume "buffer_ok b" "buffer_items b \<noteq> []"
  then show "buffer_items (buffer_set_back b x) = butlast (buffer_items b) @ [x]"
    by (cases "wb_size b")
      (auto simp: buffer_ok_def buffer_items_def buffer_set_back_def buffer_set_def buffer_size_def
        take_list_update_Suc butlast_take list_update_last_butlast Suc_le_eq
        take_Suc_conv_app_nth split: if_splits)
qed

end
