(* ===== verification/Mask_Rle.thy ===== *)
theory Mask_Rle
  imports Common_Math Common_Workspace
begin

text \<open>
  Row-major run-length masks, \<open>src/backend/data/mask_rle_utils.cpp\<close>: the emitter of ordered runs,
  the encoder of dense masks with its 32-byte scan, the validating inspector and the materialiser.

  The abstraction is the set of foreground pixels of a list of runs, \<open>run_pixels\<close>. The lemmas show
  that the encoder emits a canonical list (ordered, separated, nonempty runs) with exactly the
  foreground of the dense mask, that the inspector accepts exactly the ordered lists inside the
  image, that the bounds are the tight bounding box, and that an emitter that throws leaves every
  run emitted before its first run in place.
\<close>

section \<open>Data\<close>

record rle_pair =
  run_start :: nat
  run_length :: nat

record mask_dimensions =
  dim_width :: nat
  dim_height :: nat

record mask_bounds =
  min_x :: nat
  min_y :: nat
  max_x :: nat
  max_y :: nat
  has_foreground :: bool

record encoded_mask =
  enc_pairs :: "rle_pair list"
  enc_bounds :: mask_bounds

definition no_bounds :: mask_bounds where
  "no_bounds = \<lparr>min_x = 0, min_y = 0, max_x = 0, max_y = 0, has_foreground = False\<rparr>"

definition run_end :: "rle_pair \<Rightarrow> nat" where
  "run_end p = run_start p + run_length p"

definition checked_pixel_count :: "mask_dimensions \<Rightarrow> cxx_error + nat" where
  "checked_pixel_count d =
     (if dim_width d = 0 \<or> dim_height d = 0 \<or> dim_width d > size_max div dim_height d
      then Inl (Runtime_Error ''mask dimensions are invalid'')
      else Inr (dim_width d * dim_height d))"

lemma checked_pixel_count_Inr:
  "checked_pixel_count d = Inr n \<longleftrightarrow>
     dim_width d \<noteq> 0 \<and> dim_height d \<noteq> 0 \<and> n = dim_width d * dim_height d \<and> n \<le> size_max"
  by (auto simp: checked_pixel_count_def div_less_iff_less_mult not_less less_eq_div_iff_mult_less_eq)

section \<open>Bounds\<close>

text \<open>
  One validated nonempty run \<open>[begin, end)\<close> at a nonzero width, as the header requires of callers;
  an absent output is \<open>None\<close>.
\<close>

definition merge_bounds :: "mask_bounds \<Rightarrow> nat \<Rightarrow> nat \<Rightarrow> nat \<Rightarrow> nat \<Rightarrow> nat \<Rightarrow> mask_bounds" where
  "merge_bounds b begin_x begin_y end_x end_y width =
     (let b1 = (if \<not> has_foreground b
          then \<lparr>min_x = begin_x, min_y = begin_y, max_x = wrap32 (end_x + 1), max_y = wrap32 (end_y + 1),
                has_foreground = True\<rparr>
          else b\<lparr>min_y := min (min_y b) begin_y, max_y := max (max_y b) (wrap32 (end_y + 1)),
                 min_x := min (min_x b) begin_x, max_x := max (max_x b) (wrap32 (end_x + 1))\<rparr>)
      in if begin_y \<noteq> end_y then b1\<lparr>min_x := 0, max_x := width\<rparr> else b1)"

definition include_row_major_mask_run ::
    "mask_bounds option \<Rightarrow> nat \<Rightarrow> nat \<Rightarrow> nat \<Rightarrow> cxx_error + mask_bounds option" where
  "include_row_major_mask_run bounds begin endd width =
     (case bounds of
        None \<Rightarrow> Inr None
      | Some b \<Rightarrow>
          bindr (checked_cast_u32 (begin div width) ''mask run y overflow'') (\<lambda>begin_y.
          bindr (checked_cast_u32 (begin mod width) ''mask run x overflow'') (\<lambda>begin_x.
          let final = endd - 1 in
          bindr (checked_cast_u32 (final div width) ''mask run y overflow'') (\<lambda>end_y.
          bindr (checked_cast_u32 (final mod width) ''mask run x overflow'') (\<lambda>end_x.
            Inr (Some (merge_bounds b begin_x begin_y end_x end_y width)))))))"

section \<open>Emitter\<close>

record mask_run_emitter =
  em_output :: "rle_pair workspace_buffer"
  em_first :: nat
  em_width :: nat
  em_bounds :: "mask_bounds option"
  em_start_error :: string
  em_length_error :: string
  em_maximum :: nat
  em_required :: nat
  em_last :: rle_pair

definition new_emitter ::
    "rle_pair workspace_buffer \<Rightarrow> nat \<Rightarrow> nat \<Rightarrow> mask_bounds option \<Rightarrow> string \<Rightarrow> string \<Rightarrow> nat
     \<Rightarrow> mask_run_emitter" where
  "new_emitter output first_run width bounds start_error length_error maximum_runs =
     \<lparr>em_output = output, em_first = first_run, em_width = width, em_bounds = bounds,
      em_start_error = start_error, em_length_error = length_error, em_maximum = maximum_runs,
      em_required = buffer_size output,
      em_last = (if buffer_size output > first_run then last (buffer_items output)
                 else \<lparr>run_start = 0, run_length = 0\<rparr>)\<rparr>"

text \<open>Appending a run to the output, after growing a full bounded output by at most its capacity.\<close>

definition emit_push :: "mask_run_emitter \<Rightarrow> rle_pair \<Rightarrow> mask_run_emitter effect" where
  "emit_push em nxt =
     (let output = em_output em;
          capacity = buffer_capacity output;
          grown = (if buffer_size output = capacity \<and> em_maximum em \<noteq> size_max
                   then buffer_reserve output (capacity + min (em_maximum em - capacity) (max 1 capacity))
                   else (None, output))
      in case and_then grown (\<lambda>out. buffer_push_back out nxt) of
           (e, out) \<Rightarrow> (e, em\<lparr>em_output := out\<rparr>))"

definition emit_new_run :: "mask_run_emitter \<Rightarrow> rle_pair \<Rightarrow> mask_run_emitter effect" where
  "emit_new_run em nxt =
     (case checked_add_size (em_required em) 1 ''mask run count overflow'' of
        Inl e \<Rightarrow> (Some e, em)
      | Inr required \<Rightarrow>
          and_then (if required \<le> em_maximum em then emit_push em nxt else (None, em))
            (\<lambda>em'. (None, em'\<lparr>em_required := required, em_last := nxt\<rparr>)))"

definition emit_extend :: "mask_run_emitter \<Rightarrow> nat \<Rightarrow> mask_run_emitter effect" where
  "emit_extend em endd =
     (case checked_cast_u32 (endd - run_start (em_last em)) (em_length_error em) of
        Inl e \<Rightarrow> (Some e, em)
      | Inr len \<Rightarrow>
          let last' = (em_last em)\<lparr>run_length := len\<rparr>;
              em' = em\<lparr>em_last := last'\<rparr>
          in (None, if em_required em \<le> em_maximum em
                    then em'\<lparr>em_output := buffer_set_back (em_output em) last'\<rparr> else em'))"

definition emit_bounds :: "mask_run_emitter \<Rightarrow> nat \<Rightarrow> nat \<Rightarrow> mask_run_emitter effect" where
  "emit_bounds em begin endd =
     (case include_row_major_mask_run (em_bounds em) begin endd (em_width em) of
        Inl e \<Rightarrow> (Some e, em)
      | Inr bounds \<Rightarrow> (None, em\<lparr>em_bounds := bounds\<rparr>))"

definition emitter_run :: "mask_run_emitter \<Rightarrow> nat \<Rightarrow> nat \<Rightarrow> mask_run_emitter effect" where
  "emitter_run em begin endd =
     (if begin = endd then (None, em)
      else case checked_cast_u32 begin (em_start_error em) of
        Inl e \<Rightarrow> (Some e, em)
      | Inr start \<Rightarrow>
          if endd < begin then (Some (Overflow_Error (em_length_error em)), em)
          else (case checked_cast_u32 (endd - begin) (em_length_error em) of
            Inl e \<Rightarrow> (Some e, em)
          | Inr len \<Rightarrow>
              and_then
                (if em_required em > em_first em \<and> run_end (em_last em) = begin
                 then emit_extend em endd
                 else emit_new_run em \<lparr>run_start = start, run_length = len\<rparr>)
                (\<lambda>em'. emit_bounds em' begin endd)))"

definition emitter_finish :: "mask_run_emitter \<Rightarrow> mask_run_emitter effect" where
  "emitter_finish em =
     (if em_required em > em_maximum em then (Some (Mask_Run_Capacity_Error (em_required em)), em)
      else (None, em))"

text \<open>A slab repeats the same intervals on every row from \<open>slab_row\<close> to \<open>slab_end\<close>.\<close>

record slab =
  slab_row :: nat
  slab_end :: nat
  slab_intervals :: "(nat \<times> nat) list"
  slab_interval :: nat

definition emitter_step_slab ::
    "mask_run_emitter \<Rightarrow> slab \<Rightarrow> (cxx_error + bool) \<times> mask_run_emitter \<times> slab" where
  "emitter_step_slab em sl =
     (if slab_row sl = slab_end sl \<or> slab_intervals sl = [] then (Inr True, em, sl)
      else if length (slab_intervals sl) = 1 \<and> fst (hd (slab_intervals sl)) = 0
              \<and> snd (hd (slab_intervals sl)) = em_width em then
        (case emitter_run em (slab_row sl * em_width em) (slab_end sl * em_width em) of
           (Some e, em') \<Rightarrow> (Inl e, em', sl)
         | (None, em') \<Rightarrow> (Inr True, em', sl\<lparr>slab_row := slab_end sl\<rparr>))
      else if slab_row sl \<ge> slab_end sl then (Inr True, em, sl)
      else (case slab_intervals sl ! slab_interval sl of (begin, endd) \<Rightarrow>
        case emitter_run em (slab_row sl * em_width em + begin) (slab_row sl * em_width em + endd) of
           (Some e, em') \<Rightarrow> (Inl e, em', sl)
         | (None, em') \<Rightarrow>
             let sl' = (if slab_interval sl + 1 = length (slab_intervals sl)
                        then sl\<lparr>slab_interval := 0, slab_row := wrap32 (slab_row sl + 1)\<rparr>
                        else sl\<lparr>slab_interval := slab_interval sl + 1\<rparr>)
             in (Inr (slab_row sl' = slab_end sl'), em', sl')))"

section \<open>Encoding a dense mask\<close>

text \<open>
  The index of the first byte from \<open>cursor\<close> on that satisfies \<open>stop\<close>: first in lanes of 32 bytes,
  whose first set lane is the count of trailing zeros of the move mask, then byte by byte.
\<close>

function scan_lanes :: "(byte \<Rightarrow> bool) \<Rightarrow> byte list \<Rightarrow> nat \<Rightarrow> nat" where
  "scan_lanes stop dense cursor =
     (if cursor + 32 \<le> length dense then
        (let lanes = map stop (take 32 (drop cursor dense)) in
         if list_ex id lanes then cursor + length (takeWhile Not lanes)
         else scan_lanes stop dense (cursor + 32))
      else cursor)"
  by pat_completeness auto
termination by (relation "measure (\<lambda>(stop, dense, cursor). length dense - cursor)") auto

declare scan_lanes.simps [simp del]

function scan_bytes :: "(byte \<Rightarrow> bool) \<Rightarrow> byte list \<Rightarrow> nat \<Rightarrow> nat" where
  "scan_bytes stop dense cursor =
     (if cursor < length dense \<and> \<not> stop (dense ! cursor) then scan_bytes stop dense (cursor + 1)
      else cursor)"
  by pat_completeness auto
termination by (relation "measure (\<lambda>(stop, dense, cursor). length dense - cursor)") auto

declare scan_bytes.simps [simp del]

definition scan_until :: "(byte \<Rightarrow> bool) \<Rightarrow> byte list \<Rightarrow> nat \<Rightarrow> nat" where
  "scan_until stop dense cursor = scan_bytes stop dense (scan_lanes stop dense cursor)"

text \<open>The reference: a linear search.\<close>

definition first_from :: "(byte \<Rightarrow> bool) \<Rightarrow> byte list \<Rightarrow> nat \<Rightarrow> nat" where
  "first_from stop dense cursor =
     cursor + length (takeWhile (\<lambda>b. \<not> stop b) (drop cursor dense))"

lemma scan_bytes_eq: "cursor \<le> length dense \<Longrightarrow> scan_bytes stop dense cursor = first_from stop dense cursor"
proof (induction stop dense cursor rule: scan_bytes.induct)
  case (1 stop dense cursor)
  then show ?case
    by (cases "cursor < length dense")
      (subst scan_bytes.simps, auto simp: first_from_def Cons_nth_drop_Suc [symmetric])+
qed

lemma first_from_skip:
  assumes "\<forall>b\<in>set (take k (drop cursor dense)). \<not> stop b" and "cursor + k \<le> length dense"
  shows "first_from stop dense (cursor + k) = first_from stop dense cursor"
proof -
  have "drop cursor dense = take k (drop cursor dense) @ drop (cursor + k) dense"
    by (metis add.commute append_take_drop_id drop_drop)
  moreover have "length (take k (drop cursor dense)) = k" using assms(2) by simp
  ultimately show ?thesis
    using assms(1) unfolding first_from_def by (metis (no_types, lifting) add.assoc length_append takeWhile_append2)
qed

lemma scan_lanes_eq:
  "cursor \<le> length dense \<Longrightarrow> scan_lanes stop dense cursor \<le> length dense \<and>
   first_from stop dense (scan_lanes stop dense cursor) = first_from stop dense cursor"
proof (induction stop dense cursor rule: scan_lanes.induct)
  case (1 stop dense cursor)
  let ?chunk = "take 32 (drop cursor dense)"
  let ?k = "length (takeWhile (\<lambda>b. \<not> stop b) ?chunk)"
  show ?case
  proof (cases "cursor + 32 \<le> length dense")
    case False
    with "1.prems" show ?thesis by (simp add: scan_lanes.simps [of stop dense cursor])
  next
    case fits: True
    show ?thesis
    proof (cases "list_ex id (map stop ?chunk)")
      case True
      have k: "?k \<le> 32" by (rule order_trans [OF length_takeWhile_le]) simp
      have "take ?k (drop cursor dense) = takeWhile (\<lambda>b. \<not> stop b) ?chunk"
        by (rule take_length_takeWhile_take)
      then have "\<forall>b\<in>set (take ?k (drop cursor dense)). \<not> stop b" by (metis set_takeWhileD)
      moreover from fits k have "cursor + ?k \<le> length dense" by linarith
      ultimately have "first_from stop dense (cursor + ?k) = first_from stop dense cursor"
        by (rule first_from_skip)
      moreover have "scan_lanes stop dense cursor = cursor + ?k"
        unfolding scan_lanes.simps [of stop dense cursor] Let_def if_P [OF fits] if_P [OF True]
        by (simp only: takeWhile_map comp_def length_map)
      ultimately show ?thesis using fits k by simp
    next
      case False
      then have "first_from stop dense (cursor + 32) = first_from stop dense cursor"
        using fits by (intro first_from_skip) (auto simp: list_ex_iff)
      with 1 fits False show ?thesis by (simp add: scan_lanes.simps [of stop dense cursor])
    qed
  qed
qed

lemma scan_until_eq: "cursor \<le> length dense \<Longrightarrow> scan_until stop dense cursor = first_from stop dense cursor"
  by (simp add: scan_until_def scan_bytes_eq scan_lanes_eq)

lemma first_from_le: "first_from stop dense cursor \<le> max cursor (length dense)"
  using length_takeWhile_le [of "\<lambda>b. \<not> stop b" "drop cursor dense"]
  by (auto simp: first_from_def)

lemma first_from_ge: "cursor \<le> first_from stop dense cursor"
  by (simp add: first_from_def)

lemma first_from_stop:
  assumes "first_from stop dense cursor < length dense"
  shows "stop (dense ! first_from stop dense cursor)"
proof -
  have "length (takeWhile (\<lambda>b. \<not> stop b) (drop cursor dense)) < length (drop cursor dense)"
    using assms by (auto simp: first_from_def)
  from nth_length_takeWhile [OF this] assms show ?thesis
    by (auto simp: first_from_def)
qed

lemma first_from_before:
  assumes "cursor \<le> i" and "i < first_from stop dense cursor"
  shows "\<not> stop (dense ! i) \<and> i < length dense"
proof -
  let ?t = "takeWhile (\<lambda>b. \<not> stop b) (drop cursor dense)"
  have lt: "i - cursor < length ?t" using assms by (simp add: first_from_def)
  then have "?t ! (i - cursor) = drop cursor dense ! (i - cursor)" by (rule takeWhile_nth)
  moreover have "\<not> stop (?t ! (i - cursor))"
    using nth_mem [OF lt] by (auto dest: set_takeWhileD)
  moreover have "i - cursor < length (drop cursor dense)"
    using lt length_takeWhile_le [of "\<lambda>b. \<not> stop b" "drop cursor dense"] by linarith
  ultimately show ?thesis using assms(1) by auto
qed

lemma first_from_greater:
  "cursor < length dense \<Longrightarrow> \<not> stop (dense ! cursor) \<Longrightarrow> cursor < first_from stop dense cursor"
  using first_from_stop [of stop dense cursor] first_from_ge [of cursor stop dense]
  by (cases "first_from stop dense cursor = cursor") auto

text \<open>The loop of the encoder over the foreground runs.\<close>

function encode_runs :: "mask_run_emitter \<Rightarrow> byte list \<Rightarrow> nat \<Rightarrow> cxx_error + mask_run_emitter" where
  "encode_runs em dense cursor =
     (if cursor < length dense then
        (let begin = scan_until (\<lambda>b. b \<noteq> 0) dense cursor in
         if begin = length dense then Inr em
         else
           (let endd = scan_until (\<lambda>b. b = 0) dense begin in
            case emitter_run em begin endd of
              (Some e, _) \<Rightarrow> Inl e
            | (None, em') \<Rightarrow> encode_runs em' dense endd))
      else Inr em)"
  by pat_completeness auto
termination
proof (relation "measure (\<lambda>(em, dense, cursor). length dense - cursor)", goal_cases)
  case (2 em dense cursor b0 endd)
  then have b0: "b0 = first_from (\<lambda>b. b \<noteq> 0) dense cursor" by (simp add: scan_until_eq)
  with 2 first_from_le [of "\<lambda>b. b \<noteq> 0" dense cursor] have lt: "b0 < length dense" by auto
  with b0 have "dense ! b0 \<noteq> 0" using first_from_stop [of "\<lambda>b. b \<noteq> 0" dense cursor] by simp
  with lt have "b0 < endd" using 2 first_from_greater [of b0 dense "\<lambda>b. b = 0"]
    by (simp add: scan_until_eq)
  with 2 b0 first_from_ge [of cursor "\<lambda>b. b \<noteq> 0" dense] show ?case by auto
qed simp

declare encode_runs.simps [simp del]

definition encode_dense_row_major_mask :: "byte list \<Rightarrow> mask_dimensions \<Rightarrow> cxx_error + encoded_mask" where
  "encode_dense_row_major_mask dense dimensions =
     bindr (checked_pixel_count dimensions) (\<lambda>pixels.
       if length dense \<noteq> pixels
       then Inl (Runtime_Error ''dense mask size does not match its dimensions'')
       else bindr (encode_runs
              (new_emitter empty_buffer 0 (dim_width dimensions) (Some no_bounds)
                ''mask run start overflow'' ''mask run length overflow'' size_max) dense 0)
            (\<lambda>em. Inr \<lparr>enc_pairs = buffer_items (em_output em),
                       enc_bounds = (case em_bounds em of Some b \<Rightarrow> b | None \<Rightarrow> no_bounds)\<rparr>))"

section \<open>Inspecting and materialising runs\<close>

text \<open>
  The validating visit shared by the bounds and the foreground count; \<open>foreground\<close> is the optional
  64-bit counter.
\<close>

fun inspect_runs :: "rle_pair list \<Rightarrow> nat \<Rightarrow> nat \<Rightarrow> nat \<Rightarrow> mask_bounds option \<Rightarrow> nat option
    \<Rightarrow> cxx_error + (mask_bounds option \<times> nat option)" where
  "inspect_runs [] pixels width previous_end bounds foreground = Inr (bounds, foreground)"
| "inspect_runs (pair # pairs) pixels width previous_end bounds foreground =
     (if run_length pair = 0 \<or> run_start pair < previous_end \<or> run_start pair > pixels
         \<or> run_length pair > pixels - run_start pair
      then Inl (Runtime_Error ''row-major mask contains an invalid run'')
      else let previous_end' = run_start pair + run_length pair in
        bindr (include_row_major_mask_run bounds (run_start pair) previous_end' width) (\<lambda>bounds'.
          inspect_runs pairs pixels width previous_end' bounds'
            (map_option (\<lambda>n. wrap64 (n + run_length pair)) foreground)))"

definition inspect_row_major_mask ::
    "rle_pair list \<Rightarrow> mask_dimensions \<Rightarrow> bool \<Rightarrow> bool \<Rightarrow> cxx_error + (mask_bounds option \<times> nat option)" where
  "inspect_row_major_mask pairs dimensions want_bounds want_foreground =
     bindr (checked_pixel_count dimensions) (\<lambda>pixels.
       inspect_runs pairs pixels (dim_width dimensions) 0
         (if want_bounds then Some no_bounds else None) (if want_foreground then Some 0 else None))"

definition row_major_mask_bounds ::
    "rle_pair list \<Rightarrow> mask_dimensions \<Rightarrow> bool \<Rightarrow> cxx_error + (mask_bounds \<times> nat option)" where
  "row_major_mask_bounds pairs dimensions want_foreground =
     bindr (inspect_row_major_mask pairs dimensions True want_foreground) (\<lambda>(bounds, foreground).
       Inr (case bounds of Some b \<Rightarrow> b | None \<Rightarrow> no_bounds, foreground))"

definition fill_range :: "byte list \<Rightarrow> nat \<Rightarrow> nat \<Rightarrow> byte \<Rightarrow> byte list" where
  "fill_range dense begin endd v = take begin dense @ replicate (endd - begin) v @ drop endd dense"

fun materialize_runs :: "rle_pair list \<Rightarrow> nat \<Rightarrow> nat \<Rightarrow> nat \<Rightarrow> byte list \<Rightarrow> mask_bounds option
    \<Rightarrow> cxx_error + (byte list \<times> mask_bounds option)" where
  "materialize_runs [] pixels width previous_end dense bounds = Inr (dense, bounds)"
| "materialize_runs (pair # pairs) pixels width previous_end dense bounds =
     (let begin = run_start pair; len = run_length pair in
      if len = 0 \<or> begin < previous_end \<or> begin > pixels \<or> len > pixels - begin
      then Inl (Runtime_Error ''row-major mask contains an invalid run'')
      else let endd = begin + len in
        bindr (include_row_major_mask_run bounds begin endd width) (\<lambda>bounds'.
          materialize_runs pairs pixels width endd (fill_range dense begin endd 1) bounds'))"

definition materialize_row_major_mask ::
    "rle_pair list \<Rightarrow> mask_dimensions \<Rightarrow> bool \<Rightarrow> bool \<Rightarrow> cxx_error + (byte list \<times> mask_bounds option)" where
  "materialize_row_major_mask pairs dimensions has_dense want_bounds =
     (if \<not> has_dense then Inl (Invalid_Argument ''dense mask output is required'')
      else bindr (checked_pixel_count dimensions) (\<lambda>pixels.
        materialize_runs pairs pixels (dim_width dimensions) 0 (replicate pixels 0)
          (if want_bounds then Some no_bounds else None)))"

section \<open>Abstraction: the foreground of a list of runs\<close>

definition pair_pixels :: "rle_pair \<Rightarrow> nat set" where
  "pair_pixels p = {run_start p ..< run_end p}"

definition run_pixels :: "rle_pair list \<Rightarrow> nat set" where
  "run_pixels ps = (\<Union>p\<in>set ps. pair_pixels p)"

text \<open>Valid runs are nonempty, ordered from \<open>lo\<close> on and end by \<open>hi\<close>; canonical runs are also
  separated, so that no two of them could be merged.\<close>

fun valid_runs :: "nat \<Rightarrow> nat \<Rightarrow> rle_pair list \<Rightarrow> bool" where
  "valid_runs lo hi [] \<longleftrightarrow> True"
| "valid_runs lo hi (p # ps) \<longleftrightarrow>
     run_length p \<noteq> 0 \<and> lo \<le> run_start p \<and> run_end p \<le> hi \<and> valid_runs (run_end p) hi ps"

fun separated_runs :: "rle_pair list \<Rightarrow> bool" where
  "separated_runs (p # q # ps) \<longleftrightarrow> run_end p < run_start q \<and> separated_runs (q # ps)"
| "separated_runs _ \<longleftrightarrow> True"

lemma run_pixels_simps [simp]:
  "run_pixels [] = {}" "run_pixels (p # ps) = pair_pixels p \<union> run_pixels ps"
  "run_pixels (ps @ qs) = run_pixels ps \<union> run_pixels qs"
  by (auto simp: run_pixels_def)

lemma valid_runs_append:
  "valid_runs lo hi (ps @ [p]) \<longleftrightarrow>
   valid_runs lo hi ps \<and> run_length p \<noteq> 0 \<and> run_end p \<le> hi \<and>
   (if ps = [] then lo else run_end (last ps)) \<le> run_start p"
  by (induction ps arbitrary: lo) auto

lemma separated_runs_append:
  "separated_runs (ps @ [p]) \<longleftrightarrow> separated_runs ps \<and> (ps \<noteq> [] \<longrightarrow> run_end (last ps) < run_start p)"
  by (induction ps rule: separated_runs.induct) auto

lemma valid_runs_mono: "valid_runs lo hi ps \<Longrightarrow> hi \<le> hi' \<Longrightarrow> valid_runs lo hi' ps"
  by (induction ps arbitrary: lo) auto

lemma valid_runs_range: "valid_runs lo hi ps \<Longrightarrow> i \<in> run_pixels ps \<Longrightarrow> lo \<le> i \<and> i < hi"
proof (induction ps arbitrary: lo)
  case Nil
  then show ?case by simp
next
  case (Cons p ps)
  then show ?case
    by (fastforce simp: pair_pixels_def run_end_def)
qed

subsection \<open>Bounds as the tight bounding box\<close>

text \<open>\<open>[lo, hi)\<close> is the tight range of one coordinate of the pixels \<open>S\<close>.\<close>

definition axis_span :: "(nat \<Rightarrow> nat) \<Rightarrow> nat set \<Rightarrow> nat \<Rightarrow> nat \<Rightarrow> bool" where
  "axis_span f S lo hi \<longleftrightarrow>
     (\<forall>i\<in>S. lo \<le> f i \<and> f i < hi) \<and> (\<exists>i\<in>S. f i = lo) \<and> (\<exists>i\<in>S. f i + 1 = hi)"

text \<open>\<open>b\<close> is the bounding box of the pixels \<open>S\<close> of an image \<open>w\<close> pixels wide.\<close>

definition bounding_box :: "nat \<Rightarrow> nat set \<Rightarrow> mask_bounds \<Rightarrow> bool" where
  "bounding_box w S b \<longleftrightarrow>
     (if S = {} then b = no_bounds
      else has_foreground b \<and> axis_span (\<lambda>i. i mod w) S (min_x b) (max_x b)
           \<and> axis_span (\<lambda>i. i div w) S (min_y b) (max_y b))"

lemma axis_span_Un:
  assumes "axis_span f S lo hi" and "axis_span f T lo' hi'"
  shows "axis_span f (S \<union> T) (min lo lo') (max hi hi')"
  using assms by (fastforce simp: axis_span_def min_def max_def)

lemma axis_span_unique:
  "axis_span f S lo hi \<Longrightarrow> axis_span f S lo' hi' \<Longrightarrow> lo = lo' \<and> hi = hi'"
  unfolding axis_span_def by (metis Suc_eq_plus1 Suc_leI le_antisym)

lemma axis_span_rows:
  assumes "b < e" shows "axis_span (\<lambda>i. i div w) {b ..< e} (b div w) ((e - 1) div w + 1)"
  unfolding axis_span_def
proof (intro conjI ballI)
  fix i assume "i \<in> {b ..< e}"
  then show "b div w \<le> i div w" by (simp add: div_le_mono)
  from \<open>i \<in> {b ..< e}\<close> have "i \<le> e - 1" by auto
  then show "i div w < (e - 1) div w + 1" by (simp add: div_le_mono less_Suc_eq_le)
next
  show "\<exists>i\<in>{b ..< e}. i div w = b div w" using assms by (intro bexI [of _ b]) auto
  show "\<exists>i\<in>{b ..< e}. i div w + 1 = (e - 1) div w + 1" using assms by (intro bexI [of _ "e - 1"]) auto
qed

lemma axis_span_one_row:
  assumes run: "b < e" and row: "b div w = (e - 1) div w"
  shows "axis_span (\<lambda>i. i mod w) {b ..< e} (b mod w) ((e - 1) mod w + 1)"
proof -
  have "b mod w \<le> i mod w \<and> i mod w \<le> (e - 1) mod w" if i: "i \<in> {b ..< e}" for i
  proof -
    from i have le: "b \<le> i" "i \<le> e - 1" by auto
    then have "b div w \<le> i div w" "i div w \<le> (e - 1) div w" by (simp_all add: div_le_mono)
    with row have q: "i div w = b div w" "i div w = (e - 1) div w" by simp_all
    have "i = i div w * w + i mod w" "b = b div w * w + b mod w"
      "e - 1 = (e - 1) div w * w + (e - 1) mod w" by simp_all
    with le q show ?thesis by (metis add_le_cancel_left)
  qed
  moreover have "b \<in> {b ..< e}" "e - 1 \<in> {b ..< e}" using run by auto
  ultimately show ?thesis unfolding axis_span_def
    by (metis Suc_eq_plus1 less_Suc_eq_le)
qed

text \<open>A run that leaves its first row reaches the last column of it and the first of the next.\<close>

lemma axis_span_many_rows:
  fixes b e w :: nat
  assumes w: "0 < w" and run: "b < e" and rows: "b div w \<noteq> (e - 1) div w"
  shows "(\<exists>i\<in>{b ..< e}. i mod w = 0) \<and> (\<exists>i\<in>{b ..< e}. i mod w + 1 = w)"
proof -
  have "b \<le> e - 1" using run by simp
  then have "b div w \<le> (e - 1) div w" by (rule div_le_mono)
  with rows have less: "b div w + 1 \<le> (e - 1) div w" by simp
  let ?r = "(b div w + 1) * w"
  have "b = b div w * w + b mod w" by simp
  moreover have "b mod w < w" using w by simp
  moreover have "?r = b div w * w + w" by simp
  ultimately have b: "b < ?r" by linarith
  have "?r \<le> (e - 1) div w * w" using less by (rule mult_le_mono1)
  also have "\<dots> \<le> e - 1" by (rule div_times_less_eq_dividend)
  finally have r: "?r \<in> {b ..< e}" "?r - 1 \<in> {b ..< e}" using b run by auto
  have "?r - 1 = b div w * w + (w - 1)" using w by (simp add: algebra_simps)
  then have "(?r - 1) mod w = (w - 1) mod w" by (metis mod_mult_self3)
  with w have "(?r - 1) mod w + 1 = w" by simp
  moreover have "?r mod w = 0" by (rule mod_mult_self2_is_0)
  ultimately show ?thesis using r by (intro conjI bexI [of _ ?r] bexI [of _ "?r - 1"])
qed

lemma bounding_box_merge:
  assumes box: "bounding_box w S b" and w: "0 < w" "w \<le> u32_max"
    and run: "s < e" and y: "(e - 1) div w < u32_max"
  shows "bounding_box w (S \<union> {s ..< e})
    (merge_bounds b (s mod w) (s div w) ((e - 1) mod w) ((e - 1) div w) w)"
proof -
  obtain l where e: "e = Suc l" using run by (cases e) auto
  let ?b = "merge_bounds b (s mod w) (s div w) (l mod w) (l div w) w"
  have x1: "l mod w < w" using w by simp
  have wrap: "wrap32 (Suc (l mod w)) = Suc (l mod w)" "wrap32 (Suc (l div w)) = Suc (l div w)"
    using x1 w y by (simp_all only: e diff_Suc_1 mod_less)
  note merge = merge_bounds_def [where begin_x = "s mod w" and begin_y = "s div w"
      and end_x = "l mod w" and end_y = "l div w", unfolded Suc_eq_plus1 [symmetric] wrap Let_def]
  have rows: "axis_span (\<lambda>i. i div w) {s ..< e} (s div w) (Suc (l div w))"
    using axis_span_rows [OF run, of w] by (simp add: e)
  have fg: "has_foreground b \<longleftrightarrow> S \<noteq> {}"
    using box by (auto simp: bounding_box_def no_bounds_def split: if_splits)
  have y_span: "axis_span (\<lambda>i. i div w) (S \<union> {s ..< e}) (min_y ?b) (max_y ?b)"
  proof (cases "S = {}")
    case True
    with rows fg show ?thesis unfolding merge by (cases "s div w = l div w") simp_all
  next
    case False
    with box have "axis_span (\<lambda>i. i div w) S (min_y b) (max_y b)" by (simp add: bounding_box_def)
    from axis_span_Un [OF this rows] False fg show ?thesis
      unfolding merge by (cases "s div w = l div w") simp_all
  qed
  have x_span: "axis_span (\<lambda>i. i mod w) (S \<union> {s ..< e}) (min_x ?b) (max_x ?b)"
  proof (cases "s div w = l div w")
    case row: True
    with axis_span_one_row [OF run, of w] have
      cols: "axis_span (\<lambda>i. i mod w) {s ..< e} (s mod w) (Suc (l mod w))" by (simp add: e)
    show ?thesis
    proof (cases "S = {}")
      case True
      with cols fg row show ?thesis unfolding merge by simp
    next
      case False
      with box have "axis_span (\<lambda>i. i mod w) S (min_x b) (max_x b)" by (simp add: bounding_box_def)
      from axis_span_Un [OF this cols] False fg row show ?thesis unfolding merge by simp
    qed
  next
    case False
    with axis_span_many_rows [OF w(1) run] have
      "(\<exists>i\<in>{s ..< e}. i mod w = 0) \<and> (\<exists>i\<in>{s ..< e}. i mod w + 1 = w)" by (simp add: e)
    then obtain i j where "i \<in> {s ..< e}" "i mod w = 0" "j \<in> {s ..< e}" "j mod w + 1 = w"
      by (elim conjE bexE) (rule that; assumption)
    then have "axis_span (\<lambda>i. i mod w) (S \<union> {s ..< e}) 0 w"
      unfolding axis_span_def
      by (intro conjI ballI bexI [of _ i] bexI [of _ j]) (use w(1) in simp_all)
    with False show ?thesis unfolding merge by simp
  qed
  have "has_foreground ?b" by (simp add: merge)
  with x_span y_span run show ?thesis by (simp add: bounding_box_def e)
qed

lemma bounding_box_empty: "bounding_box w {} no_bounds"
  by (simp add: bounding_box_def)

subsection \<open>The inspector and the materialiser\<close>

lemma include_run_ok:
  assumes "0 < w" "w \<le> u32_max" "s < e" "(e - 1) div w < u32_max"
  shows "include_row_major_mask_run bounds s e w =
    Inr (map_option (\<lambda>b. merge_bounds b (s mod w) (s div w) ((e - 1) mod w) ((e - 1) div w) w) bounds)"
proof -
  have "s \<le> e - 1" using assms by simp
  then have "s div w \<le> u32_max"
    using div_le_mono [of s "e - 1" w] assms(4) by linarith
  moreover have "s mod w \<le> u32_max" "(e - 1) mod w \<le> u32_max"
    using assms mod_less_divisor [of w s] mod_less_divisor [of w "e - 1"] by linarith+
  ultimately show ?thesis
    using assms(4)
    by (cases bounds) (simp_all add: include_row_major_mask_run_def Let_def)
qed

definition image_ok :: "mask_dimensions \<Rightarrow> bool" where
  "image_ok d \<longleftrightarrow> 0 < dim_width d \<and> 0 < dim_height d \<and> dim_width d \<le> u32_max \<and> dim_height d \<le> u32_max"

lemma image_ok_pixels:
  assumes "image_ok d"
  shows "checked_pixel_count d = Inr (dim_width d * dim_height d)"
proof -
  have "dim_width d * dim_height d \<le> u32_max * u32_max"
    using assms by (intro mult_le_mono) (auto simp: image_ok_def)
  then show ?thesis using assms by (auto simp: checked_pixel_count_Inr image_ok_def)
qed

lemma run_row_bound:
  assumes "image_ok d" and "s < e" and "e \<le> dim_width d * dim_height d"
  shows "(e - 1) div dim_width d < u32_max"
proof -
  have "e - 1 < dim_height d * dim_width d" using assms by (simp add: mult.commute)
  then have "(e - 1) div dim_width d < dim_height d" by (rule less_mult_imp_div_less)
  with assms(1) show ?thesis by (auto simp: image_ok_def)
qed

lemma include_run_image:
  assumes "image_ok d" and "s < e" and "e \<le> dim_width d * dim_height d"
  shows "include_row_major_mask_run bounds s e (dim_width d) =
    Inr (map_option (\<lambda>b. merge_bounds b (s mod dim_width d) (s div dim_width d)
      ((e - 1) mod dim_width d) ((e - 1) div dim_width d) (dim_width d)) bounds)"
  using assms run_row_bound [OF assms] by (intro include_run_ok) (auto simp: image_ok_def)

lemma bounding_box_include:
  assumes "image_ok d" and "s < e" and "e \<le> dim_width d * dim_height d"
    and "bounding_box (dim_width d) S b"
  shows "bounding_box (dim_width d) (S \<union> {s ..< e})
    (merge_bounds b (s mod dim_width d) (s div dim_width d)
      ((e - 1) mod dim_width d) ((e - 1) div dim_width d) (dim_width d))"
  using assms run_row_bound [OF assms(1-3)]
  by (intro bounding_box_merge) (auto simp: image_ok_def)

lemma valid_guard:
  assumes "run_length p \<noteq> 0" and "lo \<le> run_start p" and "run_end p \<le> n"
  shows "(run_length p = 0 \<or> run_start p < lo \<or> n < run_start p \<or> n - run_start p < run_length p) = False"
  using assms by (auto simp: run_end_def)

text \<open>The inspector succeeds exactly on valid runs, with the box and the count of their pixels.\<close>

lemma inspect_runs_valid:
  assumes "image_ok d" and "valid_runs lo (dim_width d * dim_height d) ps"
    and "bounding_box (dim_width d) S b"
  shows "\<exists>b'. inspect_runs ps (dim_width d * dim_height d) (dim_width d) lo (Some b) f =
      Inr (Some b', map_option (\<lambda>n. if ps = [] then n else wrap64 (n + sum_list (map run_length ps))) f)
    \<and> bounding_box (dim_width d) (S \<union> run_pixels ps) b'"
  using assms(2,3)
proof (induction ps arbitrary: lo S b f)
  case Nil
  then show ?case by (cases f) auto
next
  case (Cons p ps)
  let ?w = "dim_width d" and ?n = "dim_width d * dim_height d"
  from Cons.prems have p: "run_length p \<noteq> 0" "lo \<le> run_start p" "run_end p \<le> ?n"
    and ps: "valid_runs (run_end p) ?n ps" by auto
  then have se: "run_start p < run_end p" by (simp add: run_end_def)
  let ?m = "merge_bounds b (run_start p mod ?w) (run_start p div ?w)
      ((run_end p - 1) mod ?w) ((run_end p - 1) div ?w) ?w"
  note inc = include_run_image [OF assms(1) se p(3), of "Some b"]
  note box = bounding_box_include [OF assms(1) se p(3) Cons.prems(2)]
  from Cons.IH [OF ps box] obtain b' where b':
    "inspect_runs ps ?n ?w (run_end p) (Some ?m) (map_option (\<lambda>n. wrap64 (n + run_length p)) f) =
       Inr (Some b', map_option (\<lambda>n. if ps = [] then n else wrap64 (n + sum_list (map run_length ps)))
         (map_option (\<lambda>n. wrap64 (n + run_length p)) f))"
    "bounding_box ?w (S \<union> {run_start p ..< run_end p} \<union> run_pixels ps) b'" by blast
  have "inspect_runs (p # ps) ?n ?w lo (Some b) f =
      inspect_runs ps ?n ?w (run_end p) (Some ?m) (map_option (\<lambda>n. wrap64 (n + run_length p)) f)"
    using valid_guard [OF p] inc by (simp add: Let_def run_end_def)
  with b' show ?case
    by (intro exI [of _ b']) (cases f; simp add: pair_pixels_def Un_assoc mod_add_left_eq add.assoc)
qed

lemma inspect_runs_invalid:
  "image_ok d \<Longrightarrow> \<not> valid_runs lo (dim_width d * dim_height d) ps \<Longrightarrow>
   inspect_runs ps (dim_width d * dim_height d) (dim_width d) lo bounds f
     = Inl (Runtime_Error ''row-major mask contains an invalid run'')"
proof (induction ps arbitrary: lo bounds f)
  case Nil
  then show ?case by simp
next
  case (Cons p ps)
  let ?n = "dim_width d * dim_height d"
  show ?case
  proof (cases "run_length p \<noteq> 0 \<and> lo \<le> run_start p \<and> run_end p \<le> ?n")
    case True
    then have "run_start p < run_end p" by (simp add: run_end_def)
    with True Cons include_run_image [OF Cons.prems(1), of "run_start p" "run_end p" bounds]
    show ?thesis by (auto simp: Let_def run_end_def)
  next
    case False
    then show ?thesis by (auto simp: run_end_def)
  qed
qed

text \<open>Materialising marks exactly the pixels of the runs.\<close>

lemma length_fill_range [simp]:
  "s \<le> e \<Longrightarrow> e \<le> length dense \<Longrightarrow> length (fill_range dense s e v) = length dense"
  by (simp add: fill_range_def)

lemma nth_fill_range:
  "s \<le> e \<Longrightarrow> e \<le> length dense \<Longrightarrow> i < length dense \<Longrightarrow>
   fill_range dense s e v ! i = (if s \<le> i \<and> i < e then v else dense ! i)"
  by (auto simp: fill_range_def nth_append min_def)

lemma materialize_runs_valid:
  assumes "image_ok d" and "valid_runs lo (dim_width d * dim_height d) ps"
    and "length dense = dim_width d * dim_height d"
  shows "\<exists>dense' b'. materialize_runs ps (dim_width d * dim_height d) (dim_width d) lo dense bounds
      = Inr (dense', b') \<and> length dense' = length dense \<and>
      (\<forall>i < length dense. dense' ! i = (if i \<in> run_pixels ps then 1 else dense ! i))"
  using assms(2,3)
proof (induction ps arbitrary: lo dense bounds)
  case Nil
  then show ?case by simp
next
  case (Cons p ps)
  let ?w = "dim_width d" and ?n = "dim_width d * dim_height d"
  from Cons.prems have p: "run_length p \<noteq> 0" "lo \<le> run_start p" "run_end p \<le> ?n"
    and ps: "valid_runs (run_end p) ?n ps" by auto
  then have se: "run_start p < run_end p" by (simp add: run_end_def)
  let ?dense = "fill_range dense (run_start p) (run_end p) 1"
  have len: "length ?dense = ?n" using p se Cons.prems by simp
  from include_run_image [OF assms(1) se p(3), of bounds] obtain bounds' where
    inc: "include_row_major_mask_run bounds (run_start p) (run_end p) ?w = Inr bounds'" by blast
  from Cons.IH [OF ps len, of bounds'] obtain dense' b' where r:
    "materialize_runs ps ?n ?w (run_end p) ?dense bounds' = Inr (dense', b')"
    "length dense' = length ?dense"
    "\<forall>i < length ?dense. dense' ! i = (if i \<in> run_pixels ps then 1 else ?dense ! i)" by blast
  have "materialize_runs (p # ps) ?n ?w lo dense bounds
      = materialize_runs ps ?n ?w (run_end p) ?dense bounds'"
    using valid_guard [OF p] inc by (simp add: Let_def run_end_def)
  with r p se len Cons.prems show ?case
    by (auto simp: nth_fill_range pair_pixels_def)
qed

subsection \<open>The encoder\<close>

text \<open>
  The state of the encoder's emitter: its output is an owning vector of the runs \<open>ps\<close>, which its
  bounds enclose tightly.
\<close>

definition emitter_holds :: "mask_dimensions \<Rightarrow> rle_pair list \<Rightarrow> mask_run_emitter \<Rightarrow> bool" where
  "emitter_holds d ps em \<longleftrightarrow>
     \<not> wb_bound (em_output em) \<and> owned (em_output em) = ps \<and> em_first em = 0 \<and>
     em_maximum em = size_max \<and> em_width em = dim_width d \<and> em_required em = length ps \<and>
     (ps \<noteq> [] \<longrightarrow> em_last em = last ps) \<and>
     (\<exists>b. em_bounds em = Some b \<and> bounding_box (dim_width d) (run_pixels ps) b)"

text \<open>The runs \<open>ps\<close> are the canonical description of the foreground below \<open>cursor\<close>.\<close>

definition describes :: "byte list \<Rightarrow> nat \<Rightarrow> rle_pair list \<Rightarrow> bool" where
  "describes dense cursor ps \<longleftrightarrow>
     length ps \<le> cursor \<and> valid_runs 0 cursor ps \<and> separated_runs ps \<and>
     run_pixels ps = {i. i < cursor \<and> dense ! i \<noteq> 0} \<and>
     (ps \<noteq> [] \<and> run_end (last ps) = cursor \<and> cursor < length dense \<longrightarrow> dense ! cursor = 0)"

lemma valid_runs_last: "valid_runs lo hi ps \<Longrightarrow> ps \<noteq> [] \<Longrightarrow> run_end (last ps) \<le> hi"
  by (induction ps arbitrary: lo) auto

lemma emitter_run_separate:
  assumes out: "\<not> wb_bound (em_output em)" "em_maximum em = size_max"
    and req: "em_required em < size_max"
    and sep: "em_required em > em_first em \<Longrightarrow> run_end (em_last em) \<noteq> s"
    and run: "s < e" "s \<le> u32_max" "e - s \<le> u32_max"
    and inc: "include_row_major_mask_run (em_bounds em) s e (em_width em) = Inr bounds'"
  shows "emitter_run em s e = (None, em\<lparr>em_output := snd (buffer_push_back (em_output em)
            \<lparr>run_start = s, run_length = e - s\<rparr>),
       em_required := em_required em + 1, em_last := \<lparr>run_start = s, run_length = e - s\<rparr>,
       em_bounds := bounds'\<rparr>)"
proof -
  have add: "checked_add_size (em_required em) 1 ctx = Inr (em_required em + 1)" for ctx
    using req by (simp add: checked_add_size_eq)
  have push: "buffer_push_back (em_output em) x = (None, snd (buffer_push_back (em_output em) x))" for x
    using out by (simp add: buffer_push_back_def)
  have "emit_push em x = (None, em\<lparr>em_output := snd (buffer_push_back (em_output em) x)\<rparr>)" for x
    unfolding emit_push_def Let_def using out by (simp add: buffer_push_back_def)
  with add req out have new: "emit_new_run em x = (None, em\<lparr>em_output := snd (buffer_push_back (em_output em) x),
      em_required := em_required em + 1, em_last := x\<rparr>)" for x
    by (simp add: emit_new_run_def)
  have nb: "\<not> (em_required em > em_first em \<and> run_end (em_last em) = s)"
    using sep by blast
  show ?thesis
    using run inc by (simp only: emitter_run_def nb if_False new and_then.simps)
      (simp add: emit_bounds_def)
qed

lemma emitter_holds_step:
  assumes d: "image_ok d" and em: "emitter_holds d ps em" and n: "length ps < size_max"
    and run: "s < e" "e \<le> dim_width d * dim_height d" "e \<le> u32_max"
    and sep: "ps \<noteq> [] \<Longrightarrow> run_end (last ps) < s"
  shows "\<exists>em'. emitter_run em s e = (None, em') \<and>
    emitter_holds d (ps @ [\<lparr>run_start = s, run_length = e - s\<rparr>]) em'"
proof -
  let ?w = "dim_width d" and ?p = "\<lparr>run_start = s, run_length = e - s\<rparr>"
  from em obtain b where b: "em_bounds em = Some b" "bounding_box ?w (run_pixels ps) b"
    unfolding emitter_holds_def by blast
  let ?b = "merge_bounds b (s mod ?w) (s div ?w) ((e - 1) mod ?w) ((e - 1) div ?w) ?w"
  have "include_row_major_mask_run (em_bounds em) s e (em_width em) = Inr (Some ?b)"
    using include_run_image [OF d run(1,2), of "Some b"] em b by (simp add: emitter_holds_def)
  moreover have "run_end (em_last em) \<noteq> s" if "em_required em > em_first em"
    using that em sep by (auto simp: emitter_holds_def)
  ultimately have "emitter_run em s e = (None, em\<lparr>em_output := snd (buffer_push_back (em_output em) ?p),
       em_required := em_required em + 1, em_last := ?p, em_bounds := Some ?b\<rparr>)"
    by (intro emitter_run_separate) (use em n run in \<open>auto simp: emitter_holds_def\<close>)
  moreover have "bounding_box ?w (run_pixels (ps @ [?p])) ?b"
    using bounding_box_include [OF d run(1,2) b(2)] run by (simp add: pair_pixels_def run_end_def)
  ultimately show ?thesis
    using em by (simp add: emitter_holds_def buffer_push_back_def)
qed

lemma describes_step:
  assumes ps: "describes dense cursor ps" and c: "cursor \<le> s" "s < e" "e \<le> length dense"
    and gap: "\<forall>i. cursor \<le> i \<and> i < s \<longrightarrow> dense ! i = 0"
    and fg: "\<forall>i. s \<le> i \<and> i < e \<longrightarrow> dense ! i \<noteq> 0"
    and stop: "e < length dense \<longrightarrow> dense ! e = 0"
  shows "(ps \<noteq> [] \<longrightarrow> run_end (last ps) < s) \<and>
    describes dense e (ps @ [\<lparr>run_start = s, run_length = e - s\<rparr>])"
proof -
  have last: "run_end (last ps) < s" if "ps \<noteq> []"
  proof -
    have le: "run_end (last ps) \<le> cursor"
      using ps that by (auto simp: describes_def intro: valid_runs_last)
    show ?thesis
    proof (cases "run_end (last ps) = cursor \<and> cursor = s")
      case True
      with ps that c fg show ?thesis by (auto simp: describes_def)
    next
      case False
      with le c show ?thesis by linarith
    qed
  qed
  have "i < e \<and> dense ! i \<noteq> 0 \<longleftrightarrow> i < cursor \<and> dense ! i \<noteq> 0 \<or> s \<le> i \<and> i < e" for i
  proof -
    consider "i < cursor" | "cursor \<le> i" "i < s" | "s \<le> i" "i < e" | "e \<le> i" by linarith
    then show ?thesis
    proof cases
      case 1
      with c show ?thesis by simp
    next
      case 2
      with gap have "dense ! i = 0" by blast
      then show ?thesis using 2 by simp
    next
      case 3
      with fg have "dense ! i \<noteq> 0" by blast
      then show ?thesis using 3 by simp
    next
      case 4
      with c show ?thesis by simp
    qed
  qed
  then have set: "{i. i < cursor \<and> dense ! i \<noteq> 0} \<union> {s ..< e} = {i. i < e \<and> dense ! i \<noteq> 0}"
    by (simp only: set_eq_iff Un_iff mem_Collect_eq atLeastLessThan_iff) blast
  have "valid_runs 0 e ps"
    by (rule valid_runs_mono [of 0 cursor]) (use ps c in \<open>simp_all add: describes_def\<close>)
  moreover have "ps \<noteq> [] \<longrightarrow> run_end (last ps) \<le> s" using last by (simp add: less_imp_le)
  ultimately show ?thesis
    using ps last c stop set
    by (simp add: describes_def valid_runs_append separated_runs_append pair_pixels_def
        run_end_def [of "\<lparr>run_start = s, run_length = e - s\<rparr>"])
qed

lemma describes_tail:
  assumes ps: "describes dense cursor ps" and c: "cursor \<le> length dense"
    and gap: "\<forall>i. cursor \<le> i \<and> i < length dense \<longrightarrow> dense ! i = 0"
  shows "describes dense (length dense) ps"
proof -
  have "i < cursor \<and> dense ! i \<noteq> 0 \<longleftrightarrow> i < length dense \<and> dense ! i \<noteq> 0" for i
    using gap c by (cases "i < cursor") auto
  moreover have "valid_runs 0 (length dense) ps"
    by (rule valid_runs_mono [of 0 cursor]) (use ps c in \<open>simp_all add: describes_def\<close>)
  ultimately show ?thesis using ps c by (simp add: describes_def)
qed

lemma encode_runs_holds:
  assumes d: "image_ok d" and len: "length dense = dim_width d * dim_height d"
    and small: "length dense \<le> u32_max"
  shows "emitter_holds d ps em \<Longrightarrow> describes dense cursor ps \<Longrightarrow> cursor \<le> length dense \<Longrightarrow>
    \<exists>em' ps'. encode_runs em dense cursor = Inr em' \<and> emitter_holds d ps' em' \<and>
      describes dense (length dense) ps'"
proof (induction "length dense - cursor" arbitrary: em ps cursor rule: less_induct)
  case less
  let ?s = "first_from (\<lambda>b. b \<noteq> 0) dense cursor"
  have s: "cursor \<le> ?s" "?s \<le> length dense"
    using first_from_ge first_from_le [of "\<lambda>b. b \<noteq> 0" dense cursor] less.prems(3) by auto
  have gap: "\<forall>i. cursor \<le> i \<and> i < ?s \<longrightarrow> dense ! i = 0"
    using first_from_before [of cursor _ "\<lambda>b. b \<noteq> 0" dense] by auto
  show ?case
  proof (cases "?s = length dense")
    case True
    have "describes dense (length dense) ps"
      using describes_tail [OF less.prems(2,3)] gap True by simp
    moreover have "encode_runs em dense cursor = Inr em"
      using True less.prems(3) by (subst encode_runs.simps) (simp add: scan_until_eq)
    ultimately show ?thesis using less.prems(1) by blast
  next
    case False
    with s have lt: "?s < length dense" by simp
    then have nz: "dense ! ?s \<noteq> 0" using first_from_stop [of "\<lambda>b. b \<noteq> 0" dense cursor] by simp
    let ?e = "first_from (\<lambda>b. b = 0) dense ?s"
    have e: "?s < ?e" "?e \<le> length dense"
      using first_from_greater [OF lt, of "\<lambda>b. b = 0"] nz
        first_from_le [of "\<lambda>b. b = 0" dense ?s] lt by auto
    have fg: "\<forall>i. ?s \<le> i \<and> i < ?e \<longrightarrow> dense ! i \<noteq> 0"
      using first_from_before [of ?s _ "\<lambda>b. b = 0" dense] by auto
    have stop: "?e < length dense \<longrightarrow> dense ! ?e = 0"
      using first_from_stop [of "\<lambda>b. b = 0" dense ?s] by auto
    note step = describes_step [OF less.prems(2) s(1) e gap fg stop]
    have "length ps < size_max" using less.prems(2,3) small by (simp add: describes_def)
    with emitter_holds_step [OF d less.prems(1) this e(1)] e(2) len small step obtain em' where
      run: "emitter_run em ?s ?e = (None, em')"
      and em': "emitter_holds d (ps @ [\<lparr>run_start = ?s, run_length = ?e - ?s\<rparr>]) em'" by auto
    have "encode_runs em dense cursor = encode_runs em' dense ?e"
      using False lt s less.prems(3) run
      by (subst encode_runs.simps) (simp add: scan_until_eq)
    moreover have "length dense - ?e < length dense - cursor" using e s lt by linarith
    ultimately show ?thesis using less.hyps [OF _ em' _ e(2)] step by simp
  qed
qed

lemma encode_dense_ok:
  assumes d: "image_ok d" and len: "length dense = dim_width d * dim_height d"
    and small: "length dense \<le> u32_max"
  shows "\<exists>enc. encode_dense_row_major_mask dense d = Inr enc \<and>
    describes dense (length dense) (enc_pairs enc) \<and>
    bounding_box (dim_width d) {i. i < length dense \<and> dense ! i \<noteq> 0} (enc_bounds enc)"
proof -
  let ?em = "new_emitter empty_buffer 0 (dim_width d) (Some no_bounds)
      ''mask run start overflow'' ''mask run length overflow'' size_max"
  have "emitter_holds d [] ?em" "describes dense 0 []"
    by (simp_all add: emitter_holds_def describes_def new_emitter_def empty_buffer_def
        buffer_size_def bounding_box_empty)
  from encode_runs_holds [OF d len small this] obtain em' ps' where
    run: "encode_runs ?em dense 0 = Inr em'" "emitter_holds d ps' em'"
      "describes dense (length dense) ps'" by auto
  then obtain b where "em_bounds em' = Some b" "bounding_box (dim_width d) (run_pixels ps') b"
    unfolding emitter_holds_def by blast
  with run image_ok_pixels [OF d] len show ?thesis
    by (simp add: encode_dense_row_major_mask_def emitter_holds_def buffer_items_def describes_def)
qed

subsection \<open>Canonical descriptions are unique\<close>

lemma valid_runs_nonempty: "valid_runs lo hi ps \<Longrightarrow> ps \<noteq> [] \<longleftrightarrow> run_pixels ps \<noteq> {}"
  by (cases ps) (auto simp: pair_pixels_def run_end_def)

lemma head_gap:
  assumes "valid_runs lo hi (p # ps)" and "separated_runs (p # ps)"
  shows "run_start p \<in> run_pixels (p # ps)" "i \<in> run_pixels (p # ps) \<Longrightarrow> run_start p \<le> i"
    "run_end p \<notin> run_pixels (p # ps)" "run_pixels ps = run_pixels (p # ps) - pair_pixels p"
proof -
  from assms have v: "run_start p < run_end p" "valid_runs (run_end p) hi ps"
    by (auto simp: run_end_def)
  have later: "run_end p < i" if "i \<in> run_pixels ps" for i
  proof (cases ps)
    case Nil
    with that show ?thesis by simp
  next
    case (Cons q qs)
    with assms have "run_end p < run_start q" "valid_runs (run_start q) hi (q # qs)" by auto
    with Cons that valid_runs_range [of "run_start q" hi "q # qs" i] show ?thesis by auto
  qed
  show "run_start p \<in> run_pixels (p # ps)" using v by (simp add: pair_pixels_def)
  show "i \<in> run_pixels (p # ps) \<Longrightarrow> run_start p \<le> i"
    using later v by (fastforce simp: pair_pixels_def)
  show "run_end p \<notin> run_pixels (p # ps)" using later by (auto simp: pair_pixels_def)
  show "run_pixels ps = run_pixels (p # ps) - pair_pixels p"
    using later by (fastforce simp: pair_pixels_def)
qed

lemma canonical_unique:
  "valid_runs lo hi ps \<Longrightarrow> separated_runs ps \<Longrightarrow> valid_runs lo' hi' qs \<Longrightarrow> separated_runs qs \<Longrightarrow>
   run_pixels ps = run_pixels qs \<Longrightarrow> ps = qs"
proof (induction ps arbitrary: lo lo' qs)
  case Nil
  then show ?case using valid_runs_nonempty [of lo' hi' qs] by auto
next
  case (Cons p ps)
  from Cons.prems valid_runs_nonempty [of lo hi "p # ps"] valid_runs_nonempty [of lo' hi' qs]
  obtain q qs' where qs: "qs = q # qs'" by (cases qs) auto
  note p = head_gap [OF Cons.prems(1,2)]
    and q = head_gap [OF Cons.prems(3,4) [unfolded qs]]
    and same = Cons.prems(5) [unfolded qs]
  have start: "run_start p = run_start q"
    using p(1,2) q(1,2) same by (metis le_antisym)
  have lt: "run_start p < run_end p" "run_start q < run_end q"
    using Cons.prems qs by (auto simp: run_end_def)
  have "\<not> run_end p < run_end q"
    using p(3) same lt start by (auto simp: pair_pixels_def)
  moreover have "\<not> run_end q < run_end p"
    using q(3) same lt start by (auto simp: pair_pixels_def)
  ultimately have "run_end p = run_end q" by simp
  with start have "run_length p = run_length q" by (simp add: run_end_def)
  with start have eq: "p = q" by simp
  have "run_pixels ps = run_pixels qs'" using p(4) q(4) same eq by simp
  moreover have "valid_runs (run_end p) hi ps" "separated_runs ps"
    "valid_runs (run_end q) hi' qs'" "separated_runs qs'"
    using Cons.prems qs by (auto elim: separated_runs.elims)
  ultimately show ?case using Cons.IH qs eq by blast
qed

section \<open>Properties\<close>

text \<open>
  C23: encoding a dense mask of an image yields the canonical runs of its foreground (nonempty, in
  order, separated) and the tight bounding box of the foreground.
\<close>

theorem encode_dense_canonical:
  assumes "image_ok d" and "length dense = dim_width d * dim_height d" and "length dense \<le> u32_max"
  shows "\<exists>enc. encode_dense_row_major_mask dense d = Inr enc \<and>
    valid_runs 0 (length dense) (enc_pairs enc) \<and> separated_runs (enc_pairs enc) \<and>
    run_pixels (enc_pairs enc) = {i. i < length dense \<and> dense ! i \<noteq> 0} \<and>
    bounding_box (dim_width d) {i. i < length dense \<and> dense ! i \<noteq> 0} (enc_bounds enc)"
  using encode_dense_ok [OF assms] by (auto simp: describes_def)

theorem encode_dense_canonical_witness:
  "\<exists>enc. encode_dense_row_major_mask [0, 7, 9, 0, 0, 255] \<lparr>dim_width = 3, dim_height = 2\<rparr> = Inr enc \<and>
    valid_runs 0 (length [0, 7, 9, 0, 0, 255 :: byte]) (enc_pairs enc) \<and> separated_runs (enc_pairs enc)"
proof -
  have "image_ok \<lparr>dim_width = 3, dim_height = 2\<rparr>" by (simp add: image_ok_def)
  from encode_dense_canonical [OF this, of "[0, 7, 9, 0, 0, 255]"]
  obtain enc where "encode_dense_row_major_mask [0, 7, 9, 0, 0, 255] \<lparr>dim_width = 3, dim_height = 2\<rparr> = Inr enc \<and>
      valid_runs 0 (length [0, 7, 9, 0, 0, 255 :: byte]) (enc_pairs enc) \<and> separated_runs (enc_pairs enc)"
    by auto
  then show ?thesis by (rule exI)
qed

text \<open>
  C24: materialising the encoding of a dense mask gives the mask back, with every foreground byte
  normalised to one.
\<close>

theorem materialize_encode:
  assumes "image_ok d" and "length dense = dim_width d * dim_height d" and "length dense \<le> u32_max"
  shows "\<exists>enc b. encode_dense_row_major_mask dense d = Inr enc \<and>
    materialize_row_major_mask (enc_pairs enc) d True wb = Inr (map (\<lambda>v. if v = 0 then 0 else 1) dense, b)"
proof -
  from encode_dense_ok [OF assms] obtain enc where
    enc: "encode_dense_row_major_mask dense d = Inr enc" "describes dense (length dense) (enc_pairs enc)"
    by blast
  then have v: "valid_runs 0 (dim_width d * dim_height d) (enc_pairs enc)"
    and px: "run_pixels (enc_pairs enc) = {i. i < length dense \<and> dense ! i \<noteq> 0}"
    using assms(2) by (simp_all add: describes_def)
  let ?zero = "replicate (dim_width d * dim_height d) (0 :: byte)"
  from materialize_runs_valid [OF assms(1) v, of ?zero "if wb then Some no_bounds else None"]
  obtain dense' b where m: "materialize_runs (enc_pairs enc) (dim_width d * dim_height d) (dim_width d) 0
      ?zero (if wb then Some no_bounds else None) = Inr (dense', b)" "length dense' = length dense"
      "\<forall>i < length dense. dense' ! i = (if i \<in> run_pixels (enc_pairs enc) then 1 else 0)"
    using assms(2) by auto
  have "dense' = map (\<lambda>v. if v = 0 then 0 else 1) dense"
    by (rule nth_equalityI) (use m px in auto)
  with enc m(1) image_ok_pixels [OF assms(1)] show ?thesis
    by (simp add: materialize_row_major_mask_def)
qed

theorem materialize_encode_witness:
  "\<exists>enc b. encode_dense_row_major_mask [0, 7, 9, 0, 0, 255] \<lparr>dim_width = 3, dim_height = 2\<rparr> = Inr enc \<and>
    materialize_row_major_mask (enc_pairs enc) \<lparr>dim_width = 3, dim_height = 2\<rparr> True True
      = Inr ([0, 1, 1, 0, 0, 1], b)"
  using materialize_encode [of "\<lparr>dim_width = 3, dim_height = 2\<rparr>" "[0, 7, 9, 0, 0, 255]" True]
  by (simp add: image_ok_def)

text \<open>
  C29: conversely, encoding the materialisation of canonical runs gives the same runs back.
\<close>

theorem encode_materialize:
  assumes "image_ok d" and "dim_width d * dim_height d \<le> u32_max"
    and "valid_runs 0 (dim_width d * dim_height d) ps" and "separated_runs ps"
  shows "\<exists>dense b enc. materialize_row_major_mask ps d True False = Inr (dense, b) \<and>
    encode_dense_row_major_mask dense d = Inr enc \<and> enc_pairs enc = ps"
proof -
  let ?n = "dim_width d * dim_height d"
  from materialize_runs_valid [OF assms(1,3), of "replicate ?n 0" None]
  obtain dense b where m: "materialize_runs ps ?n (dim_width d) 0 (replicate ?n 0) None = Inr (dense, b)"
      "length dense = ?n" "\<forall>i < ?n. dense ! i = (if i \<in> run_pixels ps then 1 else 0)"
    by auto
  from encode_dense_ok [OF assms(1) m(2)] assms(2) m(2) obtain enc where
    enc: "encode_dense_row_major_mask dense d = Inr enc" "describes dense (length dense) (enc_pairs enc)"
    by auto
  have "run_pixels (enc_pairs enc) = run_pixels ps"
    using enc(2) m valid_runs_range [OF assms(3)] by (auto simp: describes_def split: if_splits)
  with enc(2) assms(3,4) have "enc_pairs enc = ps"
    by (intro canonical_unique) (auto simp: describes_def)
  with m enc(1) image_ok_pixels [OF assms(1)] show ?thesis
    by (simp add: materialize_row_major_mask_def)
qed

theorem encode_materialize_witness:
  "\<exists>dense b enc. materialize_row_major_mask
      [\<lparr>run_start = 1, run_length = 2\<rparr>, \<lparr>run_start = 5, run_length = 1\<rparr>]
      \<lparr>dim_width = 3, dim_height = 2\<rparr> True False = Inr (dense, b) \<and>
    encode_dense_row_major_mask dense \<lparr>dim_width = 3, dim_height = 2\<rparr> = Inr enc \<and>
    enc_pairs enc = [\<lparr>run_start = 1, run_length = 2\<rparr>, \<lparr>run_start = 5, run_length = 1\<rparr>]"
  by (rule encode_materialize) (simp_all add: image_ok_def run_end_def)

text \<open>
  C40: the bounds of a list of runs are reported exactly when the runs are nonempty, in order and
  inside the image; they are then the tight bounding box of the foreground, and the reported count
  is the number of foreground pixels (modulo the 64-bit counter).
\<close>

theorem row_major_mask_bounds_exact:
  assumes "image_ok d"
  shows "if valid_runs 0 (dim_width d * dim_height d) ps
    then \<exists>b. row_major_mask_bounds ps d True = Inr (b, Some (wrap64 (sum_list (map run_length ps))))
         \<and> bounding_box (dim_width d) (run_pixels ps) b
    else row_major_mask_bounds ps d True
         = Inl (Runtime_Error ''row-major mask contains an invalid run'')"
proof (cases "valid_runs 0 (dim_width d * dim_height d) ps")
  case True
  from inspect_runs_valid [OF assms True bounding_box_empty, of "Some 0"]
  obtain b where "inspect_runs ps (dim_width d * dim_height d) (dim_width d) 0 (Some no_bounds) (Some 0) =
      Inr (Some b, Some (wrap64 (sum_list (map run_length ps))))"
    "bounding_box (dim_width d) (run_pixels ps) b" by (auto split: if_splits)
  with True show ?thesis
    by (simp add: row_major_mask_bounds_def inspect_row_major_mask_def image_ok_pixels [OF assms])
next
  case False
  then show ?thesis
    by (simp add: row_major_mask_bounds_def inspect_row_major_mask_def image_ok_pixels [OF assms]
        inspect_runs_invalid [OF assms])
qed

theorem row_major_mask_bounds_exact_witness:
  "row_major_mask_bounds [\<lparr>run_start = 2, run_length = 2\<rparr>, \<lparr>run_start = 3, run_length = 1\<rparr>]
     \<lparr>dim_width = 3, dim_height = 2\<rparr> True = Inl (Runtime_Error ''row-major mask contains an invalid run'')"
  using row_major_mask_bounds_exact [of "\<lparr>dim_width = 3, dim_height = 2\<rparr>"
      "[\<lparr>run_start = 2, run_length = 2\<rparr>, \<lparr>run_start = 3, run_length = 1\<rparr>]"]
  by (simp add: image_ok_def run_end_def)

end
