(* ===== verification/Mask_Projection.thy ===== *)
theory Mask_Projection
  imports Mask_Rle
begin

text \<open>
  \<open>RowMajorMaskProjection\<close> of \<open>src/backend/data/mask_rle_utils.cpp\<close>: the resumable nearest-centre
  resampler of a row-major mask. \<open>advance\<close> is its transition function over the stages, \<open>pj_step\<close>
  the bounded continuation and \<open>append_resized_row_major_mask\<close> the one-shot loop.

  The lemmas show that the inverse coordinate is the exact adjoint of the nearest-centre sampler,
  that every transition decreases a well-founded measure, so that the one-shot loop returns, and
  that a projection that fails puts the output back to the runs it found.
\<close>

section \<open>Nearest-centre coordinates\<close>

record resize_geometry =
  resized_width :: nat
  resized_height :: nat
  offset_x :: nat
  offset_y :: nat

definition inverse_mask_coordinate :: "nat \<Rightarrow> nat \<Rightarrow> nat \<Rightarrow> nat" where
  "inverse_mask_coordinate bound source_extent target_extent =
     (let numerator = 2 * target_extent * bound in
      if numerator \<le> source_extent then 0
      else let denominator = 2 * source_extent in
        wrap32 (min target_extent ((numerator - source_extent + denominator - 1) div denominator)))"

text \<open>The source coordinate under the centre of a target pixel.\<close>

definition nearest_source :: "nat \<Rightarrow> nat \<Rightarrow> nat \<Rightarrow> nat" where
  "nearest_source t source_extent target_extent =
     ((2 * t + 1) * source_extent) div (2 * target_extent)"

lemma ceil_div_le:
  fixes n d t :: nat
  assumes "0 < d" shows "(n + d - 1) div d \<le> t \<longleftrightarrow> n \<le> t * d"
proof -
  have "(n + d - 1) div d \<le> t \<longleftrightarrow> (n + d - 1) div d < t + 1" by linarith
  also have "\<dots> \<longleftrightarrow> n + d - 1 < (t + 1) * d" using assms by (simp add: div_less_iff_less_mult)
  also have "\<dots> \<longleftrightarrow> n \<le> t * d" using assms by auto
  finally show ?thesis .
qed

lemma nearest_source_ge: "0 < T \<Longrightarrow> bound \<le> nearest_source t S T \<longleftrightarrow> 2 * T * bound \<le> (2 * t + 1) * S"
  by (simp add: nearest_source_def less_eq_div_iff_mult_less_eq mult.commute)

lemma inverse_mask_coordinate_adjoint:
  assumes "0 < S" and "0 < T" and "T \<le> u32_max" and "t < T"
  shows "inverse_mask_coordinate bound S T \<le> t \<longleftrightarrow> bound \<le> nearest_source t S T"
proof (cases "2 * T * bound \<le> S")
  case True
  then have "2 * T * bound \<le> (2 * t + 1) * S" by (simp add: trans_le_add1)
  with True assms(2) show ?thesis by (simp add: inverse_mask_coordinate_def nearest_source_ge)
next
  case False
  let ?q = "(2 * T * bound - S + 2 * S - 1) div (2 * S)"
  have "wrap32 (min T ?q) = min T ?q" using assms(3) by (intro mod_less) linarith
  then have "inverse_mask_coordinate bound S T \<le> t \<longleftrightarrow> min T ?q \<le> t"
    using False by (simp add: inverse_mask_coordinate_def Let_def)
  also have "\<dots> \<longleftrightarrow> ?q \<le> t" using assms(4) by auto
  also have "\<dots> \<longleftrightarrow> 2 * T * bound - S \<le> t * (2 * S)"
    using assms(1) by (intro ceil_div_le) simp
  also have "\<dots> \<longleftrightarrow> 2 * T * bound \<le> (2 * t + 1) * S" using False by (auto simp: algebra_simps)
  finally show ?thesis using assms(2) by (simp add: nearest_source_ge)
qed

lemma inverse_mask_coordinate_le: "T \<le> u32_max \<Longrightarrow> inverse_mask_coordinate bound S T \<le> T"
proof -
  assume "T \<le> u32_max"
  then have "wrap32 (min T x) = min T x" for x by (intro mod_less) linarith
  then show ?thesis by (simp add: inverse_mask_coordinate_def Let_def)
qed

section \<open>State\<close>

datatype stage = Source | Head | Full | FullSlab | Tail | FinalFlush | Finish

record projection =
  pj_pairs :: "rle_pair list"
  pj_source_dimensions :: mask_dimensions
  pj_geometry :: resize_geometry
  pj_scratch :: "(nat \<times> nat) workspace_buffer"
  pj_first :: nat
  pj_cursor :: nat
  pj_pixels :: nat
  pj_source :: mask_bounds
  pj_emitter :: mask_run_emitter
  pj_slab :: slab
  pj_full :: "nat \<times> nat"
  pj_previous_end :: nat
  pj_remaining :: nat
  pj_pending_row :: nat
  pj_row :: nat
  pj_x :: nat
  pj_rows :: nat
  pj_stage :: stage
  pj_identity :: bool
  pj_slab_active :: bool
  pj_clear_intervals :: bool
  pj_finished :: bool
  pj_failed :: bool

definition empty_slab :: slab where
  "empty_slab = \<lparr>slab_row = 0, slab_end = 0, slab_intervals = [], slab_interval = 0\<rparr>"

text \<open>The constructor; the scratch is absent when its pointer is null.\<close>

definition new_projection ::
    "rle_pair list \<Rightarrow> mask_dimensions \<Rightarrow> mask_dimensions \<Rightarrow> resize_geometry
     \<Rightarrow> (nat \<times> nat) workspace_buffer option \<Rightarrow> rle_pair workspace_buffer \<Rightarrow> nat
     \<Rightarrow> cxx_error + projection" where
  "new_projection pairs source target geometry scratch output maximum_runs =
     (let blank = \<lparr>pj_pairs = pairs, pj_source_dimensions = source, pj_geometry = geometry,
            pj_scratch = (case scratch of Some s \<Rightarrow> s | None \<Rightarrow> empty_buffer),
            pj_first = buffer_size output, pj_cursor = 0, pj_pixels = 0, pj_source = no_bounds,
            pj_emitter = new_emitter output (buffer_size output) (dim_width target) (Some no_bounds)
              ''mask run start overflow'' ''mask run length overflow'' maximum_runs,
            pj_slab = empty_slab, pj_full = (0, 0), pj_previous_end = 0, pj_remaining = 0,
            pj_pending_row = 0, pj_row = 0, pj_x = 0, pj_rows = 0, pj_stage = Source,
            pj_identity = False, pj_slab_active = False, pj_clear_intervals = False,
            pj_finished = False, pj_failed = False\<rparr>
      in if scratch = None \<or> resized_width geometry = 0 \<or> resized_height geometry = 0
            \<or> resized_width geometry > dim_width target \<or> resized_height geometry > dim_height target
            \<or> offset_x geometry > dim_width target - resized_width geometry
            \<or> offset_y geometry > dim_height target - resized_height geometry
         then Inl (Invalid_Argument ''mask resize parameters are invalid'')
         else if pairs = [] then Inr (blank\<lparr>pj_finished := True\<rparr>)
         else bindr (checked_pixel_count source) (\<lambda>pixels.
              bindr (checked_pixel_count target) (\<lambda>_.
                Inr (blank\<lparr>pj_pixels := pixels,
                  pj_identity := dim_width source = dim_width target \<and> dim_height source = dim_height target
                    \<and> resized_width geometry = dim_width source \<and> resized_height geometry = dim_height source
                    \<and> offset_x geometry = 0 \<and> offset_y geometry = 0,
                  pj_full := (offset_x geometry, wrap32 (offset_x geometry + resized_width geometry)),
                  pj_scratch := buffer_clear (pj_scratch blank)\<rparr>))))"

section \<open>Transitions\<close>

definition pj_rollback :: "projection \<Rightarrow> projection" where
  "pj_rollback pj =
     pj\<lparr>pj_emitter := (pj_emitter pj)\<lparr>em_output :=
          snd (buffer_resize \<lparr>run_start = 0, run_length = 0\<rparr> (em_output (pj_emitter pj)) (pj_first pj))\<rparr>,
        pj_failed := True\<rparr>"

definition start_slab :: "projection \<Rightarrow> nat \<Rightarrow> nat \<Rightarrow> (nat \<times> nat) list \<Rightarrow> bool \<Rightarrow> projection" where
  "start_slab pj first endd intervals clear =
     pj\<lparr>pj_slab := \<lparr>slab_row = wrap32 (first + offset_y (pj_geometry pj)),
          slab_end = wrap32 (endd + offset_y (pj_geometry pj)),
          slab_intervals = intervals, slab_interval = 0\<rparr>,
        pj_slab_active := True, pj_clear_intervals := clear\<rparr>"

definition pj_inverse_y :: "projection \<Rightarrow> nat \<Rightarrow> nat" where
  "pj_inverse_y pj row =
     inverse_mask_coordinate row (dim_height (pj_source_dimensions pj)) (resized_height (pj_geometry pj))"

definition pj_inverse_x :: "projection \<Rightarrow> nat \<Rightarrow> nat" where
  "pj_inverse_x pj column =
     wrap32 (inverse_mask_coordinate column (dim_width (pj_source_dimensions pj))
       (resized_width (pj_geometry pj)) + offset_x (pj_geometry pj))"

definition pj_flush :: "projection \<Rightarrow> projection" where
  "pj_flush pj =
     start_slab pj (pj_inverse_y pj (pj_pending_row pj)) (pj_inverse_y pj (wrap32 (pj_pending_row pj + 1)))
       (buffer_items (pj_scratch pj)) True"

definition pj_partial :: "projection \<Rightarrow> nat \<Rightarrow> nat \<Rightarrow> nat \<Rightarrow> (cxx_error + bool) \<times> projection" where
  "pj_partial pj row begin endd =
     (if row \<noteq> pj_pending_row pj then (Inr False, (pj_flush pj)\<lparr>pj_pending_row := row\<rparr>)
      else let first = pj_inverse_x pj begin; last_x = pj_inverse_x pj endd; items = buffer_items (pj_scratch pj) in
        if first \<noteq> last_x then
          (if items \<noteq> [] \<and> first = snd (last items)
           then (Inr True, pj\<lparr>pj_scratch := buffer_set_back (pj_scratch pj) (fst (last items), last_x)\<rparr>)
           else (case buffer_push_back (pj_scratch pj) (first, last_x) of
                   (Some e, scratch) \<Rightarrow> (Inl e, pj\<lparr>pj_scratch := scratch\<rparr>)
                 | (None, scratch) \<Rightarrow> (Inr True, pj\<lparr>pj_scratch := scratch\<rparr>)))
        else (Inr True, pj))"

text \<open>The transition of each stage, when no slab is active.\<close>

definition advance_source :: "projection \<Rightarrow> projection effect" where
  "advance_source pj =
     (if pj_cursor pj = length (pj_pairs pj) then (None, pj\<lparr>pj_stage := FinalFlush\<rparr>)
      else
        (let run = pj_pairs pj ! pj_cursor pj;
             pj1 = pj\<lparr>pj_cursor := pj_cursor pj + 1\<rparr>;
             endd = run_start run + run_length run;
             w = dim_width (pj_source_dimensions pj)
         in if run_length run = 0 \<or> run_start run < pj_previous_end pj \<or> endd > pj_pixels pj
            then (Some (Runtime_Error ''row-major mask contains an invalid run''), pj1)
            else
              (let pj2 = pj1\<lparr>pj_previous_end := endd\<rparr> in
               case include_row_major_mask_run (Some (pj_source pj)) (run_start run) endd w of
                 Inl e \<Rightarrow> (Some e, pj2)
               | Inr bounds \<Rightarrow>
                   (let pj3 = pj2\<lparr>pj_source := (case bounds of Some b \<Rightarrow> b | None \<Rightarrow> pj_source pj)\<rparr> in
                    if pj_identity pj3 then
                      (case emitter_run (pj_emitter pj3) (run_start run) endd of
                         (e, em) \<Rightarrow> (e, pj3\<lparr>pj_emitter := em\<rparr>))
                    else (None, pj3\<lparr>pj_row := run_start run div w, pj_x := run_start run mod w,
                                   pj_remaining := run_length run, pj_stage := Head\<rparr>)))))"

definition advance_head :: "projection \<Rightarrow> projection effect" where
  "advance_head pj =
     (if pj_x pj \<noteq> 0 then
        (let count = min (pj_remaining pj) (dim_width (pj_source_dimensions pj) - pj_x pj) in
         case pj_partial pj (pj_row pj) (pj_x pj) (pj_x pj + count) of
           (Inl e, pj') \<Rightarrow> (Some e, pj')
         | (Inr False, pj') \<Rightarrow> (None, pj')
         | (Inr True, pj') \<Rightarrow> (None, pj'\<lparr>pj_remaining := pj_remaining pj' - count,
                                     pj_row := wrap32 (pj_row pj' + 1), pj_stage := Full\<rparr>))
      else (None, pj\<lparr>pj_stage := Full\<rparr>))"

definition advance_full :: "projection \<Rightarrow> projection effect" where
  "advance_full pj =
     (let rows = wrap32 (pj_remaining pj div dim_width (pj_source_dimensions pj));
          pj1 = pj\<lparr>pj_rows := rows\<rparr>
      in (None, if rows \<noteq> 0 then (pj_flush pj1)\<lparr>pj_stage := FullSlab\<rparr> else pj1\<lparr>pj_stage := Tail\<rparr>))"

definition advance_full_slab :: "projection \<Rightarrow> projection effect" where
  "advance_full_slab pj =
     (let pj1 = start_slab pj (pj_inverse_y pj (pj_row pj)) (pj_inverse_y pj (wrap32 (pj_row pj + pj_rows pj)))
                  [pj_full pj] False
      in (None, pj1\<lparr>pj_row := wrap32 (pj_row pj + pj_rows pj),
                   pj_remaining := pj_remaining pj mod dim_width (pj_source_dimensions pj),
                   pj_stage := Tail\<rparr>))"

definition advance_tail :: "projection \<Rightarrow> projection effect" where
  "advance_tail pj =
     (if pj_remaining pj \<noteq> 0 then
        (case pj_partial pj (pj_row pj) 0 (wrap32 (pj_remaining pj)) of
           (Inl e, pj') \<Rightarrow> (Some e, pj')
         | (Inr False, pj') \<Rightarrow> (None, pj')
         | (Inr True, pj') \<Rightarrow> (None, pj'\<lparr>pj_stage := Source\<rparr>))
      else (None, pj\<lparr>pj_stage := Source\<rparr>))"

definition advance_slab :: "projection \<Rightarrow> projection effect" where
  "advance_slab pj =
     (case emitter_step_slab (pj_emitter pj) (pj_slab pj) of
        (Inl e, em, sl) \<Rightarrow> (Some e, pj\<lparr>pj_emitter := em, pj_slab := sl\<rparr>)
      | (Inr finished, em, sl) \<Rightarrow>
          (let pj1 = pj\<lparr>pj_emitter := em, pj_slab := sl\<rparr> in
           (None, if finished
             then pj1\<lparr>pj_slab_active := False,
                  pj_scratch := (if pj_clear_intervals pj1 then buffer_clear (pj_scratch pj1) else pj_scratch pj1)\<rparr>
             else pj1)))"

definition advance :: "projection \<Rightarrow> projection effect" where
  "advance pj =
     (if pj_slab_active pj then advance_slab pj
      else case pj_stage pj of
        Source \<Rightarrow> advance_source pj
      | Head \<Rightarrow> advance_head pj
      | Full \<Rightarrow> advance_full pj
      | FullSlab \<Rightarrow> advance_full_slab pj
      | Tail \<Rightarrow> advance_tail pj
      | FinalFlush \<Rightarrow> (None, (if pj_identity pj then pj else pj_flush pj)\<lparr>pj_stage := Finish\<rparr>)
      | Finish \<Rightarrow>
          (case emitter_finish (pj_emitter pj) of
             (Some e, em) \<Rightarrow> (Some e, pj\<lparr>pj_emitter := em\<rparr>)
           | (None, em) \<Rightarrow> (None, pj\<lparr>pj_emitter := em, pj_finished := True\<rparr>)))"

fun pj_steps :: "nat \<Rightarrow> projection \<Rightarrow> projection effect" where
  "pj_steps 0 pj = (None, pj)"
| "pj_steps (Suc n) pj = (if pj_finished pj then (None, pj) else and_then (advance pj) (pj_steps n))"

definition pj_step :: "projection \<Rightarrow> nat \<Rightarrow> (cxx_error + bool) \<times> projection" where
  "pj_step pj maximum_steps =
     (if maximum_steps = 0
      then (Inl (Invalid_Argument ''mask projection step requires a positive bound''), pj)
      else if pj_failed pj
      then (Inl (Logic_Error ''mask projection resumed after failure''), pj)
      else case pj_steps maximum_steps pj of
        (Some e, pj') \<Rightarrow> (Inl e, pj_rollback pj')
      | (None, pj') \<Rightarrow> (Inr (pj_finished pj'), pj'))"

text \<open>The caller's loop \<open>while (!projection.step()) {}\<close>; the step's default bound is 1024.\<close>

partial_function (option) pj_loop :: "projection \<Rightarrow> (projection effect) option" where
  "pj_loop pj =
     (case pj_step pj 1024 of
        (Inl e, pj') \<Rightarrow> Some (Some e, pj')
      | (Inr finished, pj') \<Rightarrow> if finished then Some (None, pj') else pj_loop pj')"

text \<open>
  The one-shot call: the target bounds, the source bounds where the input has runs, and the output
  as the call leaves it. \<open>None\<close> would be a loop that never ends.
\<close>

definition append_resized_row_major_mask ::
    "rle_pair list \<Rightarrow> mask_dimensions \<Rightarrow> mask_dimensions \<Rightarrow> resize_geometry
     \<Rightarrow> (nat \<times> nat) workspace_buffer option \<Rightarrow> rle_pair workspace_buffer \<Rightarrow> nat
     \<Rightarrow> ((cxx_error + mask_bounds option \<times> mask_bounds option) \<times> rle_pair workspace_buffer) option" where
  "append_resized_row_major_mask pairs source target geometry scratch output maximum_runs =
     (case new_projection pairs source target geometry scratch output maximum_runs of
        Inl e \<Rightarrow> Some (Inl e, output)
      | Inr pj \<Rightarrow>
          (case pj_loop pj of
             None \<Rightarrow> None
           | Some (Some e, pj') \<Rightarrow> Some (Inl e, em_output (pj_emitter pj'))
           | Some (None, pj') \<Rightarrow>
               Some (Inr (em_bounds (pj_emitter pj'), if pairs \<noteq> [] then Some (pj_source pj') else None),
                     em_output (pj_emitter pj'))))"

section \<open>Termination\<close>

text \<open>The slab cursor stays inside its intervals and its rows inside their width.\<close>

definition slab_wf :: "slab \<Rightarrow> bool" where
  "slab_wf sl \<longleftrightarrow> slab_end sl \<le> u32_max \<and>
     (slab_intervals sl \<noteq> [] \<longrightarrow> slab_interval sl < length (slab_intervals sl))"

definition slab_work :: "slab \<Rightarrow> nat" where
  "slab_work sl = Suc ((slab_end sl - slab_row sl) * length (slab_intervals sl)
                       + (length (slab_intervals sl) - slab_interval sl))"

definition pj_wf :: "projection \<Rightarrow> bool" where
  "pj_wf pj \<longleftrightarrow> pj_cursor pj \<le> length (pj_pairs pj) \<and> (pj_slab_active pj \<longrightarrow> slab_wf (pj_slab pj))"

fun stage_rank :: "stage \<Rightarrow> nat" where
  "stage_rank Head = 6"
| "stage_rank Full = 5"
| "stage_rank FullSlab = 4"
| "stage_rank Tail = 3"
| "stage_rank Source = 2"
| "stage_rank FinalFlush = 1"
| "stage_rank Finish = 0"

definition pj_measure :: "projection \<Rightarrow> nat \<times> nat \<times> nat \<times> nat" where
  "pj_measure pj = (length (pj_pairs pj) - pj_cursor pj, stage_rank (pj_stage pj),
     if pj_row pj \<noteq> pj_pending_row pj then 1 else 0,
     if pj_slab_active pj then slab_work (pj_slab pj) else 0)"

definition pj_order :: "(projection \<times> projection) set" where
  "pj_order = inv_image (less_than <*lex*> less_than <*lex*> less_than <*lex*> less_than) pj_measure"

lemma wf_pj_order: "wf pj_order"
  unfolding pj_order_def by (intro wf_inv_image wf_lex_prod wf_less_than)

lemma step_slab_progress:
  assumes "slab_wf sl" and "emitter_step_slab em sl = (Inr finished, em', sl')"
  shows "slab_wf sl' \<and> (\<not> finished \<longrightarrow> slab_work sl' < slab_work sl)"
proof (cases "slab_row sl < slab_end sl \<and> slab_intervals sl \<noteq> []
    \<and> \<not> (length (slab_intervals sl) = 1 \<and> fst (hd (slab_intervals sl)) = 0
         \<and> snd (hd (slab_intervals sl)) = em_width em)")
  case False
  with assms show ?thesis
    by (auto simp: emitter_step_slab_def slab_wf_def split: if_splits prod.splits option.splits)
next
  case True
  obtain k where k: "slab_end sl = Suc (slab_row sl + k)"
    using True by (metis less_iff_Suc_add)
  then have w: "wrap32 (Suc (slab_row sl)) = Suc (slab_row sl)"
    using assms(1) by (simp add: slab_wf_def)
  from True assms k w show ?thesis
    by (auto simp: emitter_step_slab_def slab_wf_def slab_work_def Let_def
        split: if_splits prod.splits option.splits)
qed

lemma start_slab_simps:
  "slab_wf (pj_slab (start_slab pj first endd intervals clear))"
  "pj_slab_active (start_slab pj first endd intervals clear)"
  "pj_pairs (start_slab pj first endd intervals clear) = pj_pairs pj"
  "pj_cursor (start_slab pj first endd intervals clear) = pj_cursor pj"
  "pj_stage (start_slab pj first endd intervals clear) = pj_stage pj"
  "pj_row (start_slab pj first endd intervals clear) = pj_row pj"
  "pj_pending_row (start_slab pj first endd intervals clear) = pj_pending_row pj"
  "pj_emitter (start_slab pj first endd intervals clear) = pj_emitter pj"
  "pj_first (start_slab pj first endd intervals clear) = pj_first pj"
proof -
  have "wrap32 n \<le> u32_max" for n using mod_less_divisor [of 4294967296 n] by linarith
  then show "slab_wf (pj_slab (start_slab pj first endd intervals clear))"
    by (simp add: start_slab_def slab_wf_def)
qed (simp_all add: start_slab_def)

lemmas pj_flush_defs = pj_flush_def start_slab_simps

lemma advance_slab_progress:
  assumes "pj_wf pj" and "pj_slab_active pj" and "advance_slab pj = (None, pj')"
  shows "pj_wf pj' \<and> (pj', pj) \<in> pj_order"
  using assms step_slab_progress [of "pj_slab pj" "pj_emitter pj"]
  by (auto simp: advance_slab_def pj_wf_def pj_order_def pj_measure_def Let_def slab_work_def
      split: sum.splits prod.splits if_splits)

lemma pj_orderI:
  assumes "pj_pairs pj' = pj_pairs pj"
    and "length (pj_pairs pj) - pj_cursor pj' < length (pj_pairs pj) - pj_cursor pj \<or>
      pj_cursor pj' = pj_cursor pj \<and>
      (stage_rank (pj_stage pj') < stage_rank (pj_stage pj) \<or>
       pj_stage pj' = pj_stage pj \<and> pj_row pj \<noteq> pj_pending_row pj \<and> pj_row pj' = pj_pending_row pj')"
  shows "(pj', pj) \<in> pj_order"
  using assms by (auto simp: pj_order_def pj_measure_def)

lemma advance_source_None:
  assumes "advance_source pj = (None, pj')"
  shows "pj_pairs pj' = pj_pairs pj \<and> pj_slab_active pj' = pj_slab_active pj \<and> pj_slab pj' = pj_slab pj \<and>
    (if pj_cursor pj = length (pj_pairs pj)
     then pj_cursor pj' = pj_cursor pj \<and> pj_stage pj' = FinalFlush
     else pj_cursor pj' = Suc (pj_cursor pj))"
  using assms unfolding advance_source_def Let_def
  by (simp split: if_splits sum.splits prod.splits option.splits) auto

lemma pj_partial_Inr:
  assumes "pj_partial pj row begin endd = (Inr r, pj')"
  shows "pj_pairs pj' = pj_pairs pj \<and> pj_cursor pj' = pj_cursor pj \<and> pj_stage pj' = pj_stage pj \<and>
    pj_row pj' = pj_row pj \<and>
    (if r then pj_slab_active pj' = pj_slab_active pj \<and> pj_slab pj' = pj_slab pj
     else slab_wf (pj_slab pj') \<and> row \<noteq> pj_pending_row pj \<and> pj_pending_row pj' = row)"
proof (cases "row = pj_pending_row pj")
  case True
  with assms show ?thesis
    unfolding pj_partial_def Let_def by (auto split: if_splits prod.splits option.splits)
next
  case False
  with assms show ?thesis
    unfolding pj_partial_def Let_def by (auto simp: pj_flush_defs)
qed

lemma advance_head_progress:
  assumes "pj_wf pj" and "\<not> pj_slab_active pj" and "pj_stage pj = Head" and "advance_head pj = (None, pj')"
  shows "pj_wf pj' \<and> (pj', pj) \<in> pj_order"
proof (cases "pj_x pj = 0")
  case True
  with assms show ?thesis by (auto simp: advance_head_def pj_wf_def intro: pj_orderI)
next
  case False
  let ?count = "min (pj_remaining pj) (dim_width (pj_source_dimensions pj) - pj_x pj)"
  from False assms(4) obtain r q where q: "pj_partial pj (pj_row pj) (pj_x pj) (pj_x pj + ?count) = (Inr r, q)"
    and pj': "pj' = (if r then q\<lparr>pj_remaining := pj_remaining q - ?count,
                                     pj_row := wrap32 (pj_row q + 1), pj_stage := Full\<rparr> else q)"
    unfolding advance_head_def Let_def by (auto split: sum.splits prod.splits bool.splits)
  from pj_partial_Inr [OF q] assms(1-3) pj' show ?thesis
    by (cases r) (auto simp: pj_wf_def intro!: pj_orderI)
qed

lemma advance_tail_progress:
  assumes "pj_wf pj" and "\<not> pj_slab_active pj" and "pj_stage pj = Tail" and "advance_tail pj = (None, pj')"
  shows "pj_wf pj' \<and> (pj', pj) \<in> pj_order"
proof (cases "pj_remaining pj = 0")
  case True
  with assms show ?thesis by (auto simp: advance_tail_def pj_wf_def intro: pj_orderI)
next
  case False
  with assms(4) obtain r q where q: "pj_partial pj (pj_row pj) 0 (wrap32 (pj_remaining pj)) = (Inr r, q)"
    and pj': "pj' = (if r then q\<lparr>pj_stage := Source\<rparr> else q)"
    unfolding advance_tail_def by (auto split: sum.splits prod.splits bool.splits)
  from pj_partial_Inr [OF q] assms(1-3) pj' show ?thesis
    by (cases r) (auto simp: pj_wf_def intro!: pj_orderI)
qed

lemma advance_full_progress:
  assumes "pj_wf pj" and "\<not> pj_slab_active pj" and "pj_stage pj = Full" and "advance_full pj = (None, pj')"
  shows "pj_wf pj' \<and> (pj', pj) \<in> pj_order"
proof -
  obtain rows where "pj' = (if rows \<noteq> 0 then (pj_flush (pj\<lparr>pj_rows := rows\<rparr>))\<lparr>pj_stage := FullSlab\<rparr>
      else pj\<lparr>pj_rows := rows, pj_stage := Tail\<rparr>)"
    using assms(4) unfolding advance_full_def Let_def by auto
  with assms(1-3) show ?thesis
    by (cases "rows = 0") (auto simp: pj_flush_defs pj_wf_def intro!: pj_orderI)
qed

lemma advance_full_slab_progress:
  assumes "pj_wf pj" and "\<not> pj_slab_active pj" and "pj_stage pj = FullSlab" and "advance_full_slab pj = (None, pj')"
  shows "pj_wf pj' \<and> (pj', pj) \<in> pj_order"
  using assms unfolding advance_full_slab_def Let_def
  by (auto simp: start_slab_simps pj_wf_def simp del: mod_less intro!: pj_orderI)

lemma advance_progress:
  assumes "pj_wf pj" and "advance pj = (None, pj')" and "\<not> pj_finished pj'"
  shows "pj_wf pj' \<and> (pj', pj) \<in> pj_order"
proof (cases "pj_slab_active pj")
  case True
  with assms advance_slab_progress show ?thesis by (simp add: advance_def)
next
  case False
  show ?thesis
  proof (cases "pj_stage pj")
    case Source
    with False assms(2) have "advance_source pj = (None, pj')" by (simp add: advance_def)
    from advance_source_None [OF this] assms(1) False Source show ?thesis
      by (auto simp: pj_wf_def intro!: pj_orderI split: if_splits)
  next
    case Head
    with False assms(2) have "advance_head pj = (None, pj')" by (simp add: advance_def)
    with False Head assms(1) show ?thesis using advance_head_progress by blast
  next
    case Full
    with False assms(2) have "advance_full pj = (None, pj')" by (simp add: advance_def)
    with False Full assms(1) show ?thesis using advance_full_progress by blast
  next
    case FullSlab
    with False assms(2) have "advance_full_slab pj = (None, pj')" by (simp add: advance_def)
    with False FullSlab assms(1) show ?thesis using advance_full_slab_progress by blast
  next
    case Tail
    with False assms(2) have "advance_tail pj = (None, pj')" by (simp add: advance_def)
    with False Tail assms(1) show ?thesis using advance_tail_progress by blast
  next
    case FinalFlush
    with False assms(2) have "pj' = (if pj_identity pj then pj else pj_flush pj)\<lparr>pj_stage := Finish\<rparr>"
      by (simp add: advance_def)
    with False FinalFlush assms(1) show ?thesis
      by (cases "pj_identity pj") (auto simp: pj_flush_defs pj_wf_def intro!: pj_orderI)
  next
    case Finish
    with False assms(2,3) show ?thesis by (auto simp: advance_def split: option.splits prod.splits)
  qed
qed

lemma pj_steps_progress:
  assumes "pj_wf pj" and "pj_steps n pj = (None, pj')" and "\<not> pj_finished pj'"
  shows "pj_wf pj' \<and> (n \<noteq> 0 \<longrightarrow> (pj', pj) \<in> pj_order\<^sup>+)"
  using assms
proof (induction n arbitrary: pj)
  case 0
  then show ?case by simp
next
  case (Suc n)
  show ?case
  proof (cases "pj_finished pj")
    case True
    with Suc.prems show ?thesis by simp
  next
    case False
    with Suc.prems obtain q where q: "advance pj = (None, q)" "pj_steps n q = (None, pj')"
      by (auto simp: and_then_None_iff)
    have "\<not> pj_finished q"
    proof
      assume "pj_finished q"
      then have "pj_steps n q = (None, q)" by (cases n) auto
      with q Suc.prems \<open>pj_finished q\<close> show False by simp
    qed
    with advance_progress [OF Suc.prems(1) q(1)] have "pj_wf q" "(q, pj) \<in> pj_order" by auto
    with Suc.IH [OF _ q(2) Suc.prems(3)] q(2) show ?thesis by (cases n) auto
  qed
qed

lemma pj_loop_returns:
  assumes "pj_wf pj"
  shows "\<exists>r. pj_loop pj = Some r"
  using wf_trancl [OF wf_pj_order] assms
proof (induction pj rule: wf_induct_rule)
  case (less pj)
  obtain r pj' where step: "pj_step pj 1024 = (r, pj')" by fastforce
  show ?case
  proof (cases "r = Inr False")
    case False
    with step show ?thesis by (subst pj_loop.simps) (auto split: sum.splits)
  next
    case True
    with step have "pj_steps 1024 pj = (None, pj')" "\<not> pj_finished pj'"
      by (auto simp: pj_step_def split: if_splits prod.splits option.splits)
    from pj_steps_progress [OF less.prems this] have "pj_wf pj'" "(pj', pj) \<in> pj_order\<^sup>+" by auto
    from less.IH [OF this(2,1)] obtain s where "pj_loop pj' = Some s" by (rule exE)
    with step True show ?thesis by (subst pj_loop.simps) simp
  qed
qed

lemma new_projection_wf: "new_projection pairs source target geometry scratch output maximum = Inr pj \<Longrightarrow> pj_wf pj"
  by (auto simp: new_projection_def Let_def pj_wf_def bindr_Inr_iff split: if_splits)

section \<open>Rollback\<close>

text \<open>
  The output of the emitter still starts with the runs \<open>xs\<close> of the earlier masks, and the emitter
  only ever rewrites the runs after them.
\<close>

definition em_keeps :: "rle_pair list \<Rightarrow> mask_run_emitter \<Rightarrow> bool" where
  "em_keeps xs em \<longleftrightarrow>
     buffer_ok (em_output em) \<and> take (length xs) (buffer_items (em_output em)) = xs \<and>
     em_first em = length xs \<and> length xs \<le> em_required em \<and>
     (em_required em \<le> em_maximum em \<longrightarrow> length (buffer_items (em_output em)) = em_required em)"

lemma em_keeps_length: "em_keeps xs em \<Longrightarrow> length xs \<le> length (buffer_items (em_output em))"
  unfolding em_keeps_def by (metis length_take min.cobounded1)

lemma emit_push_keeps:
  assumes "buffer_ok (em_output em)" and "emit_push em x = (e, em')"
  shows "\<exists>out. em' = em\<lparr>em_output := out\<rparr> \<and> buffer_ok out \<and>
    buffer_items out = (if e = None then buffer_items (em_output em) @ [x] else buffer_items (em_output em))"
proof -
  let ?out = "em_output em"
  let ?n = "buffer_capacity ?out + min (em_maximum em - buffer_capacity ?out) (max 1 (buffer_capacity ?out))"
  let ?grow = "buffer_size ?out = buffer_capacity ?out \<and> em_maximum em \<noteq> size_max"
  obtain g out0 where g: "(if ?grow then buffer_reserve ?out ?n else (None, ?out)) = (g, out0)" by fastforce
  have ok: "buffer_ok out0 \<and> buffer_items out0 = buffer_items ?out"
  proof (cases ?grow)
    case True
    have "buffer_reserve ?out ?n = (g, out0)" using g unfolding if_P [OF True] .
    then show ?thesis
      using workspace.reserve_ok [OF assms(1), of ?n] workspace.reserve_items [OF assms(1), of ?n] by simp
  next
    case False
    have "out0 = ?out" using g unfolding if_not_P [OF False] by simp
    with assms(1) show ?thesis by simp
  qed
  show ?thesis
  proof (cases g)
    case (Some err)
    with assms(2) g ok show ?thesis by (auto simp: emit_push_def Let_def)
  next
    case None
    with assms(2) g have "e = fst (buffer_push_back out0 x)"
      "em' = em\<lparr>em_output := snd (buffer_push_back out0 x)\<rparr>"
      by (auto simp: emit_push_def Let_def split: prod.splits)
    with ok workspace.push_ok [of out0 x] workspace.push_items [of out0 x]
    show ?thesis by auto
  qed
qed

lemma emit_new_run_keeps:
  assumes "em_keeps xs em" and "emit_new_run em x = (e, em')"
  shows "em_keeps xs em'"
proof (cases "em_required em \<ge> size_max")
  case True
  with assms show ?thesis by (simp add: emit_new_run_def checked_add_size_def)
next
  case False
  then have add: "checked_add_size (em_required em) 1 ctx = Inr (Suc (em_required em))" for ctx
    by (simp add: checked_add_size_eq)
  show ?thesis
  proof (cases "Suc (em_required em) \<le> em_maximum em")
    case False
    with assms add show ?thesis by (auto simp: emit_new_run_def em_keeps_def)
  next
    case True
    obtain e1 em1 where push: "emit_push em x = (e1, em1)" by fastforce
    have ok: "buffer_ok (em_output em)" "length (buffer_items (em_output em)) = em_required em"
      using assms(1) True by (auto simp: em_keeps_def)
    from emit_push_keeps [OF ok(1) push] obtain out where out: "em1 = em\<lparr>em_output := out\<rparr>" "buffer_ok out"
      "buffer_items out = (if e1 = None then buffer_items (em_output em) @ [x] else buffer_items (em_output em))"
      by blast
    have res: "em' = (if e1 = None then em1\<lparr>em_required := Suc (em_required em), em_last := x\<rparr> else em1)"
      using assms(2) add True push by (cases e1) (auto simp: emit_new_run_def)
    from out ok res assms(1) em_keeps_length [OF assms(1)] show ?thesis
      by (cases e1) (auto simp: em_keeps_def)
  qed
qed

lemma emit_extend_keeps:
  assumes "em_keeps xs em" and "em_first em < em_required em" and "emit_extend em endd = (e, em')"
  shows "em_keeps xs em'"
proof (cases "em_required em \<le> em_maximum em")
  case False
  with assms show ?thesis
    by (auto simp: emit_extend_def em_keeps_def Let_def split: sum.splits)
next
  case True
  with assms(1,2) have ok: "buffer_ok (em_output em)" "length xs < length (buffer_items (em_output em))"
    by (auto simp: em_keeps_def)
  from ok(2) have ne: "buffer_items (em_output em) \<noteq> []" by auto
  note w = workspace.set_back_ok [OF ok(1)] workspace.set_back_prefix [OF ok]
    workspace.set_back_length [OF ok(1) ne]
  from True assms(1,3) w show ?thesis
    by (auto simp: emit_extend_def em_keeps_def Let_def split: sum.splits)
qed

lemma emit_bounds_keeps: "em_keeps xs q \<Longrightarrow> emit_bounds q begin endd = (e, em') \<Longrightarrow> em_keeps xs em'"
  by (auto simp: emit_bounds_def em_keeps_def split: sum.splits)

lemma and_then_keeps:
  assumes "and_then m f = (e, em')" and "\<And>g q. m = (g, q) \<Longrightarrow> em_keeps xs q"
    and "\<And>g q r. f q = (g, r) \<Longrightarrow> em_keeps xs q \<Longrightarrow> em_keeps xs r"
  shows "em_keeps xs em'"
proof -
  obtain g q where m: "m = (g, q)" by fastforce
  with assms(1) assms(2) [OF m] assms(3) show ?thesis by (cases g) auto
qed

lemma emitter_run_keeps:
  assumes "em_keeps xs em" and "emitter_run em begin endd = (e, em')"
  shows "em_keeps xs em'"
proof (cases "em' = em")
  case False
  then obtain x where "and_then
      (if em_required em > em_first em \<and> run_end (em_last em) = begin
       then emit_extend em endd else emit_new_run em x) (\<lambda>q. emit_bounds q begin endd) = (e, em')"
    using assms(2) by (simp add: emitter_run_def split: if_splits sum.splits)
  then show ?thesis
  proof (rule and_then_keeps)
    fix g q
    assume "(if em_required em > em_first em \<and> run_end (em_last em) = begin
       then emit_extend em endd else emit_new_run em x) = (g, q)"
    then show "em_keeps xs q"
      using emit_extend_keeps [OF assms(1)] emit_new_run_keeps [OF assms(1)] by (metis (full_types))
  next
    fix g q r
    assume "emit_bounds q begin endd = (g, r)" and "em_keeps xs q"
    then show "em_keeps xs r" by (rule emit_bounds_keeps [rotated])
  qed
qed (use assms in simp)

lemma step_slab_keeps:
  assumes "em_keeps xs em" and "emitter_step_slab em sl = (r, em', sl')"
  shows "em_keeps xs em'"
  using assms emitter_run_keeps [OF assms(1)]
  by (auto simp: emitter_step_slab_def Let_def split: if_splits prod.splits option.splits)

definition pj_keeps :: "rle_pair list \<Rightarrow> projection \<Rightarrow> bool" where
  "pj_keeps xs pj \<longleftrightarrow> em_keeps xs (pj_emitter pj) \<and> pj_first pj = length xs"

lemma pj_partial_keeps:
  "pj_partial pj row begin endd = (r, pj') \<Longrightarrow> pj_emitter pj' = pj_emitter pj \<and> pj_first pj' = pj_first pj"
  by (auto simp: pj_partial_def Let_def pj_flush_defs split: if_splits prod.splits option.splits)

lemma advance_source_keeps:
  assumes "pj_keeps xs pj" and "advance_source pj = (e, pj')"
  shows "pj_keeps xs pj'"
proof -
  have run: "em_keeps xs em'" if "emitter_run (pj_emitter pj) a b = (f, em')" for a b f em'
    using emitter_run_keeps [OF _ that] assms(1) by (simp add: pj_keeps_def)
  from assms show ?thesis unfolding advance_source_def Let_def
    by (simp split: if_splits sum.splits prod.splits option.splits) (auto simp: pj_keeps_def dest: run)
qed

lemma advance_keeps:
  assumes "pj_keeps xs pj" and "advance pj = (e, pj')"
  shows "pj_keeps xs pj'"
proof (cases "pj_slab_active pj")
  case True
  then show ?thesis using assms step_slab_keeps [of xs "pj_emitter pj" "pj_slab pj"]
    by (auto simp: advance_def advance_slab_def pj_keeps_def Let_def split: sum.splits prod.splits if_splits)
next
  case False
  show ?thesis
  proof (cases "pj_stage pj")
    case Source
    with False assms advance_source_keeps show ?thesis by (simp add: advance_def)
  next
    case Head
    with False assms show ?thesis
      by (auto simp: advance_def advance_head_def pj_keeps_def Let_def dest!: pj_partial_keeps
          split: if_splits sum.splits prod.splits bool.splits)
  next
    case Tail
    with False assms show ?thesis
      by (auto simp: advance_def advance_tail_def pj_keeps_def dest!: pj_partial_keeps
          split: if_splits sum.splits prod.splits bool.splits)
  qed (use False assms in \<open>auto simp: advance_def advance_full_def advance_full_slab_def pj_flush_defs
        pj_keeps_def Let_def emitter_finish_def split: if_splits\<close>)
qed

lemma pj_steps_keeps: "pj_keeps xs pj \<Longrightarrow> pj_steps n pj = (e, pj') \<Longrightarrow> pj_keeps xs pj'"
proof (induction n arbitrary: pj)
  case (Suc n)
  obtain f q where q: "advance pj = (f, q)" by fastforce
  from Suc.prems advance_keeps [OF _ q] Suc.IH [of q] q show ?case
    by (cases f) (auto split: if_splits)
qed simp

lemma pj_rollback_restores:
  assumes "pj_keeps xs pj"
  shows "buffer_items (em_output (pj_emitter (pj_rollback pj))) = xs"
  using assms workspace.rollback_restores [of "em_output (pj_emitter pj)" "length xs" xs]
  by (simp add: pj_rollback_def pj_keeps_def em_keeps_def)

lemma new_projection_keeps:
  assumes "buffer_ok output" and "new_projection pairs source target geometry scratch output maximum = Inr pj"
  shows "pj_keeps (buffer_items output) pj"
  using assms
  by (auto simp: new_projection_def Let_def bindr_Inr_iff pj_keeps_def em_keeps_def new_emitter_def
      buffer_size_items split: if_splits)

lemma pj_step_keeps:
  assumes "pj_keeps xs pj" and "\<not> pj_failed pj" and "0 < n" and "pj_step pj n = (r, pj')"
  shows "(\<forall>e. r = Inl e \<longrightarrow> buffer_items (em_output (pj_emitter pj')) = xs) \<and>
    (\<forall>b. r = Inr b \<longrightarrow> pj_keeps xs pj')"
  using assms pj_steps_keeps [OF assms(1)] pj_rollback_restores
  by (auto simp: pj_step_def split: prod.splits option.splits)

lemma advance_failed: "advance pj = (e, pj') \<Longrightarrow> pj_failed pj' = pj_failed pj"
proof (cases "pj_slab_active pj")
  case True
  then show "advance pj = (e, pj') \<Longrightarrow> pj_failed pj' = pj_failed pj"
    by (auto simp: advance_def advance_slab_def Let_def split: sum.splits prod.splits if_splits)
next
  case False
  have partial: "pj_partial pj a b c = (r, q) \<Longrightarrow> pj_failed q = pj_failed pj" for a b c r q
    by (auto simp: pj_partial_def pj_flush_def start_slab_def Let_def split: if_splits prod.splits option.splits)
  assume adv: "advance pj = (e, pj')"
  show ?thesis
  proof (cases "pj_stage pj")
    case Source
    with False adv have "advance_source pj = (e, pj')" by (simp add: advance_def)
    then show ?thesis unfolding advance_source_def Let_def
      by (simp split: if_splits sum.splits prod.splits option.splits) auto
  next
    case Head
    with False adv show ?thesis
      by (auto simp: advance_def advance_head_def Let_def dest!: partial
          split: if_splits sum.splits prod.splits bool.splits)
  next
    case Tail
    with False adv show ?thesis
      by (auto simp: advance_def advance_tail_def dest!: partial
          split: if_splits sum.splits prod.splits bool.splits)
  qed (use False adv in \<open>auto simp: advance_def advance_full_def advance_full_slab_def pj_flush_def
        start_slab_def Let_def emitter_finish_def split: if_splits\<close>)
qed

lemma pj_steps_failed: "pj_steps n pj = (e, pj') \<Longrightarrow> pj_failed pj' = pj_failed pj"
proof (induction n arbitrary: pj)
  case (Suc n)
  obtain f q where q: "advance pj = (f, q)" by fastforce
  from Suc.prems advance_failed [OF q] Suc.IH [of q] q show ?case
    by (cases f) (auto split: if_splits)
qed simp

lemma pj_loop_keeps:
  assumes "pj_wf pj" and "pj_keeps xs pj" and "\<not> pj_failed pj" and "pj_loop pj = Some (e, pj')"
  shows "if e = None then pj_finished pj' \<and> pj_keeps xs pj'
    else buffer_items (em_output (pj_emitter pj')) = xs"
  using wf_trancl [OF wf_pj_order] assms
proof (induction pj rule: wf_induct_rule)
  case (less pj)
  obtain r q where step: "pj_step pj 1024 = (r, q)" by fastforce
  note keeps = pj_step_keeps [OF less.prems(2,3) _ step, simplified]
  show ?case
  proof (cases r)
    case (Inl err)
    with step less.prems(4) keeps show ?thesis by (subst (asm) pj_loop.simps) auto
  next
    case (Inr b)
    with step less.prems(3) have q: "pj_steps 1024 pj = (None, q)" "b = pj_finished q"
      by (auto simp: pj_step_def split: if_splits prod.splits option.splits)
    show ?thesis
    proof (cases b)
      case True
      with step Inr less.prems(4) keeps q show ?thesis by (subst (asm) pj_loop.simps) auto
    next
      case False
      with pj_steps_progress [OF less.prems(1) q(1)] q have "pj_wf q" "(q, pj) \<in> pj_order\<^sup>+" by auto
      moreover have "pj_loop q = Some (e, pj')"
        using step Inr False less.prems(4) by (subst (asm) pj_loop.simps) simp
      moreover have "\<not> pj_failed q" using pj_steps_failed [OF q(1)] less.prems(3) by simp
      ultimately show ?thesis using less.IH keeps Inr by simp
    qed
  qed
qed

lemma new_projection_fresh:
  "new_projection pairs source target geometry scratch output maximum = Inr pj \<Longrightarrow> \<not> pj_failed pj"
  by (auto simp: new_projection_def Let_def bindr_Inr_iff split: if_splits)

section \<open>Properties\<close>

text \<open>
  Resampling a mask always returns: whatever the runs, the dimensions and the placement, the
  loop over the bounded continuation ends with a result or with an exception.
\<close>

theorem append_resized_returns:
  "\<exists>r. append_resized_row_major_mask pairs source target geometry scratch output maximum_runs = Some r"
proof (cases "new_projection pairs source target geometry scratch output maximum_runs")
  case (Inl e)
  then show ?thesis by (simp add: append_resized_row_major_mask_def)
next
  case (Inr pj)
  from pj_loop_returns [OF new_projection_wf [OF Inr]] obtain e pj' where "pj_loop pj = Some (e, pj')" by auto
  with Inr show ?thesis by (cases e) (auto simp: append_resized_row_major_mask_def)
qed

text \<open>
  A resampling that throws, at whatever transition and for whatever reason (an invalid run, an
  overflow, a full output, too many runs), leaves the runs of the earlier masks and nothing else in
  the output; one that returns leaves them as a prefix.
\<close>

theorem append_resized_transactional:
  assumes "buffer_ok output"
    and "append_resized_row_major_mask pairs source target geometry scratch output maximum_runs = Some (r, output')"
  shows "(case r of Inl _ \<Rightarrow> buffer_items output' = buffer_items output
     | Inr _ \<Rightarrow> take (length (buffer_items output)) (buffer_items output') = buffer_items output)"
proof (cases "new_projection pairs source target geometry scratch output maximum_runs")
  case (Inl e)
  with assms(2) show ?thesis by (auto simp: append_resized_row_major_mask_def)
next
  case (Inr pj)
  note new = new_projection_wf [OF Inr] new_projection_keeps [OF assms(1) Inr] new_projection_fresh [OF Inr]
  from pj_loop_returns [OF new(1)] obtain e pj' where loop: "pj_loop pj = Some (e, pj')" by auto
  from pj_loop_keeps [OF new loop] loop Inr assms(2) show ?thesis
    by (cases e) (auto simp: append_resized_row_major_mask_def pj_keeps_def em_keeps_def)
qed

lemma pj_steps_positive:
  "0 < n \<Longrightarrow> pj_steps n pj = (if pj_finished pj then (None, pj) else and_then (advance pj) (pj_steps (n - 1)))"
  by (cases n) simp_all

theorem append_resized_transactional_witness:
  "\<exists>e output'. append_resized_row_major_mask
      [\<lparr>run_start = 0, run_length = 1\<rparr>, \<lparr>run_start = 0, run_length = 9\<rparr>]
      \<lparr>dim_width = 2, dim_height = 2\<rparr> \<lparr>dim_width = 2, dim_height = 2\<rparr>
      \<lparr>resized_width = 2, resized_height = 2, offset_x = 0, offset_y = 0\<rparr> (Some empty_buffer)
      (snd (buffer_push_back empty_buffer \<lparr>run_start = 1, run_length = 1\<rparr>)) size_max = Some (Inl e, output') \<and>
    buffer_items output' = [\<lparr>run_start = 1, run_length = 1\<rparr>]"
proof -
  let ?out = "snd (buffer_push_back empty_buffer \<lparr>run_start = 1, run_length = 1\<rparr>)"
  let ?pairs = "[\<lparr>run_start = 0, run_length = 1\<rparr>, \<lparr>run_start = 0, run_length = 9\<rparr>]"
  let ?d = "\<lparr>dim_width = 2, dim_height = 2\<rparr>"
  let ?g = "\<lparr>resized_width = 2, resized_height = 2, offset_x = 0, offset_y = 0\<rparr>"
  have ok: "buffer_ok ?out" "buffer_items ?out = [\<lparr>run_start = 1, run_length = 1\<rparr>]"
    by (simp_all add: buffer_push_back_def empty_buffer_def buffer_ok_def buffer_items_def)
  obtain pj where pj: "new_projection ?pairs ?d ?d ?g (Some empty_buffer) ?out size_max = Inr pj"
    "pj_pairs pj = ?pairs" "pj_cursor pj = 0" "pj_stage pj = Source" "\<not> pj_slab_active pj" "pj_identity pj"
    "pj_pixels pj = 4" "pj_previous_end pj = 0" "pj_source pj = no_bounds" "pj_source_dimensions pj = ?d"
    "\<not> pj_finished pj" "\<not> pj_failed pj" "pj_emitter pj = new_emitter ?out 1 2 (Some no_bounds)
              ''mask run start overflow'' ''mask run length overflow'' size_max"
    by (simp add: new_projection_def checked_pixel_count_def buffer_push_back_def empty_buffer_def
        buffer_size_def)
  obtain q where q: "advance pj = (None, q)" "pj_pairs q = ?pairs" "pj_cursor q = 1" "pj_stage q = Source"
    "\<not> pj_slab_active q" "pj_pixels q = 4" "pj_previous_end q = 1" "\<not> pj_finished q"
    using pj(2-13)
    by (simp add: advance_def advance_source_def Let_def include_row_major_mask_run_def no_bounds_def
        merge_bounds_def emitter_run_def new_emitter_def emit_new_run_def checked_add_size_def emit_push_def
        buffer_push_back_def empty_buffer_def buffer_size_def buffer_capacity_def emit_bounds_def)
  have "\<exists>q'. advance q = (Some (Runtime_Error ''row-major mask contains an invalid run''), q')"
    using q(2-8) by (simp add: advance_def advance_source_def)
  with q pj obtain q' where "pj_step pj 1024 = (Inl (Runtime_Error ''row-major mask contains an invalid run''), q')"
    by (auto simp: pj_step_def pj_steps_positive)
  then have "pj_loop pj = Some (Some (Runtime_Error ''row-major mask contains an invalid run''), q')"
    by (subst pj_loop.simps) simp
  with pj(1) have "append_resized_row_major_mask ?pairs ?d ?d ?g (Some empty_buffer) ?out size_max
    = Some (Inl (Runtime_Error ''row-major mask contains an invalid run''), em_output (pj_emitter q'))"
    by (simp add: append_resized_row_major_mask_def)
  from append_resized_transactional [OF ok(1) this] this ok(2) show ?thesis by auto
qed

text \<open>
  The inverse coordinate is exactly the adjoint of the nearest-centre sampler: a target pixel
  lies at or after the inverse of a source bound exactly when the source pixel under its centre lies
  at or after the bound, for every pair of extents that fit their width.
\<close>

theorem inverse_mask_coordinate_exact:
  assumes "0 < source_extent" and "0 < target_extent" and "target_extent \<le> u32_max" and "t < target_extent"
  shows "inverse_mask_coordinate bound source_extent target_extent \<le> t \<longleftrightarrow>
    bound \<le> nearest_source t source_extent target_extent"
  using assms by (rule inverse_mask_coordinate_adjoint)

theorem inverse_mask_coordinate_exact_witness:
  "inverse_mask_coordinate 3 5 7 \<le> 4 \<longleftrightarrow> 3 \<le> nearest_source 4 5 7"
  using inverse_mask_coordinate_exact [of 5 7 4 3] by simp

end
