(* ===== verification/Cbor_Types.thy ===== *)
theory Cbor_Types
  imports Prelude Common_Text
begin

text \<open>
  The vocabulary of \<open>src/frameworks/serialization/cbor_wire.h\<close>: error codes, the recursive \<open>Value\<close> and
  the bounded \<open>FlatValue\<close>, limits, the shortest-form argument encoding and the codec of floating-point
  numbers. A \<open>double\<close> and a \<open>float\<close> are their IEEE 754 bit patterns; the two conversions between them
  that the language provides are \<open>static_cast_float\<close> and \<open>static_cast_double\<close>.
\<close>

section \<open>Errors\<close>

datatype error_code =
    UnexpectedEof | NonMinimal | InvalidMajorType | InvalidAdditionalInfo | InvalidUtf8 | InvalidFloat
  | Overflow | LimitExceeded | DepthExceeded | IndefiniteContainer | TrailingData | MalformedItem
  | DuplicateKey | UnknownKey | TypeMismatch

record wire_error =
  err_code :: error_code
  err_offset :: nat
  err_path :: "byte list"

definition encode_error :: "error_code \<Rightarrow> wire_error" where
  "encode_error code = \<lparr>err_code = code, err_offset = 0, err_path = []\<rparr>"

section \<open>Values\<close>

text \<open>An \<open>std::int64_t\<close> and an \<open>std::uint64_t\<close> are words, a \<open>double\<close> is its bits.\<close>

datatype wire_value =
    VNull
  | VBool bool
  | VInt u64
  | VUInt u64
  | VDouble u64
  | VText "byte list"
  | VBytes "byte list"
  | VArray "wire_value list"
  | VObject "(byte list \<times> wire_value) list"

text \<open>\<open>Value(std::int64_t)\<close> keeps only negative numbers signed.\<close>

definition value_of_int64 :: "u64 \<Rightarrow> wire_value" where
  "value_of_int64 v = (if sint v < 0 then VInt v else VUInt v)"

record dynamic_limits =
  dl_max_bytes :: nat
  dl_max_items :: nat
  dl_max_depth :: nat

function value_within :: "dynamic_limits \<Rightarrow> nat \<Rightarrow> wire_value \<Rightarrow> bool" where
  "value_within l depth v =
     (if depth > dl_max_depth l then False
      else case v of
        VText t \<Rightarrow> length t \<le> dl_max_bytes l
      | VBytes b \<Rightarrow> length b \<le> dl_max_bytes l
      | VArray vs \<Rightarrow> length vs \<le> dl_max_items l \<and> (\<forall>c \<in> set vs. value_within l (depth + 1) c)
      | VObject ms \<Rightarrow> length ms \<le> dl_max_items l \<and>
          (\<forall>m \<in> set ms. length (fst m) \<le> dl_max_bytes l \<and> value_within l (depth + 1) (snd m))
      | _ \<Rightarrow> True)"
  by pat_completeness auto

termination
  by (relation "measure (\<lambda>(l, depth, v). Suc (dl_max_depth l) - depth)") auto

declare value_within.simps [simp del]

definition dynamic_value_within_limits :: "wire_value \<Rightarrow> dynamic_limits \<Rightarrow> bool" where
  "dynamic_value_within_limits v l \<longleftrightarrow>
     dl_max_bytes l \<noteq> 0 \<and> dl_max_items l \<noteq> 0 \<and> value_within l 0 v"

section \<open>Flat values\<close>

datatype scalar =
    SNull | SBool bool | SInt u64 | SUInt u64 | SDouble u64 | SText "byte list" | SBytes "byte list"

datatype flat_value = FScalar scalar | FArray "scalar list"

definition scalar_of_int64 :: "u64 \<Rightarrow> scalar" where
  "scalar_of_int64 v = (if sint v < 0 then SInt v else SUInt v)"

fun value_of_scalar :: "scalar \<Rightarrow> wire_value" where
  "value_of_scalar SNull = VNull"
| "value_of_scalar (SBool b) = VBool b"
| "value_of_scalar (SInt i) = VInt i"
| "value_of_scalar (SUInt u) = VUInt u"
| "value_of_scalar (SDouble d) = VDouble d"
| "value_of_scalar (SText t) = VText t"
| "value_of_scalar (SBytes b) = VBytes b"

definition scalar_within :: "dynamic_limits \<Rightarrow> scalar \<Rightarrow> bool" where
  "scalar_within l s = (case s of SText t \<Rightarrow> length t \<le> dl_max_bytes l
     | SBytes b \<Rightarrow> length b \<le> dl_max_bytes l | _ \<Rightarrow> True)"

definition flat_text :: "byte list \<Rightarrow> nat \<Rightarrow> wire_error + flat_value" where
  "flat_text t max_bytes =
     (if max_bytes = 0 \<or> length t > max_bytes then Inl (encode_error LimitExceeded)
      else Inr (FScalar (SText t)))"

definition flat_bytes :: "byte list \<Rightarrow> nat \<Rightarrow> wire_error + flat_value" where
  "flat_bytes b max_bytes =
     (if max_bytes = 0 \<or> length b > max_bytes then Inl (encode_error LimitExceeded)
      else Inr (FScalar (SBytes b)))"

fun flat_array_scalars :: "dynamic_limits \<Rightarrow> flat_value list \<Rightarrow> wire_error + scalar list" where
  "flat_array_scalars l [] = Inr []"
| "flat_array_scalars l (FArray ss # vs) = Inl (encode_error TypeMismatch)"
| "flat_array_scalars l (FScalar s # vs) =
     (if scalar_within l s then bindr (flat_array_scalars l vs) (\<lambda>rest. Inr (s # rest))
      else Inl (encode_error LimitExceeded))"

definition flat_array :: "flat_value list \<Rightarrow> dynamic_limits \<Rightarrow> wire_error + flat_value" where
  "flat_array vs l =
     (if dl_max_bytes l = 0 \<or> dl_max_items l = 0 \<or> length vs > dl_max_items l
         \<or> (dl_max_depth l = 0 \<and> vs \<noteq> [])
      then Inl (encode_error LimitExceeded)
      else bindr (flat_array_scalars l vs) (\<lambda>ss. Inr (FArray ss)))"

text \<open>\<open>FlatValue::from_value\<close>, with the conversion of one array element.\<close>

definition isfinite64 :: "u64 \<Rightarrow> bool" where
  "isfinite64 d \<longleftrightarrow> drop_bit 52 d AND 0x7ff \<noteq> 0x7ff"

fun element_from_value :: "dynamic_limits \<Rightarrow> wire_value \<Rightarrow> wire_error + scalar" where
  "element_from_value l VNull = Inr SNull"
| "element_from_value l (VBool b) = Inr (SBool b)"
| "element_from_value l (VInt i) = Inr (SInt i)"
| "element_from_value l (VUInt u) = Inr (SUInt u)"
| "element_from_value l (VDouble d) =
     (if isfinite64 d then Inr (SDouble d) else Inl (encode_error InvalidFloat))"
| "element_from_value l (VText t) =
     (if length t \<le> dl_max_bytes l then Inr (SText t) else Inl (encode_error LimitExceeded))"
| "element_from_value l (VBytes b) =
     (if length b \<le> dl_max_bytes l then Inr (SBytes b) else Inl (encode_error LimitExceeded))"
| "element_from_value l (VArray vs) = Inl (encode_error TypeMismatch)"
| "element_from_value l (VObject ms) = Inl (encode_error TypeMismatch)"

fun elements_from_values :: "dynamic_limits \<Rightarrow> wire_value list \<Rightarrow> wire_error + scalar list" where
  "elements_from_values l [] = Inr []"
| "elements_from_values l (v # vs) =
     bindr (element_from_value l v) (\<lambda>s. bindr (elements_from_values l vs) (\<lambda>rest. Inr (s # rest)))"

definition flat_from_value :: "wire_value \<Rightarrow> dynamic_limits \<Rightarrow> wire_error + flat_value" where
  "flat_from_value v l =
     (if dl_max_bytes l = 0 \<or> dl_max_items l = 0 then Inl (encode_error LimitExceeded)
      else case v of
        VNull \<Rightarrow> Inr (FScalar SNull)
      | VBool b \<Rightarrow> Inr (FScalar (SBool b))
      | VInt i \<Rightarrow> Inr (FScalar (scalar_of_int64 i))
      | VUInt u \<Rightarrow> Inr (FScalar (SUInt u))
      | VDouble d \<Rightarrow> if isfinite64 d then Inr (FScalar (SDouble d)) else Inl (encode_error InvalidFloat)
      | VText t \<Rightarrow> flat_text t (dl_max_bytes l)
      | VBytes b \<Rightarrow> flat_bytes b (dl_max_bytes l)
      | VArray vs \<Rightarrow>
          if length vs > dl_max_items l \<or> (dl_max_depth l = 0 \<and> vs \<noteq> [])
          then Inl (encode_error LimitExceeded)
          else bindr (elements_from_values l vs) (\<lambda>ss. Inr (FArray ss))
      | VObject ms \<Rightarrow> Inl (encode_error TypeMismatch))"

definition flat_within_limits :: "flat_value \<Rightarrow> dynamic_limits \<Rightarrow> bool" where
  "flat_within_limits v l =
     (if dl_max_bytes l = 0 \<or> dl_max_items l = 0 then False
      else case v of
        FArray ss \<Rightarrow> if length ss > dl_max_items l \<or> (dl_max_depth l = 0 \<and> ss \<noteq> []) then False
                     else list_all (scalar_within l) ss
      | FScalar s \<Rightarrow> scalar_within l s)"

section \<open>Limits\<close>

datatype allocation_kind = Alloc_Text | Alloc_Bytes | Alloc_Sequence | Alloc_Object

record path_element =
  pe_name :: "byte list"
  pe_object_kind :: "byte list"

record allocation_request =
  ar_path :: "path_element list"
  ar_kind :: allocation_kind
  ar_size :: nat

record limits =
  max_bytes :: nat
  max_items :: nat
  max_depth :: nat
  allows :: "(allocation_request \<Rightarrow> bool) option"

definition kMaximumNestingDepth :: nat where "kMaximumNestingDepth = 64"

record byte_segments =
  seg_first :: "byte list"
  seg_second :: "byte list"

definition seg_size :: "byte_segments \<Rightarrow> nat" where
  "seg_size s = length (seg_first s) + length (seg_second s)"

definition seg_bytes :: "byte_segments \<Rightarrow> byte list" where
  "seg_bytes s = seg_first s @ seg_second s"

lemma length_seg_bytes [simp]: "length (seg_bytes s) = seg_size s"
  by (simp add: seg_bytes_def seg_size_def)

section \<open>Arguments\<close>

definition head_size :: "nat \<Rightarrow> nat" where
  "head_size value =
     (if value < 24 then 1 else if value \<le> 0xff then 2 else if value \<le> 0xffff then 3
      else if value \<le> 0xffffffff then 5 else 9)"

definition signed_integer_encoding :: "u64 \<Rightarrow> nat \<times> nat" where
  "signed_integer_encoding value =
     (if sint value \<ge> 0 then (0, unat value) else (1, nat (- (sint value + 1))))"

definition additional_info_for_head_size :: "nat \<Rightarrow> nat" where
  "additional_info_for_head_size n =
     (if n = 1 then 0 else if n = 2 then 24 else if n = 3 then 25
      else if n = 5 then 26 else if n = 9 then 27 else 31)"

definition fits_remaining :: "nat \<Rightarrow> nat \<Rightarrow> nat \<Rightarrow> bool" where
  "fits_remaining v used limit \<longleftrightarrow> used \<le> limit \<and> v \<le> limit - used"

definition structural_key_hash :: "byte list \<Rightarrow> u64 \<Rightarrow> u64" where
  "structural_key_hash key salt =
     (let h0 = foldl (\<lambda>hash b.
            (hash XOR (ucast b + 0x9e3779b97f4a7c15 + push_bit 6 hash + drop_bit 2 hash))
              * 0xbf58476d1ce4e5b9)
          (0x9e3779b97f4a7c15 XOR salt) key;
          h1 = (h0 XOR drop_bit 30 h0) * 0xbf58476d1ce4e5b9;
          h2 = (h1 XOR drop_bit 27 h1) * 0x94d049bb133111eb
      in h2 XOR drop_bit 31 h2)"

section \<open>Floating-point numbers\<close>

text \<open>
  \<open>float_to_half\<close> and \<open>half_to_float\<close> are the code's own. \<open>half_exponent\<close> is an \<open>int\<close> there and here.
\<close>

definition float_to_half :: "u32 \<Rightarrow> u16" where
  "float_to_half bits =
     (let sgn = drop_bit 16 bits AND 0x8000;
          exponent = drop_bit 23 bits AND 0xff;
          fraction = bits AND 0x7fffff;
          half_exponent = uint exponent - 127 + 15
      in if exponent = 0xff then ucast (sgn OR 0x7c00 OR (if fraction = 0 then 0 else 0x200))
         else if half_exponent \<ge> 31 then ucast (sgn OR 0x7c00)
         else if half_exponent \<le> 0 then
           (if half_exponent < - 10 then ucast sgn
            else let shifted = drop_bit (nat (1 - half_exponent)) (fraction OR 0x800000)
                 in ucast (sgn OR drop_bit 13 (shifted + 0x1000)))
         else ucast (sgn OR push_bit 10 (word_of_int half_exponent) OR drop_bit 13 (fraction + 0x1000)))"

text \<open>
  The normalising loop of a subnormal half, on the fraction and the exponent. A nonzero fraction of
  ten bits reaches bit ten within ten shifts, so the loop always ends; a zero fraction never enters it.
\<close>

fun normalize_half :: "nat \<Rightarrow> u32 \<Rightarrow> u32 \<Rightarrow> u32 \<times> u32" where
  "normalize_half 0 fraction exponent = (fraction, exponent)"
| "normalize_half (Suc n) fraction exponent =
     (if fraction AND 0x400 = 0 then normalize_half n (push_bit 1 fraction) (exponent - 1)
      else (fraction, exponent))"

definition half_to_float :: "u16 \<Rightarrow> u32" where
  "half_to_float half =
     (let sgn = push_bit 16 (ucast (half AND 0x8000) :: u32);
          exponent = ucast (drop_bit 10 half AND 0x1f) :: u32;
          fraction = ucast (half AND 0x3ff) :: u32
      in if exponent = 0 then
           (if fraction \<noteq> 0 then
              (case normalize_half 10 fraction 113 of (fr, ex) \<Rightarrow>
                 sgn OR push_bit 23 ex OR push_bit 13 (fr AND 0x3ff))
            else sgn)
         else if exponent = 31 then sgn OR (0x7f800000 OR push_bit 13 fraction)
         else sgn OR push_bit 23 (exponent + 112) OR push_bit 13 fraction)"

text \<open>IEEE 754: the classes of a bit pattern and equality of the numbers two patterns stand for.\<close>

definition isfinite32 :: "u32 \<Rightarrow> bool" where
  "isfinite32 f \<longleftrightarrow> drop_bit 23 f AND 0xff \<noteq> 0xff"

definition isnan32 :: "u32 \<Rightarrow> bool" where
  "isnan32 f \<longleftrightarrow> \<not> isfinite32 f \<and> f AND 0x7fffff \<noteq> 0"

definition isnan64 :: "u64 \<Rightarrow> bool" where
  "isnan64 d \<longleftrightarrow> \<not> isfinite64 d \<and> d AND 0xfffffffffffff \<noteq> 0"

definition float_eq :: "u32 \<Rightarrow> u32 \<Rightarrow> bool" where
  "float_eq a b \<longleftrightarrow> \<not> isnan32 a \<and> \<not> isnan32 b \<and>
     (a = b \<or> (a AND 0x7fffffff = 0 \<and> b AND 0x7fffffff = 0))"

definition double_eq :: "u64 \<Rightarrow> u64 \<Rightarrow> bool" where
  "double_eq a b \<longleftrightarrow> \<not> isnan64 a \<and> \<not> isnan64 b \<and>
     (a = b \<or> (a AND 0x7fffffffffffffff = 0 \<and> b AND 0x7fffffffffffffff = 0))"

text \<open>
  Rounding an integer significand to its upper part, to nearest with ties to even, the rounding
  mode a conversion uses.
\<close>

definition round_nearest_even :: "nat \<Rightarrow> nat \<Rightarrow> nat" where
  "round_nearest_even m s =
     (let q = m div 2 ^ s; r = m mod 2 ^ s in
      if 2 * r > 2 ^ s \<or> (2 * r = 2 ^ s \<and> odd q) then q + 1 else q)"

text \<open>
  \<open>double\<close> to \<open>float\<close>. With the biased exponent \<open>E\<close> and the fraction \<open>F\<close> of the double, the number is
  \<open>M * 2 ^ (max E 1 - 1075)\<close>; a float with biased exponent \<open>e\<close> counts units of \<open>2 ^ (max e 1 - 150)\<close>, and
  adding the rounded significand to the exponent field carries into it where rounding overflows.
\<close>

definition static_cast_float :: "u64 \<Rightarrow> u32" where
  "static_cast_float d =
     (let sgn = unat (drop_bit 63 d) * 2 ^ 31;
          E = unat (drop_bit 52 d AND 0x7ff);
          F = unat (d AND 0xfffffffffffff);
          M = (if E = 0 then F else 2 ^ 52 + F);
          base = E - 897;
          q = round_nearest_even M (29 + (897 - max E 1));
          magnitude = base * 2 ^ 23 + q
      in of_nat (sgn +
          (if E = 2047 then (if F = 0 then 0x7f800000 else 0x7fc00000 + (F div 2 ^ 29) mod 2 ^ 22)
           else min 0x7f800000 magnitude)))"

text \<open>
  \<open>float\<close> to \<open>double\<close>, which is exact: a subnormal float is normalised at its leading bit.
\<close>

fun leading_bit :: "nat \<Rightarrow> nat" where
  "leading_bit n = (if n < 2 then 0 else Suc (leading_bit (n div 2)))"

declare leading_bit.simps [simp del]

definition static_cast_double :: "u32 \<Rightarrow> u64" where
  "static_cast_double f =
     (let sgn = unat (drop_bit 31 f) * 2 ^ 63;
          e = unat (drop_bit 23 f AND 0xff);
          fr = unat (f AND 0x7fffff)
      in of_nat (sgn +
          (if e = 255 then (if fr = 0 then 0x7ff0000000000000
                            else 0x7ff8000000000000 + (fr mod 2 ^ 22) * 2 ^ 29)
           else if e \<noteq> 0 then (e + 896) * 2 ^ 52 + fr * 2 ^ 29
           else if fr = 0 then 0
           else let k = leading_bit fr in (k + 874) * 2 ^ 52 + (fr - 2 ^ k) * 2 ^ (52 - k))))"

datatype float_width = Half | Single | Double

definition float_width_bytes :: "float_width \<Rightarrow> nat" where
  "float_width_bytes w = (case w of Half \<Rightarrow> 2 | Single \<Rightarrow> 4 | Double \<Rightarrow> 8)"

definition canonical_float_encoding :: "u64 \<Rightarrow> error_code + float_width \<times> nat" where
  "canonical_float_encoding value =
     (if \<not> isfinite64 value then Inl InvalidFloat
      else let narrowed = static_cast_float value in
        if \<not> double_eq (static_cast_double narrowed) value then Inr (Double, unat value)
        else let half = float_to_half narrowed in
          if float_eq (half_to_float half) narrowed then Inr (Half, unat half)
          else Inr (Single, unat narrowed))"

end
