(* ===== verification/Cbor_Reader.thy ===== *)
theory Cbor_Reader
  imports Cbor_Types
begin

text \<open>
  The \<open>Reader\<close> of \<open>src/frameworks/serialization/cbor_wire.cpp\<close>. The members that never change, the
  input and the limits, form a \<open>reader_env\<close>; the others form the \<open>reader\<close> that every operation returns
  updated. An operation that fails returns its error, which carries the offset and the path at which
  it was raised. \<open>read_item\<close> and its loops are the recursive descent of materialising reads; the
  structural validator, which shares the head and scalar operations, is in \<open>Cbor_Structural\<close>.
\<close>

section \<open>State\<close>

record reader_env =
  env_input :: byte_segments
  env_limits :: limits

record reader =
  rd_offset :: nat
  rd_items :: nat
  rd_path :: "path_element list"

definition new_reader :: reader where
  "new_reader = \<lparr>rd_offset = 0, rd_items = 0, rd_path = []\<rparr>"

text \<open>The names of the path joined by dots; a dot is only written after a nonempty prefix.\<close>

definition join_path :: "path_element list \<Rightarrow> byte list" where
  "join_path path =
     foldl (\<lambda>acc element. (if acc \<noteq> [] then acc @ [46] else acc) @ pe_name element) [] path"

definition reader_error :: "reader \<Rightarrow> error_code \<Rightarrow> wire_error" where
  "reader_error r code = \<lparr>err_code = code, err_offset = rd_offset r, err_path = join_path (rd_path r)\<rparr>"

definition contextualize :: "reader \<Rightarrow> wire_error \<Rightarrow> wire_error" where
  "contextualize r result =
     (if err_path result = [] then result\<lparr>err_path := err_path (reader_error r (err_code result))\<rparr> else result)"

definition enter_path :: "byte list \<Rightarrow> reader \<Rightarrow> reader" where
  "enter_path name r = r\<lparr>rd_path := rd_path r @ [\<lparr>pe_name = name, pe_object_kind = []\<rparr>]\<rparr>"

definition release_path :: "reader \<Rightarrow> reader" where
  "release_path r = r\<lparr>rd_path := butlast (rd_path r)\<rparr>"

section \<open>Bytes and arguments\<close>

definition peek_byte :: "reader_env \<Rightarrow> reader \<Rightarrow> wire_error + byte" where
  "peek_byte E r =
     (let input = env_input E in
      if rd_offset r \<ge> seg_size input then Inl (reader_error r UnexpectedEof)
      else Inr (if rd_offset r < length (seg_first input) then seg_first input ! rd_offset r
                else seg_second input ! (rd_offset r - length (seg_first input))))"

definition next_is_null :: "reader_env \<Rightarrow> reader \<Rightarrow> wire_error + bool" where
  "next_is_null E r =
     (if seg_size (env_input E) > max_bytes (env_limits E) then Inl (reader_error r LimitExceeded)
      else bindr (peek_byte E r) (\<lambda>b. Inr (b = 0xf6)))"

definition read_byte :: "reader_env \<Rightarrow> reader \<Rightarrow> wire_error + byte \<times> reader" where
  "read_byte E r = bindr (peek_byte E r) (\<lambda>b. Inr (b, r\<lparr>rd_offset := rd_offset r + 1\<rparr>))"

text \<open>The loop of \<open>big_endian\<close>: \<open>n\<close> bytes are left, \<open>v\<close> has been read.\<close>

fun big_endian :: "reader_env \<Rightarrow> nat \<Rightarrow> nat \<Rightarrow> reader \<Rightarrow> wire_error + nat \<times> reader" where
  "big_endian E 0 v r = Inr (v, r)"
| "big_endian E (Suc n) v r =
     bindr (read_byte E r) (\<lambda>(b, r'). big_endian E n (wrap64 (v * 256) + unat b) r')"

definition argument_bytes :: "nat \<Rightarrow> nat" where
  "argument_bytes additional =
     (if additional = 24 then 1 else if additional = 25 then 2 else if additional = 26 then 4
      else if additional = 27 then 8 else 0)"

definition argument :: "reader_env \<Rightarrow> nat \<Rightarrow> reader \<Rightarrow> wire_error + nat \<times> reader" where
  "argument E additional r =
     (if additional < 24 then Inr (additional, r)
      else if additional = 31 then Inl (reader_error r IndefiniteContainer)
      else let byte_count = argument_bytes additional in
        if byte_count = 0 then Inl (reader_error r InvalidAdditionalInfo)
        else bindr (big_endian E byte_count 0 r) (\<lambda>(v, r').
          if head_size v \<noteq> byte_count + 1 then Inl (reader_error r' NonMinimal) else Inr (v, r')))"

definition size_argument :: "reader_env \<Rightarrow> nat \<Rightarrow> reader \<Rightarrow> wire_error + nat \<times> reader" where
  "size_argument E additional r =
     bindr (argument E additional r) (\<lambda>(v, r').
       if v > size_max then Inl (reader_error r' Overflow) else Inr (v, r'))"

definition payload_ranges :: "reader_env \<Rightarrow> nat \<Rightarrow> reader \<Rightarrow> byte_segments" where
  "payload_ranges E count r =
     (let input = env_input E; k = length (seg_first input) in
      if rd_offset r \<ge> k
      then \<lparr>seg_first = take count (drop (rd_offset r - k) (seg_second input)), seg_second = []\<rparr>
      else let first_count = min count (k - rd_offset r) in
        \<lparr>seg_first = take first_count (drop (rd_offset r) (seg_first input)),
         seg_second = take (count - first_count) (seg_second input)\<rparr>)"

definition validated_payload_ranges :: "reader_env \<Rightarrow> nat \<Rightarrow> reader \<Rightarrow> wire_error + byte_segments" where
  "validated_payload_ranges E count r =
     (if count > seg_size (env_input E) - rd_offset r then Inl (reader_error r UnexpectedEof)
      else if count > max_bytes (env_limits E) - rd_offset r then Inl (reader_error r LimitExceeded)
      else Inr (payload_ranges E count r))"

definition read_bytes :: "reader_env \<Rightarrow> nat \<Rightarrow> reader \<Rightarrow> wire_error + byte list \<times> reader" where
  "read_bytes E count r =
     bindr (validated_payload_ranges E count r) (\<lambda>ranges.
       Inr (seg_first ranges @ seg_second ranges, r\<lparr>rd_offset := rd_offset r + count\<rparr>))"

definition read_text :: "reader_env \<Rightarrow> nat \<Rightarrow> reader \<Rightarrow> wire_error + byte list \<times> reader" where
  "read_text E count r =
     bindr (validated_payload_ranges E count r) (\<lambda>ranges.
       let result = seg_first ranges @ seg_second ranges;
           r' = r\<lparr>rd_offset := rd_offset r + count\<rparr>
       in if \<not> valid_utf8 result then Inl (reader_error r' InvalidUtf8) else Inr (result, r'))"

definition allocation_allowed :: "reader_env \<Rightarrow> allocation_kind \<Rightarrow> nat \<Rightarrow> reader \<Rightarrow> bool" where
  "allocation_allowed E kind n r =
     (case allows (env_limits E) of None \<Rightarrow> True
      | Some allow \<Rightarrow> allow \<lparr>ar_path = rd_path r, ar_kind = kind, ar_size = n\<rparr>)"

section \<open>Items\<close>

record item_head =
  ih_initial :: nat
  ih_major :: nat
  ih_additional :: nat

definition head_of_byte :: "byte \<Rightarrow> item_head" where
  "head_of_byte b = \<lparr>ih_initial = unat b, ih_major = unat b div 32, ih_additional = unat b mod 32\<rparr>"

definition item_head :: "reader_env \<Rightarrow> nat \<Rightarrow> reader \<Rightarrow> wire_error + item_head \<times> reader" where
  "item_head E depth r =
     (if seg_size (env_input E) > max_bytes (env_limits E) then Inl (reader_error r LimitExceeded)
      else if depth > max_depth (env_limits E) then Inl (reader_error r DepthExceeded)
      else if rd_items r \<ge> max_items (env_limits E) then Inl (reader_error r LimitExceeded)
      else bindr (read_byte E (r\<lparr>rd_items := rd_items r + 1\<rparr>)) (\<lambda>(b, r'). Inr (head_of_byte b, r')))"

text \<open>The simple values and floating-point numbers of major type seven.\<close>

definition read_half_float :: "reader_env \<Rightarrow> reader \<Rightarrow> wire_error + scalar \<times> reader" where
  "read_half_float E r = bindr (big_endian E 2 0 r) (\<lambda>(bits, r').
     let value = static_cast_double (half_to_float (of_nat bits)) in
     if \<not> isfinite64 value then Inl (reader_error r' InvalidFloat) else Inr (SDouble value, r'))"

definition read_single_float :: "reader_env \<Rightarrow> reader \<Rightarrow> wire_error + scalar \<times> reader" where
  "read_single_float E r = bindr (big_endian E 4 0 r) (\<lambda>(bits, r').
     let narrowed = of_nat bits in
     if \<not> isfinite32 narrowed then Inl (reader_error r' InvalidFloat)
     else if float_eq (half_to_float (float_to_half narrowed)) narrowed then Inl (reader_error r' NonMinimal)
     else Inr (SDouble (static_cast_double narrowed), r'))"

definition read_double_float :: "reader_env \<Rightarrow> reader \<Rightarrow> wire_error + scalar \<times> reader" where
  "read_double_float E r = bindr (big_endian E 8 0 r) (\<lambda>(bits, r').
     let value = of_nat bits in
     if \<not> isfinite64 value then Inl (reader_error r' InvalidFloat)
     else if double_eq (static_cast_double (static_cast_float value)) value
     then Inl (reader_error r' NonMinimal)
     else Inr (SDouble value, r'))"

definition read_simple :: "reader_env \<Rightarrow> nat \<Rightarrow> reader \<Rightarrow> wire_error + scalar \<times> reader" where
  "read_simple E initial r =
     (if initial = 0xf4 then Inr (SBool False, r)
      else if initial = 0xf5 then Inr (SBool True, r)
      else if initial = 0xf6 then Inr (SNull, r)
      else if initial = 0xf9 then read_half_float E r
      else if initial = 0xfa then read_single_float E r
      else if initial = 0xfb then read_double_float E r
      else Inl (reader_error r InvalidMajorType))"

definition read_flat_scalar ::
    "reader_env \<Rightarrow> item_head \<Rightarrow> bool \<Rightarrow> bool \<Rightarrow> reader \<Rightarrow> wire_error + scalar \<times> reader" where
  "read_flat_scalar E head apply_allocation_policy materialize r =
     (let major = ih_major head in
      if major = 7 then read_simple E (ih_initial head) r
      else if major = 4 \<or> major = 5 then Inl (reader_error r TypeMismatch)
      else if major \<noteq> 0 \<and> major \<noteq> 1 \<and> major \<noteq> 2 \<and> major \<noteq> 3 then Inl (reader_error r InvalidMajorType)
      else bindr (argument E (ih_additional head) r) (\<lambda>(encoded, r').
        if major = 0 then Inr (SUInt (of_nat encoded), r')
        else if major = 1 then
          (if encoded > 9223372036854775807 then Inl (reader_error r' Overflow)
           else Inr (scalar_of_int64 (word_of_int (- 1 - int encoded)), r'))
        else if encoded > size_max then Inl (reader_error r' Overflow)
        else if \<not> materialize then
          bindr (validated_payload_ranges E encoded r') (\<lambda>_.
            if major = 3 \<and> \<not> valid_utf8 (take encoded (drop (rd_offset r') (seg_first (env_input E))))
            then Inl (reader_error r' InvalidUtf8)
            else Inr (SNull, r'\<lparr>rd_offset := rd_offset r' + encoded\<rparr>))
        else if apply_allocation_policy \<and>
          \<not> allocation_allowed E (if major = 2 then Alloc_Bytes else Alloc_Text) encoded r'
        then Inl (reader_error r' LimitExceeded)
        else if major = 2 then bindr (read_bytes E encoded r') (\<lambda>(b, r''). Inr (SBytes b, r''))
        else bindr (read_text E encoded r') (\<lambda>(t, r''). Inr (SText t, r''))))"

definition begin_container_item ::
    "reader_env \<Rightarrow> nat \<Rightarrow> nat \<Rightarrow> allocation_kind \<Rightarrow> reader \<Rightarrow> wire_error + nat \<times> reader" where
  "begin_container_item E depth expected_major kind r =
     bindr (item_head E depth r) (\<lambda>(head, r1).
       if ih_major head \<noteq> expected_major then Inl (reader_error r1 TypeMismatch)
       else bindr (size_argument E (ih_additional head) r1) (\<lambda>(count, r2).
         if \<not> allocation_allowed E kind count r2 then Inl (reader_error r2 LimitExceeded)
         else if (if expected_major = 4
                  then \<not> fits_remaining count (rd_items r2) (max_items (env_limits E))
                  else count > (max_items (env_limits E) - rd_items r2) div 2)
         then Inl (reader_error r2 LimitExceeded)
         else Inr (count, r2)))"

definition begin_array_item :: "reader_env \<Rightarrow> nat \<Rightarrow> reader \<Rightarrow> wire_error + nat \<times> reader" where
  "begin_array_item E depth r = begin_container_item E depth 4 Alloc_Sequence r"

definition begin_object_item :: "reader_env \<Rightarrow> nat \<Rightarrow> reader \<Rightarrow> wire_error + nat \<times> reader" where
  "begin_object_item E depth r = begin_container_item E depth 5 Alloc_Object r"

definition read_scalar_item :: "reader_env \<Rightarrow> nat \<Rightarrow> reader \<Rightarrow> wire_error + scalar \<times> reader" where
  "read_scalar_item E depth r =
     bindr (item_head E depth r) (\<lambda>(head, r'). read_flat_scalar E head True True r')"

definition read_object_key :: "reader_env \<Rightarrow> nat \<Rightarrow> reader \<Rightarrow> wire_error + byte list \<times> reader" where
  "read_object_key E depth r =
     bindr (read_scalar_item E depth r) (\<lambda>(s, r').
       case s of SText key \<Rightarrow> Inr (key, r') | _ \<Rightarrow> Inl (reader_error r' TypeMismatch))"

definition borrow_string_item ::
    "reader_env \<Rightarrow> nat \<Rightarrow> nat \<Rightarrow> reader \<Rightarrow> wire_error + byte_segments \<times> reader" where
  "borrow_string_item E depth major r =
     bindr (item_head E depth r) (\<lambda>(head, r1).
       if ih_major head \<noteq> major then Inl (reader_error r1 TypeMismatch)
       else bindr (size_argument E (ih_additional head) r1) (\<lambda>(count, r2).
         if count > seg_size (env_input E) - rd_offset r2 then Inl (reader_error r2 UnexpectedEof)
         else if rd_offset r2 > max_bytes (env_limits E) \<or> count > max_bytes (env_limits E) - rd_offset r2
         then Inl (reader_error r2 LimitExceeded)
         else Inr (payload_ranges E count r2, r2\<lparr>rd_offset := rd_offset r2 + count\<rparr>)))"

definition borrow_bytes_item :: "reader_env \<Rightarrow> nat \<Rightarrow> reader \<Rightarrow> wire_error + byte_segments \<times> reader" where
  "borrow_bytes_item E depth r = borrow_string_item E depth 2 r"

text \<open>The first choice whose bytes are those of the borrowed segments.\<close>

fun choice_index :: "byte_segments \<Rightarrow> byte list list \<Rightarrow> nat \<Rightarrow> nat option" where
  "choice_index b [] index = None"
| "choice_index b (choice # choices) index =
     (if length choice \<noteq> seg_size b then choice_index b choices (index + 1)
      else if seg_first b = take (length (seg_first b)) choice
           \<and> seg_second b = drop (length (seg_first b)) choice
      then Some index else choice_index b choices (index + 1))"

definition read_text_choice :: "reader_env \<Rightarrow> nat \<Rightarrow> byte list list \<Rightarrow> reader \<Rightarrow> wire_error + nat \<times> reader" where
  "read_text_choice E depth choices r =
     bindr (borrow_string_item E depth 3 r) (\<lambda>(b, r').
       case choice_index b choices 0 of
         Some index \<Rightarrow> Inr (index, r') | None \<Rightarrow> Inl (reader_error r' UnknownKey))"

fun expect_characters :: "reader_env \<Rightarrow> byte list \<Rightarrow> reader \<Rightarrow> wire_error + unit \<times> reader" where
  "expect_characters E [] r = Inr ((), r)"
| "expect_characters E (c # cs) r =
     bindr (read_byte E r) (\<lambda>(b, r').
       if b \<noteq> c then Inl (reader_error r' TypeMismatch) else expect_characters E cs r')"

definition expect_text_item :: "reader_env \<Rightarrow> nat \<Rightarrow> byte list \<Rightarrow> reader \<Rightarrow> wire_error + unit \<times> reader" where
  "expect_text_item E depth expected r =
     bindr (item_head E depth r) (\<lambda>(head, r1).
       if ih_major head \<noteq> 3 then Inl (reader_error r1 TypeMismatch)
       else bindr (size_argument E (ih_additional head) r1) (\<lambda>(count, r2).
         if count \<noteq> length expected then Inl (reader_error r2 TypeMismatch)
         else expect_characters E expected r2))"

text \<open>The loop of \<open>read_flat_item\<close>; a scalar read never yields an array.\<close>

fun read_flat_elements :: "reader_env \<Rightarrow> nat \<Rightarrow> nat \<Rightarrow> reader \<Rightarrow> wire_error + scalar list \<times> reader" where
  "read_flat_elements E depth 0 r = Inr ([], r)"
| "read_flat_elements E depth (Suc n) r =
     bindr (item_head E (depth + 1) r) (\<lambda>(head, r1).
       bindr (read_flat_scalar E head True True r1) (\<lambda>(s, r2).
         bindr (read_flat_elements E depth n r2) (\<lambda>(ss, r3). Inr (s # ss, r3))))"

definition read_flat_item :: "reader_env \<Rightarrow> nat \<Rightarrow> reader \<Rightarrow> wire_error + flat_value \<times> reader" where
  "read_flat_item E depth r =
     bindr (item_head E depth r) (\<lambda>(head, r1).
       if ih_major head \<noteq> 4
       then bindr (read_flat_scalar E head True True r1) (\<lambda>(s, r2). Inr (FScalar s, r2))
       else bindr (size_argument E (ih_additional head) r1) (\<lambda>(count, r2).
         if \<not> allocation_allowed E Alloc_Sequence count r2
            \<or> \<not> fits_remaining count (rd_items r2) (max_items (env_limits E))
         then Inl (reader_error r2 LimitExceeded)
         else bindr (read_flat_elements E depth count r2) (\<lambda>(ss, r3). Inr (FArray ss, r3))))"

definition finish :: "reader_env \<Rightarrow> reader \<Rightarrow> wire_error + unit" where
  "finish E r = (if rd_offset r \<noteq> seg_size (env_input E) then Inl (reader_error r TrailingData) else Inr ())"

section \<open>Recursive descent\<close>

lemma item_head_depth: "item_head E depth r = Inr x \<Longrightarrow> depth \<le> max_depth (env_limits E)"
  by (auto simp: item_head_def split: if_splits)

text \<open>
  \<open>read_values\<close> is the loop over the elements of an array and \<open>read_members\<close> the loop over the members of
  an object, whose keys so far are \<open>names\<close> and whose \<open>kind\<close> so far is \<open>object_kind\<close>.
\<close>

definition kind_key :: "byte list" where
  "kind_key = [107, 105, 110, 100]"

function read_item :: "reader_env \<Rightarrow> nat \<Rightarrow> reader \<Rightarrow> wire_error + wire_value \<times> reader"
  and read_values :: "reader_env \<Rightarrow> nat \<Rightarrow> nat \<Rightarrow> reader \<Rightarrow> wire_error + wire_value list \<times> reader"
  and read_members :: "reader_env \<Rightarrow> nat \<Rightarrow> nat \<Rightarrow> byte list list \<Rightarrow> byte list \<Rightarrow> reader
        \<Rightarrow> wire_error + (byte list \<times> wire_value) list \<times> reader" where
  "read_item E depth r =
     bindr (item_head E depth r) (\<lambda>(head, r1).
       if ih_major head \<noteq> 4 \<and> ih_major head \<noteq> 5
       then bindr (read_flat_scalar E head True True r1) (\<lambda>(s, r2). Inr (value_of_scalar s, r2))
       else bindr (size_argument E (ih_additional head) r1) (\<lambda>(count, r2).
         if ih_major head = 4 then
           (if \<not> allocation_allowed E Alloc_Sequence count r2 then Inl (reader_error r2 LimitExceeded)
            else if \<not> fits_remaining count (rd_items r2) (max_items (env_limits E))
            then Inl (reader_error r2 LimitExceeded)
            else bindr (read_values E depth count r2) (\<lambda>(vs, r3). Inr (VArray vs, r3)))
         else
           (if \<not> allocation_allowed E Alloc_Object count r2 then Inl (reader_error r2 LimitExceeded)
            else if count > (max_items (env_limits E) - rd_items r2) div 2
            then Inl (reader_error r2 LimitExceeded)
            else bindr (read_members E depth count [] [] r2) (\<lambda>(ms, r3). Inr (VObject ms, r3)))))"
| "read_values E depth n r =
     (if n = 0 then Inr ([], r)
      else bindr (read_item E (depth + 1) r) (\<lambda>(v, r1).
        bindr (read_values E depth (n - 1) r1) (\<lambda>(vs, r2). Inr (v # vs, r2))))"
| "read_members E depth n names object_kind r =
     (if n = 0 then Inr ([], r)
      else bindr (read_object_key E (depth + 1) r) (\<lambda>(name, r1).
        if name \<in> set names then Inl (reader_error r1 DuplicateKey)
        else bindr (read_item E (depth + 1)
            (r1\<lparr>rd_path := rd_path r1 @ [\<lparr>pe_name = name, pe_object_kind = object_kind\<rparr>]\<rparr>)) (\<lambda>(v, r2).
          let r3 = r2\<lparr>rd_path := butlast (rd_path r2)\<rparr>;
              kind = (if name = kind_key then (case v of VText t \<Rightarrow> t | _ \<Rightarrow> object_kind) else object_kind)
          in bindr (read_members E depth (n - 1) (name # names) kind r3) (\<lambda>(ms, r4).
               Inr ((name, v) # ms, r4)))))"
  by pat_completeness auto

termination
  by (relation "inv_image (less_than <*lex*> less_than) (\<lambda>x. case x of
        Inl (E, depth, r) \<Rightarrow> (if depth > max_depth (env_limits E) then 0
                            else 2 * (max_depth (env_limits E) + 1 - depth) + 1, 0)
      | Inr (Inl (E, depth, n, r)) \<Rightarrow> (if depth > max_depth (env_limits E) then 1
                            else 2 * (max_depth (env_limits E) + 1 - depth), n)
      | Inr (Inr (E, depth, n, names, k, r)) \<Rightarrow> (if depth > max_depth (env_limits E) then 1
                            else 2 * (max_depth (env_limits E) + 1 - depth), n))")
    (auto dest: item_head_depth)

declare read_item.simps [simp del] read_values.simps [simp del] read_members.simps [simp del]

text \<open>\<open>read_document\<close> for its two roots, and the free functions.\<close>

definition read_document ::
    "(reader_env \<Rightarrow> nat \<Rightarrow> reader \<Rightarrow> wire_error + 'a \<times> reader) \<Rightarrow> reader_env \<Rightarrow> reader
     \<Rightarrow> wire_error + 'a \<times> reader" where
  "read_document read_root E r =
     (if seg_size (env_input E) > max_bytes (env_limits E) then Inl (reader_error r LimitExceeded)
      else bindr (read_root E 0 r) (\<lambda>(result, r'). bindr (finish E r') (\<lambda>_. Inr (result, r'))))"

definition read_value :: "reader_env \<Rightarrow> reader \<Rightarrow> wire_error + wire_value \<times> reader" where
  "read_value E r = read_document read_item E r"

definition read_flat :: "reader_env \<Rightarrow> reader \<Rightarrow> wire_error + flat_value \<times> reader" where
  "read_flat E r = read_document read_flat_item E r"

definition decode :: "byte_segments \<Rightarrow> limits \<Rightarrow> wire_error + wire_value" where
  "decode bytes l =
     bindr (read_value \<lparr>env_input = bytes, env_limits = l\<rparr> new_reader) (\<lambda>(v, _). Inr v)"

definition validate_raw_item :: "byte_segments \<Rightarrow> limits \<Rightarrow> wire_error + unit" where
  "validate_raw_item bytes l = bindr (decode bytes l) (\<lambda>_. Inr ())"

end
