(* ===== verification/Cbor_Writer.thy ===== *)
theory Cbor_Writer
  imports Cbor_Reader
begin

text \<open>
  The \<open>Writer\<close>, the \<open>CountingEncoder\<close> and the encoding functions of
  \<open>src/frameworks/serialization/cbor_wire.cpp\<close>. A writer appends to a growing buffer, copies into a
  fixed span, or only counts; a step yields the error it returned, if any, and the writer as it left
  it. The address of an array inside the encoded value, which selects the array that raw items
  replace, is the path of positions that leads to it from the root.
\<close>

section \<open>State\<close>

record writer =
  wr_dynamic :: "byte list option"
  wr_fixed :: "byte list"
  wr_fixed_size :: nat
  wr_limits :: limits
  wr_raw :: "(nat list \<times> byte_segments list) option"
  wr_items :: nat
  wr_count_only :: bool

definition dynamic_writer :: "byte list \<Rightarrow> limits \<Rightarrow> (nat list \<times> byte_segments list) option \<Rightarrow> writer" where
  "dynamic_writer destination l raw =
     \<lparr>wr_dynamic = Some destination, wr_fixed = [], wr_fixed_size = 0, wr_limits = l, wr_raw = raw,
      wr_items = 0, wr_count_only = False\<rparr>"

definition fixed_writer :: "byte list \<Rightarrow> limits \<Rightarrow> (nat list \<times> byte_segments list) option \<Rightarrow> writer" where
  "fixed_writer destination l raw =
     \<lparr>wr_dynamic = None, wr_fixed = destination, wr_fixed_size = 0, wr_limits = l, wr_raw = raw,
      wr_items = 0, wr_count_only = False\<rparr>"

definition counting_writer :: "limits \<Rightarrow> (nat list \<times> byte_segments list) option \<Rightarrow> writer" where
  "counting_writer l raw =
     \<lparr>wr_dynamic = None, wr_fixed = [], wr_fixed_size = 0, wr_limits = l, wr_raw = raw,
      wr_items = 0, wr_count_only = True\<rparr>"

type_synonym write_result = "wire_error option \<times> writer"

definition destination_size :: "writer \<Rightarrow> nat" where
  "destination_size w = (case wr_dynamic w of Some d \<Rightarrow> length d | None \<Rightarrow> wr_fixed_size w)"

text \<open>Growing \<open>resize\<close> would append zero bytes.\<close>

definition truncate_to :: "writer \<Rightarrow> nat \<Rightarrow> writer" where
  "truncate_to w n =
     (case wr_dynamic w of
        Some d \<Rightarrow> w\<lparr>wr_dynamic := Some (take n d @ replicate (n - length d) 0)\<rparr>
      | None \<Rightarrow> w\<lparr>wr_fixed_size := n\<rparr>)"

section \<open>Bytes and heads\<close>

definition write_append :: "writer \<Rightarrow> byte list \<Rightarrow> write_result" where
  "write_append w bytes =
     (let n = destination_size w in
      if \<not> fits_remaining (length bytes) n (max_bytes (wr_limits w))
      then (Some (encode_error LimitExceeded), w)
      else if wr_count_only w then (None, w\<lparr>wr_fixed_size := wr_fixed_size w + length bytes\<rparr>)
      else case wr_dynamic w of
        Some d \<Rightarrow> (None, w\<lparr>wr_dynamic := Some (d @ bytes)\<rparr>)
      | None \<Rightarrow>
          if n > length (wr_fixed w) \<or> length bytes > length (wr_fixed w) - n
          then (Some (encode_error LimitExceeded), w)
          else (None, w\<lparr>wr_fixed := take n (wr_fixed w) @ bytes @ drop (n + length bytes) (wr_fixed w),
                        wr_fixed_size := wr_fixed_size w + length bytes\<rparr>))"

definition put :: "writer \<Rightarrow> byte \<Rightarrow> write_result" where
  "put w b = write_append w [b]"

text \<open>The loop that puts the \<open>n\<close> low bytes of a number, the highest first.\<close>

fun put_big_endian :: "writer \<Rightarrow> nat \<Rightarrow> nat \<Rightarrow> write_result" where
  "put_big_endian w 0 v = (None, w)"
| "put_big_endian w (Suc n) v =
     and_then (put w (of_nat (v div 256 ^ n mod 256))) (\<lambda>w'. put_big_endian w' n v)"

definition write_head :: "writer \<Rightarrow> nat \<Rightarrow> nat \<Rightarrow> write_result" where
  "write_head w major v =
     (let encoded_bytes = head_size v;
          additional = (if encoded_bytes = 1 then v else additional_info_for_head_size encoded_bytes)
      in and_then (put w (of_nat (major * 32 + additional))) (\<lambda>w'. put_big_endian w' (encoded_bytes - 1) v))"

definition write_text_head :: "writer \<Rightarrow> byte list \<Rightarrow> nat \<Rightarrow> write_result" where
  "write_text_head w spelling n =
     (if \<not> valid_utf8 spelling then (Some (encode_error InvalidUtf8), w) else write_head w 3 n)"

definition write_text_body :: "writer \<Rightarrow> byte list \<Rightarrow> write_result" where
  "write_text_body w t = and_then (write_text_head w t (length t)) (\<lambda>w'. write_append w' t)"

definition begin_encode_item :: "writer \<Rightarrow> nat \<Rightarrow> write_result" where
  "begin_encode_item w depth =
     (if depth > max_depth (wr_limits w) then (Some (encode_error DepthExceeded), w)
      else if wr_items w \<ge> max_items (wr_limits w) then (Some (encode_error LimitExceeded), w)
      else (None, w\<lparr>wr_items := wr_items w + 1\<rparr>))"

definition write_array_body :: "writer \<Rightarrow> nat \<Rightarrow> write_result" where
  "write_array_body w n =
     (if \<not> fits_remaining n (wr_items w) (max_items (wr_limits w))
      then (Some (encode_error LimitExceeded), w) else write_head w 4 n)"

definition duplicate_object_key :: "(byte list \<times> wire_value) list \<Rightarrow> bool" where
  "duplicate_object_key ms = (\<not> distinct (map fst ms))"

definition object_encoding_rejected :: "nat \<Rightarrow> nat \<Rightarrow> limits \<Rightarrow> bool" where
  "object_encoding_rejected n items l \<longleftrightarrow> items > max_items l \<or> n > (max_items l - items) div 2"

text \<open>\<open>members\<close> is absent when a projection counts an object without its members.\<close>

definition write_object_body :: "writer \<Rightarrow> nat \<Rightarrow> (byte list \<times> wire_value) list option \<Rightarrow> write_result" where
  "write_object_body w n members =
     (if (case members of Some ms \<Rightarrow> duplicate_object_key ms | None \<Rightarrow> False)
      then (Some (encode_error DuplicateKey), w)
      else if object_encoding_rejected n (wr_items w) (wr_limits w)
      then (Some (encode_error LimitExceeded), w)
      else write_head w 5 n)"

definition float_marker :: "float_width \<Rightarrow> byte" where
  "float_marker w = (case w of Half \<Rightarrow> 0xf9 | Single \<Rightarrow> 0xfa | Double \<Rightarrow> 0xfb)"

definition write_double :: "writer \<Rightarrow> u64 \<Rightarrow> write_result" where
  "write_double w d =
     (case canonical_float_encoding d of
        Inl code \<Rightarrow> (Some (encode_error code), w)
      | Inr (width, bits) \<Rightarrow>
          and_then (put w (float_marker width)) (\<lambda>w'. put_big_endian w' (float_width_bytes width) bits))"

text \<open>The overloads of \<open>write_body\<close>.\<close>

fun write_body :: "writer \<Rightarrow> scalar \<Rightarrow> write_result" where
  "write_body w SNull = put w 0xf6"
| "write_body w (SBool b) = put w (if b then 0xf5 else 0xf4)"
| "write_body w (SInt i) = (case signed_integer_encoding i of (major, v) \<Rightarrow> write_head w major v)"
| "write_body w (SUInt u) = write_head w 0 (unat u)"
| "write_body w (SDouble d) = write_double w d"
| "write_body w (SText t) = write_text_body w t"
| "write_body w (SBytes b) = and_then (write_head w 2 (length b)) (\<lambda>w'. write_append w' b)"

definition write_scalar :: "writer \<Rightarrow> scalar \<Rightarrow> nat \<Rightarrow> write_result" where
  "write_scalar w s depth = and_then (begin_encode_item w depth) (\<lambda>w'. write_body w' s)"

section \<open>Raw items\<close>

definition append_raw_item_at :: "writer \<Rightarrow> byte_segments \<Rightarrow> nat \<Rightarrow> write_result" where
  "append_raw_item_at w item depth =
     (if depth > max_depth (wr_limits w) then (Some (encode_error DepthExceeded), w)
      else
        let raw_limits = \<lparr>max_bytes = seg_size item,
              max_items = (if wr_items w \<le> max_items (wr_limits w)
                           then max_items (wr_limits w) - wr_items w else 0),
              max_depth = max_depth (wr_limits w) - depth, allows = None\<rparr>
        in case read_value \<lparr>env_input = item, env_limits = raw_limits\<rparr> new_reader of
             Inl e \<Rightarrow> (Some e, w)
           | Inr (_, r) \<Rightarrow>
               and_then (write_append w (seg_first item)) (\<lambda>w1.
                 case write_append w1 (seg_second item) of
                   (Some e, w2) \<Rightarrow> (Some e, truncate_to w2 (destination_size w2 - length (seg_first item)))
                 | (None, w2) \<Rightarrow> (None, w2\<lparr>wr_items := wr_items w2 + rd_items r\<rparr>)))"

definition append_raw_item :: "writer \<Rightarrow> byte_segments \<Rightarrow> write_result" where
  "append_raw_item w item = append_raw_item_at w item 0"

fun write_raw_items :: "writer \<Rightarrow> byte_segments list \<Rightarrow> nat \<Rightarrow> write_result" where
  "write_raw_items w [] depth = (None, w)"
| "write_raw_items w (item # items) depth =
     and_then (append_raw_item_at w item (depth + 1)) (\<lambda>w'. write_raw_items w' items depth)"

section \<open>Values\<close>

text \<open>
  \<open>loc\<close> is the path of the value, the innermost position first; \<open>write_elements\<close> and
  \<open>write_members\<close> are the two loops over \<open>encode_each\<close>, at position \<open>i\<close>.
\<close>

lemma size_member: "size_prod (\<lambda>_. 0) size = (\<lambda>m :: byte list \<times> wire_value. Suc (size (snd m)))"
  by (rule ext, rename_tac m, case_tac m) simp

function write_item :: "writer \<Rightarrow> wire_value \<Rightarrow> nat \<Rightarrow> nat list \<Rightarrow> write_result"
  and write_elements :: "writer \<Rightarrow> wire_value list \<Rightarrow> nat \<Rightarrow> nat list \<Rightarrow> nat \<Rightarrow> write_result"
  and write_members :: "writer \<Rightarrow> (byte list \<times> wire_value) list \<Rightarrow> nat \<Rightarrow> nat list \<Rightarrow> nat \<Rightarrow> write_result" where
  "write_item w v depth loc =
     and_then (begin_encode_item w depth) (\<lambda>w1.
       case v of
         VArray vs \<Rightarrow>
           (case wr_raw w1 of
              Some (target, items) \<Rightarrow>
                if target = loc
                then and_then (write_array_body w1 (length items)) (\<lambda>w2. write_raw_items w2 items depth)
                else and_then (write_array_body w1 (length vs)) (\<lambda>w2. write_elements w2 vs depth loc 0)
            | None \<Rightarrow> and_then (write_array_body w1 (length vs)) (\<lambda>w2. write_elements w2 vs depth loc 0))
       | VObject ms \<Rightarrow>
           and_then (write_object_body w1 (length ms) (Some ms)) (\<lambda>w2. write_members w2 ms depth loc 0)
       | VNull \<Rightarrow> write_body w1 SNull
       | VBool b \<Rightarrow> write_body w1 (SBool b)
       | VInt i \<Rightarrow> write_body w1 (SInt i)
       | VUInt u \<Rightarrow> write_body w1 (SUInt u)
       | VDouble d \<Rightarrow> write_body w1 (SDouble d)
       | VText t \<Rightarrow> write_body w1 (SText t)
       | VBytes b \<Rightarrow> write_body w1 (SBytes b))"
| "write_elements w [] depth loc i = (None, w)"
| "write_elements w (v # vs) depth loc i =
     and_then (write_item w v (depth + 1) (i # loc)) (\<lambda>w'. write_elements w' vs depth loc (i + 1))"
| "write_members w [] depth loc i = (None, w)"
| "write_members w (m # ms) depth loc i =
     and_then (write_scalar w (SText (fst m)) (depth + 1)) (\<lambda>w1.
       and_then (write_item w1 (snd m) (depth + 1) (i # loc)) (\<lambda>w2.
         write_members w2 ms depth loc (i + 1)))"
  by pat_completeness auto

termination
  by (relation "measure (\<lambda>x. case x of Inl (w, v, d, l) \<Rightarrow> size v
      | Inr (Inl (w, vs, d, l, i)) \<Rightarrow> size_list size vs
      | Inr (Inr (w, ms, d, l, i)) \<Rightarrow> size_list (\<lambda>m. Suc (size (snd m))) ms)")
    (auto simp: size_member)

declare write_item.simps [simp del]

definition write_value :: "writer \<Rightarrow> wire_value \<Rightarrow> write_result" where
  "write_value w v =
     (case write_item w v 0 [] of
        (Some e, w') \<Rightarrow> (Some e, (truncate_to w' (destination_size w))\<lparr>wr_items := wr_items w\<rparr>)
      | (None, w') \<Rightarrow> (None, w'))"

section \<open>Counting and encoding\<close>

definition count_payload :: "writer \<Rightarrow> nat \<Rightarrow> write_result" where
  "count_payload w n =
     (if \<not> fits_remaining n (wr_fixed_size w) (max_bytes (wr_limits w))
      then (Some (encode_error LimitExceeded), w)
      else (None, w\<lparr>wr_fixed_size := wr_fixed_size w + n\<rparr>))"

definition count_bytes :: "writer \<Rightarrow> nat \<Rightarrow> nat \<Rightarrow> write_result" where
  "count_bytes w n depth =
     and_then (begin_encode_item w depth) (\<lambda>w1. and_then (write_head w1 2 n) (\<lambda>w2. count_payload w2 n))"

definition count_text :: "writer \<Rightarrow> byte list \<Rightarrow> nat \<Rightarrow> nat \<Rightarrow> write_result" where
  "count_text w spelling n depth =
     and_then (begin_encode_item w depth) (\<lambda>w1.
       and_then (write_text_head w1 spelling n) (\<lambda>w2. count_payload w2 n))"

text \<open>\<open>CountingEncoder\<close>: a counting writer and the first error, which stops all later operations.\<close>

record counting_encoder =
  ce_writer :: writer
  ce_failure :: "wire_error option"

definition ce_step :: "(writer \<Rightarrow> write_result) \<Rightarrow> counting_encoder \<Rightarrow> counting_encoder" where
  "ce_step f ce =
     (if ce_failure ce \<noteq> None then ce
      else case f (ce_writer ce) of (e, w) \<Rightarrow> \<lparr>ce_writer = w, ce_failure = e\<rparr>)"

definition ce_scalar :: "scalar \<Rightarrow> nat \<Rightarrow> counting_encoder \<Rightarrow> counting_encoder" where
  "ce_scalar s depth = ce_step (\<lambda>w. write_scalar w s depth)"

definition ce_value :: "wire_value \<Rightarrow> nat \<Rightarrow> counting_encoder \<Rightarrow> counting_encoder" where
  "ce_value v depth = ce_step (\<lambda>w. write_item w v depth [])"

definition ce_array :: "nat \<Rightarrow> nat \<Rightarrow> counting_encoder \<Rightarrow> counting_encoder" where
  "ce_array n depth = ce_step (\<lambda>w. and_then (begin_encode_item w depth) (\<lambda>w'. write_array_body w' n))"

definition ce_object :: "nat \<Rightarrow> nat \<Rightarrow> counting_encoder \<Rightarrow> counting_encoder" where
  "ce_object n depth = ce_step (\<lambda>w. and_then (begin_encode_item w depth) (\<lambda>w'. write_object_body w' n None))"

definition ce_bytes :: "nat \<Rightarrow> nat \<Rightarrow> counting_encoder \<Rightarrow> counting_encoder" where
  "ce_bytes n depth = ce_step (\<lambda>w. count_bytes w n depth)"

definition ce_text :: "byte list \<Rightarrow> nat \<Rightarrow> nat \<Rightarrow> counting_encoder \<Rightarrow> counting_encoder" where
  "ce_text spelling n depth = ce_step (\<lambda>w. count_text w spelling n depth)"

definition ce_finish :: "counting_encoder \<Rightarrow> wire_error + nat" where
  "ce_finish ce = (case ce_failure ce of Some e \<Rightarrow> Inl e | None \<Rightarrow> Inr (destination_size (ce_writer ce)))"

definition measure_value :: "limits \<Rightarrow> (nat list \<times> byte_segments list) option \<Rightarrow> wire_value \<Rightarrow> wire_error + nat" where
  "measure_value l raw v =
     (case write_value (counting_writer l raw) v of
        (Some e, w) \<Rightarrow> Inl e | (None, w) \<Rightarrow> Inr (destination_size w))"

text \<open>The destination as \<open>encode\<close> leaves it, with the error it returned.\<close>

definition encode_raw :: "wire_value \<Rightarrow> (nat list \<times> byte_segments list) option \<Rightarrow> byte list \<Rightarrow> limits
    \<Rightarrow> wire_error option \<times> byte list" where
  "encode_raw v raw destination l =
     (case measure_value l raw v of
        Inl e \<Rightarrow> (Some e, destination)
      | Inr measured \<Rightarrow>
          (case write_value (dynamic_writer [] l raw) v of
             (e, w) \<Rightarrow> (e, case wr_dynamic w of Some d \<Rightarrow> d | None \<Rightarrow> [])))"

definition encode :: "wire_value \<Rightarrow> byte list \<Rightarrow> limits \<Rightarrow> wire_error option \<times> byte list" where
  "encode v destination l = encode_raw v None destination l"

definition encode_fixed :: "wire_value \<Rightarrow> byte list \<Rightarrow> limits \<Rightarrow> (wire_error + nat) \<times> byte list" where
  "encode_fixed v destination l =
     (case measure_value l None v of
        Inl e \<Rightarrow> (Inl e, destination)
      | Inr measured \<Rightarrow>
          if measured > length destination then (Inl (encode_error LimitExceeded), destination)
          else (case write_value (fixed_writer destination l None) v of
                  (Some e, w) \<Rightarrow> (Inl e, wr_fixed w)
                | (None, w) \<Rightarrow> (Inr (destination_size w), wr_fixed w)))"

end
