(* ===== verification/Cbor_Spec.thy ===== *)
theory Cbor_Spec
  imports Cbor_Types
begin

text \<open>
  The abstract wire format: the canonical bytes of a value and the budget that a value consumes. The
  encoder and the decoder of \<open>cbor_wire.cpp\<close> are both proved to implement these two functions, in
  \<open>Cbor_Encode\<close> and \<open>Cbor_Decode\<close>.
\<close>

section \<open>Numbers\<close>

fun be_bytes :: "nat \<Rightarrow> nat \<Rightarrow> byte list" where
  "be_bytes 0 v = []"
| "be_bytes (Suc n) v = of_nat (v div 256 ^ n mod 256) # be_bytes n v"

lemma length_be_bytes [simp]: "length (be_bytes n v) = n"
  by (induction n) simp_all

definition head_bytes :: "nat \<Rightarrow> nat \<Rightarrow> byte list" where
  "head_bytes major v =
     of_nat (major * 32 + (if head_size v = 1 then v else additional_info_for_head_size (head_size v)))
       # be_bytes (head_size v - 1) v"

fun be_value :: "byte list \<Rightarrow> nat" where
  "be_value [] = 0"
| "be_value (b # bs) = unat b * 256 ^ length bs + be_value bs"

lemma be_value_less: "be_value bs < 256 ^ length bs"
proof (induction bs)
  case (Cons b bs)
  have "unat b * 256 ^ length bs + be_value bs < (unat b + 1) * 256 ^ length bs"
    using Cons by simp
  also have "\<dots> \<le> 256 * 256 ^ length bs"
    using unat_byte_less [of b] by (intro mult_le_mono) linarith+
  finally show ?case by simp
qed simp

lemma be_value_be_bytes: "be_value (be_bytes n v) = v mod 256 ^ n"
proof (induction n)
  case (Suc n)
  have "unat (of_nat (v div 256 ^ n mod 256) :: byte) = v div 256 ^ n mod 256"
    by (simp add: unat_of_nat_byte)
  moreover have "v mod (256 ^ n * 256) = 256 ^ n * (v div 256 ^ n mod 256) + v mod 256 ^ n"
    by (rule mod_mult2_eq)
  ultimately show ?case using Suc by (simp add: mult.commute)
qed simp

lemma be_bytes_be_value: "be_bytes (length bs) (be_value bs) = bs"
proof (induction bs)
  case (Cons b bs)
  have small: "be_value bs < 256 ^ length bs" by (rule be_value_less)
  have tail: "be_bytes n (k * 256 ^ n + v) = be_bytes n v" for k n v :: nat
  proof -
    have "be_bytes m (k * 256 ^ n + v) = be_bytes m v" if "m \<le> n" for m
      using that
    proof (induction m)
      case (Suc m)
      then obtain d where d: "n = Suc m + d" using le_Suc_ex by blast
      have "(k * 256 ^ n + v) div 256 ^ m = (k * 256 ^ Suc d) + v div 256 ^ m"
        using div_mult_self3 [of "256 ^ m :: nat" "k * 256 ^ Suc d" v]
        by (simp add: d power_add ac_simps)
      then have "(k * 256 ^ n + v) div 256 ^ m = v div 256 ^ m + 256 * (k * 256 ^ d)" by simp
      then have "(k * 256 ^ n + v) div 256 ^ m mod 256 = v div 256 ^ m mod 256"
        by (simp only: mod_mult_self2)
      with Suc show ?case by simp
    qed simp
    then show ?thesis by simp
  qed
  have "(unat b * 256 ^ length bs + be_value bs) div 256 ^ length bs mod 256 = unat b"
    using small by simp
  then show ?case using Cons tail by (simp add: word_unat_eq_iff [symmetric])
qed simp

section \<open>Scalars\<close>

fun float_bytes :: "float_width \<times> nat \<Rightarrow> byte list" where
  "float_bytes (w, bits) =
     (case w of Half \<Rightarrow> 0xf9 | Single \<Rightarrow> 0xfa | Double \<Rightarrow> 0xfb) # be_bytes (float_width_bytes w) bits"

fun scalar_bytes :: "scalar \<Rightarrow> byte list" where
  "scalar_bytes SNull = [0xf6]"
| "scalar_bytes (SBool b) = [if b then 0xf5 else 0xf4]"
| "scalar_bytes (SInt i) = (case signed_integer_encoding i of (major, v) \<Rightarrow> head_bytes major v)"
| "scalar_bytes (SUInt u) = head_bytes 0 (unat u)"
| "scalar_bytes (SDouble d) = (case canonical_float_encoding d of Inr e \<Rightarrow> float_bytes e | Inl _ \<Rightarrow> [])"
| "scalar_bytes (SText t) = head_bytes 3 (length t) @ t"
| "scalar_bytes (SBytes b) = head_bytes 2 (length b) @ b"

fun scalar_ok :: "scalar \<Rightarrow> bool" where
  "scalar_ok (SDouble d) = isfinite64 d"
| "scalar_ok (SText t) = valid_utf8 t"
| "scalar_ok _ = True"

text \<open>A signed integer stands only for a negative number.\<close>

fun scalar_wf :: "scalar \<Rightarrow> bool" where
  "scalar_wf (SInt i) \<longleftrightarrow> sint i < 0"
| "scalar_wf _ \<longleftrightarrow> True"

fun scalar_of_value :: "wire_value \<Rightarrow> scalar option" where
  "scalar_of_value VNull = Some SNull"
| "scalar_of_value (VBool b) = Some (SBool b)"
| "scalar_of_value (VInt i) = Some (SInt i)"
| "scalar_of_value (VUInt u) = Some (SUInt u)"
| "scalar_of_value (VDouble d) = Some (SDouble d)"
| "scalar_of_value (VText t) = Some (SText t)"
| "scalar_of_value (VBytes b) = Some (SBytes b)"
| "scalar_of_value _ = None"

lemma scalar_of_value_of_scalar [simp]: "scalar_of_value (value_of_scalar s) = Some s"
  by (cases s) simp_all

section \<open>Values\<close>

lemma size_value_member: "size_prod (\<lambda>_. 0) size = (\<lambda>m :: byte list \<times> wire_value. Suc (size (snd m)))"
  by (rule ext, rename_tac m, case_tac m) simp

text \<open>The canonical bytes.\<close>

function encoding :: "wire_value \<Rightarrow> byte list"
  and encodings :: "wire_value list \<Rightarrow> byte list"
  and member_encodings :: "(byte list \<times> wire_value) list \<Rightarrow> byte list" where
  "encoding v =
     (case v of
        VArray vs \<Rightarrow> head_bytes 4 (length vs) @ encodings vs
      | VObject ms \<Rightarrow> head_bytes 5 (length ms) @ member_encodings ms
      | VNull \<Rightarrow> scalar_bytes SNull
      | VBool b \<Rightarrow> scalar_bytes (SBool b)
      | VInt i \<Rightarrow> scalar_bytes (SInt i)
      | VUInt u \<Rightarrow> scalar_bytes (SUInt u)
      | VDouble d \<Rightarrow> scalar_bytes (SDouble d)
      | VText t \<Rightarrow> scalar_bytes (SText t)
      | VBytes b \<Rightarrow> scalar_bytes (SBytes b))"
| "encodings [] = []"
| "encodings (v # vs) = encoding v @ encodings vs"
| "member_encodings [] = []"
| "member_encodings (m # ms) = scalar_bytes (SText (fst m)) @ encoding (snd m) @ member_encodings ms"
  by pat_completeness auto

termination
  by (relation "measure (\<lambda>x. case x of Inl v \<Rightarrow> size v
      | Inr (Inl vs) \<Rightarrow> size_list size vs
      | Inr (Inr ms) \<Rightarrow> size_list (\<lambda>m. Suc (size (snd m))) ms)")
    (auto simp: size_value_member)

declare encoding.simps [simp del]

text \<open>
  The budget: the number of items read or written once the value has been, when \<open>i\<close> were before
  it, or \<open>None\<close> when the value exceeds its limits or is not encodable.
\<close>

function admit :: "limits \<Rightarrow> nat \<Rightarrow> nat \<Rightarrow> wire_value \<Rightarrow> nat option"
  and admit_all :: "limits \<Rightarrow> nat \<Rightarrow> nat \<Rightarrow> wire_value list \<Rightarrow> nat option"
  and admit_members :: "limits \<Rightarrow> nat \<Rightarrow> nat \<Rightarrow> (byte list \<times> wire_value) list \<Rightarrow> nat option" where
  "admit l depth i v =
     (if depth > max_depth l \<or> i \<ge> max_items l then None
      else case v of
        VArray vs \<Rightarrow>
          if length vs \<le> max_items l - Suc i then admit_all l depth (Suc i) vs else None
      | VObject ms \<Rightarrow>
          if distinct (map fst ms) \<and> length ms \<le> (max_items l - Suc i) div 2
          then admit_members l depth (Suc i) ms else None
      | VDouble d \<Rightarrow> if isfinite64 d then Some (Suc i) else None
      | VText t \<Rightarrow> if valid_utf8 t then Some (Suc i) else None
      | VNull \<Rightarrow> Some (Suc i)
      | VBool b \<Rightarrow> Some (Suc i)
      | VInt n \<Rightarrow> Some (Suc i)
      | VUInt n \<Rightarrow> Some (Suc i)
      | VBytes b \<Rightarrow> Some (Suc i))"
| "admit_all l depth i [] = Some i"
| "admit_all l depth i (v # vs) =
     Option.bind (admit l (Suc depth) i v) (\<lambda>j. admit_all l depth j vs)"
| "admit_members l depth i [] = Some i"
| "admit_members l depth i (m # ms) =
     Option.bind (if Suc depth > max_depth l \<or> i \<ge> max_items l \<or> \<not> valid_utf8 (fst m) then None else Some (Suc i))
       (\<lambda>j. Option.bind (admit l (Suc depth) j (snd m)) (\<lambda>k. admit_members l depth k ms))"
  by pat_completeness auto

termination
  by (relation "measure (\<lambda>x. case x of Inl (l, d, i, v) \<Rightarrow> size v
      | Inr (Inl (l, d, i, vs)) \<Rightarrow> size_list size vs
      | Inr (Inr (l, d, i, ms)) \<Rightarrow> size_list (\<lambda>m. Suc (size (snd m))) ms)")
    (auto simp: size_value_member)

declare admit.simps [simp del]

lemma size_member_less: "m \<in> set ms \<Longrightarrow> size (snd m) < size_list (\<lambda>m. Suc (size (snd m))) ms"
  by (induction ms) auto

text \<open>Every signed integer inside the value is negative, as \<open>Value(std::int64_t)\<close> establishes.\<close>

function value_wf :: "wire_value \<Rightarrow> bool" where
  "value_wf v =
     (case v of
        VInt i \<Rightarrow> sint i < 0
      | VArray vs \<Rightarrow> list_all value_wf vs
      | VObject ms \<Rightarrow> list_all (\<lambda>m. value_wf (snd m)) ms
      | _ \<Rightarrow> True)"
  by pat_completeness auto

termination
  by (relation "measure size")
    (auto simp: size_value_member less_Suc_eq_le
      intro: less_imp_le size_list_estimation' order.strict_implies_order dest: size_member_less)

declare value_wf.simps [simp del]

lemma encoding_scalar [simp]: "encoding (value_of_scalar s) = scalar_bytes s"
  by (cases s) (simp_all add: encoding.simps)

lemma admit_scalar:
  "admit l depth i (value_of_scalar s) =
     (if depth \<le> max_depth l \<and> i < max_items l \<and> scalar_ok s then Some (Suc i) else None)"
  by (cases s) (simp_all add: admit.simps)

lemma value_wf_scalar [simp]: "value_wf (value_of_scalar s) = scalar_wf s"
  by (cases s) (simp_all add: value_wf.simps)

lemma value_cases_scalar:
  obtains s where "v = value_of_scalar s" | vs where "v = VArray vs" | ms where "v = VObject ms"
proof (cases v)
  case VNull then show ?thesis using that(1) [of SNull] by simp
next case (VBool b) then show ?thesis using that(1) [of "SBool b"] by simp
next case (VInt b) then show ?thesis using that(1) [of "SInt b"] by simp
next case (VUInt b) then show ?thesis using that(1) [of "SUInt b"] by simp
next case (VDouble b) then show ?thesis using that(1) [of "SDouble b"] by simp
next case (VText b) then show ?thesis using that(1) [of "SText b"] by simp
next case (VBytes b) then show ?thesis using that(1) [of "SBytes b"] by simp
qed (use that in auto)

lemma admit_container:
  "admit l depth i (VArray vs) =
     (if depth \<le> max_depth l \<and> i < max_items l \<and> length vs \<le> max_items l - Suc i
      then admit_all l depth (Suc i) vs else None)"
  "admit l depth i (VObject ms) =
     (if depth \<le> max_depth l \<and> i < max_items l \<and> distinct (map fst ms)
         \<and> length ms \<le> (max_items l - Suc i) div 2
      then admit_members l depth (Suc i) ms else None)"
  by (auto simp: admit.simps)

lemma encoding_container:
  "encoding (VArray vs) = head_bytes 4 (length vs) @ encodings vs"
  "encoding (VObject ms) = head_bytes 5 (length ms) @ member_encodings ms"
  by (simp_all add: encoding.simps)

lemma value_wf_container:
  "value_wf (VArray vs) = list_all value_wf vs"
  "value_wf (VObject ms) = list_all (\<lambda>m. value_wf (snd m)) ms"
  by (subst value_wf.simps; simp)+

text \<open>What a value consumes of the item budget stays within the limit.\<close>

lemma admit_mono:
  "admit l depth i v = Some j \<Longrightarrow> i < j \<and> j \<le> max_items l"
  "admit_all l depth i vs = Some j \<Longrightarrow> i \<le> max_items l \<Longrightarrow> i \<le> j \<and> j \<le> max_items l"
  "admit_members l depth i ms = Some j \<Longrightarrow> i \<le> max_items l \<Longrightarrow> i \<le> j \<and> j \<le> max_items l"
proof (induction l depth i v and l depth i vs and l depth i ms arbitrary: j and j and j
    rule: admit_admit_all_admit_members.induct)
  case (1 l depth i v)
  note prem = 1(3)
  have g: "depth \<le> max_depth l" "i < max_items l"
    using prem by (auto simp: admit.simps [of l depth i v] split: if_splits)
  show ?case
  proof (cases v rule: value_cases_scalar)
    case 1
    with g prem show ?thesis by (auto simp: admit_scalar split: if_splits)
  next
    case (2 vs)
    with prem have "admit_all l depth (Suc i) vs = Some j" "length vs \<le> max_items l - Suc i"
      by (auto simp: admit_container split: if_splits)
    with 1(1) [OF _ 2] g show ?thesis by fastforce
  next
    case (3 ms)
    with prem have "admit_members l depth (Suc i) ms = Some j" "distinct (map fst ms)"
      "length ms \<le> (max_items l - Suc i) div 2"
      by (auto simp: admit_container split: if_splits)
    with 1(2) [OF _ 3] g show ?thesis by fastforce
  qed
next
  case (3 l depth i v vs)
  from 3(3) obtain k where k: "admit l (Suc depth) i v = Some k" "admit_all l depth k vs = Some j"
    by (auto simp: bind_eq_Some_conv)
  from 3(1) [OF k(1)] have "i < k \<and> k \<le> max_items l" .
  with 3(2) [OF k] show ?case by linarith
next
  case (5 l depth i m ms)
  from 5(3) obtain k where g: "Suc depth \<le> max_depth l" "i < max_items l" "valid_utf8 (fst m)"
    and k: "admit l (Suc depth) (Suc i) (snd m) = Some k" "admit_members l depth k ms = Some j"
    by (auto simp: bind_eq_Some_conv split: if_splits)
  from g have e: "Some (Suc i) = (if Suc depth > max_depth l \<or> i \<ge> max_items l \<or> \<not> valid_utf8 (fst m)
      then None else Some (Suc i))" by simp
  from 5(1) [OF e [symmetric] k(1)] have "Suc i < k \<and> k \<le> max_items l" .
  with 5(2) [OF e [symmetric] k] show ?case by linarith
qed simp_all

end
