(* ===== verification/Cbor_Encode.thy ===== *)
theory Cbor_Encode
  imports Cbor_Writer Cbor_Spec
begin

text \<open>
  The encoder implements the abstract wire format: in each of its three storage modes a writer
  accepts a value exactly when the value is within the budget and its canonical bytes fit, and then
  appends exactly those bytes. The locale \<open>byte_sink\<close> is the contract between the storage of a
  writer and the encoding operations, which only append; \<open>write_append\<close> is its interpretation.
\<close>

section \<open>Sinks\<close>

locale byte_sink =
  fixes ok :: "'w \<Rightarrow> bool"
    and append :: "'w \<Rightarrow> byte list \<Rightarrow> 'e option \<times> 'w"
  assumes append_nil: "ok w \<Longrightarrow> append w [] = (None, w)"
    and append_ok: "ok w \<Longrightarrow> append w bs = (None, w') \<Longrightarrow> ok w'"
    and append_seq: "ok w \<Longrightarrow> append w (as @ bs) = (None, w'') \<longleftrightarrow>
      (\<exists>w'. append w as = (None, w') \<and> append w' bs = (None, w''))"
begin

lemma and_then_append:
  "ok w \<Longrightarrow> and_then (append w as) (\<lambda>w'. append w' bs) = (None, w'') \<longleftrightarrow> append w (as @ bs) = (None, w'')"
  by (simp add: and_then_None_iff append_seq)

text \<open>Putting bytes one at a time appends them all or fails.\<close>

lemma put_each:
  assumes "ok w"
  shows "foldr (\<lambda>b k w. and_then (append w [b]) k) bs (\<lambda>w. (None, w)) w = (None, w') \<longleftrightarrow>
    append w bs = (None, w')"
  using assms
proof (induction bs arbitrary: w)
  case Nil
  then show ?case by (simp add: append_nil)
next
  case (Cons b bs)
  have "foldr (\<lambda>b k w. and_then (append w [b]) k) (b # bs) (\<lambda>w. (None, w)) w = (None, w') \<longleftrightarrow>
      (\<exists>s. append w [b] = (None, s) \<and> append s bs = (None, w'))"
    using Cons append_ok by (auto simp: and_then_None_iff)
  also have "\<dots> \<longleftrightarrow> append w ([b] @ bs) = (None, w')" using append_seq [OF Cons.prems, of "[b]" bs] by blast
  finally show ?case by simp
qed

end

text \<open>A writer whose destination is within its limits.\<close>

definition writer_ok :: "writer \<Rightarrow> bool" where
  "writer_ok w \<longleftrightarrow> destination_size w \<le> max_bytes (wr_limits w) \<and>
     (wr_count_only w \<longrightarrow> wr_dynamic w = None) \<and>
     (wr_dynamic w = None \<and> \<not> wr_count_only w \<longrightarrow> wr_fixed_size w \<le> length (wr_fixed w))"

interpretation sink: byte_sink writer_ok write_append
proof unfold_locales
  fix w w' w'' :: writer and as bs :: "byte list"
  assume ok: "writer_ok w"
  show "write_append w [] = (None, w)"
    using ok by (cases "wr_dynamic w")
      (auto simp: write_append_def fits_remaining_def writer_ok_def destination_size_def Let_def)
  show "write_append w bs = (None, w') \<Longrightarrow> writer_ok w'"
    using ok by (cases "wr_dynamic w")
      (auto simp: write_append_def fits_remaining_def writer_ok_def destination_size_def Let_def
        split: if_splits)
  show "write_append w (as @ bs) = (None, w'') \<longleftrightarrow>
      (\<exists>w'. write_append w as = (None, w') \<and> write_append w' bs = (None, w''))"
  proof (cases "wr_dynamic w")
    case (Some d)
    with ok show ?thesis
      by (auto simp: write_append_def fits_remaining_def writer_ok_def destination_size_def Let_def)
  next
    case None
    show ?thesis
    proof (cases "wr_count_only w")
      case True
      with ok None show ?thesis
        by (auto simp: write_append_def fits_remaining_def writer_ok_def destination_size_def Let_def ac_simps)
    next
      case False
      have split: "take (n + length as) (take n xs @ as @ drop (n + length as) xs) @ bs
          @ drop (n + length as + length bs) (take n xs @ as @ drop (n + length as) xs)
        = take n xs @ as @ bs @ drop (n + length as + length bs) xs"
        if "n + length as \<le> length xs" for n and xs :: "byte list"
        using that by (simp add: add.commute)
      with ok None False show ?thesis
        by (auto simp: write_append_def fits_remaining_def writer_ok_def destination_size_def Let_def ac_simps)
    qed
  qed
qed

section \<open>Heads and scalars\<close>

lemma write_append_fields:
  assumes "write_append w bs = (e, w')"
  shows "wr_limits w' = wr_limits w \<and> wr_raw w' = wr_raw w \<and> wr_items w' = wr_items w"
  using assms by (auto simp: write_append_def Let_def split: if_splits option.splits)

lemma write_append_items:
  "write_append (w\<lparr>wr_items := i\<rparr>) bs =
     (fst (write_append w bs), (snd (write_append w bs))\<lparr>wr_items := i\<rparr>)"
  by (cases "wr_dynamic w")
    (simp_all add: write_append_def Let_def destination_size_def)

lemma put_then_big_endian:
  assumes "writer_ok w"
  shows "and_then (write_append w as) (\<lambda>w'. put_big_endian w' n v) = (None, x) \<longleftrightarrow>
    write_append w (as @ be_bytes n v) = (None, x)"
proof (induction n arbitrary: as)
  case 0
  then show ?case by (simp add: and_then_None_iff)
next
  case (Suc n)
  let ?b = "of_nat (v div 256 ^ n mod 256) :: byte"
  have "and_then (write_append w as) (\<lambda>w'. put_big_endian w' (Suc n) v) = (None, x) \<longleftrightarrow>
      (\<exists>s t. write_append w as = (None, s) \<and> write_append s [?b] = (None, t) \<and> put_big_endian t n v = (None, x))"
    by (auto simp: and_then_None_iff put_def)
  also have "\<dots> \<longleftrightarrow> (\<exists>t. write_append w (as @ [?b]) = (None, t) \<and> put_big_endian t n v = (None, x))"
    using sink.append_seq [OF assms, of as "[?b]"] by blast
  also have "\<dots> \<longleftrightarrow> and_then (write_append w (as @ [?b])) (\<lambda>w'. put_big_endian w' n v) = (None, x)"
    by (auto simp: and_then_None_iff)
  also have "\<dots> \<longleftrightarrow> write_append w ((as @ [?b]) @ be_bytes n v) = (None, x)" by (rule Suc)
  finally show ?case by simp
qed

lemma write_head_bytes:
  "writer_ok w \<Longrightarrow> write_head w major v = (None, x) \<longleftrightarrow> write_append w (head_bytes major v) = (None, x)"
  using put_then_big_endian [of w "[of_nat (major * 32 + (if head_size v = 1 then v
      else additional_info_for_head_size (head_size v)))]" "head_size v - 1" v x]
  by (simp add: write_head_def head_bytes_def put_def Let_def)

lemma write_head_append:
  assumes "writer_ok w"
  shows "and_then (write_head w major v) (\<lambda>w'. write_append w' bs) = (None, x) \<longleftrightarrow>
    write_append w (head_bytes major v @ bs) = (None, x)"
  using assms by (simp add: and_then_None_iff write_head_bytes sink.append_seq)

lemma write_body_bytes:
  assumes "writer_ok w"
  shows "write_body w s = (None, x) \<longleftrightarrow> scalar_ok s \<and> write_append w (scalar_bytes s) = (None, x)"
proof (cases s)
  case (SInt i)
  then show ?thesis by (cases "signed_integer_encoding i") (simp add: write_head_bytes [OF assms])
next
  case (SDouble d)
  show ?thesis
  proof (cases "canonical_float_encoding d")
    case (Inl code)
    then have "\<not> isfinite64 d" by (auto simp: canonical_float_encoding_def Let_def split: if_splits)
    with SDouble Inl show ?thesis by (simp add: write_double_def)
  next
    case (Inr e)
    then have "isfinite64 d" by (auto simp: canonical_float_encoding_def split: if_splits)
    with SDouble Inr put_then_big_endian [OF assms, of "[float_marker (fst e)]"] show ?thesis
      by (cases e) (simp add: write_double_def put_def float_marker_def)
  qed
next
  case (SText t)
  with assms write_head_append [OF assms, of 3 "length t" t] show ?thesis
    by (auto simp: write_text_body_def write_text_head_def)
next
  case (SBytes b)
  then show ?thesis by (simp add: write_head_append [OF assms])
qed (simp_all add: put_def write_head_bytes [OF assms])

section \<open>Values\<close>

text \<open>
  The abstract step of a writer: append \<open>bs\<close>, and the item count becomes \<open>j\<close>.
\<close>

definition appended :: "writer \<Rightarrow> byte list \<Rightarrow> nat option \<Rightarrow> writer \<Rightarrow> bool" where
  "appended w bs j w' \<longleftrightarrow> (\<exists>i x. j = Some i \<and> write_append w bs = (None, x) \<and> w' = x\<lparr>wr_items := i\<rparr>)"

lemma writer_ok_items [simp]: "writer_ok (w\<lparr>wr_items := i\<rparr>) = writer_ok w"
  by (cases "wr_dynamic w") (simp_all add: writer_ok_def destination_size_def)

lemma appended_fields:
  assumes "writer_ok w" and "appended w bs j w'"
  shows "writer_ok w' \<and> wr_limits w' = wr_limits w \<and> wr_raw w' = wr_raw w \<and> j = Some (wr_items w')"
  using assms sink.append_ok [OF assms(1)] write_append_fields
  by (fastforce simp: appended_def)

lemma appended_seq:
  assumes "writer_ok w"
  shows "(\<exists>w'. appended w as j w' \<and> appended w' bs (g (wr_items w')) w'') \<longleftrightarrow>
    appended w (as @ bs) (Option.bind j g) w''"
proof (cases j)
  case None
  then show ?thesis by (simp add: appended_def)
next
  case (Some i)
  have "(\<exists>w'. appended w as j w' \<and> appended w' bs (g (wr_items w')) w'') \<longleftrightarrow>
      (\<exists>x k y. write_append w as = (None, x) \<and> g i = Some k \<and>
        write_append (x\<lparr>wr_items := i\<rparr>) bs = (None, y) \<and> w'' = y\<lparr>wr_items := k\<rparr>)"
    using Some by (auto simp: appended_def)
  also have "\<dots> \<longleftrightarrow> (\<exists>x k y. write_append w as = (None, x) \<and> g i = Some k \<and>
        write_append x bs = (None, y) \<and> w'' = y\<lparr>wr_items := k\<rparr>)"
    by (auto simp: write_append_items prod_eq_iff; metis prod.collapse surjective)
  also have "\<dots> \<longleftrightarrow> appended w (as @ bs) (Option.bind j g) w''"
    using Some by (auto simp: appended_def sink.append_seq [OF assms])
  finally show ?thesis .
qed

lemma begin_item_appended:
  "writer_ok w \<Longrightarrow> begin_encode_item w depth = (None, w') \<longleftrightarrow>
    appended w [] (if depth > max_depth (wr_limits w) \<or> wr_items w \<ge> max_items (wr_limits w)
                   then None else Some (Suc (wr_items w))) w'"
  by (auto simp: begin_encode_item_def appended_def sink.append_nil split: if_splits)

lemma appended_guarded:
  assumes "writer_ok w"
  shows "(\<exists>w'. appended w as j w' \<and> P w') \<longleftrightarrow> (\<exists>w'. appended w as j w' \<and> writer_ok w' \<and>
      wr_limits w' = wr_limits w \<and> wr_raw w' = wr_raw w \<and> P w')"
  using appended_fields [OF assms] by blast

lemma and_then_appended:
  assumes ok: "writer_ok w" and m: "\<And>x. m = (None, x) \<longleftrightarrow> appended w as j x"
    and f: "\<And>w' x. writer_ok w' \<Longrightarrow> wr_limits w' = wr_limits w \<Longrightarrow> wr_raw w' = wr_raw w \<Longrightarrow>
      j = Some (wr_items w') \<Longrightarrow> f w' = (None, x) \<longleftrightarrow> appended w' bs (g (wr_items w')) x"
  shows "and_then m f = (None, x) \<longleftrightarrow> appended w (as @ bs) (Option.bind j g) x"
proof -
  have "and_then m f = (None, x) \<longleftrightarrow> (\<exists>w'. appended w as j w' \<and> f w' = (None, x))"
    by (simp add: and_then_None_iff m)
  also have "\<dots> \<longleftrightarrow> (\<exists>w'. appended w as j w' \<and> appended w' bs (g (wr_items w')) x)"
    using f appended_fields [OF ok] by blast
  also have "\<dots> \<longleftrightarrow> appended w (as @ bs) (Option.bind j g) x" by (rule appended_seq [OF ok])
  finally show ?thesis .
qed

lemma append_appended: "writer_ok w \<Longrightarrow> write_append w bs = (None, x) \<longleftrightarrow> appended w bs (Some (wr_items w)) x"
  using write_append_fields by (auto simp: appended_def)

lemma write_body_appended:
  "writer_ok w \<Longrightarrow> write_body w s = (None, x) \<longleftrightarrow>
    appended w (scalar_bytes s) (if scalar_ok s then Some (wr_items w) else None) x"
  by (cases "scalar_ok s") (simp_all add: write_body_bytes append_appended appended_def [of w _ None])

lemma write_scalar_appended:
  assumes "writer_ok w"
  shows "write_scalar w s depth = (None, x) \<longleftrightarrow>
    appended w (scalar_bytes s) (admit (wr_limits w) depth (wr_items w) (value_of_scalar s)) x"
proof -
  have "write_scalar w s depth = (None, x) \<longleftrightarrow> appended w ([] @ scalar_bytes s)
      (Option.bind (if depth > max_depth (wr_limits w) \<or> wr_items w \<ge> max_items (wr_limits w)
                   then None else Some (Suc (wr_items w)))
        (\<lambda>i. if scalar_ok s then Some i else None)) x"
    unfolding write_scalar_def
    by (rule and_then_appended [OF assms begin_item_appended [OF assms]]) (simp add: write_body_appended)
  then show ?thesis by (simp add: admit_scalar not_less not_le)
qed

lemma write_array_body_appended:
  "writer_ok w \<Longrightarrow> wr_items w \<le> max_items (wr_limits w) \<Longrightarrow> write_array_body w n = (None, x) \<longleftrightarrow>
    appended w (head_bytes 4 n)
      (if n \<le> max_items (wr_limits w) - wr_items w then Some (wr_items w) else None) x"
  by (cases "n \<le> max_items (wr_limits w) - wr_items w")
    (simp_all add: write_array_body_def fits_remaining_def write_head_bytes append_appended
      appended_def [of w _ None])

lemma write_object_body_appended:
  "writer_ok w \<Longrightarrow> wr_items w \<le> max_items (wr_limits w) \<Longrightarrow>
    write_object_body w (length ms) (Some ms) = (None, x) \<longleftrightarrow>
    appended w (head_bytes 5 (length ms))
      (if distinct (map fst ms) \<and> length ms \<le> (max_items (wr_limits w) - wr_items w) div 2
       then Some (wr_items w) else None) x"
  by (cases "distinct (map fst ms) \<and> length ms \<le> (max_items (wr_limits w) - wr_items w) div 2")
    (auto simp: write_object_body_def object_encoding_rejected_def duplicate_object_key_def
      write_head_bytes append_appended appended_def [of w _ None])

lemma bind_guard: "Option.bind (if P then Some i else None) g = (if P then g i else None)"
  by simp

lemma write_item_cases:
  assumes "wr_raw w = None"
  shows "write_item w (value_of_scalar s) depth loc = write_scalar w s depth"
    and "write_item w (VArray vs) depth loc = and_then (begin_encode_item w depth) (\<lambda>w1.
      and_then (write_array_body w1 (length vs)) (\<lambda>w2. write_elements w2 vs depth loc 0))"
    and "write_item w (VObject ms) depth loc = and_then (begin_encode_item w depth) (\<lambda>w1.
      and_then (write_object_body w1 (length ms) (Some ms)) (\<lambda>w2. write_members w2 ms depth loc 0))"
proof -
  have raw: "begin_encode_item w depth = (e, w1) \<Longrightarrow> wr_raw w1 = None" for e w1
    using assms by (auto simp: begin_encode_item_def split: if_splits)
  show "write_item w (value_of_scalar s) depth loc = write_scalar w s depth"
    by (cases s) (simp_all add: write_item.simps write_scalar_def)
  show "write_item w (VArray vs) depth loc = and_then (begin_encode_item w depth) (\<lambda>w1.
      and_then (write_array_body w1 (length vs)) (\<lambda>w2. write_elements w2 vs depth loc 0))"
    using raw by (cases "begin_encode_item w depth"; cases "fst (begin_encode_item w depth)")
      (simp_all add: write_item.simps)
  show "write_item w (VObject ms) depth loc = and_then (begin_encode_item w depth) (\<lambda>w1.
      and_then (write_object_body w1 (length ms) (Some ms)) (\<lambda>w2. write_members w2 ms depth loc 0))"
    by (simp add: write_item.simps)
qed

theorem write_item_refines:
  "writer_ok w \<Longrightarrow> wr_raw w = None \<Longrightarrow> write_item w v depth loc = (None, x) \<longleftrightarrow>
    appended w (encoding v) (admit (wr_limits w) depth (wr_items w) v) x"
  "writer_ok w \<Longrightarrow> wr_raw w = None \<Longrightarrow> write_elements w vs depth loc i = (None, x) \<longleftrightarrow>
    appended w (encodings vs) (admit_all (wr_limits w) depth (wr_items w) vs) x"
  "writer_ok w \<Longrightarrow> wr_raw w = None \<Longrightarrow> write_members w ms depth loc i = (None, x) \<longleftrightarrow>
    appended w (member_encodings ms) (admit_members (wr_limits w) depth (wr_items w) ms) x"
proof (induction v and vs and ms arbitrary: w depth loc x and w depth loc i x and w depth loc i x
    rule: encoding_encodings_member_encodings.induct)
  case (1 v)
  let ?l = "wr_limits w" and ?i = "wr_items w"
  let ?admitted = "if depth > max_depth ?l \<or> ?i \<ge> max_items ?l then None else Some (Suc ?i)"
  show ?case
  proof (cases v rule: value_cases_scalar)
    case (1 s)
    then show ?thesis by (simp add: write_item_cases [OF "1.prems"(2)] write_scalar_appended [OF "1.prems"(1)])
  next
    case (2 vs)
    have "write_item w v depth loc = (None, x) \<longleftrightarrow> appended w ([] @ head_bytes 4 (length vs) @ encodings vs)
      (Option.bind ?admitted (\<lambda>k. Option.bind (if length vs \<le> max_items ?l - k then Some k else None)
          (\<lambda>k. admit_all ?l depth k vs))) x"
      unfolding 2 write_item_cases(2) [OF "1.prems"(2)]
    proof (rule and_then_appended [OF "1.prems"(1) begin_item_appended [OF "1.prems"(1)]])
      fix w' x
      assume w': "writer_ok w'" "wr_limits w' = ?l" "wr_raw w' = wr_raw w" "?admitted = Some (wr_items w')"
      then have le: "wr_items w' \<le> max_items (wr_limits w')" by (auto split: if_splits)
      show "and_then (write_array_body w' (length vs)) (\<lambda>w2. write_elements w2 vs depth loc 0) = (None, x) \<longleftrightarrow>
        appended w' (head_bytes 4 (length vs) @ encodings vs) (Option.bind
          (if length vs \<le> max_items ?l - wr_items w' then Some (wr_items w') else None)
          (\<lambda>k. admit_all ?l depth k vs)) x"
        unfolding w'(2) [symmetric]
        by (rule and_then_appended [OF w'(1) write_array_body_appended [OF w'(1) le]])
          (use "1.IH"(1) [OF 2] "1.prems"(2) w' in simp)
    qed
    also have "\<dots> \<longleftrightarrow> appended w (encoding v) (admit ?l depth ?i v) x"
      by (simp add: 2 encoding_container admit_container not_less not_le)
    finally show ?thesis .
  next
    case (3 ms)
    have "write_item w v depth loc = (None, x) \<longleftrightarrow> appended w ([] @ head_bytes 5 (length ms) @ member_encodings ms)
      (Option.bind ?admitted (\<lambda>k. Option.bind
          (if distinct (map fst ms) \<and> length ms \<le> (max_items ?l - k) div 2 then Some k else None)
          (\<lambda>k. admit_members ?l depth k ms))) x"
      unfolding 3 write_item_cases(3) [OF "1.prems"(2)]
    proof (rule and_then_appended [OF "1.prems"(1) begin_item_appended [OF "1.prems"(1)]])
      fix w' x
      assume w': "writer_ok w'" "wr_limits w' = ?l" "wr_raw w' = wr_raw w" "?admitted = Some (wr_items w')"
      then have le: "wr_items w' \<le> max_items (wr_limits w')" by (auto split: if_splits)
      show "and_then (write_object_body w' (length ms) (Some ms)) (\<lambda>w2. write_members w2 ms depth loc 0) = (None, x) \<longleftrightarrow>
        appended w' (head_bytes 5 (length ms) @ member_encodings ms) (Option.bind
          (if distinct (map fst ms) \<and> length ms \<le> (max_items ?l - wr_items w') div 2 then Some (wr_items w') else None)
          (\<lambda>k. admit_members ?l depth k ms)) x"
        unfolding w'(2) [symmetric]
        by (rule and_then_appended [OF w'(1) write_object_body_appended [OF w'(1) le]])
          (use "1.IH"(2) [OF 3] "1.prems"(2) w' in simp)
    qed
    also have "\<dots> \<longleftrightarrow> appended w (encoding v) (admit ?l depth ?i v) x"
      by (simp add: 3 encoding_container admit_container not_less not_le)
    finally show ?thesis .
  qed
next
  case 2
  then show ?case by (auto simp: appended_def sink.append_nil)
next
  case (3 v vs)
  show ?case
    unfolding write_elements.simps encodings.simps admit_all.simps Suc_eq_plus1 [symmetric]
    by (rule and_then_appended [OF "3.prems"(1) "3.IH"(1) [OF "3.prems"]])
      (use "3.IH"(2) "3.prems"(2) in simp)
next
  case 4
  then show ?case by (auto simp: appended_def sink.append_nil)
next
  case (5 m ms)
  have key: "admit (wr_limits w) (Suc depth) (wr_items w) (value_of_scalar (SText (fst m))) =
    (if Suc depth > max_depth (wr_limits w) \<or> wr_items w \<ge> max_items (wr_limits w) \<or> \<not> valid_utf8 (fst m)
     then None else Some (Suc (wr_items w)))"
    unfolding admit_scalar by auto
  show ?case
    unfolding write_members.simps member_encodings.simps admit_members.simps key [symmetric]
      Suc_eq_plus1 [symmetric]
  proof (rule and_then_appended [OF "5.prems"(1) write_scalar_appended [OF "5.prems"(1)]])
    fix w' x
    assume w': "writer_ok w'" "wr_limits w' = wr_limits w" "wr_raw w' = wr_raw w"
    then have raw: "wr_raw w' = None" using "5.prems"(2) by simp
    show "and_then (write_item w' (snd m) (Suc depth) (i # loc)) (\<lambda>w2. write_members w2 ms depth loc (Suc i)) = (None, x) \<longleftrightarrow>
      appended w' (encoding (snd m) @ member_encodings ms)
        (Option.bind (admit (wr_limits w) (Suc depth) (wr_items w') (snd m)) (\<lambda>k. admit_members (wr_limits w) depth k ms)) x"
      unfolding w'(2) [symmetric]
      by (rule and_then_appended [OF w'(1) "5.IH"(1) [OF w'(1) raw]])
        (use "5.IH"(2) raw in simp)
  qed
qed

section \<open>Counting and writing agree\<close>

text \<open>A counting writer and a growing writer that have taken the same steps.\<close>

definition counts_for :: "writer \<Rightarrow> writer \<Rightarrow> bool" where
  "counts_for c w \<longleftrightarrow> wr_count_only c \<and> wr_dynamic c = None \<and> \<not> wr_count_only w \<and> wr_dynamic w \<noteq> None \<and>
     destination_size c = destination_size w \<and> wr_limits c = wr_limits w \<and> wr_raw c = wr_raw w \<and>
     wr_items c = wr_items w"

definition agree :: "write_result \<Rightarrow> write_result \<Rightarrow> bool" where
  "agree m n \<longleftrightarrow> fst m = fst n \<and> counts_for (snd m) (snd n)"

named_theorems agree_intros

lemma agree_refl [agree_intros]: "counts_for c w \<Longrightarrow> agree (e, c) (e, w)"
  by (simp add: agree_def)

lemma agree_and_then [agree_intros]:
  assumes "agree m n" and "\<And>c w. counts_for c w \<Longrightarrow> agree (f c) (g w)"
  shows "agree (and_then m f) (and_then n g)"
  using assms by (cases m; cases n; cases "fst m") (auto simp: agree_def)

lemma agree_append [agree_intros]: "counts_for c w \<Longrightarrow> agree (write_append c bs) (write_append w bs)"
  by (auto simp: agree_def counts_for_def write_append_def destination_size_def Let_def)

lemma agree_put [agree_intros]: "counts_for c w \<Longrightarrow> agree (put c b) (put w b)"
  by (simp add: put_def agree_append)

lemma agree_big_endian [agree_intros]: "counts_for c w \<Longrightarrow> agree (put_big_endian c n v) (put_big_endian w n v)"
  by (induction n arbitrary: c w) (simp_all add: agree_intros)

lemma agree_head [agree_intros]: "counts_for c w \<Longrightarrow> agree (write_head c major v) (write_head w major v)"
  by (simp add: write_head_def Let_def agree_intros)

lemma agree_begin [agree_intros]: "counts_for c w \<Longrightarrow> agree (begin_encode_item c depth) (begin_encode_item w depth)"
  by (auto simp: begin_encode_item_def agree_def counts_for_def destination_size_def)

lemma counts_for_limits: "counts_for c w \<Longrightarrow> wr_limits c = wr_limits w \<and> wr_items c = wr_items w \<and> wr_raw c = wr_raw w"
  by (simp add: counts_for_def)

lemma agree_text [agree_intros]: "counts_for c w \<Longrightarrow> agree (write_text_body c t) (write_text_body w t)"
  unfolding write_text_body_def write_text_head_def by (intro agree_intros) (auto intro!: agree_intros)

lemma agree_double [agree_intros]: "counts_for c w \<Longrightarrow> agree (write_double c d) (write_double w d)"
  by (auto simp: write_double_def intro!: agree_intros split: sum.splits prod.splits)

lemma agree_body [agree_intros]: "counts_for c w \<Longrightarrow> agree (write_body c s) (write_body w s)"
  by (cases s) (auto intro!: agree_intros split: prod.splits)

lemma agree_scalar [agree_intros]: "counts_for c w \<Longrightarrow> agree (write_scalar c s depth) (write_scalar w s depth)"
  unfolding write_scalar_def by (intro agree_intros)

lemma agree_array [agree_intros]: "counts_for c w \<Longrightarrow> agree (write_array_body c n) (write_array_body w n)"
  unfolding write_array_body_def by (auto simp: counts_for_limits intro!: agree_intros)

lemma agree_object [agree_intros]: "counts_for c w \<Longrightarrow> agree (write_object_body c n ms) (write_object_body w n ms)"
  unfolding write_object_body_def by (auto simp: counts_for_limits intro!: agree_intros)

lemma counts_for_truncate:
  "counts_for c w \<Longrightarrow> counts_for (truncate_to c n) (truncate_to w n)"
  by (auto simp: counts_for_def truncate_to_def destination_size_def)

lemma counts_for_items: "counts_for c w \<Longrightarrow> counts_for (c\<lparr>wr_items := i\<rparr>) (w\<lparr>wr_items := i\<rparr>)"
  by (auto simp: counts_for_def destination_size_def)

lemma agree_raw_item [agree_intros]:
  assumes "counts_for c w"
  shows "agree (append_raw_item_at c item depth) (append_raw_item_at w item depth)"
proof -
  have tail: "agree
      (case write_append c1 (seg_second item) of
         (Some e, w2) \<Rightarrow> (Some e, truncate_to w2 (destination_size w2 - length (seg_first item)))
       | (None, w2) \<Rightarrow> (None, w2\<lparr>wr_items := wr_items w2 + n\<rparr>))
      (case write_append w1 (seg_second item) of
         (Some e, w2) \<Rightarrow> (Some e, truncate_to w2 (destination_size w2 - length (seg_first item)))
       | (None, w2) \<Rightarrow> (None, w2\<lparr>wr_items := wr_items w2 + n\<rparr>))"
    if "counts_for c1 w1" for c1 w1 n
    using agree_append [OF that, of "seg_second item"] counts_for_truncate counts_for_items
    by (auto simp: agree_def counts_for_limits split: prod.splits option.splits)
      (auto simp: counts_for_def)
  show ?thesis
    using assms unfolding append_raw_item_at_def Let_def
    by (auto simp: counts_for_limits intro!: agree_intros tail split: sum.splits)
qed

lemma agree_raw_items [agree_intros]:
  "counts_for c w \<Longrightarrow> agree (write_raw_items c items depth) (write_raw_items w items depth)"
  by (induction items arbitrary: c w) (simp_all add: agree_intros)

lemma agree_item:
  "counts_for c w \<Longrightarrow> agree (write_item c v depth loc) (write_item w v depth loc)"
  "counts_for c w \<Longrightarrow> agree (write_elements c vs depth loc i) (write_elements w vs depth loc i)"
  "counts_for c w \<Longrightarrow> agree (write_members c ms depth loc i) (write_members w ms depth loc i)"
proof (induction v and vs and ms arbitrary: c w depth loc and c w depth loc i and c w depth loc i
    rule: encoding_encodings_member_encodings.induct)
  case (1 v)
  show ?case
  proof (cases v rule: value_cases_scalar)
    case (1 s)
    then have "write_item u v depth loc = write_scalar u s depth" for u
      by (cases s) (simp_all add: write_item.simps write_scalar_def)
    with "1.prems" show ?thesis by (simp add: agree_intros)
  next
    case (2 vs)
    with "1.IH"(1) [OF 2] "1.prems" show ?thesis
      unfolding write_item.simps [of _ v]
      by (auto simp: counts_for_limits intro!: agree_intros split: option.splits prod.splits)
  next
    case (3 ms)
    with "1.IH"(2) [OF 3] "1.prems" show ?thesis
      unfolding write_item.simps [of _ v] by (auto intro!: agree_intros)
  qed
qed (auto intro!: agree_intros)

lemma write_value_agree:
  assumes "counts_for c w"
  shows "agree (write_value c v) (write_value w v)"
proof -
  obtain e c' f w' where res: "write_item c v 0 [] = (e, c')" "write_item w v 0 [] = (f, w')"
    by (metis surj_pair)
  with agree_item(1) [OF assms, of v 0 "[]"] have "e = f" "counts_for c' w'" by (simp_all add: agree_def)
  with res assms counts_for_items [OF counts_for_truncate [OF \<open>counts_for c' w'\<close>]] show ?thesis
    by (cases f) (auto simp: write_value_def agree_def counts_for_def)
qed

section \<open>The encoding functions\<close>

lemma write_value_success:
  assumes "writer_ok w" and "wr_raw w = None"
  shows "write_value w v = (None, x) \<longleftrightarrow> appended w (encoding v) (admit (wr_limits w) 0 (wr_items w) v) x"
  using write_item_refines(1) [OF assms, of v 0 "[]" x]
  by (auto simp: write_value_def split: prod.splits option.splits)

lemma initial_writers:
  "writer_ok (counting_writer l raw)" "writer_ok (dynamic_writer [] l raw)" "writer_ok (fixed_writer d l raw)"
  "counts_for (counting_writer l raw) (dynamic_writer [] l raw)"
  by (simp_all add: counting_writer_def dynamic_writer_def fixed_writer_def writer_ok_def
      destination_size_def counts_for_def)

lemma measure_value_Inr:
  "measure_value l None v = Inr n \<longleftrightarrow>
     admit l 0 0 v \<noteq> None \<and> n = length (encoding v) \<and> n \<le> max_bytes l"
proof -
  have "measure_value l None v = Inr n \<longleftrightarrow>
      (\<exists>x. write_value (counting_writer l None) v = (None, x) \<and> n = destination_size x)"
    by (auto simp: measure_value_def split: prod.splits option.splits)
  also have "\<dots> \<longleftrightarrow> (\<exists>x. appended (counting_writer l None) (encoding v) (admit l 0 0 v) x \<and> n = destination_size x)"
    by (subst write_value_success) (simp_all add: initial_writers, simp_all add: counting_writer_def)
  also have "\<dots> \<longleftrightarrow> admit l 0 0 v \<noteq> None \<and> n = length (encoding v) \<and> n \<le> max_bytes l"
    by (auto simp: appended_def counting_writer_def write_append_def destination_size_def fits_remaining_def
        split: if_splits)
  finally show ?thesis .
qed

text \<open>
  C2: encoding into a buffer succeeds exactly when the value is within the limits and its canonical
  bytes fit, and then the buffer holds exactly those bytes, whatever it held before.
\<close>

theorem encode_exact:
  "encode v destination l = (None, bs) \<longleftrightarrow>
     admit l 0 0 v \<noteq> None \<and> length (encoding v) \<le> max_bytes l \<and> bs = encoding v"
proof (cases "measure_value l None v")
  case (Inl e)
  then have "\<not> (admit l 0 0 v \<noteq> None \<and> length (encoding v) \<le> max_bytes l)"
    using measure_value_Inr [of l v "length (encoding v)"] by simp
  with Inl show ?thesis by (auto simp: encode_def encode_raw_def)
next
  case (Inr n)
  then have adm: "admit l 0 0 v \<noteq> None" "length (encoding v) \<le> max_bytes l"
    using measure_value_Inr [of l v n] by auto
  have "write_value (dynamic_writer [] l None) v = (None, x) \<longleftrightarrow>
      appended (dynamic_writer [] l None) (encoding v) (admit l 0 0 v) x" for x
    by (subst write_value_success) (simp_all add: initial_writers, simp_all add: dynamic_writer_def)
  moreover have "\<exists>i. appended (dynamic_writer [] l None) (encoding v) (admit l 0 0 v)
      (dynamic_writer (encoding v) l None\<lparr>wr_items := i\<rparr>)"
    using adm by (auto simp: appended_def dynamic_writer_def write_append_def destination_size_def fits_remaining_def)
  ultimately obtain i where "write_value (dynamic_writer [] l None) v = (None, dynamic_writer (encoding v) l None\<lparr>wr_items := i\<rparr>)"
    by blast
  with Inr adm show ?thesis by (auto simp: encode_def encode_raw_def dynamic_writer_def)
qed

text \<open>
  C3: an encoding that fails leaves the destination exactly as it was, also when raw items replace an
  array of the value: every failure is found by the counting pass, before the destination is cleared.
\<close>

theorem encode_raw_atomic:
  "fst (encode_raw v raw destination l) = None \<or> snd (encode_raw v raw destination l) = destination"
proof (cases "measure_value l raw v")
  case (Inl e)
  then show ?thesis by (simp add: encode_raw_def)
next
  case (Inr n)
  then have "fst (write_value (counting_writer l raw) v) = None"
    by (auto simp: measure_value_def split: prod.splits option.splits)
  with write_value_agree [OF initial_writers(4)] have "fst (write_value (dynamic_writer [] l raw) v) = None"
    by (metis agree_def)
  with Inr show ?thesis by (auto simp: encode_raw_def split: prod.splits)
qed

text \<open>
  C5: encoding into a fixed span succeeds exactly when the value is within the limits and its
  canonical bytes fit the limits and the span; it reports their number, writes them at the start
  and leaves the rest of the span untouched.
\<close>

theorem encode_fixed_exact:
  "encode_fixed v destination l = (Inr n, result) \<longleftrightarrow>
     admit l 0 0 v \<noteq> None \<and> n = length (encoding v) \<and> n \<le> max_bytes l \<and> n \<le> length destination \<and>
     result = encoding v @ drop n destination"
proof (cases "measure_value l None v")
  case (Inl e)
  then have "\<not> (admit l 0 0 v \<noteq> None \<and> length (encoding v) \<le> max_bytes l)"
    using measure_value_Inr [of l v "length (encoding v)"] by simp
  with Inl show ?thesis by (auto simp: encode_fixed_def)
next
  case (Inr m)
  then have m: "admit l 0 0 v \<noteq> None" "m = length (encoding v)" "m \<le> max_bytes l"
    using measure_value_Inr [of l v m] by auto
  show ?thesis
  proof (cases "m \<le> length destination")
    case False
    with Inr m show ?thesis by (auto simp: encode_fixed_def)
  next
    case True
    let ?w = "fixed_writer destination l None"
    let ?x = "fixed_writer (encoding v @ drop m destination) l None\<lparr>wr_fixed_size := m\<rparr>"
    have "write_value ?w v = (None, x) \<longleftrightarrow> appended ?w (encoding v) (admit l 0 0 v) x" for x
      by (subst write_value_success) (simp_all add: initial_writers, simp_all add: fixed_writer_def)
    moreover have "\<exists>i. appended ?w (encoding v) (admit l 0 0 v) (?x\<lparr>wr_items := i\<rparr>)"
      using m True by (auto simp: appended_def fixed_writer_def write_append_def destination_size_def fits_remaining_def)
    ultimately obtain i where "write_value ?w v = (None, ?x\<lparr>wr_items := i\<rparr>)" by blast
    with Inr m True show ?thesis by (auto simp: encode_fixed_def fixed_writer_def destination_size_def)
  qed
qed

end
