(* ===== verification/Cbor_Float.thy ===== *)
theory Cbor_Float
  imports Cbor_Types
begin

text \<open>
  The floating-point codec on the numbers it transmits: narrowing undoes widening for every finite
  single, and half conversion undoes half expansion for every finite half, so that each finite
  number has exactly one canonical encoding, which the reader accepts and expands to the same bits.
\<close>

section \<open>Fields of a bit pattern\<close>

lemma unat_field:
  fixes w :: "'a::len word"
  shows "unat (drop_bit n w AND mask k) = unat w div 2 ^ n mod 2 ^ k"
  unfolding take_bit_eq_mask [symmetric] unsigned_take_bit_eq unat_drop_bit_eq
  by (simp add: take_bit_eq_mod drop_bit_eq_div)

lemma unat_low_field:
  fixes w :: "'a::len word"
  shows "unat (w AND mask k) = unat w mod 2 ^ k"
  using unat_field [of 0 w k] by simp

lemma masks64: "(0x7ff :: u64) = mask 11" "(0xfffffffffffff :: u64) = mask 52"
    "(0x7fffffffffffffff :: u64) = mask 63"
  by (simp_all add: mask_eq_exp_minus_1)

lemma masks32: "(0xff :: u32) = mask 8" "(0x7fffff :: u32) = mask 23" "(0x3ff :: u32) = mask 10"
    "(0x7fffffff :: u32) = mask 31"
  by (simp_all add: mask_eq_exp_minus_1)

lemma masks16: "(0x1f :: u16) = mask 5" "(0x3ff :: u16) = mask 10"
  by (simp_all add: mask_eq_exp_minus_1)

lemma unat_of_nat64: "n < 2 ^ 64 \<Longrightarrow> unat (of_nat n :: u64) = n"
  by (simp add: unat_of_nat take_bit_eq_mod)

lemma unat_of_nat32: "n < 2 ^ 32 \<Longrightarrow> unat (of_nat n :: u32) = n"
  by (simp add: unat_of_nat take_bit_eq_mod)

lemma unat_of_nat16: "n < 2 ^ 16 \<Longrightarrow> unat (of_nat n :: u16) = n"
  by (simp add: unat_of_nat take_bit_eq_mod)

definition sign64 :: "u64 \<Rightarrow> nat" where "sign64 d = unat d div 2 ^ 63"
definition expo64 :: "u64 \<Rightarrow> nat" where "expo64 d = unat d div 2 ^ 52 mod 2 ^ 11"
definition frac64 :: "u64 \<Rightarrow> nat" where "frac64 d = unat d mod 2 ^ 52"

definition sign32 :: "u32 \<Rightarrow> nat" where "sign32 f = unat f div 2 ^ 31"
definition expo32 :: "u32 \<Rightarrow> nat" where "expo32 f = unat f div 2 ^ 23 mod 2 ^ 8"
definition frac32 :: "u32 \<Rightarrow> nat" where "frac32 f = unat f mod 2 ^ 23"

lemma field64_bounds: "sign64 d < 2" "expo64 d < 2048" "frac64 d < 2 ^ 52"
proof -
  have "unat d < 2 ^ LENGTH(64)" by (rule unsigned_less)
  then show "sign64 d < 2" by (simp add: sign64_def less_mult_imp_div_less)
qed (simp_all add: expo64_def frac64_def)

lemma field32_bounds: "sign32 f < 2" "expo32 f < 256" "frac32 f < 2 ^ 23"
proof -
  have "unat f < 2 ^ LENGTH(32)" by (rule unsigned_less)
  then show "sign32 f < 2" by (simp add: sign32_def less_mult_imp_div_less)
qed (simp_all add: expo32_def frac32_def)

lemma fields_nat:
  fixes s e f :: nat
  assumes "f < 2 ^ a" and "e < 2 ^ b"
  shows "(s * 2 ^ (a + b) + e * 2 ^ a + f) div 2 ^ (a + b) = s"
    and "(s * 2 ^ (a + b) + e * 2 ^ a + f) div 2 ^ a mod 2 ^ b = e"
    and "(s * 2 ^ (a + b) + e * 2 ^ a + f) mod 2 ^ a = f"
proof -
  have eq: "s * 2 ^ (a + b) + e * 2 ^ a + f = (s * 2 ^ b + e) * 2 ^ a + f"
    by (simp add: power_add algebra_simps)
  have d: "((s * 2 ^ b + e) * 2 ^ a + f) div 2 ^ a = s * 2 ^ b + e" using assms(1) by simp
  show "(s * 2 ^ (a + b) + e * 2 ^ a + f) div 2 ^ a mod 2 ^ b = e"
    unfolding eq d using assms(2) by simp
  show "(s * 2 ^ (a + b) + e * 2 ^ a + f) mod 2 ^ a = f" unfolding eq using assms(1) by simp
  have "((s * 2 ^ b + e) * 2 ^ a + f) div (2 ^ a * 2 ^ b) = (s * 2 ^ b + e) div 2 ^ b"
    unfolding div_mult2_eq d ..
  then show "(s * 2 ^ (a + b) + e * 2 ^ a + f) div 2 ^ (a + b) = s"
    unfolding eq by (simp only: power_add) (use assms(2) in simp)
qed

lemma split_nat: "(n :: nat) = n div 2 ^ (a + b) * 2 ^ (a + b) + n div 2 ^ a mod 2 ^ b * 2 ^ a + n mod 2 ^ a"
proof -
  have "n = n div 2 ^ a * 2 ^ a + n mod 2 ^ a" by (rule div_mult_mod_eq [symmetric])
  also have "n div 2 ^ a * 2 ^ a = (n div 2 ^ a div 2 ^ b * 2 ^ b + n div 2 ^ a mod 2 ^ b) * 2 ^ a"
    by (simp only: div_mult_mod_eq)
  also have "\<dots> = n div 2 ^ a div 2 ^ b * (2 ^ a * 2 ^ b) + n div 2 ^ a mod 2 ^ b * 2 ^ a"
    by (simp only: algebra_simps)
  finally show ?thesis by (simp only: div_mult2_eq [symmetric] power_add)
qed

lemma compose64:
  assumes "s < 2" "e < 2048" "f < 2 ^ 52"
  defines "d \<equiv> of_nat (s * 2 ^ 63 + e * 2 ^ 52 + f) :: u64"
  shows "sign64 d = s" "expo64 d = e" "frac64 d = f"
proof -
  have "e * 2 ^ 52 + f < 2048 * 2 ^ 52"
  proof -
    have "e * 2 ^ 52 + f < (e + 1) * 2 ^ 52" using assms(3) by simp
    also have "\<dots> \<le> 2048 * 2 ^ 52" using assms(2) by (intro mult_le_mono) auto
    finally show ?thesis .
  qed
  then have "s * 2 ^ 63 + e * 2 ^ 52 + f < 2 ^ 64" using assms(1) by (cases "s = 0") auto
  then have u: "unat d = s * 2 ^ 63 + e * 2 ^ 52 + f" unfolding d_def by (rule unat_of_nat64)
  show "sign64 d = s" "expo64 d = e" "frac64 d = f"
    using fields_nat [of f 52 e 11 s] assms(2,3) by (simp_all add: sign64_def expo64_def frac64_def u)
qed

lemma compose32:
  assumes "s < 2" "e < 256" "f < 2 ^ 23"
  defines "x \<equiv> of_nat (s * 2 ^ 31 + e * 2 ^ 23 + f) :: u32"
  shows "sign32 x = s" "expo32 x = e" "frac32 x = f"
proof -
  have "e * 2 ^ 23 + f < 256 * 2 ^ 23"
  proof -
    have "e * 2 ^ 23 + f < (e + 1) * 2 ^ 23" using assms(3) by simp
    also have "\<dots> \<le> 256 * 2 ^ 23" using assms(2) by (intro mult_le_mono) auto
    finally show ?thesis .
  qed
  then have "s * 2 ^ 31 + e * 2 ^ 23 + f < 2 ^ 32" using assms(1) by (cases "s = 0") auto
  then have u: "unat x = s * 2 ^ 31 + e * 2 ^ 23 + f" unfolding x_def by (rule unat_of_nat32)
  show "sign32 x = s" "expo32 x = e" "frac32 x = f"
    using fields_nat [of f 23 e 8 s] assms(2,3) by (simp_all add: sign32_def expo32_def frac32_def u)
qed

lemma split64: "unat d = sign64 d * 2 ^ 63 + expo64 d * 2 ^ 52 + frac64 d"
  using split_nat [of "unat d" 52 11] by (simp add: sign64_def expo64_def frac64_def)

lemma split32: "unat f = sign32 f * 2 ^ 31 + expo32 f * 2 ^ 23 + frac32 f"
  using split_nat [of "unat f" 23 8] by (simp add: sign32_def expo32_def frac32_def)

lemma float_ext: "sign32 a = sign32 b \<Longrightarrow> expo32 a = expo32 b \<Longrightarrow> frac32 a = frac32 b \<Longrightarrow> a = b"
  using split32 [of a] split32 [of b] by (simp add: word_unat_eq_iff)

lemma double_ext: "sign64 a = sign64 b \<Longrightarrow> expo64 a = expo64 b \<Longrightarrow> frac64 a = frac64 b \<Longrightarrow> a = b"
  using split64 [of a] split64 [of b] by (simp add: word_unat_eq_iff)

lemma isfinite64_iff: "isfinite64 d \<longleftrightarrow> expo64 d \<noteq> 2047"
proof -
  have "isfinite64 d \<longleftrightarrow> unat (drop_bit 52 d AND mask 11) \<noteq> unat (mask 11 :: u64)"
    unfolding isfinite64_def masks64 by (simp only: word_unat_eq_iff)
  then show ?thesis unfolding unat_field expo64_def by (simp add: mask_eq_exp_minus_1)
qed

lemma isfinite32_iff: "isfinite32 f \<longleftrightarrow> expo32 f \<noteq> 255"
proof -
  have "isfinite32 f \<longleftrightarrow> unat (drop_bit 23 f AND mask 8) \<noteq> unat (mask 8 :: u32)"
    unfolding isfinite32_def masks32 by (simp only: word_unat_eq_iff)
  then show ?thesis unfolding unat_field expo32_def by (simp add: mask_eq_exp_minus_1)
qed

section \<open>Singles and doubles\<close>

lemma unat_sign:
  "unat (drop_bit 63 (d :: u64)) = sign64 d" "unat (drop_bit 31 (f :: u32)) = sign32 f"
  unfolding sign64_def sign32_def unat_drop_bit_eq by (simp_all add: drop_bit_eq_div)

lemma unat_expo:
  "unat (drop_bit 52 (d :: u64) AND 0x7ff) = expo64 d" "unat (drop_bit 23 (f :: u32) AND 0xff) = expo32 f"
  unfolding masks64 masks32 unat_field expo64_def expo32_def by simp_all

lemma unat_frac:
  "unat ((d :: u64) AND 0xfffffffffffff) = frac64 d" "unat ((f :: u32) AND 0x7fffff) = frac32 f"
  unfolding masks64 masks32 unat_low_field frac64_def frac32_def by simp_all

lemma leading_bit_bounds: "0 < n \<Longrightarrow> 2 ^ leading_bit n \<le> n \<and> n < 2 ^ Suc (leading_bit n)"
proof (induction n rule: leading_bit.induct)
  case (1 n)
  show ?case
  proof (cases "n < 2")
    case True
    with 1(2) show ?thesis by (simp add: leading_bit.simps [of n])
  next
    case False
    then have "2 ^ leading_bit (n div 2) \<le> n div 2 \<and> n div 2 < 2 ^ Suc (leading_bit (n div 2))"
      using 1(1) by simp
    then have "2 * 2 ^ leading_bit (n div 2) \<le> n \<and> n < 2 * 2 ^ Suc (leading_bit (n div 2))" by linarith
    with False show ?thesis by (simp add: leading_bit.simps [of n])
  qed
qed

lemma leading_bit_less:
  assumes "0 < n" and "n < 2 ^ k" shows "leading_bit n < k"
proof -
  from assms leading_bit_bounds [of n] have "(2 :: nat) ^ leading_bit n < 2 ^ k" by linarith
  then show ?thesis by simp
qed

definition widen_expo :: "u32 \<Rightarrow> nat" where
  "widen_expo f = (if expo32 f = 255 then 2047 else if expo32 f \<noteq> 0 then expo32 f + 896
     else if frac32 f = 0 then 0 else leading_bit (frac32 f) + 874)"

definition widen_frac :: "u32 \<Rightarrow> nat" where
  "widen_frac f = (if expo32 f = 255 then (if frac32 f = 0 then 0 else 2 ^ 51 + (frac32 f mod 2 ^ 22) * 2 ^ 29)
     else if expo32 f \<noteq> 0 then frac32 f * 2 ^ 29
     else if frac32 f = 0 then 0 else (frac32 f - 2 ^ leading_bit (frac32 f)) * 2 ^ (52 - leading_bit (frac32 f)))"

lemma widen_bounds: "widen_expo f < 2048" "widen_frac f < 2 ^ 52"
proof -
  have lead: "frac32 f \<noteq> 0 \<Longrightarrow> leading_bit (frac32 f) < 23"
    using leading_bit_less [of "frac32 f" 23] field32_bounds(3) [of f] by simp
  then show "widen_expo f < 2048"
    using field32_bounds(2) [of f] by (auto simp: widen_expo_def)
  have "(frac32 f - 2 ^ leading_bit (frac32 f)) * 2 ^ (52 - leading_bit (frac32 f)) < 2 ^ 52" if "frac32 f \<noteq> 0"
  proof -
    let ?k = "leading_bit (frac32 f)"
    have "frac32 f - 2 ^ ?k < 2 ^ ?k" using leading_bit_bounds [of "frac32 f"] that by auto
    then have "(frac32 f - 2 ^ ?k) * 2 ^ (52 - ?k) < 2 ^ ?k * 2 ^ (52 - ?k)" by simp
    also have "\<dots> = 2 ^ 52" using lead [OF that] by (simp add: power_add [symmetric])
    finally show ?thesis .
  qed
  moreover have "frac32 f * 2 ^ 29 < 2 ^ 52" using field32_bounds(3) [of f] by simp
  moreover have "2 ^ 51 + (frac32 f mod 2 ^ 22) * 2 ^ 29 < (2 ^ 52 :: nat)"
    using mod_less_divisor [of "2 ^ 22" "frac32 f"] by simp
  ultimately show "widen_frac f < 2 ^ 52" by (simp add: widen_frac_def)
qed

lemma widen_fields:
  "sign64 (static_cast_double f) = sign32 f"
  "expo64 (static_cast_double f) = widen_expo f"
  "frac64 (static_cast_double f) = widen_frac f"
proof -
  have "static_cast_double f = of_nat (sign32 f * 2 ^ 63 + widen_expo f * 2 ^ 52 + widen_frac f)"
    unfolding static_cast_double_def Let_def unat_sign unat_expo unat_frac widen_expo_def widen_frac_def
    by (simp add: add.assoc)
  then show "sign64 (static_cast_double f) = sign32 f" "expo64 (static_cast_double f) = widen_expo f"
    "frac64 (static_cast_double f) = widen_frac f"
    using compose64 [OF field32_bounds(1) widen_bounds, of f f f] by simp_all
qed

lemma isfinite_widen: "isfinite64 (static_cast_double f) \<longleftrightarrow> isfinite32 f"
proof -
  have "frac32 f \<noteq> 0 \<Longrightarrow> leading_bit (frac32 f) < 23"
    using leading_bit_less [of "frac32 f" 23] field32_bounds(3) [of f] by simp
  then show ?thesis
    using field32_bounds(2) [of f]
    by (fastforce simp: isfinite64_iff isfinite32_iff widen_fields widen_expo_def)
qed

definition narrow_magnitude :: "u64 \<Rightarrow> nat" where
  "narrow_magnitude d =
     (if expo64 d = 2047 then (if frac64 d = 0 then 0x7f800000 else 0x7fc00000 + (frac64 d div 2 ^ 29) mod 2 ^ 22)
      else min 0x7f800000 ((expo64 d - 897) * 2 ^ 23
        + round_nearest_even (if expo64 d = 0 then frac64 d else 2 ^ 52 + frac64 d) (29 + (897 - max (expo64 d) 1))))"

lemma narrow_fields:
  "sign32 (static_cast_float d) = sign64 d"
  "expo32 (static_cast_float d) = narrow_magnitude d div 2 ^ 23"
  "frac32 (static_cast_float d) = narrow_magnitude d mod 2 ^ 23"
proof -
  have le: "narrow_magnitude d < 2 ^ 31"
    using mod_less_divisor [of "2 ^ 22" "frac64 d div 2 ^ 29"] by (auto simp: narrow_magnitude_def)
  have "static_cast_float d = of_nat (sign64 d * 2 ^ 31 + narrow_magnitude d div 2 ^ 23 * 2 ^ 23 + narrow_magnitude d mod 2 ^ 23)"
    unfolding static_cast_float_def Let_def unat_sign unat_expo unat_frac narrow_magnitude_def [symmetric]
    by (simp only: add.assoc div_mult_mod_eq)
  then show "sign32 (static_cast_float d) = sign64 d"
  "expo32 (static_cast_float d) = narrow_magnitude d div 2 ^ 23"
  "frac32 (static_cast_float d) = narrow_magnitude d mod 2 ^ 23"
    using compose32 [OF field64_bounds(1), of "narrow_magnitude d div 2 ^ 23" "narrow_magnitude d mod 2 ^ 23" d] le
    by (simp_all add: less_mult_imp_div_less)
qed

lemma round_exact: "round_nearest_even (q * 2 ^ s) s = q"
  by (simp add: round_nearest_even_def)

lemma narrow_widen:
  assumes "isfinite32 f"
  shows "static_cast_float (static_cast_double f) = f"
proof -
  have fin: "expo32 f \<noteq> 255" using assms by (simp add: isfinite32_iff)
  have b: "expo32 f < 256" "frac32 f < 2 ^ 23" by (rule field32_bounds)+
  have mag: "narrow_magnitude (static_cast_double f) = expo32 f * 2 ^ 23 + frac32 f"
  proof (cases "expo32 f = 0")
    case False
    have "2 ^ 52 + frac32 f * 2 ^ 29 = (2 ^ 23 + frac32 f) * 2 ^ 29" by simp
    then have "round_nearest_even (2 ^ 52 + frac32 f * 2 ^ 29) 29 = 2 ^ 23 + frac32 f"
      using round_exact [of "2 ^ 23 + frac32 f" 29] by presburger
    moreover have "(expo32 f - 1) * 2 ^ 23 + (2 ^ 23 + frac32 f) = expo32 f * 2 ^ 23 + frac32 f"
      using False by (cases "expo32 f") simp_all
    moreover have "expo32 f * 2 ^ 23 + frac32 f \<le> 0x7f800000"
    proof -
      have "expo32 f * 2 ^ 23 \<le> 254 * 2 ^ 23" using fin b(1) by (intro mult_le_mono) auto
      with b(2) show ?thesis by simp
    qed
    ultimately show ?thesis
      using False fin b(1) by (simp add: narrow_magnitude_def widen_fields widen_expo_def widen_frac_def min_def)
  next
    case e: True
    show ?thesis
    proof (cases "frac32 f = 0")
      case True
      with e show ?thesis
        by (simp add: narrow_magnitude_def widen_fields widen_expo_def widen_frac_def round_nearest_even_def)
    next
      case False
      let ?k = "leading_bit (frac32 f)"
      have k: "?k < 23" "2 ^ ?k \<le> frac32 f"
        using leading_bit_less [of "frac32 f" 23] leading_bit_bounds [of "frac32 f"] False b(2) by auto
      have "(2 :: nat) ^ 52 = 2 ^ ?k * 2 ^ (52 - ?k)" using k(1) by (simp add: power_add [symmetric])
      then have "2 ^ 52 + (frac32 f - 2 ^ ?k) * 2 ^ (52 - ?k) = frac32 f * 2 ^ (52 - ?k)"
        using k(2) by (metis add_mult_distrib le_add_diff_inverse)
      then have "round_nearest_even (2 ^ 52 + (frac32 f - 2 ^ ?k) * 2 ^ (52 - ?k)) (52 - ?k) = frac32 f"
        by (simp only: round_exact)
      moreover have "29 + (897 - max (?k + 874) 1) = 52 - ?k" using k(1) by simp
      ultimately show ?thesis
        using e False k(1) b(2)
        by (simp add: narrow_magnitude_def widen_fields widen_expo_def widen_frac_def min_def)
    qed
  qed
  show ?thesis
    by (rule float_ext) (use b in \<open>simp_all add: narrow_fields mag widen_fields\<close>)
qed

section \<open>Halves\<close>

lemma or_add:
  fixes x y :: "'a::len word"
  assumes "2 ^ k dvd unat x" and "unat y < 2 ^ k"
  shows "x OR y = x + y"
proof (rule disjunctive_add_eq_or [symmetric])
  have x: "take_bit k x = 0"
    using assms(1) by (simp only: word_unat_eq_iff unsigned_take_bit_eq) (simp add: take_bit_eq_mod)
  have y: "take_bit k y = y"
    using assms(2) by (simp only: word_unat_eq_iff unsigned_take_bit_eq) (simp add: take_bit_eq_mod)
  show "x AND y = 0"
  proof (rule bit_eqI)
    fix n
    have "bit x n \<Longrightarrow> k \<le> n" using x by (metis bit_take_bit_iff bit_0_eq bot_apply not_le bot_bool_def)
    moreover have "bit y n \<Longrightarrow> n < k" using y by (metis bit_take_bit_iff)
    ultimately show "bit (x AND y) n = bit 0 n" by (auto simp: bit_and_iff)
  qed
qed

lemma or_of_nat32:
  assumes "2 ^ k dvd a" and "b < 2 ^ k" and "a < 2 ^ 32" and "b < 2 ^ 32"
  shows "(of_nat a :: u32) OR of_nat b = of_nat (a + b)"
  using or_add [of k "of_nat a :: u32" "of_nat b"] assms by (simp add: unat_of_nat32 del: of_nat_add) simp

definition sign16 :: "u16 \<Rightarrow> nat" where "sign16 h = unat h div 2 ^ 15"
definition expo16 :: "u16 \<Rightarrow> nat" where "expo16 h = unat h div 2 ^ 10 mod 2 ^ 5"
definition frac16 :: "u16 \<Rightarrow> nat" where "frac16 h = unat h mod 2 ^ 10"

lemma field16_bounds: "sign16 h < 2" "expo16 h < 32" "frac16 h < 2 ^ 10"
proof -
  have "unat h < 2 ^ LENGTH(16)" by (rule unsigned_less)
  then show "sign16 h < 2" by (simp add: sign16_def less_mult_imp_div_less)
qed (simp_all add: expo16_def frac16_def)

lemma split16: "unat h = sign16 h * 2 ^ 15 + expo16 h * 2 ^ 10 + frac16 h"
  using split_nat [of "unat h" 10 5] by (simp add: sign16_def expo16_def frac16_def)

lemma unat_and_bit:
  fixes w :: "'a::len word"
  assumes "m < LENGTH('a)"
  shows "unat (w AND push_bit m 1) = unat w div 2 ^ m mod 2 * 2 ^ m"
proof -
  have "w AND push_bit m 1 = push_bit m (take_bit 1 (drop_bit m w))"
    using bit_iff_odd_drop_bit [of w m] by (intro bit_word_eqI) (auto simp: bit_simps)
  moreover have "unat (take_bit 1 (drop_bit m w)) = unat w div 2 ^ m mod 2"
    unfolding unsigned_take_bit_eq unat_drop_bit_eq by (simp add: take_bit_eq_mod drop_bit_eq_div)
  moreover have "unat w div 2 ^ m mod 2 * 2 ^ m < 2 ^ LENGTH('a)"
  proof -
    have "unat w div 2 ^ m mod 2 * 2 ^ m \<le> 1 * 2 ^ m" by (intro mult_le_mono) auto
    also have "\<dots> < 2 ^ LENGTH('a)" using assms by simp
    finally show ?thesis .
  qed
  moreover have "unat (push_bit m t) = unat t * 2 ^ m" if "unat t * 2 ^ m < 2 ^ LENGTH('a)" for t :: "'a word"
    using that unfolding unsigned_push_bit_eq by (simp only: push_bit_eq_mult take_bit_nat_eq_self)
  ultimately show ?thesis by metis
qed

lemma sign_bit16: "unat (h AND 0x8000 :: u16) = sign16 h * 2 ^ 15"
  using unat_and_bit [of 15 h] field16_bounds(1) [of h] by (simp add: sign16_def)

lemma sign_bit32: "unat (drop_bit 16 f AND 0x8000 :: u32) = sign32 f * 2 ^ 15"
proof -
  have "unat (drop_bit 16 f) div 2 ^ 15 = sign32 f"
    unfolding unat_drop_bit_eq sign32_def by (simp add: drop_bit_eq_div div_mult2_eq [symmetric])
  then show ?thesis
    using unat_and_bit [of 15 "drop_bit 16 f"] field32_bounds(1) [of f] by simp
qed

lemma fields_of_nat32:
  "s < 2 \<Longrightarrow> e < 256 \<Longrightarrow> f < 2 ^ 23 \<Longrightarrow>
     of_nat (s * 2 ^ 31) OR of_nat (e * 2 ^ 23) OR of_nat f = (of_nat (s * 2 ^ 31 + e * 2 ^ 23 + f) :: u32)"
proof -
  assume b: "s < 2" "e < 256" "f < 2 ^ 23"
  have e: "e * 2 ^ 23 < 2 ^ 31" using b(2) by simp
  have s: "s * 2 ^ 31 \<le> 2 ^ 31" using b(1) by simp
  have a1: "(of_nat (s * 2 ^ 31) :: u32) OR of_nat (e * 2 ^ 23) = of_nat (s * 2 ^ 31 + e * 2 ^ 23)"
    using e s by (intro or_of_nat32 [of 31]) simp_all
  have a2: "(of_nat (s * 2 ^ 31 + e * 2 ^ 23) :: u32) OR of_nat f = of_nat (s * 2 ^ 31 + e * 2 ^ 23 + f)"
  proof (rule or_of_nat32 [of 23])
    have "s * 2 ^ 31 + e * 2 ^ 23 = 2 ^ 23 * (s * 2 ^ 8 + e)" by simp
    then show "2 ^ 23 dvd s * 2 ^ 31 + e * 2 ^ 23" by (simp only: dvd_triv_left)
  qed (use e s b in simp_all)
  show ?thesis unfolding or.assoc [symmetric] a1 a2 ..
qed

lemma push_of_nat32: "push_bit k (of_nat n :: u32) = of_nat (n * 2 ^ k)"
  by (simp add: push_bit_of_nat push_bit_eq_mult)

lemma half_parts:
  "push_bit 16 (ucast (h AND 0x8000) :: u32) = of_nat (sign16 h * 2 ^ 31)"
  "(ucast (drop_bit 10 h AND 0x1f) :: u32) = of_nat (expo16 h)"
  "(ucast (h AND 0x3ff :: u16) :: u32) = of_nat (frac16 h)"
proof -
  have u: "(ucast w :: u32) = of_nat (unat w)" for w :: u16
    by (simp add: word_unat_eq_iff unsigned_ucast_eq unat_of_nat)
  show "push_bit 16 (ucast (h AND 0x8000) :: u32) = of_nat (sign16 h * 2 ^ 31)"
    unfolding u sign_bit16 push_of_nat32 by simp
  show "(ucast (drop_bit 10 h AND 0x1f) :: u32) = of_nat (expo16 h)"
    unfolding u masks16 unat_field expo16_def ..
  show "(ucast (h AND 0x3ff :: u16) :: u32) = of_nat (frac16 h)"
    unfolding u masks16 unat_low_field frac16_def ..
qed

text \<open>The normalising loop shifts the leading bit to position ten.\<close>

lemma bit10: "x < 2 ^ 11 \<Longrightarrow> (of_nat x AND 0x400 = (0 :: u32)) \<longleftrightarrow> x < 2 ^ 10"
proof -
  assume x: "x < 2 ^ 11"
  have "unat (of_nat x AND 0x400 :: u32) = x div 2 ^ 10 mod 2 * 2 ^ 10"
    using unat_and_bit [of 10 "of_nat x :: u32"] x by (simp add: unat_of_nat32)
  moreover have "x div 2 ^ 10 < 2" using x by (simp add: less_mult_imp_div_less)
  ultimately have "unat (of_nat x AND 0x400 :: u32) = 0 \<longleftrightarrow> x div 2 ^ 10 = 0" by simp
  then show ?thesis by (simp add: unat_eq_0 div_eq_0_iff)
qed

lemma leading_bit_unique:
  assumes "2 ^ k \<le> x" and "x < 2 ^ Suc k" shows "leading_bit x = k"
proof -
  have pos: "0 < x" using assms(1) by (metis gr0I le_zero_eq power_not_zero zero_neq_numeral)
  have "leading_bit x < Suc k" using pos assms(2) by (rule leading_bit_less)
  moreover have "(2 :: nat) ^ k < 2 ^ Suc (leading_bit x)"
    using leading_bit_bounds [OF pos] assms(1) by linarith
  then have "k < Suc (leading_bit x)" by (rule power_less_imp_less_exp [rotated]) simp
  ultimately show ?thesis by simp
qed

lemma leading_bit_double: "0 < x \<Longrightarrow> leading_bit (2 * x) = Suc (leading_bit x)"
  by (simp add: leading_bit.simps [of "2 * x"])

lemma normalize_half_value:
  assumes "n \<le> 10" and "2 ^ (10 - n) \<le> x" and "x < 2 ^ 11"
  shows "normalize_half n (of_nat x) ex = (of_nat (x * 2 ^ (10 - leading_bit x)), ex - of_nat (10 - leading_bit x))"
  using assms
proof (induction n arbitrary: x ex)
  case 0
  then have "leading_bit x = 10" by (intro leading_bit_unique) simp_all
  then show ?case by simp
next
  case (Suc n)
  have pos: "0 < x" using Suc.prems(2) by (metis gr0I le_zero_eq power_not_zero zero_neq_numeral)
  show ?case
  proof (cases "x < 2 ^ 10")
    case False
    then have "leading_bit x = 10" using Suc.prems(3) by (intro leading_bit_unique) simp_all
    with False Suc.prems(3) show ?thesis by (simp add: bit10)
  next
    case True
    have l: "leading_bit x < 10" using leading_bit_less [OF pos True] .
    have "2 ^ (10 - n) \<le> 2 * x"
    proof -
      have "(2 :: nat) ^ (10 - n) = 2 * 2 ^ (10 - Suc n)" using Suc.prems(1) by (simp add: power_Suc [symmetric] Suc_diff_Suc del: power_Suc)
      with Suc.prems(2) show ?thesis by simp
    qed
    with Suc.IH [of "2 * x" "ex - 1"] Suc.prems True have
      "normalize_half n (of_nat (2 * x)) (ex - 1) =
        (of_nat (2 * x * 2 ^ (10 - leading_bit (2 * x))), ex - 1 - of_nat (10 - leading_bit (2 * x)))" by simp
    moreover obtain j where j: "10 - leading_bit x = Suc j" using l by (metis Suc_diff_Suc)
    moreover have "10 - leading_bit (2 * x) = j" using j by (simp add: leading_bit_double [OF pos])
    moreover have "push_bit 1 (of_nat x :: u32) = of_nat (2 * x)" using push_of_nat32 [of 1 x] by (simp add: mult.commute)
    ultimately show ?thesis using True Suc.prems(3) by (simp add: bit10 ac_simps diff_diff_eq)
  qed
qed

definition half_expo32 :: "u16 \<Rightarrow> nat" where
  "half_expo32 h = (if expo16 h = 31 then 255 else if expo16 h \<noteq> 0 then expo16 h + 112
     else if frac16 h = 0 then 0 else leading_bit (frac16 h) + 103)"

definition half_frac32 :: "u16 \<Rightarrow> nat" where
  "half_frac32 h = (if expo16 h \<noteq> 0 then frac16 h * 2 ^ 13
     else if frac16 h = 0 then 0 else (frac16 h * 2 ^ (10 - leading_bit (frac16 h)) - 2 ^ 10) * 2 ^ 13)"

lemma half_normalized:
  assumes "frac16 h \<noteq> 0"
  shows "leading_bit (frac16 h) < 10" "2 ^ 10 \<le> frac16 h * 2 ^ (10 - leading_bit (frac16 h))"
    "frac16 h * 2 ^ (10 - leading_bit (frac16 h)) < 2 ^ 11"
proof -
  let ?k = "leading_bit (frac16 h)"
  have pos: "0 < frac16 h" using assms by simp
  show k: "?k < 10" using leading_bit_less [OF pos field16_bounds(3)] .
  note b = leading_bit_bounds [OF pos]
  have "(2 :: nat) ^ 10 = 2 ^ ?k * 2 ^ (10 - ?k)" using k by (simp add: power_add [symmetric])
  also have "\<dots> \<le> frac16 h * 2 ^ (10 - ?k)" using b by simp
  finally show "2 ^ 10 \<le> frac16 h * 2 ^ (10 - ?k)" .
  have "frac16 h * 2 ^ (10 - ?k) < 2 ^ Suc ?k * 2 ^ (10 - ?k)" using b by simp
  also have "\<dots> = 2 ^ (Suc ?k + (10 - ?k))" by (simp only: power_add)
  also have "Suc ?k + (10 - ?k) = 11" using k by simp
  finally show "frac16 h * 2 ^ (10 - ?k) < 2 ^ 11" .
qed

lemma half_bounds: "half_expo32 h < 256" "half_frac32 h < 2 ^ 23"
proof -
  show "half_expo32 h < 256"
    using field16_bounds(2) [of h] half_normalized(1) [of h] by (auto simp: half_expo32_def)
  show "half_frac32 h < 2 ^ 23"
  proof (cases "expo16 h \<noteq> 0 \<or> frac16 h = 0")
    case True
    then show ?thesis using field16_bounds(3) [of h] by (auto simp: half_frac32_def)
  next
    case False
    have "frac16 h * 2 ^ (10 - leading_bit (frac16 h)) - 2 ^ 10 < 2 ^ 10"
      using half_normalized(2,3) [of h] False by (simp add: less_diff_conv2)
    then show ?thesis using False by (simp add: half_frac32_def)
  qed
qed

lemma half_to_float_bits:
  "half_to_float h = of_nat (sign16 h * 2 ^ 31 + half_expo32 h * 2 ^ 23 + half_frac32 h)"
proof -
  note fields = fields_of_nat32 [OF field16_bounds(1) half_bounds, of h h h]
  have e0: "(of_nat (expo16 h) :: u32) = 0 \<longleftrightarrow> expo16 h = 0"
    and e31: "(of_nat (expo16 h) :: u32) = 31 \<longleftrightarrow> expo16 h = 31"
    using field16_bounds(2) [of h] by (simp_all add: word_unat_eq_iff unat_of_nat32)
  have f0: "(of_nat (frac16 h) :: u32) = 0 \<longleftrightarrow> frac16 h = 0"
    using field16_bounds(3) [of h] by (simp add: word_unat_eq_iff unat_of_nat32)
  note def = half_to_float_def [of h] 
  show ?thesis
  proof (cases "expo16 h = 0")
    case e: True
    show ?thesis
    proof (cases "frac16 h = 0")
      case True
      with e show ?thesis unfolding half_to_float_def Let_def half_parts e0 f0
        by (simp add: half_expo32_def half_frac32_def)
    next
      case False
      let ?k = "leading_bit (frac16 h)"
      let ?x = "frac16 h * 2 ^ (10 - ?k)"
      have norm: "normalize_half 10 (of_nat (frac16 h)) 113 = (of_nat ?x, 113 - of_nat (10 - ?k))"
        using False field16_bounds(3) [of h] by (intro normalize_half_value) simp_all
      have ex: "(113 - of_nat (10 - ?k) :: u32) = of_nat (half_expo32 h)"
      proof -
        have "(113 :: nat) = half_expo32 h + (10 - ?k)"
          using half_normalized(1) [OF False] e False by (simp add: half_expo32_def)
        then have "(of_nat 113 :: u32) = of_nat (half_expo32 h) + of_nat (10 - ?k)" by (metis of_nat_add)
        then show ?thesis by (metis add_diff_cancel_right' of_nat_numeral)
      qed
      have fr: "(of_nat ?x AND 0x3ff :: u32) = of_nat (?x - 2 ^ 10)"
      proof -
        have "unat (of_nat ?x AND 0x3ff :: u32) = ?x mod 2 ^ 10"
          unfolding masks32 unat_low_field using half_normalized(3) [OF False]
          by (subst unat_of_nat32) simp_all
        also have "\<dots> = ?x - 2 ^ 10"
          using half_normalized(2,3) [OF False] by (simp add: mod_if)
        finally show ?thesis
          using half_normalized(3) [OF False] by (subst word_unat_eq_iff, subst unat_of_nat32) simp_all
      qed
      have "half_to_float h = of_nat (sign16 h * 2 ^ 31) OR push_bit 23 (of_nat (half_expo32 h))
          OR push_bit 13 (of_nat (?x - 2 ^ 10))"
        unfolding half_to_float_def Let_def half_parts e0 f0 norm
        by (simp only: e False prod.case ex fr if_True if_False simp_thms)
      also have "\<dots> = of_nat (sign16 h * 2 ^ 31) OR of_nat (half_expo32 h * 2 ^ 23) OR of_nat (half_frac32 h)"
        unfolding push_of_nat32 using e False by (simp only: half_frac32_def if_False simp_thms if_True)
      finally show ?thesis unfolding fields .
    qed
  next
    case e: False
    have "half_to_float h = of_nat (sign16 h * 2 ^ 31) OR of_nat (half_expo32 h * 2 ^ 23) OR of_nat (half_frac32 h)"
    proof (cases "expo16 h = 31")
      case True
      have "(0x7f800000 :: u32) = of_nat (half_expo32 h * 2 ^ 23)" using True by (simp add: half_expo32_def)
      then show ?thesis unfolding half_to_float_def Let_def half_parts e0 e31 push_of_nat32
        using True e by (simp add: half_frac32_def)
    next
      case False
      have "push_bit 23 (of_nat (expo16 h) + 112) = (of_nat (half_expo32 h * 2 ^ 23) :: u32)"
        using push_of_nat32 [of 23 "expo16 h + 112"] e False by (simp add: half_expo32_def)
      then show ?thesis unfolding half_to_float_def Let_def half_parts e0 e31
        using push_of_nat32 [of 13 "frac16 h"] e False by (simp add: half_frac32_def)
    qed
    then show ?thesis unfolding fields .
  qed
qed

lemma half_to_float_fields:
  "sign32 (half_to_float h) = sign16 h" "expo32 (half_to_float h) = half_expo32 h"
  "frac32 (half_to_float h) = half_frac32 h"
  unfolding half_to_float_bits by (rule compose32 [OF field16_bounds(1) half_bounds])+

lemma isfinite_half: "isfinite32 (half_to_float h) \<longleftrightarrow> expo16 h \<noteq> 31"
  using half_normalized(1) [of h] field16_bounds(2) [of h]
  by (auto simp: isfinite32_iff half_to_float_fields half_expo32_def)

text \<open>Conversion to half of the singles that a half stands for.\<close>

lemma or_of_nat_ucast16:
  "s < 2 \<Longrightarrow> m < 2 ^ 15 \<Longrightarrow> (ucast (of_nat (s * 2 ^ 15) OR of_nat m :: u32) :: u16) = of_nat (s * 2 ^ 15 + m)"
proof -
  assume b: "s < 2" "m < 2 ^ 15"
  have "(of_nat (s * 2 ^ 15) OR of_nat m :: u32) = of_nat (s * 2 ^ 15 + m)"
    using b by (intro or_of_nat32 [of 15]) simp_all
  moreover have "(ucast (of_nat n :: u32) :: u16) = of_nat n" for n
    by (simp add: word_unat_eq_iff unsigned_ucast_eq unat_of_nat take_bit_eq_mod mod_mod_cancel)
  ultimately show ?thesis by metis
qed

lemma of_nat_unat_word: "of_nat (unat w) = (w :: 'a::len word)"
  by simp

lemma float_parts:
  "(drop_bit 16 f AND 0x8000 :: u32) = of_nat (sign32 f * 2 ^ 15)"
  "uint (drop_bit 23 f AND 0xff :: u32) = int (expo32 f)"
  "(drop_bit 23 f AND 0xff = (0xff :: u32)) \<longleftrightarrow> expo32 f = 255"
  "(f AND 0x7fffff :: u32) = of_nat (frac32 f)"
proof -
  show "(drop_bit 16 f AND 0x8000 :: u32) = of_nat (sign32 f * 2 ^ 15)"
    using sign_bit32 [of f] by (metis of_nat_unat_word)
  show "uint (drop_bit 23 f AND 0xff :: u32) = int (expo32 f)"
    using unat_expo(2) [of f] by (metis uint_nat)
  show "(drop_bit 23 f AND 0xff = (0xff :: u32)) \<longleftrightarrow> expo32 f = 255"
    using unat_expo(2) [of f] by (simp add: word_unat_eq_iff)
  show "(f AND 0x7fffff :: u32) = of_nat (frac32 f)"
    using unat_frac(2) [of f] by (metis of_nat_unat_word)
qed

lemma drop_of_nat32: "n < 2 ^ 32 \<Longrightarrow> drop_bit k (of_nat n :: u32) = of_nat (n div 2 ^ k)"
proof -
  assume n: "n < 2 ^ 32"
  have "n div 2 ^ k \<le> n" by (rule div_le_dividend)
  with n have "n div 2 ^ k < 2 ^ 32" by linarith
  with n show ?thesis
    unfolding word_unat_eq_iff unat_drop_bit_eq by (simp only: unat_of_nat32 drop_bit_eq_div)
qed

lemma half_of_normal:
  assumes "sign32 f = s" "expo32 f = e + 112" "0 < e" "e < 31" "frac32 f = fr * 2 ^ 13" "fr < 2 ^ 10"
  shows "float_to_half f = of_nat (s * 2 ^ 15 + e * 2 ^ 10 + fr)"
proof -
  have he: "uint (drop_bit 23 f AND 0xff) - 127 + 15 = int e" by (simp add: float_parts assms(2))
  have round: "drop_bit 13 ((f AND 0x7fffff) + 0x1000) = (of_nat fr :: u32)"
  proof -
    have "(f AND 0x7fffff) + 0x1000 = (of_nat (fr * 2 ^ 13 + 0x1000) :: u32)"
      by (simp add: float_parts(4) assms(5))
    then show ?thesis using assms(6) drop_of_nat32 [of "fr * 2 ^ 13 + 0x1000" 13] by simp
  qed
  have "push_bit 10 (word_of_int (int e)) OR of_nat fr = (of_nat (e * 2 ^ 10 + fr) :: u32)"
    using or_of_nat32 [of 10 "e * 2 ^ 10" fr] push_of_nat32 [of 10 e] assms by simp
  moreover have "e * 2 ^ 10 + fr < 2 ^ 15"
  proof -
    have "e * 2 ^ 10 \<le> 30 * 2 ^ 10" using assms(4) by (intro mult_le_mono) auto
    with assms(6) show ?thesis by simp
  qed
  moreover have "s < 2" using field32_bounds(1) [of f] assms(1) by simp
  ultimately have "ucast ((drop_bit 16 f AND 0x8000) OR push_bit 10 (word_of_int (int e)) OR of_nat fr :: u32)
      = (of_nat (s * 2 ^ 15 + (e * 2 ^ 10 + fr)) :: u16)"
    unfolding float_parts(1) assms(1) using or_of_nat_ucast16 by presburger
  moreover have "float_to_half f = ucast ((drop_bit 16 f AND 0x8000) OR push_bit 10 (word_of_int (int e)) OR of_nat fr :: u32)"
    unfolding float_to_half_def Let_def he round float_parts(3) assms(2) using assms(3,4) by simp
  ultimately show ?thesis by (simp add: add.assoc)
qed

lemma half_of_subnormal:
  assumes "sign32 f = s" "expo32 f = k + 103" "k < 10" "frac32 f + 2 ^ 23 = x * 2 ^ 13 * 2 ^ (10 - k)" "x < 2 ^ 10"
  shows "float_to_half f = of_nat (s * 2 ^ 15 + x)"
proof -
  have he: "uint (drop_bit 23 f AND 0xff) - 127 + 15 = int k - 9" by (simp add: float_parts assms(2))
  have shift: "nat (1 - (int k - 9)) = 10 - k" using assms(3) by simp
  have fr: "frac32 f < 2 ^ 23" by (rule field32_bounds)
  have or: "(f AND 0x7fffff) OR 0x800000 = (of_nat (frac32 f + 2 ^ 23) :: u32)"
    using or_of_nat32 [of 23 "2 ^ 23" "frac32 f"] fr
    by (simp add: float_parts(4) or.commute add.commute)
  have "frac32 f + 2 ^ 23 < 2 ^ 32" using fr by simp
  from drop_of_nat32 [OF this, of "10 - k"]
  have "drop_bit (10 - k) (of_nat (frac32 f + 2 ^ 23) :: u32) = of_nat (x * 2 ^ 13)"
    unfolding assms(4) by (simp only: nonzero_mult_div_cancel_right power_not_zero zero_neq_numeral [symmetric] not_False_eq_True)
  moreover have "drop_bit 13 (of_nat (x * 2 ^ 13) + 0x1000) = (of_nat x :: u32)"
    using drop_of_nat32 [of "x * 2 ^ 13 + 0x1000" 13] assms(5) by simp
  ultimately have round: "drop_bit 13 (drop_bit (10 - k) ((f AND 0x7fffff) OR 0x800000) + 0x1000) = (of_nat x :: u32)"
    unfolding or by simp
  have "s < 2" using field32_bounds(1) [of f] assms(1) by simp
  then have "ucast (of_nat (s * 2 ^ 15) OR of_nat x :: u32) = (of_nat (s * 2 ^ 15 + x) :: u16)"
    using assms(5) by (intro or_of_nat_ucast16) simp_all
  moreover have "float_to_half f = ucast (of_nat (s * 2 ^ 15) OR of_nat x :: u32)"
    unfolding float_to_half_def Let_def he shift round float_parts(1,3) assms(1,2) using assms(3) by simp
  ultimately show ?thesis by simp
qed

lemma half_of_zero:
  assumes "expo32 f = 0"
  shows "float_to_half f = of_nat (sign32 f * 2 ^ 15)"
proof -
  have he: "uint (drop_bit 23 f AND 0xff) - 127 + 15 = - 112" by (simp add: float_parts assms)
  have "float_to_half f = ucast (of_nat (sign32 f * 2 ^ 15) :: u32)"
    unfolding float_to_half_def Let_def he float_parts(1,3) assms by simp
  then show ?thesis using or_of_nat_ucast16 [of "sign32 f" 0] field32_bounds(1) [of f] by simp
qed

lemma half_of_half:
  assumes "expo16 h \<noteq> 31"
  shows "float_to_half (half_to_float h) = h"
proof -
  let ?f = "half_to_float h"
  have sf: "sign32 ?f = sign16 h" by (rule half_to_float_fields)
  have "float_to_half ?f = of_nat (sign16 h * 2 ^ 15 + expo16 h * 2 ^ 10 + frac16 h)"
  proof (cases "expo16 h = 0")
    case False
    then show ?thesis using assms field16_bounds [of h]
      by (intro half_of_normal [OF sf]) (simp_all add: half_to_float_fields half_expo32_def half_frac32_def)
  next
    case e: True
    show ?thesis
    proof (cases "frac16 h = 0")
      case True
      then show ?thesis using half_of_zero [of ?f] e sf
        by (simp add: half_to_float_fields half_expo32_def)
    next
      case False
      let ?k = "leading_bit (frac16 h)"
      note n = half_normalized [OF False]
      have "half_frac32 h + 2 ^ 23 = frac16 h * 2 ^ 13 * 2 ^ (10 - ?k)"
      proof -
        have "(frac16 h * 2 ^ (10 - ?k) - 2 ^ 10) * 2 ^ 13 + 2 ^ 10 * 2 ^ 13 = frac16 h * 2 ^ (10 - ?k) * 2 ^ 13"
          using n(2) by (metis add_mult_distrib le_add_diff_inverse2)
        then show ?thesis using e False by (simp add: half_frac32_def)
      qed
      then have "float_to_half ?f = of_nat (sign16 h * 2 ^ 15 + frac16 h)"
        using n(1) field16_bounds(3) [of h] e False
        by (intro half_of_subnormal [OF sf, of ?k]) (simp_all add: half_to_float_fields half_expo32_def)
      with e show ?thesis by simp
    qed
  qed
  then show ?thesis unfolding split16 [symmetric] by simp
qed

section \<open>Canonical numbers\<close>

lemma isnan_finite: "isfinite32 f \<Longrightarrow> \<not> isnan32 f" "isfinite64 d \<Longrightarrow> \<not> isnan64 d"
  by (simp_all add: isnan32_def isnan64_def)

lemma zero32: "f AND 0x7fffffff = (0 :: u32) \<longleftrightarrow> expo32 f = 0 \<and> frac32 f = 0"
proof -
  have "f AND 0x7fffffff = (0 :: u32) \<longleftrightarrow> unat f mod 2 ^ 31 = 0"
    using unat_low_field [of f 31] unfolding masks32 by (metis unat_eq_0)
  also have "unat f mod 2 ^ 31 = expo32 f * 2 ^ 23 + frac32 f"
  proof -
    have "expo32 f * 2 ^ 23 \<le> 255 * 2 ^ 23" using field32_bounds(2) [of f] by (intro mult_le_mono) auto
    then have "expo32 f * 2 ^ 23 + frac32 f < 2 ^ 31" using field32_bounds(3) [of f] by simp
    then show ?thesis by (simp add: split32 [of f] add.assoc)
  qed
  finally show ?thesis by simp
qed

lemma zero64: "d AND 0x7fffffffffffffff = (0 :: u64) \<longleftrightarrow> expo64 d = 0 \<and> frac64 d = 0"
proof -
  have "d AND 0x7fffffffffffffff = (0 :: u64) \<longleftrightarrow> unat d mod 2 ^ 63 = 0"
    using unat_low_field [of d 63] unfolding masks64 by (metis unat_eq_0)
  also have "unat d mod 2 ^ 63 = expo64 d * 2 ^ 52 + frac64 d"
  proof -
    have "expo64 d * 2 ^ 52 \<le> 2047 * 2 ^ 52" using field64_bounds(2) [of d] by (intro mult_le_mono) auto
    then have "expo64 d * 2 ^ 52 + frac64 d < 2 ^ 63" using field64_bounds(3) [of d] by simp
    then show ?thesis by (simp add: split64 [of d] add.assoc)
  qed
  finally show ?thesis by simp
qed

lemma float_eq_same_sign: "sign32 a = sign32 b \<Longrightarrow> float_eq a b \<longleftrightarrow> a = b \<and> \<not> isnan32 a"
  by (auto simp: float_eq_def zero32 intro: float_ext)

lemma double_eq_same_sign: "sign64 a = sign64 b \<Longrightarrow> double_eq a b \<longleftrightarrow> a = b \<and> \<not> isnan64 a"
  by (auto simp: double_eq_def zero64 intro: double_ext)

lemma double_eq_refl: "isfinite64 d \<Longrightarrow> double_eq d d"
  by (simp add: double_eq_def isnan_finite)

lemma double_eq_narrow:
  assumes "isfinite64 d"
  shows "double_eq (static_cast_double (static_cast_float d)) d \<longleftrightarrow> static_cast_double (static_cast_float d) = d"
  using assms by (auto simp: double_eq_same_sign widen_fields narrow_fields isnan_finite)

text \<open>The three outcomes of \<open>canonical_float_encoding\<close>, as the reader sees them.\<close>

lemma canonical_half:
  "canonical_float_encoding d = Inr (Half, bits) \<longleftrightarrow>
     (\<exists>h. bits = unat h \<and> expo16 h \<noteq> 31 \<and> d = static_cast_double (half_to_float h))"
proof
  assume "canonical_float_encoding d = Inr (Half, bits)"
  then have fin: "isfinite64 d" and w: "static_cast_double (static_cast_float d) = d"
    and b: "bits = unat (float_to_half (static_cast_float d))"
    and eq: "float_eq (half_to_float (float_to_half (static_cast_float d))) (static_cast_float d)"
    by (auto simp: canonical_float_encoding_def Let_def double_eq_narrow split: if_splits)
  let ?h = "float_to_half (static_cast_float d)"
  have finf: "isfinite32 (static_cast_float d)" using fin w isfinite_widen by metis
  have "half_to_float ?h = static_cast_float d"
  proof (cases "expo32 (static_cast_float d) = 0 \<and> frac32 (static_cast_float d) = 0")
    case True
    then have "?h = of_nat (sign32 (static_cast_float d) * 2 ^ 15)" by (simp add: half_of_zero)
    moreover have "sign16 (of_nat (s * 2 ^ 15)) = s \<and> expo16 (of_nat (s * 2 ^ 15)) = 0 \<and>
        frac16 (of_nat (s * 2 ^ 15)) = 0" if "s < 2" for s
      using that by (simp add: sign16_def expo16_def frac16_def unat_of_nat16 del: of_nat_mult of_nat_numeral) 
    ultimately have "sign16 ?h = sign32 (static_cast_float d)" using field32_bounds(1) by metis
    with eq show ?thesis by (simp add: float_eq_same_sign half_to_float_fields)
  next
    case False
    with eq show ?thesis by (auto simp: float_eq_def zero32)
  qed
  moreover from this have "expo16 ?h \<noteq> 31" using finf isfinite_half by metis
  ultimately show "\<exists>h. bits = unat h \<and> expo16 h \<noteq> 31 \<and> d = static_cast_double (half_to_float h)"
    using b w by metis
next
  assume "\<exists>h. bits = unat h \<and> expo16 h \<noteq> 31 \<and> d = static_cast_double (half_to_float h)"
  then obtain h where h: "bits = unat h" "expo16 h \<noteq> 31" "d = static_cast_double (half_to_float h)" by blast
  have fin: "isfinite32 (half_to_float h)" using h(2) isfinite_half by blast
  then have "isfinite64 d" using h(3) isfinite_widen by simp
  moreover have "static_cast_float d = half_to_float h" using narrow_widen [OF fin] h(3) by simp
  ultimately show "canonical_float_encoding d = Inr (Half, bits)"
    using h fin half_of_half [OF h(2)]
    by (simp add: canonical_float_encoding_def Let_def double_eq_refl float_eq_def isnan_finite)
qed

lemma canonical_single:
  "canonical_float_encoding d = Inr (Single, bits) \<longleftrightarrow>
     (\<exists>f. bits = unat f \<and> isfinite32 f \<and> \<not> float_eq (half_to_float (float_to_half f)) f \<and>
       d = static_cast_double f)"
proof
  assume "canonical_float_encoding d = Inr (Single, bits)"
  then have "isfinite64 d" "static_cast_double (static_cast_float d) = d" "bits = unat (static_cast_float d)"
    "\<not> float_eq (half_to_float (float_to_half (static_cast_float d))) (static_cast_float d)"
    by (auto simp: canonical_float_encoding_def Let_def double_eq_narrow split: if_splits)
  then show "\<exists>f. bits = unat f \<and> isfinite32 f \<and> \<not> float_eq (half_to_float (float_to_half f)) f \<and>
       d = static_cast_double f"
    using isfinite_widen by metis
next
  assume "\<exists>f. bits = unat f \<and> isfinite32 f \<and> \<not> float_eq (half_to_float (float_to_half f)) f \<and>
       d = static_cast_double f"
  then obtain f where f: "bits = unat f" "isfinite32 f"
    "\<not> float_eq (half_to_float (float_to_half f)) f" "d = static_cast_double f" by blast
  then have "isfinite64 d" "static_cast_float d = f" using isfinite_widen narrow_widen by simp_all
  with f show "canonical_float_encoding d = Inr (Single, bits)"
    by (simp add: canonical_float_encoding_def Let_def double_eq_refl)
qed

lemma canonical_double:
  "canonical_float_encoding d = Inr (Double, bits) \<longleftrightarrow>
     bits = unat d \<and> isfinite64 d \<and> \<not> double_eq (static_cast_double (static_cast_float d)) d"
  by (auto simp: canonical_float_encoding_def Let_def)

lemma canonical_finite: "isfinite64 d \<longleftrightarrow> (\<exists>e. canonical_float_encoding d = Inr e)"
  by (auto simp: canonical_float_encoding_def Let_def)

end
