(* ===== verification/Cbor_Decode.thy ===== *)
theory Cbor_Decode
  imports Cbor_Reader Cbor_Spec Cbor_Float
begin

text \<open>
  The decoder implements the abstract wire format: when no allocation policy interferes, a value is
  read exactly when its canonical bytes come next and it is within the budget. \<open>takes\<close> is the abstract
  step of a reader over the concatenation of its two segments, so none of the results depends on
  where the input is split.
\<close>

section \<open>Consuming bytes\<close>

definition rest :: "reader_env \<Rightarrow> reader \<Rightarrow> byte list" where
  "rest E r = drop (rd_offset r) (seg_bytes (env_input E))"

definition advance_by :: "reader \<Rightarrow> nat \<Rightarrow> reader" where
  "advance_by r n = r\<lparr>rd_offset := rd_offset r + n\<rparr>"

definition takes :: "reader_env \<Rightarrow> reader \<Rightarrow> byte list \<Rightarrow> reader \<Rightarrow> bool" where
  "takes E r bs r' \<longleftrightarrow> take (length bs) (rest E r) = bs \<and> r' = advance_by r (length bs)"

lemma rest_advance: "rest E (advance_by r n) = drop n (rest E r)"
  by (simp add: rest_def advance_by_def add.commute)

lemma advance_by_add: "advance_by (advance_by r m) n = advance_by r (m + n)"
  by (simp add: advance_by_def add.assoc)

lemma takes_nil [simp]: "takes E r [] r' \<longleftrightarrow> r' = r"
  by (auto simp: takes_def advance_by_def)

lemma takes_append: "takes E r (as @ bs) r'' \<longleftrightarrow> (\<exists>r'. takes E r as r' \<and> takes E r' bs r'')"
proof -
  have "take (length (as @ bs)) (rest E r) = as @ bs \<longleftrightarrow>
      take (length as) (rest E r) = as \<and> take (length bs) (drop (length as) (rest E r)) = bs"
    (is "?X = _ \<longleftrightarrow> _")
  proof
    assume eq: "?X = as @ bs"
    have "take (length as) (rest E r) = take (length as) ?X" by simp
    then have "take (length as) (rest E r) = as" unfolding eq by simp
    moreover have "take (length bs) (drop (length as) (rest E r)) = drop (length as) ?X" by (simp add: drop_take)
    then have "take (length bs) (drop (length as) (rest E r)) = bs" unfolding eq by simp
    ultimately show "take (length as) (rest E r) = as \<and> take (length bs) (drop (length as) (rest E r)) = bs" ..
  qed (simp add: take_add)
  then show ?thesis by (auto simp: takes_def rest_advance advance_by_add)
qed

lemma takes_Cons: "takes E r (b # bs) r'' \<longleftrightarrow> (\<exists>r'. takes E r [b] r' \<and> takes E r' bs r'')"
  using takes_append [of E r "[b]" bs] by simp

text \<open>What the operations below rely on: the input fits its limit, and no policy refuses it.\<close>

definition plain :: "reader_env \<Rightarrow> bool" where
  "plain E \<longleftrightarrow> allows (env_limits E) = None \<and> seg_size (env_input E) \<le> max_bytes (env_limits E) \<and>
     max_bytes (env_limits E) \<le> size_max \<and> max_items (env_limits E) \<le> size_max"

lemma peek_byte_Inr: "peek_byte E r = Inr b \<longleftrightarrow> take 1 (rest E r) = [b]"
proof -
  let ?I = "seg_bytes (env_input E)"
  have nth: "rd_offset r < seg_size (env_input E) \<Longrightarrow>
    (if rd_offset r < length (seg_first (env_input E)) then seg_first (env_input E) ! rd_offset r
     else seg_second (env_input E) ! (rd_offset r - length (seg_first (env_input E)))) = ?I ! rd_offset r"
    by (simp add: seg_bytes_def nth_append)
  have "take 1 (rest E r) = [b] \<longleftrightarrow> rd_offset r < length ?I \<and> ?I ! rd_offset r = b"
    by (cases "rd_offset r < length ?I") (auto simp: rest_def Cons_nth_drop_Suc [symmetric])
  then show ?thesis using nth by (auto simp: peek_byte_def Let_def)
qed

lemma read_byte_Inr: "read_byte E r = Inr (b, r') \<longleftrightarrow> takes E r [b] r'"
  by (auto simp: read_byte_def bindr_Inr_iff peek_byte_Inr takes_def advance_by_def)

lemma big_endian_Inr:
  assumes "(a + 1) * 256 ^ n \<le> 2 ^ 64"
  shows "big_endian E n a r = Inr (v, r') \<longleftrightarrow>
    (\<exists>bs. length bs = n \<and> takes E r bs r' \<and> v = a * 256 ^ n + be_value bs)"
  using assms
proof (induction n arbitrary: a r)
  case 0
  then show ?case by auto
next
  case (Suc n)
  have small: "wrap64 (a * 256) = a * 256"
  proof -
    have "256 ^ 1 \<le> (256 :: nat) ^ Suc n" by (rule power_increasing) simp_all
    then have "(a + 1) * 256 \<le> (a + 1) * 256 ^ Suc n" by (intro mult_le_mono2) simp
    with Suc.prems have "(a + 1) * 256 \<le> 2 ^ 64" by linarith
    then have "a * 256 < 18446744073709551616" by simp
    then show ?thesis by (rule mod_less)
  qed
  have "big_endian E (Suc n) a r = Inr (v, r') \<longleftrightarrow>
      (\<exists>b r1. takes E r [b] r1 \<and> big_endian E n (a * 256 + unat b) r1 = Inr (v, r'))"
    by (auto simp: bindr_Inr_iff read_byte_Inr small)
  also have "\<dots> \<longleftrightarrow> (\<exists>b r1 bs. takes E r [b] r1 \<and> length bs = n \<and> takes E r1 bs r' \<and>
      v = (a * 256 + unat b) * 256 ^ n + be_value bs)"
  proof -
    have "(a * 256 + unat b + 1) * 256 ^ n \<le> 2 ^ 64" for b :: byte
    proof -
      have "a * 256 + unat b + 1 \<le> (a + 1) * 256"
        unfolding add_mult_distrib using unat_byte_less [of b] by linarith
      then have "(a * 256 + unat b + 1) * 256 ^ n \<le> (a + 1) * 256 * 256 ^ n" by (rule mult_le_mono1)
      also have "\<dots> = (a + 1) * 256 ^ Suc n" by (simp only: power_Suc mult.assoc)
      also note Suc.prems
      finally show ?thesis .
    qed
    then show ?thesis using Suc.IH by blast
  qed
  also have "\<dots> \<longleftrightarrow> (\<exists>bs. length bs = Suc n \<and> takes E r bs r' \<and> v = a * 256 ^ Suc n + be_value bs)"
    (is "?L \<longleftrightarrow> ?R")
  proof
    assume ?L
    then obtain b r1 bs where "takes E r [b] r1" "length bs = n" "takes E r1 bs r'"
      "v = (a * 256 + unat b) * 256 ^ n + be_value bs" by blast
    then have "length (b # bs) = Suc n \<and> takes E r (b # bs) r' \<and> v = a * 256 ^ Suc n + be_value (b # bs)"
      by (auto simp: takes_Cons [of E r b bs] algebra_simps)
    then show ?R by blast
  next
    assume ?R
    then obtain bs' where bs': "length bs' = Suc n" "takes E r bs' r'" "v = a * 256 ^ Suc n + be_value bs'" by blast
    then obtain b bs where "bs' = b # bs" by (cases bs') auto
    with bs' show ?L by (auto simp: takes_Cons [of E r b bs] algebra_simps)
  qed
  finally show ?case .
qed

lemma big_endian_word:
  assumes "n \<le> 8"
  shows "big_endian E n 0 r = Inr (v, r') \<longleftrightarrow> v < 256 ^ n \<and> takes E r (be_bytes n v) r'"
proof -
  have "(0 + 1) * 256 ^ n \<le> (2 ^ 64 :: nat)"
    using power_increasing [OF assms, of "256 :: nat"] by simp
  from big_endian_Inr [OF this] show ?thesis
    using be_value_less be_bytes_be_value be_value_be_bytes [of n v]
    by (metis add_0 length_be_bytes mod_less mult_zero_left)
qed

section \<open>Heads\<close>

definition head_info :: "nat \<Rightarrow> nat" where
  "head_info v = (if head_size v = 1 then v else additional_info_for_head_size (head_size v))"

lemma head_size_cases:
  obtains "head_size v = 1" "v < 24" | "head_size v = 2" "24 \<le> v" "v < 256"
  | "head_size v = 3" "256 \<le> v" "v < 65536" | "head_size v = 5" "65536 \<le> v" "v < 4294967296"
  | "head_size v = 9" "4294967296 \<le> v"
proof -
  consider "v < 24" | "24 \<le> v" "v < 256" | "256 \<le> v" "v < 65536" | "65536 \<le> v" "v < 4294967296"
    | "4294967296 \<le> v" by linarith
  then show ?thesis by cases (use that in \<open>auto simp: head_size_def\<close>)
qed

lemma argument_Inr:
  "argument E additional r = Inr (v, r') \<longleftrightarrow>
     v < 2 ^ 64 \<and> head_info v = additional \<and> takes E r (be_bytes (head_size v - 1) v) r'"
proof (cases "additional < 24")
  case True
  then show ?thesis
    by (cases v rule: head_size_cases)
      (auto simp: argument_def head_info_def additional_info_for_head_size_def)
next
  case False
  show ?thesis
  proof (cases "additional \<in> {24, 25, 26, 27}")
    case True
    let ?n = "argument_bytes additional"
    have n: "?n \<le> 8" "?n \<noteq> 0" "additional \<noteq> 31" using True by (auto simp: argument_bytes_def)
    have "argument E additional r = Inr (v, r') \<longleftrightarrow>
        big_endian E ?n 0 r = Inr (v, r') \<and> head_size v = ?n + 1"
      using False n by (auto simp: argument_def Let_def bindr_Inr_iff split: if_splits)
    also have "\<dots> \<longleftrightarrow> v < 256 ^ ?n \<and> takes E r (be_bytes ?n v) r' \<and> head_size v = ?n + 1"
      using big_endian_word [OF n(1)] by auto
    also have "\<dots> \<longleftrightarrow> v < 2 ^ 64 \<and> head_info v = additional \<and> takes E r (be_bytes (head_size v - 1) v) r'"
      using True
      by (cases v rule: head_size_cases)
        (auto simp: argument_bytes_def head_info_def additional_info_for_head_size_def)
    finally show ?thesis .
  next
    case False
    have "head_info v < 24 \<or> head_info v \<in> {24, 25, 26, 27}"
      by (cases v rule: head_size_cases)
        (auto simp: head_info_def additional_info_for_head_size_def)
    with False \<open>\<not> additional < 24\<close> show ?thesis
      by (auto simp: argument_def argument_bytes_def)
  qed
qed

lemma head_info_less: "head_info v < 32"
  by (cases v rule: head_size_cases) (auto simp: head_info_def additional_info_for_head_size_def)

lemma head_bytes_Cons:
  "head_bytes major v = of_nat (major * 32 + head_info v) # be_bytes (head_size v - 1) v"
  by (simp add: head_bytes_def head_info_def)

lemma head_byte_parts:
  assumes "major < 8"
  shows "ih_major (head_of_byte (of_nat (major * 32 + head_info v))) = major"
    and "ih_additional (head_of_byte (of_nat (major * 32 + head_info v))) = head_info v"
proof -
  have "major * 32 + head_info v < 256" using assms head_info_less [of v] by linarith
  then have "unat (of_nat (major * 32 + head_info v) :: byte) = major * 32 + head_info v"
    by (rule unat_of_nat_byte)
  then show "ih_major (head_of_byte (of_nat (major * 32 + head_info v))) = major"
    "ih_additional (head_of_byte (of_nat (major * 32 + head_info v))) = head_info v"
    using head_info_less [of v] by (simp_all add: head_of_byte_def)
qed

lemma head_byte_rebuild: "of_nat (ih_major (head_of_byte b) * 32 + ih_additional (head_of_byte b)) = b"
  by (simp add: head_of_byte_def)

lemma head_major_less: "ih_major (head_of_byte b) < 8"
  using unat_byte_less [of b] by (simp add: head_of_byte_def less_mult_imp_div_less)

lemma argument_of_byte:
  "argument E (ih_additional (head_of_byte b)) r = Inr (v, r') \<longleftrightarrow>
     v < 2 ^ 64 \<and> (\<exists>bs. b # bs = head_bytes (ih_major (head_of_byte b)) v \<and> takes E r bs r')"
proof -
  have "head_info v = ih_additional (head_of_byte b) \<longleftrightarrow>
      b = of_nat (ih_major (head_of_byte b) * 32 + head_info v)"
    using head_byte_rebuild [of b] head_byte_parts(2) [OF head_major_less, of b v] by metis
  then show ?thesis by (auto simp: argument_Inr head_bytes_Cons)
qed

lemma size_argument_Inr: "size_argument E a r = Inr (v, r') \<longleftrightarrow> argument E a r = Inr (v, r')"
  by (auto simp: size_argument_def bindr_Inr_iff argument_Inr)

lemma head_bytes_major:
  assumes "major < 8" and "b # bs = head_bytes major v" shows "ih_major (head_of_byte b) = major"
  using assms head_byte_parts(1) [OF assms(1), of v] by (simp add: head_bytes_Cons)

lemma item_head_Inr:
  assumes "plain E"
  shows "item_head E depth r = Inr (h, r') \<longleftrightarrow>
    depth \<le> max_depth (env_limits E) \<and> rd_items r < max_items (env_limits E) \<and>
    (\<exists>b. h = head_of_byte b \<and> takes E (r\<lparr>rd_items := Suc (rd_items r)\<rparr>) [b] r')"
  using assms
  by (auto simp: item_head_def plain_def bindr_Inr_iff read_byte_Inr)

section \<open>Scalars\<close>

lemma payload_bytes:
  assumes "count \<le> seg_size (env_input E) - rd_offset r"
  shows "seg_first (payload_ranges E count r) @ seg_second (payload_ranges E count r) = take count (rest E r)"
  using assms
  by (auto simp: payload_ranges_def rest_def seg_bytes_def seg_size_def Let_def min_def)

lemma validated_Inr:
  assumes "plain E"
  shows "validated_payload_ranges E count r = Inr x \<longleftrightarrow>
    count \<le> seg_size (env_input E) - rd_offset r \<and> x = payload_ranges E count r"
  using assms by (auto simp: validated_payload_ranges_def plain_def)

lemma takes_payload:
  "(count \<le> seg_size (env_input E) - rd_offset r \<and> t = take count (rest E r) \<and> r' = advance_by r count) \<longleftrightarrow>
     length t = count \<and> takes E r t r'"
  by (auto simp: takes_def rest_def dest: arg_cong [where f = length])

lemma read_bytes_Inr:
  assumes "plain E"
  shows "read_bytes E count r = Inr (t, r') \<longleftrightarrow> length t = count \<and> takes E r t r'"
proof -
  have "read_bytes E count r = Inr (t, r') \<longleftrightarrow>
      count \<le> seg_size (env_input E) - rd_offset r \<and> t = take count (rest E r) \<and> r' = advance_by r count"
    by (auto simp: read_bytes_def bindr_Inr_iff validated_Inr [OF assms] payload_bytes advance_by_def)
  then show ?thesis unfolding takes_payload .
qed

lemma read_text_Inr:
  assumes "plain E"
  shows "read_text E count r = Inr (t, r') \<longleftrightarrow> valid_utf8 t \<and> length t = count \<and> takes E r t r'"
proof -
  have "read_text E count r = Inr (t, r') \<longleftrightarrow> valid_utf8 t \<and>
      (count \<le> seg_size (env_input E) - rd_offset r \<and> t = take count (rest E r) \<and> r' = advance_by r count)"
    by (auto simp: read_text_def bindr_Inr_iff validated_Inr [OF assms] payload_bytes advance_by_def Let_def
        split: if_splits)
  then show ?thesis unfolding takes_payload .
qed

lemma float_reads:
  "big_endian E 2 0 r = Inr (v, r') \<longleftrightarrow> (\<exists>h :: u16. v = unat h \<and> takes E r (be_bytes 2 (unat h)) r')"
  "big_endian E 4 0 r = Inr (v, r') \<longleftrightarrow> (\<exists>f :: u32. v = unat f \<and> takes E r (be_bytes 4 (unat f)) r')"
  "big_endian E 8 0 r = Inr (v, r') \<longleftrightarrow> (\<exists>d :: u64. v = unat d \<and> takes E r (be_bytes 8 (unat d)) r')"
proof -
  have "unat (h :: u16) < 256 ^ 2" for h using unsigned_less [of h] by simp
  then show "big_endian E 2 0 r = Inr (v, r') \<longleftrightarrow> (\<exists>h :: u16. v = unat h \<and> takes E r (be_bytes 2 (unat h)) r')"
    using unat_of_nat16 [of v] by (auto simp: big_endian_word intro: exI [of _ "of_nat v"])
  have "unat (h :: u32) < 256 ^ 4" for h using unsigned_less [of h] by simp
  then show "big_endian E 4 0 r = Inr (v, r') \<longleftrightarrow> (\<exists>f :: u32. v = unat f \<and> takes E r (be_bytes 4 (unat f)) r')"
    using unat_of_nat32 [of v] by (auto simp: big_endian_word intro: exI [of _ "of_nat v"])
  have "unat (h :: u64) < 256 ^ 8" for h using unsigned_less [of h] by simp
  then show "big_endian E 8 0 r = Inr (v, r') \<longleftrightarrow> (\<exists>d :: u64. v = unat d \<and> takes E r (be_bytes 8 (unat d)) r')"
    using unat_of_nat64 [of v] by (auto simp: big_endian_word intro: exI [of _ "of_nat v"])
qed

lemma bind_float_reads:
  "bindr (big_endian E 2 0 r) (\<lambda>(bits, r'). K bits r') = Inr x \<longleftrightarrow>
    (\<exists>h :: u16. \<exists>r1. takes E r (be_bytes 2 (unat h)) r1 \<and> K (unat h) r1 = Inr x)"
  "bindr (big_endian E 4 0 r) (\<lambda>(bits, r'). K bits r') = Inr x \<longleftrightarrow>
    (\<exists>f :: u32. \<exists>r1. takes E r (be_bytes 4 (unat f)) r1 \<and> K (unat f) r1 = Inr x)"
  "bindr (big_endian E 8 0 r) (\<lambda>(bits, r'). K bits r') = Inr x \<longleftrightarrow>
    (\<exists>d :: u64. \<exists>r1. takes E r (be_bytes 8 (unat d)) r1 \<and> K (unat d) r1 = Inr x)"
  unfolding bindr_Inr_iff by (auto simp: float_reads)

lemma read_half:
  "read_half_float E r = Inr (s, r') \<longleftrightarrow>
    (\<exists>d bits. s = SDouble d \<and> canonical_float_encoding d = Inr (Half, bits) \<and> takes E r (be_bytes 2 bits) r')"
  unfolding read_half_float_def bind_float_reads canonical_half
  by (auto simp: isfinite_widen isfinite_half Let_def split: if_splits)

lemma read_single:
  "read_single_float E r = Inr (s, r') \<longleftrightarrow>
    (\<exists>d bits. s = SDouble d \<and> canonical_float_encoding d = Inr (Single, bits) \<and> takes E r (be_bytes 4 bits) r')"
  unfolding read_single_float_def bind_float_reads canonical_single by (auto simp: Let_def split: if_splits)

lemma read_double:
  "read_double_float E r = Inr (s, r') \<longleftrightarrow>
    (\<exists>d bits. s = SDouble d \<and> canonical_float_encoding d = Inr (Double, bits) \<and> takes E r (be_bytes 8 bits) r')"
  unfolding read_double_float_def bind_float_reads canonical_double by (auto simp: Let_def split: if_splits)

lemma float_bytes_cases:
  "b # bs = scalar_bytes (SDouble d) \<longleftrightarrow> (\<exists>bits.
     (b = 0xf9 \<and> canonical_float_encoding d = Inr (Half, bits) \<and> bs = be_bytes 2 bits) \<or>
     (b = 0xfa \<and> canonical_float_encoding d = Inr (Single, bits) \<and> bs = be_bytes 4 bits) \<or>
     (b = 0xfb \<and> canonical_float_encoding d = Inr (Double, bits) \<and> bs = be_bytes 8 bits))"
  by (cases "canonical_float_encoding d")
    (auto simp: float_width_bytes_def split: float_width.splits)

lemma read_simple_Inr:
  "read_simple E (unat b) r = Inr (s, r') \<longleftrightarrow>
     (b = 0xf4 \<and> s = SBool False \<and> r' = r) \<or> (b = 0xf5 \<and> s = SBool True \<and> r' = r) \<or>
     (b = 0xf6 \<and> s = SNull \<and> r' = r) \<or>
     (\<exists>d bs. s = SDouble d \<and> b # bs = scalar_bytes (SDouble d) \<and> takes E r bs r')"
proof -
  have b: "unat b = n \<longleftrightarrow> b = of_nat n" if "n < 256" for n :: nat
    using that by (metis unat_of_nat_byte word_unat_eq_iff)
  have n: "unat b = 0xf4 \<longleftrightarrow> b = 0xf4" "unat b = 0xf5 \<longleftrightarrow> b = 0xf5" "unat b = 0xf6 \<longleftrightarrow> b = 0xf6"
    "unat b = 0xf9 \<longleftrightarrow> b = 0xf9" "unat b = 0xfa \<longleftrightarrow> b = 0xfa" "unat b = 0xfb \<longleftrightarrow> b = 0xfb"
    using b [of 244] b [of 245] b [of 246] b [of 249] b [of 250] b [of 251] by simp_all
  show ?thesis
    unfolding read_simple_def n float_bytes_cases
    by (auto simp: read_half read_single read_double split: if_splits)
qed

lemma scalar_bytes_major:
  assumes "b # bs = scalar_bytes s"
  shows "ih_major (head_of_byte b) = (case s of SUInt _ \<Rightarrow> 0 | SInt _ \<Rightarrow> fst (signed_integer_encoding (case s of SInt i \<Rightarrow> i | _ \<Rightarrow> 0))
    | SBytes _ \<Rightarrow> 2 | SText _ \<Rightarrow> 3 | _ \<Rightarrow> 7)"
proof (cases s)
  case (SInt i)
  obtain m v where e: "signed_integer_encoding i = (m, v)" by fastforce
  then have "m < 8" by (auto simp: signed_integer_encoding_def split: if_splits)
  with assms SInt e head_bytes_major show ?thesis by fastforce
next
  case (SDouble d)
  have "b # bs = scalar_bytes (SDouble d)" using assms SDouble by simp
  then show ?thesis unfolding float_bytes_cases using SDouble by (auto simp: head_of_byte_def)
next
  case (SUInt u)
  with assms head_bytes_major [of 0 b bs] show ?thesis by simp
next
  case (SText t)
  with assms show ?thesis using head_byte_parts(1) [of 3 "length t"] by (simp add: head_bytes_Cons)
next
  case (SBytes t)
  with assms show ?thesis using head_byte_parts(1) [of 2 "length t"] by (simp add: head_bytes_Cons)
qed (use assms in \<open>auto simp: head_of_byte_def\<close>)

text \<open>The negative integers and their arguments.\<close>

lemma negative_argument:
  assumes "v \<le> 9223372036854775807"
  shows "sint (word_of_int (- 1 - int v) :: u64) = - 1 - int v"
proof -
  have "- (2 ^ 63) \<le> - 1 - int v" "- 1 - int v < 2 ^ 63" using assms by auto
  then have "signed_take_bit 63 (- 1 - int v) = - 1 - int v" by (simp add: signed_take_bit_int_eq_self_iff)
  then show ?thesis using sint_sbintrunc' [of "- 1 - int v", where 'a = 64] by simp
qed

lemma signed_encoding_negative:
  "sint i < 0 \<Longrightarrow> signed_integer_encoding i = (1, v) \<longleftrightarrow>
     v \<le> 9223372036854775807 \<and> i = word_of_int (- 1 - int v)"
proof
  assume neg: "sint i < 0" and "signed_integer_encoding i = (1, v)"
  then have v: "v = nat (- (sint i + 1))" by (simp add: signed_integer_encoding_def)
  have "- (2 ^ 63) \<le> sint i" using sint_ge [of i] by simp
  with v neg have "v \<le> 9223372036854775807" "- 1 - int v = sint i" by auto
  then show "v \<le> 9223372036854775807 \<and> i = word_of_int (- 1 - int v)" by simp
next
  assume neg: "sint i < 0" and v: "v \<le> 9223372036854775807 \<and> i = word_of_int (- 1 - int v)"
  then have "sint i = - 1 - int v" using negative_argument by blast
  with neg show "signed_integer_encoding i = (1, v)" by (simp add: signed_integer_encoding_def)
qed

lemma read_flat_scalar_Inr:
  assumes "plain E"
  shows "read_flat_scalar E (head_of_byte b) True True r = Inr (s, r') \<longleftrightarrow>
    scalar_ok s \<and> scalar_wf s \<and> (\<exists>bs. b # bs = scalar_bytes s \<and> takes E r bs r')"
proof -
  let ?m = "ih_major (head_of_byte b)"
  have allowed: "allocation_allowed E k n q" for k n q using assms by (simp add: allocation_allowed_def plain_def)
  have arg: "argument E (ih_additional (head_of_byte b)) r = Inr (v, r1) \<longleftrightarrow>
     v < 2 ^ 64 \<and> (\<exists>bs. b # bs = head_bytes ?m v \<and> takes E r bs r1)" for v r1
    by (rule argument_of_byte)
  have m: "?m < 8" by (rule head_major_less)
  then consider "?m = 0" | "?m = 1" | "?m = 2" | "?m = 3" | "?m = 4 \<or> ?m = 5 \<or> ?m = 6" | "?m = 7" by linarith
  then show ?thesis
  proof cases
    case 1
    have "read_flat_scalar E (head_of_byte b) True True r = Inr (s, r') \<longleftrightarrow>
      (\<exists>v bs. s = SUInt (of_nat v) \<and> v < 2 ^ 64 \<and> b # bs = head_bytes 0 v \<and> takes E r bs r')"
      using 1 arg by (auto simp: read_flat_scalar_def bindr_Inr_iff)
    also have "\<dots> \<longleftrightarrow> (\<exists>u bs. s = SUInt u \<and> b # bs = scalar_bytes (SUInt u) \<and> takes E r bs r')"
    proof -
      have "unat (u :: u64) < 2 ^ 64" for u using unsigned_less [of u] by simp
      then show ?thesis using unat_of_nat64 by (metis of_nat_unat_word scalar_bytes.simps(4))
    qed
    also have "\<dots> \<longleftrightarrow> scalar_ok s \<and> scalar_wf s \<and> (\<exists>bs. b # bs = scalar_bytes s \<and> takes E r bs r')"
      using 1 scalar_bytes_major [of b _ s] by (cases s) (auto simp: signed_integer_encoding_def)
    finally show ?thesis .
  next
    case 2
    have "read_flat_scalar E (head_of_byte b) True True r = Inr (s, r') \<longleftrightarrow>
      (\<exists>v bs. s = scalar_of_int64 (word_of_int (- 1 - int v)) \<and> v \<le> 9223372036854775807 \<and>
         b # bs = head_bytes 1 v \<and> takes E r bs r')"
      using 2 arg by (auto simp: read_flat_scalar_def bindr_Inr_iff split: if_splits)
        (rule_tac x = v in exI, auto)
    also have "\<dots> \<longleftrightarrow> (\<exists>i bs. s = SInt i \<and> sint i < 0 \<and> b # bs = scalar_bytes (SInt i) \<and> takes E r bs r')"
      (is "?L \<longleftrightarrow> ?R")
    proof
      assume ?L
      then obtain v bs where v: "s = scalar_of_int64 (word_of_int (- 1 - int v))" "v \<le> 9223372036854775807"
        "b # bs = head_bytes 1 v" "takes E r bs r'" by blast
      let ?i = "word_of_int (- 1 - int v) :: u64"
      have neg: "sint ?i < 0" using negative_argument [OF v(2)] by simp
      with v(2) have "signed_integer_encoding ?i = (1, v)" using signed_encoding_negative by blast
      with v neg have "s = SInt ?i \<and> sint ?i < 0 \<and> b # bs = scalar_bytes (SInt ?i) \<and> takes E r bs r'"
        by (simp add: scalar_of_int64_def)
      then show ?R by blast
    next
      assume ?R
      then obtain i bs where i: "s = SInt i" "sint i < 0" "b # bs = scalar_bytes (SInt i)" "takes E r bs r'" by blast
      obtain v where v: "signed_integer_encoding i = (1, v)" using i(2) by (simp add: signed_integer_encoding_def)
      with i(2) have "v \<le> 9223372036854775807 \<and> i = word_of_int (- 1 - int v)"
        using signed_encoding_negative by blast
      with i v show ?L by (intro exI [of _ v] exI [of _ bs]) (simp add: scalar_of_int64_def)
    qed
    also have "\<dots> \<longleftrightarrow> scalar_ok s \<and> scalar_wf s \<and> (\<exists>bs. b # bs = scalar_bytes s \<and> takes E r bs r')"
      using 2 scalar_bytes_major [of b _ s] by (cases s) auto
    finally show ?thesis .
  next
    case 3
    have "read_flat_scalar E (head_of_byte b) True True r = Inr (s, r') \<longleftrightarrow>
      (\<exists>t. s = SBytes t \<and> (\<exists>bs r1. length t < 2 ^ 64 \<and> b # bs = head_bytes 2 (length t) \<and> takes E r bs r1 \<and> takes E r1 t r'))"
      using 3 arg by (auto simp: read_flat_scalar_def bindr_Inr_iff allowed read_bytes_Inr [OF assms])
        (rule_tac x = "length t" in exI, auto)
    also have "\<dots> \<longleftrightarrow> (\<exists>t bs. s = SBytes t \<and> length t < 2 ^ 64 \<and> b # bs = scalar_bytes (SBytes t) \<and> takes E r bs r')"
      by (auto simp: head_bytes_Cons takes_append)
    also have "\<dots> \<longleftrightarrow> (\<exists>t bs. s = SBytes t \<and> b # bs = scalar_bytes (SBytes t) \<and> takes E r bs r')"
    proof -
      have "takes E r bs r' \<Longrightarrow> length bs < 2 ^ 64" for bs
        using assms by (auto simp: takes_def rest_def plain_def dest!: arg_cong [where f = length])
      then show ?thesis by (fastforce simp: head_bytes_Cons)
    qed
    also have "\<dots> \<longleftrightarrow> scalar_ok s \<and> scalar_wf s \<and> (\<exists>bs. b # bs = scalar_bytes s \<and> takes E r bs r')"
      using 3 scalar_bytes_major [of b _ s] by (cases s) (auto simp: signed_integer_encoding_def)
    finally show ?thesis .
  next
    case 4
    have "read_flat_scalar E (head_of_byte b) True True r = Inr (s, r') \<longleftrightarrow>
      (\<exists>t. s = SText t \<and> valid_utf8 t \<and> (\<exists>bs r1. length t < 2 ^ 64 \<and> b # bs = head_bytes 3 (length t) \<and> takes E r bs r1 \<and> takes E r1 t r'))"
      using 4 arg by (auto simp: read_flat_scalar_def bindr_Inr_iff allowed read_text_Inr [OF assms])
        (rule_tac x = "length t" in exI, auto)
    also have "\<dots> \<longleftrightarrow> (\<exists>t bs. s = SText t \<and> valid_utf8 t \<and> length t < 2 ^ 64 \<and> b # bs = scalar_bytes (SText t) \<and> takes E r bs r')"
      by (auto simp: head_bytes_Cons takes_append)
    also have "\<dots> \<longleftrightarrow> (\<exists>t bs. s = SText t \<and> valid_utf8 t \<and> b # bs = scalar_bytes (SText t) \<and> takes E r bs r')"
    proof -
      have "takes E r bs r' \<Longrightarrow> length bs < 2 ^ 64" for bs
        using assms by (auto simp: takes_def rest_def plain_def dest!: arg_cong [where f = length])
      then show ?thesis by (fastforce simp: head_bytes_Cons)
    qed
    also have "\<dots> \<longleftrightarrow> scalar_ok s \<and> scalar_wf s \<and> (\<exists>bs. b # bs = scalar_bytes s \<and> takes E r bs r')"
      using 4 scalar_bytes_major [of b _ s] by (cases s) (auto simp: signed_integer_encoding_def)
    finally show ?thesis .
  next
    case 5
    then have "read_flat_scalar E (head_of_byte b) True True r \<noteq> Inr (s, r')"
      by (auto simp: read_flat_scalar_def)
    moreover have "b # bs \<noteq> scalar_bytes s" for bs
      using 5 scalar_bytes_major [of b bs s] by (cases s) (auto simp: signed_integer_encoding_def)
    ultimately show ?thesis by blast
  next
    case 6
    have b7: "ih_initial (head_of_byte b) = unat b" by (simp add: head_of_byte_def)
    have "read_flat_scalar E (head_of_byte b) True True r = read_simple E (unat b) r"
      using 6 by (simp add: read_flat_scalar_def b7)
    moreover have "b # bs = scalar_bytes (SDouble d) \<Longrightarrow> isfinite64 d" for d bs
      unfolding float_bytes_cases using canonical_finite by blast
    ultimately show ?thesis
      using 6 scalar_bytes_major [of b _ s]
      by (cases s) (auto simp: read_simple_Inr signed_integer_encoding_def head_of_byte_def
        simp del: scalar_bytes.simps(5))
  qed
qed

section \<open>Items\<close>

text \<open>The abstract step of a reader: take \<open>bs\<close>, and the item count becomes \<open>j\<close>.\<close>

definition got :: "reader_env \<Rightarrow> reader \<Rightarrow> byte list \<Rightarrow> nat option \<Rightarrow> reader \<Rightarrow> bool" where
  "got E r bs j r' \<longleftrightarrow> (\<exists>i. j = Some i \<and> takes E (r\<lparr>rd_items := i\<rparr>) bs r')"

lemma takes_items: "takes E (r\<lparr>rd_items := i\<rparr>) bs r' \<longleftrightarrow> (\<exists>x. takes E r bs x \<and> r' = x\<lparr>rd_items := i\<rparr>)"
  by (auto simp: takes_def rest_def advance_by_def)

lemma got_fields: "got E r bs j r' \<Longrightarrow> j = Some (rd_items r') \<and> rd_path r' = rd_path r"
  by (auto simp: got_def takes_def advance_by_def)

lemma got_path: "got E (r\<lparr>rd_path := p\<rparr>) bs j r' \<longleftrightarrow> got E r bs j (r'\<lparr>rd_path := rd_path r\<rparr>) \<and> rd_path r' = p"
  by (cases r; cases r') (auto simp: got_def takes_def rest_def advance_by_def)

lemma got_alt: "got E r bs j r' \<longleftrightarrow> (\<exists>i x. j = Some i \<and> takes E r bs x \<and> r' = x\<lparr>rd_items := i\<rparr>)"
  unfolding got_def takes_items by blast

lemma got_seq:
  "(\<exists>r1. got E r as j r1 \<and> got E r1 bs (g (rd_items r1)) r2) \<longleftrightarrow> got E r (as @ bs) (Option.bind j g) r2"
proof (cases j)
  case (Some i)
  have "(\<exists>r1. got E r as j r1 \<and> got E r1 bs (g (rd_items r1)) r2) \<longleftrightarrow>
      (\<exists>x. takes E r as x \<and> got E (x\<lparr>rd_items := i\<rparr>) bs (g i) r2)"
    unfolding got_alt [of E r as] Some by auto
  also have "\<dots> \<longleftrightarrow> (\<exists>x. takes E r as x \<and> got E x bs (g i) r2)"
    by (simp add: got_def)
  also have "\<dots> \<longleftrightarrow> got E r (as @ bs) (Option.bind j g) r2"
    unfolding got_alt takes_append Some by auto
  finally show ?thesis .
qed (simp add: got_def)

lemma got_nil [simp]: "got E r [] j r' \<longleftrightarrow> (\<exists>i. j = Some i \<and> r' = r\<lparr>rd_items := i\<rparr>)"
  by (auto simp: got_def)

abbreviation within :: "reader_env \<Rightarrow> nat \<Rightarrow> reader \<Rightarrow> bool" where
  "within E depth r \<equiv> depth \<le> max_depth (env_limits E) \<and> rd_items r < max_items (env_limits E)"

text \<open>The head of a container.\<close>

lemma container_head:
  assumes "plain E" and "major < 8"
  shows "(\<exists>head r1. item_head E depth r = Inr (head, r1) \<and> ih_major head = major \<and>
      size_argument E (ih_additional head) r1 = Inr (count, r2)) \<longleftrightarrow>
    within E depth r \<and> count < 2 ^ 64 \<and> got E r (head_bytes major count) (Some (Suc (rd_items r))) r2"
proof -
  let ?q = "r\<lparr>rd_items := Suc (rd_items r)\<rparr>"
  have "(\<exists>head r1. item_head E depth r = Inr (head, r1) \<and> ih_major head = major \<and>
      size_argument E (ih_additional head) r1 = Inr (count, r2)) \<longleftrightarrow>
    within E depth r \<and> (\<exists>b r1. takes E ?q [b] r1 \<and> ih_major (head_of_byte b) = major \<and>
      argument E (ih_additional (head_of_byte b)) r1 = Inr (count, r2))"
    unfolding item_head_Inr [OF assms(1)] size_argument_Inr by blast
  also have "\<dots> \<longleftrightarrow> within E depth r \<and> count < 2 ^ 64 \<and>
    (\<exists>b bs. ih_major (head_of_byte b) = major \<and> b # bs = head_bytes major count \<and>
      (\<exists>r1. takes E ?q [b] r1 \<and> takes E r1 bs r2))"
    unfolding argument_of_byte by blast
  also have "\<dots> \<longleftrightarrow> within E depth r \<and> count < 2 ^ 64 \<and>
    (\<exists>b bs. b # bs = head_bytes major count \<and> takes E ?q (b # bs) r2)"
    unfolding takes_Cons [symmetric] using head_bytes_major [OF assms(2)] by blast
  also have "\<dots> \<longleftrightarrow> within E depth r \<and> count < 2 ^ 64 \<and> got E r (head_bytes major count) (Some (Suc (rd_items r))) r2"
    unfolding got_def head_bytes_Cons by auto
  finally show ?thesis .
qed

lemma read_scalar_item_Inr:
  assumes "plain E"
  shows "(\<exists>head r1. item_head E depth r = Inr (head, r1) \<and> read_flat_scalar E head True True r1 = Inr (s, r')) \<longleftrightarrow>
    scalar_wf s \<and> got E r (scalar_bytes s) (admit (env_limits E) depth (rd_items r) (value_of_scalar s)) r'"
proof -
  let ?q = "r\<lparr>rd_items := Suc (rd_items r)\<rparr>"
  have "(\<exists>head r1. item_head E depth r = Inr (head, r1) \<and> read_flat_scalar E head True True r1 = Inr (s, r')) \<longleftrightarrow>
    within E depth r \<and> (\<exists>b r1. takes E ?q [b] r1 \<and> read_flat_scalar E (head_of_byte b) True True r1 = Inr (s, r'))"
    unfolding item_head_Inr [OF assms] by blast
  also have "\<dots> \<longleftrightarrow> within E depth r \<and> scalar_ok s \<and> scalar_wf s \<and>
    (\<exists>b bs. b # bs = scalar_bytes s \<and> (\<exists>r1. takes E ?q [b] r1 \<and> takes E r1 bs r'))"
    unfolding read_flat_scalar_Inr [OF assms] by blast
  also have "\<dots> \<longleftrightarrow> within E depth r \<and> scalar_ok s \<and> scalar_wf s \<and>
    (\<exists>b bs. b # bs = scalar_bytes s \<and> takes E ?q (b # bs) r')"
    unfolding takes_Cons [symmetric] ..
  also have "\<dots> \<longleftrightarrow> within E depth r \<and> scalar_ok s \<and> scalar_wf s \<and> takes E ?q (scalar_bytes s) r'"
  proof -
    have "scalar_ok s \<Longrightarrow> scalar_bytes s \<noteq> []"
      using canonical_finite by (cases s) (auto simp: head_bytes_Cons split: prod.splits)
    then show ?thesis by (metis neq_Nil_conv)
  qed
  also have "\<dots> \<longleftrightarrow> scalar_wf s \<and> got E r (scalar_bytes s) (admit (env_limits E) depth (rd_items r) (value_of_scalar s)) r'"
    unfolding admit_scalar got_def by auto
  finally show ?thesis .
qed

lemma read_object_key_Inr:
  assumes "plain E"
  shows "read_object_key E depth r = Inr (k, r') \<longleftrightarrow>
    got E r (scalar_bytes (SText k)) (admit (env_limits E) depth (rd_items r) (VText k)) r'"
proof -
  have "read_object_key E depth r = Inr (k, r') \<longleftrightarrow>
     (\<exists>head r1. item_head E depth r = Inr (head, r1) \<and> read_flat_scalar E head True True r1 = Inr (SText k, r'))"
  proof -
    have "(case s of SText key \<Rightarrow> Inr (key, q) | _ \<Rightarrow> Inl e) = Inr (k, r') \<longleftrightarrow> s = SText k \<and> r' = q"
      for s q and e :: wire_error by (cases s) auto
    then show ?thesis unfolding read_object_key_def read_scalar_item_def bindr_Inr_iff by auto
  qed
  also have "\<dots> \<longleftrightarrow> got E r (scalar_bytes (SText k)) (admit (env_limits E) depth (rd_items r) (VText k)) r'"
    using read_scalar_item_Inr [OF assms, of depth r "SText k"] by simp
  finally show ?thesis .
qed

section \<open>Values\<close>

lemma encoding_head_major:
  assumes "plain E" and "item_head E depth r = Inr (head, r1)" and "read_flat_scalar E head True True r1 = Inr (s, r')"
  shows "ih_major head \<noteq> 4 \<and> ih_major head \<noteq> 5"
  using assms(3) by (auto simp: read_flat_scalar_def)

lemma admit_key:
  "admit l depth i (VText k) =
     (if depth > max_depth l \<or> i \<ge> max_items l \<or> \<not> valid_utf8 k then None else Some (Suc i))"
  using admit_scalar [of l depth i "SText k"] by auto

lemma not_duplicate: "name \<notin> set names \<Longrightarrow> set (map fst ms) \<inter> set (name # names) = {} \<Longrightarrow> distinct (map fst ms) \<Longrightarrow>
    distinct (map fst ((name, v) # ms)) \<and> set (map fst ((name, v) # ms)) \<inter> set names = {}"
  by auto

text \<open>Every successful read yields a value whose canonical bytes it consumed, within the budget.\<close>

lemma read_item_sound:
  "plain E \<Longrightarrow> read_item E depth r = Inr (v, r') \<Longrightarrow>
     value_wf v \<and> got E r (encoding v) (admit (env_limits E) depth (rd_items r) v) r'"
  "plain E \<Longrightarrow> read_values E depth n r = Inr (vs, r') \<Longrightarrow>
     length vs = n \<and> list_all value_wf vs \<and>
     got E r (encodings vs) (admit_all (env_limits E) depth (rd_items r) vs) r'"
  "plain E \<Longrightarrow> read_members E depth n names kind r = Inr (ms, r') \<Longrightarrow>
     length ms = n \<and> list_all (\<lambda>m. value_wf (snd m)) ms \<and> distinct (map fst ms) \<and>
     set (map fst ms) \<inter> set names = {} \<and>
     got E r (member_encodings ms) (admit_members (env_limits E) depth (rd_items r) ms) r'"
proof (induction E depth r and E depth n r and E depth n names kind r
    arbitrary: v r' and vs r' and ms r' rule: read_item_read_values_read_members.induct)
  case (1 E depth r)
  note plain = "1.prems"(1)
  from "1.prems"(2) obtain head r1 where h: "item_head E depth r = Inr (head, r1)"
    and body: "(if ih_major head \<noteq> 4 \<and> ih_major head \<noteq> 5
       then bindr (read_flat_scalar E head True True r1) (\<lambda>(s, r2). Inr (value_of_scalar s, r2))
       else bindr (size_argument E (ih_additional head) r1) (\<lambda>(count, r2).
         if ih_major head = 4 then
           (if \<not> allocation_allowed E Alloc_Sequence count r2 then Inl (reader_error r2 LimitExceeded)
            else if \<not> fits_remaining count (rd_items r2) (max_items (env_limits E))
            then Inl (reader_error r2 LimitExceeded)
            else bindr (read_values E depth count r2) (\<lambda>(vs, r3). Inr (VArray vs, r3)))
         else
           (if \<not> allocation_allowed E Alloc_Object count r2 then Inl (reader_error r2 LimitExceeded)
            else if count > (max_items (env_limits E) - rd_items r2) div 2
            then Inl (reader_error r2 LimitExceeded)
            else bindr (read_members E depth count [] [] r2) (\<lambda>(ms, r3). Inr (VObject ms, r3))))) = Inr (v, r')"
    unfolding read_item.simps [of E depth r] bindr_Inr_iff by auto
  show ?case
  proof (cases "ih_major head \<noteq> 4 \<and> ih_major head \<noteq> 5")
    case True
    with body obtain s where "read_flat_scalar E head True True r1 = Inr (s, r')" "v = value_of_scalar s"
      by (auto simp: bindr_Inr_iff)
    with read_scalar_item_Inr [OF plain, of depth r s r'] h show ?thesis by auto
  next
    case False
    with body obtain count r2 where sz: "size_argument E (ih_additional head) r1 = Inr (count, r2)"
      by (auto simp: bindr_Inr_iff)
    note body = body [unfolded if_not_P [OF False] sz bindr.simps prod.case]
    have m: "ih_major head < 8" using False by auto
    have hd: "within E depth r" "got E r (head_bytes (ih_major head) count) (Some (Suc (rd_items r))) r2"
      using container_head [OF plain m, of depth r count r2] h sz by blast+
    then have items: "rd_items r2 = Suc (rd_items r)" using got_fields by fastforce
    show ?thesis
    proof (cases "ih_major head = 4")
      case True
      with body obtain vs where fit: "fits_remaining count (rd_items r2) (max_items (env_limits E))"
        and vs: "read_values E depth count r2 = Inr (vs, r')" "v = VArray vs"
        by (auto simp: bindr_Inr_iff split: if_splits)
      have alloc: "\<not> \<not> allocation_allowed E Alloc_Sequence count r2"
        using plain by (simp add: allocation_allowed_def plain_def)
      have nfit: "\<not> \<not> fits_remaining count (rd_items r2) (max_items (env_limits E))" using fit by simp
      from "1.IH"(1) [OF h refl False sz refl True alloc nfit plain vs(1)]
      have ih: "length vs = count" "list_all value_wf vs"
        "got E r2 (encodings vs) (admit_all (env_limits E) depth (rd_items r2) vs) r'" by auto
      have "got E r (head_bytes 4 count @ encodings vs)
          (Option.bind (Some (Suc (rd_items r))) (\<lambda>i. admit_all (env_limits E) depth i vs)) r'"
        unfolding got_seq [symmetric] using hd(2) ih(3) True by auto
      then show ?thesis using ih hd(1) fit items vs(2)
        by (simp add: value_wf_container encoding_container admit_container fits_remaining_def)
    next
      case m5: False
      with False have five: "ih_major head = 5" by simp
      from m5 body obtain ms where fit: "\<not> count > (max_items (env_limits E) - rd_items r2) div 2"
        and ms: "read_members E depth count [] [] r2 = Inr (ms, r')" "v = VObject ms"
        by (auto simp: bindr_Inr_iff split: if_splits)
      have alloc: "\<not> \<not> allocation_allowed E Alloc_Object count r2"
        using plain by (simp add: allocation_allowed_def plain_def)
      from "1.IH"(2) [OF h refl False sz refl m5 alloc fit plain ms(1)]
      have ih: "length ms = count" "list_all (\<lambda>m. value_wf (snd m)) ms" "distinct (map fst ms)"
        "got E r2 (member_encodings ms) (admit_members (env_limits E) depth (rd_items r2) ms) r'" by auto
      have "got E r (head_bytes 5 count @ member_encodings ms)
          (Option.bind (Some (Suc (rd_items r))) (\<lambda>i. admit_members (env_limits E) depth i ms)) r'"
        unfolding got_seq [symmetric] using hd(2) ih(4) five by auto
      then show ?thesis using ih hd(1) fit items ms(2)
        by (simp add: value_wf_container encoding_container admit_container)
    qed
  qed
next
  case (2 E depth n r)
  show ?case
  proof (cases "n = 0")
    case True
    with "2.prems" show ?thesis by (simp add: read_values.simps)
  next
    case False
    with "2.prems"(2) obtain v r1 vs' where v: "read_item E (depth + 1) r = Inr (v, r1)"
      "read_values E depth (n - 1) r1 = Inr (vs', r')" "vs = v # vs'"
      unfolding read_values.simps [of E depth n r] by (auto simp: bindr_Inr_iff)
    from "2.IH"(1) [OF False "2.prems"(1) v(1)] "2.IH"(2) [OF False v(1) refl "2.prems"(1) v(2)] False v(3)
    show ?thesis by (auto simp: got_seq [symmetric])
  qed
next
  case (3 E depth n names kind r)
  show ?case
  proof (cases "n = 0")
    case True
    with "3.prems" show ?thesis by (simp add: read_members.simps)
  next
    case False
    let ?push = "\<lambda>name r1 :: reader. r1\<lparr>rd_path := rd_path r1 @ [\<lparr>pe_name = name, pe_object_kind = kind\<rparr>]\<rparr>"
    let ?kind = "\<lambda>name v. if name = kind_key then (case v of VText t \<Rightarrow> t | _ \<Rightarrow> kind) else kind"
    from False "3.prems"(2) obtain name r1 v r2 ms' where
      k: "read_object_key E (depth + 1) r = Inr (name, r1)" "name \<notin> set names"
      and v: "read_item E (depth + 1) (?push name r1) = Inr (v, r2)"
      and ms': "read_members E depth (n - 1) (name # names) (?kind name v) (r2\<lparr>rd_path := butlast (rd_path r2)\<rparr>) = Inr (ms', r')"
      "ms = (name, v) # ms'"
      unfolding read_members.simps [of E depth n names kind r]
      by (auto simp: bindr_Inr_iff Let_def split: if_splits)
    note key = k(1) [unfolded read_object_key_Inr [OF "3.prems"(1)]]
    from "3.IH"(1) [OF False k(1) refl k(2) "3.prems"(1) v]
    have vwf: "value_wf v" and gv: "got E (?push name r1) (encoding v) (admit (env_limits E) (depth + 1) (rd_items r1) v) r2"
      by auto
    then have gv': "got E r1 (encoding v) (admit (env_limits E) (depth + 1) (rd_items r1) v) (r2\<lparr>rd_path := butlast (rd_path r2)\<rparr>)"
      unfolding got_path by auto
    from "3.IH"(2) [OF False k(1) refl k(2) v refl refl refl "3.prems"(1) ms'(1)]
    have ih: "length ms' = n - 1" "list_all (\<lambda>m. value_wf (snd m)) ms'" "distinct (map fst ms')"
      "set (map fst ms') \<inter> set (name # names) = {}"
      "got E (r2\<lparr>rd_path := butlast (rd_path r2)\<rparr>) (member_encodings ms')
         (admit_members (env_limits E) depth (rd_items r2) ms') r'" by auto
    have "got E r (scalar_bytes (SText name) @ encoding v @ member_encodings ms')
      (Option.bind (admit (env_limits E) (depth + 1) (rd_items r) (VText name)) (\<lambda>i.
        Option.bind (admit (env_limits E) (depth + 1) i v) (\<lambda>j. admit_members (env_limits E) depth j ms'))) r'"
      unfolding got_seq [symmetric]
      using key gv' ih(5) by (intro exI [of _ r1] conjI exI [of _ "r2\<lparr>rd_path := butlast (rd_path r2)\<rparr>"]) simp_all
    then have "got E r (member_encodings ms) (admit_members (env_limits E) depth (rd_items r) ms) r'"
      unfolding ms'(2) member_encodings.simps admit_members.simps fst_conv snd_conv
        admit_key Suc_eq_plus1 .
    with not_duplicate [OF k(2) ih(4,3), of v] ih vwf False ms'(2) show ?thesis by simp
  qed
qed

text \<open>Conversely the canonical bytes of a well-formed value within the budget are read as that value.\<close>

lemma read_item_container:
  assumes "plain E" and "within E depth r" and "got E r (head_bytes major count) (Some (Suc (rd_items r))) r2"
    and "count \<le> max_items (env_limits E)" and "major = 4 \<or> major = 5"
  shows "read_item E depth r =
    (if major = 4 then
       (if count \<le> max_items (env_limits E) - Suc (rd_items r)
        then bindr (read_values E depth count r2) (\<lambda>(vs, r3). Inr (VArray vs, r3))
        else Inl (reader_error r2 LimitExceeded))
     else (if count > (max_items (env_limits E) - Suc (rd_items r)) div 2
        then Inl (reader_error r2 LimitExceeded)
        else bindr (read_members E depth count [] [] r2) (\<lambda>(ms, r3). Inr (VObject ms, r3))))"
proof -
  have "major < 8" "count < 2 ^ 64" using assms(1,4,5) by (auto simp: plain_def)
  with container_head [OF assms(1), of major depth r count r2] assms(2,3)
  obtain head r1 where h: "item_head E depth r = Inr (head, r1)" "ih_major head = major"
    "size_argument E (ih_additional head) r1 = Inr (count, r2)" by blast
  have "rd_items r2 = Suc (rd_items r)" using got_fields [OF assms(3)] by simp
  moreover have "allocation_allowed E k count r2" for k
    using assms(1) by (simp add: plain_def allocation_allowed_def)
  ultimately show ?thesis
    using assms(2,5) h by (auto simp: read_item.simps [of E depth r] fits_remaining_def)
qed

lemma read_item_complete:
  "plain E \<Longrightarrow> value_wf v \<Longrightarrow> got E r (encoding v) (admit (env_limits E) depth (rd_items r) v) r' \<Longrightarrow>
     read_item E depth r = Inr (v, r')"
  "plain E \<Longrightarrow> list_all value_wf vs \<Longrightarrow>
     got E r (encodings vs) (admit_all (env_limits E) depth (rd_items r) vs) r' \<Longrightarrow>
     read_values E depth (length vs) r = Inr (vs, r')"
  "plain E \<Longrightarrow> list_all (\<lambda>m. value_wf (snd m)) ms \<Longrightarrow> distinct (map fst ms) \<Longrightarrow>
     set (map fst ms) \<inter> set names = {} \<Longrightarrow>
     got E r (member_encodings ms) (admit_members (env_limits E) depth (rd_items r) ms) r' \<Longrightarrow>
     read_members E depth (length ms) names kind r = Inr (ms, r')"
proof (induction v and vs and ms arbitrary: depth r r' and depth r r' and depth r r' names kind
    rule: encoding_encodings_member_encodings.induct)
  case (1 v)
  note plain = "1.prems"(1)
  show ?case
  proof (cases v rule: value_cases_scalar)
    case (1 s)
    with "1.prems"(2,3) have "scalar_wf s"
      "got E r (scalar_bytes s) (admit (env_limits E) depth (rd_items r) (value_of_scalar s)) r'" by simp_all
    with read_scalar_item_Inr [OF plain, of depth r s r'] obtain head r1 where
      h: "item_head E depth r = Inr (head, r1)" "read_flat_scalar E head True True r1 = Inr (s, r')" by blast
    with encoding_head_major [OF plain h] 1 show ?thesis by (simp add: read_item.simps [of E depth r])
  next
    case (2 vs)
    from "1.prems"(3) have adm: "within E depth r" "length vs \<le> max_items (env_limits E) - Suc (rd_items r)"
      unfolding 2 admit_container by (auto simp: got_def split: if_splits)
    from "1.prems"(3) have "got E r (head_bytes 4 (length vs) @ encodings vs)
        (Option.bind (Some (Suc (rd_items r))) (\<lambda>i. admit_all (env_limits E) depth i vs)) r'"
      unfolding 2 encoding_container admit_container using adm by simp
    then obtain r2 where r2: "got E r (head_bytes 4 (length vs)) (Some (Suc (rd_items r))) r2"
      "got E r2 (encodings vs) (admit_all (env_limits E) depth (rd_items r2) vs) r'"
      unfolding got_seq [symmetric] by blast
    have "list_all value_wf vs" using "1.prems"(2) 2 by (simp add: value_wf_container)
    from "1.IH"(1) [OF 2 plain this r2(2)] read_item_container [OF plain adm(1) r2(1)] adm(2) 2
    show ?thesis by simp
  next
    case (3 ms)
    from "1.prems"(3) have adm: "within E depth r" "distinct (map fst ms)"
      "length ms \<le> (max_items (env_limits E) - Suc (rd_items r)) div 2"
      unfolding 3 admit_container by (auto simp: got_def split: if_splits)
    from "1.prems"(3) have "got E r (head_bytes 5 (length ms) @ member_encodings ms)
        (Option.bind (Some (Suc (rd_items r))) (\<lambda>i. admit_members (env_limits E) depth i ms)) r'"
      unfolding 3 encoding_container admit_container using adm by simp
    then obtain r2 where r2: "got E r (head_bytes 5 (length ms)) (Some (Suc (rd_items r))) r2"
      "got E r2 (member_encodings ms) (admit_members (env_limits E) depth (rd_items r2) ms) r'"
      unfolding got_seq [symmetric] by blast
    have "list_all (\<lambda>m. value_wf (snd m)) ms" using "1.prems"(2) 3 by (simp add: value_wf_container)
    from "1.IH"(2) [OF 3 plain this adm(2) _ r2(2), of "[]" "[]"] read_item_container [OF plain adm(1) r2(1)] adm(3) 3
    show ?thesis by simp
  qed
next
  case 2
  then show ?case by (simp add: read_values.simps)
next
  case (3 v vs)
  from "3.prems"(3) have "got E r (encoding v @ encodings vs) (Option.bind
      (admit (env_limits E) (Suc depth) (rd_items r) v) (\<lambda>i. admit_all (env_limits E) depth i vs)) r'" by simp
  then obtain r1 where r1: "got E r (encoding v) (admit (env_limits E) (Suc depth) (rd_items r) v) r1"
    "got E r1 (encodings vs) (admit_all (env_limits E) depth (rd_items r1) vs) r'"
    unfolding got_seq [symmetric] by blast
  have wf: "value_wf v" "list_all value_wf vs" using "3.prems"(2) by simp_all
  from "3.IH"(1) [OF "3.prems"(1) wf(1) r1(1)] "3.IH"(2) [OF "3.prems"(1) wf(2) r1(2)]
  show ?case by (simp add: read_values.simps [of E depth "Suc (length vs)"])
next
  case 4
  then show ?case by (simp add: read_members.simps)
next
  case (5 m ms)
  obtain name v where m: "m = (name, v)" by fastforce
  let ?x = "\<lparr>pe_name = name, pe_object_kind = kind\<rparr>"
  let ?kind = "if name = kind_key then (case v of VText t \<Rightarrow> t | _ \<Rightarrow> kind) else kind"
  from "5.prems"(5) have "got E r (scalar_bytes (SText name) @ encoding v @ member_encodings ms)
      (Option.bind (admit (env_limits E) (Suc depth) (rd_items r) (VText name)) (\<lambda>i.
        Option.bind (admit (env_limits E) (Suc depth) i v) (\<lambda>j. admit_members (env_limits E) depth j ms))) r'"
    unfolding m member_encodings.simps admit_members.simps fst_conv snd_conv admit_key .
  then obtain r1 r2 where
    k: "got E r (scalar_bytes (SText name)) (admit (env_limits E) (Suc depth) (rd_items r) (VText name)) r1"
    and v: "got E r1 (encoding v) (admit (env_limits E) (Suc depth) (rd_items r1) v) r2"
    and tail: "got E r2 (member_encodings ms) (admit_members (env_limits E) depth (rd_items r2) ms) r'"
    unfolding got_seq [symmetric] by blast
  have key: "read_object_key E (Suc depth) r = Inr (name, r1)"
    using k unfolding read_object_key_Inr [OF "5.prems"(1)] .
  have fresh: "name \<notin> set names" "distinct (map fst ms)" "set (map fst ms) \<inter> set (name # names) = {}"
    using "5.prems"(3,4) m by auto
  have wf: "value_wf (snd m)" "list_all (\<lambda>m. value_wf (snd m)) ms" using "5.prems"(2) m by simp_all
  let ?push = "r1\<lparr>rd_path := rd_path r1 @ [?x]\<rparr>"
  have "r2\<lparr>rd_path := rd_path r1\<rparr> = r2" using got_fields [OF v] by (cases r2) simp
  then have "got E ?push (encoding (snd m)) (admit (env_limits E) (Suc depth) (rd_items ?push) (snd m))
      (r2\<lparr>rd_path := rd_path r1 @ [?x]\<rparr>)"
    using v m unfolding got_path by simp
  from "5.IH"(1) [OF "5.prems"(1) wf(1) this]
  have item: "read_item E (Suc depth) ?push = Inr (v, r2\<lparr>rd_path := rd_path r1 @ [?x]\<rparr>)" using m by simp
  have "r2\<lparr>rd_path := butlast (rd_path r1 @ [?x])\<rparr> = r2" using got_fields [OF v] by simp
  with "5.IH"(2) [OF "5.prems"(1) wf(2) fresh(2,3) tail, of ?kind] key fresh(1) item m
  show ?case by (simp add: read_members.simps [of E depth "Suc (length ms)"])
qed

section \<open>Documents\<close>

definition limits_ok :: "limits \<Rightarrow> bool" where
  "limits_ok l \<longleftrightarrow> allows l = None \<and> max_bytes l \<le> size_max \<and> max_items l \<le> size_max"

text \<open>Reading the whole input: the value that it encodes, and the items it consumed.\<close>

lemma read_value_spec:
  assumes "plain E"
  shows "(\<exists>r. read_value E new_reader = Inr (v, r) \<and> rd_items r = n) \<longleftrightarrow>
    value_wf v \<and> admit (env_limits E) 0 0 v = Some n \<and> encoding v = seg_bytes (env_input E)"
proof -
  have size: "seg_size (env_input E) \<le> max_bytes (env_limits E)" using assms by (simp add: plain_def)
  have n: "rd_items new_reader = 0" by (simp add: new_reader_def)
  have item: "read_item E 0 new_reader = Inr (v, r) \<longleftrightarrow>
      value_wf v \<and> got E new_reader (encoding v) (admit (env_limits E) 0 0 v) r" for r
    using read_item_sound(1) [OF assms, of 0 new_reader v r] read_item_complete(1) [OF assms, of v new_reader 0 r]
    unfolding n by blast
  have "(\<exists>r. read_value E new_reader = Inr (v, r) \<and> rd_items r = n) \<longleftrightarrow>
      (\<exists>r. read_item E 0 new_reader = Inr (v, r) \<and> rd_offset r = seg_size (env_input E) \<and> rd_items r = n)"
    using size by (auto simp: read_value_def read_document_def finish_def bindr_Inr_iff)
  also have "\<dots> \<longleftrightarrow> value_wf v \<and> (\<exists>r. got E new_reader (encoding v) (admit (env_limits E) 0 0 v) r \<and>
      rd_offset r = seg_size (env_input E) \<and> rd_items r = n)" unfolding item by blast
  also have "(\<exists>r. got E new_reader (encoding v) (admit (env_limits E) 0 0 v) r \<and>
      rd_offset r = seg_size (env_input E) \<and> rd_items r = n) \<longleftrightarrow>
      admit (env_limits E) 0 0 v = Some n \<and> take (length (encoding v)) (seg_bytes (env_input E)) = encoding v \<and>
      length (encoding v) = seg_size (env_input E)"
    by (auto simp: got_alt takes_def rest_def advance_by_def new_reader_def)
  also have "\<dots> \<longleftrightarrow> admit (env_limits E) 0 0 v = Some n \<and> encoding v = seg_bytes (env_input E)"
    by (metis length_seg_bytes order_refl take_all)
  finally show ?thesis .
qed

theorem decode_spec:
  assumes "limits_ok l"
  shows "decode segments l = Inr v \<longleftrightarrow>
    value_wf v \<and> admit l 0 0 v \<noteq> None \<and> encoding v = seg_bytes segments \<and> seg_size segments \<le> max_bytes l"
proof (cases "seg_size segments \<le> max_bytes l")
  case False
  then show ?thesis by (simp add: decode_def read_value_def read_document_def)
next
  case True
  let ?E = "\<lparr>env_input = segments, env_limits = l\<rparr>"
  have "plain ?E" using assms True by (simp add: plain_def limits_ok_def)
  from read_value_spec [OF this, of v] True show ?thesis
    by (auto simp: decode_def bindr_Inr_iff)
qed

end
