(* ===== verification/Cbor_Roundtrip.thy ===== *)
theory Cbor_Roundtrip
  imports Cbor_Encode Cbor_Decode
begin

text \<open>
  The encoder and the decoder are inverse to each other, and the decoder does not see where its input
  is split. Both follow from the abstract wire format that each of them implements.
\<close>

section \<open>Segments\<close>

text \<open>Two environments over the same bytes and the same limits.\<close>

definition same_bytes :: "reader_env \<Rightarrow> reader_env \<Rightarrow> bool" where
  "same_bytes E F \<longleftrightarrow> seg_bytes (env_input E) = seg_bytes (env_input F) \<and> env_limits E = env_limits F"

lemma same_bytes_size:
  assumes "same_bytes E F"
  shows "seg_size (env_input E) = seg_size (env_input F)" "env_limits E = env_limits F"
    "rest E r = rest F r"
proof -
  have "length (seg_bytes (env_input E)) = length (seg_bytes (env_input F))"
    using assms by (simp add: same_bytes_def)
  then show "seg_size (env_input E) = seg_size (env_input F)" by simp
qed (use assms in \<open>simp_all add: same_bytes_def rest_def\<close>)

lemma peek_byte_bytes:
  "peek_byte E r = (if rd_offset r \<ge> seg_size (env_input E) then Inl (reader_error r UnexpectedEof)
     else Inr (seg_bytes (env_input E) ! rd_offset r))"
  by (auto simp: peek_byte_def Let_def seg_bytes_def nth_append)

lemma same_peek: "same_bytes E F \<Longrightarrow> peek_byte E r = peek_byte F r"
  by (simp add: peek_byte_bytes same_bytes_size) (simp add: same_bytes_def)

lemma same_read_byte: "same_bytes E F \<Longrightarrow> read_byte E r = read_byte F r"
  by (simp add: read_byte_def same_peek)

lemma same_big_endian: "same_bytes E F \<Longrightarrow> big_endian E n v r = big_endian F n v r"
  by (induction n arbitrary: v r) (auto simp: same_read_byte intro!: bindr_cong)

lemma same_argument: "same_bytes E F \<Longrightarrow> argument E a r = argument F a r"
  by (simp add: argument_def Let_def same_big_endian)

lemma same_size_argument: "same_bytes E F \<Longrightarrow> size_argument E a r = size_argument F a r"
  by (simp add: size_argument_def same_argument)

lemma same_item_head: "same_bytes E F \<Longrightarrow> item_head E depth r = item_head F depth r"
  by (simp add: item_head_def same_bytes_size same_read_byte)

lemma same_allocation: "same_bytes E F \<Longrightarrow> allocation_allowed E k n r = allocation_allowed F k n r"
  by (simp add: allocation_allowed_def same_bytes_size)

lemma read_bytes_rest:
  "read_bytes E count r =
     (if count > seg_size (env_input E) - rd_offset r then Inl (reader_error r UnexpectedEof)
      else if count > max_bytes (env_limits E) - rd_offset r then Inl (reader_error r LimitExceeded)
      else Inr (take count (rest E r), r\<lparr>rd_offset := rd_offset r + count\<rparr>))"
  using payload_bytes [of count E r] by (auto simp: read_bytes_def validated_payload_ranges_def)

lemma read_text_rest:
  "read_text E count r =
     (if count > seg_size (env_input E) - rd_offset r then Inl (reader_error r UnexpectedEof)
      else if count > max_bytes (env_limits E) - rd_offset r then Inl (reader_error r LimitExceeded)
      else let r' = r\<lparr>rd_offset := rd_offset r + count\<rparr> in
        if valid_utf8 (take count (rest E r)) then Inr (take count (rest E r), r')
        else Inl (reader_error r' InvalidUtf8))"
  using payload_bytes [of count E r] by (auto simp: read_text_def validated_payload_ranges_def Let_def)

lemma same_simple: "same_bytes E F \<Longrightarrow> read_simple E n r = read_simple F n r"
  by (simp add: read_simple_def read_half_float_def read_single_float_def read_double_float_def same_big_endian)

lemma same_scalar:
  assumes "same_bytes E F"
  shows "read_flat_scalar E head p True r = read_flat_scalar F head p True r"
  by (simp add: read_flat_scalar_def read_bytes_rest read_text_rest same_simple [OF assms]
      same_argument [OF assms] same_allocation [OF assms] same_bytes_size [OF assms] Let_def cong: if_cong)

lemma same_object_key: "same_bytes E F \<Longrightarrow> read_object_key E depth r = read_object_key F depth r"
  by (simp add: read_object_key_def read_scalar_item_def same_item_head same_scalar)

lemma same_read_item:
  "same_bytes E F \<Longrightarrow> read_item E depth r = read_item F depth r"
  "same_bytes E F \<Longrightarrow> read_values E depth n r = read_values F depth n r"
  "same_bytes E F \<Longrightarrow> read_members E depth n names kind r = read_members F depth n names kind r"
proof (induction E depth r and E depth n r and E depth n names kind r
    rule: read_item_read_values_read_members.induct)
  case (1 E depth r)
  note same = same_item_head [OF "1.prems"] same_scalar [OF "1.prems"] same_size_argument [OF "1.prems"]
    same_allocation [OF "1.prems"] same_bytes_size(2) [OF "1.prems"]
  note unfold = read_item.simps [of E depth r] read_item.simps [of F depth r]
  show ?case
  proof (cases "item_head E depth r")
    case (Inl e)
    then show ?thesis by (simp add: unfold same [symmetric])
  next
    case (Inr x)
    obtain head r1 where x: "x = (head, r1)" by fastforce
    show ?thesis
    proof (cases "ih_major head \<noteq> 4 \<and> ih_major head \<noteq> 5")
      case True
      with Inr x show ?thesis by (simp add: unfold same)
    next
      case con: False
      show ?thesis
      proof (cases "size_argument E (ih_additional head) r1")
        case (Inl e)
        with con Inr x show ?thesis by (simp add: unfold same [symmetric]) blast
      next
        case sz: (Inr y)
        obtain count r2 where y: "y = (count, r2)" by fastforce
        note ih = "1.IH" [OF Inr x [symmetric] con sz y [symmetric] _ _ _ "1.prems"]
        from con Inr x sz y show ?thesis
          by (cases "ih_major head = 4") (simp_all add: unfold same [symmetric] ih)
      qed
    qed
  qed
next
  case (2 E depth n r)
  show ?case
    unfolding read_values.simps [of E depth n r] read_values.simps [of F depth n r]
    using 2 by (auto intro!: bindr_cong)
next
  case (3 E depth n names kind r)
  show ?case
    unfolding read_members.simps [of E depth n names kind r] read_members.simps [of F depth n names kind r]
    using 3 by (auto simp: same_object_key [OF "3.prems"] Let_def intro!: bindr_cong)
qed

text \<open>Part of a budget used up beforehand is part of a smaller budget.\<close>

lemma admit_rest:
  assumes "max_items k = max_items l - n" "max_depth k = max_depth l - d" "n \<le> max_items l" "d \<le> max_depth l"
  shows "admit l (d + depth) (n + i) v = map_option ((+) n) (admit k depth i v)"
    "admit_all l (d + depth) (n + i) vs = map_option ((+) n) (admit_all k depth i vs)"
    "admit_members l (d + depth) (n + i) ms = map_option ((+) n) (admit_members k depth i ms)"
  using assms
proof (induction k depth i v and k depth i vs and k depth i ms rule: admit_admit_all_admit_members.induct)
  case (1 k depth i v)
  have g: "d + depth \<le> max_depth l \<longleftrightarrow> depth \<le> max_depth k" "n + i < max_items l \<longleftrightarrow> i < max_items k"
    "max_items l - Suc (n + i) = max_items k - Suc i" using "1.prems" by auto
  show ?case
  proof (cases "depth \<le> max_depth k \<and> i < max_items k")
    case False
    then show ?thesis using g by (auto simp: admit.simps)
  next
    case True
    then have in_limits: "\<not> (depth > max_depth k \<or> i \<ge> max_items k)" by auto
    show ?thesis
    proof (cases v rule: value_cases_scalar)
      case 1
      then show ?thesis using g True by (simp add: admit_scalar)
    next
      case (2 vs)
      then show ?thesis using g True "1.IH"(1) [OF in_limits 2 _ "1.prems"] by (simp add: admit_container)
    next
      case (3 ms)
      then show ?thesis using g True "1.IH"(2) [OF in_limits 3 _ "1.prems"] by (auto simp: admit_container)
    qed
  qed
next
  case (3 k depth i v vs)
  show ?case using "3.IH"(1) [OF "3.prems"] "3.IH"(2) [OF _ "3.prems"]
    by (cases "admit k (Suc depth) i v") simp_all
next
  case (5 k depth i m ms)
  have g: "Suc (d + depth) > max_depth l \<longleftrightarrow> Suc depth > max_depth k" "n + i \<ge> max_items l \<longleftrightarrow> i \<ge> max_items k"
    using "5.prems" by auto
  show ?case
  proof (cases "Suc depth > max_depth k \<or> i \<ge> max_items k \<or> \<not> valid_utf8 (fst m)")
    case True
    then show ?thesis using g by auto
  next
    case False
    then show ?thesis using g "5.IH"(1) [OF _ "5.prems", of "Suc i"] "5.IH"(2) [OF _ _ "5.prems", of "Suc i"]
      by (cases "admit k (Suc depth) (Suc i) (snd m)") simp_all
  qed
qed simp_all

section \<open>Properties\<close>

text \<open>
  C1: the wire format is canonical. Under the same limits and with no allocation policy, decoding
  yields a value exactly when the value is well formed and the input is what the encoder writes for
  it: every encoding decodes to the value it came from, and every accepted input is re-encoded byte
  for byte.
\<close>

theorem decode_iff_encode:
  assumes "limits_ok l"
  shows "decode segments l = Inr v \<longleftrightarrow>
    value_wf v \<and> encode v destination l = (None, seg_bytes segments)"
proof -
  have size: "length (encoding v) = seg_size segments" if "encoding v = seg_bytes segments"
    by (simp only: that length_seg_bytes)
  show ?thesis
    unfolding decode_spec [OF assms] encode_exact by (rule iffI; elim conjE; intro conjI; simp add: size)
qed

definition example_limits :: limits where
  "example_limits = \<lparr>max_bytes = 100, max_items = 10, max_depth = 4, allows = None\<rparr>"

definition example_value :: wire_value where
  "example_value = VObject [([97], VArray [VUInt 500, VNull]), ([98], VText [104, 105])]"

lemma example_encoding:
  "encoding example_value = [0xa2, 0x61, 97, 0x82, 0x19, 1, 244, 0xf6, 0x61, 98, 0x62, 104, 105]"
proof -
  have two: "be_bytes 2 500 = [1, 244]" unfolding numeral_2_eq_2 by simp
  have heads: "head_bytes 5 2 = [0xa2]" "head_bytes 3 1 = [0x61]" "head_bytes 3 2 = [0x62]"
    "head_bytes 4 2 = [0x82]" "head_bytes 0 500 = [0x19, 1, 244]"
    using two by (simp_all add: head_bytes_def head_size_def additional_info_for_head_size_def)
  have leaves: "encoding (VUInt 500) = head_bytes 0 500" "encoding VNull = [0xf6]"
    "encoding (VText t) = head_bytes 3 (length t) @ t" for t
    by (subst encoding.simps, simp)+
  show ?thesis by (simp add: example_value_def encoding_container leaves heads [unfolded numeral_2_eq_2 One_nat_def])
qed

lemma example_admitted: "admit example_limits 0 0 example_value = Some 7" "value_wf example_value"
proof -
  have "valid_utf8 [97]" "valid_utf8 [98]" "valid_utf8 [104, 105]"
    by (simp_all add: valid_utf8.simps utf8_prefix_length_def)
  then show "admit example_limits 0 0 example_value = Some 7"
    by (simp add: example_value_def example_limits_def admit.simps)
  show "value_wf example_value" by (simp add: example_value_def value_wf.simps)
qed

theorem decode_iff_encode_witness:
  "decode \<lparr>seg_first = [0xa2, 0x61, 97, 0x82, 0x19, 1], seg_second = [244, 0xf6, 0x61, 98, 0x62, 104, 105]\<rparr>
     example_limits = Inr example_value"
proof -
  have ok: "limits_ok example_limits" by (simp add: limits_ok_def example_limits_def)
  have "encode example_value [] example_limits = (None, seg_bytes
      \<lparr>seg_first = [0xa2, 0x61, 97, 0x82, 0x19, 1], seg_second = [244, 0xf6, 0x61, 98, 0x62, 104, 105]\<rparr>)"
    unfolding encode_exact example_encoding
    by (simp add: example_admitted seg_bytes_def) (simp add: example_limits_def)
  with example_admitted(2) show ?thesis using decode_iff_encode [OF ok] by blast
qed

text \<open>
  C6: decoding does not depend on where the input is split into its two segments: value, error code,
  offset and path are those of the contiguous input, for every input, every limit and every
  allocation policy.
\<close>

theorem decode_contiguous:
  "decode \<lparr>seg_first = xs, seg_second = ys\<rparr> l = decode \<lparr>seg_first = xs @ ys, seg_second = []\<rparr> l"
proof -
  let ?E = "\<lparr>env_input = \<lparr>seg_first = xs, seg_second = ys\<rparr>, env_limits = l\<rparr>"
  let ?F = "\<lparr>env_input = \<lparr>seg_first = xs @ ys, seg_second = []\<rparr>, env_limits = l\<rparr>"
  have same: "same_bytes ?E ?F" by (simp add: same_bytes_def seg_bytes_def)
  show ?thesis
    using same_read_item(1) [OF same] same_bytes_size(1) [OF same]
    by (simp add: decode_def read_value_def read_document_def finish_def)
qed

text \<open>
  C10: appending a raw item to a growing buffer, at any depth and after anything the writer has
  written before. It succeeds exactly when the item is the canonical encoding of one value that fits
  into what is left of the limits on items, depth and bytes; then exactly its bytes are appended and
  its items are added to those counted before. Otherwise the writer is as it was.
\<close>

theorem append_raw_item_all_or_nothing:
  assumes "wr_dynamic w = Some destination" "\<not> wr_count_only w"
    and "max_items (wr_limits w) \<le> size_max" "seg_size item \<le> size_max"
  shows "(append_raw_item_at w item depth = (None, w') \<longleftrightarrow>
      (\<exists>v n. value_wf v \<and> encoding v = seg_bytes item \<and> admit (wr_limits w) depth (wr_items w) v = Some n \<and>
        length destination + seg_size item \<le> max_bytes (wr_limits w) \<and>
        w' = w\<lparr>wr_dynamic := Some (destination @ seg_bytes item), wr_items := n\<rparr>)) \<and>
    (append_raw_item_at w item depth = (Some e, w') \<longrightarrow> w' = w)"
proof (cases "depth \<le> max_depth (wr_limits w)")
  case False
  then show ?thesis by (auto simp: append_raw_item_at_def admit.simps)
next
  case True
  let ?l = "wr_limits w"
  let ?k = "\<lparr>max_bytes = seg_size item,
      max_items = (if wr_items w \<le> max_items ?l then max_items ?l - wr_items w else 0),
      max_depth = max_depth ?l - depth, allows = None\<rparr>"
  let ?E = "\<lparr>env_input = item, env_limits = ?k\<rparr>"
  have budget: "admit ?l depth (wr_items w) v = map_option ((+) (wr_items w)) (admit ?k 0 0 v)" for v
  proof (cases "wr_items w \<le> max_items ?l")
    case items: True
    show ?thesis using admit_rest(1) [of ?k ?l "wr_items w" depth 0 0 v] items True by simp
  qed (simp add: admit.simps)
  have "plain ?E" using assms(3,4) by (auto simp: plain_def intro: order_trans [OF diff_le_self])
  note spec = read_value_spec [OF this, simplified]
  have run: "append_raw_item_at w item depth =
      (case read_value ?E new_reader of Inl e \<Rightarrow> (Some e, w)
       | Inr (v, r) \<Rightarrow>
           if length destination + seg_size item \<le> max_bytes ?l
           then (None, w\<lparr>wr_dynamic := Some (destination @ seg_bytes item), wr_items := wr_items w + rd_items r\<rparr>)
           else (Some (encode_error LimitExceeded), w))"
    using assms(1,2) True
    by (auto simp: append_raw_item_at_def Let_def write_append_def destination_size_def truncate_to_def
        fits_remaining_def seg_size_def seg_bytes_def split: sum.split prod.split)
  show ?thesis
  proof (cases "read_value ?E new_reader")
    case (Inl e')
    then have "\<not> (value_wf v \<and> admit ?k 0 0 v = Some n \<and> encoding v = seg_bytes item)" for v n
      using spec [of v n] by simp
    then show ?thesis using Inl by (auto simp: run budget)
  next
    case (Inr x)
    obtain v r where x: "read_value ?E new_reader = Inr (v, r)" using Inr by (cases x) auto
    have same: "value_wf u \<and> admit ?k 0 0 u = Some n \<and> encoding u = seg_bytes item \<longleftrightarrow> u = v \<and> n = rd_items r" for u n
      using spec [of u n] x by auto
    have v: "value_wf v" "encoding v = seg_bytes item" "admit ?k 0 0 v = Some (rd_items r)"
      using same [of v "rd_items r"] by simp_all
    have unique: "n = rd_items r" if "value_wf u" "encoding u = seg_bytes item" "admit ?k 0 0 u = Some n" for u n
      using same [of u n] that by blast
    have "admit ?l depth (wr_items w) v = Some (wr_items w + rd_items r)" by (simp only: budget v option.map)
    then have "\<exists>u n. value_wf u \<and> encoding u = seg_bytes item \<and> admit ?l depth (wr_items w) u = Some n \<and>
        n = wr_items w + rd_items r" using v by blast
    moreover have "n = wr_items w + rd_items r"
      if "value_wf u" "encoding u = seg_bytes item" "admit ?l depth (wr_items w) u = Some n" for u n
      using that(3) unique [OF that(1,2)] unfolding budget map_option_eq_Some by blast
    ultimately have "(\<exists>u n. value_wf u \<and> encoding u = seg_bytes item \<and> admit ?l depth (wr_items w) u = Some n \<and>
        length destination + seg_size item \<le> max_bytes ?l \<and>
        w' = w\<lparr>wr_dynamic := Some (destination @ seg_bytes item), wr_items := n\<rparr>) \<longleftrightarrow>
      length destination + seg_size item \<le> max_bytes ?l \<and>
        w' = w\<lparr>wr_dynamic := Some (destination @ seg_bytes item), wr_items := wr_items w + rd_items r\<rparr>" by blast
    then show ?thesis using x unfolding run by auto
  qed
qed

text \<open>The second of two appended items, with one item counted before.\<close>

theorem append_raw_item_all_or_nothing_witness:
  "append_raw_item_at ((dynamic_writer [7] example_limits None)\<lparr>wr_items := 1\<rparr>) \<lparr>seg_first = [0xf6], seg_second = []\<rparr> 0
     = (None, (dynamic_writer [7, 0xf6] example_limits None)\<lparr>wr_items := 2\<rparr>)"
proof -
  let ?w = "(dynamic_writer [7] example_limits None)\<lparr>wr_items := 1\<rparr>"
  let ?item = "\<lparr>seg_first = [0xf6], seg_second = []\<rparr> :: byte_segments"
  have w: "wr_dynamic ?w = Some [7]" "\<not> wr_count_only ?w" "max_items (wr_limits ?w) \<le> size_max" "seg_size ?item \<le> size_max"
    by (simp_all add: dynamic_writer_def example_limits_def seg_size_def)
  have v: "value_wf VNull" "encoding VNull = seg_bytes ?item" "admit (wr_limits ?w) 0 (wr_items ?w) VNull = Some 2"
    by (simp_all add: value_wf.simps encoding.simps seg_bytes_def admit.simps dynamic_writer_def example_limits_def)
  have new: "(dynamic_writer [7, 0xf6] example_limits None)\<lparr>wr_items := 2\<rparr> =
      ?w\<lparr>wr_dynamic := Some ([7] @ seg_bytes ?item), wr_items := 2\<rparr>" by (simp add: dynamic_writer_def seg_bytes_def)
  have "length [7 :: byte] + seg_size ?item \<le> max_bytes (wr_limits ?w)"
    by (simp add: dynamic_writer_def example_limits_def seg_size_def)
  then show ?thesis
    using conjunct1 [OF append_raw_item_all_or_nothing [OF w, of 0 "?w\<lparr>wr_dynamic := Some ([7] @ seg_bytes ?item), wr_items := 2\<rparr>"]] v
    unfolding new by blast
qed

end
