(* ===== verification/Cbor_Structural.thy ===== *)
theory Cbor_Structural
  imports Cbor_Decode
begin

text \<open>
  The structural validator of \<open>src/frameworks/serialization/cbor_wire.cpp\<close>: \<open>read_item\<close> with
  \<open>materialize\<close> off, which builds no value and keeps the keys of every open object as offsets in a
  hash table carved out of the caller's scratch span. It is proved to accept exactly the documents that
  the materialising decoder accepts, so that the hash, the probing and the nesting of the tables in one
  span are invisible to the caller.
\<close>

section \<open>State\<close>

text \<open>The members of the reader that the materialising reads never touch.\<close>

record structural =
  st_reader :: reader
  st_scratch :: "u32 list"
  st_cursor :: nat

record text_range =
  tr_item_offset :: nat
  tr_data_offset :: nat
  tr_size :: nat

text \<open>\<open>subspan\<close> of the scratch span, and the span once a table at \<open>base\<close> has been written through it.\<close>

definition subspan :: "nat \<Rightarrow> nat \<Rightarrow> 'a list \<Rightarrow> 'a list" where
  "subspan base n xs = take n (drop base xs)"

definition write_span :: "nat \<Rightarrow> 'a list \<Rightarrow> 'a list \<Rightarrow> 'a list" where
  "write_span base table xs = take base xs @ table @ drop (base + length table) xs"

section \<open>Keys\<close>

definition range_bytes :: "reader_env \<Rightarrow> text_range \<Rightarrow> byte list" where
  "range_bytes E key = subspan (tr_data_offset key) (tr_size key) (seg_first (env_input E))"

definition read_structural_object_key ::
    "reader_env \<Rightarrow> nat \<Rightarrow> reader \<Rightarrow> wire_error + text_range \<times> reader" where
  "read_structural_object_key E depth r =
     bindr (item_head E depth r) (\<lambda>(head, r1).
       if ih_major head \<noteq> 3 then Inl (reader_error r1 TypeMismatch)
       else bindr (size_argument E (ih_additional head) r1) (\<lambda>(count, r2).
         if count > seg_size (env_input E) - rd_offset r2 then Inl (reader_error r2 UnexpectedEof)
         else if rd_offset r2 > max_bytes (env_limits E) \<or> count > max_bytes (env_limits E) - rd_offset r2
         then Inl (reader_error r2 LimitExceeded)
         else let key = \<lparr>tr_item_offset = rd_offset r, tr_data_offset = rd_offset r2, tr_size = count\<rparr> in
           if \<not> valid_utf8 (range_bytes E key) then Inl (reader_error r2 InvalidUtf8)
           else Inr (key, r2\<lparr>rd_offset := rd_offset r2 + count\<rparr>)))"

text \<open>The probe loop: \<open>n\<close> probes are left. \<open>previous\<close> is the reader that reads a stored key again.\<close>

definition previous :: "u32 \<Rightarrow> reader" where
  "previous stored = new_reader\<lparr>rd_offset := unat (stored - 1)\<rparr>"

fun insert_probe ::
    "reader_env \<Rightarrow> reader \<Rightarrow> text_range \<Rightarrow> nat \<Rightarrow> nat \<Rightarrow> u32 list \<Rightarrow> wire_error + u32 list" where
  "insert_probe E r key slot 0 table = Inl (reader_error r LimitExceeded)"
| "insert_probe E r key slot (Suc n) table =
     (let stored = table ! slot in
      if stored = 0 then Inr (table[slot := of_nat (tr_item_offset key + 1)])
      else case read_structural_object_key E 0 (previous stored) of
        Inl _ \<Rightarrow> Inl (reader_error r MalformedItem)
      | Inr (previous_key, _) \<Rightarrow>
          if range_bytes E key = range_bytes E previous_key then Inl (reader_error r DuplicateKey)
          else insert_probe E r key (if slot + 1 = length table then 0 else slot + 1) n table)"

text \<open>
  \<open>salt\<close> is the exclusive or of the addresses of the input and of the table, which the model takes as
  a parameter.
\<close>

definition insert_structural_object_key ::
    "reader_env \<Rightarrow> u64 \<Rightarrow> reader \<Rightarrow> text_range \<Rightarrow> u32 list \<Rightarrow> wire_error + u32 list" where
  "insert_structural_object_key E salt r key table =
     (if table = [] \<or> tr_item_offset key \<ge> 4294967295 then Inl (reader_error r LimitExceeded)
      else insert_probe E r key
        (unat (structural_key_hash (range_bytes E key) salt) mod length table) (length table) table)"

section \<open>Recursive descent\<close>

text \<open>
  \<open>scan_values\<close> and \<open>scan_members\<close> are the loops over the elements and the members; the table of the
  members occupies \<open>n_table\<close> entries from \<open>base\<close>. The salt of a table depends on its base.
\<close>

function scan_item :: "reader_env \<Rightarrow> (nat \<Rightarrow> u64) \<Rightarrow> nat \<Rightarrow> structural \<Rightarrow> wire_error + structural"
  and scan_values :: "reader_env \<Rightarrow> (nat \<Rightarrow> u64) \<Rightarrow> nat \<Rightarrow> nat \<Rightarrow> structural \<Rightarrow> wire_error + structural"
  and scan_members :: "reader_env \<Rightarrow> (nat \<Rightarrow> u64) \<Rightarrow> nat \<Rightarrow> nat \<Rightarrow> nat \<Rightarrow> nat \<Rightarrow> structural
        \<Rightarrow> wire_error + structural" where
  "scan_item E salt depth s =
     bindr (item_head E depth (st_reader s)) (\<lambda>(head, r1).
       if ih_major head \<noteq> 4 \<and> ih_major head \<noteq> 5
       then bindr (read_flat_scalar E head False False r1) (\<lambda>(_, r2). Inr (s\<lparr>st_reader := r2\<rparr>))
       else bindr (size_argument E (ih_additional head) r1) (\<lambda>(count, r2).
         if ih_major head = 4 then
           (if \<not> fits_remaining count (rd_items r2) (max_items (env_limits E))
            then Inl (reader_error r2 LimitExceeded)
            else scan_values E salt depth count (s\<lparr>st_reader := r2\<rparr>))
         else
           (if count > (max_items (env_limits E) - rd_items r2) div 2
            then Inl (reader_error r2 LimitExceeded)
            else if st_cursor s > length (st_scratch s) then Inl (reader_error r2 LimitExceeded)
            else if count > (length (st_scratch s) - st_cursor s) div 2
            then Inl (reader_error r2 LimitExceeded)
            else let previous_cursor = st_cursor s; table_size = count * 2 in
              bindr (scan_members E salt depth count previous_cursor table_size
                \<lparr>st_reader = r2,
                 st_scratch = write_span previous_cursor (replicate table_size 0) (st_scratch s),
                 st_cursor = previous_cursor + table_size\<rparr>) (\<lambda>s'.
              Inr (s'\<lparr>st_cursor := previous_cursor\<rparr>)))))"
| "scan_values E salt depth n s =
     (if n = 0 then Inr s
      else bindr (scan_item E salt (depth + 1) s) (\<lambda>s'. scan_values E salt depth (n - 1) s'))"
| "scan_members E salt depth n base n_table s =
     (if n = 0 then Inr s
      else bindr (read_structural_object_key E (depth + 1) (st_reader s)) (\<lambda>(key, r1).
        bindr (insert_structural_object_key E (salt base) r1 key (subspan base n_table (st_scratch s))) (\<lambda>table.
          bindr (scan_item E salt (depth + 1)
              (s\<lparr>st_reader := r1, st_scratch := write_span base table (st_scratch s)\<rparr>)) (\<lambda>s'.
            scan_members E salt depth (n - 1) base n_table s'))))"
  by pat_completeness auto

termination
  by (relation "inv_image (less_than <*lex*> less_than) (\<lambda>x. case x of
        Inl (E, salt, depth, s) \<Rightarrow> (if depth > max_depth (env_limits E) then 0
                            else 2 * (max_depth (env_limits E) + 1 - depth) + 1, 0)
      | Inr (Inl (E, salt, depth, n, s)) \<Rightarrow> (if depth > max_depth (env_limits E) then 1
                            else 2 * (max_depth (env_limits E) + 1 - depth), n)
      | Inr (Inr (E, salt, depth, n, base, k, s)) \<Rightarrow> (if depth > max_depth (env_limits E) then 1
                            else 2 * (max_depth (env_limits E) + 1 - depth), n))")
    (auto dest: item_head_depth)

declare scan_item.simps [simp del] scan_values.simps [simp del] scan_members.simps [simp del]

definition validate_structural :: "reader_env \<Rightarrow> (nat \<Rightarrow> u64) \<Rightarrow> structural \<Rightarrow> wire_error + unit" where
  "validate_structural E salt s =
     (let r = st_reader s; input = env_input E in
      if seg_second input \<noteq> [] then Inl (reader_error r MalformedItem)
      else if seg_size input > max_bytes (env_limits E) then Inl (reader_error r LimitExceeded)
      else if seg_size input \<ge> 4294967295 \<or> length (st_scratch s) < max_items (env_limits E)
      then Inl (reader_error r LimitExceeded)
      else bindr (scan_item E salt 0 (s\<lparr>st_cursor := 0\<rparr>)) (\<lambda>s'. finish E (st_reader s')))"

definition validate_raw_item_structural ::
    "byte list \<Rightarrow> limits \<Rightarrow> u32 list \<Rightarrow> (nat \<Rightarrow> u64) \<Rightarrow> wire_error + unit" where
  "validate_raw_item_structural bytes l scratch salt =
     validate_structural \<lparr>env_input = \<lparr>seg_first = bytes, seg_second = []\<rparr>, env_limits = l\<rparr> salt
       \<lparr>st_reader = new_reader, st_scratch = scratch, st_cursor = 0\<rparr>"

section \<open>Spans\<close>

lemma length_subspan [simp]: "base + n \<le> length xs \<Longrightarrow> length (subspan base n xs) = n"
  by (simp add: subspan_def)

lemma length_write_span [simp]:
  "base + length table \<le> length xs \<Longrightarrow> length (write_span base table xs) = length xs"
  by (simp add: write_span_def)

lemma subspan_write_span [simp]:
  "base + length table \<le> length xs \<Longrightarrow> subspan base (length table) (write_span base table xs) = table"
  by (simp add: write_span_def subspan_def)

lemma take_write_span [simp]:
  "base \<le> length xs \<Longrightarrow> take base (write_span base table xs) = take base xs"
  by (simp add: write_span_def)

lemma subspan_take:
  assumes "take m xs = take m ys" and "base + n \<le> m"
  shows "subspan base n xs = subspan base n ys"
proof -
  have "subspan base n zs = subspan base n (take m zs)" for zs :: "'a list"
    using assms(2) by (simp add: subspan_def drop_take min_def)
  then show ?thesis using assms(1) by metis
qed

lemma take_take_le: "take m xs = take m ys \<Longrightarrow> n \<le> m \<Longrightarrow> take n xs = take n ys"
  by (metis min.absorb1 take_take)

section \<open>Scalars and keys\<close>

definition contiguous :: "reader_env \<Rightarrow> bool" where
  "contiguous E \<longleftrightarrow> plain E \<and> seg_second (env_input E) = [] \<and> seg_size (env_input E) < 4294967295"

lemma contiguous_plain: "contiguous E \<Longrightarrow> plain E"
  by (simp add: contiguous_def)

lemma contiguous_rest: "contiguous E \<Longrightarrow> rest E r = drop (rd_offset r) (seg_first (env_input E))"
  by (simp add: contiguous_def rest_def seg_bytes_def)

lemma scan_scalar:
  assumes "contiguous E"
  shows "(\<exists>x. read_flat_scalar E head False False r = Inr (x, r')) \<longleftrightarrow>
    (\<exists>x. read_flat_scalar E head True True r = Inr (x, r'))"
proof -
  have plain: "plain E" by (rule contiguous_plain [OF assms])
  have allowed: "allocation_allowed E k n q" for k n q
    using plain by (simp add: allocation_allowed_def plain_def)
  have payload: "seg_first (payload_ranges E n q) @ seg_second (payload_ranges E n q)
      = take n (drop (rd_offset q) (seg_first (env_input E)))"
    if "n \<le> seg_size (env_input E) - rd_offset q" for n q
    using payload_bytes [OF that] contiguous_rest [OF assms] by simp
  let ?major = "ih_major head"
  show ?thesis
  proof (cases "?major = 2 \<or> ?major = 3")
    case string: True
    then have m: "?major \<noteq> 7" "\<not> (?major = 4 \<or> ?major = 5)" "\<not> (?major \<noteq> 0 \<and> ?major \<noteq> 1 \<and> ?major \<noteq> 2 \<and> ?major \<noteq> 3)"
      "?major \<noteq> 0" "?major \<noteq> 1" by auto
    note unfolded = read_flat_scalar_def [of E head _ _ r, unfolded Let_def if_not_P [OF m(1)] if_not_P [OF m(2)]
        if_not_P [OF m(3)] if_not_P [OF m(4)] if_not_P [OF m(5)]]
    show ?thesis
    proof (cases "argument E (ih_additional head) r")
      case (Inl e)
      then show ?thesis by (simp add: unfolded)
    next
      case (Inr nq)
      obtain n q where nq: "nq = (n, q)" by fastforce
      let ?text = "take n (drop (rd_offset q) (seg_first (env_input E)))"
      note unfolded = unfolded [unfolded Inr nq bindr.simps prod.case]
      show ?thesis
      proof (cases "validated_payload_ranges E n q")
        case (Inl e)
        then show ?thesis by (simp add: unfolded read_bytes_def read_text_def)
      next
        case (Inr ranges)
        then have "seg_first ranges @ seg_second ranges = ?text"
          using payload [of n q] by (auto simp: validated_Inr [OF plain])
        with Inr string show ?thesis
          by (auto simp: unfolded read_bytes_def read_text_def Let_def allowed)
      qed
    qed
  next
    case False
    then have "read_flat_scalar E head False False r = read_flat_scalar E head True True r"
      by (cases "argument E (ih_additional head) r") (auto simp: read_flat_scalar_def Let_def)
    then show ?thesis by simp
  qed
qed

lemma takes_offset: "takes E r bs r' \<Longrightarrow> rd_offset r \<le> seg_size (env_input E) \<Longrightarrow> rd_offset r' \<le> seg_size (env_input E)"
  by (auto simp: takes_def rest_def advance_by_def dest!: arg_cong [where f = length])

lemma text_head_offset:
  assumes "plain E" and "item_head E depth r = Inr (head, r1)" and "argument E a r1 = Inr (n, q)"
  shows "rd_offset q \<le> seg_size (env_input E)"
proof -
  obtain b where b: "takes E (r\<lparr>rd_items := Suc (rd_items r)\<rparr>) [b] r1"
    using assms(2) by (auto simp: item_head_Inr [OF assms(1)])
  then have "rd_offset r1 \<le> seg_size (env_input E)"
    by (auto simp: takes_def rest_def advance_by_def dest!: arg_cong [where f = length])
  then show ?thesis using takes_offset assms(3) by (auto simp: argument_Inr)
qed

text \<open>A structural key is the key that the materialising reader reads, seen as a range of the input.\<close>

lemma structural_key_iff:
  assumes "contiguous E"
  shows "(\<exists>key. read_structural_object_key E depth r = Inr (key, r') \<and> range_bytes E key = k \<and>
      tr_item_offset key = rd_offset r) \<longleftrightarrow> read_object_key E depth r = Inr (k, r')"
proof (cases "item_head E depth r")
  case (Inl e)
  then show ?thesis by (simp add: read_structural_object_key_def read_object_key_def read_scalar_item_def)
next
  case (Inr hr)
  obtain head r1 where h: "item_head E depth r = Inr (head, r1)" using Inr by (cases hr) auto
  have plain: "plain E" by (rule contiguous_plain [OF assms])
  have allowed: "allocation_allowed E c n q" for c n q
    using plain by (simp add: allocation_allowed_def plain_def)
  have key: "read_object_key E depth r = Inr (k, r') \<longleftrightarrow> read_flat_scalar E head True True r1 = Inr (SText k, r')"
  proof -
    have "(case s of SText key \<Rightarrow> Inr (key, q) | _ \<Rightarrow> Inl e) = Inr (k, r') \<longleftrightarrow> s = SText k \<and> r' = q"
      for s q and e :: wire_error by (cases s) auto
    then show ?thesis by (auto simp: read_object_key_def read_scalar_item_def h bindr_Inr_iff)
  qed
  show ?thesis
  proof (cases "ih_major head = 3")
    case False
    have "read_flat_scalar E head True True r1 \<noteq> Inr (SText k, r')"
      using False
      by (auto simp: read_flat_scalar_def Let_def bindr_Inr_iff read_simple_def read_half_float_def
          read_single_float_def read_double_float_def scalar_of_int64_def split: if_splits)
    then show ?thesis unfolding key using False h by (simp add: read_structural_object_key_def)
  next
    case tagged: True
    show ?thesis
    proof (cases "argument E (ih_additional head) r1")
      case (Inl e)
      then show ?thesis unfolding key using tagged h
        by (simp add: read_structural_object_key_def read_flat_scalar_def size_argument_def)
    next
      case (Inr nq)
      obtain n q where nq: "argument E (ih_additional head) r1 = Inr (n, q)" using Inr by (cases nq) auto
      have off: "rd_offset q \<le> seg_size (env_input E)" "seg_size (env_input E) \<le> max_bytes (env_limits E)"
        using text_head_offset [OF plain h nq] plain by (simp_all add: plain_def)
      let ?bytes = "take n (drop (rd_offset q) (seg_first (env_input E)))"
      have size: "size_argument E (ih_additional head) r1 = Inr (n, q)" "n \<le> size_max"
        using nq by (simp_all add: size_argument_Inr) (auto simp: argument_Inr)
      have "read_flat_scalar E head True True r1 = Inr (SText k, r') \<longleftrightarrow>
          n \<le> seg_size (env_input E) - rd_offset q \<and> valid_utf8 k \<and> k = ?bytes \<and>
          r' = q\<lparr>rd_offset := rd_offset q + n\<rparr>"
        using payload_bytes [of n E q] contiguous_rest [OF assms, of q] tagged nq size(2)
        by (auto simp: read_flat_scalar_def read_text_def Let_def allowed bindr_Inr_iff validated_Inr [OF plain])
      moreover have "\<not> (rd_offset q > max_bytes (env_limits E) \<or> n > max_bytes (env_limits E) - rd_offset q)"
        if "n \<le> seg_size (env_input E) - rd_offset q" using that off by linarith
      ultimately show ?thesis unfolding key using tagged h size
        by (auto simp: read_structural_object_key_def Let_def range_bytes_def subspan_def not_le)
    qed
  qed
qed

section \<open>The table of keys\<close>

text \<open>The key that a table entry stands for.\<close>

definition stored_key :: "reader_env \<Rightarrow> u32 \<Rightarrow> byte list option" where
  "stored_key E stored =
     (if stored = 0 then None
      else case read_object_key E 0 (previous stored) of Inr (k, _) \<Rightarrow> Some k | Inl _ \<Rightarrow> None)"

text \<open>The \<open>i\<close>-th entry that a probe from \<open>h\<close> visits.\<close>

definition probed :: "u32 list \<Rightarrow> nat \<Rightarrow> nat \<Rightarrow> u32" where
  "probed table h i = table ! ((h + i) mod length table)"

definition home :: "u64 \<Rightarrow> byte list \<Rightarrow> nat" where
  "home salt k = unat (structural_key_hash k salt)"

text \<open>
  The table holds exactly \<open>names\<close>, each of them reachable by a probe from its home, and has at most
  one entry for each.
\<close>

definition table_holds :: "reader_env \<Rightarrow> u64 \<Rightarrow> u32 list \<Rightarrow> byte list list \<Rightarrow> bool" where
  "table_holds E salt table names \<longleftrightarrow>
     (\<forall>stored \<in> set table. stored \<noteq> 0 \<longrightarrow> (\<exists>k \<in> set names. stored_key E stored = Some k)) \<and>
     (\<forall>k \<in> set names. \<exists>i. stored_key E (probed table (home salt k) i) = Some k \<and>
        (\<forall>j < i. probed table (home salt k) j \<noteq> 0)) \<and>
     length (filter (\<lambda>stored. stored \<noteq> 0) table) \<le> length names"

lemma table_holds_empty: "table_holds E salt (replicate n 0) []"
  by (simp add: table_holds_def)

lemma next_slot:
  "table \<noteq> [] \<Longrightarrow> (if (h + i) mod length table + 1 = length table then 0 else (h + i) mod length table + 1)
     = (h + Suc i) mod length table"
  by (simp add: mod_Suc)

lemma stored_key_structural:
  assumes "contiguous E" and "stored_key E stored = Some k"
  shows "\<exists>pk q. read_structural_object_key E 0 (previous stored) = Inr (pk, q) \<and> range_bytes E pk = k"
proof -
  obtain q where "read_object_key E 0 (previous stored) = Inr (k, q)"
    using assms(2) by (auto simp: stored_key_def split: if_splits sum.splits)
  then show ?thesis unfolding structural_key_iff [OF assms(1), symmetric] by blast
qed

lemma insert_probe_iff:
  assumes "contiguous E" and "table \<noteq> []"
    and "\<And>stored. stored \<in> set table \<Longrightarrow> stored \<noteq> 0 \<Longrightarrow> \<exists>k. stored_key E stored = Some k"
  shows "insert_probe E r key ((h + i) mod length table) n table = Inr table' \<longleftrightarrow>
    (\<exists>j. i \<le> j \<and> j < i + n \<and> probed table h j = 0 \<and>
      (\<forall>m. i \<le> m \<and> m < j \<longrightarrow> probed table h m \<noteq> 0 \<and> stored_key E (probed table h m) \<noteq> Some (range_bytes E key)) \<and>
      table' = table[(h + j) mod length table := of_nat (tr_item_offset key + 1)])"
    (is "_ \<longleftrightarrow> (\<exists>j. ?free i n j)")
proof (induction n arbitrary: i)
  case 0
  then show ?case by simp
next
  case (Suc n)
  define stored where "stored = probed table h i"
  have slot: "table ! ((h + i) mod length table) = stored" by (simp add: stored_def probed_def)
  have member: "stored \<in> set table" using assms(2) by (simp add: stored_def probed_def)
  show ?case
  proof (cases "stored = 0")
    case True
    then have "?free i (Suc n) j \<longleftrightarrow> j = i \<and> table' = table[(h + i) mod length table := of_nat (tr_item_offset key + 1)]" for j
      unfolding stored_def using le_neq_implies_less [of i j] by fastforce
    with True slot show ?thesis by (auto simp: Let_def)
  next
    case False
    obtain k where k: "stored_key E stored = Some k" using assms(3) [OF member False] by blast
    obtain pk q where pk: "read_structural_object_key E 0 (previous stored) = Inr (pk, q)" "range_bytes E pk = k"
      using stored_key_structural [OF assms(1) k] by blast
    have split: "?free i (Suc n) j \<longleftrightarrow> range_bytes E key \<noteq> k \<and> ?free (Suc i) n j" for j
    proof -
      have "(\<forall>m. i \<le> m \<and> m < j \<longrightarrow> P m) \<longleftrightarrow> P i \<and> (\<forall>m. Suc i \<le> m \<and> m < j \<longrightarrow> P m)" if "i < j" for P
        using that by (metis Suc_le_eq le_eq_less_or_eq)
      from this [of "\<lambda>m. probed table h m \<noteq> 0 \<and> stored_key E (probed table h m) \<noteq> Some (range_bytes E key)"]
      show ?thesis using False k unfolding stored_def
        by (cases "j = i") (auto simp: Suc_le_eq)
    qed
    have "insert_probe E r key ((h + i) mod length table) (Suc n) table =
      (if range_bytes E key = k then Inl (reader_error r DuplicateKey)
       else insert_probe E r key ((h + Suc i) mod length table) n table)"
      using False pk slot by (simp add: Let_def mod_Suc)
    then show ?thesis unfolding split using Suc.IH [of "Suc i"] by simp
  qed
qed

lemma free_slot:
  assumes "length (filter (\<lambda>stored. stored \<noteq> 0) table) < length table"
  shows "\<exists>j < length table. probed table h j = 0"
proof -
  have "\<exists>stored \<in> set table. stored = 0"
    using assms by (metis (mono_tags, lifting) filter_True less_irrefl)
  then obtain slot where slot: "slot < length table" "table ! slot = 0"
    by (metis in_set_conv_nth)
  let ?n = "length table"
  define j where "j = (slot + ?n - h mod ?n) mod ?n"
  have "h mod ?n < ?n" using slot(1) by (intro mod_less_divisor) linarith
  then have "(h mod ?n + (slot + ?n - h mod ?n)) mod ?n = slot" using slot(1) by simp
  then have "(h + j) mod ?n = slot" unfolding j_def by (metis mod_add_eq mod_mod_trivial)
  moreover have "j < ?n" unfolding j_def using slot(1) by (intro mod_less_divisor) linarith
  ultimately show ?thesis using slot(2) unfolding probed_def by metis
qed

text \<open>An insertion succeeds exactly when the key is new, and then the table holds it too.\<close>

lemma insert_key:
  assumes E: "contiguous E" and holds: "table_holds E salt table names" and room: "length names < length table"
    and small: "tr_item_offset key < 4294967295"
    and self: "stored_key E (of_nat (tr_item_offset key + 1)) = Some (range_bytes E key)"
  shows "(\<exists>table'. insert_structural_object_key E salt r key table = Inr table') \<longleftrightarrow> range_bytes E key \<notin> set names"
    and "insert_structural_object_key E salt r key table = Inr table' \<Longrightarrow>
      length table' = length table \<and> table_holds E salt table' (range_bytes E key # names)"
proof -
  let ?n = "length table" and ?k = "range_bytes E key" and ?new = "of_nat (tr_item_offset key + 1) :: u32"
  define h where "h = home salt ?k"
  have ne: "table \<noteq> []" using room by auto
  have known: "\<exists>k \<in> set names. stored_key E stored = Some k" if "stored \<in> set table" "stored \<noteq> 0" for stored
    using holds that unfolding table_holds_def by blast
  have reach: "\<exists>i. stored_key E (probed table (home salt k) i) = Some k \<and> (\<forall>j < i. probed table (home salt k) j \<noteq> 0)"
    if "k \<in> set names" for k
    using holds that unfolding table_holds_def by blast
  have count: "length (filter (\<lambda>stored. stored \<noteq> 0) table) \<le> length names"
    using holds unfolding table_holds_def by blast
  have probed_mem: "probed table g i \<in> set table" for g i using ne by (simp add: probed_def)
  have free: "\<exists>j < ?n. probed table h j = 0" by (rule free_slot) (use count room in linarith)
  have insert: "insert_structural_object_key E salt r key table = Inr t \<longleftrightarrow> (\<exists>j. j < ?n \<and> probed table h j = 0 \<and>
      (\<forall>m < j. probed table h m \<noteq> 0 \<and> stored_key E (probed table h m) \<noteq> Some ?k) \<and>
      t = table[(h + j) mod ?n := ?new])" for t
  proof -
    have "insert_structural_object_key E salt r key table = insert_probe E r key ((h + 0) mod ?n) ?n table"
      using ne small by (simp add: insert_structural_object_key_def h_def home_def)
    then show ?thesis
      using insert_probe_iff [OF E ne, of r key h 0 ?n t] known by auto
  qed
  show "(\<exists>t. insert_structural_object_key E salt r key table = Inr t) \<longleftrightarrow> ?k \<notin> set names"
  proof
    assume "\<exists>t. insert_structural_object_key E salt r key table = Inr t"
    then obtain j where j: "probed table h j = 0"
      "\<forall>m < j. probed table h m \<noteq> 0 \<and> stored_key E (probed table h m) \<noteq> Some ?k"
      using insert by blast
    show "?k \<notin> set names"
    proof
      assume "?k \<in> set names"
      from reach [OF this] obtain i where i: "stored_key E (probed table h i) = Some ?k"
        "\<forall>m < i. probed table h m \<noteq> 0" unfolding h_def by blast
      have "probed table h i \<noteq> 0" using i(1) by (auto simp: stored_key_def)
      then show False using i j by (metis linorder_neqE_nat)
    qed
  next
    assume new: "?k \<notin> set names"
    obtain j where j: "j < ?n \<and> probed table h j = 0" "\<forall>m < j. \<not> (m < ?n \<and> probed table h m = 0)"
      using free exists_least_iff [of "\<lambda>j. j < ?n \<and> probed table h j = 0"] by blast
    have "probed table h m \<noteq> 0 \<and> stored_key E (probed table h m) \<noteq> Some ?k" if "m < j" for m
    proof -
      have nz: "probed table h m \<noteq> 0" using j that by auto
      with known [OF probed_mem nz] new show ?thesis by auto
    qed
    with j(1) insert show "\<exists>t. insert_structural_object_key E salt r key table = Inr t" by blast
  qed
  assume "insert_structural_object_key E salt r key table = Inr table'"
  then obtain j where j: "probed table h j = 0" "\<forall>m < j. probed table h m \<noteq> 0"
    and t: "table' = table[(h + j) mod ?n := ?new]" using insert by blast
  have slot: "(h + j) mod ?n < ?n" using ne by simp
  have len: "length table' = ?n" using t by simp
  have new_nz: "?new \<noteq> 0" using self by (auto simp: stored_key_def)
  have keep: "probed table' g i = (if (g + i) mod ?n = (h + j) mod ?n then ?new else probed table g i)" for g i
    using slot ne by (auto simp: probed_def t nth_list_update)
  have keep_nz: "probed table g i \<noteq> 0 \<Longrightarrow> probed table' g i = probed table g i" for g i
    using j(1) unfolding keep by (auto simp: probed_def)
  have "\<exists>k \<in> set (?k # names). stored_key E stored = Some k" if "stored \<in> set table'" "stored \<noteq> 0" for stored
  proof -
    from that(1) have "stored = ?new \<or> stored \<in> set table"
      unfolding t using set_update_subset_insert [of table "(h + j) mod ?n" ?new] by auto
    then show ?thesis using self known that(2) by auto
  qed
  moreover have "\<exists>i. stored_key E (probed table' (home salt k) i) = Some k \<and>
      (\<forall>m < i. probed table' (home salt k) m \<noteq> 0)" if "k \<in> set (?k # names)" for k
  proof (cases "k = ?k")
    case True
    have "probed table' h j = ?new" unfolding keep by simp
    moreover have "\<forall>m < j. probed table' h m \<noteq> 0" using j(2) keep_nz by metis
    ultimately have "stored_key E (probed table' h j) = Some k \<and> (\<forall>m < j. probed table' h m \<noteq> 0)"
      using True self by simp
    then show ?thesis unfolding h_def [symmetric] True by blast
  next
    case False
    with that have "k \<in> set names" by simp
    from reach [OF this] obtain i where i: "stored_key E (probed table (home salt k) i) = Some k"
      "\<forall>m < i. probed table (home salt k) m \<noteq> 0" by blast
    have "probed table (home salt k) i \<noteq> 0" using i(1) by (auto simp: stored_key_def)
    with i keep_nz show ?thesis by (intro exI [of _ i]) metis
  qed
  moreover have "length (filter (\<lambda>stored. stored \<noteq> 0) table') \<le> length (?k # names)"
  proof -
    have "length (filter P (xs[p := y])) \<le> Suc (length (filter P xs))" for P xs p and y :: u32
      by (induction xs arbitrary: p) (auto split: nat.splits)
    from this [of "\<lambda>stored. stored \<noteq> 0" table] show ?thesis using count t le_trans by fastforce
  qed
  ultimately show "length table' = ?n \<and> table_holds E salt table' (?k # names)"
    unfolding table_holds_def using len by blast
qed

lemma stored_key_of_read:
  assumes "contiguous E" and "read_object_key E depth r = Inr (k, r')"
  shows "rd_offset r < 4294967295 \<and> stored_key E (of_nat (rd_offset r + 1)) = Some k"
proof -
  have plain: "plain E" by (rule contiguous_plain [OF assms(1)])
  let ?bytes = "scalar_bytes (SText k)"
  from assms(2) have "got E r ?bytes (admit (env_limits E) depth (rd_items r) (VText k)) r'"
    unfolding read_object_key_Inr [OF plain] .
  then have bytes: "take (length ?bytes) (rest E r) = ?bytes" and
    ok: "valid_utf8 k" "0 < max_items (env_limits E)"
    by (auto simp: got_alt takes_def admit_key split: if_splits)
  have "rd_offset r < seg_size (env_input E)"
    using arg_cong [OF bytes, of length] by (auto simp: rest_def head_bytes_Cons)
  then have small: "rd_offset r < 4294967295" using assms(1) by (simp add: contiguous_def)
  let ?stored = "of_nat (rd_offset r + 1) :: u32"
  have "unat ?stored = rd_offset r + 1" using small by (intro unat_of_nat32) simp
  then have nz: "?stored \<noteq> 0" by auto
  have "?stored - 1 = of_nat (rd_offset r)" by simp
  then have off: "rd_offset (previous ?stored) = rd_offset r" "rd_items (previous ?stored) = 0"
    using small unat_of_nat32 [of "rd_offset r"] by (simp_all add: previous_def new_reader_def)
  have "rest E (previous ?stored) = rest E r" by (simp only: rest_def off)
  then have "\<exists>q. got E (previous ?stored) ?bytes (admit (env_limits E) 0 (rd_items (previous ?stored)) (VText k)) q"
    using bytes ok off(2) by (simp add: got_alt takes_def admit_key)
  then obtain q where "read_object_key E 0 (previous ?stored) = Inr (k, q)"
    unfolding read_object_key_Inr [OF plain, symmetric] by blast
  then show ?thesis using small nz by (simp add: stored_key_def)
qed

section \<open>Simulation\<close>

lemma read_item_iff:
  "plain E \<Longrightarrow> read_item E depth r = Inr (v, r') \<longleftrightarrow>
     value_wf v \<and> got E r (encoding v) (admit (env_limits E) depth (rd_items r) v) r'"
  using read_item_sound(1) read_item_complete(1) by blast

lemma read_item_path:
  assumes "plain E"
  shows "read_item E depth (r\<lparr>rd_path := p\<rparr>) = Inr (v, r') \<longleftrightarrow>
    read_item E depth r = Inr (v, r'\<lparr>rd_path := rd_path r\<rparr>) \<and> rd_path r' = p"
  by (auto simp: read_item_iff [OF assms] got_path)

lemma read_item_keeps_path: "plain E \<Longrightarrow> read_item E depth r = Inr (v, r') \<Longrightarrow> rd_path r' = rd_path r"
  using got_fields by (auto simp: read_item_iff)

text \<open>One turn of the loop over the members, with the path left out.\<close>

lemma read_members_step:
  assumes "plain E" and "n \<noteq> 0"
  shows "read_members E depth n names kind r = Inr (ms, r') \<longleftrightarrow>
    (\<exists>name r1 v r2 ms'. read_object_key E (depth + 1) r = Inr (name, r1) \<and> name \<notin> set names \<and>
       read_item E (depth + 1) r1 = Inr (v, r2) \<and>
       read_members E depth (n - 1) (name # names)
         (if name = kind_key then (case v of VText t \<Rightarrow> t | _ \<Rightarrow> kind) else kind) r2 = Inr (ms', r') \<and>
       ms = (name, v) # ms')"
    (is "?L \<longleftrightarrow> ?R")
proof -
  let ?kind = "\<lambda>name v. if name = kind_key then (case v of VText t \<Rightarrow> t | _ \<Rightarrow> kind) else kind"
  let ?push = "\<lambda>name r1 :: reader. rd_path r1 @ [\<lparr>pe_name = name, pe_object_kind = kind\<rparr>]"
  have item: "(\<exists>q. read_item E (depth + 1) (r1\<lparr>rd_path := ?push name r1\<rparr>) = Inr (v, q) \<and>
        P (q\<lparr>rd_path := butlast (rd_path q)\<rparr>)) \<longleftrightarrow> (\<exists>r2. read_item E (depth + 1) r1 = Inr (v, r2) \<and> P r2)"
    (is "?A \<longleftrightarrow> ?B") for name r1 v P
  proof
    assume ?A
    then obtain q where q: "read_item E (depth + 1) r1 = Inr (v, q\<lparr>rd_path := rd_path r1\<rparr>)"
      "rd_path q = ?push name r1" "P (q\<lparr>rd_path := butlast (rd_path q)\<rparr>)"
      unfolding read_item_path [OF assms(1)] by blast
    then show ?B by (intro exI [of _ "q\<lparr>rd_path := rd_path r1\<rparr>"]) simp
  next
    assume ?B
    then obtain r2 where r2: "read_item E (depth + 1) r1 = Inr (v, r2)" "P r2" by blast
    have same: "r2\<lparr>rd_path := rd_path r1\<rparr> = r2"
      using read_item_keeps_path [OF assms(1) r2(1)] by (cases r2) simp
    show ?A unfolding read_item_path [OF assms(1)]
      using r2 by (intro exI [of _ "r2\<lparr>rd_path := ?push name r1\<rparr>"]) (simp add: same)
  qed
  have "?L \<longleftrightarrow> (\<exists>name r1 v. read_object_key E (depth + 1) r = Inr (name, r1) \<and> name \<notin> set names \<and>
      (\<exists>q. read_item E (depth + 1) (r1\<lparr>rd_path := ?push name r1\<rparr>) = Inr (v, q) \<and>
        (\<exists>ms'. read_members E depth (n - 1) (name # names) (?kind name v) (q\<lparr>rd_path := butlast (rd_path q)\<rparr>)
            = Inr (ms', r') \<and> ms = (name, v) # ms')))"
    unfolding read_members.simps [of E depth n names kind r] if_not_P [OF assms(2)] bindr_Inr_iff
    by (auto simp: Let_def bindr_Inr_iff)
  also have "\<dots> \<longleftrightarrow> ?R"
    using item [where P = "\<lambda>r2. \<exists>ms'. read_members E depth (n - 1) (name # names) (?kind name v) r2 = Inr (ms', r') \<and>
        ms = (name, v) # ms'" for name v] by blast
  finally show ?thesis .
qed

text \<open>The loop over the members, with its key and its insertion.\<close>

lemma scan_members_step:
  assumes E: "contiguous E" and "n \<noteq> 0"
  shows "scan_members E salt depth n base n_table s = Inr s' \<longleftrightarrow>
    (\<exists>key r1 table s1. read_structural_object_key E (depth + 1) (st_reader s) = Inr (key, r1) \<and>
       tr_item_offset key = rd_offset (st_reader s) \<and>
       insert_structural_object_key E (salt base) r1 key (subspan base n_table (st_scratch s)) = Inr table \<and>
       scan_item E salt (depth + 1)
         (s\<lparr>st_reader := r1, st_scratch := write_span base table (st_scratch s)\<rparr>) = Inr s1 \<and>
       scan_members E salt depth (n - 1) base n_table s1 = Inr s')"
proof -
  have "tr_item_offset key = rd_offset (st_reader s)"
    if "read_structural_object_key E (depth + 1) (st_reader s) = Inr (key, r1)" for key r1
    using that by (auto simp: read_structural_object_key_def bindr_Inr_iff Let_def split: if_splits)
  then show ?thesis
    unfolding scan_members.simps [of E salt depth n base n_table s] if_not_P [OF assms(2)] bindr_Inr_iff
    by (auto simp: bindr_Inr_iff)
qed

text \<open>A scan of a state leaves the scratch below \<open>limit\<close> alone and restores the cursor.\<close>

definition frames :: "nat \<Rightarrow> structural \<Rightarrow> structural \<Rightarrow> bool" where
  "frames limit s s' \<longleftrightarrow> st_cursor s' = st_cursor s \<and> length (st_scratch s') = length (st_scratch s) \<and>
     take limit (st_scratch s') = take limit (st_scratch s)"

lemma frames_refl [simp]: "frames limit s s"
  by (simp add: frames_def)

lemma frames_trans: "frames limit s s' \<Longrightarrow> frames limit s' s'' \<Longrightarrow> frames limit s s''"
  by (simp add: frames_def)

lemma frames_le: "frames limit s s' \<Longrightarrow> l \<le> limit \<Longrightarrow> frames l s s'"
  by (auto simp: frames_def intro: take_take_le)

text \<open>
  What one turn of the members establishes for the next one: the key is new, the table in the scratch
  holds it, and everything below the table is as it was.
\<close>

lemma scan_key:
  assumes E: "contiguous E"
    and table: "table_holds E w (subspan base n_table (st_scratch s)) names" "length names < n_table"
    and spans: "base + n_table \<le> length (st_scratch s)"
    and key: "read_structural_object_key E depth (st_reader s) = Inr (key, r1)" "tr_item_offset key = rd_offset (st_reader s)"
  defines "k \<equiv> range_bytes E key"
  shows "read_object_key E depth (st_reader s) = Inr (k, r1)"
    and "(\<exists>t. insert_structural_object_key E w r1 key (subspan base n_table (st_scratch s)) = Inr t)
      \<longleftrightarrow> k \<notin> set names"
    and "insert_structural_object_key E w r1 key (subspan base n_table (st_scratch s)) = Inr t \<Longrightarrow>
      length t = n_table \<and> table_holds E w t (k # names)"
proof -
  show read: "read_object_key E depth (st_reader s) = Inr (k, r1)"
    using structural_key_iff [OF E, of depth "st_reader s" r1 k] key unfolding k_def by blast
  note stored = stored_key_of_read [OF E read, folded key(2), unfolded k_def]
  have len: "length (subspan base n_table (st_scratch s)) = n_table" using spans by simp
  have room: "length names < length (subspan base n_table (st_scratch s))" using table(2) len by simp
  note insert = insert_key [OF E table(1) room conjunct1 [OF stored] conjunct2 [OF stored], folded k_def]
  show "(\<exists>t. insert_structural_object_key E w r1 key (subspan base n_table (st_scratch s)) = Inr t)
      \<longleftrightarrow> k \<notin> set names"
    by (rule insert(1))
  show "insert_structural_object_key E w r1 key (subspan base n_table (st_scratch s)) = Inr t \<Longrightarrow>
      length t = n_table \<and> table_holds E w t (k # names)"
    using insert(2) [of r1 t] len by simp
qed

text \<open>The state in which the members are scanned, and the one after a key has been entered.\<close>

lemma table_state:
  assumes "base + length t \<le> limit" and "limit \<le> length (st_scratch s)"
    and "frames limit (s\<lparr>st_reader := r, st_scratch := write_span base t (st_scratch s)\<rparr>) s'"
  shows "subspan base (length t) (st_scratch s') = t" and "frames base s s'"
proof -
  have len: "base + length t \<le> length (st_scratch s)" using assms(1,2) by linarith
  have "take limit (st_scratch s') = take limit (write_span base t (st_scratch s))"
    using assms(3) by (simp add: frames_def)
  from subspan_take [OF this assms(1)] show "subspan base (length t) (st_scratch s') = t" using len by simp
  have "frames base (s\<lparr>st_reader := r, st_scratch := write_span base t (st_scratch s)\<rparr>) s'"
    using frames_le [OF assms(3), of base] assms(1) by simp
  then show "frames base s s'" using len by (simp add: frames_def)
qed

lemma allowed_plain: "plain E \<Longrightarrow> allocation_allowed E k n q"
  by (simp add: plain_def allocation_allowed_def)

text \<open>Whatever the structural reader accepts, the materialising one reads, and both stop at the same place.\<close>

lemma scan_sound:
  "contiguous E \<Longrightarrow> scan_item E salt depth s = Inr s' \<Longrightarrow>
     frames (st_cursor s) s s' \<and> (\<exists>v. read_item E depth (st_reader s) = Inr (v, st_reader s'))"
  "contiguous E \<Longrightarrow> scan_values E salt depth n s = Inr s' \<Longrightarrow>
     frames (st_cursor s) s s' \<and> (\<exists>vs. read_values E depth n (st_reader s) = Inr (vs, st_reader s'))"
  "contiguous E \<Longrightarrow> scan_members E salt depth n base n_table s = Inr s' \<Longrightarrow>
     base + n_table \<le> st_cursor s \<Longrightarrow> st_cursor s \<le> length (st_scratch s) \<Longrightarrow>
     table_holds E (salt base) (subspan base n_table (st_scratch s)) names \<Longrightarrow> length names + n \<le> n_table \<Longrightarrow>
     frames base s s' \<and> (\<exists>ms. read_members E depth n names kind (st_reader s) = Inr (ms, st_reader s'))"
proof (induction E salt depth s and E salt depth n s and E salt depth n base n_table s
    arbitrary: s' and s' and s' names kind rule: scan_item_scan_values_scan_members.induct)
  case (1 E salt depth s)
  note plain = contiguous_plain [OF "1.prems"(1)]
  from "1.prems"(2) obtain head r1 where h: "item_head E depth (st_reader s) = Inr (head, r1)"
    unfolding scan_item.simps [of E salt depth s] bindr_Inr_iff by auto
  note scan = "1.prems"(2) [unfolded scan_item.simps [of E salt depth s] h bindr.simps prod.case]
  show ?case
  proof (cases "ih_major head \<noteq> 4 \<and> ih_major head \<noteq> 5")
    case True
    with scan obtain x r2 where x: "read_flat_scalar E head False False r1 = Inr (x, r2)" "s' = s\<lparr>st_reader := r2\<rparr>"
      by (auto simp: bindr_Inr_iff)
    with scan_scalar [OF "1.prems"(1), of head r1 r2] obtain y where "read_flat_scalar E head True True r1 = Inr (y, r2)"
      by blast
    with True h x(2) show ?thesis by (simp add: read_item.simps [of E depth] frames_def)
  next
    case False
    with scan obtain count r2 where sz: "size_argument E (ih_additional head) r1 = Inr (count, r2)"
      by (auto simp: bindr_Inr_iff)
    note scan = scan [unfolded if_not_P [OF False] sz bindr.simps prod.case]
    show ?thesis
    proof (cases "ih_major head = 4")
      case True
      with scan have fit: "\<not> \<not> fits_remaining count (rd_items r2) (max_items (env_limits E))"
        and sv: "scan_values E salt depth count (s\<lparr>st_reader := r2\<rparr>) = Inr s'"
        by (auto split: if_splits)
      from "1.IH"(1) [OF h refl False sz refl True fit "1.prems"(1) sv] obtain vs where
        "frames (st_cursor s) s s'" "read_values E depth count r2 = Inr (vs, st_reader s')"
        by (auto simp: frames_def)
      with True fit h sz False show ?thesis
        by (simp add: read_item.simps [of E depth] allowed_plain [OF plain])
    next
      case m5: False
      let ?c = "st_cursor s"
      let ?t = "\<lparr>st_reader = r2, st_scratch = write_span ?c (replicate (count * 2) 0) (st_scratch s),
          st_cursor = ?c + count * 2\<rparr>"
      from m5 scan obtain t where
        fit: "\<not> count > (max_items (env_limits E) - rd_items r2) div 2"
        "\<not> ?c > length (st_scratch s)" "\<not> count > (length (st_scratch s) - ?c) div 2"
        and sm: "scan_members E salt depth count ?c (count * 2) ?t = Inr t" "s' = t\<lparr>st_cursor := ?c\<rparr>"
        by (auto simp: bindr_Inr_iff Let_def split: if_splits)
      have room: "?c + count * 2 \<le> length (st_scratch s)" using fit(2,3) by linarith
      have table: "table_holds E (salt ?c) (subspan ?c (count * 2) (st_scratch ?t)) []"
        using subspan_write_span [of ?c "replicate (count * 2) 0" "st_scratch s"] room table_holds_empty by simp
      from "1.IH"(2) [OF h refl False sz refl m5 fit refl refl "1.prems"(1) sm(1) _ _ table]
      obtain ms where "frames ?c ?t t" "read_members E depth count [] [] r2 = Inr (ms, st_reader t)"
        using room by fastforce
      then have "frames ?c s s'" "read_members E depth count [] [] r2 = Inr (ms, st_reader s')"
        using sm(2) room by (auto simp: frames_def)
      with m5 fit(1) h sz False show ?thesis
        by (simp add: read_item.simps [of E depth] allowed_plain [OF plain])
    qed
  qed
next
  case (2 E salt depth n s)
  show ?case
  proof (cases "n = 0")
    case True
    with "2.prems" show ?thesis by (simp add: read_values.simps scan_values.simps)
  next
    case False
    with "2.prems"(2) obtain s1 where s1: "scan_item E salt (depth + 1) s = Inr s1"
      "scan_values E salt depth (n - 1) s1 = Inr s'"
      unfolding scan_values.simps [of E salt depth n s] by (auto simp: bindr_Inr_iff)
    from "2.IH"(1) [OF False "2.prems"(1) s1(1)] obtain v where
      v: "frames (st_cursor s) s s1" "read_item E (depth + 1) (st_reader s) = Inr (v, st_reader s1)" by blast
    from "2.IH"(2) [OF False s1(1) "2.prems"(1) s1(2)] obtain vs where
      vs: "frames (st_cursor s1) s1 s'" "read_values E depth (n - 1) (st_reader s1) = Inr (vs, st_reader s')" by blast
    have "frames (st_cursor s) s s'" using v(1) vs(1) frames_trans by (metis frames_def)
    with v(2) vs(2) False show ?thesis by (simp add: read_values.simps [of E depth n])
  qed
next
  case (3 E salt depth n base n_table s)
  note plain = contiguous_plain [OF "3.prems"(1)]
  show ?case
  proof (cases "n = 0")
    case True
    with "3.prems" show ?thesis by (simp add: read_members.simps scan_members.simps)
  next
    case False
    from "3.prems"(2) [unfolded scan_members_step [OF "3.prems"(1) False]] obtain key r1 t s1 where
      key: "read_structural_object_key E (depth + 1) (st_reader s) = Inr (key, r1)"
        "tr_item_offset key = rd_offset (st_reader s)"
      and t: "insert_structural_object_key E (salt base) r1 key (subspan base n_table (st_scratch s)) = Inr t"
      and s1: "scan_item E salt (depth + 1)
          (s\<lparr>st_reader := r1, st_scratch := write_span base t (st_scratch s)\<rparr>) = Inr s1"
        "scan_members E salt depth (n - 1) base n_table s1 = Inr s'" by blast
    let ?k = "range_bytes E key"
    have room: "length names < n_table" "base + n_table \<le> length (st_scratch s)"
      using "3.prems"(3,4,6) False by linarith+
    note k = scan_key [OF "3.prems"(1,5) room key]
    have new: "?k \<notin> set names" using k(2) t by blast
    have len: "length t = n_table" and holds: "table_holds E (salt base) t (?k # names)" using k(3) [OF t] by auto
    from "3.IH"(1) [OF False key(1) refl t "3.prems"(1) s1(1)] obtain v where
      frame: "frames (st_cursor s) (s\<lparr>st_reader := r1, st_scratch := write_span base t (st_scratch s)\<rparr>) s1"
      and v: "read_item E (depth + 1) r1 = Inr (v, st_reader s1)" by auto
    note state = table_state [OF _ "3.prems"(4) frame, unfolded len, OF "3.prems"(3)]
    have same: "st_cursor s1 = st_cursor s" "length (st_scratch s1) = length (st_scratch s)"
      using state(2) by (simp_all add: frames_def)
    let ?kind = "if ?k = kind_key then (case v of VText t \<Rightarrow> t | _ \<Rightarrow> kind) else kind"
    have "length (?k # names) + (n - 1) \<le> n_table" using "3.prems"(6) False by simp
    from "3.IH"(2) [OF False key(1) refl t s1(1) "3.prems"(1) s1(2) _ _ _ this, of ?kind] obtain ms where
      "frames base s1 s'" "read_members E depth (n - 1) (?k # names) ?kind (st_reader s1) = Inr (ms, st_reader s')"
      using same "3.prems"(3,4) state(1) holds by auto
    then show ?thesis using frames_trans [OF state(2)] k(1) new v
      unfolding read_members_step [OF plain False] by blast
  qed
qed

text \<open>
  Conversely, whatever the materialising reader reads is accepted. The scratch suffices because every
  entry in use stands for an item: \<open>pending\<close> counts the items that the enclosing containers still need.
\<close>

lemma members_items:
  "admit_members l depth i ms = Some j \<Longrightarrow> i \<le> max_items l \<Longrightarrow> i + 2 * length ms \<le> j"
proof (induction ms arbitrary: i)
  case (Cons m ms)
  from Cons.prems(1) obtain k where g: "i < max_items l"
    "admit l (Suc depth) (Suc i) (snd m) = Some k" "admit_members l depth k ms = Some j"
    by (auto simp: bind_eq_Some_conv split: if_splits)
  from admit_mono(1) [OF g(2)] have "Suc i < k" "k \<le> max_items l" by auto
  with Cons.IH [OF g(3)] show ?case by simp
qed simp

lemma read_items_grow:
  assumes "plain E"
  shows "read_item E depth r = Inr (v, r') \<Longrightarrow> rd_items r < rd_items r' \<and> rd_items r' \<le> max_items (env_limits E)"
    and "read_values E depth n r = Inr (vs, r') \<Longrightarrow> rd_items r \<le> max_items (env_limits E) \<Longrightarrow>
      rd_items r \<le> rd_items r' \<and> rd_items r' \<le> max_items (env_limits E)"
    and "read_members E depth n names kind r = Inr (ms, r') \<Longrightarrow> rd_items r \<le> max_items (env_limits E) \<Longrightarrow>
      rd_items r + 2 * n \<le> rd_items r' \<and> rd_items r' \<le> max_items (env_limits E)"
proof -
  show "rd_items r < rd_items r' \<and> rd_items r' \<le> max_items (env_limits E)"
    if "read_item E depth r = Inr (v, r')"
    using read_item_sound(1) [OF assms that] got_fields admit_mono(1) by metis
  show "rd_items r \<le> rd_items r' \<and> rd_items r' \<le> max_items (env_limits E)"
    if "read_values E depth n r = Inr (vs, r')" "rd_items r \<le> max_items (env_limits E)"
    using read_item_sound(2) [OF assms that(1)] that(2) got_fields admit_mono(2) by metis
  show "rd_items r + 2 * n \<le> rd_items r' \<and> rd_items r' \<le> max_items (env_limits E)"
    if "read_members E depth n names kind r = Inr (ms, r')" "rd_items r \<le> max_items (env_limits E)"
    using read_item_sound(3) [OF assms that(1)] that(2) got_fields admit_mono(3) members_items by metis
qed

lemma read_key_items:
  assumes "plain E" and "read_object_key E depth r = Inr (k, r')"
  shows "rd_items r' = Suc (rd_items r) \<and> rd_items r < max_items (env_limits E)"
proof -
  have "got E r (scalar_bytes (SText k)) (admit (env_limits E) depth (rd_items r) (VText k)) r'"
    using assms unfolding read_object_key_Inr [OF assms(1)] by blast
  from conjunct1 [OF got_fields [OF this]] show ?thesis unfolding admit_key by (auto split: if_splits)
qed

lemma scan_complete:
  "contiguous E \<Longrightarrow> max_items (env_limits E) \<le> length (st_scratch s) \<Longrightarrow>
     read_item E depth (st_reader s) = Inr (v, r') \<Longrightarrow>
     st_cursor s \<le> Suc (rd_items (st_reader s)) + pending \<Longrightarrow> rd_items r' + pending \<le> max_items (env_limits E) \<Longrightarrow>
     \<exists>s'. scan_item E salt depth s = Inr s' \<and> st_reader s' = r'"
  "contiguous E \<Longrightarrow> max_items (env_limits E) \<le> length (st_scratch s) \<Longrightarrow>
     read_values E depth n (st_reader s) = Inr (vs, r') \<Longrightarrow> rd_items (st_reader s) \<le> max_items (env_limits E) \<Longrightarrow>
     st_cursor s \<le> rd_items (st_reader s) + pending \<Longrightarrow> rd_items r' + pending \<le> max_items (env_limits E) \<Longrightarrow>
     \<exists>s'. scan_values E salt depth n s = Inr s' \<and> st_reader s' = r'"
  "contiguous E \<Longrightarrow> max_items (env_limits E) \<le> length (st_scratch s) \<Longrightarrow>
     read_members E depth n names kind (st_reader s) = Inr (ms, r') \<Longrightarrow> rd_items (st_reader s) \<le> max_items (env_limits E) \<Longrightarrow>
     st_cursor s \<le> rd_items (st_reader s) + pending + 2 * n \<Longrightarrow> rd_items r' + pending \<le> max_items (env_limits E) \<Longrightarrow>
     base + n_table \<le> st_cursor s \<Longrightarrow> st_cursor s \<le> length (st_scratch s) \<Longrightarrow>
     table_holds E (salt base) (subspan base n_table (st_scratch s)) names \<Longrightarrow> length names + n \<le> n_table \<Longrightarrow>
     \<exists>s'. scan_members E salt depth n base n_table s = Inr s' \<and> st_reader s' = r'"
proof (induction E salt depth s and E salt depth n s and E salt depth n base n_table s
    arbitrary: v r' pending and vs r' pending and names kind ms r' pending
    rule: scan_item_scan_values_scan_members.induct)
  case (1 E salt depth s)
  note plain = contiguous_plain [OF "1.prems"(1)]
  from "1.prems"(3) obtain head r1 where h: "item_head E depth (st_reader s) = Inr (head, r1)"
    unfolding read_item.simps [of E depth] bindr_Inr_iff by auto
  note read = "1.prems"(3) [unfolded read_item.simps [of E depth] h bindr.simps prod.case]
  show ?case
  proof (cases "ih_major head \<noteq> 4 \<and> ih_major head \<noteq> 5")
    case True
    with read obtain x where "read_flat_scalar E head True True r1 = Inr (x, r')"
      by (auto simp: bindr_Inr_iff)
    with scan_scalar [OF "1.prems"(1), of head r1 r'] obtain y where "read_flat_scalar E head False False r1 = Inr (y, r')"
      by blast
    with True h show ?thesis by (simp add: scan_item.simps [of E salt depth s])
  next
    case False
    with read obtain count r2 where sz: "size_argument E (ih_additional head) r1 = Inr (count, r2)"
      by (auto simp: bindr_Inr_iff)
    note read = read [unfolded if_not_P [OF False] sz bindr.simps prod.case]
    have m: "ih_major head < 8" using False by auto
    have "within E depth (st_reader s)" "got E (st_reader s) (head_bytes (ih_major head) count) (Some (Suc (rd_items (st_reader s)))) r2"
      using container_head [OF plain m, of depth "st_reader s" count r2] h sz by blast+
    then have items: "rd_items r2 = Suc (rd_items (st_reader s))" "rd_items r2 \<le> max_items (env_limits E)"
      using got_fields by fastforce+
    show ?thesis
    proof (cases "ih_major head = 4")
      case True
      with read obtain vs where fit: "\<not> \<not> fits_remaining count (rd_items r2) (max_items (env_limits E))"
        and rv: "read_values E depth count r2 = Inr (vs, r')"
        by (auto simp: bindr_Inr_iff split: if_splits)
      from "1.IH"(1) [OF h refl False sz refl True fit "1.prems"(1), of vs r' pending] rv "1.prems"(2,4,5) items
      obtain s' where "scan_values E salt depth count (s\<lparr>st_reader := r2\<rparr>) = Inr s'" "st_reader s' = r'"
        by auto
      with True fit h sz False show ?thesis by (simp add: scan_item.simps [of E salt depth s])
    next
      case m5: False
      let ?c = "st_cursor s"
      let ?t = "\<lparr>st_reader = r2, st_scratch = write_span ?c (replicate (count * 2) 0) (st_scratch s),
          st_cursor = ?c + count * 2\<rparr>"
      from m5 read obtain ms where fit: "\<not> count > (max_items (env_limits E) - rd_items r2) div 2"
        and rm: "read_members E depth count [] [] r2 = Inr (ms, r')"
        by (auto simp: bindr_Inr_iff split: if_splits)
      have grow: "rd_items r2 + 2 * count \<le> rd_items r'" using read_items_grow(3) [OF plain rm items(2)] by blast
      have room: "?c + count * 2 \<le> length (st_scratch s)"
        using grow items(1) "1.prems"(2,4,5) by linarith
      then have fits: "\<not> ?c > length (st_scratch s)" "\<not> count > (length (st_scratch s) - ?c) div 2" by auto
      have table: "table_holds E (salt ?c) (subspan ?c (count * 2) (st_scratch ?t)) []"
        using subspan_write_span [of ?c "replicate (count * 2) 0" "st_scratch s"] room table_holds_empty by simp
      have pre: "max_items (env_limits E) \<le> length (st_scratch ?t)" "rd_items (st_reader ?t) \<le> max_items (env_limits E)"
        "st_cursor ?t \<le> rd_items (st_reader ?t) + pending + 2 * count" "?c + count * 2 \<le> st_cursor ?t"
        "st_cursor ?t \<le> length (st_scratch ?t)" "length [] + count \<le> count * 2"
        "read_members E depth count [] [] (st_reader ?t) = Inr (ms, r')"
        using "1.prems"(2,4) items room rm by simp_all
      from "1.IH"(2) [OF h refl False sz refl m5 fit fits refl refl "1.prems"(1) pre(1,7,2,3) "1.prems"(5) pre(4,5) table pre(6)]
      obtain t where "scan_members E salt depth count ?c (count * 2) ?t = Inr t" "st_reader t = r'" by blast
      with m5 fit fits h sz False show ?thesis by (simp add: scan_item.simps [of E salt depth s] Let_def)
    qed
  qed
next
  case (2 E salt depth n s)
  note plain = contiguous_plain [OF "2.prems"(1)]
  show ?case
  proof (cases "n = 0")
    case True
    with "2.prems" show ?thesis by (simp add: read_values.simps scan_values.simps)
  next
    case False
    with "2.prems"(3) obtain v r1 vs' where v: "read_item E (depth + 1) (st_reader s) = Inr (v, r1)"
      and vs': "read_values E depth (n - 1) r1 = Inr (vs', r')"
      unfolding read_values.simps [of E depth n] by (auto simp: bindr_Inr_iff)
    note g1 = read_items_grow(1) [OF plain v]
    note g2 = read_items_grow(2) [OF plain vs' conjunct2 [OF g1]]
    have "st_cursor s \<le> Suc (rd_items (st_reader s)) + pending" "rd_items r1 + pending \<le> max_items (env_limits E)"
      using "2.prems"(5,6) g2 by linarith+
    from "2.IH"(1) [OF False "2.prems"(1,2) v this] obtain s1 where
      s1: "scan_item E salt (depth + 1) s = Inr s1" "st_reader s1 = r1" by blast
    from scan_sound(1) [OF "2.prems"(1) s1(1)] have f: "frames (st_cursor s) s s1" by blast
    have pre: "max_items (env_limits E) \<le> length (st_scratch s1)" "rd_items (st_reader s1) \<le> max_items (env_limits E)"
      "st_cursor s1 \<le> rd_items (st_reader s1) + pending"
      "read_values E depth (n - 1) (st_reader s1) = Inr (vs', r')"
      using f "2.prems"(2,5) g1 s1(2) vs' by (simp_all add: frames_def)
    from "2.IH"(2) [OF False s1(1) "2.prems"(1) pre(1,4,2,3) "2.prems"(6)] False s1(1) show ?thesis
      by (simp add: scan_values.simps [of E salt depth n s])
  qed
next
  case (3 E salt depth n base n_table s)
  note plain = contiguous_plain [OF "3.prems"(1)]
  show ?case
  proof (cases "n = 0")
    case True
    with "3.prems" show ?thesis by (simp add: read_members.simps scan_members.simps)
  next
    case False
    from "3.prems"(3) [unfolded read_members_step [OF plain False]] obtain name r1 v r2 ms' where
      name: "read_object_key E (depth + 1) (st_reader s) = Inr (name, r1)" "name \<notin> set names"
      and v: "read_item E (depth + 1) r1 = Inr (v, r2)"
      and ms': "read_members E depth (n - 1) (name # names)
         (if name = kind_key then (case v of VText t \<Rightarrow> t | _ \<Rightarrow> kind) else kind) r2 = Inr (ms', r')"
      by blast
    obtain key where key: "read_structural_object_key E (depth + 1) (st_reader s) = Inr (key, r1)"
        "tr_item_offset key = rd_offset (st_reader s)" and bytes: "range_bytes E key = name"
      using name(1) unfolding structural_key_iff [OF "3.prems"(1), symmetric] by blast
    have room: "length names < n_table" "base + n_table \<le> length (st_scratch s)"
      using "3.prems"(7,8,10) False by linarith+
    note k = scan_key [OF "3.prems"(1,9) room key, unfolded bytes]
    obtain t where t: "insert_structural_object_key E (salt base) r1 key (subspan base n_table (st_scratch s)) = Inr t"
      using k(2) name(2) by blast
    have len: "length t = n_table" and holds: "table_holds E (salt base) t (name # names)" using k(3) [OF t] by auto
    let ?s = "s\<lparr>st_reader := r1, st_scratch := write_span base t (st_scratch s)\<rparr>"
    note key_items = read_key_items [OF plain name(1)]
    note g1 = read_items_grow(1) [OF plain v]
    note g2 = read_items_grow(3) [OF plain ms' conjunct2 [OF g1]]
    let ?p = "pending + 2 * (n - 1)"
    have pre: "max_items (env_limits E) \<le> length (st_scratch ?s)" "read_item E (depth + 1) (st_reader ?s) = Inr (v, r2)"
      "st_cursor ?s \<le> Suc (rd_items (st_reader ?s)) + ?p" "rd_items r2 + ?p \<le> max_items (env_limits E)"
      using "3.prems"(2,5,6) room(2) len v key_items g2 False by simp_all
    from "3.IH"(1) [OF False key(1) refl t "3.prems"(1) pre] obtain s1 where
      s1: "scan_item E salt (depth + 1) ?s = Inr s1" "st_reader s1 = r2" by blast
    have frame: "frames (st_cursor s) ?s s1" using scan_sound(1) [OF "3.prems"(1) s1(1)] by simp
    note state = table_state [OF _ "3.prems"(8) frame, unfolded len, OF "3.prems"(7)]
    have same: "st_cursor s1 = st_cursor s" "length (st_scratch s1) = length (st_scratch s)"
      using state(2) by (simp_all add: frames_def)
    have cursor: "st_cursor s1 \<le> rd_items (st_reader s1) + pending + 2 * (n - 1)"
      unfolding s1(2) using same(1) "3.prems"(5) key_items g1 False by linarith
    have post: "max_items (env_limits E) \<le> length (st_scratch s1)" "rd_items (st_reader s1) \<le> max_items (env_limits E)"
      "base + n_table \<le> st_cursor s1"
      "st_cursor s1 \<le> length (st_scratch s1)" "length (name # names) + (n - 1) \<le> n_table"
      "table_holds E (salt base) (subspan base n_table (st_scratch s1)) (name # names)"
      using same "3.prems"(2,7,8,10) s1(2) g1 False state(1) holds by simp_all
    from "3.IH"(2) [OF False key(1) refl t s1(1) "3.prems"(1) post(1) ms' [folded s1(2)] post(2) cursor "3.prems"(6) post(3,4,6,5)]
    obtain s' where s': "scan_members E salt depth (n - 1) base n_table s1 = Inr s'" "st_reader s' = r'" by blast
    have "scan_members E salt depth n base n_table s = Inr s'"
      unfolding scan_members_step [OF "3.prems"(1) False] using key t s1(1) s'(1) by blast
    with s'(2) show ?thesis by blast
  qed
qed

section \<open>Documents\<close>

text \<open>
  C4: the structural validator accepts exactly the documents that the materialising decoder accepts,
  whatever the contents of the scratch span and the addresses that salt its hash, provided the span has
  an entry for every item that the limits allow.
\<close>

theorem structural_validation_agrees:
  assumes "limits_ok l" and "length bytes < 4294967295" and "max_items l \<le> length scratch"
  shows "validate_raw_item_structural bytes l scratch salt = Inr () \<longleftrightarrow>
    validate_raw_item \<lparr>seg_first = bytes, seg_second = []\<rparr> l = Inr ()"
proof (cases "length bytes \<le> max_bytes l")
  case False
  then show ?thesis
    by (simp add: validate_raw_item_structural_def validate_structural_def validate_raw_item_def decode_def
        read_value_def read_document_def seg_size_def)
next
  case True
  let ?E = "\<lparr>env_input = \<lparr>seg_first = bytes, seg_second = []\<rparr>, env_limits = l\<rparr>"
  let ?s = "\<lparr>st_reader = new_reader, st_scratch = scratch, st_cursor = 0\<rparr>"
  have E: "contiguous ?E"
    using assms(1,2) True by (simp add: contiguous_def plain_def limits_ok_def seg_size_def)
  have new: "rd_items new_reader = 0" by (simp add: new_reader_def)
  have sim: "(\<exists>s'. scan_item ?E salt 0 ?s = Inr s' \<and> st_reader s' = r) \<longleftrightarrow> (\<exists>v. read_item ?E 0 new_reader = Inr (v, r))" for r
  proof
    assume "\<exists>s'. scan_item ?E salt 0 ?s = Inr s' \<and> st_reader s' = r"
    then show "\<exists>v. read_item ?E 0 new_reader = Inr (v, r)" using scan_sound(1) [OF E, of salt 0 ?s] by auto
  next
    assume "\<exists>v. read_item ?E 0 new_reader = Inr (v, r)"
    then obtain v where v: "read_item ?E 0 new_reader = Inr (v, r)" by blast
    from read_items_grow(1) [OF contiguous_plain [OF E] v] have "rd_items r + 0 \<le> max_items l" by simp
    with scan_complete(1) [OF E, of ?s 0 v r 0 salt] v assms(3)
    show "\<exists>s'. scan_item ?E salt 0 ?s = Inr s' \<and> st_reader s' = r" by simp
  qed
  have "(\<exists>s'. scan_item ?E salt 0 ?s = Inr s' \<and> finish ?E (st_reader s') = Inr ()) \<longleftrightarrow>
      (\<exists>r. (\<exists>s'. scan_item ?E salt 0 ?s = Inr s' \<and> st_reader s' = r) \<and> finish ?E r = Inr ())" by auto
  also have "\<dots> \<longleftrightarrow> (\<exists>r. (\<exists>v. read_item ?E 0 new_reader = Inr (v, r)) \<and> finish ?E r = Inr ())"
    by (simp only: sim)
  also have "\<dots> \<longleftrightarrow> (\<exists>v r. read_item ?E 0 new_reader = Inr (v, r) \<and> finish ?E r = Inr ())" by auto
  finally have "(\<exists>s'. scan_item ?E salt 0 ?s = Inr s' \<and> finish ?E (st_reader s') = Inr ()) \<longleftrightarrow>
      (\<exists>v r. read_item ?E 0 new_reader = Inr (v, r) \<and> finish ?E r = Inr ())" .
  moreover have "validate_raw_item_structural bytes l scratch salt = Inr () \<longleftrightarrow>
      (\<exists>s'. scan_item ?E salt 0 ?s = Inr s' \<and> finish ?E (st_reader s') = Inr ())"
    using assms(2,3) True
    by (simp add: validate_raw_item_structural_def validate_structural_def seg_size_def bindr_Inr_iff Let_def)
  moreover have "validate_raw_item (env_input ?E) l = Inr () \<longleftrightarrow>
      (\<exists>v r. read_item ?E 0 new_reader = Inr (v, r) \<and> finish ?E r = Inr ())"
  proof -
    have "decode (env_input ?E) l = Inr v \<longleftrightarrow> (\<exists>r. read_item ?E 0 new_reader = Inr (v, r) \<and> finish ?E r = Inr ())" for v
      using True by (auto simp: decode_def read_value_def read_document_def bindr_Inr_iff seg_size_def)
    then show ?thesis by (simp add: validate_raw_item_def bindr_Inr_iff)
  qed
  ultimately show ?thesis by simp
qed

text \<open>The map with the keys \<open>a\<close> and \<open>b\<close>, both null, is accepted; with the key \<open>a\<close> twice it is not.\<close>

definition small_limits :: limits where
  "small_limits = \<lparr>max_bytes = 64, max_items = 8, max_depth = 4, allows = None\<rparr>"

theorem structural_validation_agrees_witness:
  "validate_raw_item_structural [0xa2, 0x61, 97, 0xf6, 0x61, 98, 0xf6] small_limits (replicate 8 7) (\<lambda>_. 5) = Inr () \<and>
   validate_raw_item_structural [0xa2, 0x61, 97, 0xf6, 0x61, 97, 0xf6] small_limits (replicate 8 7) (\<lambda>_. 5) \<noteq> Inr ()"
proof -
  note eval = validate_raw_item_def decode_def read_value_def read_document_def read_item.simps read_members.simps
    item_head_def head_of_byte_def new_reader_def read_byte_def peek_byte_def seg_size_def read_flat_scalar_def
    read_simple_def finish_def small_limits_def fits_remaining_def drop_bit_eq_div take_bit_eq_mod
    size_argument_def argument_def allocation_allowed_def read_object_key_def read_scalar_item_def read_text_def
    validated_payload_ranges_def payload_ranges_def
  have "valid_utf8 [97]" "valid_utf8 [98]" by code_simp+
  note eval = eval this
  have "validate_raw_item \<lparr>seg_first = [0xa2, 0x61, 97, 0xf6, 0x61, 98, 0xf6], seg_second = []\<rparr> small_limits = Inr ()"
    by (simp add: eval)
  moreover have "validate_raw_item \<lparr>seg_first = [0xa2, 0x61, 97, 0xf6, 0x61, 97, 0xf6], seg_second = []\<rparr> small_limits \<noteq> Inr ()"
    by (simp add: eval)
  moreover have "limits_ok small_limits" "max_items small_limits = 8" by (simp_all add: limits_ok_def small_limits_def)
  ultimately show ?thesis
    using structural_validation_agrees [of small_limits _ "replicate 8 7" "\<lambda>_. 5"] by simp
qed

end
