(* ===== verification/Ring_Buffer.thy ===== *)
theory Ring_Buffer
  imports Prelude
begin

text \<open>
  Circular storage. A ring is a list of optional slots, the index of its first record and the number
  of records; \<open>ring_holds\<close> relates it to the queue it represents. The locale \<open>fifo_queue\<close> is what the
  clients of a queue rely on, whatever stores it.
\<close>

section \<open>Representation\<close>

definition ring_holds :: "'a option list \<Rightarrow> nat \<Rightarrow> 'a list \<Rightarrow> bool" where
  "ring_holds slots head q \<longleftrightarrow>
     (slots = [] \<or> head < length slots) \<and> length q \<le> length slots \<and>
     rotate head slots = map Some q @ replicate (length slots - length q) None"

lemma ring_holds_bounds:
  assumes "ring_holds slots head q"
  shows "length q \<le> length slots" "slots = [] \<or> head < length slots"
  using assms by (auto simp: ring_holds_def)

lemma ring_holds_nth:
  assumes "ring_holds slots head q" "i < length q"
  shows "slots ! ((head + i) mod length slots) = Some (q ! i)"
proof -
  have "i < length slots" using assms by (auto simp: ring_holds_def)
  then have "slots ! ((head + i) mod length slots) = rotate head slots ! i" by (simp add: nth_rotate)
  then show ?thesis using assms by (simp add: ring_holds_def nth_append)
qed

lemma ring_holds_unique: "ring_holds slots head p \<Longrightarrow> ring_holds slots head q \<Longrightarrow> length p = length q \<Longrightarrow> p = q"
  by (intro nth_equalityI) (auto dest: ring_holds_nth simp: ring_holds_nth)

lemma rotate_update:
  assumes "i < length xs"
  shows "rotate h (xs[(h + i) mod length xs := x]) = (rotate h xs)[i := x]"
proof (rule nth_equalityI)
  fix j assume "j < length (rotate h (xs[(h + i) mod length xs := x]))"
  then have j: "j < length xs" by simp
  have "(h + i) mod length xs = (h + j) mod length xs \<longleftrightarrow> i = j"
  proof
    assume "(h + i) mod length xs = (h + j) mod length xs"
    then have "i mod length xs = j mod length xs" by (simp add: nat_mod_eq_iff)
    with assms j show "i = j" by simp
  qed simp
  moreover have "(h + j) mod length xs < length xs" using j by (intro mod_less_divisor) linarith
  ultimately show "rotate h (xs[(h + i) mod length xs := x]) ! j = (rotate h xs)[i := x] ! j"
    using j assms by (simp add: nth_rotate nth_list_update)
qed simp

lemma rotate_next: "rotate ((h + 1) mod length xs) xs = rotate1 (rotate h xs)"
  by (metis Suc_eq_plus1 rotate_Suc rotate_conv_mod)

lemma ring_empty: "ring_holds (replicate n None) 0 []"
  by (cases n) (simp_all add: ring_holds_def)

text \<open>Writing behind the last record appends it.\<close>

lemma ring_put:
  assumes "ring_holds slots head q" "length q < length slots"
  shows "ring_holds (slots[(head + length q) mod length slots := Some x]) head (q @ [x])"
proof -
  let ?k = "length slots - length q"
  have "rotate head (slots[(head + length q) mod length slots := Some x]) =
      (map Some q @ replicate ?k None)[length q := Some x]"
    using assms by (simp add: rotate_update ring_holds_def)
  also have "\<dots> = map Some (q @ [x]) @ replicate (?k - 1) None"
    using assms(2) by (cases ?k) (simp_all add: list_update_append)
  finally show ?thesis using assms by (simp add: ring_holds_def)
qed

text \<open>Clearing the first slot and moving on removes the first record.\<close>

lemma ring_take:
  assumes "ring_holds slots head (x # q)"
  shows "slots ! head = Some x" "ring_holds (slots[head := None]) ((head + 1) mod length slots) q"
proof -
  let ?s = "slots[head := None]"
  have h: "head < length slots" using assms by (auto simp: ring_holds_def)
  then show "slots ! head = Some x" using ring_holds_nth [OF assms, of 0] by simp
  have "rotate head ?s = (rotate head slots)[0 := None]"
    using rotate_update [of 0 slots head None] h by fastforce
  then have "rotate ((head + 1) mod length slots) ?s = rotate1 ((map Some (x # q) @ replicate (length slots - Suc (length q)) None)[0 := None])"
    using assms rotate_next [of head ?s] by (simp add: ring_holds_def)
  also have "\<dots> = map Some q @ replicate (length slots - length q) None"
    using ring_holds_bounds(1) [OF assms]
    by (simp add: replicate_append_same Suc_diff_le flip: replicate_Suc)
  finally show "ring_holds ?s ((head + 1) mod length slots) q"
    using assms h by (auto simp: ring_holds_def intro!: mod_less_divisor)
qed

text \<open>Moving the records behind a position down by one removes the record there.\<close>

lemma rotate_shift:
  assumes "a \<le> b" "0 < a" "b \<le> length slots"
  shows "rotate h (foldl (\<lambda>s n. s[(h + n - 1) mod length s := s ! ((h + n) mod length s)]) slots [a..<b]) =
      foldl (\<lambda>s n. s[n - 1 := s ! n]) (rotate h slots) [a..<b] \<and>
    length (foldl (\<lambda>s n. s[(h + n - 1) mod length s := s ! ((h + n) mod length s)]) slots [a..<b]) = length slots"
  using assms
proof (induction b)
  case (Suc b)
  show ?case
  proof (cases "a = Suc b")
    case False
    let ?s = "foldl (\<lambda>s n. s[(h + n - 1) mod length s := s ! ((h + n) mod length s)]) slots [a..<b]"
    from Suc False have IH: "rotate h ?s = foldl (\<lambda>s n. s[n - 1 := s ! n]) (rotate h slots) [a..<b]"
      "length ?s = length slots" by simp_all
    have "rotate h (?s[(h + (b - 1)) mod length ?s := ?s ! ((h + b) mod length ?s)]) =
        (rotate h ?s)[b - 1 := rotate h ?s ! b]"
      using Suc.prems False IH(2) by (subst rotate_update) (simp_all add: nth_rotate)
    then show ?thesis using Suc.prems False IH by (simp add: Nat.add_diff_assoc)
  qed simp
qed simp

lemma copy_down: "length T = n \<Longrightarrow> (T @ x # y # D)[n := (T @ x # y # D) ! Suc n] = T @ y # y # D"
  by (simp add: nth_append list_update_append)

lemma shift_list:
  assumes "k < m" "m \<le> length L"
  shows "foldl (\<lambda>s n. s[n - 1 := s ! n]) L [Suc k..<m] = take k L @ take (m - 1 - k) (drop (Suc k) L) @ drop (m - 1) L"
  using assms
proof (induction m)
  case (Suc m)
  show ?case
  proof (cases "k = m")
    case False
    with Suc have k: "k < m" "m < length L" by simp_all
    let ?T = "take k L @ take (m - 1 - k) (drop (Suc k) L)"
    have T: "length ?T = m - 1" using k by simp
    have tail: "drop (m - 1) L = L ! (m - 1) # L ! m # drop (Suc m) L"
      using k by (metis Cons_nth_drop_Suc Suc_diff_1 Suc_lessD bot_nat_0.not_eq_extremum not_less_zero)
    have grow: "take (m - k) (drop (Suc k) L) = take (m - 1 - k) (drop (Suc k) L) @ [L ! m]"
      using k take_Suc_conv_app_nth [of "m - 1 - k" "drop (Suc k) L"] by (simp add: Suc_diff_Suc)
    have "foldl (\<lambda>s n. s[n - 1 := s ! n]) L [Suc k..<Suc m] =
        (?T @ L ! (m - 1) # L ! m # drop (Suc m) L)[m - 1 := (?T @ L ! (m - 1) # L ! m # drop (Suc m) L) ! m]"
      using Suc.IH k by (simp add: tail [unfolded One_nat_def])
    also have "\<dots> = ?T @ L ! m # L ! m # drop (Suc m) L"
      using copy_down [OF T, of "L ! (m - 1)" "L ! m" "drop (Suc m) L"] k by (simp only: Suc_diff_1 append_assoc)
    also have "\<dots> = take k L @ take (Suc m - 1 - k) (drop (Suc k) L) @ drop (Suc m - 1) L"
      using grow k by (simp add: Cons_nth_drop_Suc)
    finally show ?thesis .
  qed (use Suc.prems in \<open>simp add: id_take_nth_drop\<close>)
qed simp

lemma ring_remove:
  assumes "ring_holds slots head q" "k < length q"
  shows "ring_holds ((foldl (\<lambda>s n. s[(head + n - 1) mod length s := s ! ((head + n) mod length s)]) slots [Suc k..<length q])
      [(head + (length q - 1)) mod length slots := None]) head (take k q @ drop (Suc k) q)"
proof -
  let ?s = "foldl (\<lambda>s n. s[(head + n - 1) mod length s := s ! ((head + n) mod length s)]) slots [Suc k..<length q]"
  let ?R = "replicate (length slots - length q) None"
  have le: "length q \<le> length slots" using assms(1) by (rule ring_holds_bounds)
  have s: "rotate head ?s = foldl (\<lambda>s n. s[n - 1 := s ! n]) (rotate head slots) [Suc k..<length q]" "length ?s = length slots"
    using rotate_shift [of "Suc k" "length q" slots head] assms(2) le by simp_all
  have "rotate head ?s = map Some (take k q @ drop (Suc k) q) @ [Some (last q)] @ ?R"
  proof -
    have "drop (length q - 1) q = [last q]" using assms(2)
      by (metis append_butlast_last_id append_eq_conv_conj length_butlast list.size(3) not_less_zero)
    then show ?thesis
      unfolding s(1) using assms le shift_list [of k "length q" "map Some q @ ?R"]
      by (simp add: ring_holds_def take_map drop_map)
  qed
  then have "rotate head (?s[(head + (length q - 1)) mod length slots := None]) =
      map Some (take k q @ drop (Suc k) q) @ None # ?R"
    using assms(2) le rotate_update [of "length q - 1" ?s head None] s(2)
    by (simp add: list_update_append del: map_append)
  moreover have "length (take k q @ drop (Suc k) q) = length q - 1" using assms(2) by simp
  ultimately show ?thesis
    using assms le s(2) by (auto simp: ring_holds_def Suc_diff_le simp flip: replicate_Suc)
qed

text \<open>Copying the records in order to the front of larger storage keeps the queue.\<close>

lemma copy_front:
  assumes "n \<le> length g" "\<And>i. i < n \<Longrightarrow> f i = h i"
  shows "foldl (\<lambda>grown index. grown[index := f index]) g [0..<n] = map h [0..<n] @ drop n g"
  using assms
proof (induction n)
  case (Suc n)
  then have "foldl (\<lambda>grown index. grown[index := f index]) g [0..<n] = map h [0..<n] @ drop n g" by simp
  moreover have "drop n g = g ! n # drop (Suc n) g" using Suc.prems(1) by (simp add: Cons_nth_drop_Suc)
  ultimately show ?case using Suc.prems by (simp add: list_update_append)
qed simp

lemma ring_grow:
  assumes "ring_holds slots head q" and "length q \<le> c"
  shows "ring_holds (foldl (\<lambda>grown index. grown[index := slots ! ((head + index) mod length slots)]) (replicate c None) [0..<length q]) 0 q"
    and "length (foldl (\<lambda>grown index. grown[index := slots ! ((head + index) mod length slots)]) (replicate c None) [0..<length q]) = c"
proof -
  let ?g = "foldl (\<lambda>grown index. grown[index := slots ! ((head + index) mod length slots)]) (replicate c None) [0..<length q]"
  have "slots ! ((head + i) mod length slots) = Some (q ! i)" if "i < length q" for i
    using that assms(1) by (auto intro: ring_holds_nth)
  then have "?g = map (\<lambda>i. Some (q ! i)) [0..<length q] @ drop (length q) (replicate c None)"
    using assms(2) by (intro copy_front) simp_all
  moreover have "map (\<lambda>i. Some (q ! i)) [0..<length q] = map Some q"
    by (rule nth_equalityI) simp_all
  ultimately have g: "?g = map Some q @ replicate (c - length q) None" by simp
  then show l: "length ?g = c" using assms(2) by simp
  show "ring_holds ?g 0 q"
    using g l assms(2) by (cases "c = 0") (simp_all add: ring_holds_def)
qed

text \<open>The records, read off the storage.\<close>

definition ring_list :: "'a option list \<Rightarrow> nat \<Rightarrow> nat \<Rightarrow> 'a list" where
  "ring_list slots head count = map (\<lambda>i. the (slots ! ((head + i) mod length slots))) [0..<count]"

lemma ring_list_holds: "ring_holds slots head q \<Longrightarrow> ring_list slots head (length q) = q"
  by (rule nth_equalityI) (simp_all add: ring_list_def ring_holds_nth)

section \<open>First-in first-out\<close>

text \<open>
  The interface of a queue: \<open>items\<close> is what it holds, the oldest first, and \<open>room\<close> says that the
  next record is taken as it is.
\<close>

locale fifo_queue =
  fixes ok :: "'s \<Rightarrow> bool"
    and items :: "'s \<Rightarrow> 'a list"
    and room :: "'a \<Rightarrow> 's \<Rightarrow> bool"
    and enq :: "'a \<Rightarrow> 's \<Rightarrow> 's"
    and deq :: "'s \<Rightarrow> 'a option \<times> 's"
  assumes enq_ok: "ok s \<Longrightarrow> room x s \<Longrightarrow> ok (enq x s)"
    and enq_items: "ok s \<Longrightarrow> room x s \<Longrightarrow> items (enq x s) = items s @ [x]"
    and deq_ok: "ok s \<Longrightarrow> ok (snd (deq s))"
    and deq_empty: "ok s \<Longrightarrow> items s = [] \<Longrightarrow> deq s = (None, s)"
    and deq_first: "ok s \<Longrightarrow> items s = x # q \<Longrightarrow> fst (deq s) = Some x \<and> items (snd (deq s)) = q"
begin

fun drained :: "nat \<Rightarrow> 's \<Rightarrow> 'a list \<times> 's" where
  "drained 0 s = ([], s)"
| "drained (Suc n) s =
     (case deq s of (None, s') \<Rightarrow> ([], s')
      | (Some x, s') \<Rightarrow> (case drained n s' of (xs, t) \<Rightarrow> (x # xs, t)))"

lemma drained_items:
  "ok s \<Longrightarrow> fst (drained n s) = take n (items s) \<and> items (snd (drained n s)) = drop n (items s) \<and>
     ok (snd (drained n s))"
proof (induction n arbitrary: s)
  case (Suc n)
  obtain y t where d: "deq s = (y, t)" by fastforce
  show ?case
  proof (cases "items s")
    case Nil
    with Suc.prems d show ?thesis using deq_empty by auto
  next
    case (Cons x q)
    from deq_first [OF Suc.prems Cons] d have "y = Some x" "items t = q" by simp_all
    with Suc.IH [of t] deq_ok [OF Suc.prems] d Cons show ?thesis by (auto split: prod.splits)
  qed
qed simp

lemma drained_all: "ok s \<Longrightarrow> length (items s) \<le> n \<Longrightarrow> fst (drained n s) = items s \<and> items (snd (drained n s)) = []"
  using drained_items [of s n] by simp

text \<open>What was put in comes out in that order, behind what was there.\<close>

fun enq_list :: "'a list \<Rightarrow> 's \<Rightarrow> 's" where
  "enq_list [] s = s"
| "enq_list (x # xs) s = enq_list xs (enq x s)"

fun rooms :: "'a list \<Rightarrow> 's \<Rightarrow> bool" where
  "rooms [] s = True"
| "rooms (x # xs) s = (room x s \<and> rooms xs (enq x s))"

lemma enq_list_items: "ok s \<Longrightarrow> rooms xs s \<Longrightarrow> ok (enq_list xs s) \<and> items (enq_list xs s) = items s @ xs"
  by (induction xs arbitrary: s) (simp_all add: enq_ok enq_items)

lemma in_order: "ok s \<Longrightarrow> rooms xs s \<Longrightarrow> length (items s @ xs) \<le> n \<Longrightarrow>
    fst (drained n (enq_list xs s)) = items s @ xs"
  using drained_all [of "enq_list xs s" n] enq_list_items [of s xs] by simp

end

end
