(* ===== verification/Transport_Ring.thy ===== *)
theory Transport_Ring
  imports Ring_Buffer
begin

text \<open>
  The output side of the browser transport: the fixed ring of encoded records between the system
  workers and the socket loop (\<open>src/frameworks/transport/browser_record_ring.h\<close>, \<open>.cpp\<close>), and the
  peer and output-epoch state machines (\<open>browser_server_lifecycle.h\<close>). The mutex makes each ring
  operation one step, so the interleavings of the producers and the consumer are the sequences of
  such steps. A slot that is moved from stays engaged in C++ with an unspecified value; the model
  keeps the old value there, and every such slot is overwritten or reset before it is read.
\<close>

section \<open>The ring\<close>

definition kBrowserRecordRingCapacity :: nat where
  "kBrowserRecordRingCapacity = 64"

datatype record_priority = Transient | Critical

datatype record_push = Enqueued | Dropped | ClosePeer

record output_record =
  or_bytes :: "byte list"
  or_priority :: record_priority
  or_state_system :: nat
  or_state_event :: nat
  or_state_revision :: nat

record push_observation =
  ob_coalesced :: bool
  ob_stale :: bool
  ob_occupancy :: nat

record record_ring =
  rr_records :: "output_record option list"
  rr_read :: nat
  rr_write :: nat
  rr_size :: nat

definition new_ring :: record_ring where
  "new_ring = \<lparr>rr_records = replicate kBrowserRecordRingCapacity None, rr_read = 0, rr_write = 0, rr_size = 0\<rparr>"

definition same_state :: "output_record \<Rightarrow> output_record \<Rightarrow> bool" where
  "same_state r p \<longleftrightarrow> or_state_system p = or_state_system r \<and> or_state_event p = or_state_event r"

definition replaceable :: "output_record \<Rightarrow> bool" where
  "replaceable r \<longleftrightarrow> or_state_system r \<noteq> 0 \<and> or_state_event r \<noteq> 0"

definition record_at :: "record_ring \<Rightarrow> nat \<Rightarrow> output_record" where
  "record_at r offset = the (rr_records r ! ((rr_read r + offset) mod length (rr_records r)))"

text \<open>The removal of the record at an offset: the later ones move down by one slot.\<close>

definition shift_down :: "record_ring \<Rightarrow> nat \<Rightarrow> output_record option list" where
  "shift_down r offset =
     foldl (\<lambda>s next. s[(rr_read r + next - 1) mod length s := s ! ((rr_read r + next) mod length s)])
       (rr_records r) [offset + 1 ..< rr_size r]"

definition remove_at :: "record_ring \<Rightarrow> nat \<Rightarrow> record_ring" where
  "remove_at r offset =
     (let s = shift_down r offset; w = (rr_write r + length s - 1) mod length s
      in r\<lparr>rr_records := s[w := None], rr_write := w, rr_size := rr_size r - 1\<rparr>)"

definition append_record :: "output_record \<Rightarrow> push_observation \<Rightarrow> record_ring
    \<Rightarrow> record_push \<times> push_observation \<times> record_ring" where
  "append_record rec obs r =
     (if rr_size r = length (rr_records r)
      then (if or_priority rec = Transient then Dropped else ClosePeer, obs, r)
      else (Enqueued, obs\<lparr>ob_occupancy := rr_size r + 1\<rparr>,
            r\<lparr>rr_records := (rr_records r)[rr_write r := Some rec],
              rr_write := (rr_write r + 1) mod length (rr_records r),
              rr_size := rr_size r + 1\<rparr>))"

definition push :: "output_record \<Rightarrow> record_ring \<Rightarrow> record_push \<times> push_observation \<times> record_ring" where
  "push rec r =
     (let obs = \<lparr>ob_coalesced = False, ob_stale = False, ob_occupancy = rr_size r\<rparr>;
          prior = (if replaceable rec then List.find (\<lambda>offset. same_state rec (record_at r offset)) [0..<rr_size r]
                   else None)
      in case prior of
           None \<Rightarrow> append_record rec obs r
         | Some offset \<Rightarrow>
             if or_state_revision (record_at r offset) \<ge> or_state_revision rec
             then (Enqueued, obs\<lparr>ob_stale := True\<rparr>, r)
             else append_record rec (obs\<lparr>ob_coalesced := True\<rparr>) (remove_at r offset))"

definition pop :: "record_ring \<Rightarrow> output_record option \<times> record_ring" where
  "pop r =
     (if rr_size r = 0 then (None, r)
      else (rr_records r ! rr_read r,
            r\<lparr>rr_records := (rr_records r)[rr_read r := None],
              rr_read := (rr_read r + 1) mod length (rr_records r),
              rr_size := rr_size r - 1\<rparr>))"

definition clear_ring :: "record_ring \<Rightarrow> record_ring" where
  "clear_ring r = r\<lparr>rr_records := replicate (length (rr_records r)) None, rr_read := 0, rr_write := 0, rr_size := 0\<rparr>"

section \<open>What the ring promises\<close>

text \<open>
  The specification is a bounded queue: a complete replaceable state supersedes the queued record of
  the same identity unless that one is at least as new; everything else is appended while there is
  room, and a full queue drops transient records and closes the peer for critical ones.
\<close>

definition push_spec :: "output_record \<Rightarrow> output_record list \<Rightarrow> record_push \<times> output_record list" where
  "push_spec rec q =
     (case (if replaceable rec then List.extract (same_state rec) q else None) of
        None \<Rightarrow>
          (if length q = kBrowserRecordRingCapacity
           then (if or_priority rec = Transient then Dropped else ClosePeer, q) else (Enqueued, q @ [rec]))
      | Some (older, p, newer) \<Rightarrow>
          (Enqueued, if or_state_revision p \<ge> or_state_revision rec then q else older @ newer @ [rec]))"

definition ring_is :: "record_ring \<Rightarrow> output_record list \<Rightarrow> bool" where
  "ring_is r q \<longleftrightarrow>
     length (rr_records r) = kBrowserRecordRingCapacity \<and>
     ring_holds (rr_records r) (rr_read r) q \<and> rr_size r = length q \<and>
     rr_write r = (rr_read r + length q) mod length (rr_records r)"

lemma capacity_simp [simp]: "kBrowserRecordRingCapacity = 64"
  by (simp add: kBrowserRecordRingCapacity_def)

lemma ring_is_new: "ring_is new_ring []"
  by (simp add: ring_is_def new_ring_def ring_empty)

lemma ring_is_clear: "ring_is r q \<Longrightarrow> ring_is (clear_ring r) []"
  by (simp add: ring_is_def clear_ring_def ring_empty)

lemma ring_is_record: "ring_is r q \<Longrightarrow> i < length q \<Longrightarrow> record_at r i = q ! i"
  by (auto simp: ring_is_def record_at_def dest: ring_holds_nth)

lemma append_record_refines:
  assumes "ring_is r q"
  shows "length q \<le> 64"
    and "length q = 64 \<Longrightarrow> append_record rec obs r = (if or_priority rec = Transient then Dropped else ClosePeer, obs, r)"
    and "length q \<noteq> 64 \<Longrightarrow> \<exists>r'. append_record rec obs r = (Enqueued, obs\<lparr>ob_occupancy := length q + 1\<rparr>, r') \<and>
      ring_is r' (q @ [rec])"
proof -
  show le: "length q \<le> 64" using assms by (auto simp: ring_is_def dest: ring_holds_bounds)
  show "append_record rec obs r = (if or_priority rec = Transient then Dropped else ClosePeer, obs, r)"
    if "length q = 64" using assms that by (simp add: append_record_def ring_is_def)
  show "\<exists>r'. append_record rec obs r = (Enqueued, obs\<lparr>ob_occupancy := length q + 1\<rparr>, r') \<and> ring_is r' (q @ [rec])"
    if "length q \<noteq> 64"
    using assms that le ring_put [of "rr_records r" "rr_read r" q rec]
    by (simp add: ring_is_def append_record_def mod_Suc_eq)
qed

lemma remove_at_refines:
  assumes "ring_is r q" "k < length q"
  shows "ring_is (remove_at r k) (take k q @ drop (Suc k) q)"
proof -
  let ?n = "length (rr_records r)"
  have n: "?n = 64" and q: "length q \<le> 64" "length q \<noteq> 0"
    using assms by (auto simp: ring_is_def dest: ring_holds_bounds)
  have len: "length (shift_down r k) = 64"
    using rotate_shift [of "Suc k" "length q" "rr_records r" "rr_read r"] assms q n
    by (simp add: shift_down_def ring_is_def)
  have w: "(rr_write r + 64 - 1) mod 64 = (rr_read r + (length q - 1)) mod 64"
  proof -
    have "(rr_write r + 64 - 1) mod 64 = (rr_write r + 63) mod 64" by (simp add: add.commute)
    also have "\<dots> = (rr_read r + length q + 63) mod 64"
      using assms(1) n by (simp add: ring_is_def mod_add_left_eq)
    also have "rr_read r + length q + 63 = (rr_read r + (length q - 1)) + 64" using q by simp
    finally show ?thesis by simp
  qed
  have "ring_holds ((shift_down r k)[(rr_read r + (length q - 1)) mod 64 := None]) (rr_read r) (take k q @ drop (Suc k) q)"
    using ring_remove [of "rr_records r" "rr_read r" q k] assms n by (simp add: shift_down_def ring_is_def)
  with assms len w q show ?thesis
    by (simp add: ring_is_def remove_at_def Let_def)
qed

lemma find_first:
  assumes "ring_is r q"
  shows "List.find (\<lambda>offset. same_state rec (record_at r offset)) [0..<rr_size r] =
    (case List.extract (same_state rec) q of None \<Rightarrow> None | Some (older, p, newer) \<Rightarrow> Some (length older))"
proof -
  have size: "rr_size r = length q" using assms by (simp add: ring_is_def)
  show ?thesis
  proof (cases "List.extract (same_state rec) q")
    case None
    then have "\<not> (\<exists>p \<in> set q. same_state rec p)" by (simp add: extract_None_iff)
    then show ?thesis
      using None size ring_is_record [OF assms] by (auto simp: find_None_iff)
  next
    case (Some x)
    obtain older p newer where x: "x = (older, p, newer)" by (cases x)
    with Some have q: "q = older @ p # newer" "same_state rec p" "\<not> (\<exists>y \<in> set older. same_state rec y)"
      by (auto simp: extract_Some_iff)
    have "List.find (\<lambda>offset. same_state rec (record_at r offset)) [0..<length q] = Some (length older)"
      unfolding find_Some_iff
      using q ring_is_record [OF assms] by (auto intro!: exI [of _ "length older"] simp: nth_append)
    with Some x size show ?thesis by simp
  qed
qed

lemma push_step:
  assumes "ring_is r q"
  shows "fst (push rec r) = fst (push_spec rec q) \<and> ring_is (snd (snd (push rec r))) (snd (push_spec rec q)) \<and>
    (fst (push rec r) \<noteq> Enqueued \<longrightarrow> snd (snd (push rec r)) = r)"
proof (cases "if replaceable rec then List.extract (same_state rec) q else None")
  case None
  then have "push rec r = append_record rec \<lparr>ob_coalesced = False, ob_stale = False, ob_occupancy = rr_size r\<rparr> r"
    by (auto simp: push_def find_first [OF assms] split: if_splits)
  moreover have "push_spec rec q = (if length q = 64
      then (if or_priority rec = Transient then Dropped else ClosePeer, q) else (Enqueued, q @ [rec]))"
    unfolding push_spec_def None by simp
  moreover note append_record_refines(2,3) [OF assms, of rec
    "\<lparr>ob_coalesced = False, ob_stale = False, ob_occupancy = rr_size r\<rparr>"]
  ultimately show ?thesis using assms by (cases "length q = 64") auto
next
  case (Some x)
  obtain older p newer where x: "x = (older, p, newer)" by (cases x)
  with Some have ex: "replaceable rec" "List.extract (same_state rec) q = Some (older, p, newer)"
    by (auto split: if_splits)
  then have q: "q = older @ p # newer" by (simp add: extract_Some_iff)
  have at: "record_at r (length older) = p" using ring_is_record [OF assms, of "length older"] q by simp
  have gone: "ring_is (remove_at r (length older)) (older @ newer)"
    using remove_at_refines [OF assms, of "length older"] q by simp
  have "length (older @ newer) \<noteq> 64"
    using append_record_refines(1) [OF assms] q by simp
  from append_record_refines(3) [OF gone this, of rec
      "\<lparr>ob_coalesced = True, ob_stale = False, ob_occupancy = rr_size r\<rparr>"]
  obtain r' where "append_record rec \<lparr>ob_coalesced = True, ob_stale = False, ob_occupancy = rr_size r\<rparr>
        (remove_at r (length older)) =
      (Enqueued, \<lparr>ob_coalesced = True, ob_stale = False, ob_occupancy = length (older @ newer) + 1\<rparr>, r')"
    "ring_is r' ((older @ newer) @ [rec])" by auto
  with ex assms show ?thesis by (simp add: push_def push_spec_def find_first [OF assms] at)
qed

lemma pop_step:
  assumes "ring_is r q"
  shows "case q of [] \<Rightarrow> pop r = (None, r) | x # q' \<Rightarrow> fst (pop r) = Some x \<and> ring_is (snd (pop r)) q'"
proof (cases q)
  case Nil
  with assms show ?thesis by (simp add: ring_is_def pop_def)
next
  case (Cons x q')
  have size: "rr_size r = Suc (length q')" "length (rr_records r) = 64" "rr_write r = (rr_read r + Suc (length q')) mod 64"
    using assms Cons by (simp_all add: ring_is_def)
  have "rr_read r + Suc (length q') = Suc (rr_read r) + length q'" by simp
  then have "rr_write r = (Suc (rr_read r) mod 64 + length q') mod 64"
    unfolding size(3) by (simp only: mod_add_left_eq)
  with assms Cons size ring_take [of "rr_records r" "rr_read r" x q'] show ?thesis
    by (simp add: ring_is_def pop_def)
qed

lemma ring_is_unique: "ring_is r p \<Longrightarrow> ring_is r q \<Longrightarrow> p = q"
  by (auto simp: ring_is_def intro: ring_holds_unique)

section \<open>The ring as a queue\<close>

definition ring_items :: "record_ring \<Rightarrow> output_record list" where
  "ring_items r = map (record_at r) [0..<rr_size r]"

definition ring_ok :: "record_ring \<Rightarrow> bool" where
  "ring_ok r \<longleftrightarrow> ring_is r (ring_items r)"

lemma ring_is_items: "ring_is r q \<Longrightarrow> ring_items r = q \<and> ring_ok r"
proof -
  assume r: "ring_is r q"
  then have "ring_items r = q"
    using ring_is_record [OF r] by (intro nth_equalityI) (auto simp: ring_items_def ring_is_def)
  with r show ?thesis by (simp add: ring_ok_def)
qed

text \<open>A record is taken as it is when it supersedes nothing and the ring has a free slot.\<close>

definition ring_room :: "output_record \<Rightarrow> record_ring \<Rightarrow> bool" where
  "ring_room rec r \<longleftrightarrow> \<not> replaceable rec \<and> rr_size r < kBrowserRecordRingCapacity"

lemma ring_enq:
  assumes "ring_ok r" "ring_room rec r"
  shows "ring_ok (snd (snd (push rec r))) \<and> ring_items (snd (snd (push rec r))) = ring_items r @ [rec]"
proof -
  have "push_spec rec (ring_items r) = (Enqueued, ring_items r @ [rec])"
    using assms by (simp add: push_spec_def ring_room_def ring_items_def)
  with push_step [of r "ring_items r" rec] assms(1) show ?thesis
    by (auto simp: ring_ok_def dest: ring_is_items)
qed

interpretation ring: fifo_queue ring_ok ring_items ring_room "\<lambda>rec r. snd (snd (push rec r))" pop
proof unfold_locales
  fix r :: record_ring and x q
  assume ok: "ring_ok r"
  note step = pop_step [OF ok [unfolded ring_ok_def]]
  show "ring_ok (snd (pop r))"
    using step ok by (cases "ring_items r") (auto dest: ring_is_items)
  show "pop r = (None, r)" if "ring_items r = []" using step that by simp
  show "fst (pop r) = Some x \<and> ring_items (snd (pop r)) = q" if "ring_items r = x # q"
    using step that by (auto dest: ring_is_items)
qed (simp_all add: ring_enq)

section \<open>Reachable rings\<close>

text \<open>Producers and the consumer take turns under the mutex.\<close>

inductive ring_step :: "record_ring \<Rightarrow> record_ring \<Rightarrow> bool" where
  step_push: "ring_step r (snd (snd (push rec r)))"
| step_pop: "ring_step r (snd (pop r))"
| step_clear: "ring_step r (clear_ring r)"

inductive ring_reachable :: "record_ring \<Rightarrow> bool" where
  ring_start: "ring_reachable new_ring"
| ring_next: "ring_reachable r \<Longrightarrow> ring_step r s \<Longrightarrow> ring_reachable s"

definition one_per_state :: "output_record list \<Rightarrow> bool" where
  "one_per_state q \<longleftrightarrow> distinct (map (\<lambda>p. (or_state_system p, or_state_event p)) (filter replaceable q))"

lemma one_per_state_append:
  "one_per_state (p @ q) \<longleftrightarrow> one_per_state p \<and> one_per_state q \<and>
     (\<forall>x \<in> set p. \<forall>y \<in> set q. replaceable x \<longrightarrow> replaceable y \<longrightarrow> \<not> same_state x y)"
  unfolding one_per_state_def filter_append map_append distinct_append same_state_def by fastforce

lemma same_state_facts:
  "same_state x y \<Longrightarrow> same_state y x" "same_state x y \<Longrightarrow> replaceable x = replaceable y"
  "same_state x y \<Longrightarrow> same_state y z \<Longrightarrow> same_state x z"
  by (auto simp: same_state_def replaceable_def)

lemma push_spec_one_per_state:
  assumes "one_per_state q"
  shows "one_per_state (snd (push_spec rec q))"
proof (cases "if replaceable rec then List.extract (same_state rec) q else None")
  case None
  then have "\<not> same_state x rec" if "x \<in> set q" "replaceable x" "replaceable rec" for x
    using that same_state_facts(1) [of x rec] by (auto simp: extract_None_iff split: if_splits)
  moreover have "one_per_state [rec]" by (simp add: one_per_state_def)
  ultimately have "one_per_state (q @ [rec])" using assms by (auto simp: one_per_state_append)
  with assms show ?thesis unfolding push_spec_def None by simp
next
  case (Some x)
  obtain older p newer where x: "x = (older, p, newer)" by (cases x)
  with Some have q: "q = older @ p # newer" "same_state rec p" "replaceable rec" "\<forall>y \<in> set older. \<not> same_state rec y"
    by (auto simp: extract_Some_iff split: if_splits)
  have q': "q = older @ [p] @ newer" using q(1) by simp
  have other: "\<not> same_state y rec" if "y \<in> set (older @ newer)" "replaceable y" for y
  proof
    assume "same_state y rec"
    then have "same_state y p" "same_state p y" using q(2) same_state_facts by blast+
    with assms that q(2,3) same_state_facts(2) [OF q(2)] show False
      unfolding q' one_per_state_append by auto
  qed
  moreover have "one_per_state [rec]" by (simp add: one_per_state_def)
  moreover have "one_per_state (older @ newer)"
    using assms unfolding q' one_per_state_append by simp
  ultimately have "one_per_state ((older @ newer) @ [rec])"
    unfolding one_per_state_append [of "older @ newer"] by auto
  then show ?thesis unfolding push_spec_def Some x using assms by simp
qed

lemma reachable_ring_ok:
  assumes "ring_reachable r"
  shows "ring_ok r \<and> one_per_state (ring_items r)"
  using assms
proof (induction rule: ring_reachable.induct)
  case ring_start
  show ?case using ring_is_items [OF ring_is_new] by (simp add: one_per_state_def)
next
  case (ring_next r s)
  then have r: "ring_is r (ring_items r)" and one: "one_per_state (ring_items r)" by (simp_all add: ring_ok_def)
  from ring_next(2) show ?case
  proof cases
    case (step_push rec)
    with push_step [OF r, of rec] push_spec_one_per_state [OF one, of rec] show ?thesis
      by (metis ring_is_items)
  next
    case step_pop
    with pop_step [OF r] r one show ?thesis
    proof (cases "ring_items r")
      case (Cons x q)
      with one have "one_per_state ([x] @ q)" by simp
      then have "one_per_state q" unfolding one_per_state_append by simp
      with pop_step [OF r] Cons step_pop show ?thesis by (auto dest!: ring_is_items)
    qed (auto simp: ring_ok_def)
  next
    case step_clear
    with ring_is_items [OF ring_is_clear [OF r]] show ?thesis by (simp add: one_per_state_def)
  qed
qed

section \<open>Properties\<close>

text \<open>
  C19: a push does to the ring exactly what the bounded queue with superseding states prescribes: the
  same answer, and the slots represent the prescribed queue, wherever the indices stand.
\<close>

theorem push_refines:
  assumes "ring_reachable r"
  shows "fst (push rec r) = fst (push_spec rec (ring_items r)) \<and>
    ring_items (snd (snd (push rec r))) = snd (push_spec rec (ring_items r))"
  using push_step [of r "ring_items r" rec] reachable_ring_ok [OF assms]
  by (auto simp: ring_ok_def dest: ring_is_items)

theorem push_refines_witness:
  "ring_items (snd (snd (push \<lparr>or_bytes = [1], or_priority = Critical, or_state_system = 1, or_state_event = 2, or_state_revision = 3\<rparr> new_ring)))
     = [\<lparr>or_bytes = [1], or_priority = Critical, or_state_system = 1, or_state_event = 2, or_state_revision = 3\<rparr>]"
proof -
  have "ring_items new_ring = []" by (simp add: ring_items_def new_ring_def)
  then show ?thesis
    using push_refines [OF ring_start, of "\<lparr>or_bytes = [1], or_priority = Critical, or_state_system = 1,
      or_state_event = 2, or_state_revision = 3\<rparr>"] by (simp add: push_spec_def extract_def)
qed

text \<open>
  C20: whatever the interleaving of pushes, pops and resets, the ring holds at most 64 records and at
  most one per replaceable state; a push is refused only when all 64 slots are taken, it then leaves
  the ring as it was and closes the peer rather than lose a critical record; and popping 64 times
  delivers everything the ring held, in order.
\<close>

theorem ring_safe:
  assumes "ring_reachable r"
  shows "length (ring_items r) \<le> kBrowserRecordRingCapacity \<and> one_per_state (ring_items r) \<and>
    (fst (push rec r) \<noteq> Enqueued \<longrightarrow>
       length (ring_items r) = kBrowserRecordRingCapacity \<and> snd (snd (push rec r)) = r \<and>
       (fst (push rec r) = Dropped \<longleftrightarrow> or_priority rec = Transient)) \<and>
    fst (ring.drained kBrowserRecordRingCapacity r) = ring_items r"
proof -
  have ok: "ring_ok r" "one_per_state (ring_items r)" using reachable_ring_ok [OF assms] by simp_all
  then have r: "ring_is r (ring_items r)" by (simp add: ring_ok_def)
  have le: "length (ring_items r) \<le> 64" using append_record_refines(1) [OF r] .
  have refused: "length (ring_items r) = 64 \<and> (fst (push rec r) = Dropped \<longleftrightarrow> or_priority rec = Transient)"
    if "fst (push rec r) \<noteq> Enqueued"
    using that push_step [OF r, of rec] by (auto simp: push_spec_def split: option.splits if_splits)
  have "snd (snd (push rec r)) = r" if "fst (push rec r) \<noteq> Enqueued"
    using that push_step [OF r, of rec] by simp
  with le ok refused ring.drained_all [OF ok(1)] show ?thesis by simp
qed

text \<open>A ring after three pushes: the third replaces the state of the first, behind the second.\<close>

definition ring_state :: "nat \<Rightarrow> output_record" where
  "ring_state n = \<lparr>or_bytes = [of_nat n], or_priority = Critical, or_state_system = 1, or_state_event = 2, or_state_revision = n\<rparr>"

definition ring_notice :: output_record where
  "ring_notice = \<lparr>or_bytes = [9], or_priority = Transient, or_state_system = 0, or_state_event = 0, or_state_revision = 0\<rparr>"

definition busy_ring :: record_ring where
  "busy_ring = snd (snd (push (ring_state 4) (snd (snd (push ring_notice (snd (snd (push (ring_state 3) new_ring))))))))"

lemma busy_ring: "ring_reachable busy_ring" "ring_items busy_ring = [ring_notice, ring_state 4]"
proof -
  have step: "ring_is (snd (snd (push rec r))) q'" if "ring_is r q" "snd (push_spec rec q) = q'" for r q rec q'
    using push_step [OF that(1), of rec] that(2) by blast
  have "snd (push_spec (ring_state 3) []) = [ring_state 3]"
    "snd (push_spec ring_notice [ring_state 3]) = [ring_state 3, ring_notice]"
    "snd (push_spec (ring_state 4) [ring_state 3, ring_notice]) = [ring_notice, ring_state 4]"
    by (simp_all add: push_spec_def ring_state_def ring_notice_def replaceable_def extract_def same_state_def)
  note step [OF step [OF step [OF ring_is_new this(1)] this(2)] this(3)]
  from ring_is_items [OF this] show "ring_items busy_ring = [ring_notice, ring_state 4]" unfolding busy_ring_def by simp
  show "ring_reachable busy_ring" unfolding busy_ring_def by (intro ring_next [OF _ step_push] ring_start)
qed

theorem ring_safe_witness:
  "fst (ring.drained kBrowserRecordRingCapacity busy_ring) = [ring_notice, ring_state 4] \<and> one_per_state (ring_items busy_ring)"
  using ring_safe [OF busy_ring(1)] busy_ring(2) by simp

end
