(* ===== verification/Ascii_Text.thy ===== *)
theory Ascii_Text
  imports Prelude
begin

text \<open>
  Literals and decimal numerals as the bytes of a \<open>std::string\<close>: \<open>std::to_string\<close> of an unsigned
  number and the digits that \<open>std::from_chars\<close> accepts for one.
\<close>

definition ascii :: "string \<Rightarrow> byte list" where
  "ascii s = map (\<lambda>c. of_nat (of_char c)) s"

lemma ascii_simps [simp]: "ascii [] = []" "ascii (c # s) = of_nat (of_char c) # ascii s"
  by (simp_all add: ascii_def)

lemma byte_of_char_inject: "(of_nat (of_char c) :: byte) = of_nat (of_char d) \<longleftrightarrow> c = d"
proof
  assume "(of_nat (of_char c) :: byte) = of_nat (of_char d)"
  then have "unat (of_nat (of_char c) :: byte) = unat (of_nat (of_char d) :: byte)" by simp
  then have "(of_char c :: nat) = of_char d" by (simp add: unsigned_of_nat take_bit_eq_mod)
  then show "c = d" by simp
qed simp

lemma ascii_inject: "ascii s = ascii t \<longleftrightarrow> s = t"
  unfolding ascii_def by (rule inj_map_eq_map) (simp add: inj_def byte_of_char_inject)

lemma ascii_shape: "length (ascii s) = length s" "ascii s = [] \<longleftrightarrow> s = []"
  by (simp_all add: ascii_def)

lemma zero_in_ascii: "0 \<in> set (ascii s) \<longleftrightarrow> CHR 0x00 \<in> set s"
  using byte_of_char_inject [of "CHR 0x00"] by (auto simp: ascii_def image_iff)

text \<open>The bytes of a string as the characters of an error message.\<close>

definition text_of :: "byte list \<Rightarrow> string" where
  "text_of bs = map (\<lambda>b. char_of (unat b)) bs"

definition is_digit :: "byte \<Rightarrow> bool" where
  "is_digit b \<longleftrightarrow> 48 \<le> unat b \<and> unat b \<le> 57"

fun decimal :: "nat \<Rightarrow> byte list" where
  "decimal n = (if n < 10 then [of_nat (48 + n)] else decimal (n div 10) @ [of_nat (48 + n mod 10)])"

declare decimal.simps [simp del]

definition decimal_value :: "byte list \<Rightarrow> nat" where
  "decimal_value bs = foldl (\<lambda>v b. 10 * v + (unat b - 48)) 0 bs"

lemma unat_digit: "n < 10 \<Longrightarrow> unat (of_nat (48 + n) :: byte) = 48 + n"
  using unat_of_nat_byte [of "48 + n"] by simp

lemma decimal_digits: "decimal n \<noteq> [] \<and> (\<forall>b \<in> set (decimal n). is_digit b)"
proof (induction n rule: decimal.induct)
  case (1 n)
  have "is_digit (of_nat (48 + n mod 10))"
    using unat_digit [of "n mod 10"] by (simp add: is_digit_def)
  with 1 show ?case
    using unat_digit [of n] by (subst (1 2) decimal.simps) (auto simp: is_digit_def)
qed

lemma decimal_value_decimal [simp]: "decimal_value (decimal n) = n"
proof (induction n rule: decimal.induct)
  case (1 n)
  show ?case
  proof (cases "n < 10")
    case True
    then show ?thesis using unat_digit [of n] by (subst decimal.simps) (simp add: decimal_value_def)
  next
    case False
    have "decimal n = decimal (n div 10) @ [of_nat (48 + n mod 10)]"
      using False by (subst decimal.simps) simp
    moreover have "foldl (\<lambda>v b. 10 * v + (unat b - 48)) 0 (decimal (n div 10)) = n div 10"
      using 1 False by (simp add: decimal_value_def)
    ultimately show ?thesis using unat_digit [of "n mod 10"] by (simp add: decimal_value_def)
  qed
qed

lemma decimal_inject: "decimal m = decimal n \<longleftrightarrow> m = n"
  by (metis decimal_value_decimal)

end
