(* ===== verification/Browser_Server.thy ===== *)
theory Browser_Server
  imports Transport_Ring Ascii_Text Common_Text
begin

text \<open>
  The local browser server (\<open>src/frameworks/transport/browser_server.cpp\<close>,
  \<open>browser_server_lifecycle.h\<close>): the socket loop and its handlers, the publication path of the system
  workers, the deferred wakes between the two, and start, stop and finalization.

  uWebSockets is not part of the repository. What a send answers, whether the deferral of a task
  throws, what the application does inside its callbacks and whether it accepts a record are functions
  of the history, collected in an \<open>environment\<close>; peers are numbers, and the close handler of a peer
  runs when the server closes it. The server keeps a ghost history \<open>sv_log\<close>, the newest entry first.
  Each handler is one step; inside a callback the application may publish, from the loop or from a
  worker, request the closing of the peer and request the stop. A publication that would fall between
  two iterations of \<open>drain\<close> is ordered after it: it has requested its own wake.
\<close>

section \<open>Peer and epoch\<close>

record peer_lifecycle =
  pl_generation :: nat
  pl_closure_notified :: bool

definition new_lifecycle :: peer_lifecycle where
  "new_lifecycle = \<lparr>pl_generation = 0, pl_closure_notified = True\<rparr>"

definition lifecycle_opened :: "nat \<Rightarrow> peer_lifecycle \<Rightarrow> peer_lifecycle" where
  "lifecycle_opened value l = l\<lparr>pl_generation := value, pl_closure_notified := False\<rparr>"

definition begin_close :: "peer_lifecycle \<Rightarrow> bool \<times> peer_lifecycle" where
  "begin_close l = (if pl_closure_notified l then (False, l) else (True, l\<lparr>pl_closure_notified := True\<rparr>))"

datatype output_phase = Phase_Closed | Phase_Opening | Phase_Open

record output_epoch =
  oe_generation :: nat
  oe_phase :: output_phase

definition begin_open :: "nat \<Rightarrow> output_epoch \<Rightarrow> output_epoch" where
  "begin_open value e = e\<lparr>oe_generation := value, oe_phase := Phase_Opening\<rparr>"

definition finish_open :: "nat \<Rightarrow> output_epoch \<Rightarrow> output_epoch" where
  "finish_open value e =
     (if oe_generation e = value \<and> oe_phase e = Phase_Opening then e\<lparr>oe_phase := Phase_Open\<rparr> else e)"

definition close_epoch :: "output_epoch \<Rightarrow> output_epoch" where
  "close_epoch e = e\<lparr>oe_phase := Phase_Closed\<rparr>"

definition admits :: "bool \<Rightarrow> output_epoch \<Rightarrow> bool" where
  "admits owner_thread e \<longleftrightarrow> oe_phase e = Phase_Open \<or> (oe_phase e = Phase_Opening \<and> owner_thread)"

section \<open>State\<close>

definition kMaximumMessageBytes :: nat where
  "kMaximumMessageBytes = 8 * 1024 * 1024"

datatype server_event =
    Started | PeerOpened | PeerReplaced | PeerClosed | BinaryReceived | InvalidMessage | RecordEnqueued
  | RecordCoalesced | StaleStateDiscarded | QueueHighWater | TransientDropped | CriticalCapacityClosed
  | WriteAccepted | WriteBackpressured | WriteDrained

record asset =
  as_path :: "byte list"
  as_mime :: "byte list"
  as_bytes :: "byte list"
  as_immutable :: bool

text \<open>
  The history: diagnostics, the callbacks with the generation of the peer they concern, accepted and
  sent records with the generation of the output epoch, and the upgrades that were granted.
\<close>

datatype observation =
    Diagnostic server_event nat
  | Cb_Opened nat
  | Cb_Activated nat
  | Cb_Record nat "byte list"
  | Cb_Closed nat
  | Accepted nat output_record
  | Sent nat "byte list"
  | Upgraded nat

datatype deferred = Deferred_Wake | Deferred_Stop

datatype send_status = Send_Success | Send_Backpressure | Send_Dropped

record counters =
  pending_coalesced :: nat
  pending_stale :: nat
  pending_high_water :: nat
  pending_enqueued :: nat
  pending_transient_dropped :: nat
  pending_critical_closed :: nat
  pending_invalid :: nat

definition no_counts :: counters where
  "no_counts = \<lparr>pending_coalesced = 0, pending_stale = 0, pending_high_water = 0, pending_enqueued = 0,
     pending_transient_dropped = 0, pending_critical_closed = 0, pending_invalid = 0\<rparr>"

record server =
  sv_app :: bool
  sv_socket :: "nat option"
  sv_peers :: "nat \<Rightarrow> peer_lifecycle"
  sv_listener :: bool
  sv_output :: record_ring
  sv_maximum_output :: nat
  sv_callbacks :: bool
  sv_wake_loop :: bool
  sv_urls :: "(byte list \<times> byte list) option"
  sv_epoch :: output_epoch
  sv_accepting_wakes :: bool
  sv_wake_pending :: bool
  sv_stop_wake_pending :: bool
  sv_wake_generation :: nat
  sv_stop_requested :: bool
  sv_close_requested :: bool
  sv_running :: bool
  sv_connected :: bool
  sv_finalization_required :: bool
  sv_counts :: counters
  sv_backpressured :: bool
  sv_detached :: bool
  sv_owner_run_active :: bool
  sv_initialized_once :: bool
  sv_port :: nat
  sv_next_peer :: nat
  sv_active_peer :: nat
  sv_session_token :: "byte list"
  sv_page_query :: "byte list"
  sv_expected_origin :: "byte list"
  sv_assets :: "asset list"
  sv_tasks :: "(deferred \<times> nat) list"
  sv_defers :: nat
  sv_null_call :: bool
  sv_log :: "observation list"

definition new_server :: server where
  "new_server =
     \<lparr>sv_app = False, sv_socket = None, sv_peers = (\<lambda>_. new_lifecycle), sv_listener = False,
      sv_output = new_ring, sv_maximum_output = kMaximumMessageBytes, sv_callbacks = False,
      sv_wake_loop = False, sv_urls = None,
      sv_epoch = \<lparr>oe_generation = 0, oe_phase = Phase_Closed\<rparr>, sv_accepting_wakes = False,
      sv_wake_pending = False, sv_stop_wake_pending = False, sv_wake_generation = 0,
      sv_stop_requested = False, sv_close_requested = False, sv_running = False, sv_connected = False,
      sv_finalization_required = False, sv_counts = no_counts, sv_backpressured = False,
      sv_detached = True, sv_owner_run_active = False, sv_initialized_once = False, sv_port = 0,
      sv_next_peer = 0, sv_active_peer = 0, sv_session_token = [], sv_page_query = [],
      sv_expected_origin = [], sv_assets = [], sv_tasks = [], sv_defers = 0, sv_null_call = False,
      sv_log = []\<rparr>"

text \<open>What the application may do inside a callback, and the environment of the server.\<close>

datatype api = Publish bool output_record | Close_Peer | Request_Stop

record environment =
  env_react :: "observation list \<Rightarrow> api list"
  env_record :: "observation list \<Rightarrow> bool"
  env_send :: "observation list \<Rightarrow> send_status"
  env_defer_throws :: "nat \<Rightarrow> bool"
  env_diagnostic :: bool
  env_activated :: bool

section \<open>Wakes\<close>

definition observe :: "observation \<Rightarrow> server \<Rightarrow> server" where
  "observe ob s = s\<lparr>sv_log := ob # sv_log s\<rparr>"

definition has_diagnostic :: "environment \<Rightarrow> server \<Rightarrow> bool" where
  "has_diagnostic E s \<longleftrightarrow> sv_callbacks s \<and> env_diagnostic E"

definition trace :: "environment \<Rightarrow> server_event \<Rightarrow> nat \<Rightarrow> server \<Rightarrow> server" where
  "trace E event value s = (if has_diagnostic E s then observe (Diagnostic event value) s else s)"

fun deferred_pending :: "deferred \<Rightarrow> server \<Rightarrow> bool" where
  "deferred_pending Deferred_Wake s = sv_wake_pending s"
| "deferred_pending Deferred_Stop s = sv_stop_wake_pending s"

fun set_pending :: "deferred \<Rightarrow> bool \<Rightarrow> server \<Rightarrow> server" where
  "set_pending Deferred_Wake b s = s\<lparr>sv_wake_pending := b\<rparr>"
| "set_pending Deferred_Stop b s = s\<lparr>sv_stop_wake_pending := b\<rparr>"

definition request_deferred_wake :: "environment \<Rightarrow> deferred \<Rightarrow> server \<Rightarrow> bool \<times> server" where
  "request_deferred_wake E kind s =
     (if \<not> sv_accepting_wakes s \<or> \<not> sv_wake_loop s then (False, s)
      else if deferred_pending kind s then (True, s)
      else if env_defer_throws E (sv_defers s)
      then (False, (set_pending kind False s)\<lparr>sv_defers := sv_defers s + 1\<rparr>)
      else (True, (set_pending kind True s)\<lparr>sv_defers := sv_defers s + 1,
                    sv_tasks := sv_tasks s @ [(kind, sv_wake_generation s)]\<rparr>))"

definition request_wake :: "environment \<Rightarrow> server \<Rightarrow> bool \<times> server" where
  "request_wake E s = request_deferred_wake E Deferred_Wake s"

definition request_stop_wake :: "environment \<Rightarrow> server \<Rightarrow> bool \<times> server" where
  "request_stop_wake E s = request_deferred_wake E Deferred_Stop s"

definition withdraw_wakes :: "server \<Rightarrow> server" where
  "withdraw_wakes s =
     s\<lparr>sv_accepting_wakes := False, sv_wake_loop := False, sv_wake_pending := False,
       sv_stop_wake_pending := False, sv_wake_generation := sv_wake_generation s + 1, sv_urls := None\<rparr>"

section \<open>Publication\<close>

definition count :: "environment \<Rightarrow> (counters \<Rightarrow> counters) \<Rightarrow> server \<Rightarrow> server" where
  "count E f s = (if has_diagnostic E s then s\<lparr>sv_counts := f (sv_counts s)\<rparr> else s)"

definition refusal :: "output_record \<Rightarrow> record_push" where
  "refusal rec = (if or_priority rec \<noteq> Transient then ClosePeer else Dropped)"

definition publish_invalid :: "environment \<Rightarrow> output_record \<Rightarrow> server \<Rightarrow> record_push \<times> server" where
  "publish_invalid E rec s =
     (let s1 = count E (\<lambda>c. c\<lparr>pending_invalid := pending_invalid c + 1\<rparr>) s
      in if or_priority rec \<noteq> Transient
         then (ClosePeer, snd (request_wake E
                ((count E (\<lambda>c. c\<lparr>pending_critical_closed := pending_critical_closed c + 1\<rparr>) s1)
                  \<lparr>sv_close_requested := True\<rparr>)))
         else if has_diagnostic E s
         then (Dropped, snd (request_wake E
                (count E (\<lambda>c. c\<lparr>pending_transient_dropped := pending_transient_dropped c + 1\<rparr>) s1)))
         else (Dropped, s1))"

definition publish_result :: "environment \<Rightarrow> record_push \<Rightarrow> server \<Rightarrow> server" where
  "publish_result E result s =
     (case result of
        Enqueued \<Rightarrow> count E (\<lambda>c. c\<lparr>pending_enqueued := pending_enqueued c + 1\<rparr>) s
      | Dropped \<Rightarrow> count E (\<lambda>c. c\<lparr>pending_transient_dropped := pending_transient_dropped c + 1\<rparr>) s
      | ClosePeer \<Rightarrow> (count E (\<lambda>c. c\<lparr>pending_critical_closed := pending_critical_closed c + 1\<rparr>) s)
                      \<lparr>sv_close_requested := True\<rparr>)"

definition publish :: "environment \<Rightarrow> bool \<Rightarrow> output_record \<Rightarrow> server \<Rightarrow> record_push \<times> server" where
  "publish E owner rec s =
     (if \<not> sv_accepting_wakes s \<or> \<not> sv_wake_loop s \<or> \<not> admits owner (sv_epoch s) \<or>
         sv_stop_requested s \<or> sv_close_requested s
      then (refusal rec, s)
      else if or_bytes rec = [] \<or> length (or_bytes rec) > sv_maximum_output s
      then publish_invalid E rec s
      else case request_wake E s of
        (False, s1) \<Rightarrow> (refusal rec, s1)
      | (True, s1) \<Rightarrow>
          (case push rec (sv_output s1) of (result, seen, ring) \<Rightarrow>
             let s2 = s1\<lparr>sv_output := ring\<rparr>;
                 s3 = (if result = Enqueued then observe (Accepted (oe_generation (sv_epoch s)) rec) s2 else s2);
                 s4 = count E (\<lambda>c. c\<lparr>pending_coalesced := pending_coalesced c + (if ob_coalesced seen then 1 else 0),
                        pending_stale := pending_stale c + (if ob_stale seen then 1 else 0),
                        pending_high_water := max (pending_high_water c) (ob_occupancy seen)\<rparr>) s3
             in (result, publish_result E result s4)))"

definition request_stop_flag :: "server \<Rightarrow> server" where
  "request_stop_flag s = s\<lparr>sv_stop_requested := True\<rparr>"

definition request_stop :: "environment \<Rightarrow> server \<Rightarrow> server" where
  "request_stop E s = snd (request_stop_wake E (request_stop_flag s))"

definition request_peer_close_flag :: "server \<Rightarrow> server" where
  "request_peer_close_flag s = s\<lparr>sv_close_requested := True\<rparr>"

definition request_peer_close :: "environment \<Rightarrow> server \<Rightarrow> server" where
  "request_peer_close E s = snd (request_wake E (request_peer_close_flag s))"

fun apply_api :: "environment \<Rightarrow> server \<Rightarrow> api \<Rightarrow> server" where
  "apply_api E s (Publish owner rec) = snd (publish E owner rec s)"
| "apply_api E s Close_Peer = request_peer_close E s"
| "apply_api E s Request_Stop = request_stop E s"

text \<open>A callback: calling a null function pointer is recorded as a fault.\<close>

definition callback :: "environment \<Rightarrow> observation \<Rightarrow> server \<Rightarrow> server" where
  "callback E ob s =
     (let s' = observe ob s
      in if sv_callbacks s then foldl (apply_api E) s' (env_react E (sv_log s'))
         else s'\<lparr>sv_null_call := True\<rparr>)"

section \<open>The owner thread\<close>

definition begin_output_epoch :: "nat \<Rightarrow> server \<Rightarrow> server" where
  "begin_output_epoch generation s =
     s\<lparr>sv_epoch := begin_open generation (sv_epoch s), sv_output := clear_ring (sv_output s)\<rparr>"

definition finish_output_epoch :: "nat \<Rightarrow> server \<Rightarrow> server" where
  "finish_output_epoch generation s = s\<lparr>sv_epoch := finish_open generation (sv_epoch s)\<rparr>"

definition close_output_epoch :: "server \<Rightarrow> server" where
  "close_output_epoch s = s\<lparr>sv_epoch := close_epoch (sv_epoch s), sv_output := clear_ring (sv_output s)\<rparr>"

definition active_peer :: "nat \<Rightarrow> server \<Rightarrow> bool" where
  "active_peer peer s \<longleftrightarrow> sv_socket s = Some peer \<and> \<not> pl_closure_notified (sv_peers s peer) \<and>
     pl_generation (sv_peers s peer) = sv_active_peer s"

definition notify_peer_closed :: "environment \<Rightarrow> nat \<Rightarrow> server \<Rightarrow> server" where
  "notify_peer_closed E peer s =
     (case begin_close (sv_peers s peer) of
        (False, _) \<Rightarrow> s
      | (True, state) \<Rightarrow>
          let s1 = s\<lparr>sv_peers := (sv_peers s)(peer := state)\<rparr>;
              s2 = (if sv_socket s = Some peer
                    then close_output_epoch (s1\<lparr>sv_socket := None, sv_active_peer := 0,
                           sv_backpressured := False, sv_connected := False\<rparr>)
                    else s1)
          in callback E (Cb_Closed (pl_generation state)) (trace E PeerClosed (pl_generation state) s2))"

text \<open>\<open>peer->close()\<close> runs the close handler of the peer.\<close>

definition socket_close :: "environment \<Rightarrow> nat \<Rightarrow> server \<Rightarrow> server" where
  "socket_close E peer s = notify_peer_closed E peer s"

definition close_peer_on_owner :: "environment \<Rightarrow> server \<Rightarrow> server" where
  "close_peer_on_owner E s =
     (let s1 = s\<lparr>sv_close_requested := False\<rparr>
      in case sv_socket s of
           None \<Rightarrow> close_output_epoch s1
         | Some peer \<Rightarrow> socket_close E peer (notify_peer_closed E peer s1))"

definition flush_one :: "environment \<Rightarrow> server_event \<Rightarrow> nat \<Rightarrow> server \<Rightarrow> server" where
  "flush_one E event n s = (if n \<noteq> 0 then trace E event n s else s)"

definition flush_worker_diagnostics :: "environment \<Rightarrow> server \<Rightarrow> server" where
  "flush_worker_diagnostics E s =
     (if \<not> has_diagnostic E s then s
      else let c = sv_counts s in
        flush_one E RecordEnqueued (pending_enqueued c)
          (flush_one E CriticalCapacityClosed (pending_critical_closed c)
            (flush_one E TransientDropped (pending_transient_dropped c)
              (flush_one E InvalidMessage (pending_invalid c)
                (flush_one E QueueHighWater (pending_high_water c)
                  (flush_one E StaleStateDiscarded (pending_stale c)
                    (flush_one E RecordCoalesced (pending_coalesced c)
                      (s\<lparr>sv_counts := no_counts\<rparr>))))))))"

lemma trace_output [simp]: "sv_output (trace E e n s) = sv_output s"
  by (simp add: trace_def observe_def)

text \<open>
  The sending loop. A send that is dropped closes the peer, one under backpressure stops the loop.
\<close>

function send_all :: "environment \<Rightarrow> server \<Rightarrow> server" where
  "send_all E s =
     (case sv_socket s of
        None \<Rightarrow> s
      | Some peer \<Rightarrow>
          (case pop (sv_output s) of
             (None, ring) \<Rightarrow> s\<lparr>sv_output := ring\<rparr>
           | (Some rec, ring) \<Rightarrow>
                 let s1 = s\<lparr>sv_output := ring\<rparr>; bytes = or_bytes rec in
                 (case env_send E (sv_log s1) of
                    Send_Dropped \<Rightarrow> close_peer_on_owner E s1
                  | Send_Backpressure \<Rightarrow>
                      trace E WriteBackpressured (length bytes)
                        ((observe (Sent (sv_active_peer s) bytes) s1)\<lparr>sv_backpressured := True\<rparr>)
                  | Send_Success \<Rightarrow>
                      send_all E (trace E WriteAccepted (length bytes)
                        (observe (Sent (sv_active_peer s) bytes) s1)))))"
  by pat_completeness auto

termination
  by (relation "measure (\<lambda>(E, s). rr_size (sv_output s))") (auto simp: pop_def observe_def split: if_splits)

declare send_all.simps [simp del]

definition drain :: "environment \<Rightarrow> server \<Rightarrow> server" where
  "drain E s =
     (if sv_close_requested s then close_peer_on_owner E (s\<lparr>sv_close_requested := False\<rparr>)
      else if sv_socket s = None \<or> sv_backpressured s then s
      else send_all E s)"

definition stop_on_owner :: "environment \<Rightarrow> server \<Rightarrow> server" where
  "stop_on_owner E s =
     (if sv_detached s then s
      else
        let s1 = (withdraw_wakes (s\<lparr>sv_detached := True, sv_stop_requested := False\<rparr>))
                   \<lparr>sv_listener := False, sv_running := False\<rparr>
        in if sv_socket s1 \<noteq> None then close_peer_on_owner E s1 else close_output_epoch s1)"

definition finalize_on_owner :: "environment \<Rightarrow> server \<Rightarrow> server" where
  "finalize_on_owner E s =
     (stop_on_owner E s)\<lparr>sv_app := False, sv_callbacks := False, sv_assets := [], sv_session_token := [],
        sv_page_query := [], sv_expected_origin := [], sv_port := 0, sv_finalization_required := False\<rparr>"

definition deferred_task :: "environment \<Rightarrow> deferred \<times> nat \<Rightarrow> server \<Rightarrow> server" where
  "deferred_task E task s =
     (if \<not> sv_accepting_wakes s \<or> \<not> sv_wake_loop s \<or> snd task \<noteq> sv_wake_generation s then s
      else
        let s1 = flush_worker_diagnostics E (set_pending (fst task) False s)
        in case fst task of
             Deferred_Wake \<Rightarrow> if sv_stop_requested s1 then stop_on_owner E s1 else drain E s1
           | Deferred_Stop \<Rightarrow> stop_on_owner E s1)"

section \<open>The socket handlers\<close>

text \<open>An upgrade is granted for the session token and the origin of the server only.\<close>

definition upgrade_granted :: "server \<Rightarrow> byte list \<Rightarrow> byte list \<Rightarrow> bool" where
  "upgrade_granted s session origin \<longleftrightarrow>
     constant_time_equal session (sv_session_token s) \<and> origin = sv_expected_origin s"

definition on_open :: "environment \<Rightarrow> nat \<Rightarrow> server \<Rightarrow> server" where
  "on_open E peer s =
     (let s1 = (if sv_socket s \<noteq> None then close_peer_on_owner E (trace E PeerReplaced 0 s) else s)
      in if sv_next_peer s1 = size_max then socket_close E peer s1
         else
           let generation = sv_next_peer s1 + 1;
               s2 = begin_output_epoch generation (s1\<lparr>sv_next_peer := generation\<rparr>);
               s3 = s2\<lparr>sv_peers := (sv_peers s2)(peer := lifecycle_opened generation (sv_peers s2 peer)),
                       sv_socket := Some peer, sv_active_peer := generation,
                       sv_backpressured := False, sv_connected := True\<rparr>;
               s4 = finish_output_epoch generation (callback E (Cb_Opened generation) s3);
               s5 = drain E (trace E PeerOpened generation s4)
           in if active_peer peer s5 \<and> sv_callbacks s5 \<and> env_activated E
              then drain E (callback E (Cb_Activated generation) s5) else s5)"

definition on_message :: "environment \<Rightarrow> nat \<Rightarrow> byte list \<Rightarrow> bool \<Rightarrow> server \<Rightarrow> server" where
  "on_message E peer message binary s =
     (if \<not> active_peer peer s \<or> \<not> binary \<or> message = [] \<or> length message > kMaximumMessageBytes
      then let s1 = trace E InvalidMessage (length message) s
           in if active_peer peer s1 then close_peer_on_owner E s1 else socket_close E peer s1
      else
        let s1 = callback E (Cb_Record (sv_active_peer s) message) (trace E BinaryReceived (length message) s)
        in if env_record E (sv_log s1) then s1 else socket_close E peer (notify_peer_closed E peer s1))"

definition on_drain :: "environment \<Rightarrow> nat \<Rightarrow> server \<Rightarrow> server" where
  "on_drain E peer s =
     (if active_peer peer s then drain E (trace E WriteDrained 0 (s\<lparr>sv_backpressured := False\<rparr>)) else s)"

definition on_close :: "environment \<Rightarrow> nat \<Rightarrow> server \<Rightarrow> server" where
  "on_close E peer s = notify_peer_closed E peer s"

section \<open>Assets and URLs\<close>

definition find_asset :: "asset list \<Rightarrow> byte list \<Rightarrow> asset option" where
  "find_asset assets path =
     (let requested = (if path = ascii ''/'' then ascii ''/index.html'' else path)
      in List.find (\<lambda>a. as_path a = requested) assets)"

definition mime_for :: "byte list \<Rightarrow> byte list" where
  "mime_for extension =
     (if extension = ascii ''.html'' then ascii ''text/html; charset=utf-8''
      else if extension = ascii ''.js'' \<or> extension = ascii ''.mjs'' then ascii ''text/javascript; charset=utf-8''
      else if extension = ascii ''.css'' then ascii ''text/css; charset=utf-8''
      else if extension = ascii ''.wasm'' then ascii ''application/wasm''
      else if extension = ascii ''.svg'' then ascii ''image/svg+xml''
      else if extension = ascii ''.png'' then ascii ''image/png''
      else if extension = ascii ''.webp'' then ascii ''image/webp''
      else if extension = ascii ''.woff2'' then ascii ''font/woff2''
      else ascii ''application/octet-stream'')"

definition query_unreserved :: "byte \<Rightarrow> bool" where
  "query_unreserved b \<longleftrightarrow>
     (let c = unat b in (97 \<le> c \<and> c \<le> 122) \<or> (65 \<le> c \<and> c \<le> 90) \<or> (48 \<le> c \<and> c \<le> 57) \<or>
        c = 45 \<or> c = 46 \<or> c = 95 \<or> c = 126)"

definition upper_hex :: "nat \<Rightarrow> byte" where
  "upper_hex n = ascii ''0123456789ABCDEF'' ! n"

fun percent_encode_query_value :: "byte list \<Rightarrow> byte list" where
  "percent_encode_query_value [] = []"
| "percent_encode_query_value (c # cs) =
     (if query_unreserved c then [c] else [37, upper_hex (unat c div 16), upper_hex (unat c mod 16)])
       @ percent_encode_query_value cs"

definition websocket_url :: "nat \<Rightarrow> byte list \<Rightarrow> byte list" where
  "websocket_url port token =
     ascii ''ws://127.0.0.1:'' @ decimal port @ ascii ''/mmltk?session='' @ token"

definition page_url :: "nat \<Rightarrow> byte list \<Rightarrow> byte list \<Rightarrow> byte list" where
  "page_url port token query =
     ascii ''http://127.0.0.1:'' @ decimal port @ ascii ''/?session='' @ token @
     ascii ''&mmltk_ws_url='' @ percent_encode_query_value (websocket_url port token) @
     (if query = [] then [] else ascii ''&'' @ query)"

section \<open>Start, run and close\<close>

text \<open>
  The configuration, the assets read from the asset root (\<open>None\<close> when they cannot be read), whether
  the callbacks are complete, and the local port of the listening socket, if there is one.
\<close>

record startup =
  su_session_token :: "byte list"
  su_page_query :: "byte list"
  su_maximum_output :: nat
  su_callbacks_valid :: bool
  su_assets :: "asset list option"
  su_listen_port :: "int option"

definition start_server :: "environment \<Rightarrow> bool \<Rightarrow> startup \<Rightarrow> server \<Rightarrow> bool \<times> server" where
  "start_server E owner c s =
     (if \<not> owner \<or> sv_initialized_once s \<or> sv_running s \<or> sv_app s \<or> \<not> su_callbacks_valid c \<or>
         su_session_token c = [] \<or> su_maximum_output c = 0 \<or> su_maximum_output c > u32_max
      then (False, s)
      else case su_assets c of
        None \<Rightarrow> (False, s)
      | Some assets \<Rightarrow>
          let port = (case su_listen_port c of None \<Rightarrow> 0 | Some p \<Rightarrow> if 0 < p \<and> p \<le> 65535 then nat p else 0);
              s1 = s\<lparr>sv_callbacks := True, sv_maximum_output := su_maximum_output c,
                     sv_session_token := su_session_token c, sv_page_query := su_page_query c,
                     sv_assets := assets, sv_app := True, sv_initialized_once := True,
                     sv_finalization_required := True, sv_detached := False,
                     sv_listener := su_listen_port c \<noteq> None, sv_port := port\<rparr>
          in if \<not> sv_listener s1 \<or> port = 0 then (False, finalize_on_owner E s1)
             else
               (True, trace E Started port
                 (s1\<lparr>sv_expected_origin := ascii ''http://127.0.0.1:'' @ decimal port,
                     sv_stop_requested := False, sv_close_requested := False,
                     sv_wake_generation := sv_wake_generation s1 + 1, sv_wake_loop := True,
                     sv_epoch := close_epoch (sv_epoch s1), sv_output := clear_ring (sv_output s1),
                     sv_urls := Some (page_url port (su_session_token c) (su_page_query c),
                                      websocket_url port (su_session_token c)),
                     sv_accepting_wakes := True, sv_running := True\<rparr>)))"

definition server_run_begin :: "environment \<Rightarrow> server \<Rightarrow> server" where
  "server_run_begin E s =
     (if \<not> sv_app s then s
      else (if sv_stop_requested s then stop_on_owner E s else s)\<lparr>sv_owner_run_active := True\<rparr>)"

definition server_run_end :: "environment \<Rightarrow> server \<Rightarrow> server" where
  "server_run_end E s = finalize_on_owner E (s\<lparr>sv_owner_run_active := False\<rparr>)"

definition close_server :: "environment \<Rightarrow> bool \<Rightarrow> server \<Rightarrow> bool \<times> server" where
  "close_server E owner s =
     (if \<not> owner then
        (if \<not> sv_finalization_required s then (True, s) else (False, request_stop E s))
      else if sv_owner_run_active s then (False, stop_on_owner E s)
      else (True, finalize_on_owner E s))"

section \<open>Steps\<close>

text \<open>
  What can happen to a server: calls from any thread (\<open>worker_\<close>), calls of the owner, and, while
  \<open>run\<close> is active, the handlers and tasks of the loop. A socket opens only after its upgrade was
  granted and only once, and the loop ends when no socket is left.
\<close>

inductive server_step :: "environment \<Rightarrow> server \<Rightarrow> server \<Rightarrow> bool" for E :: environment where
  worker_publish: "server_step E s (snd (publish E owner rec s))"
| worker_close_flag: "server_step E s (request_peer_close_flag s)"
| worker_close_wake: "server_step E s (snd (request_wake E s))"
| worker_stop_flag: "server_step E s (request_stop_flag s)"
| worker_stop_wake: "server_step E s (snd (request_stop_wake E s))"
| owner_start: "server_step E s (snd (start_server E owner c s))"
| owner_run: "server_step E s (server_run_begin E s)"
| owner_close: "server_step E s (snd (close_server E owner s))"
| loop_end: "sv_owner_run_active s \<Longrightarrow> sv_socket s = None \<Longrightarrow> server_step E s (server_run_end E s)"
| loop_upgrade: "sv_owner_run_active s \<Longrightarrow> upgrade_granted s session origin \<Longrightarrow>
    server_step E s (observe (Upgraded peer) s)"
| loop_open: "sv_owner_run_active s \<Longrightarrow> Upgraded peer \<in> set (sv_log s) \<Longrightarrow>
    sv_peers s peer = new_lifecycle \<Longrightarrow> server_step E s (on_open E peer s)"
| loop_message: "sv_owner_run_active s \<Longrightarrow> server_step E s (on_message E peer message binary s)"
| loop_drain: "sv_owner_run_active s \<Longrightarrow> server_step E s (on_drain E peer s)"
| loop_close: "sv_owner_run_active s \<Longrightarrow> server_step E s (on_close E peer s)"
| loop_task: "sv_owner_run_active s \<Longrightarrow> sv_tasks s = task # tasks \<Longrightarrow>
    server_step E s (deferred_task E task (s\<lparr>sv_tasks := tasks\<rparr>))"

inductive server_reachable :: "environment \<Rightarrow> server \<Rightarrow> bool" for E :: environment where
  server_initial: "server_reachable E new_server"
| server_next: "server_reachable E s \<Longrightarrow> server_step E s t \<Longrightarrow> server_reachable E t"

end
