(* ===== verification/Browser_Server_Run.thy ===== *)
theory Browser_Server_Run
  imports Browser_Server
begin

text \<open>
  A run of the browser server, for the witnesses: a server on port 80 whose application publishes a
  record when a peer opens, and a worker that publishes another one afterwards.
\<close>

definition example_record :: "byte \<Rightarrow> output_record" where
  "example_record b = \<lparr>or_bytes = [b], or_priority = Critical, or_state_system = 0, or_state_event = 0, or_state_revision = 0\<rparr>"

definition example_environment :: environment where
  "example_environment =
     \<lparr>env_react = (\<lambda>l. case l of Cb_Opened g # _ \<Rightarrow> [Publish True (example_record 1)] | _ \<Rightarrow> []),
      env_record = (\<lambda>_. True), env_send = (\<lambda>_. Send_Success), env_defer_throws = (\<lambda>_. False),
      env_diagnostic = False, env_activated = False\<rparr>"

definition example_startup :: startup where
  "example_startup = \<lparr>su_session_token = [116], su_page_query = [], su_maximum_output = 100,
     su_callbacks_valid = True, su_assets = Some [], su_listen_port = Some 80\<rparr>"


definition example_running :: server where
  "example_running =
     \<lparr>sv_app = True, sv_socket = None, sv_peers = (\<lambda>_. new_lifecycle), sv_listener = True,
      sv_output = new_ring, sv_maximum_output = 100, sv_callbacks = True,
      sv_wake_loop = True, sv_urls = Some (page_url 80 [116] [], websocket_url 80 [116]),
      sv_epoch = \<lparr>oe_generation = 0, oe_phase = Phase_Closed\<rparr>, sv_accepting_wakes = True,
      sv_wake_pending = False, sv_stop_wake_pending = False, sv_wake_generation = 1,
      sv_stop_requested = False, sv_close_requested = False, sv_running = True, sv_connected = False,
      sv_finalization_required = True, sv_counts = no_counts, sv_backpressured = False,
      sv_detached = False, sv_owner_run_active = True, sv_initialized_once = True, sv_port = 80,
      sv_next_peer = 0, sv_active_peer = 0, sv_session_token = [116], sv_page_query = [],
      sv_expected_origin = ascii ''http://127.0.0.1:'' @ decimal 80, sv_assets = [], sv_tasks = [],
      sv_defers = 0, sv_null_call = False, sv_log = []\<rparr>"

section \<open>The running server\<close>

lemma clear_new: "clear_ring new_ring = new_ring"
  by (simp add: clear_ring_def new_ring_def)

lemma example_running: "server_run_begin example_environment (snd (start_server example_environment True example_startup new_server)) = example_running"
  by (simp add: server_run_begin_def start_server_def example_startup_def new_server_def example_running_def trace_def
     has_diagnostic_def example_environment_def close_epoch_def clear_new)

lemma new_ring_push:
  "\<not> replaceable r \<Longrightarrow> fst (push r new_ring) = Enqueued \<and>
     pop (snd (snd (push r new_ring))) = (Some r, snd (pop (snd (snd (push r new_ring))))) \<and>
     pop (snd (pop (snd (snd (push r new_ring))))) = (None, snd (pop (snd (snd (push r new_ring)))))"
  by (simp add: push_def append_record_def pop_def new_ring_def)

definition one_ring :: "output_record => record_ring" where "one_ring r = snd (snd (push r new_ring))"
definition spent_ring :: "output_record => record_ring" where "spent_ring r = snd (pop (one_ring r))"

lemma example_rings:
  assumes "\<not> replaceable r"
  shows "push r new_ring = (Enqueued, \<lparr>ob_coalesced = False, ob_stale = False, ob_occupancy = 1\<rparr>, one_ring r)"
    "pop (one_ring r) = (Some r, spent_ring r)" "pop (spent_ring r) = (None, spent_ring r)"
  using assms new_ring_push [OF assms] by (simp_all add: one_ring_def spent_ring_def)
    (simp add: push_def append_record_def new_ring_def)

definition example_open :: server where
  "example_open = on_open example_environment 7 (observe (Upgraded 7) example_running)"

lemma example_fresh: "\<not> replaceable (example_record b)" by (simp add: replaceable_def example_record_def)


lemma publish_accepts:
  assumes "sv_accepting_wakes s" "sv_wake_loop s" "admits owner (sv_epoch s)" "\<not> sv_stop_requested s" "\<not> sv_close_requested s"
    "or_bytes rec \<noteq> []" "length (or_bytes rec) \<le> sv_maximum_output s" "\<not> sv_wake_pending s" "\<not> env_defer_throws E (sv_defers s)"
    "\<not> env_diagnostic E" "push rec (sv_output s) = (Enqueued, seen, ring)"
  shows "snd (publish E owner rec s) = s\<lparr>sv_wake_pending := True, sv_defers := sv_defers s + 1,
    sv_tasks := sv_tasks s @ [(Deferred_Wake, sv_wake_generation s)], sv_output := ring,
    sv_log := Accepted (oe_generation (sv_epoch s)) rec # sv_log s\<rparr>"
  using assms by (simp add: publish_def request_wake_def request_deferred_wake_def count_def has_diagnostic_def
    publish_result_def observe_def Let_def)

lemma send_one:
  assumes "sv_socket s = Some peer" "pop (sv_output s) = (Some rec, ring)" "env_send E (sv_log s) = Send_Success"
    "\<not> env_diagnostic E" "pop ring = (None, ring)"
  shows "send_all E s = s\<lparr>sv_output := ring, sv_log := Sent (sv_active_peer s) (or_bytes rec) # sv_log s\<rparr>"
  using assms by (simp add: send_all.simps [of E s] send_all.simps [of E "observe ob u" for ob u] trace_def has_diagnostic_def Let_def) (simp add: observe_def)

definition example_told :: server where
  "example_told = example_running\<lparr>sv_socket := Some 7, sv_peers := (\<lambda>_. new_lifecycle)(7 := \<lparr>pl_generation = 1, pl_closure_notified = False\<rparr>),
    sv_epoch := \<lparr>oe_generation = 1, oe_phase = Phase_Opening\<rparr>,
    sv_connected := True, sv_next_peer := 1, sv_active_peer := 1, sv_log := [Cb_Opened 1, Upgraded 7]\<rparr>"


lemma example_fields:
  "sv_socket example_running = None" "sv_next_peer example_running = 0" "sv_callbacks example_running"
  by (simp_all add: example_running_def)

lemma example_told: "callback example_environment (Cb_Opened 1) ((begin_output_epoch 1 (observe (Upgraded 7) example_running\<lparr>sv_next_peer := 1\<rparr>))
   \<lparr>sv_peers := (sv_peers (begin_output_epoch 1 (observe (Upgraded 7) example_running\<lparr>sv_next_peer := 1\<rparr>)))(7 := lifecycle_opened 1
       (sv_peers (begin_output_epoch 1 (observe (Upgraded 7) example_running\<lparr>sv_next_peer := 1\<rparr>)) 7)),
     sv_socket := Some 7, sv_active_peer := 1, sv_backpressured := False, sv_connected := True\<rparr>)
   = snd (publish example_environment True (example_record 1) example_told)" (is "callback _ _ ?s = _")
proof -
  have "observe (Cb_Opened 1) ?s = example_told" "sv_callbacks ?s"
    by (simp_all add: example_told_def begin_output_epoch_def observe_def begin_open_def example_running_def clear_new
       lifecycle_opened_def new_lifecycle_def)
  then show ?thesis by (simp add: callback_def Let_def) (simp add: example_environment_def example_told_def)
qed

definition example_published :: server where
  "example_published = example_told\<lparr>sv_wake_pending := True, sv_defers := 1,
    sv_tasks := [(Deferred_Wake, 1)], sv_output := one_ring (example_record 1),
    sv_log := [Accepted 1 (example_record 1), Cb_Opened 1, Upgraded 7]\<rparr>"

lemma example_published: "snd (publish example_environment True (example_record 1) example_told) = example_published"
proof -
  have o: "sv_output example_told = new_ring" by (simp add: example_told_def example_running_def)
  show ?thesis
    by (subst publish_accepts [where E = example_environment, OF _ _ _ _ _ _ _ _ _ _ example_rings(1) [OF example_fresh, of 1, folded o]])
     (simp_all add: example_told_def example_running_def example_published_def admits_def example_environment_def, simp_all add: example_record_def)
qed

lemma example_open_eq: "example_open = example_published\<lparr>sv_epoch := \<lparr>oe_generation = 1, oe_phase = Phase_Open\<rparr>,
    sv_output := spent_ring (example_record 1), sv_log := [Sent 1 [1], Accepted 1 (example_record 1), Cb_Opened 1, Upgraded 7]\<rparr>"
proof -
  let ?f = "finish_output_epoch 1 example_published"
  have f: "?f = example_published\<lparr>sv_epoch := \<lparr>oe_generation = 1, oe_phase = Phase_Open\<rparr>\<rparr>"
    by (simp add: finish_output_epoch_def finish_open_def example_published_def example_told_def)
  have e: "sv_socket ?f = Some 7" "pop (sv_output ?f) = (Some (example_record 1), spent_ring (example_record 1))"
    "\<not> sv_close_requested ?f" "\<not> sv_backpressured ?f" "env_send example_environment (sv_log ?f) = Send_Success" "\<not> env_diagnostic example_environment" "\<not> env_activated example_environment"
    unfolding f using example_rings(2) [OF example_fresh] by (simp_all add: example_published_def example_told_def example_running_def example_environment_def)
  have d: "drain example_environment ?f = example_published\<lparr>sv_epoch := \<lparr>oe_generation = 1, oe_phase = Phase_Open\<rparr>,
    sv_output := spent_ring (example_record 1), sv_log := [Sent 1 [1], Accepted 1 (example_record 1), Cb_Opened 1, Upgraded 7]\<rparr>"
  proof -
    have "drain example_environment ?f = send_all example_environment ?f" using e(1,3,4) by (simp add: drain_def)
    moreover have "sv_active_peer ?f = 1" "sv_log ?f = [Accepted 1 (example_record 1), Cb_Opened 1, Upgraded 7]"
      "or_bytes (example_record 1) = [1]"
      unfolding f by (simp_all add: example_published_def example_told_def example_record_def)
    ultimately show ?thesis unfolding send_one [OF e(1,2,5,6) example_rings(3) [OF example_fresh]] by (simp add: f [unfolded One_nat_def])
  qed
  show ?thesis
    unfolding example_open_def on_open_def Let_def
    using d example_told example_published e(6,7)
    by (simp add: example_fields trace_def has_diagnostic_def observe_def [of "Upgraded 7"] del: One_nat_def)
qed

lemma example_open_fields:
  "sv_output example_open = spent_ring (example_record 1)" "sv_epoch example_open = \<lparr>oe_generation = 1, oe_phase = Phase_Open\<rparr>"
  "sv_log example_open = [Sent 1 [1], Accepted 1 (example_record 1), Cb_Opened 1, Upgraded 7]"
  "sv_accepting_wakes example_open" "sv_wake_loop example_open" "sv_socket example_open = Some 7" "sv_active_peer example_open = 1"
  "\<not> sv_backpressured example_open" "\<not> sv_stop_requested example_open" "\<not> sv_close_requested example_open"
  "sv_wake_pending example_open" "sv_wake_generation example_open = 1" "sv_maximum_output example_open = 100"
  by (simp_all add: example_open_eq example_published_def example_told_def example_running_def)

definition example_queued :: server where
  "example_queued = snd (publish example_environment False (example_record 2) example_open)"

lemma publish_again:
  assumes "sv_accepting_wakes s" "sv_wake_loop s" "admits owner (sv_epoch s)" "\<not> sv_stop_requested s" "\<not> sv_close_requested s"
    "or_bytes rec \<noteq> []" "length (or_bytes rec) \<le> sv_maximum_output s" "sv_wake_pending s"
    "\<not> env_diagnostic E" "push rec (sv_output s) = (Enqueued, seen, ring)"
  shows "snd (publish E owner rec s) = s\<lparr>sv_output := ring, sv_log := Accepted (oe_generation (sv_epoch s)) rec # sv_log s\<rparr>"
  using assms by (simp add: publish_def request_wake_def request_deferred_wake_def count_def has_diagnostic_def
    publish_result_def observe_def Let_def)

lemma example_queued_eq:
  assumes "ring_is (spent_ring (example_record 1)) []"
  shows "\<exists>ring. ring_is ring [example_record 2] \<and> example_queued = example_open\<lparr>sv_output := ring,
     sv_log := Accepted 1 (example_record 2) # sv_log example_open\<rparr>"
proof -
  obtain res seen ring where p: "push (example_record 2) (sv_output example_open) = (res, seen, ring)"
    by (cases "push (example_record 2) (sv_output example_open)")
  have "push_spec (example_record 2) [] = (Enqueued, [example_record 2])"
    using example_fresh [of 2] by (simp add: push_spec_def)
  with push_step [OF assms, of "example_record 2"] p have r: "res = Enqueued" "ring_is ring [example_record 2]"
    by (simp_all add: example_open_fields)
  note o = example_open_fields
  have "example_queued = example_open\<lparr>sv_output := ring,
     sv_log := Accepted (oe_generation (sv_epoch example_open)) (example_record 2) # sv_log example_open\<rparr>"
    unfolding example_queued_def
    by (rule publish_again [OF o(4,5) _ o(9,10) _ _ o(11) _ p [unfolded r(1)]])
      (simp_all add: o admits_def example_record_def example_environment_def)
  with r(2) show ?thesis by (auto simp: o)
qed

end
