(* ===== verification/Browser_Server_Safety.thy ===== *)
theory Browser_Server_Safety
  imports Browser_Server_Run
begin

text \<open>
  What the browser server guarantees in every reachable state: the application sees the peers one
  after the other, a record is sent only to the peer it was accepted for, and no accepted record waits
  without a wake. The invariants are proved for every operation of the server and combined over the
  steps.
\<close>

section \<open>Invariants\<close>

text \<open>The peer the application knows to be connected, read off the history.\<close>

fun connection :: "observation list \<Rightarrow> nat option" where
  "connection [] = None"
| "connection (Cb_Opened g # l) = Some g"
| "connection (Cb_Closed g # l) = None"
| "connection (ob # l) = connection l"

fun alternating :: "observation list \<Rightarrow> bool" where
  "alternating [] = True"
| "alternating (Cb_Opened g # l) = (alternating l \<and> connection l = None \<and> (\<forall>h. Cb_Opened h \<in> set l \<longrightarrow> h < g))"
| "alternating (Cb_Closed g # l) = (alternating l \<and> connection l = Some g)"
| "alternating (Cb_Activated g # l) = (alternating l \<and> connection l = Some g)"
| "alternating (Cb_Record g m # l) = (alternating l \<and> connection l = Some g)"
| "alternating (ob # l) = alternating l"

text \<open>Whatever was sent to a peer had been accepted for that peer.\<close>

fun sends_accepted :: "observation list \<Rightarrow> bool" where
  "sends_accepted [] = True"
| "sends_accepted (Sent g bytes # l) =
     (sends_accepted l \<and> connection l = Some g \<and> (\<exists>rec. Accepted g rec \<in> set l \<and> or_bytes rec = bytes))"
| "sends_accepted (Accepted g rec # l) = (sends_accepted l \<and> connection l = Some g)"
| "sends_accepted (ob # l) = sends_accepted l"

definition link_ok :: "server \<Rightarrow> bool" where
  "link_ok s \<longleftrightarrow>
     (\<forall>p. sv_socket s \<noteq> Some p \<longrightarrow> pl_closure_notified (sv_peers s p)) \<and>
     (sv_socket s = None \<longrightarrow> oe_phase (sv_epoch s) = Phase_Closed \<and> \<not> sv_connected s) \<and>
     (\<forall>p. sv_socket s = Some p \<longrightarrow>
        \<not> pl_closure_notified (sv_peers s p) \<and> pl_generation (sv_peers s p) = sv_active_peer s \<and>
        oe_generation (sv_epoch s) = sv_active_peer s \<and> oe_phase (sv_epoch s) \<noteq> Phase_Closed \<and>
        sv_connected s \<and> sv_callbacks s) \<and>
     sv_active_peer s \<le> sv_next_peer s \<and> \<not> sv_null_call s"

lemma link_ok_None: "link_ok s \<Longrightarrow> sv_socket s = None \<Longrightarrow> oe_phase (sv_epoch s) = Phase_Closed \<and> \<not> sv_connected s"
  unfolding link_ok_def by blast

lemma link_ok_Some:
  "link_ok s \<Longrightarrow> sv_socket s = Some p \<Longrightarrow>
   \<not> pl_closure_notified (sv_peers s p) \<and> pl_generation (sv_peers s p) = sv_active_peer s \<and>
   oe_generation (sv_epoch s) = sv_active_peer s \<and> oe_phase (sv_epoch s) \<noteq> Phase_Closed \<and>
   sv_connected s \<and> sv_callbacks s"
  unfolding link_ok_def by blast

definition history_ok :: "server \<Rightarrow> bool" where
  "history_ok s \<longleftrightarrow>
     alternating (sv_log s) \<and> sends_accepted (sv_log s) \<and>
     connection (sv_log s) = (if sv_socket s = None then None else Some (sv_active_peer s)) \<and>
     (\<forall>g. Cb_Opened g \<in> set (sv_log s) \<longrightarrow> g \<le> sv_next_peer s)"

definition queue_ok :: "server \<Rightarrow> bool" where
  "queue_ok s \<longleftrightarrow>
     ring_ok (sv_output s) \<and> one_per_state (ring_items (sv_output s)) \<and>
     (oe_phase (sv_epoch s) = Phase_Closed \<longrightarrow> ring_items (sv_output s) = []) \<and>
     (\<forall>rec \<in> set (ring_items (sv_output s)). Accepted (oe_generation (sv_epoch s)) rec \<in> set (sv_log s))"

definition wakes_ok :: "server \<Rightarrow> bool" where
  "wakes_ok s \<longleftrightarrow> sv_accepting_wakes s = sv_wake_loop s \<and>
     (\<forall>kind. deferred_pending kind s \<longrightarrow>
        sv_accepting_wakes s \<and> (kind, sv_wake_generation s) \<in> set (sv_tasks s))"

definition inner_ok :: "server \<Rightarrow> bool" where
  "inner_ok s \<longleftrightarrow> link_ok s \<and> history_ok s \<and> queue_ok s \<and> wakes_ok s"

text \<open>Between two handlers every queued record also has a wake, or the socket's drain event, to come.\<close>

definition served :: "server \<Rightarrow> bool" where
  "served s \<longleftrightarrow> ring_items (sv_output s) = [] \<or> sv_backpressured s \<or> sv_wake_pending s"

section \<open>What the operations leave alone\<close>

text \<open>The part of the state that only the owner thread changes.\<close>

definition control :: "server \<Rightarrow> _" where
  "control s = (sv_app s, sv_socket s, sv_peers s, sv_callbacks s, sv_epoch s, sv_accepting_wakes s,
     sv_wake_loop s, sv_wake_generation s, sv_next_peer s, sv_active_peer s, sv_connected s,
     sv_backpressured s, sv_detached s, sv_null_call s, sv_owner_run_active s, sv_initialized_once s)"

lemma control_simps [simp]:
  "control (observe ob s) = control s" "control (count E f s) = control s"
  "control (set_pending kind b s) = control s" "control (trace E e n s) = control s"
  "control (s\<lparr>sv_output := ring\<rparr>) = control s" "control (s\<lparr>sv_close_requested := b\<rparr>) = control s"
  "control (s\<lparr>sv_stop_requested := b\<rparr>) = control s" "control (s\<lparr>sv_counts := c\<rparr>) = control s"
  "control (s\<lparr>sv_tasks := ts\<rparr>) = control s" "control (s\<lparr>sv_defers := n\<rparr>) = control s"
  by (simp_all add: control_def observe_def count_def trace_def) (cases kind; simp)

lemma request_deferred_control [simp]: "control (snd (request_deferred_wake E kind s)) = control s"
  by (simp add: request_deferred_wake_def control_def) (cases kind; simp)

lemma link_ok_control: "control s = control t \<Longrightarrow> link_ok s = link_ok t"
  by (simp add: control_def link_ok_def)

lemma history_ok_control: "control s = control t \<Longrightarrow> sv_log s = sv_log t \<Longrightarrow> history_ok s = history_ok t"
  by (simp add: control_def history_ok_def)

lemma queue_ok_control:
  "control s = control t \<Longrightarrow> sv_log s = sv_log t \<Longrightarrow> sv_output s = sv_output t \<Longrightarrow> queue_ok s = queue_ok t"
  by (simp add: control_def queue_ok_def)

lemma wakes_ok_fields:
  assumes "sv_accepting_wakes s = sv_accepting_wakes t" "sv_wake_loop s = sv_wake_loop t"
    "sv_wake_generation s = sv_wake_generation t" "sv_wake_pending s = sv_wake_pending t"
    "sv_stop_wake_pending s = sv_stop_wake_pending t" "sv_tasks s = sv_tasks t"
  shows "wakes_ok s = wakes_ok t"
proof -
  have "deferred_pending kind s = deferred_pending kind t" for kind using assms by (cases kind) simp_all
  with assms show ?thesis by (simp add: wakes_ok_def)
qed

lemma wakes_ok_control:
  "control s = control t \<Longrightarrow> sv_wake_pending s = sv_wake_pending t \<Longrightarrow>
   sv_stop_wake_pending s = sv_stop_wake_pending t \<Longrightarrow> sv_tasks s = sv_tasks t \<Longrightarrow> wakes_ok s = wakes_ok t"
  by (rule wakes_ok_fields) (simp_all add: control_def)

lemma inner_ok_control:
  assumes "control s = control t" "sv_log s = sv_log t" "sv_output s = sv_output t"
    "sv_wake_pending s = sv_wake_pending t" "sv_stop_wake_pending s = sv_stop_wake_pending t" "sv_tasks s = sv_tasks t"
  shows "inner_ok s = inner_ok t"
  using link_ok_control [OF assms(1)] history_ok_control [OF assms(1,2)] queue_ok_control [OF assms(1-3)]
    wakes_ok_control [OF assms(1,4-6)] by (simp only: inner_ok_def)

lemma set_pending_fields [simp]:
  "sv_log (set_pending k b s) = sv_log s" "sv_output (set_pending k b s) = sv_output s"
  "sv_tasks (set_pending k b s) = sv_tasks s"
  "sv_accepting_wakes (set_pending k b s) = sv_accepting_wakes s" "sv_wake_loop (set_pending k b s) = sv_wake_loop s"
  "sv_wake_generation (set_pending k b s) = sv_wake_generation s"
  "sv_backpressured (set_pending k b s) = sv_backpressured s" "sv_epoch (set_pending k b s) = sv_epoch s"
  by (cases k; simp)+

lemma deferred_pending_set [simp]:
  "deferred_pending j (set_pending k b s) = (if j = k then b else deferred_pending j s)"
  by (cases j; cases k; simp)

lemma request_deferred_fields [simp]:
  "sv_log (snd (request_deferred_wake E k s)) = sv_log s"
  "sv_output (snd (request_deferred_wake E k s)) = sv_output s"
  by (simp_all add: request_deferred_wake_def)

lemma deferred_pending_fields [simp]:
  "deferred_pending k (s\<lparr>sv_defers := n\<rparr>) = deferred_pending k s"
  "deferred_pending k (s\<lparr>sv_tasks := ts\<rparr>) = deferred_pending k s"
  "deferred_pending k (s\<lparr>sv_output := ring\<rparr>) = deferred_pending k s"
  "deferred_pending k (s\<lparr>sv_close_requested := b\<rparr>) = deferred_pending k s"
  "deferred_pending k (s\<lparr>sv_stop_requested := b\<rparr>) = deferred_pending k s"
  "deferred_pending k (s\<lparr>sv_counts := c\<rparr>) = deferred_pending k s"
  "deferred_pending k (observe ob s) = deferred_pending k s"
  "deferred_pending k (count E f s) = deferred_pending k s"
  by (cases k; simp add: observe_def count_def)+

lemma request_deferred_wakes: "wakes_ok s \<Longrightarrow> wakes_ok (snd (request_deferred_wake E k s))"
  by (auto simp: wakes_ok_def request_deferred_wake_def)

lemma request_deferred_pending:
  "wakes_ok s \<Longrightarrow> deferred_pending j s \<Longrightarrow> deferred_pending j (snd (request_deferred_wake E k s))"
  "fst (request_deferred_wake E k s) \<Longrightarrow> deferred_pending k (snd (request_deferred_wake E k s)) \<and> sv_accepting_wakes s"
  by (auto simp: request_deferred_wake_def split: if_splits)

text \<open>A request for a wake keeps the invariants and every wake that is pending.\<close>

definition keeps :: "server \<Rightarrow> server \<Rightarrow> bool" where
  "keeps s t \<longleftrightarrow> control t = control s \<and> inner_ok t \<and> (served s \<longrightarrow> served t)"

lemma keeps_refl [intro]: "inner_ok s \<Longrightarrow> keeps s s"
  by (simp add: keeps_def)

lemma keeps_trans: "keeps s t \<Longrightarrow> keeps t u \<Longrightarrow> keeps s u"
  by (simp add: keeps_def)

lemma keeps_request:
  assumes "inner_ok s"
  shows "keeps s (snd (request_deferred_wake E k s))"
proof -
  let ?t = "snd (request_deferred_wake E k s)"
  have w: "wakes_ok s" using assms by (simp add: inner_ok_def)
  have "link_ok ?t" "history_ok ?t" "queue_ok ?t"
    using assms link_ok_control [of ?t s] history_ok_control [of ?t s] queue_ok_control [of ?t s]
    by (simp_all add: inner_ok_def)
  moreover have "sv_backpressured ?t = sv_backpressured s"
    using request_deferred_control [of E k s] by (simp add: control_def)
  moreover have "served s \<Longrightarrow> served ?t"
    using request_deferred_pending(1) [OF w, of Deferred_Wake E k] calculation(4) by (auto simp: served_def)
  ultimately show ?thesis
    using request_deferred_wakes [OF w] by (simp add: keeps_def inner_ok_def)
qed

lemma keeps_flag:
  assumes "inner_ok s"
  shows "keeps s (s\<lparr>sv_close_requested := b\<rparr>)" "keeps s (s\<lparr>sv_stop_requested := b\<rparr>)"
    "keeps s (s\<lparr>sv_counts := c\<rparr>)"
proof -
  have "inner_ok (s\<lparr>sv_close_requested := b\<rparr>) = inner_ok s" "inner_ok (s\<lparr>sv_stop_requested := b\<rparr>) = inner_ok s"
    "inner_ok (s\<lparr>sv_counts := c\<rparr>) = inner_ok s"
    by (rule inner_ok_control; simp)+
  with assms show "keeps s (s\<lparr>sv_close_requested := b\<rparr>)" "keeps s (s\<lparr>sv_stop_requested := b\<rparr>)"
    "keeps s (s\<lparr>sv_counts := c\<rparr>)"
    by (simp_all add: keeps_def served_def)
qed

lemma keeps_count: "inner_ok s \<Longrightarrow> keeps s (count E f s)"
  by (simp add: count_def keeps_flag keeps_refl)

lemma keeps_inner: "keeps s t \<Longrightarrow> inner_ok t"
  by (simp add: keeps_def)

text \<open>The same, after other steps that keep the invariants.\<close>

lemma keeps_steps:
  assumes "keeps s t"
  shows "keeps s (count E f t)" "keeps s (t\<lparr>sv_close_requested := b\<rparr>)" "keeps s (t\<lparr>sv_stop_requested := b\<rparr>)"
    "keeps s (t\<lparr>sv_counts := c\<rparr>)" "keeps s (snd (request_deferred_wake E k t))"
  by (rule keeps_trans [OF assms], rule keeps_count keeps_flag keeps_request, rule keeps_inner [OF assms])+

text \<open>The publication path.\<close>

lemma keeps_push:
  assumes "inner_ok s" "sv_wake_pending s" "sv_accepting_wakes s" "oe_phase (sv_epoch s) \<noteq> Phase_Closed"
    and "push rec (sv_output s) = (result, seen, ring)"
  shows "keeps s (if result = Enqueued then observe (Accepted (oe_generation (sv_epoch s)) rec) (s\<lparr>sv_output := ring\<rparr>)
    else s\<lparr>sv_output := ring\<rparr>)" (is "keeps s ?t")
proof -
  let ?q = "ring_items (sv_output s)"
  have r: "ring_is (sv_output s) ?q" and one: "one_per_state ?q" and old: "\<forall>p \<in> set ?q. Accepted (oe_generation (sv_epoch s)) p \<in> set (sv_log s)"
    using assms(1) by (auto simp: inner_ok_def queue_ok_def ring_ok_def)
  from push_step [OF r, of rec] assms(5) have spec: "result = fst (push_spec rec ?q)"
    "ring_ok ring" "ring_items ring = snd (push_spec rec ?q)"
    by (auto dest: ring_is_items)
  have new: "set (ring_items ring) \<subseteq> set ?q \<union> (if result = Enqueued then {rec} else {})"
    unfolding spec by (auto simp: push_spec_def extract_Some_iff split: option.splits if_splits)
  have socket: "sv_socket s \<noteq> None" "connection (sv_log s) = Some (oe_generation (sv_epoch s))"
    using assms(1,4) by (cases "sv_socket s"; simp add: inner_ok_def link_ok_def history_ok_def)+
  have c: "control ?t = control s" by simp
  have "link_ok ?t" using assms(1) link_ok_control [OF c] by (simp add: inner_ok_def)
  moreover have "history_ok ?t"
    using assms(1) socket by (auto simp: inner_ok_def history_ok_def observe_def)
  moreover have "queue_ok ?t"
    using assms(3,4) old new spec(2,3) push_spec_one_per_state [OF one, of rec]
    by (auto simp: queue_ok_def observe_def split: if_splits)
  moreover have "wakes_ok ?t" using assms(1) wakes_ok_control [OF c] by (simp add: inner_ok_def observe_def)
  moreover have "served ?t" using assms(2) by (simp add: served_def observe_def)
  ultimately show ?thesis by (simp add: keeps_def inner_ok_def)
qed

lemma keeps_publish_invalid: "inner_ok s \<Longrightarrow> keeps s (snd (publish_invalid E rec s))"
  unfolding publish_invalid_def request_wake_def Let_def
  by (auto intro!: keeps_steps keeps_refl)

lemma keeps_publish_result: "inner_ok s \<Longrightarrow> keeps s (publish_result E result s)"
  unfolding publish_result_def
  by (auto intro!: keeps_steps keeps_refl split: record_push.splits)

lemma keeps_publish:
  assumes "inner_ok s"
  shows "keeps s (snd (publish E owner rec s))"
proof -
  obtain b s1 where wake: "request_wake E s = (b, s1)" by fastforce
  have s1: "keeps s s1" using keeps_request [OF assms, of E Deferred_Wake] wake by (simp add: request_wake_def)
  obtain result seen ring where push: "push rec (sv_output s1) = (result, seen, ring)" by (cases "push rec (sv_output s1)")
  show ?thesis
  proof (cases "b \<and> admits owner (sv_epoch s)")
    case True
    have ok: "inner_ok s1" "sv_epoch s1 = sv_epoch s" using s1 by (auto simp: keeps_def control_def)
    have "sv_wake_pending s1" "sv_accepting_wakes s1"
      using request_deferred_pending(2) [of E Deferred_Wake s] wake True s1
      by (auto simp: request_wake_def keeps_def control_def)
    from keeps_push [OF ok(1) this _ push] ok(2) True
    have "keeps s1 (if result = Enqueued then observe (Accepted (oe_generation (sv_epoch s)) rec) (s1\<lparr>sv_output := ring\<rparr>)
      else s1\<lparr>sv_output := ring\<rparr>)" by (auto simp: admits_def)
    note chain = keeps_trans [OF s1 this]
    have "keeps s (publish_result E result (count E f (if result = Enqueued
        then observe (Accepted (oe_generation (sv_epoch s)) rec) (s1\<lparr>sv_output := ring\<rparr>)
        else s1\<lparr>sv_output := ring\<rparr>)))" for f
      using chain by (meson keeps_count keeps_inner keeps_publish_result keeps_trans)
    then show ?thesis
      using True wake push keeps_publish_invalid [OF assms] assms by (auto simp: publish_def Let_def)
  next
    case False
    then show ?thesis
      using wake s1 keeps_publish_invalid [OF assms] assms by (auto simp: publish_def split: bool.splits)
  qed
qed

lemma keeps_api: "inner_ok s \<Longrightarrow> keeps s (apply_api E s a)"
  by (cases a) (auto simp: keeps_publish request_peer_close_def request_stop_def request_peer_close_flag_def
      request_stop_flag_def request_wake_def request_stop_wake_def intro!: keeps_steps keeps_refl)

lemma keeps_apis: "inner_ok s \<Longrightarrow> keeps s (foldl (apply_api E) s as)"
proof (induction as arbitrary: s)
  case (Cons a as)
  then show ?case using keeps_api [OF Cons.prems, of E a] by (metis foldl_Cons keeps_inner keeps_trans)
qed auto

lemma keeps_callback:
  assumes "inner_ok (observe ob s)" "sv_callbacks s"
  shows "keeps (observe ob s) (callback E ob s)"
  using keeps_apis [OF assms(1)] assms(2) by (simp add: callback_def Let_def)

section \<open>The owner\<close>

lemma trace_fields [simp]:
  "sv_socket (trace E e n s) = sv_socket s" "sv_peers (trace E e n s) = sv_peers s"
  "sv_epoch (trace E e n s) = sv_epoch s" "sv_connected (trace E e n s) = sv_connected s"
  "sv_callbacks (trace E e n s) = sv_callbacks s" "sv_active_peer (trace E e n s) = sv_active_peer s"
  "sv_next_peer (trace E e n s) = sv_next_peer s" "sv_null_call (trace E e n s) = sv_null_call s"
  "sv_accepting_wakes (trace E e n s) = sv_accepting_wakes s" "sv_wake_loop (trace E e n s) = sv_wake_loop s"
  "sv_wake_generation (trace E e n s) = sv_wake_generation s" "sv_tasks (trace E e n s) = sv_tasks s"
  "sv_backpressured (trace E e n s) = sv_backpressured s" "sv_wake_pending (trace E e n s) = sv_wake_pending s"
  "sv_close_requested (trace E e n s) = sv_close_requested s" "sv_stop_requested (trace E e n s) = sv_stop_requested s"
  "deferred_pending k (trace E e n s) = deferred_pending k s"
  by (simp_all add: trace_def observe_def) (cases k; simp)

lemma trace_log [simp]:
  "connection (sv_log (trace E e n s)) = connection (sv_log s)"
  "alternating (sv_log (trace E e n s)) = alternating (sv_log s)"
  "sends_accepted (sv_log (trace E e n s)) = sends_accepted (sv_log s)"
  "Cb_Opened g \<in> set (sv_log (trace E e n s)) \<longleftrightarrow> Cb_Opened g \<in> set (sv_log s)"
  "Accepted g rec \<in> set (sv_log (trace E e n s)) \<longleftrightarrow> Accepted g rec \<in> set (sv_log s)"
  by (simp_all add: trace_def observe_def)

lemma inner_ok_trace [simp]: "inner_ok (trace E e n s) = inner_ok s"
  by (simp add: inner_ok_def link_ok_def history_ok_def queue_ok_def wakes_ok_def)

lemma served_trace [simp]: "served (trace E e n s) = served s"
  by (simp add: served_def)

lemma observe_fields [simp]:
  "sv_socket (observe ob s) = sv_socket s" "sv_peers (observe ob s) = sv_peers s"
  "sv_epoch (observe ob s) = sv_epoch s" "sv_connected (observe ob s) = sv_connected s"
  "sv_callbacks (observe ob s) = sv_callbacks s" "sv_active_peer (observe ob s) = sv_active_peer s"
  "sv_next_peer (observe ob s) = sv_next_peer s" "sv_null_call (observe ob s) = sv_null_call s"
  "sv_accepting_wakes (observe ob s) = sv_accepting_wakes s" "sv_wake_loop (observe ob s) = sv_wake_loop s"
  "sv_wake_generation (observe ob s) = sv_wake_generation s" "sv_tasks (observe ob s) = sv_tasks s"
  "sv_backpressured (observe ob s) = sv_backpressured s" "sv_wake_pending (observe ob s) = sv_wake_pending s"
  "sv_output (observe ob s) = sv_output s" "sv_log (observe ob s) = ob # sv_log s"
  by (simp_all add: observe_def)

lemma ring_items_clear [simp]: "ring_ok r \<Longrightarrow> ring_items (clear_ring r) = [] \<and> ring_ok (clear_ring r)"
  unfolding ring_ok_def by (drule ring_is_clear) (simp add: ring_is_items ring_ok_def [symmetric])

lemma one_per_state_Nil [simp]: "one_per_state []"
  by (simp add: one_per_state_def)

text \<open>What only start, stop and finalization change.\<close>

definition owner_part :: "server \<Rightarrow> _" where
  "owner_part s = (sv_app s, sv_callbacks s, sv_accepting_wakes s, sv_wake_loop s, sv_wake_generation s,
     sv_detached s, sv_owner_run_active s, sv_initialized_once s)"

lemma control_owner_part: "control s = control t \<Longrightarrow> owner_part s = owner_part t"
  by (simp add: control_def owner_part_def)

lemma notify_unknown:
  assumes "inner_ok s" "sv_socket s \<noteq> Some peer"
  shows "notify_peer_closed E peer s = s"
proof -
  have "pl_closure_notified (sv_peers s peer)"
    using assms unfolding inner_ok_def link_ok_def by blast
  then show ?thesis by (simp add: notify_peer_closed_def begin_close_def)
qed

lemma notify_current:
  assumes "inner_ok s" "sv_socket s = Some peer"
  shows "inner_ok (notify_peer_closed E peer s)" "served (notify_peer_closed E peer s)"
    "sv_socket (notify_peer_closed E peer s) = None" "owner_part (notify_peer_closed E peer s) = owner_part s"
    "sv_next_peer (notify_peer_closed E peer s) = sv_next_peer s"
proof -
  let ?state = "(sv_peers s peer)\<lparr>pl_closure_notified := True\<rparr>"
  let ?s1 = "s\<lparr>sv_peers := (sv_peers s)(peer := ?state)\<rparr>"
  let ?s2 = "close_output_epoch (?s1\<lparr>sv_socket := None, sv_active_peer := 0, sv_backpressured := False, sv_connected := False\<rparr>)"
  let ?g = "sv_active_peer s"
  have facts: "\<not> pl_closure_notified (sv_peers s peer)" "pl_generation (sv_peers s peer) = ?g" "sv_callbacks s"
    using assms by (auto simp: inner_ok_def link_ok_def)
  have run: "notify_peer_closed E peer s = callback E (Cb_Closed ?g) (trace E PeerClosed ?g ?s2)"
    using assms(2) facts by (simp add: notify_peer_closed_def begin_close_def Let_def)
  let ?t = "observe (Cb_Closed ?g) (trace E PeerClosed ?g ?s2)"
  have ring: "ring_ok (sv_output s)" using assms(1) by (simp add: inner_ok_def queue_ok_def)
  have "inner_ok ?t"
  proof -
    have "link_ok ?t" using assms by (auto simp: inner_ok_def link_ok_def close_output_epoch_def close_epoch_def)
    moreover have "history_ok ?t"
      using assms by (auto simp: inner_ok_def history_ok_def close_output_epoch_def)
    moreover have "queue_ok ?t" using ring by (simp add: queue_ok_def close_output_epoch_def)
    moreover have "wakes_ok ?t"
    proof -
      have "wakes_ok ?t = wakes_ok s"
        by (rule wakes_ok_fields) (simp_all add: close_output_epoch_def trace_def observe_def)
      with assms(1) show ?thesis by (simp add: inner_ok_def)
    qed
    ultimately show ?thesis by (simp add: inner_ok_def)
  qed
  moreover have "served ?t" using ring by (simp add: served_def close_output_epoch_def)
  moreover have "sv_callbacks (trace E PeerClosed ?g ?s2)" using facts by (simp add: close_output_epoch_def)
  ultimately have k: "keeps ?t (notify_peer_closed E peer s)" and "served ?t"
    unfolding run using keeps_callback by blast+
  then show "inner_ok (notify_peer_closed E peer s)" "served (notify_peer_closed E peer s)"
    by (simp_all add: keeps_def)
  from k have c: "control (notify_peer_closed E peer s) = control ?t" by (simp add: keeps_def)
  then show "sv_socket (notify_peer_closed E peer s) = None" "owner_part (notify_peer_closed E peer s) = owner_part s"
    "sv_next_peer (notify_peer_closed E peer s) = sv_next_peer s"
    by (simp_all add: control_def owner_part_def close_output_epoch_def)
       (simp_all add: trace_def observe_def)
qed

text \<open>An operation of the owner between two records, or between two handlers.\<close>

definition settles :: "server \<Rightarrow> server \<Rightarrow> bool" where
  "settles s t \<longleftrightarrow> inner_ok t \<and> served t \<and> owner_part t = owner_part s \<and>
     (sv_socket t = None \<or> (sv_socket t = sv_socket s \<and> sv_active_peer t = sv_active_peer s))"

lemma settles_notify: "inner_ok s \<Longrightarrow> sv_socket s = Some peer \<Longrightarrow> settles s (notify_peer_closed E peer s)"
  by (simp add: settles_def notify_current)

lemma close_empty:
  assumes "inner_ok s" "sv_socket s = None"
  shows "settles s (close_output_epoch s)"
proof -
  have parts: "link_ok s" "history_ok s" "queue_ok s" "wakes_ok s" using assms(1) by (simp_all add: inner_ok_def)
  then have ring: "ring_ok (sv_output s)" by (simp add: queue_ok_def)
  have "oe_phase (sv_epoch s) = Phase_Closed" using link_ok_None [OF parts(1) assms(2)] by simp
  then have "close_epoch (sv_epoch s) = sv_epoch s" by (cases "sv_epoch s") (simp add: close_epoch_def)
  then have eq: "close_output_epoch s = s\<lparr>sv_output := clear_ring (sv_output s)\<rparr>"
    by (simp add: close_output_epoch_def)
  have c: "control (close_output_epoch s) = control s" unfolding eq by simp
  have "queue_ok (close_output_epoch s)" "served (close_output_epoch s)"
    using ring unfolding eq by (simp_all add: queue_ok_def served_def)
  moreover have "wakes_ok (close_output_epoch s) = wakes_ok s" by (rule wakes_ok_control [OF c]) (simp_all add: eq)
  moreover have "history_ok (close_output_epoch s) = history_ok s" by (rule history_ok_control [OF c]) (simp add: eq)
  ultimately show ?thesis
    using parts link_ok_control [OF c] control_owner_part [OF c] assms(2)
    by (simp add: settles_def inner_ok_def close_output_epoch_def)
qed

lemma settles_close_peer:
  assumes "inner_ok s"
  shows "settles s (close_peer_on_owner E s) \<and> sv_socket (close_peer_on_owner E s) = None"
proof -
  let ?s = "s\<lparr>sv_close_requested := False\<rparr>"
  have k: "keeps s ?s" using keeps_flag(1) [OF assms] .
  then have ok: "inner_ok ?s" and part: "owner_part ?s = owner_part s"
    by (simp_all add: keeps_def owner_part_def)
  show ?thesis
  proof (cases "sv_socket s")
    case None
    then show ?thesis
      using close_empty [OF ok] part by (simp add: close_peer_on_owner_def settles_def close_output_epoch_def)
  next
    case (Some peer)
    let ?t = "notify_peer_closed E peer ?s"
    from Some have "inner_ok ?t" "served ?t" "sv_socket ?t = None" "owner_part ?t = owner_part ?s"
      using notify_current [OF ok, of peer E] by simp_all
    with Some part show ?thesis
      by (simp add: close_peer_on_owner_def socket_close_def notify_unknown settles_def)
  qed
qed

lemma inner_ok_popped:
  assumes "inner_ok s" "pop (sv_output s) = (rec, ring)"
  shows "inner_ok (s\<lparr>sv_output := ring\<rparr>)" "rec = None \<Longrightarrow> ring_items ring = []"
    "rec = Some r \<Longrightarrow> Accepted (oe_generation (sv_epoch s)) r \<in> set (sv_log s)"
proof -
  let ?q = "ring_items (sv_output s)"
  have q: "ring_is (sv_output s) ?q" "one_per_state ?q"
    "\<forall>r \<in> set ?q. Accepted (oe_generation (sv_epoch s)) r \<in> set (sv_log s)"
    using assms(1) by (simp_all add: inner_ok_def queue_ok_def ring_ok_def)
  have "ring_ok ring \<and> one_per_state (ring_items ring) \<and> set (ring_items ring) \<subseteq> set ?q \<and>
    (rec = None \<longrightarrow> ring_items ring = []) \<and> (\<forall>r. rec = Some r \<longrightarrow> r \<in> set ?q)"
  proof (cases ?q)
    case Nil
    with pop_step [OF q(1)] assms(2) q(1,2) show ?thesis by (auto dest: ring_is_items)
  next
    case (Cons x xs)
    have "one_per_state ([x] @ xs)" using q(2) Cons by simp
    then have "one_per_state xs" unfolding one_per_state_append by simp
    with pop_step [OF q(1)] assms(2) Cons show ?thesis by (auto dest!: ring_is_items)
  qed
  note ring = this
  have "link_ok (s\<lparr>sv_output := ring\<rparr>)" "history_ok (s\<lparr>sv_output := ring\<rparr>)"
    using assms(1) by (simp_all add: inner_ok_def link_ok_def history_ok_def)
  moreover have "queue_ok (s\<lparr>sv_output := ring\<rparr>)"
    using assms(1) ring by (auto simp: inner_ok_def queue_ok_def)
  moreover have "wakes_ok (s\<lparr>sv_output := ring\<rparr>) = wakes_ok s" by (rule wakes_ok_fields) simp_all
  ultimately show "inner_ok (s\<lparr>sv_output := ring\<rparr>)" using assms(1) by (simp add: inner_ok_def)
  show "ring_items ring = []" if "rec = None" using ring that by simp
  show "Accepted (oe_generation (sv_epoch s)) r \<in> set (sv_log s)" if "rec = Some r" using ring that q(3) by blast
qed

lemma inner_ok_sent:
  assumes "inner_ok s" "sv_socket s \<noteq> None" "Accepted (sv_active_peer s) r \<in> set (sv_log s)"
  shows "inner_ok (observe (Sent (sv_active_peer s) (or_bytes r)) s)" (is "inner_ok ?t")
proof -
  have "link_ok ?t" "queue_ok ?t" using assms(1) by (auto simp: inner_ok_def link_ok_def queue_ok_def)
  moreover have "history_ok ?t" using assms by (auto simp: inner_ok_def history_ok_def)
  moreover have "wakes_ok ?t = wakes_ok s" by (rule wakes_ok_fields) (simp_all add: observe_def)
  ultimately show ?thesis using assms(1) by (simp add: inner_ok_def)
qed

lemma inner_ok_backpressured: "inner_ok s \<Longrightarrow> inner_ok (s\<lparr>sv_backpressured := b\<rparr>)"
proof -
  have "wakes_ok (s\<lparr>sv_backpressured := b\<rparr>) = wakes_ok s" by (rule wakes_ok_fields) simp_all
  then show "inner_ok s \<Longrightarrow> inner_ok (s\<lparr>sv_backpressured := b\<rparr>)"
    by (simp add: inner_ok_def link_ok_def history_ok_def queue_ok_def)
qed

lemma owner_part_simps [simp]:
  "owner_part (trace E e n s) = owner_part s" "owner_part (observe ob s) = owner_part s"
  "owner_part (s\<lparr>sv_output := ring\<rparr>) = owner_part s" "owner_part (s\<lparr>sv_backpressured := b\<rparr>) = owner_part s"
  "owner_part (s\<lparr>sv_close_requested := b\<rparr>) = owner_part s"
  by (simp_all add: owner_part_def) (simp_all add: trace_def observe_def)

lemma settles_send_all: "inner_ok s \<Longrightarrow> settles s (send_all E s)"
proof (induction E s rule: send_all.induct)
  case (1 E s)
  show ?case
  proof (cases "sv_socket s")
    case None
    then have "ring_items (sv_output s) = []"
      using "1.prems" link_ok_None [of s] by (simp add: inner_ok_def queue_ok_def)
    with None "1.prems" show ?thesis by (simp add: send_all.simps settles_def served_def)
  next
    case (Some peer)
    obtain rec ring where pop: "pop (sv_output s) = (rec, ring)" by fastforce
    let ?s1 = "s\<lparr>sv_output := ring\<rparr>"
    note popped = inner_ok_popped [OF "1.prems" pop]
    show ?thesis
    proof (cases rec)
      case None
      with Some pop popped show ?thesis by (simp add: send_all.simps settles_def served_def)
    next
      case (Some r)
      let ?b = "or_bytes r"
      let ?s2 = "observe (Sent (sv_active_peer s) ?b) ?s1"
      have "oe_generation (sv_epoch s) = sv_active_peer s"
        using "1.prems" \<open>sv_socket s = Some peer\<close> link_ok_Some [of s peer] by (simp add: inner_ok_def)
      with popped(3) [OF Some] have sent: "inner_ok ?s2"
        using inner_ok_sent [OF popped(1), of r] \<open>sv_socket s = Some peer\<close> by simp
      show ?thesis
      proof (cases "env_send E (sv_log ?s1)")
        case Send_Success
        have "inner_ok (trace E WriteAccepted (length ?b) ?s2)" using sent by simp
        from "1.IH" [OF \<open>sv_socket s = Some peer\<close> pop [symmetric] Some refl refl Send_Success this]
        show ?thesis using \<open>sv_socket s = Some peer\<close> pop Some Send_Success
          by (simp add: send_all.simps [of E s] settles_def Let_def)
      next
        case Send_Backpressure
        have "inner_ok (trace E WriteBackpressured (length ?b) (?s2\<lparr>sv_backpressured := True\<rparr>))"
          using inner_ok_backpressured [OF sent] by simp
        then show ?thesis using \<open>sv_socket s = Some peer\<close> pop Some Send_Backpressure
          by (simp add: send_all.simps [of E s] settles_def served_def Let_def)
      next
        case Send_Dropped
        then show ?thesis
          using \<open>sv_socket s = Some peer\<close> pop Some settles_close_peer [OF popped(1), of E]
          by (simp add: send_all.simps [of E s] settles_def Let_def)
      qed
    qed
  qed
qed

lemma settles_drain:
  assumes "inner_ok s"
  shows "settles s (drain E s)"
proof -
  have ok: "inner_ok (s\<lparr>sv_close_requested := False\<rparr>)" using keeps_inner [OF keeps_flag(1) [OF assms]] .
  have "settles s s" if "sv_socket s = None \<or> sv_backpressured s"
    using assms that link_ok_None [of s] by (auto simp: settles_def served_def inner_ok_def queue_ok_def)
  with settles_close_peer [OF ok, of E] settles_send_all [OF assms, of E] show ?thesis
    by (auto simp: drain_def settles_def)
qed

section \<open>Handlers\<close>

text \<open>How the phases of the server's life relate.\<close>

definition flags_ok :: "server \<Rightarrow> bool" where
  "flags_ok s \<longleftrightarrow>
     (sv_owner_run_active s \<longrightarrow> sv_app s) \<and> (sv_app s \<longrightarrow> sv_callbacks s \<and> sv_initialized_once s) \<and>
     (sv_accepting_wakes s \<longrightarrow> sv_app s) \<and> (sv_detached s \<longrightarrow> \<not> sv_accepting_wakes s) \<and>
     (sv_socket s \<noteq> None \<longrightarrow> sv_owner_run_active s)"

definition steady :: "server \<Rightarrow> bool" where
  "steady s \<longleftrightarrow> inner_ok s \<and> served s \<and> flags_ok s"

lemma steady_settles:
  assumes "flags_ok s" "settles s t"
  shows "steady t"
proof -
  have "owner_part t = owner_part s" "sv_socket t \<noteq> None \<Longrightarrow> sv_socket s \<noteq> None"
    using assms(2) by (auto simp: settles_def)
  then have "flags_ok t" using assms(1) by (auto simp: flags_ok_def owner_part_def)
  with assms(2) show ?thesis by (simp add: steady_def settles_def)
qed

lemma steady_keeps: "steady s \<Longrightarrow> keeps s t \<Longrightarrow> steady t"
  by (simp add: steady_def keeps_def flags_ok_def control_def)

lemma settles_from: "owner_part s' = owner_part s \<Longrightarrow> sv_socket s' = sv_socket s \<Longrightarrow>
    sv_active_peer s' = sv_active_peer s \<Longrightarrow> settles s' t \<Longrightarrow> settles s t"
  by (simp add: settles_def)

lemma settles_keeps: "keeps s t \<Longrightarrow> served s \<Longrightarrow> settles s t"
  by (simp add: keeps_def settles_def owner_part_def control_def)

lemma settles_trans: "settles s t \<Longrightarrow> settles t u \<Longrightarrow> settles s u"
  by (auto simp: settles_def)

lemma settles_inner: "settles s t \<Longrightarrow> inner_ok t"
  by (simp add: settles_def)

lemma steady_parts: "steady s \<Longrightarrow> inner_ok s" "steady s \<Longrightarrow> served s" "steady s \<Longrightarrow> flags_ok s"
  by (simp_all add: steady_def)

lemma steady_callbacks: "flags_ok s \<Longrightarrow> sv_owner_run_active s \<Longrightarrow> sv_callbacks s"
  by (simp add: flags_ok_def)

lemma steady_on_close:
  assumes "steady s"
  shows "steady (on_close E peer s)"
proof (cases "sv_socket s = Some peer")
  case True
  then show ?thesis
    using steady_settles [OF steady_parts(3) [OF assms] settles_notify [OF steady_parts(1) [OF assms] True]]
    by (simp add: on_close_def)
qed (use assms notify_unknown [OF steady_parts(1) [OF assms]] in \<open>simp add: on_close_def\<close>)

lemma steady_on_drain:
  assumes "steady s"
  shows "steady (on_drain E peer s)"
proof -
  let ?s = "trace E WriteDrained 0 (s\<lparr>sv_backpressured := False\<rparr>)"
  have "settles ?s (drain E ?s)" using settles_drain inner_ok_backpressured [OF steady_parts(1) [OF assms]] by simp
  then have "settles s (drain E ?s)" by (rule settles_from [rotated 3]) simp_all
  with assms steady_settles [OF steady_parts(3) [OF assms]] show ?thesis by (simp add: on_drain_def)
qed

lemma active_peer_facts:
  assumes "inner_ok s" "active_peer peer s"
  shows "sv_socket s = Some peer" "connection (sv_log s) = Some (sv_active_peer s)" "sv_callbacks s"
proof -
  show s: "sv_socket s = Some peer" using assms(2) by (simp add: active_peer_def)
  show "connection (sv_log s) = Some (sv_active_peer s)" using assms(1) s by (simp add: inner_ok_def history_ok_def)
  show "sv_callbacks s" using assms(1) link_ok_Some [OF _ s] by (simp add: inner_ok_def)
qed

text \<open>A callback about the connected peer.\<close>

lemma callback_about_peer:
  assumes "inner_ok s" "active_peer peer s"
    and "ob = Cb_Activated (sv_active_peer s) \<or> ob = Cb_Record (sv_active_peer s) message"
  shows "keeps s (callback E ob s)"
proof -
  note facts = active_peer_facts [OF assms(1,2)]
  have c: "control (observe ob s) = control s" by simp
  have "history_ok (observe ob s)"
    using assms(1,3) facts by (auto simp: inner_ok_def history_ok_def)
  moreover have "queue_ok (observe ob s)" using assms(1) by (auto simp: inner_ok_def queue_ok_def)
  moreover have "wakes_ok (observe ob s) = wakes_ok s" by (rule wakes_ok_control [OF c]) (simp_all add: observe_def)
  ultimately have ok: "inner_ok (observe ob s)"
    using assms(1) link_ok_control [OF c] by (simp add: inner_ok_def)
  moreover have "served (observe ob s) = served s" by (simp add: served_def)
  ultimately show ?thesis using keeps_callback [OF ok facts(3)] c by (simp add: keeps_def)
qed

lemma steady_on_message:
  assumes "steady s"
  shows "steady (on_message E peer message binary s)"
proof -
  note ok = steady_parts(1) [OF assms] and flags = steady_parts(3) [OF assms]
  have active_trace: "active_peer peer (trace E e n s) = active_peer peer s" for e n by (simp add: active_peer_def)
  show ?thesis
  proof (cases "\<not> active_peer peer s \<or> \<not> binary \<or> message = [] \<or> length message > kMaximumMessageBytes")
    case True
    let ?s1 = "trace E InvalidMessage (length message) s"
    have "settles ?s1 (close_peer_on_owner E ?s1)" using settles_close_peer [of ?s1 E] ok by simp
    then have "settles s (close_peer_on_owner E ?s1)" by (rule settles_from [rotated 3]) simp_all
    moreover have "steady (socket_close E peer ?s1)"
      using steady_on_close [of ?s1 E peer] steady_keeps [OF assms, of ?s1] ok assms
      by (simp add: on_close_def socket_close_def keeps_def)
    ultimately show ?thesis
      using True steady_settles [OF flags] by (simp add: on_message_def active_trace Let_def)
  next
    case False
    let ?s1 = "trace E BinaryReceived (length message) s"
    let ?s2 = "callback E (Cb_Record (sv_active_peer s) message) ?s1"
    have "keeps ?s1 ?s2"
      using callback_about_peer [of ?s1 peer "Cb_Record (sv_active_peer s) message" message E] ok False
      by (simp add: active_trace)
    then have k: "keeps s ?s2" by (simp add: keeps_def)
    then have s2: "steady ?s2" using steady_keeps [OF assms] by blast
    have run: "on_message E peer message binary s = (if env_record E (sv_log ?s2) then ?s2
        else socket_close E peer (notify_peer_closed E peer ?s2))"
      unfolding on_message_def Let_def using False by simp
    show ?thesis
      unfolding run using s2 steady_on_close [OF s2, of E peer] steady_on_close [OF steady_on_close [OF s2, of E peer], of E peer]
      by (simp add: on_close_def socket_close_def)
  qed
qed

lemma inner_ok_finish: "inner_ok s \<Longrightarrow> inner_ok (finish_output_epoch g s)"
proof -
  assume ok: "inner_ok s"
  let ?t = "finish_output_epoch g s"
  have parts: "link_ok s" "history_ok s" "queue_ok s" "wakes_ok s" using ok by (simp_all add: inner_ok_def)
  have phase: "(oe_phase (sv_epoch ?t) = Phase_Closed) = (oe_phase (sv_epoch s) = Phase_Closed)"
    "oe_generation (sv_epoch ?t) = oe_generation (sv_epoch s)"
    by (auto simp: finish_output_epoch_def finish_open_def)
  have same: "sv_socket ?t = sv_socket s" "sv_peers ?t = sv_peers s" "sv_connected ?t = sv_connected s"
    "sv_callbacks ?t = sv_callbacks s" "sv_active_peer ?t = sv_active_peer s" "sv_next_peer ?t = sv_next_peer s"
    "sv_null_call ?t = sv_null_call s" "sv_log ?t = sv_log s" "sv_output ?t = sv_output s"
    by (simp_all add: finish_output_epoch_def)
  have "link_ok ?t" using parts(1) unfolding link_ok_def same phase .
  moreover have "history_ok ?t" using parts(2) unfolding history_ok_def same .
  moreover have "queue_ok ?t" using parts(3) unfolding queue_ok_def same phase .
  moreover have "wakes_ok ?t = wakes_ok s" by (rule wakes_ok_fields) (simp_all add: finish_output_epoch_def)
  ultimately show ?thesis using parts(4) by (simp add: inner_ok_def)
qed

text \<open>The state in which the application is told that a peer opened.\<close>

lemma opened_inner_ok:
  assumes ok: "inner_ok s" and none: "sv_socket s = None" and cb: "sv_callbacks s"
    and g: "g = sv_next_peer s + 1"
    and t: "t = observe (Cb_Opened g) ((begin_output_epoch g (s\<lparr>sv_next_peer := g\<rparr>))
      \<lparr>sv_peers := (sv_peers s)(peer := lifecycle_opened g (sv_peers s peer)), sv_socket := Some peer,
        sv_active_peer := g, sv_backpressured := False, sv_connected := True\<rparr>)"
  shows "inner_ok t" "ring_items (sv_output t) = []"
proof -
  have parts: "link_ok s" "history_ok s" "queue_ok s" "wakes_ok s" using ok by (simp_all add: inner_ok_def)
  have ring: "ring_ok (sv_output s)" using parts(3) by (simp add: queue_ok_def)
  then show items: "ring_items (sv_output t) = []" by (simp add: t begin_output_epoch_def)
  have notified: "pl_closure_notified (sv_peers s p)" for p using parts(1) none unfolding link_ok_def by blast
  have null: "\<not> sv_null_call s" using parts(1) unfolding link_ok_def by blast
  have "link_ok t"
    unfolding link_ok_def using notified null cb
    by (simp add: t begin_output_epoch_def begin_open_def lifecycle_opened_def)
  moreover have "history_ok t"
    using parts(2) none g by (auto simp: history_ok_def t begin_output_epoch_def intro: le_less_trans)
  moreover have "queue_ok t" using ring items by (simp add: queue_ok_def t begin_output_epoch_def)
  moreover have "wakes_ok t = wakes_ok s" by (rule wakes_ok_fields) (simp_all add: t begin_output_epoch_def observe_def)
  ultimately show "inner_ok t" using parts(4) by (simp add: inner_ok_def)
qed

lemma steady_on_open:
  assumes "steady s" "sv_owner_run_active s"
  shows "steady (on_open E peer s)"
proof -
  note ok = steady_parts(1) [OF assms(1)] and flags = steady_parts(3) [OF assms(1)]
  define s1 where "s1 = (if sv_socket s \<noteq> None then close_peer_on_owner E (trace E PeerReplaced 0 s) else s)"
  have s1: "settles s s1" "sv_socket s1 = None"
  proof -
    have "settles (trace E PeerReplaced 0 s) (close_peer_on_owner E (trace E PeerReplaced 0 s))"
      "sv_socket (close_peer_on_owner E (trace E PeerReplaced 0 s)) = None"
      using settles_close_peer [of "trace E PeerReplaced 0 s" E] ok by simp_all
    then show "settles s s1" "sv_socket s1 = None"
      using steady_parts(1,2) [OF assms(1)] by (simp_all add: s1_def settles_def)
  qed
  have cb: "sv_callbacks s1" "sv_owner_run_active s1"
    using steady_callbacks [OF flags assms(2)] assms(2) s1(1) by (simp_all add: settles_def owner_part_def)
  show ?thesis
  proof (cases "sv_next_peer s1 = size_max")
    case True
    then have "on_open E peer s = s1"
      using notify_unknown [OF settles_inner [OF s1(1)], of peer E] s1(2)
      unfolding on_open_def Let_def s1_def [symmetric] by (simp add: socket_close_def)
    then show ?thesis using steady_settles [OF flags s1(1)] by simp
  next
    case False
    define g where "g = sv_next_peer s1 + 1"
    define s3 where "s3 = (begin_output_epoch g (s1\<lparr>sv_next_peer := g\<rparr>))
      \<lparr>sv_peers := (sv_peers s1)(peer := lifecycle_opened g (sv_peers s1 peer)), sv_socket := Some peer,
        sv_active_peer := g, sv_backpressured := False, sv_connected := True\<rparr>"
    define s4 where "s4 = finish_output_epoch g (callback E (Cb_Opened g) s3)"
    define s5 where "s5 = drain E (trace E PeerOpened g s4)"
    have run: "on_open E peer s = (if active_peer peer s5 \<and> sv_callbacks s5 \<and> env_activated E
        then drain E (callback E (Cb_Activated g) s5) else s5)"
      unfolding on_open_def Let_def s1_def [symmetric] g_def [symmetric] using False
      by (simp add: s5_def s4_def s3_def begin_output_epoch_def)
    have op: "inner_ok (observe (Cb_Opened g) s3)"
      using opened_inner_ok(1) [OF settles_inner [OF s1(1)] s1(2) cb(1) g_def] by (simp add: s3_def)
    have cb3: "sv_callbacks s3" using cb(1) by (simp add: s3_def begin_output_epoch_def)
    have k: "keeps (observe (Cb_Opened g) s3) (callback E (Cb_Opened g) s3)" by (rule keeps_callback [OF op cb3])
    have c: "control (callback E (Cb_Opened g) s3) = control s3" using k by (simp add: keeps_def)
    have s4: "inner_ok s4" "sv_active_peer s4 = g" "owner_part s4 = owner_part s1"
      using inner_ok_finish [OF keeps_inner [OF k]] c
      by (simp_all add: s4_def finish_output_epoch_def control_def owner_part_def s3_def begin_output_epoch_def)
    have d: "settles (trace E PeerOpened g s4) s5" using settles_drain [of "trace E PeerOpened g s4" E] s4(1) by (simp add: s5_def)
    have fl5: "steady s5"
    proof -
      have "owner_part s5 = owner_part s" using d s4(3) s1(1) by (simp add: settles_def)
      then have "flags_ok s5" using flags assms(2) by (simp add: flags_ok_def owner_part_def)
      with d show ?thesis by (simp add: settles_def steady_def)
    qed
    have act: "settles s5 (drain E (callback E (Cb_Activated g) s5))" if "active_peer peer s5"
    proof -
      have "sv_active_peer s5 = g" using d s4(2) that by (auto simp: settles_def active_peer_def)
      then have k5: "keeps s5 (callback E (Cb_Activated g) s5)"
        using callback_about_peer [OF steady_parts(1) [OF fl5] that] by blast
      show ?thesis
        by (rule settles_trans [OF settles_keeps [OF k5 steady_parts(2) [OF fl5]] settles_drain [OF keeps_inner [OF k5]]])
    qed
    show ?thesis unfolding run using fl5 act steady_settles [OF steady_parts(3) [OF fl5]] by simp
  qed
qed

section \<open>Stop, tasks and start\<close>

lemma inner_ok_stopped:
  assumes "inner_ok s"
  shows "inner_ok ((withdraw_wakes (s\<lparr>sv_detached := True, sv_stop_requested := False\<rparr>))\<lparr>sv_listener := False, sv_running := False\<rparr>)"
    (is "inner_ok ?t")
proof -
  have same: "sv_socket ?t = sv_socket s" "sv_peers ?t = sv_peers s" "sv_connected ?t = sv_connected s"
    "sv_callbacks ?t = sv_callbacks s" "sv_active_peer ?t = sv_active_peer s" "sv_next_peer ?t = sv_next_peer s"
    "sv_null_call ?t = sv_null_call s" "sv_log ?t = sv_log s" "sv_output ?t = sv_output s" "sv_epoch ?t = sv_epoch s"
    by (simp_all add: withdraw_wakes_def)
  have none: "\<not> deferred_pending k ?t" for k by (cases k) (simp_all add: withdraw_wakes_def)
  have "link_ok ?t" "history_ok ?t" "queue_ok ?t"
    using assms unfolding inner_ok_def link_ok_def history_ok_def queue_ok_def same by simp_all
  moreover have "wakes_ok ?t" using none by (simp add: wakes_ok_def) (simp add: withdraw_wakes_def)
  ultimately show ?thesis by (simp add: inner_ok_def)
qed

lemma stop_facts:
  assumes "inner_ok s" "\<not> sv_detached s"
  shows "inner_ok (stop_on_owner E s)" "served (stop_on_owner E s)" "sv_socket (stop_on_owner E s) = None"
    "\<not> sv_accepting_wakes (stop_on_owner E s)" "sv_app (stop_on_owner E s) = sv_app s"
    "sv_callbacks (stop_on_owner E s) = sv_callbacks s"
    "sv_owner_run_active (stop_on_owner E s) = sv_owner_run_active s"
    "sv_initialized_once (stop_on_owner E s) = sv_initialized_once s"
proof -
  let ?s1 = "(withdraw_wakes (s\<lparr>sv_detached := True, sv_stop_requested := False\<rparr>))\<lparr>sv_listener := False, sv_running := False\<rparr>"
  note ok = inner_ok_stopped [OF assms(1)]
  have "settles ?s1 (stop_on_owner E s) \<and> sv_socket (stop_on_owner E s) = None"
    using assms(2) settles_close_peer [OF ok, of E] close_empty [OF ok]
    by (cases "sv_socket s") (simp_all add: stop_on_owner_def withdraw_wakes_def close_output_epoch_def)
  then show "inner_ok (stop_on_owner E s)" "served (stop_on_owner E s)" "sv_socket (stop_on_owner E s) = None"
    "\<not> sv_accepting_wakes (stop_on_owner E s)" "sv_app (stop_on_owner E s) = sv_app s"
    "sv_callbacks (stop_on_owner E s) = sv_callbacks s"
    "sv_owner_run_active (stop_on_owner E s) = sv_owner_run_active s"
    "sv_initialized_once (stop_on_owner E s) = sv_initialized_once s"
    by (simp_all add: settles_def owner_part_def withdraw_wakes_def)
qed

lemma steady_stop:
  assumes "inner_ok s" "flags_ok s" "served s \<or> \<not> sv_detached s"
  shows "steady (stop_on_owner E s)"
proof (cases "sv_detached s")
  case True
  with assms show ?thesis by (simp add: stop_on_owner_def steady_def)
next
  case False
  note f = stop_facts [OF assms(1) False, of E]
  have "flags_ok (stop_on_owner E s)" using f assms(2) by (simp add: flags_ok_def)
  with f show ?thesis by (simp add: steady_def)
qed

lemma flush_one_simps [simp]:
  "inner_ok (flush_one E e n s) = inner_ok s" "owner_part (flush_one E e n s) = owner_part s"
  "served (flush_one E e n s) = served s" "sv_socket (flush_one E e n s) = sv_socket s"
  "sv_output (flush_one E e n s) = sv_output s"
  by (simp_all add: flush_one_def)

lemma flush_facts:
  assumes "inner_ok s"
  shows "inner_ok (flush_worker_diagnostics E s)" "owner_part (flush_worker_diagnostics E s) = owner_part s"
    "sv_socket (flush_worker_diagnostics E s) = sv_socket s"
  using keeps_inner [OF keeps_flag(3) [OF assms]] assms
  by (simp_all add: flush_worker_diagnostics_def Let_def) (simp add: owner_part_def)

lemma task_taken:
  assumes "inner_ok s" "sv_tasks s = task # tasks"
    and "t = s\<lparr>sv_tasks := tasks\<rparr>" "sv_accepting_wakes s \<Longrightarrow> snd task = sv_wake_generation s \<Longrightarrow> u = set_pending (fst task) False t"
  shows "\<not> sv_accepting_wakes s \<or> snd task \<noteq> sv_wake_generation s \<Longrightarrow> inner_ok t"
    and "sv_accepting_wakes s \<Longrightarrow> snd task = sv_wake_generation s \<Longrightarrow> inner_ok u"
proof -
  have parts: "link_ok s" "history_ok s" "queue_ok s" "wakes_ok s" using assms(1) by (simp_all add: inner_ok_def)
  have c: "control t = control s" by (simp add: assms(3))
  have rest: "link_ok t" "history_ok t" "queue_ok t"
    using parts link_ok_control [OF c] history_ok_control [OF c] queue_ok_control [OF c] by (simp_all add: assms(3))
  show "inner_ok t" if stale: "\<not> sv_accepting_wakes s \<or> snd task \<noteq> sv_wake_generation s"
  proof -
    have "wakes_ok t" using parts(4) stale assms(2) by (auto simp: wakes_ok_def assms(3))
    with rest show ?thesis by (simp add: inner_ok_def)
  qed
  show "inner_ok u" if live: "sv_accepting_wakes s" "snd task = sv_wake_generation s"
  proof -
    note u = assms(4) [OF live]
    have cu: "control u = control s" using u c by simp
    have "link_ok u" "history_ok u" "queue_ok u"
      using parts link_ok_control [OF cu] history_ok_control [OF cu] queue_ok_control [OF cu] u by (simp_all add: assms(3))
    moreover have "wakes_ok u" using parts(4) assms(2) u by (auto simp: wakes_ok_def assms(3))
    ultimately show ?thesis by (simp add: inner_ok_def)
  qed
qed

lemma steady_task:
  assumes "steady s" "sv_tasks s = task # tasks"
  shows "steady (deferred_task E task (s\<lparr>sv_tasks := tasks\<rparr>))"
proof -
  let ?t = "s\<lparr>sv_tasks := tasks\<rparr>"
  note ok = steady_parts(1) [OF assms(1)] and flags = steady_parts(3) [OF assms(1)]
  have ft: "flags_ok ?t" using flags by (simp add: flags_ok_def)
  show ?thesis
  proof (cases "\<not> sv_accepting_wakes s \<or> snd task \<noteq> sv_wake_generation s")
    case True
    have "inner_ok ?t" using task_taken(1) [OF ok assms(2) refl _ True] by simp
    with True ft steady_parts(2) [OF assms(1)] show ?thesis
      by (auto simp: deferred_task_def steady_def served_def)
  next
    case False
    then have live: "sv_accepting_wakes s" "snd task = sv_wake_generation s" "sv_wake_loop s" "\<not> sv_detached s"
      using ok flags by (auto simp: inner_ok_def wakes_ok_def flags_ok_def)
    let ?u = "set_pending (fst task) False ?t"
    let ?v = "flush_worker_diagnostics E ?u"
    have u: "inner_ok ?u" using task_taken(2) [OF ok assms(2) refl refl live(1,2)] .
    note v = flush_facts [OF u, of E]
    have "owner_part ?v = owner_part s" "sv_socket ?v = sv_socket s"
      using v(2,3) by (simp_all add: owner_part_def) (cases "fst task"; simp)+
    then have fv: "flags_ok ?v" "\<not> sv_detached ?v"
      using flags live(4) by (simp_all add: flags_ok_def owner_part_def)
    have "steady (stop_on_owner E ?v)" using steady_stop [OF v(1) fv(1)] fv(2) by simp
    moreover have "steady (drain E ?v)" by (rule steady_settles [OF fv(1) settles_drain [OF v(1)]])
    ultimately show ?thesis
      using live by (cases "fst task") (simp_all add: deferred_task_def Let_def)
  qed
qed

lemma finalize_steady:
  assumes "steady (stop_on_owner E s)" "sv_socket (stop_on_owner E s) = None"
    "\<not> sv_accepting_wakes (stop_on_owner E s)" "\<not> sv_owner_run_active (stop_on_owner E s)"
  shows "steady (finalize_on_owner E s)"
proof -
  let ?s = "stop_on_owner E s" and ?t = "finalize_on_owner E s"
  have parts: "link_ok ?s" "history_ok ?s" "queue_ok ?s" "wakes_ok ?s" "served ?s"
    using assms(1) by (simp_all add: steady_def inner_ok_def)
  have same: "sv_socket ?t = sv_socket ?s" "sv_peers ?t = sv_peers ?s" "sv_connected ?t = sv_connected ?s"
    "sv_active_peer ?t = sv_active_peer ?s" "sv_next_peer ?t = sv_next_peer ?s"
    "sv_null_call ?t = sv_null_call ?s" "sv_log ?t = sv_log ?s" "sv_output ?t = sv_output ?s" "sv_epoch ?t = sv_epoch ?s"
    by (simp_all add: finalize_on_owner_def)
  have "link_ok ?t" using parts(1) assms(2) unfolding link_ok_def same by simp
  moreover have "history_ok ?t" "queue_ok ?t" using parts(2,3) unfolding history_ok_def queue_ok_def same .
  moreover have "wakes_ok ?t = wakes_ok ?s" by (rule wakes_ok_fields) (simp_all add: finalize_on_owner_def)
  moreover have "served ?t" using parts(5) by (simp add: served_def finalize_on_owner_def)
  moreover have "flags_ok ?t" using assms(2-4) by (simp add: flags_ok_def finalize_on_owner_def)
  ultimately show ?thesis using parts(4) by (simp add: steady_def inner_ok_def)
qed

lemma steady_finalize:
  assumes "inner_ok s" "flags_ok s" "served s" "sv_socket s = None \<or> \<not> sv_detached s" "\<not> sv_owner_run_active s"
  shows "steady (finalize_on_owner E s)"
proof (cases "sv_detached s")
  case True
  with assms finalize_steady [of E s] steady_stop [of s E] show ?thesis
    by (simp add: stop_on_owner_def flags_ok_def)
next
  case False
  note f = stop_facts [OF assms(1) False, of E]
  from steady_stop [of s E] assms False f finalize_steady [of E s] show ?thesis by simp
qed

lemma steady_start:
  assumes "steady s"
  shows "steady (snd (start_server E owner c s))"
proof (cases "\<not> owner \<or> sv_initialized_once s \<or> sv_running s \<or> sv_app s \<or> \<not> su_callbacks_valid c \<or>
         su_session_token c = [] \<or> su_maximum_output c = 0 \<or> su_maximum_output c > u32_max \<or> su_assets c = None")
  case True
  then show ?thesis using assms by (auto simp: start_server_def split: option.splits)
next
  case False
  then obtain assets where c: "su_assets c = Some assets" and fresh: "\<not> sv_initialized_once s" "\<not> sv_app s" by auto
  note ok = steady_parts(1) [OF assms] and flags = steady_parts(3) [OF assms]
  have idle: "\<not> sv_owner_run_active s" "\<not> sv_accepting_wakes s" "sv_socket s = None"
    using flags fresh by (auto simp: flags_ok_def)
  have parts: "link_ok s" "history_ok s" "queue_ok s" "wakes_ok s" using ok by (simp_all add: inner_ok_def)
  have ring: "ring_ok (sv_output s)" using parts(3) by (simp add: queue_ok_def)
  have "\<not> deferred_pending k s" for k using parts(4) idle(2) by (auto simp: wakes_ok_def)
  from this [of Deferred_Wake] this [of Deferred_Stop]
  have quiet: "\<not> sv_wake_pending s" "\<not> sv_stop_wake_pending s" "\<not> sv_wake_loop s"
    using parts(4) idle(2) by (simp_all add: wakes_ok_def)
  define port where "port = (case su_listen_port c of None \<Rightarrow> 0 | Some p \<Rightarrow> if 0 < p \<and> p \<le> 65535 then nat p else 0)"
  define s1 where "s1 = s\<lparr>sv_callbacks := True, sv_maximum_output := su_maximum_output c,
      sv_session_token := su_session_token c, sv_page_query := su_page_query c,
      sv_assets := assets, sv_app := True, sv_initialized_once := True,
      sv_finalization_required := True, sv_detached := False,
      sv_listener := su_listen_port c \<noteq> None, sv_port := port\<rparr>"
  define s2 where "s2 = s1\<lparr>sv_expected_origin := ascii ''http://127.0.0.1:'' @ decimal port,
      sv_stop_requested := False, sv_close_requested := False,
      sv_wake_generation := sv_wake_generation s1 + 1, sv_wake_loop := True,
      sv_epoch := close_epoch (sv_epoch s1), sv_output := clear_ring (sv_output s1),
      sv_urls := Some (page_url port (su_session_token c) (su_page_query c), websocket_url port (su_session_token c)),
      sv_accepting_wakes := True, sv_running := True\<rparr>"
  have run: "snd (start_server E owner c s) =
      (if \<not> sv_listener s1 \<or> port = 0 then finalize_on_owner E s1 else trace E Started port s2)"
    using False c unfolding start_server_def port_def [symmetric] s1_def s2_def Let_def by simp
  have link: "link_ok s1 \<and> link_ok s2"
    using parts(1) idle(3) unfolding link_ok_def by (simp add: s1_def s2_def close_epoch_def)
  have hist: "history_ok s1 \<and> history_ok s2" using parts(2) by (simp add: history_ok_def s1_def s2_def)
  have queue: "queue_ok s1 \<and> queue_ok s2" using parts(3) ring by (simp add: queue_ok_def s1_def s2_def)
  have wakes: "wakes_ok s1 = wakes_ok s" by (rule wakes_ok_fields) (simp_all add: s1_def)
  have "\<not> deferred_pending k s2" for k using quiet by (cases k) (simp_all add: s2_def s1_def)
  then have wakes2: "wakes_ok s2" by (simp add: wakes_ok_def) (simp add: s2_def)
  have inner: "inner_ok s1" "inner_ok s2" using link hist queue wakes wakes2 parts(4) by (simp_all add: inner_ok_def)
  have fl: "flags_ok s1" "flags_ok s2" using idle by (simp_all add: flags_ok_def s1_def s2_def)
  have srv: "served s1" "served s2"
    using steady_parts(2) [OF assms] ring by (simp_all add: served_def s1_def s2_def)
  have "steady (finalize_on_owner E s1)"
    using steady_finalize [OF inner(1) fl(1) srv(1)] idle by (simp add: s1_def)
  moreover have "flags_ok (trace E Started port s2)"
    using fl(2) owner_part_simps(1) [of E Started port s2] by (simp add: flags_ok_def owner_part_def)
  ultimately show ?thesis unfolding run using inner(2) srv(2) by (simp add: steady_def)
qed

lemma steady_run_begin:
  assumes "steady s"
  shows "steady (server_run_begin E s)"
proof -
  have active: "steady (t\<lparr>sv_owner_run_active := True\<rparr>)" if "steady t" "sv_app t" for t
  proof -
    let ?t = "t\<lparr>sv_owner_run_active := True\<rparr>"
    have "wakes_ok ?t = wakes_ok t" by (rule wakes_ok_fields) simp_all
    moreover have "link_ok ?t = link_ok t" "history_ok ?t = history_ok t" "queue_ok ?t = queue_ok t" "served ?t = served t"
      by (simp_all only: link_ok_def history_ok_def queue_ok_def served_def) simp_all
    moreover have "flags_ok ?t" using that by (auto simp: steady_def flags_ok_def)
    ultimately show ?thesis using that(1) by (simp add: steady_def inner_ok_def)
  qed
  note ok = steady_parts [OF assms]
  show ?thesis
  proof (cases "sv_app s \<and> sv_stop_requested s")
    case True
    have "sv_app (stop_on_owner E s)"
      using stop_facts(5) [OF ok(1), of E] True by (cases "sv_detached s") (simp_all add: stop_on_owner_def)
    with True active [OF steady_stop [OF ok(1,3), of E]] ok(2) show ?thesis by (simp add: server_run_begin_def)
  next
    case False
    then show ?thesis using active [OF assms] assms by (auto simp: server_run_begin_def)
  qed
qed

lemma steady_run_end:
  assumes "steady s" "sv_socket s = None"
  shows "steady (server_run_end E s)"
proof -
  let ?t = "s\<lparr>sv_owner_run_active := False\<rparr>"
  have "wakes_ok ?t = wakes_ok s" by (rule wakes_ok_fields) simp_all
  moreover have "link_ok ?t = link_ok s" "history_ok ?t = history_ok s" "queue_ok ?t = queue_ok s" "served ?t = served s"
    by (simp_all only: link_ok_def history_ok_def queue_ok_def served_def) simp_all
  moreover have "flags_ok ?t" using assms by (auto simp: steady_def flags_ok_def)
  ultimately have "inner_ok ?t" "flags_ok ?t" "served ?t" using assms(1) by (simp_all add: steady_def inner_ok_def)
  then show ?thesis using steady_finalize [of ?t E] assms(2) by (simp add: server_run_end_def)
qed

lemma steady_close_server:
  assumes "steady s"
  shows "steady (snd (close_server E owner s))"
proof -
  note ok = steady_parts [OF assms]
  have "steady (request_stop E s)"
    using steady_keeps [OF assms keeps_api [OF ok(1), of E Request_Stop]] by simp
  moreover have "steady (stop_on_owner E s)" using steady_stop [OF ok(1,3)] ok(2) by blast
  moreover have "steady (finalize_on_owner E s)" if "\<not> sv_owner_run_active s"
    using steady_finalize [OF ok(1,3,2)] ok(3) that by (auto simp: flags_ok_def)
  ultimately show ?thesis using assms by (auto simp: close_server_def)
qed

lemma steady_upgrade:
  assumes "steady s"
  shows "steady (observe (Upgraded peer) s)"
proof -
  let ?t = "observe (Upgraded peer) s"
  have c: "control ?t = control s" by simp
  have parts: "link_ok s" "history_ok s" "queue_ok s" "wakes_ok s" using assms by (simp_all add: steady_def inner_ok_def)
  have "history_ok ?t" "queue_ok ?t" using parts(2,3) by (simp_all add: history_ok_def queue_ok_def)
  moreover have "wakes_ok ?t = wakes_ok s" by (rule wakes_ok_fields) (simp_all add: observe_def)
  ultimately have "keeps s ?t"
    using parts link_ok_control [OF c] c by (simp add: keeps_def inner_ok_def served_def)
  then show ?thesis using steady_keeps [OF assms] by blast
qed

lemma steady_step:
  assumes "steady s" "server_step E s t"
  shows "steady t"
proof -
  note ok = steady_parts(1) [OF assms(1)]
  note keep = steady_keeps [OF assms(1)]
  from assms(2) show ?thesis
  proof cases
    case (worker_publish owner rec) then show ?thesis using keep keeps_publish [OF ok] by simp
  next
    case worker_close_flag then show ?thesis using keep keeps_flag(1) [OF ok] by (simp add: request_peer_close_flag_def)
  next
    case worker_close_wake then show ?thesis using keep keeps_request [OF ok] by (simp add: request_wake_def)
  next
    case worker_stop_flag then show ?thesis using keep keeps_flag(2) [OF ok] by (simp add: request_stop_flag_def)
  next
    case worker_stop_wake then show ?thesis using keep keeps_request [OF ok] by (simp add: request_stop_wake_def)
  qed (use assms(1) in \<open>simp_all add: steady_start steady_run_begin steady_close_server steady_run_end steady_upgrade
      steady_on_open steady_on_message steady_on_drain steady_on_close steady_task\<close>)
qed

lemma steady_new: "steady new_server"
proof -
  have ring: "ring_items new_ring = []" "ring_ok new_ring"
    using ring_is_items [OF ring_is_new] by simp_all
  have "\<not> deferred_pending k new_server" for k by (cases k) (simp_all add: new_server_def)
  then have "wakes_ok new_server" by (simp add: wakes_ok_def) (simp add: new_server_def)
  moreover have "link_ok new_server" unfolding link_ok_def by (simp add: new_server_def new_lifecycle_def)
  ultimately show ?thesis
    using ring by (simp add: steady_def inner_ok_def history_ok_def queue_ok_def served_def flags_ok_def new_server_def)
qed

lemma reachable_steady: "server_reachable E s \<Longrightarrow> steady s"
  by (induction rule: server_reachable.induct) (auto intro: steady_new steady_step)

section \<open>Delivery\<close>

fun sent :: "observation list \<Rightarrow> (nat \<times> byte list) list" where
  "sent [] = []"
| "sent (Sent g bytes # l) = (g, bytes) # sent l"
| "sent (ob # l) = sent l"

lemma sent_trace [simp]: "sent (sv_log (trace E e n s)) = sent (sv_log s)"
  by (simp add: trace_def observe_def)

lemma sent_flush [simp]: "sent (sv_log (flush_one E e n s)) = sent (sv_log s)"
  by (simp add: flush_one_def)

lemma send_all_delivers:
  assumes "\<And>l. env_send E l = Send_Success"
  shows "ring_ok (sv_output s) \<Longrightarrow> sv_socket s \<noteq> None \<Longrightarrow>
    ring_items (sv_output (send_all E s)) = [] \<and>
    sent (sv_log (send_all E s)) = rev (map (\<lambda>r. (sv_active_peer s, or_bytes r)) (ring_items (sv_output s))) @ sent (sv_log s)"
proof (induction "ring_items (sv_output s)" arbitrary: s)
  case Nil
  then have "pop (sv_output s) = (None, sv_output s)" using ring.deq_empty by simp
  with Nil show ?case by (auto simp: send_all.simps [of E s])
next
  case (Cons r q)
  obtain ring where pop: "pop (sv_output s) = (Some r, ring)" and ring: "ring_ok ring" "ring_items ring = q"
    using ring.deq_first [OF Cons.prems(1) Cons.hyps(2) [symmetric]] ring.deq_ok [OF Cons.prems(1)]
    by (cases "pop (sv_output s)") auto
  let ?u = "trace E WriteAccepted (length (or_bytes r)) (observe (Sent (sv_active_peer s) (or_bytes r)) (s\<lparr>sv_output := ring\<rparr>))"
  have "send_all E s = send_all E ?u"
    using Cons.prems(2) pop assms by (auto simp: send_all.simps [of E s] Let_def)
  moreover have "ring_items (sv_output (send_all E ?u)) = [] \<and>
      sent (sv_log (send_all E ?u)) = rev (map (\<lambda>r. (sv_active_peer ?u, or_bytes r)) (ring_items (sv_output ?u))) @ sent (sv_log ?u)"
    using Cons.hyps(1) [of ?u] ring Cons.prems(2) by simp
  ultimately show ?case using ring(2) by (simp flip: Cons.hyps(2))
qed

section \<open>Properties\<close>

text \<open>The run of the witnesses is reachable.\<close>

lemma example_open_reachable: "server_reachable example_environment example_open"
proof -
  have "server_reachable example_environment (snd (start_server example_environment True example_startup new_server))"
    by (rule server_next [OF server_initial owner_start])
  from server_next [OF this owner_run] have s0: "server_reachable example_environment example_running"
    unfolding example_running .
  have "upgrade_granted example_running [116] (ascii ''http://127.0.0.1:'' @ decimal 80)" "sv_owner_run_active example_running"
    by (simp_all add: upgrade_granted_def example_running_def constant_time_equal_def byte_at_def)
  then have s1: "server_reachable example_environment (observe (Upgraded 7) example_running)"
    by (intro server_next [OF s0 loop_upgrade])
  show ?thesis unfolding example_open_def
    by (rule server_next [OF s1 loop_open]) (simp_all add: observe_def example_running_def)
qed

lemma example_queued_reachable: "server_reachable example_environment example_queued"
  unfolding example_queued_def by (rule server_next [OF example_open_reachable worker_publish])

lemma example_spent: "ring_is (spent_ring (example_record 1)) []"
proof -
  have ok: "ring_ok (spent_ring (example_record 1))"
    using reachable_steady [OF example_open_reachable] by (simp add: steady_def inner_ok_def queue_ok_def example_open_fields)
  then have "ring_items (spent_ring (example_record 1)) = []"
    using example_rings(3) [OF example_fresh] ring.deq_first [OF ok] by (cases "ring_items (spent_ring (example_record 1))") auto
  with ok show ?thesis by (simp add: ring_ok_def)
qed

lemma example_facts:
  "ring_items (sv_output example_queued) = [example_record 2]"
  "\<not> sv_backpressured example_queued" "sv_accepting_wakes example_queued" "sv_socket example_queued \<noteq> None"
  "\<not> sv_stop_requested example_queued" "\<not> sv_close_requested example_queued" "sv_active_peer example_queued = 1"
  "sent (sv_log example_queued) = [(1, [1])]" "sv_wake_generation example_queued = 1"
proof -
  obtain ring where ring: "ring_is ring [example_record 2]" and eq: "example_queued = example_open\<lparr>sv_output := ring,
     sv_log := Accepted 1 (example_record 2) # sv_log example_open\<rparr>"
    using example_queued_eq [OF example_spent] by blast
  show "ring_items (sv_output example_queued) = [example_record 2]"
    "\<not> sv_backpressured example_queued" "sv_accepting_wakes example_queued" "sv_socket example_queued \<noteq> None"
    "\<not> sv_stop_requested example_queued" "\<not> sv_close_requested example_queued" "sv_active_peer example_queued = 1"
    "sent (sv_log example_queued) = [(1, [1])]" "sv_wake_generation example_queued = 1"
    unfolding eq using ring_is_items [OF ring] by (simp_all add: example_open_fields)
qed

text \<open>
  C7: whatever the threads, the network and the application do, the callbacks the application sees are
  those of one peer after the other: a peer opens only after the previous one was closed and with a
  higher generation, activation and records concern the open peer, each peer is closed exactly once,
  no callback is made through a null pointer, and \<open>connected\<close> tells whether a peer is open.
\<close>

theorem application_sees_one_peer:
  assumes "server_reachable E s"
  shows "alternating (sv_log s) \<and> \<not> sv_null_call s \<and> (sv_connected s \<longleftrightarrow> connection (sv_log s) \<noteq> None)"
proof -
  have ok: "inner_ok s" using reachable_steady [OF assms] by (simp add: steady_def)
  then have l: "link_ok s" and h: "history_ok s" by (simp_all add: inner_ok_def)
  have "sv_connected s \<longleftrightarrow> sv_socket s \<noteq> None"
    using link_ok_None [OF l] link_ok_Some [OF l] by (cases "sv_socket s") auto
  moreover have "\<not> sv_null_call s" using l unfolding link_ok_def by blast
  ultimately show ?thesis using h by (simp add: history_ok_def)
qed

theorem application_sees_one_peer_witness:
  "alternating [Sent 1 [1], Accepted 1 (example_record 1), Cb_Opened 1, Upgraded 7] \<and> sv_connected example_open"
  using application_sees_one_peer [OF example_open_reachable] by (simp add: example_open_fields)

text \<open>
  C9: output is isolated between peers: in every reachable state, each message that was sent to a peer
  is the content of a record that was accepted earlier, while that same peer was the open one.
\<close>

theorem peers_are_isolated:
  assumes "server_reachable E s" and "sv_log s = later @ Sent g bytes # earlier"
  shows "connection earlier = Some g \<and> (\<exists>rec. Accepted g rec \<in> set earlier \<and> or_bytes rec = bytes)"
proof -
  have "sends_accepted (sv_log s)"
    using reachable_steady [OF assms(1)] by (simp add: steady_def inner_ok_def history_ok_def)
  moreover have "sends_accepted (l @ m) \<Longrightarrow> sends_accepted m" for l m
    by (induction l rule: sends_accepted.induct) simp_all
  ultimately have "sends_accepted (Sent g bytes # earlier)" unfolding assms(2) by blast
  then show ?thesis by simp
qed

theorem peers_are_isolated_witness:
  "connection [Accepted 1 (example_record 1), Cb_Opened 1, Upgraded 7] = Some 1"
  using peers_are_isolated [OF example_open_reachable, of "[]" 1 "[1]"] by (simp add: example_open_fields)

text \<open>
  C8: no wake is lost. In every reachable state in which records are queued, either the socket is
  backpressured and will announce that it drained, or a wake of the current generation is among the
  deferred tasks of the loop and will be honoured.
\<close>

theorem no_lost_wake:
  assumes "server_reachable E s" and "ring_items (sv_output s) \<noteq> []" and "\<not> sv_backpressured s"
  shows "sv_accepting_wakes s \<and> sv_wake_loop s \<and> (Deferred_Wake, sv_wake_generation s) \<in> set (sv_tasks s)"
proof -
  have s: "inner_ok s" "served s" using reachable_steady [OF assms(1)] by (simp_all add: steady_def)
  with assms(2,3) have "deferred_pending Deferred_Wake s" by (simp add: served_def)
  with s(1) show ?thesis unfolding inner_ok_def wakes_ok_def by blast
qed

theorem no_lost_wake_witness:
  "(Deferred_Wake, sv_wake_generation example_queued) \<in> set (sv_tasks example_queued)"
  using no_lost_wake [OF example_queued_reachable] example_facts by simp

text \<open>
  C21: a wake that is honoured delivers: with a peer that takes every message, and neither a stop nor a
  close requested, running the wake sends the queued records to the open peer, all of them and in
  order, and leaves the queue empty.
\<close>

theorem wake_delivers:
  assumes "server_reachable E s" and "sv_accepting_wakes s" and "sv_socket s \<noteq> None"
    and "\<not> sv_backpressured s" "\<not> sv_stop_requested s" "\<not> sv_close_requested s"
    and "\<And>l. env_send E l = Send_Success"
  shows "ring_items (sv_output (deferred_task E (Deferred_Wake, sv_wake_generation s) s)) = [] \<and>
    sent (sv_log (deferred_task E (Deferred_Wake, sv_wake_generation s) s)) =
      rev (map (\<lambda>r. (sv_active_peer s, or_bytes r)) (ring_items (sv_output s))) @ sent (sv_log s)"
proof -
  let ?u = "flush_worker_diagnostics E (s\<lparr>sv_wake_pending := False\<rparr>)"
  have s: "ring_ok (sv_output s)" "sv_wake_loop s"
    using reachable_steady [OF assms(1)] assms(2) by (simp_all add: steady_def inner_ok_def queue_ok_def wakes_ok_def)
  have u: "sv_output ?u = sv_output s" "sent (sv_log ?u) = sent (sv_log s)" "sv_socket ?u = sv_socket s"
    "sv_active_peer ?u = sv_active_peer s" "sv_backpressured ?u = sv_backpressured s"
    "sv_stop_requested ?u = sv_stop_requested s" "sv_close_requested ?u = sv_close_requested s"
    by (simp_all add: flush_worker_diagnostics_def Let_def flush_one_def)
  have "deferred_task E (Deferred_Wake, sv_wake_generation s) s = send_all E ?u"
    using assms(2-6) u s(2) by (auto simp: deferred_task_def drain_def Let_def)
  with send_all_delivers [OF assms(7), of ?u] u s(1) assms(3) show ?thesis by simp
qed

theorem wake_delivers_witness:
  "sent (sv_log (deferred_task example_environment (Deferred_Wake, 1) example_queued)) = [(1, [2]), (1, [1])]"
proof -
  have "env_send example_environment l = Send_Success" for l by (simp add: example_environment_def)
  from wake_delivers [OF example_queued_reachable _ _ _ _ _ this] show ?thesis
    using example_facts by (simp add: example_record_def)
qed

end
