(* ===== verification/Workspace_Input.thy ===== *)
theory Workspace_Input
  imports Ring_Buffer Cbor_Types
begin

text \<open>
  Mouse input of a workspace (\<open>src/controller/presentation/workspace_input.h\<close>, \<open>.cpp\<close>,
  \<open>src/controller/contracts/workspace_input.h\<close>): the growing ring that queues records and the pointer
  state derived from them. The enumerations arrive from the wire, so they are kept as their codes,
  which may be out of range; a coordinate is the bit pattern of a \<open>float\<close>.
\<close>

section \<open>Records\<close>

definition kMinAnnotationBrushRadius :: nat where "kMinAnnotationBrushRadius = 1"
definition kMaxAnnotationBrushRadius :: nat where "kMaxAnnotationBrushRadius = 128"

text \<open>Each visual source names its browser content session; the empty source has session zero.\<close>

definition presentation_source_session :: "nat \<Rightarrow> nat" where
  "presentation_source_session kind = (if kind < 7 then [0, 1, 2, 3, 4, 5, 6] ! kind else 0)"

abbreviation Mouse_Motion :: nat where "Mouse_Motion \<equiv> 0"
abbreviation Mouse_Press :: nat where "Mouse_Press \<equiv> 1"
abbreviation Mouse_Release :: nat where "Mouse_Release \<equiv> 2"
abbreviation Mouse_Cancel :: nat where "Mouse_Cancel \<equiv> 6"

record workspace_point =
  wp_x :: u32
  wp_y :: u32

definition point_valid :: "workspace_point \<Rightarrow> bool" where
  "point_valid p \<longleftrightarrow> isfinite32 (wp_x p) \<and> isfinite32 (wp_y p)"

record workspace_mouse =
  wm_source :: nat
  wm_peer_epoch :: nat
  wm_document_epoch :: nat
  wm_kind :: nat
  wm_point :: "workspace_point option"
  wm_button :: nat
  wm_other_button :: nat
  wm_click_count :: nat
  wm_modifiers :: nat
  wm_wheel_unit :: nat
  wm_wheel :: workspace_point
  wm_brush_radius :: nat

definition mouse_valid :: "workspace_mouse \<Rightarrow> bool" where
  "mouse_valid m \<longleftrightarrow>
     presentation_source_session (wm_source m) \<noteq> 0 \<and> wm_peer_epoch m \<noteq> 0 \<and>
     wm_kind m < 7 \<and> wm_button m < 6 \<and> wm_wheel_unit m < 2 \<and>
     (case wm_point m of None \<Rightarrow> True | Some p \<Rightarrow> point_valid p) \<and> point_valid (wm_wheel m) \<and>
     wm_modifiers m \<le> 15 \<and>
     kMinAnnotationBrushRadius \<le> wm_brush_radius m \<and> wm_brush_radius m \<le> kMaxAnnotationBrushRadius"

section \<open>The queue\<close>

record 'a input_queue =
  iq_storage :: "'a option list"
  iq_head :: nat
  iq_size :: nat

definition empty_input_queue :: "'a input_queue" where
  "empty_input_queue = \<lparr>iq_storage = [], iq_head = 0, iq_size = 0\<rparr>"

text \<open>Doubling the storage moves the records to its front.\<close>

definition grown_storage :: "'a input_queue \<Rightarrow> 'a option list" where
  "grown_storage q =
     (let n = length (iq_storage q); capacity = (if n = 0 then 64 else n * 2)
      in foldl (\<lambda>grown index. grown[index := iq_storage q ! ((iq_head q + index) mod n)])
           (replicate capacity None) [0..<iq_size q])"

definition iq_push :: "nat \<Rightarrow> 'a \<Rightarrow> 'a input_queue \<Rightarrow> cxx_error + 'a input_queue" where
  "iq_push max_size rec q =
     (let put = (\<lambda>q. Inr (q\<lparr>iq_storage := (iq_storage q)[(iq_head q + iq_size q) mod length (iq_storage q) := Some rec],
                             iq_size := iq_size q + 1\<rparr>))
      in if iq_size q = length (iq_storage q)
         then if length (iq_storage q) > max_size div 2
              then Inl (Length_Error ''Workspace input capacity is exhausted'')
              else put (q\<lparr>iq_storage := grown_storage q, iq_head := 0\<rparr>)
         else put q)"

definition iq_pop :: "'a input_queue \<Rightarrow> 'a option \<times> 'a input_queue" where
  "iq_pop q =
     (if iq_size q = 0 then (None, q)
      else (iq_storage q ! iq_head q,
            q\<lparr>iq_storage := (iq_storage q)[iq_head q := None],
              iq_head := (iq_head q + 1) mod length (iq_storage q),
              iq_size := iq_size q - 1\<rparr>))"

fun iq_clear_loop :: "nat \<Rightarrow> 'a input_queue \<Rightarrow> 'a input_queue" where
  "iq_clear_loop 0 q = q"
| "iq_clear_loop (Suc n) q = iq_clear_loop n
     (q\<lparr>iq_storage := (iq_storage q)[iq_head q := None],
        iq_head := (iq_head q + 1) mod length (iq_storage q), iq_size := iq_size q - 1\<rparr>)"

definition iq_clear :: "'a input_queue \<Rightarrow> 'a input_queue" where
  "iq_clear q = iq_clear_loop (iq_size q) q"

section \<open>The queue is first-in first-out\<close>

definition iq_holds :: "'a input_queue \<Rightarrow> 'a list \<Rightarrow> bool" where
  "iq_holds q xs \<longleftrightarrow> ring_holds (iq_storage q) (iq_head q) xs \<and> iq_size q = length xs"

lemma iq_holds_empty: "iq_holds empty_input_queue []"
  by (simp add: iq_holds_def empty_input_queue_def ring_holds_def)

lemma grown_holds:
  assumes "iq_holds q xs"
  shows "ring_holds (grown_storage q) 0 xs" "length (grown_storage q) = (if iq_storage q = [] then 64 else 2 * length (iq_storage q))"
proof -
  have q: "ring_holds (iq_storage q) (iq_head q) xs" "iq_size q = length xs" using assms by (simp_all add: iq_holds_def)
  have "length xs \<le> (if length (iq_storage q) = 0 then 64 else length (iq_storage q) * 2)"
    using ring_holds_bounds(1) [OF q(1)] by auto
  from ring_grow [OF q(1) this] q(2)
  show "ring_holds (grown_storage q) 0 xs" "length (grown_storage q) = (if iq_storage q = [] then 64 else 2 * length (iq_storage q))"
    by (simp_all add: grown_storage_def Let_def)
qed

definition iq_room :: "nat \<Rightarrow> 'a input_queue \<Rightarrow> bool" where
  "iq_room max_size q \<longleftrightarrow> iq_size q < length (iq_storage q) \<or> length (iq_storage q) \<le> max_size div 2"

lemma iq_push_step:
  assumes "iq_holds q xs" "iq_room max_size q"
  shows "\<exists>q'. iq_push max_size x q = Inr q' \<and> iq_holds q' (xs @ [x])"
proof (cases "iq_size q = length (iq_storage q)")
  case True
  let ?g = "q\<lparr>iq_storage := grown_storage q, iq_head := 0\<rparr>"
  have "length xs < length (grown_storage q)"
    using grown_holds(2) [OF assms(1)] True assms(1) by (auto simp: iq_holds_def)
  with ring_put [OF grown_holds(1) [OF assms(1)], of x] True assms show ?thesis
    by (auto simp: iq_push_def iq_holds_def iq_room_def)
next
  case False
  then have "length xs < length (iq_storage q)"
    using assms(1) by (auto simp: iq_holds_def dest!: ring_holds_bounds(1))
  with False assms(1) show ?thesis by (auto simp: iq_push_def iq_holds_def intro: ring_put)
qed

lemma iq_push_full: "\<not> iq_room max_size q \<Longrightarrow> iq_holds q xs \<Longrightarrow>
    iq_push max_size x q = Inl (Length_Error ''Workspace input capacity is exhausted'')"
  by (auto simp: iq_push_def iq_room_def iq_holds_def dest!: ring_holds_bounds(1))

lemma iq_pop_step:
  assumes "iq_holds q xs"
  shows "case xs of [] \<Rightarrow> iq_pop q = (None, q) | y # ys \<Rightarrow> fst (iq_pop q) = Some y \<and> iq_holds (snd (iq_pop q)) ys"
proof (cases xs)
  case (Cons y ys)
  with assms ring_take [of "iq_storage q" "iq_head q" y ys] show ?thesis by (auto simp: iq_holds_def iq_pop_def)
qed (use assms in \<open>simp add: iq_holds_def iq_pop_def\<close>)

lemma iq_clear_holds: "iq_holds q xs \<Longrightarrow> iq_holds (iq_clear q) []"
proof -
  have "iq_holds q xs \<Longrightarrow> iq_holds (iq_clear_loop (length xs) q) []" for q :: "'a input_queue"
  proof (induction xs arbitrary: q)
    case (Cons x xs)
    have "iq_holds (snd (iq_pop q)) xs" using iq_pop_step [OF Cons.prems] by simp
    moreover have "iq_clear_loop (length (x # xs)) q = iq_clear_loop (length xs) (snd (iq_pop q))"
      using Cons.prems by (simp add: iq_pop_def iq_holds_def)
    ultimately show ?case using Cons.IH by simp
  qed simp
  moreover assume "iq_holds q xs"
  ultimately show ?thesis by (simp add: iq_clear_def iq_holds_def)
qed

definition iq_items :: "'a input_queue \<Rightarrow> 'a list" where
  "iq_items q = map (\<lambda>i. the (iq_storage q ! ((iq_head q + i) mod length (iq_storage q)))) [0..<iq_size q]"

definition iq_ok :: "'a input_queue \<Rightarrow> bool" where
  "iq_ok q \<longleftrightarrow> iq_holds q (iq_items q)"

lemma iq_holds_items: "iq_holds q xs \<Longrightarrow> iq_items q = xs \<and> iq_ok q"
proof -
  assume q: "iq_holds q xs"
  have "iq_items q = xs"
  proof (rule nth_equalityI)
    show "length (iq_items q) = length xs" using q by (simp add: iq_items_def iq_holds_def)
    show "iq_items q ! i = xs ! i" if "i < length (iq_items q)" for i
      using q that ring_holds_nth [of "iq_storage q" "iq_head q" xs i] by (simp add: iq_items_def iq_holds_def)
  qed
  with q show ?thesis by (simp add: iq_ok_def)
qed

definition iq_enq :: "nat \<Rightarrow> 'a \<Rightarrow> 'a input_queue \<Rightarrow> 'a input_queue" where
  "iq_enq max_size x q = (case iq_push max_size x q of Inl _ \<Rightarrow> q | Inr q' \<Rightarrow> q')"

interpretation input: fifo_queue iq_ok iq_items "\<lambda>_. iq_room max_size" "iq_enq max_size" iq_pop for max_size
proof unfold_locales
  fix q :: "'a input_queue" and x xs
  assume q: "iq_ok q"
  then have holds: "iq_holds q (iq_items q)" by (simp add: iq_ok_def)
  show "iq_ok (iq_enq max_size x q)" "iq_items (iq_enq max_size x q) = iq_items q @ [x]" if "iq_room max_size q"
    using iq_push_step [OF holds that, of x] by (auto simp: iq_enq_def dest: iq_holds_items)
  note step = iq_pop_step [OF holds]
  show "iq_ok (snd (iq_pop q))" using step q by (cases "iq_items q") (auto dest: iq_holds_items)
  show "iq_pop q = (None, q)" if "iq_items q = []" using step that by simp
  show "fst (iq_pop q) = Some x \<and> iq_items (snd (iq_pop q)) = xs" if "iq_items q = x # xs"
    using step that by (auto dest: iq_holds_items)
qed

section \<open>Pointer state\<close>

datatype input_error = Invalid_Intent | Input_Capacity

record workspace_input =
  wi_peer :: nat
  wi_buttons :: byte
  wi_latest :: "workspace_mouse option"
  wi_queue :: "workspace_mouse input_queue"

definition new_input :: workspace_input where
  "new_input = \<lparr>wi_peer = 0, wi_buttons = 0, wi_latest = None, wi_queue = empty_input_queue\<rparr>"

definition set_peer :: "nat \<Rightarrow> workspace_input \<Rightarrow> workspace_input" where
  "set_peer epoch w = w\<lparr>wi_peer := epoch, wi_buttons := 0, wi_latest := None, wi_queue := iq_clear (wi_queue w)\<rparr>"

definition button_bit :: "nat \<Rightarrow> byte" where
  "button_bit button = push_bit button 1"

definition take_record :: "workspace_mouse \<Rightarrow> workspace_input \<Rightarrow> workspace_input" where
  "take_record m w =
     (let bit = button_bit (wm_button m);
          b1 = (if wm_kind m = Mouse_Press then wi_buttons w OR bit else wi_buttons w);
          b2 = (if wm_kind m = Mouse_Release then b1 AND NOT bit else b1);
          b3 = (if wm_kind m = Mouse_Cancel then 0 else b2)
      in w\<lparr>wi_buttons := b3, wi_latest := Some m\<rparr>)"

function take_records :: "workspace_input \<Rightarrow> workspace_input" where
  "take_records w =
     (case iq_pop (wi_queue w) of
        (None, q) \<Rightarrow> w\<lparr>wi_queue := q\<rparr>
      | (Some m, q) \<Rightarrow> take_records (take_record m (w\<lparr>wi_queue := q\<rparr>)))"
  by pat_completeness auto

termination
  by (relation "measure (\<lambda>w. iq_size (wi_queue w))") (auto simp: iq_pop_def take_record_def Let_def split: if_splits)

declare take_records.simps [simp del]

definition accept :: "nat \<Rightarrow> workspace_mouse \<Rightarrow> nat \<Rightarrow> workspace_input \<Rightarrow> input_error + workspace_input" where
  "accept max_size m source w =
     (if \<not> mouse_valid m \<or> wm_source m \<noteq> source \<or> wm_peer_epoch m \<noteq> wi_peer w then Inl Invalid_Intent
      else case iq_push max_size m (wi_queue w) of
        Inl _ \<Rightarrow> Inl Input_Capacity
      | Inr q \<Rightarrow> Inr (take_records (w\<lparr>wi_queue := q\<rparr>)))"

definition pressed :: "nat \<Rightarrow> workspace_input \<Rightarrow> bool" where
  "pressed button w \<longleftrightarrow> wi_buttons w AND button_bit button \<noteq> 0"

fun accept_all :: "nat \<Rightarrow> nat \<Rightarrow> workspace_mouse list \<Rightarrow> workspace_input \<Rightarrow> input_error + workspace_input" where
  "accept_all max_size source [] w = Inr w"
| "accept_all max_size source (m # ms) w = bindr (accept max_size m source w) (accept_all max_size source ms)"

definition at_rest :: "workspace_input \<Rightarrow> bool" where
  "at_rest w \<longleftrightarrow> iq_holds (wi_queue w) []"

lemma accept_step:
  assumes "at_rest w" "mouse_valid m" "wm_source m = source" "wm_peer_epoch m = wi_peer w" "iq_room max_size (wi_queue w)"
  shows "\<exists>q. accept max_size m source w = Inr (take_record m (w\<lparr>wi_queue := q\<rparr>)) \<and> iq_holds q []"
proof -
  have empty: "iq_holds (wi_queue w) []" using assms(1) by (simp add: at_rest_def)
  obtain q where q: "iq_push max_size m (wi_queue w) = Inr q" "iq_holds q [m]"
    using iq_push_step [OF empty assms(5), of m] by auto
  obtain r where r: "iq_pop q = (Some m, r)" "iq_holds r []"
    using iq_pop_step [OF q(2)] by (cases "iq_pop q") auto
  have "iq_pop r = (None, r)" using iq_pop_step [OF r(2)] by simp
  then have "take_records (take_record m (w\<lparr>wi_queue := r\<rparr>)) = take_record m (w\<lparr>wi_queue := r\<rparr>)"
    by (simp add: take_records.simps take_record_def Let_def)
  then have "take_records (w\<lparr>wi_queue := q\<rparr>) = take_record m (w\<lparr>wi_queue := r\<rparr>)"
    using r(1) by (simp add: take_records.simps [of "w\<lparr>wi_queue := q\<rparr>"])
  with q(1) r(2) assms(2-4) show ?thesis by (auto simp: accept_def)
qed

lemma bit_button_bit: "n < 8 \<Longrightarrow> bit (button_bit k) n \<longleftrightarrow> k = n"
  by (auto simp: button_bit_def bit_exp_iff)

lemma bit_button: "b < 8 \<Longrightarrow> (w AND button_bit b \<noteq> 0) = bit w b" for w :: byte
proof
  assume "b < 8" and "bit w b"
  then have "bit (w AND button_bit b) b" by (simp add: bit_button_bit bit_and_iff)
  then show "w AND button_bit b \<noteq> 0" by auto
next
  assume "w AND button_bit b \<noteq> 0"
  then obtain n where n: "bit (w AND button_bit b) n" by (auto simp: bit_eq_iff)
  then have "n < 8" using bit_imp_le_length [OF n] by simp
  with n show "bit w b" by (auto simp: bit_button_bit bit_and_iff)
qed

text \<open>What a record does to one button.\<close>

definition held_after :: "nat \<Rightarrow> bool \<Rightarrow> workspace_mouse \<Rightarrow> bool" where
  "held_after b held m =
     (if wm_kind m = Mouse_Press \<and> wm_button m = b then True
      else if (wm_kind m = Mouse_Release \<and> wm_button m = b) \<or> wm_kind m = Mouse_Cancel then False else held)"

lemma pressed_take_record:
  assumes "b < 6" "wm_button m < 6"
  shows "pressed b (take_record m w) = held_after b (pressed b w) m"
proof -
  have "bit (button_bit (wm_button m)) b = (wm_button m = b)"
    using assms by (simp add: bit_button_bit)
  with assms show ?thesis
    by (auto simp: pressed_def bit_button take_record_def held_after_def Let_def bit_or_iff bit_and_iff bit_not_iff)
qed

lemma accept_all_steps:
  assumes "b < 6"
  shows "at_rest w \<Longrightarrow> \<forall>m \<in> set ms. mouse_valid m \<and> wm_source m = source \<and> wm_peer_epoch m = wi_peer w \<Longrightarrow>
    \<exists>v. accept_all max_size source ms w = Inr v \<and>
      wi_latest v = (if ms = [] then wi_latest w else Some (last ms)) \<and>
      pressed b v = foldl (held_after b) (pressed b w) ms"
proof (induction ms arbitrary: w)
  case (Cons m ms)
  have room: "iq_room max_size (wi_queue w)"
    using Cons.prems(1) by (auto simp: at_rest_def iq_holds_def iq_room_def)
  have m: "mouse_valid m" "wm_source m = source" "wm_peer_epoch m = wi_peer w" using Cons.prems(2) by simp_all
  obtain q where q: "accept max_size m source w = Inr (take_record m (w\<lparr>wi_queue := q\<rparr>))" "iq_holds q []"
    using accept_step [OF Cons.prems(1) m room] by blast
  let ?u = "take_record m (w\<lparr>wi_queue := q\<rparr>)"
  have u: "at_rest ?u" "wi_peer ?u = wi_peer w" "wi_latest ?u = Some m"
    using q(2) by (simp_all add: at_rest_def take_record_def Let_def)
  have "wm_button m < 6" using m(1) by (simp add: mouse_valid_def)
  then have "pressed b ?u = held_after b (pressed b w) m"
    using pressed_take_record [OF assms, of m "w\<lparr>wi_queue := q\<rparr>"] by (simp add: pressed_def)
  with Cons.IH [OF u(1)] Cons.prems(2) q(1) u(2,3) show ?case by fastforce
qed simp

text \<open>Some record pressed the button, and none since released it or cancelled.\<close>

definition unreleased :: "nat \<Rightarrow> workspace_mouse list \<Rightarrow> bool" where
  "unreleased b ms \<longleftrightarrow>
    (\<exists>earlier m later. ms = earlier @ m # later \<and> wm_kind m = Mouse_Press \<and> wm_button m = b \<and>
       (\<forall>x \<in> set later. wm_kind x \<noteq> Mouse_Cancel \<and> \<not> (wm_kind x = Mouse_Release \<and> wm_button x = b)))"

lemma unreleased_snoc:
  "unreleased b (ms @ [y]) \<longleftrightarrow> (wm_kind y = Mouse_Press \<and> wm_button y = b) \<or>
     (unreleased b ms \<and> wm_kind y \<noteq> Mouse_Cancel \<and> \<not> (wm_kind y = Mouse_Release \<and> wm_button y = b))" (is "_ \<longleftrightarrow> ?r")
proof
  assume "unreleased b (ms @ [y])"
  then obtain e m l where s: "ms @ [y] = e @ m # l" "wm_kind m = Mouse_Press" "wm_button m = b"
    "\<forall>x \<in> set l. wm_kind x \<noteq> Mouse_Cancel \<and> \<not> (wm_kind x = Mouse_Release \<and> wm_button x = b)"
    unfolding unreleased_def by blast
  show ?r
  proof (cases l rule: rev_cases)
    case (snoc l' z)
    with s(1) have "ms = e @ m # l'" "z = y" by auto
    moreover from this snoc s(2-4) have "unreleased b ms" unfolding unreleased_def by (intro exI [of _ e] exI [of _ m] exI [of _ l']) simp
    ultimately show ?thesis using s(4) snoc by simp
  qed (use s in auto)
next
  assume ?r
  then show "unreleased b (ms @ [y])"
  proof
    assume y: "unreleased b ms \<and> wm_kind y \<noteq> Mouse_Cancel \<and> \<not> (wm_kind y = Mouse_Release \<and> wm_button y = b)"
    then obtain e m l where "ms = e @ m # l" "wm_kind m = Mouse_Press" "wm_button m = b"
      "\<forall>x \<in> set l. wm_kind x \<noteq> Mouse_Cancel \<and> \<not> (wm_kind x = Mouse_Release \<and> wm_button x = b)"
      unfolding unreleased_def by blast
    with y show ?thesis
      unfolding unreleased_def by (intro exI [of _ e] exI [of _ m] exI [of _ "l @ [y]"]) auto
  next
    assume "wm_kind y = Mouse_Press \<and> wm_button y = b"
    then show ?thesis unfolding unreleased_def by (intro exI [of _ ms] exI [of _ y] exI [of _ "[]"]) simp
  qed
qed

lemma held_after_unreleased: "foldl (held_after b) False ms \<longleftrightarrow> unreleased b ms"
proof (induction ms rule: rev_induct)
  case (snoc y ms)
  then have "foldl (held_after b) False (ms @ [y]) = held_after b (unreleased b ms) y" by simp
  then show ?case unfolding unreleased_snoc held_after_def by auto
qed (simp add: unreleased_def)

section \<open>Properties\<close>

text \<open>
  The growing queue is first-in first-out: whatever is pushed while the storage may still grow,
  with any doublings on the way, comes out behind what was queued, in order.
\<close>

theorem input_queue_fifo:
  assumes "iq_ok q" and "input.rooms max_size xs q" and "length (iq_items q) + length xs \<le> n"
  shows "fst (input.drained n (input.enq_list max_size xs q)) = iq_items q @ xs"
  using input.in_order [OF assms(1,2), of n] assms(3) by simp

theorem input_queue_fifo_witness:
  "fst (input.drained 2 (input.enq_list 1000 [7, 8 :: nat] empty_input_queue)) = [7, 8]"
proof -
  have e: "iq_items empty_input_queue = ([] :: nat list) \<and> iq_ok (empty_input_queue :: nat input_queue)"
    by (rule iq_holds_items [OF iq_holds_empty])
  have "iq_room 1000 (empty_input_queue :: nat input_queue)" by (simp add: iq_room_def empty_input_queue_def)
  moreover have "iq_room 1000 (iq_enq 1000 7 (empty_input_queue :: nat input_queue))"
    by (simp add: iq_room_def iq_enq_def iq_push_def empty_input_queue_def grown_storage_def)
  ultimately have "input.rooms 1000 [7, 8] (empty_input_queue :: nat input_queue)" by simp
  from input_queue_fifo [OF conjunct2 [OF e] this, of 2] e show ?thesis by simp
qed

text \<open>
  The pointer state follows the records: for a peer that was just set, every sequence of valid
  records of that peer and source is accepted without exhausting the queue, the latest record is the
  last one, and a button counts as pressed exactly when some record pressed it and none released it
  or cancelled since.
\<close>

theorem pressed_iff_unreleased:
  assumes "at_rest w" and "\<forall>m \<in> set ms. mouse_valid m \<and> wm_source m = source \<and> wm_peer_epoch m = epoch" and "b < 6"
  shows "\<exists>v. accept_all max_size source ms (set_peer epoch w) = Inr v \<and>
    wi_latest v = (if ms = [] then None else Some (last ms)) \<and>
    (pressed b v \<longleftrightarrow> unreleased b ms)"
proof -
  have "at_rest (set_peer epoch w)" "wi_peer (set_peer epoch w) = epoch" "wi_latest (set_peer epoch w) = None"
    "\<not> pressed b (set_peer epoch w)"
    using assms(1) iq_clear_holds by (auto simp: at_rest_def set_peer_def pressed_def)
  moreover from this accept_all_steps [OF assms(3), of "set_peer epoch w" ms source max_size] assms(2)
  obtain v where "accept_all max_size source ms (set_peer epoch w) = Inr v"
    "wi_latest v = (if ms = [] then None else Some (last ms))" "pressed b v = foldl (held_after b) False ms" by auto
  ultimately show ?thesis unfolding held_after_unreleased by blast
qed

definition example_mouse :: workspace_mouse where
  "example_mouse = \<lparr>wm_source = 2, wm_peer_epoch = 5, wm_document_epoch = 0, wm_kind = Mouse_Press, wm_point = None,
     wm_button = 1, wm_other_button = 0, wm_click_count = 1, wm_modifiers = 0, wm_wheel_unit = 0,
     wm_wheel = \<lparr>wp_x = 0, wp_y = 0\<rparr>, wm_brush_radius = 12\<rparr>"

theorem pressed_iff_unreleased_witness:
  "\<exists>v. accept_all 1000 2 [example_mouse] (set_peer 5 new_input) = Inr v \<and> pressed 1 v"
proof -
  have "at_rest new_input" by (simp add: at_rest_def new_input_def iq_holds_empty)
  moreover have "\<forall>m \<in> set [example_mouse]. mouse_valid m \<and> wm_source m = 2 \<and> wm_peer_epoch m = 5"
    by (simp add: example_mouse_def mouse_valid_def presentation_source_session_def point_valid_def isfinite32_def
        kMinAnnotationBrushRadius_def kMaxAnnotationBrushRadius_def)
  ultimately obtain v where v: "accept_all 1000 2 [example_mouse] (set_peer 5 new_input) = Inr v"
    "pressed 1 v \<longleftrightarrow> unreleased 1 [example_mouse]"
    using pressed_iff_unreleased [of new_input "[example_mouse]" 2 5 1 1000] by auto
  have "unreleased 1 ([] @ [example_mouse])" unfolding unreleased_snoc by (simp add: example_mouse_def)
  then have "pressed 1 v" using v(2) by simp
  with v(1) show ?thesis by blast
qed

end
