(* ===== verification/Storage_Reservation.thy ===== *)
theory Storage_Reservation
  imports Common_Math
begin

text \<open>
  The storage reservation pool of the dataset compiler
  (\<open>src/backend/data/storage_reservation.cpp\<close>, \<open>detail/storage_reservation.h\<close>). A filesystem has one
  number, the bytes promised on it and not yet allocated; a reservation has a promise and the part of it
  that is physically allocated. Reservations are numbered in the order they come into being; a
  reservation that was released or moved from has no destination. What \<open>statvfs\<close> and \<open>fstat\<close> report is
  an argument of the operations. The diagnostic observers are left out: they only read.
\<close>

section \<open>Capacity\<close>

datatype storage_error =
    Insufficient_Storage string nat nat nat
  | Cannot_Inspect
  | Not_Regular
  | Storage_Error cxx_error

fun storage_result :: "cxx_error + 'a \<Rightarrow> storage_error + 'a" where
  "storage_result (Inl e) = Inl (Storage_Error e)"
| "storage_result (Inr a) = Inr a"

definition available_bytes :: "(nat \<times> nat) option \<Rightarrow> storage_error + nat" where
  "available_bytes status =
     (case status of None \<Rightarrow> Inl Cannot_Inspect
      | Some (f_bavail, f_frsize) \<Rightarrow>
          storage_result (checked_multiply_size f_bavail f_frsize ''available storage overflow''))"

definition check_capacity :: "nat \<Rightarrow> nat \<Rightarrow> nat \<Rightarrow> string \<Rightarrow> storage_error + unit" where
  "check_capacity available reserved required description =
     (if reserved > available \<or> required > available - reserved
      then Inl (Insufficient_Storage description required reserved available) else Inr ())"

definition require_capacity :: "(nat \<times> nat) option \<Rightarrow> nat \<Rightarrow> string \<Rightarrow> storage_error + unit" where
  "require_capacity status required description =
     bindr (available_bytes status) (\<lambda>available. check_capacity available 0 required description)"

text \<open>One transaction on a filesystem: the promise of one reservation is replaced.\<close>

definition replace_promise ::
    "nat \<Rightarrow> nat \<Rightarrow> nat \<Rightarrow> bool \<Rightarrow> (nat \<times> nat) option \<Rightarrow> string \<Rightarrow> storage_error + nat" where
  "replace_promise outstanding previous required sample status description =
     (let others = sub64 outstanding previous
      in bindr
           (if sample \<or> required > previous
            then bindr (available_bytes status) (\<lambda>available.
                   if required \<noteq> 0 then check_capacity available others required description else Inr ())
            else Inr ())
           (\<lambda>_. storage_result (checked_add_size others required ''storage reservation overflow'')))"

section \<open>Reservations\<close>

record reservation =
  rs_destination :: "nat option"
  rs_promised :: nat
  rs_allocated :: nat

record ledger =
  lg_outstanding :: "nat \<Rightarrow> nat"
  lg_reservations :: "reservation list"

definition empty_ledger :: ledger where
  "empty_ledger = \<lparr>lg_outstanding = (\<lambda>_. 0), lg_reservations = []\<rparr>"

definition remaining :: "nat \<Rightarrow> nat \<Rightarrow> nat" where
  "remaining promised allocated = (if promised > allocated then promised - allocated else 0)"

definition rs_outstanding :: "reservation \<Rightarrow> nat" where
  "rs_outstanding r = remaining (rs_promised r) (rs_allocated r)"

definition set_reservation :: "nat \<Rightarrow> reservation \<Rightarrow> ledger \<Rightarrow> ledger" where
  "set_reservation i r L = L\<lparr>lg_reservations := (lg_reservations L)[i := r]\<rparr>"

definition set_outstanding :: "nat \<Rightarrow> nat \<Rightarrow> ledger \<Rightarrow> ledger" where
  "set_outstanding fs n L = L\<lparr>lg_outstanding := (lg_outstanding L)(fs := n)\<rparr>"

definition reserve :: "nat \<Rightarrow> nat \<Rightarrow> string \<Rightarrow> nat \<Rightarrow> (nat \<times> nat) option \<Rightarrow> ledger \<Rightarrow> storage_error + ledger" where
  "reserve fs promised description allocated status L =
     bindr (replace_promise (lg_outstanding L fs) 0 (remaining promised allocated) True status description)
       (\<lambda>n. Inr ((set_outstanding fs n L)
          \<lparr>lg_reservations := lg_reservations L @
             [\<lparr>rs_destination = Some fs, rs_promised = promised, rs_allocated = allocated\<rparr>]\<rparr>))"

definition release :: "nat \<Rightarrow> ledger \<Rightarrow> ledger" where
  "release i L =
     (let r = lg_reservations L ! i
      in case rs_destination r of
           None \<Rightarrow> L
         | Some fs \<Rightarrow> set_reservation i (r\<lparr>rs_destination := None\<rparr>)
             (set_outstanding fs (sub64 (lg_outstanding L fs) (rs_outstanding r)) L))"

definition replace_reservation ::
    "nat \<Rightarrow> nat \<Rightarrow> nat \<Rightarrow> string \<Rightarrow> bool \<Rightarrow> (nat \<times> nat) option \<Rightarrow> ledger \<Rightarrow> storage_error + ledger" where
  "replace_reservation i promised allocated description sample status L =
     (let r = lg_reservations L ! i
      in case rs_destination r of
           None \<Rightarrow> Inl (Storage_Error (Logic_Error ''cannot resize an empty storage reservation''))
         | Some fs \<Rightarrow>
             bindr (replace_promise (lg_outstanding L fs) (rs_outstanding r) (remaining promised allocated)
                      sample status description)
               (\<lambda>n. Inr (set_reservation i (r\<lparr>rs_promised := promised, rs_allocated := allocated\<rparr>)
                  (set_outstanding fs n L))))"

definition resize :: "nat \<Rightarrow> nat \<Rightarrow> string \<Rightarrow> (nat \<times> nat) option \<Rightarrow> ledger \<Rightarrow> storage_error + ledger" where
  "resize i promised description status L =
     replace_reservation i promised (rs_allocated (lg_reservations L ! i)) description False status L"

definition grow :: "nat \<Rightarrow> nat \<Rightarrow> string \<Rightarrow> (nat \<times> nat) option \<Rightarrow> ledger \<Rightarrow> storage_error + ledger" where
  "grow i promised description status L =
     (if promised > rs_promised (lg_reservations L ! i) then resize i promised description status L else Inr L)"

definition reserve_growth :: "nat \<Rightarrow> nat \<Rightarrow> nat \<Rightarrow> string \<Rightarrow> (nat \<times> nat) option \<Rightarrow> ledger \<Rightarrow> storage_error + ledger" where
  "reserve_growth i allocated additional description status L =
     bindr (storage_result (checked_add_size allocated additional ''staged growth overflow''))
       (\<lambda>promised. replace_reservation i promised allocated description True status L)"

definition reconcile_allocated :: "nat \<Rightarrow> nat \<Rightarrow> ledger \<Rightarrow> storage_error + ledger" where
  "reconcile_allocated i allocated L =
     (let r = lg_reservations L ! i
      in case rs_destination r of
           None \<Rightarrow> Inr L
         | Some fs \<Rightarrow>
             bindr (storage_result (checked_add_size (sub64 (lg_outstanding L fs) (rs_outstanding r))
                      (remaining (rs_promised r) allocated) ''storage reservation overflow''))
               (\<lambda>n. Inr (set_reservation i (r\<lparr>rs_allocated := allocated\<rparr>) (set_outstanding fs n L))))"

definition withdraw_allocation :: "nat \<Rightarrow> ledger \<Rightarrow> storage_error + ledger" where
  "withdraw_allocation i L = reconcile_allocated i 0 L"

text \<open>The blocks of an open file: the count of \<open>fstat\<close> and whether the file is a regular one.\<close>

definition allocated_bytes :: "(int \<times> bool) option \<Rightarrow> storage_error + nat" where
  "allocated_bytes status =
     (case status of
        None \<Rightarrow> Inl Cannot_Inspect
      | Some (st_blocks, regular) \<Rightarrow>
          if \<not> regular then Inl Not_Regular
          else bindr (storage_result (checked_cast \<lparr>is_signed = False, int_width = 64\<rparr> \<lparr>is_signed = True, int_width = 64\<rparr> st_blocks ''allocation overflow''))
                 (\<lambda>blocks. storage_result (checked_multiply_size (nat blocks) 512 ''allocation overflow'')))"

definition reconcile :: "nat \<Rightarrow> (int \<times> bool) option \<Rightarrow> ledger \<Rightarrow> storage_error + ledger" where
  "reconcile i status L =
     (if rs_destination (lg_reservations L ! i) = None then Inr L
      else bindr (allocated_bytes status) (\<lambda>allocated. reconcile_allocated i allocated L))"

text \<open>Moving construction makes a new reservation, moving assignment first releases the target.\<close>

definition move_new :: "nat \<Rightarrow> ledger \<Rightarrow> ledger" where
  "move_new i L =
     (let r = lg_reservations L ! i
      in L\<lparr>lg_reservations := (lg_reservations L)[i := r\<lparr>rs_destination := None\<rparr>] @ [r]\<rparr>)"

definition move_assign :: "nat \<Rightarrow> nat \<Rightarrow> ledger \<Rightarrow> ledger" where
  "move_assign i j L =
     (if i = j then L
      else let r = lg_reservations L ! j
           in set_reservation j (r\<lparr>rs_destination := None\<rparr>) (set_reservation i r (release i L)))"

section \<open>The ledger as a transition system\<close>

text \<open>
  One step is one completed call on a reservation that exists, with 64-bit arguments and any report of
  the filesystem. A call that throws leaves the ledger as it is.
\<close>

inductive ledger_step :: "ledger \<Rightarrow> ledger \<Rightarrow> bool" where
  step_reserve: "p \<le> size_max \<Longrightarrow> a \<le> size_max \<Longrightarrow> reserve fs p d a st L = Inr L' \<Longrightarrow> ledger_step L L'"
| step_release: "i < length (lg_reservations L) \<Longrightarrow> ledger_step L (release i L)"
| step_resize: "i < length (lg_reservations L) \<Longrightarrow> p \<le> size_max \<Longrightarrow> resize i p d st L = Inr L' \<Longrightarrow> ledger_step L L'"
| step_grow: "i < length (lg_reservations L) \<Longrightarrow> p \<le> size_max \<Longrightarrow> grow i p d st L = Inr L' \<Longrightarrow> ledger_step L L'"
| step_reserve_growth: "i < length (lg_reservations L) \<Longrightarrow> a \<le> size_max \<Longrightarrow> b \<le> size_max \<Longrightarrow>
    reserve_growth i a b d st L = Inr L' \<Longrightarrow> ledger_step L L'"
| step_reconcile: "i < length (lg_reservations L) \<Longrightarrow> reconcile i fs L = Inr L' \<Longrightarrow> ledger_step L L'"
| step_withdraw: "i < length (lg_reservations L) \<Longrightarrow> withdraw_allocation i L = Inr L' \<Longrightarrow> ledger_step L L'"
| step_move_new: "i < length (lg_reservations L) \<Longrightarrow> ledger_step L (move_new i L)"
| step_move_assign: "i < length (lg_reservations L) \<Longrightarrow> j < length (lg_reservations L) \<Longrightarrow>
    ledger_step L (move_assign i j L)"

inductive ledger_reachable :: "ledger \<Rightarrow> bool" where
  ledger_initial: "ledger_reachable empty_ledger"
| ledger_next: "ledger_reachable L \<Longrightarrow> ledger_step L L' \<Longrightarrow> ledger_reachable L'"

definition charge :: "nat \<Rightarrow> reservation \<Rightarrow> nat" where
  "charge fs r = (if rs_destination r = Some fs then rs_outstanding r else 0)"

definition charges :: "nat \<Rightarrow> ledger \<Rightarrow> nat" where
  "charges fs L = sum_list (map (charge fs) (lg_reservations L))"

text \<open>The number of a filesystem is the sum of what its reservations still owe, without wrap-around;
  every reservation holds 64-bit numbers.\<close>

definition ledger_exact :: "ledger \<Rightarrow> bool" where
  "ledger_exact L \<longleftrightarrow> (\<forall>fs. lg_outstanding L fs = charges fs L \<and> charges fs L \<le> size_max)
     \<and> (\<forall>r\<in>set (lg_reservations L). rs_promised r \<le> size_max \<and> rs_allocated r \<le> size_max)"

lemma remaining_le: "p \<le> n \<Longrightarrow> remaining p a \<le> n"
  by (auto simp: remaining_def)

lemma charge_fields [simp]:
  "charge fs (r\<lparr>rs_destination := None\<rparr>) = 0"
  "rs_destination r = None \<Longrightarrow> charge fs r = 0"
  "rs_destination r = Some g \<Longrightarrow> charge g r = rs_outstanding r"
  "rs_destination r = Some g \<Longrightarrow> fs \<noteq> g \<Longrightarrow> charge fs r = 0"
  by (simp_all add: charge_def)

lemma sum_list_update_nat:
  "i < length xs \<Longrightarrow> sum_list (map f (xs[i := x])) + f (xs ! i) = sum_list (map f xs) + (f x :: nat)"
  by (induction xs arbitrary: i) (auto split: nat.splits simp: nth_Cons)

lemma charges_update:
  "i < length (lg_reservations L) \<Longrightarrow>
     charges fs (set_reservation i r L) + charge fs (lg_reservations L ! i) = charges fs L + charge fs r"
  unfolding charges_def set_reservation_def by (simp add: sum_list_update_nat)

lemma charge_le: "i < length (lg_reservations L) \<Longrightarrow> charge fs (lg_reservations L ! i) \<le> charges fs L"
  unfolding charges_def by (simp add: member_le_sum_list)

lemma ledger_fields [simp]:
  "lg_reservations (set_outstanding fs n L) = lg_reservations L"
  "lg_outstanding (set_reservation i r L) = lg_outstanding L"
  "lg_outstanding (set_outstanding fs n L) = (lg_outstanding L)(fs := n)"
  "lg_reservations (set_reservation i r L) = (lg_reservations L)[i := r]"
  "charges g (set_outstanding fs n L) = charges g L"
  by (simp_all add: set_outstanding_def set_reservation_def charges_def)

lemma ledger_exactD:
  assumes "ledger_exact L"
  shows "lg_outstanding L fs = charges fs L" "charges fs L \<le> size_max"
    "i < length (lg_reservations L) \<Longrightarrow> rs_promised (lg_reservations L ! i) \<le> size_max"
    "i < length (lg_reservations L) \<Longrightarrow> rs_allocated (lg_reservations L ! i) \<le> size_max"
  using assms by (auto simp: ledger_exact_def)

lemma outstanding_others:
  assumes "ledger_exact L" "i < length (lg_reservations L)" "rs_destination (lg_reservations L ! i) = Some fs"
  shows "sub64 (lg_outstanding L fs) (rs_outstanding (lg_reservations L ! i))
           = charges fs L - rs_outstanding (lg_reservations L ! i)"
    "rs_outstanding (lg_reservations L ! i) \<le> charges fs L"
  using charge_le [OF assms(2), of fs] ledger_exactD [OF assms(1), of fs] assms(3)
  by (simp_all add: sub64_eq)

text \<open>Every change of the ledger replaces one reservation and corrects the number of one filesystem.\<close>

lemma ledger_exact_replace:
  assumes L: "ledger_exact L" and i: "i < length (lg_reservations L)"
    and fs: "rs_destination (lg_reservations L ! i) = Some fs"
    and r: "rs_destination r = Some fs" "rs_promised r \<le> size_max" "rs_allocated r \<le> size_max"
    and n: "checked_add_size (sub64 (lg_outstanding L fs) (rs_outstanding (lg_reservations L ! i)))
              (rs_outstanding r) ctx = Inr n"
  shows "ledger_exact (set_reservation i r (set_outstanding fs n L))"
proof -
  let ?L = "set_outstanding fs n L"
  note others = outstanding_others [OF L i fs]
  have "rs_outstanding r \<le> size_max" using r(2) by (simp add: rs_outstanding_def remaining_le)
  moreover have "charges fs L - rs_outstanding (lg_reservations L ! i) \<le> size_max"
    using ledger_exactD(2) [OF L, of fs] by simp
  ultimately have n': "n = charges fs L - rs_outstanding (lg_reservations L ! i) + rs_outstanding r" "n \<le> size_max"
    using n unfolding others by (auto simp: checked_add_size_eq split: if_splits)
  have "charges g (set_reservation i r ?L) = (if g = fs then n else charges g L)" for g
    using charges_update [of i ?L g r] i fs r(1) n'(1) others(2) by (cases "g = fs") auto
  with L r n'(2) show ?thesis
    unfolding ledger_exact_def by (auto dest!: set_update_subset_insert [THEN subsetD])
qed

lemma ledger_exact_release:
  assumes L: "ledger_exact L" and i: "i < length (lg_reservations L)"
  shows "ledger_exact (release i L)"
proof (cases "rs_destination (lg_reservations L ! i)")
  case None
  with L show ?thesis by (simp add: release_def)
next
  case (Some fs)
  let ?r = "lg_reservations L ! i"
  let ?n = "charges fs L - rs_outstanding ?r"
  note others = outstanding_others [OF L i Some]
  have "charges g (set_reservation i (?r\<lparr>rs_destination := None\<rparr>) (set_outstanding fs ?n L))
      = (if g = fs then ?n else charges g L)" for g
    using charges_update [of i "set_outstanding fs ?n L" g "?r\<lparr>rs_destination := None\<rparr>"] i Some others(2)
    by (cases "g = fs") auto
  moreover have "?n \<le> size_max" using ledger_exactD(2) [OF L, of fs] by simp
  moreover have "release i L = set_reservation i (?r\<lparr>rs_destination := None\<rparr>) (set_outstanding fs ?n L)"
    by (simp add: release_def Some others(1) Let_def)
  ultimately show ?thesis using L i
    unfolding ledger_exact_def by (auto dest!: set_update_subset_insert [THEN subsetD])
qed

lemma charge_copy: "charge fs (r\<lparr>rs_promised := p, rs_allocated := a\<rparr>)
    = (if rs_destination r = Some fs then remaining p a else 0)"
  by (simp add: charge_def rs_outstanding_def)

lemma replace_promise_Inr:
  "replace_promise outstanding previous required sample st d = Inr n \<Longrightarrow>
     checked_add_size (sub64 outstanding previous) required ''storage reservation overflow'' = Inr n"
  by (auto simp: replace_promise_def Let_def bindr_Inr_iff elim: storage_result.elims)

lemma ledger_exact_replace_reservation:
  assumes L: "ledger_exact L" and i: "i < length (lg_reservations L)" and p: "p \<le> size_max" "a \<le> size_max"
    and "replace_reservation i p a d sample st L = Inr L'"
  shows "ledger_exact L'"
proof -
  let ?r = "lg_reservations L ! i"
  from assms(5) obtain fs n where fs: "rs_destination ?r = Some fs"
    and n: "replace_promise (lg_outstanding L fs) (rs_outstanding ?r) (remaining p a) sample st d = Inr n"
    and L': "L' = set_reservation i (?r\<lparr>rs_promised := p, rs_allocated := a\<rparr>) (set_outstanding fs n L)"
    by (auto simp: replace_reservation_def Let_def bindr_Inr_iff split: option.splits)
  show ?thesis unfolding L'
    using replace_promise_Inr [OF n] p fs
    by (intro ledger_exact_replace [OF L i fs]) (simp_all add: rs_outstanding_def)
qed

lemma ledger_exact_reconcile_allocated:
  assumes L: "ledger_exact L" and i: "i < length (lg_reservations L)" and a: "a \<le> size_max"
    and step: "reconcile_allocated i a L = Inr L'"
  shows "ledger_exact L'"
proof (cases "rs_destination (lg_reservations L ! i)")
  case None
  with L step show ?thesis by (simp add: reconcile_allocated_def)
next
  case (Some fs)
  let ?r = "lg_reservations L ! i"
  from step Some obtain n where
    n: "checked_add_size (sub64 (lg_outstanding L fs) (rs_outstanding ?r)) (remaining (rs_promised ?r) a)
          ''storage reservation overflow'' = Inr n"
    and L': "L' = set_reservation i (?r\<lparr>rs_allocated := a\<rparr>) (set_outstanding fs n L)"
    by (auto simp: reconcile_allocated_def Let_def bindr_Inr_iff elim: storage_result.elims)
  show ?thesis unfolding L'
    using n a Some ledger_exactD(3) [OF L i]
    by (intro ledger_exact_replace [OF L i Some]) (simp_all add: rs_outstanding_def)
qed

lemma allocated_bytes_le: "allocated_bytes st = Inr a \<Longrightarrow> a \<le> size_max"
  by (auto simp: allocated_bytes_def bindr_Inr_iff checked_multiply_size_eq
      elim!: storage_result.elims split: option.splits prod.splits if_splits)

lemma ledger_exact_reserve:
  assumes L: "ledger_exact L" and p: "p \<le> size_max" "a \<le> size_max" and "reserve fs p d a st L = Inr L'"
  shows "ledger_exact L'"
proof -
  from assms(4) obtain n where
    n: "replace_promise (lg_outstanding L fs) 0 (remaining p a) True st d = Inr n"
    and L': "L' = (set_outstanding fs n L)\<lparr>lg_reservations := lg_reservations L @
        [\<lparr>rs_destination = Some fs, rs_promised = p, rs_allocated = a\<rparr>]\<rparr>"
    by (auto simp: reserve_def bindr_Inr_iff)
  have "sub64 (lg_outstanding L fs) 0 = charges fs L" "charges fs L \<le> size_max"
    using ledger_exactD(1,2) [OF L, of fs] by (simp_all add: sub64_eq)
  with replace_promise_Inr [OF n] p have "n = charges fs L + remaining p a" "n \<le> size_max"
    by (auto simp: checked_add_size_eq remaining_le split: if_splits)
  moreover have "charges g L' = charges g L + (if g = fs then remaining p a else 0)" for g
    unfolding L' by (simp add: charges_def charge_def rs_outstanding_def)
  moreover have "lg_outstanding L' = (lg_outstanding L)(fs := n)" unfolding L' by (simp add: set_outstanding_def)
  moreover have "set (lg_reservations L') = insert \<lparr>rs_destination = Some fs, rs_promised = p, rs_allocated = a\<rparr>
      (set (lg_reservations L))" unfolding L' by simp
  ultimately show ?thesis using L p unfolding ledger_exact_def by simp
qed

lemma ledger_exact_move_new:
  assumes "ledger_exact L" and "i < length (lg_reservations L)"
  shows "ledger_exact (move_new i L)"
proof -
  let ?r = "lg_reservations L ! i"
  have "charges g (move_new i L) = charges g L" for g
    using sum_list_update_nat [OF assms(2), of "charge g" "?r\<lparr>rs_destination := None\<rparr>"]
    by (simp add: charges_def move_new_def Let_def)
  moreover have "lg_outstanding (move_new i L) = lg_outstanding L" by (simp add: move_new_def Let_def)
  moreover have "set (lg_reservations (move_new i L)) \<subseteq>
      insert (?r\<lparr>rs_destination := None\<rparr>) (set (lg_reservations L))"
    using assms(2) by (auto simp: move_new_def Let_def dest!: set_update_subset_insert [THEN subsetD])
  ultimately show ?thesis using assms unfolding ledger_exact_def by auto
qed

lemma release_reservations:
  "lg_reservations (release i L) = (lg_reservations L)[i := (lg_reservations L ! i)\<lparr>rs_destination := None\<rparr>]"
proof (cases "rs_destination (lg_reservations L ! i)")
  case None
  then have "(lg_reservations L ! i)\<lparr>rs_destination := None\<rparr> = lg_reservations L ! i"
    by (intro reservation.equality) simp_all
  then have "(lg_reservations L)[i := (lg_reservations L ! i)\<lparr>rs_destination := None\<rparr>] = lg_reservations L"
    by (simp only: list_update_id)
  with None show ?thesis by (simp add: release_def)
next
  case (Some fs)
  then show ?thesis by (simp add: release_def Let_def)
qed

lemma ledger_exact_move_assign:
  assumes L: "ledger_exact L" and i: "i < length (lg_reservations L)" "j < length (lg_reservations L)"
  shows "ledger_exact (move_assign i j L)"
proof (cases "i = j")
  case True
  with L show ?thesis by (simp add: move_assign_def)
next
  case False
  let ?r = "lg_reservations L ! j" and ?R = "release i L"
  let ?A = "set_reservation i ?r ?R"
  have R: "ledger_exact ?R" by (rule ledger_exact_release [OF L i(1)])
  have at: "lg_reservations ?R ! i = (lg_reservations L ! i)\<lparr>rs_destination := None\<rparr>"
    "lg_reservations ?A ! j = ?r" "length (lg_reservations ?R) = length (lg_reservations L)"
    using i False by (simp_all add: release_reservations)
  have "charges g (set_reservation j (?r\<lparr>rs_destination := None\<rparr>) ?A) = charges g ?R" for g
    using charges_update [of j ?A g "?r\<lparr>rs_destination := None\<rparr>"] charges_update [of i ?R g ?r] at i
    by simp
  moreover have "move_assign i j L = set_reservation j (?r\<lparr>rs_destination := None\<rparr>) ?A"
    using False by (simp add: move_assign_def Let_def)
  moreover have "rs_promised ?r \<le> size_max" "rs_allocated ?r \<le> size_max"
    using ledger_exactD(3,4) [OF L i(2)] by simp_all
  ultimately show ?thesis using R
    unfolding ledger_exact_def by (auto dest!: set_update_subset_insert [THEN subsetD])
qed

lemma ledger_exact_reserve_growth:
  assumes "ledger_exact L" "i < length (lg_reservations L)" "a \<le> size_max" "b \<le> size_max"
    and "reserve_growth i a b d st L = Inr L'"
  shows "ledger_exact L'"
proof -
  from assms(3-5) have "a + b \<le> size_max" "replace_reservation i (a + b) a d True st L = Inr L'"
    by (auto simp: reserve_growth_def bindr_Inr_iff checked_add_size_eq
        elim!: storage_result.elims split: if_splits)
  then show ?thesis by (rule ledger_exact_replace_reservation [OF assms(1,2) _ assms(3)])
qed

lemma ledger_step_exact: "ledger_step L L' \<Longrightarrow> ledger_exact L \<Longrightarrow> ledger_exact L'"
  by (induction rule: ledger_step.induct)
    (auto simp: resize_def grow_def reconcile_def withdraw_allocation_def bindr_Inr_iff
      dest: ledger_exactD(4) allocated_bytes_le split: if_splits
      intro: ledger_exact_reserve ledger_exact_release ledger_exact_replace_reservation ledger_exact_reserve_growth
        ledger_exact_reconcile_allocated ledger_exact_move_new ledger_exact_move_assign)

lemma ledger_reachable_exact: "ledger_reachable L \<Longrightarrow> ledger_exact L"
proof (induction rule: ledger_reachable.induct)
  case ledger_initial
  then show ?case by (simp add: ledger_exact_def charges_def empty_ledger_def)
next
  case (ledger_next L L')
  then show ?case by (blast intro: ledger_step_exact)
qed

section \<open>Properties\<close>

text \<open>
  However reservations are taken, grown, resized, reconciled with the physical allocation, moved and
  released, the bytes counted as outstanding on a filesystem are exactly what its live reservations
  still owe, so the unsigned subtractions of the ledger never wrap around.
\<close>

theorem ledger_accounts_exactly:
  assumes "ledger_reachable L"
  shows "lg_outstanding L fs = sum_list (map rs_outstanding
      (filter (\<lambda>r. rs_destination r = Some fs) (lg_reservations L))) \<and> lg_outstanding L fs \<le> size_max"
proof -
  have "sum_list (map (charge fs) rs) = sum_list (map rs_outstanding (filter (\<lambda>r. rs_destination r = Some fs) rs))" for rs
    by (induction rs) (simp_all add: charge_def)
  with ledger_exactD(1,2) [OF ledger_reachable_exact [OF assms], of fs] show ?thesis
    by (simp add: charges_def)
qed

text \<open>Two promises, the first half allocated and then released.\<close>

definition example_ledger :: ledger where
  "example_ledger = \<lparr>lg_outstanding = (\<lambda>_. 0)(7 := 30), lg_reservations =
     [\<lparr>rs_destination = None, rs_promised = 100, rs_allocated = 60\<rparr>,
      \<lparr>rs_destination = Some 7, rs_promised = 30, rs_allocated = 0\<rparr>]\<rparr>"

lemma example_ledger_reachable: "ledger_reachable example_ledger"
proof -
  let ?A = "\<lparr>lg_outstanding = (\<lambda>_. 0)(7 := 100), lg_reservations =
     [\<lparr>rs_destination = Some 7, rs_promised = 100, rs_allocated = 0\<rparr>]\<rparr>"
  let ?B = "\<lparr>lg_outstanding = (\<lambda>_. 0)(7 := 40), lg_reservations =
     [\<lparr>rs_destination = Some 7, rs_promised = 100, rs_allocated = 60\<rparr>]\<rparr>"
  let ?C = "\<lparr>lg_outstanding = (\<lambda>_. 0)(7 := 70), lg_reservations =
     [\<lparr>rs_destination = Some 7, rs_promised = 100, rs_allocated = 60\<rparr>,
      \<lparr>rs_destination = Some 7, rs_promised = 30, rs_allocated = 0\<rparr>]\<rparr>"
  note defs = reserve_def replace_promise_def available_bytes_def checked_multiply_size_def check_capacity_def
    checked_add_size_def sub64_def remaining_def rs_outstanding_def set_outstanding_def set_reservation_def
    empty_ledger_def Let_def
  have "reserve 7 100 [] 0 (Some (1000, 1)) empty_ledger = Inr ?A" by (simp add: defs)
  then have A: "ledger_reachable ?A" by (intro ledger_next [OF ledger_initial]) (rule step_reserve, simp_all)
  have "reserve_growth 0 60 40 [] (Some (1000, 1)) ?A = Inr ?B"
    by (simp add: reserve_growth_def replace_reservation_def defs)
  then have B: "ledger_reachable ?B"
    by (intro ledger_next [OF A]) (rule step_reserve_growth [where i = 0 and a = 60 and b = 40], simp_all)
  have "reserve 7 30 [] 0 (Some (1000, 1)) ?B = Inr ?C" by (simp add: defs)
  then have C: "ledger_reachable ?C" by (intro ledger_next [OF B]) (rule step_reserve, simp_all)
  have "release 0 ?C = example_ledger" by (simp add: release_def example_ledger_def defs fun_eq_iff)
  then show ?thesis using ledger_next [OF C step_release [of 0]] by simp
qed

theorem ledger_accounts_exactly_witness: "lg_outstanding example_ledger 7 = 30"
  using ledger_accounts_exactly [OF example_ledger_reachable, of 7] by (simp add: example_ledger_def)

text \<open>
  A reservation is granted exactly when the bytes already promised on the filesystem and the new
  requirement together fit what the filesystem reports as available; otherwise the call throws
  the insufficient storage error with these three numbers.
\<close>

theorem reserve_grants_iff_fits:
  assumes "ledger_reachable L" and "p \<le> size_max" and "a < p" and "bavail * frsize \<le> size_max"
  shows "reserve fs p d a (Some (bavail, frsize)) L =
    (if lg_outstanding L fs + (p - a) \<le> bavail * frsize
     then Inr \<lparr>lg_outstanding = (lg_outstanding L)(fs := lg_outstanding L fs + (p - a)),
               lg_reservations = lg_reservations L @
                 [\<lparr>rs_destination = Some fs, rs_promised = p, rs_allocated = a\<rparr>]\<rparr>
     else Inl (Insufficient_Storage d (p - a) (lg_outstanding L fs) (bavail * frsize)))"
proof -
  have "lg_outstanding L fs \<le> size_max"
    using ledger_exactD(1,2) [OF ledger_reachable_exact [OF assms(1)], of fs] by simp
  moreover from this have "sub64 (lg_outstanding L fs) 0 = lg_outstanding L fs" by (simp add: sub64_eq)
  ultimately show ?thesis using assms(2-4)
    by (auto simp: reserve_def replace_promise_def available_bytes_def checked_multiply_size_eq Let_def
        check_capacity_def checked_add_size_eq remaining_def set_outstanding_def)
qed

theorem reserve_grants_iff_fits_witness:
  "reserve 7 80 ''images'' 10 (Some (99, 1)) example_ledger = Inl (Insufficient_Storage ''images'' 70 30 99)"
  using reserve_grants_iff_fits [OF example_ledger_reachable, of 80 10 99 1 7 "''images''"]
  by (simp add: example_ledger_def)

end
