(* ===== verification/Keypoint_Schema.thy ===== *)
theory Keypoint_Schema
  imports Ascii_Text Cbor_Float "HOL-Library.List_Lexorder"
begin

text \<open>
  The keypoint schemas of the class catalog (\<open>src/backend/data/catalog/keypoint_schema.cpp\<close>): admission of
  a schema and of the joints of an instance, the renumbering of a schema's joints, and the correspondence
  of the joints of two schemas by name. A joint index is a 16-bit unsigned number, kept as a \<^typ>\<open>nat\<close>;
  a sigma is the bit pattern of a double, a coordinate that of a float. Names are compared as strings of
  unsigned bytes.
\<close>

section \<open>Schemas\<close>

definition kKeypointsPerClassCapacity :: nat where "kKeypointsPerClassCapacity = 256"
definition kSkeletonEdgeCapacity :: nat where "kSkeletonEdgeCapacity = 512"
definition kKeypointNameCapacity :: nat where "kKeypointNameCapacity = 256"

datatype skeleton_edge = Edge (edge_first: nat) (edge_second: nat)

text \<open>The defaulted comparison of an edge orders by the first joint, then by the second.\<close>

instantiation skeleton_edge :: linorder
begin

fun less_eq_skeleton_edge :: "skeleton_edge \<Rightarrow> skeleton_edge \<Rightarrow> bool" where
  "less_eq_skeleton_edge (Edge a b) (Edge c d) \<longleftrightarrow> a < c \<or> a = c \<and> b \<le> d"

definition less_skeleton_edge :: "skeleton_edge \<Rightarrow> skeleton_edge \<Rightarrow> bool" where
  "less_skeleton_edge x y \<longleftrightarrow> x \<le> y \<and> \<not> y \<le> (x :: skeleton_edge)"

instance
proof
  fix x y z :: skeleton_edge
  show "x < y \<longleftrightarrow> x \<le> y \<and> \<not> y \<le> x" by (rule less_skeleton_edge_def)
  show "x \<le> x" by (cases x) simp
  show "x \<le> y \<Longrightarrow> y \<le> z \<Longrightarrow> x \<le> z" by (cases x; cases y; cases z) auto
  show "x \<le> y \<Longrightarrow> y \<le> x \<Longrightarrow> x = y" by (cases x; cases y) auto
  show "x \<le> y \<or> y \<le> x" by (cases x; cases y) auto
qed

end

record class_keypoint_schema =
  ks_names :: "byte list list"
  ks_skeleton :: "skeleton_edge list"
  ks_flip :: "nat list"
  ks_sigmas :: "u64 list"

record keypoint_annotation =
  ka_x :: u32
  ka_y :: u32
  ka_visibility :: byte

definition ordered_edge :: "skeleton_edge \<Rightarrow> skeleton_edge" where
  "ordered_edge e = (if edge_second e < edge_first e then Edge (edge_second e) (edge_first e) else e)"

definition checked_joint_index :: "nat \<Rightarrow> nat \<Rightarrow> cxx_error + nat" where
  "checked_joint_index index count =
     (if count > kKeypointsPerClassCapacity \<or> index \<ge> count
      then Inl (Invalid_Argument ''keypoint index exceeds admitted joint count'')
      else Inr (index mod 65536))"

text \<open>A keypoint annotation takes twelve bytes.\<close>

definition checked_keypoint_payload_count :: "nat \<Rightarrow> nat \<Rightarrow> cxx_error + nat" where
  "checked_keypoint_payload_count instances joints_per_instance =
     (let limit = u32_max div 12
      in if joints_per_instance > kKeypointsPerClassCapacity
            \<or> joints_per_instance \<noteq> 0 \<and> instances > limit div joints_per_instance
         then Inl (Invalid_Argument ''keypoint payload exceeds checked byte capacity'')
         else Inr (wrap32 (wrap64 (instances * joints_per_instance))))"

section \<open>Admission\<close>

definition double_le_zero :: "u64 \<Rightarrow> bool" where
  "double_le_zero d \<longleftrightarrow> \<not> isnan64 d \<and> (unat d \<ge> 2 ^ 63 \<or> unat d mod 2 ^ 63 = 0)"

text \<open>The loop over the joints, with the names seen so far.\<close>

fun validate_joints :: "class_keypoint_schema \<Rightarrow> byte list set \<Rightarrow> nat list \<Rightarrow> cxx_error + unit" where
  "validate_joints schema names [] = Inr ()"
| "validate_joints schema names (index # rest) =
     (let count = length (ks_names schema);
          name = ks_names schema ! index;
          flip = ks_flip schema ! index;
          sigma = ks_sigmas schema ! index
      in if name = [] \<or> length name > kKeypointNameCapacity \<or> 0 \<in> set name \<or> name \<in> names
         then Inl (Invalid_Argument ''keypoint names must be unique, nonempty, bounded and NUL-free'')
         else if flip \<ge> count \<or> ks_flip schema ! flip \<noteq> index
         then Inl (Invalid_Argument ''keypoint horizontal flip must be an involutive permutation'')
         else if \<not> isfinite64 sigma \<or> double_le_zero sigma
         then Inl (Invalid_Argument ''keypoint OKS sigmas must be finite and positive'')
         else validate_joints schema (insert name names) rest)"

fun validate_edges :: "nat \<Rightarrow> skeleton_edge set \<Rightarrow> skeleton_edge list \<Rightarrow> cxx_error + unit" where
  "validate_edges count edges [] = Inr ()"
| "validate_edges count edges (edge # rest) =
     (if edge_first edge \<ge> count \<or> edge_second edge \<ge> count \<or> edge_first edge = edge_second edge
         \<or> ordered_edge edge \<in> edges
      then Inl (Invalid_Argument ''keypoint skeleton contains an invalid or duplicate edge'')
      else validate_edges count (insert (ordered_edge edge) edges) rest)"

definition validate_keypoint_schema :: "class_keypoint_schema \<Rightarrow> cxx_error + unit" where
  "validate_keypoint_schema schema =
     (let count = length (ks_names schema)
      in if count > kKeypointsPerClassCapacity \<or> length (ks_flip schema) \<noteq> count
            \<or> length (ks_sigmas schema) \<noteq> count \<or> length (ks_skeleton schema) > kSkeletonEdgeCapacity
         then Inl (Invalid_Argument ''keypoint schema counts exceed capacity or disagree'')
         else bindr (validate_joints schema {} [0 ..< count])
                (\<lambda>_. validate_edges count {} (ks_skeleton schema)))"

definition visibility_contains :: "byte \<Rightarrow> bool" where
  "visibility_contains v \<longleftrightarrow> v \<in> {0, 1, 2}"

definition validate_keypoint_annotations :: "keypoint_annotation list \<Rightarrow> nat \<Rightarrow> cxx_error + unit" where
  "validate_keypoint_annotations joints expected_count =
     (if expected_count > kKeypointsPerClassCapacity \<or> length joints \<noteq> expected_count
      then Inl (Invalid_Argument ''instance joint count disagrees with admitted schema'')
      else if list_ex (\<lambda>joint. \<not> isfinite32 (ka_x joint) \<or> \<not> isfinite32 (ka_y joint)
                           \<or> \<not> visibility_contains (ka_visibility joint)) joints
      then Inl (Invalid_Argument ''instance has nonfinite joint coordinates or invalid visibility'')
      else Inr ())"

section \<open>Renumbering\<close>

text \<open>The loop that stores one value per joint at the joint's new index.\<close>

definition scatter :: "nat list \<Rightarrow> 'a \<Rightarrow> (nat \<Rightarrow> 'a) \<Rightarrow> nat \<Rightarrow> 'a list" where
  "scatter permutation fill value count =
     foldl (\<lambda>result index. result[permutation ! index := value index]) (replicate count fill) [0 ..< count]"

fun check_bijective :: "nat \<Rightarrow> nat set \<Rightarrow> nat list \<Rightarrow> cxx_error + unit" where
  "check_bijective count seen [] = Inr ()"
| "check_bijective count seen (target # rest) =
     (if target \<ge> count \<or> target \<in> seen
      then Inl (Invalid_Argument ''keypoint permutation is not bijective'')
      else check_bijective count (insert target seen) rest)"

definition permute_keypoint_schema :: "class_keypoint_schema \<Rightarrow> nat list \<Rightarrow> cxx_error + class_keypoint_schema" where
  "permute_keypoint_schema source permutation =
     bindr (validate_keypoint_schema source) (\<lambda>_.
       let count = length (ks_names source)
       in if length permutation \<noteq> count
          then Inl (Invalid_Argument ''keypoint permutation count disagrees with schema'')
          else bindr (check_bijective count {} permutation) (\<lambda>_. Inr
            \<lparr>ks_names = scatter permutation [] (\<lambda>index. ks_names source ! index) count,
             ks_skeleton = sort (map (\<lambda>edge. ordered_edge
               (Edge (permutation ! edge_first edge) (permutation ! edge_second edge))) (ks_skeleton source)),
             ks_flip = scatter permutation 0 (\<lambda>index. permutation ! (ks_flip source ! index)) count,
             ks_sigmas = scatter permutation 0 (\<lambda>index. ks_sigmas source ! index) count\<rparr>))"

section \<open>Correspondence by name\<close>

type_synonym joint_map = "byte list \<Rightarrow> nat option"

text \<open>\<open>emplace\<close> keeps the entry that is there.\<close>

fun lookup_names :: "byte list list \<Rightarrow> joint_map \<Rightarrow> nat list \<Rightarrow> cxx_error + joint_map" where
  "lookup_names names lookup [] = Inr lookup"
| "lookup_names names lookup (index # rest) =
     bindr (checked_joint_index index (length names)) (\<lambda>joint.
       lookup_names names
         (if lookup (names ! index) = None then lookup(names ! index := Some joint) else lookup) rest)"

definition joint_lookup :: "class_keypoint_schema \<Rightarrow> cxx_error + joint_map" where
  "joint_lookup schema = lookup_names (ks_names schema) (\<lambda>_. None) [0 ..< length (ks_names schema)]"

definition edge_names :: "byte list list \<Rightarrow> skeleton_edge \<Rightarrow> byte list \<times> byte list" where
  "edge_names names edge =
     (let first = names ! edge_first edge; second = names ! edge_second edge
      in if second < first then (second, first) else (first, second))"

definition shared_edges :: "class_keypoint_schema \<Rightarrow> joint_map \<Rightarrow> (byte list \<times> byte list) set" where
  "shared_edges schema other =
     edge_names (ks_names schema) ` set (filter (\<lambda>edge. other (ks_names schema ! edge_first edge) \<noteq> None
       \<and> other (ks_names schema ! edge_second edge) \<noteq> None) (ks_skeleton schema))"

fun match_joints ::
    "class_keypoint_schema \<Rightarrow> class_keypoint_schema \<Rightarrow> bool \<Rightarrow> joint_map \<Rightarrow> nat list \<Rightarrow> cxx_error + (nat \<times> nat) list" where
  "match_joints source destination exact lookup [] = Inr []"
| "match_joints source destination exact lookup (target # rest) =
     (case lookup (ks_names destination ! target) of
        None \<Rightarrow>
          if exact then Inl (Invalid_Argument ''keypoint schemas have different joint sets'')
          else match_joints source destination exact lookup rest
      | Some from \<Rightarrow>
          if \<not> double_eq (ks_sigmas source ! from) (ks_sigmas destination ! target)
             \<or> ks_names source ! (ks_flip source ! from) \<noteq> ks_names destination ! (ks_flip destination ! target)
          then Inl (Invalid_Argument (''keypoint schemas disagree on joint meaning: '' @ text_of (ks_names destination ! target)))
          else bindr (checked_joint_index target (length (ks_names destination))) (\<lambda>to.
                 bindr (match_joints source destination exact lookup rest) (\<lambda>pairs. Inr ((from, to) # pairs))))"

definition joint_correspondence ::
    "class_keypoint_schema \<Rightarrow> class_keypoint_schema \<Rightarrow> bool \<Rightarrow> cxx_error + (nat \<times> nat) list" where
  "joint_correspondence source destination exact =
     bindr (validate_keypoint_schema source) (\<lambda>_.
     bindr (validate_keypoint_schema destination) (\<lambda>_.
       if exact \<and> length (ks_names source) \<noteq> length (ks_names destination)
       then Inl (Invalid_Argument ''keypoint schemas have different joint sets'')
       else bindr (joint_lookup source) (\<lambda>source_lookup.
            bindr (joint_lookup destination) (\<lambda>destination_lookup.
            bindr (match_joints source destination exact source_lookup [0 ..< length (ks_names destination)]) (\<lambda>result.
              if shared_edges source destination_lookup \<noteq> shared_edges destination source_lookup
              then Inl (Invalid_Argument ''keypoint schemas disagree on skeleton meaning for shared joints'')
              else Inr result)))))"

definition keypoint_permutation :: "class_keypoint_schema \<Rightarrow> class_keypoint_schema \<Rightarrow> cxx_error + nat list" where
  "keypoint_permutation source destination =
     bindr (joint_correspondence source destination True) (\<lambda>pairs.
       Inr (foldl (\<lambda>permutation (from, to). permutation[from := to])
              (replicate (length (ks_names source)) 0) pairs))"

definition shared_keypoint_correspondence ::
    "class_keypoint_schema \<Rightarrow> class_keypoint_schema \<Rightarrow> cxx_error + (nat \<times> nat) list" where
  "shared_keypoint_correspondence source destination = joint_correspondence source destination False"

definition coco_person_keypoint_schema :: class_keypoint_schema where
  "coco_person_keypoint_schema =
    \<lparr>ks_names = map ascii
       [''nose'', ''left_eye'', ''right_eye'', ''left_ear'', ''right_ear'', ''left_shoulder'',
        ''right_shoulder'', ''left_elbow'', ''right_elbow'', ''left_wrist'', ''right_wrist'', ''left_hip'',
        ''right_hip'', ''left_knee'', ''right_knee'', ''left_ankle'', ''right_ankle''],
     ks_skeleton =
       [Edge 15 13, Edge 13 11, Edge 16 14, Edge 14 12, Edge 11 12, Edge 5 11, Edge 6 12, Edge 5 6, Edge 5
        7, Edge 6 8, Edge 7 9, Edge 8 10, Edge 1 2, Edge 0 1, Edge 0 2, Edge 1 3, Edge 2 4, Edge 3 5, Edge 4
        6],
     ks_flip = [0, 2, 1, 4, 3, 6, 5, 8, 7, 10, 9, 12, 11, 14, 13, 16, 15],
     ks_sigmas =
       [0x3f9a9fbe76c8b439, 0x3f9999999999999a, 0x3f9999999999999a, 0x3fa1eb851eb851ec, 0x3fa1eb851eb851ec,
        0x3fb4395810624dd3, 0x3fb4395810624dd3, 0x3fb26e978d4fdf3b, 0x3fb26e978d4fdf3b, 0x3fafbe76c8b43958,
        0x3fafbe76c8b43958, 0x3fbb645a1cac0831, 0x3fbb645a1cac0831, 0x3fb645a1cac08312, 0x3fb645a1cac08312,
        0x3fb6c8b439581062, 0x3fb6c8b439581062]\<rparr>"

section \<open>What admission establishes\<close>

definition joint_ok :: "class_keypoint_schema \<Rightarrow> nat \<Rightarrow> bool" where
  "joint_ok s i \<longleftrightarrow> ks_names s ! i \<noteq> [] \<and> length (ks_names s ! i) \<le> 256 \<and> 0 \<notin> set (ks_names s ! i)
     \<and> ks_flip s ! i < length (ks_names s) \<and> ks_flip s ! (ks_flip s ! i) = i
     \<and> isfinite64 (ks_sigmas s ! i) \<and> \<not> double_le_zero (ks_sigmas s ! i)"

definition edge_ok :: "nat \<Rightarrow> skeleton_edge \<Rightarrow> bool" where
  "edge_ok count e \<longleftrightarrow> edge_first e < count \<and> edge_second e < count \<and> edge_first e \<noteq> edge_second e"

definition schema_valid :: "class_keypoint_schema \<Rightarrow> bool" where
  "schema_valid s \<longleftrightarrow> length (ks_names s) \<le> 256 \<and> length (ks_flip s) = length (ks_names s)
     \<and> length (ks_sigmas s) = length (ks_names s) \<and> length (ks_skeleton s) \<le> 512
     \<and> (\<forall>i < length (ks_names s). joint_ok s i) \<and> distinct (ks_names s)
     \<and> (\<forall>e \<in> set (ks_skeleton s). edge_ok (length (ks_names s)) e) \<and> distinct (map ordered_edge (ks_skeleton s))"

lemma validate_joints_iff:
  "validate_joints s names is = Inr () \<longleftrightarrow>
     (\<forall>i \<in> set is. joint_ok s i \<and> ks_names s ! i \<notin> names) \<and> distinct (map ((!) (ks_names s)) is)"
  by (induction "is" arbitrary: names)
    (auto simp: Let_def joint_ok_def kKeypointNameCapacity_def, metis imageI)

lemma validate_edges_iff:
  "validate_edges count edges es = Inr () \<longleftrightarrow>
     (\<forall>e \<in> set es. edge_ok count e \<and> ordered_edge e \<notin> edges) \<and> distinct (map ordered_edge es)"
  by (induction es arbitrary: edges) (auto simp: edge_ok_def, metis imageI)

lemma validate_keypoint_schema_iff: "validate_keypoint_schema s = Inr () \<longleftrightarrow> schema_valid s"
  by (auto simp: validate_keypoint_schema_def schema_valid_def Let_def kKeypointsPerClassCapacity_def
      kSkeletonEdgeCapacity_def bindr_Inr_iff validate_joints_iff validate_edges_iff map_nth)

lemma schema_validD:
  assumes "schema_valid s"
  shows "length (ks_names s) \<le> 256" "length (ks_flip s) = length (ks_names s)"
    "length (ks_sigmas s) = length (ks_names s)" "distinct (ks_names s)"
    "i < length (ks_names s) \<Longrightarrow> joint_ok s i"
    "e \<in> set (ks_skeleton s) \<Longrightarrow> edge_first e < length (ks_names s) \<and> edge_second e < length (ks_names s)"
  using assms by (auto simp: schema_valid_def edge_ok_def)

section \<open>Permutations\<close>

lemma foldl_update_length [simp]: "length (foldl (\<lambda>r i. r[f i := g i]) xs is) = length xs"
  by (induction "is" arbitrary: xs) auto

lemma foldl_update_nth:
  "distinct (map f is) \<Longrightarrow> \<forall>i \<in> set is. f i < length xs \<Longrightarrow> j \<in> set is \<Longrightarrow>
     foldl (\<lambda>r i. r[f i := g i]) xs is ! f j = g j"
proof (induction "is" rule: rev_induct)
  case Nil
  then show ?case by simp
next
  case (snoc i "is")
  show ?case
  proof (cases "j = i")
    case True
    with snoc.prems show ?thesis by simp
  next
    case False
    with snoc.prems have "j \<in> set is" "f j \<noteq> f i" by (auto simp: image_iff)
    with snoc show ?thesis by simp
  qed
qed

text \<open>\<open>q\<close> undoes \<open>p\<close>; both number the joints below \<open>n\<close>.\<close>

definition inverse_lists :: "nat \<Rightarrow> nat list \<Rightarrow> nat list \<Rightarrow> bool" where
  "inverse_lists n p q \<longleftrightarrow> length p = n \<and> length q = n \<and> (\<forall>i < n. p ! i < n \<and> q ! (p ! i) = i)
     \<and> (\<forall>t < n. q ! t < n \<and> p ! (q ! t) = t)"

lemma inverse_listsD:
  assumes "inverse_lists n p q"
  shows "length p = n" "length q = n" "i < n \<Longrightarrow> p ! i < n" "i < n \<Longrightarrow> q ! (p ! i) = i"
    "i < n \<Longrightarrow> q ! i < n" "i < n \<Longrightarrow> p ! (q ! i) = i"
  using assms by (auto simp: inverse_lists_def)

lemma check_bijective_iff:
  "check_bijective n seen p = Inr () \<longleftrightarrow> (\<forall>t \<in> set p. t < n \<and> t \<notin> seen) \<and> distinct p"
  by (induction p arbitrary: seen) auto

lemma scatter_length [simp]: "length (scatter p d v n) = n"
  by (simp add: scatter_def)

lemma scatter_nth_perm:
  assumes "distinct p" "length p = n" "\<forall>t \<in> set p. t < n" "i < n"
  shows "scatter p d v n ! (p ! i) = v i"
proof -
  have "distinct (map ((!) p) [0 ..< n])" using assms(1,2) by (metis map_nth)
  then show ?thesis unfolding scatter_def
    using foldl_update_nth [of "(!) p" "[0 ..< n]" "replicate n d" i v] assms by auto
qed

lemma bijective_inverse:
  assumes "check_bijective n {} p = Inr ()" "length p = n"
  shows "inverse_lists n p (scatter p 0 (\<lambda>i. i) n)"
proof -
  from assms have p: "distinct p" "\<forall>t \<in> set p. t < n" by (auto simp: check_bijective_iff)
  have "card (set p) = card {..< n}" using p(1) assms(2) by (simp add: distinct_card)
  moreover have "set p \<subseteq> {..< n}" using p(2) by auto
  ultimately have surj: "set p = {..< n}" by (simp add: card_subset_eq)
  have q: "scatter p 0 (\<lambda>i. i) n ! (p ! i) = i" if "i < n" for i
    using scatter_nth_perm [OF p(1) assms(2) p(2) that] .
  have "scatter p 0 (\<lambda>i. i) n ! t < n \<and> p ! (scatter p 0 (\<lambda>i. i) n ! t) = t" if "t < n" for t
  proof -
    from that surj assms(2) obtain i where "i < n" "p ! i = t" by (metis in_set_conv_nth lessThan_iff)
    with q show ?thesis by auto
  qed
  with q p(2) assms(2) show ?thesis by (simp add: inverse_lists_def)
qed

lemma scatter_eq:
  assumes "check_bijective n {} p = Inr ()" "inverse_lists n p q"
  shows "scatter p d v n = map (\<lambda>t. v (q ! t)) [0 ..< n]"
proof (rule nth_equalityI)
  fix t assume "t < length (scatter p d v n)"
  then have "t < n" by simp
  moreover have "distinct p" "\<forall>t \<in> set p. t < n" using assms(1) by (auto simp: check_bijective_iff)
  ultimately show "scatter p d v n ! t = map (\<lambda>t. v (q ! t)) [0 ..< n] ! t"
    using scatter_nth_perm [of p n "q ! t" d v] inverse_listsD [OF assms(2)] by simp
qed simp

lemma ordered_edge_idem [simp]: "ordered_edge (ordered_edge e) = ordered_edge e"
  by (auto simp: ordered_edge_def)

lemma ordered_edge_eq_iff:
  "ordered_edge e = ordered_edge f \<longleftrightarrow> {edge_first e, edge_second e} = {edge_first f, edge_second f}"
  by (cases e; cases f) (auto simp: ordered_edge_def doubleton_eq_iff)

lemma ordered_edge_ends [simp]: "{edge_first (ordered_edge e), edge_second (ordered_edge e)} = {edge_first e, edge_second e}"
  by (auto simp: ordered_edge_def)

lemma edge_ok_ordered [simp]: "edge_ok n (ordered_edge e) \<longleftrightarrow> edge_ok n e"
  by (auto simp: ordered_edge_def edge_ok_def)

definition move_edge :: "nat list \<Rightarrow> skeleton_edge \<Rightarrow> skeleton_edge" where
  "move_edge p e = ordered_edge (Edge (p ! edge_first e) (p ! edge_second e))"

definition renumbered :: "class_keypoint_schema \<Rightarrow> nat list \<Rightarrow> nat list \<Rightarrow> class_keypoint_schema \<Rightarrow> bool" where
  "renumbered s p q s' \<longleftrightarrow> (let n = length (ks_names s) in schema_valid s \<and> inverse_lists n p q
     \<and> s' = \<lparr>ks_names = map (\<lambda>t. ks_names s ! (q ! t)) [0 ..< n],
             ks_skeleton = sort (map (move_edge p) (ks_skeleton s)),
             ks_flip = map (\<lambda>t. p ! (ks_flip s ! (q ! t))) [0 ..< n],
             ks_sigmas = map (\<lambda>t. ks_sigmas s ! (q ! t)) [0 ..< n]\<rparr>)"

lemma permute_renumbers:
  assumes "permute_keypoint_schema s p = Inr s'"
  shows "\<exists>q. renumbered s p q s'"
proof -
  let ?n = "length (ks_names s)"
  from assms have "schema_valid s" and p: "length p = ?n" "check_bijective ?n {} p = Inr ()"
    by (auto simp: permute_keypoint_schema_def bindr_Inr_iff validate_keypoint_schema_iff Let_def split: if_splits)
  moreover obtain q where q: "inverse_lists ?n p q" using bijective_inverse [OF p(2,1)] ..
  moreover have "s' = \<lparr>ks_names = scatter p [] (\<lambda>i. ks_names s ! i) ?n,
      ks_skeleton = sort (map (move_edge p) (ks_skeleton s)),
      ks_flip = scatter p 0 (\<lambda>i. p ! (ks_flip s ! i)) ?n, ks_sigmas = scatter p 0 (\<lambda>i. ks_sigmas s ! i) ?n\<rparr>"
    using assms p by (auto simp: permute_keypoint_schema_def bindr_Inr_iff Let_def move_edge_def [abs_def])
  ultimately have "renumbered s p q s'"
    unfolding renumbered_def Let_def by (simp only: scatter_eq [OF p(2) q] simp_thms)
  then show ?thesis ..
qed

lemma move_edge_inject:
  assumes "inverse_lists n p q" "edge_ok n e" "edge_ok n f" "move_edge p e = move_edge p f"
  shows "ordered_edge e = ordered_edge f"
proof -
  have "{p ! edge_first e, p ! edge_second e} = {p ! edge_first f, p ! edge_second f}"
    using assms(4) by (simp add: move_edge_def ordered_edge_eq_iff)
  then have "(!) q ` {p ! edge_first e, p ! edge_second e} = (!) q ` {p ! edge_first f, p ! edge_second f}"
    by (rule arg_cong)
  moreover have "q ! (p ! edge_first e) = edge_first e" "q ! (p ! edge_second e) = edge_second e"
    "q ! (p ! edge_first f) = edge_first f" "q ! (p ! edge_second f) = edge_second f"
    using assms(2,3) by (auto simp: edge_ok_def inverse_listsD(4) [OF assms(1)])
  ultimately have "{edge_first e, edge_second e} = {edge_first f, edge_second f}" by simp
  then show ?thesis by (simp add: ordered_edge_eq_iff)
qed

lemma renumbered_edges:
  assumes "inverse_lists n p q" "\<forall>e \<in> set es. edge_ok n e" "distinct (map ordered_edge es)"
  shows "distinct (map ordered_edge (map (move_edge p) es))"
  using assms(2,3)
proof (induction es)
  case (Cons e es)
  have "ordered_edge (move_edge p e) \<noteq> ordered_edge (move_edge p f)" if "f \<in> set es" for f
    using move_edge_inject [OF assms(1), of e f] Cons.prems that by (auto simp: move_edge_def image_iff)
  with Cons show ?case by auto
qed simp

lemma renumbered_valid:
  assumes "renumbered s p q s'"
  shows "schema_valid s'"
proof -
  let ?n = "length (ks_names s)"
  from assms have s: "schema_valid s" and pq: "inverse_lists ?n p q"
    by (simp_all add: renumbered_def Let_def)
  note inv = inverse_listsD [OF pq] and ok = schema_validD [OF s]
  have "distinct (map (\<lambda>t. ks_names s ! (q ! t)) [0 ..< ?n])"
    by (auto simp: distinct_map inj_on_def inv ok(4) nth_eq_iff_index_eq) (metis inv(6))
  moreover have "joint_ok s' t" if "t < ?n" for t
    using ok(5) [of "q ! t"] inv(3-6) assms that
    by (simp add: renumbered_def Let_def joint_ok_def)
  moreover have "distinct (map ordered_edge (sort (map (move_edge p) (ks_skeleton s))))"
  proof -
    have "distinct (map ordered_edge (map (move_edge p) (ks_skeleton s)))"
      using s by (intro renumbered_edges [OF pq]) (auto simp: schema_valid_def)
    then show ?thesis by (simp only: distinct_map distinct_sort set_sort)
  qed
  moreover have "edge_ok ?n (move_edge p e)" if "e \<in> set (ks_skeleton s)" for e
  proof -
    have "edge_ok ?n e" using that s by (simp add: schema_valid_def)
    then have "edge_first e < ?n" "edge_second e < ?n" "p ! edge_first e \<noteq> p ! edge_second e"
      by (auto simp: edge_ok_def) (metis inv(4))
    then have "edge_ok ?n (Edge (p ! edge_first e) (p ! edge_second e))" by (simp add: edge_ok_def inv(3))
    then show ?thesis by (simp add: move_edge_def)
  qed
  ultimately show ?thesis using assms s
    by (auto simp: renumbered_def Let_def schema_valid_def)
qed

section \<open>Lookup and correspondence\<close>

lemma lookup_names_find:
  "length names \<le> 256 \<Longrightarrow> \<forall>i \<in> set is. i < length names \<Longrightarrow>
     \<exists>m. lookup_names names L is = Inr m \<and>
       (\<forall>x. m x = (if L x \<noteq> None then L x else find (\<lambda>i. names ! i = x) is))"
proof (induction "is" arbitrary: L)
  case (Cons i "is")
  let ?L = "if L (names ! i) = None then L(names ! i := Some i) else L"
  have "checked_joint_index i (length names) = Inr i"
    using Cons.prems by (simp add: checked_joint_index_def kKeypointsPerClassCapacity_def)
  moreover obtain m where "lookup_names names ?L is = Inr m"
    "\<forall>x. m x = (if ?L x \<noteq> None then ?L x else find (\<lambda>i. names ! i = x) is)"
    using Cons.IH [of ?L] Cons.prems by auto
  ultimately show ?case by (auto split: if_splits)
qed simp

lemma joint_lookup_valid:
  assumes "schema_valid s"
  shows "\<exists>m. joint_lookup s = Inr m \<and> (\<forall>i < length (ks_names s). m (ks_names s ! i) = Some i)"
proof -
  let ?n = "length (ks_names s)"
  obtain m where m: "joint_lookup s = Inr m" "\<forall>x. m x = find (\<lambda>i. ks_names s ! i = x) [0 ..< ?n]"
    using lookup_names_find [of "ks_names s" "[0 ..< ?n]" "\<lambda>_. None"] schema_validD(1) [OF assms]
    by (auto simp: joint_lookup_def)
  have "find (\<lambda>j. ks_names s ! j = ks_names s ! i) [0 ..< ?n] = Some i" if "i < ?n" for i
    using that schema_validD(4) [OF assms] by (auto simp: find_Some_iff nth_eq_iff_index_eq)
  with m show ?thesis by auto
qed

lemma renumberedD:
  assumes "renumbered s p q s'"
  shows "schema_valid s" "inverse_lists (length (ks_names s)) p q" "length (ks_names s') = length (ks_names s)"
    "t < length (ks_names s) \<Longrightarrow> ks_names s' ! t = ks_names s ! (q ! t)"
    "t < length (ks_names s) \<Longrightarrow> ks_flip s' ! t = p ! (ks_flip s ! (q ! t))"
    "t < length (ks_names s) \<Longrightarrow> ks_sigmas s' ! t = ks_sigmas s ! (q ! t)"
    "set (ks_skeleton s') = move_edge p ` set (ks_skeleton s)"
  using assms by (auto simp: renumbered_def Let_def)

lemma match_joints_renumbered:
  assumes r: "renumbered s p q s'" and m: "\<forall>i < length (ks_names s). m (ks_names s ! i) = Some i"
  shows "\<forall>t \<in> set ts. t < length (ks_names s) \<Longrightarrow>
    match_joints s s' exact m ts = Inr (map (\<lambda>t. (q ! t, t)) ts)"
proof (induction ts)
  case (Cons t ts)
  let ?n = "length (ks_names s)"
  note D = renumberedD [OF r]
  note inv = inverse_listsD [OF D(2)]
  from Cons.prems have t: "t < ?n" "q ! t < ?n" using inv(5) by auto
  have ok: "joint_ok s (q ! t)" by (rule schema_validD(5) [OF D(1) t(2)])
  then have flip: "ks_flip s ! (q ! t) < ?n" by (simp add: joint_ok_def)
  have "m (ks_names s' ! t) = Some (q ! t)" using m D(4) [OF t(1)] t(2) by simp
  moreover have "double_eq (ks_sigmas s ! (q ! t)) (ks_sigmas s' ! t)"
    using ok D(6) [OF t(1)] by (simp add: joint_ok_def double_eq_refl)
  moreover have "ks_names s' ! (ks_flip s' ! t) = ks_names s ! (ks_flip s ! (q ! t))"
    using D(4) [OF inv(3) [OF flip]] D(5) [OF t(1)] inv(4) [OF flip] by simp
  moreover have "checked_joint_index t (length (ks_names s')) = Inr t"
    using t(1) D(3) schema_validD(1) [OF D(1)] by (simp add: checked_joint_index_def kKeypointsPerClassCapacity_def)
  ultimately show ?case using Cons by simp
qed simp

lemma edge_names_ordered [simp]: "edge_names names (ordered_edge e) = edge_names names e"
  by (cases e) (auto simp: edge_names_def ordered_edge_def Let_def)

lemma edge_names_renumbered:
  assumes r: "renumbered s p q s'" and e: "e \<in> set (ks_skeleton s)"
  shows "edge_names (ks_names s') (move_edge p e) = edge_names (ks_names s) e"
proof -
  note D = renumberedD [OF r]
  note inv = inverse_listsD [OF D(2)]
  have e': "edge_first e < length (ks_names s)" "edge_second e < length (ks_names s)"
    using schema_validD(6) [OF D(1) e] by auto
  have "ks_names s' ! (p ! edge_first e) = ks_names s ! edge_first e"
    "ks_names s' ! (p ! edge_second e) = ks_names s ! edge_second e"
    using D(4) [OF inv(3) [OF e'(1)]] D(4) [OF inv(3) [OF e'(2)]] inv(4) [OF e'(1)] inv(4) [OF e'(2)] by simp_all
  then show ?thesis unfolding move_edge_def edge_names_ordered by (simp add: edge_names_def)
qed

lemma shared_edges_all:
  assumes "schema_valid s" "\<forall>x \<in> set (ks_names s). m x \<noteq> None"
  shows "shared_edges s m = edge_names (ks_names s) ` set (ks_skeleton s)"
proof -
  have "ks_names s ! edge_first e \<in> set (ks_names s) \<and> ks_names s ! edge_second e \<in> set (ks_names s)"
    if "e \<in> set (ks_skeleton s)" for e
    using schema_validD(6) [OF assms(1) that] by auto
  with assms(2) have "filter (\<lambda>edge. m (ks_names s ! edge_first edge) \<noteq> None \<and> m (ks_names s ! edge_second edge) \<noteq> None)
      (ks_skeleton s) = ks_skeleton s" by (intro filter_True) blast
  then show ?thesis by (simp add: shared_edges_def)
qed

lemma lookup_covers:
  "\<forall>i < length (ks_names s). m (ks_names s ! i) = Some i \<Longrightarrow> \<forall>x \<in> set (ks_names s). m x \<noteq> None"
  by (auto simp: in_set_conv_nth)

lemma joint_correspondence_renumbered:
  assumes r: "renumbered s p q s'"
  shows "joint_correspondence s s' exact = Inr (map (\<lambda>t. (q ! t, t)) [0 ..< length (ks_names s)])"
proof -
  note D = renumberedD [OF r]
  note inv = inverse_listsD [OF D(2)]
  have s': "schema_valid s'" by (rule renumbered_valid [OF r])
  obtain m where m: "joint_lookup s = Inr m" "\<forall>i < length (ks_names s). m (ks_names s ! i) = Some i"
    using joint_lookup_valid [OF D(1)] by blast
  obtain m' where m': "joint_lookup s' = Inr m'" "\<forall>i < length (ks_names s'). m' (ks_names s' ! i) = Some i"
    using joint_lookup_valid [OF s'] by blast
  have names: "set (ks_names s') = set (ks_names s)"
  proof
    show "set (ks_names s') \<subseteq> set (ks_names s)" 
      using D(3,4) inv(5) by (metis in_set_conv_nth subsetI)
    show "set (ks_names s) \<subseteq> set (ks_names s')"
      using D(3) D(4) [OF inv(3)] inv(3,4) by (metis in_set_conv_nth subsetI)
  qed
  have "shared_edges s m' = edge_names (ks_names s) ` set (ks_skeleton s)"
    using lookup_covers [OF m'(2)] names by (intro shared_edges_all [OF D(1)]) simp
  moreover have "shared_edges s' m = edge_names (ks_names s') ` set (ks_skeleton s')"
    using lookup_covers [OF m(2)] names by (intro shared_edges_all [OF s']) simp
  moreover have "edge_names (ks_names s') ` set (ks_skeleton s') = edge_names (ks_names s) ` set (ks_skeleton s)"
    using edge_names_renumbered [OF r] by (auto simp: D(7) image_image)
  ultimately show ?thesis
    using m(1) m'(1) D(1,3) s' match_joints_renumbered [OF r m(2), of "[0 ..< length (ks_names s)]" exact]
    by (simp add: joint_correspondence_def iffD2 [OF validate_keypoint_schema_iff])
qed

lemma keypoint_permutation_renumbered:
  assumes r: "renumbered s p q s'"
  shows "keypoint_permutation s s' = Inr p"
proof -
  let ?n = "length (ks_names s)"
  note inv = inverse_listsD [OF renumberedD(2) [OF r]]
  have q: "distinct q" using inv(2,6) by (metis distinct_conv_nth)
  have "scatter q 0 (\<lambda>t. t) ?n = p"
  proof (rule nth_equalityI)
    fix i assume "i < length (scatter q 0 (\<lambda>t. t) ?n)"
    then have i: "i < ?n" by simp
    have "\<forall>t \<in> set q. t < ?n" using inv(2,5) by (auto simp: in_set_conv_nth)
    then show "scatter q 0 (\<lambda>t. t) ?n ! i = p ! i"
      using scatter_nth_perm [OF q inv(2) _ inv(3) [OF i], of 0 "\<lambda>t. t"] inv(4) [OF i] by simp
  qed (simp add: inv(1))
  then show ?thesis
    by (simp add: keypoint_permutation_def joint_correspondence_renumbered [OF r] scatter_def foldl_map)
qed

section \<open>Properties\<close>

text \<open>
  Renumbering the joints of an admitted schema by a permutation gives a schema that admission accepts,
  and comparing the two schemas by joint name recovers exactly that permutation: names, sigmas, flip
  partners and skeleton all keep their meaning.
\<close>

theorem permute_then_compare:
  assumes "permute_keypoint_schema s p = Inr s'"
  shows "validate_keypoint_schema s' = Inr () \<and> keypoint_permutation s s' = Inr p"
  using permute_renumbers [OF assms]
  by (auto simp: validate_keypoint_schema_iff intro: renumbered_valid keypoint_permutation_renumbered)

definition example_schema :: class_keypoint_schema where
  "example_schema = \<lparr>ks_names = [[108], [114], [110]], ks_skeleton = [Edge 0 2, Edge 1 2],
     ks_flip = [1, 0, 2], ks_sigmas = [0x3fa999999999999a, 0x3fa999999999999a, 0x3fb1eb851eb851ec]\<rparr>"

definition example_reordered :: class_keypoint_schema where
  "example_reordered = \<lparr>ks_names = [[110], [108], [114]], ks_skeleton = [Edge 0 1, Edge 0 2],
     ks_flip = [0, 2, 1], ks_sigmas = [0x3fb1eb851eb851ec, 0x3fa999999999999a, 0x3fa999999999999a]\<rparr>"

theorem permute_then_compare_witness:
  "keypoint_permutation example_schema example_reordered = Inr [1, 2, 0]"
proof -
  have "permute_keypoint_schema example_schema [1, 2, 0] = Inr example_reordered"
    by (simp add: permute_keypoint_schema_def validate_keypoint_schema_def kKeypointsPerClassCapacity_def
        kSkeletonEdgeCapacity_def kKeypointNameCapacity_def example_schema_def example_reordered_def scatter_def
        ordered_edge_def isfinite64_def double_le_zero_def isnan64_def Let_def upt_rec)
  from permute_then_compare [OF this] show ?thesis by blast
qed

text \<open>
  Admission accepts a schema exactly when its counts agree and fit, its names are distinct, not empty,
  bounded and free of the zero byte, its flip is an involution, its sigmas are finite and positive, and
  its skeleton has no loop and no edge twice in either direction.
\<close>

theorem validate_keypoint_schema_exact:
  "is_ok (validate_keypoint_schema s) \<longleftrightarrow>
     (let n = length (ks_names s) in
        n \<le> 256 \<and> length (ks_flip s) = n \<and> length (ks_sigmas s) = n \<and> length (ks_skeleton s) \<le> 512
      \<and> distinct (ks_names s) \<and> list_all (\<lambda>x. x \<noteq> [] \<and> length x \<le> 256 \<and> 0 \<notin> set x) (ks_names s)
      \<and> list_all (\<lambda>i. ks_flip s ! i < n \<and> ks_flip s ! (ks_flip s ! i) = i) [0 ..< n]
      \<and> list_all (\<lambda>d. isfinite64 d \<and> \<not> double_le_zero d) (ks_sigmas s)
      \<and> list_all (\<lambda>e. edge_first e < n \<and> edge_second e < n \<and> edge_first e \<noteq> edge_second e) (ks_skeleton s)
      \<and> distinct (map (\<lambda>e. {edge_first e, edge_second e}) (ks_skeleton s)))"
proof -
  let ?n = "length (ks_names s)"
  have edges: "distinct (map ordered_edge es) \<longleftrightarrow> distinct (map (\<lambda>e. {edge_first e, edge_second e}) es)" for es
    by (simp add: distinct_map inj_on_def ordered_edge_eq_iff)
  have valid: "is_ok (validate_keypoint_schema s) \<longleftrightarrow> schema_valid s"
    using validate_keypoint_schema_iff [of s] by (simp add: is_ok_iff)
  show ?thesis
  proof (cases "length (ks_sigmas s) = ?n")
    case False
    then show ?thesis unfolding valid schema_valid_def Let_def by simp
  next
    case True
    then have joints: "(\<forall>i < ?n. joint_ok s i) \<longleftrightarrow>
        list_all (\<lambda>x. x \<noteq> [] \<and> length x \<le> 256 \<and> 0 \<notin> set x) (ks_names s)
        \<and> list_all (\<lambda>i. ks_flip s ! i < ?n \<and> ks_flip s ! (ks_flip s ! i) = i) [0 ..< ?n]
        \<and> list_all (\<lambda>d. isfinite64 d \<and> \<not> double_le_zero d) (ks_sigmas s)"
      unfolding joint_ok_def list_all_length by simp blast
    show ?thesis
      unfolding valid schema_valid_def Let_def joints edges edge_ok_def list_all_iff [of _ "ks_skeleton s"]
      by (rule iffI; elim conjE; intro conjI; assumption)
  qed
qed

end
