(* ===== verification/Cpu_Affinity.thy ===== *)
theory Cpu_Affinity
  imports Ascii_Text Common_Text
begin

text \<open>
  CPU lists (\<open>src/common/system/cpu_affinity.cpp\<close>): the parser of a list of numbers and ranges, the
  formatter that writes maximal ranges, and the checks of a requested affinity. What the operating system
  allows is an argument. A CPU number is an \<open>int\<close> of 32 bits.
\<close>

abbreviation int_max :: int where "int_max \<equiv> 2147483647"

section \<open>Parsing\<close>

definition cxx_isspace :: "byte \<Rightarrow> bool" where
  "cxx_isspace c \<longleftrightarrow> c = 32 \<or> 9 \<le> unat c \<and> unat c \<le> 13"

definition trim_ascii :: "byte list \<Rightarrow> byte list" where
  "trim_ascii value = rev (dropWhile cxx_isspace (rev (dropWhile cxx_isspace value)))"

text \<open>
  \<open>std::from_chars\<close> to an \<open>int\<close>: the value and the unread rest, or no value when no digit is there or
  the number does not fit.
\<close>

definition from_chars_int :: "byte list \<Rightarrow> (int \<times> byte list) option" where
  "from_chars_int text =
     (let negative = text \<noteq> [] \<and> hd text = 45;
          unsigned = (if negative then tl text else text);
          digits = takeWhile is_digit unsigned;
          value = (if negative then - int (decimal_value digits) else int (decimal_value digits))
      in if digits = [] \<or> value > int_max \<or> value < - int_max - 1 then None
         else Some (value, dropWhile is_digit unsigned))"

definition parse_cpu_id :: "byte list \<Rightarrow> cxx_error + int" where
  "parse_cpu_id text =
     (let token = trim_ascii text
      in if token = [] then Inl (Runtime_Error ''cpu affinity token must not be empty'')
         else case from_chars_int token of
             None \<Rightarrow> Inl (Runtime_Error (''invalid cpu affinity token: '' @ text_of token))
           | Some (value, rest) \<Rightarrow>
               if rest \<noteq> [] \<or> value < 0
               then Inl (Runtime_Error (''invalid cpu affinity token: '' @ text_of token))
               else Inr value)"

text \<open>What one trimmed token adds to the list; the loop over a range ends at its last number.\<close>

definition token_cpus :: "byte list \<Rightarrow> cxx_error + int list" where
  "token_cpus token =
     (if token = [] then Inr []
      else if 45 \<notin> set token then bindr (parse_cpu_id token) (\<lambda>cpu. Inr [cpu])
      else let before = takeWhile (\<lambda>c. c \<noteq> 45) token; after = tl (dropWhile (\<lambda>c. c \<noteq> 45) token)
           in bindr (parse_cpu_id before) (\<lambda>first. bindr (parse_cpu_id after) (\<lambda>last.
                if first > last
                then Inl (Runtime_Error (''cpu affinity range start exceeds end: '' @ text_of token))
                else Inr [first .. last])))"

lemma length_after_comma: "44 \<in> set rest \<Longrightarrow> length (dropWhile (\<lambda>c. c \<noteq> (44 :: byte)) rest) - Suc 0 < length rest"
  using length_dropWhile_le [of "\<lambda>c. c \<noteq> 44" rest] by (cases rest) auto

text \<open>The loop from the cursor on; the argument is the text that is left.\<close>

function parse_tokens :: "byte list \<Rightarrow> int list \<Rightarrow> cxx_error + int list" where
  "parse_tokens rest cpus =
     bindr (token_cpus (trim_ascii (takeWhile (\<lambda>c. c \<noteq> 44) rest))) (\<lambda>more.
       let after = dropWhile (\<lambda>c. c \<noteq> 44) rest
       in if after = [] then Inr (cpus @ more) else parse_tokens (tl after) (cpus @ more))"
  by pat_completeness auto
termination
  by (relation "measure (\<lambda>(rest, cpus). length rest)") (auto intro: length_after_comma)

definition parse_cpu_list :: "byte list \<Rightarrow> cxx_error + int list" where
  "parse_cpu_list spec =
     bindr (parse_tokens spec []) (\<lambda>cpus.
       let cpus = sort_unique cpus
       in if cpus = [] then Inl (Runtime_Error ''cpu affinity list must not be empty'') else Inr cpus)"

section \<open>Formatting\<close>

definition to_string_int :: "int \<Rightarrow> byte list" where
  "to_string_int i = (if i < 0 then 45 # decimal (nat (- i)) else decimal (nat i))"

text \<open>The inner loop: the last number of the run that starts here and what follows it.\<close>

fun take_run :: "int \<Rightarrow> int list \<Rightarrow> int \<times> int list" where
  "take_run final [] = (final, [])"
| "take_run final (cpu # rest) = (if cpu = final + 1 then take_run cpu rest else (final, cpu # rest))"

lemma take_run_length [termination_simp]: "(l, rest) = take_run final cpus \<Longrightarrow> length rest < Suc (length cpus)"
  by (induction final cpus rule: take_run.induct) (auto split: if_splits)

fun format_loop :: "byte list \<Rightarrow> int list \<Rightarrow> byte list" where
  "format_loop formatted [] = formatted"
| "format_loop formatted (first # rest) =
     (case take_run first rest of (final, rest') \<Rightarrow>
        format_loop (formatted @ (if formatted = [] then [] else [44]) @ to_string_int first
          @ (if first \<noteq> final then 45 # to_string_int final else [])) rest')"

definition format_cpu_list :: "int list \<Rightarrow> byte list" where
  "format_cpu_list cpus = format_loop [] cpus"

section \<open>Affinity\<close>

text \<open>\<open>std::binary_search\<close> on an ascending list: the first element that is not less, if it equals.\<close>

definition binary_search :: "int list \<Rightarrow> int \<Rightarrow> bool" where
  "binary_search values x =
     (case dropWhile (\<lambda>y. y < x) values of [] \<Rightarrow> False | y # _ \<Rightarrow> \<not> x < y)"

fun require_allowed :: "int list \<Rightarrow> int list \<Rightarrow> cxx_error + unit" where
  "require_allowed allowed [] = Inr ()"
| "require_allowed allowed (cpu # rest) =
     (if \<not> binary_search allowed cpu
      then Inl (Runtime_Error (''cpu '' @ text_of (to_string_int cpu) @ '' is outside the current allowed cpuset ''
             @ text_of (format_cpu_list allowed)))
      else require_allowed allowed rest)"

definition resolve_cpu_affinity :: "cxx_error + int list \<Rightarrow> byte list \<Rightarrow> cxx_error + int list" where
  "resolve_cpu_affinity allowed_cpus spec =
     bindr allowed_cpus (\<lambda>allowed.
       if spec = [] then Inr allowed
       else bindr (parse_cpu_list spec) (\<lambda>requested.
              bindr (require_allowed allowed requested) (\<lambda>_. Inr requested)))"

section \<open>Runs and their text\<close>

fun runs :: "int list \<Rightarrow> (int \<times> int) list" where
  "runs [] = []"
| "runs (first # rest) = (case take_run first rest of (final, rest') \<Rightarrow> (first, final) # runs rest')"

definition render :: "int \<times> int \<Rightarrow> byte list" where
  "render r = to_string_int (fst r) @ (if fst r \<noteq> snd r then 45 # to_string_int (snd r) else [])"

fun joined :: "byte list list \<Rightarrow> byte list" where
  "joined [] = []"
| "joined [x] = x"
| "joined (x # y # xs) = x @ 44 # joined (y # xs)"

definition cpu_id :: "int \<Rightarrow> bool" where
  "cpu_id i \<longleftrightarrow> 0 \<le> i \<and> i \<le> int_max"

lemma to_string_digits:
  "0 \<le> i \<Longrightarrow> to_string_int i \<noteq> [] \<and> (\<forall>b \<in> set (to_string_int i). is_digit b)"
  using decimal_digits [of "nat i"] by (simp add: to_string_int_def)

lemma digit_facts: "is_digit b \<Longrightarrow> b \<noteq> 44 \<and> b \<noteq> 45 \<and> \<not> cxx_isspace b"
  by (auto simp: is_digit_def cxx_isspace_def)

lemma trim_ascii_keeps: "text \<noteq> [] \<Longrightarrow> is_digit (hd text) \<Longrightarrow> is_digit (last text) \<Longrightarrow> trim_ascii text = text"
proof -
  assume "text \<noteq> []" "is_digit (hd text)" "is_digit (last text)"
  then have "dropWhile cxx_isspace text = text" "dropWhile cxx_isspace (rev text) = rev text"
    by (simp_all add: dropWhile_eq_self_iff hd_rev digit_facts)
  then show ?thesis by (simp add: trim_ascii_def)
qed

lemma take_run_spec:
  "take_run f cpus = (l, rest) \<Longrightarrow> f # cpus = [f .. l] @ rest \<and> f \<le> l \<and> l \<in> set (f # cpus)"
proof (induction f cpus rule: take_run.induct)
  case (2 f cpu cpus)
  show ?case
  proof (cases "cpu = f + 1")
    case True
    with 2 have "cpu # cpus = [cpu .. l] @ rest \<and> cpu \<le> l \<and> l \<in> set (cpu # cpus)" by simp
    with True show ?thesis using upto_rec1 [of f l] by auto
  next
    case False
    with 2 show ?thesis by simp
  qed
qed simp

lemma runs_spec:
  "concat (map (\<lambda>(f, l). [f .. l]) (runs cpus)) = cpus \<and> (\<forall>(f, l) \<in> set (runs cpus). f \<in> set cpus \<and> l \<in> set cpus \<and> f \<le> l)"
proof (induction cpus rule: runs.induct)
  case (2 f cpus)
  obtain l rest where run: "take_run f cpus = (l, rest)" by fastforce
  note spec = take_run_spec [OF run]
  note IH = 2 [OF run [symmetric]]
  have "runs (f # cpus) = (f, l) # runs rest" using run by simp
  moreover from IH have "concat (map (\<lambda>(f, l). [f .. l]) ((f, l) # runs rest)) = f # cpus"
    using spec by (simp only: list.map concat.simps prod.case)
  moreover have "set rest \<subseteq> set (f # cpus)" using spec by (metis set_append sup_ge2)
  ultimately show ?case using IH spec by (auto simp del: runs.simps)
qed simp

lemma format_loop_joined:
  "format_loop acc cpus = acc @ (if acc = [] \<or> cpus = [] then [] else [44]) @ joined (map render (runs cpus))"
proof (induction acc cpus rule: format_loop.induct)
  case (2 acc f cpus)
  obtain l rest where run: "take_run f cpus = (l, rest)" by fastforce
  have "to_string_int f \<noteq> []" using decimal_digits by (simp add: to_string_int_def)
  moreover have "runs rest = [] \<longleftrightarrow> rest = []" by (cases rest) (auto split: prod.splits)
  ultimately show ?case using 2 [OF run [symmetric]] run
    by (cases "runs rest") (auto simp: render_def)
qed simp

lemma parse_cpu_id_to_string:
  assumes "cpu_id i"
  shows "parse_cpu_id (to_string_int i) = Inr i"
proof -
  note digits = to_string_digits [of i]
  have all: "takeWhile is_digit (to_string_int i) = to_string_int i"
    "dropWhile is_digit (to_string_int i) = []"
    using digits assms by (auto simp: cpu_id_def takeWhile_eq_all_conv)
  have "trim_ascii (to_string_int i) = to_string_int i"
    using digits assms by (intro trim_ascii_keeps) (auto simp: cpu_id_def)
  moreover have "hd (to_string_int i) \<noteq> 45" using digits digit_facts assms by (simp add: cpu_id_def)
  moreover have "int (decimal_value (to_string_int i)) = i" using assms by (simp add: to_string_int_def cpu_id_def)
  ultimately show ?thesis using digits assms
    unfolding parse_cpu_id_def from_chars_int_def by (simp add: Let_def cpu_id_def all)
qed

lemma token_cpus_render:
  assumes "cpu_id f" "cpu_id l" "f \<le> l"
  shows "token_cpus (trim_ascii (render (f, l))) = Inr [f .. l]" "44 \<notin> set (render (f, l))"
proof -
  have "0 \<le> f" "0 \<le> l" using assms by (simp_all add: cpu_id_def)
  then have f: "to_string_int f \<noteq> []" "\<forall>b \<in> set (to_string_int f). is_digit b"
    and l: "to_string_int l \<noteq> []" "\<forall>b \<in> set (to_string_int l). is_digit b"
    using to_string_digits by blast+
  have "trim_ascii (render (f, l)) = render (f, l)"
    using f l by (intro trim_ascii_keeps) (auto simp: render_def)
  moreover have "45 \<notin> set (to_string_int f)" using f digit_facts by blast
  moreover from this have "takeWhile (\<lambda>c. c \<noteq> 45) (to_string_int f @ 45 # to_string_int l) = to_string_int f"
    "dropWhile (\<lambda>c. c \<noteq> 45) (to_string_int f @ 45 # to_string_int l) = 45 # to_string_int l"
    by (subst takeWhile_append2 dropWhile_append2; auto)+
  ultimately show "token_cpus (trim_ascii (render (f, l))) = Inr [f .. l]"
    using assms f parse_cpu_id_to_string by (simp add: token_cpus_def render_def Let_def)
  show "44 \<notin> set (render (f, l))" using f l digit_facts by (auto simp: render_def)
qed

lemma parse_tokens_joined:
  "rs \<noteq> [] \<Longrightarrow> \<forall>(f, l) \<in> set rs. cpu_id f \<and> cpu_id l \<and> f \<le> l \<Longrightarrow>
     parse_tokens (joined (map render rs)) acc = Inr (acc @ concat (map (\<lambda>(f, l). [f .. l]) rs))"
proof (induction rs arbitrary: acc)
  case (Cons r rs)
  obtain f l where r: "r = (f, l)" by (cases r)
  have fl: "cpu_id f" "cpu_id l" "f \<le> l" using Cons.prems(2) r by auto
  note token = token_cpus_render [OF fl]
  show ?case
  proof (cases rs)
    case Nil
    have all: "takeWhile (\<lambda>c. c \<noteq> 44) (render r) = render r" "dropWhile (\<lambda>c. c \<noteq> 44) (render r) = []"
      using token(2) r by (auto simp: takeWhile_eq_all_conv)
    show ?thesis using Nil token(1) r by (simp add: all [unfolded r])
  next
    case (Cons r' rs')
    let ?rest = "joined (map render rs)"
    have "takeWhile (\<lambda>c. c \<noteq> 44) (render r @ 44 # ?rest) = render r"
      "dropWhile (\<lambda>c. c \<noteq> 44) (render r @ 44 # ?rest) = 44 # ?rest"
      using token(2) r by (subst takeWhile_append2 dropWhile_append2; auto)+
    moreover have "joined (map render (r # rs)) = render r @ 44 # ?rest" using Cons by simp
    ultimately have "parse_tokens (joined (map render (r # rs))) acc = parse_tokens ?rest (acc @ [f .. l])"
      using token(1) r by (subst parse_tokens.simps) (simp del: parse_tokens.simps)
    with Cons.IH Cons.prems(2) Cons r show ?thesis by simp
  qed
qed simp

section \<open>Properties\<close>

text \<open>
  The text of an ascending list of CPU numbers, whichever maximal ranges it is written with, parses
  back to the list.
\<close>

theorem parse_format_cpu_list:
  assumes "cpus \<noteq> []" and "sorted_wrt (<) cpus" and "\<forall>cpu \<in> set cpus. 0 \<le> cpu \<and> cpu \<le> int_max"
  shows "parse_cpu_list (format_cpu_list cpus) = Inr cpus"
proof -
  have "runs cpus \<noteq> []" using assms(1) by (cases cpus) (auto split: prod.splits)
  moreover have "\<forall>(f, l) \<in> set (runs cpus). cpu_id f \<and> cpu_id l \<and> f \<le> l"
    using runs_spec [of cpus] assms(3) by (auto simp: cpu_id_def)
  ultimately have "parse_tokens (format_cpu_list cpus) [] = Inr cpus"
    using parse_tokens_joined [of "runs cpus" "[]"] runs_spec [of cpus]
    by (simp add: format_cpu_list_def format_loop_joined)
  moreover have "sort_unique cpus = cpus"
    using assms(2) by (simp add: sort_unique_def strict_sorted_iff sorted_sort_id remdups_adj_distinct)
  ultimately show ?thesis using assms(1) by (simp add: parse_cpu_list_def)
qed

theorem parse_format_cpu_list_witness:
  "parse_cpu_list (format_cpu_list [0, 1, 2, 7]) = Inr [0, 1, 2, 7]"
  by (rule parse_format_cpu_list) auto

lemma binary_search_iff: "sorted xs \<Longrightarrow> binary_search xs x \<longleftrightarrow> x \<in> set xs"
proof (induction xs)
  case (Cons y ys)
  then show ?case by (cases "y < x") (auto simp: binary_search_def)
qed (simp add: binary_search_def)

lemma require_allowed_iff:
  "sorted allowed \<Longrightarrow> require_allowed allowed cpus = Inr () \<longleftrightarrow> set cpus \<subseteq> set allowed"
  by (induction cpus) (auto simp: binary_search_iff)

text \<open>
  A requested CPU list is taken exactly when every CPU it names is in the allowed set, and then
  unchanged; otherwise the call throws.
\<close>

theorem resolve_within_allowed:
  assumes "sorted allowed" and "spec \<noteq> []" and "parse_cpu_list spec = Inr requested"
  shows "(if set requested \<subseteq> set allowed then resolve_cpu_affinity (Inr allowed) spec = Inr requested
          else \<not> is_ok (resolve_cpu_affinity (Inr allowed) spec))"
  using require_allowed_iff [OF assms(1), of requested] assms(2,3)
  by (cases "require_allowed allowed requested") (auto simp: resolve_cpu_affinity_def)

theorem resolve_within_allowed_witness: "\<not> is_ok (resolve_cpu_affinity (Inr [0, 1]) [50])"
proof -
  have "parse_cpu_list [50] = Inr [2]"
    by (simp add: parse_cpu_list_def parse_tokens.simps token_cpus_def trim_ascii_def cxx_isspace_def
        parse_cpu_id_def from_chars_int_def is_digit_def decimal_value_def sort_unique_def)
  with resolve_within_allowed [of "[0, 1]" "[50]" "[2]"] show ?thesis by simp
qed

end
