(* ===== verification/Sampling_Shards.thy ===== *)
theory Sampling_Shards
  imports Common_Math
begin

text \<open>
  The first half of the benchmark sampler (\<open>src/backend/data/benchmark/benchmark_sampling.cpp\<close>): the class
  memberships of the images of a source, and the choice of the archive shards that are downloaded. Counters
  of images and classes are natural numbers, bounded by the lengths of the inputs; byte totals wrap as
  the 64-bit numbers they are. Cancellation, which throws at the polls of the loops, is left out.
\<close>

section \<open>Sources\<close>

datatype dataset_source = Coco2017 | Objects365V2 | OpenImagesV7 | Coconut | Objects365V1

record normalized_box =
  nb_mask_rle_pairs :: nat
  nb_class_id :: nat

record normalized_image =
  ni_source_image_id :: u64
  ni_first_box :: nat
  ni_box_count :: nat
  ni_source_shard :: nat

record annotation_index =
  ai_source :: dataset_source
  ai_images :: "normalized_image list"
  ai_boxes :: "normalized_box list"

definition kClassCount :: nat where "kClassCount = 80"
definition kShardClassCoverageFloor :: nat where "kShardClassCoverageFloor = 512"
definition kShardCandidateHeadroomNumerator :: nat where "kShardCandidateHeadroomNumerator = 11"
definition kShardCandidateHeadroomDenominator :: nat where "kShardCandidateHeadroomDenominator = 10"

record class_membership =
  cm_low :: nat
  cm_high :: nat
  cm_mask_runs :: nat

record sampling_stats =
  st_full_images :: nat
  st_full_boxes :: nat
  st_selected_images :: nat
  st_selected_boxes :: nat
  st_available_class_images :: "nat list"
  st_selected_class_images :: "nat list"

record shard_summary =
  ss_images :: nat
  ss_class_images :: "nat list"

definition empty_stats :: sampling_stats where
  "empty_stats = \<lparr>st_full_images = 0, st_full_boxes = 0, st_selected_images = 0, st_selected_boxes = 0,
     st_available_class_images = replicate kClassCount 0, st_selected_class_images = replicate kClassCount 0\<rparr>"

definition empty_summary :: shard_summary where
  "empty_summary = \<lparr>ss_images = 0, ss_class_images = replicate kClassCount 0\<rparr>"

section \<open>Memberships\<close>

definition add_class :: "class_membership \<Rightarrow> nat \<Rightarrow> class_membership" where
  "add_class m class_id =
     (if class_id < 64 then m\<lparr>cm_low := cm_low m OR push_bit class_id 1\<rparr>
      else m\<lparr>cm_high := cm_high m OR push_bit (class_id - 64) 1\<rparr>)"

fun countr_zero :: "nat \<Rightarrow> nat" where
  "countr_zero n = (if n = 0 \<or> odd n then 0 else Suc (countr_zero (n div 2)))"

declare countr_zero.simps [simp del]

definition clear_lowest :: "nat \<Rightarrow> nat" where
  "clear_lowest n = n AND (n - 1)"

text \<open>One call of \<open>ClassMembershipCursor::next\<close>: the class and the cursor that is left.\<close>

definition cursor_next :: "nat \<times> nat \<Rightarrow> (nat \<times> nat \<times> nat) option" where
  "cursor_next cursor =
     (case cursor of (low, high) \<Rightarrow>
        if low \<noteq> 0 then Some (countr_zero low, clear_lowest low, high)
        else if high \<noteq> 0 then Some (64 + countr_zero high, low, clear_lowest high)
        else None)"

lemma clear_lowest_even: "n \<noteq> 0 \<Longrightarrow> even n \<Longrightarrow> clear_lowest n = 2 * clear_lowest (n div 2)"
proof -
  assume "n \<noteq> 0" "even n"
  then obtain k where n: "n = 2 * k" "k \<noteq> 0" by (auto elim: evenE)
  then have "odd (n - 1)" "(n - 1) div 2 = k - 1" by (cases k; simp)+
  with n show ?thesis unfolding clear_lowest_def by (subst and_rec) simp
qed

lemma clear_lowest_odd: "odd n \<Longrightarrow> clear_lowest n = n - 1"
proof -
  assume n: "odd n"
  then have "even (n - 1)" "(n - 1) div 2 = n div 2" by (auto elim: oddE)
  with n show ?thesis unfolding clear_lowest_def by (subst and_rec) (auto elim: oddE)
qed

lemma bit_clear_lowest: "n \<noteq> 0 \<Longrightarrow> bit (clear_lowest n) k \<longleftrightarrow> bit n k \<and> k \<noteq> countr_zero n"
proof (induction n arbitrary: k rule: less_induct)
  case (less n)
  show ?case
  proof (cases "odd n")
    case True
    then have "(n - 1) div 2 = n div 2" "even (n - 1)" by (auto elim: oddE)
    with True show ?thesis
      by (cases k) (simp_all add: clear_lowest_odd countr_zero.simps [of n] bit_0 bit_Suc)
  next
    case False
    with less.prems have "n div 2 \<noteq> 0" "n div 2 < n" by (auto elim: evenE)
    with less False show ?thesis
      by (cases k) (simp_all add: clear_lowest_even countr_zero.simps [of n] bit_0 bit_Suc)
  qed
qed

lemma clear_lowest_less: "n \<noteq> 0 \<Longrightarrow> clear_lowest n < n"
proof (induction n rule: less_induct)
  case (less n)
  show ?case
  proof (cases "odd n")
    case False
    with less.prems have "n div 2 \<noteq> 0" "n div 2 < n" "n = 2 * (n div 2)" by (auto elim: evenE)
    with less.IH [of "n div 2"] clear_lowest_even [OF less.prems] False show ?thesis by linarith
  qed (use less.prems in \<open>simp add: clear_lowest_odd\<close>)
qed

text \<open>\<open>while (const auto class_id = classes.next())\<close>: the class numbers that the loop visits.\<close>

function cursor_classes :: "nat \<times> nat \<Rightarrow> nat list" where
  "cursor_classes cursor =
     (case cursor_next cursor of None \<Rightarrow> [] | Some (class_id, cursor') \<Rightarrow> class_id # cursor_classes cursor')"
  by pat_completeness auto
termination
  by (relation "measure (\<lambda>(low, high). low + high)")
    (auto simp: cursor_next_def clear_lowest_less split: if_splits prod.splits)

declare cursor_classes.simps [simp del]

definition classes_of :: "class_membership \<Rightarrow> nat list" where
  "classes_of m = cursor_classes (cm_low m, cm_high m)"

definition class_bit :: "nat \<times> nat \<Rightarrow> nat \<Rightarrow> bool" where
  "class_bit cursor c \<longleftrightarrow> c < 64 \<and> bit (fst cursor) c \<or> 64 \<le> c \<and> bit (snd cursor) (c - 64)"

lemma countr_zero_bit: "n \<noteq> 0 \<Longrightarrow> bit n (countr_zero n) \<and> (\<forall>k < countr_zero n. \<not> bit n k)"
proof (induction n rule: less_induct)
  case (less n)
  show ?case
  proof (cases "odd n")
    case True
    then show ?thesis by (simp add: countr_zero.simps [of n] bit_0)
  next
    case False
    with less.prems have "n div 2 \<noteq> 0" "n div 2 < n" by (auto elim: evenE)
    with less.IH [of "n div 2"] less.prems False show ?thesis
      by (auto simp: countr_zero.simps [of n] bit_Suc bit_0 less_Suc_eq_0_disj)
  qed
qed

lemma cursor_classes_spec:
  "fst cursor < 2 ^ 64 \<Longrightarrow> sorted_wrt (<) (cursor_classes cursor) \<and> set (cursor_classes cursor) = {c. class_bit cursor c}"
proof (induction cursor rule: cursor_classes.induct)
  case (1 cursor)
  obtain low high where cursor: "cursor = (low, high)" by (cases cursor)
  have low64: "bit low k \<Longrightarrow> k < 64" for k
    using 1 cursor bit_imp_le_length
    by (metis bit_take_bit_iff fst_conv take_bit_nat_eq_self)
  consider (low) "low \<noteq> 0" | (high) "low = 0" "high \<noteq> 0" | (none) "low = 0" "high = 0" by blast
  then show ?case
  proof cases
    case low
    let ?rest = "(clear_lowest low, high)"
    have next': "cursor_next cursor = Some (countr_zero low, ?rest)" using low cursor by (simp add: cursor_next_def)
    have "clear_lowest low < 2 ^ 64" using clear_lowest_less [OF low] 1 cursor by simp
    with 1 next' have IH: "sorted_wrt (<) (cursor_classes ?rest)" "set (cursor_classes ?rest) = {c. class_bit ?rest c}"
      by auto
    note first = countr_zero_bit [OF low]
    then have low_first: "countr_zero low < 64" using low64 by blast
    have bits: "class_bit ?rest c \<longleftrightarrow> class_bit cursor c \<and> c \<noteq> countr_zero low" for c
      using bit_clear_lowest [OF low, of c] low_first
      by (cases "c < 64"; simp add: class_bit_def cursor; linarith?)
    moreover have "class_bit cursor (countr_zero low)" using first low_first by (simp add: class_bit_def cursor)
    moreover have "countr_zero low < c" if "class_bit ?rest c" for c
    proof (cases "c < 64")
      case True
      with that bits [of c] have "bit low c" "c \<noteq> countr_zero low" by (auto simp: class_bit_def cursor)
      with first show ?thesis by (meson linorder_neqE_nat)
    qed (use low_first in simp)
    ultimately show ?thesis using IH next' by (subst (1 2) cursor_classes.simps) auto
  next
    case high
    let ?rest = "(low, clear_lowest high)"
    have next': "cursor_next cursor = Some (64 + countr_zero high, ?rest)" using high cursor by (simp add: cursor_next_def)
    with 1 cursor have IH: "sorted_wrt (<) (cursor_classes ?rest)" "set (cursor_classes ?rest) = {c. class_bit ?rest c}"
      by auto
    note first = countr_zero_bit [OF high(2)]
    have bits: "class_bit ?rest c \<longleftrightarrow> class_bit cursor c \<and> c \<noteq> 64 + countr_zero high" for c
      using bit_clear_lowest [OF high(2), of "c - 64"] high(1)
      by (cases "c < 64") (simp_all add: class_bit_def cursor, linarith)
    moreover have "class_bit cursor (64 + countr_zero high)" using first by (simp add: class_bit_def cursor)
    moreover have "64 + countr_zero high < c" if "class_bit ?rest c" for c
    proof -
      from that high(1) have "64 \<le> c" "bit high (c - 64)" "c - 64 \<noteq> countr_zero high"
        using bit_clear_lowest [OF high(2)] by (auto simp: class_bit_def)
      with first have "countr_zero high < c - 64" by (meson linorder_neqE_nat)
      then show ?thesis by simp
    qed
    ultimately show ?thesis using IH next' by (subst (1 2) cursor_classes.simps) auto
  next
    case none
    then show ?thesis using cursor by (subst (1 2) cursor_classes.simps) (auto simp: cursor_next_def class_bit_def)
  qed
qed

text \<open>\<open>++counts[class_id]\<close> for every class of one image.\<close>

definition bump :: "nat list \<Rightarrow> nat \<Rightarrow> nat list" where
  "bump counts class_id = counts[class_id := counts ! class_id + 1]"

definition bump_classes :: "nat list \<Rightarrow> class_membership \<Rightarrow> nat list" where
  "bump_classes counts m = foldl bump counts (classes_of m)"

fun scan_boxes :: "normalized_box list \<Rightarrow> class_membership \<Rightarrow> cxx_error + class_membership" where
  "scan_boxes [] m = Inr m"
| "scan_boxes (box # rest) m =
     (if nb_class_id box \<ge> kClassCount
      then Inl (Runtime_Error ''supplemental sampler received an invalid class id'')
      else bindr (checked_add_size (cm_mask_runs m) (nb_mask_rle_pairs box) ''supplemental image mask count overflow'')
             (\<lambda>runs. scan_boxes rest ((add_class m (nb_class_id box))\<lparr>cm_mask_runs := runs\<rparr>)))"

text \<open>The loop over the images, with the class counts, the memberships and the shards so far.\<close>

type_synonym membership_build = "nat list \<times> class_membership list \<times> shard_summary list"

fun build_images ::
    "normalized_box list \<Rightarrow> normalized_image list \<Rightarrow> membership_build \<Rightarrow> cxx_error + membership_build" where
  "build_images boxes [] build = Inr build"
| "build_images boxes (img # rest) (counts, memberships, shards) =
     (let s = ni_source_shard img
      in if shards \<noteq> [] \<and> s \<ge> length shards
         then Inl (Runtime_Error ''Objects365 annotation references an unknown image shard'')
         else if ni_box_count img = 0 \<or> ni_first_box img > length boxes
                 \<or> ni_box_count img > length boxes - ni_first_box img
         then Inl (Runtime_Error ''supplemental sampler received an invalid image box span'')
         else bindr (scan_boxes (take (ni_box_count img) (drop (ni_first_box img) boxes))
                       \<lparr>cm_low = 0, cm_high = 0, cm_mask_runs = 0\<rparr>) (\<lambda>m.
              if cm_low m = 0 \<and> cm_high m = 0
              then Inl (Runtime_Error ''supplemental sampler received an image without mapped classes'')
              else build_images boxes rest
                (bump_classes counts m, memberships @ [m],
                 if shards = [] then []
                 else shards[s := \<lparr>ss_images = ss_images (shards ! s) + 1,
                                   ss_class_images = bump_classes (ss_class_images (shards ! s)) m\<rparr>])))"

definition build_memberships ::
    "annotation_index \<Rightarrow> shard_summary list \<Rightarrow> cxx_error + sampling_stats \<times> class_membership list \<times> shard_summary list" where
  "build_memberships source shards =
     bindr (build_images (ai_boxes source) (ai_images source) (replicate kClassCount 0, [], shards))
       (\<lambda>(counts, memberships, shards). Inr
         (empty_stats\<lparr>st_full_images := length (ai_images source), st_full_boxes := length (ai_boxes source),
            st_available_class_images := counts\<rparr>, memberships, shards))"

section \<open>Scores\<close>

text \<open>
  The quotient of two 64-bit numbers as a \<open>long double\<close> with its significand of 64 bits: the numerator is
  doubled until the quotient has 64 bits, then rounded to nearest, ties to even. The result is the exponent,
  above the least one, and the significand; zero has neither.
\<close>

fun ld_shift :: "nat \<Rightarrow> nat \<Rightarrow> nat \<Rightarrow> nat" where
  "ld_shift 0 a b = 0"
| "ld_shift (Suc fuel) a b = (if b * 2 ^ 63 \<le> a then 0 else Suc (ld_shift fuel (2 * a) b))"

definition ld_quotient :: "nat \<Rightarrow> nat \<Rightarrow> nat \<times> nat" where
  "ld_quotient a b =
     (if a = 0 then (0, 0)
      else let k = ld_shift 127 a b;
               n = a * 2 ^ k;
               q = n div b;
               m = (if b < 2 * (n mod b) \<or> b = 2 * (n mod b) \<and> odd q then q + 1 else q)
           in if m = 2 ^ 64 then (129 - k, 2 ^ 63) else (128 - k, m))"

definition ld_less :: "nat \<times> nat \<Rightarrow> nat \<times> nat \<Rightarrow> bool" where
  "ld_less x y \<longleftrightarrow> fst x < fst y \<or> fst x = fst y \<and> snd x < snd y"

section \<open>Choosing shards\<close>

text \<open>The flags of the selected shards, as the set of the flagged ones, and the running totals.\<close>

record shard_choice =
  sc_selected :: "nat set"
  sc_coverage :: "nat list"
  sc_images :: nat
  sc_bytes :: nat
  sc_result :: "nat list"

definition headroom :: "nat \<Rightarrow> nat" where
  "headroom required = wrap64 (wrap64 (required * kShardCandidateHeadroomNumerator)
     + kShardCandidateHeadroomDenominator - 1) div kShardCandidateHeadroomDenominator"

definition coverage_targets :: "nat list \<Rightarrow> nat list" where
  "coverage_targets full = map (\<lambda>c. min (full ! c) kShardClassCoverageFloor) [0 ..< kClassCount]"

definition covers :: "nat list \<Rightarrow> nat list \<Rightarrow> bool" where
  "covers coverage targets \<longleftrightarrow> list_all2 (\<lambda>available target. target \<le> available) coverage targets"

definition shard_score :: "shard_summary list \<Rightarrow> nat list \<Rightarrow> nat \<Rightarrow> nat list \<Rightarrow> shard_choice \<Rightarrow> nat \<Rightarrow> nat \<times> nat" where
  "shard_score summaries bytes room targets choice shard =
     (let gain_of = (\<lambda>c. min (targets ! c - sc_coverage choice ! c) (ss_class_images (summaries ! shard) ! c));
          coverage_gain = sum_list (map gain_of [0 ..< kClassCount]);
          useful = (if sc_images choice < room
                    then min (ss_images (summaries ! shard)) (room - sc_images choice) else 0)
      in ld_quotient (wrap64 (useful + coverage_gain * 8)) (max 1 (bytes ! shard)))"

text \<open>The scan for the best shard; no score yet stands for the initial \<open>-1\<close>.\<close>

fun best_shard ::
    "shard_summary list \<Rightarrow> nat list \<Rightarrow> nat \<Rightarrow> nat list \<Rightarrow> shard_choice \<Rightarrow> nat \<Rightarrow> (nat \<times> nat) option \<Rightarrow> nat list \<Rightarrow> nat" where
  "best_shard summaries bytes room targets choice best best_score [] = best"
| "best_shard summaries bytes room targets choice best best_score (shard # rest) =
     (if shard \<in> sc_selected choice \<or> ss_images (summaries ! shard) = 0
      then best_shard summaries bytes room targets choice best best_score rest
      else let score = shard_score summaries bytes room targets choice shard;
               size = max 1 (bytes ! shard);
               better = (case best_score of None \<Rightarrow> True
                 | Some held \<Rightarrow> ld_less held score
                     \<or> score = held \<and> (best = length summaries \<or> size < bytes ! best
                         \<or> size = bytes ! best \<and> shard < best))
           in if better then best_shard summaries bytes room targets choice shard (Some score) rest
              else best_shard summaries bytes room targets choice best best_score rest)"

definition take_shard :: "shard_summary list \<Rightarrow> nat list \<Rightarrow> nat \<Rightarrow> shard_choice \<Rightarrow> shard_choice" where
  "take_shard summaries bytes best choice =
     \<lparr>sc_selected = insert best (sc_selected choice),
      sc_coverage = map (\<lambda>c. sc_coverage choice ! c + ss_class_images (summaries ! best) ! c) [0 ..< kClassCount],
      sc_images = sc_images choice + ss_images (summaries ! best),
      sc_bytes = wrap64 (sc_bytes choice + bytes ! best),
      sc_result = sc_result choice @ [best]\<rparr>"

lemma best_shard_cases:
  "best_shard summaries bytes room targets choice best score shards = best \<or>
   (\<exists>s \<in> set shards. best_shard summaries bytes room targets choice best score shards = s
      \<and> s \<notin> sc_selected choice \<and> ss_images (summaries ! s) \<noteq> 0)"
proof (induction shards arbitrary: best score)
  case (Cons s shards)
  show ?case
    using Cons.IH [of best score] Cons.IH [of s "Some (shard_score summaries bytes room targets choice s)"]
    by (auto simp: Let_def)
qed simp

lemma best_shard_measure:
  assumes "best_shard summaries bytes room targets choice (length summaries) None [0 ..< length summaries] \<noteq> length summaries"
  shows "card ({..< length summaries} - sc_selected (take_shard summaries bytes
      (best_shard summaries bytes room targets choice (length summaries) None [0 ..< length summaries]) choice))
    < card ({..< length summaries} - sc_selected choice)"
  using best_shard_cases [of summaries bytes room targets choice "length summaries" None "[0 ..< length summaries]"] assms
  by (intro psubset_card_mono) (auto simp: take_shard_def)

text \<open>Each round of the loop selects one more shard or throws.\<close>

function choose_loop ::
    "shard_summary list \<Rightarrow> nat list \<Rightarrow> nat \<Rightarrow> nat list \<Rightarrow> shard_choice \<Rightarrow> cxx_error + shard_choice" where
  "choose_loop summaries bytes room targets choice =
     (if sc_images choice < room \<or> \<not> covers (sc_coverage choice) targets
      then let best = best_shard summaries bytes room targets choice (length summaries) None [0 ..< length summaries]
           in if best = length summaries
              then Inl (Runtime_Error ''Objects365 shard selector cannot satisfy the sample budget'')
              else if best > 65535 then Inl (Overflow_Error ''Objects365 shard index overflow'')
              else choose_loop summaries bytes room targets (take_shard summaries bytes best choice)
      else Inr choice)"
  by pat_completeness auto
termination
  by (relation "measure (\<lambda>(summaries, _, _, _, choice). card ({..< length summaries} - sc_selected choice))")
    (auto intro: best_shard_measure)

declare choose_loop.simps [simp del]

definition drop_shard :: "shard_summary list \<Rightarrow> nat list \<Rightarrow> nat \<Rightarrow> shard_choice \<Rightarrow> shard_choice" where
  "drop_shard summaries bytes position choice =
     (let shard = sc_result choice ! position
      in \<lparr>sc_selected = sc_selected choice - {shard},
          sc_coverage = map (\<lambda>c. sc_coverage choice ! c - ss_class_images (summaries ! shard) ! c) [0 ..< kClassCount],
          sc_images = sc_images choice - ss_images (summaries ! shard),
          sc_bytes = sub64 (sc_bytes choice) (bytes ! shard),
          sc_result = take position (sc_result choice) @ drop (Suc position) (sc_result choice)\<rparr>)"

text \<open>What one shard holds is needed when the budget or a class would fall short without it.\<close>

definition needed :: "shard_summary list \<Rightarrow> nat \<Rightarrow> nat list \<Rightarrow> shard_choice \<Rightarrow> nat \<Rightarrow> bool" where
  "needed summaries room targets choice shard \<longleftrightarrow>
     sc_images choice - ss_images (summaries ! shard) < room
     \<or> list_ex (\<lambda>c. sc_coverage choice ! c - ss_class_images (summaries ! shard) ! c < targets ! c) [0 ..< kClassCount]"

fun prune_shards ::
    "shard_summary list \<Rightarrow> nat list \<Rightarrow> nat \<Rightarrow> nat list \<Rightarrow> nat \<Rightarrow> shard_choice \<Rightarrow> shard_choice" where
  "prune_shards summaries bytes room targets 0 choice = choice"
| "prune_shards summaries bytes room targets (Suc position) choice =
     prune_shards summaries bytes room targets position
       (if needed summaries room targets choice (sc_result choice ! position) then choice
        else drop_shard summaries bytes position choice)"

definition choose_objects365_shards ::
    "shard_summary list \<Rightarrow> nat list \<Rightarrow> nat list \<Rightarrow> nat \<Rightarrow> cxx_error + nat list \<times> nat" where
  "choose_objects365_shards summaries full bytes required =
     (let room = headroom required; targets = coverage_targets full
      in bindr (choose_loop summaries bytes room targets
                 \<lparr>sc_selected = {}, sc_coverage = replicate kClassCount 0, sc_images = 0, sc_bytes = 0, sc_result = []\<rparr>)
           (\<lambda>choice.
              let pruned = prune_shards summaries bytes room targets (length (sc_result choice)) choice
              in Inr (sort (sc_result pruned), sc_bytes pruned)))"

section \<open>Correctness of the choice\<close>

definition class_sum :: "shard_summary list \<Rightarrow> nat set \<Rightarrow> nat \<Rightarrow> nat" where
  "class_sum summaries S c = (\<Sum>s\<in>S. ss_class_images (summaries ! s) ! c)"

definition image_sum :: "shard_summary list \<Rightarrow> nat set \<Rightarrow> nat" where
  "image_sum summaries S = (\<Sum>s\<in>S. ss_images (summaries ! s))"

definition choice_inv :: "shard_summary list \<Rightarrow> nat list \<Rightarrow> shard_choice \<Rightarrow> bool" where
  "choice_inv summaries bytes choice \<longleftrightarrow>
     distinct (sc_result choice) \<and> set (sc_result choice) = sc_selected choice
     \<and> sc_selected choice \<subseteq> {..< length summaries}
     \<and> sc_images choice = image_sum summaries (sc_selected choice)
     \<and> length (sc_coverage choice) = kClassCount
     \<and> (\<forall>c < kClassCount. sc_coverage choice ! c = class_sum summaries (sc_selected choice) c)
     \<and> sc_bytes choice = wrap64 (\<Sum>s\<in>sc_selected choice. bytes ! s)"

lemma choice_inv_finite: "choice_inv summaries bytes choice \<Longrightarrow> finite (sc_selected choice)"
  unfolding choice_inv_def by (metis List.finite_set)

lemma take_shard_inv:
  assumes "choice_inv summaries bytes choice" "best < length summaries" "best \<notin> sc_selected choice"
  shows "choice_inv summaries bytes (take_shard summaries bytes best choice)"
  using assms choice_inv_finite [OF assms(1)]
  by (simp add: choice_inv_def take_shard_def image_sum_def class_sum_def mod_add_eq add.commute mod_simps)

lemma choose_loop_spec:
  "choice_inv summaries bytes choice \<Longrightarrow> choose_loop summaries bytes room targets choice = Inr choice' \<Longrightarrow>
     choice_inv summaries bytes choice' \<and> room \<le> sc_images choice' \<and> covers (sc_coverage choice') targets"
proof (induction summaries bytes room targets choice rule: choose_loop.induct)
  case (1 summaries bytes room targets choice)
  let ?best = "best_shard summaries bytes room targets choice (length summaries) None [0 ..< length summaries]"
  show ?case
  proof (cases "sc_images choice < room \<or> \<not> covers (sc_coverage choice) targets")
    case False
    with 1(2,3) show ?thesis by (simp add: choose_loop.simps [of summaries bytes room targets choice])
  next
    case True
    with 1(3) have best: "?best \<noteq> length summaries" "\<not> ?best > 65535"
      and step: "choose_loop summaries bytes room targets (take_shard summaries bytes ?best choice) = Inr choice'"
      by (auto simp: choose_loop.simps [of summaries bytes room targets choice] Let_def split: if_splits)
    have "?best < length summaries \<and> ?best \<notin> sc_selected choice"
      using best_shard_cases [of summaries bytes room targets choice "length summaries" None "[0 ..< length summaries]"] best
      by auto
    then show ?thesis using 1(1) [OF True refl best] take_shard_inv [OF 1(2)] step by blast
  qed
qed

definition enough :: "nat \<Rightarrow> nat list \<Rightarrow> shard_choice \<Rightarrow> bool" where
  "enough room targets choice \<longleftrightarrow> room \<le> sc_images choice \<and> (\<forall>c < kClassCount. targets ! c \<le> sc_coverage choice ! c)"

lemma sum_remove_nat: "finite S \<Longrightarrow> s \<in> S \<Longrightarrow> (\<Sum>x\<in>S - {s}. f x) = (\<Sum>x\<in>S. f x) - (f s :: nat)"
  by (simp add: sum_diff1_nat)

lemma sub64_wrap: "b \<le> size_max \<Longrightarrow> sub64 (wrap64 (a + b)) b = wrap64 a"
proof -
  assume b: "b \<le> size_max"
  then have "wrap64 (a + b) + 18446744073709551616 - b = wrap64 (a + b) + (18446744073709551616 - b)" by simp
  moreover have "wrap64 (wrap64 (a + b) + (18446744073709551616 - b)) = wrap64 ((a + b) + (18446744073709551616 - b))"
    by (rule mod_add_left_eq)
  moreover have "(a + b) + (18446744073709551616 - b) = a + 18446744073709551616" using b by simp
  ultimately show ?thesis by (simp only: sub64_def mod_add_self2)
qed

lemma wrap_sub_sum:
  assumes "finite S" "s \<in> S" "f s \<le> size_max"
  shows "sub64 (wrap64 (\<Sum>x\<in>S. f x)) (f s) = wrap64 (\<Sum>x\<in>S - {s}. f x)"
  using sub64_wrap [OF assms(3), of "\<Sum>x\<in>S - {s}. f x"] sum.remove [OF assms(1,2), of f] by (simp add: add.commute)

lemma erase_at:
  assumes "distinct xs" "position < length xs"
  shows "distinct (take position xs @ drop (Suc position) xs)"
    "set (take position xs @ drop (Suc position) xs) = set xs - {xs ! position}"
proof -
  have xs: "xs = take position xs @ xs ! position # drop (Suc position) xs"
    by (rule id_take_nth_drop [OF assms(2)])
  with assms(1) have "distinct (take position xs @ xs ! position # drop (Suc position) xs)" by simp
  then show "distinct (take position xs @ drop (Suc position) xs)"
    and "set (take position xs @ drop (Suc position) xs) = set xs - {xs ! position}"
    by (simp, subst (3) xs, auto)
qed

lemma drop_shard_inv:
  assumes inv: "choice_inv summaries bytes choice" and p: "position < length (sc_result choice)"
    and bytes: "length bytes = length summaries" "\<forall>b \<in> set bytes. b \<le> size_max"
  shows "choice_inv summaries bytes (drop_shard summaries bytes position choice)"
proof -
  let ?s = "sc_result choice ! position"
  have fin: "finite (sc_selected choice)" by (rule choice_inv_finite [OF inv])
  have s: "?s \<in> sc_selected choice" "?s < length summaries"
    using inv p nth_mem [OF p] by (auto simp: choice_inv_def)
  then have "bytes ! ?s \<le> size_max" using bytes by simp
  moreover have "distinct (sc_result choice)" using inv by (simp add: choice_inv_def)
  note erase_at [OF this p]
  ultimately show ?thesis using inv p fin s
    by (simp add: choice_inv_def drop_shard_def Let_def sum_remove_nat image_sum_def class_sum_def
        wrap_sub_sum subset_insertI2 Diff_subset [THEN subset_trans])
qed

text \<open>Leaving out one shard of an admissible choice subtracts what it holds.\<close>

lemma needed_iff:
  assumes inv: "choice_inv summaries bytes choice" and s: "s \<in> sc_selected choice"
  shows "needed summaries room targets choice s \<longleftrightarrow>
    image_sum summaries (sc_selected choice - {s}) < room
    \<or> (\<exists>c < kClassCount. class_sum summaries (sc_selected choice - {s}) c < targets ! c)"
  using inv s choice_inv_finite [OF inv]
  by (auto simp: needed_def choice_inv_def image_sum_def class_sum_def sum_remove_nat list_ex_iff)

lemma needed_antimono:
  assumes "finite S" "S' \<subseteq> S"
    and "image_sum summaries (S - {s}) < room \<or> (\<exists>c < kClassCount. class_sum summaries (S - {s}) c < targets ! c)"
  shows "image_sum summaries (S' - {s}) < room \<or> (\<exists>c < kClassCount. class_sum summaries (S' - {s}) c < targets ! c)"
proof -
  have "(\<Sum>x\<in>S' - {s}. f x) \<le> (\<Sum>x\<in>S - {s}. f x)" for f :: "nat \<Rightarrow> nat"
    using assms(1,2) by (intro sum_mono2) auto
  then have "image_sum summaries (S' - {s}) \<le> image_sum summaries (S - {s})"
    "class_sum summaries (S' - {s}) c \<le> class_sum summaries (S - {s}) c" for c
    by (simp_all add: image_sum_def class_sum_def)
  with assms(3) show ?thesis by (meson le_less_trans)
qed

lemma prune_shards_spec:
  assumes "choice_inv summaries bytes choice" "enough room targets choice" "position \<le> length (sc_result choice)"
    and "\<forall>j. position \<le> j \<and> j < length (sc_result choice) \<longrightarrow> needed summaries room targets choice (sc_result choice ! j)"
    and bytes: "length bytes = length summaries" "\<forall>b \<in> set bytes. b \<le> size_max"
  shows "let pruned = prune_shards summaries bytes room targets position choice
    in choice_inv summaries bytes pruned \<and> enough room targets pruned
       \<and> (\<forall>s \<in> set (sc_result pruned). needed summaries room targets pruned s)"
  using assms(1-4)
proof (induction position arbitrary: choice)
  case 0
  then show ?case by (auto simp: in_set_conv_nth)
next
  case (Suc position)
  let ?s = "sc_result choice ! position"
  from Suc.prems have p: "position < length (sc_result choice)" by simp
  show ?case
  proof (cases "needed summaries room targets choice ?s")
    case True
    with Suc.prems have "needed summaries room targets choice (sc_result choice ! j)"
      if "position \<le> j" "j < length (sc_result choice)" for j
      using that by (cases "j = position") auto
    with True Suc show ?thesis by simp
  next
    case False
    let ?d = "drop_shard summaries bytes position choice"
    have inv: "choice_inv summaries bytes ?d" by (rule drop_shard_inv [OF Suc.prems(1) p bytes])
    have sel: "sc_selected ?d = sc_selected choice - {?s}" by (simp add: drop_shard_def Let_def)
    have "enough room targets ?d"
      using False by (auto simp: enough_def needed_def drop_shard_def Let_def list_ex_iff not_less)
    moreover have "position \<le> length (sc_result ?d)" using p by (simp add: drop_shard_def Let_def)
    moreover have "needed summaries room targets ?d (sc_result ?d ! j)"
      if j: "position \<le> j" "j < length (sc_result ?d)" for j
    proof -
      let ?t = "sc_result choice ! Suc j"
      have "Suc j < length (sc_result choice)" "sc_result ?d ! j = ?t"
        using j p by (auto simp: drop_shard_def Let_def nth_append)
      with Suc.prems j have "needed summaries room targets choice ?t" and "?t \<in> sc_selected choice"
        by (auto simp: choice_inv_def dest: nth_mem)
      moreover have "sc_result ?d ! j \<in> sc_selected ?d"
        using nth_mem [OF j(2)] inv by (simp add: choice_inv_def)
      ultimately show ?thesis
        using needed_antimono [OF choice_inv_finite [OF Suc.prems(1)], of "sc_selected ?d" summaries ?t room targets]
          needed_iff [OF Suc.prems(1)] needed_iff [OF inv] sel \<open>sc_result ?d ! j = ?t\<close> by auto
    qed
    ultimately show ?thesis using Suc.IH [OF inv] False by simp
  qed
qed

section \<open>Properties\<close>

text \<open>
  C13: the chosen shards are distinct and ascending, hold the required images with the ten percent of
  headroom, cover every class up to its floor, and no one of them could be left out; the reported archive
  bytes are their sum.
\<close>

theorem chosen_shards_minimal:
  assumes "choose_objects365_shards summaries full bytes required = Inr (shards, archive_bytes)"
    and "length bytes = length summaries" and "\<forall>b \<in> set bytes. b \<le> size_max"
  shows "sorted_wrt (<) shards \<and> set shards \<subseteq> {..< length summaries}
    \<and> archive_bytes = wrap64 (\<Sum>s\<in>set shards. bytes ! s)
    \<and> headroom required \<le> image_sum summaries (set shards)
    \<and> (\<forall>c < 80. min (full ! c) 512 \<le> class_sum summaries (set shards) c)
    \<and> (\<forall>s \<in> set shards. image_sum summaries (set shards - {s}) < headroom required
         \<or> (\<exists>c < 80. class_sum summaries (set shards - {s}) c < min (full ! c) 512))"
proof -
  let ?room = "headroom required" and ?targets = "coverage_targets full"
  let ?start = "\<lparr>sc_selected = {}, sc_coverage = replicate kClassCount 0, sc_images = 0, sc_bytes = 0, sc_result = []\<rparr>"
  from assms(1) obtain choice where loop: "choose_loop summaries bytes ?room ?targets ?start = Inr choice"
    and result: "shards = sort (sc_result (prune_shards summaries bytes ?room ?targets (length (sc_result choice)) choice))"
      "archive_bytes = sc_bytes (prune_shards summaries bytes ?room ?targets (length (sc_result choice)) choice)"
    by (auto simp: choose_objects365_shards_def Let_def bindr_Inr_iff)
  let ?pruned = "prune_shards summaries bytes ?room ?targets (length (sc_result choice)) choice"
  have target: "c < kClassCount \<Longrightarrow> ?targets ! c = min (full ! c) 512" for c
    by (simp add: coverage_targets_def kShardClassCoverageFloor_def)
  have "choice_inv summaries bytes ?start"
    by (simp add: choice_inv_def image_sum_def class_sum_def)
  from choose_loop_spec [OF this loop] have choice: "choice_inv summaries bytes choice" "enough ?room ?targets choice"
    by (auto simp: enough_def covers_def list_all2_conv_all_nth choice_inv_def)
  have "\<forall>j. length (sc_result choice) \<le> j \<and> j < length (sc_result choice) \<longrightarrow>
      needed summaries ?room ?targets choice (sc_result choice ! j)" by auto
  from prune_shards_spec [OF choice order.refl this assms(2,3)]
  have pruned: "choice_inv summaries bytes ?pruned" "enough ?room ?targets ?pruned"
    "\<forall>s \<in> set (sc_result ?pruned). needed summaries ?room ?targets ?pruned s"
    by (simp_all add: Let_def)
  have set: "sc_selected ?pruned = set shards" using pruned(1) result(1) by (simp add: choice_inv_def)
  have "sorted_wrt (<) shards" using pruned(1) result(1) by (simp add: strict_sorted_iff choice_inv_def)
  moreover have "set shards \<subseteq> {..< length summaries}" "archive_bytes = wrap64 (\<Sum>s\<in>set shards. bytes ! s)"
    "?room \<le> image_sum summaries (set shards)"
    using pruned(1,2) result(2) by (simp_all add: choice_inv_def enough_def set)
  moreover have "\<forall>c < kClassCount. min (full ! c) 512 \<le> class_sum summaries (set shards) c"
    using pruned(1,2) target by (simp add: choice_inv_def enough_def set)
  moreover have "\<forall>s \<in> set shards. image_sum summaries (set shards - {s}) < ?room
      \<or> (\<exists>c < kClassCount. class_sum summaries (set shards - {s}) c < min (full ! c) 512)"
  proof
    fix s assume s: "s \<in> set shards"
    then have "needed summaries ?room ?targets ?pruned s" using pruned(1,3) set by (simp add: choice_inv_def)
    then have "image_sum summaries (set shards - {s}) < ?room
        \<or> (\<exists>c < kClassCount. class_sum summaries (set shards - {s}) c < ?targets ! c)"
      using needed_iff [OF pruned(1), of s ?room ?targets] s by (simp only: set)
    then show "image_sum summaries (set shards - {s}) < ?room
        \<or> (\<exists>c < kClassCount. class_sum summaries (set shards - {s}) c < min (full ! c) 512)"
      by (elim disjE exE conjE) (simp, use target in force)
  qed
  ultimately show ?thesis unfolding kClassCount_def by blast
qed

definition example_summaries :: "shard_summary list" where
  "example_summaries = [\<lparr>ss_images = 30, ss_class_images = replicate 80 0\<rparr>]"

lemma example_choice:
  "choose_objects365_shards example_summaries (replicate 80 0) [10] 20 = Inr ([0], 10)"
proof -
  let ?zero = "replicate 80 0 :: nat list"
  let ?one = "\<lparr>sc_selected = {0}, sc_coverage = ?zero, sc_images = 30, sc_bytes = 10, sc_result = [0]\<rparr>"
  have targets: "coverage_targets ?zero = ?zero"
    by (rule nth_equalityI) (simp_all add: coverage_targets_def kClassCount_def)
  have room: "headroom 20 = 22"
    by (simp add: headroom_def kShardCandidateHeadroomNumerator_def kShardCandidateHeadroomDenominator_def)
  have covers: "covers ?zero ?zero" by (simp add: covers_def list_all2_refl)
  have "take_shard example_summaries [10] 0
      \<lparr>sc_selected = {}, sc_coverage = ?zero, sc_images = 0, sc_bytes = 0, sc_result = []\<rparr> = ?one"
    by (simp add: take_shard_def example_summaries_def kClassCount_def) (rule nth_equalityI; simp)
  then have "choose_loop example_summaries [10] 22 ?zero
      \<lparr>sc_selected = {}, sc_coverage = ?zero, sc_images = 0, sc_bytes = 0, sc_result = []\<rparr> = Inr ?one"
    using covers by (simp add: choose_loop.simps example_summaries_def)
  moreover have "needed example_summaries 22 ?zero ?one 0" by (simp add: needed_def example_summaries_def)
  ultimately show ?thesis
    by (simp add: choose_objects365_shards_def room targets kClassCount_def)
qed

theorem chosen_shards_minimal_witness: "headroom 20 \<le> image_sum example_summaries {0}"
  using chosen_shards_minimal [OF example_choice] by (simp add: example_summaries_def)

end
