(* ===== verification/Sampling_Selection.thy ===== *)
theory Sampling_Selection
  imports Sampling_Shards "HOL-Library.Product_Lexorder"
begin

text \<open>
  The second half of the benchmark sampler (\<open>src/backend/data/benchmark/benchmark_sampling.cpp\<close>): the order in
  which the images of a source are considered, the greedy choice of the rarest class over both sources, and
  the fill to the exact target. The parts that the program may run in parallel are run in the order of the
  serial path; the workspace credit of the execution and the cancellation polls are left out. A read view
  is the ascending list of the positions it selects with its box and run counts.
\<close>

section \<open>Sources\<close>

definition kSupplementalBudgetDenominator :: nat where "kSupplementalBudgetDenominator = 6"
definition kOpenImagesDiversityDenominator :: nat where "kOpenImagesDiversityDenominator = 24"
definition kOpenImagesMaximumDenominator :: nat where "kOpenImagesMaximumDenominator = 6"

text \<open>Hash, source image id, image index, compared in this order.\<close>

type_synonym hashed_image = "u64 \<times> u64 \<times> nat"

text \<open>The flags of the selected images are the set of the flagged indices.\<close>

record source_selection =
  sl_source :: annotation_index
  sl_memberships :: "class_membership list"
  sl_hash_order :: "hashed_image list"
  sl_candidates :: "nat list list"
  sl_cursors :: "nat list"
  sl_selected :: "nat set"
  sl_stats :: sampling_stats
  sl_selected_boxes :: nat
  sl_selected_runs :: nat

definition source_number :: "dataset_source \<Rightarrow> u64" where
  "source_number s = (case s of Coco2017 \<Rightarrow> 0 | Objects365V2 \<Rightarrow> 1 | OpenImagesV7 \<Rightarrow> 2 | Coconut \<Rightarrow> 3 | Objects365V1 \<Rightarrow> 4)"

definition sampling_hash :: "dataset_source \<Rightarrow> u64 \<Rightarrow> u64" where
  "sampling_hash source image_id =
     deterministic_mix64 (image_id XOR (source_number source * 0xD6E8FEB86659FD93) XOR 0xC080BA1A6CED0002)"

text \<open>No eligible shards stands for a source without shards.\<close>

definition shard_eligible :: "nat list \<Rightarrow> nat \<Rightarrow> bool" where
  "shard_eligible eligible shard \<longleftrightarrow> eligible = [] \<or> (shard < length eligible \<and> eligible ! shard \<noteq> 0)"

fun hash_images :: "annotation_index \<Rightarrow> nat list \<Rightarrow> nat list \<Rightarrow> cxx_error + hashed_image list" where
  "hash_images source eligible [] = Inr []"
| "hash_images source eligible (index # rest) =
     (if \<not> shard_eligible eligible (ni_source_shard (ai_images source ! index)) then hash_images source eligible rest
      else bindr (checked_cast_u32 index ''supplemental image index overflow'') (\<lambda>i.
             bindr (hash_images source eligible rest) (\<lambda>images.
               let image_id = ni_source_image_id (ai_images source ! index)
               in Inr ((sampling_hash (ai_source source) image_id, image_id, i) # images))))"

definition add_candidate :: "class_membership list \<Rightarrow> nat list list \<Rightarrow> hashed_image \<Rightarrow> nat list list" where
  "add_candidate memberships candidates hashed =
     (let index = snd (snd hashed)
      in foldl (\<lambda>lists class_id. lists[class_id := lists ! class_id @ [index]]) candidates
           (classes_of (memberships ! index)))"

definition make_source_selection ::
    "annotation_index \<Rightarrow> class_membership list \<Rightarrow> sampling_stats \<Rightarrow> nat list \<Rightarrow> cxx_error + source_selection" where
  "make_source_selection source memberships stats eligible =
     bindr (hash_images source eligible [0 ..< length (ai_images source)]) (\<lambda>images.
       let order = sort images
       in Inr \<lparr>sl_source = source, sl_memberships = memberships, sl_hash_order = order,
            sl_candidates = foldl (add_candidate memberships) (replicate kClassCount []) order,
            sl_cursors = replicate kClassCount 0, sl_selected = {}, sl_stats = stats,
            sl_selected_boxes = 0, sl_selected_runs = 0\<rparr>)"

text \<open>
  The bytes of one selection workspace, which an execution reserves before the run. The widths are
  those of the structures: 24 bytes for a membership and for a hashed image, 648 for a shard summary.
\<close>

fun bit_width :: "nat \<Rightarrow> nat" where
  "bit_width n = (if n = 0 then 0 else Suc (bit_width (n div 2)))"

declare bit_width.simps [simp del]

definition include_bytes :: "nat \<Rightarrow> nat \<Rightarrow> nat \<Rightarrow> cxx_error + nat" where
  "include_bytes bytes amount width =
     bindr (checked_multiply_size amount width ''supplemental selection workspace overflow'') (\<lambda>product.
       checked_add_size bytes product ''supplemental selection workspace overflow'')"

definition source_workspace :: "nat \<Rightarrow> annotation_index \<Rightarrow> cxx_error + nat" where
  "source_workspace bytes source =
     (let images = length (ai_images source); boxes = length (ai_boxes source)
      in bindr (checked_multiply_size images kClassCount ''supplemental selection workspace overflow'') (\<lambda>most.
         bindr (include_bytes bytes images (24 + 24 + 1)) (\<lambda>bytes.
         bindr (include_bytes bytes (min boxes most) (3 * 4)) (\<lambda>bytes.
           include_bytes bytes (bit_width images + 1) (2 * 512)))))"

definition selection_workspace_bytes ::
    "annotation_index \<Rightarrow> annotation_index \<Rightarrow> nat \<Rightarrow> nat \<Rightarrow> cxx_error + nat" where
  "selection_workspace_bytes objects365 open_images shards selected_images =
     bindr (source_workspace 65536 objects365) (\<lambda>bytes.
     bindr (source_workspace bytes open_images) (\<lambda>bytes.
     bindr (include_bytes bytes shards (648 + 2 * 1 + 2)) (\<lambda>bytes.
       include_bytes bytes selected_images 8)))"

section \<open>Selection\<close>

fun skip_selected :: "nat set \<Rightarrow> nat list \<Rightarrow> nat" where
  "skip_selected selected [] = 0"
| "skip_selected selected (index # rest) = (if index \<in> selected then Suc (skip_selected selected rest) else 0)"

definition class_candidate_available :: "source_selection \<Rightarrow> nat \<Rightarrow> bool \<times> source_selection" where
  "class_candidate_available source class_id =
     (let candidates = sl_candidates source ! class_id;
          held = sl_cursors source ! class_id;
          cursor = held + skip_selected (sl_selected source) (drop held candidates)
      in (cursor < length candidates, source\<lparr>sl_cursors := (sl_cursors source)[class_id := cursor]\<rparr>))"

definition select_image ::
    "source_selection \<Rightarrow> nat \<Rightarrow> nat list \<Rightarrow> cxx_error + source_selection \<times> nat list" where
  "select_image source index combined =
     (if index \<in> sl_selected source
      then Inl (Runtime_Error ''supplemental sampler selected an image twice'')
      else bindr (checked_add_size (sl_selected_boxes source) (ni_box_count (ai_images (sl_source source) ! index))
                    ''supplemental selected box count overflow'') (\<lambda>boxes.
           bindr (checked_add_size (sl_selected_runs source) (cm_mask_runs (sl_memberships source ! index))
                    ''supplemental selected mask count overflow'') (\<lambda>runs.
             let m = sl_memberships source ! index;
                 stats = sl_stats source
             in Inr (source\<lparr>sl_selected := insert index (sl_selected source),
                       sl_selected_boxes := boxes, sl_selected_runs := runs,
                       sl_stats := stats\<lparr>st_selected_images := st_selected_images stats + 1,
                         st_selected_class_images := bump_classes (st_selected_class_images stats) m\<rparr>\<rparr>,
                     bump_classes combined m))))"

text \<open>The loop over the classes: both sources, whose cursors move, the chosen class and its count.\<close>

fun rarest_loop ::
    "nat list \<Rightarrow> bool \<Rightarrow> bool \<Rightarrow> nat list \<Rightarrow> source_selection \<times> source_selection \<times> nat \<times> nat \<Rightarrow>
       source_selection \<times> source_selection \<times> nat \<times> nat" where
  "rarest_loop combined open_only open_allowed [] state = state"
| "rarest_loop combined open_only open_allowed (class_id # rest) (objects, opens, chosen, chosen_count) =
     (let (object_available, objects) = (if open_only then (False, objects) else class_candidate_available objects class_id);
          (open_available, opens) = (if open_allowed then class_candidate_available opens class_id else (False, opens))
      in rarest_loop combined open_only open_allowed rest
           (if (object_available \<or> open_available) \<and> combined ! class_id < chosen_count
            then (objects, opens, class_id, combined ! class_id) else (objects, opens, chosen, chosen_count)))"

definition rarest_available_class ::
    "source_selection \<Rightarrow> source_selection \<Rightarrow> nat list \<Rightarrow> bool \<Rightarrow> bool \<Rightarrow> source_selection \<times> source_selection \<times> nat" where
  "rarest_available_class objects opens combined open_only open_allowed =
     (case rarest_loop combined open_only open_allowed [0 ..< kClassCount] (objects, opens, kClassCount, size_max) of
        (objects, opens, chosen, _) \<Rightarrow> (objects, opens, chosen))"

definition take_class_candidate :: "source_selection \<Rightarrow> nat \<Rightarrow> cxx_error + source_selection \<times> nat" where
  "take_class_candidate source class_id =
     (case class_candidate_available source class_id of (available, source) \<Rightarrow>
        if \<not> available then Inl (Runtime_Error ''supplemental class candidate unexpectedly exhausted'')
        else let cursor = sl_cursors source ! class_id
             in Inr (source\<lparr>sl_cursors := (sl_cursors source)[class_id := cursor + 1]\<rparr>,
                     sl_candidates source ! class_id ! cursor))"

definition take_and_select :: "source_selection \<Rightarrow> nat \<Rightarrow> nat list \<Rightarrow> cxx_error + source_selection \<times> nat list" where
  "take_and_select source class_id combined =
     bindr (take_class_candidate source class_id) (\<lambda>(source, index). select_image source index combined)"

text \<open>The budget of a run.\<close>

record sampling_budget =
  sb_target :: nat
  sb_floor :: nat
  sb_ceiling :: nat

record sampling_state =
  ss_objects :: source_selection
  ss_opens :: source_selection
  ss_combined :: "nat list"
  ss_total :: nat

definition open_selected :: "sampling_state \<Rightarrow> nat" where
  "open_selected s = st_selected_images (sl_stats (ss_opens s))"

text \<open>One round of the greedy loop: no state stands for its \<open>break\<close>.\<close>

definition greedy_round :: "sampling_budget \<Rightarrow> sampling_state \<Rightarrow> cxx_error + sampling_state \<times> bool" where
  "greedy_round b s =
     (let open_allowed = open_selected s < sb_ceiling b;
          force_open = (open_selected s < sb_floor b
            \<and> wrap64 (open_selected s * sb_target b) \<le> wrap64 (ss_total s * sb_floor b));
          (objects, opens, chosen) =
            rarest_available_class (ss_objects s) (ss_opens s) (ss_combined s) force_open open_allowed;
          (objects, opens, chosen) =
            (if chosen = kClassCount \<and> force_open
             then rarest_available_class objects opens (ss_combined s) False open_allowed
             else (objects, opens, chosen))
      in if chosen = kClassCount then Inr (s\<lparr>ss_objects := objects, ss_opens := opens\<rparr>, False)
         else let (object_available, objects) =
                    (if force_open then (False, objects) else class_candidate_available objects chosen)
              in if object_available
                 then bindr (take_and_select objects chosen (ss_combined s)) (\<lambda>(objects, combined).
                   Inr (\<lparr>ss_objects = objects, ss_opens = opens, ss_combined = combined,
                          ss_total = ss_total s + 1\<rparr>, True))
                 else let (open_available, opens) =
                            (if open_allowed then class_candidate_available opens chosen else (False, opens))
                      in if open_available
                         then bindr (take_and_select opens chosen (ss_combined s)) (\<lambda>(opens, combined).
                           Inr (\<lparr>ss_objects = objects, ss_opens = opens, ss_combined = combined,
                                  ss_total = ss_total s + 1\<rparr>, True))
                         else Inr (s\<lparr>ss_objects := objects, ss_opens := opens\<rparr>, False))"

lemma greedy_round_total: "greedy_round b s = Inr (s', True) \<Longrightarrow> ss_total s' = Suc (ss_total s)"
  by (auto simp: greedy_round_def Let_def bindr_Inr_iff split: prod.splits if_splits)

text \<open>Every round but the last selects one more image.\<close>

function greedy_loop :: "sampling_budget \<Rightarrow> sampling_state \<Rightarrow> cxx_error + sampling_state" where
  "greedy_loop b s =
     (if ss_total s < sb_target b
      then bindr (greedy_round b s) (\<lambda>(s', ok).
             if \<not> ok then Inr s' else greedy_loop b s')
      else Inr s)"
  by pat_completeness auto
termination
  by (relation "measure (\<lambda>(b, s). sb_target b - ss_total s)") (auto dest: greedy_round_total)

declare greedy_loop.simps [simp del]

text \<open>\<open>fill_from_hash_order\<close>: the source, the combined counts and the running total.\<close>

fun fill_from_hash_order ::
    "nat \<Rightarrow> nat \<Rightarrow> hashed_image list \<Rightarrow> source_selection \<times> nat list \<times> nat \<Rightarrow>
       cxx_error + source_selection \<times> nat list \<times> nat" where
  "fill_from_hash_order target maximum [] state = Inr state"
| "fill_from_hash_order target maximum (hashed # rest) (source, combined, filled) =
     (if filled = target \<or> st_selected_images (sl_stats source) = maximum then Inr (source, combined, filled)
      else if snd (snd hashed) \<in> sl_selected source
      then fill_from_hash_order target maximum rest (source, combined, filled)
      else bindr (select_image source (snd (snd hashed)) combined) (\<lambda>(source, combined).
             fill_from_hash_order target maximum rest (source, combined, filled + 1)))"

definition fill_objects :: "nat \<Rightarrow> nat \<Rightarrow> sampling_state \<Rightarrow> cxx_error + sampling_state" where
  "fill_objects target maximum s =
     bindr (fill_from_hash_order target maximum (sl_hash_order (ss_objects s)) (ss_objects s, ss_combined s, ss_total s))
       (\<lambda>(objects, combined, filled). Inr (s\<lparr>ss_objects := objects, ss_combined := combined, ss_total := filled\<rparr>))"

definition fill_opens :: "nat \<Rightarrow> nat \<Rightarrow> sampling_state \<Rightarrow> cxx_error + sampling_state" where
  "fill_opens target maximum s =
     bindr (fill_from_hash_order target maximum (sl_hash_order (ss_opens s)) (ss_opens s, ss_combined s, ss_total s))
       (\<lambda>(opens, combined, filled). Inr (s\<lparr>ss_opens := opens, ss_combined := combined, ss_total := filled\<rparr>))"

definition fill_budget :: "sampling_budget \<Rightarrow> sampling_state \<Rightarrow> cxx_error + sampling_state" where
  "fill_budget b s =
     bindr (greedy_loop b s) (\<lambda>s.
     bindr (fill_objects (sb_target b) (sb_target b - sb_floor b) s) (\<lambda>s.
     bindr (fill_opens (sb_target b) (sb_ceiling b) s) (\<lambda>s.
     bindr (fill_objects (sb_target b) (sb_target b) s) (\<lambda>s.
       if ss_total s \<noteq> sb_target b \<or> open_selected s < sb_floor b \<or> open_selected s > sb_ceiling b
       then Inl (Runtime_Error ''combined supplemental sampler could not fill its exact target'')
       else Inr s))))"

record sampling_view =
  sv_positions :: "nat list"
  sv_boxes :: nat
  sv_runs :: nat
  sv_stats :: sampling_stats

text \<open>The positions and counts that are handed to \<open>select_images\<close>. Its checks of the counts against those of the source,
  and its shortcut when every image is selected, are part of the annotation store and left out.\<close>

definition selected_view :: "source_selection \<Rightarrow> sampling_view" where
  "selected_view source =
     \<lparr>sv_positions = filter (\<lambda>position. position \<in> sl_selected source) [0 ..< length (ai_images (sl_source source))],
      sv_boxes = sl_selected_boxes source, sv_runs = sl_selected_runs source,
      sv_stats = (sl_stats source)\<lparr>st_selected_boxes := sl_selected_boxes source\<rparr>\<rparr>"

record combined_sampling =
  cs_objects365 :: sampling_view
  cs_open_images :: sampling_view
  cs_budget :: sampling_budget
  cs_archive_bytes :: nat
  cs_shards :: "nat list"

definition sampling_budget_of :: "annotation_index \<Rightarrow> annotation_index \<Rightarrow> sampling_budget" where
  "sampling_budget_of objects365 open_images =
     (let target = length (ai_images objects365) div kSupplementalBudgetDenominator
                   + length (ai_images open_images) div kSupplementalBudgetDenominator;
          floor = max 1 (target div kOpenImagesDiversityDenominator)
      in \<lparr>sb_target = target, sb_floor = floor, sb_ceiling = max floor (target div kOpenImagesMaximumDenominator)\<rparr>)"

definition flag_shards :: "nat \<Rightarrow> nat list \<Rightarrow> nat list" where
  "flag_shards count shards = foldl (\<lambda>eligible shard. eligible[shard := 1]) (replicate count 0) shards"

definition prepare_objects ::
    "annotation_index \<Rightarrow> nat list \<Rightarrow> nat \<Rightarrow> cxx_error + nat list \<times> nat \<times> source_selection" where
  "prepare_objects objects365 shard_bytes required =
     bindr (build_memberships objects365 (replicate (length shard_bytes) empty_summary)) (\<lambda>(stats, memberships, summaries).
     bindr (choose_objects365_shards summaries (st_available_class_images stats) shard_bytes required) (\<lambda>(shards, archive).
     bindr (make_source_selection objects365 memberships stats (flag_shards (length shard_bytes) shards)) (\<lambda>selection.
       Inr (shards, archive, selection))))"

definition prepare_opens :: "annotation_index \<Rightarrow> cxx_error + source_selection" where
  "prepare_opens open_images =
     bindr (build_memberships open_images []) (\<lambda>(stats, memberships, _).
       make_source_selection open_images memberships stats [])"

definition sample_combined_supplemental_indices ::
    "annotation_index \<Rightarrow> annotation_index \<Rightarrow> annotation_index \<Rightarrow> nat list \<Rightarrow> cxx_error + combined_sampling" where
  "sample_combined_supplemental_indices coco_train objects365 open_images shard_bytes =
     (if ai_source coco_train \<noteq> Coco2017 \<or> ai_source objects365 \<noteq> Objects365V2 \<or> ai_source open_images \<noteq> OpenImagesV7
      then Inl (Runtime_Error ''combined supplemental sampler received the wrong sources'')
      else if length (ai_images objects365) < kSupplementalBudgetDenominator
              \<or> length (ai_images open_images) < kSupplementalBudgetDenominator
      then Inl (Runtime_Error ''supplemental sources are too small for benchmark sampling'')
      else if shard_bytes = [] then Inl (Runtime_Error ''Objects365 sampler requires archive byte identities'')
      else let b = sampling_budget_of objects365 open_images
           in bindr (prepare_objects objects365 shard_bytes (sb_target b - sb_floor b)) (\<lambda>(shards, archive, objects).
              bindr (prepare_opens open_images) (\<lambda>opens.
              bindr (build_memberships coco_train []) (\<lambda>(coco_stats, _, _).
              bindr (fill_budget b \<lparr>ss_objects = objects, ss_opens = opens,
                       ss_combined = st_available_class_images coco_stats, ss_total = 0\<rparr>) (\<lambda>s.
                Inr \<lparr>cs_objects365 = selected_view (ss_objects s), cs_open_images = selected_view (ss_opens s),
                     cs_budget = b, cs_archive_bytes = archive, cs_shards = shards\<rparr>)))))"

section \<open>Counting\<close>

lemma bump_length [simp]: "length (bump counts c) = length counts"
  by (simp add: bump_def)

lemma foldl_bump:
  "distinct cs \<Longrightarrow> c < length counts \<Longrightarrow>
     foldl bump counts cs ! c = counts ! c + (if c \<in> set cs then 1 else 0)"
proof (induction cs arbitrary: counts)
  case (Cons a cs)
  then show ?case by (cases "a = c") (simp_all add: bump_def)
qed simp

lemma foldl_bump_length [simp]: "length (foldl bump counts cs) = length counts"
  by (induction cs arbitrary: counts) simp_all

lemma classes_of_distinct: "cm_low m < 2 ^ 64 \<Longrightarrow> distinct (classes_of m)"
  using cursor_classes_spec [of "(cm_low m, cm_high m)"] by (simp add: classes_of_def strict_sorted_iff)

lemma bump_classes_nth:
  "cm_low m < 2 ^ 64 \<Longrightarrow> c < length counts \<Longrightarrow>
     bump_classes counts m ! c = counts ! c + (if c \<in> set (classes_of m) then 1 else 0)"
  by (simp add: bump_classes_def foldl_bump classes_of_distinct)

lemma bump_classes_length [simp]: "length (bump_classes counts m) = length counts"
  by (simp add: bump_classes_def)

section \<open>What the memberships say\<close>

definition image_boxes :: "annotation_index \<Rightarrow> normalized_image \<Rightarrow> normalized_box list" where
  "image_boxes source img = take (ni_box_count img) (drop (ni_first_box img) (ai_boxes source))"

text \<open>A membership that holds the classes of some boxes.\<close>

definition holds_classes :: "class_membership \<Rightarrow> nat set \<Rightarrow> bool" where
  "holds_classes m C \<longleftrightarrow> cm_low m < 2 ^ 64 \<and> set (classes_of m) = C"

lemma holds_classes_iff:
  "holds_classes m C \<longleftrightarrow> cm_low m < 2 ^ 64 \<and> {c. class_bit (cm_low m, cm_high m) c} = C"
  using cursor_classes_spec [of "(cm_low m, cm_high m)"] by (auto simp: holds_classes_def classes_of_def)

lemma class_bit_add:
  "class_bit (cm_low (add_class m c), cm_high (add_class m c)) d \<longleftrightarrow> class_bit (cm_low m, cm_high m) d \<or> d = c"
  by (auto simp: class_bit_def add_class_def bit_or_iff bit_exp_iff)

lemma or_less_64: "(a :: nat) < 2 ^ 64 \<Longrightarrow> b < 2 ^ 64 \<Longrightarrow> a OR b < 2 ^ 64"
  by (metis take_bit_nat_eq_self_iff take_bit_or)

lemma add_class_holds:
  assumes "holds_classes m C"
  shows "holds_classes (add_class m c\<lparr>cm_mask_runs := r\<rparr>) (insert c C)"
proof -
  have "class_bit (cm_low (add_class m c), cm_high (add_class m c)) d \<longleftrightarrow> d \<in> insert c C" for d
    using assms by (auto simp: class_bit_add holds_classes_iff)
  moreover have "cm_low (add_class m c) < 2 ^ 64"
  proof (cases "c < 64")
    case True
    then have "(2 :: nat) ^ c < 2 ^ 64" by (intro power_strict_increasing) simp_all
    moreover have "cm_low m < 2 ^ 64" using assms by (simp add: holds_classes_def)
    ultimately have "cm_low m OR 2 ^ c < 2 ^ 64" by (intro or_less_64)
    with True show ?thesis by (simp add: add_class_def)
  qed (use assms in \<open>simp add: add_class_def holds_classes_def\<close>)
  ultimately show ?thesis by (auto simp: holds_classes_iff)
qed

lemma scan_boxes_holds:
  "holds_classes m C \<Longrightarrow> scan_boxes boxes m = Inr m' \<Longrightarrow>
     holds_classes m' (C \<union> nb_class_id ` set boxes) \<and> (\<forall>box \<in> set boxes. nb_class_id box < kClassCount)"
proof (induction boxes arbitrary: m C)
  case (Cons box boxes)
  then obtain runs where "scan_boxes boxes (add_class m (nb_class_id box)\<lparr>cm_mask_runs := runs\<rparr>) = Inr m'"
    and "nb_class_id box < kClassCount"
    by (auto simp: bindr_Inr_iff split: if_splits)
  with Cons.IH [OF add_class_holds [OF Cons.prems(1)]] show ?case by simp
qed simp

lemma build_images_holds:
  "build_images (ai_boxes source) images (counts, memberships, shards) = Inr (counts', memberships', shards') \<Longrightarrow>
     \<exists>more. memberships' = memberships @ more \<and>
       list_all2 (\<lambda>img m. holds_classes m (nb_class_id ` set (image_boxes source img))
         \<and> (\<forall>box \<in> set (image_boxes source img). nb_class_id box < kClassCount)) images more"
proof (induction images arbitrary: counts memberships shards)
  case (Cons img images)
  from Cons.prems obtain m counts1 shards1 where
    m: "scan_boxes (image_boxes source img) \<lparr>cm_low = 0, cm_high = 0, cm_mask_runs = 0\<rparr> = Inr m"
    and rest: "build_images (ai_boxes source) images (counts1, memberships @ [m], shards1) = Inr (counts', memberships', shards')"
    by (auto simp: Let_def bindr_Inr_iff image_boxes_def split: if_splits)
  have "holds_classes \<lparr>cm_low = 0, cm_high = 0, cm_mask_runs = 0\<rparr> {}"
    by (simp add: holds_classes_iff class_bit_def)
  from scan_boxes_holds [OF this m] Cons.IH [OF rest] show ?case by auto
qed simp

definition image_classes :: "annotation_index \<Rightarrow> nat \<Rightarrow> nat set" where
  "image_classes source i = nb_class_id ` set (image_boxes source (ai_images source ! i))"

text \<open>Memberships that describe their source.\<close>

definition memberships_of :: "annotation_index \<Rightarrow> class_membership list \<Rightarrow> bool" where
  "memberships_of source memberships \<longleftrightarrow> length memberships = length (ai_images source)
     \<and> (\<forall>i < length (ai_images source). holds_classes (memberships ! i) (image_classes source i)
          \<and> image_classes source i \<subseteq> {..< kClassCount})"

lemma build_memberships_holds:
  assumes "build_memberships source shards = Inr (stats, memberships, shards')"
  shows "memberships_of source memberships
    \<and> st_selected_images stats = 0 \<and> st_selected_class_images stats = replicate kClassCount 0"
proof -
  from assms obtain counts where
    "build_images (ai_boxes source) (ai_images source) (replicate kClassCount 0, [], shards) = Inr (counts, memberships, shards')"
    and "stats = empty_stats\<lparr>st_full_images := length (ai_images source), st_full_boxes := length (ai_boxes source),
            st_available_class_images := counts\<rparr>"
    by (auto simp: build_memberships_def bindr_Inr_iff)
  with build_images_holds [OF this(1)] show ?thesis
    by (auto simp: memberships_of_def image_classes_def list_all2_conv_all_nth empty_stats_def)
qed

section \<open>The invariant of a source\<close>

text \<open>The images that the hash order of a source offers.\<close>

definition offered :: "source_selection \<Rightarrow> nat set" where
  "offered s = (snd \<circ> snd) ` set (sl_hash_order s)"

definition selection_inv :: "source_selection \<Rightarrow> bool" where
  "selection_inv s \<longleftrightarrow>
     memberships_of (sl_source s) (sl_memberships s)
     \<and> offered s \<subseteq> {..< length (ai_images (sl_source s))}
     \<and> (\<forall>c < kClassCount. set (sl_candidates s ! c) \<subseteq> offered s)
     \<and> sl_selected s \<subseteq> offered s
     \<and> st_selected_images (sl_stats s) = card (sl_selected s)
     \<and> length (st_selected_class_images (sl_stats s)) = kClassCount
     \<and> (\<forall>c < kClassCount. st_selected_class_images (sl_stats s) ! c
          = card {i \<in> sl_selected s. c \<in> image_classes (sl_source s) i})
     \<and> length (sl_cursors s) = kClassCount
     \<and> sl_selected_boxes s \<le> size_max
     \<and> sl_selected_boxes s = (\<Sum>i\<in>sl_selected s. ni_box_count (ai_images (sl_source s) ! i))"

lemma checked_add_size_Inr: "checked_add_size a b ctx = Inr n \<Longrightarrow> a \<le> size_max \<Longrightarrow> n = a + b \<and> n \<le> size_max"
  by (auto simp: checked_add_size_def split: if_splits)

text \<open>What the selection of a source never changes.\<close>

definition same_offer :: "source_selection \<Rightarrow> source_selection \<Rightarrow> bool" where
  "same_offer s s' \<longleftrightarrow> sl_source s' = sl_source s \<and> sl_hash_order s' = sl_hash_order s
     \<and> sl_memberships s' = sl_memberships s \<and> sl_candidates s' = sl_candidates s"

lemma same_offer_refl [simp]: "same_offer s s"
  by (simp add: same_offer_def)

lemma same_offer_trans: "same_offer s t \<Longrightarrow> same_offer t u \<Longrightarrow> same_offer s u"
  by (simp add: same_offer_def)

lemma offered_finite: "finite (offered s)"
  by (simp add: offered_def)

lemma selected_finite: "selection_inv s \<Longrightarrow> finite (sl_selected s)"
  unfolding selection_inv_def by (metis finite_subset offered_finite)

lemma cursor_moves:
  assumes "class_candidate_available s c = (ok, s')"
  shows "same_offer s s'" "sl_selected s' = sl_selected s" "sl_stats s' = sl_stats s" "selection_inv s \<Longrightarrow> selection_inv s'"
proof -
  from assms obtain k where "s' = s\<lparr>sl_cursors := (sl_cursors s)[c := k]\<rparr>"
    by (auto simp: class_candidate_available_def Let_def)
  then show "same_offer s s'" "sl_selected s' = sl_selected s" "sl_stats s' = sl_stats s"
    "selection_inv s \<Longrightarrow> selection_inv s'"
    by (simp_all add: same_offer_def selection_inv_def offered_def)
qed

lemma skip_selected_spec:
  "skip_selected S xs < length xs \<Longrightarrow> xs ! skip_selected S xs \<notin> S"
  by (induction xs) auto

lemma skip_selected_le: "skip_selected S xs \<le> length xs"
  by (induction xs) auto

lemma skip_selected_again: "skip_selected S (drop (k + skip_selected S (drop k xs)) xs) = 0"
proof -
  have "skip_selected S (drop (skip_selected S ys) ys) = 0" for ys by (induction ys) auto
  from this [of "drop k xs"] show ?thesis by (simp add: add.commute)
qed

lemma candidate_fresh:
  assumes "class_candidate_available s c = (True, s')" "c < length (sl_cursors s)"
  shows "sl_cursors s' ! c < length (sl_candidates s' ! c)"
    "sl_candidates s' ! c ! (sl_cursors s' ! c) \<notin> sl_selected s'"
proof -
  let ?xs = "drop (sl_cursors s ! c) (sl_candidates s ! c)"
  have "skip_selected (sl_selected s) ?xs < length ?xs"
    using assms(1) by (auto simp: class_candidate_available_def Let_def)
  with skip_selected_spec [OF this] assms show "sl_cursors s' ! c < length (sl_candidates s' ! c)"
    "sl_candidates s' ! c ! (sl_cursors s' ! c) \<notin> sl_selected s'"
    by (auto simp: class_candidate_available_def Let_def)
qed

lemma available_again:
  "class_candidate_available s c = (ok, s') \<Longrightarrow> c < length (sl_cursors s) \<Longrightarrow>
     class_candidate_available s' c = (ok, s')"
  by (auto simp: class_candidate_available_def Let_def skip_selected_again)

lemma card_filter_insert:
  "finite S \<Longrightarrow> i \<notin> S \<Longrightarrow> card {j \<in> insert i S. P j} = card {j \<in> S. P j} + (if P i then 1 else 0)"
proof -
  assume "finite S" "i \<notin> S"
  moreover have "{j \<in> insert i S. P j} = (if P i then insert i {j \<in> S. P j} else {j \<in> S. P j})" by auto
  ultimately show ?thesis by simp
qed

lemma select_image_inv:
  assumes inv: "selection_inv s" and "i \<in> offered s" and step: "select_image s i combined = Inr (s', combined')"
  shows "selection_inv s' \<and> same_offer s s' \<and> st_selected_images (sl_stats s') = Suc (st_selected_images (sl_stats s))"
proof -
  from step have fresh: "i \<notin> sl_selected s" by (auto simp: select_image_def split: if_splits)
  note fin = selected_finite [OF inv]
  have i: "i < length (ai_images (sl_source s))" using inv assms(2) by (auto simp: selection_inv_def)
  then have m: "holds_classes (sl_memberships s ! i) (image_classes (sl_source s) i)"
    using inv by (simp add: selection_inv_def memberships_of_def)
  from step have fields: "sl_source s' = sl_source s" "sl_hash_order s' = sl_hash_order s"
    "sl_memberships s' = sl_memberships s" "sl_candidates s' = sl_candidates s" "sl_cursors s' = sl_cursors s"
    "sl_selected s' = insert i (sl_selected s)"
    "st_selected_images (sl_stats s') = Suc (st_selected_images (sl_stats s))"
    "st_selected_class_images (sl_stats s')
       = bump_classes (st_selected_class_images (sl_stats s)) (sl_memberships s ! i)"
    and boxes: "\<exists>ctx. checked_add_size (sl_selected_boxes s) (ni_box_count (ai_images (sl_source s) ! i)) ctx
       = Inr (sl_selected_boxes s')"
    by (auto simp: select_image_def Let_def bindr_Inr_iff split: if_splits)
  have "sl_selected_boxes s' = sl_selected_boxes s + ni_box_count (ai_images (sl_source s) ! i)"
    "sl_selected_boxes s' \<le> size_max"
    using boxes inv by (auto simp: selection_inv_def dest: checked_add_size_Inr)
  moreover have "c < kClassCount \<Longrightarrow> st_selected_class_images (sl_stats s') ! c
      = card {j \<in> sl_selected s'. c \<in> image_classes (sl_source s) j}" for c
    using inv m fin fresh
    by (simp add: fields selection_inv_def bump_classes_nth holds_classes_def
        card_filter_insert [unfolded insert_iff])
  ultimately show ?thesis
    using inv fin fresh assms(2) by (simp add: selection_inv_def same_offer_def fields offered_def)
qed

lemma select_image_error:
  "select_image s i combined = Inl e \<Longrightarrow> i \<notin> sl_selected s \<Longrightarrow> \<exists>m. e = Overflow_Error m"
  by (auto simp: select_image_def Let_def bindr_Inl_iff checked_add_size_def split: if_splits)

lemma take_and_select_spec:
  assumes inv: "selection_inv s" and c: "c < kClassCount" and available: "class_candidate_available s0 c = (True, s)"
    and s0: "selection_inv s0"
  shows "case take_and_select s c combined of
      Inl e \<Rightarrow> (\<exists>m. e = Overflow_Error m)
    | Inr (s', combined') \<Rightarrow> selection_inv s' \<and> same_offer s s'
        \<and> st_selected_images (sl_stats s') = Suc (st_selected_images (sl_stats s))"
proof -
  have c0: "c < length (sl_cursors s0)" using s0 c by (simp add: selection_inv_def)
  note fresh = candidate_fresh [OF available c0]
  note again = available_again [OF available c0]
  let ?i = "sl_candidates s ! c ! (sl_cursors s ! c)"
  let ?s = "s\<lparr>sl_cursors := (sl_cursors s)[c := sl_cursors s ! c + 1]\<rparr>"
  have step: "take_and_select s c combined = select_image ?s ?i combined"
    by (simp add: take_and_select_def take_class_candidate_def again Let_def)
  have "?i \<in> offered s" using inv c nth_mem [OF fresh(1)] by (auto simp: selection_inv_def)
  moreover have "selection_inv ?s" using inv by (simp add: selection_inv_def offered_def)
  moreover have "offered ?s = offered s" by (simp add: offered_def)
  ultimately have "select_image ?s ?i combined = Inr (s', combined') \<Longrightarrow> selection_inv s' \<and> same_offer ?s s'
      \<and> st_selected_images (sl_stats s') = Suc (st_selected_images (sl_stats s))" for s' combined'
    using select_image_inv [of ?s ?i combined s' combined'] by simp
  moreover have "same_offer s ?s" by (simp add: same_offer_def)
  moreover have "select_image ?s ?i combined = Inl e \<Longrightarrow> \<exists>m. e = Overflow_Error m" for e
    using select_image_error [of ?s ?i combined e] fresh(2) by simp
  ultimately show ?thesis unfolding step
    by (auto split: sum.splits dest: same_offer_trans)
qed

section \<open>The invariant of the two sources\<close>

definition sampling_inv :: "sampling_state \<Rightarrow> bool" where
  "sampling_inv s \<longleftrightarrow> selection_inv (ss_objects s) \<and> selection_inv (ss_opens s)
     \<and> ss_total s = st_selected_images (sl_stats (ss_objects s)) + st_selected_images (sl_stats (ss_opens s))"

definition same_offers :: "sampling_state \<Rightarrow> sampling_state \<Rightarrow> bool" where
  "same_offers s s' \<longleftrightarrow> same_offer (ss_objects s) (ss_objects s') \<and> same_offer (ss_opens s) (ss_opens s')"

text \<open>What a step of the sampler may do: keep the invariant and the offers, or report an overflow.\<close>

definition sound_step :: "sampling_state \<Rightarrow> cxx_error + sampling_state \<Rightarrow> bool" where
  "sound_step s r \<longleftrightarrow> (case r of Inl e \<Rightarrow> (\<exists>m. e = Overflow_Error m)
     | Inr s' \<Rightarrow> sampling_inv s' \<and> same_offers s s')"

text \<open>Two source states that differ in their cursors only.\<close>

definition moved :: "source_selection \<Rightarrow> source_selection \<Rightarrow> bool" where
  "moved s s' \<longleftrightarrow> same_offer s s' \<and> sl_selected s' = sl_selected s \<and> sl_stats s' = sl_stats s
     \<and> (selection_inv s \<longrightarrow> selection_inv s')"

lemma moved_refl [simp]: "moved s s"
  by (simp add: moved_def)

lemma moved_trans: "moved s t \<Longrightarrow> moved t u \<Longrightarrow> moved s u"
  by (auto simp: moved_def dest: same_offer_trans)

lemma cursor_moved: "class_candidate_available s c = (ok, s') \<Longrightarrow> moved s s'"
  unfolding moved_def using cursor_moves by blast

lemma rarest_loop_moved:
  "\<forall>c \<in> set cs. c < kClassCount \<Longrightarrow> chosen \<le> kClassCount \<Longrightarrow>
   rarest_loop combined only allowed cs (objects, opens, chosen, held) = (objects', opens', chosen', held') \<Longrightarrow>
     moved objects objects' \<and> moved opens opens' \<and> chosen' \<le> kClassCount"
proof (induction cs arbitrary: objects opens chosen held)
  case (Cons c cs)
  obtain a objects1 where a: "(if only then (False, objects) else class_candidate_available objects c) = (a, objects1)"
    by fastforce
  obtain b opens1 where b: "(if allowed then class_candidate_available opens c else (False, opens)) = (b, opens1)"
    by fastforce
  have moved: "moved objects objects1" "moved opens opens1"
    using a b by (auto split: if_splits intro: cursor_moved)
  from Cons.prems a b have "moved objects1 objects' \<and> moved opens1 opens' \<and> chosen' \<le> kClassCount"
    by (intro Cons.IH [of "if (a \<or> b) \<and> combined ! c < held then c else chosen" objects1 opens1
          "if (a \<or> b) \<and> combined ! c < held then combined ! c else held"]) (auto split: if_splits)
  with moved show ?case by (blast intro: moved_trans)
qed simp

lemma rarest_moved:
  assumes "rarest_available_class objects opens combined only allowed = (objects', opens', chosen)"
  shows "moved objects objects'" "moved opens opens'" "chosen \<le> kClassCount"
  using assms rarest_loop_moved [of "[0 ..< kClassCount]" kClassCount combined only allowed objects opens size_max]
  by (auto simp: rarest_available_class_def split: prod.splits)

lemma sound_step_bind:
  assumes "sound_step s r" and "\<And>t. sampling_inv t \<Longrightarrow> same_offers s t \<Longrightarrow> sound_step t (f t)"
  shows "sound_step s (bindr r f)"
proof (cases r)
  case (Inr t)
  with assms(1) have t: "sampling_inv t" "same_offers s t" by (auto simp: sound_step_def)
  from assms(2) [OF this] have "sound_step t (f t)" .
  with t(2) have "sound_step s (f t)"
    by (auto simp: sound_step_def same_offers_def split: sum.splits dest: same_offer_trans)
  with Inr show ?thesis by simp
qed (use assms(1) in \<open>simp add: sound_step_def\<close>)

lemma sampling_inv_moved:
  assumes "sampling_inv s" "moved (ss_objects s) objects" "moved (ss_opens s) opens"
  shows "sampling_inv (s\<lparr>ss_objects := objects, ss_opens := opens\<rparr>)"
    "same_offers s (s\<lparr>ss_objects := objects, ss_opens := opens\<rparr>)"
  using assms by (auto simp: sampling_inv_def moved_def same_offers_def)

lemma take_and_select_moved:
  assumes "moved s s1" "moved s1 s2" "selection_inv s" "c < kClassCount"
    and "class_candidate_available s1 c = (True, s2)"
  shows "case take_and_select s2 c combined of
      Inl e \<Rightarrow> (\<exists>m. e = Overflow_Error m)
    | Inr (s', combined') \<Rightarrow> selection_inv s' \<and> same_offer s s'
        \<and> st_selected_images (sl_stats s') = Suc (st_selected_images (sl_stats s))"
proof -
  have "selection_inv s1" "selection_inv s2" using assms(1-3) by (auto simp: moved_def)
  from take_and_select_spec [OF this(2) assms(4,5) this(1), of combined] assms(1,2)
  show ?thesis by (auto split: sum.splits simp: moved_def dest: same_offer_trans)
qed

lemma greedy_round_sound:
  assumes inv: "sampling_inv s"
  shows "case greedy_round b s of Inl e \<Rightarrow> (\<exists>m. e = Overflow_Error m)
    | Inr (s', ok) \<Rightarrow> sampling_inv s' \<and> same_offers s s'"
proof -
  let ?allowed = "open_selected s < sb_ceiling b"
  let ?force = "open_selected s < sb_floor b \<and> wrap64 (open_selected s * sb_target b) \<le> wrap64 (ss_total s * sb_floor b)"
  obtain o1 p1 c1 where first:
    "rarest_available_class (ss_objects s) (ss_opens s) (ss_combined s) ?force ?allowed = (o1, p1, c1)"
    by (metis prod_cases3)
  obtain o2 p2 c2 where second: "(if c1 = kClassCount \<and> ?force
      then rarest_available_class o1 p1 (ss_combined s) False ?allowed else (o1, p1, c1)) = (o2, p2, c2)"
    by (metis prod_cases3)
  have moved: "moved (ss_objects s) o2" "moved (ss_opens s) p2" "c2 \<le> kClassCount"
    using rarest_moved [OF first] second by (auto split: if_splits dest: rarest_moved intro: moved_trans)
  obtain a o3 where third: "(if ?force then (False, o2) else class_candidate_available o2 c2) = (a, o3)"
    by fastforce
  obtain d p3 where fourth: "(if ?allowed then class_candidate_available p2 c2 else (False, p2)) = (d, p3)"
    by fastforce
  have moved3: "moved o2 o3" "moved p2 p3"
    using third fourth by (auto split: if_splits intro: cursor_moved)
  note invs = inv [unfolded sampling_inv_def]
  have round: "greedy_round b s =
     (if c2 = kClassCount then Inr (s\<lparr>ss_objects := o2, ss_opens := p2\<rparr>, False)
      else if a then bindr (take_and_select o3 c2 (ss_combined s)) (\<lambda>(objects, combined).
             Inr (\<lparr>ss_objects = objects, ss_opens = p2, ss_combined = combined, ss_total = ss_total s + 1\<rparr>, True))
      else if d then bindr (take_and_select p3 c2 (ss_combined s)) (\<lambda>(opens, combined).
             Inr (\<lparr>ss_objects = o3, ss_opens = opens, ss_combined = combined, ss_total = ss_total s + 1\<rparr>, True))
      else Inr (s\<lparr>ss_objects := o3, ss_opens := p3\<rparr>, False))"
    unfolding greedy_round_def Let_def first prod.case second third fourth by (rule refl)
  consider "c2 = kClassCount" | "c2 < kClassCount" "a" | "c2 < kClassCount" "\<not> a" "d" | "c2 < kClassCount" "\<not> a" "\<not> d"
    using moved(3) by fastforce
  then show ?thesis
  proof cases
    case 1
    with sampling_inv_moved [OF inv moved(1,2)] show ?thesis unfolding round by simp
  next
    case 2
    with third have "class_candidate_available o2 c2 = (True, o3)" by (auto split: if_splits)
    from take_and_select_moved [OF moved(1) moved3(1) _ 2(1) this, of "ss_combined s"] invs moved(2) 2
    show ?thesis unfolding round
      by (auto simp: sampling_inv_def same_offers_def moved_def split: sum.splits)
  next
    case 3
    with fourth have "class_candidate_available p2 c2 = (True, p3)" by (auto split: if_splits)
    from take_and_select_moved [OF moved(2) moved3(2) _ 3(1) this, of "ss_combined s"] invs
      moved_trans [OF moved(1) moved3(1)] 3
    show ?thesis unfolding round
      by (auto simp: sampling_inv_def same_offers_def moved_def split: sum.splits)
  next
    case 4
    with sampling_inv_moved [OF inv moved_trans [OF moved(1) moved3(1)] moved_trans [OF moved(2) moved3(2)]]
    show ?thesis unfolding round by simp
  qed
qed

lemma greedy_loop_sound: "sampling_inv s \<Longrightarrow> sound_step s (greedy_loop b s)"
proof (induction b s rule: greedy_loop.induct)
  case (1 b s)
  note round = greedy_round_sound [OF 1(2), of b]
  show ?case
  proof (cases "ss_total s < sb_target b")
    case False
    with 1(2) show ?thesis by (simp add: greedy_loop.simps [of b s] sound_step_def same_offers_def)
  next
    case True
    show ?thesis
    proof (cases "greedy_round b s")
      case (Inl e)
      with True round show ?thesis by (simp add: greedy_loop.simps [of b s] sound_step_def)
    next
      case (Inr r)
      obtain s' ok where r: "r = (s', ok)" by (cases r)
      with Inr round have s': "sampling_inv s'" "same_offers s s'" by auto
      with 1(1) [OF True Inr r [symmetric]] have "ok \<Longrightarrow> sound_step s' (greedy_loop b s')" by simp
      with s' have "ok \<Longrightarrow> sound_step s (greedy_loop b s')"
        by (auto simp: sound_step_def same_offers_def split: sum.splits dest: same_offer_trans)
      with True Inr r s' show ?thesis by (simp add: greedy_loop.simps [of b s] sound_step_def [of _ "Inr _"])
    qed
  qed
qed

lemma fill_from_hash_order_spec:
  "selection_inv s \<Longrightarrow> (snd \<circ> snd) ` set images \<subseteq> offered s \<Longrightarrow>
   case fill_from_hash_order target maximum images (s, combined, filled) of
     Inl e \<Rightarrow> (\<exists>m. e = Overflow_Error m)
   | Inr (s', combined', filled') \<Rightarrow> selection_inv s' \<and> same_offer s s'
       \<and> filled' + st_selected_images (sl_stats s) = filled + st_selected_images (sl_stats s')"
proof (induction images arbitrary: s combined filled)
  case (Cons hashed images)
  let ?i = "snd (snd hashed)"
  show ?case
  proof (cases "filled = target \<or> st_selected_images (sl_stats s) = maximum")
    case True
    with Cons.prems show ?thesis by auto
  next
    case continue: False
    show ?thesis
    proof (cases "?i \<in> sl_selected s")
      case True
      with continue Cons show ?thesis by simp
    next
      case False
      show ?thesis
      proof (cases "select_image s ?i combined")
        case (Inl e)
        with select_image_error [OF Inl False] continue False show ?thesis by simp
      next
        case (Inr r)
        obtain s1 combined1 where r: "r = (s1, combined1)" by (cases r)
        have "?i \<in> offered s" using Cons.prems(2) by simp
        note step = select_image_inv [OF Cons.prems(1) this Inr [unfolded r]]
        then have "(snd \<circ> snd) ` set images \<subseteq> offered s1"
          using Cons.prems(2) by (simp add: same_offer_def offered_def)
        with Cons.IH [where s = s1 and combined = combined1 and filled = "filled + 1"] step
        show ?thesis using continue False Inr r
          by (auto split: sum.splits dest: same_offer_trans)
      qed
    qed
  qed
qed auto

lemma fill_objects_sound: "sampling_inv s \<Longrightarrow> sound_step s (fill_objects target maximum s)"
  using fill_from_hash_order_spec [where s = "ss_objects s" and images = "sl_hash_order (ss_objects s)"
      and combined = "ss_combined s" and filled = "ss_total s" and target = target and maximum = maximum]
  by (auto simp: fill_objects_def sound_step_def sampling_inv_def same_offers_def offered_def
      split: sum.splits prod.splits)

lemma fill_opens_sound: "sampling_inv s \<Longrightarrow> sound_step s (fill_opens target maximum s)"
  using fill_from_hash_order_spec [where s = "ss_opens s" and images = "sl_hash_order (ss_opens s)"
      and combined = "ss_combined s" and filled = "ss_total s" and target = target and maximum = maximum]
  by (auto simp: fill_opens_def sound_step_def sampling_inv_def same_offers_def offered_def
      split: sum.splits prod.splits)

lemma fill_budget_spec:
  assumes "sampling_inv s"
  shows "case fill_budget b s of
      Inl e \<Rightarrow> (\<exists>m. e = Overflow_Error m)
        \<or> e = Runtime_Error ''combined supplemental sampler could not fill its exact target''
    | Inr s' \<Rightarrow> sampling_inv s' \<and> same_offers s s' \<and> ss_total s' = sb_target b
        \<and> sb_floor b \<le> open_selected s' \<and> open_selected s' \<le> sb_ceiling b"
proof -
  define run where "run = bindr (greedy_loop b s) (\<lambda>s.
     bindr (fill_objects (sb_target b) (sb_target b - sb_floor b) s) (\<lambda>s.
     bindr (fill_opens (sb_target b) (sb_ceiling b) s) (\<lambda>s. fill_objects (sb_target b) (sb_target b) s)))"
  have "sound_step s run" unfolding run_def
    by (intro sound_step_bind greedy_loop_sound fill_objects_sound fill_opens_sound assms)
  moreover have "fill_budget b s = bindr run (\<lambda>s.
      if ss_total s \<noteq> sb_target b \<or> open_selected s < sb_floor b \<or> open_selected s > sb_ceiling b
      then Inl (Runtime_Error ''combined supplemental sampler could not fill its exact target'') else Inr s)"
    unfolding fill_budget_def run_def
    by (cases "greedy_loop b s"; simp; rename_tac t; case_tac "fill_objects (sb_target b) (sb_target b - sb_floor b) t";
        simp; rename_tac u; case_tac "fill_opens (sb_target b) (sb_ceiling b) u"; simp)
  ultimately show ?thesis by (cases run) (auto simp: sound_step_def not_less)
qed

section \<open>The prepared sources\<close>

lemma hash_images_spec:
  "hash_images source eligible is = Inr images \<Longrightarrow>
     (snd \<circ> snd) ` set images = {i \<in> set is. shard_eligible eligible (ni_source_shard (ai_images source ! i))}"
proof (induction "is" arbitrary: images)
  case (Cons i "is")
  show ?case
  proof (cases "shard_eligible eligible (ni_source_shard (ai_images source ! i))")
    case True
    with Cons.prems obtain rest h n where "hash_images source eligible is = Inr rest" "images = (h, n, i) # rest"
      by (auto simp: bindr_Inr_iff Let_def checked_cast_u32_Inr)
    with Cons.IH [OF this(1)] True show ?thesis by auto
  next
    case False
    with Cons.prems Cons.IH [of images] show ?thesis by auto
  qed
qed simp

lemma foldl_append_sets:
  "c < length cl \<Longrightarrow>
     set (foldl (\<lambda>cl class_id. cl[class_id := cl ! class_id @ [index]]) cl cs ! c) \<subseteq> insert index (set (cl ! c))
   \<and> length (foldl (\<lambda>cl class_id. cl[class_id := cl ! class_id @ [index]]) cl cs) = length cl"
proof (induction cs arbitrary: cl)
  case (Cons d cs)
  let ?cl = "cl[d := cl ! d @ [index]]"
  have "set (?cl ! c) \<subseteq> insert index (set (cl ! c))" by (cases "c = d") (use Cons.prems in auto)
  with Cons.IH [of ?cl] Cons.prems show ?case by auto
qed auto

lemma candidates_offered:
  "c < length cl \<Longrightarrow>
     set (foldl (add_candidate memberships) cl images ! c) \<subseteq> set (cl ! c) \<union> (snd \<circ> snd) ` set images"
proof (induction images arbitrary: cl)
  case (Cons hashed images)
  let ?cl = "add_candidate memberships cl hashed"
  have "c < length ?cl" "set (?cl ! c) \<subseteq> insert (snd (snd hashed)) (set (cl ! c))"
    using foldl_append_sets [OF Cons.prems, of "snd (snd hashed)" "classes_of (memberships ! snd (snd hashed))"] Cons.prems
    by (auto simp: add_candidate_def Let_def)
  with Cons.IH [of ?cl] show ?case by auto
qed simp

lemma make_source_selection_inv:
  assumes "make_source_selection source memberships stats eligible = Inr s"
    and "memberships_of source memberships" "st_selected_images stats = 0"
    and "st_selected_class_images stats = replicate kClassCount 0"
  shows "selection_inv s \<and> sl_source s = source \<and> st_selected_images (sl_stats s) = 0
    \<and> offered s = {i. i < length (ai_images source) \<and> shard_eligible eligible (ni_source_shard (ai_images source ! i))}"
proof -
  from assms(1) obtain images where images: "hash_images source eligible [0 ..< length (ai_images source)] = Inr images"
    and s: "s = \<lparr>sl_source = source, sl_memberships = memberships, sl_hash_order = sort images,
            sl_candidates = foldl (add_candidate memberships) (replicate kClassCount []) (sort images),
            sl_cursors = replicate kClassCount 0, sl_selected = {}, sl_stats = stats,
            sl_selected_boxes = 0, sl_selected_runs = 0\<rparr>"
    by (auto simp: make_source_selection_def bindr_Inr_iff Let_def)
  have offered: "offered s = (snd \<circ> snd) ` set images" by (simp add: s offered_def)
  have "set (sl_candidates s ! c) \<subseteq> offered s" if "c < kClassCount" for c
    using candidates_offered [of c "replicate kClassCount []" memberships "sort images"] that
    unfolding offered by (simp add: s)
  then show ?thesis using assms(2-4) hash_images_spec [OF images] offered
    by (auto simp: selection_inv_def) (auto simp: s)
qed

lemma flag_shards_spec:
  "length xs = count \<Longrightarrow> i < count \<Longrightarrow> foldl (\<lambda>eligible shard. eligible[shard := 1]) xs shards ! i \<noteq> (0 :: nat) \<Longrightarrow>
     i \<in> set shards \<or> xs ! i \<noteq> 0"
proof (induction shards arbitrary: xs)
  case (Cons s shards)
  have "xs[s := 1] ! i = (if i = s then 1 else xs ! i)" using Cons.prems by simp
  with Cons.IH [of "xs[s := 1]"] Cons.prems show ?case by (auto split: if_splits)
qed simp

lemma flag_shards_length: "length (foldl (\<lambda>eligible shard. eligible[shard := 1]) xs shards) = length xs"
  by (induction shards arbitrary: xs) simp_all

lemma shard_eligible_flags:
  "0 < count \<Longrightarrow> shard_eligible (flag_shards count shards) s \<Longrightarrow> s \<in> set shards"
proof -
  assume "0 < count" "shard_eligible (flag_shards count shards) s"
  moreover have "length (flag_shards count shards) = count"
    unfolding flag_shards_def flag_shards_length by simp
  ultimately have "s < count" "flag_shards count shards ! s \<noteq> 0" by (auto simp: shard_eligible_def)
  with flag_shards_spec [of "replicate count 0" count s shards, folded flag_shards_def] show ?thesis by simp
qed

lemma prepare_objects_inv:
  assumes "prepare_objects source shard_bytes required = Inr (shards, archive, s)" "shard_bytes \<noteq> []"
  shows "selection_inv s \<and> sl_source s = source \<and> st_selected_images (sl_stats s) = 0
    \<and> (\<forall>i \<in> offered s. ni_source_shard (ai_images source ! i) \<in> set shards)"
proof -
  from assms(1) obtain stats memberships summaries where
    build: "build_memberships source (replicate (length shard_bytes) empty_summary) = Inr (stats, memberships, summaries)"
    and make: "make_source_selection source memberships stats (flag_shards (length shard_bytes) shards) = Inr s"
    by (auto simp: prepare_objects_def bindr_Inr_iff)
  from build_memberships_holds [OF build] make_source_selection_inv [OF make] assms(2)
  show ?thesis by (auto intro: shard_eligible_flags [of "length shard_bytes"])
qed

lemma prepare_opens_inv:
  assumes "prepare_opens source = Inr s"
  shows "selection_inv s \<and> sl_source s = source \<and> st_selected_images (sl_stats s) = 0"
proof -
  from assms obtain stats memberships summaries where
    build: "build_memberships source [] = Inr (stats, memberships, summaries)"
    and make: "make_source_selection source memberships stats [] = Inr s"
    by (auto simp: prepare_opens_def bindr_Inr_iff)
  from build_memberships_holds [OF build] make_source_selection_inv [OF make] show ?thesis by auto
qed

text \<open>A view of a source whose statistics tell what it holds.\<close>

definition faithful_view :: "annotation_index \<Rightarrow> sampling_view \<Rightarrow> bool" where
  "faithful_view source v \<longleftrightarrow> sorted_wrt (<) (sv_positions v)
     \<and> set (sv_positions v) \<subseteq> {..< length (ai_images source)}
     \<and> st_selected_images (sv_stats v) = length (sv_positions v)
     \<and> (\<forall>c < 80. st_selected_class_images (sv_stats v) ! c
          = card {i \<in> set (sv_positions v). c \<in> image_classes source i})
     \<and> sv_boxes v = (\<Sum>i\<in>set (sv_positions v). ni_box_count (ai_images source ! i))
     \<and> st_selected_boxes (sv_stats v) = sv_boxes v"

lemma selected_view_positions:
  assumes "selection_inv s"
  shows "set (sv_positions (selected_view s)) = sl_selected s"
    "length (sv_positions (selected_view s)) = st_selected_images (sl_stats s)"
proof -
  have "sl_selected s \<subseteq> {..< length (ai_images (sl_source s))}" using assms by (auto simp: selection_inv_def)
  then show set: "set (sv_positions (selected_view s)) = sl_selected s" by (auto simp: selected_view_def)
  have "distinct (sv_positions (selected_view s))" by (simp add: selected_view_def)
  with set show "length (sv_positions (selected_view s)) = st_selected_images (sl_stats s)"
    using assms distinct_card [of "sv_positions (selected_view s)"] by (simp add: selection_inv_def)
qed

lemma selected_view_faithful:
  assumes "selection_inv s"
  shows "faithful_view (sl_source s) (selected_view s)"
proof -
  have "sv_stats (selected_view s) = (sl_stats s)\<lparr>st_selected_boxes := sl_selected_boxes s\<rparr>"
    "sv_boxes (selected_view s) = sl_selected_boxes s"
    "sorted_wrt (<) (sv_positions (selected_view s))"
    by (simp_all add: selected_view_def sorted_wrt_filter)
  moreover have "sl_selected s \<subseteq> {..< length (ai_images (sl_source s))}" using assms by (auto simp: selection_inv_def)
  ultimately show ?thesis
    using assms selected_view_positions [OF assms] by (simp add: faithful_view_def selection_inv_def kClassCount_def)
qed

text \<open>The run of an accepted call.\<close>

lemma sample_combined_run:
  assumes "sample_combined_supplemental_indices coco objects365 open_images shard_bytes = Inr r"
  shows "\<exists>objects opens combined s archive. shard_bytes \<noteq> [] \<and>
    prepare_objects objects365 shard_bytes (sb_target (cs_budget r) - sb_floor (cs_budget r)) = Inr (cs_shards r, archive, objects)
    \<and> prepare_opens open_images = Inr opens
    \<and> fill_budget (cs_budget r) \<lparr>ss_objects = objects, ss_opens = opens, ss_combined = combined, ss_total = 0\<rparr> = Inr s
    \<and> cs_objects365 r = selected_view (ss_objects s) \<and> cs_open_images r = selected_view (ss_opens s)
    \<and> cs_budget r = sampling_budget_of objects365 open_images"
  using assms
  by (fastforce simp: sample_combined_supplemental_indices_def Let_def bindr_Inr_iff split: if_splits)

section \<open>Properties\<close>

text \<open>
  C12: an accepted sample is exactly as large as its target, the Open Images part lies between its floor and its
  ceiling, every Objects365 image comes from a chosen shard, the positions of each source are ascending
  without repetition, and the statistics count the selected images, boxes and images of every class.
\<close>

theorem sampling_exact:
  assumes "sample_combined_supplemental_indices coco objects365 open_images shard_bytes = Inr r"
  shows "length (sv_positions (cs_objects365 r)) + length (sv_positions (cs_open_images r)) = sb_target (cs_budget r)
    \<and> sb_floor (cs_budget r) \<le> length (sv_positions (cs_open_images r))
    \<and> length (sv_positions (cs_open_images r)) \<le> sb_ceiling (cs_budget r)
    \<and> cs_budget r = sampling_budget_of objects365 open_images
    \<and> (\<forall>i \<in> set (sv_positions (cs_objects365 r)). ni_source_shard (ai_images objects365 ! i) \<in> set (cs_shards r))
    \<and> faithful_view objects365 (cs_objects365 r) \<and> faithful_view open_images (cs_open_images r)"
proof -
  from sample_combined_run [OF assms] obtain objects opens combined s archive where
    bytes: "shard_bytes \<noteq> []" and
    run: "prepare_objects objects365 shard_bytes (sb_target (cs_budget r) - sb_floor (cs_budget r)) = Inr (cs_shards r, archive, objects)"
      "prepare_opens open_images = Inr opens"
      "fill_budget (cs_budget r) \<lparr>ss_objects = objects, ss_opens = opens, ss_combined = combined, ss_total = 0\<rparr> = Inr s"
    and views: "cs_objects365 r = selected_view (ss_objects s)" "cs_open_images r = selected_view (ss_opens s)"
      "cs_budget r = sampling_budget_of objects365 open_images"
    by blast
  note objects = prepare_objects_inv [OF run(1) bytes] and opens = prepare_opens_inv [OF run(2)]
  then have "sampling_inv \<lparr>ss_objects = objects, ss_opens = opens, ss_combined = combined, ss_total = 0\<rparr>"
    by (simp add: sampling_inv_def)
  from fill_budget_spec [OF this, of "cs_budget r"] run(3)
  have s: "selection_inv (ss_objects s)" "selection_inv (ss_opens s)" "same_offer objects (ss_objects s)" "same_offer opens (ss_opens s)"
    and counts: "st_selected_images (sl_stats (ss_objects s)) + st_selected_images (sl_stats (ss_opens s)) = sb_target (cs_budget r)"
      "sb_floor (cs_budget r) \<le> open_selected s" "open_selected s \<le> sb_ceiling (cs_budget r)"
    by (auto simp: sampling_inv_def same_offers_def)
  have sources: "sl_source (ss_objects s) = objects365" "sl_source (ss_opens s) = open_images"
    using s(3,4) objects opens by (simp_all add: same_offer_def)
  have "sl_selected (ss_objects s) \<subseteq> offered objects"
    using s(1,3) by (simp add: selection_inv_def same_offer_def offered_def)
  with objects have "\<forall>i \<in> sl_selected (ss_objects s). ni_source_shard (ai_images objects365 ! i) \<in> set (cs_shards r)" by blast
  with counts views selected_view_positions [OF s(1)] selected_view_positions [OF s(2)]
    selected_view_faithful [OF s(1)] selected_view_faithful [OF s(2)] sources
  show ?thesis by (simp add: open_selected_def)
qed

text \<open>A run on two sources of six images with one box of class 0 each.\<close>

definition example_index :: "dataset_source \<Rightarrow> annotation_index" where
  "example_index source = \<lparr>ai_source = source,
     ai_images = replicate 6 \<lparr>ni_source_image_id = 0, ni_first_box = 0, ni_box_count = 1, ni_source_shard = 0\<rparr>,
     ai_boxes = [\<lparr>nb_mask_rle_pairs = 0, nb_class_id = 0\<rparr>]\<rparr>"

definition example_membership :: class_membership where
  "example_membership = \<lparr>cm_low = 1, cm_high = 0, cm_mask_runs = 0\<rparr>"

definition example_counts :: "nat \<Rightarrow> nat list" where
  "example_counts n = (replicate kClassCount 0)[0 := n]"

definition example_source :: "dataset_source \<Rightarrow> nat list \<Rightarrow> source_selection" where
  "example_source source cursors = \<lparr>sl_source = example_index source, sl_memberships = replicate 6 example_membership,
     sl_hash_order = map (\<lambda>i. (sampling_hash source 0, 0, i)) [0 ..< 6],
     sl_candidates = (replicate kClassCount [])[0 := [0 ..< 6]], sl_cursors = cursors, sl_selected = {},
     sl_stats = empty_stats\<lparr>st_full_images := 6, st_full_boxes := 1, st_available_class_images := example_counts 6\<rparr>,
     sl_selected_boxes = 0, sl_selected_runs = 0\<rparr>"

lemma classes_positive [simp]: "0 < kClassCount" "kClassCount \<noteq> 0"
  by (simp_all add: kClassCount_def)

lemma example_classes [simp]: "classes_of example_membership = [0]"
proof -
  have "cursor_next (1, 0) = Some (0, 0, 0)"
    by (simp add: cursor_next_def countr_zero.simps clear_lowest_def)
  moreover have "cursor_next (0, 0) = None" by (simp add: cursor_next_def)
  ultimately show ?thesis
    by (simp add: classes_of_def example_membership_def cursor_classes.simps [of "(1, 0)"] cursor_classes.simps [of "(0, 0)"]
        del: One_nat_def)
qed

lemma example_bump [simp]: "bump_classes (example_counts n) example_membership = example_counts (Suc n)"
  by (simp add: bump_classes_def bump_def example_counts_def)

lemma example_counts_0: "replicate kClassCount 0 = example_counts 0"
  by (rule nth_equalityI) (simp_all add: example_counts_def nth_list_update)

lemma example_scan:
  "scan_boxes [\<lparr>nb_mask_rle_pairs = 0, nb_class_id = 0\<rparr>] \<lparr>cm_low = 0, cm_high = 0, cm_mask_runs = 0\<rparr> = Inr example_membership"
  by (simp add: checked_add_size_def add_class_def example_membership_def)

lemma example_build_images:
  "build_images [\<lparr>nb_mask_rle_pairs = 0, nb_class_id = 0\<rparr>]
     (replicate n \<lparr>ni_source_image_id = 0, ni_first_box = 0, ni_box_count = 1, ni_source_shard = 0\<rparr>)
     (example_counts k, ms, if sharded then [\<lparr>ss_images = k, ss_class_images = example_counts k\<rparr>] else [])
   = Inr (example_counts (k + n), ms @ replicate n example_membership,
      if sharded then [\<lparr>ss_images = k + n, ss_class_images = example_counts (k + n)\<rparr>] else [])"
proof (induction n arbitrary: k ms)
  case (Suc n)
  have "cm_low example_membership \<noteq> 0" by (simp add: example_membership_def)
  with Suc.IH [of "Suc k" "ms @ [example_membership]"] show ?case
    by (cases sharded) (simp_all add: example_scan del: scan_boxes.simps)
qed simp

lemma example_build:
  "build_memberships (example_index source) (if sharded then [empty_summary] else []) =
     Inr (empty_stats\<lparr>st_full_images := 6, st_full_boxes := 1, st_available_class_images := example_counts 6\<rparr>,
       replicate 6 example_membership, if sharded then [\<lparr>ss_images = 6, ss_class_images = example_counts 6\<rparr>] else [])"
proof -
  have "(if sharded then [empty_summary] else [])
      = (if sharded then [\<lparr>ss_images = 0, ss_class_images = example_counts 0\<rparr>] else [])"
    by (simp add: empty_summary_def example_counts_0)
  then show ?thesis
    using example_build_images [of 6 0 "[]" sharded]
    by (cases sharded) (simp_all add: build_memberships_def example_index_def example_counts_0)
qed

lemma example_targets: "coverage_targets (example_counts 6) = example_counts 6"
  by (rule nth_equalityI)
    (auto simp: coverage_targets_def example_counts_def nth_list_update kShardClassCoverageFloor_def)

lemma example_shards:
  "choose_objects365_shards [\<lparr>ss_images = 6, ss_class_images = example_counts 6\<rparr>] (example_counts 6) [10] 1 = Inr ([0], 10)"
proof -
  let ?sums = "[\<lparr>ss_images = 6, ss_class_images = example_counts 6\<rparr>]"
  let ?none = "\<lparr>sc_selected = {}, sc_coverage = replicate kClassCount 0, sc_images = 0, sc_bytes = 0, sc_result = []\<rparr>"
  let ?one = "\<lparr>sc_selected = {0}, sc_coverage = example_counts 6, sc_images = 6, sc_bytes = 10, sc_result = [0]\<rparr>"
  have "map (\<lambda>c. replicate kClassCount 0 ! c + example_counts 6 ! c) [0 ..< kClassCount] = example_counts 6"
    by (rule nth_equalityI) (simp_all add: example_counts_def nth_list_update)
  then have take: "take_shard ?sums [10] 0 ?none = ?one" by (simp add: take_shard_def)
  have "covers (example_counts 6) (example_counts 6)" by (simp add: covers_def list_all2_refl)
  then have "choose_loop ?sums [10] 2 (example_counts 6) ?one = Inr ?one"
    by (simp add: choose_loop.simps)
  then have "choose_loop ?sums [10] 2 (example_counts 6) ?none = Inr ?one"
    using take by (subst choose_loop.simps) simp
  moreover have "needed ?sums 2 (example_counts 6) ?one 0" by (simp add: needed_def)
  moreover have "headroom 1 = 2"
    by (simp add: headroom_def kShardCandidateHeadroomNumerator_def kShardCandidateHeadroomDenominator_def)
  ultimately show ?thesis
    by (simp add: choose_objects365_shards_def example_targets del: One_nat_def)
qed

lemma example_make:
  assumes "eligible = [] \<or> eligible = [1]"
  shows "make_source_selection (example_index source) (replicate 6 example_membership)
     (empty_stats\<lparr>st_full_images := 6, st_full_boxes := 1, st_available_class_images := example_counts 6\<rparr>) eligible
   = Inr (example_source source (replicate kClassCount 0))"
proof -
  let ?order = "map (\<lambda>i. (sampling_hash source 0, 0 :: u64, i)) [0 ..< 6]"
  have six: "[0 ..< 6] = [0, 1, 2, 3, 4, 5 :: nat]" by (simp add: upt_rec)
  have eligible: "shard_eligible eligible 0" using assms by (auto simp: shard_eligible_def)
  have "hash_images (example_index source) eligible is = Inr (map (\<lambda>i. (sampling_hash source 0, 0, i)) is)"
    if "\<forall>i \<in> set is. i < 6" for "is"
    using that eligible by (induction "is") (simp_all add: example_index_def)
  then have "hash_images (example_index source) eligible [0 ..< 6] = Inr ?order" by simp
  moreover have "sorted ?order" by (simp add: sorted_map sorted_wrt_map less_eq_prod_def)
  then have "sort ?order = ?order" by (rule sorted_sort_id)
  moreover have "foldl (add_candidate (replicate 6 example_membership)) (replicate kClassCount []) ?order
      = (replicate kClassCount [])[0 := [0 ..< 6]]"
    by (simp add: six add_candidate_def nth_Cons' del: replicate.simps)
  moreover have "length (ai_images (example_index source)) = 6" by (simp add: example_index_def)
  ultimately show ?thesis by (simp add: make_source_selection_def example_source_def)
qed

text \<open>Only class 0 has candidates, so the other classes change nothing.\<close>

lemma no_candidate: "sl_candidates s ! c = [] \<Longrightarrow> class_candidate_available s c = (False, s)"
  by (simp add: class_candidate_available_def Let_def)

lemma rarest_loop_none:
  "\<forall>c \<in> set cs. sl_candidates objects ! c = [] \<and> sl_candidates opens ! c = [] \<Longrightarrow>
     rarest_loop combined only allowed cs (objects, opens, chosen, held) = (objects, opens, chosen, held)"
proof (induction cs)
  case (Cons c cs)
  then show ?case by (cases only; cases allowed) (simp_all add: no_candidate)
qed simp

definition example_taken :: "dataset_source \<Rightarrow> source_selection" where
  "example_taken source = (example_source source ((replicate kClassCount 0)[0 := 1]))
     \<lparr>sl_selected := {0}, sl_selected_boxes := 1,
      sl_stats := empty_stats\<lparr>st_full_images := 6, st_full_boxes := 1, st_selected_images := 1,
        st_available_class_images := example_counts 6, st_selected_class_images := example_counts 1\<rparr>\<rparr>"

abbreviation example_start :: "dataset_source \<Rightarrow> source_selection" where
  "example_start source \<equiv> example_source source (replicate kClassCount 0)"

lemma example_available: "class_candidate_available (example_start source) 0 = (True, example_start source)"
proof -
  have "(replicate kClassCount 0)[0 := 0] = replicate kClassCount (0 :: nat)"
    by (rule nth_equalityI) (simp_all add: nth_list_update)
  then show ?thesis by (simp add: class_candidate_available_def Let_def example_source_def upt_rec)
qed

lemma example_take: "take_and_select (example_start source) 0 combined =
    Inr (example_taken source, bump_classes combined example_membership)"
proof -
  let ?s = "example_start source"
  have "sl_candidates ?s ! 0 = [0 ..< 6]" by (simp add: example_source_def)
  then have "sl_candidates ?s ! 0 ! 0 = 0" by simp
  moreover have "sl_cursors ?s = replicate kClassCount 0" "sl_selected ?s = {}" "sl_selected_boxes ?s = 0"
    "sl_selected_runs ?s = 0" "sl_memberships ?s ! 0 = example_membership"
    "ni_box_count (ai_images (sl_source ?s) ! 0) = 1"
    by (simp_all add: example_source_def example_index_def)
  moreover have "cm_mask_runs example_membership = 0" by (simp add: example_membership_def)
  moreover have "st_selected_class_images (sl_stats ?s) = example_counts 0"
    by (simp add: example_source_def empty_stats_def example_counts_0)
  ultimately show ?thesis
    by (simp add: take_and_select_def take_class_candidate_def example_available select_image_def Let_def
        checked_add_size_def example_taken_def)
      (simp add: example_source_def empty_stats_def)
qed

lemma example_rarest:
  assumes "sl_candidates objects = (replicate kClassCount [])[0 := xs]"
    and "sl_candidates opens = (replicate kClassCount [])[0 := ys]"
  shows "rarest_available_class objects opens (example_counts n) only allowed =
     (let (a, objects) = (if only then (False, objects) else class_candidate_available objects 0);
          (b, opens) = (if allowed then class_candidate_available opens 0 else (False, opens))
      in (objects, opens, if (a \<or> b) \<and> n < size_max then 0 else kClassCount))"
proof -
  have "[0 ..< kClassCount] = 0 # [1 ..< kClassCount]" by (simp add: upt_conv_Cons)
  moreover have "rarest_loop combined only allowed [1 ..< kClassCount] (o', p', chosen, held) = (o', p', chosen, held)"
    if "sl_candidates o' = sl_candidates objects" "sl_candidates p' = sl_candidates opens" for o' p' combined chosen held
    using that assms by (intro rarest_loop_none) auto
  moreover obtain a o1 where a: "(if only then (False, objects) else class_candidate_available objects 0) = (a, o1)"
    by fastforce
  moreover obtain b p1 where b: "(if allowed then class_candidate_available opens 0 else (False, opens)) = (b, p1)"
    by fastforce
  moreover have "sl_candidates o1 = sl_candidates objects" "sl_candidates p1 = sl_candidates opens"
    using a b cursor_moves(1) by (auto simp: same_offer_def split: if_splits)
  moreover have "example_counts n ! 0 = n" by (simp add: example_counts_def)
  ultimately show ?thesis
    by (simp add: rarest_available_class_def del: One_nat_def)
qed

lemma example_candidates:
  "sl_candidates (example_source source cs) = (replicate kClassCount [])[0 := [0 ..< 6]]"
  "sl_candidates (example_taken source) = (replicate kClassCount [])[0 := [0 ..< 6]]"
  by (simp_all add: example_source_def example_taken_def)

lemma example_fill:
  "fill_budget \<lparr>sb_target = 2, sb_floor = 1, sb_ceiling = 1\<rparr>
     \<lparr>ss_objects = example_start Objects365V2, ss_opens = example_start OpenImagesV7,
      ss_combined = example_counts 6, ss_total = 0\<rparr>
   = Inr \<lparr>ss_objects = example_taken Objects365V2, ss_opens = example_taken OpenImagesV7,
      ss_combined = example_counts 8, ss_total = 2\<rparr>"
proof -
  let ?b = "\<lparr>sb_target = 2, sb_floor = 1, sb_ceiling = 1\<rparr>"
  let ?O = "example_start Objects365V2" and ?P = "example_start OpenImagesV7"
  let ?O1 = "example_taken Objects365V2" and ?P1 = "example_taken OpenImagesV7"
  let ?s0 = "\<lparr>ss_objects = ?O, ss_opens = ?P, ss_combined = example_counts 6, ss_total = 0\<rparr>"
  let ?s1 = "\<lparr>ss_objects = ?O, ss_opens = ?P1, ss_combined = example_counts 7, ss_total = 1\<rparr>"
  let ?s2 = "\<lparr>ss_objects = ?O1, ss_opens = ?P1, ss_combined = example_counts 8, ss_total = 2\<rparr>"
  have sel: "st_selected_images (sl_stats ?P) = 0" "st_selected_images (sl_stats ?P1) = 1"
    by (simp_all add: example_source_def example_taken_def empty_stats_def)
  note defs = greedy_round_def open_selected_def example_available example_take
  note rarest = example_rarest [OF example_candidates(1) example_candidates(1)]
    example_rarest [OF example_candidates(1) example_candidates(2)]
  have "greedy_round ?b ?s0 = Inr (?s1, True)"
    by (simp add: defs sel rarest)
  moreover have "greedy_round ?b ?s1 = Inr (?s2, True)"
    by (simp add: defs sel rarest)
  ultimately have "greedy_loop ?b ?s0 = Inr ?s2"
    by (simp add: greedy_loop.simps [of ?b ?s0] greedy_loop.simps [of ?b ?s1] greedy_loop.simps [of ?b ?s2] del: One_nat_def)
  moreover have "fill_from_hash_order 2 m xs (s, combined, 2) = Inr (s, combined, 2)" for m xs s combined
    by (cases xs) simp_all
  ultimately show ?thesis
    by (simp add: fill_budget_def fill_objects_def fill_opens_def open_selected_def sel)
qed

theorem sampling_exact_witness:
  "\<exists>r. sample_combined_supplemental_indices (example_index Coco2017) (example_index Objects365V2)
       (example_index OpenImagesV7) [10] = Inr r
     \<and> length (sv_positions (cs_objects365 r)) + length (sv_positions (cs_open_images r)) = 2"
proof -
  have b: "sampling_budget_of (example_index Objects365V2) (example_index OpenImagesV7)
      = \<lparr>sb_target = 2, sb_floor = 1, sb_ceiling = 1\<rparr>"
    by (simp add: sampling_budget_of_def example_index_def kSupplementalBudgetDenominator_def
        kOpenImagesDiversityDenominator_def kOpenImagesMaximumDenominator_def)
  have "flag_shards 1 [0] = [1]" by (simp add: flag_shards_def)
  then have objects: "prepare_objects (example_index Objects365V2) [10] 1 = Inr ([0], 10, example_start Objects365V2)"
    using example_build [of Objects365V2 True] example_shards example_make [of "[1]" Objects365V2]
    by (simp add: prepare_objects_def del: One_nat_def) (simp add: One_nat_def)
  have opens: "prepare_opens (example_index OpenImagesV7) = Inr (example_start OpenImagesV7)"
    using example_build [of OpenImagesV7 False] example_make [of "[]" OpenImagesV7]
    by (simp add: prepare_opens_def)
  have coco: "build_memberships (example_index Coco2017) [] =
      Inr (empty_stats\<lparr>st_full_images := 6, st_full_boxes := 1, st_available_class_images := example_counts 6\<rparr>,
        replicate 6 example_membership, [])"
    using example_build [of Coco2017 False] by simp
  have "ai_source (example_index source) = source" "length (ai_images (example_index source)) = 6" for source
    by (simp_all add: example_index_def)
  with objects opens coco example_fill obtain r where
    "sample_combined_supplemental_indices (example_index Coco2017) (example_index Objects365V2)
       (example_index OpenImagesV7) [10] = Inr r"
    by (simp add: sample_combined_supplemental_indices_def b kSupplementalBudgetDenominator_def)
  with sampling_exact [OF this] b show ?thesis by auto
qed

text \<open>The two errors that report a broken selection.\<close>

definition internal_errors :: "cxx_error set" where
  "internal_errors = {Runtime_Error ''supplemental sampler selected an image twice'',
     Runtime_Error ''supplemental class candidate unexpectedly exhausted''}"

lemma internal_errors_simps [simp]:
  "Overflow_Error m \<notin> internal_errors"
  "Runtime_Error m \<in> internal_errors \<longleftrightarrow> m = ''supplemental sampler selected an image twice''
     \<or> m = ''supplemental class candidate unexpectedly exhausted''"
  by (auto simp: internal_errors_def)

lemma scan_boxes_error: "scan_boxes boxes m = Inl e \<Longrightarrow> e \<notin> internal_errors"
  by (induction boxes arbitrary: m) (auto simp: bindr_Inl_iff checked_add_size_def split: if_splits)

lemma build_images_error: "build_images boxes images build = Inl e \<Longrightarrow> e \<notin> internal_errors"
proof (induction images arbitrary: build)
  case (Cons img images)
  obtain counts memberships shards where "build = (counts, memberships, shards)" by (cases build)
  with Cons.prems show ?case
    by (auto simp: Let_def bindr_Inl_iff dest: scan_boxes_error Cons.IH split: if_splits)
qed simp

lemma choose_loop_error: "choose_loop summaries bytes room targets choice = Inl e \<Longrightarrow> e \<notin> internal_errors"
proof (induction summaries bytes room targets choice rule: choose_loop.induct)
  case (1 summaries bytes room targets choice)
  let ?best = "best_shard summaries bytes room targets choice (length summaries) None [0 ..< length summaries]"
  show ?case
  proof (cases "(sc_images choice < room \<or> \<not> covers (sc_coverage choice) targets) \<and> ?best \<noteq> length summaries \<and> \<not> ?best > 65535")
    case True
    with 1(2) have "choose_loop summaries bytes room targets (take_shard summaries bytes ?best choice) = Inl e"
      by (simp add: choose_loop.simps [of summaries bytes room targets choice] Let_def)
    with 1(1) [OF _ refl] True show ?thesis by blast
  next
    case False
    with 1(2) show ?thesis
      by (auto simp: choose_loop.simps [of summaries bytes room targets choice] Let_def split: if_splits)
  qed
qed

lemma hash_images_error: "hash_images source eligible is = Inl e \<Longrightarrow> e \<notin> internal_errors"
  by (induction "is")
    (auto simp: bindr_Inl_iff checked_cast_u32_def Let_def split: if_splits)

lemma prepare_errors:
  "build_memberships source shards = Inl e \<Longrightarrow> e \<notin> internal_errors"
  "prepare_objects source bytes required = Inl e \<Longrightarrow> e \<notin> internal_errors"
  "prepare_opens source = Inl e \<Longrightarrow> e \<notin> internal_errors"
  by (auto simp: build_memberships_def prepare_objects_def prepare_opens_def choose_objects365_shards_def
      make_source_selection_def Let_def bindr_Inl_iff
      dest: build_images_error choose_loop_error hash_images_error)

text \<open>
  C14: whatever its inputs, the sampler never selects an image twice and never runs out of the candidates of a
  class that it has just found available.
\<close>

theorem sampling_never_breaks:
  "sample_combined_supplemental_indices coco objects365 open_images shard_bytes
     \<noteq> Inl (Runtime_Error ''supplemental sampler selected an image twice'')
   \<and> sample_combined_supplemental_indices coco objects365 open_images shard_bytes
     \<noteq> Inl (Runtime_Error ''supplemental class candidate unexpectedly exhausted'')"
proof -
  have "e \<notin> internal_errors"
    if run: "sample_combined_supplemental_indices coco objects365 open_images shard_bytes = Inl e" for e
  proof -
    have fill: "e \<notin> internal_errors"
      if "prepare_objects objects365 shard_bytes required = Inr (shards, archive, objects)" "shard_bytes \<noteq> []"
        "prepare_opens open_images = Inr opens"
        "fill_budget b \<lparr>ss_objects = objects, ss_opens = opens, ss_combined = combined, ss_total = 0\<rparr> = Inl e"
      for b required shards archive objects opens combined
      using fill_budget_spec [of "\<lparr>ss_objects = objects, ss_opens = opens, ss_combined = combined, ss_total = 0\<rparr>" b]
        prepare_objects_inv [OF that(1,2)] prepare_opens_inv [OF that(3)] that(4)
      by (auto simp: sampling_inv_def)
    from run show ?thesis
      unfolding sample_combined_supplemental_indices_def
      by (auto simp: Let_def bindr_Inl_iff split: if_splits dest: prepare_errors fill)
  qed
  then show ?thesis by force
qed

end
