(* ===== verification/Class_Catalog.thy ===== *)
theory Class_Catalog
  imports Keypoint_Schema
begin

text \<open>
  The ordered class catalog (\<open>src/backend/data/catalog/class_catalog.cpp\<close>, \<open>class_catalog.h\<close>): admission of
  class names with their keypoint schemas, lookup by name, the record a catalog is persisted as, equality,
  and the permutation that takes the classes of one catalog to those of another. A name is a list of bytes;
  the lookup table is a map from names to indices.
\<close>

section \<open>Catalogs\<close>

definition kClassCatalogCapacity :: nat where "kClassCatalogCapacity = 256"
definition kClassNameCapacity :: nat where "kClassNameCapacity = 256"

record ordered_class_catalog =
  oc_names :: "byte list list"
  oc_keypoints :: "class_keypoint_schema list option"

record class_catalog =
  cc_names :: "byte list list"
  cc_keypoints :: "class_keypoint_schema list"
  cc_lookup :: "byte list \<Rightarrow> nat option"

definition checked_foreground_index :: "nat \<Rightarrow> cxx_error + nat" where
  "checked_foreground_index index =
     (if index \<ge> kClassCatalogCapacity
      then Inl (Invalid_Argument ''foreground index exceeds supported class capacity'') else Inr (index mod 256))"

definition class_name_valid :: "byte list \<Rightarrow> bool" where
  "class_name_valid name \<longleftrightarrow> name \<noteq> [] \<and> length name \<le> kClassNameCapacity \<and> 0 \<notin> set name"

section \<open>Admission\<close>

text \<open>The loop over the names with the lookup table so far.\<close>

fun admit_names :: "nat \<Rightarrow> nat \<Rightarrow> (byte list \<Rightarrow> nat option) \<Rightarrow> byte list list \<Rightarrow> cxx_error + (byte list \<Rightarrow> nat option)" where
  "admit_names capacity index lookup [] = Inr lookup"
| "admit_names capacity index lookup (name # rest) =
     (if name = [] \<or> length name > capacity \<or> 0 \<in> set name
      then Inl (Invalid_Argument ''class catalog contains an empty, NUL-containing, or overlong name'')
      else if lookup name \<noteq> None
      then Inl (Invalid_Argument (''class catalog contains duplicate name: '' @ text_of name))
      else admit_names capacity (index + 1) (lookup(name \<mapsto> wrap32 index)) rest)"

definition catalog_of_names :: "byte list list \<Rightarrow> nat \<Rightarrow> cxx_error + class_catalog" where
  "catalog_of_names names name_capacity =
     (if length names > kClassCatalogCapacity \<or> name_capacity > kClassNameCapacity
      then Inl (Invalid_Argument ''class catalog exceeds supported capacity'')
      else bindr (admit_names name_capacity 0 (\<lambda>_. None) names) (\<lambda>lookup.
             Inr \<lparr>cc_names = names, cc_keypoints = [], cc_lookup = lookup\<rparr>))"

fun validate_schemas :: "class_keypoint_schema list \<Rightarrow> cxx_error + unit" where
  "validate_schemas [] = Inr ()"
| "validate_schemas (schema # rest) = bindr (validate_keypoint_schema schema) (\<lambda>_. validate_schemas rest)"

definition has_keypoints :: "class_catalog \<Rightarrow> bool" where
  "has_keypoints c = list_ex (\<lambda>schema. ks_names schema \<noteq> []) (cc_keypoints c)"

definition catalog_of_record :: "ordered_class_catalog \<Rightarrow> cxx_error + class_catalog" where
  "catalog_of_record record =
     (if length (oc_names record) > kClassCatalogCapacity
      then Inl (Invalid_Argument ''class catalog exceeds supported capacity'')
      else bindr (catalog_of_names (oc_names record) kClassNameCapacity) (\<lambda>c.
             case oc_keypoints record of
               None \<Rightarrow> Inr c
             | Some schemas \<Rightarrow>
                 if length schemas \<noteq> length (cc_names c)
                 then Inl (Invalid_Argument ''class catalog keypoint schema count disagrees with foreground count'')
                 else bindr (validate_schemas schemas) (\<lambda>_.
                   let admitted = c\<lparr>cc_keypoints := schemas\<rparr>
                   in Inr (if has_keypoints admitted then admitted else admitted\<lparr>cc_keypoints := []\<rparr>))))"

section \<open>Operations\<close>

definition resolve :: "class_catalog \<Rightarrow> byte list \<Rightarrow> nat option" where
  "resolve c name = cc_lookup c name"

definition empty_schema :: class_keypoint_schema where
  "empty_schema = \<lparr>ks_names = [], ks_skeleton = [], ks_flip = [], ks_sigmas = []\<rparr>"

definition catalog_keypoints :: "class_catalog \<Rightarrow> nat \<Rightarrow> cxx_error + class_keypoint_schema" where
  "catalog_keypoints c index =
     (if index \<ge> length (cc_names c)
      then Inl (Invalid_Argument ''foreground index exceeds admitted class catalog'')
      else Inr (if cc_keypoints c = [] then empty_schema else cc_keypoints c ! index))"

text \<open>\<open>permutation_to\<close>: the loop over the classes of the source.\<close>

fun permutation_loop :: "class_catalog \<Rightarrow> class_catalog \<Rightarrow> nat list \<Rightarrow> cxx_error + nat list" where
  "permutation_loop c destination [] = Inr []"
| "permutation_loop c destination (source # rest) =
     (case resolve destination (cc_names c ! source) of
        None \<Rightarrow> Inl (Invalid_Argument ''class catalogs have different foreground sets'')
      | Some index \<Rightarrow>
          bindr (catalog_keypoints c source) (\<lambda>joints.
          bindr (catalog_keypoints destination index) (\<lambda>joints'.
          bindr (if ks_names joints \<noteq> [] \<or> ks_names joints' \<noteq> []
                 then bindr (keypoint_permutation joints joints') (\<lambda>_. Inr ()) else Inr ()) (\<lambda>_.
          bindr (permutation_loop c destination rest) (\<lambda>permutation. Inr (index # permutation))))))"

definition permutation_to :: "class_catalog \<Rightarrow> class_catalog \<Rightarrow> cxx_error + nat list" where
  "permutation_to c destination =
     (if length (cc_names c) \<noteq> length (cc_names destination)
      then Inl (Invalid_Argument ''class catalogs have different foreground sets'')
      else permutation_loop c destination [0 ..< length (cc_names c)])"

definition catalog_record :: "class_catalog \<Rightarrow> ordered_class_catalog" where
  "catalog_record c = \<lparr>oc_names = cc_names c,
     oc_keypoints = (if cc_keypoints c = [] then None else Some (cc_keypoints c))\<rparr>"

text \<open>Schemas are compared member by member, sigmas as doubles.\<close>

definition schema_equal :: "class_keypoint_schema \<Rightarrow> class_keypoint_schema \<Rightarrow> bool" where
  "schema_equal a b \<longleftrightarrow> ks_names a = ks_names b \<and> ks_skeleton a = ks_skeleton b \<and> ks_flip a = ks_flip b
     \<and> list_all2 double_eq (ks_sigmas a) (ks_sigmas b)"

definition ordered_equal :: "class_catalog \<Rightarrow> class_catalog \<Rightarrow> bool" where
  "ordered_equal c other \<longleftrightarrow> cc_names c = cc_names other \<and>
     list_all (\<lambda>index. case (catalog_keypoints c index, catalog_keypoints other index) of
         (Inr a, Inr b) \<Rightarrow> schema_equal a b | _ \<Rightarrow> False) [0 ..< length (cc_names c)]"

section \<open>Admitted catalogs\<close>

text \<open>What admission establishes of a catalog.\<close>

definition catalog_ok :: "class_catalog \<Rightarrow> bool" where
  "catalog_ok c \<longleftrightarrow> length (cc_names c) \<le> 256 \<and> distinct (cc_names c) \<and> list_all class_name_valid (cc_names c)
     \<and> (\<forall>name i. cc_lookup c name = Some i \<longleftrightarrow> i < length (cc_names c) \<and> cc_names c ! i = name)
     \<and> (cc_keypoints c = [] \<or> length (cc_keypoints c) = length (cc_names c) \<and> has_keypoints c)
     \<and> list_all schema_valid (cc_keypoints c)"

lemma admit_names_spec:
  "admit_names capacity index lookup names = Inr lookup' \<Longrightarrow> index + length names \<le> 256 \<Longrightarrow>
     distinct names \<and> list_all (\<lambda>n. n \<noteq> [] \<and> length n \<le> capacity \<and> 0 \<notin> set n) names
     \<and> (\<forall>n \<in> set names. lookup n = None)
     \<and> (\<forall>n i. lookup' n = Some i \<longleftrightarrow> lookup n = Some i \<or> (\<exists>j < length names. names ! j = n \<and> i = index + j))"
proof (induction names arbitrary: index lookup)
  case (Cons name names)
  let ?lookup = "lookup(name \<mapsto> index)"
  from Cons.prems have step: "admit_names capacity (index + 1) ?lookup names = Inr lookup'"
    and new: "lookup name = None" "name \<noteq> []" "length name \<le> capacity" "0 \<notin> set name"
    by (auto split: if_splits)
  from Cons.IH [OF step] Cons.prems(2) have IH: "distinct names"
    "list_all (\<lambda>n. n \<noteq> [] \<and> length n \<le> capacity \<and> 0 \<notin> set n) names"
    "\<forall>n \<in> set names. ?lookup n = None"
    "\<And>n i. lookup' n = Some i \<longleftrightarrow> ?lookup n = Some i \<or> (\<exists>j < length names. names ! j = n \<and> i = index + 1 + j)"
    by auto
  have fresh: "name \<notin> set names" "\<forall>n \<in> set names. lookup n = None"
    using IH(3) by (auto split: if_splits)
  have "lookup' n = Some i \<longleftrightarrow>
      lookup n = Some i \<or> (\<exists>j < length (name # names). (name # names) ! j = n \<and> i = index + j)" for n i
    using fresh new(1) unfolding IH(4) by (auto simp: less_Suc_eq_0_disj in_set_conv_nth)
  with IH(1,2) fresh new show ?case by simp
qed simp

lemma catalog_of_names_ok:
  assumes "catalog_of_names names kClassNameCapacity = Inr c"
  shows "catalog_ok c \<and> cc_names c = names \<and> cc_keypoints c = []"
proof -
  from assms obtain lookup where c: "admit_names kClassNameCapacity 0 (\<lambda>_. None) names = Inr lookup"
    "c = \<lparr>cc_names = names, cc_keypoints = [], cc_lookup = lookup\<rparr>" "length names \<le> 256"
    by (auto simp: catalog_of_names_def bindr_Inr_iff kClassCatalogCapacity_def split: if_splits)
  from admit_names_spec [OF c(1)] c(2,3) show ?thesis
    by (auto simp: catalog_ok_def class_name_valid_def list_all_iff)
qed

lemma validate_schemas_iff: "validate_schemas schemas = Inr () \<longleftrightarrow> list_all schema_valid schemas"
  by (induction schemas) (auto simp: bindr_Inr_iff validate_keypoint_schema_iff)

lemma catalog_of_record_ok:
  assumes "catalog_of_record record = Inr c"
  shows "catalog_ok c \<and> cc_names c = oc_names record"
proof -
  from assms obtain c0 where c0: "catalog_of_names (oc_names record) kClassNameCapacity = Inr c0"
    by (auto simp: catalog_of_record_def bindr_Inr_iff split: if_splits)
  note ok = catalog_of_names_ok [OF c0]
  show ?thesis
  proof (cases "oc_keypoints record")
    case None
    with assms c0 ok show ?thesis by (simp add: catalog_of_record_def split: if_splits)
  next
    case (Some schemas)
    with assms c0 have "length schemas = length (cc_names c0)" "list_all schema_valid schemas"
      "c = (if has_keypoints (c0\<lparr>cc_keypoints := schemas\<rparr>) then c0\<lparr>cc_keypoints := schemas\<rparr>
            else c0\<lparr>cc_keypoints := []\<rparr>)"
      by (auto simp: catalog_of_record_def bindr_Inr_iff Let_def validate_schemas_iff split: if_splits)
    with ok show ?thesis
      by (cases "has_keypoints (c0\<lparr>cc_keypoints := schemas\<rparr>)") (auto simp: catalog_ok_def)
  qed
qed

lemma admit_names_complete:
  "index + length names \<le> 256 \<Longrightarrow> distinct names \<Longrightarrow>
   list_all (\<lambda>n. n \<noteq> [] \<and> length n \<le> capacity \<and> 0 \<notin> set n) names \<Longrightarrow> \<forall>n \<in> set names. lookup n = None \<Longrightarrow>
     \<exists>lookup'. admit_names capacity index lookup names = Inr lookup'"
proof (induction names arbitrary: index lookup)
  case (Cons name names)
  have "\<exists>lookup'. admit_names capacity (Suc index) (lookup(name \<mapsto> wrap32 index)) names = Inr lookup'"
    by (rule Cons.IH) (use Cons.prems in auto)
  with Cons.prems show ?case by auto
qed simp

text \<open>Two admitted catalogs with the same names have the same lookup table.\<close>

lemma catalog_lookup_unique:
  assumes "catalog_ok c" "catalog_ok c'" "cc_names c = cc_names c'"
  shows "cc_lookup c = cc_lookup c'"
proof
  fix name
  have "cc_lookup c name = Some i \<longleftrightarrow> cc_lookup c' name = Some i" for i
    using assms by (simp add: catalog_ok_def)
  then show "cc_lookup c name = cc_lookup c' name" by (cases "cc_lookup c' name"; cases "cc_lookup c name") auto
qed

lemma catalog_of_names_complete:
  assumes "catalog_ok c"
  shows "\<exists>c'. catalog_of_names (cc_names c) kClassNameCapacity = Inr c'"
proof -
  have "\<exists>lookup. admit_names kClassNameCapacity 0 (\<lambda>_. None) (cc_names c) = Inr lookup"
    by (rule admit_names_complete)
      (use assms in \<open>auto simp: catalog_ok_def list_all_iff class_name_valid_def\<close>)
  with assms show ?thesis
    by (auto simp: catalog_of_names_def bindr_Inr_iff kClassCatalogCapacity_def catalog_ok_def)
qed

lemma catalog_record_restores:
  assumes "catalog_of_record record = Inr c"
  shows "catalog_of_record (catalog_record c) = Inr c"
proof -
  have ok: "catalog_ok c" using catalog_of_record_ok [OF assms] by simp
  obtain c' where c': "catalog_of_names (cc_names c) kClassNameCapacity = Inr c'"
    using catalog_of_names_complete [OF ok] by blast
  note ok' = catalog_of_names_ok [OF c']
  have lookup: "cc_lookup c' = cc_lookup c" using catalog_lookup_unique [of c' c] ok ok' by simp
  have names: "length (cc_names c) \<le> kClassCatalogCapacity" using ok by (simp add: catalog_ok_def kClassCatalogCapacity_def)
  show ?thesis
  proof (cases "cc_keypoints c = []")
    case True
    then have "c = c'" using ok' lookup by simp
    with True names c' show ?thesis by (simp add: catalog_of_record_def catalog_record_def)
  next
    case False
    then have c: "c'\<lparr>cc_keypoints := cc_keypoints c\<rparr> = c" using ok' lookup by simp
    have "validate_schemas (cc_keypoints c) = Inr ()" "has_keypoints c" "length (cc_keypoints c) = length (cc_names c')"
      using ok False ok' by (simp_all add: catalog_ok_def validate_schemas_iff)
    with False names c' c show ?thesis
      by (simp add: catalog_of_record_def catalog_record_def Let_def)
  qed
qed

text \<open>A catalog the constructor admitted is restored exactly by constructing it again from the record it is
  persisted as: names, keypoint schemas and lookup table.\<close>

theorem catalog_record_roundtrip:
  assumes "catalog_of_record record = Inr c"
  shows "catalog_of_record (catalog_record c) = Inr c"
  by (rule catalog_record_restores [OF assms])

section \<open>Permutations between catalogs\<close>

lemma permutation_loop_spec:
  "permutation_loop c destination sources = Inr p \<Longrightarrow> catalog_ok destination \<Longrightarrow>
     length p = length sources \<and>
     (\<forall>k < length sources. p ! k < length (cc_names destination) \<and> cc_names destination ! (p ! k) = cc_names c ! (sources ! k))"
proof (induction sources arbitrary: p)
  case (Cons source rest)
  from Cons.prems(1) obtain index q where step: "resolve destination (cc_names c ! source) = Some index"
    "permutation_loop c destination rest = Inr q" "p = index # q"
    by (auto simp: bindr_Inr_iff split: option.splits)
  then have "index < length (cc_names destination) \<and> cc_names destination ! index = cc_names c ! source"
    using Cons.prems(2) by (simp add: resolve_def catalog_ok_def)
  with Cons.IH [OF step(2) Cons.prems(2)] step(3) show ?case by (auto simp: nth_Cons split: nat.splits)
qed simp

text \<open>A permutation from one admitted catalog to another is a permutation of the destination's indices that takes
  every class to the class of the same name.\<close>

theorem permutation_to_bijective:
  assumes "catalog_of_record record = Inr c" "catalog_of_record record' = Inr destination"
    and "permutation_to c destination = Inr p"
  shows "distinct p \<and> set p = {..< length (cc_names destination)}
     \<and> map (\<lambda>i. cc_names destination ! i) p = cc_names c"
proof -
  note ok = conjunct1 [OF catalog_of_record_ok [OF assms(1)]]
  note ok' = conjunct1 [OF catalog_of_record_ok [OF assms(2)]]
  from assms(3) have len: "length (cc_names c) = length (cc_names destination)"
    and run: "permutation_loop c destination [0 ..< length (cc_names c)] = Inr p"
    by (auto simp: permutation_to_def split: if_splits)
  note spec = permutation_loop_spec [OF run ok']
  have names: "map (\<lambda>i. cc_names destination ! i) p = cc_names c"
    using spec by (intro nth_equalityI) auto
  moreover have "distinct p"
    using names ok distinct_map [of "\<lambda>i. cc_names destination ! i" p] by (simp add: catalog_ok_def)
  moreover have "set p \<subseteq> {..< length (cc_names destination)}"
    using spec by (auto simp: in_set_conv_nth)
  ultimately show ?thesis
    using spec len card_subset_eq [of "{..< length (cc_names destination)}" "set p"] by (simp add: distinct_card)
qed

definition two_names :: ordered_class_catalog where
  "two_names = \<lparr>oc_names = [[65], [66]], oc_keypoints = None\<rparr>"

definition two_names_reversed :: ordered_class_catalog where
  "two_names_reversed = \<lparr>oc_names = [[66], [65]], oc_keypoints = None\<rparr>"

definition catalog_ab :: class_catalog where
  "catalog_ab = \<lparr>cc_names = [[65], [66]], cc_keypoints = [], cc_lookup = [[65] \<mapsto> 0, [66] \<mapsto> 1]\<rparr>"

definition catalog_ba :: class_catalog where
  "catalog_ba = \<lparr>cc_names = [[66], [65]], cc_keypoints = [], cc_lookup = [[66] \<mapsto> 0, [65] \<mapsto> 1]\<rparr>"

lemma two_names_admitted: "catalog_of_record two_names = Inr catalog_ab"
  by (simp add: catalog_of_record_def two_names_def catalog_ab_def catalog_of_names_def kClassCatalogCapacity_def
      kClassNameCapacity_def)

lemma two_names_reversed_admitted: "catalog_of_record two_names_reversed = Inr catalog_ba"
  by (simp add: catalog_of_record_def two_names_reversed_def catalog_ba_def catalog_of_names_def kClassCatalogCapacity_def
      kClassNameCapacity_def)

lemma catalog_ab_to_ba: "permutation_to catalog_ab catalog_ba = Inr [1, 0]"
  by (simp add: permutation_to_def catalog_ab_def catalog_ba_def resolve_def catalog_keypoints_def empty_schema_def
      upt_conv_Cons numeral_2_eq_2)

lemma catalog_record_roundtrip_witness:
  "catalog_of_record (catalog_record catalog_ab) = Inr catalog_ab"
  by (rule catalog_record_roundtrip [OF two_names_admitted])

lemma permutation_to_bijective_witness: "distinct [1, 0 :: nat] \<and> set [1, 0] = {..< length (cc_names catalog_ba)}
    \<and> map (\<lambda>i. cc_names catalog_ba ! i) [1, 0] = cc_names catalog_ab"
  by (rule permutation_to_bijective [OF two_names_admitted two_names_reversed_admitted catalog_ab_to_ba])

end
