(* ===== verification/Coco_Catalog.thy ===== *)
theory Coco_Catalog
  imports Ascii_Text
begin

text \<open>
  The COCO categories (\<open>src/backend/data/catalog/coco_catalog.h\<close>): eighty names with the identifiers the COCO
  annotation files use for them, and the foreground index of an identifier.
\<close>

datatype coco_category = Category (category_source_id: nat) (category_text: string)

definition kCocoCategories :: "coco_category list" where
  "kCocoCategories = [
    Category 1 ''person'', Category 2 ''bicycle'', Category 3 ''car'', Category 4 ''motorcycle'',
    Category 5 ''airplane'', Category 6 ''bus'', Category 7 ''train'', Category 8 ''truck'',
    Category 9 ''boat'', Category 10 ''traffic light'', Category 11 ''fire hydrant'', Category 13 ''stop sign'',
    Category 14 ''parking meter'', Category 15 ''bench'', Category 16 ''bird'', Category 17 ''cat'',
    Category 18 ''dog'', Category 19 ''horse'', Category 20 ''sheep'', Category 21 ''cow'',
    Category 22 ''elephant'', Category 23 ''bear'', Category 24 ''zebra'', Category 25 ''giraffe'',
    Category 27 ''backpack'', Category 28 ''umbrella'', Category 31 ''handbag'', Category 32 ''tie'',
    Category 33 ''suitcase'', Category 34 ''frisbee'', Category 35 ''skis'', Category 36 ''snowboard'',
    Category 37 ''sports ball'', Category 38 ''kite'', Category 39 ''baseball bat'',
    Category 40 ''baseball glove'', Category 41 ''skateboard'', Category 42 ''surfboard'',
    Category 43 ''tennis racket'', Category 44 ''bottle'', Category 46 ''wine glass'', Category 47 ''cup'',
    Category 48 ''fork'', Category 49 ''knife'', Category 50 ''spoon'', Category 51 ''bowl'',
    Category 52 ''banana'', Category 53 ''apple'', Category 54 ''sandwich'', Category 55 ''orange'',
    Category 56 ''broccoli'', Category 57 ''carrot'', Category 58 ''hot dog'', Category 59 ''pizza'',
    Category 60 ''donut'', Category 61 ''cake'', Category 62 ''chair'', Category 63 ''couch'',
    Category 64 ''potted plant'', Category 65 ''bed'', Category 67 ''dining table'', Category 70 ''toilet'',
    Category 72 ''tv'', Category 73 ''laptop'', Category 74 ''mouse'', Category 75 ''remote'',
    Category 76 ''keyboard'', Category 77 ''cell phone'', Category 78 ''microwave'', Category 79 ''oven'',
    Category 80 ''toaster'', Category 81 ''sink'', Category 82 ''refrigerator'', Category 84 ''book'',
    Category 85 ''clock'', Category 86 ''vase'', Category 87 ''scissors'', Category 88 ''teddy bear'',
    Category 89 ''hair drier'', Category 90 ''toothbrush'']"

definition category_name :: "coco_category \<Rightarrow> byte list" where
  "category_name c = ascii (category_text c)"

definition kCocoNames :: "byte list list" where
  "kCocoNames = map category_name kCocoCategories"

fun coco_search :: "nat \<Rightarrow> nat \<Rightarrow> coco_category list \<Rightarrow> nat option" where
  "coco_search source_id index [] = None"
| "coco_search source_id index (c # rest) =
     (if category_source_id c = source_id then Some index else coco_search source_id (index + 1) rest)"

definition coco_foreground_index :: "nat \<Rightarrow> nat option" where
  "coco_foreground_index source_id = coco_search source_id 0 kCocoCategories"

section \<open>The table\<close>

lemma coco_length: "length kCocoCategories = 80"
  by (simp add: kCocoCategories_def)

lemma coco_ids: "sorted_wrt (<) (map category_source_id kCocoCategories)
    \<and> list_all (\<lambda>c. category_source_id c < 91) kCocoCategories"
  by (simp add: kCocoCategories_def)

lemma coco_texts_distinct: "distinct (map category_text kCocoCategories)"
  by (simp add: kCocoCategories_def)

lemma coco_texts_valid: "list_all (\<lambda>c. category_text c \<noteq> [] \<and> length (category_text c) \<le> 256
    \<and> CHR 0x00 \<notin> set (category_text c)) kCocoCategories"
  by (simp add: kCocoCategories_def)

lemma kCocoNames_eq: "kCocoNames = map ascii (map category_text kCocoCategories)"
  by (simp add: kCocoNames_def category_name_def)

lemma coco_names_distinct: "distinct kCocoNames"
  unfolding kCocoNames_eq
  by (subst distinct_map) (simp add: coco_texts_distinct inj_on_def ascii_inject del: map_map)

lemma coco_names_length: "length kCocoNames = 80"
  by (simp add: kCocoNames_def coco_length)

lemma coco_name_valid:
  assumes "n \<in> set kCocoNames"
  shows "n \<noteq> [] \<and> length n \<le> 256 \<and> 0 \<notin> set n"
proof -
  from assms obtain c where c: "c \<in> set kCocoCategories" "n = ascii (category_text c)"
    by (auto simp: kCocoNames_eq)
  with coco_texts_valid have "category_text c \<noteq> []" "length (category_text c) \<le> 256" "CHR 0x00 \<notin> set (category_text c)"
    by (simp_all add: list_all_iff)
  with c(2) show ?thesis by (simp add: ascii_shape zero_in_ascii)
qed

lemma coco_search_spec:
  "distinct (map category_source_id categories) \<Longrightarrow> coco_search source_id index categories = Some i \<longleftrightarrow>
     (\<exists>k < length categories. category_source_id (categories ! k) = source_id \<and> i = index + k)"
proof (induction categories arbitrary: index)
  case (Cons c rest)
  let ?hit = "\<lambda>base k. category_source_id (rest ! k) = source_id \<and> i = base + k"
  from Cons.prems have "distinct (map category_source_id rest)" by simp
  note IH = Cons.IH [OF this, of "index + 1"]
  have split: "(\<exists>k < length (c # rest). category_source_id ((c # rest) ! k) = source_id \<and> i = index + k) \<longleftrightarrow>
      category_source_id c = source_id \<and> i = index \<or> (\<exists>k < length rest. ?hit (index + 1) k)"
    by (simp add: less_Suc_eq_0_disj ex_disj_distrib conj_disj_distribR) auto
  have "category_source_id c = source_id \<Longrightarrow> \<not> (\<exists>k < length rest. ?hit (index + 1) k)"
    using Cons.prems by (metis image_eqI list.simps(9) distinct.simps(2) list.set_map nth_mem)
  with IH show ?case unfolding split by auto
qed simp

lemma coco_ids_distinct: "distinct (map category_source_id kCocoCategories)"
  using coco_ids strict_sorted_iff by blast

lemma coco_foreground_index_iff:
  "coco_foreground_index source_id = Some i \<longleftrightarrow> i < 80 \<and> category_source_id (kCocoCategories ! i) = source_id"
  by (auto simp: coco_foreground_index_def coco_search_spec [OF coco_ids_distinct] coco_length)

end
