(* ===== verification/Class_Layout.thy ===== *)
theory Class_Layout
  imports Class_Catalog Coco_Catalog
begin

text \<open>
  The class layout of a model artifact (\<open>src/backend/models/rfdetr/core/class_layout.cpp\<close>,
  \<open>src/backend/models/rfdetr/contract/class_layout.h\<close>): what each output slot of the classifier means, the
  admission of such a layout, and the layouts the program builds itself. \<open>encode_record\<close>, the reflected
  serialisation with its one megabyte budget, is a parameter: a function that fails or yields the text.

  An enumeration with a fixed underlying type can hold a value that is no enumerator, which admission checks
  for: each such enumeration has one constructor more, for those values.
\<close>

section \<open>Layouts\<close>

definition kClassLayoutVersion :: nat where "kClassLayoutVersion = 1"
definition kMaximumClassOutputSlots :: nat where "kMaximumClassOutputSlots = 4096"
definition kClassLayoutByteBudget :: nat where "kClassLayoutByteBudget = 1024 * 1024"

datatype class_slot_role = Slot_Foreground | Slot_Background | Slot_Unused | Slot_Unresolved | Slot_Other nat
datatype class_score_encoding = Sigmoid_Logits | Softmax_Logits | Scores_Other nat
datatype no_object_encoding = All_Negative | Explicit_Background | Unspecified_Encoding | No_Object_Other nat
datatype class_layout_origin = Origin_Unresolved | Origin_Native_Training | Origin_Embedded | Origin_Digest_Descriptor
  | Origin_Verified_Asset | Origin_Other nat
datatype class_reference_domain = Domain_Foreground | Domain_Raw_Output_Slot

record model_class_slot =
  slot_role :: class_slot_role
  slot_index :: "nat option"

record class_layout_provenance =
  pv_origin :: class_layout_origin
  pv_producer :: "byte list"
  pv_artifact_sha256 :: "byte list"

record model_class_layout =
  ml_version :: nat
  ml_foreground :: ordered_class_catalog
  ml_evidence :: ordered_class_catalog
  ml_slots :: "model_class_slot list"
  ml_scores :: class_score_encoding
  ml_no_object :: no_object_encoding
  ml_provenance :: class_layout_provenance
  ml_supervision :: bool

record model_class_layout_summary =
  ms_domain :: class_reference_domain
  ms_foreground_count :: nat
  ms_output_count :: nat
  ms_background_count :: nat
  ms_unused_count :: nat
  ms_scores :: class_score_encoding
  ms_no_object :: no_object_encoding
  ms_provenance :: class_layout_provenance

text \<open>The values a layout and a provenance have before anything is assigned.\<close>

definition empty_catalog :: ordered_class_catalog where
  "empty_catalog = \<lparr>oc_names = [], oc_keypoints = None\<rparr>"

definition default_provenance :: class_layout_provenance where
  "default_provenance = \<lparr>pv_origin = Origin_Unresolved, pv_producer = [], pv_artifact_sha256 = []\<rparr>"

definition default_slot :: model_class_slot where
  "default_slot = \<lparr>slot_role = Slot_Unresolved, slot_index = None\<rparr>"

definition default_layout :: model_class_layout where
  "default_layout = \<lparr>ml_version = kClassLayoutVersion, ml_foreground = empty_catalog, ml_evidence = empty_catalog,
     ml_slots = [], ml_scores = Sigmoid_Logits, ml_no_object = Unspecified_Encoding,
     ml_provenance = default_provenance, ml_supervision = False\<rparr>"

text \<open>The defaulted comparison of layouts compares the sigmas of the schemas as doubles.\<close>

fun keypoints_equal :: "class_keypoint_schema list option \<Rightarrow> class_keypoint_schema list option \<Rightarrow> bool" where
  "keypoints_equal None None = True"
| "keypoints_equal (Some a) (Some b) = list_all2 schema_equal a b"
| "keypoints_equal _ _ = False"

definition ordered_catalog_equal :: "ordered_class_catalog \<Rightarrow> ordered_class_catalog \<Rightarrow> bool" where
  "ordered_catalog_equal a b \<longleftrightarrow> oc_names a = oc_names b \<and> keypoints_equal (oc_keypoints a) (oc_keypoints b)"

definition layout_equal :: "model_class_layout \<Rightarrow> model_class_layout \<Rightarrow> bool" where
  "layout_equal a b \<longleftrightarrow> ml_version a = ml_version b \<and> ordered_catalog_equal (ml_foreground a) (ml_foreground b)
     \<and> ordered_catalog_equal (ml_evidence a) (ml_evidence b) \<and> ml_slots a = ml_slots b \<and> ml_scores a = ml_scores b
     \<and> ml_no_object a = ml_no_object b \<and> ml_provenance a = ml_provenance b \<and> ml_supervision a = ml_supervision b"

section \<open>Admission\<close>

definition lower_hex :: "byte \<Rightarrow> bool" where
  "lower_hex c \<longleftrightarrow> 48 \<le> unat c \<and> unat c \<le> 57 \<or> 97 \<le> unat c \<and> unat c \<le> 102"

fun unknown_origin :: "class_layout_origin \<Rightarrow> bool" where
  "unknown_origin (Origin_Other _) = True"
| "unknown_origin _ = False"

definition check_provenance :: "class_layout_provenance \<Rightarrow> cxx_error + unit" where
  "check_provenance provenance =
     (if 0 \<in> set (pv_producer provenance) \<or> length (pv_producer provenance) > 1024
         \<or> length (pv_artifact_sha256 provenance) > 64
      then Inl (Invalid_Argument ''oversized RF-DETR class provenance'')
      else if pv_artifact_sha256 provenance \<noteq> [] \<and>
              (length (pv_artifact_sha256 provenance) \<noteq> 64 \<or> \<not> list_all lower_hex (pv_artifact_sha256 provenance))
      then Inl (Invalid_Argument ''invalid RF-DETR class provenance digest'')
      else if unknown_origin (pv_origin provenance)
      then Inl (Invalid_Argument ''unknown RF-DETR class provenance'') else Inr ())"

definition check_evidence :: "ordered_class_catalog \<Rightarrow> cxx_error + unit" where
  "check_evidence evidence =
     (if length (oc_names evidence) > kClassCatalogCapacity then Inl (Invalid_Argument ''oversized class-name evidence'')
      else if list_ex (\<lambda>name. length name > kClassNameCapacity \<or> 0 \<in> set name) (oc_names evidence)
      then Inl (Invalid_Argument ''invalid class-name evidence'')
      else case oc_keypoints evidence of
             None \<Rightarrow> Inr ()
           | Some schemas \<Rightarrow>
               if length schemas \<noteq> length (oc_names evidence)
               then Inl (Invalid_Argument ''class-name joint evidence has the wrong class count'')
               else validate_schemas schemas)"

text \<open>The loop over the slots: which foreground classes were seen, how many background slots, whether semantic.\<close>

record slot_tally =
  st_seen :: "bool list"
  st_background :: nat
  st_semantic :: bool

fun admit_slot :: "nat \<Rightarrow> model_class_slot \<Rightarrow> slot_tally \<Rightarrow> cxx_error + slot_tally" where
  "admit_slot catalog_size slot t =
     (case slot_role slot of
        Slot_Foreground \<Rightarrow>
          (case slot_index slot of
             None \<Rightarrow> Inl (Invalid_Argument ''duplicate or invalid foreground output slot'')
           | Some index \<Rightarrow>
               if index \<ge> catalog_size \<or> st_seen t ! index
               then Inl (Invalid_Argument ''duplicate or invalid foreground output slot'')
               else Inr (t\<lparr>st_seen := (st_seen t)[index := True]\<rparr>))
      | Slot_Background \<Rightarrow>
          if slot_index slot \<noteq> None then Inl (Invalid_Argument ''non-foreground slot has a foreground index'')
          else Inr (t\<lparr>st_background := st_background t + 1\<rparr>)
      | Slot_Unused \<Rightarrow>
          if slot_index slot \<noteq> None then Inl (Invalid_Argument ''non-foreground slot has a foreground index'') else Inr t
      | Slot_Unresolved \<Rightarrow>
          if slot_index slot \<noteq> None then Inl (Invalid_Argument ''unresolved slot has a foreground index'')
          else Inr (t\<lparr>st_semantic := False\<rparr>)
      | Slot_Other _ \<Rightarrow> Inl (Invalid_Argument ''unknown RF-DETR class slot role''))"

fun admit_slots :: "nat \<Rightarrow> model_class_slot list \<Rightarrow> slot_tally \<Rightarrow> cxx_error + slot_tally" where
  "admit_slots catalog_size [] t = Inr t"
| "admit_slots catalog_size (slot # rest) t = bindr (admit_slot catalog_size slot t) (admit_slots catalog_size rest)"

definition check_no_object :: "no_object_encoding \<Rightarrow> nat \<Rightarrow> bool \<Rightarrow> cxx_error + unit" where
  "check_no_object encoding background_count semantic =
     (case encoding of
        All_Negative \<Rightarrow>
          if background_count \<noteq> 0 then Inl (Invalid_Argument ''all-negative layout declares explicit background'') else Inr ()
      | Explicit_Background \<Rightarrow>
          if background_count \<noteq> 1 then Inl (Invalid_Argument ''explicit background layout requires one background slot'')
          else Inr ()
      | Unspecified_Encoding \<Rightarrow>
          if semantic \<or> background_count \<noteq> 0 then Inl (Invalid_Argument ''resolved layout requires no-object encoding'')
          else Inr ()
      | No_Object_Other _ \<Rightarrow> Inl (Invalid_Argument ''unknown no-object encoding''))"

definition check_scores :: "class_score_encoding \<Rightarrow> no_object_encoding \<Rightarrow> cxx_error + unit" where
  "check_scores scores encoding =
     (if scores \<noteq> Sigmoid_Logits \<and> scores \<noteq> Softmax_Logits then Inl (Invalid_Argument ''unknown score encoding'')
      else if scores = Softmax_Logits \<and> encoding = All_Negative
      then Inl (Invalid_Argument ''softmax cannot encode all-negative no-object targets'') else Inr ())"

definition check_tally :: "model_class_layout \<Rightarrow> nat \<Rightarrow> slot_tally \<Rightarrow> cxx_error + unit" where
  "check_tally record catalog_size t =
     (if list_ex (\<lambda>index. \<not> st_seen t ! index) [0 ..< catalog_size]
      then Inl (Invalid_Argument ''class layout omits a foreground class'')
      else if \<not> st_semantic t \<and> catalog_size \<noteq> 0
      then Inl (Invalid_Argument ''partial foreground bindings are unsupported'')
      else if st_semantic t \<and> pv_origin (ml_provenance record) = Origin_Unresolved
      then Inl (Invalid_Argument ''resolved class layout requires authoritative provenance'')
      else if ml_supervision record \<and> \<not> st_semantic t
      then Inl (Invalid_Argument ''unresolved class layout cannot declare foreground supervision'')
      else bindr (check_no_object (ml_no_object record) (st_background t) (st_semantic t)) (\<lambda>_.
             check_scores (ml_scores record) (ml_no_object record)))"

definition physical_reference :: "nat \<Rightarrow> model_class_slot \<Rightarrow> int" where
  "physical_reference index slot =
     (case slot_role slot of
        Slot_Foreground \<Rightarrow> int (the (slot_index slot)) | Slot_Unresolved \<Rightarrow> int index | _ \<Rightarrow> -1)"

definition eligible_slot :: "model_class_slot \<Rightarrow> bool" where
  "eligible_slot slot \<longleftrightarrow> slot_role slot = Slot_Foreground \<or> slot_role slot = Slot_Unresolved"

record resolved_class_layout =
  rl_record :: model_class_layout
  rl_catalog :: class_catalog
  rl_references :: "int list"
  rl_eligible :: nat
  rl_semantic :: bool

type_synonym record_encoder = "model_class_layout \<Rightarrow> cxx_error + byte list"

definition resolve_layout :: "record_encoder \<Rightarrow> model_class_layout \<Rightarrow> cxx_error + resolved_class_layout" where
  "resolve_layout encode_record record =
     (if ml_version record \<noteq> kClassLayoutVersion \<or> length (ml_slots record) > kMaximumClassOutputSlots
      then Inl (Invalid_Argument ''unsupported or oversized RF-DETR class layout'')
      else bindr (check_provenance (ml_provenance record)) (\<lambda>_.
           bindr (check_evidence (ml_evidence record)) (\<lambda>_.
           bindr (encode_record record) (\<lambda>_.
           bindr (catalog_of_record (ml_foreground record)) (\<lambda>catalog.
           bindr (admit_slots (length (cc_names catalog)) (ml_slots record)
                   \<lparr>st_seen = replicate kClassCatalogCapacity False, st_background = 0, st_semantic = True\<rparr>) (\<lambda>t.
           bindr (check_tally record (length (cc_names catalog)) t) (\<lambda>_.
             Inr \<lparr>rl_record = record, rl_catalog = catalog,
                  rl_references = map (\<lambda>i. physical_reference i (ml_slots record ! i)) [0 ..< length (ml_slots record)],
                  rl_eligible = length (filter eligible_slot (ml_slots record)),
                  rl_semantic = st_semantic t\<rparr>)))))))"

definition output_width :: "resolved_class_layout \<Rightarrow> nat" where
  "output_width r = length (ml_slots (rl_record r))"

definition layout_domain :: "resolved_class_layout \<Rightarrow> class_reference_domain" where
  "layout_domain r = (if rl_semantic r then Domain_Foreground else Domain_Raw_Output_Slot)"

definition layout_summary :: "resolved_class_layout \<Rightarrow> model_class_layout_summary" where
  "layout_summary r =
     \<lparr>ms_domain = layout_domain r, ms_foreground_count = wrap32 (length (cc_names (rl_catalog r))),
      ms_output_count = wrap32 (output_width r),
      ms_background_count = length (filter (\<lambda>s. slot_role s = Slot_Background) (ml_slots (rl_record r))),
      ms_unused_count = length (filter (\<lambda>s. slot_role s = Slot_Unused) (ml_slots (rl_record r))),
      ms_scores = ml_scores (rl_record r), ms_no_object = ml_no_object (rl_record r),
      ms_provenance = ml_provenance (rl_record r)\<rparr>"

definition require_execution :: "resolved_class_layout \<Rightarrow> bool \<Rightarrow> cxx_error + unit" where
  "require_execution r require_semantic =
     (if ml_scores (rl_record r) \<noteq> Sigmoid_Logits
      then Inl (Invalid_Argument ''RF-DETR execution requires declared sigmoid logits'')
      else if require_semantic \<and> \<not> rl_semantic r
      then Inl (Invalid_Argument ''RF-DETR semantic output requires a bound class layout'') else Inr ())"

section \<open>The layouts the program builds\<close>

definition native_training_class_layout :: "class_catalog \<Rightarrow> model_class_layout" where
  "native_training_class_layout c = default_layout
     \<lparr>ml_foreground := catalog_record c, ml_no_object := All_Negative,
      ml_provenance := \<lparr>pv_origin = Origin_Native_Training, pv_producer = ascii ''mmltk.rfdetr.native_checkpoint/3'',
                        pv_artifact_sha256 = []\<rparr>,
      ml_supervision := True,
      ml_slots := map (\<lambda>index. \<lparr>slot_role = Slot_Foreground, slot_index = Some index\<rparr>) [0 ..< length (cc_names c)]
                  @ [\<lparr>slot_role = Slot_Unused, slot_index = None\<rparr>]\<rparr>"

definition native_training_keypoint_counts :: "class_catalog \<Rightarrow> nat list" where
  "native_training_keypoint_counts c =
     map (\<lambda>index. case catalog_keypoints c index of Inr schema \<Rightarrow> length (ks_names schema) mod 2 ^ 16 | Inl _ \<Rightarrow> 0)
       [0 ..< length (cc_names c)] @ [0]"

definition unresolved_class_layout :: "nat \<Rightarrow> cxx_error + model_class_layout" where
  "unresolved_class_layout width =
     (if width = 0 \<or> width > kMaximumClassOutputSlots
      then Inl (Invalid_Argument ''RF-DETR output width exceeds layout capacity'')
      else Inr (default_layout\<lparr>ml_slots := replicate width default_slot\<rparr>))"

fun place_categories :: "nat \<Rightarrow> coco_category list \<Rightarrow> model_class_slot list \<Rightarrow> model_class_slot list" where
  "place_categories index [] slots = slots"
| "place_categories index (c # rest) slots =
     place_categories (index + 1) rest
       (slots[category_source_id c := \<lparr>slot_role = Slot_Foreground, slot_index = Some index\<rparr>])"

definition coco_class_layout :: "class_layout_provenance \<Rightarrow> model_class_layout" where
  "coco_class_layout provenance = default_layout
     \<lparr>ml_slots := place_categories 0 kCocoCategories (replicate 91 \<lparr>slot_role = Slot_Unused, slot_index = None\<rparr>),
      ml_no_object := All_Negative, ml_provenance := provenance,
      ml_foreground := \<lparr>oc_names = map category_name kCocoCategories, oc_keypoints = None\<rparr>\<rparr>"

section \<open>What admission establishes\<close>

definition foreground_indices :: "model_class_slot list \<Rightarrow> nat list" where
  "foreground_indices slots = map (\<lambda>s. the (slot_index s)) (filter (\<lambda>s. slot_role s = Slot_Foreground) slots)"

definition slot_ok :: "model_class_slot \<Rightarrow> bool" where
  "slot_ok s \<longleftrightarrow> (case slot_role s of Slot_Foreground \<Rightarrow> slot_index s \<noteq> None | Slot_Other _ \<Rightarrow> False
     | _ \<Rightarrow> slot_index s = None)"

definition mark :: "bool list \<Rightarrow> nat list \<Rightarrow> bool list" where
  "mark seen indices = foldl (\<lambda>s i. s[i := True]) seen indices"

lemma mark_simps [simp]: "mark seen [] = seen" "mark seen (i # is) = mark (seen[i := True]) is"
  by (simp_all add: mark_def)

lemma length_mark [simp]: "length (mark seen indices) = length seen"
  by (induction indices arbitrary: seen) simp_all

lemma nth_mark: "i < length seen \<Longrightarrow> mark seen indices ! i \<longleftrightarrow> seen ! i \<or> i \<in> set indices"
proof (induction indices arbitrary: seen)
  case (Cons a indices)
  then show ?case using Cons.IH [of "seen[a := True]"] by (cases "a = i") auto
qed simp

definition count_role :: "class_slot_role \<Rightarrow> model_class_slot list \<Rightarrow> nat" where
  "count_role role slots = length (filter (\<lambda>s. slot_role s = role) slots)"

lemma role_simps [simp]:
  "foreground_indices [] = []"
  "foreground_indices (s # slots) =
     (if slot_role s = Slot_Foreground then the (slot_index s) # foreground_indices slots else foreground_indices slots)"
  "count_role role [] = 0"
  "count_role role (s # slots) = (if slot_role s = role then Suc (count_role role slots) else count_role role slots)"
  by (simp_all add: foreground_indices_def count_role_def)

definition tally_of :: "model_class_slot list \<Rightarrow> slot_tally \<Rightarrow> slot_tally" where
  "tally_of slots t = \<lparr>st_seen = mark (st_seen t) (foreground_indices slots),
     st_background = st_background t + count_role Slot_Background slots,
     st_semantic = (st_semantic t \<and> count_role Slot_Unresolved slots = 0)\<rparr>"

lemma admit_slots_iff:
  "length (st_seen t) = 256 \<Longrightarrow> n \<le> 256 \<Longrightarrow>
   admit_slots n slots t = Inr t' \<longleftrightarrow>
     list_all slot_ok slots \<and> distinct (foreground_indices slots)
     \<and> (\<forall>i \<in> set (foreground_indices slots). i < n \<and> \<not> st_seen t ! i) \<and> t' = tally_of slots t"
proof (induction slots arbitrary: t)
  case Nil
  show ?case by (cases t) (auto simp: tally_of_def)
next
  case (Cons s slots)
  show ?case
  proof (cases "slot_role s")
    case Slot_Foreground
    show ?thesis
    proof (cases "slot_index s")
      case None
      then show ?thesis using Slot_Foreground by (simp add: slot_ok_def)
    next
      case (Some i)
      show ?thesis
      proof (cases "i < n \<and> \<not> st_seen t ! i")
        case False
        then show ?thesis using Slot_Foreground Some by auto
      next
        case True
        let ?t = "t\<lparr>st_seen := (st_seen t)[i := True]\<rparr>"
        have "admit_slots n (s # slots) t = admit_slots n slots ?t" using Slot_Foreground Some True by auto
        moreover have "tally_of (s # slots) t = tally_of slots ?t" using Slot_Foreground Some by (simp add: tally_of_def)
        moreover have "(\<forall>j \<in> set (foreground_indices slots). j < n \<and> \<not> st_seen ?t ! j) \<longleftrightarrow>
            i \<notin> set (foreground_indices slots) \<and> (\<forall>j \<in> set (foreground_indices slots). j < n \<and> \<not> st_seen t ! j)"
          using True Cons.prems by (auto simp: nth_list_update)
        ultimately show ?thesis
          using Cons.IH [of ?t] Cons.prems Slot_Foreground Some True by (auto simp: slot_ok_def)
      qed
    qed
  next
    case Slot_Background
    have "tally_of (s # slots) t = tally_of slots (t\<lparr>st_background := st_background t + 1\<rparr>)"
      using Slot_Background by (simp add: tally_of_def)
    then show ?thesis using Cons Slot_Background by (auto simp: slot_ok_def)
  next
    case Slot_Unused
    have "tally_of (s # slots) t = tally_of slots t" using Slot_Unused by (simp add: tally_of_def)
    then show ?thesis using Cons Slot_Unused by (auto simp: slot_ok_def)
  next
    case Slot_Unresolved
    have "tally_of (s # slots) t = tally_of slots (t\<lparr>st_semantic := False\<rparr>)"
      using Slot_Unresolved by (simp add: tally_of_def)
    then show ?thesis using Cons Slot_Unresolved by (auto simp: slot_ok_def)
  next
    case (Slot_Other v)
    then show ?thesis by (simp add: slot_ok_def)
  qed
qed

text \<open>What \<open>resolve_layout\<close> accepts, without the order of its checks: first of the slots, then of the whole.\<close>

definition semantic_slots :: "model_class_slot list \<Rightarrow> bool" where
  "semantic_slots slots \<longleftrightarrow> count_role Slot_Unresolved slots = 0"

definition encodings_wf :: "model_class_layout \<Rightarrow> bool" where
  "encodings_wf record \<longleftrightarrow>
     check_no_object (ml_no_object record) (count_role Slot_Background (ml_slots record)) (semantic_slots (ml_slots record)) = Inr ()
     \<and> check_scores (ml_scores record) (ml_no_object record) = Inr ()
     \<and> (if semantic_slots (ml_slots record) then pv_origin (ml_provenance record) \<noteq> Origin_Unresolved
        else \<not> ml_supervision record)"

definition slots_wf :: "model_class_slot list \<Rightarrow> nat \<Rightarrow> bool" where
  "slots_wf slots n \<longleftrightarrow> list_all slot_ok slots \<and> distinct (foreground_indices slots)
     \<and> set (foreground_indices slots) = {..< n} \<and> (semantic_slots slots \<or> n = 0)"

definition layout_wf :: "model_class_layout \<Rightarrow> class_catalog \<Rightarrow> bool" where
  "layout_wf record c \<longleftrightarrow>
     ml_version record = kClassLayoutVersion \<and> length (ml_slots record) \<le> kMaximumClassOutputSlots
     \<and> check_provenance (ml_provenance record) = Inr () \<and> check_evidence (ml_evidence record) = Inr ()
     \<and> catalog_of_record (ml_foreground record) = Inr c
     \<and> slots_wf (ml_slots record) (length (cc_names c)) \<and> encodings_wf record"

definition resolved_of :: "model_class_layout \<Rightarrow> class_catalog \<Rightarrow> resolved_class_layout" where
  "resolved_of record c = \<lparr>rl_record = record, rl_catalog = c,
     rl_references = map (\<lambda>i. physical_reference i (ml_slots record ! i)) [0 ..< length (ml_slots record)],
     rl_eligible = length (filter eligible_slot (ml_slots record)),
     rl_semantic = semantic_slots (ml_slots record)\<rparr>"

abbreviation empty_tally :: slot_tally where
  "empty_tally \<equiv> \<lparr>st_seen = replicate kClassCatalogCapacity False, st_background = 0, st_semantic = True\<rparr>"

lemma check_tally_iff:
  assumes "n \<le> 256"
  shows "check_tally record n (tally_of (ml_slots record) empty_tally) = Inr () \<longleftrightarrow>
      {..< n} \<subseteq> set (foreground_indices (ml_slots record)) \<and> (semantic_slots (ml_slots record) \<or> n = 0)
      \<and> encodings_wf record"
proof -
  have "list_ex (\<lambda>i. \<not> st_seen (tally_of (ml_slots record) empty_tally) ! i) [0 ..< n] \<longleftrightarrow>
      \<not> {..< n} \<subseteq> set (foreground_indices (ml_slots record))"
    using assms by (auto simp: list_ex_iff tally_of_def nth_mark kClassCatalogCapacity_def)
  then show ?thesis
    by (cases "semantic_slots (ml_slots record)")
      (auto simp: check_tally_def encodings_wf_def tally_of_def bindr_Inr_iff semantic_slots_def)
qed

lemma admit_slots_empty_iff:
  assumes "n \<le> 256"
  shows "admit_slots n slots empty_tally = Inr t \<longleftrightarrow> list_all slot_ok slots \<and> distinct (foreground_indices slots)
      \<and> set (foreground_indices slots) \<subseteq> {..< n} \<and> t = tally_of slots empty_tally"
  using assms by (subst admit_slots_iff) (fastforce simp: kClassCatalogCapacity_def)+

lemma tally_step:
  assumes ok: "catalog_of_record (ml_foreground record) = Inr c"
  shows "bindr (admit_slots (length (cc_names c)) (ml_slots record) empty_tally) (\<lambda>t.
      bindr (check_tally record (length (cc_names c)) t) (\<lambda>_. F t)) = Inr r \<longleftrightarrow>
    slots_wf (ml_slots record) (length (cc_names c)) \<and> encodings_wf record \<and> F (tally_of (ml_slots record) empty_tally) = Inr r"
proof -
  have n: "length (cc_names c) \<le> 256"
    using conjunct1 [OF catalog_of_record_ok [OF ok]] by (simp add: catalog_ok_def)
  show ?thesis
    unfolding bindr_Inr_iff admit_slots_empty_iff [OF n] slots_wf_def by (auto simp: check_tally_iff [OF n])
qed

lemma resolve_layout_iff:
  "resolve_layout encode_record record = Inr r \<longleftrightarrow>
     is_ok (encode_record record) \<and> (\<exists>c. layout_wf record c \<and> r = resolved_of record c)"
proof -
  have semantic: "st_semantic (tally_of (ml_slots record) empty_tally) = semantic_slots (ml_slots record)"
    by (simp add: tally_of_def semantic_slots_def)
  show ?thesis
  proof (cases "catalog_of_record (ml_foreground record)")
    case (Inl e)
    then show ?thesis by (auto simp: resolve_layout_def layout_wf_def bindr_Inr_iff)
  next
    case (Inr c)
    show ?thesis
      by (cases "encode_record record"; cases "check_provenance (ml_provenance record)"; cases "check_evidence (ml_evidence record)")
        (auto simp: resolve_layout_def layout_wf_def resolved_of_def Inr tally_step [OF Inr] semantic)
  qed
qed

section \<open>The reference of an output slot\<close>

lemma semantic_references:
  assumes "semantic_slots slots" "list_all slot_ok slots"
  shows "filter (\<lambda>x. x \<noteq> -1) (map (\<lambda>i. physical_reference i (slots ! i)) [0 ..< length slots])
      = map int (foreground_indices slots)
    \<and> length (filter eligible_slot slots) = length (foreground_indices slots)"
proof -
  have "map (\<lambda>i. physical_reference i (slots ! i)) [0 ..< length slots] = map (physical_reference 0) slots"
  proof (rule nth_equalityI)
    fix i assume i: "i < length (map (\<lambda>i. physical_reference i (slots ! i)) [0 ..< length slots])"
    then have "slots ! i \<in> set slots" by simp
    with assms(1) have "slot_role (slots ! i) \<noteq> Slot_Unresolved"
      by (auto simp: semantic_slots_def count_role_def filter_empty_conv)
    with i show "map (\<lambda>i. physical_reference i (slots ! i)) [0 ..< length slots] ! i = map (physical_reference 0) slots ! i"
      by (simp add: physical_reference_def split: class_slot_role.splits)
  qed simp
  moreover have "filter (\<lambda>x. x \<noteq> -1) (map (physical_reference 0) slots) = map int (foreground_indices slots)
      \<and> length (filter eligible_slot slots) = length (foreground_indices slots)"
    using assms
    by (induction slots)
      (auto simp: physical_reference_def eligible_slot_def semantic_slots_def split: class_slot_role.splits if_splits)
  ultimately show ?thesis by simp
qed

text \<open>The references of an admitted layout are what post-processing needs. In a semantic layout the slots that
  carry a class are in bijection with the classes of the catalog, and there are as many eligible slots as classes;
  in a layout that is not semantic the catalog is empty and every unresolved slot refers to itself. All the other slots
  are marked \<open>-1\<close>.\<close>

theorem resolved_layout_references:
  assumes "resolve_layout encode_record record = Inr r"
  shows "length (rl_references r) = output_width r \<and> output_width r \<le> 4096
    \<and> (if rl_semantic r
       then distinct (filter (\<lambda>x. x \<noteq> -1) (rl_references r))
            \<and> set (filter (\<lambda>x. x \<noteq> -1) (rl_references r)) = int ` {..< length (cc_names (rl_catalog r))}
            \<and> rl_eligible r = length (cc_names (rl_catalog r))
       else cc_names (rl_catalog r) = []
            \<and> (\<forall>s < output_width r. rl_references r ! s =
                 (if slot_role (ml_slots record ! s) = Slot_Unresolved then int s else -1)))"
proof -
  from assms obtain c where wf: "layout_wf record c" and r: "r = resolved_of record c"
    by (auto simp: resolve_layout_iff)
  note slots = wf [unfolded layout_wf_def slots_wf_def]
  have sizes: "length (rl_references r) = output_width r \<and> output_width r \<le> 4096"
    using slots by (simp add: r resolved_of_def output_width_def kMaximumClassOutputSlots_def)
  show ?thesis
  proof (cases "rl_semantic r")
    case True
    then have "semantic_slots (ml_slots record)" by (simp add: r resolved_of_def)
    then have refs: "filter (\<lambda>x. x \<noteq> -1) (rl_references r) = map int (foreground_indices (ml_slots record))"
      "rl_eligible r = length (foreground_indices (ml_slots record))"
      using semantic_references [of "ml_slots record"] slots by (simp_all add: r resolved_of_def)
    have "distinct (filter (\<lambda>x. x \<noteq> -1) (rl_references r))"
      unfolding refs using slots by (subst distinct_map) (simp add: inj_on_def)
    moreover have "set (filter (\<lambda>x. x \<noteq> -1) (rl_references r)) = int ` {..< length (cc_names (rl_catalog r))}"
      unfolding refs using slots by (simp only: set_map) (simp add: r resolved_of_def)
    moreover have "rl_eligible r = length (cc_names (rl_catalog r))"
      unfolding refs using slots distinct_card [of "foreground_indices (ml_slots record)"] by (simp add: r resolved_of_def)
    ultimately show ?thesis using True sizes by simp
  next
    case False
    have "semantic_slots (ml_slots record) \<or> length (cc_names c) = 0"
      "set (foreground_indices (ml_slots record)) = {..< length (cc_names c)}"
      using slots by blast+
    moreover have "\<not> semantic_slots (ml_slots record)" using False by (simp add: r resolved_of_def)
    ultimately have empty: "cc_names c = []" "foreground_indices (ml_slots record) = []" by simp_all
    have "rl_references r ! s = (if slot_role (ml_slots record ! s) = Slot_Unresolved then int s else -1)"
      if s: "s < output_width r" for s
    proof -
      from s have "ml_slots record ! s \<in> set (ml_slots record)" by (simp add: r resolved_of_def output_width_def)
      with empty(2) have "slot_role (ml_slots record ! s) \<noteq> Slot_Foreground"
        by (auto simp: foreground_indices_def filter_empty_conv)
      with s show ?thesis
        by (auto simp: r resolved_of_def output_width_def physical_reference_def split: class_slot_role.splits)
    qed
    with False empty sizes show ?thesis by (simp add: r resolved_of_def)
  qed
qed

section \<open>The layouts the program builds are admitted\<close>

lemma no_evidence: "check_evidence empty_catalog = Inr ()"
  by (simp add: check_evidence_def empty_catalog_def)

lemma native_slots:
  "foreground_indices (map (\<lambda>index. \<lparr>slot_role = Slot_Foreground, slot_index = Some index\<rparr>) indices
      @ [\<lparr>slot_role = Slot_Unused, slot_index = None\<rparr>]) = indices"
  by (induction indices) simp_all

lemma native_layout_wf:
  assumes "catalog_of_record record = Inr c"
  shows "layout_wf (native_training_class_layout c) c"
proof -
  let ?layout = "native_training_class_layout c"
  note native = native_training_class_layout_def default_layout_def
  have n: "length (cc_names c) \<le> 256"
    using conjunct1 [OF catalog_of_record_ok [OF assms(1)]] by (simp add: catalog_ok_def)
  have provenance: "check_provenance (ml_provenance ?layout) = Inr ()"
    by (simp add: native check_provenance_def)
  have slots: "slots_wf (ml_slots ?layout) (length (cc_names c))"
    by (auto simp: native slots_wf_def native_slots slot_ok_def list_all_iff semantic_slots_def count_role_def)
  have "encodings_wf ?layout"
    by (simp add: native encodings_wf_def check_no_object_def check_scores_def semantic_slots_def count_role_def)
  then show ?thesis
    using n provenance slots catalog_record_restores [OF assms(1)]
    by (simp add: layout_wf_def) (simp add: native no_evidence kMaximumClassOutputSlots_def)
qed

text \<open>The layout of a native checkpoint is admitted for every catalog: it is semantic, its classes are those of
  the catalog in their order, one unused slot follows them, and it may be executed.\<close>

theorem native_layout_admitted:
  assumes "catalog_of_record record = Inr c" "encode_record (native_training_class_layout c) = Inr encoded"
  shows "\<exists>r. resolve_layout encode_record (native_training_class_layout c) = Inr r
    \<and> rl_semantic r \<and> rl_catalog r = c \<and> rl_references r = map int [0 ..< length (cc_names c)] @ [-1]
    \<and> require_execution r True = Inr ()"
proof (intro exI conjI)
  let ?layout = "native_training_class_layout c"
  note native = native_training_class_layout_def default_layout_def
  show "resolve_layout encode_record ?layout = Inr (resolved_of ?layout c)"
    using native_layout_wf [OF assms(1)] assms(2) by (auto simp: resolve_layout_iff)
  show "rl_semantic (resolved_of ?layout c)" "rl_catalog (resolved_of ?layout c) = c"
    "require_execution (resolved_of ?layout c) True = Inr ()"
    by (simp_all add: resolved_of_def require_execution_def native semantic_slots_def count_role_def)
  show "rl_references (resolved_of ?layout c) = map int [0 ..< length (cc_names c)] @ [-1]"
    by (auto simp: resolved_of_def native physical_reference_def nth_append)
qed

lemma unresolved_layout_admitted:
  assumes "unresolved_class_layout width = Inr layout" "encode_record layout = Inr encoded"
  shows "\<exists>r. resolve_layout encode_record layout = Inr r
    \<and> \<not> rl_semantic r \<and> output_width r = width \<and> rl_references r = map int [0 ..< width] \<and> rl_eligible r = width"
proof -
  from assms(1) have width: "0 < width" "width \<le> 4096" and layout: "layout = default_layout\<lparr>ml_slots := replicate width default_slot\<rparr>"
    by (auto simp: unresolved_class_layout_def kMaximumClassOutputSlots_def split: if_splits)
  have empty: "catalog_of_record empty_catalog = Inr \<lparr>cc_names = [], cc_keypoints = [], cc_lookup = \<lambda>_. None\<rparr>"
    by (simp add: catalog_of_record_def empty_catalog_def catalog_of_names_def kClassCatalogCapacity_def kClassNameCapacity_def)
  have indices: "foreground_indices (replicate n default_slot) = []" "count_role Slot_Unresolved (replicate n default_slot) = n"
    "count_role Slot_Background (replicate n default_slot) = 0" for n
    by (simp_all add: foreground_indices_def count_role_def default_slot_def)
  let ?c = "\<lparr>cc_names = [], cc_keypoints = [], cc_lookup = \<lambda>_. None\<rparr>"
  have "slots_wf (ml_slots layout) 0"
    by (simp add: layout slots_wf_def indices list_all_length) (simp add: slot_ok_def default_slot_def)
  moreover have "encodings_wf layout"
    using width by (simp add: layout encodings_wf_def semantic_slots_def indices default_layout_def check_no_object_def check_scores_def)
  ultimately have "layout_wf layout ?c"
    using width by (simp add: layout_wf_def layout default_layout_def default_provenance_def check_provenance_def no_evidence
        kMaximumClassOutputSlots_def empty)
  with assms(2) have "resolve_layout encode_record layout = Inr (resolved_of layout ?c)"
    by (auto simp: resolve_layout_iff)
  moreover have "\<not> rl_semantic (resolved_of layout ?c)" "output_width (resolved_of layout ?c) = width"
    using width by (simp_all add: resolved_of_def layout output_width_def semantic_slots_def indices)
  moreover have "rl_references (resolved_of layout ?c) = map int [0 ..< width]" "rl_eligible (resolved_of layout ?c) = width"
    by (simp_all add: resolved_of_def layout physical_reference_def default_slot_def eligible_slot_def)
  ultimately show ?thesis by blast
qed

section \<open>The COCO layout\<close>

abbreviation unused_slot :: model_class_slot where
  "unused_slot \<equiv> \<lparr>slot_role = Slot_Unused, slot_index = None\<rparr>"

lemma length_place_categories [simp]: "length (place_categories index categories slots) = length slots"
  by (induction categories arbitrary: index slots) simp_all

lemma coco_search_absent: "coco_search source_id index categories = None \<longleftrightarrow> source_id \<notin> set (map category_source_id categories)"
  by (induction categories arbitrary: index) auto

lemma nth_place_categories:
  "distinct (map category_source_id categories) \<Longrightarrow> s < length slots \<Longrightarrow>
     place_categories index categories slots ! s =
       (case coco_search s index categories of
          Some i \<Rightarrow> \<lparr>slot_role = Slot_Foreground, slot_index = Some i\<rparr> | None \<Rightarrow> slots ! s)"
proof (induction categories arbitrary: index slots)
  case (Cons c rest)
  let ?slots = "slots[category_source_id c := \<lparr>slot_role = Slot_Foreground, slot_index = Some index\<rparr>]"
  have "place_categories (index + 1) rest ?slots ! s = (case coco_search s (index + 1) rest of
          Some i \<Rightarrow> \<lparr>slot_role = Slot_Foreground, slot_index = Some i\<rparr> | None \<Rightarrow> ?slots ! s)"
    by (rule Cons.IH) (use Cons.prems in simp_all)
  moreover have "coco_search (category_source_id c) (index + 1) rest = None"
    using Cons.prems(1) by (simp add: coco_search_absent)
  ultimately show ?case using Cons.prems(2) by (cases "category_source_id c = s") (auto split: option.splits)
qed simp

lemma coco_slot:
  assumes "s < 91"
  shows "ml_slots (coco_class_layout provenance) ! s =
    (case coco_foreground_index s of
       Some i \<Rightarrow> \<lparr>slot_role = Slot_Foreground, slot_index = Some i\<rparr> | None \<Rightarrow> unused_slot)"
  using assms by (simp add: coco_class_layout_def nth_place_categories [OF coco_ids_distinct] coco_foreground_index_def
      split: option.splits)

lemma coco_layout_length: "length (ml_slots (coco_class_layout provenance)) = 91"
  by (simp add: coco_class_layout_def)

lemma coco_indices: "foreground_indices (ml_slots (coco_class_layout provenance)) = [0 ..< 80]"
proof -
  have "foreground_indices (place_categories 0 kCocoCategories (replicate 91 unused_slot)) = [0 ..< 80]"
    by code_simp
  then show ?thesis by (simp add: coco_class_layout_def)
qed

lemma coco_slots_wf: "slots_wf (ml_slots (coco_class_layout provenance)) 80" "semantic_slots (ml_slots (coco_class_layout provenance))"
  "count_role Slot_Background (ml_slots (coco_class_layout provenance)) = 0"
proof -
  let ?slots = "ml_slots (coco_class_layout provenance)"
  have slot: "slot_ok x \<and> slot_role x \<noteq> Slot_Unresolved \<and> slot_role x \<noteq> Slot_Background" if "x \<in> set ?slots" for x
    using that by (auto simp: in_set_conv_nth coco_layout_length coco_slot slot_ok_def split: option.splits)
  then show semantic: "semantic_slots ?slots" and "count_role Slot_Background ?slots = 0"
    by (auto simp: semantic_slots_def count_role_def filter_empty_conv)
  show "slots_wf ?slots 80"
    using slot semantic by (auto simp: slots_wf_def coco_indices list_all_iff)
qed

lemma coco_catalog_admitted:
  "\<exists>c. catalog_of_record \<lparr>oc_names = map category_name kCocoCategories, oc_keypoints = None\<rparr> = Inr c \<and> cc_names c = kCocoNames"
proof -
  have names: "map category_name kCocoCategories = kCocoNames" by (simp add: kCocoNames_def)
  have "\<exists>lookup. admit_names kClassNameCapacity 0 (\<lambda>_. None) kCocoNames = Inr lookup"
    by (rule admit_names_complete)
      (use coco_name_valid in \<open>auto simp: coco_names_length coco_names_distinct list_all_iff kClassNameCapacity_def\<close>)
  then obtain lookup where "admit_names kClassNameCapacity 0 (\<lambda>_. None) kCocoNames = Inr lookup" by blast
  then show ?thesis
    by (simp add: catalog_of_record_def catalog_of_names_def names kClassCatalogCapacity_def coco_names_length)
qed

text \<open>The COCO layout is admitted with any authoritative provenance, and its output slots are the COCO category
  identifiers: the slot of an identifier refers to the foreground index of that identifier, every other slot to none.\<close>

theorem coco_layout_admitted:
  assumes "check_provenance provenance = Inr ()" "pv_origin provenance \<noteq> Origin_Unresolved"
    and "encode_record (coco_class_layout provenance) = Inr encoded"
  shows "\<exists>r. resolve_layout encode_record (coco_class_layout provenance) = Inr r
    \<and> rl_semantic r \<and> output_width r = 91 \<and> cc_names (rl_catalog r) = kCocoNames
    \<and> (\<forall>id < 91. rl_references r ! id = (case coco_foreground_index id of Some i \<Rightarrow> int i | None \<Rightarrow> -1))"
proof -
  let ?layout = "coco_class_layout provenance"
  obtain c where c: "catalog_of_record (ml_foreground ?layout) = Inr c" "cc_names c = kCocoNames"
    using coco_catalog_admitted by (auto simp: coco_class_layout_def)
  have fixed: "ml_version ?layout = kClassLayoutVersion" "ml_provenance ?layout = provenance"
    "ml_evidence ?layout = empty_catalog" "ml_no_object ?layout = All_Negative" "ml_scores ?layout = Sigmoid_Logits"
    by (simp_all add: coco_class_layout_def default_layout_def)
  have "encodings_wf ?layout"
    using assms(2) by (simp add: encodings_wf_def fixed coco_slots_wf check_no_object_def check_scores_def)
  then have "layout_wf ?layout c"
    using assms(1) c coco_slots_wf(1)
    by (simp add: layout_wf_def fixed no_evidence coco_layout_length coco_names_length kMaximumClassOutputSlots_def)
  with assms(3) have "resolve_layout encode_record ?layout = Inr (resolved_of ?layout c)"
    by (auto simp: resolve_layout_iff)
  moreover have "rl_references (resolved_of ?layout c) ! id =
      (case coco_foreground_index id of Some i \<Rightarrow> int i | None \<Rightarrow> -1)" if "id < 91" for id
    using that by (simp add: resolved_of_def coco_layout_length physical_reference_def coco_slot split: option.splits)
  ultimately show ?thesis
    using c(2) by (auto simp: resolved_of_def coco_slots_wf output_width_def coco_layout_length)
qed

section \<open>Concrete instances\<close>

definition any_text :: record_encoder where "any_text layout = Inr []"

definition verified_asset :: class_layout_provenance where
  "verified_asset = \<lparr>pv_origin = Origin_Verified_Asset, pv_producer = [], pv_artifact_sha256 = []\<rparr>"

lemma coco_layout_admitted_witness: "\<exists>r. resolve_layout any_text (coco_class_layout verified_asset) = Inr r
    \<and> rl_semantic r \<and> output_width r = 91 \<and> cc_names (rl_catalog r) = kCocoNames
    \<and> rl_references r ! 90 = (case coco_foreground_index 90 of Some i \<Rightarrow> int i | None \<Rightarrow> -1)"
  using coco_layout_admitted [of verified_asset any_text "[]"]
  by (simp add: verified_asset_def check_provenance_def any_text_def) force

lemma native_layout_admitted_witness: "\<exists>r. resolve_layout any_text (native_training_class_layout catalog_ab) = Inr r
    \<and> rl_semantic r \<and> rl_catalog r = catalog_ab \<and> rl_references r = map int [0 ..< length (cc_names catalog_ab)] @ [-1]
    \<and> require_execution r True = Inr ()"
  by (rule native_layout_admitted [OF two_names_admitted, where encoded = "[]"]) (simp add: any_text_def)

definition two_unresolved :: model_class_layout where
  "two_unresolved = default_layout\<lparr>ml_slots := [default_slot, default_slot]\<rparr>"

definition two_unresolved_admitted :: resolved_class_layout where
  "two_unresolved_admitted = \<lparr>rl_record = two_unresolved,
     rl_catalog = \<lparr>cc_names = [], cc_keypoints = [], cc_lookup = \<lambda>_. None\<rparr>,
     rl_references = [0, 1], rl_eligible = 2, rl_semantic = False\<rparr>"

lemma two_unresolved_resolves: "resolve_layout any_text two_unresolved = Inr two_unresolved_admitted"
  by (simp add: resolve_layout_def two_unresolved_def two_unresolved_admitted_def any_text_def default_layout_def
      default_slot_def default_provenance_def empty_catalog_def kMaximumClassOutputSlots_def check_provenance_def
      check_evidence_def catalog_of_record_def catalog_of_names_def kClassCatalogCapacity_def kClassNameCapacity_def
      check_tally_def check_no_object_def check_scores_def physical_reference_def eligible_slot_def)

lemma resolved_layout_references_witness:
  "length (rl_references two_unresolved_admitted) = output_width two_unresolved_admitted
    \<and> output_width two_unresolved_admitted \<le> 4096 \<and> cc_names (rl_catalog two_unresolved_admitted) = []
    \<and> rl_references two_unresolved_admitted ! 1 = 1"
proof -
  have "\<not> rl_semantic two_unresolved_admitted" "output_width two_unresolved_admitted = 2"
    "slot_role (ml_slots two_unresolved ! 1) = Slot_Unresolved"
    by (simp_all add: two_unresolved_admitted_def two_unresolved_def output_width_def default_slot_def)
  with resolved_layout_references [OF two_unresolved_resolves] show ?thesis by simp
qed

end
