(* ===== verification/Output_Roles.thy ===== *)
theory Output_Roles
  imports Ascii_Text
begin

text \<open>
  Model tasks, backbones and output roles (\<open>src/backend/models/rfdetr/contract/model_topology.h\<close>,
  \<open>output_roles.h\<close>). The policy of an output role is an annotation of its enumerator that the code reads by
  reflection; here it is a function of the enumerator, and the visitor is the list of the executable roles in
  declaration order. As in \<open>Class_Layout\<close>, the last constructor of an enumeration stands for the values of its
  underlying type that are no enumerator.
\<close>

section \<open>Tasks and backbones\<close>

datatype model_task = Task_Detection | Task_Segmentation | Task_Keypoints | Task_Other nat

fun model_task_name :: "model_task \<Rightarrow> byte list option" where
  "model_task_name Task_Detection = Some (ascii ''detection'')"
| "model_task_name Task_Segmentation = Some (ascii ''segmentation'')"
| "model_task_name Task_Keypoints = Some (ascii ''keypoints'')"
| "model_task_name (Task_Other _) = None"

datatype backbone_kind = Dino_V2_Small | Dino_V2_Base | Pe_Core_Tiny | Backbone_Other nat

record backbone_config =
  bb_kind :: backbone_kind
  bb_dimension :: nat
  bb_feedforward_dimension :: nat
  bb_heads :: nat
  bb_layers :: nat
  bb_features :: "nat list"

definition known_backbone :: "backbone_kind \<Rightarrow> bool" where
  "known_backbone kind = (case kind of Backbone_Other _ \<Rightarrow> False | _ \<Rightarrow> True)"

definition backbone_config_valid :: "backbone_config \<Rightarrow> bool" where
  "backbone_config_valid config \<longleftrightarrow>
     \<not> (\<not> known_backbone (bb_kind config) \<or> bb_dimension config = 0 \<or> bb_feedforward_dimension config = 0
        \<or> bb_heads config = 0 \<or> bb_dimension config mod bb_heads config \<noteq> 0 \<or> bb_layers config = 0) \<and>
     list_all (\<lambda>index. let feature = bb_features config ! index in
         \<not> ((if bb_kind config = Pe_Core_Tiny then feature \<ge> bb_layers config
             else feature = 0 \<or> feature > bb_layers config)
            \<or> index \<noteq> 0 \<and> feature \<le> bb_features config ! (index - 1)))
       [0 ..< length (bb_features config)]"

definition backbone_encoder_name :: "backbone_kind \<Rightarrow> byte list" where
  "backbone_encoder_name kind = (case kind of
       Dino_V2_Small \<Rightarrow> ascii ''dinov2_windowed_small'' | Dino_V2_Base \<Rightarrow> ascii ''dinov2_windowed_base''
     | Pe_Core_Tiny \<Rightarrow> ascii ''pe_core_t'' | Backbone_Other _ \<Rightarrow> [])"

section \<open>Output roles\<close>

datatype output_role = Role_Unspecified | Role_Logits | Role_Boxes | Role_Masks | Role_Keypoints
  | Role_Keypoint_Scores | Role_Keypoint_Precision | Role_Other nat

fun role_value :: "output_role \<Rightarrow> nat" where
  "role_value Role_Unspecified = 0"
| "role_value Role_Logits = 1"
| "role_value Role_Boxes = 2"
| "role_value Role_Masks = 3"
| "role_value Role_Keypoints = 4"
| "role_value Role_Keypoint_Scores = 5"
| "role_value Role_Keypoint_Precision = 6"
| "role_value (Role_Other v) = 7 + v"

record output_policy =
  op_name :: "byte list"
  op_rank :: nat
  op_executable :: bool
  op_task :: "model_task option"

definition policy_supports :: "output_policy \<Rightarrow> model_task \<Rightarrow> bool" where
  "policy_supports p selected \<longleftrightarrow> op_executable p \<and> (op_task p = None \<or> op_task p = Some selected)"

definition inert_policy :: output_policy where
  "inert_policy = \<lparr>op_name = [], op_rank = 0, op_executable = False, op_task = None\<rparr>"

definition role_policy :: "output_role \<Rightarrow> output_policy" where
  "role_policy role = (case role of
       Role_Logits \<Rightarrow> \<lparr>op_name = ascii ''pred_logits'', op_rank = 3, op_executable = True, op_task = None\<rparr>
     | Role_Boxes \<Rightarrow> \<lparr>op_name = ascii ''pred_boxes'', op_rank = 3, op_executable = True, op_task = None\<rparr>
     | Role_Masks \<Rightarrow>
         \<lparr>op_name = ascii ''pred_masks'', op_rank = 4, op_executable = True, op_task = Some Task_Segmentation\<rparr>
     | Role_Keypoints \<Rightarrow>
         \<lparr>op_name = ascii ''pred_keypoints'', op_rank = 4, op_executable = True, op_task = Some Task_Keypoints\<rparr>
     | _ \<Rightarrow> inert_policy)"

definition role_members :: "output_role list" where
  "role_members = [Role_Unspecified, Role_Logits, Role_Boxes, Role_Masks, Role_Keypoints, Role_Keypoint_Scores,
     Role_Keypoint_Precision]"

text \<open>\<open>visit\<close> calls its visitor with these roles, in this order.\<close>

definition executable_roles :: "output_role list" where
  "executable_roles = filter (\<lambda>role. op_executable (role_policy role)) role_members"

text \<open>The position of an executable role among the visited ones; a role without one does not compile.\<close>

fun role_search :: "nat \<Rightarrow> output_role \<Rightarrow> output_role list \<Rightarrow> nat" where
  "role_search current role [] = length role_members"
| "role_search current role (candidate # rest) =
     (if candidate = role then current else role_search (current + 1) role rest)"

definition role_index :: "output_role \<Rightarrow> nat" where
  "role_index role = role_search 0 role executable_roles"

definition output_count :: "model_task \<Rightarrow> nat" where
  "output_count task = length (filter (\<lambda>role. policy_supports (role_policy role) task) executable_roles)"

definition canonical_role :: "byte list \<Rightarrow> output_role" where
  "canonical_role name =
     foldl (\<lambda>result role. if op_name (role_policy role) = name then role else result) Role_Unspecified executable_roles"

definition kRfdetrExecutableOutputCount :: nat where
  "kRfdetrExecutableOutputCount = length executable_roles"

definition kMaximumNamedOutputRoles :: nat where
  "kMaximumNamedOutputRoles = length role_members - 1"

record named_output_role =
  nr_name :: "byte list"
  nr_role :: output_role

section \<open>The table of roles\<close>

lemma executable_roles_eq: "executable_roles = [Role_Logits, Role_Boxes, Role_Masks, Role_Keypoints]"
  by (simp add: executable_roles_def role_members_def role_policy_def inert_policy_def)

lemma role_constants [simp]: "kRfdetrExecutableOutputCount = 4" "kMaximumNamedOutputRoles = 6"
  by (simp_all add: kRfdetrExecutableOutputCount_def kMaximumNamedOutputRoles_def executable_roles_eq role_members_def)

lemma role_index_simps [simp]: "role_index Role_Logits = 0" "role_index Role_Boxes = 1" "role_index Role_Masks = 2"
  "role_index Role_Keypoints = 3"
  by (simp_all add: role_index_def executable_roles_eq)

lemma executable_role_iff: "role \<in> set executable_roles \<longleftrightarrow> op_executable (role_policy role)"
  by (cases role) (simp_all add: executable_roles_eq role_policy_def inert_policy_def)

lemma role_index_inj: "role \<in> set executable_roles \<Longrightarrow> role' \<in> set executable_roles \<Longrightarrow>
    role_index role = role_index role' \<longleftrightarrow> role = role'"
  by (auto simp: executable_roles_eq)

lemma role_index_less: "role \<in> set executable_roles \<Longrightarrow> role_index role < 4"
  by (auto simp: executable_roles_eq)

text \<open>A canonical name denotes its role, and every other name none.\<close>

lemma canonical_role_name:
  "role \<in> set executable_roles \<Longrightarrow> canonical_role (op_name (role_policy role)) = role"
  by (auto simp: executable_roles_eq canonical_role_def role_policy_def ascii_inject simp del: ascii_simps)

lemma canonical_role_other:
  "name \<notin> (\<lambda>role. op_name (role_policy role)) ` set executable_roles \<Longrightarrow> canonical_role name = Role_Unspecified"
  by (auto simp: executable_roles_eq canonical_role_def)

end
