(* ===== verification/Keypoint_Layout.thy ===== *)
theory Keypoint_Layout
  imports Class_Layout Output_Roles
begin

text \<open>
  The keypoint axis of a model's outputs (\<open>src/backend/models/rfdetr/core/keypoint_layout.cpp\<close>) and the output
  contract that ties it to a class layout (\<open>validate_rfdetr_output_contract\<close> in \<open>core/model_info.cpp\<close>). A tensor of
  booleans is a matrix of its rows with its width; a mask that is no two-dimensional boolean tensor has no such
  matrix, and the guard on it is left out.
\<close>

section \<open>The layout of the keypoint axis\<close>

record keypoint_tensor_layout =
  kt_counts :: "nat list"
  kt_compact_offsets :: "nat list"
  kt_maximum_joints :: nat
  kt_padded_count :: nat

fun check_counts :: "nat \<Rightarrow> nat list \<Rightarrow> cxx_error + nat" where
  "check_counts active_classes [] = Inr active_classes"
| "check_counts active_classes (count # rest) =
     (if count > kKeypointsPerClassCapacity
      then Inl (Invalid_Argument ''keypoint schema exceeds per-class joint capacity'')
      else check_counts (active_classes + (if count \<noteq> 0 then 1 else 0)) rest)"

text \<open>The offsets behind the first, which is zero.\<close>

fun offsets_from :: "nat \<Rightarrow> nat list \<Rightarrow> nat list" where
  "offsets_from offset [] = []"
| "offsets_from offset (count # rest) = (offset + count) # offsets_from (offset + count) rest"

definition keypoint_tensor_layout_of :: "nat list \<Rightarrow> cxx_error + keypoint_tensor_layout" where
  "keypoint_tensor_layout_of counts =
     (if length counts > kMaximumClassOutputSlots
      then Inl (Invalid_Argument ''keypoint schema exceeds physical slot capacity'')
      else bindr (check_counts 0 counts) (\<lambda>active_classes.
        if active_classes > kClassCatalogCapacity
        then Inl (Invalid_Argument ''keypoint schema exceeds foreground class capacity'')
        else let maximum = foldl max 0 counts
             in Inr \<lparr>kt_counts = counts, kt_compact_offsets = 0 # offsets_from 0 counts,
                     kt_maximum_joints = maximum, kt_padded_count = length counts * maximum\<rparr>))"

definition compact_count :: "keypoint_tensor_layout \<Rightarrow> nat" where
  "compact_count joints = last (kt_compact_offsets joints)"

definition compact_offset :: "keypoint_tensor_layout \<Rightarrow> nat \<Rightarrow> cxx_error + nat" where
  "compact_offset joints slot =
     (if slot < length (kt_compact_offsets joints) then Inr (kt_compact_offsets joints ! slot)
      else Inl (Out_Of_Range ''vector''))"

definition padded_offset :: "keypoint_tensor_layout \<Rightarrow> nat \<Rightarrow> cxx_error + nat" where
  "padded_offset joints slot =
     (if slot > length (kt_counts joints)
      then Inl (Out_Of_Range ''keypoint physical slot exceeds schema extent'')
      else Inr (slot * kt_maximum_joints joints))"

section \<open>Masks\<close>

record bool_matrix =
  bm_width :: nat
  bm_rows :: "bool list list"

definition active_mask :: "keypoint_tensor_layout \<Rightarrow> bool_matrix" where
  "active_mask joints = \<lparr>bm_width = kt_maximum_joints joints,
     bm_rows = map (\<lambda>count. map (\<lambda>column. column < count) [0 ..< kt_maximum_joints joints]) (kt_counts joints)\<rparr>"

text \<open>The columns of a row: the joints seen, and whether an inactive one was among them.\<close>

fun count_active :: "bool \<Rightarrow> nat \<Rightarrow> bool list \<Rightarrow> cxx_error + nat" where
  "count_active inactive count [] = Inr count"
| "count_active inactive count (active # rest) =
     (if inactive \<and> active
      then Inl (Invalid_Argument ''active-keypoint mask must contain contiguous leading joints'')
      else count_active (inactive \<or> \<not> active) ((count + (if active then 1 else 0)) mod 65536) rest)"

fun count_rows :: "bool list list \<Rightarrow> cxx_error + nat list" where
  "count_rows [] = Inr []"
| "count_rows (row # rest) =
     bindr (count_active False 0 row) (\<lambda>count. bindr (count_rows rest) (\<lambda>counts. Inr (count # counts)))"

definition from_active_mask :: "bool_matrix \<Rightarrow> cxx_error + keypoint_tensor_layout" where
  "from_active_mask active =
     (if length (bm_rows active) > kMaximumClassOutputSlots \<or> bm_width active > kKeypointsPerClassCapacity
      then Inl (Invalid_Argument ''invalid RF-DETR active-keypoint mask shape or dtype'')
      else bindr (count_rows (bm_rows active)) (\<lambda>counts.
           bindr (keypoint_tensor_layout_of counts) (\<lambda>result.
             if bm_width active \<noteq> kt_maximum_joints result
             then Inl (Invalid_Argument ''active-keypoint mask has noncanonical padding width'') else Inr result)))"

section \<open>Agreement with a class layout\<close>

definition expected_joints :: "resolved_class_layout \<Rightarrow> nat \<Rightarrow> cxx_error + nat" where
  "expected_joints r slot =
     (case slot_index (ml_slots (rl_record r) ! slot) of
        None \<Rightarrow> Inr 0
      | Some index \<Rightarrow> bindr (catalog_keypoints (rl_catalog r) index) (\<lambda>schema. Inr (length (ks_names schema))))"

fun require_slots :: "resolved_class_layout \<Rightarrow> keypoint_tensor_layout \<Rightarrow> nat list \<Rightarrow> cxx_error + unit" where
  "require_slots r joints [] = Inr ()"
| "require_slots r joints (slot # rest) =
     bindr (expected_joints r slot) (\<lambda>expected.
       if (if slot < length (kt_counts joints) then kt_counts joints ! slot else 0) \<noteq> expected
       then Inl (Invalid_Argument (''active-keypoint mask disagrees with named class/joint schema at output slot ''
                                   @ text_of (decimal slot)))
       else require_slots r joints rest)"

definition require_class_layout :: "keypoint_tensor_layout \<Rightarrow> resolved_class_layout \<Rightarrow> cxx_error + unit" where
  "require_class_layout joints r =
     (if length (kt_counts joints) > output_width r
      then Inl (Invalid_Argument ''keypoint schema exceeds classifier width'')
      else if \<not> rl_semantic r then Inr ()
      else require_slots r joints [0 ..< output_width r])"

record output_contract =
  ct_version :: nat
  ct_task :: model_task
  ct_keypoints_per_class :: "nat list"

definition validate_output_contract :: "output_contract \<Rightarrow> resolved_class_layout option \<Rightarrow> cxx_error + unit" where
  "validate_output_contract contract layout =
     (if ct_version contract \<noteq> 1 \<or> model_task_name (ct_task contract) = None
      then Inl (Invalid_Argument ''invalid RF-DETR output contract version/task'')
      else bindr (keypoint_tensor_layout_of (ct_keypoints_per_class contract)) (\<lambda>joints.
        if ct_task contract = Task_Keypoints
        then if compact_count joints = 0
             then Inl (Invalid_Argument ''keypoint artifact has no active joint schema'')
             else case layout of
                    None \<Rightarrow> Inr ()
                  | Some r \<Rightarrow>
                      if \<not> rl_semantic r
                      then Inl (Invalid_Argument ''keypoint artifact requires named class and joint schema metadata'')
                      else require_class_layout joints r
        else if ct_keypoints_per_class contract \<noteq> []
        then Inl (Invalid_Argument ''non-keypoint artifact declares joint slots'') else Inr ()))"

section \<open>Rows carried over between two models\<close>

text \<open>The compact offset of every class of the source, \<open>-1\<close> for a class without a slot in the keypoint axis.\<close>

definition source_offsets :: "resolved_class_layout \<Rightarrow> keypoint_tensor_layout \<Rightarrow> int list" where
  "source_offsets source joints =
     foldl (\<lambda>offsets slot.
         case slot_index (ml_slots (rl_record source) ! slot) of
           None \<Rightarrow> offsets
         | Some index \<Rightarrow> offsets[index := int (kt_compact_offsets joints ! slot)])
       (replicate (length (cc_names (rl_catalog source))) (-1)) [0 ..< length (kt_counts joints)]"

fun transfer_slots ::
    "resolved_class_layout \<Rightarrow> int list \<Rightarrow> resolved_class_layout \<Rightarrow> keypoint_tensor_layout \<Rightarrow> nat list \<Rightarrow>
       cxx_error + (int \<times> int) list" where
  "transfer_slots source offsets destination joints [] = Inr []"
| "transfer_slots source offsets destination joints (slot # rest) =
     (case slot_index (ml_slots (rl_record destination) ! slot) of
        None \<Rightarrow> transfer_slots source offsets destination joints rest
      | Some index \<Rightarrow>
          if kt_counts joints ! slot = 0 then transfer_slots source offsets destination joints rest
          else case resolve (rl_catalog source) (cc_names (rl_catalog destination) ! index) of
                 None \<Rightarrow> transfer_slots source offsets destination joints rest
               | Some source_index \<Rightarrow>
                   if offsets ! source_index < 0 then transfer_slots source offsets destination joints rest
                   else bindr (catalog_keypoints (rl_catalog source) source_index) (\<lambda>from.
                        bindr (catalog_keypoints (rl_catalog destination) index) (\<lambda>to.
                        bindr (shared_keypoint_correspondence from to) (\<lambda>pairs.
                        bindr (transfer_slots source offsets destination joints rest) (\<lambda>rows.
                          Inr (map (\<lambda>(source_joint, destination_joint).
                                 (offsets ! source_index + int source_joint,
                                  int (kt_compact_offsets joints ! slot) + int destination_joint)) pairs @ rows))))))"

definition keypoint_transfer_rows ::
    "resolved_class_layout \<Rightarrow> keypoint_tensor_layout \<Rightarrow> resolved_class_layout \<Rightarrow> keypoint_tensor_layout \<Rightarrow>
       cxx_error + (int \<times> int) list" where
  "keypoint_transfer_rows source source_joints destination destination_joints =
     bindr (require_execution source True) (\<lambda>_.
     bindr (require_execution destination True) (\<lambda>_.
     bindr (require_class_layout source_joints source) (\<lambda>_.
     bindr (require_class_layout destination_joints destination) (\<lambda>_.
       transfer_slots source (source_offsets source source_joints) destination destination_joints
         [0 ..< length (kt_counts destination_joints)]))))"

section \<open>Offsets\<close>

lemma check_counts_iff:
  "check_counts active counts = Inr n \<longleftrightarrow>
     (\<forall>c \<in> set counts. c \<le> 256) \<and> n = active + length (filter (\<lambda>c. c \<noteq> 0) counts)"
  by (induction counts arbitrary: active) (auto simp: kKeypointsPerClassCapacity_def)

lemma nth_offsets: "i \<le> length counts \<Longrightarrow> (offset # offsets_from offset counts) ! i = offset + sum_list (take i counts)"
proof (induction counts arbitrary: i offset)
  case (Cons c counts)
  then show ?case by (cases i) (auto simp: add.assoc)
qed simp

lemma length_offsets [simp]: "length (offsets_from offset counts) = length counts"
  by (induction counts arbitrary: offset) simp_all

lemma last_offsets: "last (offset # offsets_from offset counts) = offset + sum_list counts"
  by (induction counts arbitrary: offset) (auto simp: add.assoc)

lemma foldl_max_upper: "a \<le> foldl max a counts \<and> (\<forall>c \<in> set counts. c \<le> foldl max a counts)" for a :: nat
proof (induction counts arbitrary: a)
  case (Cons c counts)
  have "max a c \<le> foldl max (max a c) counts" using Cons.IH by blast
  with Cons.IH [of "max a c"] show ?case by auto
qed simp

lemma foldl_max_least: "a \<le> b \<Longrightarrow> \<forall>c \<in> set counts. c \<le> b \<Longrightarrow> foldl max a counts \<le> b" for a :: nat
  by (induction counts arbitrary: a) simp_all

definition layout_of_counts :: "nat list \<Rightarrow> keypoint_tensor_layout" where
  "layout_of_counts counts = \<lparr>kt_counts = counts, kt_compact_offsets = 0 # offsets_from 0 counts,
     kt_maximum_joints = foldl max 0 counts, kt_padded_count = length counts * foldl max 0 counts\<rparr>"

definition counts_ok :: "nat list \<Rightarrow> bool" where
  "counts_ok counts \<longleftrightarrow> length counts \<le> 4096 \<and> (\<forall>c \<in> set counts. c \<le> 256) \<and> length (filter (\<lambda>c. c \<noteq> 0) counts) \<le> 256"

lemma keypoint_tensor_layout_of_iff:
  "keypoint_tensor_layout_of counts = Inr joints \<longleftrightarrow> counts_ok counts \<and> joints = layout_of_counts counts"
  by (auto simp: keypoint_tensor_layout_of_def bindr_Inr_iff check_counts_iff counts_ok_def layout_of_counts_def Let_def
      kMaximumClassOutputSlots_def kClassCatalogCapacity_def)

lemma layout_of_counts_simps [simp]:
  "kt_counts (layout_of_counts counts) = counts" "kt_maximum_joints (layout_of_counts counts) = foldl max 0 counts"
  "compact_count (layout_of_counts counts) = sum_list counts"
  "slot \<le> length counts \<Longrightarrow> kt_compact_offsets (layout_of_counts counts) ! slot = sum_list (take slot counts)"
  by (simp_all add: layout_of_counts_def compact_count_def nth_offsets last_offsets del: last.simps)

section \<open>The active mask\<close>

lemma column_row: "count \<le> n \<Longrightarrow> map (\<lambda>column. column < count) [0 ..< n] = replicate count True @ replicate (n - count) False"
  by (intro nth_equalityI) (auto simp: nth_append)

lemma count_inactive: "count_active inactive k (replicate n False) = Inr k" if "k < 65536" for k
  using that by (induction n arbitrary: inactive) simp_all

lemma count_row: "k + c < 65536 \<Longrightarrow> count_active False k (replicate c True @ replicate n False) = Inr (k + c)"
  by (induction c arbitrary: k) (simp_all add: count_inactive)

lemma count_rows_of_counts:
  "\<forall>c \<in> set counts. c \<le> n \<and> c < 65536 \<Longrightarrow> count_rows (map (\<lambda>count. map (\<lambda>column. column < count) [0 ..< n]) counts) = Inr counts"
  by (induction counts) (simp_all add: column_row count_row)

text \<open>The boolean mask of a keypoint layout that a model stores determines the layout: reading the mask back
  yields the layout it was written from, with its offsets and its padding.\<close>

theorem active_mask_roundtrip:
  assumes "keypoint_tensor_layout_of counts = Inr joints"
  shows "from_active_mask (active_mask joints) = Inr joints"
proof -
  from assms have ok: "counts_ok counts" and joints: "joints = layout_of_counts counts"
    by (simp_all add: keypoint_tensor_layout_of_iff)
  have bound: "foldl max 0 counts \<le> 256" using ok by (simp add: foldl_max_least counts_ok_def)
  have "c \<le> foldl max 0 counts \<and> c < 65536" if "c \<in> set counts" for c
    using that ok foldl_max_upper [of 0 counts] by (auto simp: counts_ok_def)
  then have "count_rows (bm_rows (active_mask joints)) = Inr counts"
    by (simp add: active_mask_def joints count_rows_of_counts)
  moreover have "length (bm_rows (active_mask joints)) = length counts" "bm_width (active_mask joints) = foldl max 0 counts"
    by (simp_all add: active_mask_def joints)
  ultimately show ?thesis
    using assms bound ok joints
    by (simp add: from_active_mask_def kMaximumClassOutputSlots_def kKeypointsPerClassCapacity_def counts_ok_def)
qed

lemma active_mask_roundtrip_witness: "from_active_mask (active_mask (layout_of_counts [2, 0, 3])) = Inr (layout_of_counts [2, 0, 3])"
  by (rule active_mask_roundtrip [where counts = "[2, 0, 3]"]) (simp add: keypoint_tensor_layout_of_iff counts_ok_def)

section \<open>The keypoints of a native checkpoint\<close>

lemma require_slots_iff:
  "require_slots r joints slots = Inr () \<longleftrightarrow>
     (\<forall>slot \<in> set slots. expected_joints r slot =
        Inr (if slot < length (kt_counts joints) then kt_counts joints ! slot else 0))"
  by (induction slots) (auto simp: bindr_Inr_iff)

lemma catalog_keypoints_ok:
  assumes "catalog_ok c" "i < length (cc_names c)"
  shows "\<exists>schema. catalog_keypoints c i = Inr schema \<and> schema_valid schema"
proof (cases "cc_keypoints c = []")
  case True
  then show ?thesis using assms(2) by (simp add: catalog_keypoints_def empty_schema_def schema_valid_def)
next
  case False
  then have "i < length (cc_keypoints c)" "list_all schema_valid (cc_keypoints c)"
    using assms by (auto simp: catalog_ok_def)
  then show ?thesis using False assms(2) by (simp add: catalog_keypoints_def list_all_length)
qed

lemma native_counts:
  assumes "catalog_ok c"
  shows "counts_ok (native_training_keypoint_counts c)"
    and "length (native_training_keypoint_counts c) = length (cc_names c) + 1"
    and "i < length (cc_names c) \<Longrightarrow> catalog_keypoints c i = Inr schema \<Longrightarrow>
           native_training_keypoint_counts c ! i = length (ks_names schema)"
    and "native_training_keypoint_counts c ! length (cc_names c) = 0"
proof -
  let ?n = "length (cc_names c)"
  have nth: "native_training_keypoint_counts c ! i = length (ks_names schema) \<and> length (ks_names schema) \<le> 256"
    if "i < ?n" "catalog_keypoints c i = Inr schema" for i schema
  proof -
    have "length (ks_names schema) \<le> 256"
      using catalog_keypoints_ok [OF assms that(1)] that(2) by (auto simp: schema_valid_def)
    with that show ?thesis by (simp add: native_training_keypoint_counts_def nth_append)
  qed
  show len: "length (native_training_keypoint_counts c) = ?n + 1"
    and zero: "native_training_keypoint_counts c ! ?n = 0"
    by (simp_all add: native_training_keypoint_counts_def nth_append)
  show "i < ?n \<Longrightarrow> catalog_keypoints c i = Inr schema \<Longrightarrow> native_training_keypoint_counts c ! i = length (ks_names schema)"
    using nth by blast
  have n: "?n \<le> 256" using assms by (simp add: catalog_ok_def)
  have "x \<le> 256" if x: "x \<in> set (native_training_keypoint_counts c)" for x
  proof -
    from x obtain i where i: "i < ?n + 1" "x = native_training_keypoint_counts c ! i" by (auto simp: in_set_conv_nth len)
    show ?thesis
    proof (cases "i < ?n")
      case True
      then show ?thesis using nth catalog_keypoints_ok [OF assms True] i(2) by fastforce
    next
      case False
      with i have "i = ?n" by simp
      then show ?thesis using i(2) zero by simp
    qed
  qed
  moreover have "length (filter (\<lambda>c. c \<noteq> 0) (native_training_keypoint_counts c)) \<le> ?n"
    unfolding native_training_keypoint_counts_def filter_append by (simp add: le_trans [OF length_filter_le])
  ultimately show "counts_ok (native_training_keypoint_counts c)"
    using n len by (simp add: counts_ok_def)
qed

text \<open>The keypoint counts a native checkpoint is written with agree with the class layout it is written with: a
  reader admits both, and, when some class has joints, admits the keypoint contract that goes with them.\<close>

theorem native_keypoints_agree:
  assumes "catalog_of_record record = Inr c"
    and "resolve_layout encode_record (native_training_class_layout c) = Inr r"
  shows "\<exists>joints. keypoint_tensor_layout_of (native_training_keypoint_counts c) = Inr joints
    \<and> require_class_layout joints r = Inr ()
    \<and> (has_keypoints c \<longrightarrow> validate_output_contract \<lparr>ct_version = 1, ct_task = Task_Keypoints,
         ct_keypoints_per_class = native_training_keypoint_counts c\<rparr> (Some r) = Inr ())"
proof (intro exI conjI impI)
  let ?n = "length (cc_names c)"
  let ?joints = "layout_of_counts (native_training_keypoint_counts c)"
  note ok = conjunct1 [OF catalog_of_record_ok [OF assms(1)]]
  note counts = native_counts [OF ok]
  from assms(2) obtain c' where wf: "layout_wf (native_training_class_layout c) c'" and r: "r = resolved_of (native_training_class_layout c) c'"
    by (auto simp: resolve_layout_iff)
  have "c' = c"
    using wf catalog_record_restores [OF assms(1)] by (simp add: layout_wf_def native_training_class_layout_def)
  note r = r [unfolded this]
  have slots: "ml_slots (rl_record r) = map (\<lambda>index. \<lparr>slot_role = Slot_Foreground, slot_index = Some index\<rparr>) [0 ..< ?n] @ [unused_slot]"
    by (simp add: r resolved_of_def native_training_class_layout_def)
  have semantic: "rl_semantic r" "rl_catalog r = c" "output_width r = ?n + 1"
    by (simp_all add: r resolved_of_def native_training_class_layout_def semantic_slots_def count_role_def output_width_def)
  show layout: "keypoint_tensor_layout_of (native_training_keypoint_counts c) = Inr ?joints"
    using counts(1) by (simp add: keypoint_tensor_layout_of_iff)
  have expected: "expected_joints r slot = Inr (native_training_keypoint_counts c ! slot)" if "slot < ?n + 1" for slot
  proof (cases "slot < ?n")
    case True
    then show ?thesis
      using catalog_keypoints_ok [OF ok True] counts(3) [OF True] by (auto simp: expected_joints_def slots nth_append semantic)
  next
    case False
    with that have "slot = ?n" by simp
    then show ?thesis using counts(4) by (simp add: expected_joints_def slots nth_append)
  qed
  show agree: "require_class_layout ?joints r = Inr ()"
    using counts(2) expected by (simp add: require_class_layout_def semantic require_slots_iff)
  assume "has_keypoints c"
  then obtain schema where "schema \<in> set (cc_keypoints c)" "ks_names schema \<noteq> []"
    by (auto simp: has_keypoints_def list_ex_iff)
  then obtain i where i: "i < length (cc_keypoints c)" "ks_names (cc_keypoints c ! i) \<noteq> []" by (auto simp: in_set_conv_nth)
  then have n: "i < ?n" using ok by (auto simp: catalog_ok_def)
  have "cc_keypoints c \<noteq> []" using i(1) by auto
  then have "native_training_keypoint_counts c ! i \<noteq> 0"
    using i n counts(3) [OF n] by (simp add: catalog_keypoints_def)
  then have "sum_list (native_training_keypoint_counts c) \<noteq> 0"
    using n counts(2) nth_mem [of i "native_training_keypoint_counts c"] by auto
  then show "validate_output_contract \<lparr>ct_version = 1, ct_task = Task_Keypoints,
         ct_keypoints_per_class = native_training_keypoint_counts c\<rparr> (Some r) = Inr ()"
    using layout agree semantic by (simp add: validate_output_contract_def)
qed

section \<open>What the transferred rows connect\<close>

text \<open>The pairs of a correspondence join joints of the same name, each target joint at most once.\<close>

lemma match_joints_spec:
  assumes "\<And>x i. lookup x = Some i \<Longrightarrow> i < length (ks_names source) \<and> ks_names source ! i = x"
    and "length (ks_names destination) \<le> 256"
  shows "match_joints source destination exact lookup targets = Inr pairs \<Longrightarrow>
      \<forall>target \<in> set targets. target < length (ks_names destination) \<Longrightarrow> distinct targets \<Longrightarrow>
     distinct (map snd pairs) \<and> set (map snd pairs) \<subseteq> set targets
     \<and> (\<forall>(from, to) \<in> set pairs. from < length (ks_names source) \<and> ks_names source ! from = ks_names destination ! to)"
proof (induction targets arbitrary: pairs)
  case (Cons target rest)
  show ?case
  proof (cases "lookup (ks_names destination ! target)")
    case None
    then have "match_joints source destination exact lookup rest = Inr pairs"
      using Cons.prems(1) by (simp split: if_splits)
    from Cons.IH [OF this] Cons.prems show ?thesis by auto
  next
    case (Some joint)
    have "checked_joint_index target (length (ks_names destination)) = Inr target"
      using Cons.prems(2) assms(2) by (simp add: checked_joint_index_def kKeypointsPerClassCapacity_def)
    with Some Cons.prems(1) obtain pairs' where step: "match_joints source destination exact lookup rest = Inr pairs'"
      "pairs = (joint, target) # pairs'"
      by (auto simp: bindr_Inr_iff split: if_splits)
    from Cons.IH [OF step(1)] Cons.prems(2,3) assms(1) [OF Some] step(2) show ?thesis by auto
  qed
qed simp

lemma shared_correspondence_spec:
  assumes "shared_keypoint_correspondence source destination = Inr pairs"
  shows "distinct (map snd pairs)" "distinct (map fst pairs)"
    and "(a, b) \<in> set pairs \<Longrightarrow> a < length (ks_names source) \<and> b < length (ks_names destination)
           \<and> ks_names source ! a = ks_names destination ! b"
proof -
  from assms obtain lookup where valid: "schema_valid source" "schema_valid destination"
    and lookup: "joint_lookup source = Inr lookup"
    and run: "match_joints source destination False lookup [0 ..< length (ks_names destination)] = Inr pairs"
    by (auto simp: shared_keypoint_correspondence_def joint_correspondence_def bindr_Inr_iff validate_keypoint_schema_iff
        split: if_splits)
  have find: "lookup x = find (\<lambda>i. ks_names source ! i = x) [0 ..< length (ks_names source)]" for x
    using lookup_names_find [of "ks_names source" "[0 ..< length (ks_names source)]" "\<lambda>_. None"]
      schema_validD(1) [OF valid(1)] lookup by (auto simp: joint_lookup_def)
  have "lookup x = Some i \<Longrightarrow> i < length (ks_names source) \<and> ks_names source ! i = x" for x i
    unfolding find by (auto simp: find_Some_iff)
  from match_joints_spec [OF this schema_validD(1) [OF valid(2)] run]
  have spec: "distinct (map snd pairs)" "set (map snd pairs) \<subseteq> {..< length (ks_names destination)}"
    "\<forall>(from, to) \<in> set pairs. from < length (ks_names source) \<and> ks_names source ! from = ks_names destination ! to"
    by (auto simp: atLeast0LessThan)
  then show "distinct (map snd pairs)" by simp
  show pair: "(a, b) \<in> set pairs \<Longrightarrow> a < length (ks_names source) \<and> b < length (ks_names destination)
           \<and> ks_names source ! a = ks_names destination ! b" for a b
    using spec(2,3) by force
  have at: "snd r < length (ks_names destination) \<and> ks_names source ! fst r = ks_names destination ! snd r"
    if "r \<in> set pairs" for r
    using pair [of "fst r" "snd r"] that by simp
  have "inj_on fst (set pairs)"
  proof (rule inj_onI)
    fix p q assume pq: "p \<in> set pairs" "q \<in> set pairs" "fst p = fst q"
    with at [OF pq(1)] at [OF pq(2)] have "snd p = snd q"
      using schema_validD(4) [OF valid(2)] by (metis nth_eq_iff_index_eq)
    with pq(3) show "p = q" by (simp add: prod_eq_iff)
  qed
  moreover have "distinct pairs" using spec(1) by (simp add: distinct_map)
  ultimately show "distinct (map fst pairs)" by (simp add: distinct_map)
qed

text \<open>Row \<open>a\<close> of the compact axis is joint \<open>p\<close> of class \<open>i\<close>.\<close>

definition joint_row :: "resolved_class_layout \<Rightarrow> keypoint_tensor_layout \<Rightarrow> int \<Rightarrow> nat \<Rightarrow> nat \<Rightarrow> bool" where
  "joint_row r joints a i p \<longleftrightarrow> (\<exists>slot < length (kt_counts joints). slot_index (ml_slots (rl_record r) ! slot) = Some i
     \<and> p < kt_counts joints ! slot \<and> a = int (kt_compact_offsets joints ! slot) + int p)"

lemma sum_take_step:
  "s < s' \<Longrightarrow> s' \<le> length counts \<Longrightarrow> sum_list (take s counts) + counts ! s \<le> sum_list (take s' counts)" for counts :: "nat list"
proof (induction s')
  case (Suc s')
  then show ?case by (cases "s = s'") (auto simp: take_Suc_conv_app_nth)
qed simp

lemma slot_of_row:
  fixes counts :: "nat list"
  assumes "s < length counts" "s' < length counts" "p < counts ! s" "p' < counts ! s'"
    and "sum_list (take s counts) + p = sum_list (take s' counts) + p'"
  shows "s = s' \<and> p = p'"
proof -
  have "s = s'"
    using sum_take_step [of s s' counts] sum_take_step [of s' s counts] assms by (cases s s' rule: linorder_cases) auto
  with assms(5) show ?thesis by simp
qed

lemma joint_row_unique:
  assumes "joint_row r (layout_of_counts counts) a i p" "joint_row r (layout_of_counts counts) a i' p'"
  shows "i = i' \<and> p = p'"
  using assms slot_of_row [of _ counts] unfolding joint_row_def by (fastforce simp flip: of_nat_add)

lemma joint_row_bound:
  assumes "joint_row r (layout_of_counts counts) a i p"
  shows "0 \<le> a \<and> a < int (compact_count (layout_of_counts counts))"
  using assms sum_take_step [of _ "length counts" counts] unfolding joint_row_def by fastforce

lemma nth_update_any: "xs[k := x] ! i = (if k = i \<and> i < length xs then x else xs ! i)"
  by (cases "k = i"; cases "i < length xs") (simp_all add: list_update_beyond)

text \<open>The offsets of the source are those of slots that carry the class.\<close>

lemma source_offsets_spec:
  assumes "i < length (cc_names (rl_catalog source))" "\<not> source_offsets source joints ! i < 0"
  shows "\<exists>slot < length (kt_counts joints). slot_index (ml_slots (rl_record source) ! slot) = Some i
    \<and> source_offsets source joints ! i = int (kt_compact_offsets joints ! slot)"
proof -
  let ?step = "\<lambda>offsets slot. case slot_index (ml_slots (rl_record source) ! slot) of None \<Rightarrow> offsets
      | Some index \<Rightarrow> offsets[index := int (kt_compact_offsets joints ! slot)]"
  let ?n = "length (cc_names (rl_catalog source))"
  have "length (foldl ?step (replicate ?n (-1)) slots) = ?n
      \<and> (foldl ?step (replicate ?n (-1)) slots ! i < 0 \<or>
          (\<exists>slot \<in> set slots. slot_index (ml_slots (rl_record source) ! slot) = Some i
             \<and> foldl ?step (replicate ?n (-1)) slots ! i = int (kt_compact_offsets joints ! slot)))" for slots
  proof (induction slots rule: rev_induct)
    case Nil
    then show ?case using assms(1) by simp
  next
    case (snoc slot slots)
    then show ?case using assms(1)
      by (cases "slot_index (ml_slots (rl_record source) ! slot)") (auto simp: nth_update_any)
  qed
  from this [of "[0 ..< length (kt_counts joints)]"] assms(2) show ?thesis
    unfolding source_offsets_def by auto
qed

lemma transfer_step:
  assumes "transfer_slots source offsets destination joints (slot # slots) = Inr rows"
  shows "transfer_slots source offsets destination joints slots = Inr rows \<or>
    (\<exists>j i s s' pairs rest. slot_index (ml_slots (rl_record destination) ! slot) = Some j
      \<and> resolve (rl_catalog source) (cc_names (rl_catalog destination) ! j) = Some i \<and> \<not> offsets ! i < 0
      \<and> catalog_keypoints (rl_catalog source) i = Inr s \<and> catalog_keypoints (rl_catalog destination) j = Inr s'
      \<and> shared_keypoint_correspondence s s' = Inr pairs
      \<and> transfer_slots source offsets destination joints slots = Inr rest
      \<and> rows = map (\<lambda>(p, q). (offsets ! i + int p, int (kt_compact_offsets joints ! slot) + int q)) pairs @ rest)"
  using assms by (fastforce simp: bindr_Inr_iff split: option.splits if_splits)

lemma transfer_slots_spec:
  assumes source: "\<And>i. i < length (cc_names (rl_catalog source)) \<Longrightarrow> \<not> offsets ! i < 0 \<Longrightarrow>
      \<exists>slot < length (kt_counts source_joints). slot_index (ml_slots (rl_record source) ! slot) = Some i
        \<and> offsets ! i = int (kt_compact_offsets source_joints ! slot)
        \<and> expected_joints source slot = Inr (kt_counts source_joints ! slot)"
    and catalog: "catalog_ok (rl_catalog source)"
    and agree: "\<And>slot. slot < length (kt_counts joints) \<Longrightarrow>
      expected_joints destination slot = Inr (kt_counts joints ! slot)"
  shows "transfer_slots source offsets destination joints slots = Inr rows \<Longrightarrow>
      \<forall>slot \<in> set slots. slot < length (kt_counts joints) \<Longrightarrow> (a, b) \<in> set rows \<Longrightarrow>
    \<exists>slot \<in> set slots. \<exists>i j p q s s'. joint_row source source_joints a i p
      \<and> slot_index (ml_slots (rl_record destination) ! slot) = Some j \<and> q < kt_counts joints ! slot
      \<and> b = int (kt_compact_offsets joints ! slot) + int q
      \<and> i < length (cc_names (rl_catalog source))
      \<and> cc_names (rl_catalog source) ! i = cc_names (rl_catalog destination) ! j
      \<and> catalog_keypoints (rl_catalog source) i = Inr s \<and> catalog_keypoints (rl_catalog destination) j = Inr s'
      \<and> ks_names s ! p = ks_names s' ! q"
proof (induction slots arbitrary: rows)
  case (Cons slot slots)
  show ?case
  proof (cases "transfer_slots source offsets destination joints slots = Inr rows")
    case True
    from Cons.IH [OF this] Cons.prems(2,3) show ?thesis by auto
  next
    case False
    with Cons.prems(1) obtain j i s s' pairs rest where step:
      "slot_index (ml_slots (rl_record destination) ! slot) = Some j"
      "resolve (rl_catalog source) (cc_names (rl_catalog destination) ! j) = Some i" "\<not> offsets ! i < 0"
      "catalog_keypoints (rl_catalog source) i = Inr s" "catalog_keypoints (rl_catalog destination) j = Inr s'"
      "shared_keypoint_correspondence s s' = Inr pairs"
      "transfer_slots source offsets destination joints slots = Inr rest"
      "rows = map (\<lambda>(p, q). (offsets ! i + int p, int (kt_compact_offsets joints ! slot) + int q)) pairs @ rest"
      using transfer_step [OF Cons.prems(1)] by blast
    show ?thesis
    proof (cases "(a, b) \<in> set rest")
      case True
      from Cons.IH [OF step(7) _ this] Cons.prems(2) show ?thesis by auto
    next
      case False
      with Cons.prems(3) step(8) obtain p q where pq: "(p, q) \<in> set pairs"
        "a = offsets ! i + int p" "b = int (kt_compact_offsets joints ! slot) + int q" by auto
      note names = shared_correspondence_spec(3) [OF step(6) pq(1)]
      have i: "i < length (cc_names (rl_catalog source))" "cc_names (rl_catalog source) ! i = cc_names (rl_catalog destination) ! j"
        using step(2) catalog by (simp_all add: resolve_def catalog_ok_def)
      from source [OF i(1) step(3)] obtain from_slot where at: "from_slot < length (kt_counts source_joints)"
        "slot_index (ml_slots (rl_record source) ! from_slot) = Some i"
        "offsets ! i = int (kt_compact_offsets source_joints ! from_slot)"
        "expected_joints source from_slot = Inr (kt_counts source_joints ! from_slot)" by blast
      have "joint_row source source_joints a i p"
        using at names step(4) pq(2) by (auto simp: joint_row_def expected_joints_def)
      moreover have "q < kt_counts joints ! slot"
        using agree [of slot] Cons.prems(2) step(1,5) names by (simp add: expected_joints_def)
      ultimately show ?thesis using step(1,4,5) pq(3) i names by fastforce
    qed
  qed
qed simp

lemma transfer_slots_distinct:
  assumes "transfer_slots source offsets destination joints slots = Inr rows"
    and "joints = layout_of_counts counts" "distinct slots" "\<forall>slot \<in> set slots. slot < length counts"
    and agree: "\<And>slot. slot < length (kt_counts joints) \<Longrightarrow>
      expected_joints destination slot = Inr (kt_counts joints ! slot)"
  shows "distinct (map snd rows) \<and> (\<forall>b \<in> set (map snd rows). \<exists>slot \<in> set slots. \<exists>q < counts ! slot.
      b = int (sum_list (take slot counts) + q))"
  using assms(1,3,4)
proof (induction slots arbitrary: rows)
  case (Cons slot slots)
  show ?case
  proof (cases "transfer_slots source offsets destination joints slots = Inr rows")
    case True
    from Cons.IH [OF this] Cons.prems(2,3) show ?thesis by auto
  next
    case False
    with Cons.prems(1) obtain j i s s' pairs rest where step:
      "slot_index (ml_slots (rl_record destination) ! slot) = Some j"
      "catalog_keypoints (rl_catalog destination) j = Inr s'"
      "shared_keypoint_correspondence s s' = Inr pairs"
      "transfer_slots source offsets destination joints slots = Inr rest"
      "rows = map (\<lambda>(p, q). (offsets ! i + int p, int (kt_compact_offsets joints ! slot) + int q)) pairs @ rest"
      using transfer_step [OF Cons.prems(1)] by blast
    let ?here = "map (\<lambda>r. int (sum_list (take slot counts) + snd r)) pairs"
    have slot: "slot < length counts" using Cons.prems(3) by simp
    have snds: "map snd rows = ?here @ map snd rest"
      using slot by (simp add: step(5) assms(2) case_prod_unfold comp_def)
    have here: "\<exists>q < counts ! slot. b = int (sum_list (take slot counts) + q)" if "b \<in> set ?here" for b
    proof -
      from that obtain r where r: "r \<in> set pairs" "b = int (sum_list (take slot counts) + snd r)" by auto
      then have "snd r < length (ks_names s')" using shared_correspondence_spec(3) [OF step(3), of "fst r" "snd r"] by simp
      moreover have "length (ks_names s') = counts ! slot"
        using agree [of slot] slot step(1,2) assms(2) by (simp add: expected_joints_def)
      ultimately show ?thesis using r(2) by (intro exI [of _ "snd r"]) simp
    qed
    from Cons.IH [OF step(4)] Cons.prems(2,3) have rest: "distinct (map snd rest)"
      "\<forall>b \<in> set (map snd rest). \<exists>slot' \<in> set slots. \<exists>q < counts ! slot'. b = int (sum_list (take slot' counts) + q)"
      by simp_all
    have "distinct ?here"
      using shared_correspondence_spec(1) [OF step(3)] by (auto simp: distinct_map inj_on_def)
    moreover have "set ?here \<inter> set (map snd rest) = {}"
    proof (rule ccontr)
      assume "set ?here \<inter> set (map snd rest) \<noteq> {}"
      then obtain b where b: "b \<in> set ?here" "b \<in> set (map snd rest)" by blast
      from here [OF b(1)] rest(2) b(2) obtain q slot' q' where
        "q < counts ! slot" "slot' \<in> set slots" "q' < counts ! slot'"
        "sum_list (take slot counts) + q = sum_list (take slot' counts) + q'" by fastforce
      with slot_of_row [of slot counts slot' q q'] slot Cons.prems(2,3) show False by auto
    qed
    ultimately have "distinct (?here @ map snd rest)" using rest(1) by simp
    moreover have "\<exists>s \<in> set (slot # slots). \<exists>q < counts ! s. b = int (sum_list (take s counts) + q)"
      if "b \<in> set (?here @ map snd rest)" for b
    proof (cases "b \<in> set ?here")
      case True
      from here [OF this] show ?thesis by simp
    next
      case False
      with that have "b \<in> set (map snd rest)" by simp
      with rest(2) show ?thesis by fastforce
    qed
    ultimately show ?thesis unfolding snds by blast
  qed
qed simp

lemma distinct_filter_nth:
  "distinct (map f (filter P xs)) \<Longrightarrow> i < length xs \<Longrightarrow> j < length xs \<Longrightarrow> P (xs ! i) \<Longrightarrow> P (xs ! j) \<Longrightarrow>
     f (xs ! i) = f (xs ! j) \<Longrightarrow> i = j"
proof (induction xs arbitrary: i j)
  case (Cons x xs)
  show ?case
  proof (cases i; cases j)
    fix i' j' assume ij: "i = Suc i'" "j = Suc j'"
    with Cons.IH [of i' j'] Cons.prems show ?thesis by (auto split: if_splits)
  next
    fix j' assume ij: "i = 0" "j = Suc j'"
    then have "xs ! j' \<in> set (filter P xs)" using Cons.prems by simp
    with ij Cons.prems show ?thesis by (auto split: if_splits)
  next
    fix i' assume ij: "i = Suc i'" "j = 0"
    then have "xs ! i' \<in> set (filter P xs)" using Cons.prems by simp
    with ij Cons.prems show ?thesis by (metis filter.simps(2) distinct.simps(2) image_eqI list.set_map list.simps(9) nth_Cons_0 nth_Cons_Suc)
  qed simp
qed simp

lemma slot_of_class:
  assumes "slots_wf slots n" "a < length slots" "b < length slots" "slot_index (slots ! a) = Some i" "slot_index (slots ! b) = Some i"
  shows "a = b"
proof -
  have role: "slot_role (slots ! s) = Slot_Foreground" if "s < length slots" "slot_index (slots ! s) = Some i" for s
  proof -
    have "slot_ok (slots ! s)" using assms(1) that(1) by (simp add: slots_wf_def list_all_length)
    with that(2) show ?thesis by (cases "slot_role (slots ! s)") (simp_all add: slot_ok_def)
  qed
  from assms(1) have "distinct (map (\<lambda>s. the (slot_index s)) (filter (\<lambda>s. slot_role s = Slot_Foreground) slots))"
    by (simp add: slots_wf_def foreground_indices_def)
  from distinct_filter_nth [OF this assms(2,3)] show ?thesis using role assms(2-5) by simp
qed

text \<open>In a layout that agrees with its class layout, class and joint determine the row.\<close>

lemma joint_row_functional:
  assumes "slots_wf (ml_slots (rl_record r)) n" "length (kt_counts joints) \<le> output_width r"
    and "joint_row r joints a i p" "joint_row r joints b i p"
  shows "a = b"
  using assms slot_of_class [OF assms(1)] unfolding joint_row_def output_width_def by (metis less_le_trans)

lemma joint_row_joint:
  assumes "joint_row r joints a i p" "catalog_keypoints (rl_catalog r) i = Inr s"
    and "\<And>slot. slot < length (kt_counts joints) \<Longrightarrow> expected_joints r slot = Inr (kt_counts joints ! slot)"
  shows "p < length (ks_names s)"
proof -
  from assms(1) obtain slot where slot: "slot < length (kt_counts joints)" "slot_index (ml_slots (rl_record r) ! slot) = Some i"
    "p < kt_counts joints ! slot" by (auto simp: joint_row_def)
  with assms(3) [OF slot(1)] assms(2) show ?thesis by (simp add: expected_joints_def)
qed

text \<open>When the weights of one model are carried over to another, every row of the keypoint axis that is copied is
  the row of the joint of the same name in the class of the same name; rows are within the two axes, no
  destination row is written twice and no source row is read twice.\<close>

theorem transfer_rows_sound:
  assumes "resolve_layout encode_record source_record = Inr source"
    and "resolve_layout encode_record destination_record = Inr destination"
    and "keypoint_tensor_layout_of source_counts = Inr source_joints"
    and "keypoint_tensor_layout_of counts = Inr joints"
    and "keypoint_transfer_rows source source_joints destination joints = Inr rows"
  shows "distinct (map fst rows) \<and> distinct (map snd rows)
    \<and> (\<forall>(a, b) \<in> set rows. 0 \<le> a \<and> a < int (compact_count source_joints) \<and> 0 \<le> b \<and> b < int (compact_count joints)
        \<and> (\<exists>i j p q s s'. joint_row source source_joints a i p \<and> joint_row destination joints b j q
             \<and> cc_names (rl_catalog source) ! i = cc_names (rl_catalog destination) ! j
             \<and> catalog_keypoints (rl_catalog source) i = Inr s \<and> catalog_keypoints (rl_catalog destination) j = Inr s'
             \<and> ks_names s ! p = ks_names s' ! q))"
proof -
  have source_joints: "source_joints = layout_of_counts source_counts" and joints: "joints = layout_of_counts counts"
    using assms(3,4) by (simp_all add: keypoint_tensor_layout_of_iff)
  from assms(5) have run: "transfer_slots source (source_offsets source source_joints) destination joints [0 ..< length counts] = Inr rows"
    and agree: "require_class_layout source_joints source = Inr ()" "require_class_layout joints destination = Inr ()"
    and semantic: "rl_semantic source" "rl_semantic destination"
    by (auto simp: keypoint_transfer_rows_def bindr_Inr_iff require_execution_def joints split: if_splits)
  have expected: "expected_joints r slot = Inr (kt_counts layout ! slot)"
    if "require_class_layout layout r = Inr ()" "rl_semantic r" "slot < length (kt_counts layout)" for r layout slot
    using that by (auto simp: require_class_layout_def require_slots_iff split: if_splits)
  have ok: "catalog_ok (rl_catalog source)" "catalog_ok (rl_catalog destination)"
    using assms(1,2) catalog_of_record_ok by (auto simp: resolve_layout_iff layout_wf_def resolved_of_def)
  have wf: "slots_wf (ml_slots (rl_record destination)) (length (cc_names (rl_catalog destination)))"
    using assms(2) by (auto simp: resolve_layout_iff layout_wf_def resolved_of_def)
  have width: "length (kt_counts joints) \<le> output_width destination"
    using agree(2) by (simp add: require_class_layout_def split: if_splits)
  have rows: "\<exists>i j p q s s'. joint_row source source_joints a i p \<and> joint_row destination joints b j q
       \<and> i < length (cc_names (rl_catalog source)) \<and> cc_names (rl_catalog source) ! i = cc_names (rl_catalog destination) ! j
       \<and> catalog_keypoints (rl_catalog source) i = Inr s \<and> catalog_keypoints (rl_catalog destination) j = Inr s'
       \<and> ks_names s ! p = ks_names s' ! q" if row: "(a, b) \<in> set rows" for a b
  proof -
    have "\<exists>slot < length (kt_counts source_joints). slot_index (ml_slots (rl_record source) ! slot) = Some i
        \<and> source_offsets source source_joints ! i = int (kt_compact_offsets source_joints ! slot)
        \<and> expected_joints source slot = Inr (kt_counts source_joints ! slot)"
      if "i < length (cc_names (rl_catalog source))" "\<not> source_offsets source source_joints ! i < 0" for i
      using source_offsets_spec [OF that] expected [OF agree(1) semantic(1)] by blast
    from transfer_slots_spec [OF this ok(1) expected [OF agree(2) semantic(2)] run _ row] show ?thesis
      unfolding joint_row_def by (fastforce simp: joints)
  qed
  have snds: "distinct (map snd rows)"
    using transfer_slots_distinct [OF run joints] expected [OF agree(2) semantic(2)] by simp
  have "inj_on fst (set rows)"
  proof (rule inj_onI)
    fix x y assume xy: "x \<in> set rows" "y \<in> set rows" "fst x = fst y"
    obtain a b a' b' where [simp]: "x = (a, b)" "y = (a', b')" by fastforce
    from rows [of a b] xy(1) obtain i j p q s s' where x: "joint_row source source_joints a i p" "joint_row destination joints b j q"
      "cc_names (rl_catalog source) ! i = cc_names (rl_catalog destination) ! j"
      "catalog_keypoints (rl_catalog destination) j = Inr s'" "catalog_keypoints (rl_catalog source) i = Inr s"
      "ks_names s ! p = ks_names s' ! q" by auto
    from rows [of a' b'] xy(2) obtain i2 j2 p2 q2 s2 s2' where y: "joint_row source source_joints a' i2 p2"
      "joint_row destination joints b' j2 q2" "cc_names (rl_catalog source) ! i2 = cc_names (rl_catalog destination) ! j2"
      "catalog_keypoints (rl_catalog destination) j2 = Inr s2'" "catalog_keypoints (rl_catalog source) i2 = Inr s2"
      "ks_names s2 ! p2 = ks_names s2' ! q2" by auto
    have "i = i2" "p = p2"
      using joint_row_unique x(1) y(1) xy(3) unfolding source_joints by fastforce+
    moreover have "j < length (cc_names (rl_catalog destination))" "j2 < length (cc_names (rl_catalog destination))"
      using x(4) y(4) by (auto simp: catalog_keypoints_def split: if_splits)
    ultimately have j: "j = j2" using x(3) y(3) ok(2) by (simp add: catalog_ok_def nth_eq_iff_index_eq)
    have q: "q < length (ks_names s')" "q2 < length (ks_names s')"
      using joint_row_joint [OF x(2,4) expected [OF agree(2) semantic(2)]]
        joint_row_joint [OF y(2,4) expected [OF agree(2) semantic(2)]] j x(4) y(4) by simp_all
    have "schema_valid s'"
      using catalog_keypoints_ok [OF ok(2) \<open>j < _\<close>] x(4) by auto
    then have "q = q2"
      using q x(4,5,6) y(4,5,6) j \<open>i = i2\<close> \<open>p = p2\<close> schema_validD(4) by (simp add: nth_eq_iff_index_eq)
    with j x(2) y(2) have "b = b'" using joint_row_functional [OF wf width] by blast
    with xy(3) show "x = y" by simp
  qed
  moreover have "distinct rows" using snds by (simp add: distinct_map)
  ultimately have "distinct (map fst rows)" by (simp add: distinct_map)
  then show ?thesis using snds rows joint_row_bound unfolding source_joints joints by fastforce
qed

section \<open>Concrete instances\<close>

definition joint_catalog :: "class_keypoint_schema \<Rightarrow> class_catalog" where
  "joint_catalog schema = \<lparr>cc_names = [[65]], cc_keypoints = [schema], cc_lookup = [[65] \<mapsto> 0]\<rparr>"

lemma joint_catalog_admitted:
  assumes "validate_keypoint_schema schema = Inr ()" "ks_names schema \<noteq> []"
  shows "catalog_of_record \<lparr>oc_names = [[65]], oc_keypoints = Some [schema]\<rparr> = Inr (joint_catalog schema)"
  using assms by (simp add: catalog_of_record_def catalog_of_names_def joint_catalog_def kClassCatalogCapacity_def
      kClassNameCapacity_def has_keypoints_def)

lemma example_schemas_valid: "validate_keypoint_schema example_schema = Inr ()" "validate_keypoint_schema example_reordered = Inr ()"
  by (simp_all add: validate_keypoint_schema_def kKeypointsPerClassCapacity_def kSkeletonEdgeCapacity_def
      kKeypointNameCapacity_def example_schema_def example_reordered_def ordered_edge_def isfinite64_def double_le_zero_def
      isnan64_def Let_def upt_rec)

definition source_model :: resolved_class_layout where
  "source_model = resolved_of (native_training_class_layout (joint_catalog example_schema)) (joint_catalog example_schema)"

definition destination_model :: resolved_class_layout where
  "destination_model = resolved_of (native_training_class_layout (joint_catalog example_reordered)) (joint_catalog example_reordered)"

lemma native_resolves:
  assumes "catalog_of_record record = Inr c"
  shows "resolve_layout any_text (native_training_class_layout c) = Inr (resolved_of (native_training_class_layout c) c)"
  unfolding resolve_layout_iff using native_layout_wf [OF assms] by (simp add: any_text_def) blast

lemma example_names: "ks_names example_schema \<noteq> []" "ks_names example_reordered \<noteq> []"
  by (simp_all add: example_schema_def example_reordered_def)

lemmas models_admitted = joint_catalog_admitted [OF example_schemas_valid(1) example_names(1)]
  joint_catalog_admitted [OF example_schemas_valid(2) example_names(2)]

lemma models_resolve:
  "resolve_layout any_text (native_training_class_layout (joint_catalog example_schema)) = Inr source_model"
  "resolve_layout any_text (native_training_class_layout (joint_catalog example_reordered)) = Inr destination_model"
  unfolding source_model_def destination_model_def by (rule native_resolves [OF models_admitted(1)] native_resolves [OF models_admitted(2)])+

definition joint_model :: "class_keypoint_schema \<Rightarrow> resolved_class_layout" where
  "joint_model schema = resolved_of (native_training_class_layout (joint_catalog schema)) (joint_catalog schema)"

lemma joint_model_fields:
  "rl_catalog (joint_model schema) = joint_catalog schema" "rl_semantic (joint_model schema)"
  "output_width (joint_model schema) = 2"
  "ml_slots (rl_record (joint_model schema)) = [\<lparr>slot_role = Slot_Foreground, slot_index = Some 0\<rparr>, unused_slot]"
  "require_execution (joint_model schema) True = Inr ()"
  by (simp_all add: joint_model_def resolved_of_def native_training_class_layout_def default_layout_def joint_catalog_def
      semantic_slots_def output_width_def require_execution_def)

lemma joint_catalog_fields: "cc_names (joint_catalog schema) = [[65]]" "catalog_keypoints (joint_catalog schema) 0 = Inr schema"
  "resolve (joint_catalog schema) [65] = Some 0"
  by (simp_all add: joint_catalog_def catalog_keypoints_def resolve_def)

lemma joint_model_agrees: "require_class_layout (layout_of_counts [length (ks_names schema), 0]) (joint_model schema) = Inr ()"
  by (simp add: require_class_layout_def joint_model_fields expected_joints_def joint_catalog_fields upt_rec)

lemma joint_model_offsets: "source_offsets (joint_model schema) (layout_of_counts [count, 0]) = [0]"
  by (simp add: source_offsets_def joint_model_fields joint_catalog_fields layout_of_counts_def upt_rec)

lemma example_indices: "[0 ..< length (ks_names example_schema)] = [0, 1, 2]" "[0 ..< length (ks_names example_reordered)] = [0, 1, 2]"
  by (simp_all add: example_schema_def example_reordered_def upt_rec)

lemma example_lookups:
  "joint_lookup example_schema = Inr (\<lambda>x. if x = [110] then Some 2 else if x = [114] then Some (Suc 0) else if x = [108] then Some 0 else None)"
  "joint_lookup example_reordered = Inr (\<lambda>x. if x = [114] then Some 2 else if x = [108] then Some (Suc 0) else if x = [110] then Some 0 else None)"
  unfolding joint_lookup_def example_indices
  by (simp_all add: example_schema_def example_reordered_def checked_joint_index_def kKeypointsPerClassCapacity_def fun_upd_def)

lemma example_shared_edges:
  "shared_edges example_schema other = edge_names [[108], [114], [110]] ` set (filter (\<lambda>edge.
     other ([[108], [114], [110]] ! edge_first edge) \<noteq> None \<and> other ([[108], [114], [110]] ! edge_second edge) \<noteq> None)
     [Edge 0 2, Edge 1 2])"
  "shared_edges example_reordered other = edge_names [[110], [108], [114]] ` set (filter (\<lambda>edge.
     other ([[110], [108], [114]] ! edge_first edge) \<noteq> None \<and> other ([[110], [108], [114]] ! edge_second edge) \<noteq> None)
     [Edge 0 1, Edge 0 2])"
  by (simp_all only: shared_edges_def example_schema_def example_reordered_def class_keypoint_schema.simps)

lemma example_matches:
  "match_joints example_schema example_reordered False
     (\<lambda>x. if x = [110] then Some 2 else if x = [114] then Some (Suc 0) else if x = [108] then Some 0 else None) [0, 1, 2]
   = Inr [(2, 0), (0, 1), (1, 2)]"
  by (simp add: example_schema_def example_reordered_def checked_joint_index_def kKeypointsPerClassCapacity_def
      double_eq_def isnan64_def isfinite64_def)

lemma example_correspondence: "shared_keypoint_correspondence example_schema example_reordered = Inr [(2, 0), (0, 1), (1, 2)]"
  using example_matches
  by (simp add: shared_keypoint_correspondence_def joint_correspondence_def example_schemas_valid example_lookups
      example_indices del: upt_rec_numeral)
    (simp add: example_shared_edges edge_names_def)

lemma models_transfer:
  "keypoint_transfer_rows source_model (layout_of_counts [3, 0]) destination_model (layout_of_counts [3, 0])
     = Inr [(2, 0), (0, 1), (1, 2)]"
proof -
  have models: "source_model = joint_model example_schema" "destination_model = joint_model example_reordered"
    by (simp_all add: source_model_def destination_model_def joint_model_def)
  have sizes: "length (ks_names example_schema) = 3" "length (ks_names example_reordered) = 3"
    by (simp_all add: example_schema_def example_reordered_def)
  show ?thesis
    using joint_model_agrees [of example_schema] joint_model_agrees [of example_reordered] joint_model_offsets [of example_schema 3]
    by (simp add: keypoint_transfer_rows_def models sizes joint_model_fields joint_catalog_fields example_correspondence
        layout_of_counts_def upt_rec)
qed

lemma models_counts: "keypoint_tensor_layout_of [3, 0] = Inr (layout_of_counts [3, 0])"
  by (simp add: keypoint_tensor_layout_of_iff counts_ok_def)

lemma transfer_rows_sound_witness:
  "distinct (map fst [(2 :: int, 0 :: int), (0, 1), (1, 2)]) \<and> distinct (map snd [(2 :: int, 0 :: int), (0, 1), (1, 2)])
    \<and> (\<exists>i j p q s s'. joint_row source_model (layout_of_counts [3, 0]) 2 i p
         \<and> joint_row destination_model (layout_of_counts [3, 0]) 0 j q
         \<and> cc_names (rl_catalog source_model) ! i = cc_names (rl_catalog destination_model) ! j
         \<and> catalog_keypoints (rl_catalog source_model) i = Inr s
         \<and> catalog_keypoints (rl_catalog destination_model) j = Inr s' \<and> ks_names s ! p = ks_names s' ! q)"
proof -
  note sound = transfer_rows_sound [OF models_resolve(1,2) models_counts models_counts models_transfer]
  have "(2, 0) \<in> set [(2 :: int, 0 :: int), (0, 1), (1, 2)]" by simp
  from bspec [OF conjunct2 [OF conjunct2 [OF sound]] this] sound show ?thesis by simp
qed

lemma native_keypoints_agree_witness:
  "\<exists>joints. keypoint_tensor_layout_of (native_training_keypoint_counts (joint_catalog example_schema)) = Inr joints
    \<and> require_class_layout joints source_model = Inr ()
    \<and> validate_output_contract \<lparr>ct_version = 1, ct_task = Task_Keypoints,
         ct_keypoints_per_class = native_training_keypoint_counts (joint_catalog example_schema)\<rparr> (Some source_model) = Inr ()"
proof -
  have "has_keypoints (joint_catalog example_schema)"
    by (simp add: has_keypoints_def joint_catalog_def example_names)
  with native_keypoints_agree [OF models_admitted(1) models_resolve(1)] show ?thesis by blast
qed

end
