(* ===== verification/Class_Descriptor.thy ===== *)
theory Class_Descriptor
  imports Keypoint_Layout Common_Text
begin

text \<open>
  The class descriptor that accompanies an artifact, and the choice of the class layout of an artifact among the one
  embedded in it and those of its descriptors (second half of \<open>src/backend/models/rfdetr/core/class_layout.cpp\<close>,
  \<open>parse_sha256_hex\<close> in \<open>src/common/io/file_digest.cpp\<close>). The readers and writers of a record's text are
  parameters, as in \<open>Class_Layout\<close>.
\<close>

section \<open>Descriptors\<close>

record model_class_descriptor =
  cd_version :: nat
  cd_artifact_sha256 :: "byte list"
  cd_layout :: model_class_layout
  cd_output_roles :: "named_output_role list"
  cd_output_contract :: "output_contract option"

text \<open>A digit of \<open>std::from_chars\<close> to base sixteen.\<close>

definition hex_digit :: "byte \<Rightarrow> nat option" where
  "hex_digit c = (let v = unat c in
     if 48 \<le> v \<and> v \<le> 57 then Some (v - 48)
     else if 97 \<le> v \<and> v \<le> 102 then Some (v - 87)
     else if 65 \<le> v \<and> v \<le> 70 then Some (v - 55) else None)"

fun parse_hex_pairs :: "byte list \<Rightarrow> cxx_error + byte list" where
  "parse_hex_pairs (high # low # rest) =
     (case (hex_digit high, hex_digit low) of
        (Some h, Some l) \<Rightarrow> bindr (parse_hex_pairs rest) (\<lambda>digest. Inr (of_nat (h * 16 + l) # digest))
      | _ \<Rightarrow> Inl (Runtime_Error ''SHA-256 digest contains invalid hexadecimal data''))"
| "parse_hex_pairs _ = Inr []"

definition parse_sha256_hex :: "byte list \<Rightarrow> cxx_error + byte list" where
  "parse_sha256_hex value =
     (if length value \<noteq> 64 then Inl (Runtime_Error ''SHA-256 digest must contain 64 hexadecimal characters'')
      else parse_hex_pairs value)"

definition sha256_hex :: "byte list \<Rightarrow> byte list" where
  "sha256_hex digest = hex_encode digest"

text \<open>The loop over the named roles: the roles seen so far and the names before this one.\<close>

fun check_named_roles :: "bool list \<Rightarrow> byte list list \<Rightarrow> named_output_role list \<Rightarrow> cxx_error + unit" where
  "check_named_roles roles prior [] = Inr ()"
| "check_named_roles roles prior (out # rest) =
     (let role = role_value (nr_role out)
      in if nr_name out = [] \<or> length (nr_name out) > 1024 \<or> 0 \<in> set (nr_name out)
            \<or> role = 0 \<or> role \<ge> length roles \<or> roles ! role
         then Inl (Invalid_Argument ''invalid descriptor output role'')
         else if nr_name out \<in> set prior then Inl (Invalid_Argument ''duplicate descriptor output name'')
         else check_named_roles (roles[role := True]) (prior @ [nr_name out]) rest)"

definition validate_descriptor :: "record_encoder \<Rightarrow> model_class_descriptor \<Rightarrow> cxx_error + unit" where
  "validate_descriptor encode_record descriptor =
     (if cd_version descriptor \<noteq> 1 then Inl (Invalid_Argument ''unsupported RF-DETR class descriptor version'')
      else bindr (parse_sha256_hex (cd_artifact_sha256 descriptor)) (\<lambda>_.
           bindr (resolve_layout encode_record (cd_layout descriptor)) (\<lambda>validated.
           bindr (case cd_output_contract descriptor of
                    None \<Rightarrow> Inr () | Some contract \<Rightarrow> validate_output_contract contract (Some validated)) (\<lambda>_.
             if length (cd_output_roles descriptor) > kMaximumNamedOutputRoles
             then Inl (Invalid_Argument ''oversized class descriptor output roles'')
             else check_named_roles (replicate (kMaximumNamedOutputRoles + 1) False) [] (cd_output_roles descriptor)))))"

section \<open>Texts\<close>

definition encode_class_layout :: "record_encoder \<Rightarrow> model_class_layout \<Rightarrow> cxx_error + byte list" where
  "encode_class_layout encode_record layout = bindr (resolve_layout encode_record layout) (\<lambda>_. encode_record layout)"

definition decode_class_layout ::
    "record_encoder \<Rightarrow> (byte list \<Rightarrow> cxx_error + model_class_layout) \<Rightarrow> byte list \<Rightarrow> cxx_error + model_class_layout" where
  "decode_class_layout encode_record decode_record encoded =
     bindr (decode_record encoded) (\<lambda>record. bindr (resolve_layout encode_record record) (\<lambda>_. Inr record))"

definition encode_output_contract ::
    "(output_contract \<Rightarrow> cxx_error + byte list) \<Rightarrow> output_contract \<Rightarrow> cxx_error + byte list" where
  "encode_output_contract encode_contract contract =
     bindr (validate_output_contract contract None) (\<lambda>_. encode_contract contract)"

definition decode_output_contract ::
    "(byte list \<Rightarrow> cxx_error + output_contract) \<Rightarrow> byte list \<Rightarrow> cxx_error + output_contract" where
  "decode_output_contract decode_contract encoded =
     bindr (decode_contract encoded) (\<lambda>result. bindr (validate_output_contract result None) (\<lambda>_. Inr result))"

definition encode_class_descriptor ::
    "record_encoder \<Rightarrow> (model_class_descriptor \<Rightarrow> cxx_error + byte list) \<Rightarrow> model_class_descriptor \<Rightarrow> cxx_error + byte list" where
  "encode_class_descriptor encode_record encode_descriptor descriptor =
     bindr (validate_descriptor encode_record descriptor) (\<lambda>_. encode_descriptor descriptor)"

definition decode_class_descriptor ::
    "record_encoder \<Rightarrow> (byte list \<Rightarrow> cxx_error + model_class_descriptor) \<Rightarrow> byte list \<Rightarrow> cxx_error + model_class_descriptor" where
  "decode_class_descriptor encode_record decode_descriptor encoded =
     bindr (decode_descriptor encoded) (\<lambda>descriptor.
     bindr (validate_descriptor encode_record descriptor) (\<lambda>_.
     bindr (parse_sha256_hex (cd_artifact_sha256 descriptor)) (\<lambda>digest.
       Inr (descriptor\<lparr>cd_artifact_sha256 := sha256_hex digest\<rparr>))))"

section \<open>Several descriptors\<close>

fun find_role :: "byte list \<Rightarrow> named_output_role list \<Rightarrow> output_role option" where
  "find_role name [] = None"
| "find_role name (out # rest) = (if nr_name out = name then Some (nr_role out) else find_role name rest)"

fun merge_roles :: "named_output_role list \<Rightarrow> named_output_role list \<Rightarrow> cxx_error + named_output_role list" where
  "merge_roles roles [] = Inr roles"
| "merge_roles roles (declared # rest) =
     (case find_role (nr_name declared) roles of
        None \<Rightarrow> merge_roles (roles @ [declared]) rest
      | Some role \<Rightarrow>
          if role \<noteq> nr_role declared then Inl (Invalid_Argument ''authoritative output roles disagree'')
          else merge_roles roles rest)"

definition class_descriptor_output_roles :: "model_class_descriptor list \<Rightarrow> cxx_error + named_output_role list" where
  "class_descriptor_output_roles descriptors =
     bindr (merge_roles [] (concat (map cd_output_roles descriptors))) (\<lambda>roles.
       if length roles > kMaximumNamedOutputRoles then Inl (Invalid_Argument ''too many artifact output roles'')
       else Inr roles)"

fun select_layout ::
    "record_encoder \<Rightarrow> model_class_layout option \<Rightarrow> model_class_descriptor list \<Rightarrow> cxx_error + model_class_layout option" where
  "select_layout encode_record selected [] = Inr selected"
| "select_layout encode_record None (descriptor # rest) = select_layout encode_record (Some (cd_layout descriptor)) rest"
| "select_layout encode_record (Some selected) (descriptor # rest) =
     bindr (resolve_layout encode_record selected) (\<lambda>previous.
       let next = cd_layout descriptor
       in if rl_semantic previous \<and> \<not> layout_equal selected next
          then Inl (Invalid_Argument ''authoritative class layouts disagree'')
          else select_layout encode_record
                 (Some (if \<not> rl_semantic previous \<and> oc_names (ml_evidence next) = []
                        then next\<lparr>ml_evidence := ml_evidence selected\<rparr> else next)) rest)"

definition admit_artifact_class_layout ::
    "record_encoder \<Rightarrow> nat \<Rightarrow> model_class_layout option \<Rightarrow> model_class_descriptor list \<Rightarrow> cxx_error + model_class_layout" where
  "admit_artifact_class_layout encode_record width embedded descriptors =
     bindr (select_layout encode_record embedded descriptors) (\<lambda>selected.
     bindr (case selected of Some layout \<Rightarrow> Inr layout | None \<Rightarrow> unresolved_class_layout width) (\<lambda>result.
     bindr (resolve_layout encode_record result) (\<lambda>validated.
       if output_width validated \<noteq> width then Inl (Invalid_Argument ''class layout disagrees with artifact output width'')
       else Inr result)))"

section \<open>The digest\<close>

lemma parse_hex_pairs_length: "parse_hex_pairs v = Inr digest \<Longrightarrow> length digest = length v div 2"
  by (induction v arbitrary: digest rule: parse_hex_pairs.induct) (auto simp: bindr_Inr_iff split: option.splits)

lemma digit_table:
  "list_all (\<lambda>n. lower_hex (kDigits ! n) \<and> hex_digit (kDigits ! n) = Some n) [0 ..< 16]"
  by (simp add: kDigits_def lower_hex_def hex_digit_def upt_rec)

lemma digit: "n < 16 \<Longrightarrow> lower_hex (kDigits ! n) \<and> hex_digit (kDigits ! n) = Some n"
  using digit_table by (simp add: list_all_iff)

lemma hex_encode_Cons: "hex_encode (b # bs) = kDigits ! unat (drop_bit 4 b) # kDigits ! unat (b AND 0x0F) # hex_encode bs"
  by (simp add: hex_encode_def)

lemma nibble_bounds: "unat (drop_bit 4 b) < 16" "unat (b AND 0x0F) < 16" for b :: byte
  using nibbles_of_byte [of b] unsigned_less [of b] by (simp_all add: less_mult_imp_div_less)

lemma hex_encode_lower: "list_all lower_hex (hex_encode digest)"
  by (induction digest) (simp_all add: hex_encode_Cons digit nibble_bounds, simp add: hex_encode_def)

lemma parse_hex_encode: "parse_hex_pairs (hex_encode digest) = Inr digest"
proof (induction digest)
  case (Cons b digest)
  have "of_nat (unat (drop_bit 4 b) * 16 + unat (b AND 0x0F)) = b"
    using nibbles_of_byte [of b] by simp
  with Cons show ?case by (simp add: hex_encode_Cons digit nibble_bounds)
qed (simp add: hex_encode_def)

section \<open>Admitted descriptors\<close>

lemma check_named_roles_spec:
  "check_named_roles roles prior outs = Inr () \<Longrightarrow>
     distinct (map nr_name outs) \<and> set (map nr_name outs) \<inter> set prior = {}
     \<and> distinct (map (\<lambda>x. role_value (nr_role x)) outs)
     \<and> (\<forall>out \<in> set outs. nr_name out \<noteq> [] \<and> length (nr_name out) \<le> 1024 \<and> 0 \<notin> set (nr_name out)
          \<and> role_value (nr_role out) \<noteq> 0 \<and> role_value (nr_role out) < length roles \<and> \<not> roles ! role_value (nr_role out))"
proof (induction outs arbitrary: roles prior)
  case (Cons out outs)
  let ?role = "role_value (nr_role out)"
  from Cons.prems have ok: "nr_name out \<noteq> []" "length (nr_name out) \<le> 1024" "0 \<notin> set (nr_name out)" "?role \<noteq> 0"
    "?role < length roles" "\<not> roles ! ?role" "nr_name out \<notin> set prior"
    and rest: "check_named_roles (roles[?role := True]) (prior @ [nr_name out]) outs = Inr ()"
    by (auto simp: Let_def split: if_splits)
  from Cons.IH [OF rest] have IH: "distinct (map nr_name outs)" "set (map nr_name outs) \<inter> set (prior @ [nr_name out]) = {}"
    "distinct (map (\<lambda>x. role_value (nr_role x)) outs)"
    "\<And>x. x \<in> set outs \<Longrightarrow> nr_name x \<noteq> [] \<and> length (nr_name x) \<le> 1024 \<and> 0 \<notin> set (nr_name x)
          \<and> role_value (nr_role x) \<noteq> 0 \<and> role_value (nr_role x) < length roles \<and> \<not> roles[?role := True] ! role_value (nr_role x)"
    by auto
  have "role_value (nr_role x) \<noteq> ?role \<and> \<not> roles ! role_value (nr_role x)" if "x \<in> set outs" for x
    using IH(4) [OF that] ok(5) by (cases "role_value (nr_role x) = ?role") auto
  then have fresh: "?role \<notin> set (map (\<lambda>x. role_value (nr_role x)) outs)" and unseen: "\<forall>x \<in> set outs. \<not> roles ! role_value (nr_role x)"
    by fastforce+
  from IH fresh have "distinct (map (\<lambda>x. role_value (nr_role x)) (out # outs))" by simp
  moreover from IH(1,2) ok(7) have "distinct (map nr_name (out # outs)) \<and> set (map nr_name (out # outs)) \<inter> set prior = {}" by auto
  moreover from IH(4) ok unseen have "\<forall>x \<in> set (out # outs). nr_name x \<noteq> [] \<and> length (nr_name x) \<le> 1024
      \<and> 0 \<notin> set (nr_name x) \<and> role_value (nr_role x) \<noteq> 0 \<and> role_value (nr_role x) < length roles
      \<and> \<not> roles ! role_value (nr_role x)" by simp
  ultimately show ?case by blast
qed simp

text \<open>C36: A descriptor that is read back names its artifact by a canonical digest, that of the digest it was written
  with; its layout is admitted, and no output name and no output role is declared twice.\<close>

theorem decoded_descriptor_admitted:
  assumes "decode_class_descriptor encode_record decode_descriptor encoded = Inr d"
  shows "\<exists>original. decode_descriptor encoded = Inr original
    \<and> length (cd_artifact_sha256 d) = 64 \<and> list_all lower_hex (cd_artifact_sha256 d)
    \<and> parse_sha256_hex (cd_artifact_sha256 d) = parse_sha256_hex (cd_artifact_sha256 original)
    \<and> is_ok (resolve_layout encode_record (cd_layout d)) \<and> cd_layout d = cd_layout original
    \<and> distinct (map nr_name (cd_output_roles d)) \<and> distinct (map (\<lambda>x. role_value (nr_role x)) (cd_output_roles d))
    \<and> (\<forall>out \<in> set (cd_output_roles d). nr_role out \<noteq> Role_Unspecified \<and> role_value (nr_role out) \<le> 6)"
proof -
  from assms obtain original digest where step: "decode_descriptor encoded = Inr original"
    "validate_descriptor encode_record original = Inr ()" "parse_sha256_hex (cd_artifact_sha256 original) = Inr digest"
    "d = original\<lparr>cd_artifact_sha256 := sha256_hex digest\<rparr>"
    by (auto simp: decode_class_descriptor_def bindr_Inr_iff)
  from step(3) have "length (cd_artifact_sha256 original) = 64" "parse_hex_pairs (cd_artifact_sha256 original) = Inr digest"
    by (auto simp: parse_sha256_hex_def split: if_splits)
  then have digest: "length digest = 32" using parse_hex_pairs_length by fastforce
  have "length (hex_encode digest) = 64" using digest by (simp add: hex_encode_def length_concat comp_def sum_list_triv)
  moreover from this have "parse_sha256_hex (sha256_hex digest) = Inr digest"
    by (simp add: parse_sha256_hex_def sha256_hex_def parse_hex_encode)
  moreover have layout: "is_ok (resolve_layout encode_record (cd_layout original))"
    and roles: "check_named_roles (replicate 7 False) [] (cd_output_roles original) = Inr ()"
    using step(2) by (auto simp: validate_descriptor_def bindr_Inr_iff eval_nat_numeral split: if_splits)
  moreover note named = check_named_roles_spec [OF roles]
  ultimately show ?thesis
    using step(1,3) hex_encode_lower [of digest] by (auto simp: step(4) sha256_hex_def)
qed

section \<open>Roles of several descriptors\<close>

lemma find_role_None: "find_role name roles = None \<longleftrightarrow> name \<notin> set (map nr_name roles)"
  by (induction roles) auto

lemma find_role_Some: "find_role name roles = Some role \<Longrightarrow> \<lparr>nr_name = name, nr_role = role\<rparr> \<in> set roles"
  by (induction roles) (auto split: if_splits)

lemma merge_roles_spec:
  "merge_roles roles declared = Inr merged \<Longrightarrow> distinct (map nr_name roles) \<Longrightarrow>
     distinct (map nr_name merged) \<and> set merged = set roles \<union> set declared"
proof (induction declared arbitrary: roles)
  case (Cons d declared)
  show ?case
  proof (cases "find_role (nr_name d) roles")
    case None
    then have "distinct (map nr_name (roles @ [d]))" using Cons.prems(2) by (simp add: find_role_None)
    with Cons.IH [of "roles @ [d]"] Cons.prems(1) None show ?thesis by auto
  next
    case (Some role)
    with Cons.prems(1) have "role = nr_role d" "merge_roles roles declared = Inr merged" by (auto split: if_splits)
    moreover from this Some have "d \<in> set roles" using find_role_Some [OF Some] by (cases d) simp
    ultimately show ?thesis using Cons.IH [of roles] Cons.prems(2) by auto
  qed
qed simp

text \<open>The roles of several descriptors are merged without loss and without conflict: the result declares exactly
  what some descriptor declares, and gives every name one role.\<close>

theorem descriptor_roles_merged:
  assumes "class_descriptor_output_roles descriptors = Inr roles"
  shows "distinct (map nr_name roles) \<and> set roles = (\<Union>d \<in> set descriptors. set (cd_output_roles d)) \<and> length roles \<le> 6"
  using assms merge_roles_spec [of "[]" "concat (map cd_output_roles descriptors)" roles]
  by (auto simp: class_descriptor_output_roles_def bindr_Inr_iff split: if_splits)

section \<open>The layout of an artifact\<close>

text \<open>Two layouts that give the output slots the same meaning, whatever evidence of names they carry.\<close>

definition same_binding :: "model_class_layout \<Rightarrow> model_class_layout \<Rightarrow> bool" where
  "same_binding a b \<longleftrightarrow> oc_names (ml_foreground a) = oc_names (ml_foreground b) \<and> ml_slots a = ml_slots b
     \<and> ml_scores a = ml_scores b \<and> ml_no_object a = ml_no_object b \<and> ml_provenance a = ml_provenance b
     \<and> ml_supervision a = ml_supervision b"

lemma same_binding_refl [simp]: "same_binding a a"
  and same_binding_trans: "same_binding a b \<Longrightarrow> same_binding b c \<Longrightarrow> same_binding a c"
  and same_binding_evidence [simp]: "same_binding (a\<lparr>ml_evidence := e\<rparr>) b \<longleftrightarrow> same_binding a b"
  and same_binding_equal: "layout_equal a b \<Longrightarrow> same_binding a b"
  by (auto simp: same_binding_def layout_equal_def ordered_catalog_equal_def)

lemma resolved_semantic: "resolve_layout encode_record layout = Inr r \<Longrightarrow> rl_semantic r = semantic_slots (ml_slots layout)"
  by (auto simp: resolve_layout_iff resolved_of_def)

lemma select_layout_spec:
  "select_layout encode_record selected descriptors = Inr (Some final) \<Longrightarrow>
     (\<forall>layout. selected = Some layout \<and> semantic_slots (ml_slots layout) \<longrightarrow> same_binding layout final)
     \<and> (\<forall>d \<in> set descriptors. semantic_slots (ml_slots (cd_layout d)) \<longrightarrow> same_binding (cd_layout d) final)"
proof (induction descriptors arbitrary: selected)
  case (Cons d descriptors)
  show ?case
  proof (cases selected)
    case None
    then have "select_layout encode_record (Some (cd_layout d)) descriptors = Inr (Some final)" using Cons.prems by simp
    from Cons.IH [OF this] None show ?thesis by simp
  next
    case (Some layout)
    with Cons.prems obtain r where r: "resolve_layout encode_record layout = Inr r"
      and equal: "rl_semantic r \<longrightarrow> layout_equal layout (cd_layout d)"
      and rest: "select_layout encode_record (Some (if \<not> rl_semantic r \<and> oc_names (ml_evidence (cd_layout d)) = []
          then (cd_layout d)\<lparr>ml_evidence := ml_evidence layout\<rparr> else cd_layout d)) descriptors = Inr (Some final)"
      by (auto simp: bindr_Inr_iff Let_def split: if_splits)
    from Cons.IH [OF rest] have IH: "semantic_slots (ml_slots (cd_layout d)) \<longrightarrow> same_binding (cd_layout d) final"
      "\<forall>d \<in> set descriptors. semantic_slots (ml_slots (cd_layout d)) \<longrightarrow> same_binding (cd_layout d) final"
      by (auto split: if_splits)
    have "same_binding layout final" if "semantic_slots (ml_slots layout)"
    proof -
      from that r equal have same: "same_binding layout (cd_layout d)"
        by (simp add: resolved_semantic same_binding_equal)
      with that have "semantic_slots (ml_slots (cd_layout d))" by (simp add: same_binding_def)
      with IH(1) same show ?thesis by (blast intro: same_binding_trans)
    qed
    with IH Some show ?thesis by simp
  qed
qed simp

text \<open>The layout an artifact is given fits its outputs and is admitted; it binds the output slots exactly as every
  authoritative layout does, be it embedded in the artifact or in a descriptor of it.\<close>

theorem artifact_layout_agrees:
  assumes "admit_artifact_class_layout encode_record width embedded descriptors = Inr layout"
  shows "(\<exists>r. resolve_layout encode_record layout = Inr r \<and> output_width r = width)
    \<and> (\<forall>l. embedded = Some l \<and> semantic_slots (ml_slots l) \<longrightarrow> same_binding l layout)
    \<and> (\<forall>d \<in> set descriptors. semantic_slots (ml_slots (cd_layout d)) \<longrightarrow> same_binding (cd_layout d) layout)
    \<and> (embedded = None \<and> descriptors = [] \<longrightarrow> unresolved_class_layout width = Inr layout)"
proof -
  from assms obtain selected where s: "select_layout encode_record embedded descriptors = Inr selected"
    "(case selected of Some l \<Rightarrow> Inr l | None \<Rightarrow> unresolved_class_layout width) = Inr layout"
    "\<exists>r. resolve_layout encode_record layout = Inr r \<and> output_width r = width"
    by (auto simp: admit_artifact_class_layout_def bindr_Inr_iff split: if_splits)
  have some: "select_layout encode_record (Some l) ds = Inr x \<Longrightarrow> x \<noteq> None" for l ds x
    by (induction ds arbitrary: l) (auto simp: bindr_Inr_iff Let_def split: if_splits)
  show ?thesis
  proof (cases selected)
    case None
    then have "embedded = None" "descriptors = []"
      using s(1) some by (cases embedded; cases descriptors; fastforce)+
    with s None show ?thesis by simp
  next
    case (Some final)
    with s have "select_layout encode_record embedded descriptors = Inr (Some layout)" by simp
    from select_layout_spec [OF this] s(3) this show ?thesis by auto
  qed
qed

section \<open>A repeated descriptor\<close>

text \<open>Admitted schemas have finite sigmas, so that an admitted catalog or layout is equal to itself.\<close>

lemma schema_equal_refl: "schema_valid s \<Longrightarrow> schema_equal s s"
  by (auto simp: schema_equal_def schema_valid_def joint_ok_def list_all2_conv_all_nth double_eq_refl)

lemma schemas_equal_refl: "validate_schemas schemas = Inr () \<Longrightarrow> list_all2 schema_equal schemas schemas"
  by (auto simp: validate_schemas_iff list_all_iff list_all2_same schema_equal_refl)

lemma foreground_equal_refl: "catalog_of_record record = Inr c \<Longrightarrow> ordered_catalog_equal record record"
  by (cases "oc_keypoints record")
    (auto simp: catalog_of_record_def ordered_catalog_equal_def bindr_Inr_iff schemas_equal_refl split: if_splits)

lemma evidence_equal_refl: "check_evidence record = Inr () \<Longrightarrow> ordered_catalog_equal record record"
  by (cases "oc_keypoints record") (auto simp: check_evidence_def ordered_catalog_equal_def schemas_equal_refl split: if_splits)

lemma layout_equal_refl: "resolve_layout encode_record layout = Inr r \<Longrightarrow> layout_equal layout layout"
  by (auto simp: resolve_layout_iff layout_wf_def layout_equal_def foreground_equal_refl evidence_equal_refl)

lemma evidence_equal_empty:
  assumes "check_evidence a = Inr ()" "oc_names b = []"
  shows "ordered_catalog_equal a b \<longleftrightarrow> a = b"
proof
  assume "ordered_catalog_equal a b"
  then have names: "oc_names a = []" "keypoints_equal (oc_keypoints a) (oc_keypoints b)"
    using assms(2) by (simp_all add: ordered_catalog_equal_def)
  then have "oc_keypoints a = oc_keypoints b"
    using assms(1) by (cases "oc_keypoints a"; cases "oc_keypoints b") (auto simp: check_evidence_def split: if_splits)
  with names assms(2) show "a = b" by simp
qed (use evidence_equal_refl assms(1) in simp)

text \<open>
  The embedded layout says nothing about the classes but has evidence of names, which a layout that assigns
  the classes, without evidence of its own, takes over and thereby changes.
\<close>

definition takes_over_evidence :: "model_class_layout option \<Rightarrow> model_class_layout \<Rightarrow> bool" where
  "takes_over_evidence embedded layout \<longleftrightarrow> (case embedded of None \<Rightarrow> False
     | Some e \<Rightarrow> \<not> semantic_slots (ml_slots e) \<and> semantic_slots (ml_slots layout) \<and> oc_names (ml_evidence layout) = []
         \<and> ml_evidence e \<noteq> ml_evidence layout)"

text \<open>What one descriptor makes of the embedded layout, and what any number of equal ones after it do.\<close>

definition adopted :: "model_class_layout option \<Rightarrow> model_class_layout \<Rightarrow> model_class_layout" where
  "adopted embedded layout = (case embedded of None \<Rightarrow> layout
     | Some e \<Rightarrow> if \<not> semantic_slots (ml_slots e) \<and> oc_names (ml_evidence layout) = []
         then layout\<lparr>ml_evidence := ml_evidence e\<rparr> else layout)"

lemma select_first:
  assumes "select_layout encode_record embedded [d] = Inr selected"
  shows "selected = Some (adopted embedded (cd_layout d))
    \<and> select_layout encode_record embedded (d # ds) = select_layout encode_record selected ds
    \<and> (\<forall>e. embedded = Some e \<longrightarrow> check_evidence (ml_evidence e) = Inr () \<and>
       (semantic_slots (ml_slots e) \<longrightarrow> semantic_slots (ml_slots (cd_layout d))))"
proof (cases embedded)
  case None
  then show ?thesis using assms by (simp add: adopted_def)
next
  case (Some e)
  then obtain r where r: "resolve_layout encode_record e = Inr r"
    and equal: "\<not> (rl_semantic r \<and> \<not> layout_equal e (cd_layout d))"
    and s: "selected = Some (if \<not> rl_semantic r \<and> oc_names (ml_evidence (cd_layout d)) = []
      then (cd_layout d)\<lparr>ml_evidence := ml_evidence e\<rparr> else cd_layout d)"
    using assms by (auto simp: bindr_Inr_iff Let_def split: if_splits)
  note semantic = resolved_semantic [OF r]
  have "select_layout encode_record embedded (d # ds) = select_layout encode_record selected ds"
    unfolding Some select_layout.simps(3) r bindr.simps Let_def if_not_P [OF equal] s ..
  moreover have "check_evidence (ml_evidence e) = Inr ()" using r by (auto simp: resolve_layout_iff layout_wf_def)
  moreover have "semantic_slots (ml_slots (cd_layout d))" if "semantic_slots (ml_slots e)"
    using equal that semantic by (simp add: layout_equal_def)
  ultimately show ?thesis using Some s semantic by (simp add: adopted_def)
qed

lemma adopted_equal:
  assumes r: "resolve_layout encode_record (adopted embedded layout) = Inr r"
    and e: "\<And>e. embedded = Some e \<Longrightarrow> check_evidence (ml_evidence e) = Inr ()"
    and semantic: "semantic_slots (ml_slots layout)"
  shows "layout_equal (adopted embedded layout) layout \<longleftrightarrow> \<not> takes_over_evidence embedded layout"
    and "\<not> takes_over_evidence embedded layout \<Longrightarrow> adopted embedded layout = layout"
proof -
  have same: "adopted embedded layout = layout" if "\<not> takes_over_evidence embedded layout"
    using that semantic by (auto simp: adopted_def takes_over_evidence_def split: option.splits)
  then show "\<not> takes_over_evidence embedded layout \<Longrightarrow> adopted embedded layout = layout" .
  show "layout_equal (adopted embedded layout) layout \<longleftrightarrow> \<not> takes_over_evidence embedded layout"
  proof (cases "takes_over_evidence embedded layout")
    case True
    then obtain x where x: "embedded = Some x" "oc_names (ml_evidence layout) = []" "ml_evidence x \<noteq> ml_evidence layout"
      "adopted embedded layout = layout\<lparr>ml_evidence := ml_evidence x\<rparr>"
      by (auto simp: takes_over_evidence_def adopted_def split: option.splits)
    with evidence_equal_empty [OF e [OF x(1)] x(2)] True show ?thesis by (simp add: layout_equal_def)
  next
    case False
    with same layout_equal_refl [OF r] show ?thesis by simp
  qed
qed

lemma select_repeated:
  assumes r: "resolve_layout encode_record (adopted embedded (cd_layout d)) = Inr r"
    and e: "\<And>e. embedded = Some e \<Longrightarrow> check_evidence (ml_evidence e) = Inr () \<and>
       (semantic_slots (ml_slots e) \<longrightarrow> semantic_slots (ml_slots (cd_layout d)))"
  shows "select_layout encode_record (Some (adopted embedded (cd_layout d))) (replicate n d) =
    (if n \<noteq> 0 \<and> takes_over_evidence embedded (cd_layout d)
     then Inl (Invalid_Argument ''authoritative class layouts disagree'')
     else Inr (Some (adopted embedded (cd_layout d))))"
proof (induction n)
  case (Suc n)
  let ?a = "adopted embedded (cd_layout d)"
  have slots: "rl_semantic r \<longleftrightarrow> semantic_slots (ml_slots (cd_layout d))"
    using resolved_semantic [OF r] by (auto simp: adopted_def split: option.splits)
  show ?case
  proof (cases "semantic_slots (ml_slots (cd_layout d))")
    case True
    have equal: "layout_equal ?a (cd_layout d) \<longleftrightarrow> \<not> takes_over_evidence embedded (cd_layout d)"
      "\<not> takes_over_evidence embedded (cd_layout d) \<Longrightarrow> ?a = cd_layout d"
      using adopted_equal [OF r _ True] e by blast+
    show ?thesis
    proof (cases "takes_over_evidence embedded (cd_layout d)")
      case taken: True
      with equal slots True show ?thesis by (simp add: r)
    next
      case False
      with equal(2) have a: "?a = cd_layout d" by blast
      with False equal(1) slots True Suc r show ?thesis unfolding a by simp
    qed
  next
    case False
    then have "\<not> takes_over_evidence embedded (cd_layout d)"
      by (auto simp: takes_over_evidence_def split: option.splits)
    moreover have "(if oc_names (ml_evidence (cd_layout d)) = [] then (cd_layout d)\<lparr>ml_evidence := ml_evidence ?a\<rparr>
        else cd_layout d) = ?a"
      using False e by (auto simp: adopted_def split: option.splits)
    then have "select_layout encode_record (Some ?a) (replicate (Suc n) d) = select_layout encode_record (Some ?a) (replicate n d)"
      using slots False by (simp add: r Let_def)
    ultimately show ?thesis using Suc by simp
  qed
qed simp

definition one_class :: model_class_layout where
  "one_class = native_training_class_layout \<lparr>cc_names = [[65]], cc_keypoints = [], cc_lookup = [[65] \<mapsto> 0]\<rparr>"

definition evidence_only :: model_class_layout where
  "evidence_only = default_layout\<lparr>ml_slots := [default_slot, default_slot],
     ml_evidence := \<lparr>oc_names = [[66]], oc_keypoints = None\<rparr>\<rparr>"

definition one_class_descriptor :: model_class_descriptor where
  "one_class_descriptor = \<lparr>cd_version = 1, cd_artifact_sha256 = [], cd_layout = one_class, cd_output_roles = [],
     cd_output_contract = None\<rparr>"

lemma one_class_catalog: "catalog_of_record \<lparr>oc_names = [[65]], oc_keypoints = None\<rparr>
    = Inr \<lparr>cc_names = [[65]], cc_keypoints = [], cc_lookup = [[65] \<mapsto> 0]\<rparr>"
  by (simp add: catalog_of_record_def catalog_of_names_def kClassCatalogCapacity_def kClassNameCapacity_def)

lemma one_class_wf: "layout_wf one_class \<lparr>cc_names = [[65]], cc_keypoints = [], cc_lookup = [[65] \<mapsto> 0]\<rparr>"
  unfolding one_class_def by (rule native_layout_wf [OF one_class_catalog])

lemma with_evidence_wf:
  "layout_wf (one_class\<lparr>ml_evidence := \<lparr>oc_names = [[66]], oc_keypoints = None\<rparr>\<rparr>)
     \<lparr>cc_names = [[65]], cc_keypoints = [], cc_lookup = [[65] \<mapsto> 0]\<rparr>"
  using one_class_wf by (simp add: layout_wf_def encodings_wf_def check_evidence_def kClassCatalogCapacity_def kClassNameCapacity_def)

lemma evidence_only_wf: "layout_wf evidence_only \<lparr>cc_names = [], cc_keypoints = [], cc_lookup = \<lambda>_. None\<rparr>"
  by (simp add: layout_wf_def evidence_only_def default_layout_def default_provenance_def check_provenance_def check_evidence_def
      kClassCatalogCapacity_def kClassNameCapacity_def catalog_of_record_def catalog_of_names_def empty_catalog_def slots_wf_def
      slot_ok_def default_slot_def kMaximumClassOutputSlots_def encodings_wf_def semantic_slots_def check_no_object_def
      check_scores_def)

lemma any_text_resolves: "layout_wf layout c \<Longrightarrow> resolve_layout any_text layout = Inr (resolved_of layout c)"
  unfolding resolve_layout_iff by (simp add: any_text_def) blast

lemma one_class_slots: "semantic_slots (ml_slots one_class)" "length (ml_slots one_class) = 2"
  "oc_names (ml_evidence one_class) = []" "\<not> semantic_slots (ml_slots evidence_only)"
  by (simp_all add: one_class_def native_training_class_layout_def default_layout_def semantic_slots_def empty_catalog_def
      evidence_only_def default_slot_def)

definition one_class_merged :: model_class_layout where
  "one_class_merged = one_class\<lparr>ml_evidence := \<lparr>oc_names = [[66]], oc_keypoints = None\<rparr>\<rparr>"

lemmas artifact_resolves = any_text_resolves [OF evidence_only_wf] any_text_resolves [OF with_evidence_wf, folded one_class_merged_def]

lemma artifact_fields:
  "rl_semantic (resolved_of layout c) = semantic_slots (ml_slots layout)"
  "ml_evidence evidence_only = \<lparr>oc_names = [[66]], oc_keypoints = None\<rparr>" "cd_layout one_class_descriptor = one_class"
  "\<not> layout_equal one_class_merged one_class" "ml_slots one_class_merged = ml_slots one_class"
  "output_width (resolved_of layout c) = length (ml_slots layout)"
  using one_class_slots(3)
  by (simp_all add: resolved_of_def evidence_only_def one_class_descriptor_def layout_equal_def ordered_catalog_equal_def
      output_width_def one_class_merged_def)

lemma one_descriptor_admitted:
  "admit_artifact_class_layout any_text 2 (Some evidence_only) [one_class_descriptor] = Inr one_class_merged"
  by (simp add: admit_artifact_class_layout_def artifact_resolves artifact_fields one_class_slots flip: one_class_merged_def)

text \<open>
  C37: A descriptor that is admitted for an artifact is admitted with the same result when it is given several times,
  unless it takes over the evidence of names of an embedded layout that says nothing about the classes: then equal
  descriptors are reported to disagree, whatever the artifact and the descriptor.
\<close>

theorem repeated_descriptor_rejected:
  assumes "admit_artifact_class_layout encode_record width embedded [d] = Inr layout" "2 \<le> n"
  shows "admit_artifact_class_layout encode_record width embedded (replicate n d) =
    (if takes_over_evidence embedded (cd_layout d)
     then Inl (Invalid_Argument ''authoritative class layouts disagree'') else Inr layout)"
proof -
  obtain selected where s: "select_layout encode_record embedded [d] = Inr selected"
    using assms(1) by (auto simp: admit_artifact_class_layout_def bindr_Inr_iff)
  have first: "selected = Some (adopted embedded (cd_layout d))"
    "select_layout encode_record embedded (d # ds) = select_layout encode_record selected ds"
    "embedded = Some e \<Longrightarrow> check_evidence (ml_evidence e) = Inr () \<and>
       (semantic_slots (ml_slots e) \<longrightarrow> semantic_slots (ml_slots (cd_layout d)))" for ds e
    using select_first [OF s, of ds] by blast+
  have l: "layout = adopted embedded (cd_layout d)"
    using assms(1) by (auto simp: admit_artifact_class_layout_def s first(1) bindr_Inr_iff split: if_splits)
  obtain r where r: "resolve_layout encode_record layout = Inr r" "output_width r = width"
    using assms(1) by (auto simp: admit_artifact_class_layout_def s first(1) l bindr_Inr_iff split: if_splits)
  obtain m where n: "n = Suc (Suc m)" using assms(2) by (metis Suc_le_D numeral_2_eq_2 Suc_le_mono)
  have "select_layout encode_record embedded (replicate n d) =
      (if takes_over_evidence embedded (cd_layout d)
       then Inl (Invalid_Argument ''authoritative class layouts disagree'') else Inr (Some layout))"
    using select_repeated [OF r(1) [unfolded l] first(3), of "Suc m"] first(2) [of "replicate (Suc m) d"]
    by (simp add: n first(1) l)
  then show ?thesis using r by (simp add: admit_artifact_class_layout_def)
qed

section \<open>Concrete instances\<close>

text \<open>A companion descriptor and a selected descriptor of the same content, with and without evidence to take over.\<close>

theorem repeated_descriptor_rejected_witness:
  "admit_artifact_class_layout any_text 2 (Some evidence_only) [one_class_descriptor, one_class_descriptor]
      = Inl (Invalid_Argument ''authoritative class layouts disagree'')
   \<and> admit_artifact_class_layout any_text 2 None [one_class_descriptor, one_class_descriptor] = Inr one_class"
proof -
  have "takes_over_evidence (Some evidence_only) one_class" "\<not> takes_over_evidence None one_class"
    using one_class_slots artifact_fields(2) by (auto simp: takes_over_evidence_def dest: arg_cong [where f = oc_names])
  moreover have "admit_artifact_class_layout any_text 2 None [one_class_descriptor] = Inr one_class"
    by (simp add: admit_artifact_class_layout_def any_text_resolves [OF one_class_wf] artifact_fields one_class_slots)
  ultimately show ?thesis
    using repeated_descriptor_rejected [OF one_descriptor_admitted order_refl]
      repeated_descriptor_rejected [of any_text 2 None one_class_descriptor one_class 2]
    by (simp add: numeral_2_eq_2 artifact_fields)
qed

lemma artifact_layout_agrees_witness:
  "(\<exists>r. resolve_layout any_text one_class_merged = Inr r \<and> output_width r = 2) \<and> same_binding one_class one_class_merged"
  using artifact_layout_agrees [OF one_descriptor_admitted] by (simp add: artifact_fields one_class_slots)

definition digest_descriptor :: model_class_descriptor where
  "digest_descriptor = one_class_descriptor\<lparr>cd_artifact_sha256 := replicate 64 65,
     cd_output_roles := [\<lparr>nr_name = [108], nr_role = Role_Logits\<rparr>]\<rparr>"

lemma digest_parses: "parse_hex_pairs (replicate (2 * n) 65) = Inr (replicate n 0xAA)"
  by (induction n) (simp_all add: hex_digit_def)

lemma digest_descriptor_decodes:
  "decode_class_descriptor any_text (\<lambda>_. Inr digest_descriptor) [] =
     Inr (digest_descriptor\<lparr>cd_artifact_sha256 := sha256_hex (replicate 32 0xAA)\<rparr>)"
proof -
  have digest: "parse_sha256_hex (cd_artifact_sha256 digest_descriptor) = Inr (replicate 32 0xAA)"
    using digest_parses [of 32] by (simp add: parse_sha256_hex_def digest_descriptor_def)
  have fields: "cd_layout digest_descriptor = one_class" "cd_version digest_descriptor = 1"
    "cd_output_contract digest_descriptor = None" "cd_output_roles digest_descriptor = [\<lparr>nr_name = [108], nr_role = Role_Logits\<rparr>]"
    by (simp_all add: digest_descriptor_def one_class_descriptor_def)
  have "validate_descriptor any_text digest_descriptor = Inr ()"
    using any_text_resolves [OF one_class_wf] digest
    by (simp add: validate_descriptor_def fields)
  with digest show ?thesis by (simp add: decode_class_descriptor_def)
qed

lemma decoded_descriptor_admitted_witness:
  "\<exists>original. (\<lambda>_. Inr digest_descriptor) ([] :: byte list) = (Inr original :: cxx_error + model_class_descriptor)
    \<and> length (cd_artifact_sha256 (digest_descriptor\<lparr>cd_artifact_sha256 := sha256_hex (replicate 32 0xAA)\<rparr>)) = 64
    \<and> list_all lower_hex (cd_artifact_sha256 (digest_descriptor\<lparr>cd_artifact_sha256 := sha256_hex (replicate 32 0xAA)\<rparr>))"
  using decoded_descriptor_admitted [OF digest_descriptor_decodes] by blast

lemma descriptor_roles_merged_witness:
  "distinct (map nr_name [\<lparr>nr_name = [108], nr_role = Role_Logits\<rparr>])
    \<and> set [\<lparr>nr_name = [108], nr_role = Role_Logits\<rparr>]
        = (\<Union>d \<in> set [digest_descriptor, one_class_descriptor, digest_descriptor]. set (cd_output_roles d))
    \<and> length [\<lparr>nr_name = [108], nr_role = Role_Logits\<rparr>] \<le> 6"
  by (rule descriptor_roles_merged)
    (simp add: class_descriptor_output_roles_def digest_descriptor_def one_class_descriptor_def)

end
