(* ===== verification/Model_Info.thy ===== *)
theory Model_Info
  imports Keypoint_Layout
begin

text \<open>
  The description of a model artifact and the admission of its outputs (\<open>src/backend/models/rfdetr/core/model_info.h\<close>,
  \<open>model_info.cpp\<close>): declared roles, canonical names, ranks, shapes and types of the output tensors, and the
  contract they have to agree with. The info an admission that fails leaves behind half updated is not modelled:
  the exception leaves its owner too.
\<close>

section \<open>The description of a model\<close>

record tensor_info =
  ti_name :: "byte list"
  ti_shape :: "int list"
  ti_dtype :: "byte list"
  ti_role :: output_role

record model_info =
  mi_backend :: "byte list"
  mi_model_path :: "byte list"
  mi_input :: tensor_info
  mi_outputs :: "tensor_info list"
  mi_num_queries :: int
  mi_automatic_num_queries_cap :: int
  mi_num_classes :: int
  mi_has_masks :: bool
  mi_class_layout :: "model_class_layout option"
  mi_output_contract :: "output_contract option"

text \<open>The position of the first output of a name; its role changes, if the declaration is admissible.\<close>

fun find_output :: "byte list \<Rightarrow> tensor_info list \<Rightarrow> nat option" where
  "find_output name [] = None"
| "find_output name (output # rest) =
     (if ti_name output = name then Some 0 else map_option Suc (find_output name rest))"

fun declare_roles :: "named_output_role list \<Rightarrow> tensor_info list \<Rightarrow> cxx_error + tensor_info list" where
  "declare_roles [] outputs = Inr outputs"
| "declare_roles (declared # rest) outputs =
     (case find_output (nr_name declared) outputs of
        None \<Rightarrow> Inl (Invalid_Argument ''RF-DETR output role metadata disagrees with artifact'')
      | Some i \<Rightarrow>
          if nr_role declared = Role_Unspecified
             \<or> ti_role (outputs ! i) \<noteq> Role_Unspecified \<and> ti_role (outputs ! i) \<noteq> nr_role declared
          then Inl (Invalid_Argument ''RF-DETR output role metadata disagrees with artifact'')
          else declare_roles rest (outputs[i := (outputs ! i)\<lparr>ti_role := nr_role declared\<rparr>]))"

definition apply_rfdetr_output_roles :: "model_info \<Rightarrow> named_output_role list \<Rightarrow> cxx_error + model_info" where
  "apply_rfdetr_output_roles info roles =
     (if length roles > kMaximumNamedOutputRoles then Inl (Invalid_Argument ''too many RF-DETR output roles'')
      else bindr (declare_roles roles (mi_outputs info)) (\<lambda>outputs. Inr (info\<lparr>mi_outputs := outputs\<rparr>)))"

definition rfdetr_output_roles :: "model_info \<Rightarrow> named_output_role list" where
  "rfdetr_output_roles info = map (\<lambda>output. \<lparr>nr_name = ti_name output, nr_role = ti_role output\<rparr>) (mi_outputs info)"

definition signed_decimal :: "int \<Rightarrow> byte list" where
  "signed_decimal v = (if v < 0 then ascii ''-'' @ decimal (nat (- v)) else decimal (nat v))"

fun shape_items :: "bool \<Rightarrow> int list \<Rightarrow> byte list" where
  "shape_items first [] = []"
| "shape_items first (extent # rest) =
     (if first then [] else ascii '', '') @ signed_decimal extent @ shape_items False rest"

definition format_shape :: "int list \<Rightarrow> byte list" where
  "format_shape shape = ascii ''['' @ shape_items True shape @ ascii '']''"

section \<open>Admission of the outputs\<close>

text \<open>The index of the output of every executable role. The sentinel of an absent role is \<open>None\<close>: no vector has that
  many elements.\<close>

type_synonym role_indices = "nat option list"

definition no_roles :: role_indices where
  "no_roles = replicate kRfdetrExecutableOutputCount None"

definition role_at :: "role_indices \<Rightarrow> output_role \<Rightarrow> nat option" where
  "role_at indices role = indices ! role_index role"

definition resolve_role :: "role_indices \<Rightarrow> output_role \<Rightarrow> nat \<Rightarrow> role_indices" where
  "resolve_role indices role index = indices[role_index role := Some index]"

definition declared_role :: "tensor_info \<Rightarrow> cxx_error + output_role" where
  "declared_role output =
     (let canonical = canonical_role (ti_name output)
      in if ti_role output = Role_Unspecified then Inr canonical
         else if canonical \<noteq> Role_Unspecified \<and> canonical \<noteq> ti_role output
         then Inl (Invalid_Argument ''RF-DETR output role contradicts canonical tensor name'')
         else Inr (ti_role output))"

text \<open>The visitor over the executable roles: resolves the role of an output and yields its rank.\<close>

fun visit_role :: "output_role \<Rightarrow> nat \<Rightarrow> output_role list \<Rightarrow> role_indices \<Rightarrow> nat \<Rightarrow> cxx_error + (role_indices \<times> nat)" where
  "visit_role role index [] indices rank = Inr (indices, rank)"
| "visit_role role index (candidate # rest) indices rank =
     (if role = candidate
      then if role_at indices candidate \<noteq> None then Inl (Invalid_Argument ''ambiguous RF-DETR output roles'')
           else visit_role role index rest (resolve_role indices candidate index) (op_rank (role_policy candidate))
      else visit_role role index rest indices rank)"

definition shape_admitted :: "output_role \<Rightarrow> nat \<Rightarrow> int list \<Rightarrow> bool" where
  "shape_admitted role rank shape \<longleftrightarrow>
     \<not> (length shape \<noteq> rank \<or> shape ! 0 = 0 \<or> shape ! 0 < -1 \<or> shape ! 1 \<le> 0 \<or> shape ! 2 \<le> 0
        \<or> role = Role_Boxes \<and> shape ! 2 \<noteq> 4 \<or> list_ex (\<lambda>extent. extent \<le> 0) (drop 3 shape))"

fun assign_outputs ::
    "nat \<Rightarrow> role_indices \<Rightarrow> tensor_info list \<Rightarrow> cxx_error + (tensor_info list \<times> role_indices)" where
  "assign_outputs index indices [] = Inr ([], indices)"
| "assign_outputs index indices (output # rest) =
     bindr (declared_role output) (\<lambda>role.
     bindr (visit_role role index executable_roles indices 0) (\<lambda>(indices', rank).
       if rank = 0 then Inl (Invalid_Argument ''ambiguous RF-DETR output roles'')
       else if \<not> shape_admitted role rank (ti_shape output) then Inl (Invalid_Argument ''invalid RF-DETR output shape'')
       else bindr (assign_outputs (index + 1) indices' rest) (\<lambda>(outputs, final).
              Inr (output\<lparr>ti_role := role\<rparr> # outputs, final))))"

definition batch_query_disagree :: "int list \<Rightarrow> int list \<Rightarrow> bool" where
  "batch_query_disagree shape reference \<longleftrightarrow>
     shape ! 1 \<noteq> reference ! 1 \<or> shape ! 0 > 0 \<and> reference ! 0 > 0 \<and> shape ! 0 \<noteq> reference ! 0"

text \<open>The visitor that infers the task from the optional outputs.\<close>

fun infer_task :: "role_indices \<Rightarrow> output_role list \<Rightarrow> model_task option \<Rightarrow> cxx_error + model_task option" where
  "infer_task indices [] inferred = Inr inferred"
| "infer_task indices (role # rest) inferred =
     (if op_task (role_policy role) \<noteq> None \<and> role_at indices role \<noteq> None
      then if inferred \<noteq> None \<and> inferred \<noteq> op_task (role_policy role)
           then Inl (Invalid_Argument ''RF-DETR masks and keypoints are mutually exclusive'')
           else infer_task indices rest (op_task (role_policy role))
      else infer_task indices rest inferred)"

definition effective_contract :: "model_info \<Rightarrow> role_indices \<Rightarrow> model_task option \<Rightarrow> cxx_error + output_contract" where
  "effective_contract info indices inferred =
     (case mi_output_contract info of
        Some contract \<Rightarrow> Inr contract
      | None \<Rightarrow>
          if role_at indices Role_Keypoints \<noteq> None
          then Inl (Invalid_Argument ''keypoint artifacts require explicit task and joint schema metadata'')
          else Inr \<lparr>ct_version = 1, ct_task = (case inferred of None \<Rightarrow> Task_Detection | Some task \<Rightarrow> task),
                    ct_keypoints_per_class = []\<rparr>)"

text \<open>The packet of a keypoint has eight numbers (\<open>KeypointPrediction\<close>).\<close>

definition keypoint_packet_size :: int where "keypoint_packet_size = 8"

definition check_keypoint_output ::
    "record_encoder \<Rightarrow> model_info \<Rightarrow> output_contract \<Rightarrow> int list \<Rightarrow> int list \<Rightarrow> cxx_error + unit" where
  "check_keypoint_output encode_record info contract shape joint_shape =
     bindr (keypoint_tensor_layout_of (ct_keypoints_per_class contract)) (\<lambda>joints.
       if compact_count joints = 0 \<or> int (length (kt_counts joints)) > shape ! 2
          \<or> joint_shape ! 2 \<noteq> int (kt_padded_count joints) \<or> joint_shape ! 3 \<noteq> keypoint_packet_size
       then Inl (Invalid_Argument ''RF-DETR keypoint output shape disagrees with explicit schema'')
       else case mi_class_layout info of
              None \<Rightarrow> Inr ()
            | Some layout \<Rightarrow> bindr (resolve_layout encode_record layout) (\<lambda>r. validate_output_contract contract (Some r)))"

definition float_types :: "byte list list" where
  "float_types = map ascii [''float32'', ''float16'', ''bfloat16'', ''float64'']"

definition validate_output_layout :: "record_encoder \<Rightarrow> model_info \<Rightarrow> cxx_error + (model_info \<times> role_indices)" where
  "validate_output_layout encode_record info =
     bindr (assign_outputs 0 no_roles (mi_outputs info)) (\<lambda>(outputs, indices).
       if list_ex (\<lambda>role. op_task (role_policy role) = None \<and> role_at indices role = None) executable_roles
       then Inl (Invalid_Argument ''RF-DETR requires declared logits and boxes outputs'')
       else let logits = outputs ! the (role_at indices Role_Logits); shape = ti_shape logits
            in if list_ex (\<lambda>output. batch_query_disagree (ti_shape output) shape) outputs
               then Inl (Invalid_Argument ''RF-DETR output batch/query axes disagree'')
               else bindr (infer_task indices executable_roles None) (\<lambda>inferred.
                    bindr (effective_contract info indices inferred) (\<lambda>contract.
                    bindr (validate_output_contract contract None) (\<lambda>_.
                      if list_ex (\<lambda>role. policy_supports (role_policy role) (ct_task contract)
                                    \<noteq> (role_at indices role \<noteq> None)) executable_roles
                      then Inl (Invalid_Argument ''RF-DETR output roles disagree with task metadata'')
                      else bindr (case role_at indices Role_Keypoints of
                             Some k \<Rightarrow> check_keypoint_output encode_record info contract shape (ti_shape (outputs ! k))
                           | None \<Rightarrow> if ct_keypoints_per_class contract \<noteq> []
                                     then Inl (Invalid_Argument ''non-keypoint artifact declares joint slots'')
                                     else Inr ()) (\<lambda>_.
                        if list_ex (\<lambda>output. ti_dtype output \<noteq> ti_dtype logits \<or> ti_dtype output \<notin> set float_types) outputs
                        then Inl (Invalid_Argument ''RF-DETR output dtypes disagree or are not floating point'')
                        else Inr (info\<lparr>mi_outputs := outputs, mi_output_contract := Some contract,
                                  mi_num_queries := shape ! 1, mi_num_classes := shape ! 2,
                                  mi_has_masks := (role_at indices Role_Masks \<noteq> None)\<rparr>, indices))))))"

section \<open>Roles of admitted outputs\<close>

lemma visit_role_skip: "role \<notin> set roles \<Longrightarrow> visit_role role index roles indices rank = Inr (indices, rank)"
  by (induction roles) auto

lemma visit_role_iff:
  "visit_role role index executable_roles indices 0 = Inr (indices', rank) \<longleftrightarrow>
     (if op_executable (role_policy role)
      then role_at indices role = None \<and> indices' = resolve_role indices role index \<and> rank = op_rank (role_policy role)
      else indices' = indices \<and> rank = 0)"
proof (cases "role \<in> set executable_roles")
  case True
  then show ?thesis
    by (auto simp: executable_roles_eq role_policy_def)
next
  case False
  then show ?thesis using executable_role_iff [of role] by (auto simp: visit_role_skip)
qed

lemma executable_rank: "op_executable (role_policy role) \<Longrightarrow> op_rank (role_policy role) \<noteq> 0"
  by (cases role) (simp_all add: role_policy_def inert_policy_def)

lemma inert_role: "\<not> op_executable (role_policy role) \<Longrightarrow> op_rank (role_policy role) = 0"
  by (cases role) (simp_all add: role_policy_def inert_policy_def)

lemma assign_step:
  "assign_outputs index indices (out # rest) = Inr (outputs, final) \<longleftrightarrow>
     (\<exists>role outputs'. declared_role out = Inr role \<and> op_executable (role_policy role) \<and> role_at indices role = None
        \<and> shape_admitted role (op_rank (role_policy role)) (ti_shape out)
        \<and> assign_outputs (index + 1) (resolve_role indices role index) rest = Inr (outputs', final)
        \<and> outputs = out\<lparr>ti_role := role\<rparr> # outputs')"
proof (cases "declared_role out")
  case (Inr role)
  show ?thesis
  proof (cases "op_executable (role_policy role)")
    case True
    show ?thesis
    proof (cases "role_at indices role = None")
      case None: True
      have "visit_role role index executable_roles indices 0 = Inr (resolve_role indices role index, op_rank (role_policy role))"
        using True None visit_role_iff by simp
      then show ?thesis using True None Inr by (auto simp: bindr_Inr_iff executable_rank)
    next
      case False
      then have "\<nexists>x. visit_role role index executable_roles indices 0 = Inr x"
        using True visit_role_iff by fastforce
      then show ?thesis using Inr False by (auto simp: bindr_Inr_iff)
    qed
  next
    case False
    then have "visit_role role index executable_roles indices 0 = Inr (indices, 0)" using visit_role_iff by simp
    then show ?thesis using Inr False by simp
  qed
qed simp

definition output_admitted :: "tensor_info \<Rightarrow> tensor_info \<Rightarrow> bool" where
  "output_admitted output output' \<longleftrightarrow> declared_role output = Inr (ti_role output')
     \<and> output' = output\<lparr>ti_role := ti_role output'\<rparr> \<and> op_executable (role_policy (ti_role output'))
     \<and> shape_admitted (ti_role output') (op_rank (role_policy (ti_role output'))) (ti_shape output')"

lemma assign_outputs_spec:
  "assign_outputs index indices outputs = Inr (outputs', final) \<Longrightarrow> length indices = 4 \<Longrightarrow>
     list_all2 output_admitted outputs outputs' \<and> distinct (map ti_role outputs')
     \<and> (\<forall>role \<in> set (map ti_role outputs'). role_at indices role = None)
     \<and> (\<forall>role \<in> set executable_roles. \<forall>i. role_at final role = Some i \<longleftrightarrow>
          role_at indices role = Some i \<or> (\<exists>k < length outputs'. ti_role (outputs' ! k) = role \<and> i = index + k))"
proof (induction outputs arbitrary: index indices outputs')
  case (Cons out outputs)
  from Cons.prems(1) obtain role rest where step: "declared_role out = Inr role" "op_executable (role_policy role)"
    "role_at indices role = None" "shape_admitted role (op_rank (role_policy role)) (ti_shape out)"
    "assign_outputs (index + 1) (resolve_role indices role index) outputs = Inr (rest, final)"
    "outputs' = out\<lparr>ti_role := role\<rparr> # rest"
    unfolding assign_step by blast
  have exec: "role \<in> set executable_roles" using step(2) by (simp add: executable_role_iff)
  have at: "role_at (resolve_role indices role index) r = (if r = role then Some index else role_at indices r)"
    if "r \<in> set executable_roles" for r
    using role_index_inj [OF exec that] role_index_less [OF exec] Cons.prems(2)
    by (auto simp: role_at_def resolve_role_def)
  have "length (resolve_role indices role index) = 4" using Cons.prems(2) by (simp add: resolve_role_def)
  note IH = Cons.IH [OF step(5) this]
  have admitted: "output_admitted out (out\<lparr>ti_role := role\<rparr>)" using step by (simp add: output_admitted_def)
  have rest_roles: "r \<in> set executable_roles" if "r \<in> set (map ti_role rest)" for r
    using that IH executable_role_iff by (fastforce simp: list_all2_conv_all_nth in_set_conv_nth output_admitted_def)
  have fresh: "role \<notin> set (map ti_role rest)" using IH at [OF exec] by auto
  have old: "role_at indices r = None" if "r \<in> set (map ti_role rest)" for r
    using IH that fresh at [OF rest_roles [OF that]] by (auto split: if_splits)
  have "role_at final r = Some i \<longleftrightarrow>
      role_at indices r = Some i \<or> (\<exists>k < length outputs'. ti_role (outputs' ! k) = r \<and> i = index + k)"
    if r: "r \<in> set executable_roles" for r i
  proof -
    have "role_at final r = Some i \<longleftrightarrow> role_at (resolve_role indices role index) r = Some i
        \<or> (\<exists>k < length rest. ti_role (rest ! k) = r \<and> i = index + 1 + k)"
      using IH r by blast
    moreover have "(\<exists>k < length outputs'. ti_role (outputs' ! k) = r \<and> i = index + k) \<longleftrightarrow>
        r = role \<and> i = index \<or> (\<exists>k < length rest. ti_role (rest ! k) = r \<and> i = index + 1 + k)"
      by (auto simp: step(6) less_Suc_eq_0_disj)
    ultimately show ?thesis using step(3) by (auto simp: at [OF r])
  qed
  then have final: "\<forall>r \<in> set executable_roles. \<forall>i. role_at final r = Some i \<longleftrightarrow>
      role_at indices r = Some i \<or> (\<exists>k < length outputs'. ti_role (outputs' ! k) = r \<and> i = index + k)" by blast
  have "distinct (map ti_role outputs')" using IH fresh step(6) by simp
  moreover have "list_all2 output_admitted (out # outputs) outputs'" using IH admitted step(6) by simp
  moreover have "\<forall>r \<in> set (map ti_role outputs'). role_at indices r = None" using old step(3,6) by simp
  ultimately show ?case using final by blast
qed simp

lemma validate_output_layout_cases:
  assumes "validate_output_layout encode_record info = Inr (info', indices)"
  obtains outputs contract where
    "assign_outputs 0 no_roles (mi_outputs info) = Inr (outputs, indices)"
    "\<forall>role \<in> set executable_roles. op_task (role_policy role) = None \<longrightarrow> role_at indices role \<noteq> None"
    "\<forall>t \<in> set outputs. \<not> batch_query_disagree (ti_shape t) (ti_shape (outputs ! the (role_at indices Role_Logits)))"
    "validate_output_contract contract None = Inr ()"
    "\<forall>role \<in> set executable_roles. policy_supports (role_policy role) (ct_task contract) = (role_at indices role \<noteq> None)"
    "\<forall>t \<in> set outputs. ti_dtype t = ti_dtype (outputs ! the (role_at indices Role_Logits)) \<and> ti_dtype t \<in> set float_types"
    "info' = info\<lparr>mi_outputs := outputs, mi_output_contract := Some contract,
       mi_num_queries := ti_shape (outputs ! the (role_at indices Role_Logits)) ! 1,
       mi_num_classes := ti_shape (outputs ! the (role_at indices Role_Logits)) ! 2,
       mi_has_masks := (role_at indices Role_Masks \<noteq> None)\<rparr>"
    "\<And>k. role_at indices Role_Keypoints = Some k \<Longrightarrow> check_keypoint_output encode_record info contract
       (ti_shape (outputs ! the (role_at indices Role_Logits))) (ti_shape (outputs ! k)) = Inr ()"
proof -
  from assms obtain outputs where assign: "assign_outputs 0 no_roles (mi_outputs info) = Inr (outputs, indices)"
    by (auto simp: validate_output_layout_def bindr_Inr_iff Let_def split: if_splits)
  let ?logits = "outputs ! the (role_at indices Role_Logits)"
  from assms assign obtain contract where c:
    "\<not> list_ex (\<lambda>role. op_task (role_policy role) = None \<and> role_at indices role = None) executable_roles"
    "\<not> list_ex (\<lambda>t. batch_query_disagree (ti_shape t) (ti_shape ?logits)) outputs"
    "validate_output_contract contract None = Inr ()"
    "\<not> list_ex (\<lambda>role. policy_supports (role_policy role) (ct_task contract) \<noteq> (role_at indices role \<noteq> None)) executable_roles"
    "\<not> list_ex (\<lambda>t. ti_dtype t \<noteq> ti_dtype ?logits \<or> ti_dtype t \<notin> set float_types) outputs"
    "info' = info\<lparr>mi_outputs := outputs, mi_output_contract := Some contract, mi_num_queries := ti_shape ?logits ! 1,
       mi_num_classes := ti_shape ?logits ! 2, mi_has_masks := (role_at indices Role_Masks \<noteq> None)\<rparr>"
    "(case role_at indices Role_Keypoints of
       Some k \<Rightarrow> check_keypoint_output encode_record info contract (ti_shape ?logits) (ti_shape (outputs ! k))
     | None \<Rightarrow> if ct_keypoints_per_class contract \<noteq> [] then Inl (Invalid_Argument ''non-keypoint artifact declares joint slots'')
               else Inr ()) = Inr ()"
    by (auto simp: validate_output_layout_def Let_def bindr_Inr_iff split: if_splits)
  show thesis
    by (rule that [OF assign]) (use c in \<open>auto simp: list_ex_iff\<close>)
qed

lemma no_roles_at: "role \<in> set executable_roles \<Longrightarrow> role_at no_roles role = None" "length no_roles = 4"
  by (auto simp: no_roles_def role_at_def executable_roles_eq)

lemma executable_distinct: "distinct executable_roles"
  by (simp add: executable_roles_eq)

text \<open>An admitted artifact has exactly the outputs its task declares, one of each role: the index the reader
  keeps for a role is that of the one output of the role. All of them have the rank of their role, the same
  number of queries and the same type, and the info reports the extents of the logits.\<close>

theorem output_layout_admitted:
  assumes "validate_output_layout encode_record info = Inr (info', indices)"
  shows "\<exists>contract. mi_output_contract info' = Some contract
    \<and> distinct (map ti_role (mi_outputs info')) \<and> length (mi_outputs info') = output_count (ct_task contract)
    \<and> set (map ti_role (mi_outputs info')) = {role \<in> set executable_roles. policy_supports (role_policy role) (ct_task contract)}
    \<and> (\<forall>role \<in> set executable_roles. \<forall>i. role_at indices role = Some i \<longleftrightarrow>
         i < length (mi_outputs info') \<and> ti_role (mi_outputs info' ! i) = role)
    \<and> (\<forall>t \<in> set (mi_outputs info'). length (ti_shape t) = op_rank (role_policy (ti_role t))
         \<and> ti_shape t ! 1 = mi_num_queries info' \<and> ti_dtype t = ti_dtype (hd (mi_outputs info')))
    \<and> 0 < mi_num_queries info' \<and> 0 < mi_num_classes info'
    \<and> (mi_has_masks info' \<longleftrightarrow> ct_task contract = Task_Segmentation)"
  using assms
proof (rule validate_output_layout_cases)
  fix outputs :: "tensor_info list" and contract :: output_contract
  let ?logits = "outputs ! the (role_at indices Role_Logits)"
  assume assign: "assign_outputs 0 no_roles (mi_outputs info) = Inr (outputs, indices)"
    and required: "\<forall>role \<in> set executable_roles. op_task (role_policy role) = None \<longrightarrow> role_at indices role \<noteq> None"
    and axes: "\<forall>t \<in> set outputs. \<not> batch_query_disagree (ti_shape t) (ti_shape ?logits)"
    and task: "\<forall>role \<in> set executable_roles. policy_supports (role_policy role) (ct_task contract) = (role_at indices role \<noteq> None)"
    and types: "\<forall>t \<in> set outputs. ti_dtype t = ti_dtype ?logits \<and> ti_dtype t \<in> set float_types"
    and info': "info' = info\<lparr>mi_outputs := outputs, mi_output_contract := Some contract,
       mi_num_queries := ti_shape ?logits ! 1, mi_num_classes := ti_shape ?logits ! 2,
       mi_has_masks := (role_at indices Role_Masks \<noteq> None)\<rparr>"
  note spec = assign_outputs_spec [OF assign no_roles_at(2)]
  have at: "role_at indices role = Some i \<longleftrightarrow> i < length outputs \<and> ti_role (outputs ! i) = role"
    if "role \<in> set executable_roles" for role i
    using spec that no_roles_at(1) [OF that] by fastforce
  have logits: "the (role_at indices Role_Logits) < length outputs"
    using required at [of Role_Logits] by (fastforce simp: executable_roles_eq role_policy_def)
  have admitted: "op_executable (role_policy (ti_role t)) \<and> shape_admitted (ti_role t) (op_rank (role_policy (ti_role t))) (ti_shape t)"
    if "t \<in> set outputs" for t
    using spec that by (fastforce simp: list_all2_conv_all_nth in_set_conv_nth output_admitted_def)
  have "set (map ti_role outputs) = {role \<in> set executable_roles. role_at indices role \<noteq> None}"
  proof (intro set_eqI iffI)
    fix role assume "role \<in> set (map ti_role outputs)"
    then obtain i where i: "i < length outputs" "ti_role (outputs ! i) = role" by (auto simp: in_set_conv_nth)
    with admitted [of "outputs ! i"] have "role \<in> set executable_roles" by (simp add: executable_role_iff)
    with at [OF this, of i] i show "role \<in> {role \<in> set executable_roles. role_at indices role \<noteq> None}" by simp
  next
    fix role assume "role \<in> {role \<in> set executable_roles. role_at indices role \<noteq> None}"
    then obtain i where "i < length outputs" "ti_role (outputs ! i) = role" using at [of role] by auto
    then show "role \<in> set (map ti_role outputs)" by force
  qed
  then have roles: "set (map ti_role outputs) = {role \<in> set executable_roles. policy_supports (role_policy role) (ct_task contract)}"
    using task by auto
  have "length outputs = card (set (map ti_role outputs))" using spec distinct_card [of "map ti_role outputs"] by simp
  also have "\<dots> = output_count (ct_task contract)"
    unfolding roles output_count_def using executable_distinct
    by (subst distinct_card [symmetric]) (simp_all add: Collect_conj_eq Int_commute)
  finally have count: "length outputs = output_count (ct_task contract)" .
  have "outputs \<noteq> []" using logits by auto
  then have first: "hd outputs \<in> set outputs" "?logits \<in> set outputs" using nth_mem [OF logits] by simp_all
  have shapes: "length (ti_shape t) = op_rank (role_policy (ti_role t)) \<and> ti_shape t ! 1 = ti_shape ?logits ! 1
      \<and> ti_dtype t = ti_dtype (hd outputs)" if "t \<in> set outputs" for t
  proof -
    have "length (ti_shape t) = op_rank (role_policy (ti_role t))" using admitted [OF that] by (simp add: shape_admitted_def)
    moreover have "ti_shape t ! 1 = ti_shape ?logits ! 1"
      using bspec [OF axes that] unfolding batch_query_disagree_def by blast
    moreover have "ti_dtype t = ti_dtype (hd outputs)"
      using conjunct1 [OF bspec [OF types that]] conjunct1 [OF bspec [OF types first(1)]] by (rule trans [OF _ sym])
    ultimately show ?thesis by blast
  qed
  have extents: "0 < ti_shape ?logits ! 1" "0 < ti_shape ?logits ! 2"
    using conjunct2 [OF admitted [OF first(2)]] unfolding shape_admitted_def by linarith+
  have masks: "role_at indices Role_Masks \<noteq> None \<longleftrightarrow> ct_task contract = Task_Segmentation"
    using task by (auto simp: executable_roles_eq policy_supports_def role_policy_def)
  have distinct: "distinct (map ti_role outputs)" using spec by blast
  have fields: "mi_outputs info' = outputs" "mi_output_contract info' = Some contract"
    "mi_num_queries info' = ti_shape ?logits ! 1" "mi_num_classes info' = ti_shape ?logits ! 2"
    "mi_has_masks info' = (role_at indices Role_Masks \<noteq> None)"
    by (simp_all add: info')
  show ?thesis
    unfolding fields
  proof (intro exI conjI)
    show "Some contract = Some contract" ..
    show "distinct (map ti_role outputs)" by (rule distinct)
    show "length outputs = output_count (ct_task contract)" by (rule count)
    show "set (map ti_role outputs) = {role \<in> set executable_roles. policy_supports (role_policy role) (ct_task contract)}"
      by (rule roles)
    show "\<forall>role \<in> set executable_roles. \<forall>i. role_at indices role = Some i \<longleftrightarrow> i < length outputs \<and> ti_role (outputs ! i) = role"
      using at by blast
    show "\<forall>t \<in> set outputs. length (ti_shape t) = op_rank (role_policy (ti_role t))
         \<and> ti_shape t ! 1 = ti_shape ?logits ! 1 \<and> ti_dtype t = ti_dtype (hd outputs)"
      using shapes by blast
  qed (rule extents masks)+
qed

section \<open>A concrete instance\<close>

definition canonical_output :: "output_role \<Rightarrow> int list \<Rightarrow> output_role \<Rightarrow> tensor_info" where
  "canonical_output role shape declared = \<lparr>ti_name = op_name (role_policy role), ti_shape = shape,
     ti_dtype = ascii ''float32'', ti_role = declared\<rparr>"

definition detection_info :: model_info where
  "detection_info = \<lparr>mi_backend = [], mi_model_path = [], mi_input = canonical_output Role_Logits [] Role_Unspecified,
     mi_outputs = [canonical_output Role_Boxes [-1, 300, 4] Role_Unspecified, canonical_output Role_Logits [-1, 300, 91] Role_Unspecified],
     mi_num_queries = 0, mi_automatic_num_queries_cap = 0, mi_num_classes = 0, mi_has_masks = False,
     mi_class_layout = None, mi_output_contract = None\<rparr>"

definition detection_admitted :: model_info where
  "detection_admitted = detection_info
     \<lparr>mi_outputs := [canonical_output Role_Boxes [-1, 300, 4] Role_Boxes, canonical_output Role_Logits [-1, 300, 91] Role_Logits],
      mi_output_contract := Some \<lparr>ct_version = 1, ct_task = Task_Detection, ct_keypoints_per_class = []\<rparr>,
      mi_num_queries := 300, mi_num_classes := 91\<rparr>"

lemma canonical_declared:
  assumes "role \<in> set executable_roles"
  shows "declared_role (canonical_output role shape Role_Unspecified) = Inr role"
  using canonical_role_name [OF assms] by (simp add: declared_role_def canonical_output_def)

lemma detection_assigned:
  "assign_outputs 0 no_roles (mi_outputs detection_info) = Inr (mi_outputs detection_admitted, [Some 1, Some 0, None, None])"
proof -
  have declared: "declared_role (canonical_output Role_Boxes s Role_Unspecified) = Inr Role_Boxes"
    "declared_role (canonical_output Role_Logits s Role_Unspecified) = Inr Role_Logits" for s
    by (rule canonical_declared; simp add: executable_roles_eq)+
  have policies: "op_executable (role_policy Role_Boxes)" "op_executable (role_policy Role_Logits)"
    "op_rank (role_policy Role_Boxes) = 3" "op_rank (role_policy Role_Logits) = 3"
    by (simp_all add: role_policy_def)
  have fields: "ti_shape (canonical_output r s d) = s" "canonical_output r s d\<lparr>ti_role := d'\<rparr> = canonical_output r s d'" for r s d d'
    by (simp_all add: canonical_output_def)
  have outputs: "mi_outputs detection_info = [canonical_output Role_Boxes [-1, 300, 4] Role_Unspecified,
      canonical_output Role_Logits [-1, 300, 91] Role_Unspecified]"
    "mi_outputs detection_admitted = [canonical_output Role_Boxes [-1, 300, 4] Role_Boxes,
      canonical_output Role_Logits [-1, 300, 91] Role_Logits]"
    by (simp_all add: detection_info_def detection_admitted_def)
  show ?thesis
    unfolding outputs assign_step
    by (simp add: declared policies fields role_at_def resolve_role_def no_roles_def shape_admitted_def
        numeral_3_eq_3 numeral_eq_Suc)
qed

lemma detection_validates:
  "validate_output_layout any_text detection_info = Inr (detection_admitted, [Some 1, Some 0, None, None])"
proof -
  have contract: "validate_output_contract \<lparr>ct_version = 1, ct_task = Task_Detection, ct_keypoints_per_class = []\<rparr> None = Inr ()"
    by (simp add: validate_output_contract_def keypoint_tensor_layout_of_def kMaximumClassOutputSlots_def kClassCatalogCapacity_def)
  have float: "ascii ''float32'' \<in> set float_types" by (simp add: float_types_def)
  show ?thesis
    unfolding validate_output_layout_def detection_assigned
    by (simp add: executable_roles_eq role_policy_def role_at_def detection_admitted_def canonical_output_def
        batch_query_disagree_def effective_contract_def contract policy_supports_def float detection_info_def
        del: ascii_simps One_nat_def)
qed

lemma output_layout_admitted_witness:
  "\<exists>contract. mi_output_contract detection_admitted = Some contract
    \<and> distinct (map ti_role (mi_outputs detection_admitted))
    \<and> length (mi_outputs detection_admitted) = output_count (ct_task contract)
    \<and> set (map ti_role (mi_outputs detection_admitted))
        = {role \<in> set executable_roles. policy_supports (role_policy role) (ct_task contract)}
    \<and> 0 < mi_num_queries detection_admitted \<and> 0 < mi_num_classes detection_admitted
    \<and> (mi_has_masks detection_admitted \<longleftrightarrow> ct_task contract = Task_Segmentation)"
  using output_layout_admitted [OF detection_validates] by blast

end
