(* ===== verification/Thumbnail_Cache.thy ===== *)
theory Thumbnail_Cache
  imports Common_Math
begin

text \<open>
  The cache of gallery thumbnails (\<open>src/controller/subsystems/explore/gallery_thumbnail_cache.cpp\<close>,
  \<open>detail/gallery_thumbnail_cache.h\<close>): a fixed number of physical slots for images, found by a hash table
  whose buckets are chains through the array \<open>next\<close>; the demand, which maps a window of positions to slots; and the
  journal by which an update that fails is undone.

  The pixels' meaning and the augmentation settings are type parameters. The walks along a chain carry as fuel one
  more than the number of slots, which is more than the length of any chain (\<open>chase_chain\<close>, \<open>unlink_chain\<close>). The
  accounting of allocated bytes is left out.
\<close>

section \<open>State\<close>

definition absent :: nat where "absent = size_max"
definition kNeighborRows :: nat where "kNeighborRows = 4"
definition kExploreVisibleItemCapacity :: nat where "kExploreVisibleItemCapacity = 256"
definition kMaximumCards :: nat where "kMaximumCards = (1 + 2 * kNeighborRows) * kExploreVisibleItemCapacity"

record explore_viewport =
  vp_first_row :: nat
  vp_row_count :: nat
  vp_columns :: nat

record 'g cache_identity =
  ci_incarnation :: "nat option"
  ci_dataset :: nat
  ci_seed :: nat
  ci_augmentation :: 'g
  ci_extent :: nat
  ci_augmented :: bool

definition same_source :: "'g cache_identity \<Rightarrow> 'g cache_identity \<Rightarrow> bool" where
  "same_source a b \<longleftrightarrow> ci_incarnation a = ci_incarnation b \<and> ci_dataset a = ci_dataset b \<and> ci_extent a = ci_extent b"

record 'm cache_entry =
  te_position :: nat
  te_image :: nat
  te_bank :: nat
  te_semantic_bank :: nat
  te_refresh_pending :: bool
  te_meaning :: "'m option"
  te_semantic_identity :: nat

definition vacant_entry :: "'m cache_entry" where
  "vacant_entry = \<lparr>te_position = absent, te_image = 0, te_bank = 0, te_semantic_bank = 0, te_refresh_pending = False,
     te_meaning = None, te_semantic_identity = 0\<rparr>"

record ('g, 'm) thumbnail_cache =
  tc_identity :: "'g cache_identity"
  tc_entries :: "'m cache_entry list"
  tc_buckets :: "nat list"
  tc_next :: "nat list"
  tc_demand_slots :: "nat list"
  tc_pinned :: "bool list"
  tc_demand_first :: nat
  tc_eviction :: nat
  tc_undo :: "(nat \<times> 'm cache_entry) list"
  tc_undo_indices :: "nat list"
  tc_prior_demand :: "nat list"
  tc_prior_first :: nat
  tc_updating :: bool

definition empty_cache :: "'g cache_identity \<Rightarrow> ('g, 'm) thumbnail_cache" where
  "empty_cache identity = \<lparr>tc_identity = identity, tc_entries = [], tc_buckets = [], tc_next = [], tc_demand_slots = [],
     tc_pinned = [], tc_demand_first = 0, tc_eviction = 0, tc_undo = [], tc_undo_indices = [], tc_prior_demand = [],
     tc_prior_first = 0, tc_updating = False\<rparr>"

section \<open>The window of positions around a viewport\<close>

definition window_first :: "nat \<Rightarrow> explore_viewport \<Rightarrow> nat" where
  "window_first matching viewport =
     (let row = (if vp_first_row viewport > kNeighborRows then vp_first_row viewport - kNeighborRows else 0)
      in min matching (row * vp_columns viewport))"

definition window_count :: "nat \<Rightarrow> explore_viewport \<Rightarrow> nat" where
  "window_count matching viewport =
     (let stop = min matching (wrap64 ((vp_first_row viewport + vp_row_count viewport + kNeighborRows) * vp_columns viewport))
      in sub64 stop (window_first matching viewport))"

section \<open>The hash table\<close>

fun chase :: "nat \<Rightarrow> 'm cache_entry list \<Rightarrow> nat list \<Rightarrow> nat \<Rightarrow> nat \<Rightarrow> nat" where
  "chase 0 entries links img slot = absent"
| "chase (Suc fuel) entries links img slot =
     (if slot = absent then absent
      else if te_image (entries ! slot) = img then slot
      else chase fuel entries links img (links ! slot))"

definition bucket_of :: "('g, 'm) thumbnail_cache \<Rightarrow> nat \<Rightarrow> nat" where
  "bucket_of c img = img mod length (tc_buckets c)"

definition cache_lookup :: "nat \<Rightarrow> ('g, 'm) thumbnail_cache \<Rightarrow> nat" where
  "cache_lookup img c =
     (if tc_buckets c = [] then absent
      else chase (Suc (length (tc_entries c))) (tc_entries c) (tc_next c) img (tc_buckets c ! bucket_of c img))"

text \<open>The link behind \<open>prior\<close> that leads to the slot is redirected past it.\<close>

fun unlink_after :: "nat \<Rightarrow> nat list \<Rightarrow> nat \<Rightarrow> nat \<Rightarrow> nat list" where
  "unlink_after 0 links prior slot = links"
| "unlink_after (Suc fuel) links prior slot =
     (if links ! prior = slot then links[prior := links ! slot]
      else unlink_after fuel links (links ! prior) slot)"

definition cache_erase :: "nat \<Rightarrow> ('g, 'm) thumbnail_cache \<Rightarrow> ('g, 'm) thumbnail_cache" where
  "cache_erase slot c =
     (if te_position (tc_entries c ! slot) = absent then c
      else let b = bucket_of c (te_image (tc_entries c ! slot)); head = tc_buckets c ! b
           in if head = slot then c\<lparr>tc_buckets := (tc_buckets c)[b := tc_next c ! slot]\<rparr>
              else c\<lparr>tc_next := unlink_after (Suc (length (tc_entries c))) (tc_next c) head slot\<rparr>)"

text \<open>A slot becomes the head of the bucket of its image.\<close>

definition link_slot :: "nat \<Rightarrow> nat \<Rightarrow> ('g, 'm) thumbnail_cache \<Rightarrow> ('g, 'm) thumbnail_cache" where
  "link_slot slot img c =
     (let b = bucket_of c img
      in c\<lparr>tc_next := (tc_next c)[slot := tc_buckets c ! b], tc_buckets := (tc_buckets c)[b := slot]\<rparr>)"

definition reindex_slot :: "('g, 'm) thumbnail_cache \<Rightarrow> nat \<Rightarrow> ('g, 'm) thumbnail_cache" where
  "reindex_slot c slot =
     (if te_position (tc_entries c ! slot) = absent then c else link_slot slot (te_image (tc_entries c ! slot)) c)"

definition resized :: "nat \<Rightarrow> 'a \<Rightarrow> 'a list \<Rightarrow> 'a list" where
  "resized n x xs = take n xs @ replicate (n - length xs) x"

definition cache_reindex :: "('g, 'm) thumbnail_cache \<Rightarrow> ('g, 'm) thumbnail_cache" where
  "cache_reindex c =
     (let n = length (tc_entries c)
      in foldl reindex_slot
           (c\<lparr>tc_buckets := replicate (2 * n + 1) absent, tc_next := replicate n absent,
              tc_pinned := resized n False (tc_pinned c), tc_undo_indices := resized n absent (tc_undo_indices c)\<rparr>)
           [0 ..< n])"

text \<open>\<open>Reserve\<close> changes capacities only.\<close>

definition cache_reserve :: "nat \<Rightarrow> cxx_error option" where
  "cache_reserve count =
     (if count > kMaximumCards then Some (Invalid_Argument ''Explore cache exceeds the viewport row bound'') else None)"

definition adopt_identity :: "'g cache_identity \<Rightarrow> ('g, 'm) thumbnail_cache \<Rightarrow> ('g, 'm) thumbnail_cache" where
  "adopt_identity identity c =
     (if tc_identity c = identity then c
      else c\<lparr>tc_entries := (if same_source (tc_identity c) identity
                            then map (\<lambda>e. e\<lparr>te_refresh_pending := True\<rparr>) (tc_entries c) else []),
             tc_identity := identity, tc_demand_slots := [], tc_pinned := map (\<lambda>_. False) (tc_pinned c)\<rparr>)"

definition cache_configure ::
    "nat \<Rightarrow> 'g cache_identity \<Rightarrow> ('g, 'm) thumbnail_cache \<Rightarrow> ('g, 'm) thumbnail_cache effect" where
  "cache_configure count identity c =
     (if count > kMaximumCards then (Some (Invalid_Argument ''Explore cache exceeds the viewport row bound''), c)
      else if tc_identity c = identity \<and> count \<le> length (tc_entries c) then (None, c)
      else let adopted = adopt_identity identity c;
               grown = (if length (tc_entries adopted) < count
                        then adopted\<lparr>tc_entries := resized count vacant_entry (tc_entries adopted)\<rparr> else adopted)
           in case cache_reserve (length (tc_entries grown)) of
                Some e \<Rightarrow> (Some e, grown)
              | None \<Rightarrow> (None, cache_reindex grown))"

section \<open>The journal\<close>

definition cache_save :: "nat \<Rightarrow> ('g, 'm) thumbnail_cache \<Rightarrow> ('g, 'm) thumbnail_cache" where
  "cache_save slot c =
     (if \<not> tc_updating c \<or> tc_undo_indices c ! slot \<noteq> absent then c
      else c\<lparr>tc_undo_indices := (tc_undo_indices c)[slot := length (tc_undo c)],
             tc_undo := tc_undo c @ [(slot, tc_entries c ! slot)]\<rparr>)"

definition cache_protected :: "nat \<Rightarrow> ('g, 'm) thumbnail_cache \<Rightarrow> 'm cache_entry" where
  "cache_protected slot c =
     (if tc_updating c \<and> tc_undo_indices c ! slot \<noteq> absent then snd (tc_undo c ! (tc_undo_indices c ! slot))
      else tc_entries c ! slot)"

definition cache_restore :: "nat \<Rightarrow> 'm cache_entry \<Rightarrow> ('g, 'm) thumbnail_cache \<Rightarrow> ('g, 'm) thumbnail_cache" where
  "cache_restore slot e c =
     (let erased = cache_erase slot c; set = erased\<lparr>tc_entries := (tc_entries erased)[slot := e]\<rparr>
      in if te_position e = absent then set else link_slot slot (te_image e) set)"

definition begin_update :: "('g, 'm) thumbnail_cache \<Rightarrow> ('g, 'm) thumbnail_cache effect" where
  "begin_update c =
     (if tc_updating c then (Some (Logic_Error ''Explore cache update is already active''), c)
      else case cache_reserve (length (tc_entries c)) of
             Some e \<Rightarrow> (Some e, c)
           | None \<Rightarrow> (None, c\<lparr>tc_prior_demand := tc_demand_slots c, tc_prior_first := tc_demand_first c, tc_updating := True\<rparr>))"

definition commit_update :: "('g, 'm) thumbnail_cache \<Rightarrow> ('g, 'm) thumbnail_cache" where
  "commit_update c =
     c\<lparr>tc_undo_indices := foldl (\<lambda>indices (slot, _). indices[slot := absent]) (tc_undo_indices c) (tc_undo c),
       tc_undo := [], tc_prior_demand := [], tc_updating := False\<rparr>"

definition pin_slots :: "nat list \<Rightarrow> bool list \<Rightarrow> bool list" where
  "pin_slots slots pinned = foldl (\<lambda>p slot. p[slot := True]) (map (\<lambda>_. False) pinned) slots"

definition rollback_update :: "('g, 'm) thumbnail_cache \<Rightarrow> ('g, 'm) thumbnail_cache" where
  "rollback_update c =
     (if \<not> tc_updating c then c
      else let restored = foldl (\<lambda>c (slot, e). cache_restore slot e c) c (tc_undo c)
           in commit_update
                (restored\<lparr>tc_demand_slots := tc_prior_demand restored, tc_prior_demand := tc_demand_slots restored,
                   tc_demand_first := tc_prior_first restored,
                   tc_pinned := pin_slots (tc_prior_demand restored) (tc_pinned restored)\<rparr>))"

section \<open>Admission of a demand\<close>

definition fresh_entry :: "nat \<Rightarrow> 'm cache_entry" where
  "fresh_entry img = vacant_entry\<lparr>te_position := 0, te_image := img\<rparr>"

text \<open>The search for a slot that is not pinned, from where the last one ended.\<close>

fun evict :: "nat \<Rightarrow> nat \<Rightarrow> ('g, 'm) thumbnail_cache \<Rightarrow> (cxx_error + nat) \<times> ('g, 'm) thumbnail_cache" where
  "evict 0 img c = (Inl (Logic_Error ''Explore cache demand exceeds retained physical slots''), c)"
| "evict (Suc attempts) img c =
     (let slot = tc_eviction c mod length (tc_entries c); c' = c\<lparr>tc_eviction := wrap64 (tc_eviction c + 1)\<rparr>
      in if tc_pinned c ! slot then evict attempts img c'
         else let erased = cache_erase slot (cache_save slot c')
              in (Inr slot, link_slot slot img (erased\<lparr>tc_entries := (tc_entries erased)[slot := fresh_entry img]\<rparr>)))"

definition cache_assign :: "nat \<Rightarrow> ('g, 'm) thumbnail_cache \<Rightarrow> (cxx_error + nat) \<times> ('g, 'm) thumbnail_cache" where
  "cache_assign img c =
     (if cache_lookup img c \<noteq> absent then (Inr (cache_lookup img c), c)
      else evict (length (tc_entries c)) img c)"

definition place_image :: "nat \<Rightarrow> nat \<Rightarrow> nat \<Rightarrow> ('g, 'm) thumbnail_cache \<Rightarrow> ('g, 'm) thumbnail_cache" where
  "place_image first offset slot c =
     (let pinned = c\<lparr>tc_pinned := (tc_pinned c)[slot := True]\<rparr>;
          saved = (if te_position (tc_entries pinned ! slot) \<noteq> first + offset then cache_save slot pinned else pinned)
      in saved\<lparr>tc_entries := (tc_entries saved)[slot := (tc_entries saved ! slot)\<lparr>te_position := first + offset\<rparr>],
               tc_demand_slots := (tc_demand_slots saved)[offset := slot]\<rparr>)"

fun place_images :: "nat \<Rightarrow> nat \<Rightarrow> nat list \<Rightarrow> ('g, 'm) thumbnail_cache \<Rightarrow> ('g, 'm) thumbnail_cache effect" where
  "place_images first offset [] c = (None, c)"
| "place_images first offset (img # rest) c =
     (case cache_assign img c of
        (Inl e, c') \<Rightarrow> (Some e, c')
      | (Inr slot, c') \<Rightarrow> place_images first (offset + 1) rest (place_image first offset slot c'))"

definition pin_hits :: "nat list \<Rightarrow> ('g, 'm) thumbnail_cache \<Rightarrow> ('g, 'm) thumbnail_cache" where
  "pin_hits images c = c\<lparr>tc_pinned := pin_slots (filter (\<lambda>slot. slot \<noteq> absent) (map (\<lambda>img. cache_lookup img c) images))
     (tc_pinned c)\<rparr>"

definition cache_admit :: "nat list \<Rightarrow> nat \<Rightarrow> ('g, 'm) thumbnail_cache \<Rightarrow> ('g, 'm) thumbnail_cache effect" where
  "cache_admit images first c =
     (if length images > length (tc_entries c)
      then (Some (Length_Error ''Explore cache demand exceeds capacity''), c)
      else let pinned = pin_hits images c
           in place_images first 0 images
                (pinned\<lparr>tc_demand_slots := resized (length images) 0 (tc_demand_slots pinned), tc_demand_first := first\<rparr>))"

section \<open>Queries and completion\<close>

definition cache_position :: "nat \<Rightarrow> ('g, 'm) thumbnail_cache \<Rightarrow> nat" where
  "cache_position img c =
     (let slot = cache_lookup img c
      in if slot = absent \<or> \<not> tc_pinned c ! slot then absent else te_position (tc_entries c ! slot))"

definition cache_retained :: "nat \<Rightarrow> ('g, 'm) thumbnail_cache \<Rightarrow> 'm cache_entry option" where
  "cache_retained img c =
     (let slot = cache_lookup img c
      in if slot \<noteq> absent \<and> te_meaning (tc_entries c ! slot) \<noteq> None then Some (tc_entries c ! slot) else None)"

definition cache_find :: "nat \<Rightarrow> ('g, 'm) thumbnail_cache \<Rightarrow> 'm cache_entry option" where
  "cache_find img c =
     (case cache_retained img c of None \<Rightarrow> None | Some e \<Rightarrow> if te_refresh_pending e then None else Some e)"

definition slot_of :: "nat \<Rightarrow> ('g, 'm) thumbnail_cache \<Rightarrow> nat" where
  "slot_of position c = tc_demand_slots c ! sub64 position (tc_demand_first c)"

definition physical_row :: "nat \<Rightarrow> nat \<Rightarrow> ('g, 'm) thumbnail_cache \<Rightarrow> nat" where
  "physical_row slot bank c = wrap64 ((bank * length (tc_entries c) + slot) * ci_extent (tc_identity c))"

definition cache_complete ::
    "nat \<Rightarrow> nat \<Rightarrow> 'm option \<Rightarrow> nat \<Rightarrow> nat \<Rightarrow> nat \<Rightarrow> ('g, 'm) thumbnail_cache \<Rightarrow> ('g, 'm) thumbnail_cache effect" where
  "cache_complete position img meaning semantic_identity bank semantic_bank c =
     (if bank > 1 \<or> semantic_bank > 1 then (Some (Invalid_Argument ''Explore cache plane version is invalid''), c)
      else case cache_assign img c of
             (Inl e, c') \<Rightarrow> (Some e, c')
           | (Inr slot, c') \<Rightarrow>
               let saved = cache_save slot c'
               in (None, saved\<lparr>tc_entries := (tc_entries saved)[slot :=
                     \<lparr>te_position = position, te_image = img, te_bank = bank, te_semantic_bank = semantic_bank,
                      te_refresh_pending = False, te_meaning = meaning, te_semantic_identity = semantic_identity\<rparr>]\<rparr>))"

definition update_semantics ::
    "nat \<Rightarrow> nat \<Rightarrow> nat \<Rightarrow> ('g, 'm) thumbnail_cache \<Rightarrow> ('g, 'm) thumbnail_cache effect" where
  "update_semantics position semantic_identity semantic_bank c =
     (if semantic_bank > 1 then (Some (Invalid_Argument ''Explore cache plane version is invalid''), c)
      else let slot = slot_of position c
           in if slot \<ge> length (tc_entries c) then (Some (Out_Of_Range ''vector''), c)
              else if te_meaning (tc_entries c ! slot) = None
              then (Some (Logic_Error ''Explore semantic refresh requires retained clean pixels''), c)
              else let saved = cache_save slot c
                   in (None, saved\<lparr>tc_entries := (tc_entries saved)[slot := (tc_entries saved ! slot)
                        \<lparr>te_semantic_identity := semantic_identity, te_semantic_bank := semantic_bank\<rparr>]\<rparr>))"

definition cache_clear :: "'g cache_identity \<Rightarrow> ('g, 'm) thumbnail_cache \<Rightarrow> ('g, 'm) thumbnail_cache" where
  "cache_clear identity c = (commit_update c)
     \<lparr>tc_entries := [], tc_buckets := [], tc_next := [], tc_pinned := [], tc_demand_slots := [], tc_identity := identity,
      tc_eviction := 0\<rparr>"

text \<open>The bank of the other plane, an eight-bit value.\<close>

definition other_bank :: "bool \<Rightarrow> 'm cache_entry \<Rightarrow> nat" where
  "other_bank semantic e = (257 - (if semantic then te_semantic_bank e else te_bank e)) mod 256"

definition writable_bank :: "nat \<Rightarrow> ('g, 'm) thumbnail_cache option \<Rightarrow> bool \<Rightarrow> ('g, 'm) thumbnail_cache \<Rightarrow> nat" where
  "writable_bank position incumbent semantic c =
     (let slot = slot_of position c; e = cache_protected slot c;
          own = (if te_meaning e \<noteq> None then other_bank semantic e else 0)
      in case incumbent of
           None \<Rightarrow> own
         | Some shown \<Rightarrow>
             if slot < length (tc_entries shown) \<and> te_meaning (tc_entries shown ! slot) \<noteq> None
             then other_bank semantic (tc_entries shown ! slot) else own)"

section \<open>Chains\<close>

primrec chain :: "nat list \<Rightarrow> nat \<Rightarrow> nat list \<Rightarrow> bool" where
  "chain links h [] \<longleftrightarrow> h = absent"
| "chain links h (x # xs) \<longleftrightarrow> h = x \<and> x \<noteq> absent \<and> x < length links \<and> chain links (links ! x) xs"

lemma chain_frame:
  "chain links h xs \<Longrightarrow> length links' = length links \<Longrightarrow> \<forall>s \<in> set xs. links' ! s = links ! s \<Longrightarrow> chain links' h xs"
  by (induction xs arbitrary: h) auto

lemma nth_update: "xs[k := x] ! i = (if k = i \<and> i < length xs then x else xs ! i)"
  by (cases "k = i"; cases "i < length xs") (simp_all add: list_update_beyond)

lemma chain_update: "s \<notin> set xs \<Longrightarrow> chain links h xs \<Longrightarrow> chain (links[s := v]) h xs"
  by (rule chain_frame) (auto simp: nth_update)

lemma chase_chain:
  "chain links h xs \<Longrightarrow> length xs < fuel \<Longrightarrow> chase fuel entries links img h =
     (case find (\<lambda>s. te_image (entries ! s) = img) xs of None \<Rightarrow> absent | Some s \<Rightarrow> s)"
proof (induction xs arbitrary: h fuel)
  case Nil
  then show ?case by (cases fuel) auto
next
  case (Cons x xs)
  then show ?case by (cases fuel) auto
qed

lemma unlink_chain:
  "chain links (links ! prior) xs \<Longrightarrow> distinct (prior # xs) \<Longrightarrow> slot \<in> set xs \<Longrightarrow> prior < length links \<Longrightarrow>
   length xs \<le> fuel \<Longrightarrow> links' = unlink_after fuel links prior slot \<Longrightarrow>
     length links' = length links \<and> (\<forall>s. s \<notin> set (prior # xs) \<longrightarrow> links' ! s = links ! s)
     \<and> chain links' (links' ! prior) (remove1 slot xs)"
proof (induction xs arbitrary: prior fuel)
  case (Cons x xs)
  from Cons.prems(5) obtain f where fuel: "fuel = Suc f" "length xs \<le> f" by (cases fuel) auto
  show ?case
  proof (cases "x = slot")
    case True
    with Cons.prems fuel have links': "links' = links[prior := links ! slot]" by simp
    show ?thesis
      unfolding links' using True Cons.prems(1-4) by (auto simp: nth_update intro!: chain_update)
  next
    case False
    with Cons.prems fuel have "links' = unlink_after f links x slot" "slot \<in> set xs" by auto
    with Cons.IH [of x f] Cons.prems fuel have IH: "length links' = length links"
      "\<forall>s. s \<notin> set (x # xs) \<longrightarrow> links' ! s = links ! s" "chain links' (links' ! x) (remove1 slot xs)" by auto
    moreover from IH(2) Cons.prems have "links' ! prior = x" by auto
    ultimately show ?thesis using False Cons.prems by auto
  qed
qed simp

section \<open>The index\<close>

definition live :: "'m cache_entry \<Rightarrow> bool" where
  "live e \<longleftrightarrow> te_position e \<noteq> absent"

text \<open>The slots that the chain of a bucket has to hold.\<close>

definition bucket_slots :: "'m cache_entry list \<Rightarrow> nat \<Rightarrow> nat \<Rightarrow> nat set" where
  "bucket_slots entries buckets b =
     {s. s < length entries \<and> live (entries ! s) \<and> te_image (entries ! s) mod buckets = b}"

definition indexed :: "'m cache_entry list \<Rightarrow> nat list \<Rightarrow> nat list \<Rightarrow> bool" where
  "indexed entries links buckets \<longleftrightarrow> (\<forall>b < length buckets. \<exists>xs. chain links (buckets ! b) xs \<and> distinct xs
     \<and> set xs = bucket_slots entries (length buckets) b)"

definition index_ok :: "('g, 'm) thumbnail_cache \<Rightarrow> bool" where
  "index_ok c \<longleftrightarrow> length (tc_entries c) \<le> kMaximumCards \<and> length (tc_next c) = length (tc_entries c)
     \<and> length (tc_pinned c) = length (tc_entries c) \<and> length (tc_entries c) \<le> length (tc_undo_indices c)
     \<and> (tc_buckets c = [] \<longrightarrow> tc_entries c = []) \<and> indexed (tc_entries c) (tc_next c) (tc_buckets c)"

lemma slot_present: "index_ok c \<Longrightarrow> s < length (tc_entries c) \<Longrightarrow> s \<noteq> absent"
  by (auto simp: index_ok_def absent_def kMaximumCards_def kNeighborRows_def kExploreVisibleItemCapacity_def)

lemma index_chain:
  assumes "index_ok c" "b < length (tc_buckets c)"
  obtains xs where "chain (tc_next c) (tc_buckets c ! b) xs" "distinct xs" "length xs \<le> length (tc_entries c)"
    "set xs = bucket_slots (tc_entries c) (length (tc_buckets c)) b"
proof -
  from assms obtain xs where xs: "chain (tc_next c) (tc_buckets c ! b) xs" "distinct xs"
    "set xs = bucket_slots (tc_entries c) (length (tc_buckets c)) b"
    by (auto simp: index_ok_def indexed_def)
  have "set xs \<subseteq> {..< length (tc_entries c)}" using xs(3) by (auto simp: bucket_slots_def)
  then have "length xs \<le> length (tc_entries c)"
    using card_mono [of "{..< length (tc_entries c)}" "set xs"] xs(2) by (simp add: distinct_card)
  then show thesis using that xs by blast
qed

text \<open>The table finds a slot of an image exactly when there is one.\<close>

definition holds :: "'m cache_entry list \<Rightarrow> nat \<Rightarrow> nat \<Rightarrow> bool" where
  "holds entries img s \<longleftrightarrow> s < length entries \<and> live (entries ! s) \<and> te_image (entries ! s) = img"

lemma lookup_cases:
  assumes "index_ok c"
  shows "cache_lookup img c = absent \<and> (\<nexists>s. holds (tc_entries c) img s) \<or> holds (tc_entries c) img (cache_lookup img c)"
proof (cases "tc_buckets c = []")
  case True
  then show ?thesis using assms by (auto simp: cache_lookup_def index_ok_def holds_def)
next
  case False
  let ?b = "bucket_of c img"
  have b: "?b < length (tc_buckets c)" using False by (simp add: bucket_of_def)
  obtain xs where xs: "chain (tc_next c) (tc_buckets c ! ?b) xs" "distinct xs" "length xs \<le> length (tc_entries c)"
    "set xs = bucket_slots (tc_entries c) (length (tc_buckets c)) ?b"
    by (rule index_chain [OF assms b])
  have lookup: "cache_lookup img c = (case find (\<lambda>s. te_image (tc_entries c ! s) = img) xs of None \<Rightarrow> absent | Some s \<Rightarrow> s)"
  proof -
    have "cache_lookup img c = chase (Suc (length (tc_entries c))) (tc_entries c) (tc_next c) img (tc_buckets c ! ?b)"
      using False unfolding cache_lookup_def by (rule if_not_P)
    also have "\<dots> = (case find (\<lambda>s. te_image (tc_entries c ! s) = img) xs of None \<Rightarrow> absent | Some s \<Rightarrow> s)"
      by (rule chase_chain [OF xs(1)]) (use xs(3) in linarith)
    finally show ?thesis .
  qed
  show ?thesis
  proof (cases "find (\<lambda>s. te_image (tc_entries c ! s) = img) xs")
    case None
    then have "\<nexists>s. holds (tc_entries c) img s"
      using xs(4) by (auto simp: find_None_iff holds_def bucket_slots_def bucket_of_def)
    with None lookup show ?thesis by simp
  next
    case (Some s)
    then have "s \<in> set xs" "te_image (tc_entries c ! s) = img" by (auto simp: find_Some_iff)
    with xs(4) Some lookup show ?thesis by (auto simp: holds_def bucket_slots_def)
  qed
qed

definition images_unique :: "'m cache_entry list \<Rightarrow> bool" where
  "images_unique entries \<longleftrightarrow> (\<forall>img s t. holds entries img s \<longrightarrow> holds entries img t \<longrightarrow> s = t)"

lemma lookup_holds:
  assumes "index_ok c" "images_unique (tc_entries c)" "holds (tc_entries c) img s"
  shows "cache_lookup img c = s"
  using lookup_cases [OF assms(1), of img] assms(2,3) by (auto simp: images_unique_def)

lemma indexed_cong:
  assumes "indexed entries links buckets" "length entries' = length entries"
    and "\<forall>s < length entries. live (entries' ! s) = live (entries ! s) \<and> (live (entries ! s) \<longrightarrow> te_image (entries' ! s) = te_image (entries ! s))"
  shows "indexed entries' links buckets"
proof -
  have "bucket_slots entries' n b = bucket_slots entries n b" for n b
    using assms(2,3) by (auto simp: bucket_slots_def)
  with assms(1) show ?thesis by (simp add: indexed_def)
qed

lemma indexed_set:
  assumes "indexed entries links buckets" "live e = live (entries ! s)" "te_image e = te_image (entries ! s)"
  shows "indexed (entries[s := e]) links buckets"
  using assms by (intro indexed_cong [OF assms(1)]) (auto simp: nth_update)

text \<open>Taking a slot out of its chain.\<close>

lemma erase_chains:
  assumes ok: "index_ok c" and s: "slot < length (tc_entries c)"
    and c': "c' = cache_erase slot c"
  shows "length (tc_next c') = length (tc_next c) \<and> length (tc_buckets c') = length (tc_buckets c)
    \<and> (\<forall>b < length (tc_buckets c). \<exists>xs. chain (tc_next c') (tc_buckets c' ! b) xs \<and> distinct xs
         \<and> set xs = bucket_slots (tc_entries c) (length (tc_buckets c)) b - {slot})"
proof (cases "te_position (tc_entries c ! slot) = absent")
  case True
  then have "slot \<notin> bucket_slots (tc_entries c) n b" for n b by (simp add: bucket_slots_def live_def)
  with True ok c' show ?thesis by (auto simp: cache_erase_def index_ok_def indexed_def)
next
  case False
  let ?b = "bucket_of c (te_image (tc_entries c ! slot))" and ?n = "length (tc_buckets c)"
  have nonempty: "tc_buckets c \<noteq> []" using ok s by (auto simp: index_ok_def)
  then have b: "?b < ?n" by (simp add: bucket_of_def)
  obtain xs where xs: "chain (tc_next c) (tc_buckets c ! ?b) xs" "distinct xs" "length xs \<le> length (tc_entries c)"
    "set xs = bucket_slots (tc_entries c) ?n ?b"
    by (rule index_chain [OF ok b])
  have slot: "slot \<in> set xs" using False s xs(4) by (simp add: bucket_slots_def live_def bucket_of_def)
  have other: "\<exists>ys. chain (tc_next c) (tc_buckets c ! b') ys \<and> distinct ys \<and> set ys = bucket_slots (tc_entries c) ?n b' - {slot}
      \<and> set ys \<inter> set xs = {}" if b': "b' < ?n" "b' \<noteq> ?b" for b'
  proof -
    obtain ys where ys: "chain (tc_next c) (tc_buckets c ! b') ys" "distinct ys" "length ys \<le> length (tc_entries c)"
      "set ys = bucket_slots (tc_entries c) ?n b'"
      by (rule index_chain [OF ok b'(1)])
    moreover have "set ys \<inter> set xs = {}" using ys(4) xs(4) b'(2) by (auto simp: bucket_slots_def)
    ultimately show ?thesis using slot by (intro exI [of _ ys]) auto
  qed
  show ?thesis
  proof (cases "tc_buckets c ! ?b = slot")
    case True
    with slot xs(1,2) obtain rest where xs': "xs = slot # rest" by (cases xs) auto
    have c': "c' = c\<lparr>tc_buckets := (tc_buckets c)[?b := tc_next c ! slot]\<rparr>"
      using True False c' by (simp add: cache_erase_def Let_def)
    have "\<exists>zs. chain (tc_next c') (tc_buckets c' ! b') zs \<and> distinct zs \<and> set zs = bucket_slots (tc_entries c) ?n b' - {slot}"
      if b': "b' < ?n" for b'
    proof (cases "b' = ?b")
      case True
      with xs xs' b show ?thesis by (intro exI [of _ rest]) (auto simp: c')
    next
      case False
      with other [OF b' False] show ?thesis by (auto simp: c')
    qed
    then show ?thesis by (simp add: c')
  next
    case head: False
    with slot xs(1) obtain h rest where xs': "xs = h # rest" "tc_buckets c ! ?b = h" "slot \<in> set rest" by (cases xs) auto
    define links where "links = unlink_after (Suc (length (tc_entries c))) (tc_next c) h slot"
    have c': "c' = c\<lparr>tc_next := links\<rparr>"
      using head False c' xs'(2) unfolding links_def by (simp add: cache_erase_def Let_def del: unlink_after.simps)
    have unlinked: "length links = length (tc_next c) \<and> (\<forall>s. s \<notin> set (h # rest) \<longrightarrow> links ! s = tc_next c ! s)
        \<and> chain links (links ! h) (remove1 slot rest)"
    proof (rule unlink_chain [OF _ _ xs'(3) _ _ links_def])
      show "chain (tc_next c) (tc_next c ! h) rest" "distinct (h # rest)" "h < length (tc_next c)"
        using xs(1,2) xs'(1) by auto
      show "length rest \<le> Suc (length (tc_entries c))" using xs(3) xs'(1) by simp
    qed
    have "\<exists>zs. chain (tc_next c') (tc_buckets c' ! b') zs \<and> distinct zs \<and> set zs = bucket_slots (tc_entries c) ?n b' - {slot}"
      if b': "b' < ?n" for b'
    proof (cases "b' = ?b")
      case True
      have "chain links h (h # remove1 slot rest)" using unlinked xs(1) xs' by auto
      moreover have "set (h # remove1 slot rest) = bucket_slots (tc_entries c) ?n ?b - {slot}"
        using xs(2,4) xs' by auto
      moreover have "distinct (h # remove1 slot rest)" using xs(2) xs' by (auto dest: notin_set_remove1)
      ultimately show ?thesis using True xs'(2) by (intro exI [of _ "h # remove1 slot rest"]) (simp add: c')
    next
      case False
      from other [OF b' False] obtain ys where ys: "chain (tc_next c) (tc_buckets c ! b') ys" "distinct ys"
        "set ys = bucket_slots (tc_entries c) ?n b' - {slot}" "set ys \<inter> set xs = {}" by blast
      have "chain links (tc_buckets c ! b') ys"
      proof (rule chain_frame [OF ys(1)])
        show "length links = length (tc_next c)" using unlinked by blast
        have "s \<notin> set (h # rest)" if "s \<in> set ys" for s using that ys(4) xs'(1) by auto
        then show "\<forall>s \<in> set ys. links ! s = tc_next c ! s" using unlinked by blast
      qed
      with ys show ?thesis by (auto simp: c')
    qed
    then show ?thesis using unlinked by (simp add: c')
  qed
qed

lemma erase_fields [simp]:
  "tc_identity (cache_erase slot c) = tc_identity c" "tc_entries (cache_erase slot c) = tc_entries c"
  "tc_demand_slots (cache_erase slot c) = tc_demand_slots c" "tc_pinned (cache_erase slot c) = tc_pinned c"
  "tc_demand_first (cache_erase slot c) = tc_demand_first c" "tc_eviction (cache_erase slot c) = tc_eviction c"
  "tc_undo (cache_erase slot c) = tc_undo c" "tc_undo_indices (cache_erase slot c) = tc_undo_indices c"
  "tc_prior_demand (cache_erase slot c) = tc_prior_demand c" "tc_prior_first (cache_erase slot c) = tc_prior_first c"
  "tc_updating (cache_erase slot c) = tc_updating c"
  by (simp_all add: cache_erase_def Let_def)

lemma link_fields [simp]:
  "tc_identity (link_slot slot img c) = tc_identity c" "tc_entries (link_slot slot img c) = tc_entries c"
  "tc_demand_slots (link_slot slot img c) = tc_demand_slots c" "tc_pinned (link_slot slot img c) = tc_pinned c"
  "tc_demand_first (link_slot slot img c) = tc_demand_first c" "tc_eviction (link_slot slot img c) = tc_eviction c"
  "tc_undo (link_slot slot img c) = tc_undo c" "tc_undo_indices (link_slot slot img c) = tc_undo_indices c"
  "tc_prior_demand (link_slot slot img c) = tc_prior_demand c" "tc_prior_first (link_slot slot img c) = tc_prior_first c"
  "tc_updating (link_slot slot img c) = tc_updating c"
  by (simp_all add: link_slot_def Let_def)

lemma restore_fields [simp]:
  "tc_identity (cache_restore slot e c) = tc_identity c" "tc_entries (cache_restore slot e c) = (tc_entries c)[slot := e]"
  "tc_demand_slots (cache_restore slot e c) = tc_demand_slots c" "tc_pinned (cache_restore slot e c) = tc_pinned c"
  "tc_demand_first (cache_restore slot e c) = tc_demand_first c" "tc_eviction (cache_restore slot e c) = tc_eviction c"
  "tc_undo (cache_restore slot e c) = tc_undo c" "tc_undo_indices (cache_restore slot e c) = tc_undo_indices c"
  "tc_prior_demand (cache_restore slot e c) = tc_prior_demand c" "tc_prior_first (cache_restore slot e c) = tc_prior_first c"
  "tc_updating (cache_restore slot e c) = tc_updating c"
  by (simp_all add: cache_restore_def Let_def)

text \<open>A slot that is in no chain becomes the head of its bucket.\<close>

lemma link_indexed:
  assumes slot: "slot < length entries" "slot \<noteq> absent" and len: "length links = length entries" and e: "live (entries ! slot)"
    and b0: "b0 < length buckets" "te_image (entries ! slot) mod length buckets = b0"
    and old: "\<And>b. b < length buckets \<Longrightarrow> \<exists>xs. chain links (buckets ! b) xs \<and> distinct xs
       \<and> set xs = bucket_slots entries (length buckets) b \<inter> S" and "slot \<notin> S"
  shows "\<forall>b < length buckets. \<exists>xs. chain (links[slot := buckets ! b0]) (buckets[b0 := slot] ! b) xs \<and> distinct xs
       \<and> set xs = bucket_slots entries (length buckets) b \<inter> insert slot S"
proof (intro allI impI)
  fix b assume b: "b < length buckets"
  obtain xs where xs: "chain links (buckets ! b) xs" "distinct xs" "set xs = bucket_slots entries (length buckets) b \<inter> S"
    using old [OF b] by blast
  have slot_xs: "slot \<notin> set xs" using xs(3) \<open>slot \<notin> S\<close> by simp
  show "\<exists>xs. chain (links[slot := buckets ! b0]) (buckets[b0 := slot] ! b) xs \<and> distinct xs
       \<and> set xs = bucket_slots entries (length buckets) b \<inter> insert slot S"
  proof (cases "b = b0")
    case True
    have "chain (links[slot := buckets ! b0]) slot (slot # xs)"
      using chain_update [OF slot_xs xs(1)] slot len True by simp
    moreover have "set (slot # xs) = bucket_slots entries (length buckets) b \<inter> insert slot S"
      using xs(3) slot e b0 True by (auto simp: bucket_slots_def)
    moreover have "buckets[b0 := slot] ! b = slot" "distinct (slot # xs)" using True b xs(2) slot_xs by simp_all
    ultimately show ?thesis by metis
  next
    case False
    have "slot \<notin> bucket_slots entries (length buckets) b" using False b0 by (simp add: bucket_slots_def)
    then show ?thesis using xs False chain_update [OF slot_xs xs(1)] by (intro exI [of _ xs]) auto
  qed
qed

lemma restore_index_ok:
  assumes ok: "index_ok c" and s: "slot < length (tc_entries c)"
  shows "index_ok (cache_restore slot e c)"
proof -
  let ?c = "cache_erase slot c" and ?n = "length (tc_buckets c)" and ?entries = "(tc_entries c)[slot := e]"
  note erased = erase_chains [OF ok s refl]
  have remaining: "bucket_slots ?entries ?n b \<inter> - {slot} = bucket_slots (tc_entries c) ?n b - {slot}" for b
    by (auto simp: bucket_slots_def nth_update)
  have nonempty: "tc_buckets c \<noteq> []" using ok s by (auto simp: index_ok_def)
  then have nonempty': "tc_buckets ?c \<noteq> []" using erased by (metis length_0_conv)
  show ?thesis
  proof (cases "live e")
    case False
    then have "bucket_slots ?entries ?n b = bucket_slots (tc_entries c) ?n b - {slot}" for b
      by (auto simp: bucket_slots_def nth_update)
    then have "indexed ?entries (tc_next ?c) (tc_buckets ?c)" using erased by (simp add: indexed_def)
    moreover have "cache_restore slot e c = ?c\<lparr>tc_entries := ?entries\<rparr>"
      using False by (simp add: cache_restore_def Let_def live_def)
    ultimately show ?thesis using ok erased nonempty by (auto simp: index_ok_def)
  next
    case True
    let ?b = "te_image e mod ?n"
    have restored: "cache_restore slot e c = link_slot slot (te_image e) (?c\<lparr>tc_entries := ?entries\<rparr>)"
      using True by (simp add: cache_restore_def Let_def live_def)
    have "\<forall>b < length (tc_buckets ?c). \<exists>xs. chain ((tc_next ?c)[slot := tc_buckets ?c ! ?b]) ((tc_buckets ?c)[?b := slot] ! b) xs
        \<and> distinct xs \<and> set xs = bucket_slots ?entries (length (tc_buckets ?c)) b \<inter> insert slot (- {slot})"
    proof (rule link_indexed)
      show "slot \<noteq> absent" using slot_present [OF ok s] .
      show "length (tc_next ?c) = length ?entries" using erased ok by (simp add: index_ok_def)
      show "?b < length (tc_buckets ?c)" using erased nonempty by simp
      fix b assume "b < length (tc_buckets ?c)"
      with erased show "\<exists>xs. chain (tc_next ?c) (tc_buckets ?c ! b) xs \<and> distinct xs
          \<and> set xs = bucket_slots ?entries (length (tc_buckets ?c)) b \<inter> - {slot}"
        by (simp add: remaining)
    qed (use s True erased in auto)
    moreover have "insert slot (- {slot}) = UNIV" by blast
    ultimately have "indexed ?entries ((tc_next ?c)[slot := tc_buckets ?c ! ?b]) ((tc_buckets ?c)[?b := slot])"
      by (simp add: indexed_def)
    then show ?thesis
      using ok erased nonempty nonempty' by (simp add: index_ok_def restored link_slot_def Let_def bucket_of_def)
  qed
qed

section \<open>The journal of an update\<close>

lemma save_fields [simp]:
  "tc_identity (cache_save slot c) = tc_identity c" "tc_entries (cache_save slot c) = tc_entries c"
  "tc_buckets (cache_save slot c) = tc_buckets c" "tc_next (cache_save slot c) = tc_next c"
  "tc_demand_slots (cache_save slot c) = tc_demand_slots c" "tc_pinned (cache_save slot c) = tc_pinned c"
  "tc_demand_first (cache_save slot c) = tc_demand_first c" "tc_eviction (cache_save slot c) = tc_eviction c"
  "tc_prior_demand (cache_save slot c) = tc_prior_demand c" "tc_prior_first (cache_save slot c) = tc_prior_first c"
  "tc_updating (cache_save slot c) = tc_updating c"
  "length (tc_undo_indices (cache_save slot c)) = length (tc_undo_indices c)"
  by (simp_all add: cache_save_def)

lemma save_index_ok [simp]: "index_ok (cache_save slot c) = index_ok c"
  by (simp add: index_ok_def)

definition saved_slots :: "('g, 'm) thumbnail_cache \<Rightarrow> nat set" where
  "saved_slots c = fst ` set (tc_undo c)"

text \<open>The journal of \<open>c\<close> records what has to be put back to return to \<open>c0\<close>.\<close>

definition journal_ok :: "('g, 'm) thumbnail_cache \<Rightarrow> ('g, 'm) thumbnail_cache \<Rightarrow> bool" where
  "journal_ok c0 c \<longleftrightarrow> tc_updating c \<and> length (tc_entries c) = length (tc_entries c0)
     \<and> length (tc_undo_indices c) = length (tc_undo_indices c0) \<and> distinct (map fst (tc_undo c))
     \<and> saved_slots c \<subseteq> {..< length (tc_entries c0)}
     \<and> (\<forall>(s, e) \<in> set (tc_undo c). e = tc_entries c0 ! s)
     \<and> (\<forall>s < length (tc_undo_indices c0). s \<notin> saved_slots c \<longrightarrow> tc_undo_indices c ! s = absent)
     \<and> (\<forall>s < length (tc_entries c0). s \<notin> saved_slots c \<longrightarrow> tc_entries c ! s = tc_entries c0 ! s)
     \<and> tc_prior_demand c = tc_demand_slots c0 \<and> tc_prior_first c = tc_demand_first c0 \<and> tc_identity c = tc_identity c0"

lemma save_saved:
  "saved_slots (cache_save slot c) =
     (if \<not> tc_updating c \<or> tc_undo_indices c ! slot \<noteq> absent then saved_slots c else insert slot (saved_slots c))"
  by (simp add: saved_slots_def cache_save_def)

lemma save_journal:
  assumes "journal_ok c0 c" "slot < length (tc_entries c0)" "length (tc_entries c0) \<le> length (tc_undo_indices c0)"
    and "\<forall>s \<in> saved_slots c. tc_undo_indices c ! s \<noteq> absent"
  shows "journal_ok c0 (cache_save slot c) \<and> slot \<in> saved_slots (cache_save slot c)"
proof (cases "tc_undo_indices c ! slot = absent")
  case True
  then have fresh: "slot \<notin> saved_slots c" using assms(4) by blast
  have save: "cache_save slot c = c\<lparr>tc_undo_indices := (tc_undo_indices c)[slot := length (tc_undo c)],
      tc_undo := tc_undo c @ [(slot, tc_entries c ! slot)]\<rparr>"
    using True assms(1) by (simp add: cache_save_def journal_ok_def)
  have saved: "saved_slots (cache_save slot c) = insert slot (saved_slots c)" by (simp add: save saved_slots_def)
  have "tc_entries c ! slot = tc_entries c0 ! slot" using fresh assms(1,2) by (simp add: journal_ok_def)
  moreover have "distinct (map fst (tc_undo (cache_save slot c)))"
    using fresh assms(1) by (simp add: save journal_ok_def saved_slots_def)
  ultimately show ?thesis
    using assms(1-3) unfolding journal_ok_def saved by (auto simp: save nth_list_update)
next
  case False
  then have "slot \<in> saved_slots c" using assms(1-3) unfolding journal_ok_def by (metis less_le_trans)
  with False assms(1) show ?thesis by (simp add: cache_save_def)
qed

text \<open>An entry that is saved may change.\<close>

lemma journal_set:
  assumes "journal_ok c0 c" "slot \<in> saved_slots c"
    and "tc_entries c' = (tc_entries c)[slot := e]" "tc_undo c' = tc_undo c" "tc_undo_indices c' = tc_undo_indices c"
    and "tc_prior_demand c' = tc_prior_demand c" "tc_prior_first c' = tc_prior_first c" "tc_updating c' = tc_updating c"
    and "tc_identity c' = tc_identity c"
  shows "journal_ok c0 c'"
proof -
  have "saved_slots c' = saved_slots c" using assms(4) by (simp add: saved_slots_def)
  moreover have "tc_entries c' ! s = tc_entries c ! s" if "s \<notin> saved_slots c" for s
    using that assms(2,3) by (auto simp: nth_update)
  ultimately show ?thesis using assms unfolding journal_ok_def by simp
qed

text \<open>The state of a cache in an update that began in \<open>c0\<close>, and outside one.\<close>

definition in_update :: "('g, 'm) thumbnail_cache \<Rightarrow> ('g, 'm) thumbnail_cache \<Rightarrow> bool" where
  "in_update c0 c \<longleftrightarrow> journal_ok c0 c \<and> (\<forall>s \<in> saved_slots c. tc_undo_indices c ! s \<noteq> absent)"

lemma journal_size: "journal_ok c0 c \<Longrightarrow> length (tc_undo c) \<le> length (tc_entries c0)"
  using card_mono [of "{..< length (tc_entries c0)}" "saved_slots c"] distinct_card [of "map fst (tc_undo c)"]
  by (simp add: journal_ok_def saved_slots_def)

lemma in_update_save:
  assumes "index_ok c" "in_update c0 c" "slot < length (tc_entries c)"
  shows "in_update c0 (cache_save slot c) \<and> slot \<in> saved_slots (cache_save slot c)"
proof -
  have sizes: "length (tc_entries c) = length (tc_entries c0)" "length (tc_undo_indices c) = length (tc_undo_indices c0)"
    using assms(2) by (simp_all add: in_update_def journal_ok_def)
  have len: "length (tc_entries c) \<le> length (tc_undo_indices c)" "length (tc_entries c) \<le> kMaximumCards"
    using assms(1) by (simp_all add: index_ok_def)
  have "journal_ok c0 (cache_save slot c) \<and> slot \<in> saved_slots (cache_save slot c)"
    by (rule save_journal) (use assms len sizes in \<open>auto simp: in_update_def\<close>)
  moreover have "length (tc_undo c) \<noteq> absent"
    using journal_size [of c0 c] assms(2) len sizes
    by (auto simp: in_update_def absent_def kMaximumCards_def kNeighborRows_def kExploreVisibleItemCapacity_def)
  then have "tc_undo_indices (cache_save slot c) ! s \<noteq> absent" if "s \<in> saved_slots (cache_save slot c)" for s
    using that assms(2,3) len(1) by (auto simp: cache_save_def saved_slots_def in_update_def nth_update split: if_splits)
  ultimately show ?thesis by (simp add: in_update_def)
qed

lemma in_update_set:
  assumes "in_update c0 c" "slot \<in> saved_slots c"
    and "tc_entries c' = (tc_entries c)[slot := e]" "tc_undo c' = tc_undo c" "tc_undo_indices c' = tc_undo_indices c"
    and "tc_prior_demand c' = tc_prior_demand c" "tc_prior_first c' = tc_prior_first c" "tc_updating c' = tc_updating c"
    and "tc_identity c' = tc_identity c"
  shows "in_update c0 c'"
  using journal_set [OF _ assms(2-9)] assms(1,4,5) by (simp add: in_update_def saved_slots_def)

text \<open>Changes of a cache that the journal does not see.\<close>

lemma in_update_same:
  assumes "in_update c0 c" "tc_entries c' = tc_entries c" "tc_undo c' = tc_undo c" "tc_undo_indices c' = tc_undo_indices c"
    and "tc_prior_demand c' = tc_prior_demand c" "tc_prior_first c' = tc_prior_first c" "tc_updating c' = tc_updating c"
    and "tc_identity c' = tc_identity c"
  shows "in_update c0 c'"
  using assms by (simp add: in_update_def journal_ok_def saved_slots_def)

section \<open>What the operations keep\<close>

text \<open>The invariant: the table is an index of the live slots, no image has two of them, and an update that is on has
  its journal.\<close>

definition cache_ok :: "('g, 'm) thumbnail_cache option \<Rightarrow> ('g, 'm) thumbnail_cache \<Rightarrow> bool" where
  "cache_ok begun c \<longleftrightarrow> index_ok c \<and> images_unique (tc_entries c)
     \<and> (case begun of None \<Rightarrow> \<not> tc_updating c | Some c0 \<Rightarrow> in_update c0 c)"

lemma unique_set:
  assumes "images_unique entries" "live e = live (entries ! s)" "te_image e = te_image (entries ! s)"
  shows "images_unique (entries[s := e])"
proof -
  have "holds (entries[s := e]) img t \<longleftrightarrow> holds entries img t" for img t
    using assms(2,3) by (auto simp: holds_def nth_update)
  with assms(1) show ?thesis by (simp add: images_unique_def)
qed

lemma unique_fresh:
  assumes "images_unique entries" "\<nexists>s. holds entries (te_image e) s"
  shows "images_unique (entries[slot := e])"
  using assms by (auto simp: images_unique_def holds_def nth_update split: if_splits)

text \<open>Saving an entry and changing it without touching its image.\<close>

lemma save_set_ok:
  assumes ok: "cache_ok begun c" and s: "slot < length (tc_entries c)"
    and e: "live e = live (tc_entries c ! slot)" "te_image e = te_image (tc_entries c ! slot)"
  shows "cache_ok begun ((cache_save slot c)\<lparr>tc_entries := (tc_entries c)[slot := e]\<rparr>)"
proof -
  let ?c = "(cache_save slot c)\<lparr>tc_entries := (tc_entries c)[slot := e]\<rparr>"
  have "index_ok ?c"
    using ok indexed_set [of "tc_entries c" _ _ e slot] e by (auto simp: cache_ok_def index_ok_def)
  moreover have "images_unique (tc_entries ?c)"
    using ok e by (simp add: cache_ok_def unique_set)
  moreover have "in_update c0 ?c" if "begun = Some c0" for c0
  proof -
    have "in_update c0 (cache_save slot c) \<and> slot \<in> saved_slots (cache_save slot c)"
      using ok s that by (intro in_update_save) (simp_all add: cache_ok_def)
    then show ?thesis by (auto intro: in_update_set [of c0 "cache_save slot c" slot])
  qed
  ultimately show ?thesis using ok by (auto simp: cache_ok_def split: option.splits)
qed

lemma cache_ok_same:
  assumes "cache_ok begun c" "tc_entries c' = tc_entries c" "tc_next c' = tc_next c" "tc_buckets c' = tc_buckets c"
    and "length (tc_pinned c') = length (tc_pinned c)" "tc_undo c' = tc_undo c" "tc_undo_indices c' = tc_undo_indices c"
    and "tc_prior_demand c' = tc_prior_demand c" "tc_prior_first c' = tc_prior_first c" "tc_updating c' = tc_updating c"
    and "tc_identity c' = tc_identity c"
  shows "cache_ok begun c'"
  using assms in_update_same [of _ c c']
  by (auto simp: cache_ok_def index_ok_def split: option.splits)

text \<open>Giving a slot to an image that no slot has.\<close>

lemma save_restore_ok:
  assumes ok: "cache_ok begun c" and s: "slot < length (tc_entries c)" and new: "\<nexists>t. holds (tc_entries c) (te_image e) t"
  shows "cache_ok begun (cache_restore slot e (cache_save slot c))"
proof -
  have "index_ok (cache_restore slot e (cache_save slot c))"
    using ok s by (intro restore_index_ok) (simp_all add: cache_ok_def)
  moreover have "images_unique ((tc_entries c)[slot := e])"
    using ok new by (simp add: cache_ok_def unique_fresh)
  moreover have "in_update c0 (cache_restore slot e (cache_save slot c))" if "begun = Some c0" for c0
  proof -
    have "in_update c0 (cache_save slot c) \<and> slot \<in> saved_slots (cache_save slot c)"
      using ok s that by (intro in_update_save) (simp_all add: cache_ok_def)
    then show ?thesis by (auto intro: in_update_set [of c0 "cache_save slot c" slot])
  qed
  ultimately show ?thesis using ok by (auto simp: cache_ok_def split: option.splits)
qed

lemma fresh_fields [simp]: "te_image (fresh_entry img) = img" "te_position (fresh_entry img) = 0" "live (fresh_entry img)"
  "te_meaning (fresh_entry img) = None"
  by (simp_all add: fresh_entry_def vacant_entry_def live_def absent_def)

lemma evict_step:
  "evict (Suc attempts) img c =
     (let slot = tc_eviction c mod length (tc_entries c); c' = c\<lparr>tc_eviction := wrap64 (tc_eviction c + 1)\<rparr>
      in if tc_pinned c ! slot then evict attempts img c'
         else (Inr slot, cache_restore slot (fresh_entry img) (cache_save slot c')))"
  by (simp add: cache_restore_def Let_def absent_def)

lemma evict_ok:
  "cache_ok begun c \<Longrightarrow> tc_entries c \<noteq> [] \<Longrightarrow> \<nexists>t. holds (tc_entries c) img t \<Longrightarrow> evict attempts img c = (r, c') \<Longrightarrow>
     cache_ok begun c' \<and> tc_pinned c' = tc_pinned c \<and> tc_demand_slots c' = tc_demand_slots c \<and> tc_demand_first c' = tc_demand_first c
     \<and> (case r of Inl e \<Rightarrow> tc_entries c' = tc_entries c
        | Inr slot \<Rightarrow> slot < length (tc_entries c) \<and> \<not> tc_pinned c ! slot \<and> tc_entries c' = (tc_entries c)[slot := fresh_entry img])"
proof (induction attempts arbitrary: c)
  case 0
  then show ?case by auto
next
  case (Suc attempts)
  let ?slot = "tc_eviction c mod length (tc_entries c)" and ?c = "c\<lparr>tc_eviction := wrap64 (tc_eviction c + 1)\<rparr>"
  have ok: "cache_ok begun ?c" by (rule cache_ok_same [OF Suc.prems(1)]) simp_all
  show ?case
  proof (cases "tc_pinned c ! ?slot")
    case True
    then have "evict attempts img ?c = (r, c')" using Suc.prems(4) by (simp only: evict_step Let_def if_True)
    with Suc.IH [OF ok _ _ this] Suc.prems(2,3) show ?thesis by (cases r) simp_all
  next
    case False
    then have result: "r = Inr ?slot" "c' = cache_restore ?slot (fresh_entry img) (cache_save ?slot ?c)"
      using Suc.prems(4) by (simp_all only: evict_step Let_def if_False prod.inject)
    have s: "?slot < length (tc_entries c)" using Suc.prems(2) by simp
    have "cache_ok begun c'"
      unfolding result using ok s Suc.prems(3) by (intro save_restore_ok) simp_all
    with s False show ?thesis by (simp add: result)
  qed
qed

text \<open>Some slot holds the image that was assigned; it is the one it had, or one that was not pinned.\<close>

lemma assign_ok:
  assumes ok: "cache_ok begun c" and run: "cache_assign img c = (r, c')"
  shows "cache_ok begun c' \<and> tc_pinned c' = tc_pinned c \<and> tc_demand_slots c' = tc_demand_slots c
     \<and> tc_demand_first c' = tc_demand_first c
     \<and> (case r of Inl e \<Rightarrow> tc_entries c' = tc_entries c \<and> (\<nexists>s. holds (tc_entries c) img s)
        | Inr slot \<Rightarrow> holds (tc_entries c') img slot \<and>
            (tc_entries c' = tc_entries c \<or> \<not> tc_pinned c ! slot \<and> slot < length (tc_entries c)
               \<and> (\<nexists>s. holds (tc_entries c) img s) \<and> tc_entries c' = (tc_entries c)[slot := fresh_entry img]))"
proof (cases "cache_lookup img c = absent")
  case True
  have index: "index_ok c" using ok by (simp add: cache_ok_def)
  have none: "\<nexists>s. holds (tc_entries c) img s"
    using lookup_cases [OF index, of img] True slot_present [OF index] by (auto simp: holds_def)
  from run True have evict: "evict (length (tc_entries c)) img c = (r, c')" by (simp add: cache_assign_def)
  show ?thesis
  proof (cases "tc_entries c = []")
    case True
    with evict have "r = Inl (Logic_Error ''Explore cache demand exceeds retained physical slots'')" "c' = c" by auto
    with ok none True show ?thesis by simp
  next
    case False
    from evict_ok [OF ok False none evict] none show ?thesis
      by (cases r) (auto simp: holds_def)
  qed
next
  case False
  then have "r = Inr (cache_lookup img c)" "c' = c" using run by (auto simp: cache_assign_def)
  moreover have "holds (tc_entries c) img (cache_lookup img c)"
    using lookup_cases [of c img] ok False by (auto simp: cache_ok_def)
  ultimately show ?thesis using ok by simp
qed

text \<open>Admission of a demand: the loop over its images.\<close>

lemma place_image_ok:
  assumes ok: "cache_ok begun c" and at: "holds (tc_entries c) img slot" and position: "first + offset < absent"
  shows "cache_ok begun (place_image first offset slot c)"
proof -
  let ?pinned = "c\<lparr>tc_pinned := (tc_pinned c)[slot := True]\<rparr>"
  let ?entry = "(tc_entries c ! slot)\<lparr>te_position := first + offset\<rparr>"
  have s: "slot < length (tc_entries c)" "live (tc_entries c ! slot)" using at by (simp_all add: holds_def)
  have pinned: "cache_ok begun ?pinned" by (rule cache_ok_same [OF ok]) simp_all
  show ?thesis
  proof (cases "te_position (tc_entries c ! slot) = first + offset")
    case True
    then have "(tc_entries c)[slot := ?entry] = tc_entries c"
      by (metis list_update_id cache_entry.surjective cache_entry.update_convs(1))
    then show ?thesis
      using True by (intro cache_ok_same [OF ok]) (simp_all add: place_image_def Let_def)
  next
    case False
    have "cache_ok begun ((cache_save slot ?pinned)\<lparr>tc_entries := (tc_entries ?pinned)[slot := ?entry]\<rparr>)"
      using pinned s position by (intro save_set_ok) (simp_all add: live_def)
    then show ?thesis
      using False by (elim cache_ok_same) (simp_all add: place_image_def Let_def)
  qed
qed

lemma place_images_ok:
  "cache_ok begun c \<Longrightarrow> first + offset + length images \<le> absent \<Longrightarrow> place_images first offset images c = (r, c') \<Longrightarrow> cache_ok begun c'"
proof (induction images arbitrary: offset c)
  case (Cons img images)
  obtain r' d where assign: "cache_assign img c = (r', d)" by fastforce
  note ok = assign_ok [OF Cons.prems(1) assign]
  show ?case
  proof (cases r')
    case (Inl e)
    with Cons.prems(3) assign ok show ?thesis by simp
  next
    case (Inr slot)
    then have "cache_ok begun (place_image first offset slot d)"
      using ok Cons.prems(2) by (intro place_image_ok) auto
    from Cons.IH [OF this, of "offset + 1"] show ?thesis
      using Cons.prems(2,3) assign Inr by simp
  qed
qed simp

lemma length_foldl_update [simp]: "length (foldl (\<lambda>p slot. p[slot := x]) xs slots) = length xs"
  by (induction slots arbitrary: xs) simp_all

lemma length_pin_slots [simp]: "length (pin_slots slots pinned) = length pinned"
  by (simp add: pin_slots_def)

lemma admit_ok:
  assumes "cache_ok begun c" "first + length images \<le> absent"
  shows "cache_ok begun (snd (cache_admit images first c))"
proof (cases "length images > length (tc_entries c)")
  case True
  then show ?thesis using assms(1) by (simp add: cache_admit_def)
next
  case False
  let ?c = "(pin_hits images c)\<lparr>tc_demand_slots := resized (length images) 0 (tc_demand_slots (pin_hits images c)), tc_demand_first := first\<rparr>"
  have "cache_ok begun ?c" by (rule cache_ok_same [OF assms(1)]) (simp_all add: pin_hits_def)
  then show ?thesis
    using False place_images_ok [of begun ?c first 0 images] assms(2)
    by (cases "place_images first 0 images ?c") (simp add: cache_admit_def Let_def)
qed

lemma complete_ok:
  assumes "cache_ok begun c" "position < absent"
  shows "cache_ok begun (snd (cache_complete position img meaning semantic_identity bank semantic_bank c))"
proof (cases "bank > 1 \<or> semantic_bank > 1")
  case True
  then show ?thesis using assms(1) by (auto simp: cache_complete_def)
next
  case False
  obtain r d where assign: "cache_assign img c = (r, d)" by fastforce
  note ok = assign_ok [OF assms(1) assign]
  show ?thesis
  proof (cases r)
    case (Inl e)
    then show ?thesis using False assign ok by (simp add: cache_complete_def)
  next
    case (Inr slot)
    let ?e = "\<lparr>te_position = position, te_image = img, te_bank = bank, te_semantic_bank = semantic_bank,
        te_refresh_pending = False, te_meaning = meaning, te_semantic_identity = semantic_identity\<rparr>"
    have "cache_ok begun ((cache_save slot d)\<lparr>tc_entries := (tc_entries d)[slot := ?e]\<rparr>)"
      using ok Inr assms(2) by (intro save_set_ok) (auto simp: holds_def live_def)
    then show ?thesis using False assign Inr by (simp add: cache_complete_def Let_def)
  qed
qed

lemma update_semantics_ok:
  assumes "cache_ok begun c"
  shows "cache_ok begun (snd (update_semantics position semantic_identity semantic_bank c))"
proof -
  let ?slot = "slot_of position c"
  let ?e = "(tc_entries c ! ?slot)\<lparr>te_semantic_identity := semantic_identity, te_semantic_bank := semantic_bank\<rparr>"
  have "cache_ok begun ((cache_save ?slot c)\<lparr>tc_entries := (tc_entries c)[?slot := ?e]\<rparr>)" if "?slot < length (tc_entries c)"
    by (rule save_set_ok [OF assms that]) (simp_all add: live_def)
  then show ?thesis using assms by (simp add: update_semantics_def Let_def)
qed

section \<open>Rolling an update back\<close>

text \<open>The operations that a caller may run in an update; one that throws leaves what it did before.\<close>

datatype 'm cache_operation =
    Admit_Demand "nat list" nat
  | Complete_Tile nat nat "'m option" nat nat nat
  | Update_Semantics nat nat nat

fun run_operation :: "'m cache_operation \<Rightarrow> ('g, 'm) thumbnail_cache \<Rightarrow> ('g, 'm) thumbnail_cache" where
  "run_operation (Admit_Demand images first) c = snd (cache_admit images first c)"
| "run_operation (Complete_Tile position img meaning semantic_identity bank semantic_bank) c =
     snd (cache_complete position img meaning semantic_identity bank semantic_bank c)"
| "run_operation (Update_Semantics position semantic_identity semantic_bank) c =
     snd (update_semantics position semantic_identity semantic_bank c)"

text \<open>Positions are below the sentinel.\<close>

fun positions_below :: "'m cache_operation \<Rightarrow> bool" where
  "positions_below (Admit_Demand images first) = (first + length images \<le> absent)"
| "positions_below (Complete_Tile position _ _ _ _ _) = (position < absent)"
| "positions_below (Update_Semantics _ _ _) = True"

lemma run_operation_ok: "cache_ok begun c \<Longrightarrow> positions_below op \<Longrightarrow> cache_ok begun (run_operation op c)"
  by (cases op) (simp_all add: admit_ok complete_ok update_semantics_ok)

lemma run_operations_ok:
  "cache_ok begun c \<Longrightarrow> list_all positions_below ops \<Longrightarrow> cache_ok begun (fold run_operation ops c)"
  by (induction ops arbitrary: c) (simp_all add: run_operation_ok)

definition idle :: "('g, 'm) thumbnail_cache \<Rightarrow> bool" where
  "idle c \<longleftrightarrow> cache_ok None c \<and> tc_undo c = [] \<and> (\<forall>i \<in> set (tc_undo_indices c). i = absent)"

lemma begin_in_update:
  assumes "idle c0" "begin_update c0 = (None, c)"
  shows "cache_ok (Some c0) c"
proof -
  from assms(2) have c: "c = c0\<lparr>tc_prior_demand := tc_demand_slots c0, tc_prior_first := tc_demand_first c0, tc_updating := True\<rparr>"
    by (auto simp: begin_update_def split: if_splits option.splits)
  have idle0: "cache_ok None c0" "tc_undo c0 = []" "\<forall>i \<in> set (tc_undo_indices c0). i = absent"
    using assms(1) by (simp_all add: idle_def)
  have "tc_undo_indices c0 ! s = absent" if "s < length (tc_undo_indices c0)" for s
    using bspec [OF idle0(3) nth_mem [OF that]] .
  then have "in_update c0 c"
    unfolding in_update_def journal_ok_def saved_slots_def c using idle0(2) by simp
  moreover have "index_ok c \<and> images_unique (tc_entries c)"
    using idle0(1) by (simp add: c cache_ok_def index_ok_def)
  ultimately show ?thesis by (simp add: cache_ok_def)
qed

lemma restore_journal:
  assumes "index_ok c" "fst ` set undo \<subseteq> {..< length (tc_entries c)}"
    and "d = foldl (\<lambda>c (slot, e). cache_restore slot e c) c undo"
  shows "index_ok d \<and> tc_entries d = foldl (\<lambda>entries (slot, e). entries[slot := e]) (tc_entries c) undo
    \<and> tc_identity d = tc_identity c \<and> tc_demand_slots d = tc_demand_slots c \<and> tc_pinned d = tc_pinned c
    \<and> tc_undo d = tc_undo c \<and> tc_undo_indices d = tc_undo_indices c \<and> tc_prior_demand d = tc_prior_demand c
    \<and> tc_prior_first d = tc_prior_first c"
  using assms
proof (induction undo arbitrary: c)
  case (Cons a undo)
  obtain slot e where a: "a = (slot, e)" by (cases a)
  have "index_ok (cache_restore slot e c)" using Cons.prems(1,2) a by (intro restore_index_ok) auto
  from Cons.IH [OF this] Cons.prems(2,3) a show ?case by simp
qed simp

lemma put_back:
  assumes "length entries = length entries0" "\<forall>(s, e) \<in> set undo. e = entries0 ! s"
    and "\<forall>s < length entries0. s \<notin> fst ` set undo \<longrightarrow> entries ! s = entries0 ! s"
  shows "foldl (\<lambda>entries (slot, e). entries[slot := e]) entries undo = entries0"
  using assms
proof (induction undo arbitrary: entries)
  case Nil
  then show ?case by (intro nth_equalityI) simp_all
next
  case (Cons a undo)
  obtain slot e where a: "a = (slot, e)" by (cases a)
  have "foldl (\<lambda>entries (slot, e). entries[slot := e]) (entries[slot := e]) undo = entries0"
    by (rule Cons.IH) (use Cons.prems a in \<open>auto simp: nth_update\<close>)
  then show ?case by (simp add: a)
qed

lemma clear_indices:
  assumes "\<forall>s < length indices. s \<notin> fst ` set undo \<longrightarrow> indices ! s = absent"
  shows "foldl (\<lambda>indices (slot, _). indices[slot := absent]) indices undo = replicate (length indices) absent"
  using assms
proof (induction undo arbitrary: indices)
  case Nil
  then show ?case by (intro nth_equalityI) simp_all
next
  case (Cons a undo)
  obtain slot e where a: "a = (slot, e)" by (cases a)
  have "foldl (\<lambda>indices (slot, _). indices[slot := absent]) (indices[slot := absent]) undo
      = replicate (length (indices[slot := absent])) absent"
    by (rule Cons.IH) (use Cons.prems a in \<open>auto simp: nth_update\<close>)
  then show ?case by (simp add: a)
qed

lemma rolled_back:
  assumes idle: "idle c0" and ok: "cache_ok (Some c0) c"
  shows "idle (rollback_update c) \<and> tc_entries (rollback_update c) = tc_entries c0
    \<and> tc_demand_slots (rollback_update c) = tc_demand_slots c0 \<and> tc_demand_first (rollback_update c) = tc_demand_first c0
    \<and> tc_identity (rollback_update c) = tc_identity c0
    \<and> tc_pinned (rollback_update c) = pin_slots (tc_demand_slots c0) (tc_pinned c)"
proof -
  have update: "journal_ok c0 c" and index: "index_ok c" using ok by (simp_all add: cache_ok_def in_update_def)
  define d where "d = foldl (\<lambda>c (slot, e). cache_restore slot e c) c (tc_undo c)"
  have "fst ` set (tc_undo c) \<subseteq> {..< length (tc_entries c)}" using update by (simp add: journal_ok_def saved_slots_def)
  note d = restore_journal [OF index this d_def]
  have entries: "tc_entries d = tc_entries c0"
  proof -
    have "foldl (\<lambda>entries (slot, e). entries[slot := e]) (tc_entries c) (tc_undo c) = tc_entries c0"
      by (rule put_back) (use update in \<open>simp_all add: journal_ok_def saved_slots_def\<close>)
    then show ?thesis using d by simp
  qed
  have indices: "foldl (\<lambda>indices (slot, _). indices[slot := absent]) (tc_undo_indices c) (tc_undo c)
      = replicate (length (tc_undo_indices c)) absent"
    by (rule clear_indices) (use update in \<open>simp add: journal_ok_def saved_slots_def\<close>)
  have result: "rollback_update c = commit_update (d\<lparr>tc_demand_slots := tc_prior_demand d, tc_prior_demand := tc_demand_slots d,
      tc_demand_first := tc_prior_first d, tc_pinned := pin_slots (tc_prior_demand d) (tc_pinned d)\<rparr>)"
    using update unfolding rollback_update_def d_def [symmetric] by (simp add: journal_ok_def Let_def)
  have prior: "tc_prior_demand c = tc_demand_slots c0" "tc_prior_first c = tc_demand_first c0" "tc_identity c = tc_identity c0"
    using update by (simp_all add: journal_ok_def)
  have "images_unique (tc_entries c0)" using idle by (simp add: idle_def cache_ok_def)
  moreover have "index_ok (rollback_update c)"
  proof -
    have "index_ok d" "tc_undo d = tc_undo c" "tc_undo_indices d = tc_undo_indices c" using d by blast+
    then show ?thesis using indices by (simp add: result commit_update_def index_ok_def)
  qed
  ultimately have "idle (rollback_update c)"
    using d entries indices by (simp add: idle_def cache_ok_def result commit_update_def)
  then show ?thesis using d entries prior by (simp add: result commit_update_def)
qed

text \<open>What a table finds is determined by its entries.\<close>

lemma lookup_entries:
  assumes "idle c" "idle d" "tc_entries c = tc_entries d"
  shows "cache_lookup img c = cache_lookup img d"
proof -
  have c: "index_ok c" "images_unique (tc_entries c)" and d: "index_ok d" using assms by (simp_all add: idle_def cache_ok_def)
  show ?thesis
    using lookup_cases [OF c(1), of img] lookup_cases [OF d, of img] lookup_holds [OF c, of img "cache_lookup img d"] assms(3)
    by auto
qed

section \<open>A demand that fits is placed\<close>

lemma pin_fold: "s < length pinned \<Longrightarrow> foldl (\<lambda>p slot. p[slot := True]) pinned slots ! s \<longleftrightarrow> s \<in> set slots \<or> pinned ! s"
  by (induction slots arbitrary: pinned) (auto simp: nth_update)

lemma pin_slots_nth: "s < length pinned \<Longrightarrow> pin_slots slots pinned ! s \<longleftrightarrow> s \<in> set slots"
  using pin_fold [of s "map (\<lambda>_. False) pinned" slots] by (simp add: pin_slots_def)

text \<open>The search finds a slot that is not pinned within its attempts, unless its counter wraps on the way.\<close>

lemma evict_finds:
  "tc_entries c \<noteq> [] \<Longrightarrow> tc_eviction c + attempts < 2 ^ 64 \<Longrightarrow> j < attempts \<Longrightarrow>
   \<not> tc_pinned c ! ((tc_eviction c + j) mod length (tc_entries c)) \<Longrightarrow> evict attempts img c = (r, c') \<Longrightarrow>
     (\<exists>slot. r = Inr slot) \<and> tc_eviction c' \<le> tc_eviction c + attempts"
proof (induction attempts arbitrary: c j)
  case (Suc attempts)
  let ?slot = "tc_eviction c mod length (tc_entries c)" and ?c = "c\<lparr>tc_eviction := wrap64 (tc_eviction c + 1)\<rparr>"
  have step: "wrap64 (tc_eviction c + 1) = tc_eviction c + 1" using Suc.prems(2) by simp
  show ?case
  proof (cases "tc_pinned c ! ?slot")
    case True
    then obtain i where j: "j = Suc i" using Suc.prems(4) by (cases j) auto
    from True have "evict attempts img ?c = (r, c')" using Suc.prems(5) by (simp only: evict_step Let_def if_True)
    from Suc.IH [OF _ _ _ _ this, of i] Suc.prems j show ?thesis by (simp add: step)
  next
    case False
    then have result: "r = Inr ?slot" "c' = cache_restore ?slot (fresh_entry img) (cache_save ?slot ?c)"
      using Suc.prems(5) by (simp_all only: evict_step Let_def if_False prod.inject)
    then show ?thesis using step by simp
  qed
qed simp

lemma cycle_reaches:
  assumes "s < (n::nat)"
  shows "\<exists>j < n. (e + j) mod n = s"
proof -
  have below: "e mod n \<le> n" using assms by simp
  have "(e + (s + (n - e mod n)) mod n) mod n = (e mod n + (s + (n - e mod n))) mod n"
    by (simp only: mod_add_left_eq mod_add_right_eq)
  also have "e mod n + (s + (n - e mod n)) = s + n" using below by linarith
  also have "(s + n) mod n = s" using assms by simp
  finally show ?thesis using assms by (intro exI [of _ "(s + (n - e mod n)) mod n"] conjI) simp_all
qed

lemma assign_finds:
  assumes "s < length (tc_entries c)" "\<not> tc_pinned c ! s" "tc_eviction c + length (tc_entries c) < 2 ^ 64"
    and run: "cache_assign img c = (r, c')"
  shows "(\<exists>slot. r = Inr slot) \<and> tc_eviction c' \<le> tc_eviction c + length (tc_entries c)"
proof (cases "cache_lookup img c = absent")
  case True
  obtain j where j: "j < length (tc_entries c)" "(tc_eviction c + j) mod length (tc_entries c) = s"
    using cycle_reaches [OF assms(1), of "tc_eviction c"] by blast
  have "evict (length (tc_entries c)) img c = (r, c')" using run True by (simp add: cache_assign_def)
  show ?thesis
    by (rule evict_finds [OF _ assms(3) j(1) _ \<open>evict _ _ _ = _\<close>]) (use j(2) assms(1,2) in auto)
next
  case False
  then show ?thesis using run by (auto simp: cache_assign_def)
qed

text \<open>What the loop of an admission has established before the offset \<open>k\<close>, about the entries, the pins and the demand: the
  pinned slots are those that hold an image of the demand; the first \<open>k\<close> images are at their positions; and an entry that
  held an image of the demand in \<open>old\<close> has changed in its position only.\<close>

definition placed :: "nat list \<Rightarrow> nat \<Rightarrow> nat \<Rightarrow> 'm cache_entry list \<Rightarrow> 'm cache_entry list \<Rightarrow> bool list \<Rightarrow> nat list \<Rightarrow> bool" where
  "placed images first k old entries pinned demand \<longleftrightarrow>
     (\<forall>s < length entries. pinned ! s \<longrightarrow> live (entries ! s) \<and> te_image (entries ! s) \<in> set images)
   \<and> (\<forall>img \<in> set images. \<forall>s. holds entries img s \<longrightarrow> pinned ! s)
   \<and> (\<forall>j < k. holds entries (images ! j) (demand ! j) \<and> te_position (entries ! (demand ! j)) = first + j)
   \<and> (\<forall>img \<in> set images. \<forall>s. holds old img s \<longrightarrow> holds entries img s)
   \<and> (\<forall>img \<in> set images. \<forall>s. holds entries img s \<longrightarrow> (\<exists>p. entries ! s =
        (if holds old img s then old ! s else fresh_entry img)\<lparr>te_position := p\<rparr>))"

lemma holds_set:
  "holds (entries[s := e]) img t \<longleftrightarrow>
     (if t = s then s < length entries \<and> live e \<and> te_image e = img else holds entries img t)"
  by (auto simp: holds_def)

lemma placed_entry:
  "placed images first k old entries pinned demand \<Longrightarrow> img \<in> set images \<Longrightarrow> holds entries img s \<Longrightarrow>
     \<exists>p. entries ! s = (if holds old img s then old ! s else fresh_entry img)\<lparr>te_position := p\<rparr>"
  by (simp add: placed_def)

lemma placed_hit:
  assumes old: "placed images first k old entries pinned demand" and img: "img = images ! k" "k < length images"
    and unique: "distinct images" "length demand = length images" "length pinned = length entries"
    and slot: "holds entries img slot" and below: "first + k < absent"
  shows "placed images first (Suc k) old (entries[slot := (entries ! slot)\<lparr>te_position := first + k\<rparr>]) (pinned[slot := True])
    (demand[k := slot])"
proof -
  let ?e = "(entries ! slot)\<lparr>te_position := first + k\<rparr>"
  have e: "slot < length entries" "live ?e" "te_image ?e = img" using slot below by (simp_all add: holds_def live_def)
  have same: "holds (entries[slot := ?e]) i t \<longleftrightarrow> holds entries i t" for i t
    using e slot by (auto simp: holds_set) (auto simp: holds_def)
  have mem: "img \<in> set images" using img by simp
  have neq: "images ! j \<noteq> img" if "j < k" for j
    using that img unique(1) by (simp add: nth_eq_iff_index_eq)
  have at: "demand ! j \<noteq> slot" if "j < k" for j
    using old that neq [OF that] slot by (auto simp: placed_def holds_def)
  show ?thesis
    unfolding placed_def same
  proof (intro conjI)
    show "\<forall>s < length (entries[slot := ?e]). (pinned[slot := True]) ! s \<longrightarrow>
        live (entries[slot := ?e] ! s) \<and> te_image (entries[slot := ?e] ! s) \<in> set images"
      using old e mem unique(3) by (auto simp: placed_def nth_list_update)
    show "\<forall>i \<in> set images. \<forall>s. holds entries i s \<longrightarrow> (pinned[slot := True]) ! s"
      using old e unique(3) by (auto simp: placed_def nth_list_update)
    show "\<forall>j < Suc k. holds entries (images ! j) ((demand[k := slot]) ! j) \<and>
        te_position (entries[slot := ?e] ! ((demand[k := slot]) ! j)) = first + j"
    proof (intro allI impI)
      fix j assume "j < Suc k"
      then consider "j = k" | "j < k" by linarith
      then show "holds entries (images ! j) ((demand[k := slot]) ! j) \<and>
          te_position (entries[slot := ?e] ! ((demand[k := slot]) ! j)) = first + j"
      proof cases
        case 1
        then show ?thesis using slot img e(1) unique(2) by simp
      next
        case 2
        then show ?thesis using old at [OF 2] by (auto simp: placed_def)
      qed
    qed
    show "\<forall>i \<in> set images. \<forall>s. holds old i s \<longrightarrow> holds entries i s" using old by (simp add: placed_def)
    show "\<forall>i \<in> set images. \<forall>s. holds entries i s \<longrightarrow> (\<exists>p. entries[slot := ?e] ! s =
        (if holds old i s then old ! s else fresh_entry i)\<lparr>te_position := p\<rparr>)"
    proof (intro ballI allI impI)
      fix i s assume i: "i \<in> set images" "holds entries i s"
      then obtain p where p: "entries ! s = (if holds old i s then old ! s else fresh_entry i)\<lparr>te_position := p\<rparr>"
        using placed_entry [OF old] by blast
      show "\<exists>p. entries[slot := ?e] ! s = (if holds old i s then old ! s else fresh_entry i)\<lparr>te_position := p\<rparr>"
      proof (cases "s = slot")
        case True
        then show ?thesis using p e(1) by (intro exI [of _ "first + k"]) simp
      next
        case False
        then show ?thesis using p by auto
      qed
    qed
  qed
qed

text \<open>A slot that is not pinned takes an image that no slot holds.\<close>

lemma placed_miss:
  assumes old: "placed images first k old entries pinned demand" and img: "img \<in> set images" "\<nexists>s. holds entries img s"
    and slot: "slot < length entries" "\<not> pinned ! slot" and sizes: "length pinned = length entries" and k: "k \<le> length images"
  shows "placed images first k old (entries[slot := fresh_entry img]) (pinned[slot := True]) demand"
proof -
  have vacant: "\<not> holds entries i slot" if "i \<in> set images" for i using old slot(2) that by (auto simp: placed_def)
  have held: "holds (entries[slot := fresh_entry img]) i t \<longleftrightarrow> (if t = slot then i = img else holds entries i t)" for i t
    using slot(1) by (auto simp: holds_set)
  have none: "\<not> holds old img s" for s using old img by (auto simp: placed_def)
  have placed_at: "demand ! j \<noteq> slot \<and> holds entries (images ! j) (demand ! j)
      \<and> te_position (entries ! (demand ! j)) = first + j" if "j < k" for j
    using old that vacant [of "images ! j"] k by (auto simp: placed_def)
  show ?thesis
    unfolding placed_def
  proof (intro conjI)
    show "\<forall>s < length (entries[slot := fresh_entry img]). (pinned[slot := True]) ! s \<longrightarrow>
        live (entries[slot := fresh_entry img] ! s) \<and> te_image (entries[slot := fresh_entry img] ! s) \<in> set images"
      using old slot img(1) sizes by (auto simp: placed_def nth_list_update)
    show "\<forall>i \<in> set images. \<forall>s. holds (entries[slot := fresh_entry img]) i s \<longrightarrow> (pinned[slot := True]) ! s"
      using old slot sizes unfolding held by (auto simp: placed_def nth_update)
    show "\<forall>j < k. holds (entries[slot := fresh_entry img]) (images ! j) (demand ! j) \<and>
        te_position (entries[slot := fresh_entry img] ! (demand ! j)) = first + j"
    proof (intro allI impI)
      fix j assume "j < k"
      from placed_at [OF this] show "holds (entries[slot := fresh_entry img]) (images ! j) (demand ! j) \<and>
          te_position (entries[slot := fresh_entry img] ! (demand ! j)) = first + j"
        unfolding held by simp
    qed
    show "\<forall>i \<in> set images. \<forall>s. holds old i s \<longrightarrow> holds (entries[slot := fresh_entry img]) i s"
    proof (intro ballI allI impI)
      fix i s assume i: "i \<in> set images" "holds old i s"
      then have "holds entries i s" using old by (simp add: placed_def)
      then show "holds (entries[slot := fresh_entry img]) i s" using vacant [OF i(1)] unfolding held by auto
    qed
    show "\<forall>i \<in> set images. \<forall>s. holds (entries[slot := fresh_entry img]) i s \<longrightarrow> (\<exists>p. entries[slot := fresh_entry img] ! s =
        (if holds old i s then old ! s else fresh_entry i)\<lparr>te_position := p\<rparr>)"
    proof (intro ballI allI impI)
      fix i s assume i: "i \<in> set images" "holds (entries[slot := fresh_entry img]) i s"
      show "\<exists>p. entries[slot := fresh_entry img] ! s = (if holds old i s then old ! s else fresh_entry i)\<lparr>te_position := p\<rparr>"
      proof (cases "s = slot")
        case True
        then have "i = img" using i(2) by (simp add: held)
        have "fresh_entry img = (fresh_entry img)\<lparr>te_position := 0\<rparr>" by (simp add: fresh_entry_def)
        then show ?thesis using True \<open>i = img\<close> none slot(1) by (intro exI [of _ 0]) simp
      next
        case False
        then have "holds entries i s" using i(2) by (simp add: held)
        then show ?thesis using old i(1) False by (simp add: placed_def)
      qed
    qed
  qed
qed

text \<open>Some slot is free for an image that no slot holds, when the demand is not larger than the cache.\<close>

lemma unpinned_slot:
  assumes placed: "placed images first k old entries pinned demand" and unique: "images_unique entries"
    and img: "img \<in> set images" "\<nexists>s. holds entries img s" and fits: "length images \<le> length entries"
  shows "\<exists>s < length entries. \<not> pinned ! s"
proof (rule ccontr)
  assume "\<not> ?thesis"
  then have all: "holds entries (te_image (entries ! s)) s \<and> te_image (entries ! s) \<in> set images" if "s < length entries" for s
    using that placed by (auto simp: placed_def holds_def)
  have "inj_on (\<lambda>s. te_image (entries ! s)) {..< length entries}"
    using all unique unfolding inj_on_def images_unique_def by (metis lessThan_iff)
  moreover have "(\<lambda>s. te_image (entries ! s)) ` {..< length entries} \<subseteq> set images - {img}" using all img(2) by auto
  ultimately have "length entries \<le> card (set images - {img})"
    using card_inj_on_le [of _ "{..< length entries}" "set images - {img}"] by simp
  also have "\<dots> < card (set images)" using img(1) by (intro psubset_card_mono) auto
  also have "\<dots> \<le> length images" by (rule card_length)
  finally show False using fits by simp
qed

lemma place_fields:
  "tc_entries (place_image first offset slot c) = (tc_entries c)[slot := (tc_entries c ! slot)\<lparr>te_position := first + offset\<rparr>]"
  "tc_pinned (place_image first offset slot c) = (tc_pinned c)[slot := True]"
  "tc_demand_slots (place_image first offset slot c) = (tc_demand_slots c)[offset := slot]"
  "tc_demand_first (place_image first offset slot c) = tc_demand_first c"
  "tc_eviction (place_image first offset slot c) = tc_eviction c"
  by (simp_all add: place_image_def Let_def)

lemma place_step:
  assumes ok: "cache_ok begun c" and old: "placed images first k old (tc_entries c) (tc_pinned c) (tc_demand_slots c)"
    and k: "k < length images" and sizes: "length (tc_demand_slots c) = length images" "length images \<le> length (tc_entries c)"
    and distinct: "distinct images" and below: "first + k < absent"
    and counter: "tc_eviction c + length (tc_entries c) < 2 ^ 64"
    and run: "cache_assign (images ! k) c = (r, d)"
  shows "\<exists>slot. r = Inr slot \<and> cache_ok begun (place_image first k slot d)
     \<and> placed images first (Suc k) old (tc_entries (place_image first k slot d)) (tc_pinned (place_image first k slot d))
         (tc_demand_slots (place_image first k slot d))
     \<and> length (tc_demand_slots (place_image first k slot d)) = length images
     \<and> tc_demand_first (place_image first k slot d) = tc_demand_first c
     \<and> length (tc_entries (place_image first k slot d)) = length (tc_entries c)
     \<and> tc_eviction (place_image first k slot d) \<le> tc_eviction c + length (tc_entries c)"
proof -
  let ?img = "images ! k"
  have index: "index_ok c" and unique: "images_unique (tc_entries c)" using ok by (simp_all add: cache_ok_def)
  have pins: "length (tc_pinned c) = length (tc_entries c)" using index by (simp add: index_ok_def)
  have mem: "?img \<in> set images" using k by simp
  note assigned = assign_ok [OF ok run]
  obtain slot where slot: "r = Inr slot" and eviction: "tc_eviction d \<le> tc_eviction c + length (tc_entries c)"
  proof (cases "\<exists>s. holds (tc_entries c) ?img s")
    case True
    then obtain s where s: "holds (tc_entries c) ?img s" by blast
    then have "cache_lookup ?img c \<noteq> absent"
      using lookup_holds [OF index unique s] slot_present [OF index, of s] by (simp add: holds_def)
    then show ?thesis using that run by (auto simp: cache_assign_def)
  next
    case False
    then obtain s where "s < length (tc_entries c)" "\<not> tc_pinned c ! s"
      using unpinned_slot [OF old unique mem _ sizes(2)] by blast
    from assign_finds [OF this counter run] that show ?thesis by blast
  qed
  have held: "holds (tc_entries d) ?img slot" using assigned slot by simp
  have step: "placed images first k old (tc_entries d) ((tc_pinned c)[slot := True]) (tc_demand_slots c)"
  proof (cases "holds (tc_entries c) ?img slot")
    case True
    then have "tc_entries d = tc_entries c" using assigned slot by auto
    moreover have "tc_pinned c ! slot" using old True mem by (auto simp: placed_def)
    then have "(tc_pinned c)[slot := True] = tc_pinned c" by (metis list_update_id)
    ultimately show ?thesis using old by simp
  next
    case False
    then have miss: "\<not> tc_pinned c ! slot" "slot < length (tc_entries c)" "\<nexists>s. holds (tc_entries c) ?img s"
      "tc_entries d = (tc_entries c)[slot := fresh_entry ?img]"
      using assigned slot held by auto
    show ?thesis
      unfolding miss(4) by (rule placed_miss [OF old mem miss(3,2,1) pins]) (use k in simp)
  qed
  have same_length: "length (tc_entries d) = length (tc_entries c)" using assigned slot by auto
  have "placed images first (Suc k) old ((tc_entries d)[slot := (tc_entries d ! slot)\<lparr>te_position := first + k\<rparr>])
      ((tc_pinned c)[slot := True, slot := True]) ((tc_demand_slots c)[k := slot])"
    by (rule placed_hit [OF step refl k distinct sizes(1) _ held below]) (simp add: pins same_length)
  moreover have "cache_ok begun (place_image first k slot d)"
    using assigned slot below by (intro place_image_ok) auto
  ultimately show ?thesis
    using assigned slot eviction sizes(1) same_length by (intro exI [of _ slot]) (simp add: place_fields)
qed

lemma place_loop:
  "cache_ok begun c \<Longrightarrow> placed images first k old (tc_entries c) (tc_pinned c) (tc_demand_slots c) \<Longrightarrow>
   k \<le> length images \<Longrightarrow> rest = drop k images \<Longrightarrow> length (tc_demand_slots c) = length images \<Longrightarrow>
   length images \<le> length (tc_entries c) \<Longrightarrow> distinct images \<Longrightarrow> first + length images \<le> absent \<Longrightarrow>
   tc_eviction c + length rest * length (tc_entries c) < 2 ^ 64 \<Longrightarrow> place_images first k rest c = (r, c') \<Longrightarrow>
     r = None \<and> cache_ok begun c' \<and> tc_demand_first c' = tc_demand_first c
     \<and> placed images first (length images) old (tc_entries c') (tc_pinned c') (tc_demand_slots c')
     \<and> length (tc_demand_slots c') = length images"
proof (induction rest arbitrary: c k)
  case Nil
  then have "k = length images" by simp
  with Nil show ?case by simp
next
  case (Cons img rest)
  have k: "k < length images" using Cons.prems(3,4) by (metis drop_all le_neq_implies_less list.distinct(1) order_refl)
  then have img: "img = images ! k" "rest = drop (Suc k) images"
    using Cons.prems(4) by (metis Cons_nth_drop_Suc list.inject)+
  obtain r' d where run: "cache_assign (images ! k) c = (r', d)" by fastforce
  have bounds: "first + k < absent" "tc_eviction c + length (tc_entries c) < 2 ^ 64" using k Cons.prems(8,9) by simp_all
  obtain slot where slot: "r' = Inr slot" and
    next_ok: "cache_ok begun (place_image first k slot d)"
      "placed images first (Suc k) old (tc_entries (place_image first k slot d)) (tc_pinned (place_image first k slot d))
         (tc_demand_slots (place_image first k slot d))"
      "length (tc_demand_slots (place_image first k slot d)) = length images"
      "tc_demand_first (place_image first k slot d) = tc_demand_first c"
      "length (tc_entries (place_image first k slot d)) = length (tc_entries c)"
      "tc_eviction (place_image first k slot d) \<le> tc_eviction c + length (tc_entries c)"
    using place_step [OF Cons.prems(1,2) k Cons.prems(5,6,7) bounds run] by blast
  have "place_images first (Suc k) rest (place_image first k slot d) = (r, c')"
    using Cons.prems(10) run slot img(1) by simp
  moreover have "tc_eviction (place_image first k slot d) + length rest * length (tc_entries (place_image first k slot d)) < 2 ^ 64"
    using next_ok(5,6) Cons.prems(9) by simp
  ultimately show ?case
    using Cons.IH [OF next_ok(1,2) _ img(2) next_ok(3)] k Cons.prems(6,7,8) next_ok(4,5) by simp
qed

lemma placed_start:
  assumes ok: "cache_ok begun c" and pinned: "tc_pinned d = tc_pinned (pin_hits images c)"
  shows "placed images first 0 (tc_entries c) (tc_entries c) (tc_pinned d) demand"
proof -
  have index: "index_ok c" and unique: "images_unique (tc_entries c)" using ok by (simp_all add: cache_ok_def)
  have pin: "tc_pinned d ! s \<longleftrightarrow> s \<noteq> absent \<and> (\<exists>img \<in> set images. cache_lookup img c = s)" if "s < length (tc_entries c)" for s
    using that index by (auto simp: pinned pin_hits_def pin_slots_nth index_ok_def)
  have hit: "live (tc_entries c ! s) \<and> te_image (tc_entries c ! s) \<in> set images"
    if s: "s < length (tc_entries c)" "tc_pinned d ! s" for s
  proof -
    obtain img where "img \<in> set images" "cache_lookup img c = s" "s \<noteq> absent" using pin [OF s(1)] s(2) by blast
    then show ?thesis using lookup_cases [OF index, of img] by (auto simp: holds_def)
  qed
  have "tc_pinned d ! s" if "img \<in> set images" "holds (tc_entries c) img s" for img s
  proof -
    have "s < length (tc_entries c)" using that(2) by (simp add: holds_def)
    then show ?thesis using lookup_holds [OF index unique that(2)] that(1) pin slot_present [OF index] by blast
  qed
  moreover have "\<exists>p. tc_entries c ! s = (tc_entries c ! s)\<lparr>te_position := p\<rparr>" for s
    by (intro exI [of _ "te_position (tc_entries c ! s)"]) simp
  ultimately show ?thesis using hit by (simp add: placed_def)
qed

lemma admit_run:
  assumes ok: "cache_ok begun c" and images: "distinct images" "length images \<le> length (tc_entries c)"
    and below: "first + length images \<le> absent" and counter: "tc_eviction c + length images * length (tc_entries c) < 2 ^ 64"
  shows "\<exists>c'. cache_admit images first c = (None, c') \<and> cache_ok begun c' \<and> tc_demand_first c' = first
     \<and> length (tc_demand_slots c') = length images
     \<and> placed images first (length images) (tc_entries c) (tc_entries c') (tc_pinned c') (tc_demand_slots c')"
proof -
  let ?d = "(pin_hits images c)\<lparr>tc_demand_slots := resized (length images) 0 (tc_demand_slots (pin_hits images c)), tc_demand_first := first\<rparr>"
  obtain r c' where run: "place_images first 0 images ?d = (r, c')" by fastforce
  have d: "cache_ok begun ?d" by (rule cache_ok_same [OF ok]) (simp_all add: pin_hits_def)
  have start: "placed images first 0 (tc_entries c) (tc_entries ?d) (tc_pinned ?d) (tc_demand_slots ?d)"
    using placed_start [OF ok, of ?d] by (simp add: pin_hits_def)
  have "r = None \<and> cache_ok begun c' \<and> tc_demand_first c' = tc_demand_first ?d
     \<and> placed images first (length images) (tc_entries c) (tc_entries c') (tc_pinned c') (tc_demand_slots c')
     \<and> length (tc_demand_slots c') = length images"
    by (rule place_loop [OF d start _ _ _ _ images(1) below _ run])
      (use images(2) counter in \<open>simp_all add: pin_hits_def resized_def\<close>)
  moreover have "cache_admit images first c = place_images first 0 images ?d"
    using images(2) by (simp add: cache_admit_def Let_def)
  ultimately show ?thesis using run by auto
qed

text \<open>What a demand that is admitted can rely on: the position of each of its images, the slot behind each position, and
  that pixels which were retained still are.\<close>

lemma placed_image:
  assumes ok: "cache_ok begun c" "cache_ok begun c'" and k: "k < length images"
    and placed: "placed images first (length images) (tc_entries c) (tc_entries c') (tc_pinned c') (tc_demand_slots c')"
  shows "cache_position (images ! k) c' = first + k \<and> cache_lookup (images ! k) c' = tc_demand_slots c' ! k
     \<and> cache_retained (images ! k) c' = map_option (te_position_update (\<lambda>_. first + k)) (cache_retained (images ! k) c)"
proof -
  let ?img = "images ! k" and ?s = "tc_demand_slots c' ! k"
  have c: "index_ok c" "images_unique (tc_entries c)" and c': "index_ok c'" "images_unique (tc_entries c')"
    using ok by (simp_all add: cache_ok_def)
  have at: "holds (tc_entries c') ?img ?s" "te_position (tc_entries c' ! ?s) = first + k"
    using placed k by (simp_all add: placed_def)
  have mem: "?img \<in> set images" using k by simp
  have lookup: "cache_lookup ?img c' = ?s" by (rule lookup_holds [OF c' at(1)])
  have slot: "?s \<noteq> absent" using slot_present [OF c'(1)] at(1) by (simp add: holds_def)
  have "tc_pinned c' ! ?s" using placed mem at(1) by (auto simp: placed_def)
  then have position: "cache_position ?img c' = first + k" using lookup slot at(2) by (simp add: cache_position_def)
  obtain p where p: "tc_entries c' ! ?s = (if holds (tc_entries c) ?img ?s then tc_entries c ! ?s else fresh_entry ?img)\<lparr>te_position := p\<rparr>"
    using placed_entry [OF placed mem at(1)] by blast
  with at(2) have "p = first + k" by (simp split: if_splits)
  have "cache_retained ?img c' = map_option (te_position_update (\<lambda>_. first + k)) (cache_retained ?img c)"
  proof (cases "holds (tc_entries c) ?img ?s")
    case True
    then have "cache_lookup ?img c = ?s" by (rule lookup_holds [OF c])
    then show ?thesis using True p lookup slot \<open>p = first + k\<close> by (simp add: cache_retained_def Let_def)
  next
    case False
    have "\<not> holds (tc_entries c) ?img s" for s
    proof
      assume s: "holds (tc_entries c) ?img s"
      then have "holds (tc_entries c') ?img s" using placed mem by (auto simp: placed_def)
      then have "s = ?s" using at(1) c'(2) by (auto simp: images_unique_def)
      with s False show False by simp
    qed
    then have "cache_lookup ?img c = absent" using lookup_cases [OF c(1), of ?img] by blast
    then show ?thesis using False p lookup slot by (simp add: cache_retained_def Let_def)
  qed
  then show ?thesis using position lookup by simp
qed

section \<open>Configuration\<close>

text \<open>Linking the slots one after the other indexes them all.\<close>

lemma reindex_fold:
  assumes "k \<le> length (tc_entries c)" "length (tc_entries c) \<le> kMaximumCards"
    and "length (tc_next c) = length (tc_entries c)" "tc_buckets c = replicate n absent" "0 < n"
    and "d = foldl reindex_slot c [0 ..< k]"
  shows "tc_entries d = tc_entries c \<and> tc_pinned d = tc_pinned c \<and> tc_undo_indices d = tc_undo_indices c \<and> tc_undo d = tc_undo c
    \<and> tc_updating d = tc_updating c \<and> tc_identity d = tc_identity c \<and> length (tc_next d) = length (tc_entries c) \<and> length (tc_buckets d) = n
    \<and> (\<forall>b < n. \<exists>xs. chain (tc_next d) (tc_buckets d ! b) xs \<and> distinct xs \<and> set xs = bucket_slots (tc_entries c) n b \<inter> {..< k})"
  using assms(1,6)
proof (induction k arbitrary: d)
  case 0
  then show ?case using assms(3,4) by simp
next
  case (Suc k)
  define c1 where "c1 = foldl reindex_slot c [0 ..< k]"
  have d: "d = reindex_slot c1 k" using Suc.prems(2) by (simp add: c1_def)
  note IH = Suc.IH [OF _ c1_def]
  have k: "k < length (tc_entries c)" using Suc.prems(1) by simp
  have k_absent: "k \<noteq> absent"
    using k assms(2) by (simp add: absent_def kMaximumCards_def kNeighborRows_def kExploreVisibleItemCapacity_def)
  show ?case
  proof (cases "te_position (tc_entries c ! k) = absent")
    case True
    then have "bucket_slots (tc_entries c) n b \<inter> {..< Suc k} = bucket_slots (tc_entries c) n b \<inter> {..< k}" for b
      by (auto simp: bucket_slots_def live_def less_Suc_eq)
    moreover have "d = c1" using True IH k by (simp add: d reindex_slot_def)
    ultimately show ?thesis using IH k by simp
  next
    case False
    let ?b = "te_image (tc_entries c ! k) mod n"
    have linked: "\<forall>b < length (tc_buckets c1). \<exists>xs. chain ((tc_next c1)[k := tc_buckets c1 ! ?b]) ((tc_buckets c1)[?b := k] ! b) xs
        \<and> distinct xs \<and> set xs = bucket_slots (tc_entries c) (length (tc_buckets c1)) b \<inter> insert k {..< k}"
    proof (rule link_indexed [OF k k_absent])
      show "live (tc_entries c ! k)" using False by (simp add: live_def)
    qed (use IH k assms(5) in auto)
    have "d = link_slot k (te_image (tc_entries c ! k)) c1" using False IH k by (simp add: d reindex_slot_def)
    moreover have "insert k {..< k} = {..< Suc k}" by auto
    ultimately show ?thesis using linked IH k by (simp add: link_slot_def Let_def bucket_of_def)
  qed
qed

lemma reindex_ok:
  assumes "length (tc_entries c) \<le> kMaximumCards"
  shows "index_ok (cache_reindex c) \<and> tc_entries (cache_reindex c) = tc_entries c \<and> tc_updating (cache_reindex c) = tc_updating c
    \<and> tc_undo (cache_reindex c) = tc_undo c \<and> tc_identity (cache_reindex c) = tc_identity c
    \<and> tc_undo_indices (cache_reindex c) = resized (length (tc_entries c)) absent (tc_undo_indices c)"
proof -
  let ?n = "length (tc_entries c)"
  let ?c = "c\<lparr>tc_buckets := replicate (2 * ?n + 1) absent, tc_next := replicate ?n absent,
              tc_pinned := resized ?n False (tc_pinned c), tc_undo_indices := resized ?n absent (tc_undo_indices c)\<rparr>"
  have reindexed: "cache_reindex c = foldl reindex_slot ?c [0 ..< ?n]" by (simp add: cache_reindex_def Let_def)
  have all: "bucket_slots (tc_entries c) m b \<inter> {..< ?n} = bucket_slots (tc_entries c) m b" for m b
    by (auto simp: bucket_slots_def)
  have run: "tc_entries (cache_reindex c) = tc_entries ?c \<and> tc_pinned (cache_reindex c) = tc_pinned ?c
    \<and> tc_undo_indices (cache_reindex c) = tc_undo_indices ?c \<and> tc_undo (cache_reindex c) = tc_undo ?c
    \<and> tc_updating (cache_reindex c) = tc_updating ?c \<and> tc_identity (cache_reindex c) = tc_identity ?c
    \<and> length (tc_next (cache_reindex c)) = length (tc_entries ?c) \<and> length (tc_buckets (cache_reindex c)) = 2 * ?n + 1
    \<and> (\<forall>b < 2 * ?n + 1. \<exists>xs. chain (tc_next (cache_reindex c)) (tc_buckets (cache_reindex c) ! b) xs \<and> distinct xs
        \<and> set xs = bucket_slots (tc_entries ?c) (2 * ?n + 1) b \<inter> {..< ?n})"
    by (rule reindex_fold [OF _ _ _ _ _ reindexed]) (use assms in simp_all)
  have sizes: "length (tc_pinned ?c) = ?n" "length (tc_undo_indices ?c) = ?n" by (simp_all add: resized_def)
  have "indexed (tc_entries (cache_reindex c)) (tc_next (cache_reindex c)) (tc_buckets (cache_reindex c))"
    using run unfolding indexed_def by (simp add: all)
  moreover have "tc_buckets (cache_reindex c) \<noteq> []" using run by (metis add_is_0 list.size(3) zero_neq_one)
  ultimately show ?thesis using run sizes assms unfolding index_ok_def by simp
qed

lemma unique_map:
  assumes "images_unique entries" "\<forall>e. live (f e) = live e \<and> te_image (f e) = te_image e"
  shows "images_unique (map f entries)"
proof -
  have "holds (map f entries) img s \<longleftrightarrow> holds entries img s" for img s
    using spec [OF assms(2), of "entries ! s"] by (cases "s < length entries") (simp_all add: holds_def)
  with assms(1) show ?thesis by (simp add: images_unique_def)
qed

lemma unique_resized:
  assumes "images_unique entries"
  shows "images_unique (resized n vacant_entry entries)"
proof -
  have "holds entries img s" if "holds (resized n vacant_entry entries) img s" for img s
    using that by (auto simp: holds_def resized_def nth_append live_def vacant_entry_def split: if_splits)
  with assms show ?thesis unfolding images_unique_def by blast
qed

lemma adopt_entries:
  assumes "images_unique (tc_entries c)"
  shows "images_unique (tc_entries (adopt_identity identity c)) \<and> length (tc_entries (adopt_identity identity c)) \<le> length (tc_entries c)
    \<and> tc_undo (adopt_identity identity c) = tc_undo c \<and> tc_undo_indices (adopt_identity identity c) = tc_undo_indices c
    \<and> tc_updating (adopt_identity identity c) = tc_updating c \<and> tc_identity (adopt_identity identity c) = identity"
proof (cases "tc_identity c = identity")
  case True
  then show ?thesis using assms by (simp add: adopt_identity_def)
next
  case False
  have "images_unique ([] :: 'a cache_entry list)" by (simp add: images_unique_def holds_def)
  moreover have "images_unique (map (te_refresh_pending_update (\<lambda>_. True)) (tc_entries c))"
    by (rule unique_map [OF assms]) (simp add: live_def)
  ultimately show ?thesis using False by (simp add: adopt_identity_def)
qed

lemma length_resized: "length (resized n x xs) = n"
  by (simp add: resized_def)

lemma configured:
  assumes "idle c" "count \<le> kMaximumCards"
  shows "\<exists>d. cache_configure count identity c = (None, d) \<and> idle d \<and> tc_identity d = identity \<and> count \<le> length (tc_entries d)"
proof (cases "tc_identity c = identity \<and> count \<le> length (tc_entries c)")
  case True
  then have "cache_configure count identity c = (None, c)" using assms(2) by (simp add: cache_configure_def)
  with True assms(1) show ?thesis by blast
next
  case False
  let ?a = "adopt_identity identity c"
  define g where "g = (if length (tc_entries ?a) < count then ?a\<lparr>tc_entries := resized count vacant_entry (tc_entries ?a)\<rparr> else ?a)"
  have c: "images_unique (tc_entries c)" "length (tc_entries c) \<le> kMaximumCards" "\<not> tc_updating c" "tc_undo c = []"
    "\<forall>i \<in> set (tc_undo_indices c). i = absent"
    using assms(1) by (simp_all add: idle_def cache_ok_def index_ok_def)
  note a = adopt_entries [OF c(1), of identity]
  have g: "images_unique (tc_entries g)" "length (tc_entries g) \<le> kMaximumCards" "\<not> tc_updating g" "tc_undo g = []"
    "tc_undo_indices g = tc_undo_indices c" "tc_identity g = identity" "count \<le> length (tc_entries g)"
    using a c assms(2) unfolding g_def by (simp_all add: unique_resized length_resized)
  have "cache_configure count identity c = (None, cache_reindex g)"
    using False assms(2) g(2) unfolding cache_configure_def g_def [symmetric] by (auto simp: Let_def g_def [symmetric] cache_reserve_def)
  moreover have "i = absent" if "i \<in> set (resized n absent (tc_undo_indices c))" for n i
    using that c(5) by (auto simp: resized_def dest: in_set_takeD)
  ultimately show ?thesis
    using reindex_ok [OF g(2)] g by (simp add: idle_def cache_ok_def)
qed

lemma empty_idle: "idle (empty_cache identity)"
  by (simp add: idle_def cache_ok_def empty_cache_def index_ok_def indexed_def images_unique_def holds_def)

section \<open>Between updates\<close>

text \<open>Outside an update nothing is saved.\<close>

definition quiet :: "('g, 'm) thumbnail_cache \<Rightarrow> ('g, 'm) thumbnail_cache \<Rightarrow> bool" where
  "quiet c d \<longleftrightarrow> \<not> tc_updating d \<and> tc_undo d = tc_undo c \<and> tc_undo_indices d = tc_undo_indices c"

lemma quiet_save: "\<not> tc_updating c \<Longrightarrow> cache_save slot c = c"
  by (simp add: cache_save_def)

lemma quiet_evict: "\<not> tc_updating c \<Longrightarrow> evict attempts img c = (r, d) \<Longrightarrow> quiet c d"
proof (induction attempts arbitrary: c)
  case (Suc attempts)
  let ?slot = "tc_eviction c mod length (tc_entries c)" and ?c = "c\<lparr>tc_eviction := wrap64 (tc_eviction c + 1)\<rparr>"
  have idle: "\<not> tc_updating ?c" using Suc.prems(1) by simp
  show ?case
  proof (cases "tc_pinned c ! ?slot")
    case True
    then have "evict attempts img ?c = (r, d)" using Suc.prems(2) by (simp only: evict_step Let_def if_True)
    from Suc.IH [OF idle this] show ?thesis by (simp add: quiet_def)
  next
    case False
    then have "d = cache_restore ?slot (fresh_entry img) (cache_save ?slot ?c)"
      using Suc.prems(2) by (simp only: evict_step Let_def if_False prod.inject)
    then show ?thesis using idle by (simp add: quiet_def quiet_save)
  qed
qed (simp add: quiet_def)

lemma quiet_assign: "\<not> tc_updating c \<Longrightarrow> cache_assign img c = (r, d) \<Longrightarrow> quiet c d"
  unfolding cache_assign_def by (auto split: if_splits dest: quiet_evict) (simp_all add: quiet_def)

lemma quiet_place: "\<not> tc_updating c \<Longrightarrow> place_images first k images c = (r, d) \<Longrightarrow> quiet c d"
proof (induction images arbitrary: k c)
  case (Cons img images)
  obtain r' c' where assign: "cache_assign img c = (r', c')" by fastforce
  note assigned = quiet_assign [OF Cons.prems(1) assign]
  show ?case
  proof (cases r')
    case (Inl e)
    then show ?thesis using assigned assign Cons.prems(2) by simp
  next
    case (Inr slot)
    have "quiet c' (place_image first k slot c')"
      using assigned by (simp add: quiet_def place_image_def Let_def quiet_save)
    moreover have "place_images first (k + 1) images (place_image first k slot c') = (r, d)"
      using assign Inr Cons.prems(2) by simp
    ultimately show ?thesis using Cons.IH assigned unfolding quiet_def by metis
  qed
qed (simp add: quiet_def)

lemma quiet_operation:
  assumes "\<not> tc_updating c"
  shows "quiet c (run_operation op c)"
proof (cases op)
  case (Admit_Demand images first)
  let ?c = "(pin_hits images c)\<lparr>tc_demand_slots := resized (length images) 0 (tc_demand_slots (pin_hits images c)), tc_demand_first := first\<rparr>"
  have "quiet ?c (snd (place_images first 0 images ?c))"
    by (rule quiet_place [of _ first 0 images "fst (place_images first 0 images ?c)"]) (use assms in \<open>simp_all add: pin_hits_def\<close>)
  then show ?thesis using assms by (simp add: Admit_Demand cache_admit_def Let_def quiet_def pin_hits_def)
next
  case (Complete_Tile position img meaning semantic_identity bank semantic_bank)
  obtain r d where assign: "cache_assign img c = (r, d)" by fastforce
  from quiet_assign [OF assms this] assms show ?thesis
    unfolding Complete_Tile by (cases r) (simp_all add: assign cache_complete_def Let_def quiet_def quiet_save)
next
  case (Update_Semantics position semantic_identity semantic_bank)
  then show ?thesis using assms by (simp add: update_semantics_def Let_def quiet_def quiet_save)
qed

lemma idle_operation:
  assumes "idle c" "positions_below op"
  shows "idle (run_operation op c)"
proof -
  have "cache_ok None (run_operation op c)" using assms by (intro run_operation_ok) (simp_all add: idle_def)
  moreover have "quiet c (run_operation op c)" using assms(1) by (intro quiet_operation) (simp add: idle_def cache_ok_def)
  ultimately show ?thesis using assms(1) by (simp add: idle_def quiet_def)
qed

lemma idle_commit:
  assumes "cache_ok (Some c0) c"
  shows "idle (commit_update c)"
proof -
  have journal: "journal_ok c0 c" using assms by (simp add: cache_ok_def in_update_def)
  have "foldl (\<lambda>indices (slot, _). indices[slot := absent]) (tc_undo_indices c) (tc_undo c)
      = replicate (length (tc_undo_indices c)) absent"
    by (rule clear_indices) (use journal in \<open>simp add: journal_ok_def saved_slots_def\<close>)
  then show ?thesis using assms by (simp add: idle_def cache_ok_def commit_update_def index_ok_def)
qed

lemma idle_clear: "idle (cache_clear identity c)" if "idle c \<or> cache_ok (Some c0) c"
proof -
  have "idle (commit_update c)"
    using that idle_commit [of c0 c] by (auto simp: idle_def cache_ok_def commit_update_def index_ok_def)
  then show ?thesis
    by (simp add: cache_clear_def idle_def cache_ok_def index_ok_def indexed_def images_unique_def holds_def)
qed

lemma configure_idle: "idle c \<Longrightarrow> idle (snd (cache_configure count identity c))"
  using configured [of c count identity] by (cases "count \<le> kMaximumCards") (auto simp: cache_configure_def)

text \<open>The caches a gallery can have outside an update: what its operations and its updates, committed or rolled back,
  make of an empty one.\<close>

inductive cache_reachable :: "('g, 'm) thumbnail_cache \<Rightarrow> bool" where
  at_first: "cache_reachable (empty_cache identity)"
| configured_as: "cache_reachable c \<Longrightarrow> cache_reachable (snd (cache_configure count identity c))"
| cleared: "cache_reachable c \<Longrightarrow> cache_reachable (cache_clear identity c)"
| operated: "cache_reachable c \<Longrightarrow> positions_below op \<Longrightarrow> cache_reachable (run_operation op c)"
| committed: "cache_reachable c \<Longrightarrow> begin_update c = (None, c1) \<Longrightarrow> list_all positions_below ops \<Longrightarrow>
    cache_reachable (commit_update (fold run_operation ops c1))"
| reverted: "cache_reachable c \<Longrightarrow> begin_update c = (None, c1) \<Longrightarrow> list_all positions_below ops \<Longrightarrow>
    cache_reachable (rollback_update (fold run_operation ops c1))"

lemma reachable_idle: "cache_reachable c \<Longrightarrow> idle c"
proof (induction rule: cache_reachable.induct)
  case (committed c c1 ops)
  then show ?case using idle_commit [OF run_operations_ok [OF begin_in_update]] by blast
next
  case (reverted c c1 ops)
  then show ?case using rolled_back [OF _ run_operations_ok [OF begin_in_update]] by blast
qed (auto simp: empty_idle idle_clear configure_idle idle_operation)

lemma min_diff: "(a::nat) \<le> b \<Longrightarrow> min m b - min m a \<le> b - a"
  by (simp add: min_def diff_le_mono)

section \<open>Properties\<close>

text \<open>The hash table of a reachable cache is an index of its entries: a lookup finds a slot exactly when that slot
  holds the image.\<close>

theorem reachable_cache_indexed:
  assumes "cache_reachable c"
  shows "holds (tc_entries c) img s \<longleftrightarrow> s \<noteq> absent \<and> cache_lookup img c = s"
proof -
  have ok: "index_ok c" "images_unique (tc_entries c)" using reachable_idle [OF assms] by (simp_all add: idle_def cache_ok_def)
  show ?thesis
    using lookup_holds [OF ok, of img s] lookup_cases [OF ok(1), of img] slot_present [OF ok(1), of s]
    by (auto simp: holds_def)
qed

text \<open>C25: An update that is rolled back, whatever it did, leaves the entries, the demand and every lookup as they were.\<close>

theorem update_rolls_back:
  assumes "idle c0" "begin_update c0 = (None, c1)" "list_all positions_below ops"
    and c2: "c2 = rollback_update (fold run_operation ops c1)"
  shows "idle c2 \<and> tc_entries c2 = tc_entries c0 \<and> tc_demand_slots c2 = tc_demand_slots c0
    \<and> tc_demand_first c2 = tc_demand_first c0 \<and> tc_identity c2 = tc_identity c0
    \<and> cache_lookup img c2 = cache_lookup img c0 \<and> cache_find img c2 = cache_find img c0"
proof -
  have "cache_ok (Some c0) (fold run_operation ops c1)"
    using begin_in_update [OF assms(1,2)] assms(3) by (rule run_operations_ok)
  note restored = rolled_back [OF assms(1) this, folded c2]
  then have "cache_lookup img c2 = cache_lookup img c0" by (intro lookup_entries) (use assms(1) in simp_all)
  with restored show ?thesis by (simp add: cache_find_def cache_retained_def Let_def)
qed

text \<open>A demand that fits is admitted: each image gets the position it has in the demand, the slot behind the position is
  where the image is found, and the pixels that were retained for it still are.\<close>

theorem admitted_demand_is_placed:
  assumes "cache_ok begun c" "distinct images" "length images \<le> length (tc_entries c)" "first + length images \<le> absent"
    and "tc_eviction c + length images * length (tc_entries c) < 2 ^ 64"
  shows "\<exists>c'. cache_admit images first c = (None, c') \<and> cache_ok begun c' \<and> (\<forall>k < length images.
     cache_position (images ! k) c' = first + k \<and> slot_of (first + k) c' = cache_lookup (images ! k) c'
     \<and> cache_retained (images ! k) c' = map_option (te_position_update (\<lambda>_. first + k)) (cache_retained (images ! k) c))"
proof -
  obtain c' where c': "cache_admit images first c = (None, c')" "cache_ok begun c'" "tc_demand_first c' = first"
    "placed images first (length images) (tc_entries c) (tc_entries c') (tc_pinned c') (tc_demand_slots c')"
    using admit_run [OF assms] by blast
  have "slot_of (first + k) c' = tc_demand_slots c' ! k" if "k < length images" for k
    using that assms(4) c'(3) by (simp add: slot_of_def sub64_eq absent_def)
  with c' placed_image [OF assms(1) c'(2) _ c'(4)] show ?thesis by (intro exI [of _ c']) simp
qed

text \<open>The window of a valid viewport is made of the matching positions whose rows are the visible ones or within four of
  them, and it never has more positions than the cache may have slots.\<close>

theorem window_positions:
  assumes "0 < vp_row_count v" "0 < vp_columns v" "vp_row_count v * vp_columns v \<le> kExploreVisibleItemCapacity"
    and "vp_first_row v \<le> u32_max" "matching \<le> size_max"
  shows "window_count matching v \<le> kMaximumCards
    \<and> (window_first matching v \<le> p \<and> p < window_first matching v + window_count matching v \<longleftrightarrow>
         p < matching \<and> vp_first_row v \<le> p div vp_columns v + kNeighborRows
         \<and> p div vp_columns v < vp_first_row v + vp_row_count v + kNeighborRows)"
proof -
  define cols rows f where "cols = vp_columns v" and "rows = vp_row_count v" and "f = vp_first_row v"
  define lo where "lo = f - kNeighborRows"
  have small: "cols \<le> 256" "rows \<le> 256" "rows * cols \<le> 256" "0 < cols"
  proof -
    show prod: "rows * cols \<le> 256" and "0 < cols"
      using assms by (simp_all add: cols_def rows_def kExploreVisibleItemCapacity_def)
    have one: "1 \<le> rows" "1 \<le> cols" using assms by (simp_all add: cols_def rows_def)
    have "1 * cols \<le> rows * cols" "rows * 1 \<le> rows * cols"
      by (rule mult_le_mono1 [OF one(1)], rule mult_le_mono2 [OF one(2)])
    with prod show "cols \<le> 256" "rows \<le> 256" by linarith+
  qed
  have "(f + rows + kNeighborRows) * cols \<le> (u32_max + 256 + 4) * 256"
    using assms(4) small by (intro mult_le_mono) (simp_all add: f_def kNeighborRows_def)
  then have nowrap: "wrap64 ((f + rows + kNeighborRows) * cols) = (f + rows + kNeighborRows) * cols" by simp
  have first: "window_first matching v = min matching (lo * cols)"
    by (simp add: window_first_def lo_def f_def cols_def Let_def)
  have ordered: "lo * cols \<le> (f + rows + kNeighborRows) * cols" by (intro mult_le_mono) (simp_all add: lo_def)
  have count: "window_count matching v = min matching ((f + rows + kNeighborRows) * cols) - min matching (lo * cols)"
  proof -
    have "window_count matching v = sub64 (min matching (wrap64 ((f + rows + kNeighborRows) * cols))) (min matching (lo * cols))"
      unfolding window_count_def first Let_def by (simp add: f_def rows_def cols_def)
    also have "\<dots> = min matching ((f + rows + kNeighborRows) * cols) - min matching (lo * cols)"
      unfolding nowrap by (rule sub64_eq, rule min.mono [OF order_refl ordered]) (use assms(5) in simp)
    finally show ?thesis .
  qed
  have "(f + rows + kNeighborRows) * cols \<le> (lo + (rows + 2 * kNeighborRows)) * cols"
    by (intro mult_le_mono) (simp_all add: lo_def)
  also have "\<dots> = lo * cols + (rows * cols + 8 * cols)" by (simp add: kNeighborRows_def algebra_simps)
  finally have "(f + rows + kNeighborRows) * cols - lo * cols \<le> 256 + 8 * 256" using small by linarith
  then have bounded: "window_count matching v \<le> kMaximumCards"
    using order_trans [OF min_diff [OF ordered, of matching]]
    by (simp add: count kMaximumCards_def kExploreVisibleItemCapacity_def kNeighborRows_def)
  have rows_of: "lo \<le> p div cols \<longleftrightarrow> lo * cols \<le> p"
    "p div cols < f + rows + kNeighborRows \<longleftrightarrow> p < (f + rows + kNeighborRows) * cols"
    using small(4) by (simp_all add: less_eq_div_iff_mult_less_eq div_less_iff_less_mult)
  have "window_first matching v \<le> p \<and> p < window_first matching v + window_count matching v \<longleftrightarrow>
      p < matching \<and> lo * cols \<le> p \<and> p < (f + rows + kNeighborRows) * cols"
    unfolding first count using ordered by (auto simp: min_def)
  moreover have "lo \<le> p div cols \<longleftrightarrow> f \<le> p div cols + kNeighborRows" by (auto simp: lo_def)
  ultimately show ?thesis using bounded rows_of unfolding f_def cols_def rows_def by simp
qed

section \<open>Instances\<close>

definition some_identity :: "unit cache_identity" where
  "some_identity = \<lparr>ci_incarnation = Some 1, ci_dataset = 1, ci_seed = 0, ci_augmentation = (), ci_extent = 64, ci_augmented = False\<rparr>"

definition two_slots :: "(unit, bool) thumbnail_cache" where
  "two_slots = snd (cache_configure 2 some_identity (empty_cache some_identity))"

text \<open>The images 7 and 12 are in the same of the five buckets.\<close>

definition two_images :: "(unit, bool) thumbnail_cache" where
  "two_images = run_operation (Admit_Demand [7, 12] 0) two_slots"

lemma absent_neq [simp]: "absent \<noteq> 0" "absent \<noteq> 1" "absent \<noteq> Suc 0" "0 \<noteq> absent" "1 \<noteq> absent" "Suc 0 \<noteq> absent"
  by (simp_all add: absent_def)

lemma two_slots_value:
  "two_slots = \<lparr>tc_identity = some_identity, tc_entries = [vacant_entry, vacant_entry],
     tc_buckets = [absent, absent, absent, absent, absent],
     tc_next = [absent, absent], tc_demand_slots = [], tc_pinned = [False, False], tc_demand_first = 0, tc_eviction = 0,
     tc_undo = [], tc_undo_indices = [absent, absent], tc_prior_demand = [], tc_prior_first = 0, tc_updating = False\<rparr>"
  by (simp add: two_slots_def cache_configure_def empty_cache_def adopt_identity_def resized_def cache_reserve_def cache_reindex_def
      Let_def kMaximumCards_def kNeighborRows_def kExploreVisibleItemCapacity_def numeral_2_eq_2 reindex_slot_def vacant_entry_def)

lemma two_images_value:
  "two_images = \<lparr>tc_identity = some_identity, tc_entries = [(fresh_entry 7)\<lparr>te_position := 0\<rparr>, (fresh_entry 12)\<lparr>te_position := 1\<rparr>],
     tc_buckets = [absent, absent, 1, absent, absent],
     tc_next = [absent, 0], tc_demand_slots = [0, 1], tc_pinned = [True, True], tc_demand_first = 0, tc_eviction = 2,
     tc_undo = [], tc_undo_indices = [absent, absent], tc_prior_demand = [], tc_prior_first = 0, tc_updating = False\<rparr>"
  apply (simp add: two_images_def two_slots_value cache_admit_def pin_hits_def pin_slots_def resized_def Let_def cache_lookup_def
      bucket_of_def numeral_2_eq_2)
  apply (simp add: cache_assign_def cache_lookup_def bucket_of_def numeral_2_eq_2 Let_def cache_erase_def cache_save_def link_slot_def
      fresh_entry_def vacant_entry_def place_image_def)
  done

lemma two_images_reachable: "cache_reachable two_images"
proof -
  have "cache_reachable two_slots" unfolding two_slots_def by (intro cache_reachable.intros)
  then show ?thesis unfolding two_images_def by (rule operated) (simp add: absent_def)
qed

theorem reachable_cache_indexed_witness:
  "cache_lookup 12 two_images = 1 \<and> cache_lookup 7 two_images = 0 \<and> cache_lookup 9 two_images = absent"
proof -
  note indexed = reachable_cache_indexed [OF two_images_reachable]
  have "holds (tc_entries two_images) 12 1" "holds (tc_entries two_images) 7 0"
    by (simp_all add: two_images_value holds_def live_def)
  moreover have "\<not> holds (tc_entries two_images) 9 s" for s
    by (cases "s = 0"; cases "s = 1") (simp_all add: two_images_value holds_def)
  ultimately show ?thesis using indexed [of 12 1] indexed [of 7 0] indexed [of 9 "cache_lookup 9 two_images"] by simp
qed

definition some_operations :: "bool cache_operation list" where
  "some_operations = [Admit_Demand [30] 5, Complete_Tile 5 30 (Some True) 3 1 0, Update_Semantics 5 4 1]"

theorem update_rolls_back_witness:
  "let c = rollback_update (fold run_operation some_operations (snd (begin_update two_images)))
   in tc_entries c = tc_entries two_images \<and> tc_demand_slots c = [0, 1] \<and> cache_lookup 12 c = cache_lookup 12 two_images"
proof -
  have "idle two_images" by (rule reachable_idle [OF two_images_reachable])
  moreover have "begin_update two_images = (None, snd (begin_update two_images))"
    by (simp add: two_images_value begin_update_def cache_reserve_def kMaximumCards_def kNeighborRows_def
        kExploreVisibleItemCapacity_def)
  moreover have "list_all positions_below some_operations" by (simp add: some_operations_def absent_def)
  ultimately have "tc_entries (rollback_update (fold run_operation some_operations (snd (begin_update two_images)))) = tc_entries two_images
      \<and> tc_demand_slots (rollback_update (fold run_operation some_operations (snd (begin_update two_images)))) = tc_demand_slots two_images
      \<and> cache_lookup 12 (rollback_update (fold run_operation some_operations (snd (begin_update two_images)))) = cache_lookup 12 two_images"
    using update_rolls_back [OF _ _ _ refl] by blast
  then show ?thesis by (simp add: Let_def two_images_value)
qed

theorem admitted_demand_is_placed_witness:
  "cache_position 12 (snd (cache_admit [12, 30] 5 two_images)) = 5 \<and> cache_position 30 (snd (cache_admit [12, 30] 5 two_images)) = 6"
proof -
  have "cache_ok None two_images" using reachable_idle [OF two_images_reachable] by (simp add: idle_def)
  moreover have "distinct [12, 30 :: nat]" "length [12, 30 :: nat] \<le> length (tc_entries two_images)"
    "5 + length [12, 30 :: nat] \<le> absent" "tc_eviction two_images + length [12, 30 :: nat] * length (tc_entries two_images) < 2 ^ 64"
    by (simp_all add: two_images_value absent_def)
  ultimately obtain c where c: "cache_admit [12, 30] 5 two_images = (None, c)"
    "\<forall>k < length [12, 30 :: nat]. cache_position ([12, 30] ! k) c = 5 + k"
    using admitted_demand_is_placed by blast
  then show ?thesis using spec [OF c(2), of 0] spec [OF c(2), of 1] by simp
qed

theorem window_positions_witness:
  "window_first 1000 \<lparr>vp_first_row = 10, vp_row_count = 4, vp_columns = 8\<rparr> \<le> 48
   \<and> 48 < window_first 1000 \<lparr>vp_first_row = 10, vp_row_count = 4, vp_columns = 8\<rparr>
       + window_count 1000 \<lparr>vp_first_row = 10, vp_row_count = 4, vp_columns = 8\<rparr>"
  using window_positions [of "\<lparr>vp_first_row = 10, vp_row_count = 4, vp_columns = 8\<rparr>" 1000 48]
  by (simp add: kExploreVisibleItemCapacity_def kNeighborRows_def)

end
