(* ===== verification/Assignment_Solver.thy ===== *)
theory Assignment_Solver
  imports Prelude
begin

text \<open>
  The solver of the rectangular assignment problem (\<open>src/backend/models/rfdetr/core/scipy_rectangular_lsap.cpp\<close>),
  which matches predictions with targets: a shortest augmenting path for each row, with dual variables.

  The arithmetic of \<open>double\<close> is a parameter, a record of its constants and operations: the theorems of this theory hold
  whatever it computes, rounding included, if infinity is equal to itself. A \<open>std::intptr_t\<close> index that is \<open>-1\<close> until it
  is set is an option. Reading such an index would be undefined behaviour of the code; there the model has no result.
\<close>

section \<open>State\<close>

record 'f arithmetic =
  ar_zero :: 'f
  ar_infinity :: 'f
  ar_add :: "'f \<Rightarrow> 'f \<Rightarrow> 'f"
  ar_sub :: "'f \<Rightarrow> 'f \<Rightarrow> 'f"
  ar_neg :: "'f \<Rightarrow> 'f"
  ar_less :: "'f \<Rightarrow> 'f \<Rightarrow> bool"
  ar_eq :: "'f \<Rightarrow> 'f \<Rightarrow> bool"

datatype lsap_status = Lsap_Ok | Lsap_Infeasible | Lsap_Invalid

text \<open>The vectors of the workspace that live across rows, and those of one search.\<close>

record 'f lsap_state =
  ls_row_duals :: "'f list"
  ls_col_duals :: "'f list"
  ls_path :: "nat option list"
  ls_col_for_row :: "nat option list"
  ls_row_for_col :: "nat option list"

record 'f path_search =
  ps_path :: "nat option list"
  ps_costs :: "'f list"
  ps_visited_rows :: "bool list"
  ps_visited_cols :: "bool list"
  ps_remaining :: "nat list"
  ps_min :: 'f

section \<open>The search of an augmenting path\<close>

definition reduced_cost :: "'f arithmetic \<Rightarrow> nat \<Rightarrow> 'f list \<Rightarrow> 'f lsap_state \<Rightarrow> 'f \<Rightarrow> nat \<Rightarrow> nat \<Rightarrow> 'f" where
  "reduced_cost A cols costs S current row col =
     ar_sub A (ar_sub A (ar_add A current (costs ! (row * cols + col))) (ls_row_duals S ! row)) (ls_col_duals S ! col)"

text \<open>One iteration of the scan over the remaining columns, with the lowest cost so far and its index.\<close>

definition probe :: "'f arithmetic \<Rightarrow> nat \<Rightarrow> 'f list \<Rightarrow> 'f lsap_state \<Rightarrow> nat \<Rightarrow> nat
    \<Rightarrow> 'f path_search \<times> 'f \<times> nat option \<Rightarrow> 'f path_search \<times> 'f \<times> nat option" where
  "probe A cols costs S row i found =
     (case found of (s, lowest, index) \<Rightarrow>
        let col = ps_remaining s ! i; reduced = reduced_cost A cols costs S (ps_min s) row col;
            s' = (if ar_less A reduced (ps_costs s ! col)
                  then s\<lparr>ps_path := (ps_path s)[col := Some row], ps_costs := (ps_costs s)[col := reduced]\<rparr> else s);
            cost = ps_costs s' ! col
        in if ar_less A cost lowest \<or> ar_eq A cost lowest \<and> ls_row_for_col S ! col = None then (s', cost, Some i)
           else (s', lowest, index))"

definition scan :: "'f arithmetic \<Rightarrow> nat \<Rightarrow> 'f list \<Rightarrow> 'f lsap_state \<Rightarrow> nat \<Rightarrow> nat \<Rightarrow> 'f path_search
    \<Rightarrow> 'f path_search \<times> 'f \<times> nat option" where
  "scan A cols costs S row n s = fold (probe A cols costs S row) [0 ..< n] (s, ar_infinity A, None)"

text \<open>The column taken becomes visited, and the last of the remaining ones takes its place.\<close>

definition take_column :: "'f \<Rightarrow> nat \<Rightarrow> nat \<Rightarrow> 'f path_search \<Rightarrow> 'f path_search" where
  "take_column lowest i n s =
     s\<lparr>ps_min := lowest, ps_visited_cols := (ps_visited_cols s)[ps_remaining s ! i := True],
       ps_remaining := (ps_remaining s)[i := ps_remaining s ! n]\<rparr>"

definition visit_row :: "nat \<Rightarrow> 'f path_search \<Rightarrow> 'f path_search" where
  "visit_row row s = s\<lparr>ps_visited_rows := (ps_visited_rows s)[row := True]\<rparr>"

text \<open>The loop until a sink is found; \<open>n\<close> is the number of remaining columns. There is no path if the
  lowest cost is infinite, and no result if it is not and the scan has set no index.\<close>

fun search_path :: "'f arithmetic \<Rightarrow> nat \<Rightarrow> 'f list \<Rightarrow> 'f lsap_state \<Rightarrow> nat \<Rightarrow> nat \<Rightarrow> 'f path_search
    \<Rightarrow> (nat \<times> 'f path_search) option option" where
  "search_path A cols costs S 0 row s =
     (if ar_eq A (ar_infinity A) (ar_infinity A) then Some None else None)"
| "search_path A cols costs S (Suc n) row s =
     (case scan A cols costs S row (Suc n) (visit_row row s) of (s', lowest, index) \<Rightarrow>
        if ar_eq A lowest (ar_infinity A) then Some None
        else case index of
               None \<Rightarrow> None
             | Some i \<Rightarrow>
                 (case ls_row_for_col S ! (ps_remaining s' ! i) of
                    None \<Rightarrow> Some (Some (ps_remaining s' ! i, take_column lowest i n s'))
                  | Some r \<Rightarrow> search_path A cols costs S n r (take_column lowest i n s')))"

definition fresh_search :: "'f arithmetic \<Rightarrow> nat \<Rightarrow> nat \<Rightarrow> 'f lsap_state \<Rightarrow> 'f path_search" where
  "fresh_search A rows cols S =
     \<lparr>ps_path = ls_path S, ps_costs = replicate cols (ar_infinity A), ps_visited_rows = replicate rows False,
      ps_visited_cols = replicate cols False, ps_remaining = map (\<lambda>i. cols - i - 1) [0 ..< cols], ps_min = ar_zero A\<rparr>"

definition augmenting_path :: "'f arithmetic \<Rightarrow> nat \<Rightarrow> nat \<Rightarrow> 'f list \<Rightarrow> 'f lsap_state \<Rightarrow> nat
    \<Rightarrow> (nat \<times> 'f path_search) option option" where
  "augmenting_path A rows cols costs S row = search_path A cols costs S cols row (fresh_search A rows cols S)"

section \<open>The update of the duals and of the matching\<close>

text \<open>The row that the search began with gains the length of the path, every other visited row what is left of
  it behind its column. There is no result if such a row has no column.\<close>

definition update_row_duals :: "'f arithmetic \<Rightarrow> nat \<Rightarrow> 'f path_search \<Rightarrow> nat option list \<Rightarrow> 'f list \<Rightarrow> 'f list option" where
  "update_row_duals A row s col_for_row duals =
     (let u = duals[row := ar_add A (duals ! row) (ps_min s)]
      in those (map (\<lambda>i. if ps_visited_rows s ! i \<and> i \<noteq> row
                         then (case col_for_row ! i of
                                 None \<Rightarrow> None
                               | Some col \<Rightarrow> Some (ar_add A (u ! i) (ar_sub A (ps_min s) (ps_costs s ! col))))
                         else Some (u ! i)) [0 ..< length u]))"

definition update_col_duals :: "'f arithmetic \<Rightarrow> 'f path_search \<Rightarrow> 'f list \<Rightarrow> 'f list" where
  "update_col_duals A s duals =
     map (\<lambda>j. if ps_visited_cols s ! j then ar_sub A (duals ! j) (ar_sub A (ps_min s) (ps_costs s ! j)) else duals ! j)
       [0 ..< length duals]"

text \<open>The walk back from the sink, which swaps the edges of the path; the fuel is more than the number of rows.\<close>

fun flip_path :: "nat \<Rightarrow> nat option list \<Rightarrow> nat \<Rightarrow> nat \<Rightarrow> nat option list \<Rightarrow> nat option list
    \<Rightarrow> (nat option list \<times> nat option list) option" where
  "flip_path 0 path row col row_for_col col_for_row = None"
| "flip_path (Suc fuel) path row col row_for_col col_for_row =
     (case path ! col of
        None \<Rightarrow> None
      | Some matched \<Rightarrow>
          if matched = row then Some (row_for_col[col := Some matched], col_for_row[matched := Some col])
          else case col_for_row ! matched of
                 None \<Rightarrow> None
               | Some prior \<Rightarrow> flip_path fuel path row prior (row_for_col[col := Some matched]) (col_for_row[matched := Some col]))"

definition augment_row :: "'f arithmetic \<Rightarrow> nat \<Rightarrow> nat \<Rightarrow> 'f list \<Rightarrow> nat \<Rightarrow> 'f lsap_state
    \<Rightarrow> (lsap_status + 'f lsap_state) option" where
  "augment_row A rows cols costs row S =
     (case augmenting_path A rows cols costs S row of
        None \<Rightarrow> None
      | Some None \<Rightarrow> Some (Inl Lsap_Infeasible)
      | Some (Some (sink, s)) \<Rightarrow>
          (case update_row_duals A row s (ls_col_for_row S) (ls_row_duals S) of
             None \<Rightarrow> None
           | Some u \<Rightarrow>
               (case flip_path (Suc rows) (ps_path s) row sink (ls_row_for_col S) (ls_col_for_row S) of
                  None \<Rightarrow> None
                | Some (row_for_col, col_for_row) \<Rightarrow>
                    Some (Inr \<lparr>ls_row_duals = u, ls_col_duals = update_col_duals A s (ls_col_duals S),
                      ls_path = ps_path s, ls_col_for_row = col_for_row, ls_row_for_col = row_for_col\<rparr>))))"

fun augment_rows :: "'f arithmetic \<Rightarrow> nat \<Rightarrow> nat \<Rightarrow> 'f list \<Rightarrow> nat list \<Rightarrow> 'f lsap_state
    \<Rightarrow> (lsap_status + 'f lsap_state) option" where
  "augment_rows A rows cols costs [] S = Some (Inr S)"
| "augment_rows A rows cols costs (row # rest) S =
     (case augment_row A rows cols costs row S of
        None \<Rightarrow> None
      | Some (Inl e) \<Rightarrow> Some (Inl e)
      | Some (Inr S') \<Rightarrow> augment_rows A rows cols costs rest S')"

section \<open>The solver\<close>

definition transposed :: "nat \<Rightarrow> nat \<Rightarrow> 'f list \<Rightarrow> 'f list" where
  "transposed rows cols costs = map (\<lambda>k. costs ! ((k mod rows) * cols + k div rows)) [0 ..< rows * cols]"

definition fresh_state :: "'f arithmetic \<Rightarrow> nat \<Rightarrow> nat \<Rightarrow> 'f lsap_state" where
  "fresh_state A rows cols =
     \<lparr>ls_row_duals = replicate rows (ar_zero A), ls_col_duals = replicate cols (ar_zero A), ls_path = replicate cols None,
      ls_col_for_row = replicate rows None, ls_row_for_col = replicate cols None\<rparr>"

definition index_value :: "nat option \<Rightarrow> int" where
  "index_value x = (case x of None \<Rightarrow> -1 | Some i \<Rightarrow> int i)"

definition prepared_costs :: "'f arithmetic \<Rightarrow> nat \<Rightarrow> nat \<Rightarrow> bool \<Rightarrow> 'f list \<Rightarrow> 'f list" where
  "prepared_costs A rows cols maximize costs =
     (let given = (if cols < rows then transposed rows cols costs else costs)
      in if maximize then map (ar_neg A) given else given)"

definition solve_assignment :: "'f arithmetic \<Rightarrow> nat \<Rightarrow> nat \<Rightarrow> 'f list \<Rightarrow> bool
    \<Rightarrow> (lsap_status \<times> (int \<times> int) list) option" where
  "solve_assignment A rows cols costs maximize =
     (if rows = 0 \<or> cols = 0 then Some (Lsap_Ok, [])
      else let turned = cols < rows; m = min rows cols; n = max rows cols;
               input = prepared_costs A rows cols maximize costs
           in if list_ex (\<lambda>x. \<not> ar_eq A x x \<or> ar_eq A x (ar_neg A (ar_infinity A))) input then Some (Lsap_Invalid, [])
              else case augment_rows A m n input [0 ..< m] (fresh_state A m n) of
                     None \<Rightarrow> None
                   | Some (Inl e) \<Rightarrow> Some (e, [])
                   | Some (Inr S) \<Rightarrow>
                       let column = (\<lambda>row. index_value (ls_col_for_row S ! row))
                       in Some (Lsap_Ok, if turned then map (\<lambda>row. (column row, int row)) (sort_key column [0 ..< m])
                                         else map (\<lambda>row. (int row, column row)) [0 ..< m]))"

section \<open>What a scan does\<close>

text \<open>A column of the list \<open>cs\<close> has been improved from the row, when that is better.\<close>

definition improves :: "'f arithmetic \<Rightarrow> nat \<Rightarrow> 'f list \<Rightarrow> 'f lsap_state \<Rightarrow> nat \<Rightarrow> 'f path_search \<Rightarrow> nat \<Rightarrow> bool" where
  "improves A cols costs S row s col \<longleftrightarrow> ar_less A (reduced_cost A cols costs S (ps_min s) row col) (ps_costs s ! col)"

definition scanned :: "'f arithmetic \<Rightarrow> nat \<Rightarrow> 'f list \<Rightarrow> 'f lsap_state \<Rightarrow> nat \<Rightarrow> nat list \<Rightarrow> 'f path_search \<Rightarrow> 'f path_search \<Rightarrow> bool" where
  "scanned A cols costs S row cs s s' \<longleftrightarrow>
     ps_visited_rows s' = ps_visited_rows s \<and> ps_visited_cols s' = ps_visited_cols s \<and> ps_remaining s' = ps_remaining s
   \<and> ps_min s' = ps_min s \<and> length (ps_path s') = length (ps_path s) \<and> length (ps_costs s') = length (ps_costs s)
   \<and> (\<forall>col. ps_costs s' ! col = (if col \<in> set cs \<and> improves A cols costs S row s col
        then reduced_cost A cols costs S (ps_min s) row col else ps_costs s ! col))
   \<and> (\<forall>col. ps_path s' ! col = (if col \<in> set cs \<and> improves A cols costs S row s col then Some row else ps_path s ! col))"

lemma scan_prefix:
  assumes "k \<le> n" "n \<le> length (ps_remaining s)" "distinct (take n (ps_remaining s))"
    and "\<forall>col \<in> set (take n (ps_remaining s)). col < length (ps_path s) \<and> col < length (ps_costs s)"
    and "fold (probe A cols costs S row) [0 ..< k] (s, ar_infinity A, None) = (s', lowest, index)"
  shows "scanned A cols costs S row (take k (ps_remaining s)) s s'
     \<and> (case index of None \<Rightarrow> lowest = ar_infinity A | Some i \<Rightarrow> i < k \<and> lowest = ps_costs s' ! (ps_remaining s ! i))"
  using assms(1,5)
proof (induction k arbitrary: s' lowest index)
  case 0
  then show ?case by (auto simp: scanned_def)
next
  case (Suc k)
  obtain s1 low1 ix1 where prior: "fold (probe A cols costs S row) [0 ..< k] (s, ar_infinity A, None) = (s1, low1, ix1)"
    by (metis prod_cases3)
  then have step: "probe A cols costs S row k (s1, low1, ix1) = (s', lowest, index)" using Suc.prems(2) by simp
  have IH: "scanned A cols costs S row (take k (ps_remaining s)) s s1"
    "case ix1 of None \<Rightarrow> low1 = ar_infinity A | Some i \<Rightarrow> i < k \<and> low1 = ps_costs s1 ! (ps_remaining s ! i)"
    using Suc.IH [OF _ prior] Suc.prems(1) by simp_all
  have k: "k < length (ps_remaining s)" "k < n" using Suc.prems(1) assms(2) by simp_all
  let ?col = "ps_remaining s ! k"
  have col_mem: "?col \<in> set (take n (ps_remaining s))" using k by (auto simp: in_set_conv_nth)
  have fresh: "?col \<notin> set (take k (ps_remaining s))"
    using assms(3) k by (auto simp: in_set_conv_nth distinct_conv_nth)
  have taken: "take (Suc k) (ps_remaining s) = take k (ps_remaining s) @ [?col]" by (rule take_Suc_conv_app_nth [OF k(1)])
  have same: "ps_remaining s1 = ps_remaining s" "ps_min s1 = ps_min s" "ps_costs s1 ! ?col = ps_costs s ! ?col"
    using IH(1) fresh by (simp_all add: scanned_def)
  define s2 where "s2 = (if improves A cols costs S row s ?col
      then s1\<lparr>ps_path := (ps_path s1)[?col := Some row],
              ps_costs := (ps_costs s1)[?col := reduced_cost A cols costs S (ps_min s) row ?col]\<rparr> else s1)"
  have result: "s' = s2 \<and> (lowest = ps_costs s2 ! ?col \<and> index = Some k \<or> lowest = low1 \<and> index = ix1)"
    using step unfolding probe_def s2_def by (auto simp: same improves_def Let_def split: if_splits)
  have sizes: "?col < length (ps_path s1)" "?col < length (ps_costs s1)"
    using assms(4) col_mem IH(1) by (simp_all add: scanned_def)
  have new: "scanned A cols costs S row (take (Suc k) (ps_remaining s)) s s2"
    using IH(1) sizes unfolding taken scanned_def s2_def by (auto simp: nth_list_update)
  have kept: "ps_costs s2 ! (ps_remaining s ! i) = ps_costs s1 ! (ps_remaining s ! i)" if "i < k" for i
  proof -
    have "ps_remaining s ! i \<noteq> ?col" using that fresh k(1) by (auto simp: in_set_conv_nth)
    then show ?thesis by (simp add: s2_def)
  qed
  show ?case
  proof (cases "index = Some k \<and> lowest = ps_costs s2 ! ?col")
    case True
    then show ?thesis using new result by simp
  next
    case False
    then have "lowest = low1" "index = ix1" using result by auto
    then show ?thesis using new result IH(2) kept by (auto split: option.splits)
  qed
qed

lemma scan_result:
  assumes "scan A cols costs S row n s = (s', lowest, index)" "n \<le> length (ps_remaining s)" "distinct (take n (ps_remaining s))"
    and "\<forall>col \<in> set (take n (ps_remaining s)). col < length (ps_path s) \<and> col < length (ps_costs s)"
  shows "scanned A cols costs S row (take n (ps_remaining s)) s s'
     \<and> (case index of None \<Rightarrow> lowest = ar_infinity A | Some i \<Rightarrow> i < n \<and> lowest = ps_costs s' ! (ps_remaining s ! i))"
  using scan_prefix [OF order_refl assms(2-4)] assms(1) by (simp add: scan_def)

section \<open>The search\<close>

text \<open>A scan that sets no index leaves the lowest cost at infinity.\<close>

lemma scan_none:
  assumes "scan A cols costs S row n s = (s', lowest, None)"
  shows "lowest = ar_infinity A"
proof -
  have "case fold (probe A cols costs S row) xs (s, low, index) of (s', lowest', index') \<Rightarrow>
      index' = None \<longrightarrow> lowest' = ar_infinity A" if "index = None \<longrightarrow> low = ar_infinity A" for xs s low index
    using that
  proof (induction xs arbitrary: s low index)
    case (Cons x xs)
    obtain s1 low1 index1 where step: "probe A cols costs S row x (s, low, index) = (s1, low1, index1)" by (metis prod_cases3)
    then have "index1 = None \<longrightarrow> low1 = ar_infinity A" using Cons.prems by (auto simp: probe_def Let_def split: if_splits)
    from Cons.IH [OF this, of s1] show ?case by (simp add: step)
  qed simp
  from this [of None "ar_infinity A" "[0 ..< n]" s] assms show ?thesis by (simp add: scan_def)
qed

lemma search_rule:
  assumes inf: "ar_eq A (ar_infinity A) (ar_infinity A)" and start: "I n row s"
    and step: "\<And>n row s s' lowest i. I (Suc n) row s \<Longrightarrow> scan A cols costs S row (Suc n) (visit_row row s) = (s', lowest, Some i) \<Longrightarrow>
      \<not> ar_eq A lowest (ar_infinity A) \<Longrightarrow>
        (case ls_row_for_col S ! (ps_remaining s' ! i) of None \<Rightarrow> Q (ps_remaining s' ! i) (take_column lowest i n s')
         | Some r \<Rightarrow> I n r (take_column lowest i n s'))"
    and fail: "\<And>n row s s' lowest index. I (Suc n) row s \<Longrightarrow> scan A cols costs S row (Suc n) (visit_row row s) = (s', lowest, index) \<Longrightarrow>
      index = None \<or> ar_eq A lowest (ar_infinity A) \<Longrightarrow> F"
    and none: "\<And>row s. I 0 row s \<Longrightarrow> F"
  shows "case search_path A cols costs S n row s of
    None \<Rightarrow> False | Some None \<Rightarrow> F | Some (Some (sink, s')) \<Rightarrow> Q sink s'"
  using start
proof (induction n arbitrary: row s)
  case 0
  then show ?case using none inf by simp
next
  case (Suc n)
  obtain s' lowest index where scan: "scan A cols costs S row (Suc n) (visit_row row s) = (s', lowest, index)" by (metis prod_cases3)
  show ?case
  proof (cases "ar_eq A lowest (ar_infinity A)")
    case True
    then show ?thesis using fail [OF Suc.prems scan] scan by simp
  next
    case False
    then obtain i where i: "index = Some i" using scan_none [of A cols costs S row "Suc n" "visit_row row s" s' lowest] scan inf
      by (cases index) auto
    note stepped = step [OF Suc.prems scan [unfolded i] False]
    show ?thesis
    proof (cases "ls_row_for_col S ! (ps_remaining s' ! i)")
      case None
      then show ?thesis using stepped scan i False by simp
    next
      case (Some r)
      then have "I n r (take_column lowest i n s')" using stepped by simp
      from Suc.IH [OF this] show ?thesis using Some scan i False by simp
    qed
  qed
qed

lemma take_swap:
  assumes "i \<le> n" "n < length xs" "distinct (take (Suc n) xs)"
  shows "distinct (take n (xs[i := xs ! n])) \<and> set (take n (xs[i := xs ! n])) = set (take (Suc n) xs) - {xs ! i}"
proof -
  let ?ys = "take n xs"
  have ys: "take (Suc n) xs = ?ys @ [xs ! n]" by (rule take_Suc_conv_app_nth [OF assms(2)])
  then have d: "distinct ?ys" "xs ! n \<notin> set ?ys" using assms(3) by simp_all
  have upd: "take n (xs[i := xs ! n]) = ?ys[i := xs ! n]" by (simp add: take_update_swap)
  show ?thesis
  proof (cases "i = n")
    case True
    then show ?thesis unfolding upd ys using d by (auto simp: list_update_beyond)
  next
    case False
    then have i: "i < length ?ys" using assms by simp
    have "set (?ys[i := xs ! n]) = insert (xs ! n) (set ?ys - {?ys ! i})" by (rule set_update_distinct [OF d(1) i])
    moreover have "distinct (?ys[i := xs ! n])" using d by (simp add: distinct_list_update)
    moreover have "?ys ! i = xs ! i" "xs ! i \<in> set ?ys" using i by (simp_all add: in_set_conv_nth) auto
    ultimately show ?thesis unfolding upd ys using d by auto
  qed
qed

text \<open>The rows \<open>rs\<close> and the columns \<open>cs\<close> have been visited, in turns.\<close>

definition walked :: "'f arithmetic \<Rightarrow> nat \<Rightarrow> nat \<Rightarrow> 'f lsap_state \<Rightarrow> nat list \<Rightarrow> nat list \<Rightarrow> nat \<Rightarrow> 'f path_search \<Rightarrow> bool" where
  "walked A rows cols S rs cs n s \<longleftrightarrow>
     length (ps_path s) = cols \<and> length (ps_costs s) = cols \<and> length (ps_visited_rows s) = rows
   \<and> length (ps_visited_cols s) = cols \<and> n \<le> length (ps_remaining s) \<and> distinct (cs @ take n (ps_remaining s))
   \<and> set cs \<union> set (take n (ps_remaining s)) = {..< cols} \<and> length rs = length cs \<and> set rs \<subseteq> {..< rows}
   \<and> (\<forall>j. Suc j < length cs \<longrightarrow> ls_row_for_col S ! (cs ! j) = Some (rs ! Suc j))
   \<and> (\<forall>j < length cs. \<exists>i \<le> j. ps_path s ! (cs ! j) = Some (rs ! i))
   \<and> (\<forall>col \<in> set (take n (ps_remaining s)). ps_costs s ! col = ar_infinity A \<or> (\<exists>i < length rs. ps_path s ! col = Some (rs ! i)))
   \<and> (\<forall>r < rows. ps_visited_rows s ! r \<longleftrightarrow> r \<in> set rs) \<and> (\<forall>c < cols. ps_visited_cols s ! c \<longleftrightarrow> c \<in> set cs)"

text \<open>The row that is visited next.\<close>

definition continues :: "nat \<Rightarrow> 'f lsap_state \<Rightarrow> nat list \<Rightarrow> nat list \<Rightarrow> nat \<Rightarrow> bool" where
  "continues first S rs cs row \<longleftrightarrow> (rs @ [row]) ! 0 = first \<and> (cs \<noteq> [] \<longrightarrow> ls_row_for_col S ! last cs = Some row)"

lemma walked_scan:
  assumes walked: "walked A rows cols S rs cs (Suc n) s"
    and scan: "scan A cols costs S row (Suc n) (visit_row row s) = (s', lowest, index)"
  shows "scanned A cols costs S row (take (Suc n) (ps_remaining s)) (visit_row row s) s'
    \<and> (case index of None \<Rightarrow> lowest = ar_infinity A
       | Some i \<Rightarrow> i < Suc n \<and> lowest = ps_costs s' ! (ps_remaining s ! i) \<and> ps_remaining s ! i \<in> set (take (Suc n) (ps_remaining s)))"
proof -
  have rem: "ps_remaining (visit_row row s) = ps_remaining s" "ps_path (visit_row row s) = ps_path s"
    "ps_costs (visit_row row s) = ps_costs s" by (simp_all add: visit_row_def)
  have sizes: "Suc n \<le> length (ps_remaining s)" "distinct (take (Suc n) (ps_remaining s))"
    "\<forall>col \<in> set (take (Suc n) (ps_remaining s)). col < length (ps_path s) \<and> col < length (ps_costs s)"
    using walked unfolding walked_def by (simp_all, blast)
  have "i < Suc n \<Longrightarrow> ps_remaining s ! i \<in> set (take (Suc n) (ps_remaining s))" for i
    using sizes(1) by (auto simp: in_set_conv_nth)
  then show ?thesis
    using scan_result [OF scan] sizes unfolding rem by (auto split: option.splits)
qed

lemma update_true: "c < length xs \<Longrightarrow> (xs[k := True]) ! c \<longleftrightarrow> c = k \<or> xs ! c"
  by (cases "c = k") simp_all

lemma walked_step:
  assumes walked: "walked A rows cols S rs cs (Suc n) s" and next_row: "continues first S rs cs row" "row < rows"
    and scan: "scan A cols costs S row (Suc n) (visit_row row s) = (s', lowest, Some i)"
    and finite: "\<not> ar_eq A lowest (ar_infinity A)" and inf: "ar_eq A (ar_infinity A) (ar_infinity A)"
  shows "walked A rows cols S (rs @ [row]) (cs @ [ps_remaining s' ! i]) n (take_column lowest i n s') \<and> ps_remaining s' ! i < cols"
proof -
  let ?col = "ps_remaining s ! i" and ?t = "take_column lowest i n s'" and ?rem = "take (Suc n) (ps_remaining s)"
  have sc: "scanned A cols costs S row ?rem (visit_row row s) s'" and i: "i \<le> n" "lowest = ps_costs s' ! ?col" "?col \<in> set ?rem"
    using walked_scan [OF walked scan] by simp_all
  have same: "ps_remaining s' = ps_remaining s" "ps_visited_cols s' = ps_visited_cols s"
    "ps_visited_rows s' = (ps_visited_rows s)[row := True]"
    using sc by (simp_all add: scanned_def visit_row_def)
  have n: "n < length (ps_remaining s)" "distinct ?rem" using walked by (simp_all add: walked_def)
  note swapped = take_swap [OF i(1) n]
  have part: "distinct cs" "set cs \<inter> set ?rem = {}" "set cs \<union> set ?rem = {..< cols}" using walked by (simp_all add: walked_def)
  have path: "ps_path s' ! c = (if c \<in> set ?rem \<and> improves A cols costs S row (visit_row row s) c then Some row else ps_path s ! c)"
    and cost: "ps_costs s' ! c = (if c \<in> set ?rem \<and> improves A cols costs S row (visit_row row s) c
       then reduced_cost A cols costs S (ps_min s) row c else ps_costs s ! c)" for c
    using sc by (simp_all add: scanned_def visit_row_def)
  have traced: "ps_costs s' ! c = ar_infinity A \<or> (\<exists>k < length (rs @ [row]). ps_path s' ! c = Some ((rs @ [row]) ! k))"
    if "c \<in> set ?rem" for c
  proof (cases "improves A cols costs S row (visit_row row s) c")
    case True
    then show ?thesis using that by (intro disjI2 exI [of _ "length rs"]) (simp add: path)
  next
    case False
    have "ps_costs s ! c = ar_infinity A \<or> (\<exists>k < length rs. ps_path s ! c = Some (rs ! k))"
      using walked that unfolding walked_def by blast
    then show ?thesis using False by (auto simp: path cost nth_append)
  qed
  have "ps_costs s' ! ?col \<noteq> ar_infinity A" using finite i(2) inf by metis
  then obtain k where k: "k < length (rs @ [row])" "ps_path s' ! ?col = Some ((rs @ [row]) ! k)" using traced [OF i(3)] by blast
  have lens: "length rs = length cs" "set rs \<subseteq> {..< rows}" using walked by (simp_all add: walked_def)
  have unvisited: "ps_path s' ! c = ps_path s ! c" if "c \<in> set cs" for c using that part(2) by (auto simp: path)
  have "walked A rows cols S (rs @ [row]) (cs @ [?col]) n ?t"
    unfolding walked_def
  proof (intro conjI)
    show "length (ps_path ?t) = cols" "length (ps_costs ?t) = cols" "length (ps_visited_rows ?t) = rows" "length (ps_visited_cols ?t) = cols"
      "n \<le> length (ps_remaining ?t)"
      using walked sc same by (simp_all add: take_column_def walked_def scanned_def visit_row_def)
    show "distinct ((cs @ [?col]) @ take n (ps_remaining ?t))"
      using swapped part i(3) by (auto simp: take_column_def same)
    show "set (cs @ [?col]) \<union> set (take n (ps_remaining ?t)) = {..< cols}"
      using swapped part(3) i(3) by (auto simp: take_column_def same)
    show "length (rs @ [row]) = length (cs @ [?col])" "set (rs @ [row]) \<subseteq> {..< rows}" using lens next_row(2) by simp_all
    show "\<forall>j. Suc j < length (cs @ [?col]) \<longrightarrow> ls_row_for_col S ! ((cs @ [?col]) ! j) = Some ((rs @ [row]) ! Suc j)"
    proof (intro allI impI)
      fix j assume j: "Suc j < length (cs @ [?col])"
      show "ls_row_for_col S ! ((cs @ [?col]) ! j) = Some ((rs @ [row]) ! Suc j)"
      proof (cases "Suc j = length cs")
        case True
        then have "cs \<noteq> []" by auto
        then have "last cs = cs ! j" using arg_cong [OF True, of "\<lambda>x. x - 1"] by (simp add: last_conv_nth)
        then show ?thesis using True \<open>cs \<noteq> []\<close> next_row(1) lens by (simp add: continues_def nth_append)
      next
        case False
        then show ?thesis using j walked lens by (simp add: walked_def nth_append)
      qed
    qed
    show "\<forall>j < length (cs @ [?col]). \<exists>i \<le> j. ps_path ?t ! ((cs @ [?col]) ! j) = Some ((rs @ [row]) ! i)"
    proof (intro allI impI)
      fix j assume j: "j < length (cs @ [?col])"
      show "\<exists>i \<le> j. ps_path ?t ! ((cs @ [?col]) ! j) = Some ((rs @ [row]) ! i)"
      proof (cases "j = length cs")
        case True
        then show ?thesis using k lens by (intro exI [of _ k]) (simp add: take_column_def)
      next
        case False
        then have "j < length cs" using j by simp
        then obtain k' where "k' \<le> j" "ps_path s ! (cs ! j) = Some (rs ! k')" using walked by (auto simp: walked_def)
        then show ?thesis
          using \<open>j < length cs\<close> lens unvisited [of "cs ! j"] by (intro exI [of _ k']) (simp add: take_column_def nth_append)
      qed
    qed
    show "\<forall>c \<in> set (take n (ps_remaining ?t)). ps_costs ?t ! c = ar_infinity A \<or>
        (\<exists>i < length (rs @ [row]). ps_path ?t ! c = Some ((rs @ [row]) ! i))"
      using traced swapped by (simp add: take_column_def same)
    show "\<forall>r < rows. ps_visited_rows ?t ! r \<longleftrightarrow> r \<in> set (rs @ [row])"
      using walked by (auto simp: take_column_def same walked_def update_true)
    show "\<forall>c < cols. ps_visited_cols ?t ! c \<longleftrightarrow> c \<in> set (cs @ [?col])"
      using walked by (auto simp: take_column_def same walked_def update_true)
  qed
  moreover have "?col < cols" using i(3) part(3) by blast
  ultimately show ?thesis by (simp add: same)
qed

section \<open>The matching\<close>

text \<open>The two index vectors are inverse to each other, except at the column \<open>free\<close>, which no row has.\<close>

definition matching_but :: "nat \<Rightarrow> nat \<Rightarrow> nat option \<Rightarrow> nat option list \<Rightarrow> nat option list \<Rightarrow> bool" where
  "matching_but rows cols free row_for_col col_for_row \<longleftrightarrow> length row_for_col = cols \<and> length col_for_row = rows
     \<and> (\<forall>r < rows. \<forall>c. col_for_row ! r = Some c \<longrightarrow> c < cols \<and> Some c \<noteq> free)
     \<and> (\<forall>c < cols. Some c \<noteq> free \<longrightarrow> (\<forall>r. row_for_col ! c = Some r \<longleftrightarrow> r < rows \<and> col_for_row ! r = Some c))"

abbreviation matching :: "nat \<Rightarrow> nat \<Rightarrow> nat option list \<Rightarrow> nat option list \<Rightarrow> bool" where
  "matching rows cols \<equiv> matching_but rows cols None"

text \<open>The free column is given to a row, whose column becomes free.\<close>

lemma matching_swap:
  assumes m: "matching_but rows cols (Some c) rfc cfr" and r: "r < rows" and c: "c < cols"
  shows "matching_but rows cols (cfr ! r) (rfc[c := Some r]) (cfr[r := Some c])"
proof -
  have len: "length rfc = cols" "length cfr = rows" using m by (simp_all add: matching_but_def)
  have ran: "c' < cols \<and> c' \<noteq> c" if "r' < rows" "cfr ! r' = Some c'" for r' c'
    using m that by (auto simp: matching_but_def)
  have iff: "rfc ! c' = Some r' \<longleftrightarrow> r' < rows \<and> cfr ! r' = Some c'" if "c' < cols" "c' \<noteq> c" for c' r'
    using m that by (auto simp: matching_but_def)
  have inj: "r' = r''" if "r' < rows" "r'' < rows" "cfr ! r' = Some c'" "cfr ! r'' = Some c'" for r' r'' c'
    using ran [OF that(1,3)] iff [of c' r'] iff [of c' r''] that by simp
  show ?thesis
    unfolding matching_but_def
  proof (intro conjI allI impI)
    fix r' c' assume a: "r' < rows" "(cfr[r := Some c]) ! r' = Some c'"
    show "c' < cols"
      using a ran [of r' c'] c len by (cases "r' = r") auto
    show "Some c' \<noteq> cfr ! r"
    proof (cases "r' = r")
      case True
      then show ?thesis using a len ran [of r c] r by auto
    next
      case False
      then have "cfr ! r' = Some c'" using a by simp
      then show ?thesis using False inj [of r' r c'] a(1) r by auto
    qed
  next
    fix c' r' assume a: "c' < cols" "Some c' \<noteq> cfr ! r"
    show "(rfc[c := Some r]) ! c' = Some r' \<longleftrightarrow> r' < rows \<and> (cfr[r := Some c]) ! r' = Some c'"
    proof (cases "c' = c")
      case True
      then show ?thesis using a(1) len r ran [of r' c] by (auto simp: nth_list_update)
    next
      case False
      then show ?thesis using a len r iff [OF a(1) False, of r'] by (auto simp: nth_list_update)
    qed
  qed (simp_all add: len)
qed

lemma flip_matches:
  assumes "length rs = length cs" "distinct rs" "distinct cs" "rs ! 0 = row" "set rs \<subseteq> {..< rows}" "set cs \<subseteq> {..< cols}"
    and path: "\<forall>j < length cs. \<exists>i \<le> j. path ! (cs ! j) = Some (rs ! i)"
    and "j < length cs" "j < fuel" "matching_but rows cols (Some (cs ! j)) rfc cfr"
    and "\<forall>k < j. cfr ! (rs ! Suc k) = Some (cs ! k)" "cfr ! row = None"
  shows "\<exists>rfc' cfr'. flip_path fuel path row (cs ! j) rfc cfr = Some (rfc', cfr') \<and> matching rows cols rfc' cfr'
    \<and> (\<forall>r < rows. cfr' ! r \<noteq> None \<longleftrightarrow> r = row \<or> cfr ! r \<noteq> None)
    \<and> (\<forall>c < cols. rfc' ! c = rfc ! c \<or> c \<in> set cs \<and> rfc' ! c = path ! c)"
  using assms(8-12)
proof (induction fuel arbitrary: j rfc cfr)
  case (Suc fuel)
  obtain i where i: "i \<le> j" "path ! (cs ! j) = Some (rs ! i)" using path Suc.prems(1) by blast
  have col: "cs ! j < cols" "cs ! j \<in> set cs" using assms(6) Suc.prems(1) nth_mem [of j cs] by blast+
  have row: "rs ! i < rows" using assms(1,5) i(1) Suc.prems(1) nth_mem [of i rs] by (simp add: subset_iff)
  let ?rfc = "rfc[cs ! j := Some (rs ! i)]" and ?cfr = "cfr[rs ! i := Some (cs ! j)]"
  have swapped: "matching_but rows cols (cfr ! (rs ! i)) ?rfc ?cfr" by (rule matching_swap [OF Suc.prems(3) row col(1)])
  have len: "length cfr = rows" "length rfc = cols" using Suc.prems(3) by (simp_all add: matching_but_def)
  show ?case
  proof (cases i)
    case 0
    then have at: "rs ! i = row" using assms(4) by simp
    then have "matching rows cols ?rfc ?cfr" using swapped Suc.prems(5) by simp
    moreover have "flip_path (Suc fuel) path row (cs ! j) rfc cfr = Some (?rfc, ?cfr)" using i(2) at by simp
    ultimately show ?thesis
      using i(2) col len at row by (intro exI [of _ ?rfc] exI [of _ ?cfr]) (auto simp: nth_list_update)
  next
    case (Suc k)
    have k: "k < j" "k < length cs" using Suc i(1) Suc.prems(1) by simp_all
    have prior: "cfr ! (rs ! i) = Some (cs ! k)" using Suc.prems(4) k Suc by simp
    have neq: "rs ! i \<noteq> row"
    proof
      assume "rs ! i = row"
      then have "rs ! i = rs ! 0" using assms(4) by simp
      moreover have "i < length rs" "0 < length rs" using assms(1) i(1) Suc.prems(1) by auto
      ultimately show False using nth_eq_iff_index_eq [OF assms(2), of i 0] Suc by simp
    qed
    have "\<forall>l < k. ?cfr ! (rs ! Suc l) = Some (cs ! l)"
    proof (intro allI impI)
      fix l assume l: "l < k"
      have "rs ! Suc l \<noteq> rs ! i" using l Suc k assms(1,2) Suc.prems(1) i(1) by (simp add: nth_eq_iff_index_eq)
      then show "?cfr ! (rs ! Suc l) = Some (cs ! l)" using Suc.prems(4) l k(1) by simp
    qed
    moreover have "?cfr ! row = None" using neq Suc.prems(5) by simp
    ultimately obtain rfc' cfr' where IH: "flip_path fuel path row (cs ! k) ?rfc ?cfr = Some (rfc', cfr')" "matching rows cols rfc' cfr'"
      "\<forall>r < rows. cfr' ! r \<noteq> None \<longleftrightarrow> r = row \<or> ?cfr ! r \<noteq> None"
      "\<forall>c < cols. rfc' ! c = ?rfc ! c \<or> c \<in> set cs \<and> rfc' ! c = path ! c"
      using Suc.IH [OF k(2) _ swapped [unfolded prior]] k(1) Suc.prems(2) by fastforce
    have "flip_path (Suc fuel) path row (cs ! j) rfc cfr = Some (rfc', cfr')" using i(2) neq prior IH(1) by simp
    moreover have "\<forall>r < rows. cfr' ! r \<noteq> None \<longleftrightarrow> r = row \<or> cfr ! r \<noteq> None"
      using IH(3) prior row len by (simp add: nth_list_update)
    moreover have "\<forall>c < cols. rfc' ! c = rfc ! c \<or> c \<in> set cs \<and> rfc' ! c = path ! c"
    proof (intro allI impI)
      fix c assume c: "c < cols"
      have "rfc' ! c = ?rfc ! c \<or> c \<in> set cs \<and> rfc' ! c = path ! c" using IH(4) c by blast
      then show "rfc' ! c = rfc ! c \<or> c \<in> set cs \<and> rfc' ! c = path ! c"
        using i(2) col len c by (cases "c = cs ! j") auto
    qed
    ultimately show ?thesis using IH(2) by blast
  qed
qed simp

section \<open>Augmenting the matching by a row\<close>

definition state_ok :: "nat \<Rightarrow> nat \<Rightarrow> 'f lsap_state \<Rightarrow> bool" where
  "state_ok rows cols S \<longleftrightarrow> length (ls_row_duals S) = rows \<and> length (ls_col_duals S) = cols \<and> length (ls_path S) = cols
     \<and> matching rows cols (ls_row_for_col S) (ls_col_for_row S)"

lemma matchingD:
  "matching rows cols rfc cfr \<Longrightarrow> c < cols \<Longrightarrow> rfc ! c = Some r \<longleftrightarrow> r < rows \<and> cfr ! r = Some c"
  "matching rows cols rfc cfr \<Longrightarrow> r < rows \<Longrightarrow> cfr ! r = Some c \<Longrightarrow> c < cols \<and> rfc ! c = Some r"
  by (auto simp: matching_but_def)

lemma walked_fresh:
  assumes "state_ok rows cols S"
  shows "walked A rows cols S [] [] cols (fresh_search A rows cols S) \<and> continues row S [] [] row"
proof -
  have "distinct (map (\<lambda>i. cols - i - 1) [0 ..< cols])" by (auto simp: distinct_map inj_on_def)
  moreover have "set (map (\<lambda>i. cols - i - 1) [0 ..< cols]) = {..< cols}"
  proof -
    have "c \<in> (\<lambda>i. cols - i - 1) ` {0 ..< cols}" if "c < cols" for c
      using that by (intro image_eqI [of _ _ "cols - c - 1"]) auto
    then show ?thesis by auto
  qed
  ultimately show ?thesis using assms by (simp add: walked_def fresh_search_def continues_def state_ok_def)
qed

text \<open>What the search finds is a path.\<close>

definition found_path :: "'f arithmetic \<Rightarrow> nat \<Rightarrow> nat \<Rightarrow> 'f lsap_state \<Rightarrow> nat \<Rightarrow> nat list \<Rightarrow> nat list \<Rightarrow> nat \<Rightarrow> 'f path_search \<Rightarrow> bool" where
  "found_path A rows cols S row rs cs sink s \<longleftrightarrow> (\<exists>n. walked A rows cols S rs cs n s) \<and> cs \<noteq> [] \<and> last cs = sink \<and> rs ! 0 = row
     \<and> ls_row_for_col S ! sink = None"

lemma continues_first: "continues first S rs cs row \<Longrightarrow> (rs @ [row]) ! 0 = first"
  by (simp add: continues_def)

lemma continues_step:
  assumes "continues first S rs cs row" "ls_row_for_col S ! col = Some r"
  shows "continues first S (rs @ [row]) (cs @ [col]) r"
  using assms by (cases rs) (simp_all add: continues_def)

lemma search_finds:
  assumes ok: "state_ok rows cols S" and row: "row < rows" and inf: "ar_eq A (ar_infinity A) (ar_infinity A)"
  shows "case augmenting_path A rows cols costs S row of None \<Rightarrow> False | Some None \<Rightarrow> True
    | Some (Some (sink, s)) \<Rightarrow> \<exists>rs cs. found_path A rows cols S row rs cs sink s"
proof -
  let ?I = "\<lambda>n r s. \<exists>rs cs. walked A rows cols S rs cs n s \<and> continues row S rs cs r \<and> r < rows"
  let ?Q = "\<lambda>sink s. \<exists>rs cs. found_path A rows cols S row rs cs sink s"
  have "case search_path A cols costs S cols row (fresh_search A rows cols S) of
      None \<Rightarrow> False | Some None \<Rightarrow> True | Some (Some (sink, s)) \<Rightarrow> ?Q sink s"
  proof (rule search_rule [where I = ?I, OF inf])
    show "?I cols row (fresh_search A rows cols S)" using walked_fresh [OF ok] row by blast
    fix n r s s' lowest i
    assume I: "?I (Suc n) r s" and scan: "scan A cols costs S r (Suc n) (visit_row r s) = (s', lowest, Some i)"
      and finite: "\<not> ar_eq A lowest (ar_infinity A)"
    from I obtain rs cs where w: "walked A rows cols S rs cs (Suc n) s" and c: "continues row S rs cs r" "r < rows" by blast
    note stepped = walked_step [OF w c scan finite inf]
    let ?col = "ps_remaining s' ! i" and ?t = "take_column lowest i n s'"
    show "case ls_row_for_col S ! ?col of None \<Rightarrow> ?Q ?col ?t | Some r \<Rightarrow> ?I n r ?t"
    proof (cases "ls_row_for_col S ! ?col")
      case None
      then have "found_path A rows cols S row (rs @ [r]) (cs @ [?col]) ?col ?t"
        unfolding found_path_def using stepped continues_first [OF c(1)] by auto
      with None show ?thesis by auto
    next
      case (Some r')
      have "r' < rows" using ok Some stepped matchingD(1) [of rows cols "ls_row_for_col S" "ls_col_for_row S" ?col r'] by (simp add: state_ok_def)
      moreover have "continues row S (rs @ [r]) (cs @ [?col]) r'" by (rule continues_step [OF c(1) Some])
      ultimately show ?thesis using stepped Some by auto
    qed
  qed simp_all
  then show ?thesis by (simp add: augmenting_path_def)
qed

text \<open>The rows of a walk are distinct: each is the partner of the column before it, and the first has no partner.\<close>

lemma linked_distinct:
  assumes m: "matching rows cols rfc cfr" and cs: "distinct cs" "set cs \<subseteq> {..< cols}" "length rs \<le> Suc (length cs)"
    and link: "\<And>k. Suc k < length rs \<Longrightarrow> rfc ! (cs ! k) = Some (rs ! Suc k)" and fresh: "cfr ! (rs ! 0) = None"
  shows "distinct rs \<and> (\<forall>k. Suc k < length rs \<longrightarrow> cfr ! (rs ! Suc k) = Some (cs ! k))"
proof -
  have held: "cfr ! (rs ! Suc k) = Some (cs ! k)" if "Suc k < length rs" for k
  proof -
    have "cs ! k < cols" using cs(2,3) that nth_mem [of k cs] by (simp add: subset_iff)
    then show ?thesis using matchingD(1) [OF m] link [OF that] by simp
  qed
  have "rs ! i \<noteq> rs ! j" if "i < j" "j < length rs" for i j
  proof -
    have "j \<noteq> 0" using that by simp
    then obtain l where j: "j = Suc l" by (cases j) auto
    show ?thesis
    proof (cases i)
      case 0
      then show ?thesis using held [of l] fresh that(2) j by auto
    next
      case (Suc k)
      have "cs ! k \<noteq> cs ! l" using that cs Suc j by (simp add: nth_eq_iff_index_eq)
      then show ?thesis using held [of k] held [of l] that Suc j by auto
    qed
  qed
  then have "distinct rs" unfolding distinct_conv_nth by (metis linorder_neqE_nat)
  with held show ?thesis by blast
qed

lemma found_distinct:
  assumes ok: "state_ok rows cols S" and fresh: "ls_col_for_row S ! row = None"
    and found: "found_path A rows cols S row rs cs sink s"
  shows "distinct rs \<and> (\<forall>k. Suc k < length cs \<longrightarrow> ls_col_for_row S ! (rs ! Suc k) = Some (cs ! k))"
proof -
  obtain n where w: "walked A rows cols S rs cs n s" and rest: "cs \<noteq> []" "rs ! 0 = row" using found by (auto simp: found_path_def)
  have len: "length rs = length cs" "distinct cs" using w by (simp_all add: walked_def)
  have "distinct rs \<and> (\<forall>k. Suc k < length rs \<longrightarrow> ls_col_for_row S ! (rs ! Suc k) = Some (cs ! k))"
  proof (rule linked_distinct)
    show "matching rows cols (ls_row_for_col S) (ls_col_for_row S)" using ok by (simp add: state_ok_def)
    show "set cs \<subseteq> {..< cols}" using w by (auto simp: walked_def)
  qed (use w rest fresh len in \<open>simp_all add: walked_def\<close>)
  then show ?thesis using len by simp
qed

text \<open>The row duals can be updated if every visited row but the first has a column.\<close>

lemma those_some: "those (map (\<lambda>x. Some (f x)) xs) = Some (map f xs)"
  by (induction xs) simp_all

lemma update_row_duals_some:
  assumes "row < length duals" "\<And>r. r < length duals \<Longrightarrow> ps_visited_rows s ! r \<Longrightarrow> r \<noteq> row \<Longrightarrow> col_for_row ! r \<noteq> None"
  shows "update_row_duals A row s col_for_row duals = Some (map (\<lambda>i.
    if i = row then ar_add A (duals ! i) (ps_min s)
    else if ps_visited_rows s ! i then ar_add A (duals ! i) (ar_sub A (ps_min s) (ps_costs s ! the (col_for_row ! i)))
    else duals ! i) [0 ..< length duals])" (is "_ = Some (map ?f _)")
proof -
  have "update_row_duals A row s col_for_row duals = those (map (\<lambda>i. Some (?f i)) [0 ..< length duals])"
    unfolding update_row_duals_def Let_def length_list_update
    using assms by (intro arg_cong [where f = those] map_cong refl) (fastforce split: option.split)
  then show ?thesis by (simp add: those_some)
qed

lemma augment_matches:
  assumes ok: "state_ok rows cols S" and row: "row < rows" "ls_col_for_row S ! row = None"
    and inf: "ar_eq A (ar_infinity A) (ar_infinity A)"
  shows "augment_row A rows cols costs row S = Some (Inl Lsap_Infeasible) \<and> augmenting_path A rows cols costs S row = Some None
    \<or> (\<exists>S' sink s rs cs. augment_row A rows cols costs row S = Some (Inr S') \<and> state_ok rows cols S'
        \<and> augmenting_path A rows cols costs S row = Some (Some (sink, s)) \<and> found_path A rows cols S row rs cs sink s
        \<and> update_row_duals A row s (ls_col_for_row S) (ls_row_duals S) = Some (ls_row_duals S')
        \<and> ls_col_duals S' = update_col_duals A s (ls_col_duals S)
        \<and> (\<forall>r < rows. ls_col_for_row S' ! r \<noteq> None \<longleftrightarrow> r = row \<or> ls_col_for_row S ! r \<noteq> None)
        \<and> (\<forall>c < cols. ls_row_for_col S' ! c = ls_row_for_col S ! c \<or> c \<in> set cs \<and> ls_row_for_col S' ! c = ps_path s ! c))"
proof (cases "augmenting_path A rows cols costs S row = Some None")
  case True
  then show ?thesis by (simp add: augment_row_def)
next
  case False
  then obtain sink s rs cs where path: "augmenting_path A rows cols costs S row = Some (Some (sink, s))"
    and f: "found_path A rows cols S row rs cs sink s"
    using search_finds [OF ok row(1) inf, of costs] by (auto split: option.splits)
  obtain n where w: "walked A rows cols S rs cs n s" and f': "cs \<noteq> []" "last cs = sink" "rs ! 0 = row" "ls_row_for_col S ! sink = None"
    using f by (auto simp: found_path_def)
  have m: "matching rows cols (ls_row_for_col S) (ls_col_for_row S)" using ok by (simp add: state_ok_def)
  note distinct = found_distinct [OF ok row(2) f]
  have sets: "length rs = length cs" "distinct cs" "set rs \<subseteq> {..< rows}" "set cs \<subseteq> {..< cols}" using w by (auto simp: walked_def)
  have sink: "cs ! (length cs - 1) = sink" "sink < cols" using f' sets(4) last_in_set [of cs] by (auto simp: last_conv_nth)
  have "length rs \<le> rows" using distinct sets(3) card_mono [of "{..< rows}" "set rs"] by (simp add: distinct_card)
  then have fuel: "length cs - 1 < Suc rows" "length cs - 1 < length cs" using sets(1) f'(1) by (simp_all add: less_Suc_eq_le)
  have but: "matching_but rows cols (Some (cs ! (length cs - 1))) (ls_row_for_col S) (ls_col_for_row S)"
    unfolding matching_but_def sink(1)
  proof (intro conjI allI impI)
    fix r c assume "r < rows" "ls_col_for_row S ! r = Some c"
    from matchingD(2) [OF m this] f'(4) show "c < cols" "Some c \<noteq> Some sink" by auto
  qed (use m matchingD(1) [OF m] in \<open>auto simp: matching_but_def\<close>)
  have paths: "\<forall>j < length cs. \<exists>i \<le> j. ps_path s ! (cs ! j) = Some (rs ! i)" using w by (simp add: walked_def)
  have linked: "\<forall>k < length cs - 1. ls_col_for_row S ! (rs ! Suc k) = Some (cs ! k)"
    using distinct less_diff_conv by auto
  obtain rfc cfr where flipped: "flip_path (Suc rows) (ps_path s) row sink (ls_row_for_col S) (ls_col_for_row S) = Some (rfc, cfr)"
    "matching rows cols rfc cfr" "\<forall>r < rows. cfr ! r \<noteq> None \<longleftrightarrow> r = row \<or> ls_col_for_row S ! r \<noteq> None"
    "\<forall>c < cols. rfc ! c = ls_row_for_col S ! c \<or> c \<in> set cs \<and> rfc ! c = ps_path s ! c"
    using flip_matches [OF sets(1) conjunct1 [OF distinct] sets(2) f'(3) sets(3,4) paths fuel(2,1) but linked row(2)]
    unfolding sink(1) by blast
  have "ls_col_for_row S ! r \<noteq> None" if "r < rows" "ps_visited_rows s ! r" "r \<noteq> row" for r
  proof -
    have "r \<in> set rs" using w that by (simp add: walked_def)
    then obtain i where i: "i < length rs" "r = rs ! i" by (auto simp: in_set_conv_nth)
    with that(3) f'(3) obtain k where "i = Suc k" by (cases i) auto
    then show ?thesis using linked i sets(1) by simp
  qed
  moreover have "length (ls_row_duals S) = rows" using ok by (simp add: state_ok_def)
  ultimately obtain u where u: "update_row_duals A row s (ls_col_for_row S) (ls_row_duals S) = Some u" "length u = rows"
    using update_row_duals_some [of row "ls_row_duals S" s "ls_col_for_row S" A] row(1) by auto
  let ?S = "\<lparr>ls_row_duals = u, ls_col_duals = update_col_duals A s (ls_col_duals S), ls_path = ps_path s, ls_col_for_row = cfr, ls_row_for_col = rfc\<rparr>"
  have "augment_row A rows cols costs row S = Some (Inr ?S)" unfolding augment_row_def path by (simp only: option.case prod.case flipped(1) u(1))
  moreover have "state_ok rows cols ?S"
    using ok w flipped(2) u(2) by (simp add: state_ok_def update_col_duals_def walked_def)
  ultimately show ?thesis
    using path f flipped(3,4) u(1) by (intro disjI2 exI [of _ ?S] exI [of _ sink] exI [of _ s] exI [of _ rs] exI [of _ cs]) simp
qed

section \<open>All rows\<close>

lemma augment_rows_rule:
  assumes start: "P k S" "k \<le> rows"
    and step: "\<And>k S. k < rows \<Longrightarrow> P k S \<Longrightarrow> augment_row A rows cols costs k S = Some (Inl Lsap_Infeasible) \<and> F
      \<or> (\<exists>S'. augment_row A rows cols costs k S = Some (Inr S') \<and> P (Suc k) S')"
  shows "augment_rows A rows cols costs [k ..< rows] S = Some (Inl Lsap_Infeasible) \<and> F
    \<or> (\<exists>S'. augment_rows A rows cols costs [k ..< rows] S = Some (Inr S') \<and> P rows S')"
  using start
proof (induction "rows - k" arbitrary: k S)
  case 0
  then show ?case by simp
next
  case (Suc n)
  then have k: "k < rows" by simp
  then have upt: "[k ..< rows] = k # [Suc k ..< rows]" by (rule upt_conv_Cons)
  from step [OF k Suc.prems(1)] show ?case
  proof
    assume "augment_row A rows cols costs k S = Some (Inl Lsap_Infeasible) \<and> F"
    then show ?thesis by (simp add: upt)
  next
    assume "\<exists>S'. augment_row A rows cols costs k S = Some (Inr S') \<and> P (Suc k) S'"
    then obtain S' where S': "augment_row A rows cols costs k S = Some (Inr S')" "P (Suc k) S'" by blast
    have "n = rows - Suc k" "Suc k \<le> rows" using Suc.hyps(2) k by simp_all
    from Suc.hyps(1) [OF this(1) S'(2) this(2)] show ?thesis by (simp add: upt S'(1))
  qed
qed

definition rows_matched :: "nat \<Rightarrow> nat \<Rightarrow> nat \<Rightarrow> 'f lsap_state \<Rightarrow> bool" where
  "rows_matched rows cols k S \<longleftrightarrow> state_ok rows cols S \<and> (\<forall>r < rows. ls_col_for_row S ! r \<noteq> None \<longleftrightarrow> r < k)"

lemma rows_matched_fresh: "rows_matched rows cols 0 (fresh_state A rows cols)"
  by (simp add: rows_matched_def state_ok_def fresh_state_def matching_but_def)

lemma rows_matched_step:
  assumes "rows_matched rows cols k S" "state_ok rows cols S'"
    and "\<forall>r < rows. ls_col_for_row S' ! r \<noteq> None \<longleftrightarrow> r = k \<or> ls_col_for_row S ! r \<noteq> None"
  shows "rows_matched rows cols (Suc k) S'"
  unfolding rows_matched_def
proof (intro conjI allI impI)
  fix r assume r: "r < rows"
  have "ls_col_for_row S' ! r \<noteq> None \<longleftrightarrow> r = k \<or> ls_col_for_row S ! r \<noteq> None" using assms(3) r by blast
  moreover have "ls_col_for_row S ! r \<noteq> None \<longleftrightarrow> r < k" using assms(1) r by (simp add: rows_matched_def)
  ultimately show "ls_col_for_row S' ! r \<noteq> None \<longleftrightarrow> r < Suc k" by linarith
qed (rule assms(2))

lemma all_rows_matched:
  fixes A :: "'f arithmetic"
  assumes inf: "ar_eq A (ar_infinity A) (ar_infinity A)"
  shows "augment_rows A rows cols costs [0 ..< rows] (fresh_state A rows cols) = Some (Inl Lsap_Infeasible)
    \<or> (\<exists>S :: 'f lsap_state. augment_rows A rows cols costs [0 ..< rows] (fresh_state A rows cols) = Some (Inr S) \<and> rows_matched rows cols rows S)"
proof -
  have "augment_rows A rows cols costs [0 ..< rows] (fresh_state A rows cols) = Some (Inl Lsap_Infeasible) \<and> True
    \<or> (\<exists>S :: 'f lsap_state. augment_rows A rows cols costs [0 ..< rows] (fresh_state A rows cols) = Some (Inr S) \<and> rows_matched rows cols rows S)"
  proof (rule augment_rows_rule [where P = "rows_matched rows cols"])
    fix k and S :: "'f lsap_state" assume k: "k < rows" "rows_matched rows cols k S"
    then have "state_ok rows cols S" "ls_col_for_row S ! k = None" by (auto simp: rows_matched_def)
    from augment_matches [OF this(1) k(1) this(2) inf] rows_matched_step [OF k(2)]
    show "augment_row A rows cols costs k S = Some (Inl Lsap_Infeasible) \<and> True
      \<or> (\<exists>S'. augment_row A rows cols costs k S = Some (Inr S') \<and> rows_matched rows cols (Suc k) S')" by blast
  qed (simp_all add: rows_matched_fresh)
  then show ?thesis by blast
qed

text \<open>The indices that the solver writes for a complete matching.\<close>

definition column_of :: "'f lsap_state \<Rightarrow> nat \<Rightarrow> nat" where
  "column_of S row = the (ls_col_for_row S ! row)"

definition written :: "bool \<Rightarrow> nat \<Rightarrow> 'f lsap_state \<Rightarrow> (int \<times> int) list" where
  "written turned m S =
     (let column = (\<lambda>row. index_value (ls_col_for_row S ! row))
      in if turned then map (\<lambda>row. (column row, int row)) (sort_key column [0 ..< m])
         else map (\<lambda>row. (int row, column row)) [0 ..< m])"

lemma complete_columns:
  assumes "rows_matched rows cols rows S"
  shows "row < rows \<Longrightarrow> ls_col_for_row S ! row = Some (column_of S row) \<and> column_of S row < cols"
    and "inj_on (column_of S) {..< rows}"
proof -
  have m: "matching rows cols (ls_row_for_col S) (ls_col_for_row S)" using assms by (simp add: rows_matched_def state_ok_def)
  have some: "ls_col_for_row S ! row = Some (column_of S row)" if "row < rows" for row
    using assms that by (auto simp: rows_matched_def column_of_def)
  show "ls_col_for_row S ! row = Some (column_of S row) \<and> column_of S row < cols" if "row < rows"
    using some [OF that] matchingD(2) [OF m that] by blast
  show "inj_on (column_of S) {..< rows}"
  proof (rule inj_onI)
    fix r r' assume r: "r \<in> {..< rows}" "r' \<in> {..< rows}" "column_of S r = column_of S r'"
    then have "r < rows" "r' < rows" by simp_all
    have "ls_row_for_col S ! column_of S r = Some r" using matchingD(2) [OF m \<open>r < rows\<close> some [OF \<open>r < rows\<close>]] by blast
    moreover have "ls_row_for_col S ! column_of S r' = Some r'" using matchingD(2) [OF m \<open>r' < rows\<close> some [OF \<open>r' < rows\<close>]] by blast
    ultimately show "r = r'" unfolding r(3) by simp
  qed
qed

lemma written_entries:
  assumes "rows_matched m n m S"
  shows "length (written turned m S) = m
    \<and> set (written turned m S) = (\<lambda>r. if turned then (int (column_of S r), int r) else (int r, int (column_of S r))) ` {..< m}
    \<and> sorted_wrt (<) (map fst (written turned m S)) \<and> distinct (map snd (written turned m S))"
proof -
  let ?column = "\<lambda>row. index_value (ls_col_for_row S ! row)"
  note columns = complete_columns [OF assms]
  have v: "?column r = int (column_of S r)" if "r < m" for r using columns(1) [OF that] by (simp add: index_value_def)
  then have inj: "inj_on ?column {..< m}" using columns(2) by (auto simp: inj_on_def)
  have "set (written turned m S) = (\<lambda>r. if turned then (?column r, int r) else (int r, ?column r)) ` {..< m}"
    by (auto simp: written_def Let_def)
  also have "\<dots> = (\<lambda>r. if turned then (int (column_of S r), int r) else (int r, int (column_of S r))) ` {..< m}"
    using v by (intro image_cong) auto
  finally have entries: "set (written turned m S) = \<dots>" .
  show ?thesis
  proof (cases turned)
    case True
    then have map_fst: "map fst (written turned m S) = map ?column (sort_key ?column [0 ..< m])"
      and map_snd: "map snd (written turned m S) = map int (sort_key ?column [0 ..< m])"
      by (simp_all add: written_def Let_def)
    have "distinct (map ?column (sort_key ?column [0 ..< m]))" using inj by (simp add: distinct_map lessThan_atLeast0)
    moreover have "sorted (map ?column (sort_key ?column [0 ..< m]))" by simp
    ultimately have "sorted_wrt (<) (map fst (written turned m S))"
      unfolding map_fst strict_sorted_iff by blast
    moreover have "distinct (map snd (written turned m S))" by (simp add: map_snd distinct_map)
    moreover have "length (written turned m S) = m" by (simp add: written_def Let_def)
    ultimately show ?thesis using entries by simp
  next
    case False
    then have map_fst: "map fst (written turned m S) = map int [0 ..< m]" and map_snd: "map snd (written turned m S) = map ?column [0 ..< m]"
      by (simp_all add: written_def Let_def)
    have "sorted_wrt (<) (map fst (written turned m S))" unfolding map_fst by (simp add: sorted_wrt_map)
    moreover have "distinct (map snd (written turned m S))" unfolding map_snd using inj by (simp add: distinct_map lessThan_atLeast0)
    moreover have "length (written turned m S) = m" using False by (simp add: written_def Let_def)
    ultimately show ?thesis using entries by simp
  qed
qed

lemma solver_result:
  fixes A :: "'f arithmetic"
  assumes inf: "ar_eq A (ar_infinity A) (ar_infinity A)" and result: "solve_assignment A rows cols costs maximize = r" and size: "0 < rows" "0 < cols"
  shows "r = Some (Lsap_Invalid, []) \<or> r = Some (Lsap_Infeasible, [])
    \<or> (\<exists>S :: 'f lsap_state. rows_matched (min rows cols) (max rows cols) (min rows cols) S \<and> r = Some (Lsap_Ok, written (cols < rows) (min rows cols) S))"
proof -
  let ?m = "min rows cols" and ?n = "max rows cols" and ?input = "prepared_costs A rows cols maximize costs"
  show ?thesis
  proof (cases "list_ex (\<lambda>x. \<not> ar_eq A x x \<or> ar_eq A x (ar_neg A (ar_infinity A))) ?input")
    case True
    then show ?thesis using size unfolding result [symmetric] by (simp add: solve_assignment_def Let_def)
  next
    case False
    have unfolded: "r = (case augment_rows A ?m ?n ?input [0 ..< ?m] (fresh_state A ?m ?n) of None \<Rightarrow> None
        | Some (Inl e) \<Rightarrow> Some (e, []) | Some (Inr S) \<Rightarrow> Some (Lsap_Ok, written (cols < rows) ?m S))"
      using False size unfolding result [symmetric] solve_assignment_def written_def by (simp only: Let_def if_False) simp
    from all_rows_matched [OF inf, of ?m ?n ?input] show ?thesis
    proof
      assume "augment_rows A ?m ?n ?input [0 ..< ?m] (fresh_state A ?m ?n) = Some (Inl Lsap_Infeasible)"
      then show ?thesis by (simp add: unfolded)
    next
      assume "\<exists>S. augment_rows A ?m ?n ?input [0 ..< ?m] (fresh_state A ?m ?n) = Some (Inr S) \<and> rows_matched ?m ?n ?m S"
      then obtain S where "augment_rows A ?m ?n ?input [0 ..< ?m] (fresh_state A ?m ?n) = Some (Inr S)" "rows_matched ?m ?n ?m S" by blast
      moreover from this(1) have "r = Some (Lsap_Ok, written (cols < rows) ?m S)" by (simp add: unfolded)
      ultimately show ?thesis by (intro disjI2 exI [of _ S] conjI)
    qed
  qed
qed

section \<open>Properties\<close>

text \<open>C32: The solver returns on every input and never reads an index that is not set, be it the index of a scan, a step of
  the path, or the column of a visited row in the update of the duals; unless it succeeds it writes nothing.\<close>

theorem assignment_returns:
  assumes "ar_eq A (ar_infinity A) (ar_infinity A)"
  shows "\<exists>status pairs. solve_assignment A rows cols costs maximize = Some (status, pairs) \<and> (status = Lsap_Ok \<or> pairs = [])"
proof (cases "rows = 0 \<or> cols = 0")
  case True
  then show ?thesis by (auto simp: solve_assignment_def)
next
  case False
  then show ?thesis using solver_result [OF assms refl, of rows cols costs maximize] by auto
qed

text \<open>C30: Whatever the arithmetic computes, what the solver returns is a matching: as many pairs as the smaller side has
  elements, the rows ascending, no row and no column twice, every index in range.\<close>

theorem assignment_is_matching:
  fixes A :: "'f arithmetic"
  assumes "ar_eq A (ar_infinity A) (ar_infinity A)" "solve_assignment A rows cols costs maximize = Some (Lsap_Ok, pairs)"
  shows "length pairs = min rows cols \<and> sorted_wrt (<) (map fst pairs) \<and> distinct (map snd pairs)
    \<and> set (map fst pairs) \<subseteq> {0 ..< int rows} \<and> set (map snd pairs) \<subseteq> {0 ..< int cols}"
proof (cases "rows = 0 \<or> cols = 0")
  case True
  then show ?thesis using assms(2) by (auto simp: solve_assignment_def)
next
  case False
  then obtain S :: "'f lsap_state" where S: "rows_matched (min rows cols) (max rows cols) (min rows cols) S" "pairs = written (cols < rows) (min rows cols) S"
    using solver_result [OF assms(1,2)] by auto
  note entries = written_entries [OF S(1), of "cols < rows"]
  have "set pairs \<subseteq> {0 ..< int rows} \<times> {0 ..< int cols}"
    using entries complete_columns(1) [OF S(1)] unfolding S(2) by (auto split: if_splits)
  then have "set (map fst pairs) \<subseteq> {0 ..< int rows} \<and> set (map snd pairs) \<subseteq> {0 ..< int cols}" by auto
  then show ?thesis using entries unfolding S(2) by blast
qed

section \<open>An instance\<close>

text \<open>A small arithmetic that saturates: 100 is its infinity.\<close>

definition saturating :: "int arithmetic" where
  "saturating = \<lparr>ar_zero = 0, ar_infinity = 100, ar_add = (\<lambda>x y. min 100 (x + y)), ar_sub = (\<lambda>x y. min 100 (x - y)),
     ar_neg = uminus, ar_less = (<), ar_eq = (=)\<rparr>"

lemma saturating_run: "solve_assignment saturating 2 3 [4, 1, 3, 2, 0, 5] False = Some (Lsap_Ok, [(0, 1), (1, 0)])"
  by code_simp

lemma saturating_turned: "solve_assignment saturating 3 2 [4, 2, 1, 0, 3, 5] False = Some (Lsap_Ok, [(0, 1), (1, 0)])"
  by code_simp

theorem assignment_is_matching_witness:
  "distinct (map snd [(0, 1), (1, 0) :: int \<times> int])
   \<and> solve_assignment saturating 2 3 [4, 1, 3, 2, 0, 5] False = Some (Lsap_Ok, [(0, 1), (1, 0)])"
  using assignment_is_matching [OF _ saturating_run] saturating_run by (simp add: saturating_def)

theorem assignment_returns_witness:
  "solve_assignment saturating 2 2 [100, 100, 100, 100] False \<noteq> None"
  using assignment_returns [of saturating 2 2 "[100, 100, 100, 100]" False] by (auto simp: saturating_def)

end
