(* ===== verification/Assignment_Optimal.thy ===== *)
theory Assignment_Optimal
  imports Assignment_Solver
begin

text \<open>
  The solver of \<open>scipy_rectangular_lsap.cpp\<close> with an exact arithmetic: when no operation rounds, the matching it returns
  has the least total cost (the greatest, when it maximises), and it reports that there is none only if there is none.
  The duals stay feasible and tight on the matching, which is what the search of a shortest path gives.
\<close>

section \<open>Exact arithmetic\<close>

datatype 'a exact = Number 'a | Pos_Infinity | Neg_Infinity | Not_A_Number

fun exact_neg :: "'a::linordered_ab_group_add exact \<Rightarrow> 'a exact" where
  "exact_neg (Number a) = Number (- a)"
| "exact_neg Pos_Infinity = Neg_Infinity"
| "exact_neg Neg_Infinity = Pos_Infinity"
| "exact_neg Not_A_Number = Not_A_Number"

fun exact_add :: "'a::linordered_ab_group_add exact \<Rightarrow> 'a exact \<Rightarrow> 'a exact" where
  "exact_add (Number a) (Number b) = Number (a + b)"
| "exact_add Not_A_Number y = Not_A_Number"
| "exact_add x Not_A_Number = Not_A_Number"
| "exact_add Pos_Infinity Neg_Infinity = Not_A_Number"
| "exact_add Neg_Infinity Pos_Infinity = Not_A_Number"
| "exact_add Pos_Infinity y = Pos_Infinity"
| "exact_add Neg_Infinity y = Neg_Infinity"
| "exact_add x Pos_Infinity = Pos_Infinity"
| "exact_add x Neg_Infinity = Neg_Infinity"

fun exact_less :: "'a::linordered_ab_group_add exact \<Rightarrow> 'a exact \<Rightarrow> bool" where
  "exact_less (Number a) (Number b) = (a < b)"
| "exact_less (Number a) Pos_Infinity = True"
| "exact_less Neg_Infinity (Number b) = True"
| "exact_less Neg_Infinity Pos_Infinity = True"
| "exact_less x y = False"

definition exact_arithmetic :: "'a::linordered_ab_group_add exact arithmetic" where
  "exact_arithmetic = \<lparr>ar_zero = Number 0, ar_infinity = Pos_Infinity, ar_add = exact_add,
     ar_sub = (\<lambda>x y. exact_add x (exact_neg y)), ar_neg = exact_neg, ar_less = exact_less,
     ar_eq = (\<lambda>x y. x = y \<and> x \<noteq> Not_A_Number)\<rparr>"

lemma exact_simps [simp]:
  "ar_zero exact_arithmetic = Number 0" "ar_infinity exact_arithmetic = Pos_Infinity" "ar_add exact_arithmetic = exact_add"
  "ar_sub exact_arithmetic x y = exact_add x (exact_neg y)" "ar_neg exact_arithmetic = exact_neg"
  "ar_less exact_arithmetic = exact_less" "ar_eq exact_arithmetic x y \<longleftrightarrow> x = y \<and> x \<noteq> Not_A_Number"
  by (simp_all add: exact_arithmetic_def)

fun number :: "'a::zero exact \<Rightarrow> 'a" where
  "number (Number a) = a"
| "number x = 0"

definition is_cost :: "'a exact \<Rightarrow> bool" where
  "is_cost x \<longleftrightarrow> x = Pos_Infinity \<or> (\<exists>a. x = Number a)"

lemma is_cost_simps [simp]: "is_cost (Number a)" "is_cost Pos_Infinity" "\<not> is_cost Neg_Infinity" "\<not> is_cost Not_A_Number"
  by (simp_all add: is_cost_def)

lemma is_costE: "is_cost x \<Longrightarrow> (x = Pos_Infinity \<Longrightarrow> P) \<Longrightarrow> (\<And>a. x = Number a \<Longrightarrow> P) \<Longrightarrow> P"
  by (auto simp: is_cost_def)

section \<open>The scan finds the least cost\<close>

lemma probe_lowest:
  assumes "probe exact_arithmetic cols costs S row i (s, lowest, index) = (s', lowest', index')"
    and "is_cost lowest" "is_cost (ps_costs s' ! (ps_remaining s ! i))"
  shows "is_cost lowest' \<and> \<not> exact_less (ps_costs s' ! (ps_remaining s ! i)) lowest' \<and> \<not> exact_less lowest lowest'"
  using assms unfolding probe_def
  by (auto simp: Let_def elim!: is_costE split: if_splits)

lemma exact_less_trans: "is_cost x \<Longrightarrow> is_cost y \<Longrightarrow> is_cost z \<Longrightarrow> \<not> exact_less x y \<Longrightarrow> \<not> exact_less y z \<Longrightarrow> \<not> exact_less x z"
  by (auto elim!: is_costE)

lemma remaining_mem: "j < n \<Longrightarrow> n \<le> length xs \<Longrightarrow> xs ! j \<in> set (take n xs)"
  by (auto simp: in_set_conv_nth)

lemma mem_remaining: "x \<in> set (take n xs) \<Longrightarrow> \<exists>j < n. xs ! j = x"
  by (auto simp: in_set_conv_nth)

lemma scan_lowest:
  assumes n: "n \<le> length (ps_remaining s)" "distinct (take n (ps_remaining s))"
    "\<forall>col \<in> set (take n (ps_remaining s)). col < length (ps_path s) \<and> col < length (ps_costs s)"
    and costs: "\<And>col. col \<in> set (take n (ps_remaining s)) \<Longrightarrow> is_cost (ps_costs s ! col)
        \<and> (exact_less (reduced_cost exact_arithmetic cols costs S (ps_min s) row col) (ps_costs s ! col) \<longrightarrow>
             is_cost (reduced_cost exact_arithmetic cols costs S (ps_min s) row col))"
    and "k \<le> n" "fold (probe exact_arithmetic cols costs S row) [0 ..< k] (s, Pos_Infinity, None) = (s', lowest, index)"
  shows "is_cost lowest \<and> (\<forall>j < k. \<not> exact_less (ps_costs s' ! (ps_remaining s ! j)) lowest)"
  using assms(5,6)
proof (induction k arbitrary: s' lowest index)
  case (Suc k)
  obtain s1 low1 ix1 where prior: "fold (probe exact_arithmetic cols costs S row) [0 ..< k] (s, Pos_Infinity, None) = (s1, low1, ix1)"
    by (metis prod_cases3)
  then have step: "probe exact_arithmetic cols costs S row k (s1, low1, ix1) = (s', lowest, index)" using Suc.prems(2) by simp
  have IH: "is_cost low1" "\<forall>j < k. \<not> exact_less (ps_costs s1 ! (ps_remaining s ! j)) low1"
    using Suc.IH [OF _ prior] Suc.prems(1) by simp_all
  have s1: "scanned exact_arithmetic cols costs S row (take k (ps_remaining s)) s s1"
    using scan_prefix [OF _ n, of k exact_arithmetic cols costs S row s1 low1 ix1] prior Suc.prems(1) by simp
  have s2: "scanned exact_arithmetic cols costs S row (take (Suc k) (ps_remaining s)) s s'"
    using scan_prefix [OF _ n, of "Suc k" exact_arithmetic cols costs S row s' lowest index] Suc.prems by simp
  have at: "ps_remaining s ! j \<in> set (take n (ps_remaining s))" "ps_remaining s ! j \<in> set (take (Suc k) (ps_remaining s))"
    if "j < Suc k" for j
    using that Suc.prems(1) n(1) by (intro remaining_mem; simp)+
  have cost: "is_cost (ps_costs s' ! (ps_remaining s ! j))" if "j < Suc k" for j
    using s2 at [OF that] costs [OF at(1) [OF that]] by (auto simp: scanned_def improves_def)
  have rem: "ps_remaining s1 = ps_remaining s" using s1 by (simp add: scanned_def)
  note new = probe_lowest [OF step IH(1), unfolded rem, OF cost [OF lessI]]
  have "\<not> exact_less (ps_costs s' ! (ps_remaining s ! j)) lowest" if "j < Suc k" for j
  proof (cases "j = k")
    case True
    then show ?thesis using new by simp
  next
    case False
    then have j: "j < k" using that by simp
    have "ps_remaining s ! j \<in> set (take k (ps_remaining s))" using j Suc.prems(1) n(1) by (intro remaining_mem) simp_all
    then have "ps_costs s1 ! (ps_remaining s ! j) = ps_costs s' ! (ps_remaining s ! j)"
      using s1 s2 at(2) [OF that] by (simp add: scanned_def)
    moreover have "\<not> exact_less (ps_costs s1 ! (ps_remaining s ! j)) low1" using IH(2) j by blast
    ultimately have "\<not> exact_less (ps_costs s' ! (ps_remaining s ! j)) low1" by metis
    then show ?thesis using exact_less_trans [OF cost [OF that] IH(1)] new by blast
  qed
  then show ?case using new by blast
qed simp

section \<open>Distances\<close>

definition entry :: "'f list \<Rightarrow> nat \<Rightarrow> nat \<Rightarrow> nat \<Rightarrow> 'f" where
  "entry costs cols r c = costs ! (r * cols + c)"

definition duals_are :: "(nat \<Rightarrow> 'a) \<Rightarrow> (nat \<Rightarrow> 'a) \<Rightarrow> nat \<Rightarrow> nat \<Rightarrow> 'a exact lsap_state \<Rightarrow> bool" where
  "duals_are u v rows cols S \<longleftrightarrow> ls_row_duals S = map (\<lambda>r. Number (u r)) [0 ..< rows]
     \<and> ls_col_duals S = map (\<lambda>c. Number (v c)) [0 ..< cols]"

lemma reduced_number:
  assumes "duals_are u v rows cols S" "r < rows" "c < cols"
  shows "entry costs cols r c = Number a \<Longrightarrow>
      reduced_cost exact_arithmetic cols costs S (Number m) r c = Number (m + a - u r - v c)"
    and "entry costs cols r c = Pos_Infinity \<Longrightarrow> reduced_cost exact_arithmetic cols costs S (Number m) r c = Pos_Infinity"
  using assms by (simp_all add: reduced_cost_def duals_are_def entry_def)

text \<open>The distance of the \<open>i\<close>th row that was visited: the cost of the column that led to it.\<close>

definition dist :: "'a::zero exact path_search \<Rightarrow> nat list \<Rightarrow> nat \<Rightarrow> 'a" where
  "dist s cs i = (if i = 0 then 0 else number (ps_costs s ! (cs ! (i - 1))))"

text \<open>The row \<open>r\<close> keeps the duals feasible.\<close>

definition row_feasible :: "'a::linordered_ab_group_add exact list \<Rightarrow> nat \<Rightarrow> (nat \<Rightarrow> 'a) \<Rightarrow> (nat \<Rightarrow> 'a) \<Rightarrow> nat \<Rightarrow> bool" where
  "row_feasible costs cols u v r \<longleftrightarrow> (\<forall>c < cols. \<forall>a. entry costs cols r c = Number a \<longrightarrow> u r + v c \<le> a)"

text \<open>The cost of a column is that of an edge from a visited row.\<close>

definition reached :: "'a::linordered_ab_group_add exact list \<Rightarrow> nat \<Rightarrow> (nat \<Rightarrow> 'a) \<Rightarrow> (nat \<Rightarrow> 'a) \<Rightarrow> nat list \<Rightarrow> nat list
    \<Rightarrow> 'a exact path_search \<Rightarrow> nat \<Rightarrow> nat \<Rightarrow> bool" where
  "reached costs cols u v rs cs s c i \<longleftrightarrow> ps_path s ! c = Some (rs ! i) \<and> (\<exists>a. entry costs cols (rs ! i) c = Number a
     \<and> ps_costs s ! c = Number (dist s cs i + a - u (rs ! i) - v c))"

definition priced :: "'a::linordered_ab_group_add exact list \<Rightarrow> nat \<Rightarrow> (nat \<Rightarrow> 'a) \<Rightarrow> (nat \<Rightarrow> 'a) \<Rightarrow> nat list \<Rightarrow> nat list \<Rightarrow> nat
    \<Rightarrow> 'a exact path_search \<Rightarrow> bool" where
  "priced costs cols u v rs cs n s \<longleftrightarrow>
     (\<forall>c < cols. is_cost (ps_costs s ! c)) \<and> ps_min s = Number (dist s cs (length cs))
   \<and> (\<forall>j < length cs. \<exists>i \<le> j. reached costs cols u v rs cs s (cs ! j) i)
   \<and> (\<forall>c \<in> set (take n (ps_remaining s)). ps_costs s ! c = Pos_Infinity \<or> (\<exists>i < length rs. reached costs cols u v rs cs s c i))
   \<and> (\<forall>i < length rs. \<forall>c < cols. \<forall>a. entry costs cols (rs ! i) c = Number a \<longrightarrow>
        (\<exists>b. ps_costs s ! c = Number b \<and> b \<le> dist s cs i + a - u (rs ! i) - v c))
   \<and> (\<forall>i j. 1 \<le> i \<longrightarrow> i \<le> j \<longrightarrow> j \<le> length cs \<longrightarrow> dist s cs i \<le> dist s cs j)
   \<and> (cs \<noteq> [] \<longrightarrow> (\<forall>c \<in> set (take n (ps_remaining s)). \<forall>b. ps_costs s ! c = Number b \<longrightarrow> dist s cs (length cs) \<le> b))"

lemma pricedD:
  assumes "priced costs cols u v rs cs n s"
  shows "c < cols \<Longrightarrow> is_cost (ps_costs s ! c)" "ps_min s = Number (dist s cs (length cs))"
    and "j < length cs \<Longrightarrow> \<exists>i \<le> j. reached costs cols u v rs cs s (cs ! j) i"
    and "c \<in> set (take n (ps_remaining s)) \<Longrightarrow> ps_costs s ! c = Pos_Infinity \<or> (\<exists>i < length rs. reached costs cols u v rs cs s c i)"
    and "i < length rs \<Longrightarrow> c < cols \<Longrightarrow> entry costs cols (rs ! i) c = Number a \<Longrightarrow>
        \<exists>b. ps_costs s ! c = Number b \<and> b \<le> dist s cs i + a - u (rs ! i) - v c"
    and "1 \<le> i \<Longrightarrow> i \<le> j \<Longrightarrow> j \<le> length cs \<Longrightarrow> dist s cs i \<le> dist s cs j"
    and "cs \<noteq> [] \<Longrightarrow> c \<in> set (take n (ps_remaining s)) \<Longrightarrow> ps_costs s ! c = Number b \<Longrightarrow> dist s cs (length cs) \<le> b"
  using assms unfolding priced_def by blast+

lemma priced_fresh: "priced costs cols u v [] [] cols (fresh_search exact_arithmetic rows cols S)"
  by (auto simp: priced_def fresh_search_def dist_def)

lemma priced_visited:
  assumes "priced costs cols u v rs cs n s" "j < length cs"
  shows "ps_costs s ! (cs ! j) = Number (dist s cs (Suc j))"
  using pricedD(3) [OF assms] by (auto simp: reached_def dist_def)

text \<open>What the scan from a row leaves: the costs, and the least of them.\<close>

lemma scan_costs:
  assumes w: "walked exact_arithmetic rows cols S rs cs (Suc n) s" and p: "priced costs cols u v rs cs (Suc n) s"
    and duals: "duals_are u v rows cols S" and row: "row < rows" and input: "\<forall>c < cols. is_cost (entry costs cols row c)"
    and scan: "scan exact_arithmetic cols costs S row (Suc n) (visit_row row s) = (s', lowest, index)"
  defines "m \<equiv> dist s cs (length cs)" and "rem \<equiv> take (Suc n) (ps_remaining s)"
  shows "(\<forall>c \<in> set rem. is_cost (ps_costs s' ! c) \<and> \<not> exact_less (ps_costs s' ! c) lowest
      \<and> (ps_costs s' ! c = ps_costs s ! c \<and> ps_path s' ! c = ps_path s ! c
         \<or> (\<exists>a. entry costs cols row c = Number a \<and> ps_costs s' ! c = Number (m + a - u row - v c) \<and> ps_path s' ! c = Some row))
      \<and> (\<forall>a. entry costs cols row c = Number a \<longrightarrow> (\<exists>b. ps_costs s' ! c = Number b \<and> b \<le> m + a - u row - v c))
      \<and> (\<forall>b. ps_costs s ! c = Number b \<longrightarrow> (\<exists>b'. ps_costs s' ! c = Number b' \<and> b' \<le> b)))
    \<and> (\<forall>c. c \<notin> set rem \<longrightarrow> ps_costs s' ! c = ps_costs s ! c \<and> ps_path s' ! c = ps_path s ! c) \<and> is_cost lowest"
proof -
  have sc: "scanned exact_arithmetic cols costs S row rem (visit_row row s) s'"
    using walked_scan [OF w scan] by (simp add: rem_def)
  have min: "ps_min s = Number m" using pricedD(2) [OF p] by (simp add: m_def)
  have below: "c < cols" if "c \<in> set rem" for c using w that by (auto simp: walked_def rem_def)
  have new: "ps_costs s' ! c = (if c \<in> set rem \<and> exact_less (reduced_cost exact_arithmetic cols costs S (Number m) row c) (ps_costs s ! c)
        then reduced_cost exact_arithmetic cols costs S (Number m) row c else ps_costs s ! c)"
    "ps_path s' ! c = (if c \<in> set rem \<and> exact_less (reduced_cost exact_arithmetic cols costs S (Number m) row c) (ps_costs s ! c)
        then Some row else ps_path s ! c)" for c
    using sc by (simp_all add: scanned_def improves_def visit_row_def min)
  have reduced: "entry costs cols row c = Pos_Infinity \<and> reduced_cost exact_arithmetic cols costs S (Number m) row c = Pos_Infinity
      \<or> (\<exists>a. entry costs cols row c = Number a \<and> reduced_cost exact_arithmetic cols costs S (Number m) row c = Number (m + a - u row - v c))"
    if "c \<in> set rem" for c
    using input below [OF that] reduced_number [OF duals row below [OF that]] by (auto elim!: is_costE)
  have old: "is_cost (ps_costs s ! c)" if "c \<in> set rem" for c using pricedD(1) [OF p below [OF that]] .
  have low: "is_cost lowest \<and> (\<forall>j < Suc n. \<not> exact_less (ps_costs s' ! (ps_remaining s ! j)) lowest)"
  proof -
    let ?s = "visit_row row s"
    have same: "ps_remaining ?s = ps_remaining s" "ps_path ?s = ps_path s" "ps_costs ?s = ps_costs s" "ps_min ?s = Number m"
      by (simp_all add: visit_row_def min)
    have "Suc n \<le> length (ps_remaining ?s)" "distinct (take (Suc n) (ps_remaining ?s))"
      "\<forall>col \<in> set (take (Suc n) (ps_remaining ?s)). col < length (ps_path ?s) \<and> col < length (ps_costs ?s)"
      using w below unfolding same by (auto simp: walked_def rem_def)
    moreover have "is_cost (ps_costs ?s ! c) \<and> (exact_less (reduced_cost exact_arithmetic cols costs S (ps_min ?s) row c) (ps_costs ?s ! c) \<longrightarrow>
        is_cost (reduced_cost exact_arithmetic cols costs S (ps_min ?s) row c))" if "c \<in> set (take (Suc n) (ps_remaining ?s))" for c
      using that old [of c] reduced [of c] unfolding same rem_def by auto
    ultimately show ?thesis
      using scan_lowest [of "Suc n" ?s cols costs S row "Suc n" s' lowest index] scan unfolding same by (simp add: scan_def)
  qed
  have least: "\<not> exact_less (ps_costs s' ! c) lowest" if "c \<in> set rem" for c
  proof -
    have "\<exists>j < Suc n. ps_remaining s ! j = c" by (rule mem_remaining) (use that in \<open>simp add: rem_def\<close>)
    then show ?thesis using low by blast
  qed
  show ?thesis
  proof (intro conjI ballI)
    fix c assume c: "c \<in> set rem"
    note r = reduced [OF c] and o = old [OF c]
    show "is_cost (ps_costs s' ! c)" using r o by (auto simp: new)
    show "\<not> exact_less (ps_costs s' ! c) lowest" by (rule least [OF c])
    show "ps_costs s' ! c = ps_costs s ! c \<and> ps_path s' ! c = ps_path s ! c
         \<or> (\<exists>a. entry costs cols row c = Number a \<and> ps_costs s' ! c = Number (m + a - u row - v c) \<and> ps_path s' ! c = Some row)"
      using r c by (auto simp: new)
    show "\<forall>a. entry costs cols row c = Number a \<longrightarrow> (\<exists>b. ps_costs s' ! c = Number b \<and> b \<le> m + a - u row - v c)"
      using r o c by (auto simp: new elim!: is_costE)
    show "\<forall>b. ps_costs s ! c = Number b \<longrightarrow> (\<exists>b'. ps_costs s' ! c = Number b' \<and> b' \<le> b)"
      using r c by (auto simp: new)
  next
    show "\<forall>c. c \<notin> set rem \<longrightarrow> ps_costs s' ! c = ps_costs s ! c \<and> ps_path s' ! c = ps_path s ! c" by (simp add: new)
    show "is_cost lowest" using low by blast
  qed
qed

lemma priced_step:
  assumes w: "walked exact_arithmetic rows cols S rs cs (Suc n) s" and p: "priced costs cols u v rs cs (Suc n) s"
    and duals: "duals_are u v rows cols S" and row: "row < rows" and input: "\<forall>c < cols. is_cost (entry costs cols row c)"
    and feasible: "cs \<noteq> [] \<Longrightarrow> row_feasible costs cols u v row"
    and scan: "scan exact_arithmetic cols costs S row (Suc n) (visit_row row s) = (s', lowest, Some i)"
    and finite: "\<not> ar_eq exact_arithmetic lowest (ar_infinity exact_arithmetic)"
  shows "priced costs cols u v (rs @ [row]) (cs @ [ps_remaining s' ! i]) n (take_column lowest i n s')"
proof -
  let ?col = "ps_remaining s' ! i" and ?t = "take_column lowest i n s'" and ?m = "dist s cs (length cs)"
  let ?rs = "rs @ [row]" and ?cs = "cs @ [ps_remaining s' ! i]"
  define rem where "rem = take (Suc n) (ps_remaining s)"
  have sc: "scanned exact_arithmetic cols costs S row rem (visit_row row s) s'"
    and i: "i < Suc n" "lowest = ps_costs s' ! (ps_remaining s ! i)" "ps_remaining s ! i \<in> set rem"
    using walked_scan [OF w scan] by (simp_all add: rem_def)
  have col: "?col = ps_remaining s ! i" using sc by (simp add: scanned_def visit_row_def)
  note costs = scan_costs [OF w p duals row input scan, folded rem_def]
  have kept: "ps_costs s' ! c = ps_costs s ! c \<and> ps_path s' ! c = ps_path s ! c" if "c \<notin> set rem" for c using costs that by blast
  have moved: "is_cost (ps_costs s' ! c)" "\<not> exact_less (ps_costs s' ! c) lowest"
    "ps_costs s' ! c = ps_costs s ! c \<and> ps_path s' ! c = ps_path s ! c
         \<or> (\<exists>a. entry costs cols row c = Number a \<and> ps_costs s' ! c = Number (?m + a - u row - v c) \<and> ps_path s' ! c = Some row)"
    "entry costs cols row c = Number a \<Longrightarrow> \<exists>b. ps_costs s' ! c = Number b \<and> b \<le> ?m + a - u row - v c"
    "ps_costs s ! c = Number b \<Longrightarrow> \<exists>b'. ps_costs s' ! c = Number b' \<and> b' \<le> b"
    if "c \<in> set rem" for c a b using costs that by blast+
  obtain l where l: "lowest = Number l" using moved(1) [OF i(3)] finite i(2) by (auto elim!: is_costE)
  have least: "l \<le> b" if "c \<in> set rem" "ps_costs s' ! c = Number b" for c b using moved(2) [OF that(1)] that(2) l by simp
  have part: "set cs \<inter> set rem = {}" "set cs \<union> set rem = {..< cols}" "length rs = length cs"
    using w by (simp_all add: walked_def rem_def)
  have t: "ps_costs ?t = ps_costs s'" "ps_path ?t = ps_path s'" "ps_min ?t = Number l"
    "set (take n (ps_remaining ?t)) = set rem - {?col}"
  proof -
    have "ps_remaining s' = ps_remaining s" using sc by (simp add: scanned_def visit_row_def)
    then show "set (take n (ps_remaining ?t)) = set rem - {?col}"
      using take_swap [of i n "ps_remaining s"] w i(1) unfolding rem_def by (simp add: take_column_def walked_def)
  qed (simp_all add: take_column_def l)
  have visited: "ps_costs s' ! (cs ! j) = ps_costs s ! (cs ! j) \<and> ps_path s' ! (cs ! j) = ps_path s ! (cs ! j)" if "j < length cs" for j
    using kept part(1) nth_mem [OF that] by blast
  have far: "dist ?t ?cs j = dist s cs j" if "j \<le> length cs" for j
    using that visited [of "j - 1"] by (auto simp: dist_def t nth_append)
  have last: "dist ?t ?cs (Suc (length cs)) = l" using l i(2) unfolding dist_def t(1) col by simp
  have reach_old: "reached costs cols u v ?rs ?cs ?t c k"
    if "reached costs cols u v rs cs s c k" "k < length rs" "ps_costs s' ! c = ps_costs s ! c" "ps_path s' ! c = ps_path s ! c" for c k
    using that part(3) far [of k] by (simp add: reached_def t nth_append)
  have reach_new: "\<exists>k < length ?rs. reached costs cols u v ?rs ?cs ?t c k" if c: "c \<in> set rem" "ps_costs s' ! c \<noteq> Pos_Infinity" for c
    using moved(3) [OF c(1)]
  proof
    assume same: "ps_costs s' ! c = ps_costs s ! c \<and> ps_path s' ! c = ps_path s ! c"
    then obtain k where "k < length rs" "reached costs cols u v rs cs s c k"
      using pricedD(4) [OF p c(1) [unfolded rem_def]] c(2) by auto
    with same have "reached costs cols u v ?rs ?cs ?t c k" "k < length ?rs" using reach_old [of c k] by simp_all
    then show ?thesis by blast
  next
    assume "\<exists>a. entry costs cols row c = Number a \<and> ps_costs s' ! c = Number (?m + a - u row - v c) \<and> ps_path s' ! c = Some row"
    then have "reached costs cols u v ?rs ?cs ?t c (length rs)"
      using far [of "length cs"] part(3) nth_append_length [of rs row "[]"] by (auto simp: reached_def t)
    then show ?thesis by auto
  qed
  have grows: "?m \<le> l" if "cs \<noteq> []"
    using moved(3) [OF i(3)]
  proof
    assume "ps_costs s' ! (ps_remaining s ! i) = ps_costs s ! (ps_remaining s ! i) \<and> ps_path s' ! (ps_remaining s ! i) = ps_path s ! (ps_remaining s ! i)"
    then show ?thesis using pricedD(7) [OF p that i(3) [unfolded rem_def], of l] i(2) l by simp
  next
    assume "\<exists>a. entry costs cols row (ps_remaining s ! i) = Number a
      \<and> ps_costs s' ! (ps_remaining s ! i) = Number (?m + a - u row - v (ps_remaining s ! i)) \<and> ps_path s' ! (ps_remaining s ! i) = Some row"
    then obtain a where a: "entry costs cols row (ps_remaining s ! i) = Number a" "l = ?m + a - u row - v (ps_remaining s ! i)"
      using i(2) l by auto
    have "ps_remaining s ! i < cols" using i(3) part(2) by blast
    then have "u row + v (ps_remaining s ! i) \<le> a" using feasible [OF that] a(1) by (simp add: row_feasible_def)
    then show ?thesis unfolding a(2) by (simp add: algebra_simps)
  qed
  show ?thesis
    unfolding priced_def
  proof (intro conjI allI impI ballI)
    fix c assume "c < cols"
    then show "is_cost (ps_costs ?t ! c)" using moved(1) kept pricedD(1) [OF p] by (cases "c \<in> set rem") (auto simp: t)
  next
    show "ps_min ?t = Number (dist ?t ?cs (length ?cs))" using last by (simp add: t)
  next
    fix j assume j: "j < length ?cs"
    show "\<exists>k \<le> j. reached costs cols u v ?rs ?cs ?t (?cs ! j) k"
    proof (cases "j = length cs")
      case True
      have "ps_costs s' ! ?col \<noteq> Pos_Infinity" by (simp add: col l i(2) [symmetric])
      then obtain k where "k < length ?rs" "reached costs cols u v ?rs ?cs ?t ?col k"
        using reach_new [OF i(3)] unfolding col by blast
      then show ?thesis using True part(3) by (intro exI [of _ k]) simp
    next
      case False
      then have j': "j < length cs" using j by simp
      obtain k where k: "k \<le> j" "reached costs cols u v rs cs s (cs ! j) k" using pricedD(3) [OF p j'] by blast
      have "reached costs cols u v ?rs ?cs ?t (cs ! j) k"
        using reach_old [OF k(2)] visited [OF j'] k(1) j' part(3) by simp
      then show ?thesis using k(1) j' by (intro exI [of _ k]) (simp add: nth_append)
    qed
  next
    fix c assume "c \<in> set (take n (ps_remaining ?t))"
    then have "c \<in> set rem" by (simp add: t)
    then show "ps_costs ?t ! c = Pos_Infinity \<or> (\<exists>k < length ?rs. reached costs cols u v ?rs ?cs ?t c k)"
      using reach_new [of c] by (auto simp: t)
  next
    fix k c a assume k: "k < length ?rs" and c: "c < cols" and a: "entry costs cols (?rs ! k) c = Number a"
    show "\<exists>b. ps_costs ?t ! c = Number b \<and> b \<le> dist ?t ?cs k + a - u (?rs ! k) - v c"
    proof (cases "k = length rs")
      case True
      then have row_at: "?rs ! k = row" "dist ?t ?cs k = ?m"
        using far [of "length cs"] part(3) nth_append_length [of rs row "[]"] by simp_all
      show ?thesis
      proof (cases "c \<in> set rem")
        case True
        then show ?thesis using moved(4) [OF True] a unfolding row_at by (simp add: t)
      next
        case False
        then have "c \<in> set cs" using c part(2) by blast
        then obtain j where j: "j < length cs" "c = cs ! j" by (auto simp: in_set_conv_nth)
        have "dist s cs (Suc j) \<le> ?m" using pricedD(6) [OF p, of "Suc j" "length cs"] j(1) by simp
        moreover have "cs \<noteq> []" using j(1) by auto
        then have "u row + v c \<le> a" using feasible a c unfolding row_at by (simp add: row_feasible_def)
        ultimately have "dist s cs (Suc j) \<le> ?m + (a - (u row + v c))" using add_mono [of "dist s cs (Suc j)" ?m 0 "a - (u row + v c)"] by simp
        then have "dist s cs (Suc j) \<le> ?m + a - u row - v c" by (simp add: algebra_simps)
        then show ?thesis using priced_visited [OF p j(1)] visited [OF j(1)] unfolding row_at by (simp add: t j(2))
      qed
    next
      case False
      then have k': "k < length rs" using k by simp
      have same: "?rs ! k = rs ! k" "dist ?t ?cs k = dist s cs k" using k' part(3) far [of k] by (simp_all add: nth_append)
      obtain b where b: "ps_costs s ! c = Number b" "b \<le> dist s cs k + a - u (rs ! k) - v c"
        using pricedD(5) [OF p k' c] a unfolding same by blast
      obtain b' where "ps_costs s' ! c = Number b'" "b' \<le> b"
        using moved(5) [of c b] kept [of c] b(1) by (cases "c \<in> set rem") auto
      then show ?thesis using b(2) unfolding same by (auto simp: t)
    qed
  next
    fix j k assume jk: "1 \<le> j" "j \<le> k" "k \<le> length ?cs"
    show "dist ?t ?cs j \<le> dist ?t ?cs k"
    proof (cases "k = length ?cs")
      case True
      show ?thesis
      proof (cases "j = k")
        case False
        then have j: "j \<le> length cs" "cs \<noteq> []" using jk True by auto
        have "dist s cs j \<le> ?m" using pricedD(6) [OF p jk(1) j(1)] by simp
        then show ?thesis using grows [OF j(2)] far [OF j(1)] last True by simp
      qed simp
    next
      case False
      then have "k \<le> length cs" using jk by simp
      then show ?thesis using pricedD(6) [OF p jk(1,2)] far jk by simp
    qed
  next
    fix c b assume "c \<in> set (take n (ps_remaining ?t))" "ps_costs ?t ! c = Number b"
    then show "dist ?t ?cs (length ?cs) \<le> b" using least [of c b] last by (simp add: t)
  qed
qed

section \<open>A search that finds nothing\<close>

text \<open>A choice of a column for each row, at finite costs.\<close>

definition chooses :: "'a exact list \<Rightarrow> nat \<Rightarrow> nat \<Rightarrow> (nat \<Rightarrow> nat) \<Rightarrow> bool" where
  "chooses costs rows cols f \<longleftrightarrow> inj_on f {..< rows} \<and> (\<forall>r < rows. f r < cols \<and> (\<exists>a. entry costs cols r (f r) = Number a))"

text \<open>More rows than columns that they can reach.\<close>

lemma too_few_columns:
  assumes "distinct rs" "set rs \<subseteq> {..< rows}" "length cs < length rs"
    and "\<And>r c. r \<in> set rs \<Longrightarrow> c < cols \<Longrightarrow> c \<notin> set cs \<Longrightarrow> \<nexists>a. entry costs cols r c = Number a"
  shows "\<not> chooses costs rows cols f"
proof
  assume f: "chooses costs rows cols f"
  have "f r \<in> set cs" if "r \<in> set rs" for r
  proof (rule ccontr)
    assume "f r \<notin> set cs"
    moreover have "r < rows" using that assms(2) by blast
    then have "f r < cols" "\<exists>a. entry costs cols r (f r) = Number a" using f by (auto simp: chooses_def)
    ultimately show False using assms(4) [OF that] by blast
  qed
  then have "f ` set rs \<subseteq> set cs" by blast
  then have "card (f ` set rs) \<le> card (set cs)" by (intro card_mono) simp_all
  moreover have "inj_on f (set rs)" using f assms(2) unfolding chooses_def by (blast intro: inj_on_subset)
  ultimately have "length rs \<le> card (set cs)" using assms(1) by (simp add: card_image distinct_card)
  also have "\<dots> \<le> length cs" by (rule card_length)
  finally show False using assms(3) by simp
qed

lemma search_fails:
  assumes w: "walked exact_arithmetic rows cols S rs cs (Suc n) s" and p: "priced costs cols u v rs cs (Suc n) s"
    and duals: "duals_are u v rows cols S" and row: "row < rows" and input: "\<forall>c < cols. is_cost (entry costs cols row c)"
    and scan: "scan exact_arithmetic cols costs S row (Suc n) (visit_row row s) = (s', lowest, index)"
    and none: "index = None \<or> ar_eq exact_arithmetic lowest (ar_infinity exact_arithmetic)"
    and distinct: "distinct (rs @ [row])"
  shows "\<not> chooses costs rows cols f"
proof (rule too_few_columns [OF distinct, of _ cs])
  define rem where "rem = take (Suc n) (ps_remaining s)"
  have part: "set cs \<union> set rem = {..< cols}" "length rs = length cs" "set rs \<subseteq> {..< rows}" using w by (simp_all add: walked_def rem_def)
  show "set (rs @ [row]) \<subseteq> {..< rows}" "length cs < length (rs @ [row])" using part row by simp_all
  fix r c assume r: "r \<in> set (rs @ [row])" and c: "c < cols" "c \<notin> set cs"
  have mem: "c \<in> set rem" using part(1) c by blast
  note costs = scan_costs [OF w p duals row input scan, folded rem_def]
  have low: "lowest = Pos_Infinity" using none walked_scan [OF w scan] by (cases index) simp_all
  have "is_cost (ps_costs s' ! c)" "\<not> exact_less (ps_costs s' ! c) lowest" using costs mem by blast+
  then have inf: "ps_costs s' ! c = Pos_Infinity" unfolding low by (auto elim!: is_costE)
  show "\<nexists>a. entry costs cols r c = Number a"
  proof
    assume "\<exists>a. entry costs cols r c = Number a"
    then obtain a where a: "entry costs cols r c = Number a" by blast
    have "\<exists>b. ps_costs s' ! c = Number b"
    proof (cases "r = row")
      case True
      then show ?thesis using costs mem a by blast
    next
      case False
      then obtain i where "i < length rs" "rs ! i = r" using r by (auto simp: in_set_conv_nth)
      then obtain b where "ps_costs s ! c = Number b" using pricedD(5) [OF p _ c(1)] a by blast
      then show ?thesis using costs mem by blast
    qed
    then show False using inf by simp
  qed
qed

section \<open>The duals after a path was found\<close>

definition solved :: "'a::linordered_ab_group_add exact list \<Rightarrow> nat \<Rightarrow> nat \<Rightarrow> nat \<Rightarrow> 'a exact lsap_state \<Rightarrow> bool" where
  "solved costs rows cols k S \<longleftrightarrow> rows_matched rows cols k S \<and> (\<exists>u v. duals_are u v rows cols S
     \<and> (\<forall>r < k. row_feasible costs cols u v r \<and> entry costs cols r (column_of S r) = Number (u r + v (column_of S r)))
     \<and> (\<forall>c < cols. v c \<le> 0 \<and> (ls_row_for_col S ! c = None \<longrightarrow> v c = 0)))"

lemma solved_fresh: "solved costs rows cols 0 (fresh_state exact_arithmetic rows cols)"
proof -
  have "duals_are (\<lambda>_. 0) (\<lambda>_. 0) rows cols (fresh_state exact_arithmetic rows cols)"
    by (simp add: duals_are_def fresh_state_def map_replicate_trivial)
  then show ?thesis unfolding solved_def using rows_matched_fresh by (intro conjI exI [of _ "\<lambda>_. 0"]) auto
qed

lemma found_duals:
  assumes ok: "rows_matched rows cols k S" and k: "k < rows"
    and duals: "duals_are u v rows cols S"
    and feasible: "\<forall>r < k. row_feasible costs cols u v r \<and> entry costs cols r (column_of S r) = Number (u r + v (column_of S r))"
    and sign: "\<forall>c < cols. v c \<le> 0 \<and> (ls_row_for_col S ! c = None \<longrightarrow> v c = 0)"
    and found: "found_path exact_arithmetic rows cols S k rs cs sink s"
    and w: "walked exact_arithmetic rows cols S rs cs n s" and p: "priced costs cols u v rs cs n s"
    and ok': "rows_matched rows cols (Suc k) S'"
    and rows': "update_row_duals exact_arithmetic k s (ls_col_for_row S) (ls_row_duals S) = Some (ls_row_duals S')"
    and cols': "ls_col_duals S' = update_col_duals exact_arithmetic s (ls_col_duals S)"
    and match': "\<forall>c < cols. ls_row_for_col S' ! c = ls_row_for_col S ! c \<or> c \<in> set cs \<and> ls_row_for_col S' ! c = ps_path s ! c"
  shows "solved costs rows cols (Suc k) S'"
proof -
  let ?M = "dist s cs (length cs)"
  have st: "state_ok rows cols S" and fresh: "ls_col_for_row S ! k = None" using ok k by (auto simp: rows_matched_def)
  have m: "matching rows cols (ls_row_for_col S) (ls_col_for_row S)" using st by (simp add: state_ok_def)
  note links = found_distinct [OF st fresh found]
  have f: "cs \<noteq> []" "last cs = sink" "rs ! 0 = k" "ls_row_for_col S ! sink = None" using found by (simp_all add: found_path_def)
  have len: "length rs = length cs" "distinct cs" "set cs \<subseteq> {..< cols}" "set rs \<subseteq> {..< rows}" using w by (auto simp: walked_def)
  have visited: "ps_visited_rows s ! r \<longleftrightarrow> r \<in> set rs" if "r < rows" for r using w that by (simp add: walked_def)
  have visited': "ps_visited_cols s ! c \<longleftrightarrow> c \<in> set cs" if "c < cols" for c using w that by (simp add: walked_def)
  have min: "ps_min s = Number ?M" by (rule pricedD(2) [OF p])
  have cost: "ps_costs s ! (cs ! j) = Number (dist s cs (Suc j))" if "j < length cs" for j by (rule priced_visited [OF p that])
  have col_lt: "cs ! j < cols" if "j < length cs" for j using len(3) nth_mem [OF that] by blast
  define u' where "u' r = (if r = k then u r + ?M else if r \<in> set rs then u r + (?M - number (ps_costs s ! column_of S r)) else u r)" for r
  define v' where "v' c = (if c \<in> set cs then v c - (?M - number (ps_costs s ! c)) else v c)" for c
  have column: "ls_col_for_row S ! (rs ! Suc i) = Some (cs ! i) \<and> column_of S (rs ! Suc i) = cs ! i" if "Suc i < length cs" for i
    using links that by (auto simp: column_of_def)
  have u_rs: "u' (rs ! i) = u (rs ! i) + ?M - dist s cs i" if "i < length cs" for i
  proof (cases i)
    case 0
    then show ?thesis using f(3) by (simp add: u'_def dist_def)
  next
    case (Suc j)
    have "rs ! i \<noteq> k"
    proof
      assume "rs ! i = k"
      then have "ls_col_for_row S ! k = Some (cs ! j)" using column [of j] that Suc by simp
      then show False using fresh by simp
    qed
    moreover have "rs ! i \<in> set rs" using that len(1) by simp
    ultimately show ?thesis using column [of j] cost [of j] that Suc by (simp add: u'_def)
  qed
  have v_cs: "v' (cs ! j) = v (cs ! j) + dist s cs (Suc j) - ?M" if "j < length cs" for j
    using that cost [OF that] nth_mem [OF that] by (simp add: v'_def algebra_simps)
  have u_other: "u' r = u r" if "r \<notin> set rs" for r
  proof -
    have "k \<in> set rs" using f(1,3) len(1) nth_mem [of 0 rs] by auto
    then show ?thesis using that by (auto simp: u'_def)
  qed
  have ahead: "dist s cs (Suc j) \<le> ?M" if "j < length cs" for j using pricedD(6) [OF p, of "Suc j" "length cs"] that by simp
  have v_le: "v' c \<le> v c" if "c < cols" for c
  proof (cases "c \<in> set cs")
    case True
    then obtain j where j: "j < length cs" "c = cs ! j" by (auto simp: in_set_conv_nth)
    have "v (cs ! j) + dist s cs (Suc j) - ?M \<le> v (cs ! j) + ?M - ?M"
      by (intro diff_right_mono add_left_mono ahead [OF j(1)])
    then show ?thesis using v_cs [OF j(1)] j(2) by simp
  next
    case False
    then show ?thesis by (simp add: v'_def)
  qed
  have partner: "ls_col_for_row S ! r = Some (column_of S r) \<and> r \<in> set rs
      \<and> (\<exists>a. ps_costs s ! column_of S r = Number a)"
    if r: "r < rows" "ps_visited_rows s ! r" "r \<noteq> k" for r
  proof -
    have mem: "r \<in> set rs" using visited r by blast
    then obtain i where i: "i < length cs" "r = rs ! i" using len(1) by (auto simp: in_set_conv_nth)
    then obtain j where "i = Suc j" using r(3) f(3) by (cases i) auto
    then show ?thesis using column [of j] cost [of j] i mem by simp
  qed
  have duals': "duals_are u' v' rows cols S'"
    unfolding duals_are_def
  proof
    have S: "ls_row_duals S = map (\<lambda>r. Number (u r)) [0 ..< rows]" using duals by (simp add: duals_are_def)
    have "ls_row_duals S' = map (\<lambda>i. if i = k then ar_add exact_arithmetic (ls_row_duals S ! i) (ps_min s)
        else if ps_visited_rows s ! i
        then ar_add exact_arithmetic (ls_row_duals S ! i) (ar_sub exact_arithmetic (ps_min s) (ps_costs s ! the (ls_col_for_row S ! i)))
        else ls_row_duals S ! i) [0 ..< rows]"
      using update_row_duals_some [of k "ls_row_duals S" s "ls_col_for_row S" exact_arithmetic] k partner rows' by (simp add: S)
    also have "\<dots> = map (\<lambda>r. Number (u' r)) [0 ..< rows]"
    proof (rule map_cong [OF refl])
      fix r assume "r \<in> set [0 ..< rows]"
      then have r: "r < rows" by simp
      then have u: "ls_row_duals S ! r = Number (u r)" by (simp add: S)
      show "(if r = k then ar_add exact_arithmetic (ls_row_duals S ! r) (ps_min s)
        else if ps_visited_rows s ! r
        then ar_add exact_arithmetic (ls_row_duals S ! r) (ar_sub exact_arithmetic (ps_min s) (ps_costs s ! the (ls_col_for_row S ! r)))
        else ls_row_duals S ! r) = Number (u' r)"
        using partner [OF r] visited [OF r] u by (auto simp: min u'_def)
    qed
    finally show "ls_row_duals S' = map (\<lambda>r. Number (u' r)) [0 ..< rows]" .
    show "ls_col_duals S' = map (\<lambda>c. Number (v' c)) [0 ..< cols]"
    proof (rule nth_equalityI)
      fix c assume "c < length (ls_col_duals S')"
      then have c: "c < cols" using cols' duals by (simp add: update_col_duals_def duals_are_def)
      have v: "ls_col_duals S ! c = Number (v c)" "length (ls_col_duals S) = cols" using duals c by (simp_all add: duals_are_def)
      show "ls_col_duals S' ! c = map (\<lambda>c. Number (v' c)) [0 ..< cols] ! c"
      proof (cases "c \<in> set cs")
        case True
        then obtain j where j: "j < length cs" "c = cs ! j" by (auto simp: in_set_conv_nth)
        then show ?thesis
          using True c v cost [OF j(1)] visited' [OF c] min unfolding cols' v'_def by (simp add: update_col_duals_def)
      next
        case False
        then show ?thesis using c v visited' [OF c] unfolding cols' v'_def by (simp add: update_col_duals_def)
      qed
    qed (use duals in \<open>simp add: cols' update_col_duals_def duals_are_def\<close>)
  qed
  have feasible': "row_feasible costs cols u' v' r" if r: "r < Suc k" for r
    unfolding row_feasible_def
  proof (intro allI impI)
    fix c a assume c: "c < cols" and a: "entry costs cols r c = Number a"
    show "u' r + v' c \<le> a"
    proof (cases "r \<in> set rs")
      case True
      then obtain i where i: "i < length cs" "r = rs ! i" using len(1) by (auto simp: in_set_conv_nth)
      obtain b where b: "ps_costs s ! c = Number b" "b \<le> dist s cs i + a - u r - v c"
        using pricedD(5) [OF p _ c] i len(1) a by auto
      have b': "b + u r + v c \<le> dist s cs i + a" using b(2) by (simp add: algebra_simps)
      show ?thesis
      proof (cases "c \<in> set cs")
        case True
        then obtain j where j: "j < length cs" "c = cs ! j" by (auto simp: in_set_conv_nth)
        have "b = dist s cs (Suc j)" using cost [OF j(1)] b(1) j(2) by simp
        then have "u r + v c + dist s cs (Suc j) - dist s cs i \<le> a" using b' by (simp add: diff_le_eq algebra_simps)
        moreover have "u' r + v' c = u r + v c + dist s cs (Suc j) - dist s cs i"
          using u_rs [OF i(1)] v_cs [OF j(1)] by (simp add: i(2) j(2))
        ultimately show ?thesis by simp
      next
        case False
        then have "c \<in> set (take n (ps_remaining s))" using w c unfolding walked_def by blast
        then have "?M \<le> b" using pricedD(7) [OF p f(1)] b(1) by blast
        then have "?M + (u r + v c) \<le> b + (u r + v c)" by (rule add_right_mono)
        also have "\<dots> \<le> dist s cs i + a" using b' by (simp add: algebra_simps)
        finally have "u r + ?M - dist s cs i + v c \<le> a" by (simp add: diff_le_eq algebra_simps)
        then show ?thesis using False u_rs [OF i(1)] by (simp add: v'_def i(2))
      qed
    next
      case False
      have "r \<noteq> k" using False f(1,3) len(1) nth_mem [of 0 rs] by auto
      then have "u r + v c \<le> a" using r feasible c a by (auto simp: row_feasible_def)
      moreover have "u r + v' c \<le> u r + v c" using v_le [OF c] by simp
      ultimately have "u r + v' c \<le> a" by (rule order_trans [rotated])
      then show ?thesis using u_other [OF False] by simp
    qed
  qed
  have tight': "entry costs cols r (column_of S' r) = Number (u' r + v' (column_of S' r))" if r: "r < Suc k" for r
  proof -
    let ?c = "column_of S' r"
    have r_lt: "r < rows" using r k by simp
    have "ls_col_for_row S' ! r = Some ?c" using ok' r r_lt by (auto simp: rows_matched_def column_of_def)
    moreover have "matching rows cols (ls_row_for_col S') (ls_col_for_row S')" using ok' by (simp add: rows_matched_def state_ok_def)
    ultimately have c: "?c < cols" "ls_row_for_col S' ! ?c = Some r" using matchingD(2) r_lt by blast+
    consider (old) "ls_row_for_col S ! ?c = Some r" | (new) "?c \<in> set cs" "ps_path s ! ?c = Some r"
      using match' c by auto
    then show ?thesis
    proof cases
      case old
      then have cfr: "ls_col_for_row S ! r = Some ?c" using matchingD(1) [OF m c(1)] by blast
      then have "r \<noteq> k" "column_of S r = ?c" using fresh by (auto simp: column_of_def)
      then have "r < k" "column_of S r = ?c" using r by simp_all
      then have tight: "entry costs cols r ?c = Number (u r + v ?c)" using feasible by metis
      show ?thesis
      proof (cases "r \<in> set rs")
        case True
        then obtain i where i: "i < length cs" "r = rs ! i" using len(1) by (auto simp: in_set_conv_nth)
        then obtain j where j: "i = Suc j" using \<open>r \<noteq> k\<close> f(3) by (cases i) auto
        have c_j: "?c = cs ! j" using column [of j] i j cfr by auto
        have "u' r = u r + ?M - dist s cs (Suc j)" using u_rs [OF i(1)] i(2) j by simp
        moreover have "v' ?c = v ?c + dist s cs (Suc j) - ?M" using v_cs [of j] i(1) j c_j by simp
        ultimately have "u' r + v' ?c = u r + v ?c" by simp
        then show ?thesis using tight by simp
      next
        case False
        have "?c \<notin> set cs"
        proof
          assume "?c \<in> set cs"
          then obtain j where j: "j < length cs" "?c = cs ! j" by (auto simp: in_set_conv_nth)
          show False
          proof (cases "Suc j < length cs")
            case True
            then have "ls_row_for_col S ! ?c = Some (rs ! Suc j)" using w j(2) by (simp add: walked_def)
            then show False using old False True len(1) by auto
          next
            case False
            then have "j = length cs - 1" using j(1) by simp
            then have "?c = sink" using j(2) f(1,2) by (simp add: last_conv_nth)
            then show False using old f(4) by simp
          qed
        qed
        then show ?thesis using tight u_other [OF False] by (simp add: v'_def)
      qed
    next
      case new
      then obtain j where j: "j < length cs" "?c = cs ! j" by (auto simp: in_set_conv_nth)
      obtain i a where i: "i \<le> j" "ps_path s ! ?c = Some (rs ! i)" "entry costs cols (rs ! i) ?c = Number a"
        "ps_costs s ! ?c = Number (dist s cs i + a - u (rs ! i) - v ?c)"
        using pricedD(3) [OF p j(1)] j(2) by (auto simp: reached_def)
      have "r = rs ! i" using i(2) new(2) by simp
      moreover have "dist s cs (Suc j) = dist s cs i + a - u (rs ! i) - v ?c" using cost [OF j(1)] i(4) j(2) by simp
      moreover have "u' (rs ! i) = u (rs ! i) + ?M - dist s cs i" using u_rs [of i] i(1) j(1) by simp
      moreover have "v' ?c = v ?c + dist s cs (Suc j) - ?M" using v_cs [OF j(1)] j(2) by simp
      ultimately have "u' r + v' ?c = a" by simp
      then show ?thesis using i(3) \<open>r = rs ! i\<close> by simp
    qed
  qed
  have sign': "v' c \<le> 0 \<and> (ls_row_for_col S' ! c = None \<longrightarrow> v' c = 0)" if c: "c < cols" for c
  proof (intro conjI impI)
    show "v' c \<le> 0" using v_le [OF c] sign c by (meson order_trans)
    assume none: "ls_row_for_col S' ! c = None"
    have reach: "ps_path s ! c \<noteq> None" if visited: "c \<in> set cs"
    proof -
      obtain j where "j < length cs" "c = cs ! j" using visited by (auto simp: in_set_conv_nth)
      then show ?thesis using pricedD(3) [OF p] by (auto simp: reached_def)
    qed
    then have old: "ls_row_for_col S ! c = None" using match' c none by auto
    show "v' c = 0"
    proof (cases "c \<in> set cs")
      case True
      then obtain j where j: "j < length cs" "c = cs ! j" by (auto simp: in_set_conv_nth)
      have "\<not> Suc j < length cs" using old w j(2) by (auto simp: walked_def)
      then have "Suc j = length cs" using j(1) by simp
      then show ?thesis using v_cs [OF j(1)] sign c old j(2) by simp
    next
      case False
      then show ?thesis using sign c old by (simp add: v'_def)
    qed
  qed
  show ?thesis unfolding solved_def using ok' duals' feasible' tight' sign' by blast
qed

section \<open>The core of the solver is optimal\<close>

lemma step_solves:
  assumes solved: "solved costs rows cols k S" and k: "k < rows"
    and input: "\<And>r c. r < rows \<Longrightarrow> c < cols \<Longrightarrow> is_cost (entry costs cols r c)"
  shows "augment_row exact_arithmetic rows cols costs k S = Some (Inl Lsap_Infeasible) \<and> (\<nexists>f. chooses costs rows cols f)
    \<or> (\<exists>S'. augment_row exact_arithmetic rows cols costs k S = Some (Inr S') \<and> solved costs rows cols (Suc k) S')"
proof -
  let ?A = "exact_arithmetic :: 'a exact arithmetic"
  obtain u v where ok: "rows_matched rows cols k S" and duals: "duals_are u v rows cols S"
    and feasible: "\<forall>r < k. row_feasible costs cols u v r \<and> entry costs cols r (column_of S r) = Number (u r + v (column_of S r))"
    and sign: "\<forall>c < cols. v c \<le> 0 \<and> (ls_row_for_col S ! c = None \<longrightarrow> v c = 0)"
    using solved by (auto simp: solved_def)
  have st: "state_ok rows cols S" and fresh: "ls_col_for_row S ! k = None" using ok k by (auto simp: rows_matched_def)
  have m: "matching rows cols (ls_row_for_col S) (ls_col_for_row S)" using st by (simp add: state_ok_def)
  have inf: "ar_eq ?A (ar_infinity ?A) (ar_infinity ?A)" by simp
  let ?I = "\<lambda>n r s. \<exists>rs cs. walked ?A rows cols S rs cs n s \<and> continues k S rs cs r \<and> r < rows \<and> priced costs cols u v rs cs n s"
  let ?Q = "\<lambda>sink s. \<exists>rs cs n. found_path ?A rows cols S k rs cs sink s \<and> walked ?A rows cols S rs cs n s \<and> priced costs cols u v rs cs n s"
  have distinct: "distinct (rs @ [r])" if "walked ?A rows cols S rs cs n s" "continues k S rs cs r" for rs cs r n s
  proof (rule conjunct1 [OF linked_distinct [OF m, of cs]])
    have len: "length rs = length cs" using that(1) by (simp add: walked_def)
    show "distinct cs" "set cs \<subseteq> {..< cols}" "length (rs @ [r]) \<le> Suc (length cs)" using that(1) by (auto simp: walked_def)
    show "ls_col_for_row S ! ((rs @ [r]) ! 0) = None" using that(2) fresh by (simp add: continues_def)
    fix j assume j: "Suc j < length (rs @ [r])"
    show "ls_row_for_col S ! (cs ! j) = Some ((rs @ [r]) ! Suc j)"
    proof (cases "Suc j < length rs")
      case True
      then show ?thesis using that(1) len by (simp add: walked_def nth_append)
    next
      case False
      then have last: "Suc j = length rs" using j by simp
      then have "cs \<noteq> []" "j = length cs - 1" using len by auto
      then have "ls_row_for_col S ! (cs ! j) = Some r" using that(2) by (simp add: continues_def last_conv_nth)
      then show ?thesis unfolding last by simp
    qed
  qed
  have partner: "r < k" if "continues k S rs cs r" "r < rows" "cs \<noteq> []" "set cs \<subseteq> {..< cols}" for rs cs r
  proof -
    have "last cs < cols" using that(3,4) last_in_set by blast
    then have "ls_col_for_row S ! r = Some (last cs)" using matchingD(1) [OF m] that(1,3) by (simp add: continues_def)
    then show ?thesis using ok that(2) by (auto simp: rows_matched_def)
  qed
  have "case search_path ?A cols costs S cols k (fresh_search ?A rows cols S) of
      None \<Rightarrow> False | Some None \<Rightarrow> \<nexists>f. chooses costs rows cols f | Some (Some (sink, s)) \<Rightarrow> ?Q sink s"
  proof (rule search_rule [where I = ?I, OF inf])
    show "?I cols k (fresh_search ?A rows cols S)" using walked_fresh [OF st] k priced_fresh by blast
    fix n r s s' lowest i
    assume I: "?I (Suc n) r s" and scan: "scan ?A cols costs S r (Suc n) (visit_row r s) = (s', lowest, Some i)"
      and finite: "\<not> ar_eq ?A lowest (ar_infinity ?A)"
    from I obtain rs cs where w: "walked ?A rows cols S rs cs (Suc n) s" and c: "continues k S rs cs r" "r < rows"
      and p: "priced costs cols u v rs cs (Suc n) s" by blast
    have sub: "set cs \<subseteq> {..< cols}" using w by (auto simp: walked_def)
    note stepped = walked_step [OF w c scan finite inf]
    have "row_feasible costs cols u v r" if "cs \<noteq> []" using partner [OF c that sub] feasible by blast
    note priced = priced_step [OF w p duals c(2) _ this scan finite]
    let ?col = "ps_remaining s' ! i" and ?t = "take_column lowest i n s'"
    have p': "priced costs cols u v (rs @ [r]) (cs @ [?col]) n ?t" using priced input c(2) by blast
    show "case ls_row_for_col S ! ?col of None \<Rightarrow> ?Q ?col ?t | Some r \<Rightarrow> ?I n r ?t"
    proof (cases "ls_row_for_col S ! ?col")
      case None
      then have "found_path ?A rows cols S k (rs @ [r]) (cs @ [?col]) ?col ?t"
        unfolding found_path_def using stepped continues_first [OF c(1)] by auto
      then show ?thesis using None stepped p' by auto
    next
      case (Some r')
      have "r' < rows" using matchingD(1) [OF m conjunct2 [OF stepped], of r'] Some by simp
      moreover have "continues k S (rs @ [r]) (cs @ [?col]) r'" by (rule continues_step [OF c(1) Some])
      ultimately show ?thesis using stepped Some p' by auto
    qed
  next
    fix n r s s' lowest index
    assume I: "?I (Suc n) r s" and scan: "scan ?A cols costs S r (Suc n) (visit_row r s) = (s', lowest, index)"
      and none: "index = None \<or> ar_eq ?A lowest (ar_infinity ?A)"
    from I obtain rs cs where w: "walked ?A rows cols S rs cs (Suc n) s" and c: "continues k S rs cs r" "r < rows"
      and p: "priced costs cols u v rs cs (Suc n) s" by blast
    show "\<nexists>f. chooses costs rows cols f"
      using search_fails [OF w p duals c(2) _ scan none distinct [OF w c(1)]] input c(2) by blast
  next
    fix r s assume I: "?I 0 r s"
    then obtain rs cs where w: "walked ?A rows cols S rs cs 0 s" and c: "continues k S rs cs r" "r < rows" by blast
    have "\<not> chooses costs rows cols f" for f
      by (rule too_few_columns [OF distinct [OF w c(1)], of _ cs]) (use w c(2) in \<open>auto simp: walked_def\<close>)
    then show "\<nexists>f. chooses costs rows cols f" by blast
  qed
  then have search: "case augmenting_path ?A rows cols costs S k of
      None \<Rightarrow> False | Some None \<Rightarrow> \<nexists>f. chooses costs rows cols f | Some (Some (sink, s)) \<Rightarrow> ?Q sink s"
    by (simp add: augmenting_path_def)
  from augment_matches [OF st k fresh inf, of costs] show ?thesis
  proof
    assume "augment_row ?A rows cols costs k S = Some (Inl Lsap_Infeasible) \<and> augmenting_path ?A rows cols costs S k = Some None"
    then show ?thesis using search by simp
  next
    assume "\<exists>S' sink s rs cs. augment_row ?A rows cols costs k S = Some (Inr S') \<and> state_ok rows cols S'
        \<and> augmenting_path ?A rows cols costs S k = Some (Some (sink, s)) \<and> found_path ?A rows cols S k rs cs sink s
        \<and> update_row_duals ?A k s (ls_col_for_row S) (ls_row_duals S) = Some (ls_row_duals S')
        \<and> ls_col_duals S' = update_col_duals ?A s (ls_col_duals S)
        \<and> (\<forall>r < rows. ls_col_for_row S' ! r \<noteq> None \<longleftrightarrow> r = k \<or> ls_col_for_row S ! r \<noteq> None)
        \<and> (\<forall>c < cols. ls_row_for_col S' ! c = ls_row_for_col S ! c \<or> c \<in> set cs \<and> ls_row_for_col S' ! c = ps_path s ! c)"
    then obtain S' sink s rs' cs' where run: "augment_row ?A rows cols costs k S = Some (Inr S')" "state_ok rows cols S'"
      "augmenting_path ?A rows cols costs S k = Some (Some (sink, s))" "found_path ?A rows cols S k rs' cs' sink s"
      "update_row_duals ?A k s (ls_col_for_row S) (ls_row_duals S) = Some (ls_row_duals S')"
      "ls_col_duals S' = update_col_duals ?A s (ls_col_duals S)"
      "\<forall>r < rows. ls_col_for_row S' ! r \<noteq> None \<longleftrightarrow> r = k \<or> ls_col_for_row S ! r \<noteq> None"
      "\<forall>c < cols. ls_row_for_col S' ! c = ls_row_for_col S ! c \<or> c \<in> set cs' \<and> ls_row_for_col S' ! c = ps_path s ! c" by blast
    from search run(3) obtain rs cs n where q: "found_path ?A rows cols S k rs cs sink s" "walked ?A rows cols S rs cs n s"
      "priced costs cols u v rs cs n s" by auto
    have "c \<in> set cs' \<longleftrightarrow> c \<in> set cs" if "c < cols" for c
    proof -
      obtain n' where "walked ?A rows cols S rs' cs' n' s" using run(4) by (auto simp: found_path_def)
      then have "ps_visited_cols s ! c \<longleftrightarrow> c \<in> set cs'" using that by (simp add: walked_def)
      moreover have "ps_visited_cols s ! c \<longleftrightarrow> c \<in> set cs" using q(2) that by (simp add: walked_def)
      ultimately show ?thesis by simp
    qed
    then have match': "\<forall>c < cols. ls_row_for_col S' ! c = ls_row_for_col S ! c \<or> c \<in> set cs \<and> ls_row_for_col S' ! c = ps_path s ! c"
      using run(8) by blast
    have "solved costs rows cols (Suc k) S'"
      by (rule found_duals [OF ok k duals feasible sign q(1,2,3) rows_matched_step [OF ok run(2,7)] run(5,6) match'])
    then show ?thesis using run(1) by blast
  qed
qed

lemma rows_solved:
  fixes costs :: "'a::linordered_ab_group_add exact list"
  assumes "\<And>r c. r < rows \<Longrightarrow> c < cols \<Longrightarrow> is_cost (entry costs cols r c)"
  shows "augment_rows exact_arithmetic rows cols costs [0 ..< rows] (fresh_state exact_arithmetic rows cols) = Some (Inl Lsap_Infeasible)
      \<and> (\<nexists>f. chooses costs rows cols f)
    \<or> (\<exists>S :: 'a exact lsap_state. augment_rows exact_arithmetic rows cols costs [0 ..< rows] (fresh_state exact_arithmetic rows cols)
        = Some (Inr S) \<and> solved costs rows cols rows S)"
proof (rule augment_rows_rule [where P = "solved costs rows cols"])
  fix k and S :: "'a exact lsap_state" assume "k < rows" "solved costs rows cols k S"
  then show "augment_row exact_arithmetic rows cols costs k S = Some (Inl Lsap_Infeasible) \<and> (\<nexists>f. chooses costs rows cols f)
    \<or> (\<exists>S'. augment_row exact_arithmetic rows cols costs k S = Some (Inr S') \<and> solved costs rows cols (Suc k) S')"
    by (intro step_solves assms)
qed (simp_all add: solved_fresh)

text \<open>Weak duality: a choice of columns costs at least what the duals add up to, and the matching costs just that.\<close>

definition cost_of :: "'a::linordered_ab_group_add exact list \<Rightarrow> nat \<Rightarrow> nat \<Rightarrow> (nat \<Rightarrow> nat) \<Rightarrow> 'a" where
  "cost_of costs rows cols f = (\<Sum>r < rows. number (entry costs cols r (f r)))"

lemma solved_chooses:
  assumes "solved costs rows cols rows S"
  shows "chooses costs rows cols (column_of S)"
  using assms complete_columns [of rows cols S] by (auto simp: solved_def chooses_def)

lemma solved_optimal:
  assumes solved: "solved costs rows cols rows S" and f: "chooses costs rows cols f"
  shows "chooses costs rows cols (column_of S) \<and> cost_of costs rows cols (column_of S) \<le> cost_of costs rows cols f"
proof -
  obtain u v where ok: "rows_matched rows cols rows S"
    and feasible: "\<forall>r < rows. row_feasible costs cols u v r \<and> entry costs cols r (column_of S r) = Number (u r + v (column_of S r))"
    and sign: "\<forall>c < cols. v c \<le> 0 \<and> (ls_row_for_col S ! c = None \<longrightarrow> v c = 0)"
    using solved by (auto simp: solved_def)
  note columns = complete_columns [OF ok]
  have m: "matching rows cols (ls_row_for_col S) (ls_col_for_row S)" using ok by (simp add: rows_matched_def state_ok_def)
  note chosen = solved_chooses [OF solved]
  have unmatched: "v c = 0" if "c < cols" "c \<notin> column_of S ` {..< rows}" for c
  proof -
    have "ls_row_for_col S ! c = None"
    proof (rule ccontr)
      assume "ls_row_for_col S ! c \<noteq> None"
      then obtain r where "ls_row_for_col S ! c = Some r" by blast
      then have "r < rows" "ls_col_for_row S ! r = Some c" using matchingD(1) [OF m that(1)] by auto
      then have "column_of S r = c" by (simp add: column_of_def)
      then show False using that(2) \<open>r < rows\<close> by blast
    qed
    then show ?thesis using sign that(1) by blast
  qed
  have f': "inj_on f {..< rows}" "f ` {..< rows} \<subseteq> {..< cols}" using f by (auto simp: chooses_def)
  have sub: "column_of S ` {..< rows} \<subseteq> {..< cols}" using columns(1) by auto
  have "cost_of costs rows cols (column_of S) = (\<Sum>r < rows. u r + v (column_of S r))"
    unfolding cost_of_def using feasible by (intro sum.cong) auto
  also have "\<dots> = (\<Sum>r < rows. u r) + sum v (column_of S ` {..< rows})"
    using columns(2) by (simp add: sum.distrib sum.reindex)
  also have "sum v (column_of S ` {..< rows}) = sum v {..< cols}"
    using unmatched sub by (intro sum.mono_neutral_left) auto
  also have "\<dots> \<le> sum v (f ` {..< rows})"
  proof -
    have "sum v {..< cols} = sum v (f ` {..< rows}) + sum v ({..< cols} - f ` {..< rows})"
      using f'(2) by (metis add.commute finite_lessThan sum.subset_diff)
    moreover have "sum v ({..< cols} - f ` {..< rows}) \<le> 0" using sign by (intro sum_nonpos) auto
    ultimately show ?thesis by simp
  qed
  also have "(\<Sum>r < rows. u r) + sum v (f ` {..< rows}) = (\<Sum>r < rows. u r + v (f r))"
    using f'(1) by (simp add: sum.distrib sum.reindex)
  also have "\<dots> \<le> cost_of costs rows cols f"
    unfolding cost_of_def
  proof (rule sum_mono)
    fix r assume "r \<in> {..< rows}"
    then have r: "r < rows" by simp
    obtain a where "f r < cols" "entry costs cols r (f r) = Number a" using f r by (auto simp: chooses_def)
    then show "u r + v (f r) \<le> number (entry costs cols r (f r))" using feasible r by (auto simp: row_feasible_def)
  qed
  finally show ?thesis using chosen by simp
qed

section \<open>The solver is optimal\<close>

text \<open>A matching as the caller sees it: pairs of a row and a column at finite costs, as many as the smaller side has.\<close>

definition complete_matching :: "'a exact list \<Rightarrow> nat \<Rightarrow> nat \<Rightarrow> (nat \<times> nat) set \<Rightarrow> bool" where
  "complete_matching costs rows cols M \<longleftrightarrow> M \<subseteq> {..< rows} \<times> {..< cols} \<and> inj_on fst M \<and> inj_on snd M \<and> card M = min rows cols
     \<and> (\<forall>p \<in> M. \<exists>a. entry costs cols (fst p) (snd p) = Number a)"

definition total_cost :: "'a::linordered_ab_group_add exact list \<Rightarrow> nat \<Rightarrow> (nat \<times> nat) set \<Rightarrow> 'a" where
  "total_cost costs cols M = (\<Sum>p \<in> M. number (entry costs cols (fst p) (snd p)))"

definition pair_set :: "(int \<times> int) list \<Rightarrow> (nat \<times> nat) set" where
  "pair_set pairs = (\<lambda>p. (nat (fst p), nat (snd p))) ` set pairs"

text \<open>The matching of a choice, for the smaller side.\<close>

definition place :: "bool \<Rightarrow> (nat \<Rightarrow> nat) \<Rightarrow> nat \<Rightarrow> nat \<times> nat" where
  "place turned f r = (if turned then (f r, r) else (r, f r))"

definition oriented :: "bool \<Rightarrow> 'a::linordered_ab_group_add \<Rightarrow> 'a" where
  "oriented maximize a = (if maximize then - a else a)"

lemma prepared_entry:
  fixes costs :: "'a::linordered_ab_group_add exact list"
  assumes "length costs = rows * cols" "r < min rows cols" "c < max rows cols"
  shows "entry (prepared_costs exact_arithmetic rows cols maximize costs) (max rows cols) r c
      = (let x = entry costs cols (fst (place (cols < rows) (\<lambda>_. c) r)) (snd (place (cols < rows) (\<lambda>_. c) r))
         in if maximize then exact_neg x else x)"
    and "r * max rows cols + c < length (prepared_costs exact_arithmetic rows cols maximize costs)"
proof -
  have "r * max rows cols + c < Suc r * max rows cols" using assms(3) by simp
  also have "\<dots> \<le> min rows cols * max rows cols" using assms(2) by (intro mult_le_mono1) simp
  also have "\<dots> = rows * cols" by (simp add: min_def max_def mult.commute)
  finally have lt: "r * max rows cols + c < rows * cols" .
  show "r * max rows cols + c < length (prepared_costs exact_arithmetic rows cols maximize costs)"
    using lt assms(1) by (cases "cols < rows") (simp_all add: prepared_costs_def Let_def transposed_def max_def)
  show "entry (prepared_costs exact_arithmetic rows cols maximize costs) (max rows cols) r c
      = (let x = entry costs cols (fst (place (cols < rows) (\<lambda>_. c) r)) (snd (place (cols < rows) (\<lambda>_. c) r))
         in if maximize then exact_neg x else x)"
  proof (cases "cols < rows")
    case True
    then have "(r * rows + c) mod rows = c" "(r * rows + c) div rows = r" using assms(3) by simp_all
    then show ?thesis using True lt assms(1) by (simp add: entry_def prepared_costs_def transposed_def place_def Let_def)
  next
    case False
    then show ?thesis using lt assms(1) by (simp add: entry_def prepared_costs_def place_def Let_def max_def)
  qed
qed

lemma prepared_number:
  assumes "length costs = rows * cols" "r < min rows cols" "f r < max rows cols"
  shows "entry (prepared_costs exact_arithmetic rows cols maximize costs) (max rows cols) r (f r) = Number (oriented maximize a)
    \<longleftrightarrow> entry costs cols (fst (place (cols < rows) f r)) (snd (place (cols < rows) f r)) = Number a"
proof -
  let ?x = "entry costs cols (fst (place (cols < rows) f r)) (snd (place (cols < rows) f r))"
  have "entry (prepared_costs exact_arithmetic rows cols maximize costs) (max rows cols) r (f r)
      = (if maximize then exact_neg ?x else ?x)"
    using prepared_entry(1) [OF assms(1,2,3)] by (simp add: place_def Let_def)
  then show ?thesis by (cases ?x) (simp_all add: oriented_def)
qed

lemma place_inj: "inj_on (place turned f) {..< m}"
  by (rule inj_onI) (auto simp: place_def split: if_splits)

lemma matching_of_choice:
  fixes costs :: "'a::linordered_ab_group_add exact list"
  assumes len: "length costs = rows * cols"
    and f: "chooses (prepared_costs exact_arithmetic rows cols maximize costs) (min rows cols) (max rows cols) f"
  defines "M \<equiv> place (cols < rows) f ` {..< min rows cols}"
  shows "complete_matching costs rows cols M
    \<and> cost_of (prepared_costs exact_arithmetic rows cols maximize costs) (min rows cols) (max rows cols) f = oriented maximize (total_cost costs cols M)"
proof -
  let ?m = "min rows cols" and ?n = "max rows cols" and ?input = "prepared_costs exact_arithmetic rows cols maximize costs"
  have inj: "inj_on f {..< ?m}" and ran: "\<And>r. r < ?m \<Longrightarrow> f r < ?n" using f by (auto simp: chooses_def)
  have num: "\<exists>a. entry costs cols (fst (place (cols < rows) f r)) (snd (place (cols < rows) f r)) = Number a
      \<and> entry ?input ?n r (f r) = Number (oriented maximize a)" if r: "r < ?m" for r
  proof -
    obtain b where b: "entry ?input ?n r (f r) = Number b" using f r by (auto simp: chooses_def)
    have b': "entry ?input ?n r (f r) = Number (oriented maximize (oriented maximize b))" using b by (simp add: oriented_def)
    then have "entry costs cols (fst (place (cols < rows) f r)) (snd (place (cols < rows) f r)) = Number (oriented maximize b)"
      by (rule iffD1 [OF prepared_number [where f = f, OF len r ran [OF r]]])
    with b' show ?thesis by blast
  qed
  have "complete_matching costs rows cols M"
    unfolding complete_matching_def M_def
  proof (intro conjI ballI)
    show "place (cols < rows) f ` {..< ?m} \<subseteq> {..< rows} \<times> {..< cols}" using ran by (auto simp: place_def split: if_splits)
    show "inj_on fst (place (cols < rows) f ` {..< ?m})" "inj_on snd (place (cols < rows) f ` {..< ?m})"
      using inj by (auto simp: place_def inj_on_def split: if_splits)
    show "card (place (cols < rows) f ` {..< ?m}) = ?m" by (simp add: card_image place_inj)
    fix p assume "p \<in> place (cols < rows) f ` {..< ?m}"
    then obtain r where "r < ?m" "p = place (cols < rows) f r" by auto
    then show "\<exists>a. entry costs cols (fst p) (snd p) = Number a" using num [of r] by blast
  qed
  moreover have "cost_of ?input ?m ?n f = (\<Sum>r < ?m. oriented maximize (number (entry costs cols
      (fst (place (cols < rows) f r)) (snd (place (cols < rows) f r)))))"
    unfolding cost_of_def
  proof (rule sum.cong)
    fix r assume "r \<in> {..< ?m}"
    then obtain a where "entry costs cols (fst (place (cols < rows) f r)) (snd (place (cols < rows) f r)) = Number a"
      "entry ?input ?n r (f r) = Number (oriented maximize a)" using num [of r] by auto
    then show "number (entry ?input ?n r (f r)) = oriented maximize (number (entry costs cols
        (fst (place (cols < rows) f r)) (snd (place (cols < rows) f r))))" by simp
  qed simp
  then have "cost_of ?input ?m ?n f = oriented maximize (total_cost costs cols M)"
    unfolding total_cost_def M_def by (simp add: sum.reindex [OF place_inj] oriented_def sum_negf)
  ultimately show ?thesis by blast
qed

lemma choice_of_matching:
  fixes costs :: "'a::linordered_ab_group_add exact list"
  assumes len: "length costs = rows * cols" and M: "complete_matching costs rows cols M"
  shows "\<exists>f. chooses (prepared_costs exact_arithmetic rows cols maximize costs) (min rows cols) (max rows cols) f
    \<and> M = place (cols < rows) f ` {..< min rows cols}"
proof -
  let ?m = "min rows cols" and ?n = "max rows cols" and ?input = "prepared_costs exact_arithmetic rows cols maximize costs"
  define near far :: "nat \<times> nat \<Rightarrow> nat" where "near = (if cols < rows then snd else fst)" and "far = (if cols < rows then fst else snd)"
  have fin: "finite M" using M by (auto simp: complete_matching_def intro: finite_subset)
  have inj: "inj_on near M" "inj_on far M" using M by (auto simp: complete_matching_def near_def far_def)
  have ran: "near p < ?m \<and> far p < ?n" if "p \<in> M" for p
    using M that by (auto simp: complete_matching_def near_def far_def)
  have all: "near ` M = {..< ?m}"
  proof (rule card_subset_eq)
    show "near ` M \<subseteq> {..< ?m}" using ran by auto
    show "card (near ` M) = card {..< ?m}" using M inj(1) by (simp add: card_image complete_matching_def)
  qed simp
  define g where "g r = (SOME p. p \<in> M \<and> near p = r)" for r
  have g: "g r \<in> M \<and> near (g r) = r" if "r < ?m" for r
  proof -
    have "r \<in> near ` M" using all that by simp
    then have "\<exists>p. p \<in> M \<and> near p = r" by blast
    then show ?thesis unfolding g_def by (rule someI_ex)
  qed
  define f where "f r = far (g r)" for r
  have at: "place (cols < rows) f r = g r" if "r < ?m" for r
  proof -
    have n: "near (g r) = r" using g [OF that] by blast
    show ?thesis
    proof (cases "cols < rows")
      case True
      then have "near = snd" "far = fst" by (simp_all add: near_def far_def)
      then show ?thesis using n True by (metis f_def place_def prod.collapse)
    next
      case False
      then have "near = fst" "far = snd" by (simp_all add: near_def far_def)
      then show ?thesis using n False by (metis f_def place_def prod.collapse)
    qed
  qed
  have restored: "p = place (cols < rows) f (near p)" if "p \<in> M" for p
  proof -
    have "g (near p) = p" using g [of "near p"] ran [OF that] that inj(1) by (simp add: inj_on_def)
    then show ?thesis using at [of "near p"] ran [OF that] by simp
  qed
  have eq: "M = place (cols < rows) f ` {..< ?m}"
  proof
    show "M \<subseteq> place (cols < rows) f ` {..< ?m}" using restored ran by blast
    show "place (cols < rows) f ` {..< ?m} \<subseteq> M" using at g by auto
  qed
  have "chooses ?input ?m ?n f"
    unfolding chooses_def
  proof (intro conjI allI impI)
    show "inj_on f {..< ?m}"
    proof (rule inj_onI)
      fix r r' assume r: "r \<in> {..< ?m}" "r' \<in> {..< ?m}" "f r = f r'"
      then have "g r = g r'" using inj(2) g unfolding f_def inj_on_def by (metis lessThan_iff)
      then show "r = r'" using g r by (metis lessThan_iff)
    qed
    fix r assume r: "r < ?m"
    show ran': "f r < ?n" using ran g [OF r] by (simp add: f_def)
    obtain a where "entry costs cols (fst (g r)) (snd (g r)) = Number a" using M g [OF r] by (auto simp: complete_matching_def)
    then show "\<exists>a. entry ?input ?n r (f r) = Number a" using prepared_number [where f = f, OF len r ran', of maximize a] at [OF r] by auto
  qed
  with eq show ?thesis by blast
qed

lemma pair_set_written:
  assumes "rows_matched m n m S"
  shows "pair_set (written turned m S) = place turned (column_of S) ` {..< m}"
  unfolding pair_set_def using written_entries [OF assms, of turned]
  by (cases turned) (simp_all add: place_def image_image)

lemma solver_exact:
  fixes costs :: "'a::linordered_ab_group_add exact list"
  assumes len: "length costs = rows * cols" and size: "0 < rows" "0 < cols"
    and result: "solve_assignment exact_arithmetic rows cols costs maximize = r"
  defines "input \<equiv> prepared_costs exact_arithmetic rows cols maximize costs"
  shows "r = Some (Lsap_Invalid, []) \<or> r = Some (Lsap_Infeasible, []) \<and> (\<nexists>f. chooses input (min rows cols) (max rows cols) f)
    \<or> (\<exists>S :: 'a exact lsap_state. solved input (min rows cols) (max rows cols) (min rows cols) S
        \<and> r = Some (Lsap_Ok, written (cols < rows) (min rows cols) S))"
proof -
  let ?m = "min rows cols" and ?n = "max rows cols" and ?A = "exact_arithmetic :: 'a exact arithmetic"
  show ?thesis
  proof (cases "list_ex (\<lambda>x. \<not> ar_eq ?A x x \<or> ar_eq ?A x (ar_neg ?A (ar_infinity ?A))) input")
    case True
    then show ?thesis using size unfolding result [symmetric] input_def by (simp add: solve_assignment_def Let_def)
  next
    case False
    have costs: "is_cost (entry input ?n r c)" if "r < ?m" "c < ?n" for r c
    proof -
      have "entry input ?n r c \<in> set input" unfolding entry_def input_def by (rule nth_mem [OF prepared_entry(2) [OF len that]])
      then have "entry input ?n r c \<noteq> Not_A_Number" "entry input ?n r c \<noteq> Neg_Infinity" using False by (auto simp: list_ex_iff)
      then show ?thesis by (cases "entry input ?n r c") simp_all
    qed
    have unfolded: "r = (case augment_rows ?A ?m ?n input [0 ..< ?m] (fresh_state ?A ?m ?n) of None \<Rightarrow> None
        | Some (Inl e) \<Rightarrow> Some (e, []) | Some (Inr S) \<Rightarrow> Some (Lsap_Ok, written (cols < rows) ?m S))"
      using False size unfolding result [symmetric] solve_assignment_def written_def input_def by (simp only: Let_def if_False) simp
    from rows_solved [OF costs] show ?thesis
    proof
      assume a: "augment_rows ?A ?m ?n input [0 ..< ?m] (fresh_state ?A ?m ?n) = Some (Inl Lsap_Infeasible)
        \<and> (\<nexists>f. chooses input ?m ?n f)"
      then have "r = Some (Lsap_Infeasible, [])" by (simp add: unfolded)
      with a show ?thesis by blast
    next
      assume "\<exists>S :: 'a exact lsap_state. augment_rows ?A ?m ?n input [0 ..< ?m] (fresh_state ?A ?m ?n) = Some (Inr S)
        \<and> solved input ?m ?n ?m S"
      then obtain S :: "'a exact lsap_state" where S: "augment_rows ?A ?m ?n input [0 ..< ?m] (fresh_state ?A ?m ?n) = Some (Inr S)"
        "solved input ?m ?n ?m S" by blast
      from S(1) have "r = Some (Lsap_Ok, written (cols < rows) ?m S)" by (simp add: unfolded)
      with S(2) show ?thesis by blast
    qed
  qed
qed

section \<open>Properties\<close>

text \<open>C22: With an arithmetic that does not round, a matching that the solver returns is complete and of finite costs, and
  no other such matching costs less (or more, when it maximises).\<close>

theorem assignment_optimal:
  fixes costs :: "'a::linordered_ab_group_add exact list"
  assumes len: "length costs = rows * cols"
    and result: "solve_assignment exact_arithmetic rows cols costs maximize = Some (Lsap_Ok, pairs)"
  shows "complete_matching costs rows cols (pair_set pairs)
    \<and> (complete_matching costs rows cols M \<longrightarrow>
       (if maximize then total_cost costs cols M \<le> total_cost costs cols (pair_set pairs)
        else total_cost costs cols (pair_set pairs) \<le> total_cost costs cols M))"
proof (cases "rows = 0 \<or> cols = 0")
  case True
  then have "pairs = []" using result by (auto simp: solve_assignment_def)
  moreover have "complete_matching costs rows cols M \<Longrightarrow> M = {}" using True by (auto simp: complete_matching_def)
  ultimately show ?thesis using True by (auto simp: pair_set_def complete_matching_def total_cost_def)
next
  case False
  let ?input = "prepared_costs exact_arithmetic rows cols maximize costs" and ?m = "min rows cols" and ?n = "max rows cols"
  obtain S :: "'a exact lsap_state" where S: "solved ?input ?m ?n ?m S" "pairs = written (cols < rows) ?m S"
    using solver_exact [OF len _ _ result] False by auto
  have set: "pair_set pairs = place (cols < rows) (column_of S) ` {..< ?m}"
    unfolding S(2) by (rule pair_set_written [where n = ?n]) (use S(1) in \<open>simp add: solved_def\<close>)
  note this_one = matching_of_choice [OF len solved_chooses [OF S(1)], folded set]
  have "oriented maximize (total_cost costs cols (pair_set pairs)) \<le> oriented maximize (total_cost costs cols M)"
    if other: "complete_matching costs rows cols M"
  proof -
    obtain f where f: "chooses ?input ?m ?n f" "M = place (cols < rows) f ` {..< ?m}"
      using choice_of_matching [OF len other] by blast
    have "cost_of ?input ?m ?n f = oriented maximize (total_cost costs cols M)"
      using matching_of_choice [OF len f(1)] f(2) by simp
    then show ?thesis using solved_optimal [OF S(1) f(1)] this_one by simp
  qed
  then show ?thesis using conjunct1 [OF this_one] by (cases maximize) (simp_all add: oriented_def)
qed

text \<open>C31: The solver reports an infeasible problem only if there is no complete matching of finite cost.\<close>

theorem infeasible_means_none:
  fixes costs :: "'a::linordered_ab_group_add exact list"
  assumes len: "length costs = rows * cols"
    and result: "solve_assignment exact_arithmetic rows cols costs maximize = Some (Lsap_Infeasible, pairs)"
  shows "\<not> complete_matching costs rows cols M"
proof
  assume M: "complete_matching costs rows cols M"
  have size: "0 < rows" "0 < cols" using result by (auto simp: solve_assignment_def split: if_splits)
  have "\<nexists>f. chooses (prepared_costs exact_arithmetic rows cols maximize costs) (min rows cols) (max rows cols) f"
    using solver_exact [OF len size result] by auto
  then show False using choice_of_matching [OF len M] by blast
qed

section \<open>Instances\<close>

definition three_by_three :: "int exact list" where
  "three_by_three = map Number [4, 1, 3, 2, 0, 5, 3, 2, 2]"

lemma three_run: "solve_assignment exact_arithmetic 3 3 three_by_three False = Some (Lsap_Ok, [(0, 1), (1, 0), (2, 2)])"
  by code_simp

theorem assignment_optimal_witness:
  "total_cost three_by_three 3 (pair_set [(0, 1), (1, 0), (2, 2)]) \<le> total_cost three_by_three 3 {(0, 0), (1, 1), (2, 2)}"
proof -
  have "complete_matching three_by_three 3 3 {(0, 0), (1, 1), (2, 2)}"
    by (simp add: complete_matching_def three_by_three_def entry_def inj_on_def)
  with assignment_optimal [OF _ three_run, of "{(0, 0), (1, 1), (2, 2)}"] show ?thesis by (simp add: three_by_three_def)
qed

definition blocked :: "int exact list" where
  "blocked = [Pos_Infinity, Number 1, Pos_Infinity, Number 2]"

lemma blocked_run: "solve_assignment exact_arithmetic 2 2 blocked False = Some (Lsap_Infeasible, [])"
  by code_simp

theorem infeasible_means_none_witness: "\<not> complete_matching blocked 2 2 {(0, 0), (1, 1)}"
  using infeasible_means_none [OF _ blocked_run] by (simp add: blocked_def)

end
