(* ===== verification/Compiled_Layout.thy ===== *)
theory Compiled_Layout
  imports Common_Math
begin

text \<open>
  The layout of a compiled dataset: \<open>src/backend/data/compiled/compiled_file_layout.cpp\<close> and the header
  checks of \<open>compiled_file_utils.h\<close>. A file is a header and a class catalog, then blocks of slots, each
  block the pixels of its slots followed by their labels, then the index. Offsets are natural numbers;
  every addition and multiplication is the checked one of the code, so an overflow is an error value.
\<close>

section \<open>Constants\<close>

definition PAGE_SIZE :: nat where "PAGE_SIZE = 4096"
definition HUGE_PAGE_SIZE :: nat where "HUGE_PAGE_SIZE = 2 * 1024 * 1024"
definition COMPILED_LABEL_LIMIT :: nat where "COMPILED_LABEL_LIMIT = 500000"
definition COMPILED_CATALOG_LIMIT :: nat where "COMPILED_CATALOG_LIMIT = 32 * 1024 * 1024"
definition COMPILED_BLOCK_SLOTS :: nat where "COMPILED_BLOCK_SLOTS = 64"
definition COMPILED_METADATA_CAPACITY :: nat where "COMPILED_METADATA_CAPACITY = 1000000000"
definition MAX_CLASSES :: nat where "MAX_CLASSES = 256"
definition MAX_IMAGE_EXTENT :: nat where "MAX_IMAGE_EXTENT = 32767"
definition COMPILED_CLASS_NAME_CAPACITY :: nat where "COMPILED_CLASS_NAME_CAPACITY = 31"
definition MAGIC :: nat where "MAGIC = 0x464153544C445232"
definition FORMAT_VERSION :: nat where "FORMAT_VERSION = 11"

lemmas compiled_constants = PAGE_SIZE_def HUGE_PAGE_SIZE_def COMPILED_LABEL_LIMIT_def COMPILED_CATALOG_LIMIT_def
  COMPILED_BLOCK_SLOTS_def COMPILED_METADATA_CAPACITY_def MAX_CLASSES_def MAX_IMAGE_EXTENT_def
  COMPILED_CLASS_NAME_CAPACITY_def MAGIC_def FORMAT_VERSION_def

text \<open>The sizes that the source asserts of its packed records.\<close>

definition sizeof_PackedInstance :: nat where "sizeof_PackedInstance = 60"
definition sizeof_RLEPair :: nat where "sizeof_RLEPair = 8"
definition sizeof_PackedJointHeader :: nat where "sizeof_PackedJointHeader = 8"
definition sizeof_PackedJointSpan :: nat where "sizeof_PackedJointSpan = 8"
definition sizeof_PackedKeypoint :: nat where "sizeof_PackedKeypoint = 12"
definition sizeof_ImageEntry :: nat where "sizeof_ImageEntry = 32"
definition sizeof_FileHeader :: nat where "sizeof_FileHeader = 8320"
definition sizeof_float :: nat where "sizeof_float = 4"

lemmas compiled_sizes = sizeof_PackedInstance_def sizeof_RLEPair_def sizeof_PackedJointHeader_def
  sizeof_PackedJointSpan_def sizeof_PackedKeypoint_def sizeof_ImageEntry_def sizeof_FileHeader_def sizeof_float_def

section \<open>Alignment\<close>

definition compiled_align_up :: "nat \<Rightarrow> nat \<Rightarrow> cxx_error + nat" where
  "compiled_align_up v alignment =
     (if alignment = 0 \<or> alignment AND (alignment - 1) \<noteq> 0
      then Inl (Invalid_Argument ''compiled alignment must be a power of two'')
      else bindr (checked_add_size v (alignment - 1) ''compiled alignment overflow'') (\<lambda>s.
        Inr (unat ((of_nat s :: u64) AND NOT (of_nat (alignment - 1))))))"

text \<open>The least multiple of \<open>a\<close> that is at least \<open>v\<close>.\<close>

definition round_up :: "nat \<Rightarrow> nat \<Rightarrow> nat" where
  "round_up v a = (v + (a - 1)) div a * a"

lemma round_up_bounds: "0 < a \<Longrightarrow> v \<le> round_up v a \<and> round_up v a \<le> v + (a - 1)"
proof -
  assume "0 < a"
  then have "(v + (a - 1)) mod a \<le> a - 1" using mod_less_divisor [of a "v + (a - 1)"] by linarith
  moreover have "round_up v a + (v + (a - 1)) mod a = v + (a - 1)"
    unfolding round_up_def by (rule div_mult_mod_eq)
  ultimately show ?thesis by linarith
qed

lemma round_up_dvd: "a dvd round_up v a"
  by (simp add: round_up_def)

lemma round_up_mono: "v \<le> w \<Longrightarrow> round_up v a \<le> round_up w a"
  by (simp add: round_up_def div_le_mono)

lemma round_up_least: "0 < a \<Longrightarrow> a dvd m \<Longrightarrow> v \<le> m \<Longrightarrow> round_up v a \<le> m"
proof -
  assume a: "0 < a" "a dvd m" "v \<le> m"
  then obtain k where k: "m = a * k" by blast
  have "(v + (a - 1)) div a \<le> (m + (a - 1)) div a" using a by (intro div_le_mono) simp
  also have "\<dots> = k" using a(1) unfolding k by (subst div_mult_self4) auto
  finally show ?thesis unfolding round_up_def k by (metis mult.commute mult_le_mono1)
qed

lemma clear_low_bits: "unat (w AND NOT (mask k) :: u64) = unat w div 2 ^ k * 2 ^ k"
proof -
  have le: "take_bit k w \<le> w"
    unfolding word_le_nat_alt unsigned_take_bit_eq by simp
  have "NOT w AND take_bit k w = 0" by (rule bit_eqI) (simp add: bit_simps)
  then have "w - take_bit k w = w AND NOT (take_bit k w)" by (rule disjunctive_diff_eq_and_not)
  also have "\<dots> = w AND NOT (mask k)" by (rule bit_eqI) (auto simp: bit_simps)
  finally have "w AND NOT (mask k) = w - take_bit k w" by simp
  moreover have "unat (take_bit k w) = unat w mod 2 ^ k"
    by (rule trans [OF unsigned_take_bit_eq]) (rule take_bit_eq_mod)
  ultimately have "unat (w AND NOT (mask k)) = unat w - unat w mod 2 ^ k"
    using unat_sub [OF le] by simp
  also have "\<dots> = unat w div 2 ^ k * 2 ^ k" by (rule minus_mod_eq_div_mult)
  finally show ?thesis .
qed

lemma compiled_align_up_power:
  assumes "v \<le> size_max" and "k < 64"
  shows "compiled_align_up v (2 ^ k) =
    (if v + (2 ^ k - 1) \<le> size_max then Inr (round_up v (2 ^ k)) else Inl (Overflow_Error ''compiled alignment overflow''))"
proof -
  define d :: nat where "d = 2 ^ k - 1"
  have d: "d \<le> size_max"
  proof -
    have "(2 :: nat) ^ k \<le> 2 ^ 63" using assms(2) by (intro power_increasing) auto
    then show ?thesis by (simp add: d_def)
  qed
  have "(2 :: nat) ^ k AND mask k = 0" by (simp flip: take_bit_eq_mask add: take_bit_eq_mod)
  then have pow: "2 ^ k AND d = 0" by (simp add: mask_eq_exp_minus_1 d_def)
  have m: "(of_nat d :: u64) = mask k"
    by (simp add: d_def mask_eq_exp_minus_1 of_nat_diff)
  have w: "unat (of_nat s :: u64) = s" if "s \<le> size_max" for s
    using that by (simp add: unsigned_of_nat take_bit_nat_eq_self)
  have "compiled_align_up v (2 ^ k) = bindr (checked_add_size v d ''compiled alignment overflow'') (\<lambda>s.
      Inr (unat ((of_nat s :: u64) AND NOT (mask k))))"
    unfolding compiled_align_up_def d_def [symmetric] m using pow by simp
  then show ?thesis
    unfolding checked_add_size_eq [OF assms(1) d] clear_low_bits round_up_def d_def [symmetric]
    by (simp add: w del: of_nat_add)
qed

lemma align_up_simps:
  assumes "v \<le> size_max"
  shows "compiled_align_up v sizeof_RLEPair =
      (if v + 7 \<le> size_max then Inr (round_up v 8) else Inl (Overflow_Error ''compiled alignment overflow''))"
    and "compiled_align_up v PAGE_SIZE =
      (if v + 4095 \<le> size_max then Inr (round_up v 4096) else Inl (Overflow_Error ''compiled alignment overflow''))"
    and "compiled_align_up v HUGE_PAGE_SIZE =
      (if v + 2097151 \<le> size_max then Inr (round_up v 2097152) else Inl (Overflow_Error ''compiled alignment overflow''))"
  using compiled_align_up_power [OF assms, of 3] compiled_align_up_power [OF assms, of 12]
    compiled_align_up_power [OF assms, of 21]
  by (simp_all add: compiled_constants compiled_sizes)

section \<open>The payload of a slot\<close>

record annotation_extent =
  al_run_offset :: nat
  al_joint_span_offset :: nat
  al_joint_offset :: nat
  al_used_bytes :: nat

definition joint_extent :: "nat \<Rightarrow> nat \<Rightarrow> nat \<Rightarrow> nat \<Rightarrow> cxx_error + annotation_extent" where
  "joint_extent labels joints run_off bytes =
     bindr (checked_add_size bytes sizeof_PackedJointHeader ''compiled joint header overflow'') (\<lambda>span_off.
     bindr (checked_multiply_size labels sizeof_PackedJointSpan ''compiled joint spans overflow'') (\<lambda>span_bytes.
     bindr (checked_add_size span_off span_bytes ''compiled joint offset overflow'') (\<lambda>joint_off.
     bindr (checked_multiply_size joints sizeof_PackedKeypoint ''compiled joints overflow'') (\<lambda>joint_bytes.
     bindr (checked_add_size joint_off joint_bytes ''compiled joint extent overflow'') (\<lambda>joint_end.
     bindr (compiled_align_up joint_end sizeof_RLEPair) (\<lambda>used.
       Inr \<lparr>al_run_offset = run_off, al_joint_span_offset = span_off, al_joint_offset = joint_off,
            al_used_bytes = used\<rparr>))))))"

definition annotation_layout :: "nat \<Rightarrow> nat \<Rightarrow> nat \<Rightarrow> nat \<Rightarrow> cxx_error + annotation_extent" where
  "annotation_layout labels runs capacity joints =
     (if capacity > COMPILED_LABEL_LIMIT \<or> capacity mod sizeof_RLEPair \<noteq> 0
      then Inl (Invalid_Argument ''invalid compiled label capacity'')
      else
        bindr (checked_multiply_size labels sizeof_PackedInstance ''compiled labels overflow'') (\<lambda>label_bytes.
        bindr (compiled_align_up label_bytes sizeof_RLEPair) (\<lambda>run_off.
        bindr (checked_multiply_size runs sizeof_RLEPair ''compiled runs overflow'') (\<lambda>run_bytes.
        bindr (checked_add_size run_off run_bytes ''compiled label payload overflow'') (\<lambda>bytes.
        bindr (if joints \<noteq> 0 then joint_extent labels joints run_off bytes
               else Inr \<lparr>al_run_offset = run_off, al_joint_span_offset = 0, al_joint_offset = 0,
                         al_used_bytes = bytes\<rparr>) (\<lambda>layout.
          if al_used_bytes layout > capacity then Inl (Runtime_Error ''compiled label capacity exceeded'')
          else Inr layout))))))"

text \<open>The extents in exact arithmetic.\<close>

definition exact_runs :: "nat \<Rightarrow> nat" where
  "exact_runs labels = round_up (labels * 60) 8"

definition exact_used :: "nat \<Rightarrow> nat \<Rightarrow> nat \<Rightarrow> nat" where
  "exact_used labels runs joints =
     (if joints = 0 then exact_runs labels + runs * 8
      else round_up (exact_runs labels + runs * 8 + 8 + labels * 8 + joints * 12) 8)"

lemma checked_add_Inr: "checked_add_size a b ctx = Inr r \<Longrightarrow> a \<le> size_max \<Longrightarrow> r = a + b \<and> a + b \<le> size_max"
  by (auto simp: checked_add_size_def split: if_splits)

lemma checked_multiply_Inr: "checked_multiply_size a b ctx = Inr r \<longleftrightarrow> r = a * b \<and> a * b \<le> size_max"
  by (auto simp: checked_multiply_size_eq)

lemma align_up_Inr:
  assumes "v \<le> size_max"
  shows "compiled_align_up v sizeof_RLEPair = Inr r \<longleftrightarrow> r = round_up v 8 \<and> v + 7 \<le> size_max"
    and "compiled_align_up v PAGE_SIZE = Inr r \<longleftrightarrow> r = round_up v 4096 \<and> v + 4095 \<le> size_max"
    and "compiled_align_up v HUGE_PAGE_SIZE = Inr r \<longleftrightarrow> r = round_up v 2097152 \<and> v + 2097151 \<le> size_max"
  by (auto simp: align_up_simps [OF assms])

lemma round_up_le_max: "v + (a - 1) \<le> size_max \<Longrightarrow> 0 < a \<Longrightarrow> round_up v a \<le> size_max"
  using round_up_bounds [of a v] by linarith

lemma round_up_8: "v \<le> round_up v 8" "round_up v 8 \<le> v + 7"
  using round_up_bounds [of 8 v] by simp_all

text \<open>A layout is returned exactly when the payload fits its capacity, and it is the exact one.\<close>

definition exact_layout :: "nat \<Rightarrow> nat \<Rightarrow> nat \<Rightarrow> annotation_extent" where
  "exact_layout labels runs joints =
     (let bytes = exact_runs labels + runs * 8 in
      \<lparr>al_run_offset = exact_runs labels,
       al_joint_span_offset = (if joints = 0 then 0 else bytes + 8),
       al_joint_offset = (if joints = 0 then 0 else bytes + 8 + labels * 8),
       al_used_bytes = exact_used labels runs joints\<rparr>)"

lemma joint_extent_Inr:
  assumes "bytes \<le> size_max"
  shows "joint_extent labels joints run_off bytes = Inr layout \<longleftrightarrow>
    layout = \<lparr>al_run_offset = run_off, al_joint_span_offset = bytes + 8, al_joint_offset = bytes + 8 + labels * 8,
      al_used_bytes = round_up (bytes + 8 + labels * 8 + joints * 12) 8\<rparr> \<and>
    bytes + 8 + labels * 8 + joints * 12 + 7 \<le> size_max"
    (is "_ \<longleftrightarrow> ?exact \<and> ?fits")
proof
  assume "joint_extent labels joints run_off bytes = Inr layout"
  then obtain span_off joint_off joint_end used where
    s: "checked_add_size bytes 8 ''compiled joint header overflow'' = Inr span_off"
    and jo: "checked_add_size span_off (labels * 8) ''compiled joint offset overflow'' = Inr joint_off"
    and je: "checked_add_size joint_off (joints * 12) ''compiled joint extent overflow'' = Inr joint_end"
    and u: "compiled_align_up joint_end sizeof_RLEPair = Inr used"
    and l: "layout = \<lparr>al_run_offset = run_off, al_joint_span_offset = span_off, al_joint_offset = joint_off, al_used_bytes = used\<rparr>"
    unfolding joint_extent_def bindr_Inr_iff checked_multiply_Inr
    by (auto simp: sizeof_PackedJointHeader_def sizeof_PackedJointSpan_def sizeof_PackedKeypoint_def)
  have s': "span_off = bytes + 8" "span_off \<le> size_max" using checked_add_Inr [OF s assms] by auto
  have jo': "joint_off = span_off + labels * 8" "joint_off \<le> size_max" using checked_add_Inr [OF jo s'(2)] by auto
  have je': "joint_end = joint_off + joints * 12" "joint_end \<le> size_max" using checked_add_Inr [OF je jo'(2)] by auto
  have "used = round_up joint_end 8 \<and> joint_end + 7 \<le> size_max" using u align_up_Inr(1) [OF je'(2)] by blast
  then show "?exact \<and> ?fits" using l s'(1) jo'(1) je'(1) by simp
next
  assume r: "?exact \<and> ?fits"
  then have b: "bytes + 8 \<le> size_max" "labels * 8 \<le> size_max" "joints * 12 \<le> size_max"
    "bytes + 8 + labels * 8 \<le> size_max" "bytes + 8 + labels * 8 + joints * 12 \<le> size_max" by auto
  have "joint_extent labels joints run_off bytes =
    Inr \<lparr>al_run_offset = run_off, al_joint_span_offset = bytes + 8, al_joint_offset = bytes + 8 + labels * 8,
      al_used_bytes = round_up (bytes + 8 + labels * 8 + joints * 12) 8\<rparr>"
    using b assms align_up_simps(1) [OF b(5)] r
    by (simp add: joint_extent_def sizeof_PackedJointHeader_def sizeof_PackedJointSpan_def
        sizeof_PackedKeypoint_def checked_multiply_size_eq checked_add_size_eq)
  with r show "joint_extent labels joints run_off bytes = Inr layout" by simp
qed

lemma exact_used_lower:
  "labels * 60 \<le> exact_runs labels" "exact_runs labels + runs * 8 \<le> exact_used labels runs joints"
  "joints \<noteq> 0 \<Longrightarrow> exact_runs labels + runs * 8 + 8 + labels * 8 + joints * 12 \<le> exact_used labels runs joints"
  using round_up_8 by (auto simp: exact_used_def exact_runs_def intro: le_trans [OF _ round_up_8(1)])

lemma annotation_layout_Inr:
  assumes "capacity \<le> COMPILED_LABEL_LIMIT" and "capacity mod 8 = 0"
  shows "annotation_layout labels runs capacity joints = Inr layout \<longleftrightarrow>
    exact_used labels runs joints \<le> capacity \<and> layout = exact_layout labels runs joints"
proof -
  have cap: "capacity \<le> 500000" "\<not> (capacity > COMPILED_LABEL_LIMIT \<or> capacity mod sizeof_RLEPair \<noteq> 0)"
    using assms by (simp_all add: COMPILED_LABEL_LIMIT_def sizeof_RLEPair_def)
  let ?r = "exact_runs labels" and ?b = "exact_runs labels + runs * 8"
  let ?fits = "labels * 60 + 7 \<le> size_max \<and> ?b \<le> size_max \<and>
      (joints \<noteq> 0 \<longrightarrow> ?b + 8 + labels * 8 + joints * 12 + 7 \<le> size_max)"
  have "annotation_layout labels runs capacity joints = Inr layout \<longleftrightarrow>
    ?fits \<and> layout = exact_layout labels runs joints \<and> al_used_bytes layout \<le> capacity" (is "?L \<longleftrightarrow> ?R")
  proof
    assume ?L
    from \<open>?L\<close> [unfolded annotation_layout_def if_not_P [OF cap(2)] bindr_Inr_iff checked_multiply_Inr]
    obtain lb ro run_off rb bytes l where
      mult: "lb = labels * sizeof_PackedInstance \<and> labels * sizeof_PackedInstance \<le> size_max"
        "rb = runs * sizeof_RLEPair \<and> runs * sizeof_RLEPair \<le> size_max"
      and ro: "compiled_align_up lb sizeof_RLEPair = Inr run_off"
      and b: "checked_add_size run_off rb ''compiled label payload overflow'' = Inr bytes"
      and l: "(if joints \<noteq> 0 then joint_extent labels joints run_off bytes
               else Inr \<lparr>al_run_offset = run_off, al_joint_span_offset = 0, al_joint_offset = 0, al_used_bytes = bytes\<rparr>) = Inr l"
      and fin: "(if al_used_bytes l > capacity then Inl (Runtime_Error ''compiled label capacity exceeded'') else Inr l) = Inr layout"
      by blast
    have lb: "lb = labels * 60" "labels * 60 \<le> size_max" and rb: "rb = runs * 8"
      using mult by (simp_all add: sizeof_PackedInstance_def sizeof_RLEPair_def)
    have small: "al_used_bytes l \<le> capacity" and eq: "layout = l" using fin by (auto split: if_splits)
    note ro = ro [unfolded lb(1)] and b = b [unfolded rb]
    have ro': "run_off = ?r" "labels * 60 + 7 \<le> size_max" using ro align_up_Inr(1) [OF lb(2)] by (auto simp: exact_runs_def)
    then have "run_off \<le> size_max" using round_up_8(2) [of "labels * 60"] by (simp add: exact_runs_def)
    from checked_add_Inr [OF b this] have b': "bytes = ?b" "bytes \<le> size_max" using ro'(1) by auto
    show ?R
    proof (cases "joints = 0")
      case True
      then show ?thesis using l small eq b' ro' by (auto simp: exact_layout_def exact_used_def Let_def)
    next
      case False
      then show ?thesis using l small eq b' ro' joint_extent_Inr [OF b'(2)]
        by (auto simp: exact_layout_def exact_used_def Let_def)
    qed
  next
    assume R: ?R
    then have b: "labels * 60 \<le> size_max" "labels * 60 + 7 \<le> size_max" "?b \<le> size_max" "?r \<le> size_max" "runs * 8 \<le> size_max"
      by auto
    have "annotation_layout labels runs capacity joints =
      bindr (if joints \<noteq> 0 then joint_extent labels joints ?r ?b
             else Inr \<lparr>al_run_offset = ?r, al_joint_span_offset = 0, al_joint_offset = 0, al_used_bytes = ?b\<rparr>) (\<lambda>l.
        if al_used_bytes l > capacity then Inl (Runtime_Error ''compiled label capacity exceeded'') else Inr l)"
      unfolding annotation_layout_def if_not_P [OF cap(2)]
      using b align_up_simps(1) [OF b(1)]
      by (simp add: sizeof_PackedInstance_def sizeof_RLEPair_def checked_multiply_size_eq
          checked_add_size_eq exact_runs_def)
    moreover have "(if joints \<noteq> 0 then joint_extent labels joints ?r ?b
        else Inr \<lparr>al_run_offset = ?r, al_joint_span_offset = 0, al_joint_offset = 0, al_used_bytes = ?b\<rparr>) = Inr layout"
    proof (cases "joints = 0")
      case True
      with R show ?thesis by (simp add: exact_layout_def exact_used_def)
    next
      case False
      with R joint_extent_Inr [OF b(3), of labels joints ?r layout] show ?thesis
        by (simp add: exact_layout_def exact_used_def Let_def)
    qed
    moreover have "\<not> al_used_bytes layout > capacity" using R leD by blast
    ultimately show ?L by simp
  qed
  also have "\<dots> \<longleftrightarrow> exact_used labels runs joints \<le> capacity \<and> layout = exact_layout labels runs joints"
    using exact_used_lower(1) [of labels] exact_used_lower(2) [of labels runs joints]
      exact_used_lower(3) [of joints labels runs] cap(1)
    by (auto simp: exact_layout_def Let_def)
  finally show ?thesis .
qed

section \<open>The layout of the file\<close>

record file_layout =
  fl_num_slots :: nat
  fl_image_stride :: nat
  fl_pixel_pitch :: nat
  fl_label_capacity :: nat
  fl_label_pitch :: nat
  fl_pixel_block_bytes :: nat
  fl_block_bytes :: nat
  fl_catalog_bytes :: nat
  fl_data_offset :: nat
  fl_index_size :: nat
  fl_index_offset :: nat
  fl_total_size :: nat

definition block_count :: "file_layout \<Rightarrow> nat" where
  "block_count L = (fl_num_slots L + COMPILED_BLOCK_SLOTS - 1) div COMPILED_BLOCK_SLOTS"

definition block_index :: "nat \<Rightarrow> nat" where
  "block_index slot = slot div COMPILED_BLOCK_SLOTS"

definition block_offset :: "file_layout \<Rightarrow> nat \<Rightarrow> cxx_error + nat" where
  "block_offset L block =
     bindr (checked_multiply_size block (fl_block_bytes L) ''compiled block offset overflow'') (\<lambda>b.
       checked_add_size (fl_data_offset L) b ''compiled data offset overflow'')"

definition pixel_offset :: "file_layout \<Rightarrow> nat \<Rightarrow> cxx_error + nat" where
  "pixel_offset L slot =
     (if slot \<ge> fl_num_slots L then Inl (Out_Of_Range ''compiled pixel slot'')
      else bindr (block_offset L (slot div COMPILED_BLOCK_SLOTS)) (\<lambda>base.
        bindr (checked_multiply_size (slot mod COMPILED_BLOCK_SLOTS) (fl_pixel_pitch L) ''compiled pixel offset overflow'') (\<lambda>p.
          checked_add_size base p ''compiled pixel extent overflow'')))"

definition label_offset :: "file_layout \<Rightarrow> nat \<Rightarrow> cxx_error + nat" where
  "label_offset L slot =
     (if slot \<ge> fl_num_slots L then Inl (Out_Of_Range ''compiled label slot'')
      else bindr (block_offset L (slot div COMPILED_BLOCK_SLOTS)) (\<lambda>base.
        bindr (checked_add_size base (fl_pixel_block_bytes L) ''compiled label base overflow'') (\<lambda>labels.
        bindr (checked_multiply_size (slot mod COMPILED_BLOCK_SLOTS) (fl_label_pitch L) ''compiled label offset overflow'') (\<lambda>p.
          checked_add_size labels p ''compiled label extent overflow''))))"

text \<open>\<open>off_t\<close> is a signed 64-bit integer.\<close>

definition compute_file_layout :: "nat \<Rightarrow> nat \<Rightarrow> nat \<Rightarrow> nat \<Rightarrow> cxx_error + file_layout" where
  "compute_file_layout slots stride label_cap catalog_size =
     (if stride = 0 \<or> stride mod sizeof_float \<noteq> 0 then Inl (Invalid_Argument ''invalid compiled pixel stride'')
      else if label_cap > COMPILED_LABEL_LIMIT \<or> label_cap mod sizeof_RLEPair \<noteq> 0
      then Inl (Invalid_Argument ''invalid compiled label capacity'')
      else
        bindr (compiled_align_up stride PAGE_SIZE) (\<lambda>pixel_pitch.
        bindr (compiled_align_up label_cap PAGE_SIZE) (\<lambda>label_pitch.
        bindr (checked_multiply_size COMPILED_BLOCK_SLOTS pixel_pitch ''compiled pixel block overflow'') (\<lambda>pixel_block.
        bindr (checked_add_size pixel_pitch label_pitch ''compiled slot extent overflow'') (\<lambda>slot_extent.
        bindr (checked_multiply_size COMPILED_BLOCK_SLOTS slot_extent ''compiled block overflow'') (\<lambda>slots_extent.
        bindr (compiled_align_up slots_extent HUGE_PAGE_SIZE) (\<lambda>block_bytes.
          if catalog_size > COMPILED_CATALOG_LIMIT then Inl (Runtime_Error ''compiled catalog exceeds byte limit'')
          else
        bindr (checked_add_size sizeof_FileHeader catalog_size ''compiled metadata overflow'') (\<lambda>metadata.
        bindr (compiled_align_up metadata HUGE_PAGE_SIZE) (\<lambda>data_off.
        bindr (checked_multiply_size slots sizeof_ImageEntry ''compiled index overflow'') (\<lambda>index_size.
          if index_size > COMPILED_METADATA_CAPACITY
          then Inl (Runtime_Error ''compiled resident metadata exceeds 1000000000 bytes'')
          else
            let layout = \<lparr>fl_num_slots = slots, fl_image_stride = stride, fl_pixel_pitch = pixel_pitch,
                  fl_label_capacity = label_cap, fl_label_pitch = label_pitch, fl_pixel_block_bytes = pixel_block,
                  fl_block_bytes = block_bytes, fl_catalog_bytes = catalog_size, fl_data_offset = data_off,
                  fl_index_size = index_size, fl_index_offset = 0, fl_total_size = 0\<rparr>
            in
        bindr (block_offset layout (block_count layout)) (\<lambda>index_off.
        bindr (checked_add_size index_off index_size ''compiled file extent overflow'') (\<lambda>file_size.
          if file_size > 9223372036854775807
          then Inl (Overflow_Error ''compiled file exceeds native offset representation'')
          else Inr (layout\<lparr>fl_index_offset := index_off, fl_total_size := file_size\<rparr>)))))))))))))"

text \<open>The layout in exact arithmetic.\<close>

definition ideal_layout :: "nat \<Rightarrow> nat \<Rightarrow> nat \<Rightarrow> nat \<Rightarrow> file_layout" where
  "ideal_layout slots stride label_cap catalog_size =
     (let pp = round_up stride 4096; lp = round_up label_cap 4096;
          block = round_up (64 * (pp + lp)) 2097152;
          data = round_up (8320 + catalog_size) 2097152;
          index = data + (slots + 63) div 64 * block
      in \<lparr>fl_num_slots = slots, fl_image_stride = stride, fl_pixel_pitch = pp, fl_label_capacity = label_cap,
          fl_label_pitch = lp, fl_pixel_block_bytes = 64 * pp, fl_block_bytes = block,
          fl_catalog_bytes = catalog_size, fl_data_offset = data, fl_index_size = slots * 32,
          fl_index_offset = index, fl_total_size = index + slots * 32\<rparr>)"

text \<open>What the inputs of a layout must satisfy.\<close>

definition layout_inputs_ok :: "nat \<Rightarrow> nat \<Rightarrow> nat \<Rightarrow> nat \<Rightarrow> bool" where
  "layout_inputs_ok slots stride label_cap catalog_size \<longleftrightarrow>
     0 < stride \<and> stride mod 4 = 0 \<and> label_cap \<le> 500000 \<and> label_cap mod 8 = 0 \<and> catalog_size \<le> 33554432 \<and>
     slots * 32 \<le> 1000000000"

definition layout_fits :: "file_layout \<Rightarrow> bool" where
  "layout_fits L \<longleftrightarrow> 64 * (fl_pixel_pitch L + fl_label_pitch L) + 2097151 \<le> size_max \<and>
     fl_total_size L \<le> 9223372036854775807"

lemmas ideal_layout_simps = ideal_layout_def Let_def

lemma block_offset_Inr:
  assumes "fl_data_offset L \<le> size_max"
  shows "block_offset L block = Inr b \<longleftrightarrow>
    b = fl_data_offset L + block * fl_block_bytes L \<and> fl_data_offset L + block * fl_block_bytes L \<le> size_max"
  using checked_add_size_eq [OF assms, of "block * fl_block_bytes L"]
  by (auto simp: block_offset_def bindr_Inr_iff checked_multiply_Inr split: if_splits)

text \<open>
  A layout is computed exactly when its inputs are admissible and the file fits the native offset type;
  then every field is the exact one, so nothing wrapped.
\<close>

lemma compute_file_layout_sound:
  assumes "compute_file_layout slots stride cap cat = Inr L"
    and "stride \<le> size_max"
  shows "layout_inputs_ok slots stride cap cat" and "layout_fits L" and "L = ideal_layout slots stride cap cat"
proof -
  have guards: "\<not> (stride = 0 \<or> stride mod sizeof_float \<noteq> 0)" "\<not> (cap > COMPILED_LABEL_LIMIT \<or> cap mod sizeof_RLEPair \<noteq> 0)"
    using assms(1) by (auto simp: compute_file_layout_def split: if_splits)
  note run = assms(1) [unfolded compute_file_layout_def if_not_P [OF guards(1)] if_not_P [OF guards(2)] bindr_Inr_iff]
  from run obtain pp lp pb se sx bb where
    pp: "compiled_align_up stride PAGE_SIZE = Inr pp" and lp: "compiled_align_up cap PAGE_SIZE = Inr lp"
    and pb: "checked_multiply_size COMPILED_BLOCK_SLOTS pp ''compiled pixel block overflow'' = Inr pb"
    and se: "checked_add_size pp lp ''compiled slot extent overflow'' = Inr se"
    and sx: "checked_multiply_size COMPILED_BLOCK_SLOTS se ''compiled block overflow'' = Inr sx"
    and bb: "compiled_align_up sx HUGE_PAGE_SIZE = Inr bb"
    and cont: "(if cat > COMPILED_CATALOG_LIMIT then Inl (Runtime_Error ''compiled catalog exceeds byte limit'')
      else bindr (checked_add_size sizeof_FileHeader cat ''compiled metadata overflow'') (\<lambda>metadata.
        bindr (compiled_align_up metadata HUGE_PAGE_SIZE) (\<lambda>data_off.
        bindr (checked_multiply_size slots sizeof_ImageEntry ''compiled index overflow'') (\<lambda>index_size.
          if index_size > COMPILED_METADATA_CAPACITY
          then Inl (Runtime_Error ''compiled resident metadata exceeds 1000000000 bytes'')
          else
            let layout = \<lparr>fl_num_slots = slots, fl_image_stride = stride, fl_pixel_pitch = pp,
                  fl_label_capacity = cap, fl_label_pitch = lp, fl_pixel_block_bytes = pb,
                  fl_block_bytes = bb, fl_catalog_bytes = cat, fl_data_offset = data_off,
                  fl_index_size = index_size, fl_index_offset = 0, fl_total_size = 0\<rparr>
            in
        bindr (block_offset layout (block_count layout)) (\<lambda>index_off.
        bindr (checked_add_size index_off index_size ''compiled file extent overflow'') (\<lambda>file_size.
          if file_size > 9223372036854775807
          then Inl (Overflow_Error ''compiled file exceeds native offset representation'')
          else Inr (layout\<lparr>fl_index_offset := index_off, fl_total_size := file_size\<rparr>))))))) = Inr L"
    by (auto simp: bindr_Inr_iff)
  have guard3: "\<not> cat > COMPILED_CATALOG_LIMIT" using cont by (auto split: if_splits)
  from cont [unfolded if_not_P [OF guard3] bindr_Inr_iff] obtain md data idx where
    md: "checked_add_size sizeof_FileHeader cat ''compiled metadata overflow'' = Inr md"
    and data: "compiled_align_up md HUGE_PAGE_SIZE = Inr data"
    and idx: "checked_multiply_size slots sizeof_ImageEntry ''compiled index overflow'' = Inr idx"
    and cont: "(if idx > COMPILED_METADATA_CAPACITY
          then Inl (Runtime_Error ''compiled resident metadata exceeds 1000000000 bytes'')
          else
            let layout = \<lparr>fl_num_slots = slots, fl_image_stride = stride, fl_pixel_pitch = pp,
                  fl_label_capacity = cap, fl_label_pitch = lp, fl_pixel_block_bytes = pb,
                  fl_block_bytes = bb, fl_catalog_bytes = cat, fl_data_offset = data,
                  fl_index_size = idx, fl_index_offset = 0, fl_total_size = 0\<rparr>
            in
        bindr (block_offset layout (block_count layout)) (\<lambda>index_off.
        bindr (checked_add_size index_off idx ''compiled file extent overflow'') (\<lambda>file_size.
          if file_size > 9223372036854775807
          then Inl (Overflow_Error ''compiled file exceeds native offset representation'')
          else Inr (layout\<lparr>fl_index_offset := index_off, fl_total_size := file_size\<rparr>)))) = Inr L"
    by blast
  have guard4: "\<not> idx > COMPILED_METADATA_CAPACITY" using cont by (auto split: if_splits)
  let ?L = "\<lparr>fl_num_slots = slots, fl_image_stride = stride, fl_pixel_pitch = pp,
                  fl_label_capacity = cap, fl_label_pitch = lp, fl_pixel_block_bytes = pb,
                  fl_block_bytes = bb, fl_catalog_bytes = cat, fl_data_offset = data,
                  fl_index_size = idx, fl_index_offset = 0, fl_total_size = 0\<rparr>"
  from cont [unfolded if_not_P [OF guard4] bindr_Inr_iff Let_def] obtain io ts where
    io: "block_offset ?L (block_count ?L) = Inr io"
    and ts: "checked_add_size io idx ''compiled file extent overflow'' = Inr ts"
    and small: "\<not> ts > 9223372036854775807" and L: "L = ?L\<lparr>fl_index_offset := io, fl_total_size := ts\<rparr>"
    by (auto split: if_splits)
  have cap: "cap \<le> 500000" "cap mod 8 = 0" "stride mod 4 = 0" "0 < stride" "cat \<le> 33554432" "idx \<le> 1000000000"
    using guards guard3 guard4 by (auto simp: compiled_constants compiled_sizes)
  have pp': "pp = round_up stride 4096" "stride + 4095 \<le> size_max" using pp align_up_Inr(2) [OF assms(2)] by auto
  have lp': "lp = round_up cap 4096" using lp align_up_Inr(2) [of cap] cap(1) by auto
  have ppm: "pp \<le> size_max" using round_up_le_max [of stride 4096] pp' by simp
  from checked_add_Inr [OF se ppm] have se': "se = pp + lp" by simp
  have sx': "sx = 64 * (pp + lp)" "sx \<le> size_max" and pb': "pb = 64 * pp"
    using sx pb se' by (auto simp: checked_multiply_Inr COMPILED_BLOCK_SLOTS_def)
  have bb': "bb = round_up (64 * (pp + lp)) 2097152" "64 * (pp + lp) + 2097151 \<le> size_max"
    using bb align_up_Inr(3) [OF sx'(2)] sx'(1) by auto
  have md': "md = 8320 + cat" using checked_add_Inr [OF md] by (simp add: sizeof_FileHeader_def)
  then have mdm: "md \<le> size_max" using cap by simp
  have data': "data = round_up (8320 + cat) 2097152"
    using data align_up_Inr(3) [OF mdm] md' by auto
  then have datam: "data \<le> size_max" using round_up_bounds [of 2097152 "8320 + cat"] cap(5) by simp
  have idx': "idx = slots * 32" using idx by (simp add: checked_multiply_Inr sizeof_ImageEntry_def)
  have io': "io = data + (slots + 63) div 64 * bb" "io \<le> size_max"
    using io block_offset_Inr [of ?L "block_count ?L" io] datam by (auto simp: block_count_def COMPILED_BLOCK_SLOTS_def)
  from checked_add_Inr [OF ts io'(2)] have ts': "ts = io + idx" by simp
  show "layout_inputs_ok slots stride cap cat"
    using cap idx' by (simp add: layout_inputs_ok_def)
  show "L = ideal_layout slots stride cap cat"
    unfolding L ideal_layout_def Let_def using pp'(1) lp' bb'(1) data' idx' io'(1) ts' pb' by simp
  show "layout_fits L" unfolding L layout_fits_def using bb'(2) small by simp
qed

lemma compute_file_layout_complete:
  assumes ok: "layout_inputs_ok slots stride cap cat" and fits: "layout_fits (ideal_layout slots stride cap cat)"
  shows "compute_file_layout slots stride cap cat = Inr (ideal_layout slots stride cap cat)"
proof -
  define pp where "pp = round_up stride 4096"
  define lp where "lp = round_up cap 4096"
  define bb where "bb = round_up (64 * (pp + lp)) 2097152"
  define data where "data = round_up (8320 + cat) 2097152"
  define io where "io = data + (slots + 63) div 64 * bb"
  have guards: "\<not> (stride = 0 \<or> stride mod sizeof_float \<noteq> 0)" "\<not> (cap > COMPILED_LABEL_LIMIT \<or> cap mod sizeof_RLEPair \<noteq> 0)"
    "\<not> cat > COMPILED_CATALOG_LIMIT" "\<not> slots * 32 > COMPILED_METADATA_CAPACITY"
    using ok by (auto simp: layout_inputs_ok_def compiled_constants compiled_sizes)
  have cat: "cat \<le> 33554432" using ok by (simp add: layout_inputs_ok_def)
  have block: "64 * (pp + lp) + 2097151 \<le> size_max" and size: "io + slots * 32 \<le> 9223372036854775807"
    using fits by (simp_all add: layout_fits_def ideal_layout_simps pp_def lp_def bb_def data_def io_def)
  have "stride \<le> pp" "cap \<le> lp" using round_up_bounds [of 4096] by (simp_all add: pp_def lp_def)
  then have le: "stride + 4095 \<le> size_max" "cap + 4095 \<le> size_max" "stride \<le> size_max" "cap \<le> size_max"
    using block by simp_all
  have s: "compiled_align_up stride PAGE_SIZE = Inr pp" "compiled_align_up cap PAGE_SIZE = Inr lp"
    "compiled_align_up (64 * (pp + lp)) HUGE_PAGE_SIZE = Inr bb"
    "compiled_align_up (8320 + cat) HUGE_PAGE_SIZE = Inr data"
    using align_up_simps(2) [OF le(3)] align_up_simps(2) [OF le(4)] le
      align_up_simps(3) [of "64 * (pp + lp)"] align_up_simps(3) [of "8320 + cat"] block cat
    by (simp_all add: pp_def lp_def bb_def data_def)
  have m: "checked_multiply_size COMPILED_BLOCK_SLOTS pp c = Inr (64 * pp)"
    "checked_multiply_size COMPILED_BLOCK_SLOTS (pp + lp) c = Inr (64 * (pp + lp))"
    "checked_multiply_size slots sizeof_ImageEntry c = Inr (slots * 32)" for c
    using block size by (simp_all add: checked_multiply_size_eq COMPILED_BLOCK_SLOTS_def sizeof_ImageEntry_def)
  have a: "checked_add_size pp lp c = Inr (pp + lp)" "checked_add_size sizeof_FileHeader cat c = Inr (8320 + cat)"
    "checked_add_size io (slots * 32) c = Inr (io + slots * 32)" for c
    using block size cat by (simp_all add: checked_add_size_eq sizeof_FileHeader_def)
  let ?L = "\<lparr>fl_num_slots = slots, fl_image_stride = stride, fl_pixel_pitch = pp,
                  fl_label_capacity = cap, fl_label_pitch = lp, fl_pixel_block_bytes = 64 * pp,
                  fl_block_bytes = bb, fl_catalog_bytes = cat, fl_data_offset = data,
                  fl_index_size = slots * 32, fl_index_offset = 0, fl_total_size = 0\<rparr>"
  have io: "block_offset ?L (block_count ?L) = Inr io"
  proof -
    have "block_count ?L = (slots + 63) div 64" by (simp add: block_count_def COMPILED_BLOCK_SLOTS_def add.commute)
    then show ?thesis using block_offset_Inr [of ?L "block_count ?L" io] size by (simp add: io_def)
  qed
  have "compute_file_layout slots stride cap cat = Inr (?L\<lparr>fl_index_offset := io, fl_total_size := io + slots * 32\<rparr>)"
    unfolding compute_file_layout_def if_not_P [OF guards(1)] if_not_P [OF guards(2)] s(1,2) m(1) bindr.simps
      a(1) m(2) s(3) if_not_P [OF guards(3)] a(2) s(4) m(3) if_not_P [OF guards(4)] Let_def io a(3)
    using size by simp
  then show ?thesis by (simp add: ideal_layout_simps pp_def lp_def bb_def data_def io_def)
qed

section \<open>Slots\<close>

definition laid_out :: "file_layout \<Rightarrow> bool" where
  "laid_out L \<longleftrightarrow> (\<exists>slots stride cap cat. layout_inputs_ok slots stride cap cat \<and>
     L = ideal_layout slots stride cap cat \<and> layout_fits L)"

lemma compute_laid_out:
  "compute_file_layout slots stride cap cat = Inr L \<Longrightarrow> stride \<le> size_max \<Longrightarrow> laid_out L"
  using compute_file_layout_sound [of slots stride cap cat L] by (auto simp: laid_out_def)

text \<open>The facts about a layout that every offset rests on.\<close>

lemma laid_out_facts:
  assumes "laid_out L"
  shows "fl_image_stride L \<le> fl_pixel_pitch L" "fl_label_capacity L \<le> fl_label_pitch L" "0 < fl_image_stride L"
    and "fl_pixel_block_bytes L = 64 * fl_pixel_pitch L"
    and "64 * (fl_pixel_pitch L + fl_label_pitch L) \<le> fl_block_bytes L"
    and "fl_index_offset L = fl_data_offset L + (fl_num_slots L + 63) div 64 * fl_block_bytes L"
    and "fl_total_size L = fl_index_offset L + fl_num_slots L * 32" "fl_total_size L \<le> 9223372036854775807"
    and "sizeof_FileHeader + fl_catalog_bytes L \<le> fl_data_offset L"
    and "4096 dvd fl_data_offset L" "4096 dvd fl_block_bytes L" "4096 dvd fl_pixel_pitch L" "4096 dvd fl_label_pitch L"
proof -
  obtain slots stride cap cat where *: "layout_inputs_ok slots stride cap cat" "L = ideal_layout slots stride cap cat"
    "layout_fits L" using assms by (auto simp: laid_out_def)
  have up: "v \<le> round_up v 4096" "v \<le> round_up v 2097152" for v
    using round_up_bounds [of 4096 v] round_up_bounds [of 2097152 v] by simp_all
  have huge: "4096 dvd round_up v 2097152" for v
    by (rule dvd_trans [OF _ round_up_dvd]) simp
  show "fl_image_stride L \<le> fl_pixel_pitch L" "fl_label_capacity L \<le> fl_label_pitch L" "0 < fl_image_stride L"
    "fl_pixel_block_bytes L = 64 * fl_pixel_pitch L"
    "64 * (fl_pixel_pitch L + fl_label_pitch L) \<le> fl_block_bytes L"
    "fl_index_offset L = fl_data_offset L + (fl_num_slots L + 63) div 64 * fl_block_bytes L"
    "fl_total_size L = fl_index_offset L + fl_num_slots L * 32"
    "sizeof_FileHeader + fl_catalog_bytes L \<le> fl_data_offset L"
    "4096 dvd fl_data_offset L" "4096 dvd fl_block_bytes L" "4096 dvd fl_pixel_pitch L" "4096 dvd fl_label_pitch L"
    using *(1) up huge by (simp_all add: *(2) ideal_layout_simps layout_inputs_ok_def sizeof_FileHeader_def round_up_dvd)
  show "fl_total_size L \<le> 9223372036854775807" using *(3) by (simp add: layout_fits_def)
qed

definition pixel_at :: "file_layout \<Rightarrow> nat \<Rightarrow> nat" where
  "pixel_at L slot = fl_data_offset L + slot div 64 * fl_block_bytes L + slot mod 64 * fl_pixel_pitch L"

definition label_at :: "file_layout \<Rightarrow> nat \<Rightarrow> nat" where
  "label_at L slot = fl_data_offset L + slot div 64 * fl_block_bytes L + 64 * fl_pixel_pitch L
     + slot mod 64 * fl_label_pitch L"

lemma scaled_step: "i < n \<Longrightarrow> i * p + p \<le> n * (p :: nat)"
  by (metis Suc_leI add.commute mult_Suc mult_le_mono1)

text \<open>A slot lies in its block, and its block in the data region.\<close>

lemma slot_in_block:
  assumes "laid_out L" and "slot < fl_num_slots L"
  shows "pixel_at L slot + fl_pixel_pitch L \<le> fl_data_offset L + slot div 64 * fl_block_bytes L + 64 * fl_pixel_pitch L"
    and "label_at L slot + fl_label_pitch L \<le> fl_data_offset L + slot div 64 * fl_block_bytes L + fl_block_bytes L"
    and "fl_data_offset L + slot div 64 * fl_block_bytes L + fl_block_bytes L \<le> fl_index_offset L"
proof -
  note facts = laid_out_facts [OF assms(1)]
  have i: "slot mod 64 < 64" by simp
  show "pixel_at L slot + fl_pixel_pitch L \<le> fl_data_offset L + slot div 64 * fl_block_bytes L + 64 * fl_pixel_pitch L"
    using scaled_step [OF i, of "fl_pixel_pitch L"] unfolding pixel_at_def by linarith
  show "label_at L slot + fl_label_pitch L \<le> fl_data_offset L + slot div 64 * fl_block_bytes L + fl_block_bytes L"
    using scaled_step [OF i, of "fl_label_pitch L"] facts(5) unfolding label_at_def add_mult_distrib2 by linarith
  have "slot div 64 < (fl_num_slots L + 63) div 64" using assms(2) by linarith
  from scaled_step [OF this, of "fl_block_bytes L"]
  show "fl_data_offset L + slot div 64 * fl_block_bytes L + fl_block_bytes L \<le> fl_index_offset L"
    unfolding facts(6) by linarith
qed

text \<open>The offsets of an existing slot never overflow.\<close>

lemma slot_offsets:
  assumes "laid_out L" and "slot < fl_num_slots L"
  shows "pixel_offset L slot = Inr (pixel_at L slot)" and "label_offset L slot = Inr (label_at L slot)"
proof -
  note facts = laid_out_facts [OF assms(1)] and inside = slot_in_block [OF assms]
  let ?b = "fl_data_offset L + slot div 64 * fl_block_bytes L"
  have max: "fl_index_offset L \<le> size_max" using facts(7,8) by linarith
  have b: "block_offset L (slot div COMPILED_BLOCK_SLOTS) = Inr ?b"
    using block_offset_Inr [of L "slot div 64" ?b] inside(3) max by (simp add: COMPILED_BLOCK_SLOTS_def)
  have "?b + slot mod 64 * fl_pixel_pitch L \<le> size_max" using inside(1,2,3) max
    unfolding pixel_at_def label_at_def by linarith
  then show "pixel_offset L slot = Inr (pixel_at L slot)"
    using assms(2) b
    by (simp add: pixel_offset_def checked_multiply_size_eq checked_add_size_eq pixel_at_def COMPILED_BLOCK_SLOTS_def)
  have "?b + 64 * fl_pixel_pitch L + slot mod 64 * fl_label_pitch L \<le> size_max" using inside(2,3) max
    unfolding label_at_def by linarith
  then show "label_offset L slot = Inr (label_at L slot)"
    using assms(2) b facts(4)
    by (simp add: label_offset_def checked_multiply_size_eq checked_add_size_eq label_at_def COMPILED_BLOCK_SLOTS_def)
qed

text \<open>Slots in order: a later block lies behind an earlier one.\<close>

lemma block_order:
  assumes "s div 64 < t div (64 :: nat)"
  shows "d + s div 64 * b + b \<le> d + t div 64 * (b :: nat)"
  using scaled_step [OF assms, of b] by linarith

lemma pixel_order:
  assumes "laid_out L" and "s < t"
  shows "pixel_at L s + fl_pixel_pitch L \<le> pixel_at L t"
proof (cases "s div 64 = t div 64")
  case True
  have "s mod 64 < t mod 64" using assms(2) True by (metis div_mult_mod_eq nat_add_left_cancel_less)
  from scaled_step [OF this, of "fl_pixel_pitch L"] True show ?thesis unfolding pixel_at_def by simp
next
  case False
  then have "s div 64 < t div 64" using assms(2) by (simp add: div_le_mono le_neq_implies_less less_imp_le)
  from block_order [OF this, of "fl_data_offset L" "fl_block_bytes L"]
  have "fl_data_offset L + s div 64 * fl_block_bytes L + fl_block_bytes L \<le> fl_data_offset L + t div 64 * fl_block_bytes L" .
  moreover have "s mod 64 * fl_pixel_pitch L + fl_pixel_pitch L \<le> 64 * fl_pixel_pitch L" by (rule scaled_step) simp
  ultimately show ?thesis using laid_out_facts(5) [OF assms(1)]
    unfolding pixel_at_def add_mult_distrib2 by linarith
qed

lemma label_order:
  assumes "laid_out L" and "s < t"
  shows "label_at L s + fl_label_pitch L \<le> label_at L t"
proof (cases "s div 64 = t div 64")
  case True
  have "s mod 64 < t mod 64" using assms(2) True by (metis div_mult_mod_eq nat_add_left_cancel_less)
  from scaled_step [OF this, of "fl_label_pitch L"] True show ?thesis unfolding label_at_def by simp
next
  case False
  then have "s div 64 < t div 64" using assms(2) by (simp add: div_le_mono le_neq_implies_less less_imp_le)
  from block_order [OF this, of "fl_data_offset L" "fl_block_bytes L"]
  have "fl_data_offset L + s div 64 * fl_block_bytes L + fl_block_bytes L \<le> fl_data_offset L + t div 64 * fl_block_bytes L" .
  moreover have "s mod 64 * fl_label_pitch L + fl_label_pitch L \<le> 64 * fl_label_pitch L" by (rule scaled_step) simp
  ultimately show ?thesis using laid_out_facts(5) [OF assms(1)]
    unfolding label_at_def add_mult_distrib2 by linarith
qed

lemma pixel_label_order:
  assumes "laid_out L"
  shows "s div 64 \<le> t div 64 \<Longrightarrow> pixel_at L s + fl_pixel_pitch L \<le> label_at L t"
    and "t div 64 < s div 64 \<Longrightarrow> label_at L t + fl_label_pitch L \<le> pixel_at L s"
proof -
  have p: "s mod 64 * fl_pixel_pitch L + fl_pixel_pitch L \<le> 64 * fl_pixel_pitch L"
    by (rule scaled_step) simp
  have l: "t mod 64 * fl_label_pitch L + fl_label_pitch L \<le> 64 * fl_label_pitch L"
    by (rule scaled_step) simp
  show "pixel_at L s + fl_pixel_pitch L \<le> label_at L t" if "s div 64 \<le> t div 64"
    using mult_le_mono1 [OF that, of "fl_block_bytes L"] p unfolding pixel_at_def label_at_def by linarith
  show "label_at L t + fl_label_pitch L \<le> pixel_at L s" if "t div 64 < s div 64"
    using block_order [OF that, of "fl_data_offset L" "fl_block_bytes L"] l laid_out_facts(5) [OF assms]
    unfolding pixel_at_def label_at_def add_mult_distrib2 by linarith
qed

section \<open>The header\<close>

record file_header_inputs =
  hi_num_images :: nat
  hi_width :: nat
  hi_height :: nat
  hi_channels :: nat
  hi_max_instances_per_image :: nat
  hi_image_stride :: nat
  hi_resize_mode :: nat

text \<open>The persisted header; a class name is an array of 32 characters, and there are 256 of them.\<close>

record file_header =
  fh_magic :: nat
  fh_version :: nat
  fh_num_images :: nat
  fh_num_slots :: nat
  fh_image_width :: nat
  fh_image_height :: nat
  fh_channels :: nat
  fh_num_classes :: nat
  fh_index_offset :: nat
  fh_data_offset :: nat
  fh_total_file_size :: nat
  fh_image_stride :: nat
  fh_class_names :: "byte list list"
  fh_max_instances_per_image :: nat
  fh_resize_mode :: nat
  fh_max_label_bytes :: nat
  fh_catalog_version :: nat
  fh_catalog_bytes :: nat
  fh_reserved :: "byte list"

definition class_name_admitted :: "byte list \<Rightarrow> bool" where
  "class_name_admitted name \<longleftrightarrow> name \<noteq> [] \<and> length name \<le> COMPILED_CLASS_NAME_CAPACITY \<and> 0 \<notin> set name"

text \<open>The loop that copies the names; \<open>cls\<close> is the index of the next one.\<close>

fun store_names :: "nat \<Rightarrow> byte list list \<Rightarrow> byte list list \<Rightarrow> cxx_error + byte list list" where
  "store_names cls [] stored = Inr stored"
| "store_names cls (name # names) stored =
     (if \<not> class_name_admitted name then Inl (Runtime_Error ''invalid compiled class name or index'')
      else store_names (cls + 1) names (stored[cls := name @ drop (length name) (stored ! cls)]))"

definition make_file_header :: "file_header_inputs \<Rightarrow> byte list list \<Rightarrow> file_layout \<Rightarrow> cxx_error + file_header" where
  "make_file_header inputs classes L =
     bindr (checked_cast_u32 (fl_catalog_bytes L) ''compiled catalog overflow'') (\<lambda>catalog_size.
     bindr (checked_cast_u32 (length classes) ''too many classes for file header'') (\<lambda>classes_size.
     bindr (checked_cast_u32 (fl_label_capacity L) ''compiled maximum label size overflow'') (\<lambda>label_cap.
       if hi_num_images inputs = 0 \<or> hi_num_images inputs > fl_num_slots L \<or> hi_image_stride inputs \<noteq> fl_image_stride L
       then Inl (Runtime_Error ''invalid compiled slot population'')
       else if classes = [] \<or> length classes > MAX_CLASSES then Inl (Runtime_Error ''invalid compiled class count'')
       else if hi_max_instances_per_image inputs > 65535
       then Inl (Runtime_Error ''compiled maximum instance count exceeds the index representation'')
       else bindr (store_names 0 classes (replicate MAX_CLASSES (replicate 32 0))) (\<lambda>names.
         Inr \<lparr>fh_magic = MAGIC, fh_version = FORMAT_VERSION, fh_num_images = hi_num_images inputs,
              fh_num_slots = fl_num_slots L, fh_image_width = hi_width inputs, fh_image_height = hi_height inputs,
              fh_channels = hi_channels inputs, fh_num_classes = classes_size, fh_index_offset = fl_index_offset L,
              fh_data_offset = fl_data_offset L, fh_total_file_size = fl_total_size L,
              fh_image_stride = hi_image_stride inputs, fh_class_names = names,
              fh_max_instances_per_image = hi_max_instances_per_image inputs,
              fh_resize_mode = hi_resize_mode inputs, fh_max_label_bytes = label_cap,
              fh_catalog_version = (if fl_catalog_bytes L \<noteq> 0 then 1 else 0),
              fh_catalog_bytes = catalog_size, fh_reserved = replicate 43 0\<rparr>))))"

definition validate_compiled_header :: "file_header \<Rightarrow> cxx_error + unit" where
  "validate_compiled_header h =
     (if fh_magic h \<noteq> MAGIC then Inl (Runtime_Error ''Bad magic in compiled file'')
      else if fh_version h \<noteq> FORMAT_VERSION \<and> fh_version h \<noteq> 10
      then Inl (Runtime_Error ''compiled dataset format is unsupported'')
      else if (fh_version h = 10 \<and> (fh_catalog_version h \<noteq> 0 \<or> fh_catalog_bytes h \<noteq> 0)) \<or>
        (fh_catalog_version h \<noteq> 0 \<and> fh_catalog_version h \<noteq> 1) \<or>
        ((fh_catalog_version h = 0) \<noteq> (fh_catalog_bytes h = 0)) \<or> fh_catalog_bytes h > COMPILED_CATALOG_LIMIT
      then Inl (Runtime_Error ''invalid compiled catalog region'')
      else if \<not> list_all (\<lambda>b. b = 0) (fh_reserved h)
      then Inl (Runtime_Error ''compiled header reserved fields are invalid'')
      else if fh_num_images h = 0 \<or> fh_num_images h > fh_num_slots h \<or> fh_image_width h = 0 \<or>
        fh_image_height h = 0 \<or> fh_channels h = 0
      then Inl (Runtime_Error ''compiled file has invalid image dimensions'')
      else if fh_num_classes h = 0 \<or> fh_num_classes h > MAX_CLASSES
      then Inl (Runtime_Error ''compiled file has invalid class count'')
      else if fh_max_instances_per_image h > 65535
      then Inl (Runtime_Error ''compiled file maximum instance count exceeds the index representation'')
      else bindr (if fh_max_label_bytes h > COMPILED_LABEL_LIMIT \<or> fh_max_label_bytes h mod sizeof_RLEPair \<noteq> 0
                  then Inr True
                  else bindr (annotation_layout (fh_max_instances_per_image h) 0 COMPILED_LABEL_LIMIT 0) (\<lambda>extent.
                    Inr (al_used_bytes extent > fh_max_label_bytes h))) (\<lambda>bad.
        if bad then Inl (Runtime_Error ''compiled maximum label size is invalid'')
        else if fh_image_width h > MAX_IMAGE_EXTENT \<or> fh_image_height h > MAX_IMAGE_EXTENT \<or> fh_channels h \<noteq> 3 \<or>
          (fh_resize_mode h \<noteq> 0 \<and> fh_resize_mode h \<noteq> 1)
        then Inl (Runtime_Error ''compiled image extent, channels or resize mode is invalid'')
        else if fh_image_stride h \<noteq>
          wrap64 (wrap64 (wrap64 (fh_image_width h * fh_image_height h) * fh_channels h) * sizeof_float)
        then Inl (Runtime_Error ''compiled file has an invalid image stride'')
        else Inr ()))"

definition validate_compiled_file_sections :: "file_header \<Rightarrow> nat \<Rightarrow> cxx_error + nat \<times> nat \<times> file_layout" where
  "validate_compiled_file_sections h file_size =
     bindr (validate_compiled_header h) (\<lambda>_.
     bindr (compute_file_layout (fh_num_slots h) (fh_image_stride h) (fh_max_label_bytes h) (fh_catalog_bytes h)) (\<lambda>L.
       if fh_total_file_size h \<noteq> file_size \<or> fh_total_file_size h \<noteq> fl_total_size L \<or>
         fh_index_offset h \<noteq> fl_index_offset L \<or> fh_data_offset h \<noteq> fl_data_offset L
       then Inl (Runtime_Error ''compiled fixed slot layout or file size is invalid'')
       else Inr (fl_index_offset L, fl_index_size L, L)))"

text \<open>\<open>strnlen\<close>, and the loop over the stored names.\<close>

definition strnlen :: "byte list \<Rightarrow> nat" where
  "strnlen s = length (takeWhile (\<lambda>c. c \<noteq> 0) s)"

fun load_names :: "byte list list \<Rightarrow> cxx_error + byte list list" where
  "load_names [] = Inr []"
| "load_names (stored # rest) =
     (if strnlen stored = 0 \<or> strnlen stored = length stored
      then Inl (Runtime_Error ''compiled file contains an empty or unterminated class name'')
      else bindr (load_names rest) (\<lambda>names. Inr (take (strnlen stored) stored # names)))"

definition compiled_class_names :: "file_header \<Rightarrow> cxx_error + byte list list" where
  "compiled_class_names h = load_names (take (fh_num_classes h) (fh_class_names h))"

section \<open>Properties\<close>

lemma stored_name:
  assumes "class_name_admitted name"
  shows "strnlen (name @ replicate (32 - length name) 0) = length name"
proof -
  have nz: "\<And>c. c \<in> set name \<Longrightarrow> c \<noteq> 0" using assms by (auto simp: class_name_admitted_def)
  have "takeWhile (\<lambda>c. c \<noteq> 0) (name @ replicate (32 - length name) 0) = name"
    using nz by (subst takeWhile_append2) (auto simp: takeWhile_replicate)
  then show ?thesis by (simp add: strnlen_def)
qed

lemma load_stored:
  "list_all class_name_admitted names \<Longrightarrow>
     load_names (map (\<lambda>name. name @ replicate (32 - length name) 0) names) = Inr names"
proof (induction names)
  case (Cons name names)
  then have ok: "class_name_admitted name" by simp
  then have "length name \<noteq> 0" "length name < 32" by (auto simp: class_name_admitted_def COMPILED_CLASS_NAME_CAPACITY_def)
  with Cons stored_name [OF ok] show ?case by simp
qed simp

lemma store_names_Inr:
  assumes "store_names cls names (pre @ replicate n (replicate 32 0)) = Inr stored" and "length pre = cls" "length names \<le> n"
  shows "list_all class_name_admitted names \<and> stored =
    pre @ map (\<lambda>name. name @ replicate (32 - length name) 0) names @ replicate (n - length names) (replicate 32 0)"
  using assms
proof (induction names arbitrary: cls pre n)
  case (Cons name names)
  then obtain m where m: "n = Suc m" by (cases n) auto
  have ok: "class_name_admitted name" using Cons.prems(1) by (auto split: if_splits)
  let ?stored = "name @ replicate (32 - length name) 0"
  have upd: "(pre @ replicate n (replicate 32 0))[cls := name @ drop (length name) ((pre @ replicate n (replicate 32 0)) ! cls)]
      = (pre @ [?stored]) @ replicate m (replicate 32 0)"
    using Cons.prems(2) by (simp add: m list_update_append nth_append)
  from Cons.prems(1) ok have "store_names (cls + 1) names ((pre @ [?stored]) @ replicate m (replicate 32 0)) = Inr stored"
    by (simp add: upd [simplified])
  from Cons.IH [OF this] Cons.prems(2,3) ok m show ?case by simp
qed simp

text \<open>
  C28: a file layout is computed exactly when the stride, the label capacity, the catalog and the index are
  admissible and the exact file fits the native offset type, and then every field of it is the exact one.
\<close>

theorem compute_file_layout_exact:
  assumes "stride \<le> size_max"
  shows "compute_file_layout slots stride cap cat = Inr L \<longleftrightarrow>
    layout_inputs_ok slots stride cap cat \<and> layout_fits (ideal_layout slots stride cap cat) \<and>
    L = ideal_layout slots stride cap cat"
proof
  assume run: "compute_file_layout slots stride cap cat = Inr L"
  note sound = compute_file_layout_sound [OF run assms]
  show "layout_inputs_ok slots stride cap cat \<and> layout_fits (ideal_layout slots stride cap cat) \<and>
      L = ideal_layout slots stride cap cat"
    using sound(1) sound(2) [unfolded sound(3)] sound(3) by (intro conjI)
next
  assume R: "layout_inputs_ok slots stride cap cat \<and> layout_fits (ideal_layout slots stride cap cat) \<and>
      L = ideal_layout slots stride cap cat"
  then have ok: "layout_inputs_ok slots stride cap cat" and fits: "layout_fits (ideal_layout slots stride cap cat)"
    and L: "L = ideal_layout slots stride cap cat" by blast+
  show "compute_file_layout slots stride cap cat = Inr L"
    unfolding L by (rule compute_file_layout_complete [OF ok fits])
qed

text \<open>A file of 65 slots of two by two pixels: two blocks of two mebibytes after the metadata.\<close>

lemma example_ideal:
  "ideal_layout 65 48 16 0 = \<lparr>fl_num_slots = 65, fl_image_stride = 48, fl_pixel_pitch = 4096,
     fl_label_capacity = 16, fl_label_pitch = 4096, fl_pixel_block_bytes = 262144, fl_block_bytes = 2097152,
     fl_catalog_bytes = 0, fl_data_offset = 2097152, fl_index_size = 2080, fl_index_offset = 6291456,
     fl_total_size = 6293536\<rparr>"
  by (simp add: ideal_layout_simps round_up_def)

theorem compute_file_layout_exact_witness:
  "compute_file_layout 65 48 16 0 = Inr (ideal_layout 65 48 16 0) \<and>
   compute_file_layout 65 50 16 0 \<noteq> Inr (ideal_layout 65 50 16 0)"
proof -
  have ok: "layout_inputs_ok 65 48 16 0" "layout_fits (ideal_layout 65 48 16 0)" "\<not> layout_inputs_ok 65 50 16 0"
    by (simp_all add: layout_inputs_ok_def layout_fits_def example_ideal)
  have s: "(48 :: nat) \<le> size_max" "(50 :: nat) \<le> size_max" by simp_all
  show ?thesis
    using compute_file_layout_exact [OF s(1), of 65 16 0 "ideal_layout 65 48 16 0"]
      compute_file_layout_exact [OF s(2), of 65 16 0 "ideal_layout 65 50 16 0"] ok by blast
qed

text \<open>
  C26: in a computed layout the offsets of every slot exist, its pixels and its labels lie between the
  metadata and the index, and no two extents of the file overlap.
\<close>

lemma disjoint_ranges: "a + n \<le> b \<or> b + m \<le> a \<Longrightarrow> {a ..< a + n} \<inter> {b ..< b + m} = {}" for a b :: nat
  by auto

theorem slot_extents_disjoint:
  assumes "compute_file_layout slots stride cap cat = Inr L" and "stride \<le> size_max"
    and "s < slots" and "t < slots"
  shows "\<exists>ps pt ls lt. pixel_offset L s = Inr ps \<and> pixel_offset L t = Inr pt \<and>
      label_offset L s = Inr ls \<and> label_offset L t = Inr lt \<and>
      {ps ..< ps + stride} \<inter> {lt ..< lt + cap} = {} \<and>
      (s = t \<or> {ps ..< ps + stride} \<inter> {pt ..< pt + stride} = {} \<and> {ls ..< ls + cap} \<inter> {lt ..< lt + cap} = {}) \<and>
      {ps ..< ps + stride} \<union> {ls ..< ls + cap} \<subseteq> {sizeof_FileHeader + cat ..< fl_index_offset L}"
proof -
  have L: "laid_out L" using compute_laid_out [OF assms(1,2)] .
  note facts = laid_out_facts [OF L]
  have f: "fl_num_slots L = slots" "fl_image_stride L = stride" "fl_label_capacity L = cap" "fl_catalog_bytes L = cat"
    using compute_file_layout_sound(3) [OF assms(1,2)] by (simp_all add: ideal_layout_simps)
  have in_s: "s < fl_num_slots L" and in_t: "t < fl_num_slots L" using assms(3,4) f(1) by simp_all
  note le = facts(1,2) [unfolded f]
  have pl: "pixel_at L s + stride \<le> label_at L t \<or> label_at L t + cap \<le> pixel_at L s"
    using pixel_label_order(1) [OF L, of s t] pixel_label_order(2) [OF L, of t s] le by (cases "s div 64 \<le> t div 64") auto
  have pp: "s = t \<or> pixel_at L s + stride \<le> pixel_at L t \<or> pixel_at L t + stride \<le> pixel_at L s"
    using pixel_order [OF L, of s t] pixel_order [OF L, of t s] le by (cases s t rule: linorder_cases) auto
  have ll: "s = t \<or> label_at L s + cap \<le> label_at L t \<or> label_at L t + cap \<le> label_at L s"
    using label_order [OF L, of s t] label_order [OF L, of t s] le by (cases s t rule: linorder_cases) auto
  have inside: "sizeof_FileHeader + cat \<le> pixel_at L s" "sizeof_FileHeader + cat \<le> label_at L s"
    "pixel_at L s + stride \<le> fl_index_offset L" "label_at L s + cap \<le> fl_index_offset L"
    using facts(9) [unfolded f] slot_in_block [OF L in_s] pixel_label_order(1) [OF L order_refl, of s] le
    unfolding pixel_at_def label_at_def by linarith+
  have "s = t \<or> {pixel_at L s ..< pixel_at L s + stride} \<inter> {pixel_at L t ..< pixel_at L t + stride} = {} \<and>
      {label_at L s ..< label_at L s + cap} \<inter> {label_at L t ..< label_at L t + cap} = {}"
    using pp ll disjoint_ranges by metis
  moreover have "{pixel_at L s ..< pixel_at L s + stride} \<union> {label_at L s ..< label_at L s + cap}
      \<subseteq> {sizeof_FileHeader + cat ..< fl_index_offset L}"
    using inside by auto
  ultimately show ?thesis
    using slot_offsets [OF L in_s] slot_offsets [OF L in_t] disjoint_ranges [OF pl] by blast
qed

theorem slot_extents_disjoint_witness:
  "\<exists>L ps lt. compute_file_layout 65 48 16 0 = Inr L \<and> pixel_offset L 64 = Inr ps \<and> label_offset L 0 = Inr lt \<and>
     {ps ..< ps + 48} \<inter> {lt ..< lt + 16} = {}"
proof -
  have "layout_inputs_ok 65 48 16 0" "layout_fits (ideal_layout 65 48 16 0)"
    by (simp_all add: layout_inputs_ok_def layout_fits_def example_ideal)
  then have run: "compute_file_layout 65 48 16 0 = Inr (ideal_layout 65 48 16 0)" by (rule compute_file_layout_complete)
  show ?thesis using slot_extents_disjoint [OF run, of 64 0] run by auto
qed

text \<open>The conditions under which the loader admits the inputs of a header: \<open>make_file_header\<close> checks none of
  them, it relies on its callers.\<close>

definition header_inputs_admitted :: "file_header_inputs \<Rightarrow> nat \<Rightarrow> bool" where
  "header_inputs_admitted inputs cap \<longleftrightarrow>
     0 < hi_width inputs \<and> hi_width inputs \<le> MAX_IMAGE_EXTENT \<and> 0 < hi_height inputs \<and>
     hi_height inputs \<le> MAX_IMAGE_EXTENT \<and> hi_channels inputs = 3 \<and> hi_resize_mode inputs \<le> 1 \<and>
     hi_image_stride inputs = hi_width inputs * hi_height inputs * 3 * 4 \<and>
     exact_used (hi_max_instances_per_image inputs) 0 0 \<le> cap"

lemma make_file_header_Inr:
  assumes "make_file_header inputs names L = Inr h"
  obtains stored where
    "hi_num_images inputs \<noteq> 0" "hi_num_images inputs \<le> fl_num_slots L" "names \<noteq> []" "length names \<le> 256"
    "hi_max_instances_per_image inputs \<le> 65535"
    "store_names 0 names (replicate 256 (replicate 32 0)) = Inr stored"
    "h = \<lparr>fh_magic = MAGIC, fh_version = FORMAT_VERSION, fh_num_images = hi_num_images inputs,
        fh_num_slots = fl_num_slots L, fh_image_width = hi_width inputs, fh_image_height = hi_height inputs,
        fh_channels = hi_channels inputs, fh_num_classes = length names, fh_index_offset = fl_index_offset L,
        fh_data_offset = fl_data_offset L, fh_total_file_size = fl_total_size L,
        fh_image_stride = hi_image_stride inputs, fh_class_names = stored,
        fh_max_instances_per_image = hi_max_instances_per_image inputs,
        fh_resize_mode = hi_resize_mode inputs, fh_max_label_bytes = fl_label_capacity L,
        fh_catalog_version = (if fl_catalog_bytes L \<noteq> 0 then 1 else 0),
        fh_catalog_bytes = fl_catalog_bytes L, fh_reserved = replicate 43 0\<rparr>"
  using assms by (auto simp: make_file_header_def bindr_Inr_iff checked_cast_u32_Inr MAX_CLASSES_def split: if_splits)

lemma stored_stride:
  assumes "w \<le> MAX_IMAGE_EXTENT" "h \<le> MAX_IMAGE_EXTENT"
  shows "wrap64 (wrap64 (wrap64 (w * h) * 3) * 4) = w * h * 3 * 4"
proof -
  have "w * h \<le> 32767 * 32767" using assms by (intro mult_le_mono) (simp_all add: MAX_IMAGE_EXTENT_def)
  moreover have "wrap64 (wrap64 (wrap64 n * 3) * 4) = n * 3 * 4" if "n \<le> 32767 * 32767" for n using that by simp
  ultimately show ?thesis by blast
qed

lemma if_Inl_eq_Inr: "(if P then Inl e else x) = Inr r \<longleftrightarrow> \<not> P \<and> x = Inr r"
  by simp

text \<open>The label capacity suffices for the largest image exactly when the loader finds the extent that it needs.\<close>

lemma label_capacity_checked:
  assumes "cap \<le> 500000"
  shows "bindr (annotation_layout labels 0 COMPILED_LABEL_LIMIT 0) (\<lambda>extent. Inr (al_used_bytes extent > cap)) = Inr bad \<longleftrightarrow>
    exact_used labels 0 0 \<le> 500000 \<and> bad = (exact_used labels 0 0 > cap)"
proof -
  have layout: "annotation_layout labels 0 COMPILED_LABEL_LIMIT 0 = Inr e \<longleftrightarrow>
      exact_used labels 0 0 \<le> 500000 \<and> e = exact_layout labels 0 0" for e
    using annotation_layout_Inr [of COMPILED_LABEL_LIMIT labels 0 0 e] by (simp add: COMPILED_LABEL_LIMIT_def)
  have "al_used_bytes (exact_layout labels 0 0) = exact_used labels 0 0" by (simp add: exact_layout_def)
  then show ?thesis by (auto simp: bindr_Inr_iff layout)
qed

text \<open>
  C27: a header that \<open>make_file_header\<close> writes for a computed layout is admitted by the loader exactly
  when the image extent, the channels, the resize mode and the stride are those of an image, and the
  label capacity holds the largest number of instances; then the sections come back with the same
  layout. The class names come back in any case.
\<close>

theorem header_roundtrip:
  assumes L: "compute_file_layout slots (hi_image_stride inputs) cap cat = Inr L"
    and h: "make_file_header inputs names L = Inr h"
    and s: "hi_image_stride inputs \<le> size_max"
  shows "(validate_compiled_file_sections h (fl_total_size L) = Inr sections \<longleftrightarrow>
      header_inputs_admitted inputs cap \<and> sections = (fl_index_offset L, fl_index_size L, L)) \<and>
    compiled_class_names h = Inr names"
proof -
  note sound = compute_file_layout_sound [OF L s]
  have cap: "cap \<le> 500000" "cap mod 8 = 0" "cat \<le> 33554432" using sound(1) by (simp_all add: layout_inputs_ok_def)
  have fields: "fl_num_slots L = slots" "fl_image_stride L = hi_image_stride inputs" "fl_label_capacity L = cap"
    "fl_catalog_bytes L = cat" using sound(3) by (simp_all add: ideal_layout_simps)
  obtain stored where
    guards: "hi_num_images inputs \<noteq> 0" "hi_num_images inputs \<le> slots" "names \<noteq> []" "length names \<le> 256"
      "hi_max_instances_per_image inputs \<le> 65535"
    and stored: "store_names 0 names (replicate 256 (replicate 32 0)) = Inr stored"
    and hd: "h = \<lparr>fh_magic = MAGIC, fh_version = FORMAT_VERSION, fh_num_images = hi_num_images inputs,
              fh_num_slots = slots, fh_image_width = hi_width inputs, fh_image_height = hi_height inputs,
              fh_channels = hi_channels inputs, fh_num_classes = length names, fh_index_offset = fl_index_offset L,
              fh_data_offset = fl_data_offset L, fh_total_file_size = fl_total_size L,
              fh_image_stride = hi_image_stride inputs, fh_class_names = stored,
              fh_max_instances_per_image = hi_max_instances_per_image inputs,
              fh_resize_mode = hi_resize_mode inputs, fh_max_label_bytes = cap,
              fh_catalog_version = (if cat \<noteq> 0 then 1 else 0),
              fh_catalog_bytes = cat, fh_reserved = replicate 43 0\<rparr>"
    using make_file_header_Inr [OF h, unfolded fields] by blast
  have header: "validate_compiled_header h = Inr () \<longleftrightarrow> header_inputs_admitted inputs cap"
  proof -
    have "validate_compiled_header h = Inr () \<longleftrightarrow> 0 < hi_width inputs \<and> 0 < hi_height inputs \<and> 0 < hi_channels inputs \<and>
        exact_used (hi_max_instances_per_image inputs) 0 0 \<le> cap \<and>
        hi_width inputs \<le> MAX_IMAGE_EXTENT \<and> hi_height inputs \<le> MAX_IMAGE_EXTENT \<and> hi_channels inputs = 3 \<and>
        (hi_resize_mode inputs = 0 \<or> hi_resize_mode inputs = 1) \<and>
        hi_image_stride inputs = wrap64 (wrap64 (wrap64 (hi_width inputs * hi_height inputs) * hi_channels inputs) * 4)"
    proof -
      let ?width = "hi_width inputs" and ?height = "hi_height inputs" and ?channels = "hi_channels inputs"
      have run: "validate_compiled_header h =
          (if ?width = 0 \<or> ?height = 0 \<or> ?channels = 0 then Inl (Runtime_Error ''compiled file has invalid image dimensions'')
           else bindr (bindr (annotation_layout (hi_max_instances_per_image inputs) 0 COMPILED_LABEL_LIMIT 0) (\<lambda>extent.
                    Inr (al_used_bytes extent > cap))) (\<lambda>bad.
             if bad then Inl (Runtime_Error ''compiled maximum label size is invalid'')
             else if ?width > MAX_IMAGE_EXTENT \<or> ?height > MAX_IMAGE_EXTENT \<or> ?channels \<noteq> 3 \<or>
               (hi_resize_mode inputs \<noteq> 0 \<and> hi_resize_mode inputs \<noteq> 1)
             then Inl (Runtime_Error ''compiled image extent, channels or resize mode is invalid'')
             else if hi_image_stride inputs \<noteq> wrap64 (wrap64 (wrap64 (?width * ?height) * ?channels) * 4)
             then Inl (Runtime_Error ''compiled file has an invalid image stride'')
             else Inr ()))"
        unfolding validate_compiled_header_def hd file_header.simps using guards cap
        by (simp add: COMPILED_LABEL_LIMIT_def COMPILED_CATALOG_LIMIT_def MAX_CLASSES_def FORMAT_VERSION_def
            sizeof_RLEPair_def sizeof_float_def list_all_iff cong: if_cong)
      have "exact_used (hi_max_instances_per_image inputs) 0 0 \<le> cap \<Longrightarrow>
          exact_used (hi_max_instances_per_image inputs) 0 0 \<le> 500000" using cap(1) by simp
      then show ?thesis
        unfolding run if_Inl_eq_Inr bindr_Inr_iff [of "bindr _ _"] label_capacity_checked [OF cap(1)]
        by (auto simp: not_less)
    qed
    also have "\<dots> \<longleftrightarrow> header_inputs_admitted inputs cap"
    proof -
      have "hi_width inputs \<le> MAX_IMAGE_EXTENT \<Longrightarrow> hi_height inputs \<le> MAX_IMAGE_EXTENT \<Longrightarrow> hi_channels inputs = 3 \<Longrightarrow>
          wrap64 (wrap64 (wrap64 (hi_width inputs * hi_height inputs) * hi_channels inputs) * 4) =
            hi_width inputs * hi_height inputs * 3 * 4"
        using stored_stride [of "hi_width inputs" "hi_height inputs"] by (simp only:)
      moreover have "hi_resize_mode inputs = 0 \<or> hi_resize_mode inputs = 1 \<longleftrightarrow> hi_resize_mode inputs \<le> 1" by linarith
      moreover have "hi_channels inputs = 3 \<Longrightarrow> 0 < hi_channels inputs" by simp
      ultimately show ?thesis unfolding header_inputs_admitted_def by metis
    qed
    finally show ?thesis .
  qed
  have "validate_compiled_file_sections h (fl_total_size L) = Inr sections \<longleftrightarrow>
      validate_compiled_header h = Inr () \<and> sections = (fl_index_offset L, fl_index_size L, L)"
  proof (cases "validate_compiled_header h")
    case (Inr u)
    then show ?thesis using L by (auto simp: validate_compiled_file_sections_def hd)
  qed (simp add: validate_compiled_file_sections_def)
  moreover have "compiled_class_names h = Inr names"
  proof -
    have "list_all class_name_admitted names \<and> stored =
        [] @ map (\<lambda>name. name @ replicate (32 - length name) 0) names @ replicate (256 - length names) (replicate 32 0)"
      by (rule store_names_Inr) (use stored guards(4) in simp_all)
    then show ?thesis using load_stored by (simp add: compiled_class_names_def hd)
  qed
  ultimately show ?thesis using header by blast
qed

text \<open>Two headers for the same layout: one that is admitted, and one of an image with a single channel.\<close>

theorem header_roundtrip_witness:
  "\<exists>L h g. compute_file_layout 65 48 16 0 = Inr L \<and> compiled_class_names h = Inr [[99, 97, 116], [120]] \<and>
     validate_compiled_file_sections h (fl_total_size L) = Inr (fl_index_offset L, fl_index_size L, L) \<and>
     compiled_class_names g = Inr [[120]] \<and> validate_compiled_file_sections g (fl_total_size L) \<noteq> Inr (fl_index_offset L, fl_index_size L, L)"
proof -
  let ?inputs = "\<lambda>channels. \<lparr>hi_num_images = 3, hi_width = 2, hi_height = 2, hi_channels = channels, hi_max_instances_per_image = 0,
      hi_image_stride = 48, hi_resize_mode = 1\<rparr>"
  let ?L = "ideal_layout 65 48 16 0"
  have "layout_inputs_ok 65 48 16 0" "layout_fits ?L"
    by (simp_all add: layout_inputs_ok_def layout_fits_def example_ideal)
  then have run: "compute_file_layout 65 48 16 0 = Inr ?L" by (rule compute_file_layout_complete)
  obtain h where h: "make_file_header (?inputs 3) [[99, 97, 116], [120]] ?L = Inr h"
    by (simp add: make_file_header_def example_ideal MAX_CLASSES_def class_name_admitted_def
        COMPILED_CLASS_NAME_CAPACITY_def)
  obtain g where g: "make_file_header (?inputs 1) [[120]] ?L = Inr g"
    by (simp add: make_file_header_def example_ideal MAX_CLASSES_def class_name_admitted_def
        COMPILED_CLASS_NAME_CAPACITY_def)
  have "header_inputs_admitted (?inputs 3) 16" "\<not> header_inputs_admitted (?inputs 1) 16"
    by (simp_all add: header_inputs_admitted_def exact_used_def exact_runs_def round_up_def MAX_IMAGE_EXTENT_def)
  with header_roundtrip [OF _ h, of 65 16 0] header_roundtrip [OF _ g, of 65 16 0] run show ?thesis by fastforce
qed

end
