(* ===== verification/File_Handle.thy ===== *)
theory File_Handle
  imports Common_Math
begin

text \<open>
  \<open>FileHandle\<close> of \<open>src/common/io/file_memory.cpp\<close>: the loops that turn partial system calls into whole
  reads and writes, and the ranges that are allocated and reclaimed. The kernel is a parameter: a
  \<open>world\<close> holds the bytes of the file and the answers that the coming calls will get, each with what the
  cancellation flag reads just before it. A call that waits for an answer that never comes is \<open>Blocked\<close>.
\<close>

section \<open>The world\<close>

datatype os_answer = Done nat | Interrupted | Unsupported | Failed

record world =
  w_size :: nat
  w_byte :: "nat \<Rightarrow> byte"
  w_answers :: "(bool \<times> os_answer) list"

datatype io_result = Returned | Threw cxx_error | Blocked

type_synonym io = "io_result \<times> world"

fun then_io :: "io \<Rightarrow> (world \<Rightarrow> io) \<Rightarrow> io" where
  "then_io (Returned, w) f = f w"
| "then_io (Threw e, w) f = (Threw e, w)"
| "then_io (Blocked, w) f = (Blocked, w)"

definition off_max :: nat where "off_max = 9223372036854775807"
definition transfer_max :: nat where "transfer_max = 0x7ffff000"

text \<open>What the calls do to the bytes: a write extends the file, an allocation extends it with zeros, and
  a hole reads as zeros.\<close>

definition put_bytes :: "nat \<Rightarrow> byte list \<Rightarrow> world \<Rightarrow> world" where
  "put_bytes offset bs w =
     w\<lparr>w_size := (if bs = [] then w_size w else max (w_size w) (offset + length bs)),
       w_byte := (\<lambda>i. if offset \<le> i \<and> i < offset + length bs then bs ! (i - offset) else w_byte w i)\<rparr>"

definition get_bytes :: "nat \<Rightarrow> nat \<Rightarrow> world \<Rightarrow> byte list" where
  "get_bytes offset count w = map (w_byte w) [offset ..< offset + count]"

definition zero_bytes :: "nat \<Rightarrow> nat \<Rightarrow> world \<Rightarrow> world" where
  "zero_bytes offset count w = w\<lparr>w_byte := (\<lambda>i. if offset \<le> i \<and> i < offset + count then 0 else w_byte w i)\<rparr>"

definition cover_bytes :: "nat \<Rightarrow> nat \<Rightarrow> world \<Rightarrow> world" where
  "cover_bytes offset count w = w\<lparr>w_size := max (w_size w) (offset + count)\<rparr>"

definition cut_bytes :: "nat \<Rightarrow> world \<Rightarrow> world" where
  "cut_bytes n w = w\<lparr>w_size := n, w_byte := (\<lambda>i. if i < n then w_byte w i else 0)\<rparr>"

section \<open>Ranges\<close>

record file_range =
  rg_offset :: nat
  rg_bytes :: nat

definition range_end :: "file_range \<Rightarrow> cxx_error + nat" where
  "range_end r =
     bindr (checked_add_size (rg_offset r) (rg_bytes r) ''file extent overflow'') (\<lambda>e.
       if e > off_max then Inl (Overflow_Error ''file extent overflow'') else Inr e)"

text \<open>The first loop of \<open>normalize_ranges\<close>: the ranges that are not empty, widened to pages on request.\<close>

fun admit_ranges :: "bool \<Rightarrow> file_range list \<Rightarrow> cxx_error + file_range list" where
  "admit_ranges cover [] = Inr []"
| "admit_ranges cover (r # rs) =
     bindr (range_end r) (\<lambda>e.
       if rg_bytes r = 0 then admit_ranges cover rs
       else bindr (if cover
           then bindr (checked_add_size e 4095 ''file page extent overflow'') (\<lambda>padded.
                  let begin = rg_offset r div 4096 * 4096; stop = padded div 4096 * 4096;
                      r' = \<lparr>rg_offset = begin, rg_bytes = stop - begin\<rparr>
                  in bindr (range_end r') (\<lambda>_. Inr r'))
           else Inr r) (\<lambda>r'.
         bindr (admit_ranges cover rs) (\<lambda>out. Inr (r' # out))))"

text \<open>The merging loop over the sorted ranges; \<open>previous\<close> is the range written last.\<close>

abbreviation rg_end :: "file_range \<Rightarrow> nat" where
  "rg_end r \<equiv> rg_offset r + rg_bytes r"

fun merge_ranges :: "file_range \<Rightarrow> file_range list \<Rightarrow> file_range list" where
  "merge_ranges previous [] = [previous]"
| "merge_ranges previous (r # rs) =
     (if rg_offset r \<le> rg_end previous
      then merge_ranges (previous\<lparr>rg_bytes := max (rg_end previous) (rg_end r) - rg_offset previous\<rparr>) rs
      else previous # merge_ranges r rs)"

definition normalize_ranges :: "bool \<Rightarrow> file_range list \<Rightarrow> cxx_error + file_range list" where
  "normalize_ranges cover input =
     bindr (admit_ranges cover input) (\<lambda>ranges.
       case sort_key rg_offset ranges of [] \<Rightarrow> Inr [] | r # rs \<Rightarrow> Inr (merge_ranges r rs))"

section \<open>System calls in loops\<close>

fun resize_loop :: "nat \<Rightarrow> world \<Rightarrow> (bool \<times> os_answer) list \<Rightarrow> io" where
  "resize_loop n w [] = (Blocked, w\<lparr>w_answers := []\<rparr>)"
| "resize_loop n w ((cancel, answer) # rest) =
     (if cancel then (Threw (Runtime_Error ''file resize cancelled''), w\<lparr>w_answers := rest\<rparr>)
      else case answer of
        Interrupted \<Rightarrow> resize_loop n w rest
      | Done _ \<Rightarrow> (Returned, cut_bytes n (w\<lparr>w_answers := rest\<rparr>))
      | _ \<Rightarrow> (Threw (Runtime_Error ''sparse file resize failed''), w\<lparr>w_answers := rest\<rparr>))"

definition resize_sparse :: "nat \<Rightarrow> world \<Rightarrow> io" where
  "resize_sparse n w =
     (if n > off_max then (Threw (Overflow_Error ''sparse file size overflow''), w)
      else resize_loop n w (w_answers w))"

fun allocate_loop :: "file_range \<Rightarrow> world \<Rightarrow> (bool \<times> os_answer) list \<Rightarrow> io" where
  "allocate_loop r w [] = (Blocked, w\<lparr>w_answers := []\<rparr>)"
| "allocate_loop r w ((cancel, answer) # rest) =
     (if cancel then (Threw (Runtime_Error ''file allocation cancelled''), w\<lparr>w_answers := rest\<rparr>)
      else case answer of
        Interrupted \<Rightarrow> allocate_loop r w rest
      | Done _ \<Rightarrow> (Returned, cover_bytes (rg_offset r) (rg_bytes r) (w\<lparr>w_answers := rest\<rparr>))
      | _ \<Rightarrow> (Threw (Runtime_Error ''file extent allocation failed''), w\<lparr>w_answers := rest\<rparr>))"

text \<open>All ranges are validated before the first call.\<close>

fun validate_ranges :: "file_range list \<Rightarrow> cxx_error + unit" where
  "validate_ranges [] = Inr ()"
| "validate_ranges (r # rs) = bindr (range_end r) (\<lambda>_. validate_ranges rs)"

fun allocate_each :: "file_range list \<Rightarrow> world \<Rightarrow> io" where
  "allocate_each [] w = (Returned, w)"
| "allocate_each (r # rs) w =
     (if rg_bytes r = 0 then allocate_each rs w
      else then_io (allocate_loop r w (w_answers w)) (allocate_each rs))"

definition allocate_ranges :: "file_range list \<Rightarrow> world \<Rightarrow> io" where
  "allocate_ranges ranges w =
     (case validate_ranges ranges of Inl e \<Rightarrow> (Threw e, w) | Inr _ \<Rightarrow> allocate_each ranges w)"

text \<open>\<open>punch_holes\<close> returns whether holes are supported; the flag comes with the world.\<close>

fun punch_loop :: "file_range \<Rightarrow> world \<Rightarrow> (bool \<times> os_answer) list \<Rightarrow> io \<times> bool" where
  "punch_loop r w [] = ((Blocked, w\<lparr>w_answers := []\<rparr>), True)"
| "punch_loop r w ((cancel, answer) # rest) =
     (if cancel then ((Threw (Runtime_Error ''file reclamation cancelled''), w\<lparr>w_answers := rest\<rparr>), True)
      else case answer of
        Interrupted \<Rightarrow> punch_loop r w rest
      | Done _ \<Rightarrow> ((Returned, zero_bytes (rg_offset r) (rg_bytes r) (w\<lparr>w_answers := rest\<rparr>)), True)
      | Unsupported \<Rightarrow> ((Returned, w\<lparr>w_answers := rest\<rparr>), False)
      | Failed \<Rightarrow> ((Threw (Runtime_Error ''file extent reclaim failed''), w\<lparr>w_answers := rest\<rparr>), True))"

fun punch_each :: "file_range list \<Rightarrow> world \<Rightarrow> nat \<Rightarrow> io \<times> bool \<times> nat" where
  "punch_each [] w completed = ((Returned, w), True, completed)"
| "punch_each (r # rs) w completed =
     (if rg_bytes r = 0 then punch_each rs w (completed + 1)
      else case punch_loop r w (w_answers w) of
        ((Returned, w'), True) \<Rightarrow> punch_each rs w' (completed + 1)
      | (out, supported) \<Rightarrow> (out, supported, completed))"

definition punch_holes :: "file_range list \<Rightarrow> world \<Rightarrow> io \<times> bool \<times> nat" where
  "punch_holes ranges w =
     (case validate_ranges ranges of Inl e \<Rightarrow> ((Threw e, w), True, 0) | Inr _ \<Rightarrow> punch_each ranges w 0)"

section \<open>Writing\<close>

text \<open>The vectors of one call: at most sixteen, and at most \<open>transfer_max\<close> bytes of what is left.\<close>

fun gather :: "byte list list \<Rightarrow> nat \<Rightarrow> nat \<Rightarrow> nat \<Rightarrow> byte list list" where
  "gather [] skip count bytes = []"
| "gather (source # sources) skip count bytes =
     (if count \<ge> 16 then []
      else if skip = length source then gather sources 0 count bytes
      else let amount = min (length source - skip) (transfer_max - bytes) in
        if amount = 0 then []
        else take amount (drop skip source) # gather sources 0 (count + 1) (bytes + amount))"

text \<open>The sources that are left, and how much of the first is consumed, after \<open>completed\<close> more bytes.\<close>

fun skip_completed :: "byte list list \<Rightarrow> nat \<Rightarrow> nat \<Rightarrow> byte list list \<times> nat" where
  "skip_completed [] consumed completed = ([], consumed + completed)"
| "skip_completed (source # sources) consumed completed =
     (if completed \<ge> length source - consumed
      then skip_completed sources 0 (completed - (length source - consumed))
      else (source # sources, consumed + completed))"

definition nothing_left :: "byte list list \<Rightarrow> nat \<Rightarrow> bool" where
  "nothing_left sources consumed \<longleftrightarrow> sources = [] \<or> gather sources consumed 0 0 = []"

definition write_call :: "byte list list \<Rightarrow> nat \<Rightarrow> nat \<Rightarrow> byte list" where
  "write_call sources consumed n =
     (let vectors = concat (gather sources consumed 0 0) in take (min n (length vectors)) vectors)"

fun write_loop :: "byte list list \<Rightarrow> nat \<Rightarrow> nat \<Rightarrow> world \<Rightarrow> (bool \<times> os_answer) list \<Rightarrow> io" where
  "write_loop sources consumed offset w [] =
     (if nothing_left sources consumed then (Returned, w\<lparr>w_answers := []\<rparr>) else (Blocked, w\<lparr>w_answers := []\<rparr>))"
| "write_loop sources consumed offset w (answer # rest) =
     (if nothing_left sources consumed then (Returned, w\<lparr>w_answers := answer # rest\<rparr>)
      else if fst answer then (Threw (Runtime_Error ''file write cancelled''), w\<lparr>w_answers := rest\<rparr>)
      else if offset > off_max then (Threw (Overflow_Error ''pwritev offset overflow''), w\<lparr>w_answers := rest\<rparr>)
      else case snd answer of
        Interrupted \<Rightarrow> write_loop sources consumed offset w rest
      | Done n \<Rightarrow>
          (let written = write_call sources consumed n in
           if written = [] then (Threw (Runtime_Error ''zero progress during pwritev''), w\<lparr>w_answers := rest\<rparr>)
           else let left = skip_completed sources consumed (length written) in
             write_loop (fst left) (snd left) (offset + length written) (put_bytes offset written w) rest)
      | _ \<Rightarrow> (Threw (Runtime_Error ''pwritev failed''), w\<lparr>w_answers := rest\<rparr>))"

fun total_bytes :: "nat \<Rightarrow> byte list list \<Rightarrow> cxx_error + nat" where
  "total_bytes acc [] = Inr acc"
| "total_bytes acc (source # sources) =
     bindr (checked_add_size acc (length source) ''pwritev extent overflow'') (\<lambda>acc'. total_bytes acc' sources)"

definition pwritev_all :: "byte list list \<Rightarrow> nat \<Rightarrow> world \<Rightarrow> io" where
  "pwritev_all sources offset w =
     (case bindr (total_bytes 0 sources) (\<lambda>n. checked_add_size offset n ''pwritev extent overflow'') of
        Inl e \<Rightarrow> (Threw e, w)
      | Inr e \<Rightarrow>
          if e > off_max then (Threw (Overflow_Error ''pwritev extent overflow''), w)
          else write_loop sources 0 offset w (w_answers w))"

definition pwrite_all :: "byte list \<Rightarrow> nat \<Rightarrow> world \<Rightarrow> io" where
  "pwrite_all source offset w = pwritev_all [source] offset w"

section \<open>Reading\<close>

definition read_call :: "nat \<Rightarrow> byte list \<Rightarrow> nat \<Rightarrow> world \<Rightarrow> nat \<Rightarrow> byte list" where
  "read_call bytes data offset w n =
     (let from = offset + length data in
      get_bytes from (min n (min (min (bytes - length data) transfer_max) (w_size w - from))) w)"

definition read_done :: "nat \<Rightarrow> byte list \<Rightarrow> bool" where
  "read_done bytes data \<longleftrightarrow> length data \<ge> bytes"

fun read_loop :: "nat \<Rightarrow> byte list \<Rightarrow> nat \<Rightarrow> world \<Rightarrow> (bool \<times> os_answer) list \<Rightarrow> io \<times> byte list" where
  "read_loop bytes data offset w [] =
     (if read_done bytes data then ((Returned, w\<lparr>w_answers := []\<rparr>), data) else ((Blocked, w\<lparr>w_answers := []\<rparr>), data))"
| "read_loop bytes data offset w (answer # rest) =
     (if read_done bytes data then ((Returned, w\<lparr>w_answers := answer # rest\<rparr>), data)
      else if fst answer then ((Threw (Runtime_Error ''file read cancelled''), w\<lparr>w_answers := rest\<rparr>), data)
      else if offset + length data > off_max
      then ((Threw (Overflow_Error ''pread offset overflow''), w\<lparr>w_answers := rest\<rparr>), data)
      else case snd answer of
        Interrupted \<Rightarrow> read_loop bytes data offset w rest
      | Done n \<Rightarrow>
          (if read_call bytes data offset w n = []
           then ((Threw (Runtime_Error ''unexpected EOF during pread''), w\<lparr>w_answers := rest\<rparr>), data)
           else read_loop bytes (data @ read_call bytes data offset w n) offset w rest)
      | _ \<Rightarrow> ((Threw (Runtime_Error ''pread failed''), w\<lparr>w_answers := rest\<rparr>), data))"

definition pread_all :: "nat \<Rightarrow> nat \<Rightarrow> world \<Rightarrow> io \<times> byte list" where
  "pread_all bytes offset w =
     (case checked_add_size offset bytes ''pread extent overflow'' of
        Inl e \<Rightarrow> ((Threw e, w), [])
      | Inr e \<Rightarrow>
          if e > off_max then ((Threw (Overflow_Error ''pread extent overflow''), w), [])
          else read_loop bytes [] offset w (w_answers w))"

section \<open>What a call writes\<close>

text \<open>The bytes that are left to write.\<close>

definition left_over :: "byte list list \<Rightarrow> nat \<Rightarrow> byte list" where
  "left_over sources consumed = drop consumed (concat sources)"

definition cursor_ok :: "byte list list \<Rightarrow> nat \<Rightarrow> bool" where
  "cursor_ok sources consumed \<longleftrightarrow> (case sources of [] \<Rightarrow> True | source # _ \<Rightarrow> consumed \<le> length source)"

lemma cursor_ok_simps [simp]:
  "cursor_ok [] c" "cursor_ok (s # ss) c \<longleftrightarrow> c \<le> length s" "cursor_ok ss 0"
  by (auto simp: cursor_ok_def split: list.splits)

lemma left_over_simps [simp]:
  "left_over [] c = []" "c \<le> length s \<Longrightarrow> left_over (s # ss) c = drop c s @ concat ss"
  "left_over ss 0 = concat ss"
  by (simp_all add: left_over_def)

lemma gather_full: "bytes \<ge> transfer_max \<Longrightarrow> gather sources 0 count bytes = []"
  by (induction sources) auto

lemma gather_prefix: "cursor_ok sources skip \<Longrightarrow> \<exists>zs. left_over sources skip = concat (gather sources skip count bytes) @ zs"
proof (induction sources arbitrary: skip count bytes)
  case (Cons s ss)
  then have skip: "skip \<le> length s" by simp
  let ?amount = "min (length s - skip) (transfer_max - bytes)"
  show ?case
  proof (cases "count \<ge> 16 \<or> (skip \<noteq> length s \<and> ?amount = 0)")
    case True
    then show ?thesis using skip by (auto simp: Let_def)
  next
    case False
    show ?thesis
    proof (cases "skip = length s")
      case True
      with Cons.IH [of 0 count bytes] False show ?thesis by auto
    next
      case partial: False
      show ?thesis
      proof (cases "?amount = length s - skip")
        case True
        from Cons.IH [of 0 "count + 1" "bytes + ?amount"] obtain zs where
          "concat ss = concat (gather ss 0 (count + 1) (bytes + ?amount)) @ zs" by auto
        with True False partial skip show ?thesis by (auto simp: Let_def)
      next
        case short: False
        then have "bytes + ?amount \<ge> transfer_max" by linarith
        then have "gather ss 0 (count + 1) (bytes + ?amount) = []" by (rule gather_full)
        with False partial skip show ?thesis
          by (auto simp: Let_def intro!: exI [of _ "drop ?amount (drop skip s) @ concat ss"])
            (metis append_assoc append_take_drop_id drop_drop)
      qed
    qed
  qed
qed auto

lemma gather_nil: "cursor_ok sources skip \<Longrightarrow> concat (gather sources skip 0 0) = [] \<longleftrightarrow> left_over sources skip = []"
proof (induction sources arbitrary: skip)
  case (Cons s ss)
  then show ?case using Cons.IH [of 0] by (auto simp: Let_def transfer_max_def)
qed simp

lemma gather_elements: "cursor_ok sources skip \<Longrightarrow> vector \<in> set (gather sources skip count bytes) \<Longrightarrow> vector \<noteq> []"
proof (induction sources arbitrary: skip count bytes)
  case (Cons s ss)
  then show ?case by (auto simp: Let_def split: if_splits) (metis cursor_ok_simps(3))+
qed simp

lemma nothing_left_iff:
  assumes "cursor_ok sources consumed"
  shows "nothing_left sources consumed \<longleftrightarrow> left_over sources consumed = []"
proof -
  have "gather sources consumed 0 0 = [] \<longleftrightarrow> concat (gather sources consumed 0 0) = []"
    using gather_elements [OF assms] by (metis concat.simps(1) concat_eq_Nil_conv last_in_set)
  moreover have "sources = [] \<Longrightarrow> gather sources consumed 0 0 = []" by simp
  ultimately show ?thesis using gather_nil [OF assms] by (auto simp: nothing_left_def)
qed

lemma skip_completed_left:
  assumes "cursor_ok sources consumed" and "completed \<le> length (left_over sources consumed)"
  shows "cursor_ok (fst (skip_completed sources consumed completed)) (snd (skip_completed sources consumed completed)) \<and>
    left_over (fst (skip_completed sources consumed completed)) (snd (skip_completed sources consumed completed))
      = drop completed (left_over sources consumed)"
  using assms
proof (induction sources arbitrary: consumed completed)
  case (Cons s ss)
  have "completed - (length s - consumed) \<le> length (left_over ss 0)" using Cons.prems by auto
  note ih = Cons.IH [OF _ this]
  show ?case
  proof (cases "completed \<ge> length s - consumed")
    case True
    then have "drop completed (left_over (s # ss) consumed) = drop (completed - (length s - consumed)) (left_over ss 0)"
      using Cons.prems(1) by simp
    with True ih show ?thesis by simp
  next
    case False
    then show ?thesis using Cons.prems(1) by (simp add: add.commute)
  qed
qed simp

lemma write_call_prefix:
  assumes "cursor_ok sources consumed"
  shows "take (length (write_call sources consumed n)) (left_over sources consumed) = write_call sources consumed n"
proof -
  obtain zs where "left_over sources consumed = concat (gather sources consumed 0 0) @ zs"
    using gather_prefix [OF assms] by blast
  then show ?thesis by (simp add: write_call_def Let_def)
qed

lemma write_call_nil:
  "cursor_ok sources consumed \<Longrightarrow> left_over sources consumed \<noteq> [] \<Longrightarrow> write_call sources consumed n = [] \<longleftrightarrow> n = 0"
proof -
  assume "cursor_ok sources consumed" "left_over sources consumed \<noteq> []"
  then have "concat (gather sources consumed 0 0) \<noteq> []" using gather_nil by blast
  moreover have "v \<noteq> [] \<Longrightarrow> take (min n (length v)) v = [] \<longleftrightarrow> n = 0" for v :: "byte list"
    by (cases v) (auto simp: min_def)
  ultimately show ?thesis unfolding write_call_def Let_def by blast
qed

section \<open>The bytes of the world\<close>

text \<open>Two worlds with the same file.\<close>

definition same_file :: "world \<Rightarrow> world \<Rightarrow> bool" where
  "same_file w w' \<longleftrightarrow> w_size w = w_size w' \<and> w_byte w = w_byte w'"

lemma same_file_simps [simp]: "same_file w w" "same_file (w\<lparr>w_answers := a\<rparr>) w' \<longleftrightarrow> same_file w w'"
  "same_file w (w'\<lparr>w_answers := a\<rparr>) \<longleftrightarrow> same_file w w'"
  by (simp_all add: same_file_def)

lemma same_file_trans: "same_file a b \<Longrightarrow> same_file b c \<Longrightarrow> same_file a c"
  by (simp add: same_file_def)

lemma put_bytes_nil [simp]: "put_bytes offset [] w = w"
proof -
  have "(\<lambda>i. if offset \<le> i \<and> i < offset then ([] :: byte list) ! (i - offset) else w_byte w i) = w_byte w"
    by (rule ext) auto
  then show ?thesis by (simp add: put_bytes_def)
qed

lemma put_bytes_append:
  "put_bytes (offset + length as) bs (put_bytes offset as w) = put_bytes offset (as @ bs) w"
proof -
  have "w_byte (put_bytes (offset + length as) bs (put_bytes offset as w)) = w_byte (put_bytes offset (as @ bs) w)"
    by (rule ext) (auto simp: put_bytes_def nth_append)
  moreover have "w_size (put_bytes (offset + length as) bs (put_bytes offset as w)) = w_size (put_bytes offset (as @ bs) w)"
    by (auto simp: put_bytes_def)
  moreover have "w_answers (put_bytes (offset + length as) bs (put_bytes offset as w)) = w_answers (put_bytes offset (as @ bs) w)"
    by (simp add: put_bytes_def)
  ultimately show ?thesis by simp
qed

lemma put_bytes_answers [simp]: "put_bytes offset bs (w\<lparr>w_answers := a\<rparr>) = (put_bytes offset bs w)\<lparr>w_answers := a\<rparr>"
  by (simp add: put_bytes_def cong: if_cong)

lemma get_bytes_length [simp]: "length (get_bytes offset n w) = n"
  by (simp add: get_bytes_def)

lemma get_bytes_append: "get_bytes offset m w @ get_bytes (offset + m) n w = get_bytes offset (m + n) w"
  unfolding get_bytes_def map_append [symmetric] add.assoc [symmetric]
  by (subst upt_add_eq_append) simp_all

lemma get_put_bytes: "get_bytes offset (length bs) (put_bytes offset bs w) = bs"
  by (rule nth_equalityI) (simp_all add: get_bytes_def put_bytes_def)

text \<open>A loop of partial writes has written a prefix, and the whole when it returns.\<close>

lemma write_loop_writes:
  assumes "cursor_ok sources consumed" and "write_loop sources consumed offset w answers = (result, w')"
  shows "\<exists>n \<le> length (left_over sources consumed).
    same_file w' (put_bytes offset (take n (left_over sources consumed)) w) \<and>
    (result = Returned \<longrightarrow> n = length (left_over sources consumed))"
  using assms
proof (induction answers arbitrary: sources consumed offset w)
  case Nil
  then show ?case using nothing_left_iff [OF Nil.prems(1)]
    by (auto split: if_splits)
next
  case (Cons answer answers)
  let ?left = "left_over sources consumed"
  show ?case
  proof (cases "nothing_left sources consumed \<or> fst answer \<or> offset > off_max \<or> snd answer = Unsupported \<or> snd answer = Failed")
    case True
    then show ?thesis using Cons.prems nothing_left_iff [OF Cons.prems(1)]
      by (auto split: if_splits os_answer.splits)
  next
    case False
    show ?thesis
    proof (cases "snd answer")
      case Interrupted
      with False Cons.prems Cons.IH [of sources consumed offset w] show ?thesis by simp
    next
      case (Done n)
      let ?written = "write_call sources consumed n"
      show ?thesis
      proof (cases "?written = []")
        case True
        with False Cons.prems Done show ?thesis by auto
      next
        case more: False
        let ?next = "skip_completed sources consumed (length ?written)"
        have pre: "take (length ?written) ?left = ?written" by (rule write_call_prefix [OF Cons.prems(1)])
        then have le: "length ?written \<le> length ?left" by (metis length_take min.cobounded1)
        note next_ok = skip_completed_left [OF Cons.prems(1) le]
        have run: "write_loop (fst ?next) (snd ?next) (offset + length ?written) (put_bytes offset ?written w) answers = (result, w')"
          using False Cons.prems(2) Done more by (simp add: Let_def)
        from Cons.IH [OF conjunct1 [OF next_ok] run] obtain m where
          m: "m \<le> length (drop (length ?written) ?left)"
          "same_file w' (put_bytes (offset + length ?written) (take m (drop (length ?written) ?left)) (put_bytes offset ?written w))"
          "result = Returned \<longrightarrow> m = length (drop (length ?written) ?left)"
          using next_ok by auto
        have "?written @ take m (drop (length ?written) ?left) = take (length ?written + m) ?left"
          using pre by (metis take_add)
        with m le show ?thesis
          by (intro exI [of _ "length ?written + m"]) (auto simp: put_bytes_append)
      qed
    qed (use False in auto)
  qed
qed

section \<open>What a call returns\<close>

text \<open>An answer that lets the loop go on, and one that moves it.\<close>

definition helpful :: "bool \<times> os_answer \<Rightarrow> bool" where
  "helpful a \<longleftrightarrow> \<not> fst a \<and> (case snd a of Interrupted \<Rightarrow> True | Done n \<Rightarrow> 0 < n | _ \<Rightarrow> False)"

definition moves :: "bool \<times> os_answer \<Rightarrow> bool" where
  "moves a \<longleftrightarrow> snd a \<noteq> Interrupted"

lemma write_loop_returns:
  assumes "cursor_ok sources consumed" and "list_all helpful answers"
    and "length (left_over sources consumed) \<le> length (filter moves answers)"
    and "offset + length (left_over sources consumed) \<le> off_max"
  shows "fst (write_loop sources consumed offset w answers) = Returned"
  using assms
proof (induction answers arbitrary: sources consumed offset w)
  case Nil
  then show ?case using nothing_left_iff by simp
next
  case (Cons answer answers)
  let ?left = "left_over sources consumed"
  show ?case
  proof (cases "nothing_left sources consumed")
    case False
    then have more: "?left \<noteq> []" using nothing_left_iff [OF Cons.prems(1)] by simp
    have ok: "\<not> fst answer" "offset \<le> off_max" using Cons.prems(2,4) by (simp_all add: helpful_def)
    show ?thesis
    proof (cases "snd answer")
      case Interrupted
      with False ok Cons.prems Cons.IH [of sources consumed offset w] show ?thesis by (simp add: moves_def)
    next
      case (Done n)
      then have n: "0 < n" using Cons.prems(2) by (simp add: helpful_def)
      let ?written = "write_call sources consumed n"
      let ?next = "skip_completed sources consumed (length ?written)"
      have nonempty: "?written \<noteq> []" using write_call_nil [OF Cons.prems(1) more] n by simp
      have "take (length ?written) ?left = ?written" by (rule write_call_prefix [OF Cons.prems(1)])
      then have le: "length ?written \<le> length ?left" by (metis length_take min.cobounded1)
      note next_ok = skip_completed_left [OF Cons.prems(1) le]
      obtain m where m: "length ?written = Suc m" using nonempty by (cases ?written) auto
      have "fst (write_loop (fst ?next) (snd ?next) (offset + length ?written) (put_bytes offset ?written w) answers) = Returned"
        using Cons.prems(2-4) next_ok le Done unfolding m by (intro Cons.IH) (auto simp: moves_def)
      then show ?thesis using False ok Done nonempty by (simp add: Let_def)
    qed (use Cons.prems(2) in \<open>simp_all add: helpful_def\<close>)
  qed simp
qed

lemma total_bytes_Inr: "total_bytes acc sources = Inr n \<Longrightarrow> acc \<le> size_max \<Longrightarrow> n = acc + length (concat sources)"
proof (induction sources arbitrary: acc)
  case (Cons s ss)
  then obtain acc' where "checked_add_size acc (length s) ''pwritev extent overflow'' = Inr acc'" "total_bytes acc' ss = Inr n"
    by (auto simp: bindr_Inr_iff)
  with Cons.IH [of acc'] Cons.prems(2) show ?case by (auto simp: checked_add_size_def split: if_splits)
qed simp

lemma total_bytes_fits: "acc + length (concat sources) \<le> size_max \<Longrightarrow> total_bytes acc sources = Inr (acc + length (concat sources))"
  by (induction sources arbitrary: acc) (simp_all add: checked_add_size_eq)

lemma pwritev_all_run:
  assumes "offset + length (concat sources) \<le> off_max"
  shows "pwritev_all sources offset w = write_loop sources 0 offset w (w_answers w)"
proof -
  have "offset + length (concat sources) \<le> size_max" using assms by (simp add: off_max_def)
  then show ?thesis using assms total_bytes_fits [of 0 sources]
    by (simp add: pwritev_all_def checked_add_size_eq del: length_concat)
qed

text \<open>
  A gathered write that returns has written the concatenation of its spans at the offset, however
  short the calls were and however often they were interrupted; one that throws has written a prefix.
\<close>

theorem pwritev_all_writes:
  assumes "pwritev_all sources offset w = (result, w')"
  shows "\<exists>n \<le> length (concat sources). same_file w' (put_bytes offset (take n (concat sources)) w) \<and>
    (result = Returned \<longrightarrow> n = length (concat sources))"
proof -
  have "(\<exists>e. result = Threw e \<and> w' = w) \<or> write_loop sources 0 offset w (w_answers w) = (result, w')"
    using assms by (auto simp: pwritev_all_def split: sum.splits if_splits)
  then show ?thesis
  proof
    assume "\<exists>e. result = Threw e \<and> w' = w"
    then show ?thesis by (intro exI [of _ 0]) auto
  next
    assume "write_loop sources 0 offset w (w_answers w) = (result, w')"
    from write_loop_writes [OF _ this] show ?thesis by simp
  qed
qed

text \<open>
  C34: a write whose extent fits the native offset type, as the code demands up front, returns as soon as as
  many calls made progress as there are bytes to write, if none failed and no cancellation was requested.
\<close>

theorem pwritev_all_returns:
  assumes "list_all helpful (w_answers w)" and "length (concat sources) \<le> length (filter moves (w_answers w))"
    and "offset + length (concat sources) \<le> off_max"
  shows "fst (pwritev_all sources offset w) = Returned"
  unfolding pwritev_all_run [OF assms(3)] using assms
  by (intro write_loop_returns) simp_all

lemma read_loop_reads:
  assumes "read_loop bytes data offset w answers = ((result, w'), out)"
    and "data = get_bytes offset (length data) w" and "length data \<le> bytes"
    and "data = [] \<or> offset + length data \<le> w_size w"
  shows "same_file w' w \<and> out = get_bytes offset (length out) w \<and> length out \<le> bytes \<and>
    (out = [] \<or> offset + length out \<le> w_size w) \<and> (result = Returned \<longrightarrow> length out = bytes)"
  using assms
proof (induction answers arbitrary: data)
  case Nil
  then show ?case by (auto simp: read_done_def split: if_splits)
next
  case (Cons answer answers)
  show ?case
  proof (cases "\<not> read_done bytes data \<and> \<not> fst answer \<and> offset + length data \<le> off_max")
    case False
    with Cons.prems show ?thesis by (auto simp: read_done_def split: if_splits)
  next
    case True
    show ?thesis
    proof (cases "snd answer")
      case Interrupted
      with True Cons.prems Cons.IH [of data] show ?thesis by simp
    next
      case (Done n)
      let ?got = "min n (min (min (bytes - length data) transfer_max) (w_size w - (offset + length data)))"
      have call: "read_call bytes data offset w n = get_bytes (offset + length data) ?got w"
        by (simp add: read_call_def Let_def)
      show ?thesis
      proof (cases "read_call bytes data offset w n = []")
        case none: True
        with True Done Cons.prems show ?thesis by auto
      next
        case some: False
        then have pos: "0 < ?got" unfolding call using get_bytes_length by (metis length_greater_0_conv)
        let ?data = "data @ read_call bytes data offset w n"
        have len: "length ?data = length data + ?got" unfolding call by simp
        have "read_loop bytes ?data offset w answers = ((result, w'), out)"
          using True Done some Cons.prems(1) by simp
        moreover have "?data = get_bytes offset (length ?data) w"
        proof -
          have "data @ get_bytes (offset + length data) ?got w = get_bytes offset (length data + ?got) w"
            by (subst Cons.prems(2)) (rule get_bytes_append)
          then show ?thesis unfolding len unfolding call .
        qed
        moreover have "length ?data \<le> bytes" unfolding len using Cons.prems(3) by linarith
        moreover have "offset + length ?data \<le> w_size w" unfolding len using pos by linarith
        ultimately show ?thesis using Cons.IH [of ?data] by blast
      qed
    qed (use True Cons.prems in auto)
  qed
qed

text \<open>
  C33: what a write that returned has written, a later read that returns yields, whatever the lengths of
  the calls of both; and the read leaves the file alone.
\<close>

theorem write_then_read:
  assumes "pwritev_all sources offset w = (Returned, w1)"
    and "pread_all (length (concat sources)) offset (w1\<lparr>w_answers := answers\<rparr>) = ((Returned, w2), out)"
  shows "out = concat sources \<and> same_file w2 (put_bytes offset (concat sources) w)"
proof -
  let ?n = "length (concat sources)" and ?w1 = "w1\<lparr>w_answers := answers\<rparr>"
  have w1: "same_file w1 (put_bytes offset (concat sources) w)" using pwritev_all_writes [OF assms(1)] by auto
  have "read_loop ?n [] offset ?w1 answers = ((Returned, w2), out)"
    using assms(2) by (auto simp: pread_all_def split: sum.splits if_splits)
  from read_loop_reads [OF this] have r: "same_file w2 ?w1" "out = get_bytes offset ?n ?w1" by (auto simp: get_bytes_def)
  have "get_bytes offset ?n ?w1 = get_bytes offset ?n (put_bytes offset (concat sources) w)"
    using w1 by (simp add: get_bytes_def same_file_def)
  with r w1 get_put_bytes show ?thesis by (auto dest: same_file_trans)
qed

section \<open>Normalised ranges\<close>

definition range_set :: "file_range \<Rightarrow> nat set" where
  "range_set r = {rg_offset r ..< rg_end r}"

definition ranges_set :: "file_range list \<Rightarrow> nat set" where
  "ranges_set rs = (\<Union>r \<in> set rs. range_set r)"

lemma ranges_set_simps [simp]: "ranges_set [] = {}" "ranges_set (r # rs) = range_set r \<union> ranges_set rs"
  by (simp_all add: ranges_set_def)

text \<open>The pages that a set of offsets touches.\<close>

definition pages_of :: "nat set \<Rightarrow> nat set" where
  "pages_of A = {x. \<exists>y \<in> A. x div 4096 = y div 4096}"

text \<open>Ranges in order, none empty, none touching the next.\<close>

fun separated :: "file_range list \<Rightarrow> bool" where
  "separated [] = True"
| "separated [r] = (0 < rg_bytes r)"
| "separated (r # r' # rs) = (0 < rg_bytes r \<and> rg_end r < rg_offset r' \<and> separated (r' # rs))"

lemma page_cover:
  assumes "0 < b"
  shows "{a div 4096 * 4096 ..< (a + b + 4095) div 4096 * 4096} = pages_of {a ..< a + b}"
proof -
  have iff: "x \<in> pages_of {a ..< a + b} \<longleftrightarrow> a div 4096 * 4096 \<le> x \<and> x < (a + b + 4095) div 4096 * 4096" for x
  proof
    assume "x \<in> pages_of {a ..< a + b}"
    then obtain y where "a \<le> y" "y < a + b" "x div 4096 = y div 4096" by (auto simp: pages_of_def)
    then have "a div 4096 \<le> x div 4096" "(x div 4096 + 1) * 4096 \<le> a + b + 4095" by (simp_all add: div_le_mono)
    then have "a div 4096 * 4096 \<le> x div 4096 * 4096" "x div 4096 + 1 \<le> (a + b + 4095) div 4096"
      by (simp_all add: less_eq_div_iff_mult_less_eq)
    then show "a div 4096 * 4096 \<le> x \<and> x < (a + b + 4095) div 4096 * 4096" by linarith
  next
    assume x: "a div 4096 * 4096 \<le> x \<and> x < (a + b + 4095) div 4096 * 4096"
    show "x \<in> pages_of {a ..< a + b}"
    proof (cases "x div 4096 * 4096 \<le> a")
      case True
      have "a div 4096 \<le> x div 4096" "x div 4096 \<le> a div 4096"
        using x True by (simp_all add: less_eq_div_iff_mult_less_eq)
      then show ?thesis using assms by (auto simp: pages_of_def intro!: bexI [of _ a])
    next
      case False
      have "x div 4096 < (a + b + 4095) div 4096" using x by (simp add: div_less_iff_less_mult)
      then have "(x div 4096 + 1) * 4096 \<le> a + b + 4095" by (simp add: less_eq_div_iff_mult_less_eq flip: Suc_le_eq)
      then have "x div 4096 * 4096 < a + b" by simp
      with False show ?thesis by (auto simp: pages_of_def intro!: bexI [of _ "x div 4096 * 4096"])
    qed
  qed
  show ?thesis by (rule set_eqI) (simp only: atLeastLessThan_iff iff)
qed

lemma pages_of_Un: "pages_of (A \<union> B) = pages_of A \<union> pages_of B"
  by (auto simp: pages_of_def)

lemma range_end_Inr:
  "rg_offset r \<le> size_max \<Longrightarrow> range_end r = Inr e \<longleftrightarrow> e = rg_end r \<and> rg_end r \<le> off_max"
  by (auto simp: range_end_def bindr_Inr_iff checked_add_size_def off_max_def split: if_splits)

lemma admit_ranges_set:
  "admit_ranges cover rs = Inr out \<Longrightarrow> (\<forall>r \<in> set rs. rg_offset r \<le> size_max) \<Longrightarrow>
     ranges_set out = (if cover then pages_of (ranges_set rs) else ranges_set rs) \<and> (\<forall>r \<in> set out. 0 < rg_bytes r)"
proof (induction rs arbitrary: out)
  case Nil
  then show ?case by (simp add: pages_of_def)
next
  case (Cons r rs)
  let ?rest = "\<lambda>out. ranges_set out = (if cover then pages_of (ranges_set rs) else ranges_set rs) \<and> (\<forall>r \<in> set out. 0 < rg_bytes r)"
  have small: "rg_offset r \<le> size_max" using Cons.prems(2) by simp
  from Cons.prems(1) have e: "range_end r = Inr (rg_end r)" "rg_end r \<le> off_max"
    by (auto simp: bindr_Inr_iff range_end_Inr [OF small])
  show ?case
  proof (cases "rg_bytes r = 0")
    case True
    then have "range_set r = {}" by (simp add: range_set_def)
    with True e Cons show ?thesis by (simp add: pages_of_def)
  next
    case False
    let ?page = "\<lparr>rg_offset = rg_offset r div 4096 * 4096,
      rg_bytes = (rg_end r + 4095) div 4096 * 4096 - rg_offset r div 4096 * 4096\<rparr>"
    have pad: "checked_add_size (rg_end r) 4095 ''file page extent overflow'' = Inr (rg_end r + 4095)"
      using e(2) by (simp add: checked_add_size_eq off_max_def)
    from Cons.prems(1) False e(1) pad obtain out' where
      out': "admit_ranges cover rs = Inr out'" "out = (if cover then ?page else r) # out'"
      by (auto simp: bindr_Inr_iff Let_def split: if_splits)
    from Cons.IH [OF out'(1)] Cons.prems(2) have ih: "?rest out'" by simp
    have le: "rg_offset r div 4096 * 4096 < (rg_end r + 4095) div 4096 * 4096"
      using False by linarith
    then have "range_set ?page = pages_of (range_set r)" "0 < rg_bytes ?page"
      using page_cover [of "rg_bytes r" "rg_offset r"] False by (simp_all add: range_set_def)
    with ih out'(2) False show ?thesis by (auto simp: pages_of_Un)
  qed
qed

lemma merge_ranges_set:
  assumes "sorted (map rg_offset (previous # rs))" and "\<forall>r \<in> set (previous # rs). 0 < rg_bytes r"
  shows "ranges_set (merge_ranges previous rs) = ranges_set (previous # rs) \<and> separated (merge_ranges previous rs) \<and>
    merge_ranges previous rs \<noteq> [] \<and> rg_offset (hd (merge_ranges previous rs)) = rg_offset previous"
  using assms
proof (induction rs arbitrary: previous)
  case (Cons r rs)
  show ?case
  proof (cases "rg_offset r \<le> rg_end previous")
    case True
    let ?p = "previous\<lparr>rg_bytes := max (rg_end previous) (rg_end r) - rg_offset previous\<rparr>"
    have ends: "rg_end ?p = max (rg_end previous) (rg_end r)" "0 < rg_bytes ?p" using Cons.prems(2) by auto
    have "range_set ?p = range_set previous \<union> range_set r"
      using ends True Cons.prems(1) by (auto simp: range_set_def)
    with Cons.IH [of ?p] Cons.prems True ends show ?thesis by auto
  next
    case False
    from Cons.IH [of r] Cons.prems have ih: "ranges_set (merge_ranges r rs) = ranges_set (r # rs)"
      "separated (merge_ranges r rs)" "merge_ranges r rs \<noteq> []" "rg_offset (hd (merge_ranges r rs)) = rg_offset r" by auto
    then obtain q qs where q: "merge_ranges r rs = q # qs" "rg_offset q = rg_offset r" by (cases "merge_ranges r rs") auto
    with False ih Cons.prems(2) show ?thesis by auto
  qed
qed (auto simp: range_set_def)

text \<open>
  C35: the normalised ranges cover the bytes of the given ones, or the pages that those touch, and no two
  of them touch.
\<close>

theorem normalize_ranges_exact:
  assumes "normalize_ranges cover rs = Inr out" and "list_all (\<lambda>r. rg_offset r \<le> size_max) rs"
  shows "ranges_set out = (if cover then pages_of (ranges_set rs) else ranges_set rs) \<and> separated out"
proof -
  obtain mid where mid: "admit_ranges cover rs = Inr mid"
    using assms(1) by (cases "admit_ranges cover rs") (auto simp: normalize_ranges_def)
  then have out: "(case sort_key rg_offset mid of [] \<Rightarrow> Inr [] | r # rs \<Rightarrow> Inr (merge_ranges r rs)) =
      (Inr out :: cxx_error + file_range list)"
    using assms(1) by (simp add: normalize_ranges_def)
  from admit_ranges_set [OF mid] assms(2)
  have m: "ranges_set mid = (if cover then pages_of (ranges_set rs) else ranges_set rs)" "\<forall>r \<in> set mid. 0 < rg_bytes r"
    by (auto simp: list_all_iff)
  have s: "ranges_set (sort_key rg_offset mid) = ranges_set mid" by (simp add: ranges_set_def)
  show ?thesis
  proof (cases "sort_key rg_offset mid")
    case Nil
    with out s m show ?thesis by simp
  next
    case (Cons r rest)
    have "sorted (map rg_offset (r # rest))" unfolding Cons [symmetric] by simp
    moreover have "\<forall>r \<in> set (r # rest). 0 < rg_bytes r" unfolding Cons [symmetric] using m(2) by simp
    ultimately show ?thesis using merge_ranges_set out s m(1) Cons by auto
  qed
qed

section \<open>Witnesses\<close>

definition example_world :: world where
  "example_world = \<lparr>w_size = 0, w_byte = (\<lambda>_. 0),
     w_answers = [(False, Done 2), (False, Interrupted), (False, Done 5), (False, Done 1)]\<rparr>"

lemma example_write:
  "pwritev_all [[1, 2, 3], [], [4]] 7 example_world =
     (Returned, (put_bytes 7 [1, 2, 3, 4] example_world)\<lparr>w_answers := [(False, Done 1)]\<rparr>)"
proof -
  have "pwritev_all [[1, 2, 3], [], [4]] 7 example_world =
      (Returned, (put_bytes 9 [3, 4] (put_bytes 7 [1, 2] example_world))\<lparr>w_answers := [(False, Done 1)]\<rparr>)"
    by (simp add: pwritev_all_run off_max_def example_world_def nothing_left_def write_call_def transfer_max_def Let_def)
  also have "put_bytes 9 [3, 4] (put_bytes 7 [1, 2] example_world) = put_bytes 7 [1, 2, 3, 4] example_world"
    using put_bytes_append [of 7 "[1, 2]" "[3, 4]" example_world] by simp
  finally show ?thesis .
qed

theorem pwritev_all_writes_witness:
  "\<exists>w'. pwritev_all [[1, 2, 3], [], [4]] 7 example_world = (Returned, w') \<and>
     same_file w' (put_bytes 7 [1, 2, 3, 4] example_world)"
  using pwritev_all_writes [OF example_write] by (simp add: example_write)

theorem pwritev_all_returns_witness: "fst (pwritev_all [[1, 2], [9]] 7 example_world) = Returned"
  by (rule pwritev_all_returns) (simp_all add: example_world_def helpful_def moves_def off_max_def)

theorem write_then_read_witness:
  "\<exists>w1 w2. pwritev_all [[1, 2, 3], [], [4]] 7 example_world = (Returned, w1) \<and>
     pread_all 4 7 (w1\<lparr>w_answers := [(False, Done 3), (False, Interrupted), (False, Done 3)]\<rparr>) =
       ((Returned, w2), [1, 2, 3, 4])"
proof -
  let ?w1 = "(put_bytes 7 [1, 2, 3, 4] example_world)\<lparr>w_answers := [(False, Done 1)]\<rparr>"
  let ?answers = "[(False, Done 3), (False, Interrupted), (False, Done 3)]"
  have "fst (fst (pread_all 4 7 (?w1\<lparr>w_answers := ?answers\<rparr>))) = Returned"
    by (simp add: pread_all_def checked_add_size_eq off_max_def read_done_def read_call_def transfer_max_def Let_def
        get_bytes_def put_bytes_def example_world_def)
  then obtain w2 out where read: "pread_all 4 7 (?w1\<lparr>w_answers := ?answers\<rparr>) = ((Returned, w2), out)"
    by (cases "pread_all 4 7 (?w1\<lparr>w_answers := ?answers\<rparr>)") (metis fst_conv prod.collapse)
  have four: "length (concat [[1, 2, 3], [], [4 :: byte]]) = 4" by simp
  have "out = [1, 2, 3, 4]" using write_then_read [OF example_write, unfolded four, OF read] by simp
  with example_write read show ?thesis by blast
qed

theorem normalize_ranges_exact_witness:
  "\<exists>out. normalize_ranges True [\<lparr>rg_offset = 5000, rg_bytes = 10\<rparr>, \<lparr>rg_offset = 1, rg_bytes = 4096\<rparr>] = Inr out \<and>
     ranges_set out = pages_of {1 ..< 5010} \<and> separated out"
proof -
  let ?rs = "[\<lparr>rg_offset = 5000, rg_bytes = 10\<rparr>, \<lparr>rg_offset = 1, rg_bytes = 4096\<rparr>]"
  have run: "normalize_ranges True ?rs = Inr [\<lparr>rg_offset = 0, rg_bytes = 8192\<rparr>]"
    by (simp add: normalize_ranges_def range_end_def checked_add_size_eq off_max_def Let_def)
  have "ranges_set [\<lparr>rg_offset = 0, rg_bytes = 8192\<rparr>] = {0 ..< 8192}" by (simp add: range_set_def)
  also have "\<dots> = pages_of {1 ..< 5010}" using page_cover [of 5009 1] by simp
  finally show ?thesis using normalize_ranges_exact [OF run] run by simp
qed

end
