(* ===== verification/Worker_Pool.thy ===== *)
theory Worker_Pool
  imports Ring_Buffer
begin

text \<open>
  The worker pool (\<open>src/common/concurrency/worker_pool.{h,cpp}\<close>), at the grain of its mutex: what a
  thread does between taking the mutex and letting it go, or waiting, is one operation. Tasks wait in
  two forms, copied into a growing ring or linked through records that their owner keeps; the ordinal of
  a record says where it stands among the others. A notification that is sent after the mutex was let go
  is a step of its own. The code of a task is a parameter: a task returns or throws, and whatever it
  asks of the pool is an operation that may come at any time. The placement of the threads on processors
  is left out; a worker whose placement fails throws before it starts.
\<close>

section \<open>State\<close>

text \<open>An exception of the standard library, a failed allocation, or one raised by a task or by the
  system when it sets up a thread.\<close>

datatype pool_exception = Cxx cxx_error | Bad_Alloc | Raised nat

record 'c task =
  tk_owned :: "'c option"
  tk_context :: nat
  tk_index :: nat
  tk_borrowed :: "'c option"

record 'c borrowed_task =
  bt_context :: nat
  bt_index :: nat
  bt_call :: "'c option"
  bt_next :: "nat option"
  bt_sequence :: u64
  bt_queued :: bool

text \<open>A worker is setting up its thread, has counted itself as started, is about to look for work,
  sleeps on \<open>work_cv\<close>, runs a task, has run it, or has returned from its loop.\<close>

datatype 'c worker = Starting | Started | Checking | Asleep | Running "'c task" | Finishing | Exited

text \<open>A call of \<open>wait_idle\<close> is about to look, sleeps on \<open>idle_cv\<close>, or has returned or thrown.\<close>

datatype waiter = Wait_Checking | Wait_Asleep | Wait_Done "pool_exception option"

text \<open>The thread that owns the pool is creating the workers, is about to look whether they started,
  sleeps on \<open>startup_cv\<close>, has the pool, has closed it and is about to notify, joins the workers, or is
  done with it.\<close>

datatype phase = Spawning | Startup_Checking | Startup_Asleep | Ready | Closing | Joining | Gone

text \<open>\<open>wp_notices\<close> counts the calls of \<open>work_cv.notify_one\<close> that are still to come. \<open>wp_accepted\<close> and
  \<open>wp_taken\<close> are the histories of the tasks that were admitted and of those that a worker took.\<close>

record 'c pool =
  wp_tasks :: "'c task option list"
  wp_head :: nat
  wp_count :: nat
  wp_records :: "nat \<Rightarrow> 'c borrowed_task"
  wp_borrowed_head :: "nat option"
  wp_borrowed_tail :: "nat option"
  wp_submitted :: u64
  wp_dispatched :: u64
  wp_pending :: nat
  wp_started :: nat
  wp_shutdown :: bool
  wp_error :: "pool_exception option"
  wp_workers :: "'c worker list"
  wp_waiters :: "waiter list"
  wp_phase :: phase
  wp_notices :: nat
  wp_accepted :: "'c task list"
  wp_taken :: "'c task list"

section \<open>The queue\<close>

definition queue_empty :: "'c pool \<Rightarrow> bool" where
  "queue_empty p \<longleftrightarrow> wp_count p = 0 \<and> wp_borrowed_head p = None"

text \<open>Ring storage of twice the size, with the tasks copied in order.\<close>

definition grow_tasks :: "'c pool \<Rightarrow> 'c pool" where
  "grow_tasks p = p\<lparr>wp_tasks := foldl
       (\<lambda>grown index. grown[index := wp_tasks p ! ((wp_head p + index) mod length (wp_tasks p))])
       (replicate (max 1 (length (wp_tasks p) * 2)) None) [0..<wp_count p],
     wp_head := 0\<rparr>"

definition append_task :: "'c task \<Rightarrow> 'c pool \<Rightarrow> 'c pool" where
  "append_task task p = p\<lparr>
     wp_tasks := (wp_tasks p)[(wp_head p + wp_count p) mod length (wp_tasks p) := Some task],
     wp_count := Suc (wp_count p), wp_submitted := wp_submitted p + 1\<rparr>"

text \<open>\<open>max_size\<close> is the capacity limit of the vector, and \<open>memory\<close> says whether the larger storage could
  be allocated.\<close>

definition push_task :: "nat \<Rightarrow> bool \<Rightarrow> 'c task \<Rightarrow> 'c pool \<Rightarrow> pool_exception option \<times> 'c pool" where
  "push_task max_size memory task p = and_then
     (if wp_count p \<noteq> length (wp_tasks p) then (None, p)
      else if length (wp_tasks p) > max_size div 2
      then (Some (Cxx (Length_Error ''worker task queue capacity exhausted'')), p)
      else if \<not> memory then (Some Bad_Alloc, p)
      else (None, grow_tasks p))
     (\<lambda>p. (None, append_task task p))"

text \<open>The record at the head of the list comes first when its ordinal is the next one to dispatch.\<close>

definition record_task :: "'c borrowed_task \<Rightarrow> 'c task" where
  "record_task r = \<lparr>tk_owned = None, tk_context = bt_context r, tk_index = bt_index r, tk_borrowed = bt_call r\<rparr>"

definition pop_record :: "nat \<Rightarrow> 'c pool \<Rightarrow> 'c pool" where
  "pop_record r p = (let next = bt_next (wp_records p r) in
     p\<lparr>wp_borrowed_head := next,
       wp_borrowed_tail := if next = None then None else wp_borrowed_tail p,
       wp_records := (wp_records p)(r := (wp_records p r)\<lparr>bt_queued := False, bt_next := None\<rparr>),
       wp_dispatched := wp_dispatched p + 1\<rparr>)"

definition pop_slot :: "'c pool \<Rightarrow> 'c pool" where
  "pop_slot p = p\<lparr>wp_tasks := (wp_tasks p)[wp_head p := None],
     wp_head := (wp_head p + 1) mod length (wp_tasks p), wp_count := wp_count p - 1,
     wp_dispatched := wp_dispatched p + 1\<rparr>"

definition record_due :: "'c pool \<Rightarrow> nat option" where
  "record_due p = (case wp_borrowed_head p of None \<Rightarrow> None
     | Some r \<Rightarrow> if bt_sequence (wp_records p r) = wp_dispatched p then Some r else None)"

text \<open>The task is \<open>None\<close> where the code would read a slot that holds none.\<close>

definition pop_task :: "'c pool \<Rightarrow> 'c task option \<times> 'c pool" where
  "pop_task p = (case record_due p of
       Some r \<Rightarrow> (Some (record_task (wp_records p r)), pop_record r p)
     | None \<Rightarrow> (wp_tasks p ! wp_head p, pop_slot p))"

section \<open>Admission\<close>

text \<open>What the caller does with the mutex held once the task is in the queue; its notification comes
  after the mutex was let go.\<close>

definition admit_task :: "'c task \<Rightarrow> 'c pool \<Rightarrow> 'c pool" where
  "admit_task task p = p\<lparr>wp_pending := wrap64 (wp_pending p + 1), wp_notices := Suc (wp_notices p),
     wp_accepted := wp_accepted p @ [task]\<rparr>"

definition push_and_admit :: "nat \<Rightarrow> bool \<Rightarrow> 'c task \<Rightarrow> 'c pool \<Rightarrow> pool_exception option \<times> 'c pool" where
  "push_and_admit max_size memory task p =
     and_then (push_task max_size memory task p) (\<lambda>p. (None, admit_task task p))"

definition shut_down :: pool_exception where
  "shut_down = Cxx (Runtime_Error ''worker pool is shut down'')"

definition enqueue_detached :: "nat \<Rightarrow> bool \<Rightarrow> 'c option \<Rightarrow> 'c pool \<Rightarrow> pool_exception option \<times> 'c pool" where
  "enqueue_detached max_size memory work p =
     (if wp_shutdown p then (Some shut_down, p)
      else case wp_error p of Some e \<Rightarrow> (Some e, p)
      | None \<Rightarrow> push_and_admit max_size memory
          \<lparr>tk_owned = work, tk_context = 0, tk_index = 0, tk_borrowed = None\<rparr> p)"

definition check_borrowed_admission :: "'c pool \<Rightarrow> pool_exception option" where
  "check_borrowed_admission p =
     (case wp_error p of Some e \<Rightarrow> Some e | None \<Rightarrow> if wp_shutdown p then Some shut_down else None)"

definition empty_borrowed :: pool_exception where
  "empty_borrowed = Cxx (Invalid_Argument ''borrowed worker task is empty'')"

definition enqueue_borrowed ::
    "nat \<Rightarrow> bool \<Rightarrow> nat \<Rightarrow> nat \<Rightarrow> 'c option \<Rightarrow> 'c pool \<Rightarrow> pool_exception option \<times> 'c pool" where
  "enqueue_borrowed max_size memory ctx index call p =
     (if call = None then (Some empty_borrowed, p)
      else and_then (check_borrowed_admission p, p) (push_and_admit max_size memory
        \<lparr>tk_owned = None, tk_context = ctx, tk_index = index, tk_borrowed = call\<rparr>))"

definition link_record :: "nat \<Rightarrow> 'c pool \<Rightarrow> 'c pool" where
  "link_record r p =
     (let records = (wp_records p)(r := (wp_records p r)
          \<lparr>bt_sequence := wp_submitted p, bt_queued := True, bt_next := None\<rparr>)
      in (case wp_borrowed_tail p of
            Some tail \<Rightarrow> p\<lparr>wp_records := records(tail := (records tail)\<lparr>bt_next := Some r\<rparr>)\<rparr>
          | None \<Rightarrow> p\<lparr>wp_records := records, wp_borrowed_head := Some r\<rparr>)
         \<lparr>wp_submitted := wp_submitted p + 1, wp_borrowed_tail := Some r\<rparr>)"

definition enqueue_record :: "nat \<Rightarrow> 'c pool \<Rightarrow> pool_exception option \<times> 'c pool" where
  "enqueue_record r p =
     (if bt_call (wp_records p r) = None then (Some empty_borrowed, p)
      else and_then (check_borrowed_admission p, p) (\<lambda>p.
        if bt_queued (wp_records p r)
        then (Some (Cxx (Logic_Error ''borrowed worker task is already queued'')), p)
        else (None, admit_task (record_task (wp_records p r)) (link_record r p))))"

section \<open>Notification\<close>

definition wake_worker :: "'c worker \<Rightarrow> 'c worker" where
  "wake_worker w = (case w of Asleep \<Rightarrow> Checking | _ \<Rightarrow> w)"

definition wake_waiter :: "waiter \<Rightarrow> waiter" where
  "wake_waiter w = (case w of Wait_Asleep \<Rightarrow> Wait_Checking | _ \<Rightarrow> w)"

definition notify_work :: "'c pool \<Rightarrow> 'c pool" where
  "notify_work p = p\<lparr>wp_workers := map wake_worker (wp_workers p)\<rparr>"

definition notify_idle :: "'c pool \<Rightarrow> 'c pool" where
  "notify_idle p = p\<lparr>wp_waiters := map wake_waiter (wp_waiters p)\<rparr>"

definition notify_startup :: "'c pool \<Rightarrow> 'c pool" where
  "notify_startup p = (if wp_phase p = Startup_Asleep then p\<lparr>wp_phase := Startup_Checking\<rparr> else p)"

definition notify_all :: "'c pool \<Rightarrow> 'c pool" where
  "notify_all p = notify_startup (notify_idle (notify_work p))"

section \<open>A worker\<close>

definition set_worker :: "nat \<Rightarrow> 'c worker \<Rightarrow> 'c pool \<Rightarrow> 'c pool" where
  "set_worker i w p = p\<lparr>wp_workers := (wp_workers p)[i := w]\<rparr>"

text \<open>The first exception is kept, admission is closed and everybody is notified.\<close>

definition fail_pool :: "pool_exception \<Rightarrow> 'c pool \<Rightarrow> 'c pool" where
  "fail_pool e p = notify_all (p\<lparr>wp_error := (case wp_error p of None \<Rightarrow> Some e | Some first \<Rightarrow> Some first),
     wp_shutdown := True\<rparr>)"

definition start_worker :: "pool_exception option \<Rightarrow> nat \<Rightarrow> 'c pool \<Rightarrow> 'c pool" where
  "start_worker outcome i p =
     (case outcome of
        None \<Rightarrow> set_worker i Started (p\<lparr>wp_started := Suc (wp_started p)\<rparr>)
      | Some e \<Rightarrow> set_worker i Exited (fail_pool e (p\<lparr>wp_started := Suc (wp_started p)\<rparr>)))"

definition check_work :: "nat \<Rightarrow> 'c pool \<Rightarrow> 'c pool" where
  "check_work i p =
     (if \<not> wp_shutdown p \<and> queue_empty p then set_worker i Asleep p
      else if wp_shutdown p \<and> queue_empty p then set_worker i Exited p
      else (case pop_task p of
          (None, p) \<Rightarrow> p
        | (Some task, p) \<Rightarrow> set_worker i (Running task) (p\<lparr>wp_taken := wp_taken p @ [task]\<rparr>)))"

definition run_task :: "pool_exception option \<Rightarrow> nat \<Rightarrow> 'c pool \<Rightarrow> 'c pool" where
  "run_task outcome i p = set_worker i Finishing (case outcome of None \<Rightarrow> p | Some e \<Rightarrow> fail_pool e p)"

definition accounting_underflow :: pool_exception where
  "accounting_underflow = Cxx (Runtime_Error ''worker pool internal task accounting underflow'')"

definition finish_task :: "nat \<Rightarrow> 'c pool \<Rightarrow> 'c pool" where
  "finish_task i p =
     (if wp_pending p = 0 then set_worker i Exited (fail_pool accounting_underflow p)
      else let p = p\<lparr>wp_pending := wp_pending p - 1\<rparr>
           in set_worker i Checking (if wp_pending p = 0 then notify_idle p else p))"

text \<open>What a worker does next. The outcome is that of setting up its thread, or that of its task.\<close>

definition advance_worker :: "pool_exception option \<Rightarrow> nat \<Rightarrow> 'c pool \<Rightarrow> 'c pool" where
  "advance_worker outcome i p =
     (case wp_workers p ! i of
        Starting \<Rightarrow> start_worker outcome i p
      | Started \<Rightarrow> set_worker i Checking (notify_startup p)
      | Checking \<Rightarrow> check_work i p
      | Running task \<Rightarrow> run_task outcome i p
      | Finishing \<Rightarrow> finish_task i p
      | Asleep \<Rightarrow> p
      | Exited \<Rightarrow> p)"

section \<open>The owner and the callers\<close>

definition new_pool :: "nat \<Rightarrow> nat \<Rightarrow> (nat \<Rightarrow> 'c borrowed_task) \<Rightarrow> 'c pool" where
  "new_pool queued_capacity worker_count records =
     \<lparr>wp_tasks = replicate (max queued_capacity worker_count) None, wp_head = 0, wp_count = 0,
      wp_records = records, wp_borrowed_head = None, wp_borrowed_tail = None,
      wp_submitted = 0, wp_dispatched = 0, wp_pending = 0, wp_started = 0, wp_shutdown = False,
      wp_error = None, wp_workers = [], wp_waiters = [], wp_phase = Spawning, wp_notices = 0,
      wp_accepted = [], wp_taken = []\<rparr>"

text \<open>The first half of \<open>shutdown\<close>: the flag is set, and the notifications come once the mutex is
  let go.\<close>

definition close_pool :: "'c pool \<Rightarrow> 'c pool" where
  "close_pool p = p\<lparr>wp_shutdown := True, wp_phase := Closing\<rparr>"

text \<open>The constructor starts one thread after the other; a thread that cannot be created closes the
  pool again.\<close>

definition spawn_worker :: "nat \<Rightarrow> bool \<Rightarrow> 'c pool \<Rightarrow> 'c pool" where
  "spawn_worker worker_count created p =
     (if length (wp_workers p) = worker_count then p\<lparr>wp_phase := Startup_Checking\<rparr>
      else if created then p\<lparr>wp_workers := wp_workers p @ [Starting]\<rparr>
      else close_pool p)"

definition check_startup :: "nat \<Rightarrow> 'c pool \<Rightarrow> 'c pool" where
  "check_startup worker_count p =
     (if wp_started p \<noteq> worker_count \<and> wp_error p = None then p\<lparr>wp_phase := Startup_Asleep\<rparr>
      else if wp_error p \<noteq> None then close_pool p
      else p\<lparr>wp_phase := Ready\<rparr>)"

definition check_idle :: "nat \<Rightarrow> 'c pool \<Rightarrow> 'c pool" where
  "check_idle k p = p\<lparr>wp_waiters := (wp_waiters p)[k :=
     if wp_pending p \<noteq> 0 \<and> wp_error p = None then Wait_Asleep else Wait_Done (wp_error p)]\<rparr>"

text \<open>The owner's next step: \<open>done\<close> says whether it has finished using the pool.\<close>

definition owner_step :: "nat \<Rightarrow> bool \<Rightarrow> 'c pool \<Rightarrow> 'c pool" where
  "owner_step worker_count created p =
     (case wp_phase p of
        Spawning \<Rightarrow> spawn_worker worker_count created p
      | Startup_Checking \<Rightarrow> check_startup worker_count p
      | Startup_Asleep \<Rightarrow> p
      | Ready \<Rightarrow> close_pool p
      | Closing \<Rightarrow> (notify_all p)\<lparr>wp_phase := Joining\<rparr>
      | Joining \<Rightarrow> if list_all (\<lambda>w. w = Exited) (wp_workers p) then p\<lparr>wp_phase := Gone\<rparr> else p
      | Gone \<Rightarrow> p)"

section \<open>The queue behind the two forms\<close>

text \<open>
  The queue that a pool represents: stored tasks and linked records, in the order of their admission.
  The stored ones are in the ring, the linked ones are the list that starts at \<open>borrowed_head\<close>, and the
  ordinal of a record is its position, counted from the tasks dispatched so far and modulo the word.
\<close>

datatype 'c entry = Stored "'c task" | Linked nat

fun stored :: "'c entry list \<Rightarrow> 'c task list" where
  "stored [] = []"
| "stored (Stored t # q) = t # stored q"
| "stored (Linked r # q) = stored q"

fun linked :: "'c entry list \<Rightarrow> nat list" where
  "linked [] = []"
| "linked (Stored t # q) = linked q"
| "linked (Linked r # q) = r # linked q"

fun entry_task :: "(nat \<Rightarrow> 'c borrowed_task) \<Rightarrow> 'c entry \<Rightarrow> 'c task" where
  "entry_task R (Stored t) = t"
| "entry_task R (Linked r) = record_task (R r)"

fun chain :: "(nat \<Rightarrow> 'c borrowed_task) \<Rightarrow> nat option \<Rightarrow> nat list \<Rightarrow> bool" where
  "chain R h [] = (h = None)"
| "chain R h (r # rs) = (h = Some r \<and> chain R (bt_next (R r)) rs)"

definition tail_of :: "nat list \<Rightarrow> nat option" where
  "tail_of rs = (if rs = [] then None else Some (last rs))"

fun numbered :: "(nat \<Rightarrow> 'c borrowed_task) \<Rightarrow> u64 \<Rightarrow> 'c entry list \<Rightarrow> bool" where
  "numbered R n [] = True"
| "numbered R n (Stored t # q) = numbered R (n + 1) q"
| "numbered R n (Linked r # q) = (bt_sequence (R r) = n \<and> numbered R (n + 1) q)"

definition pool_holds :: "'c pool \<Rightarrow> 'c entry list \<Rightarrow> bool" where
  "pool_holds p q \<longleftrightarrow>
     ring_holds (wp_tasks p) (wp_head p) (stored q) \<and> wp_count p = length (stored q) \<and>
     chain (wp_records p) (wp_borrowed_head p) (linked q) \<and> wp_borrowed_tail p = tail_of (linked q) \<and>
     distinct (linked q) \<and> (\<forall>r. bt_queued (wp_records p r) \<longleftrightarrow> r \<in> set (linked q)) \<and>
     numbered (wp_records p) (wp_dispatched p) q \<and>
     wp_submitted p = wp_dispatched p + of_nat (length q) \<and> length q \<le> size_max"

lemma stored_append [simp]: "stored (p @ q) = stored p @ stored q"
  by (induction p rule: stored.induct) simp_all

lemma linked_append [simp]: "linked (p @ q) = linked p @ linked q"
  by (induction p rule: linked.induct) simp_all

lemma length_entries: "length q = length (stored q) + length (linked q)"
  by (induction q rule: stored.induct) simp_all

lemma chain_cong: "(\<And>r. r \<in> set rs \<Longrightarrow> bt_next (R r) = bt_next (S r)) \<Longrightarrow> chain R h rs = chain S h rs"
  by (induction rs arbitrary: h) auto

lemma numbered_cong: "(\<And>r. r \<in> set (linked q) \<Longrightarrow> bt_sequence (R r) = bt_sequence (S r)) \<Longrightarrow> numbered R n q = numbered S n q"
  by (induction R n q rule: numbered.induct) auto

lemma numbered_append: "numbered R n (p @ q) \<longleftrightarrow> numbered R n p \<and> numbered R (n + of_nat (length p)) q"
  by (induction R n p rule: numbered.induct) (auto simp: ac_simps)

lemma chain_append:
  assumes "chain R h rs" "distinct rs" "r \<notin> set rs" "rs \<noteq> []" "bt_next (S r) = None"
    "\<And>x. x \<in> set rs \<Longrightarrow> bt_next (S x) = (if x = last rs then Some r else bt_next (R x))"
  shows "chain S h (rs @ [r])"
  using assms
proof (induction rs arbitrary: h)
  case (Cons x rs)
  show ?case
  proof (cases "rs = []")
    case False
    have "chain S (bt_next (R x)) (rs @ [r])"
      using Cons.prems False by (intro Cons.IH) auto
    moreover have "x \<noteq> last rs" using Cons.prems(2) False by (metis distinct.simps(2) last_in_set)
    ultimately show ?thesis using Cons.prems False by simp
  qed (use Cons.prems in simp)
qed simp

text \<open>A record that does not come first has another ordinal than the next one to dispatch, as long as
  there are fewer tasks than ordinals.\<close>

lemma numbered_late:
  assumes "numbered R (n + of_nat k) q" "r \<in> set (linked q)" "0 < k" "k + length q \<le> size_max"
  shows "bt_sequence (R r) \<noteq> n"
  using assms
proof (induction q arbitrary: k rule: linked.induct)
  case (2 t q)
  then have "numbered R (n + of_nat (Suc k)) q" by (simp add: ac_simps)
  then show ?case using 2 by (intro "2.IH" [of "Suc k"]) simp_all
next
  case (3 x q)
  have "(of_nat k :: u64) \<noteq> 0"
  proof
    assume "(of_nat k :: u64) = 0"
    then have "18446744073709551616 dvd k" by (simp add: word_of_nat_eq_0_iff)
    then have "18446744073709551616 \<le> k" using "3.prems"(3) by (rule dvd_imp_le)
    then show False using "3.prems"(4) by simp
  qed
  moreover have "numbered R (n + of_nat (Suc k)) q" using "3.prems" by (simp add: ac_simps)
  ultimately show ?case using 3 "3.IH" [of "Suc k"] by auto
qed simp

text \<open>An empty pool, and the queue of one that is not.\<close>

lemma pool_holds_empty: "pool_holds p q \<Longrightarrow> queue_empty p \<longleftrightarrow> q = []"
  by (cases q rule: stored.cases) (auto simp: pool_holds_def queue_empty_def elim: chain.elims)

lemma new_pool_holds:
  assumes "\<And>r. \<not> bt_queued (records r)"
  shows "pool_holds (new_pool queued_capacity worker_count records) []"
  using assms by (simp add: pool_holds_def new_pool_def ring_empty tail_of_def)

definition queue_part :: "'c pool \<Rightarrow> _" where
  "queue_part p = (wp_tasks p, wp_head p, wp_count p, wp_records p, wp_borrowed_head p,
     wp_borrowed_tail p, wp_submitted p, wp_dispatched p)"

lemma pool_holds_part: "queue_part p = queue_part p' \<Longrightarrow> pool_holds p q = pool_holds p' q"
  by (simp add: pool_holds_def queue_part_def)

lemma grow_tasks_holds:
  assumes "pool_holds p q"
  shows "pool_holds (grow_tasks p) q" "length (wp_tasks (grow_tasks p)) = max 1 (length (wp_tasks p) * 2)"
proof -
  have r: "ring_holds (wp_tasks p) (wp_head p) (stored q)" "wp_count p = length (stored q)"
    using assms by (auto simp: pool_holds_def)
  then have "length (stored q) \<le> max 1 (length (wp_tasks p) * 2)"
    using ring_holds_bounds(1) [OF r(1)] by linarith
  from ring_grow [OF r(1) this] assms r(2)
  show "pool_holds (grow_tasks p) q" "length (wp_tasks (grow_tasks p)) = max 1 (length (wp_tasks p) * 2)"
    by (simp_all add: pool_holds_def grow_tasks_def)
qed

lemma append_task_holds:
  assumes "pool_holds p q" "wp_count p < length (wp_tasks p)" "length q < size_max"
  shows "pool_holds (append_task task p) (q @ [Stored task])"
  using assms ring_put [of "wp_tasks p" "wp_head p" "stored q" task]
  by (simp add: pool_holds_def append_task_def numbered_append ac_simps)

lemma push_task_holds:
  assumes "pool_holds p q" "length q < size_max"
  shows "push_task max_size memory task p = (e, p') \<Longrightarrow>
    (e \<noteq> None \<longrightarrow> p' = p) \<and> (e = None \<longrightarrow> pool_holds p' (q @ [Stored task]))"
proof -
  have c: "wp_count p \<le> length (wp_tasks p)"
    using assms(1) ring_holds_bounds(1) by (fastforce simp: pool_holds_def)
  have "pool_holds (append_task task (grow_tasks p)) (q @ [Stored task])" if "wp_count p = length (wp_tasks p)"
    using that assms grow_tasks_holds [OF assms(1)]
    by (intro append_task_holds) (simp_all add: grow_tasks_def)
  with c assms append_task_holds [OF assms(1) _ assms(2), of task]
  show "push_task max_size memory task p = (e, p') \<Longrightarrow> ?thesis"
    by (auto simp: push_task_def split: if_splits)
qed

lemma link_record_holds:
  assumes "pool_holds p q" "\<not> bt_queued (wp_records p r)" "length q < size_max"
  shows "pool_holds (link_record r p) (q @ [Linked r])"
proof -
  let ?R = "wp_records p" and ?S = "wp_records (link_record r p)"
  have r: "r \<notin> set (linked q)" using assms(1,2) by (simp add: pool_holds_def)
  have "chain ?S (wp_borrowed_head (link_record r p)) (linked q @ [r])"
  proof (cases "linked q = []")
    case True
    with assms(1) show ?thesis by (simp add: pool_holds_def link_record_def Let_def tail_of_def)
  next
    case False
    with assms(1) r show ?thesis
      by (intro chain_append [of ?R]) (auto simp: pool_holds_def link_record_def Let_def tail_of_def)
  qed
  moreover have "numbered ?S (wp_dispatched p) q = numbered ?R (wp_dispatched p) q"
    using r by (intro numbered_cong) (auto simp: link_record_def Let_def split: option.splits)
  moreover have "bt_sequence (?S r) = wp_submitted p"
    using assms(1) r by (auto simp: pool_holds_def link_record_def Let_def tail_of_def split: option.splits)
  moreover have "bt_queued (?S x) \<longleftrightarrow> x = r \<or> bt_queued (?R x)" for x
    by (simp add: link_record_def Let_def split: option.splits)
  moreover have "wp_tasks (link_record r p) = wp_tasks p" "wp_head (link_record r p) = wp_head p"
    "wp_count (link_record r p) = wp_count p" "wp_dispatched (link_record r p) = wp_dispatched p"
    "wp_submitted (link_record r p) = wp_submitted p + 1" "wp_borrowed_tail (link_record r p) = Some r"
    by (simp_all add: link_record_def Let_def split: option.splits)
  ultimately show ?thesis
    using assms(1,3) r by (simp add: pool_holds_def numbered_append tail_of_def ac_simps)
qed

text \<open>Taking a task from a queue that is not empty yields the first one.\<close>

lemma pop_linked:
  assumes "pool_holds p (Linked r # q)"
  shows "record_due p = Some r" "pool_holds (pop_record r p) q"
proof -
  let ?R = "wp_records p" and ?S = "wp_records (pop_record r p)"
  have r: "r \<notin> set (linked q)" "wp_borrowed_head p = Some r" "bt_sequence (?R r) = wp_dispatched p"
    using assms by (simp_all add: pool_holds_def)
  then show "record_due p = Some r" by (simp add: record_due_def)
  have "chain ?S (bt_next (?R r)) (linked q) = chain ?R (bt_next (?R r)) (linked q)"
    using r by (intro chain_cong) (auto simp: pop_record_def Let_def)
  moreover have "numbered ?S (wp_dispatched p + 1) q = numbered ?R (wp_dispatched p + 1) q"
    using r by (intro numbered_cong) (auto simp: pop_record_def Let_def)
  moreover have "bt_next (?R r) = None \<longleftrightarrow> linked q = []"
    using assms by (cases "linked q") (auto simp: pool_holds_def)
  ultimately show "pool_holds (pop_record r p) q"
    using assms by (auto simp: pool_holds_def pop_record_def Let_def tail_of_def ac_simps)
qed

lemma pop_stored:
  assumes "pool_holds p (Stored t # q)"
  shows "record_due p = None" "wp_tasks p ! wp_head p = Some t" "pool_holds (pop_slot p) q"
proof -
  have ring: "ring_holds (wp_tasks p) (wp_head p) (t # stored q)" using assms by (simp add: pool_holds_def)
  show "wp_tasks p ! wp_head p = Some t" using ring_take(1) [OF ring] .
  show "pool_holds (pop_slot p) q"
    using assms ring_take(2) [OF ring] by (simp add: pool_holds_def pop_slot_def ac_simps)
  have "bt_sequence (wp_records p r) \<noteq> wp_dispatched p" if "r \<in> set (linked q)" for r
    using that assms by (intro numbered_late [of _ _ 1 q]) (auto simp: pool_holds_def)
  then show "record_due p = None"
    using assms by (cases "linked q") (auto simp: pool_holds_def record_due_def)
qed

lemma pop_task_holds:
  assumes "pool_holds p (x # q)"
  obtains p' where "pop_task p = (Some (entry_task (wp_records p) x), p')" "pool_holds p' q"
    "map (entry_task (wp_records p')) q = map (entry_task (wp_records p)) q"
proof (cases x)
  case (Stored t)
  have "wp_records (pop_slot p) = wp_records p" by (simp add: pop_slot_def)
  with Stored assms pop_stored [of p t q] that [of "pop_slot p"] show ?thesis by (simp add: pop_task_def)
next
  case (Linked r)
  have "entry_task (wp_records (pop_record r p)) y = entry_task (wp_records p) y" for y
    by (cases y) (auto simp: pop_record_def Let_def record_task_def)
  with Linked assms pop_linked [of p r q] that [of "pop_record r p"] show ?thesis by (simp add: pop_task_def)
qed

text \<open>What the operations on the queue leave alone.\<close>

definition control_part :: "'c pool \<Rightarrow> _" where
  "control_part p = (wp_pending p, wp_started p, wp_shutdown p, wp_error p, wp_workers p, wp_waiters p,
     wp_phase p, wp_notices p, wp_accepted p, wp_taken p)"

lemma queue_control [simp]:
  "control_part (grow_tasks p) = control_part p" "control_part (append_task t p) = control_part p"
  "control_part (link_record r p) = control_part p" "control_part (pop_record r p) = control_part p"
  "control_part (pop_slot p) = control_part p"
  by (simp_all add: control_part_def grow_tasks_def append_task_def link_record_def pop_record_def
      pop_slot_def Let_def split: option.splits)

lemma push_task_control: "push_task max_size memory task p = (e, p') \<Longrightarrow> control_part p' = control_part p"
  by (auto simp: push_task_def split: if_splits)

lemma pop_task_control: "pop_task p = (t, p') \<Longrightarrow> control_part p' = control_part p"
  by (auto simp: pop_task_def split: option.splits)

section \<open>First-in first-out\<close>

text \<open>The queue, read off a pool: the list of the records and the ring are merged by the ordinals.\<close>

fun walk :: "(nat \<Rightarrow> 'c borrowed_task) \<Rightarrow> nat option \<Rightarrow> nat \<Rightarrow> nat list" where
  "walk R (Some r) (Suc n) = r # walk R (bt_next (R r)) n"
| "walk R h n = []"

fun merge_entries :: "(nat \<Rightarrow> 'c borrowed_task) \<Rightarrow> u64 \<Rightarrow> 'c task list \<Rightarrow> nat list \<Rightarrow> 'c entry list" where
  "merge_entries R n [] rs = map Linked rs"
| "merge_entries R n ts [] = map Stored ts"
| "merge_entries R n (t # ts) (r # rs) =
     (if bt_sequence (R r) = n then Linked r # merge_entries R (n + 1) (t # ts) rs
      else Stored t # merge_entries R (n + 1) ts (r # rs))"

definition queue_of :: "'c pool \<Rightarrow> 'c entry list" where
  "queue_of p = merge_entries (wp_records p) (wp_dispatched p)
     (ring_list (wp_tasks p) (wp_head p) (wp_count p))
     (walk (wp_records p) (wp_borrowed_head p) (unat (wp_submitted p - wp_dispatched p) - wp_count p))"

definition tasks_of :: "'c pool \<Rightarrow> 'c task list" where
  "tasks_of p = map (entry_task (wp_records p)) (queue_of p)"

lemma walk_chain: "chain R h rs \<Longrightarrow> walk R h (length rs) = rs"
  by (induction R h rs rule: chain.induct) auto

lemma merge_linked: "stored q = [] \<Longrightarrow> map Linked (linked q) = q"
  by (induction q rule: linked.induct) simp_all

lemma merge_stored: "linked q = [] \<Longrightarrow> map Stored (stored q) = q"
  by (induction q rule: linked.induct) simp_all

lemma merge_numbered:
  assumes "numbered R n q" "length q \<le> size_max"
  shows "merge_entries R n (stored q) (linked q) = q"
  using assms
proof (induction q arbitrary: n rule: linked.induct)
  case (2 t q)
  show ?case
  proof (cases "linked q")
    case Nil
    with 2 show ?thesis by (simp add: merge_stored)
  next
    case (Cons r rs)
    have "bt_sequence (R r) \<noteq> n"
      using 2 Cons by (intro numbered_late [of R n 1 q]) simp_all
    with 2 Cons show ?thesis by simp
  qed
next
  case (3 r q)
  then show ?case by (cases "stored q") (simp_all add: merge_linked)
qed simp

lemma queue_of_holds:
  assumes "pool_holds p q"
  shows "queue_of p = q"
proof -
  have "wp_submitted p - wp_dispatched p = of_nat (length q)" "length q \<le> size_max" "wp_count p = length (stored q)"
    using assms by (simp_all add: pool_holds_def)
  then have "unat (wp_submitted p - wp_dispatched p) = length q" "wp_count p = length (stored q)"
    by (simp_all add: unat_of_nat take_bit_eq_mod del: of_nat_add)
  then have "unat (wp_submitted p - wp_dispatched p) - wp_count p = length (linked q)"
    using length_entries [of q] by simp
  with assms merge_numbered [of "wp_records p" "wp_dispatched p" q] show ?thesis
    by (simp add: queue_of_def pool_holds_def ring_list_holds walk_chain)
qed

definition wq_ok :: "'c pool \<Rightarrow> bool" where
  "wq_ok p \<longleftrightarrow> pool_holds p (queue_of p)"

lemma wq_ok_holds: "pool_holds p q \<Longrightarrow> wq_ok p"
  by (simp add: wq_ok_def queue_of_holds)

definition push_room :: "nat \<Rightarrow> 'c pool \<Rightarrow> bool" where
  "push_room max_size p \<longleftrightarrow> length (queue_of p) < size_max \<and>
     (wp_count p = length (wp_tasks p) \<longrightarrow> length (wp_tasks p) \<le> max_size div 2)"

definition next_task :: "'c pool \<Rightarrow> 'c task option \<times> 'c pool" where
  "next_task p = (if queue_empty p then (None, p) else pop_task p)"

lemma push_task_records: "push_task max_size memory task p = (e, p') \<Longrightarrow> wp_records p' = wp_records p"
  by (auto simp: push_task_def append_task_def grow_tasks_def split: if_splits)

lemma push_task_queue:
  assumes "wq_ok p" "push_room max_size p"
  shows "wq_ok (snd (push_task max_size True task p))"
    "tasks_of (snd (push_task max_size True task p)) = tasks_of p @ [task]"
proof -
  obtain e p' where push: "push_task max_size True task p = (e, p')" by fastforce
  with assms(2) have "e = None" by (auto simp: push_room_def push_task_def split: if_splits)
  then have h: "pool_holds p' (queue_of p @ [Stored task])"
    using push_task_holds [OF _ _ push] assms by (simp add: wq_ok_def push_room_def)
  then show "wq_ok (snd (push_task max_size True task p))"
    "tasks_of (snd (push_task max_size True task p)) = tasks_of p @ [task]"
    using push push_task_records [OF push] by (simp_all add: wq_ok_holds tasks_of_def queue_of_holds)
qed

lemma next_task_queue:
  assumes "wq_ok p"
  shows "wq_ok (snd (next_task p)) \<and> (case tasks_of p of [] \<Rightarrow> next_task p = (None, p)
    | x # q \<Rightarrow> fst (next_task p) = Some x \<and> tasks_of (snd (next_task p)) = q)"
proof (cases "queue_of p")
  case Nil
  with assms pool_holds_empty [of p "[]"] show ?thesis by (simp add: wq_ok_def next_task_def tasks_of_def)
next
  case (Cons x q)
  with assms have h: "pool_holds p (x # q)" by (simp add: wq_ok_def)
  obtain p' where p': "pop_task p = (Some (entry_task (wp_records p) x), p')" "pool_holds p' q"
    "map (entry_task (wp_records p')) q = map (entry_task (wp_records p)) q"
    using h by (rule pop_task_holds)
  with h pool_holds_empty [OF h] Cons show ?thesis
    by (simp add: next_task_def tasks_of_def queue_of_holds wq_ok_holds)
qed

interpretation work: fifo_queue wq_ok tasks_of "\<lambda>_. push_room max_size"
    "\<lambda>task p. snd (push_task max_size True task p)" next_task for max_size
proof unfold_locales
  fix p :: "'c pool" and x q
  assume "wq_ok p"
  with next_task_queue [OF this] show "wq_ok (snd (next_task p))"
    and "tasks_of p = [] \<Longrightarrow> next_task p = (None, p)"
    and "tasks_of p = x # q \<Longrightarrow> fst (next_task p) = Some x \<and> tasks_of (snd (next_task p)) = q" by auto
qed (simp_all add: push_task_queue)

end
