(* ===== verification/Worker_Pool_Run.thy ===== *)
theory Worker_Pool_Run
  imports Worker_Pool
begin

text \<open>
  The worker pool as a transition system: the steps of the workers, of the owner, of the callers and of
  the notifications, in any order, and the invariant that every one of them keeps.
\<close>

section \<open>Steps\<close>

text \<open>A caller may use the pool from its construction to its end; there is room for the task.\<close>

definition usable :: "'c pool \<Rightarrow> bool" where
  "usable p \<longleftrightarrow> wp_phase p \<in> {Ready, Closing, Joining}"

inductive caller_step :: "nat \<Rightarrow> 'c pool \<Rightarrow> 'c pool \<Rightarrow> bool" for max_size where
  call_detached: "usable p \<Longrightarrow> wp_pending p < size_max \<Longrightarrow>
    caller_step max_size p (snd (enqueue_detached max_size memory work p))"
| call_borrowed: "usable p \<Longrightarrow> wp_pending p < size_max \<Longrightarrow>
    caller_step max_size p (snd (enqueue_borrowed max_size memory ctx index call p))"
| call_record: "usable p \<Longrightarrow> wp_pending p < size_max \<Longrightarrow>
    caller_step max_size p (snd (enqueue_record r p))"
| call_wait: "usable p \<Longrightarrow> caller_step max_size p (p\<lparr>wp_waiters := wp_waiters p @ [Wait_Checking]\<rparr>)"
| check_wait: "k < length (wp_waiters p) \<Longrightarrow> wp_waiters p ! k = Wait_Checking \<Longrightarrow>
    caller_step max_size p (check_idle k p)"

text \<open>\<open>notify_one\<close> wakes one of the sleepers, if there is one; a sleeper may also wake on its own.\<close>

inductive wake_step :: "'c pool \<Rightarrow> 'c pool \<Rightarrow> bool" where
  notify_sleeper: "0 < wp_notices p \<Longrightarrow> i < length (wp_workers p) \<Longrightarrow> wp_workers p ! i = Asleep \<Longrightarrow>
    wake_step p (set_worker i Checking (p\<lparr>wp_notices := wp_notices p - 1\<rparr>))"
| notify_nobody: "0 < wp_notices p \<Longrightarrow> Asleep \<notin> set (wp_workers p) \<Longrightarrow>
    wake_step p (p\<lparr>wp_notices := wp_notices p - 1\<rparr>)"
| spurious_worker: "i < length (wp_workers p) \<Longrightarrow> wp_workers p ! i = Asleep \<Longrightarrow>
    wake_step p (set_worker i Checking p)"
| spurious_waiter: "k < length (wp_waiters p) \<Longrightarrow> wp_waiters p ! k = Wait_Asleep \<Longrightarrow>
    wake_step p (p\<lparr>wp_waiters := (wp_waiters p)[k := Wait_Checking]\<rparr>)"
| spurious_owner: "wake_step p (notify_startup p)"

inductive worker_step :: "nat \<Rightarrow> 'c pool \<Rightarrow> 'c pool \<Rightarrow> bool" where
  worker_acts: "i < length (wp_workers p) \<Longrightarrow> wp_workers p ! i \<notin> {Asleep, Exited} \<Longrightarrow>
    worker_step i p (advance_worker (map_option Raised outcome) i p)"

inductive pool_step :: "nat \<Rightarrow> nat \<Rightarrow> 'c pool \<Rightarrow> 'c pool \<Rightarrow> bool" for max_size worker_count where
  by_worker: "worker_step i p p' \<Longrightarrow> pool_step max_size worker_count p p'"
| by_owner: "pool_step max_size worker_count p (owner_step worker_count created p)"
| by_caller: "caller_step max_size p p' \<Longrightarrow> pool_step max_size worker_count p p'"
| by_wake: "wake_step p p' \<Longrightarrow> pool_step max_size worker_count p p'"

text \<open>The records of a pool start out unqueued. The number of workers is positive.\<close>

inductive pool_run :: "nat \<Rightarrow> nat \<Rightarrow> 'c pool \<Rightarrow> bool" for max_size worker_count where
  pool_new: "0 < worker_count \<Longrightarrow> (\<And>r. \<not> bt_queued (records r)) \<Longrightarrow>
    pool_run max_size worker_count (new_pool queued_capacity worker_count records)"
| pool_next: "pool_run max_size worker_count p \<Longrightarrow> pool_step max_size worker_count p p' \<Longrightarrow>
    pool_run max_size worker_count p'"

section \<open>Invariant\<close>

definition num :: "('a \<Rightarrow> bool) \<Rightarrow> 'a list \<Rightarrow> nat" where
  "num P ws = length (filter P ws)"

lemma num_simps [simp]: "num P [] = 0" "num P (w # ws) = (if P w then Suc (num P ws) else num P ws)"
  "num P (ws @ vs) = num P ws + num P vs"
  by (simp_all add: num_def)

lemma num_pos: "i < length ws \<Longrightarrow> P (ws ! i) \<Longrightarrow> 0 < num P ws"
  by (auto simp: num_def filter_empty_conv)

lemma num_update:
  "i < length ws \<Longrightarrow>
   num P (ws[i := w]) = (num P ws - (if P (ws ! i) then 1 else 0)) + (if P w then 1 else 0)"
proof (induction ws arbitrary: i)
  case (Cons v ws)
  then show ?case using num_pos [of "i - 1" ws P] by (cases i) auto
qed simp

lemma num_0_iff: "num P ws = 0 \<longleftrightarrow> (\<forall>w \<in> set ws. \<not> P w)"
  by (simp add: num_def filter_empty_conv)

lemma num_le: "num P ws \<le> length ws"
  by (simp add: num_def)

lemma num_full: "num P ws = length ws \<longleftrightarrow> (\<forall>w \<in> set ws. P w)"
  unfolding num_def by (metis filter_True length_filter_less nat_neq_iff)

fun busy :: "'c worker \<Rightarrow> bool" where
  "busy (Running t) = True"
| "busy Finishing = True"
| "busy w = False"

abbreviation num_of :: "'c worker \<Rightarrow> 'c pool \<Rightarrow> nat" where
  "num_of w p \<equiv> num (\<lambda>v. v = w) (wp_workers p)"

abbreviation num_busy :: "'c pool \<Rightarrow> nat" where
  "num_busy p \<equiv> num busy (wp_workers p)"

text \<open>\<open>m\<close> is the length of the queue.\<close>

definition startup_ok :: "nat \<Rightarrow> 'c pool \<Rightarrow> bool" where
  "startup_ok n p \<longleftrightarrow>
     wp_started p + num_of Starting p = length (wp_workers p) \<and> 0 < n \<and>
     (wp_phase p \<in> {Startup_Checking, Startup_Asleep, Ready} \<longrightarrow> length (wp_workers p) = n) \<and>
     (wp_phase p \<in> {Spawning, Startup_Checking, Startup_Asleep} \<longrightarrow> wp_accepted p = []) \<and>
     (wp_phase p = Ready \<longrightarrow> wp_started p = n) \<and>
     (wp_accepted p \<noteq> [] \<longrightarrow> wp_workers p \<noteq> [] \<and> num_of Starting p = 0) \<and>
     (wp_phase p = Startup_Asleep \<longrightarrow> wp_error p = None \<and> (wp_started p \<noteq> n \<or> 0 < num_of Started p))"

definition closing_ok :: "nat \<Rightarrow> 'c pool \<Rightarrow> bool" where
  "closing_ok m p \<longleftrightarrow>
     (wp_error p \<noteq> None \<longrightarrow> wp_shutdown p) \<and> wp_error p \<noteq> Some accounting_underflow \<and>
     (wp_phase p \<in> {Closing, Joining, Gone} \<longrightarrow> wp_shutdown p) \<and>
     (0 < num_of Exited p \<longrightarrow> wp_shutdown p \<and> m = 0) \<and>
     (wp_phase p = Gone \<longrightarrow> num_of Exited p = length (wp_workers p))"

definition sleep_ok :: "nat \<Rightarrow> 'c pool \<Rightarrow> bool" where
  "sleep_ok m p \<longleftrightarrow>
     (0 < num_of Asleep p \<longrightarrow> m \<le> wp_notices p + num_of Checking p \<and> (wp_shutdown p \<longrightarrow> wp_phase p = Closing)) \<and>
     (wp_pending p = 0 \<or> wp_error p \<noteq> None \<longrightarrow> Wait_Asleep \<notin> set (wp_waiters p))"

definition control_ok :: "nat \<Rightarrow> nat \<Rightarrow> 'c pool \<Rightarrow> bool" where
  "control_ok n m p \<longleftrightarrow> wp_pending p = m + num_busy p \<and> wp_pending p \<le> size_max \<and>
     startup_ok n p \<and> closing_ok m p \<and> sleep_ok m p"

definition pool_ok :: "nat \<Rightarrow> 'c entry list \<Rightarrow> 'c pool \<Rightarrow> bool" where
  "pool_ok n q p \<longleftrightarrow> pool_holds p q \<and>
     wp_accepted p = wp_taken p @ map (entry_task (wp_records p)) q \<and> control_ok n (length q) p"

lemma control_ok_part: "control_part p = control_part p' \<Longrightarrow> control_ok n m p = control_ok n m p'"
  by (simp add: control_part_def control_ok_def startup_ok_def closing_ok_def sleep_ok_def)

lemma new_pool_ok: "0 < n \<Longrightarrow> (\<And>r. \<not> bt_queued (records r)) \<Longrightarrow> pool_ok n [] (new_pool c n records)"
  using new_pool_holds [of records c n]
  by (simp add: pool_ok_def control_ok_def startup_ok_def closing_ok_def sleep_ok_def new_pool_def)

text \<open>Steps that leave the queue and its history alone.\<close>

lemma pool_ok_control:
  assumes "pool_ok n q p" "queue_part p' = queue_part p" "wp_accepted p' = wp_accepted p"
    "wp_taken p' = wp_taken p" "control_ok n (length q) p \<Longrightarrow> control_ok n (length q) p'"
  shows "pool_ok n q p'"
proof -
  have "wp_records p' = wp_records p" using assms(2) by (simp add: queue_part_def)
  with assms pool_holds_part [of p' p q] show ?thesis by (simp add: pool_ok_def)
qed

lemma num_wake: "num P (map wake_worker ws) = num P ws" if "P Asleep = P Checking"
  using that by (induction ws) (auto simp: wake_worker_def split: worker.splits)

lemma num_wake_Asleep [simp]: "num (\<lambda>v. v = Asleep) (map wake_worker ws) = 0"
  by (auto simp: num_0_iff wake_worker_def split: worker.splits)

lemma wake_waiter_awake [simp]: "Wait_Asleep \<notin> set (map wake_waiter ws)"
  by (auto simp: wake_waiter_def split: waiter.splits)

lemma wake_waiter_no_sleep [simp]: "Wait_Asleep \<notin> wake_waiter ` A"
  by (auto simp: wake_waiter_def split: waiter.splits)

section \<open>Workers keep the invariant\<close>

lemmas control_defs = control_ok_def startup_ok_def closing_ok_def sleep_ok_def

lemma set_worker_fields [simp]:
  "wp_workers (set_worker i w p) = (wp_workers p)[i := w]" "queue_part (set_worker i w p) = queue_part p"
  "wp_accepted (set_worker i w p) = wp_accepted p" "wp_taken (set_worker i w p) = wp_taken p"
  "wp_pending (set_worker i w p) = wp_pending p" "wp_started (set_worker i w p) = wp_started p"
  "wp_shutdown (set_worker i w p) = wp_shutdown p" "wp_error (set_worker i w p) = wp_error p"
  "wp_waiters (set_worker i w p) = wp_waiters p" "wp_phase (set_worker i w p) = wp_phase p"
  "wp_notices (set_worker i w p) = wp_notices p" "wp_records (set_worker i w p) = wp_records p"
  by (simp_all add: set_worker_def queue_part_def)

lemma queue_part_update [simp]:
  "queue_part (p\<lparr>wp_started := a\<rparr>) = queue_part p" "queue_part (p\<lparr>wp_pending := a\<rparr>) = queue_part p"
  "queue_part (p\<lparr>wp_phase := f\<rparr>) = queue_part p" "queue_part (p\<lparr>wp_waiters := ws\<rparr>) = queue_part p"
  "queue_part (p\<lparr>wp_notices := a\<rparr>) = queue_part p" "queue_part (p\<lparr>wp_shutdown := b\<rparr>) = queue_part p"
  "queue_part (p\<lparr>wp_taken := ts\<rparr>) = queue_part p" "queue_part (p\<lparr>wp_accepted := ts\<rparr>) = queue_part p"
  "queue_part (p\<lparr>wp_workers := vs\<rparr>) = queue_part p"
  by (simp_all add: queue_part_def)

lemma notify_fields [simp]:
  "queue_part (notify_all p) = queue_part p" "wp_accepted (notify_all p) = wp_accepted p"
  "wp_taken (notify_all p) = wp_taken p" "wp_workers (notify_all p) = map wake_worker (wp_workers p)"
  "wp_pending (notify_all p) = wp_pending p" "wp_started (notify_all p) = wp_started p"
  "wp_shutdown (notify_all p) = wp_shutdown p" "wp_error (notify_all p) = wp_error p"
  "wp_waiters (notify_all p) = map wake_waiter (wp_waiters p)"
  "wp_phase (notify_all p) = (if wp_phase p = Startup_Asleep then Startup_Checking else wp_phase p)"
  "wp_notices (notify_all p) = wp_notices p" "wp_records (notify_all p) = wp_records p"
  by (simp_all add: notify_all_def notify_startup_def notify_idle_def notify_work_def queue_part_def)

lemma fail_pool_fields [simp]:
  "queue_part (fail_pool e p) = queue_part p" "wp_accepted (fail_pool e p) = wp_accepted p"
  "wp_taken (fail_pool e p) = wp_taken p" "wp_workers (fail_pool e p) = map wake_worker (wp_workers p)"
  "wp_pending (fail_pool e p) = wp_pending p" "wp_started (fail_pool e p) = wp_started p"
  "wp_shutdown (fail_pool e p)" "wp_waiters (fail_pool e p) = map wake_waiter (wp_waiters p)"
  "wp_error (fail_pool e p) = (if wp_error p = None then Some e else wp_error p)"
  "wp_phase (fail_pool e p) = (if wp_phase p = Startup_Asleep then Startup_Checking else wp_phase p)"
  "wp_notices (fail_pool e p) = wp_notices p"
  by (simp_all add: fail_pool_def split: option.splits) (simp_all add: queue_part_def)

text \<open>How many workers are where, after one of them moved or all were woken.\<close>

lemma num_busy_pos: "i < length (wp_workers p) \<Longrightarrow> busy (wp_workers p ! i) \<Longrightarrow> 0 < num_busy p"
  by (rule num_pos)

lemma fail_pool_ok:
  assumes "control_ok n m p" "e \<noteq> accounting_underflow"
  shows "control_ok n m (fail_pool e p)"
proof -
  have "startup_ok n (fail_pool e p)"
    using assms(1) by (cases "wp_phase p") (simp_all add: control_ok_def startup_ok_def num_wake)
  moreover have "closing_ok m (fail_pool e p)"
    using assms by (cases "wp_phase p"; cases "wp_error p") (simp_all add: control_ok_def closing_ok_def num_wake)
  moreover have "sleep_ok m (fail_pool e p)" by (simp add: sleep_ok_def)
  ultimately show ?thesis using assms(1) by (simp add: control_ok_def num_wake)
qed


lemma not_gone:
  assumes "control_ok n m p" "i < length (wp_workers p)" "wp_workers p ! i \<noteq> Exited"
  shows "wp_phase p \<noteq> Gone"
proof
  assume "wp_phase p = Gone"
  with assms(1) have "num_of Exited p = length (wp_workers p)" by (simp add: control_ok_def closing_ok_def)
  then have "\<forall>w \<in> set (wp_workers p). w = Exited" by (simp only: num_full)
  with assms(2,3) show False by (metis nth_mem)
qed

lemma starting_idle:
  assumes "pool_ok n q p" "0 < num_of Starting p"
  shows "q = []"
proof -
  have "wp_accepted p = []" using assms unfolding pool_ok_def control_ok_def startup_ok_def by (metis less_numeral_extra(3))
  with assms(1) show ?thesis by (simp add: pool_ok_def)
qed

lemma start_worker_ok:
  assumes "pool_ok n q p" "i < length (wp_workers p)" "wp_workers p ! i = Starting"
  shows "pool_ok n q (start_worker (map_option Raised outcome) i p)"
proof (rule pool_ok_control [OF assms(1)])
  have s: "0 < num_of Starting p" using assms(2,3) by (intro num_pos) simp_all
  assume c: "control_ok n (length q) p"
  have q: "q = []" using assms(1) s by (rule starting_idle)
  let ?p = "p\<lparr>wp_started := Suc (wp_started p)\<rparr>"
  show "control_ok n (length q) (start_worker (map_option Raised outcome) i p)"
  proof (cases outcome)
    case None
    let ?t = "set_worker i Started ?p"
    have "startup_ok n ?t" using c s assms(2,3)
      by (cases "wp_phase p") (simp_all add: control_ok_def startup_ok_def num_update)
    moreover have "closing_ok (length q) ?t" using c assms(2,3)
      by (simp add: control_ok_def closing_ok_def num_update)
    moreover have "sleep_ok (length q) ?t" using c assms(2,3)
      by (simp add: control_ok_def sleep_ok_def num_update)
    ultimately show ?thesis using c None assms(2,3) by (simp add: start_worker_def control_ok_def num_update)
  next
    case (Some e)
    let ?t = "set_worker i Exited (fail_pool (Raised e) ?p)"
    have "wp_phase p \<noteq> Gone" using not_gone [OF c assms(2)] assms(3) by simp
    then have "closing_ok (length q) ?t" using c s q assms(2,3)
      by (cases "wp_phase p") (simp_all add: control_ok_def closing_ok_def accounting_underflow_def)
    moreover have "startup_ok n ?t" using c s assms(2,3)
      by (cases "wp_phase p") (simp_all add: control_ok_def startup_ok_def num_update num_wake wake_worker_def)
    moreover have "num_of Asleep ?t = 0" using assms(2) by (simp add: num_update)
    then have "sleep_ok (length q) ?t" using q by (simp add: sleep_ok_def)
    ultimately show ?thesis using c Some assms(2,3)
      by (simp add: start_worker_def control_ok_def num_update num_wake wake_worker_def)
  qed
qed (simp_all add: start_worker_def split: option.splits)

lemma announce_ok:
  assumes "pool_ok n q p" "i < length (wp_workers p)" "wp_workers p ! i = Started"
  shows "pool_ok n q (set_worker i Checking (notify_startup p))"
proof (rule pool_ok_control [OF assms(1)])
  let ?t = "set_worker i Checking (notify_startup p)"
  assume c: "control_ok n (length q) p"
  then have "startup_ok n ?t" using assms(2,3)
    by (cases "wp_phase p = Startup_Asleep") (simp_all add: notify_startup_def control_ok_def startup_ok_def num_update)
  moreover have "closing_ok (length q) ?t" using c assms(2,3) not_gone [OF c assms(2)]
    by (cases "wp_phase p = Startup_Asleep") (simp_all add: notify_startup_def control_ok_def closing_ok_def num_update)
  moreover have "sleep_ok (length q) ?t" using c assms(2,3)
    by (cases "wp_phase p = Startup_Asleep"; cases "num_of Asleep p")
      (simp_all add: notify_startup_def control_ok_def sleep_ok_def num_update)
  ultimately show "control_ok n (length q) ?t"
    using c assms(2,3) by (simp add: notify_startup_def control_ok_def num_update)
qed (simp_all add: notify_startup_def)

text \<open>A worker that moves between states that no condition but the number of busy workers concerns.\<close>

lemma set_busy_ok:
  assumes "control_ok n m p" "i < length (wp_workers p)" "wp_workers p ! i = Running t"
  shows "control_ok n m (set_worker i Finishing p)"
proof -
  have "startup_ok n (set_worker i Finishing p)" using assms
    by (cases "wp_phase p") (simp_all add: control_ok_def startup_ok_def num_update)
  moreover have "closing_ok m (set_worker i Finishing p)" using assms not_gone [OF assms(1,2)]
    by (cases "wp_phase p") (simp_all add: control_ok_def closing_ok_def num_update)
  moreover have "sleep_ok m (set_worker i Finishing p)" using assms
    by (simp add: control_ok_def sleep_ok_def num_update)
  ultimately show ?thesis
    using assms num_busy_pos [of i p] by (simp add: control_ok_def num_update)
qed

lemma run_task_ok:
  assumes "pool_ok n q p" "i < length (wp_workers p)" "wp_workers p ! i = Running t"
  shows "pool_ok n q (run_task (map_option Raised outcome) i p)"
proof (rule pool_ok_control [OF assms(1)])
  assume c: "control_ok n (length q) p"
  show "control_ok n (length q) (run_task (map_option Raised outcome) i p)"
  proof (cases outcome)
    case None
    with set_busy_ok [OF c assms(2,3)] show ?thesis by (simp add: run_task_def)
  next
    case (Some e)
    have "control_ok n (length q) (fail_pool (Raised e) p)"
      using c by (rule fail_pool_ok) (simp add: accounting_underflow_def)
    with set_busy_ok [of n "length q" "fail_pool (Raised e) p" i t] Some assms(2,3) show ?thesis
      by (simp add: run_task_def wake_worker_def)
  qed
qed (simp_all add: run_task_def split: option.splits)

lemma finish_task_ok:
  assumes "pool_ok n q p" "i < length (wp_workers p)" "wp_workers p ! i = Finishing"
  shows "pool_ok n q (finish_task i p)"
proof (rule pool_ok_control [OF assms(1)])
  have "0 < num_busy p" using assms(2) by (rule num_busy_pos) (simp add: assms(3))
  then obtain k where b: "num_busy p = Suc k" using gr0_implies_Suc by blast
  let ?p = "p\<lparr>wp_pending := wp_pending p - 1\<rparr>"
  let ?t = "set_worker i Checking (if wp_pending p - 1 = 0 then notify_idle ?p else ?p)"
  assume c: "control_ok n (length q) p"
  with b have "0 < wp_pending p" by (simp add: control_ok_def)
  then have t: "finish_task i p = ?t" by (simp add: finish_task_def)
  have "startup_ok n ?t" using c assms(2,3)
    by (cases "wp_phase p") (simp_all add: notify_idle_def control_ok_def startup_ok_def num_update)
  moreover have "closing_ok (length q) ?t" using c assms(2,3) not_gone [OF c assms(2)]
    by (cases "wp_phase p") (simp_all add: notify_idle_def control_ok_def closing_ok_def num_update)
  moreover have "sleep_ok (length q) ?t" using c assms(2,3)
    by (cases "num_of Asleep p") (simp_all add: notify_idle_def control_ok_def sleep_ok_def num_update)
  ultimately show "control_ok n (length q) (finish_task i p)"
    unfolding t using b c assms(2,3)
    by (cases "wp_pending p - 1 = 0") (simp_all add: notify_idle_def control_ok_def num_update)
qed (simp_all add: finish_task_def Let_def notify_idle_def)
text \<open>A worker that looks for work goes to sleep, leaves, or takes the first task of the queue.\<close>

lemma running_ok:
  assumes "control_ok n (Suc m) p" "i < length (wp_workers p)" "wp_workers p ! i = Checking"
  shows "control_ok n m (set_worker i (Running t) (p\<lparr>wp_taken := ts\<rparr>))"
proof -
  let ?t = "set_worker i (Running t) (p\<lparr>wp_taken := ts\<rparr>)"
  have "0 < num_of Checking p" using assms(2,3) by (intro num_pos) simp_all
  then obtain k where s: "num_of Checking p = Suc k" using gr0_implies_Suc by blast
  have "startup_ok n ?t" using assms
    by (cases "wp_phase p") (simp_all add: control_ok_def startup_ok_def num_update)
  moreover have "closing_ok m ?t" using assms not_gone [OF assms(1,2)]
    by (cases "wp_phase p") (simp_all add: control_ok_def closing_ok_def num_update)
  moreover have "sleep_ok m ?t" using assms s
    by (cases "num_of Asleep p") (simp_all add: control_ok_def sleep_ok_def num_update)
  ultimately show ?thesis using assms by (simp add: control_ok_def num_update)
qed

lemma take_task_ok:
  assumes "pool_ok n q p" "i < length (wp_workers p)" "wp_workers p ! i = Checking" "q \<noteq> []"
  shows "\<exists>x q'. q = x # q' \<and> pool_ok n q' (check_work i p) \<and>
    check_work i p = set_worker i (Running (entry_task (wp_records p) x)) ((snd (pop_task p))
      \<lparr>wp_taken := wp_taken p @ [entry_task (wp_records p) x]\<rparr>)"
proof -
  obtain x q' where q: "q = x # q'" using assms(4) by (cases q) auto
  have holds: "pool_holds p (x # q')" using assms(1) q by (simp add: pool_ok_def)
  obtain p' where p': "pop_task p = (Some (entry_task (wp_records p) x), p')" "pool_holds p' q'"
    "map (entry_task (wp_records p')) q' = map (entry_task (wp_records p)) q'"
    using holds by (rule pop_task_holds)
  have part: "control_part p' = control_part p" using p'(1) by (rule pop_task_control)
  let ?t = "set_worker i (Running (entry_task (wp_records p) x)) (p'\<lparr>wp_taken := wp_taken p @ [entry_task (wp_records p) x]\<rparr>)"
  have check: "check_work i p = ?t"
    using pool_holds_empty [OF holds] p'(1) part by (simp add: check_work_def control_part_def)
  have "control_ok n (length q) p'"
    using assms(1) control_ok_part [OF part] by (simp add: pool_ok_def)
  then have "control_ok n (length q') ?t"
    using assms(2,3) q part by (intro running_ok) (simp_all add: control_part_def)
  moreover have "queue_part ?t = queue_part p'" by simp
  then have "pool_holds ?t q'" using pool_holds_part p'(2) by blast
  moreover have "wp_accepted ?t = wp_taken ?t @ map (entry_task (wp_records ?t)) q'"
    using assms(1) q part p'(3) by (simp add: pool_ok_def control_part_def)
  ultimately show ?thesis using q check p'(1) by (auto simp: pool_ok_def)
qed

lemma no_task_ok:
  assumes "pool_ok n [] p" "i < length (wp_workers p)" "wp_workers p ! i = Checking"
  shows "pool_ok n [] (check_work i p)"
proof (rule pool_ok_control [OF assms(1)])
  have e: "queue_empty p" using assms(1) pool_holds_empty [of p "[]"] by (simp add: pool_ok_def)
  then show "queue_part (check_work i p) = queue_part p" "wp_accepted (check_work i p) = wp_accepted p"
    "wp_taken (check_work i p) = wp_taken p" by (simp_all add: check_work_def)
  assume c: "control_ok n (length []) p"
  let ?t = "set_worker i (if wp_shutdown p then Exited else Asleep) p"
  have t: "check_work i p = ?t" using e by (simp add: check_work_def)
  have g: "wp_phase p \<noteq> Gone" using not_gone [OF c assms(2)] assms(3) by simp
  have "startup_ok n ?t" using c assms(2,3)
    by (cases "wp_phase p") (simp_all add: control_ok_def startup_ok_def num_update)
  moreover have "closing_ok 0 ?t" using c g assms(2,3)
    by (cases "wp_phase p") (simp_all add: control_ok_def closing_ok_def num_update)
  moreover have "sleep_ok 0 ?t" using c assms(2,3)
    by (cases "wp_shutdown p") (simp_all add: control_ok_def sleep_ok_def num_update)
  ultimately show "control_ok n (length []) (check_work i p)"
    unfolding t using c assms(2,3) by (simp add: control_ok_def num_update)
qed

lemma advance_worker_ok:
  assumes "pool_ok n q p" "i < length (wp_workers p)"
  shows "\<exists>q'. pool_ok n q' (advance_worker (map_option Raised outcome) i p)"
proof (cases "wp_workers p ! i")
  case Checking
  then show ?thesis
    using assms take_task_ok [OF assms Checking] no_task_ok [of n p i]
    by (cases "q = []") (auto simp: advance_worker_def)
qed (use assms start_worker_ok announce_ok run_task_ok finish_task_ok in \<open>fastforce simp: advance_worker_def\<close>)+

section \<open>Callers, the owner and notifications keep the invariant\<close>

lemma admit_task_ok:
  assumes "control_ok n m p" "wp_phase p = Ready" "\<not> wp_shutdown p" "wp_error p = None" "wp_pending p < size_max"
  shows "control_ok n (Suc m) (admit_task task p)"
proof -
  have e: "num_of Exited p = 0" using assms(1,3) by (simp add: control_ok_def closing_ok_def)
  have "startup_ok n (admit_task task p)"
    using assms(1,2) by (simp add: admit_task_def control_ok_def startup_ok_def) (metis length_greater_0_conv)
  moreover have "closing_ok (Suc m) (admit_task task p)"
    using assms(1-4) e by (simp add: admit_task_def control_ok_def closing_ok_def)
  moreover have "sleep_ok (Suc m) (admit_task task p)"
    using assms by (cases "num_of Asleep p") (simp_all add: admit_task_def control_ok_def sleep_ok_def)
  ultimately show ?thesis using assms(1,5) by (simp add: admit_task_def control_ok_def)
qed

lemma usable_open: "control_ok n m p \<Longrightarrow> usable p \<Longrightarrow> \<not> wp_shutdown p \<Longrightarrow> wp_phase p = Ready \<and> wp_error p = None"
  by (auto simp: usable_def control_ok_def closing_ok_def)

lemma queued_room: "pool_ok n q p \<Longrightarrow> wp_pending p < size_max \<Longrightarrow> length q < size_max"
  by (simp add: pool_ok_def control_ok_def)

lemma push_and_admit_ok:
  assumes "pool_ok n q p" "usable p" "\<not> wp_shutdown p" "wp_pending p < size_max"
  shows "\<exists>q'. pool_ok n q' (snd (push_and_admit max_size memory task p))"
proof -
  obtain e p' where push: "push_task max_size memory task p = (e, p')" by fastforce
  have holds: "pool_holds p q" using assms(1) by (simp add: pool_ok_def)
  have part: "control_part p' = control_part p" using push by (rule push_task_control)
  show ?thesis
  proof (cases e)
    case None
    let ?t = "admit_task task p'"
    have h: "pool_holds p' (q @ [Stored task])"
      using push_task_holds [OF holds queued_room [OF assms(1,4)] push] None by simp
    have same: "wp_records p' = wp_records p" using push by (rule push_task_records)
    have "pool_holds ?t (q @ [Stored task])" using h pool_holds_part [of ?t p'] by (simp add: admit_task_def)
    moreover have "control_ok n (Suc (length q)) ?t"
      using assms part usable_open [of n "length q" p] control_ok_part [OF part]
      by (intro admit_task_ok) (simp_all add: pool_ok_def control_part_def)
    moreover have "wp_accepted ?t = wp_taken ?t @ map (entry_task (wp_records ?t)) (q @ [Stored task])"
      using assms(1) part same by (simp add: pool_ok_def control_part_def admit_task_def)
    ultimately have "pool_ok n (q @ [Stored task]) ?t" by (simp add: pool_ok_def)
    then show ?thesis using push None by (auto simp: push_and_admit_def)
  next
    case (Some x)
    then have "p' = p" using push_task_holds [OF holds queued_room [OF assms(1,4)] push] by simp
    with assms(1) push Some show ?thesis by (auto simp: push_and_admit_def)
  qed
qed

lemma enqueue_record_ok:
  assumes "pool_ok n q p" "usable p" "wp_pending p < size_max"
  shows "\<exists>q'. pool_ok n q' (snd (enqueue_record r p))"
proof (cases "bt_call (wp_records p r) = None \<or> check_borrowed_admission p \<noteq> None \<or> bt_queued (wp_records p r)")
  case True
  with assms(1) show ?thesis by (cases "check_borrowed_admission p") (auto simp: enqueue_record_def)
next
  case False
  let ?l = "link_record r p" and ?t = "admit_task (record_task (wp_records p r)) (link_record r p)"
  have open_: "\<not> wp_shutdown p" "wp_error p = None"
    using False by (simp_all add: check_borrowed_admission_def split: option.splits if_splits)
  have h: "pool_holds ?l (q @ [Linked r])"
    using assms(1) False queued_room [OF assms(1,3)] by (intro link_record_holds) (simp_all add: pool_ok_def)
  have part: "control_part ?l = control_part p" by simp
  have same: "record_task (wp_records ?l x) = record_task (wp_records p x)" for x
    by (auto simp: link_record_def Let_def record_task_def split: option.splits)
  then have tasks: "entry_task (wp_records ?l) x = entry_task (wp_records p) x" for x by (cases x) simp_all
  have "pool_holds ?t (q @ [Linked r])" using h pool_holds_part [of ?t ?l] by (simp add: admit_task_def)
  moreover have "control_ok n (Suc (length q)) ?t"
    using assms part open_ usable_open [of n "length q" p] control_ok_part [OF part, of n "length q"]
    by (intro admit_task_ok) (simp_all add: pool_ok_def control_part_def)
  moreover have "wp_accepted ?t = wp_taken ?t @ map (entry_task (wp_records ?t)) (q @ [Linked r])"
    using assms(1) part tasks by (simp add: pool_ok_def control_part_def admit_task_def cong: map_cong)
  ultimately have "pool_ok n (q @ [Linked r]) ?t" by (simp add: pool_ok_def)
  with False show ?thesis by (auto simp: enqueue_record_def)
qed

lemma waiters_ok:
  assumes "pool_ok n q p"
    "Wait_Asleep \<in> set ws \<Longrightarrow> Wait_Asleep \<in> set (wp_waiters p) \<or> wp_pending p \<noteq> 0 \<and> wp_error p = None"
  shows "pool_ok n q (p\<lparr>wp_waiters := ws\<rparr>)"
proof (rule pool_ok_control [OF assms(1)])
  let ?t = "p\<lparr>wp_waiters := ws\<rparr>"
  have "startup_ok n ?t = startup_ok n p" "closing_ok (length q) ?t = closing_ok (length q) p"
    by (simp_all add: startup_ok_def closing_ok_def)
  moreover have "sleep_ok (length q) ?t" if "sleep_ok (length q) p"
    using that assms(2) by (cases "Wait_Asleep \<in> set ws") (auto simp: sleep_ok_def)
  moreover have "wp_pending ?t = wp_pending p" "num_busy ?t = num_busy p" by simp_all
  moreover assume "control_ok n (length q) p"
  ultimately show "control_ok n (length q) ?t" by (simp add: control_ok_def)
qed simp_all

lemma caller_step_ok:
  assumes "caller_step max_size p p'" "pool_ok n q p"
  shows "\<exists>q'. pool_ok n q' p'"
  using assms(1)
proof cases
  case (call_detached memory work)
  show ?thesis
  proof (cases "wp_shutdown p \<or> wp_error p \<noteq> None")
    case True
    with assms(2) call_detached(1) show ?thesis by (auto simp: enqueue_detached_def split: option.splits)
  next
    case False
    with push_and_admit_ok [OF assms(2) call_detached(2) _ call_detached(3)] call_detached(1)
    show ?thesis by (simp add: enqueue_detached_def)
  qed
next
  case (call_borrowed memory ctx index call)
  show ?thesis
  proof (cases "call = None \<or> check_borrowed_admission p \<noteq> None")
    case True
    with assms(2) call_borrowed(1) show ?thesis
      by (cases "check_borrowed_admission p") (auto simp: enqueue_borrowed_def)
  next
    case False
    then have "\<not> wp_shutdown p" by (auto simp: check_borrowed_admission_def split: option.splits if_splits)
    with push_and_admit_ok [OF assms(2) call_borrowed(2) _ call_borrowed(3)] show ?thesis
      using False call_borrowed(1) by (auto simp: enqueue_borrowed_def)
  qed
next
  case (call_record r)
  with enqueue_record_ok [OF assms(2)] show ?thesis by blast
next
  case call_wait
  have "pool_ok n q p'" unfolding call_wait(1) by (rule waiters_ok [OF assms(2)]) auto
  then show ?thesis ..
next
  case (check_wait k)
  have w: "Wait_Asleep \<in> set ((wp_waiters p)[k := x]) \<Longrightarrow> x = Wait_Asleep \<or> Wait_Asleep \<in> set (wp_waiters p)" for x
    using set_update_subset_insert [of "wp_waiters p" k x] by blast
  have "pool_ok n q p'" unfolding check_wait(1) check_idle_def
    by (rule waiters_ok [OF assms(2)]) (use w in \<open>auto split: if_splits\<close>)
  then show ?thesis ..
qed

lemma waken_ok:
  assumes "control_ok n m p" "i < length (wp_workers p)" "wp_workers p ! i = Asleep"
  shows "control_ok n m (set_worker i Checking p)"
proof -
  have s: "0 < num_of Asleep p" using assms(2,3) by (intro num_pos) simp_all
  have "startup_ok n (set_worker i Checking p)" using assms
    by (cases "wp_phase p") (simp_all add: control_ok_def startup_ok_def num_update)
  moreover have "closing_ok m (set_worker i Checking p)" using assms not_gone [OF assms(1,2)]
    by (cases "wp_phase p") (simp_all add: control_ok_def closing_ok_def num_update)
  moreover have "sleep_ok m (set_worker i Checking p)" using assms s
    by (simp add: control_ok_def sleep_ok_def num_update)
  ultimately show ?thesis using assms by (simp add: control_ok_def num_update)
qed

text \<open>A notification is used up: nobody sleeps, or one of the sleepers is about to look.\<close>

lemma notices_ok:
  assumes "control_ok n m p" "0 < num_of Asleep p \<Longrightarrow> m \<le> k + num_of Checking p"
  shows "control_ok n m (p\<lparr>wp_notices := k\<rparr>)"
proof -
  let ?t = "p\<lparr>wp_notices := k\<rparr>"
  have "startup_ok n ?t = startup_ok n p" "closing_ok m ?t = closing_ok m p"
    by (simp_all add: startup_ok_def closing_ok_def)
  moreover have "sleep_ok m ?t" using assms by (cases "num_of Asleep p") (simp_all add: control_ok_def sleep_ok_def)
  moreover have "wp_pending ?t = wp_pending p" "num_busy ?t = num_busy p" by simp_all
  ultimately show ?thesis using assms(1) by (simp add: control_ok_def)
qed

lemma notify_startup_ok:
  assumes "control_ok n m p"
  shows "control_ok n m (notify_startup p)"
proof (cases "wp_phase p = Startup_Asleep")
  case True
  let ?t = "p\<lparr>wp_phase := Startup_Checking\<rparr>"
  have "startup_ok n ?t" using assms True by (simp add: control_ok_def startup_ok_def)
  moreover have "closing_ok m ?t" using assms True by (simp add: control_ok_def closing_ok_def)
  moreover have "sleep_ok m ?t" using assms True
    by (cases "num_of Asleep p") (simp_all add: control_ok_def sleep_ok_def)
  ultimately show ?thesis using assms True by (simp add: notify_startup_def control_ok_def)
qed (use assms in \<open>simp add: notify_startup_def\<close>)

lemma wake_step_ok:
  assumes "wake_step p p'" "pool_ok n q p"
  shows "pool_ok n q p'"
  using assms(1)
proof cases
  case (notify_sleeper i)
  let ?k = "wp_notices p - 1"
  have p': "p' = (set_worker i Checking p)\<lparr>wp_notices := ?k\<rparr>"
    unfolding notify_sleeper(1) by (simp add: set_worker_def)
  show ?thesis unfolding p'
  proof (rule pool_ok_control [OF assms(2)])
    assume c: "control_ok n (length q) p"
    have "0 < num_of Asleep p" using notify_sleeper(3,4) by (intro num_pos) simp_all
    then have "length q \<le> wp_notices p + num_of Checking p" using c by (simp add: control_ok_def sleep_ok_def)
    then have "length q \<le> ?k + num_of Checking (set_worker i Checking p)"
      using notify_sleeper(2-4) by (simp add: num_update)
    then show "control_ok n (length q) ((set_worker i Checking p)\<lparr>wp_notices := ?k\<rparr>)"
      using waken_ok [OF c notify_sleeper(3,4)] notices_ok by blast
  qed simp_all
next
  case notify_nobody
  then have "num_of Asleep p = 0" by (auto simp: num_0_iff)
  then show ?thesis unfolding notify_nobody(1) by (intro pool_ok_control [OF assms(2)] notices_ok) simp_all
next
  case (spurious_worker i)
  then show ?thesis by (intro pool_ok_control [OF assms(2)]) (simp_all add: waken_ok)
next
  case (spurious_waiter k)
  then have "Wait_Asleep \<in> set (wp_waiters p)" by (metis nth_mem)
  then show ?thesis unfolding spurious_waiter(1) by (intro waiters_ok [OF assms(2)]) simp
next
  case spurious_owner
  then show ?thesis
    by (intro pool_ok_control [OF assms(2)]) (simp_all add: notify_startup_ok, simp_all add: notify_startup_def)
qed

lemma owner_step_ok:
  assumes "pool_ok n q p"
  shows "pool_ok n q (owner_step n created p)"
proof (rule pool_ok_control [OF assms])
  show "queue_part (owner_step n created p) = queue_part p"
    "wp_accepted (owner_step n created p) = wp_accepted p" "wp_taken (owner_step n created p) = wp_taken p"
    by (auto simp: owner_step_def spawn_worker_def check_startup_def close_pool_def split: phase.splits)
  assume c: "control_ok n (length q) p"
  show "control_ok n (length q) (owner_step n created p)"
  proof (cases "wp_phase p")
    case Spawning
    with c show ?thesis
      by (simp add: owner_step_def spawn_worker_def close_pool_def control_ok_def startup_ok_def closing_ok_def sleep_ok_def)
  next
    case Startup_Checking
    with c show ?thesis
      by (simp add: owner_step_def check_startup_def close_pool_def control_ok_def startup_ok_def closing_ok_def sleep_ok_def)
  next
    case Closing
    with c show ?thesis
      by (simp add: owner_step_def control_ok_def startup_ok_def closing_ok_def sleep_ok_def num_wake)
  next
    case Joining
    then have "num_of Asleep p = 0" using c unfolding control_ok_def closing_ok_def sleep_ok_def by fastforce
    with c Joining show ?thesis using num_full [of "\<lambda>v. v = Exited" "wp_workers p"]
      by (simp add: owner_step_def list_all_iff control_ok_def startup_ok_def closing_ok_def sleep_ok_def)
  next
    case Ready
    with c show ?thesis
      by (simp add: owner_step_def close_pool_def control_ok_def startup_ok_def closing_ok_def sleep_ok_def)
  qed (use c in \<open>simp_all add: owner_step_def\<close>)
qed

theorem pool_run_ok: "pool_run max_size n p \<Longrightarrow> \<exists>q. pool_ok n q p"
proof (induction rule: pool_run.induct)
  case (pool_new records c)
  then show ?case using new_pool_ok by blast
next
  case (pool_next p p')
  then obtain q where q: "pool_ok n q p" by blast
  from pool_next.hyps(2) show ?case
  proof cases
    case (by_worker i)
    then show ?thesis using advance_worker_ok [OF q] by (auto elim!: worker_step.cases)
  next
    case (by_owner created)
    then show ?thesis using owner_step_ok [OF q] by blast
  next
    case by_caller
    then show ?thesis using caller_step_ok q by blast
  next
    case by_wake
    then show ?thesis using wake_step_ok q by blast
  qed
qed

end
