(* ===== verification/Worker_Pool_Safety.thy ===== *)
theory Worker_Pool_Safety
  imports Worker_Pool_Run
begin

text \<open>
  What the worker pool guarantees under every schedule of its workers, its owner and its callers: tasks
  are taken in the order of their admission, each is accounted for exactly once, no notification is
  missed, and closing the pool runs every task that was admitted.
\<close>

section \<open>Schedules\<close>

text \<open>A schedule as a list of actions, to run the pool on. An action that is not possible yields \<open>None\<close>.\<close>

datatype action = Act_Worker nat "nat option" | Act_Owner bool | Act_Detached nat | Act_Record nat | Act_Wait
  | Act_Look nat | Act_Notify nat

fun perform :: "nat \<Rightarrow> action \<Rightarrow> nat pool \<Rightarrow> nat pool option" where
  "perform n (Act_Worker i outcome) p =
     (if i < length (wp_workers p) \<and> wp_workers p ! i \<noteq> Asleep \<and> wp_workers p ! i \<noteq> Exited
      then Some (advance_worker (map_option Raised outcome) i p) else None)"
| "perform n (Act_Owner created) p = Some (owner_step n created p)"
| "perform n (Act_Detached work) p =
     (if usable p \<and> wp_pending p < size_max then Some (snd (enqueue_detached size_max True (Some work) p)) else None)"
| "perform n (Act_Record r) p =
     (if usable p \<and> wp_pending p < size_max then Some (snd (enqueue_record r p)) else None)"
| "perform n Act_Wait p = (if usable p then Some (p\<lparr>wp_waiters := wp_waiters p @ [Wait_Checking]\<rparr>) else None)"
| "perform n (Act_Look k) p =
     (if k < length (wp_waiters p) \<and> wp_waiters p ! k = Wait_Checking then Some (check_idle k p) else None)"
| "perform n (Act_Notify i) p =
     (if 0 < wp_notices p \<and> i < length (wp_workers p) \<and> wp_workers p ! i = Asleep
      then Some (set_worker i Checking (p\<lparr>wp_notices := wp_notices p - 1\<rparr>)) else None)"

fun perform_all :: "nat \<Rightarrow> action list \<Rightarrow> nat pool \<Rightarrow> nat pool option" where
  "perform_all n [] p = Some p"
| "perform_all n (a # as) p = (case perform n a p of None \<Rightarrow> None | Some p' \<Rightarrow> perform_all n as p')"

lemma perform_step:
  assumes "perform n a p = Some p'"
  shows "pool_step size_max n p p'"
proof -
  have "(\<exists>i. worker_step i p p') \<or> (\<exists>created. p' = owner_step n created p) \<or> caller_step size_max p p' \<or> wake_step p p'"
    using assms
    by (cases a) (auto split: if_splits intro: worker_step.intros caller_step.intros wake_step.intros
        notify_sleeper [unfolded One_nat_def])
  then show ?thesis by (auto intro: pool_step.intros)
qed

lemma perform_all_run: "pool_run size_max n p \<Longrightarrow> perform_all n as p = Some p' \<Longrightarrow> pool_run size_max n p'"
  by (induction as arbitrary: p) (auto split: option.splits dest: perform_step intro: pool_next)

section \<open>Guarantees\<close>

text \<open>C15: Under every schedule the tasks are taken in exactly the order in which they were admitted,
  whichever of the two forms each has, also when the ordinals wrap. The count of pending tasks is the
  number of those that wait plus the number of those that are being run, so it never underflows.\<close>

theorem tasks_taken_in_order:
  assumes "pool_run max_size n p"
  shows "\<exists>waiting. wp_accepted p = wp_taken p @ waiting \<and> (queue_empty p \<longleftrightarrow> waiting = []) \<and>
    wp_pending p = length waiting + num_busy p \<and> wp_error p \<noteq> Some accounting_underflow"
proof -
  obtain q where q: "pool_ok n q p" using pool_run_ok [OF assms] by blast
  then have "queue_empty p \<longleftrightarrow> q = []" by (intro pool_holds_empty) (simp add: pool_ok_def)
  with q show ?thesis
    by (intro exI [of _ "map (entry_task (wp_records p)) q"]) (simp add: pool_ok_def control_ok_def closing_ok_def)
qed

text \<open>C16: No notification is missed. While a worker sleeps, every task that waits has a notification
  still to come or a worker that is about to look for it, and a pool that is closed is about to notify
  everybody. Nobody sleeps in \<open>wait_idle\<close> when no task is pending or one has failed, and the constructor
  does not sleep once the workers have all started and said so.\<close>

theorem no_missed_notification:
  assumes "pool_run max_size n p"
  shows "(Asleep \<in> set (wp_workers p) \<longrightarrow>
       length (wp_accepted p) \<le> length (wp_taken p) + wp_notices p + num_of Checking p \<and>
       (wp_shutdown p \<longrightarrow> wp_phase p = Closing)) \<and>
    (Wait_Asleep \<in> set (wp_waiters p) \<longrightarrow> 0 < wp_pending p \<and> wp_error p = None) \<and>
    (wp_phase p = Startup_Asleep \<longrightarrow> wp_error p = None \<and> (wp_started p < n \<or> Started \<in> set (wp_workers p)))"
proof -
  obtain q where q: "pool_ok n q p" using pool_run_ok [OF assms] by blast
  then have s: "startup_ok n p" "sleep_ok (length q) p" by (simp_all add: pool_ok_def control_ok_def)
  have len: "length (wp_accepted p) = length (wp_taken p) + length q" using q by (simp add: pool_ok_def)
  have some_of: "0 < num_of w p \<longleftrightarrow> w \<in> set (wp_workers p)" for w
    using num_0_iff [of "\<lambda>v. v = w" "wp_workers p"] by fastforce
  have "Asleep \<in> set (wp_workers p) \<longrightarrow>
       length (wp_accepted p) \<le> length (wp_taken p) + wp_notices p + num_of Checking p \<and>
       (wp_shutdown p \<longrightarrow> wp_phase p = Closing)"
    using s(2) some_of [of Asleep] len by (simp add: sleep_ok_def)
  moreover have "Wait_Asleep \<in> set (wp_waiters p) \<longrightarrow> 0 < wp_pending p \<and> wp_error p = None"
    using s(2) by (auto simp: sleep_ok_def)
  moreover have "wp_phase p = Startup_Asleep \<longrightarrow>
      wp_error p = None \<and> (wp_started p < n \<or> Started \<in> set (wp_workers p))"
    using s(1) some_of [of Started] by (auto simp: startup_ok_def)
  ultimately show ?thesis by blast
qed

section \<open>Closing\<close>

text \<open>What is left to do for the workers of a pool that is closed.\<close>

fun rank :: "'c worker \<Rightarrow> nat" where
  "rank Starting = 3"
| "rank Started = 2"
| "rank Checking = 1"
| "rank Asleep = 1"
| "rank (Running t) = 3"
| "rank Finishing = 2"
| "rank Exited = 0"

definition work_left :: "'c pool \<Rightarrow> nat" where
  "work_left p = 3 * (length (wp_accepted p) - length (wp_taken p)) + sum_list (map rank (wp_workers p))"

lemma rank_0_iff: "rank w = 0 \<longleftrightarrow> w = Exited"
  by (cases w) simp_all

lemma rank_wake: "map rank (map wake_worker ws) = map rank ws"
  by (auto simp: wake_worker_def split: worker.splits)

lemma rank_update:
  assumes "i < length ws"
  shows "sum_list (map rank (ws[i := w])) + rank (ws ! i) = sum_list (map rank ws) + rank w"
proof -
  have "rank (ws ! i) \<le> sum_list (map rank ws)" using assms by (intro elem_le_sum_list [of i "map rank ws", simplified]) simp_all
  with assms show ?thesis by (simp add: map_update sum_list_update)
qed

text \<open>A run in which the workers made \<open>k\<close> steps.\<close>

inductive closing_run :: "nat \<Rightarrow> nat \<Rightarrow> nat \<Rightarrow> 'c pool \<Rightarrow> 'c pool \<Rightarrow> bool" for max_size worker_count where
  closing_stay: "closing_run max_size worker_count 0 p p"
| closing_worker: "closing_run max_size worker_count k p p' \<Longrightarrow> worker_step i p' p'' \<Longrightarrow>
    closing_run max_size worker_count (Suc k) p p''"
| closing_owner: "closing_run max_size worker_count k p p' \<Longrightarrow>
    closing_run max_size worker_count k p (owner_step worker_count created p')"
| closing_caller: "closing_run max_size worker_count k p p' \<Longrightarrow> caller_step max_size p' p'' \<Longrightarrow>
    closing_run max_size worker_count k p p''"
| closing_wake: "closing_run max_size worker_count k p p' \<Longrightarrow> wake_step p' p'' \<Longrightarrow>
    closing_run max_size worker_count k p p''"

definition joined :: "'c pool \<Rightarrow> bool" where
  "joined p \<longleftrightarrow> wp_phase p \<in> {Joining, Gone}"

lemma joined_facts:
  assumes "pool_ok n q p" "joined p"
  shows "wp_shutdown p" "Asleep \<notin> set (wp_workers p)"
proof -
  have c: "closing_ok (length q) p" "sleep_ok (length q) p" using assms(1) by (simp_all add: pool_ok_def control_ok_def)
  then show s: "wp_shutdown p" using assms(2) by (auto simp: closing_ok_def joined_def)
  have "\<not> 0 < num_of Asleep p" using c(2) s assms(2) by (auto simp: sleep_ok_def joined_def)
  then show "Asleep \<notin> set (wp_workers p)" using num_0_iff [of "\<lambda>v. v = Asleep" "wp_workers p"] by auto
qed

text \<open>Admission is refused once the pool is closed.\<close>

lemma closed_refuses:
  assumes "wp_shutdown p"
  shows "snd (enqueue_detached max_size memory work p) = p"
    "snd (enqueue_borrowed max_size memory ctx index call p) = p" "snd (enqueue_record r p) = p"
proof -
  obtain e where "check_borrowed_admission p = Some e"
    using assms by (cases "wp_error p") (simp_all add: check_borrowed_admission_def)
  with assms show "snd (enqueue_detached max_size memory work p) = p"
    "snd (enqueue_borrowed max_size memory ctx index call p) = p" "snd (enqueue_record r p) = p"
    by (simp_all add: enqueue_detached_def enqueue_borrowed_def enqueue_record_def)
qed

lemma closing_caller_left:
  assumes "caller_step max_size p p'" "wp_shutdown p"
  shows "work_left p' = work_left p" "wp_phase p' = wp_phase p"
  using assms by (auto elim!: caller_step.cases simp: closed_refuses check_idle_def work_left_def)

lemma closing_wake_left:
  assumes "wake_step p p'" "Asleep \<notin> set (wp_workers p)" "wp_phase p \<noteq> Startup_Asleep"
  shows "work_left p' = work_left p" "wp_phase p' = wp_phase p"
  using assms(1)
  by (cases; use assms(2,3) in \<open>simp add: work_left_def notify_startup_def; metis nth_mem\<close>)+

lemma joined_owner_left:
  assumes "joined p"
  shows "work_left (owner_step n created p) = work_left p" "joined (owner_step n created p)"
  using assms by (auto simp: owner_step_def joined_def work_left_def)

text \<open>Each step of a worker brings the end nearer.\<close>

lemma moved_left:
  assumes "i < length (wp_workers p)" "rank w < rank (wp_workers p ! i)"
    "wp_accepted p' = wp_accepted p" "wp_taken p' = wp_taken p"
    "map rank (wp_workers p') = map rank ((wp_workers p)[i := w])"
  shows "work_left p' < work_left p"
  using assms rank_update [OF assms(1), of w] by (simp add: work_left_def)

lemma rank_wake_update: "map rank ((map wake_worker ws)[i := w]) = map rank (ws[i := w])"
  by (simp only: map_update rank_wake)

lemma joined_worker_left:
  assumes "pool_ok n q p" "joined p" "worker_step i p p'"
  shows "work_left p' < work_left p \<and> joined p'"
  using assms(3)
proof cases
  case (worker_acts outcome)
  have i: "i < length (wp_workers p)" by (rule worker_acts)
  note left = moved_left [OF i]
  show ?thesis
  proof (cases "wp_workers p ! i")
    case Starting
    with worker_acts assms(2) show ?thesis
      by (intro conjI left [where w = "if outcome = None then Started else Exited"])
        (auto simp: advance_worker_def start_worker_def rank_wake_update joined_def split: option.splits)
  next
    case Started
    with worker_acts assms(2) show ?thesis
      by (intro conjI left [where w = Checking]) (auto simp: advance_worker_def notify_startup_def joined_def)
  next
    case (Running t)
    with worker_acts assms(2) show ?thesis
      by (intro conjI left [where w = Finishing])
        (auto simp: advance_worker_def run_task_def rank_wake_update joined_def split: option.splits)
  next
    case Finishing
    with worker_acts assms(2) show ?thesis
      by (intro conjI left [where w = "if wp_pending p = 0 then Exited else Checking"])
        (auto simp: advance_worker_def finish_task_def Let_def notify_idle_def rank_wake_update joined_def)
  next
    case Checking
    have p': "p' = check_work i p" using worker_acts Checking by (simp add: advance_worker_def)
    show ?thesis
    proof (cases "q = []")
      case True
      then have "queue_empty p" using assms(1) pool_holds_empty [of p "[]"] by (simp add: pool_ok_def)
      then have "p' = set_worker i Exited p"
        unfolding p' using joined_facts(1) [OF assms(1,2)] by (simp add: check_work_def)
      then show ?thesis using Checking assms(2) by (intro conjI left [where w = Exited]) (simp_all add: joined_def)
    next
      case False
      obtain x q' where t: "q = x # q'" "pool_ok n q' (check_work i p)"
        "check_work i p = set_worker i (Running (entry_task (wp_records p) x)) ((snd (pop_task p))
          \<lparr>wp_taken := wp_taken p @ [entry_task (wp_records p) x]\<rparr>)"
        using take_task_ok [OF assms(1) i Checking False] by blast
      have "control_part (snd (pop_task p)) = control_part p"
        by (rule pop_task_control [of p "fst (pop_task p)"]) simp
      then have f: "wp_workers p' = (wp_workers p)[i := Running (entry_task (wp_records p) x)]"
        "wp_accepted p' = wp_accepted p" "wp_phase p' = wp_phase p"
        "wp_taken p' = wp_taken p @ [entry_task (wp_records p) x]"
        unfolding p' t(3) by (simp_all add: control_part_def)
      have "length (wp_accepted p) = length (wp_taken p) + Suc (length q')"
        using assms(1) t(1) by (simp add: pool_ok_def)
      with f rank_update [OF i, of "Running (entry_task (wp_records p) x)"] Checking assms(2)
      show ?thesis by (simp add: work_left_def joined_def)
    qed
  qed (use worker_acts in simp_all)
qed

lemma closing_run_left:
  "closing_run max_size n k p p' \<Longrightarrow> pool_ok n q p \<Longrightarrow> joined p \<Longrightarrow>
   k + work_left p' \<le> work_left p \<and> joined p' \<and> (\<exists>q. pool_ok n q p')"
proof (induction rule: closing_run.induct)
  case (closing_stay p)
  then show ?case by auto
next
  case (closing_worker k p p' i p'')
  then obtain q' where q: "pool_ok n q' p'" "joined p'" "k + work_left p' \<le> work_left p" by blast
  have "\<exists>q. pool_ok n q p''" using closing_worker.hyps(2) advance_worker_ok [OF q(1)] by (auto elim!: worker_step.cases)
  with joined_worker_left [OF q(1,2) closing_worker.hyps(2)] q(3) show ?case by auto
next
  case (closing_owner k p p' created)
  then obtain q' where q: "pool_ok n q' p'" "joined p'" "k + work_left p' \<le> work_left p" by blast
  with joined_owner_left [OF q(2), of n created] owner_step_ok [OF q(1), of created] show ?case by auto
next
  case (closing_caller k p p' p'')
  then obtain q' where q: "pool_ok n q' p'" "joined p'" "k + work_left p' \<le> work_left p" by blast
  with closing_caller_left [OF closing_caller.hyps(2) joined_facts(1) [OF q(1,2)]]
    caller_step_ok [OF closing_caller.hyps(2) q(1)] show ?case by (simp add: joined_def)
next
  case (closing_wake k p p' p'')
  then obtain q' where q: "pool_ok n q' p'" "joined p'" "k + work_left p' \<le> work_left p" by blast
  have "wp_phase p' \<noteq> Startup_Asleep" using q(2) by (auto simp: joined_def)
  from q closing_wake_left [OF closing_wake.hyps(2) joined_facts(2) [OF q(1,2)] this]
    wake_step_ok [OF closing_wake.hyps(2) q(1)] show ?case by (auto simp: joined_def)
qed

text \<open>C17: Closing the pool ends: however the callers, the owner and the notifications interleave, the
  workers make at most \<open>work_left\<close> steps, and as long as one of them has not left its loop it can make
  the next one, provided that the tasks return.\<close>

theorem closing_terminates:
  assumes "pool_run max_size n p" "wp_phase p = Joining" "closing_run max_size n k p p'"
  shows "k + work_left p' \<le> work_left p \<and>
    (\<forall>i. i < length (wp_workers p') \<and> wp_workers p' ! i \<noteq> Exited \<longrightarrow> (\<exists>p''. worker_step i p' p'')) \<and>
    (work_left p' = 0 \<longrightarrow> wp_phase (owner_step n created p') = Gone)"
proof -
  obtain q0 where "pool_ok n q0 p" using pool_run_ok [OF assms(1)] by blast
  then have "k + work_left p' \<le> work_left p \<and> joined p' \<and> (\<exists>q. pool_ok n q p')"
    using closing_run_left [OF assms(3)] assms(2) by (simp add: joined_def)
  then obtain q where r: "k + work_left p' \<le> work_left p" "joined p'" "pool_ok n q p'" by blast
  have "\<exists>p''. worker_step i p' p''" if "i < length (wp_workers p')" "wp_workers p' ! i \<noteq> Exited" for i
    using that joined_facts(2) [OF r(3,2)] worker_acts [of i p'] by (metis empty_iff insert_iff nth_mem)
  moreover have "wp_phase (owner_step n created p') = Gone" if "work_left p' = 0"
  proof -
    have "\<forall>w \<in> set (wp_workers p'). rank w = 0" using that by (auto simp: work_left_def)
    then have "list_all (\<lambda>w. w = Exited) (wp_workers p')" by (simp add: list_all_iff rank_0_iff)
    with r(2) show ?thesis by (auto simp: owner_step_def joined_def)
  qed
  ultimately show ?thesis using r(1) by blast
qed

text \<open>C18: When the owner is done with the pool, every task that was ever admitted has been run to its
  end, also when some of them threw, and no worker is left.\<close>

theorem closed_pool_ran_everything:
  assumes "pool_run max_size n p" "wp_phase p = Gone"
  shows "wp_taken p = wp_accepted p \<and> wp_pending p = 0 \<and> (\<forall>w \<in> set (wp_workers p). w = Exited)"
proof -
  obtain q where q: "pool_ok n q p" using pool_run_ok [OF assms(1)] by blast
  then have c: "startup_ok n p" "closing_ok (length q) p" by (simp_all add: pool_ok_def control_ok_def)
  then have "num_of Exited p = length (wp_workers p)" using assms(2) by (simp add: closing_ok_def)
  then have all: "\<forall>w \<in> set (wp_workers p). w = Exited" by (simp only: num_full)
  have "q = []"
  proof (cases "wp_workers p = []")
    case True
    with c(1) q show ?thesis by (auto simp: startup_ok_def pool_ok_def)
  next
    case False
    with all have "0 < num_of Exited p" using \<open>num_of Exited p = length (wp_workers p)\<close> by simp
    with c(2) show ?thesis by (simp add: closing_ok_def)
  qed
  moreover have "num_busy p = 0" using all by (auto simp: num_0_iff)
  ultimately show ?thesis using q all by (simp add: pool_ok_def control_ok_def)
qed

text \<open>C38: After a task has thrown, the two ways of admission report it differently: a borrowed task gets
  the exception, a detached one only that the pool is shut down. The rethrow in \<open>enqueue_detached\<close> is
  never reached.\<close>

theorem failure_reports_differ:
  assumes "pool_run max_size n p" "wp_error p = Some e"
  shows "enqueue_detached limit memory work p = (Some shut_down, p) \<and>
    (call \<noteq> None \<longrightarrow> enqueue_borrowed limit memory ctx index call p = (Some e, p)) \<and>
    (bt_call (wp_records p r) \<noteq> None \<longrightarrow> enqueue_record r p = (Some e, p))"
proof -
  obtain q where "pool_ok n q p" using pool_run_ok [OF assms(1)] by blast
  then have "wp_shutdown p" using assms(2) by (simp add: pool_ok_def control_ok_def closing_ok_def)
  with assms(2) show ?thesis
    by (simp add: enqueue_detached_def enqueue_borrowed_def enqueue_record_def check_borrowed_admission_def)
qed

section \<open>Examples\<close>

text \<open>One worker. A detached task and a record are admitted while it sleeps, it takes the first and
  throws, and the owner closes the pool.\<close>

definition example_records :: "nat \<Rightarrow> nat borrowed_task" where
  "example_records r = \<lparr>bt_context = r, bt_index = 7, bt_call = Some 5, bt_next = None, bt_sequence = 0, bt_queued = False\<rparr>"

definition example_start :: "action list" where
  "example_start = [Act_Owner True, Act_Owner True, Act_Owner True, Act_Worker 0 None, Act_Worker 0 None,
     Act_Owner True, Act_Worker 0 None, Act_Detached 3, Act_Wait, Act_Look 0, Act_Record 4]"

definition example_after :: "action list \<Rightarrow> nat pool" where
  "example_after as = the (perform_all 1 as (new_pool 1 1 example_records))"

lemma example_run:
  assumes "perform_all 1 as (new_pool 1 1 example_records) \<noteq> None"
  shows "pool_run size_max 1 (example_after as)"
proof -
  have "pool_run size_max 1 (new_pool 1 1 example_records)" by (rule pool_new) (simp_all add: example_records_def)
  with assms perform_all_run show ?thesis by (auto simp: example_after_def)
qed

lemmas example_defs = example_start_def new_pool_def owner_step_def spawn_worker_def check_startup_def close_pool_def
  advance_worker_def start_worker_def set_worker_def notify_startup_def notify_idle_def notify_work_def notify_all_def
  check_work_def queue_empty_def run_task_def finish_task_def fail_pool_def pop_task_def record_due_def pop_slot_def
  pop_record_def record_task_def usable_def enqueue_detached_def push_and_admit_def push_task_def append_task_def
  grow_tasks_def admit_task_def enqueue_record_def link_record_def check_borrowed_admission_def check_idle_def
  example_records_def wake_worker_def wake_waiter_def

text \<open>The worker sleeps on two tasks that it has not been told of yet. Then it takes the first one, which
  throws, while the owner closes the pool; in the end it has run both.\<close>

definition example_sleeping :: "nat pool" where
  "example_sleeping = example_after example_start"

definition example_closing :: "nat pool" where
  "example_closing = example_after (example_start @
     [Act_Notify 0, Act_Worker 0 None, Act_Worker 0 (Some 9), Act_Owner True, Act_Owner True])"

definition example_end :: "nat pool" where
  "example_end = example_after (example_start @
     [Act_Notify 0, Act_Worker 0 None, Act_Worker 0 (Some 9), Act_Owner True, Act_Owner True,
      Act_Worker 0 None, Act_Worker 0 None, Act_Worker 0 None, Act_Worker 0 None, Act_Worker 0 None, Act_Owner True])"

lemma example_sleeping_run: "pool_run size_max 1 example_sleeping"
  unfolding example_sleeping_def by (rule example_run) (simp add: example_defs Let_def)

lemma example_closing_run: "pool_run size_max 1 example_closing"
  unfolding example_closing_def by (rule example_run) (simp add: example_defs Let_def)

lemma example_end_run: "pool_run size_max 1 example_end"
  unfolding example_end_def by (rule example_run) (simp add: example_defs Let_def)

lemma example_sleeping_state:
  "wp_workers example_sleeping = [Asleep]" "wp_pending example_sleeping = 2" "wp_taken example_sleeping = []"
  "wp_waiters example_sleeping = [Wait_Asleep]" "length (wp_accepted example_sleeping) = 2"
  by (simp_all add: example_sleeping_def example_after_def example_defs Let_def)

lemma example_closing_state:
  "wp_phase example_closing = Joining" "wp_workers example_closing = [Finishing]"
  "wp_error example_closing = Some (Raised 9)" "length (wp_accepted example_closing) = 2"
  "length (wp_taken example_closing) = 1"
  by (simp_all add: example_closing_def example_after_def example_defs Let_def)

lemma example_end_state: "wp_phase example_end = Gone" "length (wp_accepted example_end) = 2"
  by (simp_all add: example_end_def example_after_def example_defs Let_def)

lemma tasks_taken_in_order_witness:
  "wp_pending example_sleeping = 2 \<and>
   (\<exists>waiting. wp_accepted example_sleeping = wp_taken example_sleeping @ waiting \<and> length waiting = 2)"
proof -
  obtain w where "wp_accepted example_sleeping = wp_taken example_sleeping @ w"
    using tasks_taken_in_order [OF example_sleeping_run] by blast
  with example_sleeping_state show ?thesis by auto
qed

lemma no_missed_notification_witness:
  "length (wp_accepted example_sleeping) = 2 \<and> 2 \<le> wp_notices example_sleeping \<and> 0 < wp_pending example_sleeping"
  using no_missed_notification [OF example_sleeping_run] example_sleeping_state by auto

lemma closing_terminates_witness:
  "work_left example_closing = 5 \<and> work_left (finish_task 0 example_closing) \<le> 4"
proof -
  have "worker_step 0 example_closing (advance_worker (map_option Raised None) 0 example_closing)"
    using example_closing_state by (intro worker_acts) simp_all
  then have "worker_step 0 example_closing (finish_task 0 example_closing)"
    using example_closing_state by (simp add: advance_worker_def)
  from closing_worker [OF closing_stay this]
  have "closing_run size_max 1 (Suc 0) example_closing (finish_task 0 example_closing)" .
  from closing_terminates [OF example_closing_run example_closing_state(1) this]
  show ?thesis using example_closing_state by (simp add: work_left_def)
qed

lemma closed_pool_ran_everything_witness: "wp_taken example_end = wp_accepted example_end \<and> length (wp_accepted example_end) = 2"
  using closed_pool_ran_everything [OF example_end_run example_end_state(1)] example_end_state(2) by simp

lemma failure_reports_differ_witness:
  "fst (enqueue_detached 8 True (Some 3) example_closing) = Some shut_down \<and>
   fst (enqueue_borrowed 8 True 0 0 (Some 3) example_closing) = Some (Raised 9)"
  using failure_reports_differ [OF example_closing_run example_closing_state(3),
      where limit = 8 and memory = True and work = "Some 3" and call = "Some 3" and ctx = 0 and index = 0] by simp

end
