(* ===== verification/Parallel_For.thy ===== *)
theory Parallel_For
  imports Common_Math "HOL-Library.Multiset"
begin

text \<open>
  Splitting an index range among workers (\<open>parallel_for\<close> of
  \<open>src/common/concurrency/worker_pool.h\<close> and \<open>parallel_for_range_indexed\<close> of \<open>parallel_range.h\<close>). The
  index type is a parameter \<open>I\<close>, of 32 or 64 bits (with a narrower one the two arguments of \<open>std::min\<close>
  would have different types, and the code does not compile): unsigned arithmetic wraps, and where
  signed arithmetic overflows, which is undefined behaviour, the model has no result. The function that is
  called on each chunk is a parameter, as are the enqueuing of a chunk and the creation of a thread: an
  exception, if one left it. The placement of the threads on processors is left out.
\<close>

section \<open>Chunks\<close>

text \<open>\<open>static_cast<int>\<close> of an index, which keeps its low 32 bits.\<close>

definition narrow_int :: "int \<Rightarrow> int" where
  "narrow_int n = (n + 2147483648) mod 4294967296 - 2147483648"

text \<open>The result of an operation of the index type whose exact result is \<open>n\<close>.\<close>

definition index_result :: "cxx_int \<Rightarrow> int \<Rightarrow> int option" where
  "index_result I n =
     (if is_signed I then (if representable I n then Some n else None) else Some (n mod 2 ^ int_width I))"

definition chunk_size :: "cxx_int \<Rightarrow> int \<Rightarrow> int \<Rightarrow> int option" where
  "chunk_size I span workers =
     Option.bind (index_result I (span + workers)) (\<lambda>n. Option.bind (index_result I (n - 1)) (\<lambda>n. Some (n div workers)))"

definition chunk_begin :: "cxx_int \<Rightarrow> int \<Rightarrow> int \<Rightarrow> nat \<Rightarrow> int option" where
  "chunk_begin I first chunk worker =
     Option.bind (index_result I (int worker * chunk)) (\<lambda>offset. index_result I (first + offset))"

definition chunk_end :: "cxx_int \<Rightarrow> int \<Rightarrow> int \<Rightarrow> int \<Rightarrow> int option" where
  "chunk_end I limit chunk start = map_option (min limit) (index_result I (start + chunk))"

text \<open>The chunks of the workers in turn, up to the first one that would begin behind the range, and up to
  the first that cannot be handed over.\<close>

fun hand_over ::
    "cxx_int \<Rightarrow> (nat \<Rightarrow> 'e option) \<Rightarrow> int \<Rightarrow> int \<Rightarrow> int \<Rightarrow> nat list \<Rightarrow> ((nat \<times> int \<times> int) list \<times> 'e option) option" where
  "hand_over I start first limit chunk [] = Some ([], None)"
| "hand_over I start first limit chunk (worker # workers) =
     Option.bind (chunk_begin I first chunk worker) (\<lambda>b.
       if b \<ge> limit then Some ([], None)
       else Option.bind (chunk_end I limit chunk b) (\<lambda>e.
         case start worker of Some x \<Rightarrow> Some ([], Some x)
         | None \<Rightarrow> map_option (\<lambda>(rest, failure). ((worker, b, e) # rest, failure))
             (hand_over I start first limit chunk workers)))"

fun first_failure :: "'e option list \<Rightarrow> 'e option" where
  "first_failure [] = None"
| "first_failure (None # es) = first_failure es"
| "first_failure (Some e # es) = Some e"

section \<open>On a worker pool\<close>

definition pool_worker_count :: "nat \<Rightarrow> int \<Rightarrow> int \<Rightarrow> int" where
  "pool_worker_count pool_size max_workers span =
     (let pool_workers = narrow_int (int pool_size);
          requested_workers = (if max_workers > 0 then max_workers else pool_workers)
      in max 1 (min (min requested_workers pool_workers) (narrow_int span)))"

text \<open>The ranges that the function is called on, each with the worker slot of its chunk, and the
  exception that leaves \<open>parallel_for\<close>. All chunks that were handed over have been run by then.\<close>

definition parallel_for ::
    "cxx_int \<Rightarrow> bool \<Rightarrow> nat \<Rightarrow> int \<Rightarrow> int \<Rightarrow> int \<Rightarrow> (nat \<Rightarrow> 'e option) \<Rightarrow> (int \<Rightarrow> int \<Rightarrow> 'e option) \<Rightarrow>
     ((int \<times> int) list \<times> 'e option) option" where
  "parallel_for I on_worker pool_size first limit max_workers start outcome =
     (if first \<ge> limit then Some ([], None)
      else if on_worker then Some ([(first, limit)], outcome first limit)
      else
      Option.bind (index_result I (limit - first)) (\<lambda>span.
        if narrow_int (int pool_size) \<le> 0 then Some ([(first, limit)], outcome first limit)
        else let worker_count = pool_worker_count pool_size max_workers span in
          Option.bind (chunk_size I span worker_count) (\<lambda>chunk.
          Option.bind (hand_over I start first limit chunk [0..<nat worker_count]) (\<lambda>(chunks, failure).
            Some (map snd chunks, case failure of Some e \<Rightarrow> Some e
              | None \<Rightarrow> first_failure (map (\<lambda>(_, b, e). outcome b e) chunks))))))"

section \<open>On threads of its own\<close>

definition clamp_worker_count_to_cpus :: "int \<Rightarrow> nat \<Rightarrow> int \<Rightarrow> int \<Rightarrow> cxx_error + int" where
  "clamp_worker_count_to_cpus requested_workers cpu_count reserved_cpus minimum_workers =
     (if requested_workers \<le> 0 then Inl (Invalid_Argument ''requested_workers must be positive'')
      else if minimum_workers < 0 then Inl (Invalid_Argument ''minimum_workers must be non-negative'')
      else let reserved = (if reserved_cpus > 0 then nat reserved_cpus else 0);
               minimum = (if minimum_workers > 0 then nat minimum_workers else 0);
               usable = (if cpu_count > reserved then cpu_count - reserved else 0);
               usable = (if usable < minimum then minimum else usable);
               usable = (if usable = 0 then 1 else usable)
           in Inr (max 1 (min requested_workers (narrow_int (int usable)))))"

definition placed_cpus :: "int list option \<Rightarrow> int list \<Rightarrow> int list" where
  "placed_cpus placement cpus = (case placement of None \<Rightarrow> cpus | Some local \<Rightarrow> filter (\<lambda>cpu. cpu \<in> set cpus) local)"

text \<open>The worker count of a range: how many threads it asks for, bounded by its length, a value of the index
  type, and its processors.\<close>

definition range_worker_count :: "cxx_int \<Rightarrow> int \<Rightarrow> int \<Rightarrow> int list \<Rightarrow> cxx_error + int" where
  "range_worker_count I span num_workers worker_cpus =
     bindr (checked_cast \<lparr>is_signed = True, int_width = 32\<rparr> I span ''parallel range too large for worker count'') (\<lambda>n.
       let requested_workers = max 1 (min num_workers n)
       in if worker_cpus = [] then Inl (Runtime_Error ''parallel range requires a non-empty CPU affinity'')
          else clamp_worker_count_to_cpus requested_workers (length worker_cpus) 0 1)"

text \<open>With one worker the function runs on the calling thread. Otherwise every chunk gets a thread; the
  exception that is rethrown is the first one in the order \<open>finish\<close> in which the threads end. A thread
  that cannot be created ends the loop, once those before it have been joined.\<close>

definition parallel_for_range_indexed ::
    "cxx_int \<Rightarrow> int \<Rightarrow> int \<Rightarrow> int \<Rightarrow> int list \<Rightarrow> int list option \<Rightarrow>
     (nat \<Rightarrow> cxx_error option) \<Rightarrow> ((nat \<times> int \<times> int) list \<Rightarrow> (nat \<times> int \<times> int) list) \<Rightarrow>
     (nat \<Rightarrow> int \<Rightarrow> int \<Rightarrow> cxx_error option) \<Rightarrow> ((nat \<times> int \<times> int) list \<times> cxx_error option) option" where
  "parallel_for_range_indexed I first limit num_workers cpus placement start finish outcome =
     (if first \<ge> limit then Some ([], None)
      else
      Option.bind (index_result I (limit - first)) (\<lambda>span.
        case range_worker_count I span num_workers (placed_cpus placement cpus) of
          Inl e \<Rightarrow> Some ([], Some e)
        | Inr worker_count \<Rightarrow>
            if worker_count = 1 then Some ([(0, first, limit)], outcome 0 first limit)
            else
            Option.bind (chunk_size I span worker_count) (\<lambda>chunk.
            Option.bind (hand_over I start first limit chunk [0..<nat worker_count]) (\<lambda>(chunks, failure).
              Some (chunks, case failure of Some e \<Rightarrow> Some e
                | None \<Rightarrow> first_failure (map (\<lambda>(w, b, e). outcome w b e) (finish chunks)))))))"

section \<open>The chunks partition the range\<close>

lemma narrow_int_range: "- 2147483648 \<le> narrow_int n \<and> narrow_int n \<le> 2147483647"
  using pos_mod_bound [of 4294967296 "n + 2147483648"] by (simp add: narrow_int_def)

lemma narrow_int_id: "- 2147483648 \<le> n \<Longrightarrow> n \<le> 2147483647 \<Longrightarrow> narrow_int n = n"
  by (simp add: narrow_int_def)

text \<open>The same in exact arithmetic: the reference that the code follows as long as no index overflows.\<close>

definition exact_chunk :: "int \<Rightarrow> int \<Rightarrow> int" where
  "exact_chunk span workers = (span + workers - 1) div workers"

fun exact_chunks ::
    "(nat \<Rightarrow> 'e option) \<Rightarrow> int \<Rightarrow> int \<Rightarrow> int \<Rightarrow> nat list \<Rightarrow> (nat \<times> int \<times> int) list \<times> 'e option" where
  "exact_chunks start first limit chunk [] = ([], None)"
| "exact_chunks start first limit chunk (worker # workers) =
     (let b = first + int worker * chunk
      in if b \<ge> limit then ([], None)
         else case start worker of Some e \<Rightarrow> ([], Some e)
         | None \<Rightarrow> (case exact_chunks start first limit chunk workers of (rest, failure) \<Rightarrow>
             ((worker, b, min limit (b + chunk)) # rest, failure)))"

lemma exact_chunk_bounds:
  assumes "0 < span" "0 < workers"
  shows "0 < exact_chunk span workers" "span \<le> workers * exact_chunk span workers"
    "workers * exact_chunk span workers \<le> span + workers - 1"
proof -
  let ?n = "span + workers - 1"
  have m: "workers * exact_chunk span workers + ?n mod workers = ?n"
    unfolding exact_chunk_def by (rule mult_div_mod_eq)
  have b: "0 \<le> ?n mod workers" "?n mod workers < workers" using assms(2) by simp_all
  from m b show "span \<le> workers * exact_chunk span workers" "workers * exact_chunk span workers \<le> ?n"
    by linarith+
  then have "0 < workers * exact_chunk span workers" using assms by linarith
  then show "0 < exact_chunk span workers" using assms(2) by (simp add: zero_less_mult_iff)
qed

lemma cxx_min_nonpos: "cxx_min I \<le> 0"
  by (simp add: cxx_min_def)

lemma index_exact: "cxx_min I \<le> n \<Longrightarrow> n \<le> cxx_max I \<Longrightarrow> index_result I n = Some n"
  by (auto simp: index_result_def representable_def cxx_min_def cxx_max_def)

lemma chunk_size_exact:
  assumes "0 < span" "0 < workers" "span + workers \<le> cxx_max I"
  shows "chunk_size I span workers = Some (exact_chunk span workers)"
proof -
  have "index_result I (span + workers) = Some (span + workers)"
    "index_result I (span + workers - 1) = Some (span + workers - 1)"
    using assms cxx_min_nonpos [of I] by (intro index_exact; linarith)+
  then show ?thesis by (simp add: chunk_size_def exact_chunk_def)
qed

text \<open>No index overflows if there is room for one more worker count behind the range.\<close>

lemma hand_over_exact:
  assumes "first < limit" "0 < workers" "cxx_min I \<le> first" "max limit (limit - first) + workers \<le> cxx_max I"
    and "\<And>w. w \<in> set ws \<Longrightarrow> int w < workers"
  defines "chunk \<equiv> exact_chunk (limit - first) workers"
  shows "hand_over I start first limit chunk ws = Some (exact_chunks start first limit chunk ws)"
  using assms(5)
proof (induction ws)
  case (Cons w ws)
  have c: "0 < chunk" "workers * chunk \<le> limit - first + workers - 1"
    using exact_chunk_bounds [of "limit - first" workers] assms(1,2) by (simp_all add: chunk_def)
  have "(int w + 1) * chunk \<le> workers * chunk" using Cons.prems [of w] c(1) by (intro mult_right_mono) simp_all
  then have w: "0 \<le> int w * chunk" "int w * chunk + chunk \<le> limit - first + workers - 1"
    using c by (simp_all add: distrib_right)
  have room: "limit + workers \<le> cxx_max I" "limit - first + workers \<le> cxx_max I" using assms(4) by linarith+
  have "index_result I (int w * chunk) = Some (int w * chunk)"
    "index_result I (first + int w * chunk) = Some (first + int w * chunk)"
    "index_result I (first + int w * chunk + chunk) = Some (first + int w * chunk + chunk)"
    using w c(1) room assms(3) cxx_min_nonpos [of I] by (intro index_exact; linarith)+
  then show ?case
    using Cons by (auto simp: chunk_begin_def chunk_end_def Let_def split: option.split prod.split)
qed simp

abbreviation ranges_of :: "(nat \<times> int \<times> int) list \<Rightarrow> int list" where
  "ranges_of chunks \<equiv> concat (map (\<lambda>(w, b, e). [b..e - 1]) chunks)"

lemma upto_join: "a \<le> b \<Longrightarrow> b \<le> c \<Longrightarrow> [a..b - 1] @ [b..c - 1] = [a..c - 1]" for a b c :: int
  by (cases "a = b") (simp_all add: upto_split2 [of a "b - 1" "c - 1"])

lemma exact_chunks_ranges:
  assumes "0 < chunk" "limit \<le> first + int n * chunk" "k \<le> n"
    "exact_chunks start first limit chunk [k..<n] = (chunks, failure)"
  shows "\<exists>m. ranges_of chunks = [first + int k * chunk..m - 1] \<and> m \<le> limit \<and> (failure = None \<longrightarrow> m = limit)"
  using assms(3,4)
proof (induction "n - k" arbitrary: k chunks failure)
  case 0
  then have "chunks = []" "limit \<le> first + int k * chunk" using assms(2) by simp_all
  then show ?case by (intro exI [of _ limit]) simp
next
  case (Suc j)
  let ?b = "first + int k * chunk" and ?c = "first + int (Suc k) * chunk"
  have up: "[k..<n] = k # [Suc k..<n]" using Suc.hyps(2) by (simp add: upt_conv_Cons)
  have next_: "?c = ?b + chunk" by (simp add: algebra_simps)
  show ?case
  proof (cases "?b \<ge> limit")
    case True
    with Suc.prems(2) up have "chunks = []" by (simp add: Let_def)
    with True show ?thesis by (intro exI [of _ limit]) simp
  next
    case inside: False
    show ?thesis
    proof (cases "start k")
      case (Some e)
      with Suc.prems(2) up inside have "chunks = []" "failure = Some e" by (simp_all add: Let_def)
      with inside show ?thesis by (intro exI [of _ ?b]) simp
    next
      case None
      obtain rest failure' where r: "exact_chunks start first limit chunk [Suc k..<n] = (rest, failure')" by fastforce
      with Suc.prems(2) up inside None have
        c: "chunks = (k, ?b, min limit ?c) # rest" "failure = failure'"
        by (auto simp: Let_def algebra_simps)
      obtain m where m: "ranges_of rest = [?c..m - 1]" "m \<le> limit" "failure' = None \<longrightarrow> m = limit"
        using Suc.hyps(1) [OF _ _ r] Suc.hyps(2) by fastforce
      show ?thesis
      proof (cases "limit \<le> ?c")
        case True
        then have "ranges_of chunks = [?b..limit - 1]" using c m by (simp add: min_absorb1)
        then show ?thesis by blast
      next
        case False
        have s: "ranges_of chunks = [?b..?c - 1] @ [?c..m - 1]" using c m False by simp
        show ?thesis
        proof (cases "?c \<le> m")
          case True
          then have "ranges_of chunks = [?b..m - 1]" using s upto_join [of ?b ?c m] next_ assms(1) by simp
          with m c show ?thesis by blast
        next
          case short: False
          then have "ranges_of chunks = [?b..?c - 1]" using s by simp
          moreover have "failure \<noteq> None" using m(3) c(2) short False by auto
          ultimately show ?thesis using False by (intro exI [of _ ?c]) simp
        qed
      qed
    qed
  qed
qed

lemma exact_chunks_inside:
  "exact_chunks start first limit chunk workers = (chunks, failure) \<Longrightarrow> 0 < chunk \<Longrightarrow>
   length chunks \<le> length workers \<and> (\<forall>(w, b, e) \<in> set chunks. w \<in> set workers \<and> first + int w * chunk = b \<and> b < e \<and> e \<le> limit)"
proof (induction workers arbitrary: chunks failure)
  case (Cons w ws)
  then show ?case
    by (fastforce simp: Let_def split: if_splits option.splits prod.splits)
qed simp

lemma pool_worker_count_pos: "0 < pool_worker_count n m span"
  by (simp add: pool_worker_count_def Let_def)

lemma pool_worker_count_le:
  assumes "0 < narrow_int (int n)"
  shows "pool_worker_count n m span \<le> int n"
proof -
  have "narrow_int (int n) \<le> int n" using zmod_le_nonneg_dividend [of "int n + 2147483648" 4294967296]
    by (simp add: narrow_int_def)
  moreover have "pool_worker_count n m span \<le> max 1 (narrow_int (int n))"
    by (simp add: pool_worker_count_def Let_def)
  ultimately show ?thesis using assms by linarith
qed

lemma range_worker_count_bounds: "range_worker_count I span num_workers cpus = Inr wc \<Longrightarrow> 0 < wc \<and> wc \<le> max 1 num_workers"
  by (auto simp: range_worker_count_def clamp_worker_count_to_cpus_def bindr_Inr_iff Let_def max_def min_def
      split: if_splits)

lemma first_failure_None: "first_failure es = None \<longleftrightarrow> (\<forall>e \<in> set es. e = None)"
  by (induction es rule: first_failure.induct) simp_all

lemma exact_chunks_lanes:
  "exact_chunks start first limit chunk workers = (chunks, failure) \<Longrightarrow> \<exists>n. map fst chunks = take n workers"
proof (induction workers arbitrary: chunks failure)
  case (Cons w ws)
  obtain rest f where "exact_chunks start first limit chunk ws = (rest, f)" by fastforce
  moreover from Cons.IH [OF this] obtain n where "map fst rest = take n ws" by blast
  then have "w # map fst rest = take (Suc n) (w # ws)" by simp
  moreover have "[] = take 0 (w # ws)" by simp
  ultimately show ?case using Cons.prems by (auto simp: Let_def split: if_splits option.splits simp del: take_Suc_Cons)
qed simp

lemma exact_chunks_failure:
  "exact_chunks start first limit chunk workers = (chunks, Some e) \<Longrightarrow> \<exists>w \<in> set workers. start w = Some e"
  by (induction workers arbitrary: chunks) (auto simp: Let_def split: if_splits option.splits prod.splits)

lemma distinct_lanes: "\<exists>n. map fst chunks = take n [0..<k] \<Longrightarrow> distinct (map fst chunks)"
  by (metis distinct_take distinct_upt)

text \<open>
  C39: If the index type has room for one more worker count behind the range, \<open>parallel_for\<close> is defined, and
  the chunks that it runs are consecutive, non-empty parts of the range, at most as many as the pool has
  workers; when it returns without an exception they are the whole range, each index exactly once. Only
  a chunk that could not be enqueued is left out, and then its exception is rethrown. Nearer to the
  maximum of an unsigned type the computed indices wrap, see \<open>parallel_for_wraps\<close>.
\<close>

theorem parallel_for_partitions:
  assumes "cxx_min I \<le> first" "max limit (limit - first) + max 1 (int pool_size) \<le> cxx_max I"
  shows "\<exists>ranges failure m.
    parallel_for I on_worker pool_size first limit max_workers start outcome = Some (ranges, failure) \<and>
    concat (map (\<lambda>(b, e). [b..e - 1]) ranges) = [first..m - 1] \<and> m \<le> max first limit \<and>
    (failure = None \<longrightarrow> m = max first limit \<and> (\<forall>(b, e) \<in> set ranges. outcome b e = None)) \<and>
    (m \<noteq> max first limit \<longrightarrow> (\<exists>worker < pool_size. start worker \<noteq> None \<and> failure = start worker)) \<and>
    (\<forall>(b, e) \<in> set ranges. b < e) \<and> length ranges \<le> max 1 pool_size"
proof -
  have span: "index_result I (limit - first) = Some (limit - first)" if "first < limit"
    using that assms(2) cxx_min_nonpos [of I] by (intro index_exact) linarith+
  consider (empty) "first \<ge> limit" | (inline) "first < limit" "on_worker \<or> narrow_int (int pool_size) \<le> 0"
    | (chunks) "first < limit" "\<not> on_worker" "0 < narrow_int (int pool_size)" by linarith
  then show ?thesis
  proof cases
    case empty
    then have "parallel_for I on_worker pool_size first limit max_workers start outcome = Some ([], None)"
      by (simp add: parallel_for_def)
    with empty show ?thesis by (intro exI [of _ "[]"] exI [of _ None] exI [of _ first]) simp
  next
    case inline
    then have "parallel_for I on_worker pool_size first limit max_workers start outcome =
        Some ([(first, limit)], outcome first limit)" using span by (auto simp: parallel_for_def)
    with inline show ?thesis
      by (intro exI [of _ "[(first, limit)]"] exI [of _ "outcome first limit"] exI [of _ limit]) simp
  next
    case chunks
    let ?wc = "pool_worker_count pool_size max_workers (limit - first)"
    let ?chunk = "exact_chunk (limit - first) ?wc"
    obtain cs f where h: "exact_chunks start first limit ?chunk [0..<nat ?wc] = (cs, f)" by fastforce
    have wc: "0 < ?wc" by (rule pool_worker_count_pos)
    have le: "?wc \<le> int pool_size" by (rule pool_worker_count_le [OF chunks(3)])
    have room: "max limit (limit - first) + ?wc \<le> cxx_max I" using assms(2) le by linarith
    have "chunk_size I (limit - first) ?wc = Some ?chunk" using chunks(1) wc room by (intro chunk_size_exact) linarith+
    moreover have "hand_over I start first limit ?chunk [0..<nat ?wc] = Some (cs, f)"
      using hand_over_exact [OF chunks(1) wc assms(1) room, of "[0..<nat ?wc]" start] h by auto
    ultimately have run: "parallel_for I on_worker pool_size first limit max_workers start outcome =
        Some (map snd cs, case f of Some e \<Rightarrow> Some e | None \<Rightarrow> first_failure (map (\<lambda>(_, b, e). outcome b e) cs))"
      using chunks span by (simp add: parallel_for_def Let_def)
    have b: "0 < ?chunk" "limit - first \<le> ?wc * ?chunk" using exact_chunk_bounds [of "limit - first" ?wc] wc chunks(1) by simp_all
    obtain m where m: "ranges_of cs = [first..m - 1]" "m \<le> limit" "f = None \<longrightarrow> m = limit"
      using exact_chunks_ranges [OF b(1) _ _ h] b(2) wc by auto
    note cs = exact_chunks_inside [OF h b(1)]
    have "length (map snd cs) \<le> nat ?wc" using cs by simp
    then have len: "length (map snd cs) \<le> max 1 pool_size" using le by linarith
    have concat: "concat (map (\<lambda>(b, e). [b..e - 1]) (map snd cs)) = [first..m - 1]"
      using m(1) by (simp add: comp_def case_prod_unfold)
    have inside: "\<forall>(b, e) \<in> set (map snd cs). b < e" using cs by fastforce
    show ?thesis
    proof (intro exI conjI, rule run, rule concat)
      show "m \<le> max first limit" using m(2) by linarith
      show "(case f of Some e \<Rightarrow> Some e | None \<Rightarrow> first_failure (map (\<lambda>(_, b, e). outcome b e) cs)) = None \<longrightarrow>
          m = max first limit \<and> (\<forall>(b, e) \<in> set (map snd cs). outcome b e = None)"
        using m(3) chunks(1) by (auto simp: first_failure_None split: option.splits)
      show "m \<noteq> max first limit \<longrightarrow> (\<exists>worker < pool_size. start worker \<noteq> None \<and>
          (case f of Some e \<Rightarrow> Some e | None \<Rightarrow> first_failure (map (\<lambda>(_, b, e). outcome b e) cs)) = start worker)"
      proof
        assume "m \<noteq> max first limit"
        then obtain e where e: "f = Some e" using m(3) chunks(1) by (cases f) auto
        obtain w where "w \<in> set [0..<nat ?wc]" "start w = Some e" using exact_chunks_failure [OF h [unfolded e]] by blast
        with le e show "\<exists>worker < pool_size. start worker \<noteq> None \<and>
            (case f of Some e \<Rightarrow> Some e | None \<Rightarrow> first_failure (map (\<lambda>(_, b, e). outcome b e) cs)) = start worker"
          by (intro exI [of _ w]) auto
      qed
    qed (rule inside, rule len)
  qed
qed

text \<open>Without that room the chunks of an unsigned index type wrap: the last chunk begins at zero.\<close>

lemma parallel_for_wraps:
  "parallel_for \<lparr>is_signed = False, int_width = 32\<rparr> False 8 4294967286 4294967295 (-1) (\<lambda>_. None) (\<lambda>_ _. None :: nat option) =
     Some ([(4294967286, 4294967288), (4294967288, 4294967290), (4294967290, 4294967292), (4294967292, 4294967294),
       (4294967294, 0), (0, 2), (2, 4), (4, 6)], None)"
  by code_simp

text \<open>A parallel range that returns without an exception has called the function on consecutive parts
  of the range, which together are the whole range, each in its own lane, with the same room.\<close>

theorem parallel_range_partitions:
  assumes "parallel_for_range_indexed I first limit num_workers cpus placement start finish outcome = Some (chunks, None)"
    and "\<And>cs. mset (finish cs) = mset cs"
    and "cxx_min I \<le> first" "max limit (limit - first) + max 1 num_workers \<le> cxx_max I"
  shows "ranges_of chunks = [first..limit - 1] \<and> distinct (map fst chunks) \<and>
    (\<forall>(w, b, e) \<in> set chunks. outcome w b e = None)"
proof (cases "first \<ge> limit")
  case True
  with assms(1) show ?thesis by (simp add: parallel_for_range_indexed_def)
next
  case False
  have span: "index_result I (limit - first) = Some (limit - first)"
    using False assms(4) cxx_min_nonpos [of I] by (intro index_exact) linarith+
  with assms(1) False obtain wc where wc: "range_worker_count I (limit - first) num_workers (placed_cpus placement cpus) = Inr wc"
    by (cases "range_worker_count I (limit - first) num_workers (placed_cpus placement cpus)")
      (auto simp: parallel_for_range_indexed_def)
  show ?thesis
  proof (cases "wc = 1")
    case True
    with assms(1) False wc span show ?thesis by (auto simp: parallel_for_range_indexed_def)
  next
    case many: False
    let ?chunk = "exact_chunk (limit - first) wc"
    have pos: "0 < wc" "wc \<le> max 1 num_workers" using range_worker_count_bounds [OF wc] by simp_all
    have room: "max limit (limit - first) + wc \<le> cxx_max I" using assms(4) pos(2) by linarith
    obtain cs f where h: "exact_chunks start first limit ?chunk [0..<nat wc] = (cs, f)" by fastforce
    have "chunk_size I (limit - first) wc = Some ?chunk" using False pos room by (intro chunk_size_exact) linarith+
    moreover have "hand_over I start first limit ?chunk [0..<nat wc] = Some (cs, f)"
      using hand_over_exact [OF _ pos(1) assms(3) room, of "[0..<nat wc]" start] h False by auto
    ultimately have f: "cs = chunks" "f = None" "first_failure (map (\<lambda>(w, b, e). outcome w b e) (finish chunks)) = None"
      using assms(1) False wc many span by (auto simp: parallel_for_range_indexed_def split: option.splits)
    note h = h [unfolded f]
    have b: "0 < ?chunk" "limit - first \<le> wc * ?chunk" using exact_chunk_bounds [of "limit - first" wc] False pos by simp_all
    have "ranges_of chunks = [first..limit - 1]"
      using exact_chunks_ranges [OF b(1) _ _ h] b(2) pos(1) by auto
    moreover have "distinct (map fst chunks)" using exact_chunks_lanes [OF h] by (simp add: distinct_lanes)
    moreover have "set (finish chunks) = set chunks" using assms(2) by (metis set_mset_mset)
    then have "\<forall>(w, b, e) \<in> set chunks. outcome w b e = None" using f(3) by (fastforce simp: first_failure_None)
    ultimately show ?thesis by blast
  qed
qed

theorem parallel_for_partitions_witness:
  "parallel_for \<lparr>is_signed = False, int_width = 32\<rparr> False 4 10 21 (-1) (\<lambda>_. None) (\<lambda>_ _. None :: nat option) =
     Some ([(10, 13), (13, 16), (16, 19), (19, 21)], None) \<and>
   concat (map (\<lambda>(b, e). [b..e - 1]) [(10, 13), (13, 16), (16, 19), (19, 21 :: int)]) = [10..20]"
proof -
  let ?I = "\<lparr>is_signed = False, int_width = 32\<rparr>"
  have p: "parallel_for ?I False 4 10 21 (-1) (\<lambda>_. None) (\<lambda>_ _. None :: nat option) =
      Some ([(10, 13), (13, 16), (16, 19), (19, 21)], None)" by code_simp
  have "cxx_min ?I \<le> 10" "max 21 (21 - 10) + max 1 (int 4) \<le> cxx_max ?I" by (simp_all add: cxx_min_def cxx_max_def)
  from parallel_for_partitions [OF this, of False "- 1" "\<lambda>_. None" "\<lambda>_ _. None :: nat option"] p
  show ?thesis by auto
qed

theorem parallel_range_partitions_witness:
  "parallel_for_range_indexed \<lparr>is_signed = False, int_width = 64\<rparr> 0 5 2 [0, 1, 2] None
     (\<lambda>_. None) rev (\<lambda>_ _ _. None) = Some ([(0, 0, 3), (1, 3, 5)], None) \<and>
   ranges_of [(0, 0, 3), (1, 3, 5)] = [0..4]"
proof -
  let ?I = "\<lparr>is_signed = False, int_width = 64\<rparr>"
  have p: "parallel_for_range_indexed ?I 0 5 2 [0, 1, 2] None (\<lambda>_. None) rev (\<lambda>_ _ _. None) =
      Some ([(0, 0, 3), (1, 3, 5)], None)" by code_simp
  from parallel_range_partitions [OF p] p show ?thesis by (simp add: cxx_min_def cxx_max_def)
qed

end
