(* ===== verification/Spec2Isabelle.thy ===== *)
theory Spec2Isabelle
  imports Common_Math Common_Text Common_Workspace Mask_Projection Cbor_Roundtrip Cbor_Structural Browser_Server_Safety Workspace_Input Storage_Reservation Keypoint_Schema Cpu_Affinity Sampling_Selection Class_Descriptor Model_Info Thumbnail_Cache Assignment_Optimal Compiled_Layout File_Handle Worker_Pool_Safety Parallel_For
begin

text \<open>
  A verification development of the Multi Model Loader Toolkit: dataset compilation, RF-DETR training and
  inference, and a browser application around them, in C++. Paths below are relative to \<open>src/src/\<close>.
  The development models the parts that carry logic of their own and leaves out the calls of CUDA,
  libtorch, FFmpeg and other libraries; the last section says what and why.

  \<^bold>\<open>The program and how its parts interact.\<close> \<open>common\<close> holds arithmetic, text helpers, files, processor
  affinity and the worker pool that the rest runs on. \<open>backend/data\<close> compiles datasets: it samples images
  from the source datasets, turns their masks into runs, promises disk space, lays out the compiled file
  and writes it. \<open>backend/models/rfdetr\<close> describes models: which classes, keypoints and outputs an
  artifact has, and, in training, how predictions are matched to targets. \<open>frameworks/serialization\<close> is the
  binary wire format of every message and descriptor, \<open>frameworks/transport\<close> the server that exchanges
  these messages with the browser, and \<open>controller\<close> the application: the gallery with its thumbnails, the
  mouse input of a workspace, and the remaining services.

  \<^bold>\<open>Theories and files.\<close>

  \<^item> \<open>Prelude\<close>: integer widths, results (\<open>cxx_error + 'a\<close> for what throws, \<open>bindr\<close> for early returns,
    \<open>and_then\<close> for operations that throw part-way), and generic lemmas. \<open>Ascii_Text\<close>: literals and decimal
    numerals as bytes. \<open>Ring_Buffer\<close>: circular storage, and the locale \<open>fifo_queue\<close>.
  \<^item> \<open>Common_Math\<close>, \<open>Common_Text\<close>, \<open>Common_Workspace\<close>: \<open>common/math\<close> and \<open>common/types\<close>, that is checked
    arithmetic, the 64-bit mixer, identities and hashes, UTF-8 validation, hexadecimal text, sorted
    unique lists, constant-time comparison, and the growing workspace buffers.
  \<^item> \<open>Cpu_Affinity\<close>: \<open>common/system/cpu_affinity.cpp\<close>, the lists of processors and their resolution.
  \<^item> \<open>Worker_Pool\<close>, \<open>Worker_Pool_Run\<close>, \<open>Worker_Pool_Safety\<close>: \<open>common/concurrency/worker_pool.{h,cpp}\<close>. The
    record \<open>pool\<close> has the fields of \<open>WorkerPool::Impl\<close>, plus where each thread is, the notifications that
    are still to come and the histories of admitted and taken tasks. \<open>Parallel_For\<close>: \<open>parallel_for\<close> of
    that header and \<open>parallel_range.h\<close>.
  \<^item> \<open>File_Handle\<close>: \<open>common/io/file_memory.cpp\<close>, the loops around partial system calls.
  \<^item> \<open>Mask_Rle\<close>, \<open>Mask_Projection\<close>: \<open>backend/data/mask_rle_utils.cpp\<close>, the run-length codec of masks and
    their resumable resampling.
  \<^item> \<open>Sampling_Shards\<close>, \<open>Sampling_Selection\<close>: \<open>backend/data/benchmark/benchmark_sampling.cpp\<close>.
  \<^item> \<open>Storage_Reservation\<close>: \<open>backend/data/storage_reservation.cpp\<close>. \<open>Compiled_Layout\<close>: the layouts, the
    header and its validation of \<open>backend/data/compiled\<close>.
  \<^item> \<open>Keypoint_Schema\<close>, \<open>Class_Catalog\<close>, \<open>Coco_Catalog\<close>: \<open>backend/data/catalog\<close>, the classes of a dataset
    with their keypoints.
  \<^item> \<open>Output_Roles\<close>, \<open>Class_Layout\<close>, \<open>Class_Descriptor\<close>, \<open>Keypoint_Layout\<close>, \<open>Model_Info\<close>:
    \<open>backend/models/rfdetr/contract\<close> and \<open>core\<close>, the classes, outputs and keypoint axis of an artifact.
    They use the catalog above.
  \<^item> \<open>Assignment_Solver\<close>, \<open>Assignment_Optimal\<close>: \<open>backend/models/rfdetr/core/scipy_rectangular_lsap.cpp\<close>, the
    solver that matches predictions to targets, first with any arithmetic, then with an exact one.
  \<^item> \<open>Cbor_Types\<close>, \<open>Cbor_Reader\<close>, \<open>Cbor_Writer\<close>, \<open>Cbor_Structural\<close>: \<open>frameworks/serialization/cbor_wire.{h,cpp}\<close>.
    \<open>Cbor_Spec\<close> is the abstract wire format, \<open>Cbor_Encode\<close>, \<open>Cbor_Decode\<close>, \<open>Cbor_Float\<close> and \<open>Cbor_Roundtrip\<close>
    prove that the code implements it.
  \<^item> \<open>Transport_Ring\<close>, \<open>Browser_Server\<close>, \<open>Browser_Server_Run\<close>, \<open>Browser_Server_Safety\<close>:
    \<open>frameworks/transport/browser_record_ring.*\<close>, \<open>browser_server.cpp\<close> and their headers.
  \<^item> \<open>Workspace_Input\<close>: \<open>controller/presentation/workspace_input.*\<close>. \<open>Thumbnail_Cache\<close>:
    \<open>controller/subsystems/explore/gallery_thumbnail_cache.*\<close>.

  \<^bold>\<open>State and interfaces.\<close> An object of the program is a record with the fields of its class, a method a
  function from the old object to the outcome and the new one; where the code can throw in the middle,
  the outcome comes with the object as it was left. Three interfaces are locales, each interpreted on the
  model: \<open>byte_sink\<close> (\<open>Cbor_Encode\<close>), what the storage of an encoder promises whether it counts, fills a
  span or grows a buffer, interpreted as \<open>sink\<close>; \<open>growable\<close> (\<open>Common_Workspace\<close>), what the owner of a
  growing buffer relies on, interpreted as \<open>workspace\<close>; and \<open>fifo_queue\<close> (\<open>Ring_Buffer\<close>), interpreted on the
  browser's record ring as \<open>ring\<close>, on the growing queue of mouse records as \<open>input\<close>, and on the task queue of
  the worker pool as \<open>work\<close>.

  \<^bold>\<open>What the lemmas show.\<close> Functional groups give the exact result of an operation on every branch: the
  encoder yields the canonical bytes or the first error, the decoder accepts exactly these bytes, a
  normalised list of file ranges covers the same bytes, a sample has the promised classes. Round trips
  compose them. The groups on transactions (encoder, decoder of a member, mask projection, thumbnail
  cache, file layout) show what a failure leaves behind. The two concurrent components are transition
  systems: an invariant is proved for every operation, then by induction over the reachable states, and
  the properties follow from it.

  The browser server runs its handlers on one thread and its publications on any; the model takes a
  handler, and what a publication does under the mutex, as one step. What uWebSockets and the application
  do in between is an argument of the steps, a record of the environment: how the application reacts
  (\<open>env_react\<close>, \<open>env_record\<close>, \<open>env_activated\<close>), how the socket takes a message (\<open>env_send\<close>), whether deferring
  throws (\<open>env_defer_throws\<close>) and what diagnostics do (\<open>env_diagnostic\<close>). The worker pool is modelled at the
  grain of its mutex and with condition variables: a waiting thread sleeps until it is notified or wakes
  on its own, and a notification after the mutex was let go is a step of its own. A caller is assumed to
  enqueue only while fewer than \<open>2 ^ 64 - 1\<close> tasks are pending, which memory guarantees.

  \<^bold>\<open>Bounds and fuel.\<close> Sizes are natural numbers bounded by \<open>size_max\<close> with the remainder written out where
  the code wraps; hashes, ordinals, masks and floating-point bits are words. Loops are structural
  recursions or have a termination proof, with these exceptions that count down a bound: normalising a
  half-precision number takes at most 10 shifts, the width of its fraction; scaling the
  quotient of two 64-bit numbers into a long double takes at most 127 doublings, since a quotient of two
  such numbers is above \<open>2 ^ -64\<close> and 63 more bring it to the width of the fraction; walking a bucket of the
  thumbnail cache at most one more step than there are slots, since the invariant makes the chain
  acyclic; flipping an augmenting path of the assignment at most one more step than there are rows,
  since each row is visited once; and probing the table of object keys at most its size, as in the code.
  System calls of \<open>File_Handle\<close> are a list of answers of the kernel; the result \<open>Blocked\<close> means that the
  list ended before the loop did, and \<open>pwritev_all_returns\<close> says how many answers are enough.
  The salt of the structural validator comes from addresses and is an arbitrary function.

  \<^bold>\<open>Findings.\<close> \<open>Class_Descriptor.repeated_descriptor_rejected\<close>: an artifact with an unresolved embedded
  layout is refused when its companion descriptor and the selected one are equal, because the first
  inherits class names from the embedded layout before it is compared with the second
  (\<open>class_layout.cpp\<close>, line 215); the theorem says exactly when. \<open>Worker_Pool_Safety.failure_reports_differ\<close>: after a task has thrown, the
  two ways to enqueue report different exceptions, against the comment in \<open>worker_pool.h\<close>.
  \<open>Parallel_For.parallel_for_wraps\<close>: near the maximum of an unsigned index type the chunks of \<open>parallel_for\<close>
  wrap and leave the range (\<open>worker_pool.h\<close>, line 96); \<open>parallel_for_partitions\<close> says how much room is enough.

  \<^bold>\<open>Not modelled.\<close> The dataset compiler, the loaders and the benchmark imports apart from the parts above
  are orchestration of files, memory maps, archives and threads. Imaging, augmentation, the loss, the
  evaluator, inference, export and the machine-learning runtime compute on tensors in libtorch, TensorRT,
  ONNX Runtime or CUDA, whose semantics is not in the repository. Media capture, logging, sockets and
  downloads are device and system I/O. Reflection and the browser bindings are generated from C++ types at
  compile time; what they put on the wire is modelled. The services, subsystems, shell, runtime and entry
  points wire these parts together. Of the modelled parts, diagnostics, the placement of threads on
  processors, and the opening and mapping of files are left out.
\<close>

end
